(* ===== verification/Vca_Prelude.thy ===== *)
theory Vca_Prelude
  imports Main "HOL-Library.Word"
begin

unbundle bit_operations_syntax

text \<open>
  Shared vocabulary of the development: the C integer types as words, C arrays behind a
  pointer as functions from an index to a cell, block copies, circular windows of an array,
  longs in byte memory, the result of a call and the error numbers of the kernel.
\<close>

section \<open>Types\<close>

type_synonym u8 = "8 word"
type_synonym u16 = "16 word"
type_synonym u32 = "32 word"
type_synonym u64 = "64 word"

text \<open>The memory behind a C pointer, addressed by element index.\<close>

type_synonym 'a mem = "nat \<Rightarrow> 'a"

section \<open>Block copies\<close>

text \<open>\<open>blit dst off src soff n\<close>: \<open>memcpy\<close> of \<open>n\<close> cells from \<open>src + soff\<close> to \<open>dst + off\<close>.\<close>

definition blit :: "'a mem \<Rightarrow> nat \<Rightarrow> 'a mem \<Rightarrow> nat \<Rightarrow> nat \<Rightarrow> 'a mem" where
  "blit dst off src soff n =
     (\<lambda>i. if off \<le> i \<and> i < off + n then src (soff + (i - off)) else dst i)"

lemma blit_0 [simp]: "blit dst off src soff 0 = dst"
  by (auto simp: blit_def fun_eq_iff)

lemma blit_outside [simp]: "i < off \<or> off + n \<le> i \<Longrightarrow> blit dst off src soff n i = dst i"
  by (auto simp: blit_def)

lemma blit_inside: "off \<le> i \<Longrightarrow> i < off + n \<Longrightarrow> blit dst off src soff n i = src (soff + (i - off))"
  by (simp add: blit_def)

section \<open>Circular windows\<close>

text \<open>
  \<open>circ m b N s n\<close> lists \<open>n\<close> cells of the ring of \<open>N\<close> cells that starts at index \<open>b\<close>
  of \<open>m\<close>, from position \<open>s\<close> on, wrapping at the end of the ring.
\<close>

definition circ :: "'a mem \<Rightarrow> nat \<Rightarrow> nat \<Rightarrow> nat \<Rightarrow> nat \<Rightarrow> 'a list" where
  "circ m b N s n = map (\<lambda>i. m (b + (s + i) mod N)) [0..<n]"

lemma length_circ [simp]: "length (circ m b N s n) = n"
  by (simp add: circ_def)

lemma circ_0 [simp]: "circ m b N s 0 = []"
  by (simp add: circ_def)

lemma nth_circ [simp]: "i < n \<Longrightarrow> circ m b N s n ! i = m (b + (s + i) mod N)"
  by (simp add: circ_def)

lemma circ_split: "circ m b N s (n + k) = circ m b N s n @ circ m b N (s + n) k"
  by (rule nth_equalityI) (auto simp: nth_append add.assoc)

lemma circ_Suc: "circ m b N s (Suc n) = m (b + s mod N) # circ m b N (Suc s) n"
  by (rule nth_equalityI) (auto simp: nth_Cons split: nat.splits)

lemma circ_mod: "circ m b N (s mod N) n = circ m b N s n"
  by (rule nth_equalityI) (auto simp: mod_add_left_eq)

lemma circ_mod_cong: "s mod N = s' mod N \<Longrightarrow> circ m b N s n = circ m b N s' n"
  by (metis circ_mod)

lemma circ_cong:
  "(\<And>i. i < n \<Longrightarrow> m (b + (s + i) mod N) = m' (b + (s + i) mod N)) \<Longrightarrow>
   circ m b N s n = circ m' b N s n"
  by (simp add: circ_def)

lemma circ_take: "k \<le> n \<Longrightarrow> take k (circ m b N s n) = circ m b N s k"
  by (rule nth_equalityI) auto

lemma circ_drop: "k \<le> n \<Longrightarrow> drop k (circ m b N s n) = circ m b N (s + k) (n - k)"
  by (rule nth_equalityI) (auto simp: add.assoc)

text \<open>
  Two positions of a ring that are less than a full turn apart are different cells.
\<close>

lemma mod_turn_neq:
  fixes s i j N :: nat
  assumes "i < j" and "j < i + N"
  shows "(s + i) mod N \<noteq> (s + j) mod N"
proof
  assume "(s + i) mod N = (s + j) mod N"
  then have "N dvd (s + j) - (s + i)"
    using assms by (metis add_le_cancel_left less_imp_le mod_eq_dvd_iff_nat)
  then have "N dvd j - i" by simp
  with assms have "N \<le> j - i" by (simp add: dvd_imp_le)
  with assms show False by simp
qed

text \<open>Writing one cell just behind a window appends to it.\<close>

lemma circ_write_last:
  assumes "n < N"
  shows "circ (m(b + (s + n) mod N := x)) b N s (Suc n) = circ m b N s n @ [x]"
proof (rule nth_equalityI)
  fix i assume "i < length (circ (m(b + (s + n) mod N := x)) b N s (Suc n))"
  then have i: "i < Suc n" by simp
  show "circ (m(b + (s + n) mod N := x)) b N s (Suc n) ! i = (circ m b N s n @ [x]) ! i"
  proof (cases "i = n")
    case True
    then show ?thesis by (simp add: nth_append)
  next
    case False
    with i have "i < n" by simp
    moreover from this assms have "(s + i) mod N \<noteq> (s + n) mod N"
      by (intro mod_turn_neq) auto
    ultimately show ?thesis by (simp add: nth_append)
  qed
qed simp

text \<open>
  A copy in two pieces, the first up to the end of the ring and the second from its start,
  is a circular write: the window behind the written cells grows by what was written.
\<close>

definition wrap_blit :: "'a mem \<Rightarrow> nat \<Rightarrow> nat \<Rightarrow> nat \<Rightarrow> 'a mem \<Rightarrow> nat \<Rightarrow> 'a mem" where
  "wrap_blit m b N p src n =
     (let k = min (N - p) n in blit (blit m (b + p) src 0 k) b src k (n - k))"

lemma wrap_blit_outside:
  assumes "p \<le> N" "n \<le> N" "i < b \<or> b + N \<le> i"
  shows "wrap_blit m b N p src n i = m i"
  using assms by (auto simp: wrap_blit_def Let_def blit_def min_def)

lemma wrap_blit_new:
  assumes "p \<le> N" "n < N" "j < n"
  shows "wrap_blit m b N p src n (b + (p + j) mod N) = src j"
proof (cases "p + j < N")
  case True
  with assms show ?thesis by (auto simp: wrap_blit_def Let_def blit_def min_def)
next
  case False
  with assms have m: "(p + j) mod N = p + j - N"
    by (simp add: le_mod_geq)
  have "p + j - N < n - (N - p)" and "N - p \<le> n"
    using False assms by linarith+
  with False assms show ?thesis
    unfolding m by (auto simp: wrap_blit_def Let_def blit_def min_def)
qed

lemma wrap_blit_old:
  assumes "p \<le> N" "n < N" "n \<le> j" "j < N"
  shows "wrap_blit m b N p src n (b + (p + j) mod N) = m (b + (p + j) mod N)"
proof (cases "p + j < N")
  case True
  with assms show ?thesis by (auto simp: wrap_blit_def Let_def blit_def min_def)
next
  case False
  with assms have m: "(p + j) mod N = p + j - N"
    by (simp add: le_mod_geq)
  show ?thesis
    unfolding m using False assms by (auto simp: wrap_blit_def Let_def blit_def min_def)
qed

lemma circ_wrap_blit:
  assumes "p \<le> N" "u + n < N" "(s + u) mod N = p mod N"
  shows "circ (wrap_blit m b N p src n) b N s (u + n) = circ m b N s u @ map src [0..<n]"
proof -
  have shift: "(s + i) mod N = (p + (N + i - u)) mod N" if "u \<le> N + i" for i
  proof -
    have "(s + i) mod N = (s + u + (N + i - u)) mod N"
      using that by (metis add.assoc add.commute le_add_diff_inverse mod_add_self2)
    also have "\<dots> = (p + (N + i - u)) mod N"
      using assms(3) by (metis mod_add_left_eq)
    finally show ?thesis .
  qed
  have "circ (wrap_blit m b N p src n) b N s u = circ m b N s u"
  proof (rule circ_cong)
    fix i assume "i < u"
    with assms show "wrap_blit m b N p src n (b + (s + i) mod N) = m (b + (s + i) mod N)"
      using wrap_blit_old [of p N n "N + i - u" m b src] by (simp add: shift)
  qed
  moreover have "circ (wrap_blit m b N p src n) b N (s + u) n = map src [0..<n]"
  proof (rule nth_equalityI)
    fix j assume "j < length (circ (wrap_blit m b N p src n) b N (s + u) n)"
    then have j: "j < n" by simp
    have "(s + u + j) mod N = (p + j) mod N"
      using assms(3) by (metis mod_add_left_eq)
    with j assms show "circ (wrap_blit m b N p src n) b N (s + u) n ! j = map src [0..<n] ! j"
      by (simp add: wrap_blit_new)
  qed simp
  ultimately show ?thesis by (simp add: circ_split)
qed

text \<open>A window read in two pieces, the first up to the end of the ring.\<close>

definition wrap_read :: "'a mem \<Rightarrow> nat \<Rightarrow> nat \<Rightarrow> nat \<Rightarrow> 'a mem \<Rightarrow> nat \<Rightarrow> 'a mem" where
  "wrap_read m b N p dst n =
     (let k = min (N - p) n in blit (blit dst 0 m (b + p) k) k m b (n - k))"

lemma wrap_read_new:
  assumes "p \<le> N" "n < N" "j < n"
  shows "wrap_read m b N p dst n j = m (b + (p + j) mod N)"
proof (cases "p + j < N")
  case True
  with assms show ?thesis by (auto simp: wrap_read_def Let_def blit_def min_def ac_simps)
next
  case False
  with assms have "(p + j) mod N = p + j - N"
    by (simp add: le_mod_geq)
  moreover have "b + (j - min (N - p) n) = b + (p + j - N)" and "\<not> j < min (N - p) n"
    using False assms by (auto simp: min_def)
  ultimately show ?thesis
    using False assms by (simp add: wrap_read_def Let_def blit_def)
qed

lemma wrap_read_old: "n \<le> j \<Longrightarrow> wrap_read m b N p dst n j = dst j"
  by (auto simp: wrap_read_def Let_def blit_def min_def)

lemma map_wrap_read:
  assumes "p \<le> N" "n < N" "s mod N = p mod N"
  shows "map (wrap_read m b N p dst n) [0..<n] = circ m b N s n"
proof (rule nth_equalityI)
  fix i assume "i < length (map (wrap_read m b N p dst n) [0..<n])"
  moreover have "(p + i) mod N = (s + i) mod N"
    using assms(3) by (metis mod_add_left_eq)
  ultimately show "map (wrap_read m b N p dst n) [0..<n] ! i = circ m b N s n ! i"
    using assms by (simp add: wrap_read_new)
qed simp

section \<open>Positions of a ring\<close>

text \<open>A ring position after \<open>n\<close> more cells, where the end \<open>N\<close> of the ring is itself a position.\<close>

definition ring_next :: "nat \<Rightarrow> nat \<Rightarrow> nat \<Rightarrow> nat" where
  "ring_next N p n = (if N - p < n then n - (N - p) else p + n)"

lemma ring_next_le: "p \<le> N \<Longrightarrow> n \<le> N \<Longrightarrow> ring_next N p n \<le> N"
  by (auto simp: ring_next_def)

lemma ring_next_mod: "p \<le> N \<Longrightarrow> n \<le> N \<Longrightarrow> ring_next N p n mod N = (p + n) mod N"
proof (cases "N - p < n")
  case True
  assume "p \<le> N"
  with True have "p + n = ring_next N p n + N" by (simp add: ring_next_def)
  then show ?thesis by simp
qed (simp add: ring_next_def)

lemma used_after_put:
  fixes p r n N :: nat
  assumes "p \<le> N" "r \<le> N" "(p + N - r) mod N + n < N"
  shows "(ring_next N p n + N - r) mod N = (p + N - r) mod N + n"
proof -
  have q: "ring_next N p n \<le> N" using assms by (intro ring_next_le) auto
  then have "(ring_next N p n + N - r) mod N = (ring_next N p n + (N - r)) mod N"
    using assms(2) by simp
  also have "\<dots> = (ring_next N p n mod N + (N - r)) mod N"
    by (simp only: mod_add_left_eq)
  also have "\<dots> = ((p + n) mod N + (N - r)) mod N"
    using assms by (subst ring_next_mod) auto
  also have "\<dots> = (p + n + (N - r)) mod N"
    by (simp only: mod_add_left_eq)
  also have "p + n + (N - r) = (p + N - r) + n" using assms(2) by simp
  also have "\<dots> mod N = ((p + N - r) mod N + n) mod N"
    by (simp only: mod_add_left_eq)
  also have "\<dots> = (p + N - r) mod N + n" using assms(3) by (rule mod_less)
  finally show ?thesis .
qed

lemma add_mod_cancel_nat:
  fixes a b c N :: nat
  assumes "(a + c) mod N = (b + c) mod N"
  shows "a mod N = b mod N"
proof -
  have "(int a + int c) mod int N = (int b + int c) mod int N"
    using assms by (metis of_nat_add zmod_int)
  then have "int a mod int N = int b mod int N"
    by (metis add_diff_cancel_right' mod_diff_left_eq)
  then show ?thesis by (metis nat_int zmod_int)
qed

lemma used_after_get:
  fixes p r n N :: nat
  assumes "0 < N" "p \<le> N" "r \<le> N" "n \<le> (p + N - r) mod N"
  shows "(p + N - ring_next N r n) mod N = (p + N - r) mod N - n"
proof -
  have n: "n \<le> N" using assms mod_less_divisor [of N "p + N - r"] by linarith
  then have q: "ring_next N r n \<le> N" using assms by (intro ring_next_le) auto
  let ?u = "(p + N - r) mod N"
  have "(p + N - ring_next N r n + (r + n)) mod N = (p + N - ring_next N r n + ring_next N r n) mod N"
    using ring_next_mod [OF assms(3) n] by (metis mod_add_right_eq)
  also have "\<dots> = (p + N - r + r) mod N" using assms q by simp
  also have "\<dots> = (?u + r) mod N" by (simp only: mod_add_left_eq)
  also have "?u + r = (?u - n) + (r + n)" using assms(4) by simp
  finally have "(p + N - ring_next N r n) mod N = (?u - n) mod N"
    by (rule add_mod_cancel_nat)
  also have "\<dots> = ?u - n"
    using mod_less_divisor [OF assms(1), of "p + N - r"] by (intro mod_less) linarith
  finally show ?thesis .
qed

lemma mod_diff_unique:
  fixes l u P c :: nat
  assumes "l < P" "u < P" "(l + u) mod P = c"
  shows "(c + P - l) mod P = u"
proof (cases "l + u < P")
  case True
  with assms(3) have "c + P - l = u + P" by simp
  with assms(2) show ?thesis by simp
next
  case False
  with assms have "c = l + u - P" by (simp add: le_mod_geq)
  with False assms(2) show ?thesis by simp
qed

lemma upt_add_Suc: "[m..<m + Suc n] = m # [Suc m..<Suc m + n]"
  by (simp add: upt_conv_Cons del: upt_Suc)

lemma unat_bound: "unat (w :: 'a::len word) < 2 ^ LENGTH('a)"
  by simp

section \<open>Longs in byte memory\<close>

text \<open>The little-endian long at byte address \<open>a\<close>, and byte \<open>i\<close> of a long.\<close>

fun le_val :: "u8 list \<Rightarrow> nat" where
  "le_val [] = 0"
| "le_val (b # bs) = unat b + 256 * le_val bs"

definition long_at :: "u8 mem \<Rightarrow> nat \<Rightarrow> u64" where
  "long_at m a = of_nat (le_val (map (\<lambda>i. m (a + i)) [0..<8]))"

definition byte_of :: "u64 \<Rightarrow> nat \<Rightarrow> u8" where
  "byte_of w i = of_nat (unat w div 256 ^ i)"

lemma unat_u8_less: "unat (b :: u8) < 256"
  using unsigned_less [of b] by simp

lemma le_val_less: "le_val bs < 256 ^ length bs"
proof (induction bs)
  case (Cons b bs)
  then show ?case using unat_u8_less [of b] by simp
qed simp

lemma le_val_digit: "i < length bs \<Longrightarrow> (of_nat (le_val bs div 256 ^ i) :: u8) = bs ! i"
proof (induction bs arbitrary: i)
  case (Cons b bs)
  show ?case
  proof (cases i)
    case 0
    have "(of_nat (unat b + 256 * le_val bs) :: u8) = of_nat (unat b)"
      unfolding word_of_nat_eq_iff by (simp add: take_bit_eq_mod)
    with 0 show ?thesis by simp
  next
    case (Suc j)
    have "(unat b + 256 * le_val bs) div 256 ^ Suc j = le_val bs div 256 ^ j"
      using unat_u8_less [of b] by (simp add: div_mult2_eq)
    with Suc Cons show ?thesis by simp
  qed
qed simp

lemma byte_of_long_at: "i < 8 \<Longrightarrow> byte_of (long_at m a) i = m (a + i)"
proof -
  let ?bs = "map (\<lambda>i. m (a + i)) [0..<8]"
  assume i: "i < 8"
  have "le_val ?bs < 2 ^ 64" using le_val_less [of ?bs] by simp
  then have "unat (long_at m a) = le_val ?bs"
    unfolding long_at_def by (simp add: unat_of_nat take_bit_nat_eq_self del: le_val.simps)
  with le_val_digit [of i ?bs] i show ?thesis by (simp add: byte_of_def del: le_val.simps)
qed

lemma le_val_digits: "le_val (map (\<lambda>i. of_nat (n div 256 ^ i)) [0..<k]) = n mod 256 ^ k"
proof (induction k arbitrary: n)
  case (Suc k)
  have "map (\<lambda>i. of_nat (n div 256 ^ i) :: u8) [0..<Suc k] =
      of_nat n # map (\<lambda>i. of_nat (n div 256 div 256 ^ i)) [0..<k]"
    by (simp add: upt_conv_Cons map_Suc_upt [symmetric] comp_def div_mult2_eq del: upt_Suc)
  then have "le_val (map (\<lambda>i. of_nat (n div 256 ^ i) :: u8) [0..<Suc k]) = n mod 256 + 256 * (n div 256 mod 256 ^ k)"
    using Suc [of "n div 256"] by (simp add: unat_of_nat take_bit_eq_mod)
  also have "\<dots> = n mod 256 ^ Suc k" by (simp add: mod_mult2_eq)
  finally show ?case .
qed simp

lemma long_at_byte_of: "(\<And>i. i < 8 \<Longrightarrow> m (a + i) = byte_of w i) \<Longrightarrow> long_at m a = w"
proof -
  assume m: "\<And>i. i < 8 \<Longrightarrow> m (a + i) = byte_of w i"
  have "map (\<lambda>i. m (a + i)) [0..<8] = map (\<lambda>i. of_nat (unat w div 256 ^ i)) [0..<8]"
    using m by (simp add: byte_of_def)
  then have "long_at m a = of_nat (unat w mod 256 ^ 8)"
    unfolding long_at_def by (simp only: le_val_digits)
  then show ?thesis using unat_bound [of w] by simp
qed

text \<open>The longs from byte address \<open>off\<close> on, and \<open>n\<close> longs stored there.\<close>

definition longs_at :: "u8 mem \<Rightarrow> nat \<Rightarrow> u64 mem" where
  "longs_at m off i = long_at m (off + 8 * i)"

definition store_longs :: "u8 mem \<Rightarrow> nat \<Rightarrow> u64 mem \<Rightarrow> nat \<Rightarrow> u8 mem" where
  "store_longs m off ws n =
     (\<lambda>a. if off \<le> a \<and> a < off + 8 * n then byte_of (ws ((a - off) div 8)) ((a - off) mod 8) else m a)"

lemma store_longs_outside: "a < off \<or> off + 8 * n \<le> a \<Longrightarrow> store_longs m off ws n a = m a"
  by (auto simp: store_longs_def)

lemma store_longs_copy:
  assumes "map ws [0..<n] = map (longs_at m' off') [0..<n]" and "i < 8 * n"
  shows "store_longs m off ws n (off + i) = m' (off' + i)"
proof -
  have d: "i div 8 < n" using assms(2) by (simp add: less_mult_imp_div_less mult.commute)
  with assms(1) have "ws (i div 8) = longs_at m' off' (i div 8)" by simp
  moreover have "byte_of (long_at m' (off' + 8 * (i div 8))) (i mod 8) = m' (off' + 8 * (i div 8) + i mod 8)"
    by (rule byte_of_long_at) simp
  ultimately show ?thesis
    using assms(2) by (simp add: store_longs_def longs_at_def add.assoc)
qed

section \<open>Results of a call\<close>

text \<open>
  \<open>Abort\<close> is a call that ends the process: a failed \<open>assert\<close>, \<open>exit\<close> or a NULL
  dereference. A function that may loop forever returns an option, \<open>None\<close> for no return.
\<close>

datatype 'a outcome = Ret 'a | Abort

text \<open>The error numbers of the kernel; its functions return their negation.\<close>

definition EIO :: int where "EIO = 5"
definition EAGAIN :: int where "EAGAIN = 11"
definition ENOMEM :: int where "ENOMEM = 12"
definition EBUSY :: int where "EBUSY = 16"
definition EACCES :: int where "EACCES = 13"
definition ENOTBLK :: int where "ENOTBLK = 15"
definition EFAULT :: int where "EFAULT = 14"
definition ENODEV :: int where "ENODEV = 19"
definition EINVAL :: int where "EINVAL = 22"
definition ENOSPC :: int where "ENOSPC = 28"
definition EDOM :: int where "EDOM = 33"
definition ELOOP :: int where "ELOOP = 40"
definition EPROTO :: int where "EPROTO = 71"

text \<open>Directions of a mapping for DMA, and a block of memory, \<open>struct kvec\<close> of the kernel.\<close>

datatype dma_data_direction = DMA_TO_DEVICE | DMA_FROM_DEVICE


record kvec =
  iov_base :: u64
  iov_len :: u64

section \<open>Bounds and widening\<close>

lemma unat_ucast_widen [simp]:
  "unat (ucast (n :: u32) :: u64) = unat n" "unat (ucast (c :: u16) :: u64) = unat c"
proof -
  have "unat n < 2 ^ 64" "unat c < 2 ^ 64"
    using unat_bound [of n] unat_bound [of c] by simp_all
  then show "unat (ucast n :: u64) = unat n" "unat (ucast c :: u64) = unat c"
    by (simp_all add: unsigned_ucast_eq take_bit_nat_eq_self)
qed

end
