(* ===== verification/Com_Msg.thy ===== *)
theory Com_Msg
  imports Vca_Prelude
begin

text \<open>
  Addresses and message headers of the communication library (com-library/include/vca_com_ds.h
  and shared/vca_com_ds.c), with their packed byte layout.
\<close>

section \<open>Data\<close>

record vca_com_addr =
  gateway :: "u8 list"
  gateway_port :: u16
  host :: "u8 list"
  host_port :: u16
  socket :: u8

definition VCA_COM_MSG_SEND :: u32 where "VCA_COM_MSG_SEND = 0"
definition VCA_COM_MSG_DELIVERY_FAILED :: u32 where "VCA_COM_MSG_DELIVERY_FAILED = 1"

record vca_com_msg_hdr =
  src :: vca_com_addr
  dst :: vca_com_addr
  hdr_length :: u64
  msg_type :: u32

definition addr_ok :: "vca_com_addr \<Rightarrow> bool" where
  "addr_ok a \<longleftrightarrow> length (gateway a) = 4 \<and> length (host a) = 4"

definition hdr_ok :: "vca_com_msg_hdr \<Rightarrow> bool" where
  "hdr_ok h \<longleftrightarrow> addr_ok (src h) \<and> addr_ok (dst h)"

section \<open>The packed layout\<close>

text \<open>Little-endian bytes of a number.\<close>

definition le_bytes :: "nat \<Rightarrow> nat \<Rightarrow> u8 list" where
  "le_bytes k n = map (\<lambda>i. of_nat (n div 256 ^ i)) [0..<k]"

lemma length_le_bytes [simp]: "length (le_bytes k n) = k"
  by (simp add: le_bytes_def)

lemma le_val_bytes: "le_val (le_bytes k n) = n mod 256 ^ k"
  unfolding le_bytes_def by (rule le_val_digits)

definition SIZEOF_ADDR :: nat where "SIZEOF_ADDR = 13"
definition SIZEOF_HDR :: nat where "SIZEOF_HDR = 38"

definition addr_bytes :: "vca_com_addr \<Rightarrow> u8 list" where
  "addr_bytes a = gateway a @ le_bytes 2 (unat (gateway_port a)) @ host a @
     le_bytes 2 (unat (host_port a)) @ [socket a]"

definition addr_of_bytes :: "u8 list \<Rightarrow> vca_com_addr" where
  "addr_of_bytes bs =
     \<lparr>gateway = take 4 bs, gateway_port = of_nat (le_val (take 2 (drop 4 bs))),
      host = take 4 (drop 6 bs), host_port = of_nat (le_val (take 2 (drop 10 bs))), socket = bs ! 12\<rparr>"

definition hdr_bytes :: "vca_com_msg_hdr \<Rightarrow> u8 list" where
  "hdr_bytes h = addr_bytes (src h) @ addr_bytes (dst h) @ le_bytes 8 (unat (hdr_length h)) @
     le_bytes 4 (unat (msg_type h))"

definition hdr_of_bytes :: "u8 list \<Rightarrow> vca_com_msg_hdr" where
  "hdr_of_bytes bs =
     \<lparr>src = addr_of_bytes (take 13 bs), dst = addr_of_bytes (take 13 (drop 13 bs)),
      hdr_length = of_nat (le_val (take 8 (drop 26 bs))), msg_type = of_nat (le_val (take 4 (drop 34 bs)))\<rparr>"

text \<open>The header at the start of a buffer and the message after it.\<close>

definition vca_com_msg_get_hdr :: "u8 list \<Rightarrow> vca_com_msg_hdr" where
  "vca_com_msg_get_hdr msg = hdr_of_bytes msg"

definition vca_com_msg_get_msg :: "u8 list \<Rightarrow> u8 list" where
  "vca_com_msg_get_msg msg = drop SIZEOF_HDR msg"

definition set_hdr :: "vca_com_msg_hdr \<Rightarrow> u8 list \<Rightarrow> u8 list" where
  "set_hdr h msg = hdr_bytes h @ drop SIZEOF_HDR msg"

section \<open>Operations\<close>

definition vca_com_init_addr ::
  "vca_com_addr option \<Rightarrow> u8 list \<Rightarrow> u16 \<Rightarrow> u8 list \<Rightarrow> u16 \<Rightarrow> u8 \<Rightarrow> int \<times> vca_com_addr option" where
  "vca_com_init_addr addr gw gwp h hp s =
     (case addr of
        None \<Rightarrow> (- 1, None)
      | Some a \<Rightarrow> (0, Some (a\<lparr>gateway := take 4 gw, gateway_port := gwp, host := take 4 h, host_port := hp,
                              socket := s\<rparr>)))"

text \<open>
  Number scanning as the C library does it: white space, an optional sign, digits of the base.
  The result is the value and the rest, \<open>None\<close> if there is no digit.
\<close>

definition is_space :: "char \<Rightarrow> bool" where
  "is_space ch \<longleftrightarrow> (of_char ch :: nat) \<in> {9, 10, 11, 12, 13, 32}"

definition digit_of :: "nat \<Rightarrow> char \<Rightarrow> nat option" where
  "digit_of base ch =
     (let c = of_char ch :: nat;
          d = (if 48 \<le> c \<and> c \<le> 57 then c - 48 else if 97 \<le> c \<and> c \<le> 122 then c - 87
               else if 65 \<le> c \<and> c \<le> 90 then c - 55 else 99)
      in if d < base then Some d else None)"

fun scan_digits :: "nat \<Rightarrow> nat \<Rightarrow> string \<Rightarrow> nat \<times> string" where
  "scan_digits base acc [] = (acc, [])"
| "scan_digits base acc (ch # s) =
     (case digit_of base ch of None \<Rightarrow> (acc, ch # s) | Some d \<Rightarrow> scan_digits base (acc * base + d) s)"

definition skip_sign :: "string \<Rightarrow> bool \<times> string" where
  "skip_sign s =
     (let t = dropWhile is_space s
      in case t of ch # r \<Rightarrow> (if ch = CHR ''-'' then (True, r) else if ch = CHR ''+'' then (False, r) else (False, t))
         | [] \<Rightarrow> (False, []))"

definition scan_number :: "nat \<Rightarrow> string \<Rightarrow> (int \<times> string) option" where
  "scan_number base s =
     (case skip_sign s of
        (neg, t) \<Rightarrow>
          (case t of
             [] \<Rightarrow> None
           | ch # _ \<Rightarrow>
               (if digit_of base ch = None then None
                else case scan_digits base 0 t of
                       (v, r) \<Rightarrow> Some (if neg then - int v else int v, r))))"

text \<open>\<open>strtoul (s, NULL, 0)\<close>: the base is read from the prefix; too large values saturate.\<close>

definition strtoul0 :: "string \<Rightarrow> u64" where
  "strtoul0 s =
     (case skip_sign s of
        (neg, t) \<Rightarrow>
          (let v = (case t of
                      CHR ''0'' # x # d # r \<Rightarrow>
                        (if (x = CHR ''x'' \<or> x = CHR ''X'') \<and> digit_of 16 d \<noteq> None
                         then fst (scan_digits 16 0 (d # r)) else fst (scan_digits 8 0 t))
                    | CHR ''0'' # r \<Rightarrow> fst (scan_digits 8 0 t)
                    | _ \<Rightarrow> fst (scan_digits 10 0 t))
           in if 2 ^ 64 \<le> v then - 1 else if neg then - of_nat v else of_nat v))"

text \<open>
  \<open>sscanf (ip, "%hhu.%hhu.%hhu.%hhu")\<close> into the four places from \<open>i\<close> on; the conversions
  before a mismatch have been stored.
\<close>

fun scan_quads :: "nat \<Rightarrow> nat \<Rightarrow> string \<Rightarrow> u8 list \<Rightarrow> bool \<times> u8 list" where
  "scan_quads i 0 s arr = (False, arr)"
| "scan_quads i (Suc n) s arr =
     (case scan_number 10 s of
        None \<Rightarrow> (True, arr)
      | Some (v, r) \<Rightarrow>
          (let arr' = arr[i := word_of_int v]
           in if n = 0 then (False, arr')
              else case r of
                     ch # r' \<Rightarrow> (if ch = CHR ''.'' then scan_quads (i + 1) n r' arr' else (True, arr'))
                   | [] \<Rightarrow> (True, arr')))"

text \<open>True is the nonzero result: not all four matched.\<close>

definition scan_ip_to_char :: "string \<Rightarrow> u8 list \<Rightarrow> bool \<times> u8 list" where
  "scan_ip_to_char ip arr = scan_quads 0 4 ip arr"

definition vca_com_init_addr_from_string ::
  "vca_com_addr option \<Rightarrow> string option \<Rightarrow> string option \<Rightarrow> string option \<Rightarrow> string option \<Rightarrow> string option
     \<Rightarrow> int \<times> vca_com_addr option" where
  "vca_com_init_addr_from_string addr gip gport hip hport sck =
     (case (addr, gip, gport, hip, hport, sck) of
        (Some a, Some gip', Some gport', Some hip', Some hport', Some sck') \<Rightarrow>
          (case (scan_ip_to_char gip' (gateway a), scan_ip_to_char hip' (host a)) of
             ((r1, gw), (r2, h)) \<Rightarrow>
               (if r1 \<or> r2 then 1 else 0,
                Some \<lparr>gateway = gw, gateway_port = ucast (strtoul0 gport'), host = h,
                      host_port = ucast (strtoul0 hport'), socket = ucast (strtoul0 sck')\<rparr>))
      | _ \<Rightarrow> (- 1, addr))"

text \<open>The copy; the result 1 says that it was done.\<close>

definition vca_com_cpy_addr ::
  "vca_com_addr option \<Rightarrow> vca_com_addr option \<Rightarrow> int \<times> vca_com_addr option" where
  "vca_com_cpy_addr s d = (case (s, d) of (Some a, Some _) \<Rightarrow> (1, Some a) | _ \<Rightarrow> (- 1, d))"

text \<open>The result, the header, and the two addresses of the caller.\<close>

definition vca_com_init_msg ::
  "vca_com_msg_hdr option \<Rightarrow> vca_com_addr option \<Rightarrow> vca_com_addr option \<Rightarrow> u64 \<Rightarrow>
   int \<times> vca_com_msg_hdr option \<times> vca_com_addr option \<times> vca_com_addr option" where
  "vca_com_init_msg mHdr s d len =
     (case (mHdr, s, d) of
        (Some h, Some _, Some _) \<Rightarrow>
          (if len < 1 then (- 1, mHdr, s, d)
           else
             (case vca_com_cpy_addr (Some (src h)) s of
                (r1, s') \<Rightarrow>
                  if r1 = 0 then (- 1, mHdr, s', d)
                  else
                    (case vca_com_cpy_addr (Some (dst h)) d of
                       (r2, d') \<Rightarrow>
                         if r2 = 0 then (- 1, mHdr, s', d')
                         else if len = 0 then (- 1, Some (h\<lparr>hdr_length := len\<rparr>), s', d')
                         else (0, Some (h\<lparr>hdr_length := len, msg_type := VCA_COM_MSG_SEND\<rparr>), s', d'))))
      | _ \<Rightarrow> (- 1, mHdr, s, d))"

section \<open>Layout lemmas\<close>

lemma length_addr_bytes [simp]: "addr_ok a \<Longrightarrow> length (addr_bytes a) = 13"
  by (simp add: addr_bytes_def addr_ok_def)

lemma length_hdr_bytes [simp]: "hdr_ok h \<Longrightarrow> length (hdr_bytes h) = 38"
  by (simp add: hdr_bytes_def hdr_ok_def)

lemma of_nat_le_val16: "(of_nat (le_val (le_bytes 2 (unat w))) :: u16) = w"
  using unat_bound [of w] by (simp add: le_val_bytes)

lemma of_nat_le_val32: "(of_nat (le_val (le_bytes 4 (unat w))) :: u32) = w"
  using unat_bound [of w] by (simp add: le_val_bytes)

lemma of_nat_le_val64: "(of_nat (le_val (le_bytes 8 (unat w))) :: u64) = w"
  using unat_bound [of w] by (simp add: le_val_bytes)

lemma addr_of_addr_bytes: "addr_ok a \<Longrightarrow> addr_of_bytes (addr_bytes a) = a"
  by (cases a) (simp add: addr_of_bytes_def addr_bytes_def addr_ok_def of_nat_le_val16 nth_append)

lemma hdr_of_hdr_bytes: "hdr_ok h \<Longrightarrow> hdr_of_bytes (hdr_bytes h @ rest) = h"
  by (cases h) (simp add: hdr_of_bytes_def hdr_bytes_def hdr_ok_def addr_of_addr_bytes of_nat_le_val32 of_nat_le_val64)

section \<open>Properties\<close>

text \<open>
  Initialising a message header copies the addresses the wrong way round: the header keeps
  its old addresses, and the caller's source and destination are overwritten with them, while
  the call reports success.
\<close>
theorem init_msg_backwards:
  assumes "1 \<le> len"
  shows "vca_com_init_msg (Some h) (Some s) (Some d) len =
    (0, Some (h\<lparr>hdr_length := len, msg_type := VCA_COM_MSG_SEND\<rparr>), Some (src h), Some (dst h))"
proof -
  have "len \<noteq> 0" "\<not> len < 1" using assms by auto
  then show ?thesis by (simp add: vca_com_init_msg_def vca_com_cpy_addr_def)
qed

definition example_addr :: "u8 \<Rightarrow> vca_com_addr" where
  "example_addr n = \<lparr>gateway = [0, 0, 0, 0], gateway_port = 0, host = [10, 0, 0, n], host_port = 80, socket = n\<rparr>"

definition example_hdr :: vca_com_msg_hdr where
  "example_hdr = \<lparr>src = example_addr 1, dst = example_addr 2, hdr_length = 0, msg_type = 0\<rparr>"

theorem init_msg_backwards_witness:
  "\<exists>h. vca_com_init_msg (Some example_hdr) (Some (example_addr 7)) (Some (example_addr 8)) 5 =
    (0, Some h, Some (example_addr 1), Some (example_addr 2)) \<and> src h = example_addr 1"
  using init_msg_backwards [of 5 example_hdr "example_addr 7" "example_addr 8"]
  by (simp add: example_hdr_def)

end
