(* ===== verification/Proc_Monad.thy ===== *)
theory Proc_Monad
  imports Vca_Prelude
begin

text \<open>
  Code that talks to the operating system: a procedure maps a world to a result and the next
  world. \<open>None\<close> is a procedure that does not return (it waits for a message that never comes),
  \<open>Abort\<close> a failed assertion, an \<open>exit\<close> or a crash.
\<close>

type_synonym ('w, 'a) proc = "'w \<Rightarrow> ('a \<times> 'w) outcome option"

definition give :: "'a \<Rightarrow> ('w, 'a) proc" where "give x = (\<lambda>w. Some (Ret (x, w)))"
definition die :: "('w, 'a) proc" where "die = (\<lambda>w. Some Abort)"
definition hang :: "('w, 'a) proc" where "hang = (\<lambda>w. None)"

definition andthen :: "('w, 'a) proc \<Rightarrow> ('a \<Rightarrow> ('w, 'b) proc) \<Rightarrow> ('w, 'b) proc" where
  "andthen m f = (\<lambda>w. case m w of None \<Rightarrow> None | Some Abort \<Rightarrow> Some Abort
     | Some (Ret (x, w')) \<Rightarrow> f x w')"

text \<open>An assertion of the code, a read of the world and a change of it.\<close>

definition require :: "bool \<Rightarrow> ('w, unit) proc" where
  "require b = (if b then give () else die)"

definition asks :: "('w \<Rightarrow> 'a) \<Rightarrow> ('w, 'a) proc" where "asks f = (\<lambda>w. Some (Ret (f w, w)))"
definition modify :: "('w \<Rightarrow> 'w) \<Rightarrow> ('w, unit) proc" where "modify f = (\<lambda>w. Some (Ret ((), f w)))"

lemma proc_simps [simp]:
  "give x w = Some (Ret (x, w))" "die w = Some Abort" "hang w = None"
  "asks g w = Some (Ret (g w, w))" "modify h w = Some (Ret ((), h w))"
  "require b w = (if b then Some (Ret ((), w)) else Some Abort)"
  by (simp_all add: give_def die_def hang_def asks_def modify_def require_def)

lemma andthen_ret [simp]: "m w = Some (Ret (x, w')) \<Longrightarrow> andthen m f w = f x w'"
  by (simp add: andthen_def)

lemma andthen_abort [simp]: "m w = Some Abort \<Longrightarrow> andthen m f w = Some Abort"
  by (simp add: andthen_def)

lemma andthen_none [simp]: "m w = None \<Longrightarrow> andthen m f w = None"
  by (simp add: andthen_def)

lemma andthen_eq_Ret:
  "andthen m f w = Some (Ret r) \<longleftrightarrow> (\<exists>x w'. m w = Some (Ret (x, w')) \<and> f x w' = Some (Ret r))"
  by (auto simp: andthen_def split: option.splits outcome.splits)

lemma andthen_require: "andthen (require b) f w = (if b then f () w else Some Abort)"
  by (simp add: andthen_def)

end
