(* ===== verification/Mem_Platform.thy ===== *)
theory Mem_Platform
  imports Proc_Monad
begin

unbundle bit_operations_syntax

text \<open>
  The platform layer of the memory-sharing library (mem-sharing-library/vca_mem.c): pagemap
  entries and physical addresses, contiguous allocations, the socket number of a card, MTRR
  ranges, and the mapping of remote memory through the sgx5 mapper.
\<close>

section \<open>The operating system\<close>

text \<open>
  What the code asks the system, as functions: the exit status of the \<open>lsmod\<close> pipe, the host
  name, \<open>pread\<close> on the process's pagemap (\<open>None\<close> is an error, a list the bytes read),
  \<open>memalign\<close> (0 is NULL), \<open>mlock\<close>, \<open>madvise\<close>, \<open>mmap\<close> of \<open>/dev/mem\<close>, whether the mapper's sysfs
  file can be read through \<open>popen\<close>, and what this
  file shows, after the commands written so far.
\<close>

datatype command =
    Mtrr_add u64 u64 string
  | Mapper_clear int int
  | Mapper_set u64 u64 int int

record os =
  o_lsmod :: int
  o_hostname :: string
  o_pagemap_fd :: int
  o_pread :: "nat \<Rightarrow> u8 list option"
  o_page_size :: u64
  o_stack :: u64
  o_memalign :: "nat \<Rightarrow> u64 \<Rightarrow> u64"
  o_mlock :: "u64 \<Rightarrow> u64 \<Rightarrow> bool"
  o_madvise :: "u64 \<Rightarrow> u64 \<Rightarrow> bool"
  o_popen :: "command list \<Rightarrow> bool"
  o_map_file :: "command list \<Rightarrow> int \<Rightarrow> int \<Rightarrow> (u64 \<times> u64 \<times> u64) option"
  o_mmap :: "u64 \<Rightarrow> u64 \<Rightarrow> u64"
  o_dev_mem :: bool
  o_malloc_ok :: bool

text \<open>The process: its memory in words at byte addresses, allocations made, commands run.\<close>

record process =
  memory :: "u64 \<Rightarrow> u64"
  allocs :: nat
  freed :: "u64 list"
  commands :: "command list"

definition PAGE_SIZE :: u64 where "PAGE_SIZE = 4096"
definition HOST :: int where "HOST = 0"
definition SIZE_2MB :: u64 where "SIZE_2MB = 0x200000"
definition READ :: int where "READ = 0"
definition WRITE :: int where "WRITE = 1"
definition REMOTE_RING_SIZE :: u64 where "REMOTE_RING_SIZE = 8192 * 8 * 8 + PAGE_SIZE"

lemmas platform_consts = PAGE_SIZE_def HOST_def SIZE_2MB_def READ_def WRITE_def REMOTE_RING_SIZE_def

section \<open>Physical addresses\<close>

record PagemapEntry =
  pfn :: "54 word"
  soft_dirty :: bool
  file_page :: bool
  swapped :: bool
  present :: bool

text \<open>Every read goes to the start of \<open>data\<close>: a short read overwrites its low bytes.\<close>

definition overwrite :: "u64 \<Rightarrow> u8 list \<Rightarrow> u64" where
  "overwrite data bs = long_at (\<lambda>i. if i < length bs then bs ! i else byte_of data i) 0"

function read_entry :: "os \<Rightarrow> u64 \<Rightarrow> nat \<Rightarrow> u64 \<Rightarrow> u64 option" where
  "read_entry os vaddr nread data =
     (if nread < 8 then
        (case o_pread os (unat (vaddr div o_page_size os * 8) + nread) of
           None \<Rightarrow> None
         | Some bs \<Rightarrow>
             (if bs = [] then None
              else read_entry os vaddr (nread + length bs) (overwrite data (take 8 bs))))
      else Some data)"
  by pat_completeness auto
termination
  by (relation "measure (\<lambda>(os, v, n, d). 8 - n)") (auto simp: neq_Nil_conv)

declare read_entry.simps [simp del]

definition decode_entry :: "u64 \<Rightarrow> PagemapEntry" where
  "decode_entry data =
     \<lparr>pfn = ucast (data AND (push_bit 54 1 - 1)),
      soft_dirty = (drop_bit 54 data AND 1 = 1),
      file_page = (drop_bit 61 data AND 1 = 1),
      swapped = (drop_bit 62 data AND 1 = 1),
      present = (drop_bit 63 data AND 1 = 1)\<rparr>"

definition get_entry :: "os \<Rightarrow> u64 \<Rightarrow> PagemapEntry option" where
  "get_entry os vaddr = map_option decode_entry (read_entry os vaddr 0 (o_stack os))"

definition virt_to_phys_user :: "os \<Rightarrow> u64 \<Rightarrow> u64" where
  "virt_to_phys_user os vaddr =
     (if o_pagemap_fd os < 0 then - 1
      else
        (case get_entry os vaddr of
           None \<Rightarrow> - 1
         | Some e \<Rightarrow> ucast (pfn e) * o_page_size os + vaddr mod o_page_size os))"

section \<open>Allocations\<close>

text \<open>\<open>memset\<close> to zero of a number of words at an address.\<close>

definition zero_words :: "u64 \<Rightarrow> nat \<Rightarrow> 'z process_scheme \<Rightarrow> 'z process_scheme" where
  "zero_words addr n p =
     p\<lparr>memory := (\<lambda>a. if a \<in> set (map (\<lambda>i. addr + of_nat (8 * i)) [0..<n]) then 0 else memory p a)\<rparr>"

definition memalign :: "os \<Rightarrow> u64 \<Rightarrow> ('z process_scheme, u64) proc" where
  "memalign os sz =
     andthen (asks allocs) (\<lambda>n.
     andthen (modify (\<lambda>p. p\<lparr>allocs := n + 1\<rparr>)) (\<lambda>_.
     give (o_memalign os n sz)))"

definition free_ptr :: "u64 \<Rightarrow> ('z process_scheme, unit) proc" where
  "free_ptr a = modify (\<lambda>p. p\<lparr>freed := freed p @ [a]\<rparr>)"

text \<open>The loop over the pages of the allocation: is each where contiguity wants it?\<close>

definition contiguous :: "os \<Rightarrow> u64 \<Rightarrow> bool" where
  "contiguous os vaddr =
     list_all (\<lambda>k. virt_to_phys_user os (vaddr + of_nat (4096 * k)) =
                  virt_to_phys_user os vaddr + of_nat (4096 * k)) [0..<512]"

text \<open>NULL (0) if the 2 MB are not physically contiguous.\<close>

definition get_contiguous_2MB :: "os \<Rightarrow> ('z process_scheme, u64) proc" where
  "get_contiguous_2MB os =
     andthen (memalign os SIZE_2MB) (\<lambda>vaddr.
     andthen (require (o_madvise os vaddr SIZE_2MB)) (\<lambda>_.
     andthen (require (o_mlock os vaddr SIZE_2MB)) (\<lambda>_.
       if contiguous os vaddr then
         andthen (require (vaddr \<noteq> 0)) (\<lambda>_.
         andthen (modify (zero_words vaddr (unat REMOTE_RING_SIZE div 8))) (\<lambda>_. give vaddr))
       else andthen (free_ptr vaddr) (\<lambda>_. give 0))))"

definition get_contiguous_4KB :: "os \<Rightarrow> ('z process_scheme, u64) proc" where
  "get_contiguous_4KB os =
     andthen (memalign os PAGE_SIZE) (\<lambda>vaddr.
     andthen (require (vaddr \<noteq> 0)) (\<lambda>_.
     andthen (require (o_mlock os vaddr PAGE_SIZE)) (\<lambda>_.
     andthen (modify (zero_words vaddr 512)) (\<lambda>_. give vaddr))))"

section \<open>Platform\<close>

definition get_local_platform_type :: "os \<Rightarrow> int" where
  "get_local_platform_type os = o_lsmod os"

definition digit_val :: "char \<Rightarrow> int" where
  "digit_val ch = (if 48 \<le> (of_char ch :: int) \<and> (of_char ch :: int) \<le> 57 then of_char ch - 48 else 0)"

text \<open>
  The last two characters of the name; a name of fewer than two characters reads before the
  buffer.
\<close>

definition get_card_self_socket_number :: "os \<Rightarrow> int outcome" where
  "get_card_self_socket_number os =
     (let hostname = take 255 (o_hostname os); hn_len = length hostname
      in if hn_len < 2 then Abort
         else Ret (digit_val (hostname ! (hn_len - 2)) * 3 + digit_val (hostname ! (hn_len - 1))))"

definition self_socket :: "os \<Rightarrow> ('w, int) proc" where
  "self_socket os = (case get_card_self_socket_number os of Abort \<Rightarrow> die | Ret n \<Rightarrow> give n)"

definition execute :: "command \<Rightarrow> ('z process_scheme, unit) proc" where
  "execute cmd = modify (\<lambda>p. p\<lparr>commands := commands p @ [cmd]\<rparr>)"

section \<open>MTRR ranges\<close>

text \<open>Doubling until the wanted value is reached; the shift drops the top bit.\<close>

partial_function (option) round_up_size :: "u64 \<Rightarrow> u64 \<Rightarrow> u64 option" where
  "round_up_size i sz = (if i < sz then round_up_size (push_bit 1 i) sz else Some i)"

definition setup_mtrr_mappings :: "u64 \<Rightarrow> u64 \<Rightarrow> int \<Rightarrow> ('z process_scheme, int) proc" where
  "setup_mtrr_mappings base sz remote_access_type =
     andthen (require (base mod PAGE_SIZE = 0)) (\<lambda>_.
     andthen (require (sz mod PAGE_SIZE = 0)) (\<lambda>_.
     andthen (require (remote_access_type = READ \<or> remote_access_type = WRITE)) (\<lambda>_.
       case round_up_size PAGE_SIZE sz of
         None \<Rightarrow> hang
       | Some sz' \<Rightarrow>
           (let base' = base AND (NOT sz' + 1);
                caching_type = (if remote_access_type = WRITE then ''write-combining'' else ''write-through'')
            in andthen (execute (Mtrr_add base' sz' caching_type)) (\<lambda>_. give 0)))))"

section \<open>Mapping remote memory\<close>

record transfer_mapping =
  physical_addr :: u64
  map_size :: u64
  mapping_type :: int
  map_socket :: int

definition get_local_mapping :: "os \<Rightarrow> int \<Rightarrow> int \<Rightarrow> ('z process_scheme, u64) proc" where
  "get_local_mapping os socket mapping_number =
     (let socket' = (if get_local_platform_type os \<noteq> HOST then 0 else socket)
      in andthen (asks commands) (\<lambda>cmds.
           if \<not> o_popen os cmds then give (- 1)
           else (case o_map_file os cmds socket' mapping_number of
             None \<Rightarrow> die
           | Some (remote_base, sz, local_base) \<Rightarrow>
               andthen (require (remote_base mod PAGE_SIZE = 0)) (\<lambda>_.
               andthen (require (sz mod PAGE_SIZE = 0)) (\<lambda>_.
               andthen (require (local_base mod PAGE_SIZE = 0)) (\<lambda>_. give local_base))))))"

definition setup_local_mappings :: "os \<Rightarrow> int \<Rightarrow> int \<Rightarrow> u64 \<Rightarrow> u64 \<Rightarrow> ('z process_scheme, u64) proc" where
  "setup_local_mappings os socket mapping_number base sz =
     andthen (require (base mod PAGE_SIZE = 0)) (\<lambda>_.
     andthen (require (sz mod PAGE_SIZE = 0)) (\<lambda>_.
     andthen (if socket = - 1 then self_socket os else give socket) (\<lambda>s.
       let s' = (if get_local_platform_type os \<noteq> HOST then 0 else s)
       in andthen (execute (Mapper_clear s' mapping_number)) (\<lambda>_.
          andthen (execute (Mapper_set base sz s' mapping_number)) (\<lambda>_.
          get_local_mapping os s' mapping_number)))))"

text \<open>\<open>mmap\<close> reports failure by MAP_FAILED (-1); the code compares with NULL.\<close>

definition map_phys_memory :: "os \<Rightarrow> u64 \<Rightarrow> u64 \<Rightarrow> ('z process_scheme, u64) proc" where
  "map_phys_memory os phys sz =
     (if \<not> o_dev_mem os then die
      else (let ptr = o_mmap os phys sz in andthen (require (ptr \<noteq> 0)) (\<lambda>_. give ptr)))"

definition map_remote_memory ::
  "os \<Rightarrow> transfer_mapping \<Rightarrow> int \<Rightarrow> u64 \<Rightarrow> int \<Rightarrow> ('z process_scheme, u64 \<times> transfer_mapping) proc" where
  "map_remote_memory os m socket request_size mapping_number =
     (let socket' = (if get_local_platform_type os \<noteq> HOST then - 1 else socket)
      in andthen (require (map_size m mod PAGE_SIZE = 0)) (\<lambda>_.
         andthen (require (map_size m = request_size)) (\<lambda>_.
         andthen (require (mapping_number < 3)) (\<lambda>_.
         andthen (require (mapping_type m = READ \<or> mapping_type m = WRITE)) (\<lambda>_.
           let page_offset = physical_addr m AND 0xFFF;
               m' = (if page_offset \<noteq> 0 then m\<lparr>physical_addr := physical_addr m - page_offset\<rparr> else m);
               local_size = (if page_offset \<noteq> 0 then map_size m + PAGE_SIZE else map_size m)
           in andthen (setup_local_mappings os socket' mapping_number (physical_addr m') local_size)
                (\<lambda>local_physical.
              andthen (map_phys_memory os local_physical local_size) (\<lambda>ptr.
              give (ptr + page_offset, m'))))))))"

section \<open>Pages and ranges\<close>

lemma page_split:
  fixes a :: u64
  assumes "a mod 4096 = 0" "r < 4096"
  shows "(a + of_nat r) div 4096 = a div 4096" "(a + of_nat r) mod 4096 = of_nat r"
    "unat (a + of_nat r) = unat a + r"
proof -
  have m: "unat a mod 4096 = 0"
    using arg_cong [OF assms(1), of unat] by (simp add: unat_mod_distrib)
  have b: "unat a < 2 ^ 64" using unat_bound [of a] by simp
  define q where "q = unat a div 4096"
  have q: "unat a = 4096 * q" using m by (auto simp: q_def)
  have "q < 2 ^ 52" using b unfolding q by simp
  then have "4096 * q + r < 2 ^ 64" using assms(2) by simp
  moreover have r: "unat (of_nat r :: u64) = r" using assms(2) by (simp add: unat_of_nat take_bit_nat_eq_self)
  ultimately show u: "unat (a + of_nat r) = unat a + r"
    by (subst unat_add_lem [THEN iffD1]) (simp_all add: q r)
  have "(4096 * q + r) div 4096 = q" "(4096 * q + r) mod 4096 = r" using assms(2) by simp_all
  then show "(a + of_nat r) div 4096 = a div 4096" "(a + of_nat r) mod 4096 = of_nat r"
    by (simp_all add: word_eq_iff_unsigned [where ?'a = nat] unat_div_distrib unat_mod_distrib u q r)
qed
lemma align_down:
  fixes w :: "'a::len word"
  shows "w AND (NOT (2 ^ k) + 1) = push_bit k (drop_bit k w)"
proof -
  have "NOT (2 ^ k) + 1 = (- (2 ^ k) :: 'a word)" by (simp add: not_eq_complement)
  then show ?thesis
    by (simp add: minus_exp_eq_not_mask) (simp add: bit_eq_iff bit_simps, auto)
qed

lemma unat_align_down:
  fixes w :: u64
  assumes "k < 64"
  shows "unat (w AND (NOT (2 ^ k) + 1)) = unat w div 2 ^ k * 2 ^ k"
proof -
  have "unat w div 2 ^ k * 2 ^ k \<le> unat w" by (rule div_times_less_eq_dividend)
  also have "\<dots> < 2 ^ 64" using unat_bound [of w] by simp
  finally have "unat w div 2 ^ k * 2 ^ k < 2 ^ 64" .
  moreover have "unat (push_bit k (drop_bit k w)) = take_bit 64 (push_bit k (drop_bit k (unat w)))"
    using unat_bound [of w] by (simp add: unsigned_push_bit_eq unsigned_drop_bit_eq take_bit_nat_eq_self)
  ultimately show ?thesis
    unfolding align_down by (simp add: push_bit_eq_mult drop_bit_eq_div take_bit_nat_eq_self)
qed
text \<open>A page is translated as a whole; failures and real addresses differ modulo the page size.\<close>

lemma read_entry_page:
  "v div o_page_size os = u div o_page_size os \<Longrightarrow> read_entry os v n d = read_entry os u n d"
proof (induction os v n d rule: read_entry.induct)
  case (1 os v n d)
  show ?case
    unfolding read_entry.simps [of os v n d] read_entry.simps [of os u n d]
    using 1 by (auto split: option.split)
qed

lemma virt_page:
  assumes "o_page_size os = 4096" "a mod 4096 = 0" "r < 4096"
  shows "virt_to_phys_user os a = - 1 \<and> virt_to_phys_user os (a + of_nat r) = - 1 \<or>
    virt_to_phys_user os a mod 4096 = 0 \<and>
    virt_to_phys_user os (a + of_nat r) = virt_to_phys_user os a + of_nat r"
proof -
  have "read_entry os (a + of_nat r) n d = read_entry os a n d" for n d
    using page_split(1) [OF assms(2,3)] assms(1) by (intro read_entry_page) simp
  then have g: "get_entry os (a + of_nat r) = get_entry os a" by (simp add: get_entry_def)
  have m: "(ucast p * 4096 :: u64) mod 4096 = 0" for p :: "54 word"
    using take_bit_push_bit [of 12 12 "ucast p :: u64"] by (simp add: push_bit_eq_mult take_bit_eq_mod)
  show ?thesis
    using assms g m page_split(2) [OF assms(2,3)]
    by (auto simp: virt_to_phys_user_def split: option.splits)
qed

lemma align_mod: "r < (4096 :: nat) \<Longrightarrow> (of_nat r :: u64) mod 4096 = of_nat r"
proof -
  assume r: "r < 4096"
  have "(0 + of_nat r :: u64) mod 4096 = of_nat r" by (rule page_split(2) [OF _ r]) simp
  then show ?thesis by simp
qed

lemma minus_one_mod: "(- 1 :: u64) mod 4096 = 4095"
  by (simp add: word_eq_iff_unsigned [where ?'a = nat] unat_mod_distrib)

lemma not_aligned: "w mod 4096 = (0 :: u64) \<Longrightarrow> w \<noteq> - 1"
proof
  assume "w mod 4096 = 0" "w = - 1"
  then have "(4095 :: u64) = 0" using minus_one_mod by metis
  then show False by simp
qed

lemma page_aligned_add:
  fixes b :: u64
  assumes "b mod 4096 = 0"
  shows "(b + of_nat (4096 * k)) mod 4096 = 0"
proof -
  have b: "unat b mod 4096 = 0"
    using arg_cong [OF assms, of unat] by (simp add: unat_mod_distrib)
  have d: "(4096 :: nat) dvd 2 ^ 64" by simp
  have "unat (of_nat (4096 * k) :: u64) = 4096 * k mod 2 ^ 64" by (simp add: unat_of_nat take_bit_eq_mod del: of_nat_mult)
  then have k: "unat (of_nat (4096 * k) :: u64) mod 4096 = 0" using mod_mod_cancel [OF d, of "4096 * k"] by simp
  have "unat (b + of_nat (4096 * k)) = (unat b + unat (of_nat (4096 * k) :: u64)) mod 2 ^ 64"
    by (simp add: unat_word_ariths)
  then have "unat (b + of_nat (4096 * k)) mod 4096 = (unat b + unat (of_nat (4096 * k) :: u64)) mod 4096"
    using mod_mod_cancel [OF d] by simp
  also have "\<dots> = 0" using mod_add_eq [of "unat b" 4096 "unat (of_nat (4096 * k) :: u64)"] b k by simp
  finally have "unat ((b + of_nat (4096 * k)) mod 4096) = 0" by (simp add: unat_mod_distrib)
  then show ?thesis by (simp only: unat_eq_zero)
qed

text \<open>If all pages are where contiguity wants them, none of the translations has failed.\<close>

lemma contiguous_pages:
  fixes k r :: nat
  assumes ps: "o_page_size os = 4096" and v: "v mod 4096 = 0" and c: "contiguous os v"
  shows "virt_to_phys_user os v mod 4096 = 0"
    and "k < 512 \<Longrightarrow> r < 4096 \<Longrightarrow>
      virt_to_phys_user os (v + of_nat (4096 * k + r)) = virt_to_phys_user os v + of_nat (4096 * k + r)"
proof -
  have c': "virt_to_phys_user os (v + of_nat (4096 * k)) = virt_to_phys_user os v + of_nat (4096 * k)"
    if "k < 512" for k :: nat
    using c that by (simp add: contiguous_def list_all_iff)
  have al: "(v + of_nat (4096 * k)) mod 4096 = 0" for k by (rule page_aligned_add [OF v])
  note p = virt_page [OF ps al, of 0]
  show base: "virt_to_phys_user os v mod 4096 = 0"
  proof (rule ccontr)
    assume "virt_to_phys_user os v mod 4096 \<noteq> 0"
    with p [of 0] have m1: "virt_to_phys_user os v = - 1" by auto
    have "virt_to_phys_user os (v + of_nat (4096 * 1)) = 4095" using c' [of 1] m1 by simp
    with p [of 1] show False by (auto dest!: arg_cong [where f = "\<lambda>x :: u64. x mod 4096"] simp: minus_one_mod)
  qed
  fix k r :: nat assume k: "k < 512" and r: "r < 4096"
  have pk: "virt_to_phys_user os (v + of_nat (4096 * k)) mod 4096 = 0"
    unfolding c' [OF k] by (rule page_aligned_add [OF base])
  then have "virt_to_phys_user os (v + of_nat (4096 * k)) \<noteq> - 1" by (rule not_aligned)
  with virt_page [OF ps al r, of k]
  have "virt_to_phys_user os (v + of_nat (4096 * k) + of_nat r) =
      virt_to_phys_user os (v + of_nat (4096 * k)) + of_nat r" by blast
  then show "virt_to_phys_user os (v + of_nat (4096 * k + r)) = virt_to_phys_user os v + of_nat (4096 * k + r)"
    using c' [OF k] by (simp add: add.assoc)
qed

lemma zero_words_at: "i < n \<Longrightarrow> memory (zero_words v n p) (v + of_nat (8 * i)) = 0"
  by (auto simp: zero_words_def)

section \<open>The MTRR loop\<close>

lemma unat_pow2: "k < 64 \<Longrightarrow> unat (2 ^ k :: u64) = 2 ^ k"
proof -
  assume "k < 64"
  then have "(2 :: nat) ^ k < 2 ^ 64" by (intro power_strict_increasing) auto
  then have "unat (of_nat (2 ^ k) :: u64) = 2 ^ k"
    by (simp add: unat_of_nat take_bit_nat_eq_self del: of_nat_power)
  then show ?thesis by simp
qed

lemma pow2_zero: "\<not> k < 64 \<Longrightarrow> (2 ^ k :: u64) = 0"
  by (simp add: exp_eq_zero_iff)

lemma round_up_returns:
  assumes "k < 64" and "unat sz \<le> 2 ^ 63"
  shows "\<exists>j. k \<le> j \<and> j < 64 \<and> round_up_size (2 ^ k) sz = Some (2 ^ j) \<and> unat sz \<le> 2 ^ j \<and>
    (j = k \<or> 2 ^ (j - 1) < unat sz)"
  using assms(1)
proof (induction "63 - k" arbitrary: k)
  case 0
  then have k: "k = 63" by simp
  have "\<not> (2 ^ 63 :: u64) < sz" using assms(2) unat_pow2 [of 63] by (simp only: word_less_nat_alt)
  then have "round_up_size (2 ^ 63) sz = Some (2 ^ 63)" by (subst round_up_size.simps) simp
  then show ?case unfolding k using assms(2) by (intro exI [of _ 63]) simp
next
  case (Suc n)
  show ?case
  proof (cases "(2 ^ k :: u64) < sz")
    case False
    then have "unat sz \<le> 2 ^ k" using Suc.prems unat_pow2 [of k] by (simp add: word_less_nat_alt)
    with False Suc.prems show ?thesis
      by (intro exI [of _ k]) (subst round_up_size.simps, simp)
  next
    case True
    then have lt: "2 ^ k < unat sz" using Suc.prems unat_pow2 [of k] by (simp add: word_less_nat_alt)
    have "push_bit 1 (2 ^ k :: u64) = 2 ^ (k + 1)" by (simp add: push_bit_eq_mult)
    then have eq: "round_up_size (2 ^ k) sz = round_up_size (2 ^ (k + 1)) sz"
      using True by (subst round_up_size.simps) (simp add: mult.commute)
    have "n = 63 - (k + 1)" "k + 1 < 64" using Suc by auto
    from Suc.hyps(1) [OF this] obtain j where j: "k + 1 \<le> j" "j < 64"
      "round_up_size (2 ^ (k + 1)) sz = Some (2 ^ j)" "unat sz \<le> 2 ^ j" "j = k + 1 \<or> 2 ^ (j - 1) < unat sz" by blast
    have "2 ^ (j - 1) < unat sz" using j(5) lt by auto
    with j eq show ?thesis by (intro exI [of _ j]) simp
  qed
qed

lemma round_up_shape:
  assumes "round_up_size i sz = Some y"
  shows "\<not> y < sz \<and> (\<exists>n. y = push_bit n i)"
  using assms
proof (rule round_up_size.raw_induct [rotated, where P = "\<lambda>i sz y. \<not> y < sz \<and> (\<exists>n. y = push_bit n i)"])
  fix f i sz y
  assume IH: "\<And>i sz y. f i sz = Some y \<Longrightarrow> \<not> y < sz \<and> (\<exists>n. y = push_bit n i)"
    and eq: "(if i < sz then f (push_bit 1 i) sz else Some i) = Some y"
  show "\<not> y < sz \<and> (\<exists>n. y = push_bit n i)"
  proof (cases "i < sz")
    case True
    with eq have "f (push_bit 1 i) sz = Some y" by simp
    from IH [OF this] obtain n where "\<not> y < sz" "y = push_bit n (push_bit 1 i)" by blast
    then show ?thesis by (intro conjI exI [of _ "n + 1"]) (simp_all add: push_bit_push_bit)
  next
    case False
    with eq show ?thesis by (intro conjI exI [of _ 0]) simp_all
  qed
qed

lemma round_up_hangs:
  assumes "2 ^ 63 < unat sz"
  shows "round_up_size PAGE_SIZE sz = None"
proof (rule ccontr)
  assume "round_up_size PAGE_SIZE sz \<noteq> None"
  then obtain n where n: "\<not> push_bit n PAGE_SIZE < sz" using round_up_shape by (metis not_None_eq)
  have eq: "push_bit n PAGE_SIZE = push_bit (n + 12) 1"
    by (simp add: platform_consts push_bit_eq_mult power_add)
  have "unat (push_bit n PAGE_SIZE) \<le> 2 ^ 63"
  proof (cases "n + 12 < 64")
    case True
    then have "unat (push_bit (n + 12) 1 :: u64) = 2 ^ (n + 12)" using unat_pow2 [OF True] by (simp add: push_bit_eq_mult)
    also have "\<dots> \<le> 2 ^ 63" using True by (intro power_increasing) auto
    finally show ?thesis unfolding eq .
  next
    case False
    then have "push_bit (n + 12) 1 = (0 :: u64)" using pow2_zero [OF False] by (simp only: push_bit_eq_mult mult_1)
    then have "unat (push_bit (n + 12) 1 :: u64) = 0" by (simp only: unat_0)
    then show ?thesis unfolding eq by (simp only: le0)
  qed
  with n assms show False by (simp add: word_less_nat_alt)
qed

section \<open>Properties\<close>

lemma take54: "ucast (ucast (e AND (push_bit 54 1 - 1)) :: 54 word) = (take_bit 54 e :: u64)"
proof -
  have "(push_bit 54 1 - 1 :: u64) = mask 54" by (simp add: mask_eq_exp_minus_1 push_bit_eq_mult)
  then show ?thesis by (simp add: bit_eq_iff bit_simps) auto
qed

lemma virt_value:
  assumes "0 \<le> o_pagemap_fd os"
    and "o_pread os (unat (v div o_page_size os * 8)) = Some (map (byte_of e) [0..<8])"
  shows "virt_to_phys_user os v = take_bit 54 e * o_page_size os + v mod o_page_size os"
proof -
  have o: "overwrite (o_stack os) (take 8 (map (byte_of e) [0..<8])) = e"
    unfolding overwrite_def by (rule long_at_byte_of) simp
  have "read_entry os v 0 (o_stack os) = Some e"
    using assms(2) o by (subst read_entry.simps) (simp add: read_entry.simps [of os v 8])
  then show ?thesis
    using assms(1) take54 [of e] by (simp add: virt_to_phys_user_def get_entry_def decode_entry_def)
qed

lemma page_offset: "(a :: u64) AND 0xFFF = a mod 4096"
proof -
  have "(mask 12 :: u64) = 0xFFF" by (simp add: mask_eq_exp_minus_1)
  then show ?thesis using take_bit_eq_mask [of 12 a] by (simp add: take_bit_eq_mod)
qed

lemma page_base:
  fixes a :: u64
  shows "(a - a mod 4096) mod 4096 = 0" "unat (a - a mod 4096) = unat a div 4096 * 4096"
proof -
  have le: "a mod 4096 \<le> a" by (simp add: word_le_nat_alt unat_mod_distrib)
  then have "unat (a - a mod 4096) = unat a - unat a mod 4096"
    by (simp add: unat_sub_if' word_le_nat_alt unat_mod_distrib)
  then show u: "unat (a - a mod 4096) = unat a div 4096 * 4096"
    by (simp add: minus_mod_eq_div_mult)
  have "unat ((a - a mod 4096) mod 4096) = 0" by (simp add: unat_mod_distrib u)
  then show "(a - a mod 4096) mod 4096 = 0" by (simp only: unat_eq_zero)
qed

text \<open>The mapper the code programs: the socket's one on the host, number 0 on a card.\<close>

definition mapper_of :: "os \<Rightarrow> int \<Rightarrow> int" where
  "mapper_of os socket = (if o_lsmod os = 0 then socket else 0)"

lemma setup_local_ok:
  assumes "b mod 4096 = 0" "len mod 4096 = 0"
    and s: "if o_lsmod os = 0 then socket \<noteq> - 1 else get_card_self_socket_number os \<noteq> Abort"
    and f: "o_map_file os (commands p @ [Mapper_clear (mapper_of os socket) n, Mapper_set b len (mapper_of os socket) n])
        (mapper_of os socket) n = Some (rb, msz, lb)"
    and al: "rb mod 4096 = 0" "msz mod 4096 = 0" "lb mod 4096 = 0"
  shows "setup_local_mappings os (if o_lsmod os \<noteq> 0 then - 1 else socket) n b len p =
    Some (Ret (if o_popen os (commands p @ [Mapper_clear (mapper_of os socket) n, Mapper_set b len (mapper_of os socket) n]) then lb else - 1,
      p\<lparr>commands := commands p @ [Mapper_clear (mapper_of os socket) n, Mapper_set b len (mapper_of os socket) n]\<rparr>))"
proof (cases "o_lsmod os = 0")
  case True
  with assms show ?thesis
    by (simp add: setup_local_mappings_def get_local_mapping_def andthen_require execute_def platform_consts
        get_local_platform_type_def mapper_of_def)
next
  case False
  then obtain k where "get_card_self_socket_number os = Ret k"
    using s by (cases "get_card_self_socket_number os") auto
  with False assms show ?thesis
    by (simp add: setup_local_mappings_def get_local_mapping_def andthen_require execute_def platform_consts
        get_local_platform_type_def mapper_of_def self_socket_def)
qed

text \<open>
  The physical address comes from the low 54 bits of the page's entry and the offset in the
  page. The bits above are not looked at: a page that is swapped out or not present (bit 63
  clear) still yields an address.
\<close>
theorem virt_to_phys_value:
  assumes "0 \<le> o_pagemap_fd os"
    and "o_pread os (unat (v div o_page_size os * 8)) = Some (map (byte_of e) [0..<8])"
  shows "virt_to_phys_user os v = take_bit 54 e * o_page_size os + v mod o_page_size os"
  by (rule virt_value [OF assms])

text \<open>A system whose pagemap is the identity.\<close>

definition plain_os :: os where
  "plain_os = \<lparr>o_lsmod = 0, o_hostname = ''node10'', o_pagemap_fd = 3,
    o_pread = (\<lambda>off. Some (map (byte_of (of_nat (off div 8))) [0..<8])), o_page_size = 4096, o_stack = 0,
    o_memalign = (\<lambda>_ _. 0x200000), o_mlock = (\<lambda>_ _. True), o_madvise = (\<lambda>_ _. True),
    o_popen = (\<lambda>_. True), o_map_file = (\<lambda>cmds s n. Some (0x7000, 0x1000, 0x9000)), o_mmap = (\<lambda>a n. a + 0x10000), o_dev_mem = True, o_malloc_ok = True\<rparr>"

definition new_process :: process where
  "new_process = \<lparr>memory = (\<lambda>_. 1), allocs = 0, freed = [], commands = []\<rparr>"

lemma plain_pread: "o_pread plain_os (unat (a div 4096 * 8)) = Some (map (byte_of (a div 4096)) [0..<8])"
proof -
  have "unat (a div 4096) * 8 < 2 ^ 64" using unat_bound [of a] by (simp add: unat_div_distrib)
  then have "unat (a div 4096 * 8) = unat (a div 4096) * 8"
    by (subst unat_mult_lem [THEN iffD1]) simp_all
  then show ?thesis by (simp add: plain_os_def)
qed

lemma plain_phys: "virt_to_phys_user plain_os a = a"
proof -
  have "take_bit 54 (a div 4096) = a div 4096"
    using unat_bound [of a]
    by (simp add: word_eq_iff_unsigned [where ?'a = nat] unsigned_take_bit_eq unat_div_distrib take_bit_nat_eq_self)
  moreover have "virt_to_phys_user plain_os a = take_bit 54 (a div 4096) * 4096 + a mod 4096"
    using virt_value [of plain_os a "a div 4096"] plain_pread [of a] by (simp add: plain_os_def)
  ultimately show ?thesis by (simp add: div_mult_mod_eq)
qed

text \<open>
  Mapping remote memory programs the mapper with the page-aligned start of the remote range
  and enough pages to cover it, and returns a pointer into the new window at the offset the
  remote address has in its page. On a card the mapper is always number 0. When the pipe to the
  mapper's file cannot be opened, the physical address that is mapped is -1.
\<close>
theorem remote_mapping:
  assumes "o_dev_mem os" and "map_size m = req" and "req mod 4096 = 0" and "n < 3"
    and "mapping_type m = READ \<or> mapping_type m = WRITE"
    and "if o_lsmod os = 0 then socket \<noteq> - 1 else get_card_self_socket_number os \<noteq> Abort"
    and "len = (if physical_addr m mod 4096 = 0 then req else req + 4096)"
    and "cmds = [Mapper_clear (mapper_of os socket) n,
       Mapper_set (physical_addr m - physical_addr m mod 4096) len (mapper_of os socket) n]"
    and "o_map_file os (commands p @ cmds) (mapper_of os socket) n = Some (rb, msz, lb)"
    and "rb mod 4096 = 0" and "msz mod 4096 = 0" and "lb mod 4096 = 0" and "o_mmap os la len \<noteq> 0"
    and "la = (if o_popen os (commands p @ cmds) then lb else - 1)"
  shows "\<exists>m' p'. map_remote_memory os m socket req n p =
      Some (Ret ((o_mmap os la len + physical_addr m mod 4096, m'), p')) \<and>
    p' = p\<lparr>commands := commands p @ cmds\<rparr> \<and> physical_addr m' = physical_addr m - physical_addr m mod 4096 \<and>
    (unat req + 4096 < 2 ^ 64 \<longrightarrow>
       unat (physical_addr m') \<le> unat (physical_addr m) \<and>
       unat (physical_addr m) + unat req \<le> unat (physical_addr m') + unat len)"
proof -
  let ?a = "physical_addr m" let ?b = "?a - ?a mod 4096"
  have len: "len mod 4096 = 0"
    using assms(3,7) page_aligned_add [of req 1] by simp
  note st = setup_local_ok [OF page_base(1) len assms(6) assms(9) [unfolded assms(8)] assms(10-12)]
  let ?m = "if ?a mod 4096 \<noteq> 0 then m\<lparr>physical_addr := ?b\<rparr> else m"
  have pm: "physical_addr ?m = ?b" by simp
  have "map_remote_memory os m socket req n p =
      andthen (setup_local_mappings os (if o_lsmod os \<noteq> 0 then - 1 else socket) n ?b len) (\<lambda>local_physical.
      andthen (map_phys_memory os local_physical len) (\<lambda>ptr. give (ptr + ?a mod 4096, ?m))) p"
    using assms(2-5,7)
    by (cases "?a mod 4096 = 0")
      (simp_all add: map_remote_memory_def andthen_require page_offset platform_consts get_local_platform_type_def Let_def)
  also have "\<dots> = andthen (map_phys_memory os la len) (\<lambda>ptr. give (ptr + ?a mod 4096, ?m)) (p\<lparr>commands := commands p @ cmds\<rparr>)"
    unfolding assms(8,14) by (subst andthen_ret, rule st, rule refl)
  also have "\<dots> = Some (Ret ((o_mmap os la len + ?a mod 4096, ?m), p\<lparr>commands := commands p @ cmds\<rparr>))"
    using assms(1,13) by (simp add: map_phys_memory_def andthen_def)
  finally have eq: "map_remote_memory os m socket req n p =
      Some (Ret ((o_mmap os la len + ?a mod 4096, ?m), p\<lparr>commands := commands p @ cmds\<rparr>))" .
  have "unat req + 4096 < 2 ^ 64 \<longrightarrow> unat ?b \<le> unat ?a \<and> unat ?a + unat req \<le> unat ?b + unat len"
  proof
    assume r: "unat req + 4096 < 2 ^ 64"
    have "unat (req + 4096) = unat req + 4096"
      using r by (subst unat_add_lem [THEN iffD1]) simp_all
    then have "unat len = (if unat ?a mod 4096 = 0 then unat req else unat req + 4096)"
      unfolding assms(7) by (simp add: unat_eq_zero [symmetric] unat_mod_distrib del: unat_eq_zero)
    then show "unat ?b \<le> unat ?a \<and> unat ?a + unat req \<le> unat ?b + unat len"
      using page_base(2) [of ?a] div_mult_mod_eq [of "unat ?a" 4096] mod_less_divisor [of 4096 "unat ?a"]
      by (auto split: if_splits)
  qed
  with eq pm show ?thesis by (intro exI [of _ ?m] exI [of _ "p\<lparr>commands := commands p @ cmds\<rparr>"]) simp
qed

text \<open>
  For page-aligned ranges up to 2^63 bytes the MTRR set-up writes one range: its size is the
  smallest power of two that is at least the size and a page, its base the base rounded down to
  that size. It covers the wanted range exactly when the range does not cross such a boundary,
  which the code does not check. A larger size makes the doubling loop run for ever.
\<close>
theorem mtrr_range:
  assumes "base mod PAGE_SIZE = 0" and "sz mod PAGE_SIZE = 0" and "acc = READ \<or> acc = WRITE"
  shows "(unat sz \<le> 2 ^ 63 \<longrightarrow>
      (\<exists>k base'. 12 \<le> k \<and> k < 64 \<and> unat sz \<le> 2 ^ k \<and> (k = 12 \<or> 2 ^ (k - 1) < unat sz) \<and>
        unat base' = unat base div 2 ^ k * 2 ^ k \<and>
        setup_mtrr_mappings base sz acc p = Some (Ret (0, p\<lparr>commands := commands p @
          [Mtrr_add base' (2 ^ k) (if acc = WRITE then ''write-combining'' else ''write-through'')]\<rparr>)) \<and>
        (unat base' \<le> unat base \<and> unat base + unat sz \<le> unat base' + 2 ^ k \<longleftrightarrow>
           unat base mod 2 ^ k + unat sz \<le> 2 ^ k))) \<and>
    (2 ^ 63 < unat sz \<longrightarrow> setup_mtrr_mappings base sz acc p = None)"
proof (intro conjI impI)
  assume "unat sz \<le> 2 ^ 63"
  from round_up_returns [OF _ this, of 12] obtain k where k: "12 \<le> k" "k < 64"
    "round_up_size PAGE_SIZE sz = Some (2 ^ k)" "unat sz \<le> 2 ^ k" "k = 12 \<or> 2 ^ (k - 1) < unat sz"
    by (auto simp: platform_consts)
  let ?b = "base AND (NOT (2 ^ k) + 1)"
  have b: "unat ?b = unat base div 2 ^ k * 2 ^ k" by (rule unat_align_down [OF k(2)])
  have "setup_mtrr_mappings base sz acc p = Some (Ret (0, p\<lparr>commands := commands p @
          [Mtrr_add ?b (2 ^ k) (if acc = WRITE then ''write-combining'' else ''write-through'')]\<rparr>))"
    using assms k(3) by (simp add: setup_mtrr_mappings_def andthen_require execute_def)
  moreover have "unat ?b \<le> unat base \<and> unat base + unat sz \<le> unat ?b + 2 ^ k \<longleftrightarrow>
      unat base mod 2 ^ k + unat sz \<le> 2 ^ k"
    using div_mult_mod_eq [of "unat base" "2 ^ k"] unfolding b by linarith
  ultimately show "\<exists>k base'. 12 \<le> k \<and> k < 64 \<and> unat sz \<le> 2 ^ k \<and> (k = 12 \<or> 2 ^ (k - 1) < unat sz) \<and>
        unat base' = unat base div 2 ^ k * 2 ^ k \<and>
        setup_mtrr_mappings base sz acc p = Some (Ret (0, p\<lparr>commands := commands p @
          [Mtrr_add base' (2 ^ k) (if acc = WRITE then ''write-combining'' else ''write-through'')]\<rparr>)) \<and>
        (unat base' \<le> unat base \<and> unat base + unat sz \<le> unat base' + 2 ^ k \<longleftrightarrow>
           unat base mod 2 ^ k + unat sz \<le> 2 ^ k)"
    using k(1,2,4,5) b by blast
next
  assume "2 ^ 63 < unat sz"
  then show "setup_mtrr_mappings base sz acc p = None"
    using round_up_hangs assms by (simp add: setup_mtrr_mappings_def andthen_require)
qed


theorem virt_to_phys_value_witness:
  "virt_to_phys_user plain_os 0x12345 = 0x12345"
proof -
  have "virt_to_phys_user plain_os 0x12345 = take_bit 54 (0x12345 div 4096) * 4096 + 0x12345 mod 4096"
    using virt_to_phys_value [of plain_os "0x12345" "0x12345 div 4096"] plain_pread [of "0x12345"]
    by (simp add: plain_os_def)
  also have "\<dots> = 0x12345" by code_simp
  finally show ?thesis .
qed


theorem mtrr_range_witness:
  "\<exists>base'. setup_mtrr_mappings 0x3000 0x2000 READ new_process = Some (Ret (0, new_process\<lparr>commands :=
     [Mtrr_add base' 0x2000 ''write-through'']\<rparr>)) \<and> \<not> unat (0x3000 :: u64) + 0x2000 \<le> unat base' + 0x2000"
proof -
  have "(0x3000 :: u64) mod PAGE_SIZE = 0" "(0x2000 :: u64) mod PAGE_SIZE = 0"
    by (simp_all add: platform_consts)
  from mtrr_range [OF this, of READ new_process] obtain k base' where k: "12 \<le> k"
    "unat (0x2000 :: u64) \<le> 2 ^ k" "k = 12 \<or> 2 ^ (k - 1) < unat (0x2000 :: u64)"
    "unat base' = unat (0x3000 :: u64) div 2 ^ k * 2 ^ k"
    "setup_mtrr_mappings 0x3000 0x2000 READ new_process = Some (Ret (0, new_process\<lparr>commands := commands new_process @
       [Mtrr_add base' (2 ^ k) (if READ = WRITE then ''write-combining'' else ''write-through'')]\<rparr>))"
    by auto
  have "(2 :: nat) ^ 12 \<noteq> 2 ^ 13" "unat (0x2000 :: u64) = 2 ^ 13" by simp_all
  with k(2,3) have "k = 13"
    using power_less_imp_less_exp [of "2 :: nat" "k - 1" 13] power_le_imp_le_exp [of "2 :: nat" 13 k] by auto
  with k show ?thesis by (intro exI [of _ base']) (simp add: platform_consts new_process_def)
qed

theorem remote_mapping_witness:
  "\<exists>m' p'. map_remote_memory plain_os \<lparr>physical_addr = 0x7008, map_size = 0x1000, mapping_type = 1, map_socket = 2\<rparr>
     2 0x1000 1 new_process = Some (Ret ((0x19008, m'), p')) \<and> physical_addr m' = 0x7000"
proof -
  let ?m = "\<lparr>physical_addr = 0x7008, map_size = 0x1000, mapping_type = 1, map_socket = 2\<rparr> :: transfer_mapping"
  have "(0x7008 :: u64) mod 4096 = 8" "(0x7008 :: u64) - 8 = 0x7000" by code_simp+
  with remote_mapping [where os = plain_os and m = ?m and req = "0x1000" and n = 1 and socket = 2 and len = "0x2000"
    and cmds = "[Mapper_clear 2 1, Mapper_set 0x7000 0x2000 2 1]" and p = new_process
    and rb = "0x7000" and msz = "0x1000" and lb = "0x9000" and la = "0x9000"]
  show ?thesis by (auto simp: plain_os_def mapper_of_def platform_consts)
qed

end
