(* ===== verification/Fifo_Spec.thy ===== *)
theory Fifo_Spec
  imports Vca_Prelude
begin

text \<open>
  The contract of a bounded first-in first-out channel that takes and gives blocks of
  items all or nothing. The shared-memory ring of the library provides it; what its
  clients need of a channel is proved here once, from the contract only.
\<close>

datatype 'a fifo_op = Put "'a list" | Get nat

locale bounded_fifo =
  fixes items :: "'s \<Rightarrow> 'a list"
    and inv :: "'s \<Rightarrow> bool"
    and cap :: nat
    and lim :: nat
    and enq :: "'a list \<Rightarrow> 's \<Rightarrow> 's option"
    and deq :: "nat \<Rightarrow> 's \<Rightarrow> ('a list \<times> 's) option"
  assumes enq_ok: "inv s \<Longrightarrow> length (items s) + length xs \<le> cap \<Longrightarrow>
      \<exists>s'. enq xs s = Some s' \<and> items s' = items s @ xs \<and> inv s'"
    and enq_full: "inv s \<Longrightarrow> length xs < lim \<Longrightarrow> cap < length (items s) + length xs \<Longrightarrow>
      xs \<noteq> [] \<Longrightarrow> enq xs s = None"
    and deq_ok: "inv s \<Longrightarrow> n \<le> length (items s) \<Longrightarrow>
      \<exists>s'. deq n s = Some (take n (items s), s') \<and> items s' = drop n (items s) \<and> inv s'"
    and deq_empty: "inv s \<Longrightarrow> n < lim \<Longrightarrow> length (items s) < n \<Longrightarrow> deq n s = None"
    and items_cap: "inv s \<Longrightarrow> length (items s) \<le> cap"
begin

text \<open>A run of operations: blocks that went in, blocks that came out, the final state.\<close>

fun run :: "'a fifo_op list \<Rightarrow> 's \<Rightarrow> 'a list \<times> 'a list \<times> 's" where
  "run [] s = ([], [], s)"
| "run (Put xs # ops) s =
     (case enq xs s of
        None \<Rightarrow> run ops s
      | Some s' \<Rightarrow> (case run ops s' of (i, out, t) \<Rightarrow> (xs @ i, out, t)))"
| "run (Get n # ops) s =
     (case deq n s of
        None \<Rightarrow> run ops s
      | Some (ys, s') \<Rightarrow> (case run ops s' of (i, out, t) \<Rightarrow> (i, ys @ out, t)))"

definition op_in_range :: "'a fifo_op \<Rightarrow> bool" where
  "op_in_range p = (case p of Put xs \<Rightarrow> length xs < lim | Get n \<Rightarrow> n < lim)"

lemma enq_Some:
  "inv s \<Longrightarrow> length xs < lim \<Longrightarrow> enq xs s = Some s' \<Longrightarrow> items s' = items s @ xs \<and> inv s'"
  using enq_ok [of s xs] enq_full [of s xs] items_cap [of s] by (cases "xs = []") force+

lemma deq_Some:
  "inv s \<Longrightarrow> n < lim \<Longrightarrow> deq n s = Some (ys, s') \<Longrightarrow> items s = ys @ items s' \<and> length ys = n \<and> inv s'"
  using deq_ok [of s n] deq_empty [of s n] by (cases "n \<le> length (items s)") force+

text \<open>Nothing is lost, duplicated or reordered, whatever the order of the operations.\<close>

lemma run_conserves:
  "inv s \<Longrightarrow> \<forall>p \<in> set ops. op_in_range p \<Longrightarrow> run ops s = (i, out, t) \<Longrightarrow>
     items s @ i = out @ items t \<and> inv t"
proof (induction ops s arbitrary: i out t rule: run.induct)
  case (1 s)
  then show ?case by simp
next
  case (2 xs ops s)
  have lim: "length xs < lim" using 2(4) by (simp add: op_in_range_def)
  show ?case
  proof (cases "enq xs s")
    case None
    with 2 show ?thesis by simp
  next
    case (Some s')
    obtain i' out' t' where r: "run ops s' = (i', out', t')" by (cases "run ops s'")
    from enq_Some [OF 2(3) lim Some] have "items s' = items s @ xs" and "inv s'" by auto
    with 2(2) [OF Some this(2) _ r] 2(4,5) Some r show ?thesis by auto
  qed
next
  case (3 n ops s)
  have lim: "n < lim" using 3(4) by (simp add: op_in_range_def)
  show ?case
  proof (cases "deq n s")
    case None
    with 3 show ?thesis by simp
  next
    case (Some r0)
    then obtain ys s' where d: "deq n s = Some (ys, s')" by (cases r0) auto
    obtain i' out' t' where r: "run ops s' = (i', out', t')" by (cases "run ops s'")
    from deq_Some [OF 3(3) lim d] have "items s = ys @ items s'" and "inv s'" by auto
    with 3(2) [OF d _ this(2) _ r] 3(4,5) d r show ?thesis by auto
  qed
qed

text \<open>Blocks put one after the other come out as the same blocks.\<close>

fun enq_all :: "'a list list \<Rightarrow> 's \<Rightarrow> 's option" where
  "enq_all [] s = Some s"
| "enq_all (xs # xss) s = (case enq xs s of None \<Rightarrow> None | Some s' \<Rightarrow> enq_all xss s')"

fun deq_all :: "nat list \<Rightarrow> 's \<Rightarrow> ('a list list \<times> 's) option" where
  "deq_all [] s = Some ([], s)"
| "deq_all (n # ns) s =
     (case deq n s of
        None \<Rightarrow> None
      | Some (ys, s') \<Rightarrow> (case deq_all ns s' of None \<Rightarrow> None | Some (yss, t) \<Rightarrow> Some (ys # yss, t)))"

lemma enq_all_ok:
  "inv s \<Longrightarrow> length (items s) + length (concat xss) \<le> cap \<Longrightarrow>
     \<exists>s'. enq_all xss s = Some s' \<and> items s' = items s @ concat xss \<and> inv s'"
proof (induction xss arbitrary: s)
  case (Cons xs xss)
  then have "length (items s) + length xs \<le> cap" by simp
  with Cons.prems(1) obtain s1
    where s1: "enq xs s = Some s1" "items s1 = items s @ xs" "inv s1"
    using enq_ok by blast
  from Cons.IH [OF s1(3)] Cons.prems(2) s1 show ?case by auto
qed simp

lemma deq_all_ok:
  "inv s \<Longrightarrow> items s = concat xss @ rest \<Longrightarrow>
     \<exists>s'. deq_all (map length xss) s = Some (xss, s') \<and> items s' = rest \<and> inv s'"
proof (induction xss arbitrary: s)
  case (Cons xs xss)
  then have "length xs \<le> length (items s)" by simp
  with Cons.prems(1) obtain s1
    where s1: "deq (length xs) s = Some (take (length xs) (items s), s1)"
      "items s1 = drop (length xs) (items s)" "inv s1"
    using deq_ok by blast
  with Cons.prems(2) have "items s1 = concat xss @ rest" by simp
  from Cons.IH [OF s1(3) this] s1 Cons.prems(2) show ?case by auto
qed simp

lemma blocks_roundtrip:
  assumes "inv s" "items s = []" "length (concat xss) \<le> cap"
  shows "\<exists>s' s''. enq_all xss s = Some s' \<and> deq_all (map length xss) s' = Some (xss, s'') \<and>
           items s'' = [] \<and> inv s''"
proof -
  obtain s' where s': "enq_all xss s = Some s'" "items s' = concat xss" "inv s'"
    using enq_all_ok [of s xss] assms by auto
  with deq_all_ok [of s' xss "[]"] show ?thesis by auto
qed

end

end
