(* ===== verification/Mem_Ring.thy ===== *)
theory Mem_Ring
  imports Fifo_Spec
begin

text \<open>
  The split ring of the memory-sharing library (mem-sharing-library/vca_mem.h and vca_mem.c):
  a 2 MB region holding eight channels of 8192 items and the consumer-side indexes, and a
  4 KB page holding the producer-side indexes. A \<open>queue_object\<close> of either side reaches the
  same two regions, so the two sides' operations act on one pair of memories here.
\<close>

section \<open>Constants and data\<close>

definition MAX_ITEMS :: u32 where "MAX_ITEMS = 8192"
definition MAX_ITEMS_ORDER :: nat where "MAX_ITEMS_ORDER = 13"
definition MAX_CHANNELS_PER_VCA_SOCKET :: nat where "MAX_CHANNELS_PER_VCA_SOCKET = 8"
definition REMOTE_PRODUCER :: u32 where "REMOTE_PRODUCER = 65536"
definition LOCAL_CONSUMER :: u32 where "LOCAL_CONSUMER = 65537"
definition LOCAL_PRODUCER :: u32 where "LOCAL_PRODUCER = 0"
definition REMOTE_CONSUMER :: u32 where "REMOTE_CONSUMER = 1"

lemmas ring_consts = MAX_ITEMS_def MAX_ITEMS_ORDER_def MAX_CHANNELS_PER_VCA_SOCKET_def
  REMOTE_PRODUCER_def LOCAL_CONSUMER_def LOCAL_PRODUCER_def REMOTE_CONSUMER_def

record queue_object =
  ring_2mb :: "u64 mem"
  ring_4kb :: "u64 mem"
  queue_type :: int
  q_socket :: int

text \<open>The byte count of a \<open>memcpy\<close> of \<open>n << 3\<close> bytes, in items of eight bytes.\<close>

definition longs_of :: "u32 \<Rightarrow> nat" where
  "longs_of n = unat (push_bit 3 n) div 8"

section \<open>Enqueue and dequeue\<close>

definition s_variable_multi_enqueue ::
  "queue_object \<Rightarrow> u64 mem \<Rightarrow> u32 \<Rightarrow> u32 \<Rightarrow> int \<times> queue_object" where
  "s_variable_multi_enqueue q source total_elements idx =
     (let ring = ring_2mb q;
          prod_cons_array = ring_4kb q;
          real_idx = push_bit 1 idx;
          LP_VAL = ucast (prod_cons_array (unat (real_idx + LOCAL_PRODUCER))) :: u32;
          RC_VAL = ucast (prod_cons_array (unat (real_idx + REMOTE_CONSUMER))) :: u32;
          LOWER_BOUND = push_bit MAX_ITEMS_ORDER idx;
          UPPER_BOUND = LOWER_BOUND + MAX_ITEMS;
          max_dist = (RC_VAL - (LP_VAL + 1)) mod MAX_ITEMS;
          num_elements = (if UPPER_BOUND - LP_VAL < total_elements
                          then UPPER_BOUND - LP_VAL else total_elements);
          remaining_elements = total_elements - num_elements
      in if total_elements \<le> max_dist then
           (let ring1 = blit ring (unat LP_VAL) source 0 (longs_of num_elements)
            in if remaining_elements \<noteq> 0 then
                 (let ring2 = blit ring1 (unat LOWER_BOUND) source (longs_of num_elements)
                                (longs_of remaining_elements);
                      v = ucast (LOWER_BOUND + remaining_elements) :: u64
                  in (sint total_elements,
                      q\<lparr>ring_2mb := ring2(unat (real_idx + REMOTE_PRODUCER) := v),
                        ring_4kb := prod_cons_array(unat (real_idx + LOCAL_PRODUCER) := v)\<rparr>))
               else
                 (let v = ucast (LP_VAL + num_elements) :: u64
                  in (sint total_elements,
                      q\<lparr>ring_2mb := ring1(unat (real_idx + REMOTE_PRODUCER) := v),
                        ring_4kb := prod_cons_array(unat (real_idx + LOCAL_PRODUCER) := v)\<rparr>)))
         else (0, q))"

definition s_variable_multi_dequeue ::
  "queue_object \<Rightarrow> u64 mem \<Rightarrow> u32 \<Rightarrow> u32 \<Rightarrow> int \<times> u64 mem \<times> queue_object" where
  "s_variable_multi_dequeue q source max_requested idx =
     (let ring = ring_2mb q;
          prod_cons_array = ring_4kb q;
          real_idx = push_bit 1 idx;
          LC_VAL = ucast (ring (unat (real_idx + LOCAL_CONSUMER))) :: u32;
          RP_VAL = ucast (ring (unat (real_idx + REMOTE_PRODUCER))) :: u32;
          LOWER_BOUND = push_bit MAX_ITEMS_ORDER idx;
          UPPER_BOUND = LOWER_BOUND + MAX_ITEMS;
          max_available = (RP_VAL - LC_VAL) mod MAX_ITEMS
      in if max_requested \<le> max_available then
           (let num_elements = (if UPPER_BOUND - LC_VAL < max_requested
                                then UPPER_BOUND - LC_VAL else max_requested);
                remaining_elements = max_requested - num_elements;
                source1 = blit source 0 ring (unat LC_VAL) (longs_of num_elements)
            in if remaining_elements \<noteq> 0 then
                 (let source2 = blit source1 (longs_of num_elements) ring (unat LOWER_BOUND)
                                  (longs_of remaining_elements);
                      v = ucast (LOWER_BOUND + remaining_elements) :: u64
                  in (sint max_requested, source2,
                      q\<lparr>ring_2mb := ring(unat (real_idx + LOCAL_CONSUMER) := v),
                        ring_4kb := prod_cons_array(unat (real_idx + REMOTE_CONSUMER) := v)\<rparr>))
               else
                 (let v = ucast (LC_VAL + num_elements) :: u64
                  in (sint max_requested, source1,
                      q\<lparr>ring_2mb := ring(unat (real_idx + LOCAL_CONSUMER) := v),
                        ring_4kb := prod_cons_array(unat (real_idx + REMOTE_CONSUMER) := v)\<rparr>)))
         else (0, source, q))"

section \<open>The channel as a queue\<close>

text \<open>
  Channel \<open>c\<close>: producer and consumer index, as each side sees it, relative to the first
  item of the channel. An index may stand at the end of the channel (position 8192).
\<close>

definition chan_base :: "nat \<Rightarrow> nat" where "chan_base c = 8192 * c"
definition prod_at :: "queue_object \<Rightarrow> nat \<Rightarrow> nat" where
  "prod_at q c = unat (ring_4kb q (2 * c)) - chan_base c"
definition cons_at :: "queue_object \<Rightarrow> nat \<Rightarrow> nat" where
  "cons_at q c = unat (ring_2mb q (2 * c + 65537)) - chan_base c"

definition idx_ok :: "nat \<Rightarrow> u64 \<Rightarrow> bool" where
  "idx_ok c v \<longleftrightarrow> chan_base c \<le> unat v \<and> unat v \<le> chan_base c + 8192"

definition chan_ok :: "queue_object \<Rightarrow> nat \<Rightarrow> bool" where
  "chan_ok q c \<longleftrightarrow> c < 8 \<and> idx_ok c (ring_4kb q (2 * c)) \<and> idx_ok c (ring_4kb q (2 * c + 1)) \<and>
     ring_2mb q (2 * c + 65536) = ring_4kb q (2 * c) \<and>
     ring_2mb q (2 * c + 65537) = ring_4kb q (2 * c + 1)"

definition chan_used :: "queue_object \<Rightarrow> nat \<Rightarrow> nat" where
  "chan_used q c = (prod_at q c + 8192 - cons_at q c) mod 8192"

definition chan_items :: "queue_object \<Rightarrow> nat \<Rightarrow> u64 list" where
  "chan_items q c = circ (ring_2mb q) (chan_base c) 8192 (cons_at q c) (chan_used q c)"

text \<open>The stored form of a position.\<close>

definition chan_index :: "nat \<Rightarrow> nat \<Rightarrow> u64" where
  "chan_index c p = of_nat (8192 * c + p)"

lemma unat_chan_index [simp]:
  "c < 8 \<Longrightarrow> x \<le> 8192 \<Longrightarrow> unat (chan_index c x) = 8192 * c + x"
  by (simp add: chan_index_def unat_of_nat take_bit_nat_eq_self del: of_nat_add of_nat_mult)

lemma chan_used_less [simp]: "chan_used q c < 8192"
  by (simp add: chan_used_def)

lemma chan_used_le: "chan_used q c \<le> 8191"
  using chan_used_less [of q c] by (simp del: chan_used_less)

lemma length_chan_items [simp]: "length (chan_items q c) = chan_used q c"
  by (simp add: chan_items_def)

section \<open>Word arithmetic of the indexes\<close>

lemma uint_numeral_8192: "uint (8192::u32) = 8192" by simp

lemma uint_sub_mod: "uint ((a::u32) - b) mod 8192 = (uint a - uint b) mod 8192"
  by (simp add: uint_word_ariths mod_mod_cancel)

lemma uint_add_mod: "uint ((a::u32) + b) mod 8192 = (uint a + uint b) mod 8192"
  by (simp add: uint_word_ariths mod_mod_cancel)

lemma compl_mod:
  fixes d N :: int
  assumes "0 < N"
  shows "(N - 1 - d) mod N = N - 1 - d mod N"
proof -
  have "N - 1 - d = (N - 1 - d mod N) + N * (- (d div N))"
    by (simp add: minus_mult_div_eq_mod [symmetric])
  then have "(N - 1 - d) mod N = (N - 1 - d mod N) mod N"
    by (metis mod_mult_self2)
  also have "\<dots> = N - 1 - d mod N"
    using pos_mod_bound [OF assms, of d] pos_mod_sign [OF assms, of d] by (intro mod_pos_pos_trivial) auto
  finally show ?thesis .
qed

lemma max_dist_nat:
  fixes r l :: u32
  assumes "8192 * c \<le> unat l" "unat l \<le> 8192 * c + 8192"
     "8192 * c \<le> unat r" "unat r \<le> 8192 * c + 8192"
  shows "unat ((r - (l + 1)) mod 8192) =
     8191 - ((unat l - 8192 * c) + 8192 - (unat r - 8192 * c)) mod 8192"
proof -
  let ?d = "(unat l - 8192 * c) + 8192 - (unat r - 8192 * c)"
  have "int ?d = int (unat l) - int (unat r) + 8192"
    using assms by linarith
  then have d: "int ?d = uint l - uint r + 8192" by simp
  have "uint ((r - (l + 1)) mod 8192) = (uint r - uint (l + 1) mod 8192) mod 8192"
    by (simp only: uint_mod uint_sub_mod uint_numeral_8192 mod_diff_right_eq)
  also have "\<dots> = (uint r - (uint l + 1)) mod 8192"
    by (simp only: uint_add_mod uint_1 mod_diff_right_eq)
  also have "\<dots> = (8192 - 1 - int ?d) mod 8192"
    unfolding d by (simp add: algebra_simps)
  also have "\<dots> = 8192 - 1 - int ?d mod 8192"
    by (rule compl_mod) simp
  finally have "int (unat ((r - (l + 1)) mod 8192)) = 8191 - int (?d mod 8192)"
    by (simp add: zmod_int)
  moreover have "?d mod 8192 \<le> 8191" using mod_less_divisor [of 8192 ?d] by linarith
  ultimately show ?thesis by linarith
qed

lemma max_avail_nat:
  fixes p l :: u32
  assumes "8192 * c \<le> unat l" "8192 * c \<le> unat p" "unat l \<le> 8192 * c + 8192"
  shows "unat ((p - l) mod 8192) = ((unat p - 8192 * c) + 8192 - (unat l - 8192 * c)) mod 8192"
proof -
  have "int ((unat p - 8192 * c) + 8192 - (unat l - 8192 * c)) = int (unat p) - int (unat l) + 8192"
    using assms by linarith
  then have "int ((unat p - 8192 * c) + 8192 - (unat l - 8192 * c)) = uint p - uint l + 8192"
    by simp
  then have "int ((unat p - 8192 * c) + 8192 - (unat l - 8192 * c)) mod 8192 = (uint p - uint l) mod 8192"
    by (simp only: mod_add_self2)
  moreover have "int (unat ((p - l) mod 8192)) = (uint p - uint l) mod 8192"
    by (simp only: uint_nat [symmetric] uint_mod uint_sub_mod uint_numeral_8192)
  ultimately show ?thesis
    by (simp only: of_nat_eq_iff [symmetric, where 'a = int] zmod_int of_nat_numeral)
qed

lemma longs_of_small: "unat n < 2 ^ 29 \<Longrightarrow> longs_of n = unat n"
  by (simp add: longs_of_def push_bit_eq_mult unat_word_ariths)

lemma unat_ucast_32: "unat (v::u64) < 2 ^ 32 \<Longrightarrow> unat (ucast v :: u32) = unat v"
  by (simp add: unsigned_ucast_eq take_bit_nat_eq_self)

lemma unat_push1: "unat (idx::u32) < 8 \<Longrightarrow> unat (push_bit 1 idx) = 2 * unat idx"
  by (simp add: push_bit_eq_mult unat_word_ariths)
lemma unat_push1_add: "unat (idx::u32) < 8 \<Longrightarrow> unat k < 2 ^ 30 \<Longrightarrow> unat (push_bit 1 idx + k) = 2 * unat idx + unat k"
  by (simp add: push_bit_eq_mult unat_word_ariths)
lemma unat_push13: "unat (idx::u32) < 8 \<Longrightarrow> unat (push_bit 13 idx) = 8192 * unat idx"
  by (simp add: push_bit_eq_mult unat_word_ariths)

lemma idx_ok_ucast:
  assumes "idx_ok c v" "c < 8"
  shows "unat (ucast v :: u32) = unat v"
  using assms by (intro unat_ucast_32) (auto simp: idx_ok_def chan_base_def)

lemma chan_ok_unfold:
  assumes "chan_ok q c"
  shows "unat (ring_4kb q (2 * c)) = 8192 * c + prod_at q c" "prod_at q c \<le> 8192"
    "unat (ring_4kb q (2 * c + 1)) = 8192 * c + cons_at q c" "cons_at q c \<le> 8192" "c < 8"
    "ring_2mb q (2 * c + 65536) = ring_4kb q (2 * c)"
    "ring_2mb q (2 * c + 65537) = ring_4kb q (2 * c + 1)"
  using assms by (auto simp: chan_ok_def idx_ok_def prod_at_def cons_at_def chan_base_def)

lemma index_words:
  assumes "unat (idx::u32) = c" "c < 8"
  shows "unat (push_bit 1 idx + LOCAL_PRODUCER) = 2 * c"
    "unat (push_bit 1 idx + REMOTE_CONSUMER) = 2 * c + 1"
    "unat (push_bit 1 idx + REMOTE_PRODUCER) = 2 * c + 65536"
    "unat (push_bit 1 idx + LOCAL_CONSUMER) = 2 * c + 65537"
    "unat (push_bit MAX_ITEMS_ORDER idx) = 8192 * c"
    "unat (push_bit MAX_ITEMS_ORDER idx + MAX_ITEMS) = 8192 * c + 8192"
  using assms by (simp_all add: unat_push1 unat_push1_add unat_push13 ring_consts unat_word_ariths)

text \<open>The number of items up to the end of the channel, and the new index.\<close>

lemma room_words:
  fixes lb l n :: u32
  assumes "unat lb = 8192 * c" "c < 8" "unat l = 8192 * c + p" "p \<le> 8192" "unat n \<le> 8192"
  defines "k \<equiv> (if lb + MAX_ITEMS - l < n then lb + MAX_ITEMS - l else n)"
  shows "unat k = min (8192 - p) (unat n)" "longs_of k = min (8192 - p) (unat n)"
    "unat (n - k) = unat n - min (8192 - p) (unat n)"
    "longs_of (n - k) = unat n - min (8192 - p) (unat n)"
    "n - k \<noteq> 0 \<longleftrightarrow> 8192 - p < unat n"
    "8192 - p < unat n \<Longrightarrow> unat (lb + (n - k)) = 8192 * c + (unat n - (8192 - p))"
    "unat n \<le> 8192 - p \<Longrightarrow> unat (l + k) = 8192 * c + (p + unat n)"
proof -
  have ub: "unat (lb + MAX_ITEMS) = 8192 * c + 8192"
    using assms by (simp add: ring_consts unat_word_ariths)
  have "l \<le> lb + MAX_ITEMS"
    using assms by (simp add: word_le_nat_alt ub)
  then have r: "unat (lb + MAX_ITEMS - l) = 8192 - p"
    using assms by (simp add: unat_sub ub)
  show k: "unat k = min (8192 - p) (unat n)"
    by (simp add: k_def word_less_nat_alt r min_def)
  show "longs_of k = min (8192 - p) (unat n)"
    using k assms by (subst longs_of_small) auto
  have "k \<le> n" by (simp add: word_le_nat_alt k)
  then show nk: "unat (n - k) = unat n - min (8192 - p) (unat n)"
    by (simp add: unat_sub k)
  show "longs_of (n - k) = unat n - min (8192 - p) (unat n)"
    using nk assms by (subst longs_of_small) auto
  show "n - k \<noteq> 0 \<longleftrightarrow> 8192 - p < unat n"
    unfolding unat_eq_zero [symmetric] nk by (auto simp: min_def)
  show "unat (lb + (n - k)) = 8192 * c + (unat n - (8192 - p))" if "8192 - p < unat n"
    using that assms(1-5) nk by (simp add: unat_word_ariths(1) min_def)
  show "unat (l + k) = 8192 * c + (p + unat n)" if "unat n \<le> 8192 - p"
    using that assms(1-5) k by (simp add: unat_word_ariths(1) min_def)
qed

lemma ucast_64_of_nat: "ucast (x::u32) = (of_nat (unat x) :: u64)"
  by simp

lemma enqueue_char:
  fixes tot idx :: u32
  assumes ok: "chan_ok q c" and c: "unat idx = c"
  defines "n \<equiv> unat tot" and "p \<equiv> prod_at q c"
  defines "v \<equiv> chan_index c (ring_next 8192 p n)"
  shows "s_variable_multi_enqueue q src tot idx =
    (if chan_used q c + n \<le> 8191 then
       (sint tot, q\<lparr>ring_2mb := (wrap_blit (ring_2mb q) (8192 * c) 8192 p src n)(2 * c + 65536 := v),
          ring_4kb := (ring_4kb q)(2 * c := v)\<rparr>)
     else (0, q))"
proof -
  note u = chan_ok_unfold [OF ok] and w = index_words [OF c chan_ok_unfold(5) [OF ok]]
  define LP where "LP = (ucast (ring_4kb q (2 * c)) :: u32)"
  define RC where "RC = (ucast (ring_4kb q (2 * c + 1)) :: u32)"
  have LP: "unat LP = 8192 * c + p" and RC: "unat RC = 8192 * c + cons_at q c"
    using u unfolding LP_def RC_def p_def by (simp_all add: unat_ucast_32)
  have p: "p \<le> 8192" using u(2) by (simp add: p_def)
  have "unat ((RC - (LP + 1)) mod MAX_ITEMS) = 8191 - chan_used q c"
    using max_dist_nat [of c LP RC] LP RC p u(4)
    by (simp add: ring_consts chan_used_def p_def)
  then have fits: "tot \<le> (RC - (LP + 1)) mod MAX_ITEMS \<longleftrightarrow> chan_used q c + n \<le> 8191"
    using chan_used_less [of q c] unfolding word_le_nat_alt n_def by linarith
  show ?thesis
  proof (cases "chan_used q c + n \<le> 8191")
    case False
    then show ?thesis
      using fits unfolding s_variable_multi_enqueue_def Let_def w LP_def [symmetric] RC_def [symmetric]
      by simp
  next
    case True
    then have n: "unat tot \<le> 8192" by (simp add: n_def)
    note r = room_words [OF w(5) u(5) LP p n, folded n_def]
    define k where "k = (if push_bit MAX_ITEMS_ORDER idx + MAX_ITEMS - LP < tot
        then push_bit MAX_ITEMS_ORDER idx + MAX_ITEMS - LP else tot)"
    note r = r [folded k_def]
    have v: "8192 - p < n \<Longrightarrow> ucast (push_bit MAX_ITEMS_ORDER idx + (tot - k)) = v"
      "\<not> 8192 - p < n \<Longrightarrow> ucast (LP + k) = v"
      using r(6,7) by (simp_all add: ucast_64_of_nat v_def chan_index_def ring_next_def del: of_nat_add)
    show ?thesis
      using True fits r(2,4,5) w LP v
      unfolding s_variable_multi_enqueue_def Let_def w LP_def [symmetric] RC_def [symmetric] k_def [symmetric]
      by (auto simp: wrap_blit_def Let_def min_def)
  qed
qed


lemma dequeue_char:
  fixes tot idx :: u32
  assumes ok: "chan_ok q c" and c: "unat idx = c"
  defines "n \<equiv> unat tot" and "p \<equiv> cons_at q c"
  defines "v \<equiv> chan_index c (ring_next 8192 p n)"
  shows "s_variable_multi_dequeue q dst tot idx =
    (if n \<le> chan_used q c then
       (sint tot, wrap_read (ring_2mb q) (8192 * c) 8192 p dst n,
        q\<lparr>ring_2mb := (ring_2mb q)(2 * c + 65537 := v),
          ring_4kb := (ring_4kb q)(2 * c + 1 := v)\<rparr>)
     else (0, dst, q))"
proof -
  note u = chan_ok_unfold [OF ok] and w = index_words [OF c chan_ok_unfold(5) [OF ok]]
  define LC where "LC = (ucast (ring_2mb q (2 * c + 65537)) :: u32)"
  define RP where "RP = (ucast (ring_2mb q (2 * c + 65536)) :: u32)"
  have LC: "unat LC = 8192 * c + p" and RP: "unat RP = 8192 * c + prod_at q c"
    using u unfolding LC_def RP_def p_def by (simp_all add: unat_ucast_32)
  have p: "p \<le> 8192" using u(4) by (simp add: p_def)
  have "unat ((RP - LC) mod MAX_ITEMS) = chan_used q c"
    using max_avail_nat [of c LC RP] LC RP p
    by (simp add: ring_consts chan_used_def p_def)
  then have fits: "tot \<le> (RP - LC) mod MAX_ITEMS \<longleftrightarrow> n \<le> chan_used q c"
    unfolding word_le_nat_alt n_def by simp
  show ?thesis
  proof (cases "n \<le> chan_used q c")
    case False
    then show ?thesis
      using fits unfolding s_variable_multi_dequeue_def Let_def w LC_def [symmetric] RP_def [symmetric]
      by simp
  next
    case True
    then have n: "unat tot \<le> 8192"
      using chan_used_less [of q c] unfolding n_def by linarith
    define k where "k = (if push_bit MAX_ITEMS_ORDER idx + MAX_ITEMS - LC < tot
        then push_bit MAX_ITEMS_ORDER idx + MAX_ITEMS - LC else tot)"
    note r = room_words [OF w(5) u(5) LC p n, folded n_def, folded k_def]
    have v: "8192 - p < n \<Longrightarrow> ucast (push_bit MAX_ITEMS_ORDER idx + (tot - k)) = v"
      "\<not> 8192 - p < n \<Longrightarrow> ucast (LC + k) = v"
      using r(6,7) by (simp_all add: ucast_64_of_nat v_def chan_index_def ring_next_def del: of_nat_add)
    show ?thesis
      using True fits r(2,4,5) w LC v
      unfolding s_variable_multi_dequeue_def Let_def w LC_def [symmetric] RP_def [symmetric] k_def [symmetric]
      by (auto simp: wrap_read_def Let_def min_def)
  qed
qed

section \<open>What the operations do to the queue\<close>

lemma chan_ok_I:
  assumes "c < 8" "ring_4kb q (2 * c) = chan_index c p" "p \<le> 8192"
    "ring_4kb q (2 * c + 1) = chan_index c r" "r \<le> 8192"
    "ring_2mb q (2 * c + 65536) = chan_index c p"
    "ring_2mb q (2 * c + 65537) = chan_index c r"
  shows "chan_ok q c" "prod_at q c = p" "cons_at q c = r"
  using assms by (simp_all add: chan_ok_def idx_ok_def prod_at_def cons_at_def chan_base_def)

lemma index_of_nat:
  assumes "chan_ok q c"
  shows "ring_4kb q (2 * c) = chan_index c (prod_at q c)"
    "ring_4kb q (2 * c + 1) = chan_index c (cons_at q c)"
    "ring_2mb q (2 * c + 65536) = chan_index c (prod_at q c)"
    "ring_2mb q (2 * c + 65537) = chan_index c (cons_at q c)"
proof -
  note u = chan_ok_unfold [OF assms]
  show "ring_4kb q (2 * c) = chan_index c (prod_at q c)"
    "ring_4kb q (2 * c + 1) = chan_index c (cons_at q c)"
    using u by (auto intro!: word_unat_eq_iff [THEN iffD2])
  then show "ring_2mb q (2 * c + 65536) = chan_index c (prod_at q c)"
    "ring_2mb q (2 * c + 65537) = chan_index c (cons_at q c)"
    using u by auto
qed

text \<open>The cells of a channel lie below the indexes.\<close>

lemma circ_index_upd:
  assumes "c < 8" "65536 \<le> k"
  shows "circ (m(k := x)) (8192 * c) 8192 s n = circ m (8192 * c) 8192 s n"
proof (rule circ_cong)
  fix i
  have "(s + i) mod 8192 < 8192" by simp
  with assms show "(m(k := x)) (8192 * c + (s + i) mod 8192) = m (8192 * c + (s + i) mod 8192)"
    by (intro fun_upd_other) linarith
qed

lemma enqueue_put:
  fixes tot idx :: u32
  assumes ok: "chan_ok q c" and c: "unat idx = c" and room: "chan_used q c + unat tot \<le> 8191"
    and r: "s_variable_multi_enqueue q src tot idx = (ret, q')"
  shows "ret = sint tot" "chan_ok q' c" "chan_items q' c = chan_items q c @ map src [0..<unat tot]"
proof -
  let ?n = "unat tot" and ?p = "prod_at q c" and ?s = "cons_at q c"
  note u = chan_ok_unfold [OF ok]
  have q': "q' = q\<lparr>ring_2mb := (wrap_blit (ring_2mb q) (8192 * c) 8192 ?p src ?n)
        (2 * c + 65536 := chan_index c (ring_next 8192 ?p ?n)),
      ring_4kb := (ring_4kb q)(2 * c := chan_index c (ring_next 8192 ?p ?n))\<rparr>"
    and "ret = sint tot"
    using enqueue_char [OF ok c, of src tot] r room by auto
  then show "ret = sint tot" by simp
  have n: "?n \<le> 8192" using room by simp
  have out: "wrap_blit (ring_2mb q) (8192 * c) 8192 ?p src ?n (2 * c + 65537) = ring_2mb q (2 * c + 65537)"
    using u n by (intro wrap_blit_outside) auto
  have m: "ring_4kb q' (2 * c) = chan_index c (ring_next 8192 ?p ?n)"
    "ring_4kb q' (2 * c + 1) = chan_index c ?s"
    "ring_2mb q' (2 * c + 65536) = chan_index c (ring_next 8192 ?p ?n)"
    "ring_2mb q' (2 * c + 65537) = chan_index c ?s"
    using out index_of_nat [OF ok] by (simp_all add: q')
  note I = chan_ok_I [OF u(5) m(1) ring_next_le [OF u(2) n] m(2) u(4) m(3,4)]
  show "chan_ok q' c" by (rule I)
  have used: "chan_used q' c = chan_used q c + ?n"
    using used_after_put [of ?p 8192 ?s ?n] u room I(2,3) by (simp add: chan_used_def)
  have "chan_items q' c = circ (wrap_blit (ring_2mb q) (8192 * c) 8192 ?p src ?n) (8192 * c) 8192 ?s
      (chan_used q c + ?n)"
    unfolding chan_items_def used I(3) chan_base_def using u(5) by (simp add: q' circ_index_upd)
  also have "\<dots> = chan_items q c @ map src [0..<?n]"
    unfolding chan_items_def chan_base_def
  proof (rule circ_wrap_blit)
    have "?s + (?p + 8192 - ?s) = ?p + 8192" using u by simp
    then show "(?s + chan_used q c) mod 8192 = ?p mod 8192"
      unfolding chan_used_def by (simp add: mod_add_right_eq)
  qed (use u room in auto)
  finally show "chan_items q' c = chan_items q c @ map src [0..<?n]" .
qed

lemma enqueue_full:
  fixes tot idx :: u32
  assumes "chan_ok q c" "unat idx = c" "8191 < chan_used q c + unat tot"
  shows "s_variable_multi_enqueue q src tot idx = (0, q)"
  using enqueue_char [OF assms(1,2), of src tot] assms(3) by simp

lemma dequeue_get:
  fixes tot idx :: u32
  assumes ok: "chan_ok q c" and c: "unat idx = c" and avail: "unat tot \<le> chan_used q c"
    and r: "s_variable_multi_dequeue q dst tot idx = (ret, dst', q')"
  shows "ret = sint tot" "chan_ok q' c" "chan_items q' c = drop (unat tot) (chan_items q c)"
    "map dst' [0..<unat tot] = take (unat tot) (chan_items q c)"
    "\<And>i. unat tot \<le> i \<Longrightarrow> dst' i = dst i"
proof -
  let ?n = "unat tot" and ?p = "prod_at q c" and ?s = "cons_at q c"
  note u = chan_ok_unfold [OF ok]
  have q': "q' = q\<lparr>ring_2mb := (ring_2mb q)(2 * c + 65537 := chan_index c (ring_next 8192 ?s ?n)),
      ring_4kb := (ring_4kb q)(2 * c + 1 := chan_index c (ring_next 8192 ?s ?n))\<rparr>"
    and dst': "dst' = wrap_read (ring_2mb q) (8192 * c) 8192 ?s dst ?n" and "ret = sint tot"
    using dequeue_char [OF ok c, of dst tot] r avail by auto
  then show "ret = sint tot" by simp
  have n: "?n < 8192" using avail chan_used_less [of q c] by linarith
  have m: "ring_4kb q' (2 * c) = chan_index c ?p"
    "ring_4kb q' (2 * c + 1) = chan_index c (ring_next 8192 ?s ?n)"
    "ring_2mb q' (2 * c + 65536) = chan_index c ?p"
    "ring_2mb q' (2 * c + 65537) = chan_index c (ring_next 8192 ?s ?n)"
    using index_of_nat [OF ok] by (simp_all add: q')
  note I = chan_ok_I [OF u(5) m(1) u(2) m(2) ring_next_le [OF u(4) less_imp_le [OF n]] m(3,4)]
  show "chan_ok q' c" by (rule I)
  have used: "chan_used q' c = chan_used q c - ?n"
    unfolding chan_used_def I(2,3)
    by (rule used_after_get) (use u avail in \<open>auto simp: chan_used_def\<close>)
  have "chan_items q' c = circ (ring_2mb q) (8192 * c) 8192 (ring_next 8192 ?s ?n) (chan_used q c - ?n)"
    unfolding chan_items_def used I(3) chan_base_def using u(5) by (simp add: q' circ_index_upd)
  also have "\<dots> = circ (ring_2mb q) (8192 * c) 8192 (?s + ?n) (chan_used q c - ?n)"
    using n by (intro circ_mod_cong ring_next_mod u(4)) simp
  also have "\<dots> = drop ?n (chan_items q c)"
    using avail by (simp add: chan_items_def chan_base_def circ_drop)
  finally show "chan_items q' c = drop ?n (chan_items q c)" .
  show "map dst' [0..<?n] = take ?n (chan_items q c)"
    using avail n u(4) by (simp add: dst' map_wrap_read chan_items_def chan_base_def circ_take)
  show "dst' i = dst i" if "?n \<le> i" for i
    using that by (simp add: dst' wrap_read_old)
qed

lemma dequeue_short:
  fixes tot idx :: u32
  assumes "chan_ok q c" "unat idx = c" "chan_used q c < unat tot"
  shows "s_variable_multi_dequeue q dst tot idx = (0, dst, q)"
  using dequeue_char [OF assms(1,2), of dst tot] assms(3) by simp

section \<open>What the operations leave alone\<close>

text \<open>
  Every cell an operation on channel \<open>c\<close> changes is an item of the channel or one of its
  own indexes; all of them lie inside the two mapped regions (262144 and 512 cells).
\<close>

lemma enqueue_footprint:
  fixes tot idx :: u32
  assumes ok: "chan_ok q c" and c: "unat idx = c"
    and r: "s_variable_multi_enqueue q src tot idx = (ret, q')"
  shows "ring_2mb q' i \<noteq> ring_2mb q i \<Longrightarrow> 8192 * c \<le> i \<and> i < 8192 * c + 8192 \<or> i = 2 * c + 65536"
    "ring_4kb q' i \<noteq> ring_4kb q i \<Longrightarrow> i = 2 * c"
proof -
  let ?m = "wrap_blit (ring_2mb q) (8192 * c) 8192 (prod_at q c) src (unat tot)"
  show "ring_4kb q' i \<noteq> ring_4kb q i \<Longrightarrow> i = 2 * c"
    using enqueue_char [OF ok c, of src tot] r by (auto split: if_splits)
  show "8192 * c \<le> i \<and> i < 8192 * c + 8192 \<or> i = 2 * c + 65536" if "ring_2mb q' i \<noteq> ring_2mb q i"
  proof (rule ccontr)
    assume not: "\<not> (8192 * c \<le> i \<and> i < 8192 * c + 8192 \<or> i = 2 * c + 65536)"
    have "?m i = ring_2mb q i" if "unat tot \<le> 8191"
      using not that chan_ok_unfold(2) [OF ok] by (intro wrap_blit_outside) auto
    with not that enqueue_char [OF ok c, of src tot] r show False by (auto split: if_splits)
  qed
qed

lemma dequeue_footprint:
  fixes tot idx :: u32
  assumes ok: "chan_ok q c" and c: "unat idx = c"
    and r: "s_variable_multi_dequeue q dst tot idx = (ret, dst', q')"
  shows "ring_2mb q' i \<noteq> ring_2mb q i \<Longrightarrow> i = 2 * c + 65537"
    "ring_4kb q' i \<noteq> ring_4kb q i \<Longrightarrow> i = 2 * c + 1"
  using dequeue_char [OF ok c, of dst tot] r by (auto split: if_splits)

text \<open>A channel depends on its own cells only.\<close>

lemma chan_cong:
  assumes ok: "chan_ok q d"
    and same: "\<And>i. 8192 * d \<le> i \<Longrightarrow> i < 8192 * d + 8192 \<Longrightarrow> ring_2mb q' i = ring_2mb q i"
      "ring_2mb q' (2 * d + 65536) = ring_2mb q (2 * d + 65536)"
      "ring_2mb q' (2 * d + 65537) = ring_2mb q (2 * d + 65537)"
      "ring_4kb q' (2 * d) = ring_4kb q (2 * d)" "ring_4kb q' (2 * d + 1) = ring_4kb q (2 * d + 1)"
  shows "chan_ok q' d \<and> chan_items q' d = chan_items q d"
proof -
  have at: "prod_at q' d = prod_at q d" "cons_at q' d = cons_at q d"
    using same by (simp_all add: prod_at_def cons_at_def)
  then have "chan_items q' d = chan_items q d"
    unfolding chan_items_def chan_used_def chan_base_def by (auto intro!: circ_cong same(1))
  with ok same show ?thesis by (simp add: chan_ok_def)
qed

lemma enqueue_other:
  fixes tot idx :: u32
  assumes ok: "chan_ok q c" and c: "unat idx = c" and d: "chan_ok q d" "d \<noteq> c"
    and r: "s_variable_multi_enqueue q src tot idx = (ret, q')"
  shows "chan_ok q' d \<and> chan_items q' d = chan_items q d"
proof -
  note u = chan_ok_unfold(5) [OF ok] chan_ok_unfold(5) [OF d(1)] and fp = enqueue_footprint [OF ok c r]
  show ?thesis
  proof (rule chan_cong [OF d(1)])
    show "ring_2mb q' i = ring_2mb q i" if "8192 * d \<le> i" "i < 8192 * d + 8192" for i
      by (rule ccontr, drule fp(1)) (use that u d(2) in arith)
    show "ring_2mb q' (2 * d + 65536) = ring_2mb q (2 * d + 65536)"
      by (rule ccontr, drule fp(1)) (use u d(2) in arith)
    show "ring_2mb q' (2 * d + 65537) = ring_2mb q (2 * d + 65537)"
      by (rule ccontr, drule fp(1)) (use u d(2) in arith)
    show "ring_4kb q' (2 * d) = ring_4kb q (2 * d)"
      by (rule ccontr, drule fp(2)) (use u d(2) in arith)
    show "ring_4kb q' (2 * d + 1) = ring_4kb q (2 * d + 1)"
      by (rule ccontr, drule fp(2)) (use u d(2) in arith)
  qed
qed

lemma dequeue_other:
  fixes tot idx :: u32
  assumes ok: "chan_ok q c" and c: "unat idx = c" and d: "chan_ok q d" "d \<noteq> c"
    and r: "s_variable_multi_dequeue q dst tot idx = (ret, dst', q')"
  shows "chan_ok q' d \<and> chan_items q' d = chan_items q d"
proof -
  note u = chan_ok_unfold(5) [OF ok] chan_ok_unfold(5) [OF d(1)] and fp = dequeue_footprint [OF ok c r]
  show ?thesis
  proof (rule chan_cong [OF d(1)])
    show "ring_2mb q' i = ring_2mb q i" if "8192 * d \<le> i" "i < 8192 * d + 8192" for i
      by (rule ccontr, drule fp(1)) (use that u d(2) in arith)
    show "ring_2mb q' (2 * d + 65536) = ring_2mb q (2 * d + 65536)"
      by (rule ccontr, drule fp(1)) (use u d(2) in arith)
    show "ring_2mb q' (2 * d + 65537) = ring_2mb q (2 * d + 65537)"
      by (rule ccontr, drule fp(1)) (use u d(2) in arith)
    show "ring_4kb q' (2 * d) = ring_4kb q (2 * d)"
      by (rule ccontr, drule fp(2)) (use u d(2) in arith)
    show "ring_4kb q' (2 * d + 1) = ring_4kb q (2 * d + 1)"
      by (rule ccontr, drule fp(2)) (use u d(2) in arith)
  qed
qed

section \<open>A channel provides the contract\<close>

text \<open>The two operations on blocks: \<open>None\<close> when the call moved nothing.\<close>

definition list_mem :: "u64 list \<Rightarrow> u64 mem" where
  "list_mem xs i = (if i < length xs then xs ! i else 0)"

definition chan_put :: "nat \<Rightarrow> u64 list \<Rightarrow> queue_object \<Rightarrow> queue_object option" where
  "chan_put c xs q =
     (case s_variable_multi_enqueue q (list_mem xs) (of_nat (length xs)) (of_nat c) of
        (ret, q') \<Rightarrow> if ret = sint (of_nat (length xs) :: u32) then Some q' else None)"

definition chan_take :: "nat \<Rightarrow> nat \<Rightarrow> queue_object \<Rightarrow> (u64 list \<times> queue_object) option" where
  "chan_take c n q =
     (case s_variable_multi_dequeue q (\<lambda>_. 0) (of_nat n) (of_nat c) of
        (ret, dst, q') \<Rightarrow> if ret = sint (of_nat n :: u32) then Some (map dst [0..<n], q') else None)"

lemma map_list_mem: "map (list_mem xs) [0..<length xs] = xs"
  by (rule nth_equalityI) (auto simp: list_mem_def)

lemma unat_of_nat_u32: "n < 2 ^ 32 \<Longrightarrow> unat (of_nat n :: u32) = n"
  by (simp add: unat_of_nat take_bit_nat_eq_self)

lemma sint_of_nat_0: "sint (of_nat n :: u32) = 0 \<Longrightarrow> n < 2 ^ 32 \<Longrightarrow> n = 0"
  using unat_of_nat_u32 [of n] by (metis signed_0 signed_word_eqI unat_0)

interpretation chan: bounded_fifo "\<lambda>q. chan_items q c" "\<lambda>q. chan_ok q c" 8191 "2 ^ 32"
  "chan_put c" "chan_take c" for c
proof
  fix q and xs :: "u64 list"
  assume ok: "chan_ok q c" and room: "length (chan_items q c) + length xs \<le> 8191"
  note c = unat_of_nat_u32 [of c] chan_ok_unfold(5) [OF ok]
  have n: "unat (of_nat (length xs) :: u32) = length xs"
    using room by (intro unat_of_nat_u32) simp
  obtain ret q' where r: "s_variable_multi_enqueue q (list_mem xs) (of_nat (length xs)) (of_nat c) = (ret, q')"
    by fastforce
  from enqueue_put [OF ok _ _ r] c room n r
  show "\<exists>s'. chan_put c xs q = Some s' \<and> chan_items s' c = chan_items q c @ xs \<and> chan_ok s' c"
    by (simp add: chan_put_def map_list_mem)
next
  fix q and xs :: "u64 list"
  assume ok: "chan_ok q c" and n: "length xs < 2 ^ 32"
    and full: "8191 < length (chan_items q c) + length (xs :: u64 list)" and ne: "xs \<noteq> []"
  have "s_variable_multi_enqueue q (list_mem xs) (of_nat (length xs)) (of_nat c) = (0, q)"
    using full n chan_ok_unfold(5) [OF ok] by (intro enqueue_full [OF ok]) (auto simp: unat_of_nat_u32)
  moreover have "sint (of_nat (length xs) :: u32) \<noteq> 0"
    using sint_of_nat_0 [OF _ n] ne by auto
  ultimately show "chan_put c xs q = None"
    unfolding chan_put_def by simp
next
  fix q n
  assume ok: "chan_ok q c" and avail: "n \<le> length (chan_items q c)"
  have "n < 2 ^ 32" using avail chan_used_less [of q c] by (simp del: chan_used_less)
  then have n: "unat (of_nat n :: u32) = n" by (rule unat_of_nat_u32)
  obtain ret dst q' where r: "s_variable_multi_dequeue q (\<lambda>_. 0) (of_nat n) (of_nat c) = (ret, dst, q')"
    by (metis prod_cases3)
  from dequeue_get [OF ok _ _ r] avail n r unat_of_nat_u32 [of c] chan_ok_unfold(5) [OF ok]
  show "\<exists>s'. chan_take c n q = Some (take n (chan_items q c), s') \<and>
      chan_items s' c = drop n (chan_items q c) \<and> chan_ok s' c"
    by (simp add: chan_take_def)
next
  fix q n
  assume ok: "chan_ok q c" and n: "n < 2 ^ 32" and short: "length (chan_items q c) < n"
  have "s_variable_multi_dequeue q (\<lambda>_. 0) (of_nat n) (of_nat c) = (0, \<lambda>_. 0, q)"
    using short n chan_ok_unfold(5) [OF ok] by (intro dequeue_short [OF ok]) (auto simp: unat_of_nat_u32)
  moreover have "sint (of_nat n :: u32) \<noteq> 0"
    using sint_of_nat_0 [OF _ n] short by auto
  ultimately show "chan_take c n q = None"
    unfolding chan_take_def by simp
next
  fix q
  show "length (chan_items q c) \<le> 8191"
    using chan_used_less [of q c] by (simp del: chan_used_less)
qed

section \<open>An empty ring\<close>

definition empty_queue :: queue_object where
  "empty_queue = \<lparr>ring_2mb = (\<lambda>i. if i < 65536 then 0 else chan_index ((i - 65536) div 2) 0),
     ring_4kb = (\<lambda>i. chan_index (i div 2) 0), queue_type = 0, q_socket = 0\<rparr>"

lemma empty_queue_ok:
  assumes "c < 8"
  shows "chan_ok empty_queue c" "chan_items empty_queue c = []" "chan_used empty_queue c = 0"
proof -
  have m: "ring_4kb empty_queue (2 * c) = chan_index c 0" "ring_4kb empty_queue (2 * c + 1) = chan_index c 0"
    "ring_2mb empty_queue (2 * c + 65536) = chan_index c 0"
    "ring_2mb empty_queue (2 * c + 65537) = chan_index c 0"
    by (simp_all add: empty_queue_def)
  note I = chan_ok_I [OF assms m(1) _ m(2) _ m(3,4)]
  show "chan_ok empty_queue c" using I(1) by simp
  show used: "chan_used empty_queue c = 0" using I(2,3) by (simp add: chan_used_def)
  then show "chan_items empty_queue c = []" by (simp add: chan_items_def)
qed

section \<open>Properties\<close>

text \<open>
  C2. An enqueue of \<open>n\<close> items on a well-formed channel appends exactly these items when
  \<open>n\<close> free cells are left (one cell of the 8192 always stays free) and returns \<open>n\<close>; otherwise
  it returns 0 and changes nothing. The wrap at the end of the channel does not show.
\<close>

theorem enqueue_refines_queue:
  fixes tot idx :: u32
  assumes "chan_ok q (unat idx)"
    and "s_variable_multi_enqueue q src tot idx = (ret, q')"
  shows "chan_ok q' (unat idx) \<and>
    (if length (chan_items q (unat idx)) + unat tot \<le> 8191
     then ret = sint tot \<and> chan_items q' (unat idx) = chan_items q (unat idx) @ map src [0..<unat tot]
     else ret = 0 \<and> q' = q)"
  using enqueue_put [OF assms(1) refl _ assms(2)] enqueue_full [OF assms(1) refl, of tot src] assms
  by (cases "chan_used q (unat idx) + unat tot \<le> 8191") auto

theorem enqueue_refines_queue_witness:
  "\<exists>ret q'. s_variable_multi_enqueue empty_queue (\<lambda>i. of_nat i) 2 3 = (ret, q') \<and>
     ret = 2 \<and> chan_items q' 3 = [0, 1]"
proof -
  obtain ret q' where r: "s_variable_multi_enqueue empty_queue (\<lambda>i. of_nat i) 2 3 = (ret, q')"
    by fastforce
  have "chan_ok empty_queue (unat (3 :: u32))" by (simp add: empty_queue_ok)
  from enqueue_refines_queue [OF this r] r show ?thesis
    by (simp add: empty_queue_ok upt_conv_Cons)
qed

text \<open>
  C3. A dequeue of \<open>n\<close> items on a well-formed channel delivers the oldest \<open>n\<close> items in order,
  removes exactly them and returns \<open>n\<close> when that many are there; otherwise it returns 0 and
  changes nothing.
\<close>

theorem dequeue_refines_queue:
  fixes tot idx :: u32
  assumes "chan_ok q (unat idx)"
    and "s_variable_multi_dequeue q dst tot idx = (ret, dst', q')"
  shows "chan_ok q' (unat idx) \<and>
    (if unat tot \<le> length (chan_items q (unat idx))
     then ret = sint tot \<and> map dst' [0..<unat tot] = take (unat tot) (chan_items q (unat idx)) \<and>
       chan_items q' (unat idx) = drop (unat tot) (chan_items q (unat idx)) \<and>
       (\<forall>i \<ge> unat tot. dst' i = dst i)
     else ret = 0 \<and> dst' = dst \<and> q' = q)"
  using dequeue_get [OF assms(1) refl _ assms(2)] dequeue_short [OF assms(1) refl, of tot dst] assms
  by (cases "unat tot \<le> chan_used q (unat idx)") auto

theorem dequeue_refines_queue_witness:
  "s_variable_multi_dequeue empty_queue (\<lambda>_. 7) 1 0 = (0, \<lambda>_. 7, empty_queue)"
proof -
  obtain ret dst q' where r: "s_variable_multi_dequeue empty_queue (\<lambda>_. 7) 1 0 = (ret, dst, q')"
    by (metis prod_cases3)
  have "chan_ok empty_queue (unat (0 :: u32))" by (simp add: empty_queue_ok)
  from dequeue_refines_queue [OF this r] r show ?thesis
    by (simp add: empty_queue_ok)
qed

text \<open>
  The eight channels of a ring do not interfere: an operation on one channel leaves the
  items of every other channel as they are, and every cell it changes lies inside the
  mapped 2 MB and 4 KB regions.
\<close>

theorem channels_isolated:
  fixes tot idx :: u32
  assumes "chan_ok q (unat idx)" and "chan_ok q d" and "d \<noteq> unat idx"
    and "s_variable_multi_enqueue q src tot idx = (ret, q1)"
    and "s_variable_multi_dequeue q dst tot idx = (ret', dst', q2)"
  shows "chan_ok q1 d \<and> chan_items q1 d = chan_items q d \<and>
    chan_ok q2 d \<and> chan_items q2 d = chan_items q d \<and>
    (\<forall>i. ring_2mb q1 i \<noteq> ring_2mb q i \<or> ring_2mb q2 i \<noteq> ring_2mb q i \<longrightarrow> i < 262144) \<and>
    (\<forall>i. ring_4kb q1 i \<noteq> ring_4kb q i \<or> ring_4kb q2 i \<noteq> ring_4kb q i \<longrightarrow> i < 512)"
proof -
  have c: "unat idx < 8" by (rule chan_ok_unfold(5) [OF assms(1)])
  have "\<forall>i. ring_2mb q1 i \<noteq> ring_2mb q i \<or> ring_2mb q2 i \<noteq> ring_2mb q i \<longrightarrow> i < 262144"
    using enqueue_footprint(1) [OF assms(1) refl assms(4)]
      dequeue_footprint(1) [OF assms(1) refl assms(5)] c by fastforce
  moreover have "\<forall>i. ring_4kb q1 i \<noteq> ring_4kb q i \<or> ring_4kb q2 i \<noteq> ring_4kb q i \<longrightarrow> i < 512"
    using enqueue_footprint(2) [OF assms(1) refl assms(4)]
      dequeue_footprint(2) [OF assms(1) refl assms(5)] c by fastforce
  ultimately show ?thesis
    using enqueue_other [OF assms(1) refl assms(2,3,4)] dequeue_other [OF assms(1) refl assms(2,3,5)]
    by blast
qed

theorem channels_isolated_witness:
  "\<exists>ret q1. s_variable_multi_enqueue empty_queue (\<lambda>_. 9) 5 2 = (ret, q1) \<and> chan_items q1 4 = []"
proof -
  obtain ret q1 where r: "s_variable_multi_enqueue empty_queue (\<lambda>_. 9) 5 2 = (ret, q1)" by fastforce
  obtain ret' dst q2 where r': "s_variable_multi_dequeue empty_queue (\<lambda>_. 0) 5 2 = (ret', dst, q2)"
    by (metis prod_cases3)
  have "chan_ok empty_queue (unat (2 :: u32))" "chan_ok empty_queue 4" "4 \<noteq> unat (2 :: u32)"
    by (simp_all add: empty_queue_ok)
  from channels_isolated [OF this r r'] r show ?thesis by (simp add: empty_queue_ok)
qed

text \<open>
  C19. In any order of enqueues and dequeues on a channel, successful or not, what was in the
  channel followed by all that went in is all that came out followed by what is left:
  nothing is lost, duplicated or reordered.
\<close>

theorem channel_conserves:
  assumes "chan_ok q c" and "\<forall>p \<in> set ops. chan.op_in_range p"
    and "chan.run c ops q = (put, got, q')"
  shows "chan_items q c @ put = got @ chan_items q' c \<and> chan_ok q' c"
  using chan.run_conserves [OF assms] .

theorem channel_conserves_witness:
  "\<exists>got q'. chan.run 2 [Put [5, 6], Get 2] empty_queue = ([5, 6], got, q') \<and>
     [5, 6] = got @ chan_items q' 2"
proof -
  obtain s1 where s1: "chan_put 2 [5, 6] empty_queue = Some s1" "chan_items s1 2 = [5, 6]" "chan_ok s1 2"
    using chan.enq_ok [of empty_queue 2 "[5, 6]"] empty_queue_ok [of 2] by auto
  obtain s2 where s2: "chan_take 2 2 s1 = Some ([5, 6], s2)"
    using chan.deq_ok [of s1 2 2] s1 length_chan_items [of s1 2] by auto
  have r: "chan.run 2 [Put [5, 6], Get 2] empty_queue = ([5, 6], [5, 6], s2)"
    using s1 s2 by simp
  have "chan_ok empty_queue 2" "\<forall>p \<in> set [Put [5, 6 :: u64], Get 2]. chan.op_in_range p"
    unfolding chan.op_in_range_def by (simp_all add: empty_queue_ok)
  from channel_conserves [OF this r] r show ?thesis by (simp add: empty_queue_ok)
qed

end
