(* ===== verification/Mem_Task.thy ===== *)
theory Mem_Task
  imports Mem_Ring "HOL-Library.Signed_Division"
begin

text \<open>
  Tasks over the channels (mem-sharing-library/vca_mem.c): a task is a header block and the
  payload in blocks of 256 bytes, submitted and received block by block, with busy waiting
  while the ring is full or empty. What the other side of the shared memory does between two
  attempts is a parameter: \<open>peer t q\<close> is the shared state just before attempt number \<open>t\<close>.
\<close>

section \<open>Data\<close>

definition VCA_SOCKETS :: int where "VCA_SOCKETS = 6"
definition MAGIC :: u64 where "MAGIC = 0xdeadbeefcafebabe"
definition NUM_ITEMS :: u32 where "NUM_ITEMS = 32"
definition BUFF_SIZE_BOUNDARY :: u64 where "BUFF_SIZE_BOUNDARY = 256"
definition MAX_CHANNELS :: int where "MAX_CHANNELS = 8"

lemmas task_consts = VCA_SOCKETS_def MAGIC_def NUM_ITEMS_def BUFF_SIZE_BOUNDARY_def MAX_CHANNELS_def

record task_queue_opaque =
  active_sockets :: "int \<Rightarrow> int"
  next_recv_channel :: int
  next_submit_channel :: int
  next_recv_socket :: int
  next_submit_socket :: int
  total_sockets :: int
  tx_q_objs :: "int \<Rightarrow> queue_object option"
  rx_q_objs :: "int \<Rightarrow> queue_object option"

text \<open>
  The header as the 32 longs that are sent. The structure is a local variable and only its
  first three fields are assigned: \<open>stack\<close> is what the rest of it held before.
\<close>

definition task_header :: "u64 mem \<Rightarrow> u64 \<Rightarrow> u64 \<Rightarrow> u64 \<Rightarrow> u64 mem" where
  "task_header stack total_bursts payload_size magic =
     stack(0 := total_bursts, 1 := payload_size, 2 := magic)"

type_synonym peer = "nat \<Rightarrow> queue_object \<Rightarrow> queue_object"

section \<open>Submitting a task\<close>

partial_function (option) enqueue_spin ::
  "peer \<Rightarrow> u64 mem \<Rightarrow> u32 \<Rightarrow> nat \<Rightarrow> queue_object \<Rightarrow> (nat \<times> queue_object) option" where
  "enqueue_spin peer src channel t q =
     (case s_variable_multi_enqueue (peer t q) src NUM_ITEMS channel of
        (ret, q') \<Rightarrow>
          if ret \<noteq> 32 then enqueue_spin peer src channel (Suc t) q' else Some (Suc t, q'))"

text \<open>
  The blocks from \<open>burst_num\<close> on, of which \<open>left\<close> are to go. The counter is an \<open>int\<close>: adding 1 to
  2^31 - 1 is undefined.
\<close>

fun submit_bursts ::
  "peer \<Rightarrow> u8 mem \<Rightarrow> u32 \<Rightarrow> nat \<Rightarrow> nat \<Rightarrow> nat \<Rightarrow> queue_object \<Rightarrow> (nat \<times> queue_object) outcome option" where
  "submit_bursts peer task_buffer channel burst_num 0 t q = Some (Ret (t, q))"
| "submit_bursts peer task_buffer channel burst_num (Suc left) t q =
     (case enqueue_spin peer (longs_at task_buffer (burst_num * 256)) channel t q of
        None \<Rightarrow> None
      | Some (t', q') \<Rightarrow>
          if 2 ^ 31 \<le> Suc burst_num then Some Abort
          else submit_bursts peer task_buffer channel (Suc burst_num) left t' q')"

definition bursts_of :: "u64 \<Rightarrow> u64" where
  "bursts_of task_length = (task_length - 1) div BUFF_SIZE_BOUNDARY + 1"

definition common_submit_task ::
  "peer \<Rightarrow> u64 mem \<Rightarrow> task_queue_opaque \<Rightarrow> u64 \<Rightarrow> u8 mem \<Rightarrow> int \<Rightarrow> int
     \<Rightarrow> (u64 \<times> task_queue_opaque) outcome option" where
  "common_submit_task peer stack opaque task_length task_buffer channel socket =
     (case tx_q_objs opaque socket of
        None \<Rightarrow> Some Abort
      | Some q \<Rightarrow>
          (let total_bursts = bursts_of task_length;
               th = task_header stack total_bursts task_length MAGIC
           in case enqueue_spin peer th (word_of_int channel) 0 q of
                None \<Rightarrow> None
              | Some (t, q1) \<Rightarrow>
                  (case submit_bursts peer task_buffer (word_of_int channel) 0 (unat total_bursts) t q1 of
                     None \<Rightarrow> None
                   | Some Abort \<Rightarrow> Some Abort
                   | Some (Ret (_, q2)) \<Rightarrow>
                       Some (Ret (task_length,
                         opaque\<lparr>tx_q_objs := (tx_q_objs opaque)(socket := Some q2)\<rparr>)))))"

section \<open>Receiving a task\<close>

partial_function (option) dequeue_spin ::
  "peer \<Rightarrow> u64 mem \<Rightarrow> u32 \<Rightarrow> nat \<Rightarrow> queue_object \<Rightarrow> (u64 mem \<times> nat \<times> queue_object) option" where
  "dequeue_spin peer dst channel t q =
     (case s_variable_multi_dequeue (peer t q) dst NUM_ITEMS channel of
        (ret, dst', q') \<Rightarrow>
          if ret \<noteq> 32 then dequeue_spin peer dst' channel (Suc t) q' else Some (dst', Suc t, q'))"

text \<open>
  \<open>room\<close> is the size of the buffer: a block that is stored behind its end is an abort, and so is the
  overflow of the counter.
\<close>

fun recv_bursts ::
  "peer \<Rightarrow> nat \<Rightarrow> u8 mem \<Rightarrow> u32 \<Rightarrow> nat \<Rightarrow> nat \<Rightarrow> nat \<Rightarrow> queue_object
     \<Rightarrow> (u8 mem \<times> nat \<times> queue_object) outcome option" where
  "recv_bursts peer room task_buffer channel burst_num 0 t q = Some (Ret (task_buffer, t, q))"
| "recv_bursts peer room task_buffer channel burst_num (Suc left) t q =
     (case dequeue_spin peer (longs_at task_buffer (burst_num * 256)) channel t q of
        None \<Rightarrow> None
      | Some (dst, t', q') \<Rightarrow>
          if room < burst_num * 256 + 256 \<or> 2 ^ 31 \<le> Suc burst_num then Some Abort
          else recv_bursts peer room (store_longs task_buffer (burst_num * 256) dst 32) channel
            (Suc burst_num) left t' q')"

text \<open>
  The result: -1 when no header is there, else 0 with \<open>*task_length\<close> and the buffer, which has
  \<open>room\<close> bytes. The code is not told how many.
\<close>

definition common_recv_task ::
  "peer \<Rightarrow> u64 mem \<Rightarrow> nat \<Rightarrow> task_queue_opaque \<Rightarrow> u64 \<Rightarrow> u8 mem \<Rightarrow> int \<Rightarrow> int
     \<Rightarrow> (int \<times> u64 \<times> u8 mem \<times> task_queue_opaque) outcome option" where
  "common_recv_task peer stack room opaque task_length task_buffer channel socket =
     (case rx_q_objs opaque socket of
        None \<Rightarrow> Some Abort
      | Some q \<Rightarrow>
          (case s_variable_multi_dequeue (peer 0 q) stack NUM_ITEMS (word_of_int channel) of
             (ret, th, q1) \<Rightarrow>
               if ret \<noteq> 32 then
                 Some (Ret (-1, task_length, task_buffer,
                   opaque\<lparr>rx_q_objs := (rx_q_objs opaque)(socket := Some q1)\<rparr>))
               else if \<not> (th 0 \<noteq> 0 \<and> th 1 \<noteq> 0 \<and> th 2 = MAGIC) then Some Abort
               else
                 (case recv_bursts peer room task_buffer (word_of_int channel) 0 (unat (th 0)) 1 q1 of
                    None \<Rightarrow> None
                  | Some Abort \<Rightarrow> Some Abort
                  | Some (Ret (buf, _, q2)) \<Rightarrow>
                      Some (Ret (0, th 1, buf,
                        opaque\<lparr>rx_q_objs := (rx_q_objs opaque)(socket := Some q2)\<rparr>)))))"

section \<open>The host's and the card's entry points\<close>

text \<open>
  The choice of channel and socket: a negative task id asks for the next channel in turn,
  another one names both. \<open>%\<close> and \<open>/\<close> truncate towards zero. \<open>None\<close> is the division
  by zero of a task system without sockets, or a failed assertion.
\<close>

definition host_submit_pick :: "task_queue_opaque \<Rightarrow> int \<Rightarrow> (int \<times> int \<times> task_queue_opaque) option" where
  "host_submit_pick opaque task_id =
     (let channel = (if task_id < 0 then next_submit_channel opaque smod MAX_CHANNELS else task_id smod 10);
          op1 = (if task_id < 0 then opaque\<lparr>next_submit_channel := next_submit_channel opaque + 1\<rparr> else opaque);
          op2 = (if channel = 0 then op1\<lparr>next_submit_socket := next_submit_socket op1 + 1\<rparr> else op1)
      in if task_id < 0 \<and> total_sockets op2 = 0 then None
         else
           (let socket = (if task_id < 0
                          then active_sockets op2 (next_submit_socket op2 smod total_sockets op2)
                          else task_id sdiv 10)
            in if channel < MAX_CHANNELS \<and> socket < VCA_SOCKETS then Some (channel, socket, op2)
               else None))"

definition host_submit_task ::
  "peer \<Rightarrow> u64 mem \<Rightarrow> task_queue_opaque option \<Rightarrow> u64 \<Rightarrow> u8 mem option \<Rightarrow> int
     \<Rightarrow> (u64 \<times> task_queue_opaque) outcome option" where
  "host_submit_task peer stack opq task_length task_buffer task_id =
     (case (opq, task_buffer) of
        (Some opaque, Some buf) \<Rightarrow>
          (if task_length = 0 then Some Abort
           else (case host_submit_pick opaque task_id of
                   None \<Rightarrow> Some Abort
                 | Some (channel, socket, op1) \<Rightarrow>
                     common_submit_task peer stack op1 task_length buf channel socket))
      | _ \<Rightarrow> Some Abort)"

definition host_recv_pick :: "task_queue_opaque \<Rightarrow> (int \<times> int \<times> task_queue_opaque) option" where
  "host_recv_pick opaque =
     (let channel = next_recv_channel opaque smod MAX_CHANNELS;
          op1 = opaque\<lparr>next_recv_channel := next_recv_channel opaque + 1\<rparr>;
          op2 = (if channel = 0 then op1\<lparr>next_recv_socket := next_recv_socket op1 + 1\<rparr> else op1)
      in if total_sockets op2 = 0 then None
         else
           (let socket = active_sockets op2 (next_recv_socket op2 smod total_sockets op2)
            in if channel < MAX_CHANNELS \<and> socket < VCA_SOCKETS then Some (channel, socket, op2)
               else None))"

text \<open>
  The scan for the next task; \<open>peer n\<close> is the other side during round \<open>n\<close> of the scan. The
  result is the task id, the length, the buffer and the task system.
\<close>

partial_function (option) host_recv_task ::
  "(nat \<Rightarrow> peer) \<Rightarrow> u64 mem \<Rightarrow> nat \<Rightarrow> nat \<Rightarrow> task_queue_opaque \<Rightarrow> u64 \<Rightarrow> u8 mem
     \<Rightarrow> (int \<times> int \<times> u64 \<times> u8 mem \<times> task_queue_opaque) outcome option" where
  "host_recv_task peer stack room n opaque task_length task_buffer =
     (case host_recv_pick opaque of
        None \<Rightarrow> Some Abort
      | Some (channel, socket, op1) \<Rightarrow>
          (case common_recv_task (peer n) stack room op1 task_length task_buffer channel socket of
             None \<Rightarrow> None
           | Some Abort \<Rightarrow> Some Abort
           | Some (Ret (got_data, len, buf, op2)) \<Rightarrow>
               if got_data \<noteq> 0 then host_recv_task peer stack room (Suc n) op2 len buf
               else Some (Ret (got_data, socket * 10 + channel, len, buf, op2))))"

definition vca_submit_task ::
  "peer \<Rightarrow> u64 mem \<Rightarrow> task_queue_opaque option \<Rightarrow> u64 \<Rightarrow> u8 mem option \<Rightarrow> int
     \<Rightarrow> (u64 \<times> task_queue_opaque) outcome option" where
  "vca_submit_task peer stack opq task_length task_buffer channel =
     (case (opq, task_buffer) of
        (Some opaque, Some buf) \<Rightarrow>
          (if task_length \<noteq> 0 \<and> channel < MAX_CHANNELS
           then common_submit_task peer stack opaque task_length buf channel 0
           else Some Abort)
      | _ \<Rightarrow> Some Abort)"

partial_function (option) vca_recv_spin ::
  "(nat \<Rightarrow> peer) \<Rightarrow> u64 mem \<Rightarrow> nat \<Rightarrow> nat \<Rightarrow> task_queue_opaque \<Rightarrow> u64 \<Rightarrow> u8 mem \<Rightarrow> int
     \<Rightarrow> (int \<times> u64 \<times> u8 mem \<times> task_queue_opaque) outcome option" where
  "vca_recv_spin peer stack room n opaque task_length task_buffer channel =
     (case common_recv_task (peer n) stack room opaque task_length task_buffer channel 0 of
        None \<Rightarrow> None
      | Some Abort \<Rightarrow> Some Abort
      | Some (Ret (got_data, len, buf, op1)) \<Rightarrow>
          if got_data \<noteq> 0 then vca_recv_spin peer stack room (Suc n) op1 len buf channel
          else Some (Ret (got_data, len, buf, op1)))"

definition vca_recv_task ::
  "(nat \<Rightarrow> peer) \<Rightarrow> u64 mem \<Rightarrow> nat \<Rightarrow> task_queue_opaque option \<Rightarrow> u64 option \<Rightarrow> u8 mem option \<Rightarrow> int
     \<Rightarrow> (int \<times> u64 \<times> u8 mem \<times> task_queue_opaque) outcome option" where
  "vca_recv_task peer stack room opq task_length task_buffer channel =
     (case (opq, task_length, task_buffer) of
        (Some opaque, Some len, Some buf) \<Rightarrow>
          (if channel < MAX_CHANNELS then vca_recv_spin peer stack room 0 opaque len buf channel
           else Some Abort)
      | _ \<Rightarrow> Some Abort)"

section \<open>Blocks through a quiet ring\<close>

abbreviation quiet :: peer where "quiet \<equiv> (\<lambda>_ q. q)"

lemma NUM_ITEMS_simps [simp]: "unat NUM_ITEMS = 32" "sint NUM_ITEMS = 32"
  by (simp_all add: NUM_ITEMS_def)

text \<open>Block \<open>b\<close> of a buffer.\<close>

definition block_at :: "u8 mem \<Rightarrow> nat \<Rightarrow> u64 list" where
  "block_at buf b = map (longs_at buf (b * 256)) [0..<32]"

text \<open>The \<open>k\<close> blocks from block \<open>b\<close> on.\<close>

fun blocks_at :: "u8 mem \<Rightarrow> nat \<Rightarrow> nat \<Rightarrow> u64 list" where
  "blocks_at buf b 0 = []"
| "blocks_at buf b (Suc k) = block_at buf b @ blocks_at buf (Suc b) k"

lemma length_block_at [simp]: "length (block_at buf b) = 32"
  by (simp add: block_at_def)

lemma enqueue_spin_ok:
  assumes "chan_ok q c" "unat ch = c" "chan_used q c + 32 \<le> 8191"
  shows "\<exists>q'. enqueue_spin quiet src ch t q = Some (Suc t, q') \<and> chan_ok q' c \<and>
           chan_items q' c = chan_items q c @ map src [0..<32]"
proof -
  obtain ret q' where r: "s_variable_multi_enqueue q src NUM_ITEMS ch = (ret, q')" by fastforce
  from enqueue_put [OF assms(1,2) _ r] assms(3) r show ?thesis
    by (simp add: enqueue_spin.simps)
qed

lemma submit_bursts_ok:
  assumes "unat ch = c"
  shows "chan_ok q c \<Longrightarrow> chan_used q c + 32 * k \<le> 8191 \<Longrightarrow> b + k < 2 ^ 31 \<Longrightarrow>
    \<exists>t' q'. submit_bursts quiet buf ch b k t q = Some (Ret (t', q')) \<and> chan_ok q' c \<and>
       chan_items q' c = chan_items q c @ blocks_at buf b k"
proof (induction k arbitrary: b t q)
  case (Suc k)
  then obtain q1 where q1: "enqueue_spin quiet (longs_at buf (b * 256)) ch t q = Some (Suc t, q1)"
      "chan_ok q1 c" "chan_items q1 c = chan_items q c @ block_at buf b"
    using enqueue_spin_ok [OF _ assms, of q "longs_at buf (b * 256)" t] by (auto simp: block_at_def)
  then have "chan_used q1 c + 32 * k \<le> 8191"
    using Suc.prems(2) by (metis (no_types, lifting) add.assoc length_append length_block_at
        length_chan_items mult_Suc_right)
  from Suc.IH [OF q1(2) this, of "Suc b" "Suc t"] q1 Suc.prems(3) show ?case by auto
qed simp

lemma dequeue_spin_ok:
  assumes "chan_ok q c" "unat ch = c" "chan_items q c = xs @ rest" "length xs = 32"
  shows "\<exists>dst' q'. dequeue_spin quiet dst ch t q = Some (dst', Suc t, q') \<and> chan_ok q' c \<and>
           chan_items q' c = rest \<and> map dst' [0..<32] = xs"
proof -
  obtain ret dst' q' where r: "s_variable_multi_dequeue q dst NUM_ITEMS ch = (ret, dst', q')"
    by (metis prod_cases3)
  have "32 \<le> chan_used q c"
    using assms(3,4) by (metis le_add1 length_append length_chan_items)
  with dequeue_get [OF assms(1,2) _ r] assms(3,4) r show ?thesis
    by (simp add: dequeue_spin.simps)
qed

text \<open>Blocks of \<open>src\<close> in the ring arrive as the same bytes.\<close>

lemma recv_bursts_ok:
  assumes "unat ch = c"
  shows "chan_ok q c \<Longrightarrow> chan_items q c = blocks_at src b k @ rest \<Longrightarrow> b + k < 2 ^ 31 \<Longrightarrow> 256 * (b + k) \<le> room \<Longrightarrow>
    \<exists>buf' t' q'. recv_bursts quiet room buf ch b k t q = Some (Ret (buf', t', q')) \<and> chan_ok q' c \<and>
       chan_items q' c = rest \<and>
       (\<forall>a. buf' a = (if 256 * b \<le> a \<and> a < 256 * (b + k) then src a else buf a))"
proof (induction k arbitrary: b t q buf)
  case (Suc k)
  then have "chan_items q c = block_at src b @ (blocks_at src (Suc b) k @ rest)"
    by simp
  from dequeue_spin_ok [OF Suc.prems(1) assms this, of "longs_at buf (b * 256)" t]
  obtain dst q1 where q1: "dequeue_spin quiet (longs_at buf (b * 256)) ch t q = Some (dst, Suc t, q1)"
      "chan_ok q1 c" "chan_items q1 c = blocks_at src (Suc b) k @ rest"
      "map dst [0..<32] = block_at src b" by auto
  let ?buf = "store_longs buf (b * 256) dst 32"
  have "Suc b + k < 2 ^ 31" "256 * (Suc b + k) \<le> room" using Suc.prems(3,4) by simp_all
  from Suc.IH [OF q1(2,3) this, of ?buf "Suc t"]
  obtain buf' t' q' where r: "recv_bursts quiet room ?buf ch (Suc b) k (Suc t) q1 = Some (Ret (buf', t', q'))"
      "chan_ok q' c" "chan_items q' c = rest"
      "\<And>a. buf' a = (if 256 * Suc b \<le> a \<and> a < 256 * (Suc b + k) then src a else ?buf a)" by auto
  have new: "?buf a = src a" if "256 * b \<le> a \<and> a < 256 * Suc b" for a
  proof -
    have "a - b * 256 < 8 * 32" and a: "b * 256 + (a - b * 256) = a" using that by auto
    with store_longs_copy [OF q1(4) [unfolded block_at_def] this(1), of buf "b * 256"]
    show ?thesis by (simp only: a)
  qed
  have old: "?buf a = buf a" if "\<not> (256 * b \<le> a \<and> a < 256 * Suc b)" for a
    using that by (intro store_longs_outside) auto
  have "buf' a = (if 256 * b \<le> a \<and> a < 256 * (b + Suc k) then src a else buf a)" for a
  proof (cases "256 * b \<le> a \<and> a < 256 * Suc b")
    case True
    then show ?thesis unfolding r(4) new [OF True] by simp
  next
    case False
    then show ?thesis unfolding r(4) old [OF False] by auto
  qed
  with q1(1) r(1,2,3) Suc.prems(3,4) show ?case by auto
qed auto

text \<open>When the buffer is too small for the blocks, one of them is stored behind its end.\<close>

lemma recv_bursts_overrun:
  assumes "unat ch = c"
  shows "chan_ok q c \<Longrightarrow> chan_items q c = blocks_at src b k @ rest \<Longrightarrow> room < 256 * (b + k) \<Longrightarrow> 256 * b \<le> room \<Longrightarrow>
    recv_bursts quiet room buf ch b k t q = Some Abort"
proof (induction k arbitrary: b t q buf)
  case (Suc k)
  then have "chan_items q c = block_at src b @ (blocks_at src (Suc b) k @ rest)"
    by simp
  from dequeue_spin_ok [OF Suc.prems(1) assms this, of "longs_at buf (b * 256)" t]
  obtain dst q1 where q1: "dequeue_spin quiet (longs_at buf (b * 256)) ch t q = Some (dst, Suc t, q1)"
      "chan_ok q1 c" "chan_items q1 c = blocks_at src (Suc b) k @ rest" by auto
  show ?case
  proof (cases "room < b * 256 + 256")
    case False
    then have "room < 256 * (Suc b + k)" "256 * Suc b \<le> room" using Suc.prems(3) by simp_all
    from Suc.IH [OF q1(2,3) this] q1(1) False show ?thesis by simp
  qed (simp add: q1(1))
qed auto

lemma length_blocks_at [simp]: "length (blocks_at buf b k) = 32 * k"
  by (induction k arbitrary: b) simp_all

section \<open>A task through a quiet ring\<close>

definition header_block :: "u64 mem \<Rightarrow> u64 \<Rightarrow> u64 list" where
  "header_block stack len = map (task_header stack (bursts_of len) len MAGIC) [0..<32]"

lemma length_header_block [simp]: "length (header_block stack len) = 32"
  by (simp add: header_block_def)

lemma unat_channel: "c < 8 \<Longrightarrow> unat (word_of_int (int c) :: u32) = c"
  by (simp add: unat_of_nat take_bit_nat_eq_self flip: of_nat_eq_of_nat_power_cancel_iff)

lemma submit_ok:
  assumes q: "tx_q_objs opaque socket = Some q" and ok: "chan_ok q c"
    and room: "chan_used q c + 32 * (unat (bursts_of len) + 1) \<le> 8191"
  shows "\<exists>q'. common_submit_task quiet stack opaque len buf (int c) socket =
           Some (Ret (len, opaque\<lparr>tx_q_objs := (tx_q_objs opaque)(socket := Some q')\<rparr>)) \<and>
         chan_ok q' c \<and>
         chan_items q' c = chan_items q c @ header_block stack len @ blocks_at buf 0 (unat (bursts_of len))"
proof -
  let ?ch = "word_of_int (int c) :: u32"
  note c = unat_channel [OF chan_ok_unfold(5) [OF ok]]
  have "chan_used q c + 32 \<le> 8191" using room by simp
  from enqueue_spin_ok [OF ok c this, of "task_header stack (bursts_of len) len MAGIC" 0]
  obtain q1 where q1: "enqueue_spin quiet (task_header stack (bursts_of len) len MAGIC) ?ch 0 q = Some (Suc 0, q1)"
      "chan_ok q1 c" "chan_items q1 c = chan_items q c @ header_block stack len"
    by (auto simp: header_block_def)
  then have "chan_used q1 c + 32 * unat (bursts_of len) \<le> 8191"
    using room length_chan_items [of q1 c] by simp
  from submit_bursts_ok [OF c q1(2) this, of 0 buf "Suc 0"] room
  obtain t' q' where "submit_bursts quiet buf ?ch 0 (unat (bursts_of len)) (Suc 0) q1 = Some (Ret (t', q'))"
      "chan_ok q' c" "chan_items q' c = chan_items q1 c @ blocks_at buf 0 (unat (bursts_of len))"
    by auto
  with q q1 show ?thesis by (auto simp: common_submit_task_def Let_def)
qed

lemma bursts_pos: "len \<noteq> 0 \<Longrightarrow> unat (bursts_of len) = (unat len - 1) div 256 + 1"
proof -
  assume "len \<noteq> 0"
  then have "unat (len - 1) = unat len - 1" by (metis unat_minus_one)
  moreover have "(unat len - 1) div 256 + 1 < 2 ^ 64"
  proof -
    have "unat len < 2 ^ 64" using unsigned_less [of len] by simp
    moreover have "(unat len - 1) div 256 \<le> unat len - 1" by (rule div_le_dividend)
    moreover have "0 < unat len" using \<open>len \<noteq> 0\<close> by (simp add: unat_gt_0)
    ultimately show ?thesis by linarith
  qed
  ultimately show ?thesis
    by (simp add: bursts_of_def task_consts unat_word_ariths(1) unat_div)
qed

lemma bursts_cover: "len \<noteq> 0 \<Longrightarrow> unat len \<le> 256 * unat (bursts_of len)"
  using unat_gt_0 [of len] by (simp add: bursts_pos)

lemma bursts_nonzero: "len \<noteq> 0 \<Longrightarrow> bursts_of len \<noteq> 0"
  using bursts_pos [of len] by (metis add_is_0 one_neq_zero unat_0)

lemma recv_start:
  assumes q: "rx_q_objs opaque socket = Some q" and ok: "chan_ok q c" and len: "len \<noteq> 0"
    and items: "chan_items q c = header_block stk len @ blocks_at src 0 (unat (bursts_of len)) @ rest"
  shows "\<exists>q1. chan_ok q1 c \<and> chan_items q1 c = blocks_at src 0 (unat (bursts_of len)) @ rest \<and> unat (bursts_of len) \<le> 255 \<and>
    common_recv_task quiet stack room opaque l0 buf (int c) socket =
      (case recv_bursts quiet room buf (word_of_int (int c)) 0 (unat (bursts_of len)) 1 q1 of
         None \<Rightarrow> None | Some Abort \<Rightarrow> Some Abort
       | Some (Ret (buf', _, q2)) \<Rightarrow> Some (Ret (0, len, buf', opaque\<lparr>rx_q_objs := (rx_q_objs opaque)(socket := Some q2)\<rparr>)))"
proof -
  let ?ch = "word_of_int (int c) :: u32"
  note c = unat_channel [OF chan_ok_unfold(5) [OF ok]]
  obtain ret th q1 where r: "s_variable_multi_dequeue q stack NUM_ITEMS ?ch = (ret, th, q1)"
    by (metis prod_cases3)
  have l: "32 + 32 * unat (bursts_of len) + length rest = chan_used q c"
    using arg_cong [OF items, of length] by simp
  then have "32 \<le> chan_used q c" by simp
  with dequeue_get [OF ok c _ r] items
  have d: "ret = 32" "chan_ok q1 c" "chan_items q1 c = blocks_at src 0 (unat (bursts_of len)) @ rest"
      "map th [0..<32] = header_block stk len" by simp_all
  then have th: "th i = task_header stk (bursts_of len) len MAGIC i" if "i < 32" for i
    using that by (simp add: header_block_def)
  then have h: "th 0 = bursts_of len" "th 1 = len" "th 2 = MAGIC"
    by (simp_all add: task_header_def)
  have "unat (bursts_of len) \<le> 255" using l chan_used_le [of q c] by linarith
  moreover have "common_recv_task quiet stack room opaque l0 buf (int c) socket =
      (case recv_bursts quiet room buf ?ch 0 (unat (bursts_of len)) 1 q1 of
         None \<Rightarrow> None | Some Abort \<Rightarrow> Some Abort
       | Some (Ret (buf', _, q2)) \<Rightarrow> Some (Ret (0, len, buf', opaque\<lparr>rx_q_objs := (rx_q_objs opaque)(socket := Some q2)\<rparr>)))"
    using q r d(1) h len bursts_nonzero [OF len] by (simp add: common_recv_task_def split: option.split outcome.split)
  ultimately show ?thesis using d(2,3) by blast
qed

lemma recv_ok:
  assumes q: "rx_q_objs opaque socket = Some q" and ok: "chan_ok q c" and len: "len \<noteq> 0"
    and items: "chan_items q c = header_block stk len @ blocks_at src 0 (unat (bursts_of len)) @ rest"
    and room: "256 * unat (bursts_of len) \<le> room"
  shows "\<exists>buf' q'. common_recv_task quiet stack room opaque l0 buf (int c) socket =
           Some (Ret (0, len, buf', opaque\<lparr>rx_q_objs := (rx_q_objs opaque)(socket := Some q')\<rparr>)) \<and>
         chan_ok q' c \<and> chan_items q' c = rest \<and>
         (\<forall>a. buf' a = (if a < 256 * unat (bursts_of len) then src a else buf a))"
proof -
  let ?ch = "word_of_int (int c) :: u32" and ?k = "unat (bursts_of len)"
  note c = unat_channel [OF chan_ok_unfold(5) [OF ok]]
  from recv_start [OF q ok len items] obtain q1 where q1: "chan_ok q1 c" "chan_items q1 c = blocks_at src 0 ?k @ rest" "?k \<le> 255"
    "common_recv_task quiet stack room opaque l0 buf (int c) socket =
      (case recv_bursts quiet room buf ?ch 0 ?k 1 q1 of
         None \<Rightarrow> None | Some Abort \<Rightarrow> Some Abort
       | Some (Ret (buf', _, q2)) \<Rightarrow> Some (Ret (0, len, buf', opaque\<lparr>rx_q_objs := (rx_q_objs opaque)(socket := Some q2)\<rparr>)))" by blast
  have "0 + ?k < 2 ^ 31" "256 * (0 + ?k) \<le> room" using q1(3) room by simp_all
  from recv_bursts_ok [OF c q1(1,2) this, of buf 1]
  obtain buf' t' q' where "recv_bursts quiet room buf ?ch 0 ?k 1 q1 = Some (Ret (buf', t', q'))"
      "chan_ok q' c" "chan_items q' c = rest" "\<forall>a. buf' a = (if a < 256 * ?k then src a else buf a)" by auto
  then show ?thesis using q1(4) by auto
qed

lemma recv_overrun:
  assumes q: "rx_q_objs opaque socket = Some q" and ok: "chan_ok q c" and len: "len \<noteq> 0"
    and items: "chan_items q c = header_block stk len @ blocks_at src 0 (unat (bursts_of len)) @ rest"
    and room: "room < 256 * unat (bursts_of len)"
  shows "common_recv_task quiet stack room opaque l0 buf (int c) socket = Some Abort"
proof -
  note c = unat_channel [OF chan_ok_unfold(5) [OF ok]]
  from recv_start [OF q ok len items, of stack room l0 buf] recv_bursts_overrun [OF c, of _ src 0 _ rest room buf 1] room
  show ?thesis by fastforce
qed

section \<open>The scan of the host\<close>

text \<open>The channels and sockets that the first \<open>n\<close> rounds of the scan look at.\<close>

fun recv_picks :: "nat \<Rightarrow> task_queue_opaque \<Rightarrow> (int \<times> int) list" where
  "recv_picks 0 opaque = []"
| "recv_picks (Suc n) opaque =
     (case host_recv_pick opaque of
        None \<Rightarrow> []
      | Some (channel, socket, op1) \<Rightarrow> (channel, socket) # recv_picks n op1)"

definition idle_channel :: "(int \<Rightarrow> queue_object option) \<Rightarrow> int \<times> int \<Rightarrow> bool" where
  "idle_channel rx cs \<longleftrightarrow> 0 \<le> fst cs \<and>
     (case rx (snd cs) of None \<Rightarrow> False | Some q \<Rightarrow> chan_ok q (nat (fst cs)) \<and> chan_items q (nat (fst cs)) = [])"

lemma recv_idle:
  assumes "idle_channel (rx_q_objs opaque) (c, s)"
  shows "common_recv_task quiet stack room opaque l buf c s = Some (Ret (- 1, l, buf, opaque))"
proof -
  obtain q where q: "rx_q_objs opaque s = Some q" "chan_ok q (nat c)" "chan_items q (nat c) = []" "0 \<le> c"
    using assms by (auto simp: idle_channel_def split: option.splits)
  have u: "unat (word_of_int c :: u32) = nat c" using unat_channel [OF chan_ok_unfold(5) [OF q(2)]] q(4) by simp
  have "chan_used q (nat c) = 0" using q(3) length_chan_items [of q "nat c"] by simp
  then have "s_variable_multi_dequeue q stack NUM_ITEMS (word_of_int c) = (0, stack, q)"
    using dequeue_short [OF q(2) u] by simp
  moreover have "(rx_q_objs opaque)(s := Some q) = rx_q_objs opaque" using q(1) by (rule fun_upd_idem)
  ultimately show ?thesis using q(1) by (simp add: common_recv_task_def)
qed

lemma host_recv_pick_rx: "host_recv_pick opaque = Some (c, s, op1) \<Longrightarrow> rx_q_objs op1 = rx_q_objs opaque"
  by (auto simp: host_recv_pick_def Let_def split: if_splits)

lemma host_recv_scan:
  assumes "recv_picks (Suc (length ps)) opaque = ps @ [(c, s)]" and "list_all (idle_channel (rx_q_objs opaque)) ps"
  shows "\<exists>n' op1. rx_q_objs op1 = rx_q_objs opaque \<and>
    host_recv_task (\<lambda>_. quiet) stack room n opaque l buf =
      (case common_recv_task quiet stack room op1 l buf c s of
         None \<Rightarrow> None
       | Some Abort \<Rightarrow> Some Abort
       | Some (Ret (got_data, len, b, op2)) \<Rightarrow>
           if got_data \<noteq> 0 then host_recv_task (\<lambda>_. quiet) stack room n' op2 len b
           else Some (Ret (got_data, s * 10 + c, len, b, op2)))"
  using assms
proof (induction ps arbitrary: n opaque)
  case Nil
  then obtain op1 where p: "host_recv_pick opaque = Some (c, s, op1)" by (auto split: option.splits)
  show ?case using host_recv_pick_rx [OF p] p
    by (intro exI [of _ "Suc n"] exI [of _ op1]) (subst host_recv_task.simps, simp)
next
  case (Cons x ps)
  obtain op1 where p: "host_recv_pick opaque = Some (fst x, snd x, op1)" "recv_picks (Suc (length ps)) op1 = ps @ [(c, s)]"
    using Cons.prems(1) by (auto split: option.splits)
  note rx = host_recv_pick_rx [OF p(1)]
  have "idle_channel (rx_q_objs op1) (fst x, snd x)" using Cons.prems(2) rx by simp
  from recv_idle [OF this, of stack room l buf] have "host_recv_task (\<lambda>_. quiet) stack room n opaque l buf =
      host_recv_task (\<lambda>_. quiet) stack room (Suc n) op1 l buf"
    using p(1) by (subst host_recv_task.simps) simp
  with Cons.IH [OF p(2), of "Suc n"] Cons.prems(2) rx show ?case by simp
qed

section \<open>Busy waiting\<close>

text \<open>A full ring that nobody empties keeps the producer waiting for ever.\<close>

lemma enqueue_spin_stuck:
  assumes ok: "chan_ok q c" and c: "unat ch = c" and full: "8191 < chan_used q c + 32"
  shows "enqueue_spin quiet src ch t q = None"
proof (rule ccontr)
  assume "enqueue_spin quiet src ch t q \<noteq> None"
  then obtain r where "enqueue_spin quiet src ch t q = Some r" by auto
  then have "\<not> (quiet = quiet \<and> ch = ch \<and> q = q)"
  proof (rule enqueue_spin.raw_induct [rotated, where P = "\<lambda>peer src' ch' t' q' r'.
      \<not> (peer = quiet \<and> ch' = ch \<and> q' = q)"], intro notI)
    fix f peer src' ch' t' q' r'
    assume IH: "\<And>peer src ch' t q' r. f peer src ch' t q' = Some r \<Longrightarrow> \<not> (peer = quiet \<and> ch' = ch \<and> q' = q)"
      and eq: "(case s_variable_multi_enqueue (peer t' q') src' NUM_ITEMS ch' of
         (ret, q'') \<Rightarrow> if ret \<noteq> 32 then f peer src' ch' (Suc t') q'' else Some (Suc t', q'')) = Some r'"
      and h: "peer = quiet \<and> ch' = ch \<and> q' = q"
    from h have "s_variable_multi_enqueue (peer t' q') src' NUM_ITEMS ch' = (0, q)"
      using enqueue_full [OF ok c, of NUM_ITEMS src'] full by simp
    with eq have "f peer src' ch' (Suc t') q = Some r'" by simp
    from IH [OF this] h show False by simp
  qed
  then show False by simp
qed

text \<open>
  A fair peer keeps the channel well formed and, again and again, leaves room for a block.
\<close>

definition keeps_chan :: "peer \<Rightarrow> nat \<Rightarrow> bool" where
  "keeps_chan peer c \<longleftrightarrow> (\<forall>t q. chan_ok q c \<longrightarrow> chan_ok (peer t q) c)"

definition fair_consumer :: "peer \<Rightarrow> nat \<Rightarrow> bool" where
  "fair_consumer peer c \<longleftrightarrow> keeps_chan peer c \<and>
     (\<forall>t. \<exists>t' \<ge> t. \<forall>q. chan_ok q c \<longrightarrow> chan_used (peer t' q) c + 32 \<le> 8191)"

lemma enqueue_spin_step:
  assumes keep: "keeps_chan peer c" and ok: "chan_ok q c" and c: "unat ch = c"
  shows "if chan_used (peer t q) c + 32 \<le> 8191
    then \<exists>q'. enqueue_spin peer src ch t q = Some (Suc t, q') \<and> chan_ok q' c
    else \<exists>q'. enqueue_spin peer src ch t q = enqueue_spin peer src ch (Suc t) q' \<and> chan_ok q' c"
proof -
  have ok': "chan_ok (peer t q) c" using keep ok by (simp add: keeps_chan_def)
  obtain ret q' where r: "s_variable_multi_enqueue (peer t q) src NUM_ITEMS ch = (ret, q')" by fastforce
  show ?thesis
  proof (cases "chan_used (peer t q) c + 32 \<le> 8191")
    case True
    with enqueue_put [OF ok' c _ r] r show ?thesis by (simp add: enqueue_spin.simps)
  next
    case False
    with enqueue_full [OF ok' c, of NUM_ITEMS src] ok' show ?thesis
      by (auto simp: enqueue_spin.simps [of peer src ch t q])
  qed
qed

lemma enqueue_spin_returns:
  assumes keep: "keeps_chan peer c" and c: "unat ch = c"
    and room: "\<forall>q. chan_ok q c \<longrightarrow> chan_used (peer t' q) c + 32 \<le> 8191"
  shows "chan_ok q c \<Longrightarrow> t' = t + d \<Longrightarrow> \<exists>t2 q'. enqueue_spin peer src ch t q = Some (t2, q') \<and> chan_ok q' c"
proof (induction d arbitrary: t q)
  case 0
  with enqueue_spin_step [OF keep 0(1) c, of t src] room show ?case by auto
next
  case (Suc d)
  from enqueue_spin_step [OF keep Suc.prems(1) c, of t src] Suc.IH [of _ "Suc t"] Suc.prems(2)
  show ?case by (auto split: if_splits)
qed

lemma enqueue_spin_fair:
  assumes "fair_consumer peer c" "unat ch = c" "chan_ok q c"
  shows "\<exists>t2 q'. enqueue_spin peer src ch t q = Some (t2, q') \<and> chan_ok q' c"
proof -
  from assms(1) obtain t' where "t \<le> t'" "\<forall>q. chan_ok q c \<longrightarrow> chan_used (peer t' q) c + 32 \<le> 8191"
    unfolding fair_consumer_def by blast
  with enqueue_spin_returns [of peer c ch t' q t "t' - t" src] assms show ?thesis
    by (auto simp: fair_consumer_def)
qed

lemma submit_bursts_fair:
  assumes "fair_consumer peer c" "unat ch = c"
  shows "chan_ok q c \<Longrightarrow> b < 2 ^ 31 \<Longrightarrow>
    if b + k < 2 ^ 31 then \<exists>t2 q'. submit_bursts peer buf ch b k t q = Some (Ret (t2, q')) \<and> chan_ok q' c
    else submit_bursts peer buf ch b k t q = Some Abort"
proof (induction k arbitrary: b t q)
  case (Suc k)
  from enqueue_spin_fair [OF assms Suc.prems(1), of "longs_at buf (b * 256)" t] obtain t' q' where
    e: "enqueue_spin peer (longs_at buf (b * 256)) ch t q = Some (t', q')" "chan_ok q' c" by blast
  show ?case
  proof (cases "2 ^ 31 \<le> Suc b")
    case False
    then have "Suc b < 2 ^ 31" by simp
    from Suc.IH [OF e(2) this, of t'] False e(1) show ?thesis by simp
  qed (simp add: e(1))
qed simp

section \<open>The turns of the round robin\<close>

lemma pick_turn:
  assumes "0 \<le> next_submit_channel opaque" "0 \<le> next_submit_socket opaque" "0 < total_sockets opaque"
    and "\<forall>i. 0 \<le> i \<longrightarrow> i < total_sockets opaque \<longrightarrow> active_sockets opaque i < 6"
  defines "ch \<equiv> next_submit_channel opaque mod 8"
  defines "s \<equiv> next_submit_socket opaque + (if ch = 0 then 1 else 0)"
  shows "host_submit_pick opaque (-1) =
    Some (ch, active_sockets opaque (s mod total_sockets opaque),
      opaque\<lparr>next_submit_channel := next_submit_channel opaque + 1, next_submit_socket := s\<rparr>)"
proof -
  have m: "next_submit_channel opaque smod 8 = ch"
    using assms(1) by (simp add: ch_def signed_modulo_int_def sgn_if)
  have "s smod total_sockets opaque = s mod total_sockets opaque"
    using assms(2,3) by (auto simp: s_def signed_modulo_int_def sgn_if)
  moreover have "active_sockets opaque (s mod total_sockets opaque) < 6"
    using assms(3,4) by simp
  moreover have "ch < 8" by (simp add: ch_def)
  ultimately show ?thesis
    using assms(3) by (auto simp: host_submit_pick_def Let_def task_consts m s_def)
qed

text \<open>The channels and sockets of \<open>n\<close> submissions that leave the choice to the library.\<close>

fun submit_picks :: "nat \<Rightarrow> task_queue_opaque \<Rightarrow> (int \<times> int) list" where
  "submit_picks 0 opaque = []"
| "submit_picks (Suc n) opaque =
     (case host_submit_pick opaque (-1) of
        None \<Rightarrow> []
      | Some (channel, socket, op1) \<Rightarrow> (channel, socket) # submit_picks n op1)"

lemma turn_socket:
  "(m + 7) div 8 + (if m mod 8 = 0 then 1 else 0) = m div 8 + (1::int)"
proof -
  define k r where "k = m div 8" and "r = m mod 8"
  have m: "m = 8 * k + r" and r: "0 \<le> r" "r < 8" by (simp_all add: k_def r_def)
  have "(m + 7) div 8 = (if r = 0 then k else k + 1)"
  proof (cases "r = 0")
    case True
    then show ?thesis using int_div_pos_eq [of "m + 7" 8 k 7] m by simp
  next
    case False
    then show ?thesis using int_div_pos_eq [of "m + 7" 8 "k + 1" "r - 1"] m r by simp
  qed
  then show ?thesis by (simp add: k_def r_def)
qed

lemma picks_from:
  assumes "0 < total_sockets opaque"
    and "\<forall>i. 0 \<le> i \<longrightarrow> i < total_sockets opaque \<longrightarrow> active_sockets opaque i < 6"
    and "next_submit_channel opaque = int m" "next_submit_socket opaque = (int m + 7) div 8"
  shows "submit_picks n opaque =
    map (\<lambda>k. (int k mod 8, active_sockets opaque ((int k div 8 + 1) mod total_sockets opaque))) [m..<m + n]"
  using assms
proof (induction n arbitrary: opaque m)
  case (Suc n)
  let ?op = "opaque\<lparr>next_submit_channel := int m + 1, next_submit_socket := int m div 8 + 1\<rparr>"
  have "int (Suc m) + 7 = int m + 8" by simp
  then have "int m div 8 + 1 = (int (Suc m) + 7) div 8" by simp
  then have IH: "submit_picks n ?op =
      map (\<lambda>k. (int k mod 8, active_sockets opaque ((int k div 8 + 1) mod total_sockets opaque))) [Suc m..<Suc m + n]"
    using Suc.IH [of ?op "Suc m"] Suc.prems by simp
  have "host_submit_pick opaque (-1) =
     Some (int m mod 8, active_sockets opaque ((int m div 8 + 1) mod total_sockets opaque), ?op)"
    using pick_turn [of opaque] Suc.prems turn_socket [of "int m"] by (simp add: add.commute)
  with IH show ?case unfolding upt_add_Suc by (simp del: upt_Suc)
qed simp

section \<open>Properties\<close>

definition task_system :: "queue_object \<Rightarrow> task_queue_opaque" where
  "task_system q = \<lparr>active_sockets = (\<lambda>_. 0), next_recv_channel = 0, next_submit_channel = 0,
     next_recv_socket = 0, next_submit_socket = 0, total_sockets = 1,
     tx_q_objs = (\<lambda>s. if s = 0 then Some q else None),
     rx_q_objs = (\<lambda>s. if s = 0 then Some q else None)\<rparr>"

lemma task_system_sel [simp]:
  "tx_q_objs (task_system q) 0 = Some q" "rx_q_objs (task_system q) 0 = Some q"
  by (simp_all add: task_system_def)

lemma bursts_of_3 [simp]: "unat (bursts_of 3) = 1"
  by (subst bursts_pos) simp_all

text \<open>
  C4. Round trip of a task of at least one byte: submitted on an empty channel of the ring that has room
  for it, a task is received by the other side with the same length and the same bytes, and the channel
  is empty again, when the receiver's buffer has room for its blocks of 256 bytes. With a smaller buffer,
  also one that has room for the task itself, a block is stored behind its end.
\<close>

theorem task_roundtrip:
  assumes "tx_q_objs sender s = Some q" and "chan_ok q c" and "chan_items q c = []"
    and "len \<noteq> 0" and "32 * (unat (bursts_of len) + 1) \<le> 8191"
  shows "\<exists>q' sender'. common_submit_task quiet stack sender len buf (int c) s = Some (Ret (len, sender')) \<and>
    tx_q_objs sender' s = Some q' \<and>
    (\<forall>receiver s' stack' room l0 buf0. rx_q_objs receiver s' = Some q' \<longrightarrow>
      (if 256 * unat (bursts_of len) \<le> room then
        (\<exists>buf' receiver' q''.
          common_recv_task quiet stack' room receiver l0 buf0 (int c) s' = Some (Ret (0, len, buf', receiver')) \<and>
          (\<forall>a < unat len. buf' a = buf a) \<and>
          rx_q_objs receiver' s' = Some q'' \<and> chan_items q'' c = [])
       else common_recv_task quiet stack' room receiver l0 buf0 (int c) s' = Some Abort))"
proof -
  have "chan_used q c = 0" using assms(3) length_chan_items [of q c] by simp
  then have "chan_used q c + 32 * (unat (bursts_of len) + 1) \<le> 8191" using assms(5) by simp
  from submit_ok [OF assms(1,2) this, of stack buf] obtain q' where
    q': "common_submit_task quiet stack sender len buf (int c) s =
        Some (Ret (len, sender\<lparr>tx_q_objs := (tx_q_objs sender)(s := Some q')\<rparr>))" "chan_ok q' c"
      "chan_items q' c = header_block stack len @ blocks_at buf 0 (unat (bursts_of len)) @ []"
    using assms(3) by auto
  have "\<exists>buf' receiver' q''.
        common_recv_task quiet stack' room receiver l0 buf0 (int c) s' = Some (Ret (0, len, buf', receiver')) \<and>
        (\<forall>a < unat len. buf' a = buf a) \<and>
        rx_q_objs receiver' s' = Some q'' \<and> chan_items q'' c = []"
    if "rx_q_objs receiver s' = Some q'" "256 * unat (bursts_of len) \<le> room" for receiver s' stack' room l0 buf0
    using recv_ok [OF that(1) q'(2) assms(4) q'(3) that(2), of stack' l0 buf0] bursts_cover [OF assms(4)]
    by fastforce
  moreover have "common_recv_task quiet stack' room receiver l0 buf0 (int c) s' = Some Abort"
    if "rx_q_objs receiver s' = Some q'" "\<not> 256 * unat (bursts_of len) \<le> room" for receiver s' stack' room l0 buf0
    using recv_overrun [OF that(1) q'(2) assms(4) q'(3), of room] that(2) by simp
  ultimately show ?thesis using q'(1)
    by (intro exI [of _ q'] exI [of _ "sender\<lparr>tx_q_objs := (tx_q_objs sender)(s := Some q')\<rparr>"]) simp
qed

theorem task_roundtrip_witness:
  "\<exists>q' sender' buf' receiver'. common_submit_task quiet (\<lambda>_. 0) (task_system empty_queue) 3 (\<lambda>i. of_nat i) 5 0 =
     Some (Ret (3, sender')) \<and> tx_q_objs sender' 0 = Some q' \<and>
     common_recv_task quiet (\<lambda>_. 9) 256 (task_system q') 0 (\<lambda>_. 0) 5 0 = Some (Ret (0, 3, buf', receiver')) \<and> buf' 2 = 2 \<and>
     common_recv_task quiet (\<lambda>_. 9) 255 (task_system q') 0 (\<lambda>_. 0) 5 0 = Some Abort"
proof -
  have "tx_q_objs (task_system empty_queue) 0 = Some empty_queue" "chan_ok empty_queue 5" "chan_items empty_queue 5 = []"
    "(3 :: u64) \<noteq> 0" "32 * (unat (bursts_of 3) + 1) \<le> 8191" by (simp_all add: empty_queue_ok)
  from task_roundtrip [OF this, of "\<lambda>_. 0" "\<lambda>i. of_nat i"] obtain q' sender' where
    q': "common_submit_task quiet (\<lambda>_. 0) (task_system empty_queue) 3 (\<lambda>i. of_nat i) (int 5) 0 = Some (Ret (3, sender'))"
      "tx_q_objs sender' 0 = Some q'"
    and r: "\<forall>receiver s' stack' room l0 buf0. rx_q_objs receiver s' = Some q' \<longrightarrow>
      (if 256 * unat (bursts_of 3) \<le> room then
        (\<exists>buf' receiver' q''.
          common_recv_task quiet stack' room receiver l0 buf0 (int 5) s' = Some (Ret (0, 3, buf', receiver')) \<and>
          (\<forall>a < unat (3 :: u64). buf' a = of_nat a) \<and> rx_q_objs receiver' s' = Some q'' \<and> chan_items q'' 5 = [])
       else common_recv_task quiet stack' room receiver l0 buf0 (int 5) s' = Some Abort)" by (elim exE conjE)
  have a: "rx_q_objs (task_system q') 0 = Some q'" by simp
  from r [rule_format, OF a, of 256 "\<lambda>_. 9" 0 "\<lambda>_. 0"] obtain buf' receiver' where
    "common_recv_task quiet (\<lambda>_. 9) 256 (task_system q') 0 (\<lambda>_. 0) 5 0 = Some (Ret (0, 3, buf', receiver'))" "buf' 2 = 2" by auto
  moreover from r [rule_format, OF a, of 255 "\<lambda>_. 9" 0 "\<lambda>_. 0"] have
    "common_recv_task quiet (\<lambda>_. 9) 255 (task_system q') 0 (\<lambda>_. 0) 5 0 = Some Abort" by simp
  ultimately show ?thesis using q' by auto
qed

text \<open>
  What a submission puts into the shared ring: a header block and whole blocks of the
  caller's buffer. Words 3 to 31 of the header are the caller's stack, and the last block
  reaches up to 255 bytes beyond the task's length.
\<close>

theorem submit_publishes:
  assumes "tx_q_objs opaque s = Some q" and "chan_ok q c" and "chan_items q c = []"
    and "len \<noteq> 0" and "32 * (unat (bursts_of len) + 1) \<le> 8191"
  shows "\<exists>q' opaque'. common_submit_task quiet stack opaque len buf (int c) s = Some (Ret (len, opaque')) \<and>
    tx_q_objs opaque' s = Some q' \<and>
    length (chan_items q' c) = 32 + 32 * ((unat len - 1) div 256 + 1) \<and>
    chan_items q' c ! 0 = bursts_of len \<and> chan_items q' c ! 1 = len \<and> chan_items q' c ! 2 = MAGIC \<and>
    (\<forall>i. 3 \<le> i \<and> i < 32 \<longrightarrow> chan_items q' c ! i = stack i) \<and>
    drop 32 (chan_items q' c) = map (longs_at buf 0) [0..<32 * ((unat len - 1) div 256 + 1)]"
proof -
  have "chan_used q c = 0" using assms(3) length_chan_items [of q c] by simp
  then have "chan_used q c + 32 * (unat (bursts_of len) + 1) \<le> 8191" using assms(5) by simp
  from submit_ok [OF assms(1,2) this, of stack buf] obtain q' where
    q': "common_submit_task quiet stack opaque len buf (int c) s =
        Some (Ret (len, opaque\<lparr>tx_q_objs := (tx_q_objs opaque)(s := Some q')\<rparr>))"
      and items: "chan_items q' c = header_block stack len @ blocks_at buf 0 (unat (bursts_of len))"
    using assms(3) by auto
  have blocks: "blocks_at buf b k = map (longs_at buf 0) [32 * b..<32 * (b + k)]" for b k
  proof (induction k arbitrary: b)
    case (Suc k)
    have "block_at buf b = map (longs_at buf 0) [32 * b..<32 * b + 32]"
      by (rule nth_equalityI) (simp_all add: block_at_def longs_at_def mult.commute)
    moreover have "[32 * b..<32 * (b + Suc k)] = [32 * b..<32 * b + 32] @ [32 * Suc b..<32 * (Suc b + k)]"
      using upt_add_eq_append [of "32 * b" "32 * b + 32" "32 * k"] by (simp add: algebra_simps)
    ultimately show ?case by (simp add: Suc del: upt_Suc)
  qed simp
  have "header_block stack len ! i = task_header stack (bursts_of len) len MAGIC i" if "i < 32" for i
    using that by (simp add: header_block_def)
  then have "\<forall>i < 32. chan_items q' c ! i = task_header stack (bursts_of len) len MAGIC i"
    by (simp add: items nth_append)
  then have i: "chan_items q' c ! 0 = bursts_of len \<and> chan_items q' c ! 1 = len \<and>
      chan_items q' c ! 2 = MAGIC \<and> (\<forall>i. 3 \<le> i \<and> i < 32 \<longrightarrow> chan_items q' c ! i = stack i)"
    by (simp add: task_header_def)
  have d: "drop 32 (chan_items q' c) = map (longs_at buf 0) [0..<32 * ((unat len - 1) div 256 + 1)]"
    using blocks [of 0 "unat (bursts_of len)"] by (simp add: items bursts_pos [OF assms(4)])
  have "length (chan_items q' c) = 32 + 32 * ((unat len - 1) div 256 + 1)"
    unfolding items by (simp add: blocks bursts_pos [OF assms(4)] del: blocks_at.simps)
  with q' i d show ?thesis by auto
qed

theorem submit_publishes_witness:
  "\<exists>q' opaque'. common_submit_task quiet (\<lambda>_. 77) (task_system empty_queue) 3 (\<lambda>i. of_nat i) 5 0 =
     Some (Ret (3, opaque')) \<and> tx_q_objs opaque' 0 = Some q' \<and> chan_items q' 5 ! 31 = 77"
  using submit_publishes [of "task_system empty_queue" 0 empty_queue 5 3 "\<lambda>_. 77" "\<lambda>i. of_nat i"]
  by (auto simp: empty_queue_ok)

text \<open>
  The receiver trusts the header's block count: a header with any nonzero payload size
  and \<open>k\<close> blocks makes it write all \<open>256 * k\<close> bytes to the caller's buffer, whatever
  \<open>payload_size\<close> says.
\<close>

theorem recv_writes_all_blocks:
  assumes "rx_q_objs opaque s = Some q" and "chan_ok q c"
    and "chan_items q c = [of_nat k, payload, MAGIC] @ padding @ blocks_at src 0 k"
    and "length padding = 29" and "0 < k" and "256 * k \<le> room" and "payload \<noteq> 0"
  shows "\<exists>buf' opaque'. common_recv_task quiet stack room opaque l0 buf (int c) s =
      Some (Ret (0, payload, buf', opaque')) \<and>
    (\<forall>a. buf' a = (if a < 256 * k then src a else buf a))"
proof -
  let ?ch = "word_of_int (int c) :: u32"
  note c = unat_channel [OF chan_ok_unfold(5) [OF assms(2)]]
  obtain ret th q1 where r: "s_variable_multi_dequeue q stack NUM_ITEMS ?ch = (ret, th, q1)"
    by (metis prod_cases3)
  have used: "32 + 32 * k = chan_used q c"
    using arg_cong [OF assms(3), of length] assms(4) by simp
  then have "32 \<le> chan_used q c" by simp
  with dequeue_get [OF assms(2) c _ r] assms(3,4)
  have d: "ret = 32" "chan_ok q1 c" "chan_items q1 c = blocks_at src 0 k @ []"
      "map th [0..<32] = [of_nat k, payload, MAGIC] @ padding" by simp_all
  then have "th i = ([of_nat k, payload, MAGIC] @ padding) ! i" if "i < 32" for i
    using that by (metis add_0 diff_zero length_upt nth_map nth_upt)
  from this [of 0] this [of 1] this [of 2]
  have h: "th 0 = of_nat k" "th 1 = payload" "th 2 = MAGIC" by simp_all
  have k255: "k \<le> 255" using used chan_used_le [of q c] by linarith
  have k: "unat (th 0) = k"
    using k255 unfolding h by (simp add: unat_of_nat take_bit_nat_eq_self)
  then have "th 0 \<noteq> 0" using assms(5) by auto
  moreover have "0 + k < 2 ^ 31" "256 * (0 + k) \<le> room" using k255 assms(6) by simp_all
  from recv_bursts_ok [OF c d(2,3) this, of buf 1]
  obtain buf' t' q' where "recv_bursts quiet room buf ?ch 0 k 1 q1 = Some (Ret (buf', t', q'))"
      "\<forall>a. buf' a = (if a < 256 * k then src a else buf a)" by auto
  ultimately show ?thesis
    using assms(1,7) r d(1) h k by (auto simp: common_recv_task_def)
qed

theorem recv_writes_all_blocks_witness:
  "\<exists>q buf' opaque'. common_recv_task quiet (\<lambda>_. 0) 512 (task_system q) 0 (\<lambda>_. 0) 5 0 =
      Some (Ret (0, 1, buf', opaque')) \<and> buf' 511 = 42"
proof -
  let ?src = "(\<lambda>_. 42) :: u8 mem"
  let ?items = "[of_nat 2, 1, MAGIC] @ replicate 29 0 @ blocks_at ?src 0 2"
  obtain q where q: "chan_items q 5 = ?items" "chan_ok q 5"
    using chan.enq_ok [of empty_queue 5 ?items] empty_queue_ok [of 5] by (auto simp: numeral_2_eq_2)
  from recv_writes_all_blocks [of "task_system q" 0 q 5 2 1 "replicate 29 0" ?src 512 "\<lambda>_. 0" 0 "\<lambda>_. 0"] q
  obtain buf' opaque' where "common_recv_task quiet (\<lambda>_. 0) 512 (task_system q) 0 (\<lambda>_. 0) 5 0 =
      Some (Ret (0, 1, buf', opaque'))" "\<forall>a. buf' a = (if a < 512 then 42 else 0)" by auto
  then show ?thesis by (intro exI [of _ q] exI [of _ buf'] exI [of _ opaque']) simp
qed

text \<open>
  A submission to a full ring that nobody drains never returns: the wait for room has no
  bound (the retry limit is commented out in the code).
\<close>

theorem submit_waits_for_ever:
  assumes "tx_q_objs opaque s = Some q" and "chan_ok q c" and "8191 < length (chan_items q c) + 32"
  shows "common_submit_task quiet stack opaque len buf (int c) s = None"
  using enqueue_spin_stuck [OF assms(2) unat_channel [OF chan_ok_unfold(5) [OF assms(2)]]] assms
  by (simp add: common_submit_task_def Let_def)

theorem submit_waits_for_ever_witness:
  "\<exists>q. common_submit_task quiet (\<lambda>_. 0) (task_system q) 3 (\<lambda>_. 0) 5 0 = None"
proof -
  obtain q where q: "chan_items q 5 = replicate 8191 0" "chan_ok q 5"
    using chan.enq_ok [of empty_queue 5 "replicate 8191 0"] empty_queue_ok [of 5] by auto
  then have "8191 < length (chan_items q 5) + 32" by (simp del: length_chan_items)
  from submit_waits_for_ever [of "task_system q" 0 q 5, OF _ q(2) this] show ?thesis by auto
qed

text \<open>
  C20. Against a consumer that again and again leaves room for one block, every submission of fewer than
  2^31 blocks (512 GB) returns, however long the wait for each block is. A longer one does not wait for
  ever either: its block counter, an \<open>int\<close>, overflows.
\<close>

theorem submit_returns:
  assumes "tx_q_objs opaque s = Some q" and "chan_ok q c" and "fair_consumer peer c"
  shows "if unat (bursts_of len) < 2 ^ 31
    then \<exists>opaque'. common_submit_task peer stack opaque len buf (int c) s = Some (Ret (len, opaque'))
    else common_submit_task peer stack opaque len buf (int c) s = Some Abort"
proof -
  let ?ch = "word_of_int (int c) :: u32"
  note c = unat_channel [OF chan_ok_unfold(5) [OF assms(2)]]
  from enqueue_spin_fair [OF assms(3) c assms(2), of "task_header stack (bursts_of len) len MAGIC" 0]
  obtain t q1 where q1: "enqueue_spin peer (task_header stack (bursts_of len) len MAGIC) ?ch 0 q = Some (t, q1)"
      "chan_ok q1 c" by auto
  from submit_bursts_fair [OF assms(3) c q1(2), of 0 "unat (bursts_of len)" buf t] q1(1) assms(1)
  show ?thesis by (auto simp: common_submit_task_def Let_def)
qed

text \<open>A consumer that empties the channel each time.\<close>

definition drain :: "nat \<Rightarrow> peer" where
  "drain c t q = (case chan_take c (length (chan_items q c)) q of None \<Rightarrow> q | Some (_, q') \<Rightarrow> q')"

lemma drain_fair: "fair_consumer (drain c) c"
proof -
  have d: "chan_ok (drain c t q) c \<and> chan_used (drain c t q) c = 0" if ok: "chan_ok q c" for t q
  proof -
    obtain q' where "chan_take c (length (chan_items q c)) q = Some (chan_items q c, q')"
      "chan_items q' c = []" "chan_ok q' c"
      using chan.deq_ok [OF ok, of "length (chan_items q c)"] by auto
    then show ?thesis using length_chan_items [of q' c] by (simp add: drain_def)
  qed
  then show ?thesis by (auto simp: fair_consumer_def keeps_chan_def)
qed

theorem submit_returns_witness:
  "\<exists>opaque'. common_submit_task (drain 5) (\<lambda>_. 0) (task_system empty_queue) 100000 (\<lambda>_. 0) 5 0 =
     Some (Ret (100000, opaque'))"
  using submit_returns [of "task_system empty_queue" 0 empty_queue 5 "drain 5" 100000]
  by (simp add: empty_queue_ok drain_fair bursts_pos)

text \<open>
  The host's round robin: submissions that leave the choice to the library go to channel
  \<open>k mod 8\<close> of the next active socket every eight tasks, so that any
  \<open>8 * total_sockets\<close> submissions in a row visit every channel of every socket.
\<close>

theorem round_robin:
  assumes "0 < total_sockets opaque"
    and "\<forall>i. 0 \<le> i \<longrightarrow> i < total_sockets opaque \<longrightarrow> active_sockets opaque i < 6"
    and "next_submit_channel opaque = 0" "next_submit_socket opaque = 0"
  shows "submit_picks n opaque =
    map (\<lambda>k. (int k mod 8, active_sockets opaque ((int k div 8 + 1) mod total_sockets opaque))) [0..<n]"
  using picks_from [of opaque 0 n] assms by simp

theorem round_robin_witness:
  "submit_picks 2 (task_system empty_queue) = [(0, 0), (1, 0)]"
  using round_robin [of "task_system empty_queue" 2]
  by (simp add: task_system_def numeral_2_eq_2)

end
