(* ===== verification/Mem_Init.thy ===== *)
theory Mem_Init
  imports Mem_Platform Mem_Task
begin

text \<open>
  Setting up the shared queues (mem-sharing-library/vca_mem.c): the connection between host and
  card, the exchange of mappings over it, the allocation of rings, and the construction and
  destruction of queue and task-system objects.
\<close>

section \<open>The connection\<close>

text \<open>
  The zmq socket delivers messages in order. An incoming item is what one \<open>zmq_recv\<close> returns and
  leaves in the buffer (\<open>None\<close>: nothing); the environment says what each \<open>zmq_send\<close> returns.
  Using the socket after it was closed is an error.
\<close>

datatype message = Msg_num u32 | Msg_map transfer_mapping

record net =
  n_connect :: "string \<Rightarrow> int"
  n_bind :: "string \<Rightarrow> int"
  n_send_rc :: "nat \<Rightarrow> message \<Rightarrow> int"
  n_stack :: transfer_mapping

record session = process +
  context_set :: bool
  c_set :: bool
  closed :: bool
  endpoint :: "(bool \<times> string) option"
  inbox :: "(int \<times> message option) list"
  outbox :: "message list"

definition zmq_recv :: "('z session_scheme, int \<times> message option) proc" where
  "zmq_recv = (\<lambda>w. if closed w then Some Abort
     else case inbox w of [] \<Rightarrow> None | x # xs \<Rightarrow> Some (Ret (x, w\<lparr>inbox := xs\<rparr>)))"

definition zmq_send :: "net \<Rightarrow> message \<Rightarrow> ('z session_scheme, int) proc" where
  "zmq_send nt msg = (\<lambda>w. if closed w then Some Abort else Some (Ret (n_send_rc nt (length (outbox w)) msg, w\<lparr>outbox := outbox w @ [msg]\<rparr>)))"

text \<open>What a message leaves in a four-byte buffer and in a mapping structure.\<close>

definition num_of :: "u32 \<Rightarrow> message option \<Rightarrow> u32" where
  "num_of old m = (case m of None \<Rightarrow> old | Some (Msg_num v) \<Rightarrow> v | Some (Msg_map t) \<Rightarrow> ucast (physical_addr t))"

definition map_of_msg :: "transfer_mapping \<Rightarrow> message option \<Rightarrow> transfer_mapping" where
  "map_of_msg old m =
     (case m of
        None \<Rightarrow> old
      | Some (Msg_map t) \<Rightarrow> t
      | Some (Msg_num v) \<Rightarrow> old\<lparr>physical_addr := (physical_addr old AND NOT (mask 32)) OR ucast v\<rparr>)"

definition SIZEOF_MAPPING :: int where "SIZEOF_MAPPING = 24"
definition VCA_HOST_PORT :: string where "VCA_HOST_PORT = ''5555''"

definition host_vca_ip_array :: "string list list" where
  "host_vca_ip_array =
     [[''172.31.1.254'', ''172.31.2.254'', ''172.31.3.254'', ''172.31.4.254'', ''172.31.5.254'', ''172.31.6.254''],
      [''172.31.1.1'', ''172.31.2.1'', ''172.31.3.1'', ''172.31.4.1'', ''172.31.5.1'', ''172.31.6.1'']]"

text \<open>A table access; outside the table it is undefined behaviour.\<close>

definition ip_entry :: "int \<Rightarrow> int \<Rightarrow> ('z session_scheme, string) proc" where
  "ip_entry side n =
     (if 0 \<le> side \<and> side < 2 \<and> 0 \<le> n \<and> n < 6 then give (host_vca_ip_array ! nat side ! nat n) else die)"

section \<open>Connecting\<close>

definition endpoint_name :: "os \<Rightarrow> string option \<Rightarrow> string option \<Rightarrow> int \<Rightarrow> ('z session_scheme, string) proc" where
  "endpoint_name os ip port socket =
     (case (ip, port) of
        (Some ip', Some port') \<Rightarrow> give (take 255 (''tcp://'' @ ip' @ '':'' @ port'))
      | _ \<Rightarrow>
          andthen (if socket > - 1 \<and> socket < 6 then ip_entry (get_local_platform_type os) socket
                   else andthen (self_socket os) (ip_entry (get_local_platform_type os))) (\<lambda>ip'.
          give (take 255 (''tcp//'' @ ip' @ '':'' @ (case port of None \<Rightarrow> VCA_HOST_PORT | Some p \<Rightarrow> p)))))"

definition connect_system :: "net \<Rightarrow> string \<Rightarrow> int \<Rightarrow> ('z session_scheme, unit) proc" where
  "connect_system nt ipname socket =
     andthen (modify (\<lambda>w. w\<lparr>context_set := True, c_set := True\<rparr>)) (\<lambda>_.
     let client = (socket = - 1 \<or> socket = - 3)
     in andthen (require ((if client then n_connect nt ipname else n_bind nt ipname) = 0)) (\<lambda>_.
        modify (\<lambda>w. w\<lparr>endpoint := Some (client, ipname)\<rparr>)))"

text \<open>The result is the socket number, which a host may learn from the card.\<close>

definition exchange_socket :: "os \<Rightarrow> net \<Rightarrow> int \<Rightarrow> ('z session_scheme, int) proc" where
  "exchange_socket os nt socket =
     (if socket = - 3 then
        andthen (self_socket os) (\<lambda>self.
        let s = word_of_int self in
        andthen (zmq_send nt (Msg_num s)) (\<lambda>rc.
        andthen (require (rc = 4)) (\<lambda>_.
        andthen zmq_recv (\<lambda>(rc, m).
        andthen (require (\<not> (rc \<noteq> 4 \<and> num_of s m \<noteq> word_of_int self))) (\<lambda>_.
        give socket)))))
      else if socket = - 2 then
        andthen zmq_recv (\<lambda>(rc, m).
        andthen (require (rc = 4)) (\<lambda>_.
        let s = num_of 0 m in
        andthen (zmq_send nt (Msg_num s)) (\<lambda>rc.
        andthen (require (rc = 4)) (\<lambda>_.
        give (sint s)))))
      else give socket)"

definition initialize_system ::
  "os \<Rightarrow> net \<Rightarrow> string option \<Rightarrow> string option \<Rightarrow> int \<Rightarrow> ('z session_scheme, int) proc" where
  "initialize_system os nt ip port socket =
     andthen (asks (\<lambda>w. \<not> c_set w \<and> \<not> context_set w)) (\<lambda>fresh.
     andthen (if fresh then
                andthen (endpoint_name os ip port socket) (\<lambda>ipname. connect_system nt ipname socket)
              else give ()) (\<lambda>_.
     exchange_socket os nt socket))"

section \<open>Exchanging mappings\<close>

text \<open>The function pointer is \<open>zmq_send\<close> or \<open>zmq_recv\<close>; the mapping is the buffer.\<close>

definition send_map :: "net \<Rightarrow> transfer_mapping \<Rightarrow> ('z session_scheme, int \<times> transfer_mapping) proc" where
  "send_map nt m = andthen (zmq_send nt (Msg_map m)) (\<lambda>rc. give (rc, m))"

definition recv_map :: "transfer_mapping \<Rightarrow> ('z session_scheme, int \<times> transfer_mapping) proc" where
  "recv_map m = andthen zmq_recv (\<lambda>(rc, msg). give (rc, map_of_msg m msg))"

definition request_sharing ::
  "transfer_mapping \<Rightarrow> (transfer_mapping \<Rightarrow> ('z session_scheme, int \<times> transfer_mapping) proc) \<Rightarrow>
   ('z session_scheme, int \<times> transfer_mapping) proc" where
  "request_sharing m send_recv =
     andthen (send_recv m) (\<lambda>(rc, m'). give (if rc \<noteq> SIZEOF_MAPPING then rc else 0, m'))"

definition error_map :: transfer_mapping where
  "error_map = \<lparr>physical_addr = 0, map_size = 0, mapping_type = 0, map_socket = - 255\<rparr>"

definition send_recv_mapping ::
  "os \<Rightarrow> net \<Rightarrow> transfer_mapping \<Rightarrow> transfer_mapping \<Rightarrow> int \<Rightarrow> ('z session_scheme, int \<times> transfer_mapping) proc" where
  "send_recv_mapping os nt inm outm socket =
     (if get_local_platform_type os = HOST then
        andthen (request_sharing outm recv_map) (\<lambda>(rc, outm').
        if map_socket outm' \<noteq> socket then
          andthen (request_sharing error_map (send_map nt)) (\<lambda>_. give (1, outm'))
        else
          andthen (request_sharing inm (send_map nt)) (\<lambda>(rc', _). give (rc OR rc', outm')))
      else
        andthen (request_sharing inm (send_map nt)) (\<lambda>(rc, _).
        andthen (request_sharing outm recv_map) (\<lambda>(rc', outm').
        if map_socket outm' = - 255 then die else give (rc OR rc', outm'))))"

text \<open>\<open>do ... while (rc)\<close>: the callers repeat the exchange until it succeeds.\<close>

partial_function (option) exchange_loop ::
  "os \<Rightarrow> net \<Rightarrow> transfer_mapping \<Rightarrow> int \<Rightarrow> transfer_mapping \<Rightarrow> 'z session_scheme \<Rightarrow> (transfer_mapping \<times> 'z session_scheme) outcome option" where
  "exchange_loop os nt inm socket outm w =
     (case send_recv_mapping os nt inm outm socket w of
        None \<Rightarrow> None
      | Some Abort \<Rightarrow> Some Abort
      | Some (Ret ((rc, outm'), w')) \<Rightarrow>
          if rc \<noteq> 0 then exchange_loop os nt inm socket outm' w' else Some (Ret (outm', w')))"

definition exchange :: "os \<Rightarrow> net \<Rightarrow> transfer_mapping \<Rightarrow> int \<Rightarrow> ('z session_scheme, transfer_mapping) proc" where
  "exchange os nt inm socket = exchange_loop os nt inm socket (n_stack nt)"

definition connected :: "('z session_scheme, unit) proc" where
  "connected = andthen (asks c_set) require"

definition share_local_memory ::
  "os \<Rightarrow> net \<Rightarrow> int \<Rightarrow> u64 \<Rightarrow> u64 \<Rightarrow> int \<Rightarrow> ('z session_scheme, int) proc" where
  "share_local_memory os nt socket ptr sz mtype =
     (let physical_base = virt_to_phys_user os ptr
      in andthen connected (\<lambda>_.
         andthen (require (physical_base \<noteq> 0)) (\<lambda>_.
         andthen (if socket = - 1 then self_socket os else give socket) (\<lambda>s.
         andthen (ip_entry (if get_local_platform_type os = 0 then 1 else 0) s) (\<lambda>_.
         andthen (require (ptr \<noteq> 0)) (\<lambda>_.
         andthen (require (sz mod PAGE_SIZE = 0)) (\<lambda>_.
         andthen (require (mtype = READ \<or> mtype = WRITE)) (\<lambda>_.
         andthen (exchange os nt \<lparr>physical_addr = physical_base, map_size = sz, mapping_type = mtype,
                                    map_socket = s\<rparr> s) (\<lambda>_. give 0)))))))))"

text \<open>The mapping sent here is an uninitialised local.\<close>

definition recv_remote_data :: "os \<Rightarrow> net \<Rightarrow> int \<Rightarrow> ('z session_scheme, int \<times> u64 \<times> u64 \<times> int) proc" where
  "recv_remote_data os nt socket =
     andthen connected (\<lambda>_.
     andthen (if socket = - 1 then self_socket os else give socket) (\<lambda>s.
     andthen (exchange os nt (n_stack nt) s) (\<lambda>m.
     give (map_socket m, physical_addr m, map_size m, mapping_type m))))"

section \<open>Queues\<close>

record queue_ptrs =
  p_2mb :: u64
  p_4kb :: u64
  p_type :: int
  p_socket :: int

definition ENQUEUE_MAP_NUMBER :: int where "ENQUEUE_MAP_NUMBER = 0"
definition DEQUEUE_MAP_NUMBER :: int where "DEQUEUE_MAP_NUMBER = 1"

text \<open>The index cells of the eight channels, from word \<open>rem_prod\<close> of the region on.\<close>

definition store_word :: "u64 \<Rightarrow> nat \<Rightarrow> u64 \<Rightarrow> (u64 \<Rightarrow> u64) \<Rightarrow> u64 \<Rightarrow> u64" where
  "store_word addr i v m = m(addr + of_nat (8 * i) := v)"

definition init_cells :: "u64 \<Rightarrow> nat \<Rightarrow> (u64 \<Rightarrow> u64) \<Rightarrow> u64 \<Rightarrow> u64" where
  "init_cells addr rem_prod m =
     fold (\<lambda>i m. store_word addr (rem_prod + 2 * i + 1) (of_nat (i * 8192))
                  (store_word addr (rem_prod + 2 * i) (of_nat (i * 8192)) m))
       [0..<MAX_CHANNELS_PER_VCA_SOCKET] m"

definition allocate_ring ::
  "os \<Rightarrow> ('z session_scheme, u64) proc \<Rightarrow> u64 \<Rightarrow> int \<Rightarrow> nat \<Rightarrow> ('z session_scheme, u64 \<times> transfer_mapping) proc" where
  "allocate_ring os alloc sz socket rem_prod =
     andthen alloc (\<lambda>addr.
     andthen (require (addr \<noteq> 0)) (\<lambda>_.
     andthen (modify (\<lambda>w. w\<lparr>memory := init_cells addr rem_prod (memory w)\<rparr>)) (\<lambda>_.
     let m = \<lparr>physical_addr = virt_to_phys_user os addr, map_size = sz, mapping_type = WRITE, map_socket = socket\<rparr>
     in andthen (require (physical_addr m \<noteq> 0)) (\<lambda>_.
        andthen (require (sz mod PAGE_SIZE = 0)) (\<lambda>_. give (addr, m))))))"

definition init_dequeue :: "os \<Rightarrow> net \<Rightarrow> int \<Rightarrow> ('z session_scheme, queue_ptrs) proc" where
  "init_dequeue os nt socket =
     andthen connected (\<lambda>_.
     andthen (if get_local_platform_type os = HOST then andthen (require (socket < 6)) (\<lambda>_. give socket)
              else self_socket os) (\<lambda>s.
     andthen (require (s \<ge> 0)) (\<lambda>_.
     andthen (ip_entry (if get_local_platform_type os = 0 then 1 else 0) s) (\<lambda>_.
     andthen (require (o_malloc_ok os)) (\<lambda>_.
     andthen (allocate_ring os (get_contiguous_2MB os) SIZE_2MB s 65536) (\<lambda>(ring_2mb, inm).
     andthen (exchange os nt inm s) (\<lambda>outm.
     andthen (map_remote_memory os outm s PAGE_SIZE DEQUEUE_MAP_NUMBER) (\<lambda>(ring_4kb, _).
     give \<lparr>p_2mb = ring_2mb, p_4kb = ring_4kb, p_type = DEQUEUE_MAP_NUMBER, p_socket = s\<rparr>))))))))"

definition init_enqueue :: "os \<Rightarrow> net \<Rightarrow> int \<Rightarrow> ('z session_scheme, queue_ptrs) proc" where
  "init_enqueue os nt socket =
     andthen connected (\<lambda>_.
     andthen (if get_local_platform_type os = HOST then andthen (require (socket < 6)) (\<lambda>_. give socket)
              else self_socket os) (\<lambda>s.
     andthen (require (o_malloc_ok os)) (\<lambda>_.
     andthen (allocate_ring os (get_contiguous_4KB os) PAGE_SIZE s 0) (\<lambda>(ring_4kb, inm).
     andthen (exchange os nt inm s) (\<lambda>outm.
     andthen (map_remote_memory os outm s SIZE_2MB ENQUEUE_MAP_NUMBER) (\<lambda>(ring_2mb, _).
     give \<lparr>p_2mb = ring_2mb, p_4kb = ring_4kb, p_type = ENQUEUE_MAP_NUMBER, p_socket = s\<rparr>))))))"

definition free_queue :: "queue_ptrs \<Rightarrow> ('z session_scheme, unit) proc" where
  "free_queue q =
     (if p_type q = DEQUEUE_MAP_NUMBER then andthen (require (p_2mb q \<noteq> 0)) (\<lambda>_. free_ptr (p_2mb q))
      else if p_type q = ENQUEUE_MAP_NUMBER then andthen (require (p_4kb q \<noteq> 0)) (\<lambda>_. free_ptr (p_4kb q))
      else give ())"

section \<open>Task systems\<close>

record task_ptrs =
  t_active :: "int list"
  t_total :: int
  t_tx :: "queue_ptrs option list"
  t_rx :: "queue_ptrs option list"

definition new_task_ptrs :: "int \<Rightarrow> task_ptrs" where
  "new_task_ptrs a = \<lparr>t_active = replicate 6 a, t_total = 0, t_tx = replicate 6 None, t_rx = replicate 6 None\<rparr>"

text \<open>An array store; outside the array it is undefined behaviour.\<close>

definition array_set :: "int \<Rightarrow> 'a \<Rightarrow> 'a list \<Rightarrow> ('z session_scheme, 'a list) proc" where
  "array_set i x xs = (if 0 \<le> i \<and> i < int (length xs) then give (xs[nat i := x]) else die)"

definition init_host_task_system ::
  "os \<Rightarrow> net \<Rightarrow> task_ptrs option \<Rightarrow> string option \<Rightarrow> string option \<Rightarrow> int \<Rightarrow> ('z session_scheme, task_ptrs \<times> int) proc" where
  "init_host_task_system os nt opq ip port socket =
     andthen (require (socket < VCA_SOCKETS)) (\<lambda>_.
     andthen (case opq of
                None \<Rightarrow> andthen (require (o_malloc_ok os)) (\<lambda>_. give (new_task_ptrs (- 1)))
              | Some t \<Rightarrow> give t) (\<lambda>opaque.
     andthen (initialize_system os nt ip port socket) (\<lambda>s.
     andthen (array_set (t_total opaque) s (t_active opaque)) (\<lambda>act.
     andthen (init_enqueue os nt s) (\<lambda>tx.
     andthen (array_set s (Some tx) (t_tx opaque)) (\<lambda>txs.
     andthen (init_dequeue os nt s) (\<lambda>rx.
     andthen (array_set s (Some rx) (t_rx opaque)) (\<lambda>rxs.
     give (opaque\<lparr>t_active := act, t_total := t_total opaque + 1, t_tx := txs, t_rx := rxs\<rparr>, s)))))))))"

definition init_vca_task_system ::
  "os \<Rightarrow> net \<Rightarrow> string option \<Rightarrow> string option \<Rightarrow> int \<Rightarrow> ('z session_scheme, task_ptrs \<times> int) proc" where
  "init_vca_task_system os nt ip port socket =
     andthen (require (o_malloc_ok os)) (\<lambda>_.
     andthen (initialize_system os nt ip port socket) (\<lambda>s.
     andthen (init_dequeue os nt (- 1)) (\<lambda>rx.
     andthen (init_enqueue os nt (- 1)) (\<lambda>tx.
     let opaque = new_task_ptrs 0
     in give (opaque\<lparr>t_rx := (t_rx opaque)[0 := Some rx], t_tx := (t_tx opaque)[0 := Some tx]\<rparr>, s)))))"

fun free_queues :: "queue_ptrs option list \<Rightarrow> queue_ptrs option list \<Rightarrow> ('z session_scheme, unit) proc" where
  "free_queues (rx # rxs) (tx # txs) =
     andthen (case rx of None \<Rightarrow> give () | Some q \<Rightarrow> free_queue q) (\<lambda>_.
     andthen (case tx of None \<Rightarrow> give () | Some q \<Rightarrow> free_queue q) (\<lambda>_. free_queues rxs txs))"
| "free_queues _ _ = give ()"

text \<open>The socket and the context are closed, but the global pointers keep their values.\<close>

definition deinit_vca_task_system :: "task_ptrs \<Rightarrow> ('z session_scheme, unit) proc" where
  "deinit_vca_task_system opaque =
     andthen (free_queues (t_rx opaque) (t_tx opaque)) (\<lambda>_.
     modify (\<lambda>w. w\<lparr>closed := True\<rparr>))"

section \<open>Index cells\<close>

lemma word_addr_inj:
  assumes "i < 2 ^ 32" "j < 2 ^ 32"
  shows "(a :: u64) + of_nat (8 * i) = a + of_nat (8 * j) \<longleftrightarrow> i = j"
proof -
  have "unat (of_nat (8 * n) :: u64) = 8 * n" if "n < 2 ^ 32" for n
    using that by (simp add: unat_of_nat take_bit_nat_eq_self del: of_nat_mult)
  with assms show ?thesis by (metis add_left_cancel mult_cancel1 zero_neq_numeral)
qed

lemma store_word_at:
  "i < 2 ^ 32 \<Longrightarrow> j < 2 ^ 32 \<Longrightarrow> store_word a j v m (a + of_nat (8 * i)) = (if i = j then v else m (a + of_nat (8 * i)))"
  using word_addr_inj [of i j a] by (simp add: store_word_def)

text \<open>The first \<open>n\<close> channels' cells.\<close>

lemma init_cells_upto:
  assumes "r + 2 * n < 2 ^ 32" "i < 2 ^ 32"
  shows "fold (\<lambda>i m. store_word a (r + 2 * i + 1) (of_nat (i * 8192)) (store_word a (r + 2 * i) (of_nat (i * 8192)) m))
      [0..<n] m (a + of_nat (8 * i)) =
    (if r \<le> i \<and> i < r + 2 * n then of_nat ((i - r) div 2 * 8192) else m (a + of_nat (8 * i)))"
  using assms(1)
proof (induction n)
  case (Suc n)
  define M where "M = fold (\<lambda>i m. store_word a (r + 2 * i + 1) (of_nat (i * 8192))
      (store_word a (r + 2 * i) (of_nat (i * 8192)) m)) [0..<n] m"
  have b: "r + 2 * n + 1 < 2 ^ 32" "r + 2 * n < 2 ^ 32" using Suc.prems by auto
  have IH: "M (a + of_nat (8 * i)) =
      (if r \<le> i \<and> i < r + 2 * n then of_nat ((i - r) div 2 * 8192) else m (a + of_nat (8 * i)))"
    unfolding M_def by (rule Suc.IH) (use b in simp)
  have "fold (\<lambda>i m. store_word a (r + 2 * i + 1) (of_nat (i * 8192)) (store_word a (r + 2 * i) (of_nat (i * 8192)) m))
      [0..<Suc n] m (a + of_nat (8 * i)) =
    (if i = r + 2 * n + 1 then of_nat (n * 8192) else if i = r + 2 * n then of_nat (n * 8192)
     else M (a + of_nat (8 * i)))"
    using store_word_at [OF assms(2) b(1), of a] store_word_at [OF assms(2) b(2), of a]
    by (simp add: M_def del: of_nat_mult)
  moreover consider "i = r + 2 * n + 1" | "i = r + 2 * n" | "i < r + 2 * n" | "r + 2 * Suc n \<le> i"
    by (cases "i < r + 2 * n"; cases "i = r + 2 * n"; cases "i = r + 2 * n + 1") auto
  ultimately show ?case using IH by cases (simp_all del: of_nat_mult)
qed auto

lemma init_cells_at:
  "r < 2 ^ 31 \<Longrightarrow> i < 2 ^ 32 \<Longrightarrow> init_cells a r m (a + of_nat (8 * i)) =
    (if r \<le> i \<and> i < r + 16 then of_nat ((i - r) div 2 * 8192) else m (a + of_nat (8 * i)))"
  using init_cells_upto [of r 8 i a m] by (simp add: init_cells_def ring_consts)

lemma allocate_ring_cells:
  assumes "allocate_ring os alloc sz s r w = Some (Ret ((a, m), w'))" and "r < 2 ^ 31"
  shows "a \<noteq> 0" "physical_addr m = virt_to_phys_user os a" "map_size m = sz" "map_socket m = s"
    "mapping_type m = WRITE"
    "j < 16 \<Longrightarrow> memory w' (a + of_nat (8 * (r + j))) = of_nat (j div 2 * 8192)"
proof -
  obtain v where v: "w' = v\<lparr>memory := init_cells a r (memory v)\<rparr>" and *: "a \<noteq> 0"
      "m = \<lparr>physical_addr = virt_to_phys_user os a, map_size = sz, mapping_type = WRITE, map_socket = s\<rparr>"
    using assms(1) by (auto simp: allocate_ring_def andthen_eq_Ret Let_def split: if_splits)
  from v show "j < 16 \<Longrightarrow> memory w' (a + of_nat (8 * (r + j))) = of_nat (j div 2 * 8192)"
    using init_cells_at [of r "r + j" a] assms(2) by (simp del: of_nat_mult of_nat_add)
  from * show "a \<noteq> 0" "physical_addr m = virt_to_phys_user os a" "map_size m = sz" "map_socket m = s"
    "mapping_type m = WRITE" by simp_all
qed

text \<open>The two regions of a queue, as the two sides' memories hold them.\<close>

definition shared_queue :: "session \<Rightarrow> u64 \<Rightarrow> session \<Rightarrow> u64 \<Rightarrow> queue_object" where
  "shared_queue w2 a2 w4 a4 =
     \<lparr>ring_2mb = (\<lambda>i. memory w2 (a2 + of_nat (8 * i))), ring_4kb = (\<lambda>i. memory w4 (a4 + of_nat (8 * i))),
      queue_type = 0, q_socket = 0\<rparr>"

section \<open>The exchange\<close>

lemma exchange_loop_step:
  assumes "send_recv_mapping os nt inm outm s w = Some (Ret ((rc, outm'), w'))"
  shows "exchange_loop os nt inm s outm w =
    (if rc \<noteq> 0 then exchange_loop os nt inm s outm' w' else Some (Ret (outm', w')))"
  using assms by (subst exchange_loop.simps) simp

lemma host_step_wrong:
  assumes "o_lsmod os = 0" "\<not> closed w" "inbox w = (rc, msg) # xs" "map_socket (map_of_msg outm msg) \<noteq> s"
  shows "send_recv_mapping os nt inm outm s w =
    Some (Ret ((1, map_of_msg outm msg), w\<lparr>inbox := xs, outbox := outbox w @ [Msg_map error_map]\<rparr>))"
  using assms
  by (simp add: send_recv_mapping_def request_sharing_def recv_map_def send_map_def zmq_recv_def zmq_send_def
      andthen_def get_local_platform_type_def HOST_def)

lemma host_step_right:
  assumes "o_lsmod os = 0" "\<not> closed w" "inbox w = (24, msg) # xs" "map_socket (map_of_msg outm msg) = s"
    and "n_send_rc nt (length (outbox w)) (Msg_map inm) = 24"
  shows "send_recv_mapping os nt inm outm s w =
    Some (Ret ((0, map_of_msg outm msg), w\<lparr>inbox := xs, outbox := outbox w @ [Msg_map inm]\<rparr>))"
  using assms
  by (simp add: send_recv_mapping_def request_sharing_def recv_map_def send_map_def zmq_recv_def zmq_send_def
      andthen_def get_local_platform_type_def HOST_def SIZEOF_MAPPING_def)

lemma card_step:
  assumes "o_lsmod os \<noteq> 0" "\<not> closed w" "inbox w = (24, msg) # xs" "map_socket (map_of_msg outm msg) \<noteq> - 255"
    and "n_send_rc nt (length (outbox w)) (Msg_map inm) = 24"
  shows "send_recv_mapping os nt inm outm s w =
    Some (Ret ((0, map_of_msg outm msg), w\<lparr>inbox := xs, outbox := outbox w @ [Msg_map inm]\<rparr>))"
  using assms
  by (simp add: send_recv_mapping_def request_sharing_def recv_map_def send_map_def zmq_recv_def zmq_send_def
      andthen_def get_local_platform_type_def HOST_def SIZEOF_MAPPING_def)

lemma host_exchange:
  assumes "o_lsmod os = 0" "\<forall>x \<in> set bad. map_socket x \<noteq> s" "map_socket m = s"
  shows "\<lbrakk>\<not> closed w; inbox w = map (\<lambda>x. (24, Some (Msg_map x))) bad @ (24, Some (Msg_map m)) # xs;
      n_send_rc nt (length (outbox w) + length bad) (Msg_map inm) = 24\<rbrakk> \<Longrightarrow>
    exchange_loop os nt inm s outm w = Some (Ret (m, w\<lparr>inbox := xs,
      outbox := outbox w @ map (\<lambda>_. Msg_map error_map) bad @ [Msg_map inm]\<rparr>))"
  using assms(2)
proof (induction bad arbitrary: w outm)
  case Nil
  have "send_recv_mapping os nt inm outm s w =
      Some (Ret ((0, m), w\<lparr>inbox := xs, outbox := outbox w @ [Msg_map inm]\<rparr>))"
    using host_step_right [OF assms(1) Nil(1), of "Some (Msg_map m)" xs outm s nt inm] Nil assms(3)
    by (simp add: map_of_msg_def)
  from exchange_loop_step [OF this] show ?case by simp
next
  case (Cons b bad)
  let ?w = "w\<lparr>inbox := map (\<lambda>x. (24, Some (Msg_map x))) bad @ (24, Some (Msg_map m)) # xs,
      outbox := outbox w @ [Msg_map error_map]\<rparr>"
  have "send_recv_mapping os nt inm outm s w = Some (Ret ((1, b), ?w))"
    using host_step_wrong [OF assms(1) Cons.prems(1), of 24 "Some (Msg_map b)" _ outm s nt inm] Cons.prems
    by (simp add: map_of_msg_def)
  from exchange_loop_step [OF this]
  have "exchange_loop os nt inm s outm w = exchange_loop os nt inm s b ?w" by simp
  also have "\<dots> = Some (Ret (m, ?w\<lparr>inbox := xs,
      outbox := outbox ?w @ map (\<lambda>_. Msg_map error_map) bad @ [Msg_map inm]\<rparr>))"
    using Cons.prems by (intro Cons.IH) simp_all
  finally show ?case by simp
qed

section \<open>Set-up and tear-down\<close>

lemma init_enqueue_result:
  assumes "init_enqueue os nt n w = Some (Ret (q, w'))" "o_lsmod os = 0"
  shows "n < 6" "p_type q = ENQUEUE_MAP_NUMBER" "p_socket q = n"
  using assms
  by (auto simp: init_enqueue_def andthen_eq_Ret get_local_platform_type_def HOST_def split: if_splits prod.splits)

lemma init_dequeue_result:
  assumes "init_dequeue os nt n w = Some (Ret (q, w'))" "o_lsmod os = 0"
  shows "0 \<le> n" "p_type q = DEQUEUE_MAP_NUMBER" "p_socket q = n"
  using assms
  by (auto simp: init_dequeue_def andthen_eq_Ret get_local_platform_type_def HOST_def split: if_splits prod.splits)

lemma same_freed: "\<exists>f. w = w\<lparr>freed := f\<rparr>"
  by (rule exI [of _ "freed w"]) simp

lemma free_queue_result:
  "free_queue q w = Some (Ret (u, w')) \<Longrightarrow> \<exists>f. w' = w\<lparr>freed := f\<rparr>"
  by (auto simp: free_queue_def free_ptr_def andthen_eq_Ret split: if_splits intro: same_freed)

lemma free_queues_result:
  "free_queues rx tx w = Some (Ret (u, w')) \<Longrightarrow> \<exists>f. w' = w\<lparr>freed := f\<rparr>"
proof (induction rx tx arbitrary: w rule: free_queues.induct)
  case (1 rx rxs tx txs)
  have opt: "(case x of None \<Rightarrow> give () | Some q \<Rightarrow> free_queue q) v = Some (Ret ((), v')) \<Longrightarrow> \<exists>f. v' = v\<lparr>freed := f\<rparr>"
    for x v v'
    using free_queue_result by (cases x) (auto intro: same_freed)
  from 1(2) obtain w1 w2 where
    "(case rx of None \<Rightarrow> give () | Some q \<Rightarrow> free_queue q) w = Some (Ret ((), w1))"
    "(case tx of None \<Rightarrow> give () | Some q \<Rightarrow> free_queue q) w1 = Some (Ret ((), w2))"
    "free_queues rxs txs w2 = Some (Ret (u, w'))"
    by (auto simp: andthen_eq_Ret)
  with opt [of rx w w1] opt [of tx w1 w2] 1(1) [of w2] show ?case by auto
qed (auto intro: same_freed)

section \<open>Properties\<close>

text \<open>
  C21. The rings that the two sides allocate form eight well-formed empty channels: the consumer's
  2 MB region and the producer's 4 KB page agree on all index cells.
\<close>
theorem allocated_rings_ok:
  assumes "allocate_ring os2 (get_contiguous_2MB os2) SIZE_2MB s 65536 w2 = Some (Ret ((a2, m2), w2'))"
    and "allocate_ring os4 (get_contiguous_4KB os4) PAGE_SIZE s 0 w4 = Some (Ret ((a4, m4), w4'))"
    and "c < 8"
  shows "chan_ok (shared_queue w2' a2 w4' a4) c \<and> chan_items (shared_queue w2' a2 w4' a4) c = []"
proof -
  let ?q = "shared_queue w2' a2 w4' a4"
  have c4: "ring_4kb ?q j = of_nat (j div 2 * 8192)" if "j < 16" for j
    using allocate_ring_cells(6) [OF assms(2) _ that] by (simp add: shared_queue_def del: of_nat_mult)
  have c2: "ring_2mb ?q (65536 + j) = of_nat (j div 2 * 8192)" if "j < 16" for j
    using allocate_ring_cells(6) [OF assms(1) _ that] by (simp add: shared_queue_def del: of_nat_mult of_nat_add)
  have d: "2 * c + 1 < 16" "2 * c < 16" "(2 * c + 1) div 2 = c" "2 * c div 2 = c" using assms(3) by simp_all
  have v: "ring_4kb ?q (2 * c) = chan_index c 0" "ring_4kb ?q (2 * c + 1) = chan_index c 0"
    "ring_2mb ?q (2 * c + 65536) = chan_index c 0" "ring_2mb ?q (2 * c + 65537) = chan_index c 0"
    using c4 [OF d(2)] c4 [OF d(1)] c2 [OF d(2)] c2 [OF d(1)] d
    by (simp_all add: chan_index_def add.commute mult.commute del: of_nat_mult)
  have ok: "chan_ok ?q c"
    unfolding chan_ok_def idx_ok_def v using assms(3) by (simp add: chan_base_def)
  have "chan_used ?q c = 0"
    unfolding chan_used_def prod_at_def cons_at_def v by simp
  then have "chan_items ?q c = []" by (simp add: chan_items_def)
  with ok show ?thesis by simp
qed

text \<open>
  C23. The hand-shake of a mapping: a host that waits for socket \<open>s\<close> refuses every mapping of another
  socket with the error mapping, takes the first one of its own socket, and answers that one
  with its own mapping. A card that gets this answer takes it.
\<close>
theorem mapping_exchange:
  assumes "o_lsmod host = 0" and "o_lsmod cardos \<noteq> 0"
    and "\<not> closed wh" and "\<not> closed wc" and "\<forall>n msg. n_send_rc nt n msg = 24"
    and "\<forall>x \<in> set bad. map_socket x \<noteq> s" and "map_socket mc = s" and "map_socket mh \<noteq> - 255"
    and "inbox wh = map (\<lambda>x. (24, Some (Msg_map x))) bad @ [(24, Some (Msg_map mc))]"
    and "inbox wc = [(24, Some (Msg_map mh))]"
  shows "exchange host nt mh s wh = Some (Ret (mc, wh\<lparr>inbox := [],
      outbox := outbox wh @ map (\<lambda>_. Msg_map error_map) bad @ [Msg_map mh]\<rparr>)) \<and>
    exchange cardos nt mc s' wc = Some (Ret (mh, wc\<lparr>inbox := [], outbox := outbox wc @ [Msg_map mc]\<rparr>))"
proof
  show "exchange host nt mh s wh = Some (Ret (mc, wh\<lparr>inbox := [],
      outbox := outbox wh @ map (\<lambda>_. Msg_map error_map) bad @ [Msg_map mh]\<rparr>))"
    unfolding exchange_def using assms by (intro host_exchange) simp_all
  have "send_recv_mapping cardos nt mc (n_stack nt) s' wc =
      Some (Ret ((0, mh), wc\<lparr>inbox := [], outbox := outbox wc @ [Msg_map mc]\<rparr>))"
    using card_step [OF assms(2,4), of "Some (Msg_map mh)" "[]" "n_stack nt" nt mc s'] assms
    by (simp add: map_of_msg_def)
  from exchange_loop_step [OF this]
  show "exchange cardos nt mc s' wc = Some (Ret (mh, wc\<lparr>inbox := [], outbox := outbox wc @ [Msg_map mc]\<rparr>))"
    by (simp add: exchange_def)
qed

text \<open>
  A zero-length message is taken for a mapping: the check accepts a return code of 0 like the
  full size, so the host goes on with the uninitialised structure when its socket field happens
  to fit.
\<close>
theorem empty_message_accepted:
  assumes "o_lsmod os = 0" and "\<not> closed w" and "inbox w = (0, None) # xs"
    and "map_socket (n_stack nt) = s" and "n_send_rc nt (length (outbox w)) (Msg_map m) = 24"
  shows "exchange os nt m s w = Some (Ret (n_stack nt, w\<lparr>inbox := xs, outbox := outbox w @ [Msg_map m]\<rparr>))"
proof -
  have "send_recv_mapping os nt m (n_stack nt) s w =
      Some (Ret ((0, n_stack nt), w\<lparr>inbox := xs, outbox := outbox w @ [Msg_map m]\<rparr>))"
    using assms
    by (simp add: send_recv_mapping_def request_sharing_def recv_map_def send_map_def zmq_recv_def zmq_send_def
        andthen_def get_local_platform_type_def HOST_def SIZEOF_MAPPING_def map_of_msg_def)
  from exchange_loop_step [OF this] show ?thesis by (simp add: exchange_def)
qed

text \<open>
  Endpoints: a given address and port become a proper URL, but the default from the table
  lacks the colon of the scheme, and on a card, where \<open>system\<close> reports grep's exit status 1 as
  256, the status is used as an index beyond the two-row table.
\<close>
theorem endpoint_names:
  assumes "0 \<le> n" and "n < 6"
  shows "endpoint_name os (Some ip) (Some port) n w = Some (Ret (take 255 (''tcp://'' @ ip @ '':'' @ port), w)) \<and>
    (o_lsmod os = 0 \<longrightarrow> endpoint_name os None None n w =
       Some (Ret (''tcp//'' @ host_vca_ip_array ! 0 ! nat n @ '':5555'', w))) \<and>
    (o_lsmod os = 256 \<longrightarrow> endpoint_name os None None n w = Some Abort)"
proof -
  have "length (host_vca_ip_array ! 0 ! nat n) \<le> 12"
  proof -
    have "nat n \<in> {0, 1, 2, 3, 4, 5}" using assms by auto
    then show ?thesis by (auto simp: host_vca_ip_array_def)
  qed
  then show ?thesis
    using assms
    by (auto simp: endpoint_name_def ip_entry_def get_local_platform_type_def andthen_def VCA_HOST_PORT_def)
qed

text \<open>
  A host initialisation that returns has registered one more socket, inside all its tables,
  with a producer and a consumer queue of that socket; so a card that reports a socket number of
  6 or more (a third card's, for instance) ends the host.
\<close>
theorem host_init_registers:
  fixes w w' :: "'z session_scheme"
  assumes "init_host_task_system os nt opq ip port n w = Some (Ret ((t, s), w'))" and "o_lsmod os = 0"
    and "old = (case opq of None \<Rightarrow> new_task_ptrs (- 1) | Some t0 \<Rightarrow> t0)"
  shows "0 \<le> s \<and> s < 6 \<and> 0 \<le> t_total old \<and> t_total old < int (length (t_active old)) \<and>
    t_total t = t_total old + 1 \<and> t_active t = (t_active old)[nat (t_total old) := s] \<and>
    (\<exists>tx rx. t_tx t = (t_tx old)[nat s := Some tx] \<and> t_rx t = (t_rx old)[nat s := Some rx] \<and>
       p_type tx = ENQUEUE_MAP_NUMBER \<and> p_type rx = DEQUEUE_MAP_NUMBER \<and> p_socket tx = s \<and> p_socket rx = s)"
proof -
  from assms(1) obtain tx rx and w1 w2 w3 w4 :: "'z session_scheme" where
    q: "init_enqueue os nt s w1 = Some (Ret (tx, w2))" "init_dequeue os nt s w3 = Some (Ret (rx, w4))"
    and t: "0 \<le> t_total old" "t_total old < int (length (t_active old))"
      "t = old\<lparr>t_active := (t_active old)[nat (t_total old) := s], t_total := t_total old + 1,
         t_tx := (t_tx old)[nat s := Some tx], t_rx := (t_rx old)[nat s := Some rx]\<rparr>"
    unfolding assms(3)
    by (auto simp: init_host_task_system_def andthen_eq_Ret array_set_def split: if_splits option.splits)
  with init_enqueue_result [OF q(1) assms(2)] init_dequeue_result [OF q(2) assms(2)] show ?thesis by auto
qed

text \<open>
  Tear-down leaves the global socket pointers set: a later initialisation finds them, skips
  connecting and reports success, and the first exchange runs on the closed socket.
\<close>
theorem reinit_after_teardown:
  assumes "deinit_vca_task_system t w = Some (Ret ((), w'))" and "c_set w" and "n \<noteq> - 2" and "n \<noteq> - 3"
  shows "initialize_system os nt ip port n w' = Some (Ret (n, w')) \<and> exchange os nt m s w' = Some Abort"
proof -
  obtain f where w': "w' = w\<lparr>freed := f, closed := True\<rparr>"
    using assms(1) free_queues_result by (auto simp: deinit_vca_task_system_def andthen_eq_Ret) blast
  have "initialize_system os nt ip port n w' = Some (Ret (n, w'))"
    using assms(2-4) w' by (simp add: initialize_system_def exchange_socket_def andthen_def)
  moreover have "send_recv_mapping os nt m (n_stack nt) s w' = Some Abort"
    by (simp add: w' send_recv_mapping_def request_sharing_def recv_map_def send_map_def zmq_recv_def zmq_send_def
        andthen_def)
  then have "exchange os nt m s w' = Some Abort"
    unfolding exchange_def by (subst exchange_loop.simps) simp
  ultimately show ?thesis ..
qed

section \<open>Witnesses\<close>

definition plain_net :: net where
  "plain_net = \<lparr>n_connect = (\<lambda>_. 0), n_bind = (\<lambda>_. 0), n_send_rc = (\<lambda>_ _. 24),
     n_stack = \<lparr>physical_addr = 3, map_size = 5, mapping_type = 7, map_socket = 2\<rparr>\<rparr>"

definition session_with :: "(int \<times> message option) list \<Rightarrow> session" where
  "session_with xs = \<lparr>memory = (\<lambda>_. 0), allocs = 0, freed = [], commands = [], context_set = True, c_set = True,
     closed = False, endpoint = None, inbox = xs, outbox = []\<rparr>"

abbreviation card_map :: "u64 \<Rightarrow> transfer_mapping" where
  "card_map sz \<equiv> \<lparr>physical_addr = 0x7000, map_size = sz, mapping_type = 1, map_socket = 2\<rparr>"

lemma plain_contiguous: "contiguous plain_os v"
  by (simp add: contiguous_def plain_phys list_all_iff)

lemma plain_alloc_2MB:
  fixes w :: session
  shows
  "\<exists>m w'. allocate_ring plain_os (get_contiguous_2MB plain_os) SIZE_2MB s 65536 w = Some (Ret ((0x200000, m), w')) \<and>
     inbox w' = inbox w \<and> closed w' = closed w \<and> c_set w' = c_set w"
proof -
  have "o_madvise plain_os a l" "o_mlock plain_os a l" "o_memalign plain_os k l = 0x200000" for a l k
    by (simp_all add: plain_os_def)
  then show ?thesis
    by (simp add: allocate_ring_def get_contiguous_2MB_def memalign_def plain_contiguous plain_phys andthen_def
        platform_consts zero_words_def)
qed

lemma plain_alloc_4KB:
  fixes w :: session
  shows
  "\<exists>m w'. allocate_ring plain_os (get_contiguous_4KB plain_os) PAGE_SIZE s 0 w = Some (Ret ((0x200000, m), w')) \<and>
     inbox w' = inbox w \<and> closed w' = closed w \<and> c_set w' = c_set w"
proof -
  have "o_mlock plain_os a l" "o_memalign plain_os k l = 0x200000" for a l k
    by (simp_all add: plain_os_def)
  then show ?thesis
    by (simp add: allocate_ring_def get_contiguous_4KB_def memalign_def plain_phys andthen_def
        platform_consts zero_words_def)
qed

theorem allocated_rings_ok_witness:
  "\<exists>m2 m4 w2 w4. allocate_ring plain_os (get_contiguous_2MB plain_os) SIZE_2MB 2 65536 (session_with []) =
      Some (Ret ((0x200000, m2), w2)) \<and>
    allocate_ring plain_os (get_contiguous_4KB plain_os) PAGE_SIZE 2 0 (session_with []) =
      Some (Ret ((0x200000, m4), w4)) \<and> chan_ok (shared_queue w2 0x200000 w4 0x200000) 7"
proof -
  obtain m2 w2 m4 w4 where
    a: "allocate_ring plain_os (get_contiguous_2MB plain_os) SIZE_2MB 2 65536 (session_with []) =
      Some (Ret ((0x200000, m2), w2))"
      "allocate_ring plain_os (get_contiguous_4KB plain_os) PAGE_SIZE 2 0 (session_with []) =
      Some (Ret ((0x200000, m4), w4))"
    using plain_alloc_2MB plain_alloc_4KB by blast
  with allocated_rings_ok [OF a, of 7] show ?thesis by auto
qed

theorem mapping_exchange_witness:
  "\<exists>w. exchange plain_os plain_net (card_map 0x2000) 2 (session_with [(24, Some (Msg_map error_map)),
      (24, Some (Msg_map (card_map 0x1000)))]) = Some (Ret (card_map 0x1000, w)) \<and>
    outbox w = [Msg_map error_map, Msg_map (card_map 0x2000)]"
  using mapping_exchange [of plain_os "plain_os\<lparr>o_lsmod := 1\<rparr>"
      "session_with [(24, Some (Msg_map error_map)), (24, Some (Msg_map (card_map 0x1000)))]"
      "session_with [(24, Some (Msg_map (card_map 0x2000)))]" plain_net "[error_map]" 2 "card_map 0x1000"
      "card_map 0x2000"]
  by (simp add: plain_os_def plain_net_def session_with_def error_map_def)

theorem empty_message_accepted_witness:
  "\<exists>w. exchange plain_os plain_net (card_map 0x1000) 2 (session_with [(0, None)]) = Some (Ret (n_stack plain_net, w))"
  using empty_message_accepted [of plain_os "session_with [(0, None)]" "[]" plain_net 2 "card_map 0x1000"]
  by (simp add: plain_os_def plain_net_def session_with_def)

theorem endpoint_names_witness:
  "endpoint_name plain_os None None 2 (session_with []) = Some (Ret (''tcp//172.31.3.254:5555'', session_with []))"
  using endpoint_names [where n = 2 and os = plain_os and w = "session_with []"]
  by (simp add: plain_os_def host_vca_ip_array_def)

theorem reinit_after_teardown_witness:
  "\<exists>w'. deinit_vca_task_system (new_task_ptrs 0) (session_with []) = Some (Ret ((), w')) \<and>
     initialize_system plain_os plain_net None None 2 w' = Some (Ret (2, w'))"
proof -
  have "\<exists>w'. deinit_vca_task_system (new_task_ptrs 0) (session_with []) = Some (Ret ((), w'))"
    by (simp add: deinit_vca_task_system_def new_task_ptrs_def andthen_def numeral_eq_Suc)
  then obtain w' where d: "deinit_vca_task_system (new_task_ptrs 0) (session_with []) = Some (Ret ((), w'))" by blast
  have "c_set (session_with [])" by (simp add: session_with_def)
  from reinit_after_teardown [OF d this, of 2] d show ?thesis by auto
qed

lemma plain_exchange:
  fixes w :: session
  assumes "\<not> closed w" "inbox w = (24, Some (Msg_map (card_map sz))) # xs"
  shows "\<exists>w'. exchange plain_os plain_net m 2 w = Some (Ret (card_map sz, w')) \<and>
    inbox w' = xs \<and> closed w' = closed w \<and> c_set w' = c_set w"
  unfolding exchange_def
  using host_exchange [of plain_os "[]" 2 "card_map sz" w xs plain_net m "n_stack plain_net"] assms
  by (simp add: plain_os_def plain_net_def)

lemma plain_map:
  assumes "sz mod 4096 = 0" "n < 3"
  shows "\<exists>a m' w'. map_remote_memory plain_os (card_map sz) 2 sz n w = Some (Ret ((a, m'), w')) \<and>
    inbox w' = inbox w \<and> closed w' = closed w \<and> c_set w' = c_set (w :: session)"
proof -
  have "(0x7000 :: u64) AND 0xFFF = 0" by code_simp
  then show ?thesis
    using assms
    by (simp add: map_remote_memory_def setup_local_mappings_def get_local_mapping_def map_phys_memory_def
        execute_def andthen_def platform_consts get_local_platform_type_def plain_os_def)
qed

lemma plain_init_enqueue:
  fixes w :: session
  assumes "c_set w" "\<not> closed w" "inbox w = (24, Some (Msg_map (card_map SIZE_2MB))) # xs"
  shows "\<exists>q w'. init_enqueue plain_os plain_net 2 w = Some (Ret (q, w')) \<and>
    inbox w' = xs \<and> closed w' = closed w \<and> c_set w' = c_set w"
proof -
  from plain_alloc_4KB [of 2 w] obtain m w1 where
    1: "allocate_ring plain_os (get_contiguous_4KB plain_os) PAGE_SIZE 2 0 w = Some (Ret ((0x200000, m), w1))"
      "inbox w1 = inbox w" "closed w1 = closed w" "c_set w1 = c_set w" by blast
  from plain_exchange [of w1 SIZE_2MB xs m] 1 assms obtain w2 where
    2: "exchange plain_os plain_net m 2 w1 = Some (Ret (card_map SIZE_2MB, w2))"
      "inbox w2 = xs" "closed w2 = closed w" "c_set w2 = c_set w" by auto
  from plain_map [of SIZE_2MB ENQUEUE_MAP_NUMBER w2] obtain a m' w3 where
    3: "map_remote_memory plain_os (card_map SIZE_2MB) 2 SIZE_2MB ENQUEUE_MAP_NUMBER w2 = Some (Ret ((a, m'), w3))"
      "inbox w3 = xs" "closed w3 = closed w" "c_set w3 = c_set w"
    using 2 by (auto simp: platform_consts ENQUEUE_MAP_NUMBER_def)
  have "o_malloc_ok plain_os" "o_lsmod plain_os = 0" by (simp_all add: plain_os_def)
  with 1(1) 2(1) 3 assms show ?thesis
    by (simp add: init_enqueue_def connected_def andthen_def get_local_platform_type_def HOST_def)
qed

lemma plain_init_dequeue:
  fixes w :: session
  assumes "c_set w" "\<not> closed w" "inbox w = (24, Some (Msg_map (card_map PAGE_SIZE))) # xs"
  shows "\<exists>q w'. init_dequeue plain_os plain_net 2 w = Some (Ret (q, w'))"
proof -
  from plain_alloc_2MB [of 2 w] obtain m w1 where
    1: "allocate_ring plain_os (get_contiguous_2MB plain_os) SIZE_2MB 2 65536 w = Some (Ret ((0x200000, m), w1))"
      "inbox w1 = inbox w" "closed w1 = closed w" "c_set w1 = c_set w" by blast
  from plain_exchange [of w1 PAGE_SIZE xs m] 1 assms obtain w2 where
    2: "exchange plain_os plain_net m 2 w1 = Some (Ret (card_map PAGE_SIZE, w2))"
      "inbox w2 = xs" "closed w2 = closed w" "c_set w2 = c_set w" by auto
  from plain_map [of PAGE_SIZE DEQUEUE_MAP_NUMBER w2] obtain a m' w3 where
    3: "map_remote_memory plain_os (card_map PAGE_SIZE) 2 PAGE_SIZE DEQUEUE_MAP_NUMBER w2 = Some (Ret ((a, m'), w3))"
    by (auto simp: platform_consts DEQUEUE_MAP_NUMBER_def)
  have "o_malloc_ok plain_os" "o_lsmod plain_os = 0" by (simp_all add: plain_os_def)
  with 1(1) 2(1) 3 assms show ?thesis
    by (simp add: init_dequeue_def connected_def andthen_def get_local_platform_type_def HOST_def ip_entry_def)
qed

theorem host_init_registers_witness:
  "\<exists>t w'. init_host_task_system plain_os plain_net None None None 2 (session_with
      [(24, Some (Msg_map (card_map SIZE_2MB))), (24, Some (Msg_map (card_map PAGE_SIZE)))]) =
      Some (Ret ((t, 2), w')) \<and> t_total t = 1 \<and> t_active t ! 0 = 2"
proof -
  let ?w = "session_with [(24, Some (Msg_map (card_map SIZE_2MB))), (24, Some (Msg_map (card_map PAGE_SIZE)))]"
  have w: "c_set ?w" "\<not> closed ?w" "context_set ?w" "inbox ?w = (24, Some (Msg_map (card_map SIZE_2MB))) #
      [(24, Some (Msg_map (card_map PAGE_SIZE)))]" by (simp_all add: session_with_def)
  from plain_init_enqueue [OF w(1,2,4)] w(1,2) obtain tx w1 where
    1: "init_enqueue plain_os plain_net 2 ?w = Some (Ret (tx, w1))" "c_set w1" "\<not> closed w1"
      "inbox w1 = [(24, Some (Msg_map (card_map PAGE_SIZE)))]" by auto
  from plain_init_dequeue [OF 1(2,3,4)] obtain rx w2 where
    2: "init_dequeue plain_os plain_net 2 w1 = Some (Ret (rx, w2))" by blast
  have "o_malloc_ok plain_os" and o: "o_lsmod plain_os = 0" by (simp_all add: plain_os_def)
  with 1(1) 2 w have "\<exists>t. init_host_task_system plain_os plain_net None None None 2 ?w = Some (Ret ((t, 2), w2))"
    by (simp add: init_host_task_system_def initialize_system_def exchange_socket_def array_set_def andthen_def
        new_task_ptrs_def VCA_SOCKETS_def)
  then obtain t where t: "init_host_task_system plain_os plain_net None None None 2 ?w = Some (Ret ((t, 2), w2))" ..
  from host_init_registers [OF t o refl] t show ?thesis by (auto simp: new_task_ptrs_def)
qed

end
