(* ===== verification/Com_Lib.thy ===== *)
theory Com_Lib
  imports Com_Msg Mem_Init
begin

text \<open>
  The client side of the communication library (com-library/libvcacom/vca_com.c): one connection
  to the host gateway over shared memory or a zmq stream socket, and messages with headers.
\<close>

section \<open>Data\<close>

text \<open>A stream socket: a handle (0 is NULL), the 256 identity bytes and their number.\<close>

record vca_com_zmqs =
  z_socket :: nat
  z_id :: "u8 list"
  id_size :: u64

definition VCA_COM_MEM_SHARING :: int where "VCA_COM_MEM_SHARING = 0"
definition VCA_COM_MEM_SHARING_HOST :: int where "VCA_COM_MEM_SHARING_HOST = 1"
definition VCA_COM_ZMQ_SOCKET :: int where "VCA_COM_ZMQ_SOCKET = 2"
definition VCA_COM_ZMQ_ID_SIZE :: nat where "VCA_COM_ZMQ_ID_SIZE = 256"

lemmas com_consts = VCA_COM_MEM_SHARING_def VCA_COM_MEM_SHARING_HOST_def VCA_COM_ZMQ_SOCKET_def
  VCA_COM_ZMQ_ID_SIZE_def SIZEOF_HDR_def SIZEOF_ADDR_def

text \<open>\<open>com->com\<close>: NULL, the task system of the process, or a stream socket.\<close>

datatype com_obj = Com_null | Com_tasks | Com_zmq vca_com_zmqs

record vca_com_t =
  self :: vca_com_addr
  com :: com_obj
  com_type :: int

text \<open>
  The world: the session of the memory-sharing library, its task system, and the stream
  sockets: frames sent, and frames to come with the result of the \<open>zmq_recv\<close> that takes them.
\<close>

record com_world = session +
  task_sys :: "task_queue_opaque option"
  task_objs :: "task_ptrs option"
  ctx_set :: bool
  sent :: "u8 list list"
  frames :: "(int \<times> u8 list) list"

text \<open>
  What lies outside the process: the results of the zmq calls, the ring peers between polls, the
  queue contents behind the pointers of a task system, and stack garbage.
\<close>

record com_env =
  e_os :: os
  e_net :: net
  e_view :: "task_ptrs \<Rightarrow> task_queue_opaque"
  e_peer :: peer
  e_recv_peer :: "nat \<Rightarrow> peer"
  e_stack_words :: "u64 mem"
  e_stack :: "u8 mem"
  e_zmq_socket :: nat
  e_connect :: "string \<Rightarrow> int"
  e_identity :: "int \<times> u8 list"
  e_send_rc :: "nat \<Rightarrow> u8 list \<Rightarrow> int"
  e_garbage :: string

definition stream_send :: "com_env \<Rightarrow> u8 list \<Rightarrow> ('z com_world_scheme, int) proc" where
  "stream_send ev bs = (\<lambda>w. Some (Ret (e_send_rc ev (length (sent w)) bs, w\<lparr>sent := sent w @ [bs]\<rparr>)))"

text \<open>The bytes of a buffer.\<close>

definition bytes_of :: "u8 mem \<Rightarrow> u64 \<Rightarrow> u8 list" where
  "bytes_of buf len = map buf [0..<unat len]"

section \<open>The stream socket\<close>

text \<open>\<open>strnlen (s, 256)\<close> and the endpoint, which stays uninitialised if it would not fit.\<close>

definition zmq_endpoint :: "com_env \<Rightarrow> string \<Rightarrow> string \<Rightarrow> string" where
  "zmq_endpoint ev hip hport =
     (if min (length hip) 256 + min (length hport) 256 + 7 < 255
      then ''tcp://'' @ hip @ '':'' @ hport else e_garbage ev)"

definition init_zmq_socket_to_host :: "com_env \<Rightarrow> string \<Rightarrow> string \<Rightarrow> ('z com_world_scheme, com_obj) proc" where
  "init_zmq_socket_to_host ev hip hport =
     andthen (require (o_malloc_ok (e_os ev))) (\<lambda>_.
     andthen (modify (\<lambda>w. w\<lparr>ctx_set := True\<rparr>)) (\<lambda>_.
     if e_connect ev (zmq_endpoint ev hip hport) \<noteq> 0 then give Com_null
     else
       (case e_identity ev of
          (rc, ident) \<Rightarrow>
            if rc \<noteq> 0 \<or> length ident > VCA_COM_ZMQ_ID_SIZE then give Com_null
            else give (Com_zmq \<lparr>z_socket = e_zmq_socket ev, z_id = ident @ replicate (256 - length ident) 0,
                                id_size = of_nat (length ident)\<rparr>))))"

definition deinit_zmq_socket_to_host :: "com_env \<Rightarrow> com_obj \<Rightarrow> ('z com_world_scheme, unit) proc" where
  "deinit_zmq_socket_to_host ev s =
     (case s of
        Com_zmq zmqs \<Rightarrow>
          (if z_socket zmqs = 0 then give ()
           else
             andthen (stream_send ev (take (unat (id_size zmqs)) (z_id zmqs))) (\<lambda>rc.
             if rc < 0 then give ()
             else
               andthen (stream_send ev []) (\<lambda>rc'.
               if rc' < 0 then give () else modify (\<lambda>w. w\<lparr>ctx_set := False\<rparr>))))
      | Com_null \<Rightarrow> give ()
      | Com_tasks \<Rightarrow> die)"

section \<open>Sending\<close>

text \<open>Running an operation of the task system, which stays the process's one.\<close>

definition on_tasks ::
  "(task_queue_opaque option \<Rightarrow> ('a \<times> task_queue_opaque) outcome option) \<Rightarrow> ('z com_world_scheme, 'a) proc" where
  "on_tasks f = (\<lambda>w. case f (task_sys w) of
      None \<Rightarrow> None
    | Some Abort \<Rightarrow> Some Abort
    | Some (Ret (x, t)) \<Rightarrow> Some (Ret (x, w\<lparr>task_sys := Some t\<rparr>)))"

text \<open>The comparison of an \<open>int\<close> with a \<open>size_t\<close> is unsigned.\<close>

definition less_u :: "int \<Rightarrow> u64 \<Rightarrow> bool" where
  "less_u rc n \<longleftrightarrow> (word_of_int rc :: u64) < n"

definition vca_com_send_hdrless_msg ::
  "com_env \<Rightarrow> vca_com_t \<Rightarrow> u8 mem \<Rightarrow> u64 \<Rightarrow> u32 \<Rightarrow> ('z com_world_scheme, int) proc" where
  "vca_com_send_hdrless_msg ev cm msg len c =
     (if com_type cm = VCA_COM_MEM_SHARING then
        (if com cm = Com_null \<or> com cm = Com_tasks then
           andthen (on_tasks (\<lambda>t. vca_submit_task (e_peer ev) (e_stack_words ev)
               (if com cm = Com_null then None else t) len (Some msg) (sint c))) (\<lambda>_. give 0)
         else die)
      else if com_type cm = VCA_COM_MEM_SHARING_HOST then
        (if com cm = Com_null \<or> com cm = Com_tasks then
           andthen (on_tasks (\<lambda>t. host_submit_task (e_peer ev) (e_stack_words ev)
               (if com cm = Com_null then None else t) len (Some msg) (int (unat (socket (self cm)))))) (\<lambda>_. give 0)
         else die)
      else if com_type cm = VCA_COM_ZMQ_SOCKET then
        (case com cm of
           Com_zmq zmqs \<Rightarrow>
             andthen (stream_send ev (take (unat (id_size zmqs)) (z_id zmqs))) (\<lambda>rc.
             if less_u rc (id_size zmqs) then give rc
             else
               andthen (stream_send ev (bytes_of msg len)) (\<lambda>rc'.
               if less_u rc' len then give rc' else give 0))
         | _ \<Rightarrow> die)
      else give (- 1))"

text \<open>Header and message in one buffer; the sum of the lengths wraps.\<close>

definition msg_buffer :: "vca_com_msg_hdr \<Rightarrow> u8 mem \<Rightarrow> nat \<Rightarrow> u8 mem \<Rightarrow> u8 mem" where
  "msg_buffer h msg len garbage =
     (\<lambda>a. if a < 38 then hdr_bytes h ! a else if a < 38 + len then msg (a - 38) else garbage a)"

definition zero_addr :: vca_com_addr where
  "zero_addr = \<lparr>gateway = [0, 0, 0, 0], gateway_port = 0, host = [0, 0, 0, 0], host_port = 0, socket = 0\<rparr>"

definition vca_com_send_msg ::
  "com_env \<Rightarrow> vca_com_t \<Rightarrow> vca_com_addr option \<Rightarrow> u8 mem \<Rightarrow> u64 \<Rightarrow> u32 \<Rightarrow> ('z com_world_scheme, int) proc" where
  "vca_com_send_msg ev cm d msg len c =
     (let full_length = len + 38 in
      andthen (require (full_length > 4096 \<longrightarrow> o_malloc_ok (e_os ev))) (\<lambda>_.
      let hdr = \<lparr>src = self cm, dst = (case d of None \<Rightarrow> zero_addr | Some a \<Rightarrow> a), hdr_length = len,
                 msg_type = VCA_COM_MSG_SEND\<rparr>
      in andthen (require (len \<le> full_length)) (\<lambda>_.
         vca_com_send_hdrless_msg ev cm (msg_buffer hdr msg (unat len) (e_stack ev)) full_length c)))"

section \<open>Receiving\<close>

text \<open>Bytes stored from the start of a buffer.\<close>

definition put_bytes :: "u8 list \<Rightarrow> u8 mem \<Rightarrow> u8 mem" where
  "put_bytes bs buf = (\<lambda>a. if a < length bs then bs ! a else buf a)"

definition same_id :: "u8 mem \<Rightarrow> vca_com_zmqs \<Rightarrow> u8 list \<Rightarrow> bool" where
  "same_id stack zmqs idb =
     list_all (\<lambda>i. z_id zmqs ! i = put_bytes (take 256 idb) stack i) [0..<unat (id_size zmqs)]"

text \<open>
  The buffer of a receive: 4096 bytes on the stack, or an allocation for the caller's length and a
  header, whose size can wrap.
\<close>

definition recv_room :: "u64 \<Rightarrow> nat" where
  "recv_room len = (if 4096 < len then unat (len + 38) else 4096)"

text \<open>
  The loop: an identity frame, then a message frame of at most \<open>cap\<close> bytes into a buffer of \<open>room\<close> bytes.
\<close>

fun stream_recv ::
  "u8 mem \<Rightarrow> vca_com_zmqs \<Rightarrow> nat \<Rightarrow> nat \<Rightarrow> u64 \<Rightarrow> u8 mem \<Rightarrow> (int \<times> u8 list) list
     \<Rightarrow> (int \<times> u64 \<times> u8 mem \<times> (int \<times> u8 list) list) outcome option" where
  "stream_recv stack zmqs room cap tln buf [] = None"
| "stream_recv stack zmqs room cap tln buf [(rc, idb)] =
     (if rc < 0 \<or> \<not> same_id stack zmqs idb then Some (Ret (rc, tln, buf, [])) else None)"
| "stream_recv stack zmqs room cap tln buf ((rc, idb) # (rc2, bs) # fs) =
     (if rc < 0 \<or> \<not> same_id stack zmqs idb then Some (Ret (rc, tln, buf, (rc2, bs) # fs))
      else if rc2 < 0 then Some (Ret (rc2, tln, buf, fs))
      else if room < min cap (length bs) then Some Abort
      else if rc2 < 1 then stream_recv stack zmqs room cap (word_of_int rc2) (put_bytes (take cap bs) buf) fs
      else Some (Ret (rc2, word_of_int rc2, put_bytes (take cap bs) buf, fs)))"

text \<open>The result code, the task's length and the buffer, for each kind of connection.\<close>

definition recv_task ::
  "com_env \<Rightarrow> vca_com_t \<Rightarrow> u64 \<Rightarrow> u32 \<Rightarrow> ('z com_world_scheme, int \<times> u64 \<times> u8 mem \<times> u32) proc" where
  "recv_task ev cm len c =
     (if com_type cm = VCA_COM_MEM_SHARING then
        (if com cm = Com_tasks then
           andthen (on_tasks (\<lambda>t. case vca_recv_task (e_recv_peer ev) (e_stack_words ev) (recv_room len) t (Some 0)
                (Some (e_stack ev)) (sint c) of
                  None \<Rightarrow> None | Some Abort \<Rightarrow> Some Abort
                | Some (Ret (rc, tln, buf, t')) \<Rightarrow> Some (Ret ((rc, tln, buf), t'))))
             (\<lambda>(rc, tln, buf). give (rc, tln, buf, c))
         else die)
      else if com_type cm = VCA_COM_MEM_SHARING_HOST then
        (if com cm = Com_tasks then
           andthen (on_tasks (\<lambda>t. case t of None \<Rightarrow> Some Abort
              | Some opaque \<Rightarrow>
                 (case host_recv_task (e_recv_peer ev) (e_stack_words ev) (recv_room len) 0 opaque 0 (e_stack ev) of
                    None \<Rightarrow> None | Some Abort \<Rightarrow> Some Abort
                  | Some (Ret (rc, tid, tln, buf, t')) \<Rightarrow> Some (Ret ((rc, tln, buf, word_of_int tid), t')))))
             give
         else die)
      else if com_type cm = VCA_COM_ZMQ_SOCKET then
        (case com cm of
           Com_zmq zmqs \<Rightarrow>
             (\<lambda>w. case stream_recv (e_stack ev) zmqs (recv_room len) (unat len) 0 (e_stack ev) (frames w) of
                None \<Rightarrow> None
              | Some Abort \<Rightarrow> Some Abort
              | Some (Ret (rc, tln, buf, fs)) \<Rightarrow>
                  Some (Ret ((if rc > 0 then 0 else rc, tln, buf, c), w\<lparr>frames := fs\<rparr>)))
         | _ \<Rightarrow> die)
      else give (0, 0, e_stack ev, c))"

text \<open>
  The result code, the source, the message buffer of the caller, its length and the channel. A
  task shorter than a header makes the length wrap and the copy run off the buffer.
\<close>

definition vca_com_recv_msg ::
  "com_env \<Rightarrow> vca_com_t \<Rightarrow> vca_com_addr \<Rightarrow> u8 mem \<Rightarrow> u64 \<Rightarrow> u32
     \<Rightarrow> ('z com_world_scheme, int \<times> vca_com_addr \<times> u8 mem \<times> u64 \<times> u32) proc" where
  "vca_com_recv_msg ev cm from0 msg len c =
     andthen (require (len > 4096 \<longrightarrow> o_malloc_ok (e_os ev))) (\<lambda>_.
     andthen (recv_task ev cm len c) (\<lambda>(rc, task_len, buf, c').
     if rc = 0 then
       (let hdr = vca_com_msg_get_hdr (map buf [0..<38]) in
        if len < task_len then give (- 1, src hdr, msg, len, c')
        else
          andthen (require (38 \<le> task_len)) (\<lambda>_.
          let len' = task_len - 38
          in give (0, src hdr, put_bytes (map (\<lambda>a. buf (38 + a)) [0..<unat len']) msg, len', c')))
     else give (rc, from0, msg, len, c')))"

section \<open>Life cycle\<close>

text \<open>The memory-sharing library's task system becomes the process's one.\<close>

definition adopt :: "com_env \<Rightarrow> task_ptrs \<Rightarrow> ('z com_world_scheme, com_obj) proc" where
  "adopt ev t = andthen (modify (\<lambda>w. w\<lparr>task_sys := Some (e_view ev t), task_objs := Some t\<rparr>)) (\<lambda>_. give Com_tasks)"

definition init_vca_com ::
  "com_env \<Rightarrow> vca_com_t \<Rightarrow> string option \<Rightarrow> string option \<Rightarrow> vca_com_addr option \<Rightarrow> int
     \<Rightarrow> ('z com_world_scheme, int \<times> vca_com_t) proc" where
  "init_vca_com ev cm hip hport own type =
     (if hip = None \<or> hport = None then give (- 1, cm)
      else
        (let cm1 = cm\<lparr>com := Com_null, com_type := type,
                      self := (case own of None \<Rightarrow> self cm | Some a \<Rightarrow> a)\<rparr>;
             finish = (\<lambda>obj. give (if obj = Com_null then - 1 else 0, cm1\<lparr>com := obj\<rparr>))
         in if type = VCA_COM_MEM_SHARING then
              andthen (init_vca_task_system (e_os ev) (e_net ev) hip hport (- 3)) (\<lambda>(t, _).
              andthen (adopt ev t) finish)
            else if type = VCA_COM_MEM_SHARING_HOST then
              andthen (init_host_task_system (e_os ev) (e_net ev) None hip hport (- 3)) (\<lambda>(t, _).
              andthen (adopt ev t) finish)
            else if type = VCA_COM_ZMQ_SOCKET then
              andthen (init_zmq_socket_to_host ev (the hip) (the hport)) (\<lambda>obj.
              andthen (vca_com_send_msg ev (cm1\<lparr>com := obj\<rparr>) (Some zero_addr) (\<lambda>_. 0) 0 0) (\<lambda>_.
              finish obj))
            else give (- 1, cm1)))"

definition init_vca_com_repeat ::
  "com_env \<Rightarrow> vca_com_t \<Rightarrow> string option \<Rightarrow> string option \<Rightarrow> ('z com_world_scheme, int) proc" where
  "init_vca_com_repeat ev cm hip hport =
     (if hip = None \<or> hport = None \<or> com cm = Com_null then give (- 1)
      else if com_type cm = VCA_COM_MEM_SHARING_HOST then
        andthen (asks task_objs) (\<lambda>t.
        andthen (init_host_task_system (e_os ev) (e_net ev) t hip hport (- 3)) (\<lambda>(t', _).
        andthen (adopt ev t') (\<lambda>_. give 0)))
      else give (- 1))"

definition deinit_vca_com :: "com_env \<Rightarrow> vca_com_t \<Rightarrow> ('z com_world_scheme, int) proc" where
  "deinit_vca_com ev cm =
     (if com_type cm = VCA_COM_MEM_SHARING \<or> com_type cm = VCA_COM_MEM_SHARING_HOST then
        andthen (asks task_objs) (\<lambda>t.
        case (com cm, t) of
          (Com_tasks, Some opaque) \<Rightarrow> andthen (deinit_vca_task_system opaque) (\<lambda>_. give 0)
        | _ \<Rightarrow> die)
      else if com_type cm = VCA_COM_ZMQ_SOCKET then
        andthen (deinit_zmq_socket_to_host ev (com cm)) (\<lambda>_. give 0)
      else give (- 1))"

section \<open>Lemmas\<close>

lemma uint_lower: "0 < 38 + uint (w :: u64)"
  by (rule add_pos_nonneg) simp_all

lemma less_u_nat: "n < 2 ^ 64 \<Longrightarrow> less_u (int n) len \<longleftrightarrow> n < unat len"
  by (simp add: less_u_def word_less_nat_alt unat_of_nat take_bit_nat_eq_self)

lemma less_u_minus: "\<not> less_u (- 1) len"
  by (simp add: less_u_def)

lemma unat_add_38:
  "unat (len :: u64) + 38 < 2 ^ 64 \<Longrightarrow> unat (len + 38) = unat len + 38 \<and> len \<le> len + 38"
proof -
  assume b: "unat len + 38 < 2 ^ 64"
  then have u: "unat (len + 38) = unat len + 38" by (subst unat_add_lem [THEN iffD1]) simp_all
  then show ?thesis by (simp add: word_le_nat_alt)
qed

lemma less_u_own: "length bs < 2 ^ 64 \<Longrightarrow> unat n \<le> length bs \<Longrightarrow> \<not> less_u (int (length bs)) n"
  by (simp add: less_u_nat)

lemma msg_buffer_hdr:
  "hdr_ok h \<Longrightarrow> map (msg_buffer h msg n g) [0..<38 + k] = hdr_bytes h @ map (\<lambda>a. msg_buffer h msg n g (38 + a)) [0..<k]"
proof -
  assume h: "hdr_ok h"
  have "map (msg_buffer h msg n g) [0..<38] = hdr_bytes h"
    using h by (intro nth_equalityI) (simp_all add: msg_buffer_def)
  moreover have "map (msg_buffer h msg n g) [38..<38 + k] = map (\<lambda>a. msg_buffer h msg n g (38 + a)) [0..<k]"
    by (intro nth_equalityI) simp_all
  moreover have "[0..<38 + k] = [0..<38] @ [38..<38 + k]" by (rule upt_add_eq_append) simp
  ultimately show ?thesis by (simp only: map_append)
qed

lemma msg_buffer_body: "a < n \<Longrightarrow> msg_buffer h msg n g (38 + a) = msg a"
  by (simp add: msg_buffer_def)

text \<open>The header a message is sent with.\<close>

definition sent_hdr :: "vca_com_t \<Rightarrow> vca_com_addr \<Rightarrow> u64 \<Rightarrow> vca_com_msg_hdr" where
  "sent_hdr cm d len = \<lparr>src = self cm, dst = d, hdr_length = len, msg_type = VCA_COM_MSG_SEND\<rparr>"

lemma send_msg_eq:
  assumes "unat len + 38 < 2 ^ 64" "o_malloc_ok (e_os ev)"
  shows "vca_com_send_msg ev cm (Some d) msg len c w =
    vca_com_send_hdrless_msg ev cm (msg_buffer (sent_hdr cm d len) msg (unat len) (e_stack ev)) (len + 38) c w"
  using assms unat_add_38 [OF assms(1)]
  by (simp add: vca_com_send_msg_def Let_def sent_hdr_def andthen_require)

text \<open>What the receiver makes of a buffer that starts with a sent message.\<close>

lemma recv_msg_eq:
  assumes "recv_task ev cm cap c w = Some (Ret ((0, len + 38, buf, c'), w'))" "o_malloc_ok (e_os ev)"
    and "unat len + 38 \<le> unat cap" "hdr_ok h"
    and "\<And>a. a < 38 + unat len \<Longrightarrow> buf a = msg_buffer h msg (unat len) g a"
  shows "\<exists>buf'. vca_com_recv_msg ev cm from0 msg0 cap c w = Some (Ret ((0, src h, buf', len, c'), w')) \<and>
    (\<forall>a < unat len. buf' a = msg a)"
proof -
  have b: "unat len + 38 < 2 ^ 64" using assms(3) unat_bound [of cap] by simp
  note u = unat_add_38 [OF b]
  have "map buf [0..<38] = map (msg_buffer h msg (unat len) g) [0..<38 + 0]"
    using assms(5) by (intro map_cong) simp_all
  also have "\<dots> = hdr_bytes h" using msg_buffer_hdr [OF assms(4), of msg "unat len" g 0] by simp
  finally have hd: "map buf [0..<38] = hdr_bytes h" .
  have "vca_com_msg_get_hdr (map buf [0..<38]) = h"
    unfolding vca_com_msg_get_hdr_def hd using hdr_of_hdr_bytes [OF assms(4), of "[]"] by simp
  moreover have "\<not> cap < len + 38" using u assms(3) by (simp add: word_less_nat_alt)
  moreover have "38 \<le> len + 38" using u by (simp add: word_le_nat_alt)
  ultimately have "vca_com_recv_msg ev cm from0 msg0 cap c w =
      Some (Ret ((0, src h, put_bytes (map (\<lambda>a. buf (38 + a)) [0..<unat len]) msg0, len, c'), w'))"
    using assms(1,2) by (simp add: vca_com_recv_msg_def andthen_require Let_def)
  moreover have "put_bytes (map (\<lambda>a. buf (38 + a)) [0..<unat len]) msg0 a = msg a" if "a < unat len" for a
    using that assms(5) [of "38 + a"] by (simp add: put_bytes_def msg_buffer_body)
  ultimately show ?thesis by blast
qed

lemma same_id_self: "unat (id_size z) \<le> length (z_id z) \<Longrightarrow> unat (id_size z) \<le> 256 \<Longrightarrow>
    same_id stack z (take (unat (id_size z)) (z_id z))"
  by (simp add: same_id_def list_all_iff put_bytes_def)

lemma recv_room_cases:
  "4096 < unat cap \<Longrightarrow> unat cap + 38 < 2 ^ 64 \<Longrightarrow> recv_room cap = unat cap + 38"
  "unat cap \<le> 4096 \<Longrightarrow> recv_room cap = 4096"
  "2 ^ 64 \<le> unat cap + 38 \<Longrightarrow> recv_room cap < 38"
proof -
  show "4096 < unat cap \<Longrightarrow> unat cap + 38 < 2 ^ 64 \<Longrightarrow> recv_room cap = unat cap + 38"
    using unat_add_38 [of cap] by (simp add: recv_room_def word_less_nat_alt)
  show "unat cap \<le> 4096 \<Longrightarrow> recv_room cap = 4096" by (simp add: recv_room_def word_less_nat_alt)
  assume w: "2 ^ 64 \<le> unat cap + 38"
  have "unat cap < 2 ^ 64" using unat_bound [of cap] by simp
  then have "unat (cap + 38) = unat cap + 38 - 2 ^ 64" using w by (simp add: unat_word_ariths le_mod_geq)
  then show "recv_room cap < 38" using w \<open>unat cap < 2 ^ 64\<close> by (simp add: recv_room_def word_less_nat_alt)
qed

lemma recv_room_enough: "unat cap + 38 < 2 ^ 64 \<Longrightarrow> unat cap \<le> recv_room cap"
  using recv_room_cases(1,2) [of cap] by (cases "4096 < unat cap") simp_all

lemma pick_small:
  assumes "0 < n" "n < (8 :: nat)"
  shows "host_submit_pick t (int n) = Some (int n, 0, t)"
proof -
  have "int n smod 10 = int n" "int n sdiv 10 = 0"
    using assms by (simp_all add: signed_modulo_int_def signed_divide_int_def)
  then show ?thesis
    using assms by (simp add: host_submit_pick_def MAX_CHANNELS_def VCA_SOCKETS_def Let_def)
qed

section \<open>Properties\<close>

text \<open>
  C24. A message sent over a stream socket whose sends succeed is framed by the socket's identity,
  and a receiver that gets the frame, with a buffer that has room for the header too, gets the
  sender's address, the length and the bytes of the message; unless the length of the receiver's buffer is
  so large that the size of the intermediate buffer wraps around, and the message overruns it.
\<close>
theorem stream_roundtrip:
  assumes "com_type cm = VCA_COM_ZMQ_SOCKET" and "com cm = Com_zmq z" and "addr_ok (self cm)" and "addr_ok d"
    and "unat (id_size z) \<le> length (z_id z)" and "length (z_id z) = 256"
    and "\<forall>n bs. e_send_rc ev n bs = int (length bs)" and "o_malloc_ok (e_os ev)"
    and "unat len + 38 < 2 ^ 31"
  shows "\<exists>frame. vca_com_send_msg ev cm (Some d) msg len c w =
      Some (Ret (0, w\<lparr>sent := sent w @ [take (unat (id_size z)) (z_id z), frame]\<rparr>)) \<and>
    (\<forall>ev2 rcv z2 cap (w2 :: com_world) rest from0 msg0 c2.
       com_type rcv = VCA_COM_ZMQ_SOCKET \<longrightarrow> com rcv = Com_zmq z2 \<longrightarrow> unat (id_size z2) \<le> length (z_id z2) \<longrightarrow>
       length (z_id z2) = 256 \<longrightarrow> o_malloc_ok (e_os ev2) \<longrightarrow> unat len + 38 \<le> unat cap \<longrightarrow>
       frames w2 = (int (unat (id_size z2)), take (unat (id_size z2)) (z_id z2)) # (int (length frame), frame) # rest \<longrightarrow>
       (if unat cap + 38 < 2 ^ 64 then
         \<exists>buf'. vca_com_recv_msg ev2 rcv from0 msg0 cap c2 w2 =
           Some (Ret ((0, self cm, buf', len, c2), w2\<lparr>frames := rest\<rparr>)) \<and> (\<forall>a < unat len. buf' a = msg a)
        else vca_com_recv_msg ev2 rcv from0 msg0 cap c2 w2 = Some Abort))"
proof -
  let ?h = "sent_hdr cm d len"
  let ?b = "msg_buffer ?h msg (unat len) (e_stack ev)"
  let ?f = "map ?b [0..<38 + unat len]"
  have b: "unat len + 38 < 2 ^ 64" using assms(9) by simp
  note u = unat_add_38 [OF b]
  have h: "hdr_ok ?h" using assms(3,4) by (simp add: hdr_ok_def sent_hdr_def)
  have f: "bytes_of ?b (len + 38) = ?f" using u by (simp add: bytes_of_def add.commute)
  have ids: "\<not> less_u (int (length (take (unat (id_size z)) (z_id z)))) (id_size z)"
    using assms(5,6) by (intro less_u_own) simp_all
  have fl: "\<not> less_u (int (length ?f)) (len + 38)" using u assms(9) by (intro less_u_own) simp_all
  have "vca_com_send_msg ev cm (Some d) msg len c w =
      Some (Ret (0, w\<lparr>sent := sent w @ [take (unat (id_size z)) (z_id z), ?f]\<rparr>))"
    using assms(1,2,7) ids fl unfolding send_msg_eq [OF b assms(8)]
    by (simp add: vca_com_send_hdrless_msg_def com_consts stream_send_def andthen_def f del: length_take length_map)
  moreover have "if unat cap + 38 < 2 ^ 64 then \<exists>buf'. vca_com_recv_msg ev2 rcv from0 msg0 cap c2 w2 =
           Some (Ret ((0, self cm, buf', len, c2), w2\<lparr>frames := rest\<rparr>)) \<and> (\<forall>a < unat len. buf' a = msg a)
      else vca_com_recv_msg ev2 rcv from0 msg0 cap c2 w2 = Some Abort"
    if r: "com_type rcv = VCA_COM_ZMQ_SOCKET" "com rcv = Com_zmq z2" "unat (id_size z2) \<le> length (z_id z2)"
       "length (z_id z2) = 256" "o_malloc_ok (e_os ev2)" "unat len + 38 \<le> unat cap"
       "frames w2 = (int (unat (id_size z2)), take (unat (id_size z2)) (z_id z2)) # (int (length ?f), ?f) # rest"
    for ev2 rcv z2 cap and w2 :: com_world and rest from0 msg0 c2
  proof -
    let ?buf = "put_bytes (take (unat cap) ?f) (e_stack ev2)"
    have w: "(word_of_int (int (length ?f)) :: u64) = len + 38"
    proof -
      have "(word_of_int (int (length ?f)) :: u64) = of_nat (38 + unat len)" by (simp only: of_int_of_nat_eq length_map length_upt diff_zero)
      also have "\<dots> = len + 38" by simp
      finally show ?thesis .
    qed
    have sid: "same_id (e_stack ev2) z2 (take (unat (id_size z2)) (z_id z2))"
      using r(3,4) by (intro same_id_self) simp_all
    show ?thesis
    proof (cases "unat cap + 38 < 2 ^ 64")
      case True
      have "unat cap \<le> recv_room cap" by (rule recv_room_enough [OF True])
      then have "stream_recv (e_stack ev2) z2 (recv_room cap) (unat cap) 0 (e_stack ev2) (frames w2) =
          Some (Ret (int (length ?f), len + 38, ?buf, rest))"
        unfolding r(7) using sid w by (simp del: length_map)
      then have "recv_task ev2 rcv cap c2 w2 = Some (Ret ((0, len + 38, ?buf, c2), w2\<lparr>frames := rest\<rparr>))"
        using r(1,2) uint_lower [of len] by (simp add: recv_task_def com_consts)
      moreover have "?buf a = msg_buffer ?h msg (unat len) (e_stack ev) a" if "a < 38 + unat len" for a
        using that r(6) by (simp add: put_bytes_def del: upt_Suc)
      ultimately have "\<exists>buf'. vca_com_recv_msg ev2 rcv from0 msg0 cap c2 w2 =
             Some (Ret ((0, src ?h, buf', len, c2), w2\<lparr>frames := rest\<rparr>)) \<and> (\<forall>a < unat len. buf' a = msg a)"
        using recv_msg_eq [OF _ r(5,6) h] by blast
      then show ?thesis using True by (simp add: sent_hdr_def)
    next
      case False
      then have "recv_room cap < min (unat cap) (length ?f)" using recv_room_cases(3) [of cap] r(6) by simp
      then have "stream_recv (e_stack ev2) z2 (recv_room cap) (unat cap) 0 (e_stack ev2) (frames w2) = Some Abort"
        unfolding r(7) using sid by (simp del: length_map)
      then have "recv_task ev2 rcv cap c2 w2 = Some Abort" using r(1,2) by (simp add: recv_task_def com_consts)
      then show ?thesis using False r(5) by (simp add: vca_com_recv_msg_def andthen_def)
    qed
  qed
  ultimately show ?thesis by blast
qed


text \<open>
  A gateway's send to a card takes the card's socket number as the task id, whose tens digit
  is the socket and whose units digit is the channel: a message for socket 1 to 7 goes to socket
  0, on the channel of that number.
\<close>
theorem host_send_misroutes:
  assumes "com_type cm = VCA_COM_MEM_SHARING_HOST" and "com cm = Com_tasks" and "task_sys w = Some t"
    and "0 < unat (socket (self cm))" and "unat (socket (self cm)) < 8" and "len \<noteq> 0"
  shows "vca_com_send_hdrless_msg ev cm msg len c w =
    (case common_submit_task (e_peer ev) (e_stack_words ev) t len msg (int (unat (socket (self cm)))) 0 of
       None \<Rightarrow> None | Some Abort \<Rightarrow> Some Abort
     | Some (Ret (n, t')) \<Rightarrow> Some (Ret (0, w\<lparr>task_sys := Some t'\<rparr>)))"
proof -
  have "host_submit_pick t (int (unat (socket (self cm)))) = Some (int (unat (socket (self cm))), 0, t)"
    by (rule pick_small [OF assms(4,5)])
  with assms show ?thesis
    by (simp add: vca_com_send_hdrless_msg_def com_consts on_tasks_def host_submit_task_def andthen_def
        split: option.split outcome.split del: of_nat_unat)
qed

text \<open>
  On a stream socket a send that fails with -1 is not noticed: the result is compared with
  the size as an unsigned number, so the caller is told that the message was sent.
\<close>
theorem send_failure_hidden:
  assumes "com_type cm = VCA_COM_ZMQ_SOCKET" and "com cm = Com_zmq z" and "\<forall>n bs. e_send_rc ev n bs = - 1"
  shows "\<exists>w'. vca_com_send_hdrless_msg ev cm msg len c w = Some (Ret (0, w'))"
  using assms less_u_minus by (simp add: vca_com_send_hdrless_msg_def com_consts stream_send_def andthen_def)

section \<open>Witnesses\<close>

definition plain_env :: "(u8 list \<Rightarrow> int) \<Rightarrow> com_env" where
  "plain_env rc = \<lparr>e_os = plain_os, e_net = plain_net, e_view = (\<lambda>_. task_system empty_queue), e_peer = quiet,
     e_recv_peer = (\<lambda>_. quiet), e_stack_words = (\<lambda>_. 0), e_stack = (\<lambda>_. 0), e_zmq_socket = 1,
     e_connect = (\<lambda>_. 0), e_identity = (0, [1, 2, 3, 4, 5]), e_send_rc = (\<lambda>_. rc), e_garbage = []\<rparr>"

definition plain_com :: "int \<Rightarrow> com_obj \<Rightarrow> vca_com_t" where
  "plain_com ty obj = \<lparr>self = example_addr 5, com = obj, com_type = ty\<rparr>"

definition plain_zmqs :: vca_com_zmqs where
  "plain_zmqs = \<lparr>z_socket = 1, z_id = replicate 256 7, id_size = 5\<rparr>"

definition com_world0 :: com_world where
  "com_world0 = \<lparr>memory = (\<lambda>_. 0), allocs = 0, freed = [], commands = [], context_set = True, c_set = True,
     closed = False, endpoint = None, inbox = [], outbox = [], task_sys = Some (task_system empty_queue),
     task_objs = None, ctx_set = True, sent = [], frames = []\<rparr>"

lemma example_addr_ok: "addr_ok (example_addr n)"
  by (simp add: addr_ok_def example_addr_def)

theorem stream_roundtrip_witness:
  "\<exists>frame buf. vca_com_send_msg (plain_env (\<lambda>bs. int (length bs))) (plain_com 2 (Com_zmq plain_zmqs))
      (Some (example_addr 9)) (\<lambda>i. of_nat i) 3 0 com_world0 =
      Some (Ret (0, com_world0\<lparr>sent := [take 5 (replicate 256 7), frame]\<rparr>)) \<and>
    vca_com_recv_msg (plain_env (\<lambda>_. 0)) (plain_com 2 (Com_zmq plain_zmqs)) (example_addr 0) (\<lambda>_. 0) 41 7
      (com_world0\<lparr>frames := [(5, take 5 (replicate 256 7)), (int (length frame), frame)]\<rparr>) =
      Some (Ret ((0, example_addr 5, buf, 3, 7), com_world0)) \<and> buf 2 = 2"
proof -
  have "com_type (plain_com 2 (Com_zmq plain_zmqs)) = VCA_COM_ZMQ_SOCKET"
    "com (plain_com 2 (Com_zmq plain_zmqs)) = Com_zmq plain_zmqs" "addr_ok (self (plain_com 2 (Com_zmq plain_zmqs)))"
    "addr_ok (example_addr 9)" "unat (id_size plain_zmqs) \<le> length (z_id plain_zmqs)" "length (z_id plain_zmqs) = 256"
    "\<forall>n bs. e_send_rc (plain_env (\<lambda>bs. int (length bs))) n bs = int (length bs)"
    "o_malloc_ok (e_os (plain_env (\<lambda>bs. int (length bs))))" "unat (3 :: u64) + 38 < 2 ^ 31"
    by (simp_all add: plain_com_def com_consts example_addr_ok plain_zmqs_def plain_env_def plain_os_def)
  from stream_roundtrip [OF this, where msg = "\<lambda>i. of_nat i" and c = 0 and w = com_world0]
  obtain frame where s: "vca_com_send_msg (plain_env (\<lambda>bs. int (length bs))) (plain_com 2 (Com_zmq plain_zmqs))
      (Some (example_addr 9)) (\<lambda>i. of_nat i) 3 0 com_world0 =
      Some (Ret (0, com_world0\<lparr>sent := sent com_world0 @ [take (unat (id_size plain_zmqs)) (z_id plain_zmqs), frame]\<rparr>))"
    and r: "\<And>ev2 rcv z2 cap (w2 :: com_world) rest from0 msg0 c2.
       com_type rcv = VCA_COM_ZMQ_SOCKET \<Longrightarrow> com rcv = Com_zmq z2 \<Longrightarrow> unat (id_size z2) \<le> length (z_id z2) \<Longrightarrow>
       length (z_id z2) = 256 \<Longrightarrow> o_malloc_ok (e_os ev2) \<Longrightarrow> unat (3 :: u64) + 38 \<le> unat cap \<Longrightarrow>
       frames w2 = (int (unat (id_size z2)), take (unat (id_size z2)) (z_id z2)) # (int (length frame), frame) # rest \<Longrightarrow>
       unat cap + 38 < 2 ^ 64 \<Longrightarrow>
       \<exists>buf'. vca_com_recv_msg ev2 rcv from0 msg0 cap c2 w2 =
           Some (Ret ((0, self (plain_com 2 (Com_zmq plain_zmqs)), buf', 3, c2), w2\<lparr>frames := rest\<rparr>)) \<and> (\<forall>a < unat (3 :: u64). buf' a = of_nat a)"
    by metis
  let ?w = "com_world0\<lparr>frames := [(5, take 5 (replicate 256 7)), (int (length frame), frame)]\<rparr>"
  have "o_malloc_ok (e_os (plain_env (\<lambda>_. 0)))" "unat (3 :: u64) + 38 \<le> unat (41 :: u64)" "unat (41 :: u64) + 38 < 2 ^ 64"
    "frames ?w = (int (unat (id_size plain_zmqs)), take (unat (id_size plain_zmqs)) (z_id plain_zmqs)) # (int (length frame), frame) # []"
    by (simp_all add: plain_env_def plain_os_def plain_zmqs_def)
  with r [of "plain_com 2 (Com_zmq plain_zmqs)" plain_zmqs "plain_env (\<lambda>_. 0)" 41 ?w "[]" "example_addr 0" "\<lambda>_. 0" 7]
  obtain buf where "vca_com_recv_msg (plain_env (\<lambda>_. 0)) (plain_com 2 (Com_zmq plain_zmqs)) (example_addr 0) (\<lambda>_. 0) 41 7 ?w =
      Some (Ret ((0, self (plain_com 2 (Com_zmq plain_zmqs)), buf, 3, 7), ?w\<lparr>frames := []\<rparr>))" "buf 2 = 2"
    by (auto simp: plain_com_def com_consts plain_zmqs_def)
  moreover have "self (plain_com 2 (Com_zmq plain_zmqs)) = example_addr 5" "?w\<lparr>frames := []\<rparr> = com_world0"
    by (simp_all add: plain_com_def com_world0_def)
  ultimately show ?thesis using s by (intro exI [of _ frame] exI [of _ buf]) (simp add: com_world0_def plain_zmqs_def)
qed

lemma card_sends:
  "com_type (plain_com 0 Com_tasks) = VCA_COM_MEM_SHARING" "com (plain_com 0 Com_tasks) = Com_tasks"
  "addr_ok (self (plain_com 0 Com_tasks))" "addr_ok (example_addr 9)"
  "task_sys com_world0 = Some (task_system empty_queue)" "tx_q_objs (task_system empty_queue) 0 = Some empty_queue"
  "chan_ok empty_queue 0" "chan_items empty_queue 0 = []" "sint (0 :: u32) = int 0"
  "e_peer (plain_env (\<lambda>_. 0)) = quiet" "o_malloc_ok (e_os (plain_env (\<lambda>_. 0)))"
  by (simp_all add: plain_com_def com_consts example_addr_ok com_world0_def plain_env_def plain_os_def empty_queue_ok task_system_def)

lemma host_receives:
  "com_type (plain_com 1 Com_tasks) = VCA_COM_MEM_SHARING_HOST" "com (plain_com 1 Com_tasks) = Com_tasks"
  "task_sys (com_world0\<lparr>task_sys := Some (task_system q)\<rparr>) = Some (task_system q)" "rx_q_objs (task_system q) 0 = Some q"
  "recv_picks (Suc (length [])) (task_system q) = [] @ [(int 0, 0)]" "list_all (idle_channel (rx_q_objs (task_system q))) []"
  "e_recv_peer (plain_env (\<lambda>_. 0)) = (\<lambda>_. quiet)"
  by (simp_all add: plain_com_def com_consts plain_env_def)
    (simp add: task_system_def host_recv_pick_def MAX_CHANNELS_def VCA_SOCKETS_def)


theorem host_send_misroutes_witness:
  "\<exists>w'. vca_com_send_hdrless_msg (plain_env (\<lambda>_. 0)) (plain_com 1 Com_tasks) (\<lambda>i. of_nat i) 3 0 com_world0 =
      Some (Ret (0, w')) \<and> common_submit_task quiet (\<lambda>_. 0) (task_system empty_queue) 3 (\<lambda>i. of_nat i) 5 0 \<noteq> None"
proof -
  have "chan_used empty_queue 5 = 0" using empty_queue_ok [of 5] length_chan_items [of empty_queue 5] by simp
  then obtain t' where s: "common_submit_task quiet (\<lambda>_. 0) (task_system empty_queue) 3 (\<lambda>i. of_nat i) 5 0 = Some (Ret (3, t'))"
    using submit_ok [of "task_system empty_queue" 0 empty_queue 5 3 "\<lambda>_. 0" "\<lambda>i. of_nat i"]
    by (auto simp: empty_queue_ok task_system_def bursts_pos)
  have "com_type (plain_com 1 Com_tasks) = VCA_COM_MEM_SHARING_HOST" "com (plain_com 1 Com_tasks) = Com_tasks"
    "task_sys com_world0 = Some (task_system empty_queue)" "0 < unat (socket (self (plain_com 1 Com_tasks)))"
    "unat (socket (self (plain_com 1 Com_tasks))) < 8" "(3 :: u64) \<noteq> 0"
    by (simp_all add: plain_com_def com_consts com_world0_def example_addr_def)
  from host_send_misroutes [OF this, where ev = "plain_env (\<lambda>_. 0)" and msg = "\<lambda>i. of_nat i" and c = 0] s
  show ?thesis by (simp add: plain_env_def plain_com_def example_addr_def)
qed

theorem send_failure_hidden_witness:
  "\<exists>w'. vca_com_send_hdrless_msg (plain_env (\<lambda>_. - 1)) (plain_com 2 (Com_zmq plain_zmqs)) (\<lambda>_. 0) 3 0 com_world0 =
     Some (Ret (0, w'))"
  using send_failure_hidden [of "plain_com 2 (Com_zmq plain_zmqs)" plain_zmqs "plain_env (\<lambda>_. - 1)"]
  by (simp add: plain_com_def com_consts plain_env_def)

end
