(* ===== verification/Gateway.thy ===== *)
theory Gateway
  imports Com_Lib
begin

text \<open>
  The host gateway (com-library/host-gateway): delivery of messages to connected nodes and
  hosts, failure notices, connections accepted from other hosts over one stream socket, and the
  scan over the cards' shared-memory channels.
\<close>

section \<open>State\<close>

text \<open>
  The connection store is a third-party cuckoo table: its operations are a parameter. What the
  properties need of it is \<open>store_laws\<close>.
\<close>

record 'st store_ops =
  st_find :: "'st \<Rightarrow> vca_com_addr \<Rightarrow> vca_com_t option"
  st_insert :: "vca_com_addr \<Rightarrow> vca_com_t \<Rightarrow> 'st \<Rightarrow> 'st"
  st_erase :: "vca_com_addr \<Rightarrow> 'st \<Rightarrow> 'st"

definition store_laws :: "'st store_ops \<Rightarrow> bool" where
  "store_laws so \<longleftrightarrow>
     (\<forall>s a b c. st_find so s a = None \<longrightarrow>
        st_find so (st_insert so a c s) b = (if b = a then Some c else st_find so s b)) \<and>
     (\<forall>s a b. st_find so (st_erase so a s) b = (if b = a then None else st_find so s b))"

record vca_com_hng_t =
  num_sockets :: nat
  ip :: string
  port :: string
  hng_self :: vca_com_addr
  active_sockets_list :: "int list"
  num_active :: nat

record vca_com_hhg_t =
  zmq_socket :: nat
  hhg_self :: vca_com_addr
  hhg_alloc :: bool

record 'st gw_world = com_world +
  store :: 'st
  msg_buf :: "u8 mem"
  node_buf :: "u8 mem"
  hng :: vca_com_hng_t
  hhg :: vca_com_hhg_t
  connects :: "string list"

definition MAX_MSG_SIZE :: nat where "MAX_MSG_SIZE = 1048576"

section \<open>Delivery\<close>

text \<open>The comparison of two arrays compares their addresses; \<open>p\<close> and \<open>q\<close> are the structures' ones.\<close>

definition vca_com_hng_dst_is_node_on_same_host ::
  "nat \<times> vca_com_addr \<Rightarrow> nat \<times> vca_com_addr \<Rightarrow> bool" where
  "vca_com_hng_dst_is_node_on_same_host d s =
     (case (d, s) of ((p, dv), (q, sv)) \<Rightarrow>
        p = q \<and> gateway_port dv = gateway_port sv \<and> p + 6 = q + 6 \<and> host_port dv = host_port sv)"

text \<open>The buffer from an offset on, and a header stored there.\<close>

definition at_offset :: "u8 mem \<Rightarrow> nat \<Rightarrow> u8 mem" where
  "at_offset buf off = (\<lambda>a. buf (off + a))"

definition hdr_at :: "u8 mem \<Rightarrow> nat \<Rightarrow> vca_com_msg_hdr" where
  "hdr_at buf off = vca_com_msg_get_hdr (map (at_offset buf off) [0..<38])"

definition store_hdr :: "vca_com_msg_hdr \<Rightarrow> u8 mem \<Rightarrow> nat \<Rightarrow> u8 mem" where
  "store_hdr h buf off = (\<lambda>a. if off \<le> a \<and> a < off + 38 then hdr_bytes h ! (a - off) else buf a)"

text \<open>The result is the send's, and the buffer, in which the message was turned round.\<close>

definition vca_com_gate_deliver_failure ::
  "com_env \<Rightarrow> vca_com_t \<Rightarrow> u8 mem \<Rightarrow> nat \<Rightarrow> u64 \<Rightarrow> ('z com_world_scheme, int \<times> u8 mem) proc" where
  "vca_com_gate_deliver_failure ev cm buf off len =
     (let h = hdr_at buf off;
          buf' = store_hdr (h\<lparr>msg_type := VCA_COM_MSG_DELIVERY_FAILED, src := dst h, dst := src h\<rparr>) buf off
      in andthen (vca_com_send_hdrless_msg ev cm (at_offset buf' off) len (- 1)) (\<lambda>rc. give (rc, buf')))"

section \<open>Connections to other hosts\<close>

definition create_zmq_vca_com :: "u8 list \<Rightarrow> nat \<Rightarrow> vca_com_addr \<Rightarrow> nat \<Rightarrow> vca_com_t" where
  "create_zmq_vca_com ident idn own sock =
     (let n = (if idn > VCA_COM_ZMQ_ID_SIZE then VCA_COM_ZMQ_ID_SIZE else idn)
      in \<lparr>self = own,
          com = Com_zmq \<lparr>z_socket = sock, z_id = take n ident @ replicate (256 - n) 0, id_size = of_nat n\<rparr>,
          com_type = VCA_COM_ZMQ_SOCKET\<rparr>)"

text \<open>The identity given has all 256 bytes of its array, of which \<open>idn\<close> were received.\<close>

definition store_id_of_client ::
  "'st store_ops \<Rightarrow> u8 list \<Rightarrow> nat \<Rightarrow> nat \<Rightarrow> ('st gw_world, unit) proc" where
  "store_id_of_client so ident idn sock =
     andthen (asks (\<lambda>w. (src (hdr_at (msg_buf w) 0), store w))) (\<lambda>(a, st).
     let cm = create_zmq_vca_com ident idn a sock
     in case st_find so st a of
          None \<Rightarrow> modify (\<lambda>w. w\<lparr>store := st_insert so (self cm) cm st\<rparr>)
        | Some old \<Rightarrow>
            (case com old of
               Com_zmq z \<Rightarrow>
                 (if z_id z \<noteq> ident
                  then modify (\<lambda>w. w\<lparr>store := st_insert so (self cm) cm (st_erase so a st)\<rparr>)
                  else give ())
             | _ \<Rightarrow> die))"

text \<open>Decimal printing, as \<open>%hhu\<close> and \<open>%hu\<close> do it.\<close>

fun dec :: "nat \<Rightarrow> string" where
  "dec n = (if n < 10 then [char_of (48 + n)] else dec (n div 10) @ [char_of (48 + n mod 10)])"

declare dec.simps [simp del]

text \<open>The 256-byte array a string was printed to.\<close>

definition c_array :: "com_env \<Rightarrow> string \<Rightarrow> u8 list" where
  "c_array ev s = take 256 (map of_char s @ [0] @ map (e_stack ev) [0..<256])"

definition addr_endpoint :: "vca_com_addr \<Rightarrow> string" where
  "addr_endpoint a = ''tcp://'' @ dec (unat (host a ! 0)) @ ''.'' @ dec (unat (host a ! 1)) @ ''.'' @
     dec (unat (host a ! 2)) @ ''.'' @ dec (unat (host a ! 3)) @ '':'' @ dec (unat (host_port a))"

text \<open>
  \<open>*com\<close> is the caller's connection pointer, which has to be set already; the size handed to
  \<open>zmq_getsockopt\<close> is 0.
\<close>

definition vca_com_hhg_create_com ::
  "com_env \<Rightarrow> 'st store_ops \<Rightarrow> vca_com_addr \<Rightarrow> vca_com_t option \<Rightarrow> ('st gw_world, int) proc" where
  "vca_com_hhg_create_com ev so dest cm =
     (if cm = None then give (- 1)
      else
        andthen (modify (\<lambda>w. w\<lparr>connects := connects w @ [addr_endpoint dest]\<rparr>)) (\<lambda>_.
        if e_connect ev (addr_endpoint dest) \<noteq> 0 then give (- 1)
        else
          andthen (asks (\<lambda>w. zmq_socket (hhg w))) (\<lambda>sock.
          andthen (store_id_of_client so (c_array ev (addr_endpoint dest)) 0 sock) (\<lambda>_. give 0))))"

text \<open>
  Delivery: \<open>own\<close> is the gateway's address structure, at \<open>own_ptr\<close>; the destination is in the
  buffer, at \<open>dst_ptr\<close>. \<open>create_com\<close> never sets the connection pointer it is given, so after it
  the pointer is still NULL.
\<close>

definition vca_com_gate_deliver_msg ::
  "com_env \<Rightarrow> 'st store_ops \<Rightarrow> u8 mem \<Rightarrow> nat \<Rightarrow> u64 \<Rightarrow> nat \<Rightarrow> nat \<times> vca_com_addr
     \<Rightarrow> ('st gw_world, int \<times> u8 mem) proc" where
  "vca_com_gate_deliver_msg ev so buf off len dst_ptr own =
     (let d = dst (hdr_at buf off) in
      andthen (asks (\<lambda>w. st_find so (store w) d)) (\<lambda>found.
      case found of
        Some cm \<Rightarrow>
          andthen (vca_com_send_hdrless_msg ev cm (at_offset buf off) len (- 1)) (\<lambda>rc.
          if rc = 0 then give (0, buf) else vca_com_gate_deliver_failure ev cm buf off len)
      | None \<Rightarrow>
          (if \<not> vca_com_hng_dst_is_node_on_same_host (dst_ptr, d) own
           then andthen (vca_com_hhg_create_com ev so d None) (\<lambda>_. give (- 1, buf))
           else give (- 1, buf))))"

section \<open>The host-to-host side\<close>

definition fixed_addr :: "string \<Rightarrow> string \<Rightarrow> vca_com_addr \<Rightarrow> vca_com_addr" where
  "fixed_addr hip hport a =
     (case vca_com_init_addr_from_string (Some a) (Some ''0.0.0.0'') (Some ''0'') (Some hip) (Some hport) (Some ''0'') of
        (_, Some a') \<Rightarrow> a' | (_, None) \<Rightarrow> a)"

definition vca_com_hhg_init :: "com_env \<Rightarrow> string \<Rightarrow> string \<Rightarrow> ('st gw_world, int) proc" where
  "vca_com_hhg_init ev hip hport =
     andthen (modify (\<lambda>w. w\<lparr>hhg := (hhg w)\<lparr>zmq_socket := e_zmq_socket ev,
        hhg_self := fixed_addr hip hport (hhg_self (hhg w))\<rparr>\<rparr>)) (\<lambda>_.
     let rc = (if min (length hip) 256 + min (length hport) 256 + 8 < 255
               then n_bind (e_net ev) (''tcp://*:'' @ hport) else - 1)
     in if min (length hip) 256 + min (length hport) 256 + 8 < 255 \<and> rc = - 1 then give rc
        else andthen (modify (\<lambda>w. w\<lparr>hhg := (hhg w)\<lparr>hhg_alloc := o_malloc_ok (e_os ev)\<rparr>\<rparr>)) (\<lambda>_. give rc))"

definition vca_com_hhg_deinit :: "('st gw_world, int) proc" where
  "vca_com_hhg_deinit =
     andthen (modify (\<lambda>w. w\<lparr>hhg := (hhg w)\<lparr>hhg_alloc := False\<rparr>\<rparr>)) (\<lambda>_. give 0)"

text \<open>
  Stepping over empty messages at the start of what was received; comparisons with the received
  size are unsigned. \<open>None\<close> is a read beyond the buffer.
\<close>

function skip_empty :: "u8 mem \<Rightarrow> int \<Rightarrow> nat \<Rightarrow> nat option" where
  "skip_empty buf rc i =
     (if MAX_MSG_SIZE < 38 * i + 38 then None
      else if hdr_length (hdr_at buf (38 * i)) = 0 \<and> of_nat (38 * i) < (word_of_int rc :: u64)
      then skip_empty buf rc (i + 1) else Some i)"
  by pat_completeness auto
termination
  by (relation "measure (\<lambda>(buf, rc, i). MAX_MSG_SIZE - i)") (auto simp: MAX_MSG_SIZE_def)

declare skip_empty.simps [simp del]

text \<open>What is done with one received message; \<open>rc\<close> is the result of the receive.\<close>

definition hhg_handle ::
  "com_env \<Rightarrow> 'st store_ops \<Rightarrow> nat \<Rightarrow> nat \<Rightarrow> int \<Rightarrow> u8 list \<Rightarrow> nat \<Rightarrow> ('st gw_world, unit) proc" where
  "hhg_handle ev so dst_ptr own_ptr rc ident idn =
     (if less_u rc 38 then give ()
      else
        andthen (asks (\<lambda>w. zmq_socket (hhg w))) (\<lambda>sock.
        andthen (store_id_of_client so ident idn sock) (\<lambda>_.
        if (38 :: u64) < word_of_int rc then
          andthen (asks (\<lambda>w. (msg_buf w, hhg_self (hhg w)))) (\<lambda>(buf, own).
          case skip_empty buf rc 0 of
            None \<Rightarrow> die
          | Some i \<Rightarrow>
              (if of_nat (38 * i) < (word_of_int rc :: u64) then
                 andthen (vca_com_gate_deliver_msg ev so buf (38 * i) (word_of_int rc + of_nat (38 * i)) dst_ptr
                    (own_ptr, own)) (\<lambda>(_, buf'). modify (\<lambda>w. w\<lparr>msg_buf := buf'\<rparr>))
               else give ()))
        else give ())))"

text \<open>
  The loop over what is there to receive: an identity, then a message. An empty input is a
  receive that returns -1 at once (\<open>ZMQ_DONTWAIT\<close>).
\<close>

definition id_array :: "com_env \<Rightarrow> u8 list \<Rightarrow> u8 list" where
  "id_array ev idb = take 256 (take 256 idb @ map (e_stack ev) [0..<256])"

fun accept_loop ::
  "com_env \<Rightarrow> 'st store_ops \<Rightarrow> nat \<Rightarrow> nat \<Rightarrow> (int \<times> u8 list) list \<Rightarrow> ('st gw_world, (int \<times> u8 list) list) proc" where
  "accept_loop ev so dp op [] = give []"
| "accept_loop ev so dp op [(rc, idb)] =
     (if rc > 0 then andthen (hhg_handle ev so dp op (- 1) (id_array ev idb) (nat rc)) (\<lambda>_. give [])
      else give [])"
| "accept_loop ev so dp op ((rc, idb) # (rc2, bs) # fs) =
     (if rc > 0 then
        andthen (modify (\<lambda>w. w\<lparr>msg_buf := put_bytes (take MAX_MSG_SIZE bs) (msg_buf w)\<rparr>)) (\<lambda>_.
        andthen (hhg_handle ev so dp op rc2 (id_array ev idb) (nat rc)) (\<lambda>_.
        if rc2 = - 1 then give fs else accept_loop ev so dp op fs))
      else if rc = - 1 then give ((rc2, bs) # fs)
      else accept_loop ev so dp op ((rc2, bs) # fs))"

definition vca_com_hhg_accept_and_deliver ::
  "com_env \<Rightarrow> 'st store_ops \<Rightarrow> nat \<Rightarrow> nat \<Rightarrow> ('st gw_world, int) proc" where
  "vca_com_hhg_accept_and_deliver ev so dst_ptr own_ptr =
     andthen (asks frames) (\<lambda>fs.
     andthen (accept_loop ev so dst_ptr own_ptr fs) (\<lambda>fs'.
     andthen (modify (\<lambda>w. w\<lparr>frames := fs'\<rparr>)) (\<lambda>_. give 0)))"

section \<open>The host-to-node side\<close>

text \<open>One poll of a channel, with the delivery of what was there.\<close>

definition spin_one ::
  "com_env \<Rightarrow> 'st store_ops \<Rightarrow> nat \<Rightarrow> nat \<Rightarrow> int \<times> int \<Rightarrow> ('st gw_world, unit) proc" where
  "spin_one ev so dst_ptr own_ptr sc =
     andthen (asks node_buf) (\<lambda>buf0.
     andthen (on_tasks (\<lambda>t. case t of None \<Rightarrow> Some Abort
        | Some opaque \<Rightarrow>
            (case common_recv_task (e_peer ev) (e_stack_words ev) MAX_MSG_SIZE opaque 0 buf0 (snd sc) (fst sc) of
               None \<Rightarrow> None | Some Abort \<Rightarrow> Some Abort
             | Some (Ret (rc, len, buf, t')) \<Rightarrow> Some (Ret ((rc, len, buf), t'))))) (\<lambda>(rc, len, buf).
     if rc = 0 then
       andthen (asks (\<lambda>w. hng_self (hng w))) (\<lambda>own.
       let h = hdr_at buf 0;
           buf' = store_hdr (h\<lparr>src := (src h)\<lparr>host := host own, host_port := host_port own\<rparr>\<rparr>) buf 0
       in andthen (vca_com_gate_deliver_msg ev so buf' 0 len dst_ptr (own_ptr, own)) (\<lambda>(_, buf'').
          modify (\<lambda>w. w\<lparr>node_buf := buf''\<rparr>)))
     else modify (\<lambda>w. w\<lparr>node_buf := buf\<rparr>)))"

fun spin_all ::
  "com_env \<Rightarrow> 'st store_ops \<Rightarrow> nat \<Rightarrow> nat \<Rightarrow> (int \<times> int) list \<Rightarrow> ('st gw_world, unit) proc" where
  "spin_all ev so dp op [] = give ()"
| "spin_all ev so dp op (sc # scs) = andthen (spin_one ev so dp op sc) (\<lambda>_. spin_all ev so dp op scs)"

definition vca_com_hng_spin_and_deliver ::
  "com_env \<Rightarrow> 'st store_ops \<Rightarrow> nat \<Rightarrow> nat \<Rightarrow> ('st gw_world, int) proc" where
  "vca_com_hng_spin_and_deliver ev so dst_ptr own_ptr =
     andthen (asks (\<lambda>w. (task_sys w, hng w))) (\<lambda>(t, h).
     if t = None then give (- 1)
     else
       andthen (require (o_malloc_ok (e_os ev))) (\<lambda>_.
       andthen (spin_all ev so dst_ptr own_ptr
          (concat (map (\<lambda>s. map (\<lambda>c. (active_sockets_list h ! s, int c)) [0..<8]) [0..<num_active h]))) (\<lambda>_.
       give 0)))"

text \<open>Accepting the nodes one after the other.\<close>

definition accept_node :: "com_env \<Rightarrow> 'st store_ops \<Rightarrow> ('st gw_world, unit) proc" where
  "accept_node ev so =
     andthen (asks (\<lambda>w. (task_objs w, hng w))) (\<lambda>(t, h).
     andthen (init_host_task_system (e_os ev) (e_net ev) t (Some ''*'') (Some (port h)) (- 2)) (\<lambda>(t', s).
     andthen (adopt ev t') (\<lambda>_.
     andthen (require (o_malloc_ok (e_os ev))) (\<lambda>_.
     let addr = (hng_self h)\<lparr>socket := word_of_int s\<rparr>;
         cm = \<lparr>self = addr, com = Com_tasks, com_type = VCA_COM_MEM_SHARING_HOST\<rparr>
     in andthen (modify (\<lambda>w. w\<lparr>store := st_insert so addr cm (store w)\<rparr>)) (\<lambda>_.
        andthen (require (num_active h < length (active_sockets_list h))) (\<lambda>_.
        modify (\<lambda>w. w\<lparr>hng := (hng w)\<lparr>active_sockets_list := (active_sockets_list h)[num_active h := s],
           num_active := num_active h + 1\<rparr>\<rparr>)))))))"

fun accept_nodes :: "nat \<Rightarrow> com_env \<Rightarrow> 'st store_ops \<Rightarrow> ('st gw_world, int) proc" where
  "accept_nodes 0 ev so = give 0"
| "accept_nodes (Suc n) ev so = andthen (accept_node ev so) (\<lambda>_. accept_nodes n ev so)"

definition vca_com_hng_accept_new_nodes :: "com_env \<Rightarrow> 'st store_ops \<Rightarrow> ('st gw_world, int) proc" where
  "vca_com_hng_accept_new_nodes ev so =
     andthen (asks (\<lambda>w. num_sockets (hng w))) (\<lambda>n. accept_nodes n ev so)"

definition vca_com_hng_set_global_host_port :: "string option \<Rightarrow> vca_com_hng_t \<Rightarrow> vca_com_hng_t" where
  "vca_com_hng_set_global_host_port p h =
     (case p of None \<Rightarrow> h
      | Some s \<Rightarrow> h\<lparr>hng_self := (hng_self h)\<lparr>host_port := ucast (strtoul0 s)\<rparr>\<rparr>)"

definition vca_com_hng_init :: "nat \<Rightarrow> string \<Rightarrow> string \<Rightarrow> ('st gw_world, int) proc" where
  "vca_com_hng_init n hip hport =
     (if n < 1 then give (- 1)
      else
        andthen (modify (\<lambda>w. w\<lparr>task_sys := None, task_objs := None,
           hng := \<lparr>num_sockets = n, ip = hip, port = hport, hng_self = fixed_addr hip hport (hng_self (hng w)),
                   active_sockets_list = replicate n 0, num_active = 0\<rparr>\<rparr>)) (\<lambda>_. give 0))"

definition vca_com_hng_deinit :: "('st gw_world, int) proc" where
  "vca_com_hng_deinit =
     andthen (asks task_objs) (\<lambda>t. case t of None \<Rightarrow> die
        | Some opaque \<Rightarrow> andthen (deinit_vca_task_system opaque) (\<lambda>_. give 0))"

section \<open>Lemmas\<close>

lemma hdr_at_ok: "hdr_ok (hdr_at buf off)"
  by (simp add: hdr_at_def vca_com_msg_get_hdr_def hdr_of_bytes_def hdr_ok_def addr_ok_def addr_of_bytes_def)

lemma hdr_at_store:
  assumes "hdr_ok h"
  shows "hdr_at (store_hdr h buf off) off = h"
proof -
  have "map (at_offset (store_hdr h buf off) off) [0..<38] = hdr_bytes h"
    using assms by (intro nth_equalityI) (simp_all add: at_offset_def store_hdr_def)
  then show ?thesis
    unfolding hdr_at_def vca_com_msg_get_hdr_def using hdr_of_hdr_bytes [OF assms, of "[]"] by simp
qed

lemma store_id_buf:
  "store_id_of_client so ident idn sock w = Some (Ret ((), w')) \<Longrightarrow> msg_buf w' = msg_buf w \<and> hhg w' = hhg w"
  by (auto simp: store_id_of_client_def andthen_eq_Ret Let_def split: option.splits com_obj.splits if_splits)

lemma skip_empty_count:
  assumes "38 * k + 38 \<le> MAX_MSG_SIZE" "38 * k < n" "n < 2 ^ 64"
    and "hdr_length (hdr_at buf (38 * k)) \<noteq> 0" "\<forall>i < k. hdr_length (hdr_at buf (38 * i)) = 0"
  shows "j \<le> k \<Longrightarrow> skip_empty buf (int n) j = Some k"
proof (induction "k - j" arbitrary: j)
  case 0
  then have "j = k" by simp
  with assms(1,4) show ?case by (subst skip_empty.simps) simp
next
  case (Suc d)
  then have j: "j < k" by simp
  have "(of_nat (38 * j) :: u64) < of_nat n"
    using j assms(2,3) by (simp add: word_less_nat_alt unat_of_nat take_bit_nat_eq_self del: of_nat_mult)
  then have "skip_empty buf (int n) j = skip_empty buf (int n) (j + 1)"
    using j assms(1,5) by (subst skip_empty.simps) simp
  with Suc show ?case by simp
qed

section \<open>Properties\<close>

text \<open>
  A message for an address that is not in the connection store is dropped: the attempt to
  connect gives up at once, because the connection pointer it should fill has to be set already,
  so the gateway never opens a connection to another host, and the sender gets no notice.
\<close>
theorem deliver_unknown:
  assumes "st_find so (store w) (dst (hdr_at buf off)) = None"
  shows "vca_com_gate_deliver_msg ev so buf off len p own w = Some (Ret ((- 1, buf), w))"
  using assms by (simp add: Let_def vca_com_gate_deliver_msg_def vca_com_hhg_create_com_def andthen_def)

text \<open>A send on a stream connection: the identity, and the message if the identity went out.\<close>

lemma send_stream:
  assumes "com_type cm = VCA_COM_ZMQ_SOCKET" and "com cm = Com_zmq z" and "ident = take (unat (id_size z)) (z_id z)"
    and "bs = bytes_of b len" and "r1 = e_send_rc ev (length (sent w)) ident" and "r2 = e_send_rc ev (Suc (length (sent w))) bs"
  shows "vca_com_send_hdrless_msg ev cm b len c w =
    Some (Ret (if less_u r1 (id_size z) then r1 else if less_u r2 len then r2 else 0,
      w\<lparr>sent := sent w @ (if less_u r1 (id_size z) then [ident] else [ident, bs])\<rparr>))"
  using assms by (simp add: vca_com_send_hdrless_msg_def com_consts stream_send_def andthen_def)

lemma send_stream_frames:
  assumes "com_type cm = VCA_COM_ZMQ_SOCKET" and "com cm = Com_zmq z" and "ident = take (unat (id_size z)) (z_id z)"
  shows "\<exists>rc gs. vca_com_send_hdrless_msg ev cm b len c w = Some (Ret (rc, w\<lparr>sent := sent w @ gs\<rparr>)) \<and>
    (gs = [ident] \<or> gs = [ident, bytes_of b len])"
  unfolding send_stream [OF assms refl refl refl] by auto

text \<open>The message turned round, as the failure notice is made.\<close>

definition turned :: "vca_com_msg_hdr \<Rightarrow> vca_com_msg_hdr" where
  "turned h = h\<lparr>msg_type := VCA_COM_MSG_DELIVERY_FAILED, src := dst h, dst := src h\<rparr>"

lemma hdr_at_turned: "hdr_at (store_hdr (turned (hdr_at buf off)) buf off) off = turned (hdr_at buf off)"
  using hdr_at_ok [of buf off] by (intro hdr_at_store) (simp add: hdr_ok_def turned_def)


text \<open>
  After a message with content from a host, the connection store leads from the host's address
  to a stream connection with the identity the message came under, whatever was stored before,
  and no other entry has changed.
\<close>
theorem client_registered:
  assumes "store_laws so" and "a = src (hdr_at (msg_buf w) 0)" and "length ident = 256" and "n \<le> 256"
    and "\<forall>old. st_find so (store w) a = Some old \<longrightarrow> (\<exists>z. com old = Com_zmq z)"
  shows "\<exists>w'. store_id_of_client so ident n sock w = Some (Ret ((), w')) \<and>
    (\<exists>cm z. st_find so (store w') a = Some cm \<and> com cm = Com_zmq z \<and> take n (z_id z) = take n ident) \<and>
    (\<forall>b. b \<noteq> a \<longrightarrow> st_find so (store w') b = st_find so (store w) b)"
proof -
  let ?cm = "create_zmq_vca_com ident n a sock"
  have self: "self ?cm = a" by (simp add: create_zmq_vca_com_def)
  have cm: "\<exists>z. com ?cm = Com_zmq z \<and> take n (z_id z) = take n ident"
    using assms(3,4) by (simp add: create_zmq_vca_com_def com_consts)
  have fresh: "st_find so (st_insert so a c s) b = (if b = a then Some c else st_find so s b)"
    if "st_find so s a = None" for s b c
    using assms(1) that by (simp add: store_laws_def)
  have erase: "st_find so (st_erase so a s) b = (if b = a then None else st_find so s b)" for s b
    using assms(1) by (simp add: store_laws_def)
  show ?thesis
  proof (cases "st_find so (store w) a")
    case None
    then have "store_id_of_client so ident n sock w = Some (Ret ((), w\<lparr>store := st_insert so a ?cm (store w)\<rparr>))"
      by (simp add: store_id_of_client_def andthen_def assms(2) [symmetric] self Let_def)
    then show ?thesis using cm fresh [OF None] by auto
  next
    case (Some old)
    then obtain z where z: "com old = Com_zmq z" using assms(5) by blast
    show ?thesis
    proof (cases "z_id z = ident")
      case True
      then have "store_id_of_client so ident n sock w = Some (Ret ((), w))"
        using Some z by (simp add: store_id_of_client_def andthen_def assms(2) [symmetric] Let_def)
      with True Some z show ?thesis by auto
    next
      case False
      let ?st = "st_erase so a (store w)"
      have none: "st_find so ?st a = None" by (simp add: erase)
      have "store_id_of_client so ident n sock w = Some (Ret ((), w\<lparr>store := st_insert so a ?cm ?st\<rparr>))"
        using Some z False by (simp add: store_id_of_client_def andthen_def assms(2) [symmetric] self Let_def)
      then show ?thesis using cm fresh [OF none] erase by auto
    qed
  qed
qed

text \<open>
  Several messages received at once: the gateway steps over the \<open>k\<close> empty ones at the start,
  but adds their size to the length instead of subtracting it: it delivers \<open>n + 38 * k\<close> bytes from
  offset \<open>38 * k\<close> on, though only \<open>n - 38 * k\<close> of them were received.
\<close>
theorem bulk_overread:
  assumes "38 < n" and "n < 2 ^ 31" and "38 * k < n" and "38 * k + 38 \<le> MAX_MSG_SIZE"
    and "\<forall>i < k. hdr_length (hdr_at (msg_buf w) (38 * i)) = 0" and "hdr_length (hdr_at (msg_buf w) (38 * k)) \<noteq> 0"
    and "store_id_of_client so ident idn (zmq_socket (hhg w)) w = Some (Ret ((), w1))"
    and "vca_com_gate_deliver_msg ev so (msg_buf w) (38 * k) (of_nat (n + 38 * k)) p (q, hhg_self (hhg w)) w1 =
      Some (Ret ((rc, buf'), w2))"
  shows "hhg_handle ev so p q (int n) ident idn w = Some (Ret ((), w2\<lparr>msg_buf := buf'\<rparr>))"
proof -
  have nl: "\<not> less_u (int n) 38" using assms(1,2) by (simp add: less_u_nat)
  have lt: "(38 :: u64) < word_of_int (int n)"
    using assms(1,2) by (simp add: word_less_nat_alt unat_of_nat take_bit_nat_eq_self)
  have sk: "skip_empty (msg_buf w) (int n) 0 = Some k"
    using assms(2-6) by (intro skip_empty_count) simp_all
  have lk: "(of_nat (38 * k) :: u64) < word_of_int (int n)"
    using assms(2,3) by (simp add: word_less_nat_alt unat_of_nat take_bit_nat_eq_self del: of_nat_mult)
  have len: "word_of_int (int n) + of_nat (38 * k) = (of_nat (n + 38 * k) :: u64)" by simp
  from store_id_buf [OF assms(7)] have w1: "msg_buf w1 = msg_buf w" "hhg w1 = hhg w" by auto
  show ?thesis
    using nl lt sk lk assms(7,8) w1 unfolding hhg_handle_def len [symmetric]
    by (simp add: andthen_def del: of_nat_mult of_nat_add of_int_of_nat_eq)
qed

section \<open>Witnesses\<close>

type_synonym map_store = "vca_com_addr \<Rightarrow> vca_com_t option"

text \<open>A table that refuses to insert a key twice.\<close>

definition map_ops :: "map_store store_ops" where
  "map_ops = \<lparr>st_find = (\<lambda>s a. s a), st_insert = (\<lambda>a c s. if s a = None then s(a \<mapsto> c) else s),
     st_erase = (\<lambda>a s. s(a := None))\<rparr>"

lemma map_ops_laws: "store_laws map_ops"
  by (simp add: store_laws_def map_ops_def)

definition gw_world0 :: "map_store \<Rightarrow> u8 mem \<Rightarrow> map_store gw_world" where
  "gw_world0 st buf = \<lparr>memory = (\<lambda>_. 0), allocs = 0, freed = [], commands = [], context_set = True, c_set = True,
     closed = False, endpoint = None, inbox = [], outbox = [], task_sys = Some (task_system empty_queue),
     task_objs = None, ctx_set = True, sent = [], frames = [], store = st, msg_buf = buf, node_buf = buf,
     hng = \<lparr>num_sockets = 1, ip = [], port = [], hng_self = example_addr 1, active_sockets_list = [0], num_active = 0\<rparr>,
     hhg = \<lparr>zmq_socket = 1, hhg_self = example_addr 1, hhg_alloc = True\<rparr>, connects = []\<rparr>"

theorem deliver_unknown_witness:
  "vca_com_gate_deliver_msg (plain_env (\<lambda>_. 0)) map_ops (\<lambda>_. 0) 0 50 7 (9, example_addr 1)
     (gw_world0 Map.empty (\<lambda>_. 0)) = Some (Ret ((- 1, \<lambda>_. 0), gw_world0 Map.empty (\<lambda>_. 0)))"
  by (rule deliver_unknown) (simp add: map_ops_def gw_world0_def)


theorem client_registered_witness:
  "\<exists>w'. store_id_of_client map_ops (replicate 256 3) 5 1 (gw_world0 Map.empty (\<lambda>_. 0)) = Some (Ret ((), w')) \<and>
     (\<exists>cm z. st_find map_ops (store w') (src (hdr_at (\<lambda>_. 0) 0)) = Some cm \<and> com cm = Com_zmq z \<and>
        take 5 (z_id z) = take 5 (replicate 256 3))"
proof -
  let ?w = "gw_world0 Map.empty (\<lambda>_. 0)"
  have "src (hdr_at (\<lambda>_. 0) 0) = src (hdr_at (msg_buf ?w) 0)" by (simp add: gw_world0_def)
  moreover have "\<forall>old. st_find map_ops (store ?w) (src (hdr_at (\<lambda>_. 0) 0)) = Some old \<longrightarrow> (\<exists>z. com old = Com_zmq z)"
    by (simp add: map_ops_def gw_world0_def)
  moreover have "length (replicate 256 (3 :: u8)) = 256" "(5 :: nat) \<le> 256" by simp_all
  ultimately show ?thesis using client_registered [OF map_ops_laws, of _ ?w "replicate 256 3" 5 1] by blast
qed

lemma zero_hdr_length: "hdr_length (hdr_of_bytes (replicate 38 0)) = 0"
  by (simp add: hdr_of_bytes_def numeral_eq_Suc)

lemma ones_hdr_length: "hdr_length (hdr_of_bytes (replicate 38 1)) \<noteq> 0"
proof -
  let ?n = "le_val (replicate 8 1)"
  have "le_val (replicate (Suc k) 1) \<noteq> 0" for k by simp
  from this [of 7] have p: "?n \<noteq> 0" by (simp only: Suc_numeral add_num_simps not_False_eq_True)
  have "?n < 2 ^ 64" using le_val_less [of "replicate 8 1"] by simp
  then have "unat (of_nat ?n :: u64) = ?n" by (simp add: unat_of_nat take_bit_nat_eq_self del: le_val.simps)
  with p have "(of_nat ?n :: u64) \<noteq> 0" by (metis unat_0)
  moreover have "take 8 (drop 26 (replicate 38 (1 :: u8))) = replicate 8 1" by simp
  ultimately show ?thesis unfolding hdr_of_bytes_def by (simp only: vca_com_msg_hdr.simps not_False_eq_True)
qed

lemma ones_hdr_dst: "dst (hdr_of_bytes (replicate 38 1)) \<noteq> src (hdr_of_bytes (replicate 38 0))"
proof -
  have "socket (dst (hdr_of_bytes (replicate 38 1))) = 1" "socket (src (hdr_of_bytes (replicate 38 0))) = 0"
    unfolding hdr_of_bytes_def addr_of_bytes_def by simp_all
  then show ?thesis by (metis zero_neq_one)
qed

theorem bulk_overread_witness:
  "\<exists>w'. hhg_handle (plain_env (\<lambda>_. 0)) map_ops 7 9 (int 100) (replicate 256 3) 5
     (gw_world0 Map.empty (\<lambda>a. if a < 38 then 0 else 1)) = Some (Ret ((), w'))"
proof -
  let ?b = "(\<lambda>a. if a < 38 then 0 else 1) :: u8 mem"
  let ?w = "gw_world0 Map.empty ?b"
  have m0: "map (at_offset ?b 0) [0..<38] = replicate 38 0"
    by (rule nth_equalityI) (simp_all add: at_offset_def del: upt_rec_numeral)
  have m1: "map (at_offset ?b (38 * 1)) [0..<38] = replicate 38 1"
    by (rule nth_equalityI) (simp_all add: at_offset_def del: upt_rec_numeral)
  have h0: "hdr_at ?b 0 = hdr_of_bytes (replicate 38 0)"
    unfolding hdr_at_def vca_com_msg_get_hdr_def m0 by (rule refl)
  have h1: "hdr_at ?b (38 * 1) = hdr_of_bytes (replicate 38 1)"
    unfolding hdr_at_def vca_com_msg_get_hdr_def m1 by (rule refl)
  note l0 = zero_hdr_length and l1 = ones_hdr_length and ne = ones_hdr_dst
  let ?a = "src (hdr_of_bytes (replicate 38 0))"
  let ?cm = "create_zmq_vca_com (replicate 256 3) 5 ?a 1"
  let ?w1 = "?w\<lparr>store := [?a \<mapsto> ?cm]\<rparr>"
  have mb: "msg_buf ?w = ?b" "zmq_socket (hhg ?w) = 1" "store ?w = Map.empty" by (simp_all add: gw_world0_def)
  have self: "self (create_zmq_vca_com i n a d) = a" for i n a d by (simp add: create_zmq_vca_com_def)
  have st: "store_id_of_client map_ops (replicate 256 3) 5 (zmq_socket (hhg ?w)) ?w = Some (Ret ((), ?w1))"
    by (simp add: store_id_of_client_def andthen_def mb h0 self Let_def map_ops_def)
  have "st_find map_ops (store ?w1) (dst (hdr_at ?b (38 * 1))) = None"
    unfolding h1 using ne by (simp add: map_ops_def)
  from deliver_unknown [OF this] have dl: "vca_com_gate_deliver_msg (plain_env (\<lambda>_. 0)) map_ops (msg_buf ?w) (38 * 1)
      (of_nat (100 + 38 * 1)) 7 (9, hhg_self (hhg ?w)) ?w1 = Some (Ret ((- 1, ?b), ?w1))"
    unfolding mb .
  have z: "\<forall>i < 1. hdr_length (hdr_at (msg_buf ?w) (38 * i)) = 0" using h0 l0 by (simp add: mb)
  have nz: "hdr_length (hdr_at (msg_buf ?w) (38 * 1)) \<noteq> 0" unfolding mb h1 by (rule l1)
  have "(38 :: nat) < 100" "(100 :: nat) < 2 ^ 31" "38 * 1 < (100 :: nat)" "38 * 1 + 38 \<le> MAX_MSG_SIZE"
    by (simp_all add: MAX_MSG_SIZE_def)
  from bulk_overread [OF this z nz st dl] show ?thesis by blast
qed

end
