(* ===== verification/Machine_Spec.thy ===== *)
theory Machine_Spec
  imports Vca_Prelude
begin

text \<open>
  A contract shared by the stateful components: every operation that is called within its
  documented preconditions runs to its end and keeps the invariant. What follows for whole runs
  of operations is proved once here. \<open>tracing_machine\<close> adds a history that every operation extends
  by what it contributes, such as the calls a device has made or still owes.
\<close>

locale guarded_machine =
  fixes step :: "'op \<Rightarrow> 's \<Rightarrow> 's outcome" and inv :: "'s \<Rightarrow> bool" and guard :: "'s \<Rightarrow> 'op \<Rightarrow> bool"
  assumes step_safe: "inv s \<Longrightarrow> guard s x \<Longrightarrow> \<exists>s'. step x s = Ret s' \<and> inv s'"
begin

fun run :: "'op list \<Rightarrow> 's \<Rightarrow> 's outcome" where
  "run [] s = Ret s"
| "run (x # xs) s = (case step x s of Abort \<Rightarrow> Abort | Ret s' \<Rightarrow> run xs s')"

text \<open>Every operation of the run is called within its precondition.\<close>

fun guarded :: "'op list \<Rightarrow> 's \<Rightarrow> bool" where
  "guarded [] s \<longleftrightarrow> True"
| "guarded (x # xs) s \<longleftrightarrow> guard s x \<and> (case step x s of Abort \<Rightarrow> True | Ret s' \<Rightarrow> guarded xs s')"

lemma run_append:
  "run (xs @ ys) s = (case run xs s of Abort \<Rightarrow> Abort | Ret s' \<Rightarrow> run ys s')"
  by (induction xs arbitrary: s) (auto split: outcome.splits)

lemma run_safe:
  "inv s \<Longrightarrow> guarded xs s \<Longrightarrow> \<exists>s'. run xs s = Ret s' \<and> inv s'"
proof (induction xs arbitrary: s)
  case (Cons x xs)
  then obtain s' where "step x s = Ret s'" "inv s'" using step_safe [of s x] by auto
  with Cons show ?case by simp
qed simp

end

locale tracing_machine = guarded_machine step inv guard
  for step :: "'op \<Rightarrow> 's \<Rightarrow> 's outcome" and inv guard +
  fixes history :: "'s \<Rightarrow> 'e list" and adds :: "'op \<Rightarrow> 'e list"
  assumes step_adds: "inv s \<Longrightarrow> guard s x \<Longrightarrow> step x s = Ret s' \<Longrightarrow> history s' = history s @ adds x"
begin

lemma run_adds:
  "inv s \<Longrightarrow> guarded xs s \<Longrightarrow>
     \<exists>s'. run xs s = Ret s' \<and> inv s' \<and> history s' = history s @ concat (map adds xs)"
proof (induction xs arbitrary: s)
  case (Cons x xs)
  then obtain t where t: "step x s = Ret t" "inv t" using step_safe [of s x] by auto
  with Cons have "\<exists>s'. run xs t = Ret s' \<and> inv s' \<and> history s' = history t @ concat (map adds xs)"
    by (intro Cons.IH) simp_all
  moreover have "history t = history s @ adds x" using step_adds [OF _ _ t(1)] Cons.prems by simp
  ultimately show ?case using t by simp
qed simp

end

end
