(* ===== verification/Plx_Alm.thy ===== *)
theory Plx_Alm
  imports Machine_Spec
begin

text \<open>
  The A-LUT manager of the PCIe driver (plx87xx/plx_alm.c): the table of address translation
  segments of a non-transparent bridge. A mapping is a group of consecutive segments whose
  first entry carries the translated address, the size of the group and a reference counter;
  with lazy unmapping a counter of 1 marks a group that is kept but not used.
\<close>

section \<open>Data\<close>

record plx_alm_arr_entry =
  e_value :: u64
  counter :: u16
  segments_count :: u16
  start :: u16

record plx_alm =
  segments_num :: u32
  segment_size :: u64
  entries :: "plx_alm_arr_entry list"

definition null_entry :: plx_alm_arr_entry where
  "null_entry = \<lparr>e_value = 0, counter = 0, segments_count = 0, start = 0\<rparr>"

definition EEXIST :: int where "EEXIST = 17"

section \<open>The consistency check\<close>

definition group_bad :: "plx_alm_arr_entry list \<Rightarrow> nat \<Rightarrow> nat \<Rightarrow> bool" where
  "group_bad es i k \<longleftrightarrow> list_ex (\<lambda>j. unat (start (es ! j)) \<noteq> i \<or>
     (j \<noteq> i \<and> (counter (es ! j) \<noteq> 0 \<or> segments_count (es ! j) \<noteq> 0))) [i..<i + k]"

text \<open>The loop; the accumulator is whether an error was found so far.\<close>

function check_loop :: "plx_alm_arr_entry list \<Rightarrow> nat \<Rightarrow> nat \<Rightarrow> bool \<Rightarrow> bool" where
  "check_loop es n i err =
     (if i < n then
        (let e = es ! i; segments = unat (segments_count e) in
         if counter e = 0 then
           check_loop es n (i + 1)
             (err \<or> segments_count e \<noteq> 0 \<or> start e \<noteq> 0 \<or> e_value e \<noteq> 0)
         else if segments = 0 then check_loop es n (i + 1) True
         else if segments + i > n then check_loop es n (i + 1) True
         else check_loop es n (i + segments) (err \<or> group_bad es i segments))
      else err)"
  by pat_completeness auto
termination
  by (relation "measure (\<lambda>(es, n, i, err). n - i)") auto

declare check_loop.simps [simp del]

text \<open>An inconsistent table is a kernel bug (\<open>BUG_ON\<close>).\<close>

definition plx_alm_check :: "plx_alm \<Rightarrow> int outcome" where
  "plx_alm_check alm =
     (if check_loop (entries alm) (unat (segments_num alm)) 0 False then Abort else Ret 0)"

section \<open>Life cycle\<close>

text \<open>
  The array comes from \<open>kzalloc\<close>, which may fail (\<open>alloc_ok = False\<close>): the code then sets
  the return value, but still runs the check, over a NULL array.
\<close>

definition plx_alm_init :: "bool \<Rightarrow> plx_alm \<Rightarrow> int \<Rightarrow> u64 \<Rightarrow> (int \<times> plx_alm) outcome" where
  "plx_alm_init alloc_ok mngr num_ntbs aper_len =
     (if num_ntbs = 0 then Abort
      else
        (let m1 = mngr\<lparr>segments_num := word_of_int (if num_ntbs < 0 then - (256 div (- num_ntbs))
                                                     else 256 div num_ntbs)\<rparr>
         in if segments_num m1 = 0 then Abort
            else
              (let m2 = m1\<lparr>segment_size := aper_len div ucast (segments_num m1)\<rparr>
               in if \<not> alloc_ok then Abort
                  else
                    (let m3 = m2\<lparr>entries := replicate (unat (segments_num m2)) null_entry\<rparr>
                     in case plx_alm_check m3 of Abort \<Rightarrow> Abort | Ret _ \<Rightarrow> Ret (0, m3)))))"

definition plx_alm_release :: "plx_alm \<Rightarrow> plx_alm outcome" where
  "plx_alm_release mngr =
     (case plx_alm_check mngr of
        Abort \<Rightarrow> Abort
      | Ret _ \<Rightarrow> Ret (mngr\<lparr>entries := [], segments_num := 0, segment_size := 0\<rparr>))"

definition clear_entries :: "plx_alm_arr_entry list \<Rightarrow> nat \<Rightarrow> nat \<Rightarrow> plx_alm_arr_entry list" where
  "clear_entries es id_begin num =
     map (\<lambda>j. if id_begin \<le> j \<and> j < id_begin + num then null_entry else es ! j) [0..<length es]"

definition plx_alm_reset :: "plx_alm \<Rightarrow> plx_alm outcome" where
  "plx_alm_reset mngr =
     (case plx_alm_check mngr of
        Abort \<Rightarrow> Abort
      | Ret _ \<Rightarrow> Ret (mngr\<lparr>entries := clear_entries (entries mngr) 0 (unat (segments_num mngr))\<rparr>))"

section \<open>Deleting\<close>

text \<open>The result is the group to clear in the hardware, if the last reference went.\<close>

definition plx_alm_del_entry :: "plx_alm \<Rightarrow> u32 \<Rightarrow> ((u32 \<times> u32) option \<times> plx_alm) outcome" where
  "plx_alm_del_entry mngr segment_id =
     (let es = entries mngr;
          start_id = unat (start (es ! unat segment_id));
          e = es ! start_id
      in if counter e = 0 then Abort
         else
           (let e1 = e\<lparr>counter := counter e - 1\<rparr>;
                es1 = es[start_id := e1]
            in if counter e1 = 0 then
                 (let segments = unat (segments_count e1)
                  in Ret (Some (of_nat start_id, of_nat segments),
                       mngr\<lparr>entries := clear_entries es1 start_id segments\<rparr>))
               else Ret (None, mngr\<lparr>entries := es1\<rparr>)))"

text \<open>The clean-up loop over the \<open>n\<close> entries; a delete does not change their number.\<close>

function cleanup_loop :: "nat \<Rightarrow> plx_alm \<Rightarrow> nat \<Rightarrow> nat \<Rightarrow> (nat \<times> plx_alm) outcome" where
  "cleanup_loop n mngr i nums =
     (if i < n then
        (if counter (entries mngr ! i) = 1 then
           (case plx_alm_del_entry mngr (of_nat i) of
              Abort \<Rightarrow> Abort
            | Ret (_, m1) \<Rightarrow> cleanup_loop n m1 (i + 1) (nums + 1))
         else cleanup_loop n mngr (i + 1) nums)
      else Ret (nums, mngr))"
  by pat_completeness auto
termination
  by (relation "measure (\<lambda>(n, m, i, nums). n - i)") auto

declare cleanup_loop.simps [simp del]

definition plx_alm_cleanup_unused_entry :: "plx_alm \<Rightarrow> (nat \<times> plx_alm) outcome" where
  "plx_alm_cleanup_unused_entry mngr = cleanup_loop (unat (segments_num mngr)) mngr 0 0"

section \<open>Adding\<close>

definition translation_mask :: "plx_alm \<Rightarrow> u64" where
  "translation_mask mngr = segment_size mngr - 1"

definition segments_needed :: "plx_alm \<Rightarrow> u64 \<Rightarrow> u64 \<Rightarrow> u32" where
  "segments_needed mngr addr sz =
     ucast (((addr AND translation_mask mngr) + sz + segment_size mngr - 1) div segment_size mngr)"

text \<open>
  The search: the first run of \<open>segments\<close> free entries, unless a group that already covers
  the range is met. The result is the match (\<open>None\<close> is -1) and the index in it.
\<close>

partial_function (option) find_slot ::
  "plx_alm \<Rightarrow> u64 \<Rightarrow> u32 \<Rightarrow> nat \<Rightarrow> nat \<Rightarrow> nat option \<Rightarrow> (nat option \<times> u64) option" where
  "find_slot mngr addr_masked segments i free_slots match =
     (if i < unat (segments_num mngr) then
        (let e = entries mngr ! i in
         if counter e = 0 then
           (case match of
              None \<Rightarrow>
                find_slot mngr addr_masked segments (i + 1) (free_slots + 1)
                  (if free_slots + 1 = unat segments then Some (i + 1 - unat segments) else None)
            | Some p \<Rightarrow> find_slot mngr addr_masked segments (i + 1) free_slots (Some p))
         else
           (let idx = (addr_masked - e_value e) div segment_size mngr in
            if addr_masked \<ge> e_value e \<and> idx < ucast (segments_num mngr) \<and>
               idx + ucast segments \<le> ucast (segments_count e)
            then Some (Some i, idx)
            else find_slot mngr addr_masked segments (i + unat (segments_count e)) 0 match))
      else Some (match, 0))"

text \<open>The starts of a new group.\<close>

definition set_starts :: "plx_alm_arr_entry list \<Rightarrow> nat \<Rightarrow> nat \<Rightarrow> plx_alm_arr_entry list" where
  "set_starts es p k =
     map (\<lambda>j. if p \<le> j \<and> j < p + k then (es ! j)\<lparr>start := of_nat p\<rparr> else es ! j) [0..<length es]"

definition take_slot ::
  "plx_alm \<Rightarrow> u64 \<Rightarrow> u32 \<Rightarrow> nat \<Rightarrow> int \<times> plx_alm" where
  "take_slot mngr addr_masked segments p =
     (let es = entries mngr;
          fresh = (counter (es ! p) = 0);
          rc = (if fresh then 0 else - EEXIST);
          es1 = (if fresh
                 then set_starts
                        (es[p := (es ! p)\<lparr>e_value := addr_masked, segments_count := ucast segments\<rparr>])
                        p (unat segments)
                 else es);
          es2 = (if counter (es1 ! p) = 0 then es1[p := (es1 ! p)\<lparr>counter := 1\<rparr>] else es1);
          es3 = es2[p := (es2 ! p)\<lparr>counter := counter (es2 ! p) + 1\<rparr>]
      in (rc, mngr\<lparr>entries := es3\<rparr>))"

text \<open>
  The result: the return code, the segments to program (when the code sets them) and the
  table. The retry after a clean-up is a recursive call.
\<close>

partial_function (option) plx_alm_add_entry ::
  "plx_alm \<Rightarrow> u64 \<Rightarrow> u64 \<Rightarrow> (int \<times> (u32 \<times> u32) option \<times> plx_alm) outcome option" where
  "plx_alm_add_entry mngr addr sz =
     (let addr_masked = addr AND NOT (translation_mask mngr);
          segments = segments_needed mngr addr sz
      in if sz > segment_size mngr * ucast (segments_num mngr) then
           Some (Ret (- ENOMEM, None, mngr))
         else
           (case find_slot mngr addr_masked segments 0 0 None of
              None \<Rightarrow> None
            | Some (Some p, idx) \<Rightarrow>
                (case take_slot mngr addr_masked segments p of
                   (rc, m1) \<Rightarrow> Some (Ret (rc, Some (of_nat p + ucast idx, segments), m1)))
            | Some (None, _) \<Rightarrow>
                (case plx_alm_cleanup_unused_entry mngr of
                   Abort \<Rightarrow> Some Abort
                 | Ret (nums, m1) \<Rightarrow>
                     if nums \<noteq> 0 then plx_alm_add_entry m1 addr sz
                     else Some (Ret (- ENOMEM, None, m1)))))"

section \<open>Well-formed tables\<close>

definition leader :: "plx_alm_arr_entry list \<Rightarrow> nat \<Rightarrow> bool" where
  "leader es l \<longleftrightarrow> l < length es \<and> counter (es ! l) \<noteq> 0"

definition span :: "plx_alm_arr_entry list \<Rightarrow> nat \<Rightarrow> nat" where
  "span es l = unat (segments_count (es ! l))"

definition group_ok :: "plx_alm_arr_entry list \<Rightarrow> nat \<Rightarrow> bool" where
  "group_ok es l \<longleftrightarrow> 0 < span es l \<and> l + span es l \<le> length es \<and> \<not> group_bad es l (span es l)"

text \<open>Entry \<open>j\<close> belongs to a group that starts at \<open>i\<close> or later.\<close>

definition covered_from :: "plx_alm_arr_entry list \<Rightarrow> nat \<Rightarrow> nat \<Rightarrow> bool" where
  "covered_from es i j \<longleftrightarrow> (\<exists>l \<ge> i. leader es l \<and> l \<le> j \<and> j < l + span es l)"

definition table_wf_from :: "plx_alm_arr_entry list \<Rightarrow> nat \<Rightarrow> bool" where
  "table_wf_from es i \<longleftrightarrow> (\<forall>l \<ge> i. leader es l \<longrightarrow> group_ok es l) \<and>
     (\<forall>j. i \<le> j \<longrightarrow> j < length es \<longrightarrow> \<not> covered_from es i j \<longrightarrow> es ! j = null_entry)"

abbreviation covered :: "plx_alm_arr_entry list \<Rightarrow> nat \<Rightarrow> bool" where
  "covered es j \<equiv> covered_from es 0 j"

abbreviation table_wf :: "plx_alm_arr_entry list \<Rightarrow> bool" where
  "table_wf es \<equiv> table_wf_from es 0"

lemma group_bad_iff:
  "\<not> group_bad es l k \<longleftrightarrow> (\<forall>j. l \<le> j \<longrightarrow> j < l + k \<longrightarrow> unat (start (es ! j)) = l \<and>
     (j \<noteq> l \<longrightarrow> counter (es ! j) = 0 \<and> segments_count (es ! j) = 0))"
  by (auto simp: group_bad_def list_ex_iff)

lemma null_entry_iff:
  "e = null_entry \<longleftrightarrow> counter e = 0 \<and> segments_count e = 0 \<and> start e = 0 \<and> e_value e = (0::u64)"
  by (auto simp: null_entry_def)

lemma null_entry_sel [simp]:
  "counter null_entry = 0" "segments_count null_entry = 0" "start null_entry = 0" "e_value null_entry = 0"
  by (simp_all add: null_entry_def)

lemma wf_from_end: "length es \<le> i \<Longrightarrow> table_wf_from es i"
  by (auto simp: table_wf_from_def leader_def)

lemma wf_from_free:
  assumes "i < length es" "counter (es ! i) = 0"
  shows "table_wf_from es i \<longleftrightarrow> es ! i = null_entry \<and> table_wf_from es (i + 1)"
proof -
  have nl: "\<not> leader es i" using assms by (simp add: leader_def)
  have L: "(\<forall>l \<ge> i. leader es l \<longrightarrow> group_ok es l) \<longleftrightarrow> (\<forall>l \<ge> i + 1. leader es l \<longrightarrow> group_ok es l)"
    using nl by (metis Suc_eq_plus1 Suc_leD Suc_leI le_neq_implies_less)
  have C: "covered_from es i j \<longleftrightarrow> covered_from es (i + 1) j" for j
    unfolding covered_from_def using nl by (metis Suc_eq_plus1 Suc_leD Suc_leI le_neq_implies_less)
  have "\<not> covered_from es (i + 1) i" by (auto simp: covered_from_def)
  then have nc: "i < length es \<longrightarrow> \<not> covered_from es (i + 1) i \<longrightarrow> P \<equiv> P" for P
    using assms(1) by simp
  have split: "(\<forall>j. i \<le> j \<longrightarrow> P j) \<longleftrightarrow> P i \<and> (\<forall>j. i + 1 \<le> j \<longrightarrow> P j)" for P
    by (auto simp: Suc_le_eq) (metis le_neq_implies_less)
  show ?thesis
    unfolding table_wf_from_def L C
      split [of "\<lambda>j. j < length es \<longrightarrow> \<not> covered_from es (i + 1) j \<longrightarrow> es ! j = null_entry"] nc
    by (simp only: conj_ac)
qed

lemma wf_from_group:
  assumes "leader es i" "group_ok es i"
  shows "table_wf_from es i \<longleftrightarrow> table_wf_from es (i + span es i)"
proof -
  let ?k = "span es i"
  have g: "\<And>j. i \<le> j \<Longrightarrow> j < i + ?k \<Longrightarrow> j \<noteq> i \<Longrightarrow> \<not> leader es j"
    using assms(2) by (auto simp: group_ok_def group_bad_iff leader_def)
  have L: "(\<forall>l \<ge> i. leader es l \<longrightarrow> group_ok es l) \<longleftrightarrow> (\<forall>l \<ge> i + ?k. leader es l \<longrightarrow> group_ok es l)"
    using g assms by (metis le_add1 le_trans not_le_imp_less)
  have C: "covered_from es i j \<longleftrightarrow> j < i + ?k \<or> covered_from es (i + ?k) j" if "i \<le> j" for j
  proof
    assume "covered_from es i j"
    then obtain l where "i \<le> l" "leader es l" "l \<le> j" "j < l + span es l"
      by (auto simp: covered_from_def)
    then show "j < i + ?k \<or> covered_from es (i + ?k) j"
      using g [of l] by (cases "l = i"; cases "l < i + ?k") (auto simp: covered_from_def not_less)
  next
    assume "j < i + ?k \<or> covered_from es (i + ?k) j"
    then show "covered_from es i j"
      using assms(1) that unfolding covered_from_def by (auto intro: le_trans [OF le_add1])
  qed
  have "(\<forall>j. i \<le> j \<longrightarrow> j < length es \<longrightarrow> \<not> covered_from es i j \<longrightarrow> Q j) \<longleftrightarrow>
      (\<forall>j. i + ?k \<le> j \<longrightarrow> j < length es \<longrightarrow> \<not> covered_from es (i + ?k) j \<longrightarrow> Q j)" for Q
  proof (intro iffI allI impI)
    fix j assume h: "\<forall>j. i \<le> j \<longrightarrow> j < length es \<longrightarrow> \<not> covered_from es i j \<longrightarrow> Q j"
      and j: "i + ?k \<le> j" "j < length es" "\<not> covered_from es (i + ?k) j"
    then have "i \<le> j" "\<not> covered_from es i j" using C [of j] by simp_all
    with h j(2) show "Q j" by blast
  next
    fix j assume h: "\<forall>j. i + ?k \<le> j \<longrightarrow> j < length es \<longrightarrow> \<not> covered_from es (i + ?k) j \<longrightarrow> Q j"
      and j: "i \<le> j" "j < length es" "\<not> covered_from es i j"
    then have "i + ?k \<le> j" "\<not> covered_from es (i + ?k) j" using C [of j] by (simp_all add: not_less)
    with h j(2) show "Q j" by blast
  qed
  from this [of "\<lambda>j. es ! j = null_entry"] L show ?thesis
    unfolding table_wf_from_def by simp
qed

lemma wf_from_bad: "leader es i \<Longrightarrow> \<not> group_ok es i \<Longrightarrow> \<not> table_wf_from es i"
  by (auto simp: table_wf_from_def)

text \<open>The driver's own check accepts exactly the well-formed tables.\<close>

lemma check_loop_iff:
  "n = length es \<Longrightarrow> check_loop es n i err \<longleftrightarrow> err \<or> \<not> table_wf_from es i"
proof (induction es n i err rule: check_loop.induct)
  case (1 es n i err)
  show ?case
  proof (cases "i < n")
    case False
    then show ?thesis using 1(5) by (subst check_loop.simps) (simp add: wf_from_end)
  next
    case True
    note IH = 1(1-4) [OF True refl refl]
    have unfold: "check_loop es n i err =
       (let e = es ! i; segments = unat (segments_count e) in
         if counter e = 0 then
           check_loop es n (i + 1) (err \<or> segments_count e \<noteq> 0 \<or> start e \<noteq> 0 \<or> e_value e \<noteq> 0)
         else if segments = 0 then check_loop es n (i + 1) True
         else if segments + i > n then check_loop es n (i + 1) True
         else check_loop es n (i + segments) (err \<or> group_bad es i segments))"
      using True by (subst check_loop.simps) simp
    show ?thesis
    proof (cases "counter (es ! i) = 0")
      case free: True
      then show ?thesis
        using IH(1) [OF free 1(5)] wf_from_free [of i es] True 1(5) null_entry_iff [of "es ! i"]
        unfolding unfold Let_def by auto
    next
      case used: False
      then have l: "leader es i" using True 1(5) by (simp add: leader_def)
      show ?thesis
      proof (cases "span es i = 0 \<or> span es i + i > n")
        case True
        then have "\<not> group_ok es i" using 1(5) by (auto simp: group_ok_def)
        then have "\<not> table_wf_from es i" using l by (rule wf_from_bad [rotated])
        moreover have "check_loop es n i err"
          using True IH(2) [OF used _ 1(5)] IH(3) [OF used _ _ 1(5)] used
          unfolding unfold Let_def span_def by auto
        ultimately show ?thesis by simp
      next
        case False
        then have "check_loop es n i err \<longleftrightarrow> (err \<or> group_bad es i (span es i)) \<or> \<not> table_wf_from es (i + span es i)"
          using IH(4) [OF used _ _ 1(5)] used unfolding unfold Let_def span_def by auto
        moreover have "group_ok es i \<longleftrightarrow> \<not> group_bad es i (span es i)"
          using False 1(5) by (auto simp: group_ok_def)
        ultimately show ?thesis
          using wf_from_group [OF l] wf_from_bad [OF l] by blast
      qed
    qed
  qed
qed

section \<open>Changing one group\<close>

lemma wf_group: "table_wf es \<Longrightarrow> leader es l \<Longrightarrow> group_ok es l"
  by (auto simp: table_wf_from_def)

lemma wf_null: "table_wf es \<Longrightarrow> j < length es \<Longrightarrow> \<not> covered es j \<Longrightarrow> es ! j = null_entry"
  by (auto simp: table_wf_from_def)

lemma group_okD:
  assumes "group_ok es l" "l \<le> j" "j < l + span es l"
  shows "unat (start (es ! j)) = l" "j \<noteq> l \<Longrightarrow> counter (es ! j) = 0" "j \<noteq> l \<Longrightarrow> segments_count (es ! j) = 0"
  using assms by (auto simp: group_ok_def group_bad_iff)

lemma leaders_apart:
  assumes "table_wf es" "leader es l" "leader es l'" "l < l'"
  shows "l + span es l \<le> l'"
  using group_okD(2) [OF wf_group [OF assms(1,2)], of l'] assms(3,4) by (force simp: leader_def)

text \<open>No group of the table crosses the border of the region \<open>[p, p + k)\<close>.\<close>

definition region_free :: "plx_alm_arr_entry list \<Rightarrow> nat \<Rightarrow> nat \<Rightarrow> bool" where
  "region_free es p k \<longleftrightarrow> (\<forall>l. leader es l \<longrightarrow>
     l + span es l \<le> p \<or> p + k \<le> l \<or> p \<le> l \<and> l + span es l \<le> p + k)"

text \<open>The region holds nothing, or exactly one group.\<close>

definition region_new :: "plx_alm_arr_entry list \<Rightarrow> nat \<Rightarrow> nat \<Rightarrow> bool" where
  "region_new es p k \<longleftrightarrow> (\<forall>j. p \<le> j \<longrightarrow> j < p + k \<longrightarrow> es ! j = null_entry) \<or>
     (0 < k \<and> counter (es ! p) \<noteq> 0 \<and> span es p = k \<and> \<not> group_bad es p k)"

lemma wf_replace:
  assumes wf: "table_wf es" and len: "length es' = length es" and pk: "p + k \<le> length es"
    and same: "\<And>j. j < p \<or> p + k \<le> j \<Longrightarrow> j < length es \<Longrightarrow> es' ! j = es ! j"
    and free: "region_free es p k" and new: "region_new es' p k"
  shows "table_wf es'"
    and "j < p \<or> p + k \<le> j \<Longrightarrow> leader es' j \<longleftrightarrow> leader es j"
proof -
  have out: "leader es' j \<longleftrightarrow> leader es j" if "j < p \<or> p + k \<le> j" for j
    using same [OF that] len by (auto simp: leader_def)
  have out_span: "span es' j = span es j" if "j < p \<or> p + k \<le> j" "leader es j" for j
    using same [OF that(1)] that(2) len by (auto simp: leader_def span_def)
  show "j < p \<or> p + k \<le> j \<Longrightarrow> leader es' j \<longleftrightarrow> leader es j" by (rule out)
  have ins: "j = p \<and> 0 < k \<and> span es' p = k \<and> \<not> group_bad es' p k" if "leader es' j" "p \<le> j" "j < p + k" for j
    using new that unfolding region_new_def
    by (auto simp: leader_def group_bad_iff)
  have g: "group_ok es' l" if l: "leader es' l" for l
  proof (cases "l < p \<or> p + k \<le> l")
    case True
    with l have le: "leader es l" by (simp add: out)
    have "l + span es l \<le> p \<or> p + k \<le> l"
      using free le True wf_group [OF wf le] by (force simp: region_free_def group_ok_def)
    then have "es' ! j = es ! j" if "l \<le> j" "j < l + span es l" for j
      using that wf_group [OF wf le] by (intro same) (auto simp: group_ok_def)
    with wf_group [OF wf le] show ?thesis
      using out_span [OF True le] len by (simp add: group_ok_def group_bad_iff)
  next
    case False
    with ins [OF l] pk len show ?thesis by (simp add: group_ok_def)
  qed
  have n: "es' ! j = null_entry" if j: "j < length es'" "\<not> covered es' j" for j
  proof (cases "j < p \<or> p + k \<le> j")
    case True
    have "\<not> covered es j"
    proof
      assume "covered es j"
      then obtain l where l: "leader es l" "l \<le> j" "j < l + span es l"
        by (auto simp: covered_from_def)
      with free True have "l < p \<or> p + k \<le> l" by (auto simp: region_free_def)
      with l j(2) out out_span show False by (auto simp: covered_from_def)
    qed
    with wf_null [OF wf] j(1) len same [OF True] show ?thesis by simp
  next
    case False
    show ?thesis
    proof (rule ccontr)
      assume "es' ! j \<noteq> null_entry"
      with new False have "0 < k" "counter (es' ! p) \<noteq> 0" "span es' p = k"
        by (auto simp: region_new_def)
      then have "covered es' j"
        using False pk len unfolding covered_from_def leader_def by (auto intro!: exI [of _ p])
      with j(2) show False by simp
    qed
  qed
  from g n show "table_wf es'" by (simp add: table_wf_from_def)
qed

lemma leader_region_free:
  assumes "table_wf es" "leader es p"
  shows "region_free es p (span es p)" "p + span es p \<le> length es" "0 < span es p"
proof -
  show "region_free es p (span es p)"
    unfolding region_free_def
  proof (intro allI impI)
    fix l assume "leader es l"
    then show "l + span es l \<le> p \<or> p + span es p \<le> l \<or> p \<le> l \<and> l + span es l \<le> p + span es p"
      using leaders_apart [OF assms(1), of l p] leaders_apart [OF assms(1), of p l] assms(2)
      by (cases "l = p"; cases "l < p") auto
  qed
  show "p + span es p \<le> length es" "0 < span es p"
    using wf_group [OF assms] by (auto simp: group_ok_def)
qed

lemma wf_set_counter:
  assumes wf: "table_wf es" and p: "leader es p" and c: "c \<noteq> 0"
  shows "table_wf (es[p := (es ! p)\<lparr>counter := c\<rparr>])"
proof (rule wf_replace(1) [OF wf _ _ _ leader_region_free(1) [OF wf p]])
  have lt: "p < length es" using p by (simp add: leader_def)
  show "es[p := (es ! p)\<lparr>counter := c\<rparr>] ! j = es ! j" if "j < p \<or> p + span es p \<le> j" for j
    using that leader_region_free(3) [OF wf p] by (cases "j = p") auto
  let ?es = "es[p := (es ! p)\<lparr>counter := c\<rparr>]"
  have n: "?es ! j = (if j = p then (es ! p)\<lparr>counter := c\<rparr> else es ! j)" for j
    using lt by (simp add: nth_list_update)
  have sp: "span ?es p = span es p" by (simp add: span_def n)
  have "\<not> group_bad ?es p (span es p)"
    unfolding group_bad_iff
  proof (intro allI impI)
    fix j assume "p \<le> j" "j < p + span es p"
    from group_okD [OF wf_group [OF wf p] this]
    show "unat (start (?es ! j)) = p \<and> (j \<noteq> p \<longrightarrow> counter (?es ! j) = 0 \<and> segments_count (?es ! j) = 0)"
      by (cases "j = p") (simp_all add: n)
  qed
  then show "region_new ?es p (span es p)"
    unfolding region_new_def using c sp leader_region_free(3) [OF wf p] by (simp add: n)
qed (use leader_region_free(2) [OF wf p] in auto)

lemma length_clear [simp]: "length (clear_entries es p k) = length es"
  by (simp add: clear_entries_def)

lemma nth_clear:
  "j < length es \<Longrightarrow> clear_entries es p k ! j = (if p \<le> j \<and> j < p + k then null_entry else es ! j)"
  by (simp add: clear_entries_def)

lemma wf_clear_group:
  assumes wf: "table_wf es" and p: "leader es p"
  shows "table_wf (clear_entries es p (span es p))"
    and "j < p \<or> p + span es p \<le> j \<Longrightarrow> leader (clear_entries es p (span es p)) j \<longleftrightarrow> leader es j"
proof -
  have nth: "clear_entries es p (span es p) ! j = es ! j" if "j < p \<or> p + span es p \<le> j" "j < length es" for j
    using that by (auto simp: nth_clear)
  let ?es = "clear_entries es p (span es p) "
  have new: "region_new ?es p (span es p)"
    using leader_region_free(2) [OF wf p] by (auto simp: region_new_def nth_clear)
  show "table_wf ?es"
    by (rule wf_replace(1) [OF wf _ leader_region_free(2) [OF wf p] _ leader_region_free(1) [OF wf p] new])
      (simp_all add: nth)
  show "j < p \<or> p + span es p \<le> j \<Longrightarrow> leader ?es j \<longleftrightarrow> leader es j"
    using nth [of j] by (auto simp: leader_def)
qed

section \<open>The search\<close>

definition alm_wf :: "plx_alm \<Rightarrow> bool" where
  "alm_wf m \<longleftrightarrow> length (entries m) = unat (segments_num m) \<and> unat (segments_num m) \<le> 256 \<and>
     table_wf (entries m)"

definition boundary :: "plx_alm_arr_entry list \<Rightarrow> nat \<Rightarrow> bool" where
  "boundary es i \<longleftrightarrow> i \<le> length es \<and> (\<forall>l. leader es l \<longrightarrow> l < i \<longrightarrow> l + span es l \<le> i)"

definition free_run :: "plx_alm_arr_entry list \<Rightarrow> nat \<Rightarrow> nat \<Rightarrow> bool" where
  "free_run es p k \<longleftrightarrow> p + k \<le> length es \<and> (\<forall>j. p \<le> j \<longrightarrow> j < p + k \<longrightarrow> \<not> covered es j)"

lemma free_at_boundary: "boundary es i \<Longrightarrow> counter (es ! i) = 0 \<Longrightarrow> \<not> covered es i"
  by (force simp: boundary_def covered_from_def leader_def)

lemma boundary_Suc: "boundary es i \<Longrightarrow> i < length es \<Longrightarrow> counter (es ! i) = 0 \<Longrightarrow> boundary es (i + 1)"
  by (auto simp: boundary_def less_Suc_eq leader_def)

lemma boundary_group:
  assumes "table_wf es" "leader es i" "boundary es i"
  shows "boundary es (i + span es i)"
  unfolding boundary_def
proof (intro conjI allI impI)
  show "i + span es i \<le> length es" using leader_region_free(2) [OF assms(1,2)] .
  fix l assume l: "leader es l" "l < i + span es i"
  show "l + span es l \<le> i + span es i"
    using leaders_apart [OF assms(1,2) l(1)] l assms(3)
    by (cases "l = i"; cases "l < i") (auto simp: boundary_def)
qed

lemma free_run_region: "table_wf es \<Longrightarrow> free_run es p k \<Longrightarrow> 0 < k \<Longrightarrow> region_free es p k"
proof -
  assume wf: "table_wf es" and f: "free_run es p k" and k: "0 < k"
  show ?thesis unfolding region_free_def
  proof (intro allI impI)
    fix l assume l: "leader es l"
    show "l + span es l \<le> p \<or> p + k \<le> l \<or> p \<le> l \<and> l + span es l \<le> p + k"
    proof (rule ccontr)
      assume c: "\<not> ?thesis"
      let ?j = "max l p"
      have "l \<le> ?j" "?j < l + span es l" using c leader_region_free(3) [OF wf l] by auto
      then have "covered es ?j" using l by (auto simp: covered_from_def)
      moreover have "p \<le> ?j" "?j < p + k" using c k by auto
      ultimately show False using f by (auto simp: free_run_def)
    qed
  qed
qed

lemma free_run_null: "table_wf es \<Longrightarrow> free_run es p k \<Longrightarrow> p \<le> j \<Longrightarrow> j < p + k \<Longrightarrow> es ! j = null_entry"
  by (auto simp: free_run_def intro: wf_null)

text \<open>The invariant of the search loop.\<close>

definition no_run :: "plx_alm_arr_entry list \<Rightarrow> nat \<Rightarrow> nat \<Rightarrow> bool" where
  "no_run es k i \<longleftrightarrow> (0 < k \<longrightarrow> (\<forall>p. p + k \<le> i \<longrightarrow> \<not> free_run es p k))"

definition search_inv :: "plx_alm_arr_entry list \<Rightarrow> nat \<Rightarrow> nat \<Rightarrow> nat \<Rightarrow> nat option \<Rightarrow> bool" where
  "search_inv es k i fs match \<longleftrightarrow>
     (case match of
        Some p \<Rightarrow> 0 < k \<and> free_run es p k
      | None \<Rightarrow> fs \<le> i \<and> free_run es (i - fs) fs \<and> (fs = i \<or> covered es (i - fs - 1)) \<and>
          (k = 0 \<or> fs < k) \<and> no_run es k i)"

lemma search_inv_start: "search_inv es k 0 0 None"
  by (auto simp: search_inv_def free_run_def no_run_def)

lemma search_inv_free:
  assumes "search_inv es k i fs None" "boundary es i" "i < length es" "counter (es ! i) = 0"
  shows "search_inv es k (i + 1) (fs + 1) (if fs + 1 = k then Some (i + 1 - k) else None)"
proof -
  have inv: "fs \<le> i" "free_run es (i - fs) fs" "fs = i \<or> covered es (i - fs - 1)" "k = 0 \<or> fs < k" "no_run es k i"
    using assms(1) by (auto simp: search_inv_def)
  have run: "free_run es (i - fs) (fs + 1)"
    using inv(1,2) assms(3) free_at_boundary [OF assms(2,4)]
    by (auto simp: free_run_def less_Suc_eq)
  show ?thesis
  proof (cases "fs + 1 = k")
    case True
    then have "i + 1 - k = i - fs" by simp
    with True run show ?thesis by (auto simp: search_inv_def)
  next
    case False
    have "no_run es k (i + 1)"
      unfolding no_run_def
    proof (intro allI impI notI)
      fix p assume k: "0 < k" and p: "p + k \<le> i + 1" and f: "free_run es p k"
      have "p + k = i + 1" using inv(5) k p f by (auto simp: no_run_def le_Suc_eq)
      then have "p \<le> i - fs - 1" "i - fs - 1 < p + k" "fs \<noteq> i" using inv(1,4) False k by auto
      with f inv(3) show False by (auto simp: free_run_def)
    qed
    with False inv run show ?thesis by (auto simp: search_inv_def)
  qed
qed

lemma search_inv_used:
  assumes "search_inv es k i fs match" "table_wf es" "leader es i"
  shows "search_inv es k (i + span es i) 0 match"
proof (cases match)
  case None
  have inv: "fs \<le> i" "k = 0 \<or> fs < k" "no_run es k i"
    using assms(1) None by (auto simp: search_inv_def)
  have sp: "0 < span es i" "i + span es i \<le> length es" using leader_region_free [OF assms(2,3)] by auto
  have cov: "covered es j" if "i \<le> j" "j < i + span es i" for j
    using that assms(3) by (auto simp: covered_from_def)
  have "no_run es k (i + span es i)"
    unfolding no_run_def
  proof (intro allI impI notI)
    fix p assume k: "0 < k" and p: "p + k \<le> i + span es i" and f: "free_run es p k"
    then have "\<not> p + k \<le> i" using inv(3) by (auto simp: no_run_def)
    with k p have "covered es (p + k - 1)" by (intro cov) auto
    with f k show False by (auto simp: free_run_def)
  qed
  with None sp cov [of "i + span es i - 1"] inv show ?thesis
    by (auto simp: search_inv_def free_run_def)
qed (use assms(1) in \<open>simp add: search_inv_def\<close>)

text \<open>What the search promises: an embedding, a free run, or that there is no free run.\<close>

definition embeds :: "plx_alm \<Rightarrow> u64 \<Rightarrow> nat \<Rightarrow> nat \<Rightarrow> u64 \<Rightarrow> bool" where
  "embeds m addr k p idx \<longleftrightarrow> leader (entries m) p \<and> e_value (entries m ! p) \<le> addr \<and>
     idx = (addr - e_value (entries m ! p)) div segment_size m \<and> unat idx + k \<le> span (entries m) p"

definition slot_result :: "plx_alm \<Rightarrow> u64 \<Rightarrow> nat \<Rightarrow> nat option \<Rightarrow> u64 \<Rightarrow> bool" where
  "slot_result m addr k r idx \<longleftrightarrow>
     (case r of
        None \<Rightarrow> no_run (entries m) k (length (entries m))
      | Some p \<Rightarrow> 0 < k \<and> free_run (entries m) p k \<and> idx = 0 \<or> embeds m addr k p idx)"

lemma unat_add_le_ucast:
  assumes "(idx :: u64) < ucast (n :: u32)"
  shows "idx + ucast (s :: u32) \<le> ucast (c :: u16) \<longleftrightarrow> unat idx + unat s \<le> unat c"
proof -
  have "unat idx < unat n" using assms by (simp add: word_less_nat_alt)
  then have "unat idx + unat s < 2 ^ 64"
    using unat_bound [of n] unat_bound [of s] by simp
  then have "unat (idx + ucast s) = unat idx + unat s"
    by (subst unat_add_lem [THEN iffD1]) simp_all
  then show ?thesis by (simp add: word_le_nat_alt)
qed

lemma find_slot_spec:
  assumes wf: "alm_wf m"
  shows "boundary (entries m) i \<Longrightarrow> search_inv (entries m) (unat segs) i fs match \<Longrightarrow>
    \<exists>r idx. find_slot m addr segs i fs match = Some (r, idx) \<and> slot_result m addr (unat segs) r idx"
proof (induction "length (entries m) - i" arbitrary: i fs match rule: less_induct)
  case less
  let ?es = "entries m" and ?k = "unat segs"
  have len: "length ?es = unat (segments_num m)" and t: "table_wf ?es" using wf by (auto simp: alm_wf_def)
  show ?case
  proof (cases "i < length ?es")
    case False
    then have "i = length ?es" using less.prems(1) by (auto simp: boundary_def)
    then show ?thesis
      using less.prems(2) len
      by (subst find_slot.simps) (auto simp: slot_result_def search_inv_def split: option.splits)
  next
    case True
    note step = less.hyps [OF _ _ _]
    show ?thesis
    proof (cases "counter (?es ! i) = 0")
      case free: True
      note b = boundary_Suc [OF less.prems(1) True free]
      show ?thesis
      proof (cases match)
        case None
        from less.prems(2) have "search_inv ?es ?k i fs None" unfolding None .
        from less.hyps [OF _ b search_inv_free [OF this less.prems(1) True free]] True free None len
        show ?thesis by (subst find_slot.simps) simp
      next
        case (Some p)
        have "search_inv ?es ?k (i + 1) fs (Some p)" using less.prems(2) Some by (simp add: search_inv_def)
        from less.hyps [OF _ b this] True free Some len
        show ?thesis by (subst find_slot.simps) simp
      qed
    next
      case used: False
      then have l: "leader ?es i" using True by (simp add: leader_def)
      let ?idx = "(addr - e_value (?es ! i)) div segment_size m"
      have IH: "\<exists>r idx. find_slot m addr segs (i + span ?es i) 0 match = Some (r, idx) \<and> slot_result m addr ?k r idx"
        using leader_region_free(3) [OF t l] True
        by (intro less.hyps boundary_group [OF t l less.prems(1)] search_inv_used [OF less.prems(2) t l]) simp
      show ?thesis
      proof (cases "addr \<ge> e_value (?es ! i) \<and> ?idx < ucast (segments_num m) \<and>
               ?idx + ucast segs \<le> ucast (segments_count (?es ! i))")
        case hit: True
        then have "embeds m addr ?k i ?idx"
          using l unat_add_le_ucast [of ?idx "segments_num m" segs] by (simp add: embeds_def span_def)
        with hit used True len show ?thesis
          by (subst find_slot.simps) (simp add: Let_def slot_result_def)
      next
        case False
        with IH used True len show ?thesis
          by (subst find_slot.simps) (auto simp: Let_def span_def)
      qed
    qed
  qed
qed

section \<open>What each operation does to the table\<close>

lemma alm_wf_upd:
  "alm_wf m \<Longrightarrow> length es = length (entries m) \<Longrightarrow> table_wf es \<Longrightarrow> alm_wf (m\<lparr>entries := es\<rparr>)"
  by (simp add: alm_wf_def)

lemma alm_wfD:
  assumes "alm_wf m"
  shows "length (entries m) = unat (segments_num m)" "length (entries m) \<le> 256" "table_wf (entries m)"
  using assms by (auto simp: alm_wf_def)

lemma length_set_starts [simp]: "length (set_starts es p k) = length es"
  by (simp add: set_starts_def)

lemma nth_set_starts: "j < length es \<Longrightarrow>
    set_starts es p k ! j = (if p \<le> j \<and> j < p + k then (es ! j)\<lparr>start := of_nat p\<rparr> else es ! j)"
  by (simp add: set_starts_def)

text \<open>Taking a free run makes it one group, counted twice: once for the lazy unmapping.\<close>

definition new_group :: "u64 \<Rightarrow> nat \<Rightarrow> nat \<Rightarrow> nat \<Rightarrow> plx_alm_arr_entry" where
  "new_group addr p k j =
     (if j = p then \<lparr>e_value = addr, counter = 2, segments_count = of_nat k, start = of_nat p\<rparr>
      else null_entry\<lparr>start := of_nat p\<rparr>)"

lemma unat_small_u16: "n \<le> 256 \<Longrightarrow> unat (of_nat n :: u16) = n"
  by (simp add: unat_of_nat take_bit_nat_eq_self)

lemma take_slot_fresh:
  assumes wf: "alm_wf m" and run: "free_run (entries m) p (unat segs)" and k: "0 < unat segs"
  obtains m' where "take_slot m addr segs p = (0, m')" "segment_size m' = segment_size m"
    "segments_num m' = segments_num m" "alm_wf m'" "leader (entries m') p"
    "\<And>j. j < length (entries m) \<Longrightarrow> entries m' ! j =
      (if p \<le> j \<and> j < p + unat segs then new_group addr p (unat segs) j else entries m ! j)"
proof -
  let ?es = "entries m" and ?k = "unat segs"
  have pk: "p + ?k \<le> length ?es" using run by (simp add: free_run_def)
  have k16: "?k \<le> 256" "p \<le> 256" using pk alm_wfD(2) [OF wf] by auto
  have null: "?es ! j = null_entry" if "p \<le> j" "j < p + ?k" for j
    using free_run_null [OF alm_wfD(3) [OF wf] run that] .
  have fresh: "counter (?es ! p) = 0" using null [of p] k by (simp add: null_entry_def)
  have lt: "p < length ?es" using pk k by simp
  define es1 where
    "es1 = set_starts (?es[p := (?es ! p)\<lparr>e_value := addr, segments_count := ucast segs\<rparr>]) p ?k"
  have len1: "length es1 = length ?es" by (simp add: es1_def)
  have p1: "es1 ! p = \<lparr>e_value = addr, counter = 0, segments_count = of_nat ?k, start = of_nat p\<rparr>"
    using lt k null [of p] by (simp add: es1_def nth_set_starts null_entry_def)
  have o1: "es1 ! j = (if p \<le> j \<and> j < p + ?k then null_entry\<lparr>start := of_nat p\<rparr> else ?es ! j)"
    if "j < length ?es" "j \<noteq> p" for j
    using that null [of j] by (simp add: es1_def nth_set_starts)
  define es' where "es' = es1[p := new_group addr p ?k p]"
  have len: "length es' = length ?es" by (simp add: es'_def len1)
  have nth: "es' ! j = (if p \<le> j \<and> j < p + ?k then new_group addr p ?k j else ?es ! j)"
    if "j < length ?es" for j
    using o1 [OF that] that k by (cases "j = p") (simp_all add: es'_def len1 new_group_def)
  have eq: "take_slot m addr segs p = (0, m\<lparr>entries := es'\<rparr>)"
    using fresh lt by (simp add: take_slot_def Let_def es1_def [symmetric] p1 len1 es'_def new_group_def)
  have p: "es' ! p = new_group addr p ?k p" using nth [of p] pk k by simp
  have sp: "span es' p = ?k" using unat_small_u16 [OF k16(1)] by (simp add: span_def p new_group_def)
  have "\<not> group_bad es' p ?k"
    unfolding group_bad_iff using nth pk k16
    by (auto simp: new_group_def null_entry_def unat_small_u16)
  then have new: "region_new es' p ?k"
    unfolding region_new_def using sp p k by (simp add: new_group_def)
  have twf: "table_wf es'"
    by (rule wf_replace(1) [OF alm_wfD(3) [OF wf] len pk _ free_run_region [OF alm_wfD(3) [OF wf] run k] new])
      (auto simp: nth)
  show thesis
  proof (rule that [OF eq])
    show "alm_wf (m\<lparr>entries := es'\<rparr>)" by (rule alm_wf_upd [OF wf len twf])
    show "leader (entries (m\<lparr>entries := es'\<rparr>)) p" using pk k len p by (simp add: leader_def new_group_def)
  qed (use nth in simp_all)
qed

lemma take_slot_shared:
  assumes wf: "alm_wf m" and l: "leader (entries m) p" and c: "counter (entries m ! p) \<noteq> - 1"
  shows "take_slot m addr segs p = (- EEXIST, m\<lparr>entries := (entries m)[p := (entries m ! p)\<lparr>counter :=
      counter (entries m ! p) + 1\<rparr>]\<rparr>)"
    and "alm_wf (m\<lparr>entries := (entries m)[p := (entries m ! p)\<lparr>counter := counter (entries m ! p) + 1\<rparr>]\<rparr>)"
proof -
  show "take_slot m addr segs p = (- EEXIST, m\<lparr>entries := (entries m)[p := (entries m ! p)\<lparr>counter :=
      counter (entries m ! p) + 1\<rparr>]\<rparr>)"
    using l by (simp add: take_slot_def Let_def leader_def)
  have "counter (entries m ! p) + 1 \<noteq> 0" using c by (metis add.commute add_eq_0_iff)
  from wf_set_counter [OF alm_wfD(3) [OF wf] l this]
  show "alm_wf (m\<lparr>entries := (entries m)[p := (entries m ! p)\<lparr>counter := counter (entries m ! p) + 1\<rparr>]\<rparr>)"
    by (intro alm_wf_upd [OF wf]) simp_all
qed

text \<open>Deleting through any segment of a group drops one reference of the whole group.\<close>

definition drop_ref :: "plx_alm_arr_entry list \<Rightarrow> nat \<Rightarrow> plx_alm_arr_entry list" where
  "drop_ref es l = (if counter (es ! l) = 1 then clear_entries es l (span es l)
                    else es[l := (es ! l)\<lparr>counter := counter (es ! l) - 1\<rparr>])"

lemma del_entry_group:
  assumes wf: "alm_wf m" and l: "leader (entries m) l" and id: "l \<le> unat sid" "unat sid < l + span (entries m) l"
  shows "plx_alm_del_entry m sid =
      Ret (if counter (entries m ! l) = 1 then Some (of_nat l, of_nat (span (entries m) l)) else None,
           m\<lparr>entries := drop_ref (entries m) l\<rparr>)"
    and "alm_wf (m\<lparr>entries := drop_ref (entries m) l\<rparr>)"
proof -
  let ?es = "entries m"
  note t = alm_wfD(3) [OF wf]
  have s: "unat (start (?es ! unat sid)) = l" using group_okD(1) [OF wf_group [OF t l] id] .
  have c0: "counter (?es ! l) \<noteq> 0" and lt: "l < length ?es" using l by (auto simp: leader_def)
  have one: "counter (?es ! l) - 1 = 0 \<longleftrightarrow> counter (?es ! l) = 1" by (simp add: algebra_simps)
  have clr: "clear_entries (?es[l := (?es ! l)\<lparr>counter := x\<rparr>]) l (span ?es l) = clear_entries ?es l (span ?es l)" for x
    using leader_region_free(3) [OF t l]
    by (auto simp: list_eq_iff_nth_eq nth_clear nth_list_update)
  show "plx_alm_del_entry m sid =
      Ret (if counter (?es ! l) = 1 then Some (of_nat l, of_nat (span ?es l)) else None,
           m\<lparr>entries := drop_ref ?es l\<rparr>)"
    using c0 lt clr by (auto simp: plx_alm_del_entry_def s Let_def one drop_ref_def span_def)
  have "table_wf (drop_ref ?es l)"
    using wf_clear_group(1) [OF t l] wf_set_counter [OF t l] one by (simp add: drop_ref_def)
  then show "alm_wf (m\<lparr>entries := drop_ref ?es l\<rparr>)"
    by (intro alm_wf_upd [OF wf]) (simp_all add: drop_ref_def)
qed

text \<open>Group \<open>l\<close> of the first table is in the second one, unchanged.\<close>

definition kept :: "plx_alm_arr_entry list \<Rightarrow> plx_alm_arr_entry list \<Rightarrow> nat \<Rightarrow> bool" where
  "kept es es' l \<longleftrightarrow> leader es' l \<and> (\<forall>j. l \<le> j \<longrightarrow> j < l + span es l \<longrightarrow> es' ! j = es ! j)"

lemma kept_refl: "leader es l \<Longrightarrow> kept es es l"
  by (simp add: kept_def)

lemma kept_span: "kept es es' l \<Longrightarrow> 0 < span es l \<Longrightarrow> span es' l = span es l"
  by (auto simp: kept_def span_def)

lemma kept_trans: "kept es es' l \<Longrightarrow> kept es' es'' l \<Longrightarrow> 0 < span es l \<Longrightarrow> kept es es'' l"
  using kept_span [of es es' l] by (auto simp: kept_def)

lemma kept_clear:
  assumes t: "table_wf es" and l: "leader es l" and p: "leader es p" "l \<noteq> p"
  shows "kept es (clear_entries es p (span es p)) l"
proof -
  have "l + span es l \<le> p \<or> p + span es p \<le> l"
    using leaders_apart [OF t l p(1)] leaders_apart [OF t p(1) l] p(2) by (cases "l < p") auto
  moreover have "l + span es l \<le> length es" "0 < span es l" using leader_region_free [OF t l] by auto
  ultimately show ?thesis
    using l by (auto simp: kept_def leader_def nth_clear)
qed

lemma clear_leader:
  assumes "leader (clear_entries es p k) l"
  shows "leader es l" "clear_entries es p k ! l = es ! l"
  using assms by (auto simp: leader_def nth_clear null_entry_def split: if_splits)

text \<open>The clean-up drops the unused groups, and only these.\<close>

lemma cleanup_loop_spec:
  assumes "alm_wf m" "n = length (entries m)"
  shows "\<exists>nums' es'. cleanup_loop n m i nums = Ret (nums', m\<lparr>entries := es'\<rparr>) \<and>
     alm_wf (m\<lparr>entries := es'\<rparr>) \<and> nums \<le> nums' \<and> (nums' = nums \<longrightarrow> es' = entries m) \<and>
     (\<forall>l. leader es' l \<longrightarrow> leader (entries m) l \<and> es' ! l = entries m ! l \<and> (i \<le> l \<longrightarrow> counter (es' ! l) \<noteq> 1)) \<and>
     (\<forall>l. leader (entries m) l \<longrightarrow> l < i \<or> counter (entries m ! l) \<noteq> 1 \<longrightarrow> kept (entries m) es' l)"
  using assms
proof (induction n m i nums rule: cleanup_loop.induct)
  case (1 n m i nums)
  let ?es = "entries m"
  note t = alm_wfD(3) [OF 1(3)]
  show ?case
  proof (cases "i < n")
    case False
    then show ?thesis
      using 1(3,4) by (subst cleanup_loop.simps) (auto simp: leader_def kept_refl)
  next
    case lt: True
    show ?thesis
    proof (cases "counter (?es ! i) = 1")
      case False
      then have eq: "cleanup_loop n m i nums = cleanup_loop n m (i + 1) nums"
        using lt by (subst cleanup_loop.simps) simp
      from 1(2) [OF lt False 1(3,4)] obtain nums' es' where IH:
        "cleanup_loop n m (i + 1) nums = Ret (nums', m\<lparr>entries := es'\<rparr>)" "alm_wf (m\<lparr>entries := es'\<rparr>)"
        "nums \<le> nums'" "nums' = nums \<longrightarrow> es' = ?es"
        "\<And>l. leader es' l \<Longrightarrow> leader ?es l \<and> es' ! l = ?es ! l \<and> (i + 1 \<le> l \<longrightarrow> counter (es' ! l) \<noteq> 1)"
        "\<And>l. leader ?es l \<Longrightarrow> l < i + 1 \<or> counter (?es ! l) \<noteq> 1 \<Longrightarrow> kept ?es es' l"
        by blast
      have "counter (es' ! l) \<noteq> 1" if "leader es' l" "i \<le> l" for l
        using IH(5) [OF that(1)] that(2) False by (cases "l = i") auto
      with IH show ?thesis unfolding eq by (intro exI [of _ nums'] exI [of _ es']) auto
    next
      case one: True
      then have l: "leader ?es i" using lt 1(4) by (simp add: leader_def)
      have id: "unat (of_nat i :: u32) = i"
        using lt 1(4) alm_wfD(2) [OF 1(3)] by (simp add: unat_of_nat take_bit_nat_eq_self)
      let ?c = "clear_entries ?es i (span ?es i)"
      have d: "plx_alm_del_entry m (of_nat i) = Ret (Some (of_nat i, of_nat (span ?es i)), m\<lparr>entries := ?c\<rparr>)"
        and wf: "alm_wf (m\<lparr>entries := ?c\<rparr>)"
        using del_entry_group [OF 1(3) l, of "of_nat i"] leader_region_free(3) [OF t l] one
        by (simp_all add: id drop_ref_def)
      have eq: "cleanup_loop n m i nums = cleanup_loop n (m\<lparr>entries := ?c\<rparr>) (i + 1) (nums + 1)"
        using lt one d by (subst cleanup_loop.simps) simp
      have ln: "n = length (entries (m\<lparr>entries := ?c\<rparr>))" using 1(4) by simp
      from 1(1) [OF lt one d [unfolded prod.sel] refl wf ln] obtain nums' es' where IH:
        "cleanup_loop n (m\<lparr>entries := ?c\<rparr>) (i + 1) (nums + 1) = Ret (nums', m\<lparr>entries := es'\<rparr>)"
        "alm_wf (m\<lparr>entries := es'\<rparr>)" "nums + 1 \<le> nums'"
        "\<And>l. leader es' l \<Longrightarrow> leader ?c l \<and> es' ! l = ?c ! l \<and> (i + 1 \<le> l \<longrightarrow> counter (es' ! l) \<noteq> 1)"
        "\<And>l. leader ?c l \<Longrightarrow> l < i + 1 \<or> counter (?c ! l) \<noteq> 1 \<Longrightarrow> kept ?c es' l"
        by auto
      have "\<not> leader ?c i" using l leader_region_free(3) [OF t l] by (simp add: leader_def nth_clear null_entry_def)
      then have A: "leader ?es l \<and> es' ! l = ?es ! l \<and> (i \<le> l \<longrightarrow> counter (es' ! l) \<noteq> 1)" if "leader es' l" for l
        using IH(4) [OF that] clear_leader [of ?es i "span ?es i" l] by (cases "l = i") auto
      have B: "kept ?es es' l" if "leader ?es l" "l < i \<or> counter (?es ! l) \<noteq> 1" for l
      proof -
        have ne: "l \<noteq> i" using that one by auto
        have k: "kept ?es ?c l" by (rule kept_clear [OF t that(1) l ne])
        moreover have "?c ! l = ?es ! l" "leader ?c l"
          using k leader_region_free(3) [OF t that(1)] by (auto simp: kept_def)
        moreover have "l < i + 1 \<or> counter (?c ! l) \<noteq> 1" using that ne calculation by auto
        ultimately show ?thesis
          using IH(5) kept_trans leader_region_free(3) [OF t that(1)] by blast
      qed
      have A': "leader ?es l" "es' ! l = ?es ! l" "i \<le> l \<Longrightarrow> counter (es' ! l) \<noteq> 1" if "leader es' l" for l
        using A [OF that] by blast+
      show ?thesis unfolding eq
        by (rule exI [of _ nums'], rule exI [of _ es'], intro conjI allI impI)
          (erule A'(3) A'(2) A'(1) B IH(1) | use IH(1-3) in simp)+
    qed
  qed
qed

text \<open>Adding: a live group stays, with at least the references it had.\<close>

definition same_mapping :: "plx_alm_arr_entry list \<Rightarrow> plx_alm_arr_entry list \<Rightarrow> nat \<Rightarrow> bool" where
  "same_mapping es es' l \<longleftrightarrow> leader es' l \<and> span es' l = span es l \<and>
     e_value (es' ! l) = e_value (es ! l) \<and> counter (es ! l) \<le> counter (es' ! l)"

lemma same_mapping_trans: "same_mapping es es' l \<Longrightarrow> same_mapping es' es'' l \<Longrightarrow> same_mapping es es'' l"
  by (auto simp: same_mapping_def)

lemma kept_same_mapping: "kept es es' l \<Longrightarrow> 0 < span es l \<Longrightarrow> same_mapping es es' l"
  by (auto simp: kept_def same_mapping_def span_def)

definition added :: "plx_alm \<Rightarrow> u64 \<Rightarrow> nat \<Rightarrow> nat \<Rightarrow> u64 \<Rightarrow> int \<Rightarrow> plx_alm \<Rightarrow> bool" where
  "added m a k p idx rc m' \<longleftrightarrow> alm_wf m' \<and> segment_size m' = segment_size m \<and> (rc = 0 \<or> rc = - EEXIST) \<and>
     embeds m' a k p idx \<and> 2 \<le> unat (counter (entries m' ! p)) \<and>
     (\<forall>l. leader (entries m) l \<longrightarrow> same_mapping (entries m) (entries m') l)"

text \<open>No reference counter is about to wrap.\<close>

definition refs_ok :: "plx_alm \<Rightarrow> bool" where
  "refs_ok m \<longleftrightarrow> (\<forall>l. leader (entries m) l \<longrightarrow> counter (entries m ! l) \<noteq> - 1)"

lemma unat_plus1_u16: "c \<noteq> - 1 \<Longrightarrow> unat ((c :: u16) + 1) = unat c + 1"
  by (metis add.commute add_eq_0_iff unatSuc Suc_eq_plus1)

lemma take_slot_added:
  assumes wf: "alm_wf m" and refs: "refs_ok m" and r: "slot_result m a (unat segs) (Some p) idx"
  shows "\<exists>rc m'. take_slot m a segs p = (rc, m') \<and> added m a (unat segs) p idx rc m'"
proof (cases "embeds m a (unat segs) p idx")
  case True
  let ?es = "entries m" let ?es' = "?es[p := (?es ! p)\<lparr>counter := counter (?es ! p) + 1\<rparr>]"
  have l: "leader ?es p" using True by (simp add: embeds_def)
  then have c: "counter (?es ! p) \<noteq> - 1" and lt: "p < length ?es" and c0: "counter (?es ! p) \<noteq> 0"
    using refs by (auto simp: refs_ok_def leader_def)
  have u: "unat (counter (?es ! p) + 1) = unat (counter (?es ! p)) + 1" by (rule unat_plus1_u16 [OF c])
  have pos: "0 < unat (counter (?es ! p))" using c0 by (simp add: unat_gt_0)
  have nz: "counter (?es ! p) + 1 \<noteq> 0" using u by (metis unat_0 add_is_0 one_neq_zero)
  have sm: "same_mapping ?es ?es' l" if "leader ?es l" for l
    using that lt u nz by (cases "l = p") (simp_all add: same_mapping_def leader_def span_def word_le_nat_alt)
  have "embeds (m\<lparr>entries := ?es'\<rparr>) a (unat segs) p idx"
    using True sm [OF l] by (auto simp: embeds_def same_mapping_def)
  then have "added m a (unat segs) p idx (- EEXIST) (m\<lparr>entries := ?es'\<rparr>)"
    unfolding added_def using take_slot_shared(2) [OF wf l c] sm u pos lt by simp
  with take_slot_shared(1) [OF wf l c] show ?thesis by blast
next
  case False
  let ?k = "unat segs"
  from False r have run: "free_run (entries m) p ?k" and k: "0 < ?k" and idx: "idx = 0"
    by (auto simp: slot_result_def)
  from take_slot_fresh [OF wf run k] obtain m' where m': "take_slot m a segs p = (0, m')"
    "segment_size m' = segment_size m" "segments_num m' = segments_num m" "alm_wf m'" "leader (entries m') p"
    "\<And>j. j < length (entries m) \<Longrightarrow> entries m' ! j =
      (if p \<le> j \<and> j < p + ?k then new_group a p ?k j else entries m ! j)" by blast
  have pk: "p + ?k \<le> length (entries m)" using run by (simp add: free_run_def)
  have len: "length (entries m') = length (entries m)" using alm_wfD(1) [OF m'(4)] alm_wfD(1) [OF wf] m'(3) by simp
  have ep: "entries m' ! p = new_group a p ?k p" using m'(6) [of p] pk k by simp
  have sp: "span (entries m') p = ?k"
    using pk alm_wfD(2) [OF wf] unat_small_u16 [of ?k] by (simp add: span_def ep new_group_def)
  have sm: "same_mapping (entries m) (entries m') l" if l: "leader (entries m) l" for l
  proof (rule kept_same_mapping)
    have cov: "covered (entries m) j" if "l \<le> j" "j < l + span (entries m) l" for j
      using l that by (auto simp: covered_from_def)
    have le: "l + span (entries m) l \<le> length (entries m)" "0 < span (entries m) l"
      using leader_region_free [OF alm_wfD(3) [OF wf] l] by auto
    have same: "entries m' ! j = entries m ! j" if "l \<le> j" "j < l + span (entries m) l" for j
      using m'(6) [of j] cov [OF that] le that run by (auto simp: free_run_def)
    show "kept (entries m) (entries m') l"
      unfolding kept_def using same same [of l] le l len by (auto simp: leader_def)
    show "0 < span (entries m) l" by (rule le(2))
  qed
  have "added m a ?k p idx 0 m'"
    unfolding added_def using m'(2,4,5) sm ep sp idx
    by (simp add: embeds_def new_group_def)
  with m'(1) show ?thesis by blast
qed

lemma cleanup_none:
  "(\<forall>j < n. counter (entries m ! j) \<noteq> 1) \<Longrightarrow> cleanup_loop n m i nums = Ret (nums, m)"
  by (induction n m i nums rule: cleanup_loop.induct) (subst cleanup_loop.simps, simp)

text \<open>The result of an addition, and what it keeps.\<close>

definition masked :: "plx_alm \<Rightarrow> u64 \<Rightarrow> u64" where
  "masked m addr = addr AND NOT (translation_mask m)"

definition add_outcome ::
  "plx_alm \<Rightarrow> u64 \<Rightarrow> u64 \<Rightarrow> int \<Rightarrow> (u32 \<times> u32) option \<Rightarrow> plx_alm \<Rightarrow> bool" where
  "add_outcome m addr sz rc out m' \<longleftrightarrow> alm_wf m' \<and> segment_size m' = segment_size m \<and>
     (\<forall>l. leader (entries m) l \<longrightarrow> counter (entries m ! l) \<noteq> 1 \<longrightarrow> same_mapping (entries m) (entries m') l) \<and>
     (case out of
        Some (sid, n) \<Rightarrow> (rc = 0 \<or> rc = - EEXIST) \<and> n = segments_needed m addr sz \<and>
          (\<exists>p idx. sid = of_nat p + ucast idx \<and> embeds m' (masked m addr) (unat n) p idx \<and>
             2 \<le> unat (counter (entries m' ! p)))
      | None \<Rightarrow> rc = - ENOMEM \<and> (sz > segment_size m * ucast (segments_num m) \<or>
          no_run (entries m') (unat (segments_needed m addr sz)) (length (entries m')) \<and>
          (\<forall>l. leader (entries m') l \<longrightarrow> counter (entries m' ! l) \<noteq> 1)))"

lemma add_found:
  assumes wf: "alm_wf m" and refs: "refs_ok m" and fit: "\<not> sz > segment_size m * ucast (segments_num m)"
    and f: "find_slot m (masked m addr) (segments_needed m addr sz) 0 0 None = Some (Some p, idx)"
    and r: "slot_result m (masked m addr) (unat (segments_needed m addr sz)) (Some p) idx"
  shows "\<exists>rc out m'. plx_alm_add_entry m addr sz = Some (Ret (rc, out, m')) \<and> add_outcome m addr sz rc out m'"
proof -
  from take_slot_added [OF wf refs r] obtain rc m' where
    t: "take_slot m (masked m addr) (segments_needed m addr sz) p = (rc, m')"
    and a: "added m (masked m addr) (unat (segments_needed m addr sz)) p idx rc m'" by blast
  have "plx_alm_add_entry m addr sz = Some (Ret (rc, Some (of_nat p + ucast idx, segments_needed m addr sz), m'))"
    using fit f t by (subst plx_alm_add_entry.simps) (simp add: Let_def masked_def)
  moreover have "add_outcome m addr sz rc (Some (of_nat p + ucast idx, segments_needed m addr sz)) m'"
    using a unfolding add_outcome_def added_def by auto
  ultimately show ?thesis by blast
qed

lemma add_full:
  assumes wf: "alm_wf m" and fit: "\<not> sz > segment_size m * ucast (segments_num m)"
    and f: "find_slot m (masked m addr) (segments_needed m addr sz) 0 0 None = Some (None, idx)"
    and r: "slot_result m (masked m addr) (unat (segments_needed m addr sz)) None idx"
    and live: "\<forall>l. leader (entries m) l \<longrightarrow> counter (entries m ! l) \<noteq> 1"
  shows "\<exists>rc out m'. plx_alm_add_entry m addr sz = Some (Ret (rc, out, m')) \<and> add_outcome m addr sz rc out m'"
proof -
  have "\<forall>j < unat (segments_num m). counter (entries m ! j) \<noteq> 1"
    using live alm_wfD(1) [OF wf] by (auto simp: leader_def)
  then have c: "plx_alm_cleanup_unused_entry m = Ret (0, m)"
    unfolding plx_alm_cleanup_unused_entry_def by (rule cleanup_none)
  have "plx_alm_add_entry m addr sz = Some (Ret (- ENOMEM, None, m))"
    using fit f c by (subst plx_alm_add_entry.simps) (simp add: Let_def masked_def)
  moreover have "add_outcome m addr sz (- ENOMEM) None m"
    unfolding add_outcome_def
    using wf r live leader_region_free(3) [OF alm_wfD(3) [OF wf]]
    by (simp add: slot_result_def same_mapping_def)
  ultimately show ?thesis by blast
qed

lemma add_entry_outcome:
  assumes wf: "alm_wf m" and refs: "refs_ok m"
  shows "\<exists>rc out m'. plx_alm_add_entry m addr sz = Some (Ret (rc, out, m')) \<and> add_outcome m addr sz rc out m'"
proof (cases "sz > segment_size m * ucast (segments_num m)")
  case True
  then have "plx_alm_add_entry m addr sz = Some (Ret (- ENOMEM, None, m))"
    by (subst plx_alm_add_entry.simps) simp
  moreover have "add_outcome m addr sz (- ENOMEM) None m"
    unfolding add_outcome_def using True wf by (simp add: same_mapping_def)
  ultimately show ?thesis by blast
next
  case fit: False
  let ?a = "masked m addr" and ?s = "segments_needed m addr sz"
  have start: "boundary es 0" for es by (simp add: boundary_def)
  from find_slot_spec [OF wf start search_inv_start]
  obtain r idx where f: "find_slot m ?a ?s 0 0 None = Some (r, idx)" "slot_result m ?a (unat ?s) r idx" by blast
  show ?thesis
  proof (cases r)
    case (Some p)
    with f show ?thesis using add_found [OF wf refs fit] by blast
  next
    case None
    from cleanup_loop_spec [OF wf alm_wfD(1) [OF wf, symmetric], of 0 0]
    obtain nums es where c: "plx_alm_cleanup_unused_entry m = Ret (nums, m\<lparr>entries := es\<rparr>)"
      and wf1: "alm_wf (m\<lparr>entries := es\<rparr>)" and z: "nums = 0 \<longrightarrow> es = entries m"
      and le: "\<And>l. leader es l \<Longrightarrow> leader (entries m) l \<and> es ! l = entries m ! l \<and> counter (es ! l) \<noteq> 1"
      and kept: "\<And>l. leader (entries m) l \<Longrightarrow> counter (entries m ! l) \<noteq> 1 \<Longrightarrow> kept (entries m) es l"
      unfolding plx_alm_cleanup_unused_entry_def by blast
    let ?m1 = "m\<lparr>entries := es\<rparr>"
    have ne1: "leader es l \<Longrightarrow> counter (es ! l) \<noteq> 1" for l using le by blast
    show ?thesis
    proof (cases "nums = 0")
      case True
      with f None z ne1 show ?thesis by (intro add_full [OF wf fit, of addr idx]) auto
    next
      case False
      then have eq: "plx_alm_add_entry m addr sz = plx_alm_add_entry ?m1 addr sz"
        using fit f(1) None c by (subst plx_alm_add_entry.simps) (simp add: Let_def masked_def)
      have refs1: "refs_ok ?m1" using refs le by (auto simp: refs_ok_def)
      have fit1: "\<not> sz > segment_size ?m1 * ucast (segments_num ?m1)" using fit by simp
      from find_slot_spec [OF wf1 start search_inv_start]
      obtain r1 idx1 where f1: "find_slot ?m1 (masked ?m1 addr) (segments_needed ?m1 addr sz) 0 0 None = Some (r1, idx1)"
        "slot_result ?m1 (masked ?m1 addr) (unat (segments_needed ?m1 addr sz)) r1 idx1" by blast
      have "\<exists>rc out m'. plx_alm_add_entry ?m1 addr sz = Some (Ret (rc, out, m')) \<and> add_outcome ?m1 addr sz rc out m'"
      proof (cases r1)
        case None
        with f1 ne1 show ?thesis by (intro add_full [OF wf1 fit1, of addr idx1]) auto
      next
        case (Some p)
        with f1 show ?thesis using add_found [OF wf1 refs1 fit1] by blast
      qed
      then obtain rc out m' where a: "plx_alm_add_entry ?m1 addr sz = Some (Ret (rc, out, m'))"
        "add_outcome ?m1 addr sz rc out m'" by blast
      have "same_mapping (entries m) (entries m') l"
        if l: "leader (entries m) l" "counter (entries m ! l) \<noteq> 1" for l
      proof -
        have sm: "same_mapping (entries m) es l"
          using kept_same_mapping [OF kept [OF l]] leader_region_free(3) [OF alm_wfD(3) [OF wf] l(1)] by blast
        then have "leader es l" by (simp add: same_mapping_def)
        with ne1 have "same_mapping es (entries m') l" using a(2) by (simp add: add_outcome_def)
        with sm show ?thesis by (rule same_mapping_trans)
      qed
      moreover have eqs: "masked ?m1 addr = masked m addr" "segments_needed ?m1 addr sz = segments_needed m addr sz"
        "segment_size ?m1 = segment_size m" "segments_num ?m1 = segments_num m"
        by (simp_all add: masked_def translation_mask_def segments_needed_def)
      ultimately have "add_outcome m addr sz rc out m'"
        using a(2) unfolding add_outcome_def eqs by blast
      with a eq show ?thesis by auto
    qed
  qed
qed

section \<open>The table as a machine\<close>

text \<open>The calls of the driver, and the precondition of each.\<close>

datatype alm_op = Alm_add u64 u64 | Alm_del u32 | Alm_reset

definition alm_step :: "alm_op \<Rightarrow> plx_alm \<Rightarrow> plx_alm outcome" where
  "alm_step x m =
     (case x of
        Alm_add addr sz \<Rightarrow>
          (case plx_alm_add_entry m addr sz of
             Some (Ret (rc, out, m')) \<Rightarrow> Ret m' | _ \<Rightarrow> Abort)
      | Alm_del sid \<Rightarrow> (case plx_alm_del_entry m sid of Ret (out, m') \<Rightarrow> Ret m' | Abort \<Rightarrow> Abort)
      | Alm_reset \<Rightarrow> plx_alm_reset m)"

definition alm_guard :: "plx_alm \<Rightarrow> alm_op \<Rightarrow> bool" where
  "alm_guard m x \<longleftrightarrow>
     (case x of
        Alm_add addr sz \<Rightarrow> refs_ok m
      | Alm_del sid \<Rightarrow> covered (entries m) (unat sid)
      | Alm_reset \<Rightarrow> True)"

lemma wf_replicate_null: "table_wf (replicate n null_entry)"
  by (auto simp: table_wf_from_def leader_def null_entry_def)

lemma clear_all: "clear_entries es 0 (length es) = replicate (length es) null_entry"
  by (simp add: list_eq_iff_nth_eq nth_clear)

lemma check_ok:
  "length (entries m) = unat (segments_num m) \<Longrightarrow>
     plx_alm_check m = (if table_wf (entries m) then Ret 0 else Abort)"
  by (simp add: plx_alm_check_def check_loop_iff)

lemma reset_wf:
  assumes "alm_wf m"
  shows "plx_alm_reset m = Ret (m\<lparr>entries := replicate (length (entries m)) null_entry\<rparr>)"
    "alm_wf (m\<lparr>entries := replicate (length (entries m)) null_entry\<rparr>)"
proof -
  have "plx_alm_check m = Ret 0" using check_ok alm_wfD [OF assms] by simp
  then show "plx_alm_reset m = Ret (m\<lparr>entries := replicate (length (entries m)) null_entry\<rparr>)"
    using clear_all alm_wfD(1) [OF assms] by (simp add: plx_alm_reset_def del: length_clear) metis
  show "alm_wf (m\<lparr>entries := replicate (length (entries m)) null_entry\<rparr>)"
    by (rule alm_wf_upd [OF assms]) (simp_all add: wf_replicate_null)
qed

interpretation alm: guarded_machine alm_step alm_wf alm_guard
proof unfold_locales
  fix m x assume wf: "alm_wf m" and g: "alm_guard m x"
  show "\<exists>m'. alm_step x m = Ret m' \<and> alm_wf m'"
  proof (cases x)
    case (Alm_add addr sz)
    with g have "refs_ok m" by (simp add: alm_guard_def)
    from add_entry_outcome [OF wf this, of addr sz] Alm_add show ?thesis
      by (auto simp: alm_step_def add_outcome_def)
  next
    case (Alm_del sid)
    with g obtain l where "leader (entries m) l" "l \<le> unat sid" "unat sid < l + span (entries m) l"
      by (auto simp: alm_guard_def covered_from_def)
    from del_entry_group [OF wf this] Alm_del show ?thesis by (simp add: alm_step_def)
  next
    case Alm_reset
    with reset_wf [OF wf] show ?thesis by (simp add: alm_step_def)
  qed
qed

section \<open>Properties\<close>

text \<open>
  C18. The driver's consistency check is complete and sound: it passes exactly when the table is
  well formed, that is, every used entry leads a group that lies in the table, whose members
  point back to it and carry no count of their own, and all other entries are zero.
\<close>
theorem check_accepts_wf:
  assumes "length (entries m) = unat (segments_num m)"
  shows "plx_alm_check m = Ret 0 \<longleftrightarrow>
    (\<forall>l. leader (entries m) l \<longrightarrow> group_ok (entries m) l) \<and>
    (\<forall>j < length (entries m). (\<exists>l. leader (entries m) l \<and> l \<le> j \<and> j < l + span (entries m) l) \<or>
        entries m ! j = null_entry)"
  using check_ok [OF assms] by (auto simp: table_wf_from_def covered_from_def)

text \<open>
  Initialisation for 1 to 256 bridges gives an empty well-formed table with its share of the
  256 segments, each of an equal part of the aperture. A failed allocation does not give the
  documented -ENOMEM: the check that follows runs over a NULL array.
\<close>
theorem init_establishes:
  assumes "0 < n" and "n \<le> 256"
  shows "(\<exists>m. plx_alm_init True g n len = Ret (0, m) \<and> alm_wf m \<and>
      unat (segments_num m) = nat (256 div n) \<and> segment_size m = len div ucast (segments_num m) \<and>
      entries m = replicate (nat (256 div n)) null_entry) \<and>
    plx_alm_init False g n len = Abort"
proof -
  let ?k = "256 div n" let ?w = "word_of_int ?k :: u32"
  have k: "0 < ?k" "?k \<le> 256"
    using assms pos_imp_zdiv_pos_iff [of n 256] zdiv_mono2 [of 256 1 n] by simp_all
  have "take_bit 32 ?k = ?k" using k by (simp add: take_bit_int_eq_self)
  then have u: "unat ?w = nat ?k" by (simp add: unsigned_of_int)
  then have nz: "?w \<noteq> 0" using k by (metis nat_0_iff not_le unat_0)
  let ?m = "g\<lparr>segments_num := ?w, segment_size := len div ucast ?w, entries := replicate (unat ?w) null_entry\<rparr>"
  have wf: "alm_wf ?m" using k by (simp add: alm_wf_def u wf_replicate_null)
  then have "plx_alm_check ?m = Ret 0" using check_ok [of ?m] by (simp add: alm_wf_def)
  then have "plx_alm_init True g n len = Ret (0, ?m)"
    using assms nz by (simp add: plx_alm_init_def)
  with wf u assms nz show ?thesis by (auto simp: plx_alm_init_def)
qed

text \<open>
  C16. Adding a mapping to a well-formed table without a saturated reference counter always returns, after at most one clean-up, and
  leaves the table well formed. On success the range lies inside one group whose segment
  arithmetic finds it and that has a user reference; on failure no free run of the needed length
  is left and every remaining group is in use. Mappings in use are never moved or dropped.
\<close>
theorem add_entry_safe:
  assumes "alm_wf m" and "refs_ok m"
  shows "\<exists>rc out m'. plx_alm_add_entry m addr sz = Some (Ret (rc, out, m')) \<and> alm_wf m' \<and>
    (\<forall>l. leader (entries m) l \<longrightarrow> counter (entries m ! l) \<noteq> 1 \<longrightarrow> same_mapping (entries m) (entries m') l) \<and>
    (case out of
       Some (sid, n) \<Rightarrow> (rc = 0 \<or> rc = - EEXIST) \<and> n = segments_needed m addr sz \<and>
         (\<exists>p idx. sid = of_nat p + ucast idx \<and> embeds m' (masked m addr) (unat n) p idx \<and>
            2 \<le> unat (counter (entries m' ! p)))
     | None \<Rightarrow> rc = - ENOMEM \<and> (sz > segment_size m * ucast (segments_num m) \<or>
         no_run (entries m') (unat (segments_needed m addr sz)) (length (entries m')) \<and>
         (\<forall>l. leader (entries m') l \<longrightarrow> counter (entries m' ! l) \<noteq> 1)))"
  using add_entry_outcome [OF assms, of addr sz] unfolding add_outcome_def by blast

text \<open>
  C17. Deleting through any segment of a group releases one reference of that group and no other
  entry. The group is cleared, and reported for clearing in the hardware with its first segment
  and length, exactly when the last reference goes.
\<close>
theorem del_entry_releases:
  assumes "alm_wf m" and "leader (entries m) l" and "l \<le> unat sid" and "unat sid < l + span (entries m) l"
  shows "\<exists>m'. plx_alm_del_entry m sid =
      Ret (if counter (entries m ! l) = 1 then Some (of_nat l, of_nat (span (entries m) l)) else None, m') \<and>
    alm_wf m' \<and>
    (\<forall>j < length (entries m). entries m' ! j =
       (if l \<le> j \<and> j < l + span (entries m) l \<and> counter (entries m ! l) = 1 then null_entry
        else if j = l then (entries m ! j)\<lparr>counter := counter (entries m ! j) - 1\<rparr>
        else entries m ! j))"
proof -
  have "drop_ref (entries m) l ! j =
       (if l \<le> j \<and> j < l + span (entries m) l \<and> counter (entries m ! l) = 1 then null_entry
        else if j = l then (entries m ! j)\<lparr>counter := counter (entries m ! j) - 1\<rparr>
        else entries m ! j)" if "j < length (entries m)" for j
    using that leader_region_free(3) [OF alm_wfD(3) [OF assms(1)] assms(2)]
    by (auto simp: drop_ref_def nth_clear)
  with del_entry_group [OF assms] show ?thesis by (intro exI [of _ "m\<lparr>entries := drop_ref (entries m) l\<rparr>"]) simp
qed

text \<open>
  Any sequence of additions, deletions and resets the driver may issue (deletions only
  through segments of a group, additions while no counter is at its maximum) runs to its end
  without hitting a kernel assertion and leaves the table well formed.
\<close>
theorem alm_runs_safe:
  assumes "alm_wf m" and "alm.guarded xs m"
  shows "\<exists>m'. alm.run xs m = Ret m' \<and> alm_wf m'"
  by (rule alm.run_safe [OF assms])

text \<open>
  The reference counter has 16 bits and no guard: sharing a group whose counter is at its
  maximum wraps it to 0, so the group, still in use, looks free and the table is corrupt.
\<close>
theorem refcount_wraps:
  assumes "alm_wf m" and "leader (entries m) p" and "counter (entries m ! p) = - 1"
  shows "\<exists>m'. take_slot m addr segs p = (- EEXIST, m') \<and> counter (entries m' ! p) = 0 \<and>
    e_value (entries m' ! p) = e_value (entries m ! p) \<and> plx_alm_check m' = Abort"
proof -
  let ?es = "entries m" let ?m' = "m\<lparr>entries := ?es[p := (?es ! p)\<lparr>counter := 0\<rparr>]\<rparr>"
  have lt: "p < length ?es" using assms(2) by (simp add: leader_def)
  have t: "take_slot m addr segs p = (- EEXIST, ?m')"
    using assms(3) by (simp add: take_slot_def Let_def)
  have sp: "0 < span ?es p" using leader_region_free(3) [OF alm_wfD(3) [OF assms(1)] assms(2)] .
  have c: "entries ?m' ! p = (?es ! p)\<lparr>counter := 0\<rparr>" using lt by simp
  have "\<not> covered (entries ?m') p"
  proof
    assume "covered (entries ?m') p"
    then obtain l where l: "leader (entries ?m') l" "l \<le> p" "p < l + span (entries ?m') l"
      by (auto simp: covered_from_def)
    then have ne: "l \<noteq> p" using c by (auto simp: leader_def)
    with l have "leader ?es l" "l < p" "p < l + span ?es l" by (auto simp: leader_def span_def)
    with leaders_apart [OF alm_wfD(3) [OF assms(1)] _ assms(2)] show False by fastforce
  qed
  moreover have "segments_count (entries ?m' ! p) \<noteq> 0" using sp c by (auto simp: span_def unat_gt_0)
  then have "entries ?m' ! p \<noteq> null_entry" by (auto simp: null_entry_iff)
  ultimately have "\<not> table_wf (entries ?m')" using lt by (auto simp: table_wf_from_def)
  then have "plx_alm_check ?m' = Abort" using check_ok [of ?m'] alm_wfD(1) [OF assms(1)] by simp
  with t c show ?thesis by auto
qed

text \<open>A table with one group of two segments, in use.\<close>

definition alm_example :: "u16 \<Rightarrow> plx_alm" where
  "alm_example c = \<lparr>segments_num = 4, segment_size = 4096, entries =
     [\<lparr>e_value = 65536, counter = c, segments_count = 2, start = 0\<rparr>, null_entry, null_entry, null_entry]\<rparr>"

lemma alm_example_wf: "alm_wf (alm_example 2)" "alm_wf (alm_example (- 1))"
proof -
  have "plx_alm_check (alm_example 2) = Ret 0" "plx_alm_check (alm_example (- 1)) = Ret 0" by code_simp+
  moreover have "length (entries (alm_example c)) = unat (segments_num (alm_example c))" for c
    by (simp add: alm_example_def)
  ultimately show "alm_wf (alm_example 2)" "alm_wf (alm_example (- 1))"
    by (auto simp: alm_wf_def check_ok alm_example_def split: if_splits)
qed

lemma alm_example_leader: "c \<noteq> 0 \<Longrightarrow> leader (entries (alm_example c)) l \<longleftrightarrow> l = 0"
  by (auto simp: leader_def alm_example_def null_entry_def less_Suc_eq numeral_eq_Suc)

lemma alm_example_refs: "refs_ok (alm_example 2)"
  by (simp add: refs_ok_def alm_example_leader) (simp add: alm_example_def)

theorem check_accepts_wf_witness:
  "plx_alm_check (alm_example 2) = Ret 0 \<and> group_ok (entries (alm_example 2)) 0"
proof -
  have l: "length (entries (alm_example 2)) = unat (segments_num (alm_example 2))" by (simp add: alm_example_def)
  have "plx_alm_check (alm_example 2) = Ret 0" by code_simp
  with check_accepts_wf [OF l] show ?thesis by (auto simp: alm_example_leader)
qed

theorem init_establishes_witness:
  "\<exists>m. plx_alm_init True (alm_example 2) 4 4194304 = Ret (0, m) \<and> alm_wf m \<and> unat (segments_num m) = 64"
  using init_establishes [of 4 "alm_example 2" 4194304] by auto

theorem add_entry_safe_witness:
  "\<exists>rc out m'. plx_alm_add_entry (alm_example 2) 65541 8 = Some (Ret (rc, out, m')) \<and> alm_wf m' \<and>
     same_mapping (entries (alm_example 2)) (entries m') 0"
proof -
  have l: "leader (entries (alm_example 2)) 0" by (simp add: alm_example_leader)
  have "counter (entries (alm_example 2) ! 0) \<noteq> 1" by (simp add: alm_example_def)
  with l add_entry_safe [OF alm_example_wf(1) alm_example_refs, of 65541 8] show ?thesis by blast
qed

theorem del_entry_releases_witness:
  "\<exists>m'. plx_alm_del_entry (alm_example 2) 1 = Ret (None, m') \<and> alm_wf m'"
proof -
  have "leader (entries (alm_example 2)) 0" by (simp add: alm_example_leader)
  moreover have "unat (1 :: u32) < 0 + span (entries (alm_example 2)) 0" by (simp add: span_def alm_example_def)
  moreover have "counter (entries (alm_example 2) ! 0) \<noteq> 1" by (simp add: alm_example_def)
  ultimately show ?thesis
    using del_entry_releases [OF alm_example_wf(1), of 0 1] by auto
qed

theorem alm_runs_safe_witness:
  "\<exists>m'. alm.run [Alm_add 65541 8, Alm_reset] (alm_example 2) = Ret m' \<and> alm_wf m'"
proof (rule alm_runs_safe [OF alm_example_wf(1)])
  show "alm.guarded [Alm_add 65541 8, Alm_reset] (alm_example 2)"
    by (simp add: alm_guard_def alm_example_refs split: outcome.split)
qed

theorem refcount_wraps_witness:
  "\<exists>m'. take_slot (alm_example (- 1)) 65536 1 0 = (- EEXIST, m') \<and> counter (entries m' ! 0) = 0 \<and>
     plx_alm_check m' = Abort"
proof -
  have "leader (entries (alm_example (- 1))) 0" by (simp add: alm_example_leader)
  moreover have "counter (entries (alm_example (- 1)) ! 0) = - 1" by (simp add: alm_example_def)
  ultimately show ?thesis using refcount_wraps [OF alm_example_wf(2), of 0 65536 1] by blast
qed

end
