(* ===== verification/Plx_Hw.thy ===== *)
theory Plx_Hw
  imports Plx_Alm
begin

text \<open>
  The registers of the bridge (\<open>plx87xx/plx_hw.c\<close>, \<open>plx_hw.h\<close>, \<open>plx_device.h\<close>): the window into the memory
  of the other side with its translation registers, the scratchpads, doorbells, pins and the set-up.

  The BAR of the registers is a memory of 32-bit words addressed by byte offset. A pointer into the
  window is its virtual address, \<open>None\<close> is NULL. The place of the device in the PCI tree, what a read of
  its configuration space gives and whether memory can be allocated are parameters. A dereference of
  NULL and an assertion of the table of segments are \<open>Abort\<close>. Locks and log messages have no counterpart.
\<close>

section \<open>Data\<close>

record vca_mw =
  mw_pa :: u64
  mw_va :: u64
  mw_len :: u64

record plx_device =
  mmio :: "u32 \<Rightarrow> u32"
  aper :: vca_mw
  port_id :: u32
  link_side :: bool
  num_ntbs :: int
  reg_base :: u32
  reg_base_peer :: u32
  a_lut :: bool
  a_lut_peer :: bool
  a_lut_array_base :: u32
  intr_reg_base :: u32
  peer_intr_reg_base :: u32
  a_lut_manager :: plx_alm
  mmio_link_offset :: u32

text \<open>
  A device on the PCI bus: its device id, the bridges above it up to the root, each with whether it is
  a root port, the number of its bus and its \<open>devfn\<close>, and the numbers of the busses from its own up.
\<close>

record pci_dev =
  device_id :: u16
  upstream :: "(bool \<times> u8 \<times> u8) list"
  bus_numbers :: "u8 list"

definition plx_mmio_read :: "plx_device \<Rightarrow> u32 \<Rightarrow> u32" where
  "plx_mmio_read x off = mmio x off"

definition plx_mmio_write :: "u32 \<Rightarrow> u32 \<Rightarrow> plx_device \<Rightarrow> plx_device" where
  "plx_mmio_write val off x = x\<lparr>mmio := (mmio x)(off := val)\<rparr>"

definition plx_link_mmio_read :: "plx_device \<Rightarrow> u32 \<Rightarrow> u32" where
  "plx_link_mmio_read x off = mmio x (mmio_link_offset x + off)"

definition ENXIO :: int where "ENXIO = 6"

definition PLX_SPAD0 :: u32 where "PLX_SPAD0 = 0xC6C"
definition PLX_BAR2_AT :: u32 where "PLX_BAR2_AT = 0xC3C"
definition PLX_BAR3_AT :: u32 where "PLX_BAR3_AT = 0xC40"
definition PLX_DBIS :: u32 where "PLX_DBIS = 0xC4C"
definition PLX_DBIMS :: u32 where "PLX_DBIMS = 0xC54"
definition PLX_DBIMC :: u32 where "PLX_DBIMC = 0xC58"
definition PLX_RID_LUT_ENABLE :: u32 where "PLX_RID_LUT_ENABLE = 0x00010001"
definition PLX_RID_LUT_ENABLE_1 :: u32 where "PLX_RID_LUT_ENABLE_1 = 1"
definition PLX_A_LUT_CONTROL :: u32 where "PLX_A_LUT_CONTROL = 0xc94"
definition PLX_A_LUT_ENABLE :: u32 where "PLX_A_LUT_ENABLE = push_bit 28 1 OR push_bit 31 1"
definition PLX_A_LUT_LOWER_RE_MAP_SUBARRAY_OFFSET :: u32 where "PLX_A_LUT_LOWER_RE_MAP_SUBARRAY_OFFSET = 0"
definition PLX_A_LUT_HIGHER_RE_MAP_SUBARRAY_OFFSET :: u32 where "PLX_A_LUT_HIGHER_RE_MAP_SUBARRAY_OFFSET = 0x400"
definition PLX_A_LUT_PERMISSION_SUBARRAY_OFFSET :: u32 where "PLX_A_LUT_PERMISSION_SUBARRAY_OFFSET = 0x800"
definition PLX_A_LUT_PERMISSION_WRITE_ENABLE :: u32 where "PLX_A_LUT_PERMISSION_WRITE_ENABLE = 1"
definition PLX_A_LUT_PERMISSION_READ_ENABLE :: u32 where "PLX_A_LUT_PERMISSION_READ_ENABLE = 2"
definition PLX_A_LUT_ARRAY_OFFSET :: u32 where "PLX_A_LUT_ARRAY_OFFSET = 0x1000"
definition PLX_A_LUT_MAX_ARRAY :: u32 where "PLX_A_LUT_MAX_ARRAY = 128"

lemmas lut_consts = PLX_A_LUT_LOWER_RE_MAP_SUBARRAY_OFFSET_def PLX_A_LUT_HIGHER_RE_MAP_SUBARRAY_OFFSET_def
  PLX_A_LUT_PERMISSION_SUBARRAY_OFFSET_def PLX_A_LUT_PERMISSION_WRITE_ENABLE_def
  PLX_A_LUT_PERMISSION_READ_ENABLE_def PLX_A_LUT_ARRAY_OFFSET_def PLX_A_LUT_MAX_ARRAY_def

section \<open>The window\<close>

definition plx_get_a_lut_entry_offset :: "u32 \<Rightarrow> u32" where
  "plx_get_a_lut_entry_offset idx =
     (let array_offset = (if idx \<ge> PLX_A_LUT_MAX_ARRAY then PLX_A_LUT_ARRAY_OFFSET else 0)
      in array_offset + (idx mod PLX_A_LUT_MAX_ARRAY) * 4)"

definition plx_a_lut_disable :: "plx_device \<Rightarrow> plx_device" where
  "plx_a_lut_disable x = plx_mmio_write 0 (reg_base x + PLX_A_LUT_CONTROL) x"

definition clear_entry_regs :: "u32 \<Rightarrow> nat \<Rightarrow> plx_device \<Rightarrow> plx_device" where
  "clear_entry_regs offset i x =
     (let entry_offset = plx_get_a_lut_entry_offset (of_nat i) + offset
      in plx_mmio_write 0 (entry_offset + PLX_A_LUT_LOWER_RE_MAP_SUBARRAY_OFFSET)
          (plx_mmio_write 0 (entry_offset + PLX_A_LUT_HIGHER_RE_MAP_SUBARRAY_OFFSET)
            (plx_mmio_write 0 (entry_offset + PLX_A_LUT_PERMISSION_SUBARRAY_OFFSET) x)))"

definition plx_a_lut_clear :: "u32 \<Rightarrow> plx_device \<Rightarrow> plx_device outcome" where
  "plx_a_lut_clear offset x =
     (case plx_alm_reset (a_lut_manager x) of
        Abort \<Rightarrow> Abort
      | Ret m \<Rightarrow> Ret (fold (clear_entry_regs offset) [0..<unat (segments_num m)] (x\<lparr>a_lut_manager := m\<rparr>)))"

definition plx_a_lut_enable :: "plx_device \<Rightarrow> (int \<times> plx_device) outcome" where
  "plx_a_lut_enable x =
     (let x1 = plx_a_lut_disable x
      in case plx_a_lut_clear (a_lut_array_base x1) x1 of
           Abort \<Rightarrow> Abort
         | Ret x2 \<Rightarrow> Ret (0, if a_lut_peer x2
                            then plx_mmio_write PLX_A_LUT_ENABLE (reg_base x2 + PLX_A_LUT_CONTROL) x2 else x2))"

definition plx_a_lut_peer_enable :: "plx_device \<Rightarrow> plx_device" where
  "plx_a_lut_peer_enable x = plx_mmio_write PLX_A_LUT_ENABLE (reg_base_peer x + PLX_A_LUT_CONTROL) x"

text \<open>The registers of \<open>n\<close> segments from \<open>i\<close> on; the last result is the last permission register.\<close>

fun program_segments :: "nat \<Rightarrow> u32 \<Rightarrow> u64 \<Rightarrow> plx_device \<Rightarrow> plx_device" where
  "program_segments 0 i addr_masked x = x"
| "program_segments (Suc n) i addr_masked x =
     (let entry_offset = a_lut_array_base x + plx_get_a_lut_entry_offset i;
          x1 = plx_mmio_write (ucast (drop_bit 32 addr_masked))
                 (entry_offset + PLX_A_LUT_HIGHER_RE_MAP_SUBARRAY_OFFSET) x;
          x2 = plx_mmio_write (ucast addr_masked) (entry_offset + PLX_A_LUT_LOWER_RE_MAP_SUBARRAY_OFFSET) x1;
          x3 = plx_mmio_write (PLX_A_LUT_PERMISSION_READ_ENABLE OR PLX_A_LUT_PERMISSION_WRITE_ENABLE)
                 (entry_offset + PLX_A_LUT_PERMISSION_SUBARRAY_OFFSET) x2
      in program_segments n (i + 1) (addr_masked + segment_size (a_lut_manager x)) x3)"

text \<open>\<open>None\<close> inside \<open>Some\<close> is the error \<open>-ENOMEM\<close>, the outer option whether the search returns.\<close>

definition plx_add_a_lut_entry :: "u64 \<Rightarrow> u64 \<Rightarrow> plx_device \<Rightarrow> (u64 option \<times> plx_device) outcome option" where
  "plx_add_a_lut_entry addr sz x =
     (let mask = segment_size (a_lut_manager x) - 1;
          addr_masked = addr AND NOT mask
      in case plx_alm_add_entry (a_lut_manager x) addr sz of
           None \<Rightarrow> None
         | Some Abort \<Rightarrow> Some Abort
         | Some (Ret (err, out, m)) \<Rightarrow>
             let x1 = x\<lparr>a_lut_manager := m\<rparr>
             in if err \<noteq> 0 \<and> err \<noteq> - EEXIST then Some (Ret (None, x1))
                else case out of
                  None \<Rightarrow> Some Abort
                | Some (segment_id, segs) \<Rightarrow>
                    let x2 = (if err = 0 then program_segments (unat segs) segment_id addr_masked x1 else x1)
                    in Some (Ret (Some (ucast segment_id * segment_size m + (addr AND mask)), x2)))"

definition clear_permission :: "nat \<Rightarrow> plx_device \<Rightarrow> plx_device" where
  "clear_permission i x = plx_mmio_write 0 (a_lut_array_base x +
     (plx_get_a_lut_entry_offset (of_nat i) + PLX_A_LUT_PERMISSION_SUBARRAY_OFFSET)) x"

definition plx_del_a_lut_entry :: "u64 \<Rightarrow> plx_device \<Rightarrow> plx_device outcome" where
  "plx_del_a_lut_entry addr x =
     (let m = a_lut_manager x
      in if segment_size m = 0 then Abort
         else if addr \<ge> ucast (segments_num m) * segment_size m then Ret x
         else case plx_alm_del_entry m (ucast (addr div segment_size m)) of
                Abort \<Rightarrow> Abort
              | Ret (None, m1) \<Rightarrow> Ret (x\<lparr>a_lut_manager := m1\<rparr>)
              | Ret (Some (start_segment, segs), m1) \<Rightarrow>
                  Ret (fold clear_permission [unat start_segment..<unat start_segment + unat segs]
                        (x\<lparr>a_lut_manager := m1\<rparr>)))"

definition plx_ioremap :: "u64 \<Rightarrow> u64 \<Rightarrow> plx_device \<Rightarrow> (u64 option \<times> plx_device) outcome option" where
  "plx_ioremap pa n x =
     (if a_lut x then
        (case plx_add_a_lut_entry pa n x of
           None \<Rightarrow> None
         | Some Abort \<Rightarrow> Some Abort
         | Some (Ret (None, x1)) \<Rightarrow> Some (Ret (None, x1))
         | Some (Ret (Some pa_out, x1)) \<Rightarrow> Some (Ret (Some (mw_va (aper x1) + pa_out), x1)))
      else Some (Ret (Some (mw_va (aper x) + pa), x)))"

definition plx_iounmap :: "u64 \<Rightarrow> plx_device \<Rightarrow> plx_device outcome" where
  "plx_iounmap va x =
     (let pa = va - mw_va (aper x)
      in if a_lut x then plx_del_a_lut_entry pa x else Ret x)"

section \<open>Scratchpads, doorbells, pins\<close>

definition plx_write_spad :: "u32 \<Rightarrow> u32 \<Rightarrow> plx_device \<Rightarrow> plx_device" where
  "plx_write_spad idx val x = plx_mmio_write val (reg_base x + PLX_SPAD0 + idx * 4) x"

definition plx_read_spad :: "plx_device \<Rightarrow> u32 \<Rightarrow> u32" where
  "plx_read_spad x idx = plx_mmio_read x (reg_base x + PLX_SPAD0 + idx * 4)"

definition plx_enable_interrupts :: "plx_device \<Rightarrow> plx_device" where
  "plx_enable_interrupts x = plx_mmio_write 0xFFFF (reg_base x + intr_reg_base x + PLX_DBIMC) x"

definition plx_disable_interrupts :: "plx_device \<Rightarrow> plx_device" where
  "plx_disable_interrupts x = plx_mmio_write 0xFFFF (reg_base x + intr_reg_base x + PLX_DBIMS) x"

definition plx_send_intr :: "nat \<Rightarrow> plx_device \<Rightarrow> plx_device" where
  "plx_send_intr doorbell x = plx_mmio_write (push_bit doorbell 1) (reg_base x + peer_intr_reg_base x + PLX_DBIS) x"

definition plx_program_bar23_at :: "u64 \<Rightarrow> plx_device \<Rightarrow> plx_device" where
  "plx_program_bar23_at val x =
     plx_mmio_write (ucast (drop_bit 32 val)) (reg_base x + PLX_BAR3_AT)
       (plx_mmio_write (ucast val) (reg_base x + PLX_BAR2_AT) x)"

definition plx_set_dp_addr :: "u64 \<Rightarrow> plx_device \<Rightarrow> plx_device" where
  "plx_set_dp_addr dp_addr x = plx_write_spad 1 (ucast (drop_bit 32 dp_addr)) (plx_write_spad 0 (ucast dp_addr) x)"

definition plx_get_dp_addr :: "plx_device \<Rightarrow> u64" where
  "plx_get_dp_addr x =
     (let lo = ucast (plx_read_spad x 0); hi = ucast (plx_read_spad x 1) in lo OR push_bit 32 hi)"

definition plx_link_width :: "plx_device \<Rightarrow> u32" where
  "plx_link_width x =
     (let data = plx_link_mmio_read x 0x78
      in if drop_bit 16 (data AND 0xF0000) \<noteq> 3 then 0 else drop_bit 20 (data AND 0x1F00000))"

section \<open>Set-up\<close>

definition plx_find_root_port :: "pci_dev \<Rightarrow> (u8 \<times> u8) option" where
  "plx_find_root_port pdev = map_option snd (find fst (upstream pdev))"

definition plx_find_root_complex_bus_num :: "pci_dev \<Rightarrow> u8" where
  "plx_find_root_complex_bus_num pdev = last (bus_numbers pdev)"

definition PCI_SLOT :: "u8 \<Rightarrow> u8" where "PCI_SLOT devfn = drop_bit 3 devfn AND 0x1f"

definition plx_rid_lut :: "u8 \<Rightarrow> u8 \<Rightarrow> u8 \<Rightarrow> u8 \<Rightarrow> u32" where
  "plx_rid_lut root_port_bus root_port_dev root_complex_bus root_complex_dev =
     push_bit 24 (ucast root_port_bus) OR push_bit 19 (ucast (root_port_dev AND 0x0f)) OR
     push_bit 8 (ucast root_complex_bus) OR push_bit 3 (ucast (root_complex_dev AND 0x0f)) OR PLX_RID_LUT_ENABLE"

definition plx_rid_lut_dma :: "u8 \<Rightarrow> u8 \<Rightarrow> u32" where
  "plx_rid_lut_dma dma_bus dma_dev =
     push_bit 8 (ucast dma_bus) OR push_bit 3 (ucast (dma_dev AND 0x0f)) OR PLX_RID_LUT_ENABLE_1"

definition plx_program_rid_lut_dma :: "pci_dev \<Rightarrow> plx_device \<Rightarrow> (int \<times> plx_device) outcome" where
  "plx_program_rid_lut_dma pdev x =
     (let virtual_rid_offset = (if port_id x = 0 then 0x3edb8 else 0x3cdb8);
          link_rid_offset = (if port_id x = 0 then 0x3fdb8 else 0x3ddb8)
      in if link_side x then
           Ret (0, plx_mmio_write (plx_rid_lut_dma (bus_numbers pdev ! 0) 0) link_rid_offset x)
         else if length (bus_numbers pdev) \<le> 2 then Abort
         else Ret (0, plx_mmio_write (plx_rid_lut_dma (bus_numbers pdev ! 2) 0) virtual_rid_offset x))"

definition plx_program_rid_lut :: "pci_dev \<Rightarrow> plx_device \<Rightarrow> int \<times> plx_device" where
  "plx_program_rid_lut pdev x =
     (let virtual_rid_offset = (if port_id x = 0 then 0x3edb4 else 0x3cdb4);
          link_rid_offset = (if port_id x = 0 then 0x3fdb4 else 0x3ddb4)
      in case plx_find_root_port pdev of
           None \<Rightarrow> (- ENXIO, x)
         | Some (bus, devfn) \<Rightarrow>
             let rid_lut = plx_rid_lut bus (PCI_SLOT devfn) (plx_find_root_complex_bus_num pdev) 0
             in (0, plx_mmio_write rid_lut (if link_side x then link_rid_offset else virtual_rid_offset) x))"

definition plx_get_reg_base :: "bool \<Rightarrow> u32 \<Rightarrow> u32" where
  "plx_get_reg_base link port = 0x3E000 - port * 0x2000 + of_bool link * 0x1000"

definition plx_check_eeprom :: "plx_device \<Rightarrow> int" where
  "plx_check_eeprom x =
     (let val = plx_mmio_read x 0x260
      in if drop_bit 16 (val AND 0x30000) \<noteq> 1 then - EIO
         else if val AND 0x80000 \<noteq> 0 then - EIO else 0)"

text \<open>The number of bridges of a device.\<close>

definition ntbs_of :: "u16 \<Rightarrow> int" where
  "ntbs_of dev = (if dev = 0x295A \<or> dev = 0x2956 then 1 else 2)"

definition array_base_of :: "int \<Rightarrow> bool \<Rightarrow> u32 \<Rightarrow> u32" where
  "array_base_of ntbs link port =
     (if ntbs = 2 then (if \<not> link then if port = 0 then 0x38000 else 0x3a000
                        else if port = 0 then 0x39000 else 0x3b000)
      else if \<not> link then 0x38000 else 0x3a000)"

text \<open>
  \<open>cfg\<close> is the result of reading the port register in the configuration space: an error or the value.
\<close>

definition plx_hw_init :: "int + u32 \<Rightarrow> bool \<Rightarrow> pci_dev \<Rightarrow> plx_device \<Rightarrow> (int \<times> plx_device) outcome" where
  "plx_hw_init cfg alloc_ok pdev x =
     (case cfg of
        Inl rc \<Rightarrow> Ret (rc, x)
      | Inr val \<Rightarrow>
          let link = bit val 31; port = val AND 1;
              x1 = x\<lparr>link_side := link, port_id := port, reg_base := plx_get_reg_base link port,
                     reg_base_peer := plx_get_reg_base (\<not> link) port, a_lut := True, a_lut_peer := True\<rparr>
          in if \<not> link \<and> plx_check_eeprom x1 \<noteq> 0 then Ret (plx_check_eeprom x1, x1)
             else
               let x2 = (if link then x1\<lparr>intr_reg_base := 0x10\<rparr> else x1\<lparr>peer_intr_reg_base := 0x10\<rparr>);
                   n = ntbs_of (device_id pdev);
                   x3 = x2\<lparr>num_ntbs := n, a_lut_array_base := array_base_of n link port\<rparr>;
                   (rc, x4) = plx_program_rid_lut pdev x3
               in if rc \<noteq> 0 then Ret (rc, x4)
                  else case plx_program_rid_lut_dma pdev x4 of
                    Abort \<Rightarrow> Abort
                  | Ret (rc, x5) \<Rightarrow>
                      if rc \<noteq> 0 then Ret (rc, x5)
                      else case plx_a_lut_enable x5 of
                        Abort \<Rightarrow> Abort
                      | Ret (rc, x6) \<Rightarrow>
                          if rc \<noteq> 0 then Ret (rc, x6)
                          else case plx_alm_init alloc_ok (a_lut_manager x6) (num_ntbs x6) (mw_len (aper x6)) of
                            Abort \<Rightarrow> Abort
                          | Ret (rc, m) \<Rightarrow> Ret (rc, x6\<lparr>a_lut_manager := m\<rparr>))"

definition plx_hw_deinit :: "plx_device \<Rightarrow> plx_device outcome" where
  "plx_hw_deinit x =
     (case plx_alm_release (a_lut_manager x) of
        Abort \<Rightarrow> Abort | Ret m \<Rightarrow> Ret (x\<lparr>a_lut_manager := m\<rparr>))"

end
