(* ===== verification/Plx_Window.thy ===== *)
theory Plx_Window
  imports Plx_Hw
begin

text \<open>
  What the window of the bridge shows. The registers of a segment hold the address that the segment is
  translated to and the permissions; \<open>window x off\<close> is the remote address that the byte at \<open>off\<close> of the
  window stands for. The table of the A-LUT manager and the registers agree at all times, so that a
  mapping is seen through the window as long as it is in use.
\<close>

section \<open>The registers of a segment\<close>

definition lut_reg :: "u32 \<Rightarrow> u32 \<Rightarrow> nat \<Rightarrow> u32" where
  "lut_reg base k i = base + plx_get_a_lut_entry_offset (of_nat i) + k"

definition lut_entry :: "plx_device \<Rightarrow> nat \<Rightarrow> u64 option" where
  "lut_entry x i =
     (if mmio x (lut_reg (a_lut_array_base x) 0x800 i) = 3
      then Some (push_bit 32 (ucast (mmio x (lut_reg (a_lut_array_base x) 0x400 i))) OR
                 ucast (mmio x (lut_reg (a_lut_array_base x) 0 i)))
      else None)"

definition window :: "plx_device \<Rightarrow> u64 \<Rightarrow> u64 option" where
  "window x off =
     (let m = a_lut_manager x; i = unat (off div segment_size m)
      in if i < unat (segments_num m) then map_option (\<lambda>b. b + off mod segment_size m) (lut_entry x i) else None)"

lemma unat_entry_offset:
  assumes "i < 256"
  shows "unat (plx_get_a_lut_entry_offset (of_nat i)) = (if 128 \<le> i then 4096 else 0) + i mod 128 * 4"
proof -
  have u: "unat (of_nat i :: u32) = i" using assms by (simp add: unat_of_nat take_bit_nat_eq_self)
  have le: "(128 :: u32) \<le> of_nat i \<longleftrightarrow> 128 \<le> i" by (simp add: word_le_nat_alt u)
  have m: "unat ((of_nat i :: u32) mod 128) = i mod 128" by (simp add: unat_mod u)
  have m4: "unat ((of_nat i :: u32) mod 128 * 4) = i mod 128 * 4"
    by (subst unat_mult_lem [THEN iffD1]) (simp_all add: m)
  have "unat ((if 128 \<le> i then 0x1000 else 0 :: u32) + (of_nat i :: u32) mod 128 * 4) =
      unat (if 128 \<le> i then 0x1000 else 0 :: u32) + i mod 128 * 4"
    using less_trans [OF mod_less_divisor [of 128 i], of 1073740800]
    by (subst unat_add_lem [THEN iffD1]) (simp_all add: m4)
  then show ?thesis by (simp only: plx_get_a_lut_entry_offset_def lut_consts le Let_def) (cases "128 \<le> i"; simp)
qed

definition lut_kind :: "u32 \<Rightarrow> bool" where "lut_kind k \<longleftrightarrow> k = 0 \<or> k = 0x400 \<or> k = 0x800"

lemma lut_kinds [simp]: "lut_kind 0" "lut_kind 0x400" "lut_kind 0x800"
  by (simp_all add: lut_kind_def)

lemma lut_reg_eq:
  assumes "i < 256" "j < 256" "lut_kind k" "lut_kind k'"
  shows "lut_reg b k i = lut_reg b k' j \<longleftrightarrow> i = j \<and> k = k'"
proof -
  let ?o = "\<lambda>i. plx_get_a_lut_entry_offset (of_nat i)"
  have u: "unat (?o i + k) = unat (?o i) + unat k" if "i < 256" "lut_kind k" for i k
    using that by (subst unat_add_lem [THEN iffD1]) (auto simp: unat_entry_offset lut_kind_def)
  have "lut_reg b k i = lut_reg b k' j \<longleftrightarrow> unat (?o i + k) = unat (?o j + k')"
    unfolding lut_reg_def add.assoc add_left_cancel by (rule word_unat_eq_iff)
  also have "\<dots> \<longleftrightarrow> i = j \<and> k = k'"
  proof
    assume "unat (?o i + k) = unat (?o j + k')"
    then have e: "(if 128 \<le> i then 4096 else 0) + i mod 128 * 4 + unat k =
        (if 128 \<le> j then 4096 else 0) + j mod 128 * 4 + unat k'"
      using assms by (simp add: u unat_entry_offset)
    have b: "i mod 128 < 128" "j mod 128 < 128" by simp_all
    have d: "i = (if 128 \<le> i then 128 else 0) + i mod 128" "j = (if 128 \<le> j then 128 else 0) + j mod 128"
      using assms(1,2) by (auto simp: le_mod_geq)
    have "(128 \<le> i) = (128 \<le> j)" using e b assms(3,4) by (auto simp: lut_kind_def split: if_splits)
    moreover have "i mod 128 = j mod 128" "unat k = unat k'"
      using e b assms(3,4) calculation by (auto simp: lut_kind_def split: if_splits)
    ultimately show "i = j \<and> k = k'" using d by (metis word_unat_eq_iff)
  qed simp
  finally show ?thesis .
qed

lemma word_split_join: "push_bit 32 (ucast (ucast (drop_bit 32 a :: u64) :: u32)) OR ucast (ucast a :: u32) = (a :: u64)"
  by (rule bit_word_eqI) (auto simp: bit_simps)

lemma lut_mmio_upd: "lut_entry (x\<lparr>a_lut_manager := m\<rparr>) i = lut_entry x i"
  by (simp add: lut_entry_def)

lemma lut_entry_program:
  assumes "i < 256" "j < 256"
  shows "lut_entry (plx_mmio_write 3 (lut_reg (a_lut_array_base x) 0x800 i)
      (plx_mmio_write (ucast a) (lut_reg (a_lut_array_base x) 0 i)
        (plx_mmio_write (ucast (drop_bit 32 a)) (lut_reg (a_lut_array_base x) 0x400 i) x))) j =
    (if j = i then Some a else lut_entry x j)"
  using assms by (simp add: lut_entry_def plx_mmio_write_def lut_reg_eq word_split_join)

lemma mmio_write_sel [simp]:
  "a_lut_manager (plx_mmio_write v r x) = a_lut_manager x"
  "a_lut_array_base (plx_mmio_write v r x) = a_lut_array_base x" "aper (plx_mmio_write v r x) = aper x"
  "a_lut (plx_mmio_write v r x) = a_lut x"
  "reg_base (plx_mmio_write v r x) = reg_base x" "reg_base_peer (plx_mmio_write v r x) = reg_base_peer x"
  by (simp_all add: plx_mmio_write_def)

lemma program_segments_sel [simp]:
  "a_lut_manager (program_segments n i a x) = a_lut_manager x"
  "a_lut_array_base (program_segments n i a x) = a_lut_array_base x" "aper (program_segments n i a x) = aper x"
  "a_lut (program_segments n i a x) = a_lut x"
  "reg_base (program_segments n i a x) = reg_base x" "reg_base_peer (program_segments n i a x) = reg_base_peer x"
  by (induction n arbitrary: i a x) (simp_all add: Let_def)

lemma lut_entry_program_segments:
  assumes "p + n \<le> 256" "j < 256"
  shows "lut_entry (program_segments n (of_nat p) a x) j =
    (if p \<le> j \<and> j < p + n then Some (a + of_nat (j - p) * segment_size (a_lut_manager x)) else lut_entry x j)"
  using assms
proof (induction n arbitrary: p a x)
  case 0
  then show ?case by auto
next
  case (Suc n)
  let ?s = "segment_size (a_lut_manager x)"
  let ?x = "plx_mmio_write 3 (lut_reg (a_lut_array_base x) 0x800 p)
      (plx_mmio_write (ucast a) (lut_reg (a_lut_array_base x) 0 p)
        (plx_mmio_write (ucast (drop_bit 32 a)) (lut_reg (a_lut_array_base x) 0x400 p) x))"
  have "program_segments (Suc n) (of_nat p) a x = program_segments n (of_nat (Suc p)) (a + ?s) ?x"
    by (simp add: Let_def lut_reg_def lut_consts add.commute)
  then have "lut_entry (program_segments (Suc n) (of_nat p) a x) j =
      (if Suc p \<le> j \<and> j < Suc p + n then Some (a + ?s + of_nat (j - Suc p) * ?s)
       else if j = p then Some a else lut_entry x j)"
    using Suc.IH [of "Suc p" "a + ?s" ?x] Suc.prems lut_entry_program [of p j x a] by (auto split: if_splits)
  moreover have "a + ?s + of_nat (j - Suc p) * ?s = a + of_nat (j - p) * ?s" if "Suc p \<le> j"
  proof -
    from that have "j - p = Suc (j - Suc p)" by simp
    then show ?thesis by (simp add: algebra_simps)
  qed
  ultimately show ?case using Suc.prems by (auto simp del: program_segments.simps)
qed

lemma clear_permission_sel [simp]:
  "a_lut_manager (fold clear_permission is x) = a_lut_manager x"
  "a_lut_array_base (fold clear_permission is x) = a_lut_array_base x" "aper (fold clear_permission is x) = aper x"
  "a_lut (fold clear_permission is x) = a_lut x"
  "reg_base (fold clear_permission is x) = reg_base x" "reg_base_peer (fold clear_permission is x) = reg_base_peer x"
  by (induction "is" arbitrary: x) (simp_all add: clear_permission_def)

lemma lut_entry_clear_permission:
  "list_all (\<lambda>i. i < 256) is \<Longrightarrow> j < 256 \<Longrightarrow>
   lut_entry (fold clear_permission is x) j = (if j \<in> set is then None else lut_entry x j)"
proof (induction "is" arbitrary: x)
  case (Cons i "is")
  have "lut_entry (clear_permission i x) j = (if j = i then None else lut_entry x j)"
    using Cons.prems by (simp add: clear_permission_def lut_entry_def plx_mmio_write_def lut_reg_eq
        lut_consts add.assoc [symmetric] flip: lut_reg_def)
  with Cons show ?case by auto
qed simp

section \<open>Where the groups of a table come from\<close>

text \<open>Group \<open>l\<close> was in the table before, with the same addresses.\<close>

definition old_group :: "plx_alm \<Rightarrow> plx_alm \<Rightarrow> nat \<Rightarrow> bool" where
  "old_group m m' l \<longleftrightarrow> leader (entries m) l \<and> e_value (entries m' ! l) = e_value (entries m ! l) \<and>
     span (entries m') l = span (entries m) l"

text \<open>Nobody but \<open>q\<close> gets more references, and \<open>q\<close> is new with two or gets one more.\<close>

definition one_more :: "plx_alm \<Rightarrow> plx_alm \<Rightarrow> nat \<Rightarrow> bool" where
  "one_more m m' q \<longleftrightarrow>
     (\<forall>l. leader (entries m') l \<longrightarrow> l = q \<or> leader (entries m) l \<and> counter (entries m' ! l) \<le> counter (entries m ! l)) \<and>
     (counter (entries m' ! q) = 2 \<or>
        leader (entries m) q \<and> unat (counter (entries m' ! q)) \<le> unat (counter (entries m ! q)) + 1)"

definition placed_in :: "plx_alm \<Rightarrow> u64 \<Rightarrow> u32 \<Rightarrow> int \<Rightarrow> plx_alm \<Rightarrow> nat \<Rightarrow> u64 \<Rightarrow> bool" where
  "placed_in m addr n rc m' q idx \<longleftrightarrow> embeds m' (masked m addr) (unat n) q idx \<and>
     2 \<le> unat (counter (entries m' ! q)) \<and> one_more m m' q \<and>
     (leader (entries m) q \<longrightarrow> counter (entries m ! q) \<noteq> 1 \<longrightarrow>
        unat (counter (entries m ! q)) < unat (counter (entries m' ! q))) \<and>
     (rc = 0 \<and> idx = 0 \<and> e_value (entries m' ! q) = masked m addr \<and> span (entries m') q = unat n \<and>
        (\<forall>l. leader (entries m') l \<longrightarrow> l = q \<or> old_group m m' l) \<and> (leader (entries m) q \<longrightarrow> counter (entries m ! q) = 1) \<or>
      rc = - EEXIST \<and> (\<forall>l. leader (entries m') l \<longrightarrow> old_group m m' l))"

definition origin :: "plx_alm \<Rightarrow> u64 \<Rightarrow> int \<Rightarrow> (u32 \<times> u32) option \<Rightarrow> plx_alm \<Rightarrow> bool" where
  "origin m addr rc out m' \<longleftrightarrow> segments_num m' = segments_num m \<and>
     (case out of
        None \<Rightarrow> rc = - ENOMEM \<and> (\<forall>l. leader (entries m') l \<longrightarrow> old_group m m' l)
      | Some (sid, n) \<Rightarrow> \<exists>q idx. sid = of_nat q + ucast idx \<and> placed_in m addr n rc m' q idx)"

lemma take_slot_origin:
  assumes wf: "alm_wf m" and refs: "refs_ok m" and r: "slot_result m (masked m addr) (unat segs) (Some p) idx"
    and t: "take_slot m (masked m addr) segs p = (rc, m')"
  shows "placed_in m addr segs rc m' p idx" "segments_num m' = segments_num m"
proof (atomize (full), cases "embeds m (masked m addr) (unat segs) p idx")
  case True
  then have l: "leader (entries m) p" by (simp add: embeds_def)
  then have c: "counter (entries m ! p) \<noteq> - 1" and lt: "p < length (entries m)" "counter (entries m ! p) \<noteq> 0"
    using refs by (auto simp: refs_ok_def leader_def)
  have m': "m' = m\<lparr>entries := (entries m)[p := (entries m ! p)\<lparr>counter := counter (entries m ! p) + 1\<rparr>]\<rparr>" "rc = - EEXIST"
    using t take_slot_shared(1) [OF wf l c] by simp_all
  have u: "unat (counter (entries m ! p) + 1) = unat (counter (entries m ! p)) + 1" "0 < unat (counter (entries m ! p))"
    using unat_plus1_u16 [OF c] lt(2) by (simp_all add: unat_gt_0)
  have nz: "counter (entries m ! p) + 1 \<noteq> 0" using u by (metis unat_0 add_is_0 one_neq_zero)
  have old: "old_group m m' l'" if "leader (entries m') l'" for l'
    using that l lt by (cases "l' = p") (simp_all add: m' old_group_def leader_def span_def)
  have "embeds m' (masked m addr) (unat segs) p idx"
    using True lt(1) nz unfolding m' embeds_def by (auto simp: leader_def span_def)
  moreover have "one_more m m' p"
    using l u(1) by (auto simp: one_more_def m' leader_def nth_list_update)
  ultimately show "placed_in m addr segs rc m' p idx \<and> segments_num m' = segments_num m"
    using old u lt(1) by (simp add: placed_in_def m')
next
  case False
  let ?k = "unat segs"
  from False r have run: "free_run (entries m) p ?k" and k: "0 < ?k" and idx: "idx = 0"
    by (auto simp: slot_result_def)
  from take_slot_fresh [OF wf run k] obtain m2 where m': "take_slot m (masked m addr) segs p = (0, m2)"
    "segment_size m2 = segment_size m" "segments_num m2 = segments_num m" "alm_wf m2" "leader (entries m2) p"
    "\<And>j. j < length (entries m) \<Longrightarrow> entries m2 ! j =
      (if p \<le> j \<and> j < p + ?k then new_group (masked m addr) p ?k j else entries m ! j)" by blast
  have eq: "m' = m2" "rc = 0" using t m'(1) by simp_all
  have pk: "p + ?k \<le> length (entries m)" using run by (simp add: free_run_def)
  have len: "length (entries m2) = length (entries m)" using alm_wfD(1) [OF m'(4)] alm_wfD(1) [OF wf] m'(3) by simp
  have ep: "entries m2 ! p = new_group (masked m addr) p ?k p" using m'(6) [of p] pk k by simp
  have sp: "span (entries m2) p = ?k"
    using pk alm_wfD(2) [OF wf] unat_small_u16 [of ?k] by (simp add: span_def ep new_group_def)
  have old: "l = p \<or> old_group m m2 l" if l: "leader (entries m2) l" for l
  proof (cases "p \<le> l \<and> l < p + ?k")
    case True
    with l m'(6) [of l] pk show ?thesis by (auto simp: leader_def new_group_def split: if_splits)
  next
    case False
    then have "entries m2 ! l = entries m ! l" using l len m'(6) [of l] by (auto simp: leader_def)
    with l len show ?thesis by (simp add: old_group_def leader_def span_def)
  qed
  have e: "e_value (entries m2 ! p) = masked m addr" "counter (entries m2 ! p) = 2" by (simp_all add: ep new_group_def)
  have nl: "\<not> leader (entries m) p"
  proof
    assume l: "leader (entries m) p"
    with leader_region_free(3) [OF alm_wfD(3) [OF wf] l] have "covered (entries m) p" by (auto simp: covered_from_def)
    with run k show False by (auto simp: free_run_def)
  qed
  have "leader (entries m) l \<and> counter (entries m2 ! l) \<le> counter (entries m ! l)"
    if l: "leader (entries m2) l" "l \<noteq> p" for l
    using m'(6) [of l] pk l len by (auto simp: leader_def new_group_def split: if_splits)
  with e(2) have one: "one_more m m2 p" by (auto simp: one_more_def)
  have "embeds m2 (masked m addr) ?k p idx" using m'(5) e(1) sp by (simp add: embeds_def idx)
  with e nl sp old one show "placed_in m addr segs rc m' p idx \<and> segments_num m' = segments_num m"
    unfolding eq placed_in_def m'(3) idx by simp
qed

lemma placed_in_trans:
  assumes p: "placed_in m1 addr n rc m2 q idx" and "\<And>l. leader (entries m1) l \<Longrightarrow> old_group m m1 l"
    and k: "\<And>l. leader (entries m) l \<Longrightarrow> counter (entries m ! l) \<noteq> 1 \<Longrightarrow>
      leader (entries m1) l \<and> counter (entries m1 ! l) = counter (entries m ! l)"
    and "segment_size m1 = segment_size m"
    and same: "\<And>l. leader (entries m1) l \<Longrightarrow> leader (entries m) l \<and> counter (entries m1 ! l) = counter (entries m ! l)"
  shows "placed_in m addr n rc m2 q idx"
proof -
  have one: "one_more m m2 q" if "one_more m1 m2 q" using that same unfolding one_more_def by metis
  have old: "old_group m m2 l" if "old_group m1 m2 l" for l
    using that assms(2) [of l] by (simp add: old_group_def)
  have ma: "masked m1 addr = masked m addr" using assms(4) by (simp add: masked_def translation_mask_def)
  note p = p [unfolded placed_in_def ma]
  have c: "unat (counter (entries m ! q)) < unat (counter (entries m2 ! q))"
    if "leader (entries m) q" "counter (entries m ! q) \<noteq> 1"
    using p k [OF that] that(2) by simp
  have d: "counter (entries m ! q) = 1"
    if "leader (entries m1) q \<longrightarrow> counter (entries m1 ! q) = 1" "leader (entries m) q"
    using that k [of q] by fastforce
  show ?thesis
  proof (cases "rc = 0")
    case True
    then show ?thesis using p c d old one unfolding placed_in_def by (auto simp: EEXIST_def)
  next
    case False
    then show ?thesis using p c old one unfolding placed_in_def by simp
  qed
qed

lemma origin_trans:
  assumes "origin m1 addr rc out m2" and old: "\<And>l. leader (entries m1) l \<Longrightarrow> old_group m m1 l"
    and "\<And>l. leader (entries m) l \<Longrightarrow> counter (entries m ! l) \<noteq> 1 \<Longrightarrow>
      leader (entries m1) l \<and> counter (entries m1 ! l) = counter (entries m ! l)"
    and "segments_num m1 = segments_num m" "segment_size m1 = segment_size m"
    and same: "\<And>l. leader (entries m1) l \<Longrightarrow> leader (entries m) l \<and> counter (entries m1 ! l) = counter (entries m ! l)"
  shows "origin m addr rc out m2"
proof -
  have "old_group m m2 l" if "old_group m1 m2 l" for l
    using that old [of l] by (simp add: old_group_def)
  then show ?thesis
    using assms(1,4) placed_in_trans [OF _ assms(2,3,5) same] unfolding origin_def
    by (cases out) (simp_all split: prod.splits, blast)
qed

lemma add_entry_origin:
  assumes wf: "alm_wf m" and refs: "refs_ok m" and a: "plx_alm_add_entry m addr sz = Some (Ret (rc, out, m'))"
  shows "origin m addr rc out m'"
proof (cases "sz > segment_size m * ucast (segments_num m)")
  case True
  then have "plx_alm_add_entry m addr sz = Some (Ret (- ENOMEM, None, m))"
    by (subst plx_alm_add_entry.simps) simp
  with a show ?thesis by (auto simp: origin_def old_group_def)
next
  case fit: False
  have start: "boundary es 0" for es by (simp add: boundary_def)
  have found: "origin n addr rc out m'"
    if "alm_wf n" "refs_ok n" "\<not> sz > segment_size n * ucast (segments_num n)"
      and f: "find_slot n (masked n addr) (segments_needed n addr sz) 0 0 None = Some (Some p, idx)"
        "slot_result n (masked n addr) (unat (segments_needed n addr sz)) (Some p) idx"
      and a: "plx_alm_add_entry n addr sz = Some (Ret (rc, out, m'))" for n p idx
  proof -
    obtain rc2 m2 where t: "take_slot n (masked n addr) (segments_needed n addr sz) p = (rc2, m2)" by fastforce
    have "plx_alm_add_entry n addr sz =
        Some (Ret (rc2, Some (of_nat p + ucast idx, segments_needed n addr sz), m2))"
      using that(3) f(1) t by (subst plx_alm_add_entry.simps) (simp add: Let_def masked_def)
    with a have "rc2 = rc" "m2 = m'" "out = Some (of_nat p + ucast idx, segments_needed n addr sz)" by simp_all
    with take_slot_origin [OF that(1,2) f(2) t] show ?thesis unfolding origin_def by auto
  qed
  from find_slot_spec [OF wf start search_inv_start]
  obtain r idx where f: "find_slot m (masked m addr) (segments_needed m addr sz) 0 0 None = Some (r, idx)"
    "slot_result m (masked m addr) (unat (segments_needed m addr sz)) r idx" by blast
  show ?thesis
  proof (cases r)
    case (Some p)
    with f show ?thesis using found [OF wf refs fit _ _ a] by blast
  next
    case None
    from cleanup_loop_spec [OF wf alm_wfD(1) [OF wf, symmetric], of 0 0]
    obtain nums es where c: "plx_alm_cleanup_unused_entry m = Ret (nums, m\<lparr>entries := es\<rparr>)"
      and wf1: "alm_wf (m\<lparr>entries := es\<rparr>)" and z: "nums = 0 \<longrightarrow> es = entries m"
      and le: "\<And>l. leader es l \<Longrightarrow> leader (entries m) l \<and> es ! l = entries m ! l \<and> counter (es ! l) \<noteq> 1"
      and kp: "\<And>l. leader (entries m) l \<Longrightarrow> counter (entries m ! l) \<noteq> 1 \<Longrightarrow> kept (entries m) es l"
      unfolding plx_alm_cleanup_unused_entry_def by blast
    let ?m1 = "m\<lparr>entries := es\<rparr>"
    have old: "old_group m ?m1 l" if "leader (entries ?m1) l" for l
      using le [of l] that by (simp add: old_group_def span_def)
    have refs1: "refs_ok ?m1" using refs le by (auto simp: refs_ok_def)
    show ?thesis
    proof (cases "nums = 0")
      case True
      then have "plx_alm_add_entry m addr sz = Some (Ret (- ENOMEM, None, m))"
        using fit f(1) None c z by (subst plx_alm_add_entry.simps) (simp add: Let_def masked_def)
      with a show ?thesis by (auto simp: origin_def old_group_def)
    next
      case False
      then have eq: "plx_alm_add_entry m addr sz = plx_alm_add_entry ?m1 addr sz"
        using fit f(1) None c by (subst plx_alm_add_entry.simps) (simp add: Let_def masked_def)
      from find_slot_spec [OF wf1 start search_inv_start]
      obtain r1 idx1 where f1: "find_slot ?m1 (masked ?m1 addr) (segments_needed ?m1 addr sz) 0 0 None = Some (r1, idx1)"
        "slot_result ?m1 (masked ?m1 addr) (unat (segments_needed ?m1 addr sz)) r1 idx1" by blast
      have "origin ?m1 addr rc out m'"
      proof (cases r1)
        case (Some p)
        with f1 fit show ?thesis using found [OF wf1 refs1 _ _ _ a [unfolded eq]] by simp
      next
        case r1: None
        have "\<forall>j < unat (segments_num ?m1). counter (entries ?m1 ! j) \<noteq> 1"
        proof (intro allI impI notI)
          fix j assume "j < unat (segments_num ?m1)" and c: "counter (entries ?m1 ! j) = 1"
          with alm_wfD(1) [OF wf1] have "leader es j" by (simp add: leader_def)
          with le c show False by fastforce
        qed
        then have c1: "plx_alm_cleanup_unused_entry ?m1 = Ret (0, ?m1)"
          unfolding plx_alm_cleanup_unused_entry_def by (rule cleanup_none)
        have "plx_alm_add_entry ?m1 addr sz = Some (Ret (- ENOMEM, None, ?m1))"
          using fit f1(1) r1 c1 by (subst plx_alm_add_entry.simps) (simp add: Let_def masked_def)
        with a eq show ?thesis by (auto simp: origin_def old_group_def)
      qed
      moreover have "leader (entries ?m1) l \<and> counter (entries ?m1 ! l) = counter (entries m ! l)"
        if "leader (entries m) l" "counter (entries m ! l) \<noteq> 1" for l
        using kp [OF that] le [of l] by (auto simp: kept_def)
      moreover have "leader (entries m) l \<and> counter (entries ?m1 ! l) = counter (entries m ! l)"
        if "leader (entries ?m1) l" for l using le [of l] that by simp
      ultimately show ?thesis using old by (intro origin_trans [of ?m1 addr rc out m' m]) simp_all
    qed
  qed
qed

section \<open>Addresses and segments\<close>

lemma and_split: "(a AND m) + (a AND NOT m) = (a :: u64)"
proof -
  have "(a AND m) + (a AND NOT m) = (a AND m) OR (a AND NOT m)"
    by (rule disjunctive_add) (simp add: bit_simps)
  also have "\<dots> = a" by (rule bit_word_eqI) (auto simp: bit_simps)
  finally show ?thesis .
qed

lemma unat_small_u32: "n < 2 ^ 32 \<Longrightarrow> unat (of_nat n :: u32) = n"
  by (simp only: unat_of_nat) (simp add: take_bit_nat_eq_self)

lemma unat_offset:
  assumes "unat s = 2 ^ k"
  shows "unat (a AND (s - 1)) = unat (a :: u64) mod unat s"
proof -
  have "s = 2 ^ k" using assms by (metis (mono_tags, lifting) of_nat_numeral of_nat_power of_nat_unat ucast_id)
  then have "a AND (s - 1) = take_bit k a" by (simp add: take_bit_eq_mask mask_eq_exp_minus_1)
  moreover have "unat (take_bit k a) = unat a mod 2 ^ k"
    using take_bit_eq_mod [of k "unat a"] by (simp only: unsigned_take_bit_eq)
  ultimately show ?thesis by (simp only: assms)
qed

lemma unat_base:
  assumes "unat s = 2 ^ k"
  shows "unat (a AND NOT (s - 1)) = unat (a :: u64) div unat s * unat s"
proof -
  have e: "a AND NOT (s - 1) = a - (a AND (s - 1))" using and_split [of a "s - 1"] by (metis add_diff_cancel_left')
  have "unat (a AND (s - 1)) \<le> unat a" by (simp add: unat_offset [OF assms])
  then have "unat (a AND NOT (s - 1)) = unat a - unat a mod unat s"
    by (simp add: e unat_sub word_le_nat_alt unat_offset [OF assms])
  then show ?thesis by (simp add: minus_mod_eq_div_mult)
qed

text \<open>The segments a range touches.\<close>

definition ranges_fit :: "plx_alm \<Rightarrow> bool" where
  "ranges_fit m \<longleftrightarrow> (\<exists>k. unat (segment_size m) = 2 ^ k) \<and>
     unat (segment_size m) * (unat (segments_num m) + 2) \<le> 2 ^ 64 \<and> unat (segments_num m) \<le> 256"

lemma fit_pos: "ranges_fit m \<Longrightarrow> 0 < unat (segment_size m)"
  by (auto simp: ranges_fit_def)

lemma unat_segments_needed:
  assumes f: "ranges_fit m" and s: "\<not> sz > segment_size m * ucast (segments_num m)"
  shows "unat (segments_needed m addr sz) =
    (unat addr mod unat (segment_size m) + unat sz + unat (segment_size m) - 1) div unat (segment_size m)"
proof -
  let ?S = "unat (segment_size m)" and ?N = "unat (segments_num m)" and ?d = "unat addr mod unat (segment_size m)"
  obtain k where k: "?S = 2 ^ k" using f by (auto simp: ranges_fit_def)
  have pos: "0 < ?S" by (rule fit_pos [OF f])
  have le: "?S * (?N + 2) \<le> 2 ^ 64" "?N \<le> 256" using f by (auto simp: ranges_fit_def)
  have d: "?d < ?S" using pos by simp
  have "?S * ?N < 2 ^ 64" using le pos by (simp add: algebra_simps)
  then have "unat (segment_size m * ucast (segments_num m)) = ?S * ?N"
    by (subst unat_mult_lem [THEN iffD1]) simp_all
  with s have sz: "unat sz \<le> ?S * ?N" by (simp add: not_less word_le_nat_alt)
  have sum: "?d + unat sz + ?S < 2 ^ 64" using sz d le(1) by (simp add: algebra_simps)
  have u: "unat ((addr AND translation_mask m) + sz + segment_size m) = ?d + unat sz + ?S"
    using sum unat_offset [OF k, of addr]
    by (simp add: translation_mask_def unat_add_lem [THEN iffD1])
  have u1: "unat ((addr AND translation_mask m) + sz + segment_size m - 1) = ?d + unat sz + ?S - 1"
    using pos by (subst unat_sub) (simp_all add: word_le_nat_alt u)
  have "(?d + unat sz + ?S - 1) div ?S \<le> (?S * (?N + 2)) div ?S"
    using sz d by (intro div_le_mono) (simp add: algebra_simps)
  also have "\<dots> = ?N + 2" using pos by simp
  finally have b: "(?d + unat sz + ?S - 1) div ?S \<le> 258" using le(2) by simp
  have "unat (segments_needed m addr sz) = take_bit 32 ((?d + unat sz + ?S - 1) div ?S)"
    by (simp add: segments_needed_def unsigned_ucast_eq unat_div u1)
  then show ?thesis using b by (simp add: take_bit_nat_eq_self)
qed


section \<open>Table and registers agree\<close>

definition shows_group :: "plx_device \<Rightarrow> nat \<Rightarrow> bool" where
  "shows_group x l \<longleftrightarrow> (let m = a_lut_manager x; e = entries m ! l in
     unat (e_value e) mod unat (segment_size m) = 0 \<and>
     (\<forall>j < span (entries m) l. lut_entry x (l + j) = Some (e_value e + of_nat j * segment_size m)))"

definition window_ok :: "plx_device \<Rightarrow> bool" where
  "window_ok x \<longleftrightarrow> a_lut x \<and> alm_wf (a_lut_manager x) \<and> ranges_fit (a_lut_manager x) \<and>
     (\<forall>l. leader (entries (a_lut_manager x)) l \<longrightarrow> shows_group x l)"

lemma segment_at:
  assumes f: "ranges_fit m" and s: "s < unat (segments_num m)" and r: "r < unat (segment_size m)"
  shows "unat (of_nat (s * unat (segment_size m) + r) div segment_size m) = s"
    "unat (of_nat (s * unat (segment_size m) + r) :: u64) = s * unat (segment_size m) + r"
proof -
  let ?S = "unat (segment_size m)" and ?N = "unat (segments_num m)"
  have "s * ?S + r < (s + 1) * ?S" using r by simp
  also have "\<dots> \<le> ?N * ?S" using s by (intro mult_le_mono1) simp
  finally have lt: "s * ?S + r < 2 ^ 64" using f by (simp add: ranges_fit_def algebra_simps)
  then show u: "unat (of_nat (s * ?S + r) :: u64) = s * ?S + r"
    by (simp only: unat_of_nat) (simp add: take_bit_nat_eq_self)
  show "unat (of_nat (s * ?S + r) div segment_size m) = s"
    using r by (simp only: unat_div u) simp
qed

lemma window_at:
  assumes f: "ranges_fit (a_lut_manager x)" and e: "lut_entry x s = Some b"
    and s: "s < unat (segments_num (a_lut_manager x))" and r: "r < unat (segment_size (a_lut_manager x))"
  shows "window x (of_nat (s * unat (segment_size (a_lut_manager x)) + r)) = Some (b + of_nat r)"
proof -
  let ?S = "unat (segment_size (a_lut_manager x))" and ?N = "unat (segments_num (a_lut_manager x))"
  note d = segment_at(1) [OF f s r] and u = segment_at(2) [OF f s r]
  have "unat (of_nat (s * ?S + r) mod segment_size (a_lut_manager x)) = r"
    using r by (simp only: unat_mod u) simp
  then have m: "of_nat (s * ?S + r) mod segment_size (a_lut_manager x) = of_nat r"
    by (metis of_nat_unat ucast_id)
  show ?thesis unfolding window_def Let_def d m using s e by simp
qed


text \<open>A range that was placed in a group is seen byte by byte.\<close>

lemma placed_visible:
  assumes ok: "window_ok x" and m: "m = a_lut_manager x" and e: "embeds m (addr AND NOT (segment_size m - 1)) n p idx"
    and n: "n = (unat addr mod unat (segment_size m) + unat sz + unat (segment_size m) - 1) div unat (segment_size m)"
    and i: "i < unat sz"
  shows "window x (of_nat (p + unat idx) * segment_size m + (addr AND (segment_size m - 1)) + of_nat i) =
    Some (addr + of_nat i)" "p + unat idx < unat (segments_num m)"
    "p \<le> unat ((of_nat (p + unat idx) * segment_size m + (addr AND (segment_size m - 1)) + of_nat i) div segment_size m)"
    "unat ((of_nat (p + unat idx) * segment_size m + (addr AND (segment_size m - 1)) + of_nat i) div segment_size m) <
       p + span (entries m) p"
proof -
  let ?S = "unat (segment_size m)" and ?a = "addr AND NOT (segment_size m - 1)" and ?e = "e_value (entries m ! p)"
  have f: "ranges_fit m" and wf: "alm_wf m" using ok by (simp_all add: window_ok_def m)
  obtain k where k: "?S = 2 ^ k" using f by (auto simp: ranges_fit_def)
  have pos: "0 < ?S" by (rule fit_pos [OF f])
  have l: "leader (entries m) p" and le: "?e \<le> ?a" and idx: "idx = (?a - ?e) div segment_size m"
    and fit: "unat idx + n \<le> span (entries m) p" using e by (auto simp: embeds_def)
  have sh: "unat ?e mod ?S = 0" "j < span (entries m) p \<Longrightarrow> lut_entry x (p + j) = Some (?e + of_nat j * segment_size m)" for j
    using ok l by (auto simp: window_ok_def shows_group_def Let_def m)
  have "unat idx = (unat ?a - unat ?e) div ?S" using le by (simp add: idx unat_div unat_sub)
  moreover have "?S dvd unat ?a - unat ?e"
    using sh(1) by (simp add: unat_base [OF k] mod_eq_0_iff_dvd dvd_diff_nat)
  ultimately have "unat idx * ?S = unat ?a - unat ?e" by simp
  then have "of_nat (unat idx * ?S) = (of_nat (unat ?a - unat ?e) :: u64)" by (simp only:)
  then have ae: "of_nat (unat idx) * segment_size m = ?a - ?e"
    using le by (simp add: word_le_nat_alt of_nat_diff)
  let ?t = "unat addr mod ?S + i"
  have tj: "?t div ?S < n"
  proof -
    have "Suc (?t div ?S) = (?t + ?S) div ?S" using pos by (metis div_add_self2 Suc_eq_plus1 neq0_conv)
    also have "\<dots> \<le> n" unfolding n using i by (intro div_le_mono) simp
    finally show ?thesis by simp
  qed
  then have j: "unat idx + ?t div ?S < span (entries m) p" using fit by simp
  have sp: "p + span (entries m) p \<le> unat (segments_num m)"
    using leader_region_free(2) [OF alm_wfD(3) [OF wf] l] alm_wfD(1) [OF wf] by simp
  then show "p + unat idx < unat (segments_num m)" using j by simp
  have "lut_entry x (p + (unat idx + ?t div ?S)) = Some (?e + of_nat (unat idx + ?t div ?S) * segment_size m)"
    by (rule sh(2) [OF j])
  then have "lut_entry x (p + unat idx + ?t div ?S) = Some (?a + of_nat (?t div ?S) * segment_size m)"
    using ae by (simp add: algebra_simps)
  from window_at [OF f [unfolded m] this, of "?t mod ?S"]
  have w: "window x (of_nat ((p + unat idx + ?t div ?S) * ?S + ?t mod ?S)) =
      Some (?a + of_nat (?t div ?S) * segment_size m + of_nat (?t mod ?S))"
    using pos j sp by (simp add: m)
  have off: "addr AND (segment_size m - 1) = of_nat (unat addr mod ?S)"
    by (metis unat_offset [OF k] of_nat_unat ucast_id)
  have "(p + unat idx + ?t div ?S) * ?S + ?t mod ?S = (p + unat idx) * ?S + unat addr mod ?S + i"
    using div_mult_mod_eq [of ?t ?S] by (simp only: add_mult_distrib)
  then have L: "(of_nat ((p + unat idx + ?t div ?S) * ?S + ?t mod ?S) :: u64) =
      of_nat (p + unat idx) * segment_size m + (addr AND (segment_size m - 1)) + of_nat i"
    by (simp only: off of_nat_add of_nat_mult) (simp only: of_nat_unat ucast_id)?
  have "(of_nat (?t div ?S) * segment_size m + of_nat (?t mod ?S) :: u64) = of_nat (?t div ?S * ?S + ?t mod ?S)"
    by (simp only: of_nat_add of_nat_mult of_nat_unat ucast_id)
  also have "\<dots> = (addr AND (segment_size m - 1)) + of_nat i" by (simp only: div_mult_mod_eq off of_nat_add)
  finally have "?a + of_nat (?t div ?S) * segment_size m + of_nat (?t mod ?S) =
      ((addr AND (segment_size m - 1)) + ?a) + of_nat i" by (simp add: algebra_simps)
  then have R: "?a + of_nat (?t div ?S) * segment_size m + of_nat (?t mod ?S) = addr + of_nat i"
    by (simp only: and_split)
  show "window x (of_nat (p + unat idx) * segment_size m + (addr AND (segment_size m - 1)) + of_nat i) =
    Some (addr + of_nat i)"
    using w unfolding L R .
  have "unat (of_nat ((p + unat idx + ?t div ?S) * ?S + ?t mod ?S) div segment_size m) = p + unat idx + ?t div ?S"
    using f pos j sp by (intro segment_at) simp_all
  then show "p \<le> unat ((of_nat (p + unat idx) * segment_size m + (addr AND (segment_size m - 1)) + of_nat i) div segment_size m)"
    "unat ((of_nat (p + unat idx) * segment_size m + (addr AND (segment_size m - 1)) + of_nat i) div segment_size m) <
       p + span (entries m) p" using j unfolding L by simp_all
qed


text \<open>The window of a group in use stays as it was.\<close>

definition same_window :: "plx_device \<Rightarrow> plx_device \<Rightarrow> nat \<Rightarrow> bool" where
  "same_window x x' l \<longleftrightarrow> (\<forall>off. l \<le> unat (off div segment_size (a_lut_manager x)) \<longrightarrow>
     unat (off div segment_size (a_lut_manager x)) < l + span (entries (a_lut_manager x)) l \<longrightarrow>
     window x' off = window x off)"

lemma same_windowI:
  assumes "segment_size (a_lut_manager x') = segment_size (a_lut_manager x)"
    "segments_num (a_lut_manager x') = segments_num (a_lut_manager x)"
    "\<And>i. l \<le> i \<Longrightarrow> i < l + span (entries (a_lut_manager x)) l \<Longrightarrow> i < unat (segments_num (a_lut_manager x)) \<Longrightarrow>
       lut_entry x' i = lut_entry x i"
  shows "same_window x x' l"
  unfolding same_window_def window_def Let_def using assms by auto

text \<open>A range of the window lies in group \<open>l\<close>, which somebody uses.\<close>

definition lies_in :: "plx_device \<Rightarrow> nat \<Rightarrow> u64 \<Rightarrow> nat \<Rightarrow> bool" where
  "lies_in x l off n \<longleftrightarrow> leader (entries (a_lut_manager x)) l \<and>
     (\<forall>i < n. l \<le> unat ((off + of_nat i) div segment_size (a_lut_manager x)) \<and>
        unat ((off + of_nat i) div segment_size (a_lut_manager x)) < l + span (entries (a_lut_manager x)) l)"

lemma lies_in_less: "lies_in x l off n \<Longrightarrow> k \<le> n \<Longrightarrow> lies_in x l off k"
  by (auto simp: lies_in_def)

definition refs :: "plx_device \<Rightarrow> nat \<Rightarrow> nat" where
  "refs x l = unat (counter (entries (a_lut_manager x) ! l))"

text \<open>A new reference to group \<open>g\<close>, and what a mapping leaves of the others.\<close>

definition new_ref :: "plx_device \<Rightarrow> plx_device \<Rightarrow> nat \<Rightarrow> bool" where
  "new_ref x x' g \<longleftrightarrow> 2 \<le> refs x' g \<and> (leader (entries (a_lut_manager x)) g \<longrightarrow> refs x g \<noteq> 1 \<longrightarrow> refs x g < refs x' g) \<and>
     one_more (a_lut_manager x) (a_lut_manager x') g"

definition live :: "plx_device \<Rightarrow> nat \<Rightarrow> bool" where
  "live x l \<longleftrightarrow> leader (entries (a_lut_manager x)) l \<and> refs x l \<noteq> 1"

definition others_kept :: "plx_device \<Rightarrow> plx_device \<Rightarrow> bool" where
  "others_kept x x' \<longleftrightarrow> segment_size (a_lut_manager x') = segment_size (a_lut_manager x) \<and>
     (\<forall>l. live x l \<longrightarrow> same_window x x' l \<and> live x' l \<and>
       span (entries (a_lut_manager x')) l = span (entries (a_lut_manager x)) l \<and> refs x l \<le> refs x' l)"

lemma refs_1: "refs x l = Suc 0 \<longleftrightarrow> counter (entries (a_lut_manager x) ! l) = 1"
  unfolding refs_def by (metis unat_1 word_unat_eq_iff One_nat_def)

lemma window_upd_old:
  assumes ok: "window_ok x" and wf: "alm_wf m'" and eq: "segment_size m' = segment_size (a_lut_manager x)"
      "segments_num m' = segments_num (a_lut_manager x)"
    and old: "\<And>l. leader (entries m') l \<Longrightarrow> old_group (a_lut_manager x) m' l"
  shows "window_ok (x\<lparr>a_lut_manager := m'\<rparr>)" "same_window x (x\<lparr>a_lut_manager := m'\<rparr>) l"
proof -
  have "ranges_fit m'" using ok by (simp add: window_ok_def ranges_fit_def eq)
  moreover have "shows_group (x\<lparr>a_lut_manager := m'\<rparr>) l" if "leader (entries m') l" for l
    using old [OF that] ok by (simp add: window_ok_def shows_group_def Let_def lut_mmio_upd eq old_group_def)
  ultimately show "window_ok (x\<lparr>a_lut_manager := m'\<rparr>)" using ok wf by (simp add: window_ok_def)
  show "same_window x (x\<lparr>a_lut_manager := m'\<rparr>) l" by (rule same_windowI) (simp_all add: eq lut_mmio_upd)
qed

lemma window_upd_fresh:
  assumes ok: "window_ok x" and wf: "alm_wf m'" and eq: "segment_size m' = segment_size (a_lut_manager x)"
      "segments_num m' = segments_num (a_lut_manager x)"
    and p: "leader (entries m') p" "e_value (entries m' ! p) = masked (a_lut_manager x) addr"
    and old: "\<And>l. leader (entries m') l \<Longrightarrow> l = p \<or> old_group (a_lut_manager x) m' l"
    and x2: "x2 = program_segments (span (entries m') p) (of_nat p) (masked (a_lut_manager x) addr) (x\<lparr>a_lut_manager := m'\<rparr>)"
  shows "window_ok x2"
    and "l \<noteq> p \<Longrightarrow> leader (entries m') l \<Longrightarrow> span (entries m') l = span (entries (a_lut_manager x)) l \<Longrightarrow> same_window x x2 l"
proof -
  let ?n = "span (entries m') p" and ?a = "masked (a_lut_manager x) addr"
  have f': "ranges_fit m'" and f: "ranges_fit (a_lut_manager x)" using ok by (simp_all add: window_ok_def ranges_fit_def eq)
  note t = alm_wfD(3) [OF wf]
  have b: "p + ?n \<le> 256" using leader_region_free(2) [OF t p(1)] alm_wfD(2) [OF wf] by simp
  have le: "lut_entry x2 j = (if p \<le> j \<and> j < p + ?n then Some (?a + of_nat (j - p) * segment_size m') else lut_entry x j)"
    if "j < 256" for j
    using lut_entry_program_segments [OF b that, of ?a "x\<lparr>a_lut_manager := m'\<rparr>"] by (simp add: x2 lut_mmio_upd)
  have apart: "lut_entry x2 j = lut_entry x j"
    if "leader (entries m') l" "l \<noteq> p" "l \<le> j" "j < l + span (entries m') l" for l j
  proof -
    have "j < 256" using leader_region_free(2) [OF t that(1)] that(4) alm_wfD(2) [OF wf] by simp
    moreover have "\<not> (p \<le> j \<and> j < p + ?n)"
      using leaders_apart [OF t that(1) p(1)] leaders_apart [OF t p(1) that(1)] that(2-4) by (cases "l < p") auto
    ultimately show ?thesis using le [of j] by (simp only: if_False)
  qed
  have sel: "a_lut_manager x2 = m'" "a_lut x2 = a_lut x" by (simp_all add: x2)
  have "shows_group x2 l" if l: "leader (entries m') l" for l
  proof (cases "l = p")
    case True
    obtain k where "unat (segment_size (a_lut_manager x)) = 2 ^ k" using f by (auto simp: ranges_fit_def)
    then have "unat ?a mod unat (segment_size m') = 0" by (simp add: masked_def translation_mask_def eq unat_base)
    with True p le b show ?thesis by (simp add: shows_group_def sel Let_def)
  next
    case False
    with old [OF l] apart [OF l False] ok show ?thesis
      by (auto simp: window_ok_def shows_group_def Let_def sel eq old_group_def)
  qed
  then show "window_ok x2" using ok wf f' by (simp add: window_ok_def sel)
  show "same_window x x2 l" if "l \<noteq> p" "leader (entries m') l" "span (entries m') l = span (entries (a_lut_manager x)) l"
    using apart [OF that(2,1)] that(3) by (intro same_windowI) (simp_all add: sel eq)
qed

lemma placed_range:
  assumes ok: "window_ok x" and m: "a_lut_manager x = m'" and sid: "sid = of_nat q + ucast idx"
    and e: "embeds m' (addr AND NOT (segment_size m' - 1)) (unat n) q idx"
    and n: "unat n = (unat addr mod unat (segment_size m') + unat sz + unat (segment_size m') - 1) div unat (segment_size m')"
  shows "i < unat sz \<Longrightarrow> window x (ucast (sid :: u32) * segment_size m' + (addr AND (segment_size m' - 1)) + of_nat i) =
      Some (addr + of_nat i)"
    "lies_in x q (ucast sid * segment_size m' + (addr AND (segment_size m' - 1))) (unat sz)"
proof -
  let ?off = "ucast sid * segment_size m' + (addr AND (segment_size m' - 1))"
  have f: "ranges_fit m'" using ok by (simp add: window_ok_def m)
  have "window x (?off + of_nat i) = Some (addr + of_nat i) \<and> q \<le> unat ((?off + of_nat i) div segment_size m') \<and>
      unat ((?off + of_nat i) div segment_size m') < q + span (entries m') q" if i: "i < unat sz" for i
  proof -
    note pv = placed_visible [OF ok m [symmetric] e n i]
    have lt: "q + unat idx < 2 ^ 32" using pv(2) f by (simp add: ranges_fit_def)
    have "sid = of_nat (q + unat idx)" using sid by (simp add: of_nat_unat)
    then have "unat sid = q + unat idx" by (simp only: unat_small_u32 [OF lt])
    then have "of_nat (q + unat idx) = (ucast sid :: u64)" by (metis of_nat_unat)
    with pv show ?thesis by simp
  qed
  then show "i < unat sz \<Longrightarrow> window x (?off + of_nat i) = Some (addr + of_nat i)" "lies_in x q ?off (unat sz)"
    using e by (simp_all add: lies_in_def m embeds_def)
qed

lemma live_refs: "live x l \<Longrightarrow> 2 \<le> refs x l"
proof -
  assume l: "live x l"
  then have "counter (entries (a_lut_manager x) ! l) \<noteq> 0" by (simp add: live_def leader_def)
  then have "0 < refs x l" by (simp add: refs_def unat_gt_0)
  with l show "2 \<le> refs x l" by (simp add: live_def)
qed

lemma others_keptI:
  assumes "segment_size (a_lut_manager x') = segment_size (a_lut_manager x)"
    "\<And>l. live x l \<Longrightarrow> same_mapping (entries (a_lut_manager x)) (entries (a_lut_manager x')) l"
    "\<And>l. live x l \<Longrightarrow> same_window x x' l"
  shows "others_kept x x'"
  unfolding others_kept_def
proof (intro conjI allI impI)
  fix l assume l: "live x l"
  from assms(2) [OF l] show "refs x l \<le> refs x' l" "span (entries (a_lut_manager x')) l = span (entries (a_lut_manager x)) l"
    by (simp_all add: same_mapping_def refs_def word_le_nat_alt)
  then show "live x' l" using live_refs [OF l] assms(2) [OF l] by (auto simp: live_def same_mapping_def)
qed (use assms in simp_all)

lemma add_visible:
  assumes ok: "window_ok x" and refs: "refs_ok (a_lut_manager x)"
  shows "\<exists>r x'. plx_add_a_lut_entry addr sz x = Some (Ret (r, x')) \<and> window_ok x' \<and> aper x' = aper x \<and>
    others_kept x x' \<and>
    (\<forall>off. r = Some off \<longrightarrow> (\<forall>i < unat sz. window x' (off + of_nat i) = Some (addr + of_nat i)) \<and>
       (\<exists>g. lies_in x' g off (unat sz) \<and> new_ref x x' g))"
proof -
  let ?m = "a_lut_manager x"
  have wf: "alm_wf ?m" and f: "ranges_fit ?m" using ok by (simp_all add: window_ok_def)
  from add_entry_outcome [OF wf refs, of addr sz] obtain rc out m' where
    a: "plx_alm_add_entry ?m addr sz = Some (Ret (rc, out, m'))" and o: "add_outcome ?m addr sz rc out m'" by blast
  have og: "origin ?m addr rc out m'" by (rule add_entry_origin [OF wf refs a])
  have wf': "alm_wf m'" and sz: "segment_size m' = segment_size ?m" and num: "segments_num m' = segments_num ?m"
    and keep: "\<And>l. live x l \<Longrightarrow> same_mapping (entries ?m) (entries m') l"
    using o og by (auto simp: add_outcome_def origin_def live_def refs_1)
  let ?x = "x\<lparr>a_lut_manager := m'\<rparr>"
  show ?thesis
  proof (cases out)
    case None
    then have rc: "rc = - ENOMEM" and old: "\<And>l. leader (entries m') l \<Longrightarrow> old_group ?m m' l"
      using og by (auto simp: origin_def)
    have "plx_add_a_lut_entry addr sz x = Some (Ret (None, ?x))"
      by (simp add: plx_add_a_lut_entry_def a rc ENOMEM_def EEXIST_def)
    moreover have "others_kept x ?x"
      using window_upd_old(2) [OF ok wf' sz num old] by (intro others_keptI) (simp_all add: sz keep)
    ultimately show ?thesis using window_upd_old(1) [OF ok wf' sz num old] by (intro exI [of _ None] exI [of _ ?x]) simp
  next
    case (Some sn)
    then obtain sid n where out: "out = Some (sid, n)" by fastforce
    have n: "n = segments_needed ?m addr sz" using o by (simp add: add_outcome_def out)
    from og obtain q idx where sid: "sid = of_nat q + ucast idx" and q: "placed_in ?m addr n rc m' q idx"
      by (auto simp: origin_def out)
    have fits: "\<not> sz > segment_size ?m * ucast (segments_num ?m)"
    proof
      assume "sz > segment_size ?m * ucast (segments_num ?m)"
      then have "plx_alm_add_entry ?m addr sz = Some (Ret (- ENOMEM, None, ?m))"
        by (subst plx_alm_add_entry.simps) simp
      with a out show False by simp
    qed
    have nn: "unat n = (unat addr mod unat (segment_size m') + unat sz + unat (segment_size m') - 1) div unat (segment_size m')"
      using unat_segments_needed [OF f fits] n sz by simp
    define x2 where "x2 = (if rc = 0 then program_segments (unat n) sid (masked ?m addr) ?x else ?x)"
    let ?off = "ucast sid * segment_size m' + (addr AND (segment_size m' - 1))"
    have "rc = 0 \<or> rc = - EEXIST" using q by (auto simp: placed_in_def)
    then have res: "plx_add_a_lut_entry addr sz x = Some (Ret (Some ?off, x2))"
      by (auto simp: plx_add_a_lut_entry_def a out Let_def x2_def sz masked_def translation_mask_def)
    have sel: "a_lut_manager x2 = m'" "aper x2 = aper x" by (simp_all add: x2_def)
    have both: "window_ok x2 \<and> others_kept x x2"
    proof (cases "rc = 0")
      case False
      then have x2: "x2 = ?x" and old: "\<And>l. leader (entries m') l \<Longrightarrow> old_group ?m m' l"
        using q by (auto simp: x2_def placed_in_def)
      have "others_kept x ?x"
        using window_upd_old(2) [OF ok wf' sz num old] by (intro others_keptI) (simp_all add: sz keep)
      then show ?thesis using window_upd_old(1) [OF ok wf' sz num old] by (simp add: x2)
    next
      case rc0: True
      then have p: "idx = 0" "leader (entries m') q" "e_value (entries m' ! q) = masked ?m addr"
        "span (entries m') q = unat n" "leader (entries ?m) q \<Longrightarrow> counter (entries ?m ! q) = 1"
        and old: "\<And>l. leader (entries m') l \<Longrightarrow> l = q \<or> old_group ?m m' l"
        using q by (auto simp: placed_in_def embeds_def EEXIST_def)
      have x2: "x2 = program_segments (span (entries m') q) (of_nat q) (masked ?m addr) ?x"
        using rc0 p(1,4) by (simp add: x2_def sid)
      have "same_window x x2 l" if l: "live x l" for l
        using window_upd_fresh(2) [OF ok wf' sz num p(2,3) old x2, of l] keep [OF l] p(5) l
        by (auto simp: same_mapping_def live_def refs_1)
      then have "others_kept x x2" by (intro others_keptI) (simp_all add: sel sz keep)
      then show ?thesis using window_upd_fresh(1) [OF ok wf' sz num p(2,3) old x2] by simp
    qed
    have e: "embeds m' (addr AND NOT (segment_size m' - 1)) (unat n) q idx"
      using q by (simp add: placed_in_def masked_def translation_mask_def sz)
    have "new_ref x x2 q" using q by (auto simp: placed_in_def new_ref_def refs_1) (simp_all add: refs_def sel)
    with placed_range [OF conjunct1 [OF both] sel(1) sid e nn] res both sel(2) show ?thesis
      by (intro exI [of _ "Some ?off"] exI [of _ x2]) auto
  qed
qed


text \<open>Releasing: only the last reference touches the registers.\<close>

lemma lut_entry_window:
  assumes "ranges_fit (a_lut_manager x)" "segments_num (a_lut_manager x') = segments_num (a_lut_manager x)"
    "segment_size (a_lut_manager x') = segment_size (a_lut_manager x)"
    "\<And>i. i < 256 \<Longrightarrow> lut_entry x' i = lut_entry x i"
  shows "window x' off = window x off"
  using assms by (simp add: window_def Let_def ranges_fit_def)

lemma upt_below: "k \<le> 256 \<Longrightarrow> list_all (\<lambda>i. i < 256) [p..<k]"
  by (simp add: list_all_iff)

lemma drop_ref_leader:
  assumes "leader (drop_ref es l) q" and "leader es l"
  shows "leader es q" "e_value (drop_ref es l ! q) = e_value (es ! q)" "span (drop_ref es l) q = span es q"
proof (atomize (full), cases "counter (es ! l) = 1")
  case True
  then have "drop_ref es l = clear_entries es l (span es l)" by (simp add: drop_ref_def)
  with assms(1) clear_leader [of es l "span es l" q]
  show "leader es q \<and> e_value (drop_ref es l ! q) = e_value (es ! q) \<and> span (drop_ref es l) q = span es q"
    by (simp add: span_def)
next
  case False
  then have e: "drop_ref es l = es[l := (es ! l)\<lparr>counter := counter (es ! l) - 1\<rparr>]" by (simp add: drop_ref_def)
  show "leader es q \<and> e_value (drop_ref es l ! q) = e_value (es ! q) \<and> span (drop_ref es l) q = span es q"
    using assms unfolding e by (cases "q = l") (simp_all add: leader_def span_def)
qed

lemma del_visible:
  assumes ok: "window_ok x" and l: "leader (entries (a_lut_manager x)) l"
    and at: "l \<le> unat (addr div segment_size (a_lut_manager x))"
      "unat (addr div segment_size (a_lut_manager x)) < l + span (entries (a_lut_manager x)) l"
  shows "\<exists>x'. plx_del_a_lut_entry addr x = Ret x' \<and> window_ok x' \<and> aper x' = aper x \<and>
    a_lut_manager x' = (a_lut_manager x)\<lparr>entries := drop_ref (entries (a_lut_manager x)) l\<rparr> \<and>
    (\<forall>i < 256. lut_entry x' i = (if counter (entries (a_lut_manager x) ! l) = 1 \<and> l \<le> i \<and>
        i < l + span (entries (a_lut_manager x)) l then None else lut_entry x i))"
proof -
  let ?m = "a_lut_manager x" let ?es = "entries ?m" let ?S = "unat (segment_size ?m)"
  have wf: "alm_wf ?m" and f: "ranges_fit ?m" and a: "a_lut x" using ok by (simp_all add: window_ok_def)
  have pos: "0 < ?S" by (rule fit_pos [OF f])
  then have nz: "segment_size ?m \<noteq> 0" by (metis unat_0 less_irrefl)
  note t = alm_wfD(3) [OF wf]
  have sp: "l + span ?es l \<le> length ?es" "0 < span ?es l" using leader_region_free(2,3) [OF t l] by auto
  have len: "length ?es = unat (segments_num ?m)" "length ?es \<le> 256" using alm_wfD [OF wf] by auto
  have "unat addr div ?S < unat (segments_num ?m)" using at(2) sp(1) len(1) by (simp add: unat_div)
  then have b: "unat addr < unat (segments_num ?m) * ?S" using pos by (simp add: div_less_iff_less_mult)
  have "unat (segments_num ?m) * ?S < 2 ^ 64" using f pos by (simp add: ranges_fit_def algebra_simps)
  then have "unat (ucast (segments_num ?m) * segment_size ?m) = unat (segments_num ?m) * ?S"
    by (subst unat_mult_lem [THEN iffD1]) simp_all
  with b have inb: "\<not> addr \<ge> ucast (segments_num ?m) * segment_size ?m" by (simp add: word_le_nat_alt)
  let ?sid = "ucast (addr div segment_size ?m) :: u32"
  have sid: "unat ?sid = unat (addr div segment_size ?m)"
    using at(2) sp(1) len by (simp add: unsigned_ucast_eq take_bit_nat_eq_self)
  note d = del_entry_group [OF wf l, of ?sid, unfolded sid, OF at]
  define m' where "m' = ?m\<lparr>entries := drop_ref ?es l\<rparr>"
  have f': "ranges_fit m'" using f by (simp add: m'_def ranges_fit_def)
  have u: "unat (of_nat l :: u32) = l" "unat (of_nat (span ?es l) :: u32) = span ?es l"
    using sp len by (simp_all add: unat_small_u32)
  define x' where "x' = (if counter (?es ! l) = 1 then fold clear_permission [l..<l + span ?es l] (x\<lparr>a_lut_manager := m'\<rparr>)
      else x\<lparr>a_lut_manager := m'\<rparr>)"
  have res: "plx_del_a_lut_entry addr x = Ret x'"
    using nz inb d(1) by (simp add: plx_del_a_lut_entry_def Let_def x'_def m'_def u)
  have sel: "a_lut_manager x' = m'" "aper x' = aper x" "a_lut x' = a_lut x" by (simp_all add: x'_def)
  have le: "lut_entry x' i = (if counter (?es ! l) = 1 \<and> l \<le> i \<and> i < l + span ?es l then None else lut_entry x i)"
    if "i < 256" for i
    using lut_entry_clear_permission [OF upt_below that, of "l + span ?es l" l "x\<lparr>a_lut_manager := m'\<rparr>"] sp(1) len(2)
    by (simp add: x'_def lut_mmio_upd)
  have "shows_group x' q" if q: "leader (drop_ref ?es l) q" for q
  proof -
    have old: "leader ?es q" "e_value (drop_ref ?es l ! q) = e_value (?es ! q)" "span (drop_ref ?es l) q = span ?es q"
      using drop_ref_leader [OF q l] by simp_all
    have "\<not> (counter (?es ! l) = 1 \<and> l \<le> q + j \<and> q + j < l + span ?es l)" if j: "j < span ?es q" for j
    proof (cases "q = l")
      case True
      with q sp show ?thesis by (auto simp: drop_ref_def leader_def nth_clear)
    next
      case False
      then show ?thesis using leaders_apart [OF t old(1) l] leaders_apart [OF t l old(1)] j by (cases "q < l") auto
    qed
    moreover have "q + j < 256" if "j < span ?es q" for j
      using leader_region_free(2) [OF t old(1)] len(2) that by simp
    ultimately show ?thesis
      using ok old le by (auto simp: window_ok_def shows_group_def Let_def sel m'_def)
  qed
  then have "window_ok x'" using a d(2) f' by (simp add: window_ok_def sel m'_def)
  with res le sel show ?thesis by (intro exI [of _ x']) (simp add: m'_def)
qed

section \<open>Mapping and unmapping\<close>

lemma ioremap_visible:
  assumes ok: "window_ok x" and refs: "refs_ok (a_lut_manager x)"
  shows "\<exists>r x'. plx_ioremap pa n x = Some (Ret (r, x')) \<and> window_ok x' \<and> aper x' = aper x \<and> others_kept x x' \<and>
    (\<forall>va. r = Some va \<longrightarrow> (\<forall>i < unat n. window x' (va - mw_va (aper x) + of_nat i) = Some (pa + of_nat i)) \<and>
       (\<exists>g. lies_in x' g (va - mw_va (aper x)) (unat n) \<and> new_ref x x' g))"
proof -
  have al: "a_lut x" using ok by (simp add: window_ok_def)
  from add_visible [OF ok refs, of pa n] obtain r x' where
    a: "plx_add_a_lut_entry pa n x = Some (Ret (r, x'))" "window_ok x'" "aper x' = aper x" "others_kept x x'"
    "\<And>off i. r = Some off \<Longrightarrow> i < unat n \<Longrightarrow> window x' (off + of_nat i) = Some (pa + of_nat i)"
    "\<And>off. r = Some off \<Longrightarrow> \<exists>g. lies_in x' g off (unat n) \<and> new_ref x x' g"
    by blast
  show ?thesis
    using a al by (cases r) (auto simp: plx_ioremap_def)
qed

text \<open>Releasing one of several references of a group changes nothing but their number.\<close>

definition released :: "plx_device \<Rightarrow> plx_device \<Rightarrow> nat \<Rightarrow> bool" where
  "released x x' l \<longleftrightarrow> segment_size (a_lut_manager x') = segment_size (a_lut_manager x) \<and>
     (\<forall>off. window x' off = window x off) \<and>
     (\<forall>k. (leader (entries (a_lut_manager x')) k \<longleftrightarrow> leader (entries (a_lut_manager x)) k) \<and>
        span (entries (a_lut_manager x')) k = span (entries (a_lut_manager x)) k \<and>
        (leader (entries (a_lut_manager x)) k \<longrightarrow> refs x' k = (if k = l then refs x k - 1 else refs x k)))"

lemma iounmap_visible:
  assumes ok: "window_ok x" and g: "lies_in x l (va - mw_va (aper x)) n" "0 < n" "2 \<le> refs x l"
  shows "\<exists>x'. plx_iounmap va x = Ret x' \<and> window_ok x' \<and> aper x' = aper x \<and> released x x' l"
proof -
  let ?off = "va - mw_va (aper x)" let ?es = "entries (a_lut_manager x)"
  from g have l: "leader ?es l" "l \<le> unat (?off div segment_size (a_lut_manager x))"
    "unat (?off div segment_size (a_lut_manager x)) < l + span ?es l"
    by (auto simp: lies_in_def dest: spec [of _ 0])
  have c: "counter (?es ! l) \<noteq> 1" "1 \<le> counter (?es ! l)" using g(3) by (auto simp: refs_def word_le_nat_alt)
  with del_visible [OF ok l] obtain x' where x': "plx_del_a_lut_entry ?off x = Ret x'" "window_ok x'"
    "aper x' = aper x" "a_lut_manager x' = (a_lut_manager x)\<lparr>entries := drop_ref ?es l\<rparr>"
    "\<And>i. i < 256 \<Longrightarrow> lut_entry x' i = lut_entry x i" by auto
  have w: "window x' off = window x off" for off
    using ok x'(4,5) by (intro lut_entry_window) (simp_all add: window_ok_def)
  have es: "entries (a_lut_manager x') = ?es[l := (?es ! l)\<lparr>counter := counter (?es ! l) - 1\<rparr>]"
    using c(1) by (simp add: x'(4) drop_ref_def)
  have u: "unat (counter (?es ! l) - 1) = refs x l - 1" using c(2) by (simp add: unat_sub refs_def)
  then have nz: "counter (?es ! l) - 1 \<noteq> 0" using g(3) by (metis One_nat_def diff_is_0_eq not_less_eq_eq numeral_2_eq_2 unat_0)
  have "released x x' l"
    unfolding released_def
  proof (intro conjI allI impI)
    fix k
    show "leader (entries (a_lut_manager x')) k \<longleftrightarrow> leader ?es k"
      using l(1) nz by (cases "k = l") (simp_all add: es leader_def)
    show "span (entries (a_lut_manager x')) k = span ?es k"
      using l(1) by (cases "k = l") (simp_all add: es span_def leader_def)
    show "refs x' k = (if k = l then refs x k - 1 else refs x k)" if "leader ?es k"
      using l(1) u by (cases "k = l") (simp_all add: refs_def es leader_def)
  qed (use w x'(4) in simp_all)
  with x' ok show ?thesis by (simp add: plx_iounmap_def window_ok_def Let_def)
qed

datatype win_op = Map u64 u64 | Unmap u64

definition win_step :: "win_op \<Rightarrow> plx_device \<Rightarrow> plx_device outcome" where
  "win_step op x =
     (case op of
        Map pa n \<Rightarrow> (case plx_ioremap pa n x of Some (Ret (r, x')) \<Rightarrow> Ret x' | _ \<Rightarrow> Abort)
      | Unmap va \<Rightarrow> plx_iounmap va x)"

definition win_guard :: "plx_device \<Rightarrow> win_op \<Rightarrow> bool" where
  "win_guard x op = (case op of Map pa n \<Rightarrow> refs_ok (a_lut_manager x) | Unmap va \<Rightarrow> \<exists>l. lies_in x l (va - mw_va (aper x)) 1 \<and> 2 \<le> refs x l)"

interpretation win: guarded_machine win_step window_ok win_guard
proof unfold_locales
  fix x op assume ok: "window_ok x" and g: "win_guard x op"
  show "\<exists>x'. win_step op x = Ret x' \<and> window_ok x'"
  proof (cases op)
    case (Map pa n)
    with g have "refs_ok (a_lut_manager x)" by (simp add: win_guard_def)
    from ioremap_visible [OF ok this, of pa n] Map show ?thesis by (auto simp: win_step_def)
  next
    case (Unmap va)
    with g obtain l where l: "lies_in x l (va - mw_va (aper x)) 1" "2 \<le> refs x l" by (auto simp: win_guard_def)
    from iounmap_visible [OF ok l(1) _ l(2)] Unmap show ?thesis by (auto simp: win_step_def)
  qed
qed

section \<open>Set-up\<close>

lemma write_outside [simp]:
  "r < 0x3c000 \<Longrightarrow> 0x3c000 \<le> r' \<Longrightarrow> mmio (plx_mmio_write v r' x) r = mmio x r"
  by (auto simp: plx_mmio_write_def)

lemma reg_base_high: "p = 0 \<or> p = 1 \<Longrightarrow> 0x3c000 \<le> plx_get_reg_base l p + PLX_A_LUT_CONTROL"
  by (cases l) (auto simp: plx_get_reg_base_def PLX_A_LUT_CONTROL_def)

text \<open>What the steps of the set-up leave alone.\<close>

definition quiet :: "plx_device \<Rightarrow> plx_device \<Rightarrow> bool" where
  "quiet x x' \<longleftrightarrow> (\<forall>r < 0x3c000. mmio x' r = mmio x r) \<and> reg_base x' = reg_base x \<and> reg_base_peer x' = reg_base_peer x \<and>
     segments_num (a_lut_manager x') = segments_num (a_lut_manager x) \<and> aper x' = aper x \<and> a_lut x' = a_lut x \<and>
     num_ntbs x' = num_ntbs x \<and> a_lut_array_base x' = a_lut_array_base x"

lemma quietI_write: "0x3c000 \<le> r' \<Longrightarrow> quiet x (plx_mmio_write v r' x)"
  by (simp add: quiet_def) (simp add: plx_mmio_write_def)

lemma quiet_refl: "quiet x x" by (simp add: quiet_def)

lemma quiet_trans: "quiet x y \<Longrightarrow> quiet y z \<Longrightarrow> quiet x z" by (simp add: quiet_def)

lemma quiet_rid: "quiet x (snd (plx_program_rid_lut pdev x))"
  by (auto simp: plx_program_rid_lut_def Let_def quiet_refl intro!: quietI_write split: option.splits prod.splits)

lemma quiet_rid_dma: "plx_program_rid_lut_dma pdev x = Ret (rc, x') \<Longrightarrow> quiet x x'"
  by (auto simp: plx_program_rid_lut_dma_def Let_def intro!: quietI_write split: if_splits)

lemma clear_nothing:
  assumes "segments_num (a_lut_manager x) = 0"
  shows "plx_a_lut_clear off x = Ret x' \<Longrightarrow> quiet x x'"
  using assms by (auto simp: plx_a_lut_clear_def plx_alm_reset_def quiet_def split: outcome.splits)

lemma quiet_enable:
  assumes "segments_num (a_lut_manager x) = 0" and b: "0x3c000 \<le> reg_base x + PLX_A_LUT_CONTROL"
    and e: "plx_a_lut_enable x = Ret (rc, x')"
  shows "quiet x x'"
proof -
  have d: "quiet x (plx_a_lut_disable x)" using b by (simp add: plx_a_lut_disable_def quietI_write)
  from e obtain y where y: "plx_a_lut_clear (a_lut_array_base (plx_a_lut_disable x)) (plx_a_lut_disable x) = Ret y"
    and x': "x' = (if a_lut_peer y then plx_mmio_write PLX_A_LUT_ENABLE (reg_base y + PLX_A_LUT_CONTROL) y else y)"
    by (auto simp: plx_a_lut_enable_def Let_def split: outcome.splits)
  have "segments_num (a_lut_manager (plx_a_lut_disable x)) = 0" using d assms(1) by (simp add: quiet_def)
  from clear_nothing [OF this y] d have q: "quiet x y" by (blast intro: quiet_trans)
  then have "0x3c000 \<le> reg_base y + PLX_A_LUT_CONTROL" using b by (simp add: quiet_def)
  then have "quiet y x'" by (simp add: x' quietI_write quiet_refl)
  with q show ?thesis by (rule quiet_trans)
qed

lemma hw_init_result:
  assumes empty: "segments_num (a_lut_manager x) = 0"
    and i: "plx_hw_init (Inr val) alloc_ok pdev x = Ret (0, x')"
  shows "(\<forall>r < 0x3c000. mmio x' r = mmio x r) \<and> a_lut x' \<and> aper x' = aper x \<and>
     num_ntbs x' = ntbs_of (device_id pdev) \<and>
     a_lut_array_base x' = array_base_of (ntbs_of (device_id pdev)) (bit val 31) (val AND 1) \<and>
     reg_base x' = plx_get_reg_base (bit val 31) (val AND 1) \<and>
     reg_base_peer x' = plx_get_reg_base (\<not> bit val 31) (val AND 1) \<and>
     (\<exists>m. plx_alm_init alloc_ok m (num_ntbs x') (mw_len (aper x')) = Ret (0, a_lut_manager x'))"
proof -
  let ?link = "bit val 31" and ?port = "val AND 1"
  have port: "?port = 0 \<or> ?port = 1" by (cases "bit val 0") (auto simp: one_and_eq and_one_eq odd_iff_mod_2_eq_one)
  define x1 where "x1 = x\<lparr>link_side := ?link, port_id := ?port, reg_base := plx_get_reg_base ?link ?port,
     reg_base_peer := plx_get_reg_base (\<not> ?link) ?port, a_lut := True, a_lut_peer := True\<rparr>"
  define x2 where "x2 = (if ?link then x1\<lparr>intr_reg_base := 0x10\<rparr> else x1\<lparr>peer_intr_reg_base := 0x10\<rparr>)"
  define x3 where "x3 = x2\<lparr>num_ntbs := ntbs_of (device_id pdev),
     a_lut_array_base := array_base_of (ntbs_of (device_id pdev)) ?link ?port\<rparr>"
  obtain rc x4 where 4: "plx_program_rid_lut pdev x3 = (rc, x4)" by fastforce
  define rest where "rest = (case plx_program_rid_lut_dma pdev x4 of
       Abort \<Rightarrow> Abort
     | Ret (rc, x5) \<Rightarrow> if rc \<noteq> 0 then Ret (rc, x5) else case plx_a_lut_enable x5 of Abort \<Rightarrow> Abort
       | Ret (rc, x6) \<Rightarrow> if rc \<noteq> 0 then Ret (rc, x6)
         else case plx_alm_init alloc_ok (a_lut_manager x6) (num_ntbs x6) (mw_len (aper x6)) of
           Abort \<Rightarrow> Abort | Ret (rc, m) \<Rightarrow> Ret (rc, x6\<lparr>a_lut_manager := m\<rparr>))"
  have "plx_hw_init (Inr val) alloc_ok pdev x =
     (if \<not> ?link \<and> plx_check_eeprom x1 \<noteq> 0 then Ret (plx_check_eeprom x1, x1)
      else if rc \<noteq> 0 then Ret (rc, x4) else rest)"
    by (simp only: plx_hw_init_def Let_def sum.case x1_def [symmetric] x2_def [symmetric] x3_def [symmetric]
        4 prod.case rest_def)
  with i have u: "rest = Ret (0, x')" by (auto split: if_splits)
  from u [unfolded rest_def] obtain x5 x6 m where 5: "plx_program_rid_lut_dma pdev x4 = Ret (0, x5)"
    and 6: "plx_a_lut_enable x5 = Ret (0, x6)"
    and m: "plx_alm_init alloc_ok (a_lut_manager x6) (num_ntbs x6) (mw_len (aper x6)) = Ret (0, m)"
    and x': "x' = x6\<lparr>a_lut_manager := m\<rparr>"
    by (auto split: outcome.splits prod.splits if_splits)
  have q5: "quiet x3 x5" using quiet_rid [of x3 pdev] quiet_rid_dma [OF 5] by (simp add: 4 quiet_trans)
  have x3: "mmio x3 = mmio x" "a_lut_manager x3 = a_lut_manager x" "aper x3 = aper x" "a_lut x3"
    "reg_base x3 = plx_get_reg_base ?link ?port" "reg_base_peer x3 = plx_get_reg_base (\<not> ?link) ?port" "num_ntbs x3 = ntbs_of (device_id pdev)"
    "a_lut_array_base x3 = array_base_of (ntbs_of (device_id pdev)) ?link ?port"
    by (simp_all add: x3_def x2_def x1_def)
  have "quiet x5 x6"
    using q5 empty x3 reg_base_high [OF port] by (intro quiet_enable [OF _ _ 6]) (simp_all add: quiet_def)
  with q5 have "quiet x3 x6" by (rule quiet_trans)
  with x3 m show ?thesis by (auto simp: quiet_def x')
qed

lemma array_base_low:
  assumes "i < nat (256 div ntbs_of dev)" "lut_kind k"
  shows "lut_reg (array_base_of (ntbs_of dev) link port) k i < 0x3c000"
proof -
  let ?n = "ntbs_of dev" let ?o = "plx_get_a_lut_entry_offset (of_nat i)"
  have n: "?n = 1 \<and> i < 256 \<or> ?n = 2 \<and> i < 128" using assms(1) by (auto simp: ntbs_of_def split: if_splits)
  have o: "unat ?o = (if 128 \<le> i then 4096 else 0) + i mod 128 * 4" using n by (intro unat_entry_offset) auto
  have m: "i mod 128 \<le> 127" using mod_less_divisor [of 128 i] by linarith
  have b: "unat (array_base_of ?n link port) \<le> (if ?n = 1 then 0x3a000 else 0x3b000)"
    by (simp add: array_base_of_def ntbs_of_def)
  have k: "unat k \<le> 0x800" using assms(2) by (auto simp: lut_kind_def)
  have le: "unat ?o \<le> (if ?n = 1 then 4604 else 508)" using n m o by auto
  have "unat (lut_reg (array_base_of ?n link port) k i) = unat (array_base_of ?n link port) + unat ?o + unat k"
    using b k le by (simp add: lut_reg_def unat_add_lem [THEN iffD1] split: if_splits)
  also have "\<dots> < 0x3c000" using b k le by (simp split: if_splits)
  finally show ?thesis by (simp add: word_less_nat_alt)
qed

section \<open>Properties\<close>

text \<open>
  C7. Mapping remote memory into the window returns, and if it gives a pointer then each byte behind
  it, for the requested length, is translated by the registers of the bridge to the byte of the remote
  memory that was asked for. What other users have mapped keeps its translation.
\<close>
theorem mapping_visible:
  assumes "window_ok x" and "refs_ok (a_lut_manager x)"
  shows "\<exists>r x'. plx_ioremap pa n x = Some (Ret (r, x')) \<and> window_ok x' \<and>
    (\<forall>va. r = Some va \<longrightarrow> (\<forall>i < unat n. window x' (va - mw_va (aper x) + of_nat i) = Some (pa + of_nat i))) \<and>
    (\<forall>l off. leader (entries (a_lut_manager x)) l \<longrightarrow> counter (entries (a_lut_manager x) ! l) \<noteq> 1 \<longrightarrow>
       l \<le> unat (off div segment_size (a_lut_manager x)) \<longrightarrow>
       unat (off div segment_size (a_lut_manager x)) < l + span (entries (a_lut_manager x)) l \<longrightarrow>
       window x' off = window x off)"
proof -
  from ioremap_visible [OF assms, of pa n] obtain r x' where r: "plx_ioremap pa n x = Some (Ret (r, x'))" "window_ok x'"
    "others_kept x x'" "\<And>va i. r = Some va \<Longrightarrow> i < unat n \<Longrightarrow> window x' (va - mw_va (aper x) + of_nat i) = Some (pa + of_nat i)"
    by blast
  then show ?thesis unfolding others_kept_def same_window_def live_def
    by (intro exI [of _ r] exI [of _ x']) (simp add: refs_1)
qed

text \<open>
  Unmapping does not close the window: after a successful mapping and its unmapping the bridge still
  translates every byte of the range to the same remote memory, because the table keeps a reference of
  its own and the registers are written only when that is dropped.
\<close>
theorem unmap_keeps_window:
  assumes "window_ok x" and "refs_ok (a_lut_manager x)" and "0 < n"
    and "plx_ioremap pa n x = Some (Ret (Some va, x1))"
  shows "\<exists>x2. plx_iounmap va x1 = Ret x2 \<and>
    (\<forall>i < unat n. window x2 (va - mw_va (aper x) + of_nat i) = Some (pa + of_nat i))"
proof -
  have n: "0 < unat n" using assms(3) by (simp add: unat_gt_0 word_neq_0_conv)
  from ioremap_visible [OF assms(1,2), of pa n] assms(4)
  have 1: "window_ok x1" "aper x1 = aper x"
    "\<And>i. i < unat n \<Longrightarrow> window x1 (va - mw_va (aper x) + of_nat i) = Some (pa + of_nat i)"
    "\<exists>g. lies_in x1 g (va - mw_va (aper x1)) (unat n) \<and> 2 \<le> refs x1 g" by (auto simp: new_ref_def)
  then obtain g where "lies_in x1 g (va - mw_va (aper x1)) (unat n)" "2 \<le> refs x1 g" by blast
  from iounmap_visible [OF 1(1) this(1) n this(2)] obtain x2 where "plx_iounmap va x1 = Ret x2"
    "\<And>off. window x2 off = window x1 off" by (auto simp: released_def)
  with 1(3) show ?thesis by auto
qed

text \<open>
  The set-up is meant to clear the translation registers before it enables them, but the table has no
  segments yet at that time: no register of the array is written. The driver starts with an empty
  table over whatever the registers held.
\<close>
theorem init_keeps_stale:
  assumes "segments_num (a_lut_manager x) = 0" and "plx_hw_init (Inr val) True pdev x = Ret (0, x')"
  shows "entries (a_lut_manager x') = replicate (unat (segments_num (a_lut_manager x'))) null_entry \<and>
    segments_num (a_lut_manager x') \<noteq> 0 \<and>
    (\<forall>i < unat (segments_num (a_lut_manager x')).
       lut_entry x' i = lut_entry (x\<lparr>a_lut_array_base := a_lut_array_base x'\<rparr>) i)"
proof -
  let ?n = "ntbs_of (device_id pdev)"
  from hw_init_result [OF assms] obtain m where r: "\<And>r. r < 0x3c000 \<Longrightarrow> mmio x' r = mmio x r"
    and b: "a_lut_array_base x' = array_base_of ?n (bit val 31) (val AND 1)" and n: "num_ntbs x' = ?n"
    and m: "plx_alm_init True m ?n (mw_len (aper x')) = Ret (0, a_lut_manager x')" by auto
  have n12: "0 < ?n" "?n \<le> 256" by (auto simp: ntbs_of_def)
  from init_establishes [OF n12, of m "mw_len (aper x')"] m
  have s: "unat (segments_num (a_lut_manager x')) = nat (256 div ?n)"
    "entries (a_lut_manager x') = replicate (nat (256 div ?n)) null_entry" by auto
  have nz: "nat (256 div ?n) \<noteq> 0" by (auto simp: ntbs_of_def)
  have "lut_entry x' i = lut_entry (x\<lparr>a_lut_array_base := a_lut_array_base x'\<rparr>) i"
    if "i < unat (segments_num (a_lut_manager x'))" for i
    using that r array_base_low [of i "device_id pdev"] by (simp add: lut_entry_def b s)
  moreover have "segments_num (a_lut_manager x') \<noteq> 0" using s(1) nz by (metis unat_0)
  ultimately show ?thesis using s by simp
qed

text \<open>
  C9. In any sequence of mappings and unmappings, unmapping only what is mapped, no assertion of the
  driver fails, and afterwards the registers translate every segment of every group in the table to
  the address the table has for it, byte for byte.
\<close>
theorem window_runs:
  assumes "window_ok x" and "win.guarded ops x"
  shows "\<exists>x'. win.run ops x = Ret x' \<and> alm_wf (a_lut_manager x') \<and>
    (\<forall>l j b. leader (entries (a_lut_manager x')) l \<longrightarrow> j < span (entries (a_lut_manager x')) l \<longrightarrow>
       b < unat (segment_size (a_lut_manager x')) \<longrightarrow>
       window x' (of_nat ((l + j) * unat (segment_size (a_lut_manager x')) + b)) =
         Some (e_value (entries (a_lut_manager x') ! l) + of_nat (j * unat (segment_size (a_lut_manager x')) + b)))"
proof -
  from win.run_safe [OF assms] obtain x' where x': "win.run ops x = Ret x'" and ok: "window_ok x'" by blast
  let ?m = "a_lut_manager x'"
  have "window x' (of_nat ((l + j) * unat (segment_size ?m) + b)) =
      Some (e_value (entries ?m ! l) + of_nat (j * unat (segment_size ?m) + b))"
    if l: "leader (entries ?m) l" and j: "j < span (entries ?m) l" and b: "b < unat (segment_size ?m)" for l j b
  proof -
    have wf: "alm_wf ?m" and f: "ranges_fit ?m" using ok by (simp_all add: window_ok_def)
    have lt: "l + j < unat (segments_num ?m)"
      using leader_region_free(2) [OF alm_wfD(3) [OF wf] l] alm_wfD(1) [OF wf] j by simp
    have "lut_entry x' (l + j) = Some (e_value (entries ?m ! l) + of_nat j * segment_size ?m)"
      using ok l j by (simp add: window_ok_def shows_group_def Let_def)
    from window_at [OF f this lt b] show ?thesis by (simp add: algebra_simps of_nat_unat)
  qed
  with x' ok show ?thesis by (auto simp: window_ok_def)
qed

section \<open>Concrete instances\<close>

definition small_window :: plx_device where
  "small_window = \<lparr>mmio = (\<lambda>_. 0), aper = \<lparr>mw_pa = 0x10000000, mw_va = 0x7f000000, mw_len = 0x4000\<rparr>, port_id = 0,
     link_side = False, num_ntbs = 2, reg_base = 0x3E000, reg_base_peer = 0x3F000, a_lut = True, a_lut_peer = True,
     a_lut_array_base = 0x38000, intr_reg_base = 0, peer_intr_reg_base = 0x10,
     a_lut_manager = \<lparr>segments_num = 4, segment_size = 0x1000, entries = replicate 4 null_entry\<rparr>,
     mmio_link_offset = 0\<rparr>"

lemma small_window_ok: "window_ok small_window" "refs_ok (a_lut_manager small_window)"
proof -
  have n: "\<not> leader (replicate 4 null_entry) l" for l by (simp add: leader_def)
  have "\<exists>k. (4096 :: nat) = 2 ^ k" by (intro exI [of _ 12]) simp
  then show "window_ok small_window" "refs_ok (a_lut_manager small_window)"
    by (simp_all only: window_ok_def refs_ok_def small_window_def plx_device.simps plx_alm.simps)
      (simp_all add: n alm_wf_def ranges_fit_def wf_replicate_null)
qed

declare plx_alm_add_entry.simps [code] find_slot.simps [code]

lemma small_mapped:
  obtains x1 where "plx_ioremap 0x12345678 0x2000 small_window = Some (Ret (Some 0x7f000678, x1))"
proof -
  have "(case plx_ioremap 0x12345678 0x2000 small_window of Some (Ret (Some va, x1)) \<Rightarrow> va = 0x7f000678 | _ \<Rightarrow> False)"
    by code_simp
  then show thesis using that by (auto split: option.splits outcome.splits prod.splits)
qed

theorem mapping_visible_witness:
  "\<exists>x'. plx_ioremap 0x12345678 0x2000 small_window = Some (Ret (Some 0x7f000678, x')) \<and>
     (\<forall>i < 0x2000. window x' (0x678 + of_nat i) = Some (0x12345678 + of_nat i))"
proof -
  obtain x1 where x1: "plx_ioremap 0x12345678 0x2000 small_window = Some (Ret (Some 0x7f000678, x1))"
    by (rule small_mapped)
  have "0x7f000678 - mw_va (aper small_window) = 0x678" by (simp add: small_window_def)
  with mapping_visible [OF small_window_ok, of "0x12345678" "0x2000"] x1
  have "\<forall>i < 0x2000. window x1 (0x678 + of_nat i) = Some (0x12345678 + of_nat i)" by auto
  with x1 show ?thesis by blast
qed

theorem unmap_keeps_window_witness:
  "\<exists>x1 x2. plx_ioremap 0x12345678 0x2000 small_window = Some (Ret (Some 0x7f000678, x1)) \<and>
     plx_iounmap 0x7f000678 x1 = Ret x2 \<and> (\<forall>i < 0x2000. window x2 (0x678 + of_nat i) = Some (0x12345678 + of_nat i))"
proof -
  obtain x1 where x1: "plx_ioremap 0x12345678 0x2000 small_window = Some (Ret (Some 0x7f000678, x1))"
    by (rule small_mapped)
  have "0x7f000678 - mw_va (aper small_window) = 0x678" by (simp add: small_window_def)
  with unmap_keeps_window [OF small_window_ok _ x1] x1 show ?thesis by auto
qed

definition fresh_bridge :: plx_device where
  "fresh_bridge = small_window\<lparr>mmio := (\<lambda>r. if r = 0x260 then 0x10000 else if r = 0x38800 then 3 else if r = 0x38000 then 0xdead0000 else 0),
     a_lut_manager := \<lparr>segments_num = 0, segment_size = 0, entries = []\<rparr>\<rparr>"

definition bridge_pci :: pci_dev where
  "bridge_pci = \<lparr>device_id = 0x2954, upstream = [(False, 2, 0), (True, 0, 8)], bus_numbers = [3, 2, 1, 0]\<rparr>"

theorem init_keeps_stale_witness:
  "\<exists>x'. plx_hw_init (Inr 0) True bridge_pci fresh_bridge = Ret (0, x') \<and>
     entries (a_lut_manager x') = replicate 128 null_entry \<and> lut_entry x' 0 = Some 0xdead0000"
proof -
  have "(case plx_hw_init (Inr 0) True bridge_pci fresh_bridge of
      Ret (rc, x') \<Rightarrow> rc = 0 \<and> segments_num (a_lut_manager x') = 128 \<and> a_lut_array_base x' = 0x38000 | Abort \<Rightarrow> False)" by code_simp
  then obtain x' where x': "plx_hw_init (Inr 0) True bridge_pci fresh_bridge = Ret (0, x')"
    "segments_num (a_lut_manager x') = 128" "a_lut_array_base x' = 0x38000" by (auto split: outcome.splits prod.splits)
  have "segments_num (a_lut_manager fresh_bridge) = 0" by (simp add: fresh_bridge_def)
  from init_keeps_stale [OF this x'(1)] x'(2,3)
  have "entries (a_lut_manager x') = replicate 128 null_entry"
    "lut_entry x' 0 = lut_entry (fresh_bridge\<lparr>a_lut_array_base := 0x38000\<rparr>) 0" by auto
  moreover have "lut_entry (fresh_bridge\<lparr>a_lut_array_base := 0x38000\<rparr>) 0 = Some 0xdead0000" by code_simp
  ultimately show ?thesis using x'(1) by auto
qed

theorem window_runs_witness:
  "\<exists>x'. win.run [Map 0x12345678 0x2000, Unmap 0x7f000678] small_window = Ret x' \<and>
     alm_wf (a_lut_manager x')"
proof -
  obtain x1 where x1: "plx_ioremap 0x12345678 0x2000 small_window = Some (Ret (Some 0x7f000678, x1))"
    by (rule small_mapped)
  have e: "0x7f000678 - mw_va (aper small_window) = 0x678" by (simp add: small_window_def)
  from ioremap_visible [OF small_window_ok, of "0x12345678" "0x2000"] x1 e
  obtain g where 1: "aper x1 = aper small_window" "lies_in x1 g 0x678 (unat (0x2000 :: u64))" "2 \<le> refs x1 g"
    by (auto simp: new_ref_def)
  have "lies_in x1 g 0x678 1" by (rule lies_in_less [OF 1(2)]) simp
  with 1(3) have 2: "\<exists>l. lies_in x1 l 0x678 1 \<and> 2 \<le> refs x1 l" by blast
  have "win.guarded [Map 0x12345678 0x2000, Unmap 0x7f000678] small_window"
    using small_window_ok x1 1(1) 2 e by (simp add: win_guard_def win_step_def split: outcome.splits)
  from window_runs [OF small_window_ok(1) this] show ?thesis by blast
qed

end
