(* ===== verification/Sgx_Mapper.thy ===== *)
theory Sgx_Mapper
  imports Plx_Window Mem_Platform
begin

text \<open>
  The mapper module (\<open>dma-mapping-driver/sgx5.c\<close>, one copy per computer of a card): two files in sysfs,
  each holding one mapping of remote memory. Writing two hexadecimal numbers, an address and a length,
  maps; zeros unmap; reading shows the mapping and the local physical address it is seen at. The
  memory-sharing library programs the mapper with \<open>echo\<close> and reads the address back with \<open>cat\<close>.

  Texts are strings. The conversions of \<open>sscanf\<close> and \<open>sprintf\<close> that the module uses are written out;
  \<open>None\<close> for the device is NULL.
\<close>

section \<open>Numbers in texts\<close>

definition hex_char :: "nat \<Rightarrow> char" where
  "hex_char d = (if d < 10 then char_of (48 + d) else char_of (87 + d))"

fun hex_of :: "nat \<Rightarrow> string" where
  "hex_of n = (if n < 16 then [hex_char n] else hex_of (n div 16) @ [hex_char (n mod 16)])"

declare hex_of.simps [simp del]

definition hex_val :: "char \<Rightarrow> nat option" where
  "hex_val c = (let k = of_char c :: nat in
     if 48 \<le> k \<and> k \<le> 57 then Some (k - 48) else if 97 \<le> k \<and> k \<le> 102 then Some (k - 87)
     else if 65 \<le> k \<and> k \<le> 70 then Some (k - 55) else None)"

definition is_space :: "char \<Rightarrow> bool" where
  "is_space c \<longleftrightarrow> (let k = of_char c :: nat in k = 32 \<or> 9 \<le> k \<and> k \<le> 13)"

text \<open>The prefix \<open>0x\<close> is skipped where there is one.\<close>

definition strip_0x :: "string \<Rightarrow> string" where
  "strip_0x cs = (case cs of a # b # r \<Rightarrow> (if a = CHR ''0'' \<and> (b = CHR ''x'' \<or> b = CHR ''X'') then r else cs) | _ \<Rightarrow> cs)"

definition strtoul16 :: "string \<Rightarrow> u64 \<times> string" where
  "strtoul16 cs =
     (let ds = strip_0x cs
      in (foldl (\<lambda>a c. a * 16 + of_nat (the (hex_val c))) 0 (takeWhile (\<lambda>c. hex_val c \<noteq> None) ds),
          dropWhile (\<lambda>c. hex_val c \<noteq> None) ds))"

text \<open>The conversion \<open>%lx\<close>, and the literal \<open>0x\<close> before it.\<close>

definition scan_lx :: "string \<Rightarrow> (u64 \<times> string) option" where
  "scan_lx cs = (case dropWhile is_space cs of [] \<Rightarrow> None
     | c # r \<Rightarrow> if hex_val c = None then None else Some (strtoul16 (c # r)))"

definition scan_0x_lx :: "string \<Rightarrow> (u64 \<times> string) option" where
  "scan_0x_lx cs = (case cs of a # b # r \<Rightarrow> (if a = CHR ''0'' \<and> b = CHR ''x'' then scan_lx r else None) | _ \<Rightarrow> None)"

definition sscanf_map :: "string \<Rightarrow> u64 \<Rightarrow> u64 \<Rightarrow> u64 \<times> u64" where
  "sscanf_map buf a b =
     (case scan_0x_lx buf of
        None \<Rightarrow> (a, b)
      | Some (a', r) \<Rightarrow> (case scan_0x_lx (dropWhile is_space r) of None \<Rightarrow> (a', b) | Some (b', _) \<Rightarrow> (a', b')))"

text \<open>\<open>sscanf\<close> of the library; what is not matched stays uninitialised there (\<open>None\<close>).\<close>

definition sscanf_shown :: "string \<Rightarrow> (u64 \<times> u64 \<times> u64) option" where
  "sscanf_shown buf =
     (case scan_0x_lx buf of None \<Rightarrow> None
      | Some (a, r) \<Rightarrow> (case scan_0x_lx (dropWhile is_space r) of None \<Rightarrow> None
      | Some (b, r') \<Rightarrow> (case scan_0x_lx (dropWhile is_space r') of None \<Rightarrow> None | Some (c, _) \<Rightarrow> Some (a, b, c))))"

section \<open>The module\<close>

record sgx5_map_struct =
  remote_phys_addr :: u64
  map_len :: u64
  local_phys_addr :: u64

definition MAX_MAPS_NR :: nat where "MAX_MAPS_NR = 2"

record sgx5 =
  somnath_xdev :: "plx_device option"
  stored_maps :: "sgx5_map_struct list"

definition sgx5_map :: "u64 \<Rightarrow> u64 \<Rightarrow> u64 \<Rightarrow> plx_device option \<Rightarrow> (int \<times> u64 \<times> plx_device option) outcome option" where
  "sgx5_map remote sz paddr xdev =
     (case xdev of
        None \<Rightarrow> Some (Ret (0, paddr, None))
      | Some x \<Rightarrow>
          (case plx_ioremap remote sz x of
             None \<Rightarrow> None
           | Some Abort \<Rightarrow> Some Abort
           | Some (Ret (p, x')) \<Rightarrow>
               (case p of
                  None \<Rightarrow> Some (Ret (- ENODEV, 0, Some x'))
                | Some va \<Rightarrow> if va = 0 then Some (Ret (- ENODEV, 0, Some x'))
                             else Some (Ret (0, mw_pa (aper x') + (va - mw_va (aper x')), Some x')))))"

definition sgx5_unmap :: "u64 \<Rightarrow> plx_device option \<Rightarrow> (u64 \<times> plx_device option) outcome" where
  "sgx5_unmap paddr xdev =
     (case xdev of
        None \<Rightarrow> Ret (paddr, None)
      | Some x \<Rightarrow> (case plx_iounmap (paddr - mw_pa (aper x) + mw_va (aper x)) x of
                     Abort \<Rightarrow> Abort | Ret x' \<Rightarrow> Ret (0, Some x')))"

definition read_map :: "sgx5 \<Rightarrow> nat \<Rightarrow> string" where
  "read_map m n =
     (let e = stored_maps m ! n
      in ''0x'' @ hex_of (unat (remote_phys_addr e)) @ '' 0x'' @ hex_of (unat (map_len e)) @ '' 0x'' @
         hex_of (unat (local_phys_addr e)) @ [CHR 0x0A])"

text \<open>
  Both files are written by the same code but for one line: when a mapping fails, it is always the
  first entry that is cleared. The result is the number of bytes taken or -1.
\<close>

definition write_map :: "nat \<Rightarrow> string \<Rightarrow> sgx5 \<Rightarrow> (int \<times> sgx5) outcome option" where
  "write_map n buf m =
     (let e = stored_maps m ! n;
          (r, l) = sscanf_map buf (remote_phys_addr e) (map_len e);
          e1 = e\<lparr>remote_phys_addr := r, map_len := l\<rparr>
      in if r = 0 \<or> l = 0 then
           (case (if local_phys_addr e1 \<noteq> 0 then sgx5_unmap (local_phys_addr e1) (somnath_xdev m)
                  else Ret (local_phys_addr e1, somnath_xdev m)) of
              Abort \<Rightarrow> Some Abort
            | Ret (p, x) \<Rightarrow>
                Some (Ret (int (length buf),
                  \<lparr>somnath_xdev = x,
                   stored_maps = (stored_maps m)[n := e1\<lparr>local_phys_addr := p, map_len := 0, remote_phys_addr := 0\<rparr>]\<rparr>)))
         else
           (case sgx5_map r l (local_phys_addr e1) (somnath_xdev m) of
              None \<Rightarrow> None
            | Some Abort \<Rightarrow> Some Abort
            | Some (Ret (rc, p, x)) \<Rightarrow>
                let ms = (stored_maps m)[n := e1\<lparr>local_phys_addr := p\<rparr>]
                in if rc \<noteq> 0 then
                     Some (Ret (- 1, \<lparr>somnath_xdev = x,
                       stored_maps = ms[0 := (ms ! 0)\<lparr>remote_phys_addr := 0, map_len := 0\<rparr>]\<rparr>))
                   else Some (Ret (int (length buf), \<lparr>somnath_xdev = x, stored_maps = ms\<rparr>))))"

text \<open>
  Loading the module: the device of card 0, computer 0 (dereferenced in a log message), whether the
  object can be created, and the results of creating the two files; the last result counts.
\<close>

definition sgx5_init :: "plx_device option \<Rightarrow> bool \<Rightarrow> int \<Rightarrow> int \<Rightarrow> (int \<times> sgx5) outcome" where
  "sgx5_init xdev kobj_ok err0 err1 =
     (case xdev of
        None \<Rightarrow> Abort
      | Some x \<Rightarrow>
          let m = \<lparr>somnath_xdev = Some x, stored_maps = replicate MAX_MAPS_NR \<lparr>remote_phys_addr = 0, map_len = 0, local_phys_addr = 0\<rparr>\<rparr>
          in if \<not> kobj_ok then Ret (- ENOMEM, m) else Ret (err1, m))"

section \<open>What the library writes and reads\<close>

definition command_text :: "u64 \<Rightarrow> u64 \<Rightarrow> string" where
  "command_text b l = ''0x'' @ hex_of (unat b) @ '' 0x'' @ hex_of (unat l) @ [CHR 0x0A]"

definition clear_text :: string where "clear_text = ''0x00 0x00'' @ [CHR 0x0A]"

text \<open>The effect of the commands on the mappers of a host; a file that does not exist takes nothing.\<close>

fun run_command :: "command \<Rightarrow> (int \<Rightarrow> sgx5) \<Rightarrow> (int \<Rightarrow> sgx5) outcome option" where
  "run_command (Mtrr_add b s t) ms = Some (Ret ms)"
| "run_command (Mapper_clear s n) ms =
     (if n < 0 \<or> n \<ge> int MAX_MAPS_NR then Some (Ret ms)
      else case write_map (nat n) clear_text (ms s) of None \<Rightarrow> None | Some Abort \<Rightarrow> Some Abort
           | Some (Ret (_, m)) \<Rightarrow> Some (Ret (ms(s := m))))"
| "run_command (Mapper_set b l s n) ms =
     (if n < 0 \<or> n \<ge> int MAX_MAPS_NR then Some (Ret ms)
      else case write_map (nat n) (command_text b l) (ms s) of None \<Rightarrow> None | Some Abort \<Rightarrow> Some Abort
           | Some (Ret (_, m)) \<Rightarrow> Some (Ret (ms(s := m))))"

fun run_commands :: "command list \<Rightarrow> (int \<Rightarrow> sgx5) \<Rightarrow> (int \<Rightarrow> sgx5) outcome option" where
  "run_commands [] ms = Some (Ret ms)"
| "run_commands (c # cs) ms =
     (case run_command c ms of None \<Rightarrow> None | Some Abort \<Rightarrow> Some Abort | Some (Ret ms') \<Rightarrow> run_commands cs ms')"

definition mapper_file :: "(int \<Rightarrow> sgx5) \<Rightarrow> command list \<Rightarrow> int \<Rightarrow> int \<Rightarrow> (u64 \<times> u64 \<times> u64) option" where
  "mapper_file ms cmds s n =
     (case run_commands cmds ms of
        Some (Ret ms') \<Rightarrow> if n < 0 \<or> n \<ge> int MAX_MAPS_NR then None else sscanf_shown (read_map (ms' s) (nat n))
      | _ \<Rightarrow> None)"

section \<open>Round trip of the texts\<close>

lemma hex_val_char: "d < 16 \<Longrightarrow> hex_val (hex_char d) = Some d"
  by (simp add: hex_val_def hex_char_def Let_def)

lemma hex_of_digits: "list_all (\<lambda>c. hex_val c \<noteq> None) (hex_of n)"
proof (induction n rule: hex_of.induct)
  case (1 n)
  then show ?case by (subst hex_of.simps) (simp add: hex_val_char)
qed

lemma hex_of_value: "foldl (\<lambda>a c. a * 16 + of_nat (the (hex_val c))) 0 (hex_of n) = (of_nat n :: u64)"
proof (induction n rule: hex_of.induct)
  case (1 n)
  show ?case
  proof (cases "n < 16")
    case True
    then show ?thesis by (subst hex_of.simps) (simp add: hex_val_char)
  next
    case False
    have "(of_nat (n div 16) * 16 + of_nat (n mod 16) :: u64) = of_nat (n div 16 * 16 + n mod 16)"
      by (simp only: of_nat_add of_nat_mult of_nat_numeral)
    also have "\<dots> = of_nat n" by (simp only: div_mult_mod_eq)
    finally have "(of_nat (n div 16) * 16 + of_nat (n mod 16) :: u64) = of_nat n" .
    with 1 False show ?thesis by (subst hex_of.simps) (simp add: hex_val_char)
  qed
qed

text \<open>A text that ends a number.\<close>

definition ends_number :: "string \<Rightarrow> bool" where
  "ends_number r \<longleftrightarrow> (case r of [] \<Rightarrow> True | c # _ \<Rightarrow> hex_val c = None \<and> c \<noteq> CHR ''x'' \<and> c \<noteq> CHR ''X'')"

lemma hex_of_first: "\<exists>c r. hex_of n = c # r \<and> hex_val c \<noteq> None \<and> (c = CHR ''0'' \<longrightarrow> n = 0 \<and> r = [])"
proof (induction n rule: hex_of.induct)
  case (1 n)
  show ?case
  proof (cases "n < 16")
    case True
    have "hex_char n = CHR ''0'' \<Longrightarrow> n = 0" using hex_val_char [OF True] by (auto simp: hex_val_def)
    with True show ?thesis by (subst hex_of.simps) (simp add: hex_val_char)
  next
    case False
    then have "n div 16 \<noteq> 0" by auto
    with 1 False show ?thesis by (subst hex_of.simps) auto
  qed
qed

lemma hex_not_space: "hex_val c \<noteq> None \<Longrightarrow> \<not> is_space c"
  by (auto simp: hex_val_def is_space_def Let_def split: if_splits)

lemma strip_0x_hex: "ends_number r \<Longrightarrow> strip_0x (hex_of n @ r) = hex_of n @ r"
  using hex_of_first [of n] by (auto simp: strip_0x_def ends_number_def split: list.splits)

lemma scan_lx_hex:
  assumes "ends_number r"
  shows "scan_lx (hex_of (unat (w :: u64)) @ r) = Some (w, r)"
proof -
  obtain c t where c: "hex_of (unat w) = c # t" "hex_val c \<noteq> None" using hex_of_first by blast
  have r: "takeWhile (\<lambda>c. hex_val c \<noteq> None) r = []" "dropWhile (\<lambda>c. hex_val c \<noteq> None) r = r"
    using assms by (auto simp: ends_number_def split: list.splits)
  have a: "\<forall>c \<in> set (hex_of (unat w)). hex_val c \<noteq> None" using hex_of_digits [of "unat w"] by (simp only: list_all_iff)
  have "strtoul16 (hex_of (unat w) @ r) = (w, r)"
    using a r by (simp add: strtoul16_def strip_0x_hex [OF assms] Let_def takeWhile_append2 dropWhile_append2 hex_of_value)
  with c hex_not_space [OF c(2)] show ?thesis by (auto simp: scan_lx_def)
qed

lemma scan_0x_hex: "ends_number r \<Longrightarrow> scan_0x_lx (''0x'' @ hex_of (unat (w :: u64)) @ r) = Some (w, r)"
  by (simp add: scan_0x_lx_def scan_lx_hex)

lemma ends_simps [simp]: "ends_number (CHR '' '' # r)" "ends_number (CHR 0x0A # r)"
  by (simp_all add: ends_number_def hex_val_def Let_def)

lemma command_roundtrip: "sscanf_map (command_text b l) x y = (b, l)"
proof -
  have "command_text b l = ''0x'' @ hex_of (unat b) @ (CHR '' '' # ''0x'' @ hex_of (unat l) @ [CHR 0x0A])"
    by (simp add: command_text_def)
  moreover have "dropWhile is_space (CHR '' '' # ''0x'' @ hex_of (unat l) @ [CHR 0x0A]) = ''0x'' @ hex_of (unat l) @ [CHR 0x0A]"
    by (simp add: is_space_def Let_def)
  ultimately show ?thesis by (simp only: sscanf_map_def scan_0x_hex ends_simps option.case prod.case)
qed

lemma clear_roundtrip: "sscanf_map clear_text x y = (0, 0)"
proof -
  have "scan_0x_lx clear_text = Some (0, '' 0x00'' @ [CHR 0x0A])" by code_simp
  moreover have "dropWhile is_space ('' 0x00'' @ [CHR 0x0A]) = ''0x00'' @ [CHR 0x0A]" by code_simp
  moreover have "scan_0x_lx (''0x00'' @ [CHR 0x0A]) = Some (0, [CHR 0x0A])" by code_simp
  ultimately show ?thesis by (simp only: sscanf_map_def option.case prod.case)
qed

lemma shown_roundtrip:
  "sscanf_shown (read_map m n) = Some (remote_phys_addr (stored_maps m ! n), map_len (stored_maps m ! n),
     local_phys_addr (stored_maps m ! n))"
proof -
  let ?e = "stored_maps m ! n"
  have "read_map m n = ''0x'' @ hex_of (unat (remote_phys_addr ?e)) @ (CHR '' '' # ''0x'' @ hex_of (unat (map_len ?e)) @
      (CHR '' '' # ''0x'' @ hex_of (unat (local_phys_addr ?e)) @ [CHR 0x0A]))"
    by (simp add: read_map_def Let_def)
  moreover have "dropWhile is_space (CHR '' '' # ''0x'' @ r) = ''0x'' @ r" for r by (simp add: is_space_def Let_def)
  ultimately show ?thesis by (simp only: sscanf_shown_def scan_0x_hex ends_simps option.case prod.case)
qed

section \<open>The mappings in force\<close>

text \<open>Where in the window a slot's mapping lies.\<close>

definition slot_off :: "plx_device \<Rightarrow> sgx5_map_struct \<Rightarrow> u64" where
  "slot_off x e = local_phys_addr e - mw_pa (aper x)"

definition slot_in :: "plx_device \<Rightarrow> nat \<Rightarrow> sgx5_map_struct \<Rightarrow> bool" where
  "slot_in x g e \<longleftrightarrow> local_phys_addr e \<noteq> 0 \<and> lies_in x g (slot_off x e) 1"

text \<open>A slot in force lies in one group, and what it says is what the window shows.\<close>

definition slot_ok :: "plx_device \<Rightarrow> sgx5_map_struct \<Rightarrow> bool" where
  "slot_ok x e \<longleftrightarrow> local_phys_addr e \<noteq> 0 \<longrightarrow>
     (\<exists>g. slot_in x g e \<and> lies_in x g (slot_off x e) (unat (map_len e))) \<and>
     (\<forall>i < unat (map_len e). window x (slot_off x e + of_nat i) = Some (remote_phys_addr e + of_nat i))"

definition holders :: "plx_device \<Rightarrow> sgx5_map_struct list \<Rightarrow> nat \<Rightarrow> nat" where
  "holders x es g = length (filter (slot_in x g) es)"

text \<open>A group has one reference for the lazy unmapping and one for each slot in force in it.\<close>

definition slots_ok :: "plx_device \<Rightarrow> sgx5_map_struct list \<Rightarrow> bool" where
  "slots_ok x es \<longleftrightarrow> window_ok x \<and> (\<forall>e \<in> set es. slot_ok x e) \<and>
     (\<forall>g. leader (entries (a_lut_manager x)) g \<longrightarrow> 1 + holders x es g \<le> refs x g)"

definition mapper_inv :: "sgx5 \<Rightarrow> bool" where
  "mapper_inv m \<longleftrightarrow> length (stored_maps m) = MAX_MAPS_NR \<and> (\<exists>x. somnath_xdev m = Some x \<and> slots_ok x (stored_maps m))"

lemma filter_update:
  "n < length xs \<Longrightarrow>
   length (filter P (xs[n := y])) + of_bool (P (xs ! n)) = length (filter P xs) + of_bool (P y)"
proof (induction xs arbitrary: n)
  case (Cons x xs)
  then show ?case using Cons.IH [of "n - 1"] by (cases n) simp_all
qed simp

lemma holders_update:
  "n < length es \<Longrightarrow>
   holders x (es[n := e]) g + of_bool (slot_in x g (es ! n)) = holders x es g + of_bool (slot_in x g e)"
  unfolding holders_def by (rule filter_update)

lemma lies_in_unique:
  assumes "window_ok x" "lies_in x g off n" "lies_in x h off k" "0 < n" "0 < k"
  shows "g = h"
proof -
  let ?es = "entries (a_lut_manager x)"
  have t: "table_wf ?es" using assms(1) alm_wfD(3) by (simp add: window_ok_def)
  have "leader ?es g" "leader ?es h" "g \<le> unat (off div segment_size (a_lut_manager x))"
    "unat (off div segment_size (a_lut_manager x)) < g + span ?es g" "h \<le> unat (off div segment_size (a_lut_manager x))"
    "unat (off div segment_size (a_lut_manager x)) < h + span ?es h"
    using assms(2-5) by (auto simp: lies_in_def dest!: spec [of _ 0])
  then show ?thesis using leaders_apart [OF t, of g h] leaders_apart [OF t, of h g] by (cases "g < h"; cases "h < g") auto
qed

lemma slot_in_unique: "window_ok x \<Longrightarrow> slot_in x g e \<Longrightarrow> slot_in x h e \<Longrightarrow> g = h"
  using lies_in_unique [of x g _ 1 h 1] by (auto simp: slot_in_def)

lemma holders_pos: "e \<in> set es \<Longrightarrow> slot_in x g e \<Longrightarrow> 1 \<le> holders x es g"
proof -
  assume "e \<in> set es" "slot_in x g e"
  then have "e \<in> set (filter (slot_in x g) es)" by simp
  then show ?thesis unfolding holders_def by (metis One_nat_def Suc_leI length_pos_if_in_set)
qed

lemma slot_in_live:
  assumes "slots_ok x es" "e \<in> set es" "slot_in x g e"
  shows "live x g" "2 \<le> refs x g"
proof -
  have l: "leader (entries (a_lut_manager x)) g" using assms(3) by (simp add: slot_in_def lies_in_def)
  with assms(1) holders_pos [OF assms(2,3)] show "2 \<le> refs x g" by (auto simp: slots_ok_def)
  with l show "live x g" by (auto simp: live_def)
qed

text \<open>What others map leaves a slot as it is.\<close>

lemma lies_in_kept:
  assumes "others_kept x x'" "live x g"
  shows "lies_in x' g off n \<longleftrightarrow> lies_in x g off n"
  using assms by (auto simp: others_kept_def lies_in_def live_def)

lemma slot_kept:
  assumes k: "others_kept x x'" and a: "aper x' = aper x" and ok: "slots_ok x es" "e \<in> set es"
  shows "slot_ok x' e" and "slot_in x g e \<Longrightarrow> slot_in x' g e"
proof -
  have in_kept: "slot_in x' g e \<and> (lies_in x g (slot_off x e) n \<longrightarrow> lies_in x' g (slot_off x' e) n)"
    if "slot_in x g e" for g n
    using that lies_in_kept [OF k slot_in_live(1) [OF ok that]] a by (simp add: slot_in_def slot_off_def)
  then show "slot_in x g e \<Longrightarrow> slot_in x' g e" by simp
  show "slot_ok x' e"
    unfolding slot_ok_def
  proof (intro impI conjI allI)
    assume "local_phys_addr e \<noteq> 0"
    then obtain g where g: "slot_in x g e" "lies_in x g (slot_off x e) (unat (map_len e))"
      and w: "\<And>i. i < unat (map_len e) \<Longrightarrow> window x (slot_off x e + of_nat i) = Some (remote_phys_addr e + of_nat i)"
      using ok by (auto simp: slots_ok_def slot_ok_def)
    from in_kept [OF g(1)] g(2) show "\<exists>g. slot_in x' g e \<and> lies_in x' g (slot_off x' e) (unat (map_len e))" by blast
    fix i assume i: "i < unat (map_len e)"
    have "same_window x x' g" using k slot_in_live(1) [OF ok g(1)] by (simp add: others_kept_def)
    then have "window x' (slot_off x e + of_nat i) = window x (slot_off x e + of_nat i)"
      using g(2) i by (simp add: same_window_def lies_in_def)
    with w [OF i] a show "window x' (slot_off x' e + of_nat i) = Some (remote_phys_addr e + of_nat i)"
      by (simp add: slot_off_def)
  qed
qed

text \<open>A new mapping in slot \<open>n\<close>, or none.\<close>

lemma slots_new:
  assumes ok: "slots_ok x es" and k: "others_kept x x'" and a: "aper x' = aper x" and w: "window_ok x'"
    and n: "n < length es"
    and e: "local_phys_addr e \<noteq> 0 \<Longrightarrow> \<exists>g. lies_in x' g (slot_off x' e) (unat (map_len e)) \<and> new_ref x x' g"
      "local_phys_addr e \<noteq> 0 \<Longrightarrow> 0 < unat (map_len e)"
      "\<And>i. local_phys_addr e \<noteq> 0 \<Longrightarrow> i < unat (map_len e) \<Longrightarrow>
         window x' (slot_off x' e + of_nat i) = Some (remote_phys_addr e + of_nat i)"
  shows "slots_ok x' (es[n := e])"
proof -
  have in1: "slot_in x' g e" if "local_phys_addr e \<noteq> 0" "lies_in x' g (slot_off x' e) (unat (map_len e))" for g
    using that e(2) lies_in_less [OF that(2), of 1] by (simp add: slot_in_def)
  have same: "slot_in x' h f \<longleftrightarrow> slot_in x h f" if f: "f \<in> set es" for h f
  proof
    assume h: "slot_in x' h f"
    then have "local_phys_addr f \<noteq> 0" by (simp add: slot_in_def)
    then obtain g where g: "slot_in x g f" using ok f by (auto simp: slots_ok_def slot_ok_def)
    from slot_in_unique [OF w h slot_kept(2) [OF k a ok f g]] g show "slot_in x h f" by simp
  qed (rule slot_kept(2) [OF k a ok f])
  have hold: "holders x' es h = holders x es h" for h
    unfolding holders_def using same by (metis (mono_tags, lifting) filter_cong)
  have bound: "1 + holders x es h \<le> refs x' h \<and> (new_ref x x' h \<longrightarrow> 2 + holders x es h \<le> refs x' h)"
    if h: "leader (entries (a_lut_manager x')) h" for h
  proof (cases "live x h")
    case True
    then have "1 + holders x es h \<le> refs x h" "refs x h \<le> refs x' h" "refs x h \<noteq> 1"
      using ok k by (auto simp: slots_ok_def live_def others_kept_def)
    with True show ?thesis by (auto simp: new_ref_def live_def)
  next
    case False
    have "holders x es h = 0"
    proof (rule ccontr)
      assume "holders x es h \<noteq> 0"
      then obtain f where "f \<in> set es" "slot_in x h f"
        unfolding holders_def by (metis filter_empty_conv length_0_conv)
      with slot_in_live(1) [OF ok] False show False by blast
    qed
    moreover have "0 < refs x' h" using h by (auto simp: refs_def leader_def unat_gt_0)
    ultimately show ?thesis by (simp add: new_ref_def)
  qed
  have "1 + holders x' (es[n := e]) h \<le> refs x' h" if h: "leader (entries (a_lut_manager x')) h" for h
  proof -
    have u: "holders x' (es[n := e]) h \<le> holders x es h + of_bool (slot_in x' h e)"
      using holders_update [OF n, of x' e h] hold by simp
    show ?thesis
    proof (cases "slot_in x' h e")
      case True
      then have "local_phys_addr e \<noteq> 0" by (simp add: slot_in_def)
      with e(1) obtain g where g: "lies_in x' g (slot_off x' e) (unat (map_len e))" "new_ref x x' g" by blast
      from in1 [OF \<open>local_phys_addr e \<noteq> 0\<close> g(1)] True have "h = g" by (rule slot_in_unique [OF w, rotated])
      with g(2) bound [OF h] u True show ?thesis by simp
    next
      case False
      with bound [OF h] u show ?thesis by simp
    qed
  qed
  moreover have "slot_ok x' f" if f: "f \<in> set (es[n := e])" for f
  proof (cases "f \<in> set es")
    case True
    then show ?thesis by (rule slot_kept(1) [OF k a ok])
  next
    case False
    with f set_update_subset_insert have fe: "f = e" by fastforce
    show ?thesis unfolding fe slot_ok_def using e in1 by blast
  qed
  ultimately show ?thesis using w by (simp add: slots_ok_def)
qed

text \<open>Slot \<open>n\<close> gives its reference back.\<close>

lemma slots_release:
  assumes ok: "slots_ok x es" and n: "n < length es" and g: "slot_in x g (es ! n)" and r: "released x x' g"
    and a: "aper x' = aper x" and w: "window_ok x'" and e: "local_phys_addr e = 0"
  shows "slots_ok x' (es[n := e])"
proof -
  have lies: "lies_in x' h off k \<longleftrightarrow> lies_in x h off k" for h off k
    using r by (auto simp: lies_in_def released_def)
  have same: "slot_in x' h f \<longleftrightarrow> slot_in x h f" for h f by (simp add: slot_in_def slot_off_def lies a)
  have sok: "slot_ok x' f \<longleftrightarrow> slot_ok x f" for f
    using r by (simp add: slot_ok_def same slot_off_def a lies released_def)
  have ne: "\<not> slot_in x h e" "slot_ok x e" for h using e by (simp_all add: slot_in_def slot_ok_def)
  have "1 + holders x' (es[n := e]) h \<le> refs x' h" if h: "leader (entries (a_lut_manager x')) h" for h
  proof -
    have hx: "leader (entries (a_lut_manager x)) h" using h r by (simp add: released_def)
    have eqf: "slot_in x' h = slot_in x h" by (rule ext) (rule same)
    have "holders x' (es[n := e]) h + of_bool (slot_in x h (es ! n)) = holders x es h"
      using holders_update [OF n, of x' e h] ne(1) eqf by (simp add: holders_def)
    moreover have "slot_in x h (es ! n) \<longleftrightarrow> h = g"
      using slot_in_unique [OF _ g, of h] g ok by (auto simp: slots_ok_def)
    moreover have "1 + holders x es h \<le> refs x h" using ok hx by (simp add: slots_ok_def)
    moreover have "refs x' h = (if h = g then refs x h - 1 else refs x h)" using r hx by (simp add: released_def)
    ultimately show ?thesis by (auto split: if_splits)
  qed
  moreover have "slot_ok x' f" if f: "f \<in> set (es[n := e])" for f
    using f set_update_subset_insert [of es n e] ok ne(2) by (auto simp: sok slots_ok_def)
  ultimately show ?thesis using w by (simp add: slots_ok_def)
qed

section \<open>The module as a machine\<close>

datatype mapper_op = Write nat string

fun mapper_step :: "mapper_op \<Rightarrow> sgx5 \<Rightarrow> sgx5 outcome" where
  "mapper_step (Write n buf) m = (case write_map n buf m of Some (Ret (rc, m')) \<Rightarrow> Ret m' | _ \<Rightarrow> Abort)"

fun mapper_guard :: "sgx5 \<Rightarrow> mapper_op \<Rightarrow> bool" where
  "mapper_guard m (Write n buf) \<longleftrightarrow> n < MAX_MAPS_NR \<and> (\<forall>x. somnath_xdev m = Some x \<longrightarrow> refs_ok (a_lut_manager x))"

text \<open>What a write to file \<open>n\<close> does.\<close>

definition written :: "nat \<Rightarrow> u64 \<Rightarrow> u64 \<Rightarrow> sgx5 \<Rightarrow> sgx5 \<Rightarrow> bool" where
  "written n r l m m' \<longleftrightarrow>
     (let e = stored_maps m' ! n in
      if r = 0 \<or> l = 0 then e = \<lparr>remote_phys_addr = 0, map_len = 0, local_phys_addr = 0\<rparr>
      else (remote_phys_addr e = r \<and> map_len e = l \<or> remote_phys_addr e = 0 \<and> map_len e = 0) \<and>
        (local_phys_addr e = 0 \<or> remote_phys_addr e = r \<and> map_len e = l))"

text \<open>A slot that is cleared takes no reference; the window stays where it is.\<close>

definition same_frame :: "sgx5 \<Rightarrow> sgx5 \<Rightarrow> bool" where
  "same_frame m m' \<longleftrightarrow> (\<forall>x x'. somnath_xdev m = Some x \<longrightarrow> somnath_xdev m' = Some x' \<longrightarrow>
     aper x' = aper x \<and> segment_size (a_lut_manager x') = segment_size (a_lut_manager x))"

definition refs_fine :: "sgx5 \<Rightarrow> bool" where
  "refs_fine m \<longleftrightarrow> (\<forall>x. somnath_xdev m = Some x \<longrightarrow> refs_ok (a_lut_manager x))"

lemma refs_ok_released:
  assumes "refs_ok (a_lut_manager x)" "released x x' g"
  shows "refs_ok (a_lut_manager x')"
  unfolding refs_ok_def
proof (intro allI impI notI)
  fix l assume l: "leader (entries (a_lut_manager x')) l" and c: "counter (entries (a_lut_manager x') ! l) = - 1"
  with assms(2) have "refs x' l \<le> refs x l" and lx: "leader (entries (a_lut_manager x)) l" by (auto simp: released_def)
  then have "(- 1 :: u16) \<le> counter (entries (a_lut_manager x) ! l)" by (simp only: refs_def word_le_nat_alt c)
  then have "counter (entries (a_lut_manager x) ! l) = - 1" by (simp only: word_order.extremum_unique)
  with assms(1) lx show False by (simp add: refs_ok_def)
qed

lemma slots_forget:
  assumes ok: "slots_ok x es" and n: "n < length es"
  shows "slots_ok x (es[n := (es ! n)\<lparr>remote_phys_addr := 0, map_len := 0\<rparr>])"
proof -
  let ?e = "(es ! n)\<lparr>remote_phys_addr := 0, map_len := 0\<rparr>"
  have i: "slot_in x g ?e \<longleftrightarrow> slot_in x g (es ! n)" for g by (simp add: slot_in_def slot_off_def)
  have "holders x (es[n := ?e]) g = holders x es g" for g using holders_update [OF n, of x ?e g] i by simp
  moreover have "slot_ok x (es ! n)" using ok nth_mem [OF n] by (simp add: slots_ok_def)
  then have "slot_ok x ?e" using i by (auto simp: slot_ok_def lies_in_def slot_in_def)
  then have "slot_ok x f" if "f \<in> set (es[n := ?e])" for f
    using that set_update_subset_insert [of es n ?e] ok by (auto simp: slots_ok_def)
  ultimately show ?thesis using ok by (simp add: slots_ok_def)
qed

lemma map_step_ok:
  assumes ok: "slots_ok x es" and refs: "refs_ok (a_lut_manager x)" and n: "n < length es" and l: "l \<noteq> 0"
  shows "\<exists>rc p x'. sgx5_map r l p0 (Some x) = Some (Ret (rc, p, Some x')) \<and>
    slots_ok x' (es[n := \<lparr>remote_phys_addr = r, map_len = l, local_phys_addr = p\<rparr>]) \<and> (rc \<noteq> 0 \<longrightarrow> p = 0) \<and>
    aper x' = aper x \<and> segment_size (a_lut_manager x') = segment_size (a_lut_manager x)"
proof -
  have w: "window_ok x" using ok by (simp add: slots_ok_def)
  from ioremap_visible [OF w refs, of r l] obtain q x' where x': "plx_ioremap r l x = Some (Ret (q, x'))" "window_ok x'"
    "aper x' = aper x" "others_kept x x'"
    "\<And>va i. q = Some va \<Longrightarrow> i < unat l \<Longrightarrow> window x' (va - mw_va (aper x) + of_nat i) = Some (r + of_nat i)"
    "\<And>va. q = Some va \<Longrightarrow> \<exists>g. lies_in x' g (va - mw_va (aper x)) (unat l) \<and> new_ref x x' g" by blast
  have seg: "segment_size (a_lut_manager x') = segment_size (a_lut_manager x)" using x'(4) by (simp add: others_kept_def)
  have pos: "0 < unat l" using l by (simp add: unat_gt_0)
  let ?e = "\<lambda>p. \<lparr>remote_phys_addr = r, map_len = l, local_phys_addr = p\<rparr>"
  show ?thesis
  proof (cases "q = None \<or> q = Some 0")
    case True
    have "slots_ok x' (es[n := ?e 0])" by (rule slots_new [OF ok x'(4,3,2) n]) simp_all
    with True x'(1,3) seg show ?thesis by (auto simp: sgx5_map_def)
  next
    case False
    then obtain va where va: "q = Some va" "va \<noteq> 0" by auto
    let ?p = "mw_pa (aper x') + (va - mw_va (aper x'))"
    have off: "slot_off x' (?e ?p) = va - mw_va (aper x)" by (simp add: slot_off_def x'(3))
    have "slots_ok x' (es[n := ?e ?p])"
      using x'(5) [OF va(1)] x'(6) [OF va(1)] pos by (intro slots_new [OF ok x'(4,3,2) n]) (simp_all add: off)
    with va x'(1,3) seg show ?thesis by (auto simp: sgx5_map_def)
  qed
qed

lemma write_map_ok:
  assumes inv: "mapper_inv m" and n: "n < MAX_MAPS_NR"
    and refs: "\<And>x. somnath_xdev m = Some x \<Longrightarrow> refs_ok (a_lut_manager x)"
    and rl: "sscanf_map buf (remote_phys_addr (stored_maps m ! n)) (map_len (stored_maps m ! n)) = (r, l)"
  shows "\<exists>rc m'. write_map n buf m = Some (Ret (rc, m')) \<and> mapper_inv m' \<and> written n r l m m' \<and>
    (r = 0 \<or> l = 0 \<longrightarrow> refs_fine m') \<and> same_frame m m'"
proof -
  let ?es = "stored_maps m" let ?e = "?es ! n"
  from inv obtain x where x: "somnath_xdev m = Some x" and ok: "slots_ok x ?es" and len: "length ?es = MAX_MAPS_NR"
    by (auto simp: mapper_inv_def)
  have nl: "n < length ?es" "0 < length ?es" using n len by simp_all
  let ?z = "\<lparr>remote_phys_addr = 0, map_len = 0, local_phys_addr = 0\<rparr>"
  show ?thesis
  proof (cases "r = 0 \<or> l = 0")
    case zero: True
    have z: "?e\<lparr>local_phys_addr := 0, map_len := 0, remote_phys_addr := 0\<rparr> = ?z"
      by simp
    show ?thesis
    proof (cases "local_phys_addr ?e = 0")
      case True
      have "others_kept x x" by (auto simp: others_kept_def same_window_def)
      then have "slots_ok x (?es[n := ?z])" by (rule slots_new [OF ok _ refl _ nl(1)]) (use ok in \<open>simp_all add: slots_ok_def\<close>)
      moreover have "write_map n buf m = Some (Ret (int (length buf), \<lparr>somnath_xdev = Some x, stored_maps = ?es[n := ?z]\<rparr>))"
        using zero True x by (simp add: write_map_def rl Let_def z)
      ultimately show ?thesis using zero x len nl refs [OF x] by (auto simp: mapper_inv_def written_def refs_fine_def same_frame_def)
    next
      case False
      then obtain g where g: "slot_in x g ?e" using ok nl(1) by (auto simp: slots_ok_def slot_ok_def)
      let ?va = "local_phys_addr ?e - mw_pa (aper x) + mw_va (aper x)"
      have w: "window_ok x" using ok by (simp add: slots_ok_def)
      have "lies_in x g (?va - mw_va (aper x)) 1" using g by (simp add: slot_in_def slot_off_def)
      from iounmap_visible [OF w this _ slot_in_live(2) [OF ok nth_mem [OF nl(1)] g]] obtain x' where
        x': "plx_iounmap ?va x = Ret x'" "window_ok x'" "aper x' = aper x" "released x x' g" by auto
      have "slots_ok x' (?es[n := ?z])" by (rule slots_release [OF ok nl(1) g x'(4,3,2)]) simp
      moreover have "write_map n buf m = Some (Ret (int (length buf), \<lparr>somnath_xdev = Some x', stored_maps = ?es[n := ?z]\<rparr>))"
        using zero False x x'(1) by (simp add: write_map_def rl Let_def sgx5_unmap_def z)
      ultimately show ?thesis using zero len nl x x'(3,4) refs_ok_released [OF refs [OF x] x'(4)]
        by (auto simp: mapper_inv_def written_def refs_fine_def same_frame_def released_def)
    qed
  next
    case False
    then have l0: "l \<noteq> 0" by simp
    from map_step_ok [OF ok refs [OF x] nl(1) l0, of r "local_phys_addr ?e"] obtain rc p x' where
      x': "sgx5_map r l (local_phys_addr ?e) (Some x) = Some (Ret (rc, p, Some x'))"
      "slots_ok x' (?es[n := \<lparr>remote_phys_addr = r, map_len = l, local_phys_addr = p\<rparr>])" "rc \<noteq> 0 \<longrightarrow> p = 0"
      "aper x' = aper x" "segment_size (a_lut_manager x') = segment_size (a_lut_manager x)" by blast
    let ?ms = "?es[n := \<lparr>remote_phys_addr = r, map_len = l, local_phys_addr = p\<rparr>]"
    have e: "?e\<lparr>remote_phys_addr := r, map_len := l, local_phys_addr := p\<rparr> =
        \<lparr>remote_phys_addr = r, map_len = l, local_phys_addr = p\<rparr>" by simp
    show ?thesis
    proof (cases "rc = 0")
      case True
      have "write_map n buf m = Some (Ret (int (length buf), \<lparr>somnath_xdev = Some x', stored_maps = ?ms\<rparr>))"
        using False x x'(1) True by (simp add: write_map_def rl Let_def e)
      with False x x'(2,4,5) len nl show ?thesis by (auto simp: mapper_inv_def written_def same_frame_def)
    next
      case fail: False
      let ?ms' = "?ms[0 := (?ms ! 0)\<lparr>remote_phys_addr := 0, map_len := 0\<rparr>]"
      have "write_map n buf m = Some (Ret (- 1, \<lparr>somnath_xdev = Some x', stored_maps = ?ms'\<rparr>))"
        using False x x'(1) fail by (simp add: write_map_def rl Let_def e)
      moreover have "slots_ok x' ?ms'" using slots_forget [OF x'(2), of 0] nl by simp
      moreover have "local_phys_addr (?ms' ! n) = 0" using fail x'(3) nl by (cases "n = 0") simp_all
      moreover have "remote_phys_addr (?ms' ! n) = r \<and> map_len (?ms' ! n) = l \<or>
          remote_phys_addr (?ms' ! n) = 0 \<and> map_len (?ms' ! n) = 0" using nl by (cases "n = 0") simp_all
      ultimately show ?thesis using False x x'(4,5) len by (auto simp: mapper_inv_def written_def Let_def same_frame_def)
    qed
  qed
qed

interpretation mapper: guarded_machine mapper_step mapper_inv mapper_guard
proof unfold_locales
  fix m op assume inv: "mapper_inv m" and g: "mapper_guard m op"
  obtain n buf where op: "op = Write n buf" by (cases op)
  obtain r l where rl: "sscanf_map buf (remote_phys_addr (stored_maps m ! n)) (map_len (stored_maps m ! n)) = (r, l)"
    by fastforce
  from write_map_ok [OF inv _ _ rl] g show "\<exists>m'. mapper_step op m = Ret m' \<and> mapper_inv m'"
    unfolding op by fastforce
qed

end
