(* ===== verification/Sgx_Props.thy ===== *)
theory Sgx_Props
  imports Sgx_Mapper
begin

text \<open>
  The mapper module and its neighbours: what the library's commands do to the module's files, what the
  module makes the window of the bridge show, and so what the library's mapping of remote memory reaches.
\<close>

section \<open>Commands\<close>

lemma run_commands_append:
  "run_commands (cs @ ds) ms = (case run_commands cs ms of None \<Rightarrow> None | Some Abort \<Rightarrow> Some Abort
     | Some (Ret ms') \<Rightarrow> run_commands ds ms')"
  by (induction cs arbitrary: ms) (auto split: option.splits outcome.splits)

lemma commands_of_mapping:
  assumes inv: "mapper_inv (ms s)" and refs: "refs_fine (ms s)" and n: "0 \<le> n" "n < 2"
  shows "\<exists>m'. run_commands [Mapper_clear s n, Mapper_set b l s n] ms = Some (Ret (ms(s := m'))) \<and>
    mapper_inv m' \<and> written (nat n) b l (ms s) m' \<and> same_frame (ms s) m'"
proof -
  have k: "nat n < MAX_MAPS_NR" "\<not> int MAX_MAPS_NR \<le> n" using n by (auto simp: MAX_MAPS_NR_def)
  from write_map_ok [OF inv k(1) _ clear_roundtrip] refs obtain rc m1 where
    1: "write_map (nat n) clear_text (ms s) = Some (Ret (rc, m1))" "mapper_inv m1" "refs_fine m1" "same_frame (ms s) m1"
    unfolding refs_fine_def by blast
  obtain x1 where "somnath_xdev m1 = Some x1" using 1(2) by (auto simp: mapper_inv_def)
  with 1(4) have frame: "same_frame m1 m2 \<Longrightarrow> same_frame (ms s) m2" for m2 by (auto simp: same_frame_def)
  from write_map_ok [OF 1(2) k(1) _ command_roundtrip, of b l] 1(3) obtain rc' m2 where
    2: "write_map (nat n) (command_text b l) m1 = Some (Ret (rc', m2))" "mapper_inv m2" "written (nat n) b l m1 m2" "same_frame m1 m2"
    unfolding refs_fine_def by blast
  then show ?thesis using 1(1) n k frame by (intro exI [of _ m2]) (simp add: written_def)
qed

lemma slot_shown:
  assumes "mapper_inv m" and "n < MAX_MAPS_NR" and "local_phys_addr (stored_maps m ! n) \<noteq> 0"
  obtains x where "somnath_xdev m = Some x" "slots_ok x (stored_maps m)" "slot_ok x (stored_maps m ! n)"
    "\<And>i. i < unat (map_len (stored_maps m ! n)) \<Longrightarrow>
       window x (local_phys_addr (stored_maps m ! n) - mw_pa (aper x) + of_nat i) =
         Some (remote_phys_addr (stored_maps m ! n) + of_nat i)"
proof -
  from assms(1) obtain x where x: "somnath_xdev m = Some x" and ok: "slots_ok x (stored_maps m)"
    and len: "length (stored_maps m) = MAX_MAPS_NR" by (auto simp: mapper_inv_def)
  have s: "slot_ok x (stored_maps m ! n)" using ok len assms(2) by (simp add: slots_ok_def)
  then show thesis using assms(3) by (intro that [OF x ok]) (auto simp: slot_ok_def slot_off_def)
qed

lemma writtenD:
  assumes "written n r l m m'"
  shows "remote_phys_addr (stored_maps m' ! n) = r \<or> remote_phys_addr (stored_maps m' ! n) = 0"
    "map_len (stored_maps m' ! n) = l \<or> map_len (stored_maps m' ! n) = 0"
    "local_phys_addr (stored_maps m' ! n) \<noteq> 0 \<Longrightarrow> remote_phys_addr (stored_maps m' ! n) = r \<and>
       map_len (stored_maps m' ! n) = l \<and> r \<noteq> 0 \<and> l \<noteq> 0"
  using assms by (auto simp: written_def Let_def split: if_splits)

section \<open>Offsets in pages\<close>

text \<open>Windows of a device whose segments are not smaller than a page keep the offset in the page.\<close>

abbreviation in_page :: "u64 \<Rightarrow> nat" where "in_page w \<equiv> unat w mod 4096"

lemma page_word: "w mod 4096 = 0 \<longleftrightarrow> in_page w = 0"
  by (simp flip: unat_eq_zero add: unat_mod)

lemma page_cut: "n mod 18446744073709551616 mod 4096 = n mod (4096 :: nat)"
  by (rule mod_mod_cancel) simp

lemma page_add: "in_page (a + b) = (in_page a + in_page b) mod 4096"
  by (simp add: unat_word_ariths page_cut mod_add_eq)

lemma page_mult: "in_page b = 0 \<Longrightarrow> in_page (a * b) = 0"
  by (simp add: unat_word_ariths page_cut) (metis mod_mult_right_eq mult_zero_right mod_0)

definition paged :: "plx_device \<Rightarrow> bool" where
  "paged x \<longleftrightarrow> (\<exists>k \<ge> 12. unat (segment_size (a_lut_manager x)) = 2 ^ k) \<and> mw_pa (aper x) mod 4096 = 0"

lemma paged_segment: "paged x \<Longrightarrow> in_page (segment_size (a_lut_manager x)) = 0"
proof -
  assume "paged x"
  then obtain k where k: "12 \<le> k" "unat (segment_size (a_lut_manager x)) = 2 ^ k" by (auto simp: paged_def)
  have "(2 :: nat) ^ 12 dvd 2 ^ k" by (rule le_imp_power_dvd [OF k(1)])
  then show ?thesis by (simp add: k(2))
qed

lemma window_offset:
  assumes ok: "window_ok x" and p: "paged x" and g: "lies_in x g off 1" and w: "window x off = Some a"
  shows "in_page off = in_page a"
proof -
  let ?S = "segment_size (a_lut_manager x)" and ?i = "unat (off div segment_size (a_lut_manager x))"
  have S: "in_page ?S = 0" by (rule paged_segment [OF p])
  have l: "leader (entries (a_lut_manager x)) g" "g \<le> ?i" "?i < g + span (entries (a_lut_manager x)) g"
    using g by (auto simp: lies_in_def)
  let ?v = "e_value (entries (a_lut_manager x) ! g)"
  have sh: "shows_group x g" using ok l(1) by (simp add: window_ok_def)
  then have v: "unat ?v mod unat ?S = 0" by (simp add: shows_group_def Let_def)
  from sh l have e: "lut_entry x ?i = Some (?v + of_nat (?i - g) * ?S)"
    by (auto simp: shows_group_def Let_def dest!: spec [of _ "?i - g"])
  have "in_page ?v = 0"
  proof -
    have "?v mod ?S = 0" using v by (metis unat_mod unat_eq_zero)
    then have "?v = ?v div ?S * ?S" by (metis add.right_neutral div_mult_mod_eq)
    then show ?thesis using page_mult [OF S] by metis
  qed
  moreover have "a = (?v + of_nat (?i - g) * ?S) + off mod ?S" using w e by (simp add: window_def Let_def split: if_splits)
  ultimately have "in_page a = in_page (off mod ?S)"
    using page_mult [OF S, of "of_nat (?i - g)"] by (simp only: page_add) simp
  moreover have "in_page (off div ?S * ?S + off mod ?S) = in_page (off mod ?S)"
    using page_mult [OF S, of "off div ?S"] by (simp only: page_add) simp
  then have "in_page off = in_page (off mod ?S)" by (simp only: div_mult_mod_eq)
  ultimately show ?thesis by simp
qed

lemma slot_aligned:
  assumes inv: "mapper_inv m" and n: "n < MAX_MAPS_NR" and p: "\<And>x. somnath_xdev m = Some x \<Longrightarrow> paged x"
    and r: "remote_phys_addr (stored_maps m ! n) mod 4096 = 0"
    and l: "local_phys_addr (stored_maps m ! n) \<noteq> 0 \<Longrightarrow> map_len (stored_maps m ! n) \<noteq> 0"
  shows "local_phys_addr (stored_maps m ! n) mod 4096 = 0"
proof (cases "local_phys_addr (stored_maps m ! n) = 0")
  case False
  let ?e = "stored_maps m ! n"
  from slot_shown [OF inv n False] obtain x where x: "somnath_xdev m = Some x" and ok: "slots_ok x (stored_maps m)"
    and s: "slot_ok x ?e"
    and w: "\<And>i. i < unat (map_len ?e) \<Longrightarrow>
      window x (local_phys_addr ?e - mw_pa (aper x) + of_nat i) = Some (remote_phys_addr ?e + of_nat i)" by metis
  from s False obtain g where g: "slot_in x g ?e" by (auto simp: slot_ok_def)
  have "0 < unat (map_len ?e)" using l [OF False] by (simp add: unat_gt_0)
  with w [of 0] have "window x (local_phys_addr ?e - mw_pa (aper x)) = Some (remote_phys_addr ?e)" by simp
  moreover have "window_ok x" using ok by (simp add: slots_ok_def)
  moreover have "lies_in x g (local_phys_addr ?e - mw_pa (aper x)) 1" using g by (simp add: slot_in_def slot_off_def)
  ultimately have "in_page (local_phys_addr ?e - mw_pa (aper x)) = 0"
    using window_offset [OF _ p [OF x]] r by (simp add: page_word)
  moreover have "in_page (mw_pa (aper x)) = 0" using p [OF x] by (simp add: paged_def page_word)
  ultimately have "in_page ((local_phys_addr ?e - mw_pa (aper x)) + mw_pa (aper x)) = 0" by (simp only: page_add)
  then show ?thesis by (simp add: page_word)
qed simp

section \<open>Properties\<close>

text \<open>
  What the library writes with \<open>echo\<close> is what the module reads, and what the module shows in its file is
  what the library reads back: an address and a length on the way in, whatever they are and whatever the
  slot held; these two and the local address on the way out. The text that clears a slot is read as zeros.
\<close>
theorem mapper_texts:
  "sscanf_map (command_text b l) x y = (b, l) \<and> sscanf_map clear_text x y = (0, 0) \<and>
   sscanf_shown (read_map m n) = Some (remote_phys_addr (stored_maps m ! n), map_len (stored_maps m ! n),
     local_phys_addr (stored_maps m ! n))"
  by (simp only: command_roundtrip clear_roundtrip shown_roundtrip simp_thms)

text \<open>
  C10. Whatever texts are written to the two files, as long as no reference counter of the table is at its maximum,
  no assertion of the driver below fails, and each file that shows a local address shows one at which
  every byte of the mapping it names is seen through the window of the bridge.
\<close>
theorem mappings_in_force:
  assumes "mapper_inv m" and "mapper.guarded ops m"
  shows "\<exists>m'. mapper.run ops m = Ret m' \<and>
    (\<forall>n < MAX_MAPS_NR. \<exists>r l p x. sscanf_shown (read_map m' n) = Some (r, l, p) \<and> somnath_xdev m' = Some x \<and>
       (p \<noteq> 0 \<longrightarrow> (\<forall>i < unat l. window x (p - mw_pa (aper x) + of_nat i) = Some (r + of_nat i))))"
proof -
  from mapper.run_safe [OF assms] obtain m' where m': "mapper.run ops m = Ret m'" and inv: "mapper_inv m'" by blast
  obtain x where "somnath_xdev m' = Some x" using inv by (auto simp: mapper_inv_def)
  with slot_shown [OF inv] have "p \<noteq> 0 \<longrightarrow> (\<forall>i < unat l. window x (p - mw_pa (aper x) + of_nat i) = Some (r + of_nat i))"
    if "n < MAX_MAPS_NR" "sscanf_shown (read_map m' n) = Some (r, l, p)" for n r l p
    using that by (auto simp: shown_roundtrip)
  with m' \<open>somnath_xdev m' = Some x\<close> show ?thesis by (intro exI [of _ m']) (simp add: shown_roundtrip)
qed

text \<open>
  C1. The library, the mapper module and the driver of the bridge together: when the library maps remote
  memory over the modules of its host, the module is left with a slot whose local address is what the
  library maps, and if that address is not 0, every byte of the range that was asked for is seen through
  the window at its place behind the pointer that is returned. Local address 0, which a module gives for a mapping that
  failed, is mapped all the same, and so is address -1, which stands for a pipe to the module's file that could not be opened.
\<close>
theorem remote_memory_reached:
  assumes "o_dev_mem os" and "map_size t = req" and "req mod 4096 = 0" and "unat req + 4096 < 2 ^ 64"
    and "mapping_type t = READ \<or> mapping_type t = WRITE"
    and "if o_lsmod os = 0 then socket \<noteq> - 1 else get_card_self_socket_number os \<noteq> Abort"
    and n: "0 \<le> n" "n < 2" and mf: "o_map_file os = mapper_file ms0"
    and ms: "run_commands (commands p) ms0 = Some (Ret ms)" and s: "s = mapper_of os socket"
    and inv: "mapper_inv (ms s)" and refs: "refs_fine (ms s)"
    and paged: "\<And>x. somnath_xdev (ms s) = Some x \<Longrightarrow> paged x" and mmap: "\<And>a l. o_mmap os a l \<noteq> 0"
  shows "\<exists>lb len t' p' ms' x. map_remote_memory os t socket req n p =
      Some (Ret ((o_mmap os lb len + physical_addr t mod 4096, t'), p')) \<and>
    run_commands (commands p') ms0 = Some (Ret ms') \<and> mapper_inv (ms' s) \<and>
    lb = (if o_popen os (commands p') then local_phys_addr (stored_maps (ms' s) ! nat n) else - 1) \<and> somnath_xdev (ms' s) = Some x \<and>
    unat (physical_addr t mod 4096) + unat req \<le> unat len \<and>
    (o_popen os (commands p') \<and> lb \<noteq> 0 \<longrightarrow> (\<forall>i < unat req. window x (lb - mw_pa (aper x) + physical_addr t mod 4096 + of_nat i) =
       Some (physical_addr t + of_nat i)))"
proof -
  let ?a = "physical_addr t" let ?b = "?a - ?a mod 4096"
  let ?l = "if ?a mod 4096 = 0 then req else req + 4096"
  let ?cmds = "[Mapper_clear s n, Mapper_set ?b ?l s n]"
  from commands_of_mapping [where ms = ms and s = s and b = ?b and l = ?l, OF inv refs n] obtain m' where
    run: "run_commands ?cmds ms = Some (Ret (ms(s := m')))" and inv': "mapper_inv m'"
    and w: "written (nat n) ?b ?l (ms s) m'" and fr: "same_frame (ms s) m'" by blast
  let ?e = "stored_maps m' ! nat n"
  have run': "run_commands (commands p @ ?cmds) ms0 = Some (Ret (ms(s := m')))"
    using ms run by (simp add: run_commands_append)
  have k: "nat n < MAX_MAPS_NR" "\<not> int MAX_MAPS_NR \<le> n" using n by (auto simp: MAX_MAPS_NR_def)
  have shown: "o_map_file os (commands p @ ?cmds) s n = Some (remote_phys_addr ?e, map_len ?e, local_phys_addr ?e)"
    using n k run' by (simp add: mf mapper_file_def shown_roundtrip del: run_commands.simps)
  have b: "?b mod 4096 = 0" by (rule page_base)
  have l: "?l mod 4096 = 0" using assms(3) page_aligned_add [of req 1] by simp
  have al: "remote_phys_addr ?e mod 4096 = 0" "map_len ?e mod 4096 = 0"
    using writtenD(1,2) [OF w] by (elim disjE; simp only: b l mod_0)+
  have e: "remote_phys_addr ?e = ?b \<and> map_len ?e = ?l \<and> ?b \<noteq> 0 \<and> ?l \<noteq> 0" if "local_phys_addr ?e \<noteq> 0"
    by (rule writtenD(3) [OF w that])
  obtain x0 where x0: "somnath_xdev (ms s) = Some x0" using inv by (auto simp: mapper_inv_def)
  obtain x where x: "somnath_xdev m' = Some x" using inv' by (auto simp: mapper_inv_def)
  have "paged x" using paged [OF x0] fr x0 x by (simp add: same_frame_def paged_def)
  then have la: "local_phys_addr ?e mod 4096 = 0"
    by (intro slot_aligned [OF inv' k(1) _ al(1)]) (use x e in auto)
  have n3: "n < 3" using n(2) by simp
  let ?lb = "if o_popen os (commands p @ ?cmds) then local_phys_addr ?e else - 1"
  from remote_mapping [OF assms(1-3) n3 assms(5,6) refl refl shown [unfolded s] al la mmap refl, folded s] obtain t' p' where
    t': "map_remote_memory os t socket req n p =
        Some (Ret ((o_mmap os ?lb ?l + ?a mod 4096, t'), p')) \<and>
      p' = p\<lparr>commands := commands p @ ?cmds\<rparr> \<and> physical_addr t' = ?b \<and>
      (unat req + 4096 < 2 ^ 64 \<longrightarrow> unat (physical_addr t') \<le> unat ?a \<and>
         unat ?a + unat req \<le> unat (physical_addr t') + unat ?l)" by blast
  have cmds: "commands p' = commands p @ ?cmds" using t' by simp
  have le: "unat ?a + unat req \<le> unat ?b + unat ?l" using t' assms(4) by metis
  have split: "unat ?a = unat ?b + unat (?a mod 4096)" by (simp add: page_base unat_mod)
  have fit: "unat (?a mod 4096) + unat req \<le> unat ?l" using le split by simp
  have "window x (local_phys_addr ?e - mw_pa (aper x) + ?a mod 4096 + of_nat i) = Some (?a + of_nat i)"
    if nz: "local_phys_addr ?e \<noteq> 0" and i: "i < unat req" for i
  proof -
    note re = conjunct1 [OF e [OF nz]] and le = arg_cong [OF conjunct1 [OF conjunct2 [OF e [OF nz]]], of unat]
    have j: "unat (?a mod 4096) + i < unat (map_len ?e)" using fit i unfolding le by linarith
    obtain x' where "somnath_xdev m' = Some x'" and
      "\<And>i. i < unat (map_len ?e) \<Longrightarrow> window x' (local_phys_addr ?e - mw_pa (aper x') + of_nat i) = Some (remote_phys_addr ?e + of_nat i)"
      using slot_shown [OF inv' k(1) nz] by metis
    with x j have "window x (local_phys_addr ?e - mw_pa (aper x) + of_nat (unat (?a mod 4096) + i)) =
        Some (?b + of_nat (unat (?a mod 4096) + i))"
      unfolding re [symmetric] by (metis option.inject)
    then show ?thesis by (simp only: of_nat_add of_nat_unat ucast_id add.assoc [symmetric] diff_add_cancel)
  qed
  with conjunct1 [OF t'] cmds run' inv' x fit show ?thesis
    by (intro exI [of _ ?lb] exI [of _ ?l] exI [of _ t'] exI [of _ p'] exI [of _ "ms(s := m')"] exI [of _ x])
      (simp del: run_commands.simps)
qed

text \<open>
  C38. When the mapping of the second file fails, the entry of the first file is cleared: its mapping stays
  in the window and its local address stays in force, while the file shows no remote memory for it. The second file keeps the range it did
  not map, with local address 0, and the write reports an error that the library's \<open>echo\<close> does not look at.
\<close>
theorem failed_write_clears_first:
  assumes "stored_maps m = [e0, e1]" and "somnath_xdev m = Some x" and "r \<noteq> 0" and "l \<noteq> 0"
    and "plx_ioremap r l x = Some (Ret (None, x'))"
  shows "\<exists>m'. write_map 1 (command_text r l) m = Some (Ret (- 1, m')) \<and>
    sscanf_shown (read_map m' 0) = Some (0, 0, local_phys_addr e0) \<and>
    sscanf_shown (read_map m' 1) = Some (r, l, 0) \<and>
    run_command (Mapper_set r l s 1) (ms(s := m)) = Some (Ret (ms(s := m')))"
proof -
  have "write_map 1 (command_text r l) m = Some (Ret (- 1, \<lparr>somnath_xdev = Some x',
      stored_maps = [e0\<lparr>remote_phys_addr := 0, map_len := 0\<rparr>, \<lparr>remote_phys_addr = r, map_len = l, local_phys_addr = 0\<rparr>]\<rparr>))"
    using assms by (simp add: write_map_def command_roundtrip sgx5_map_def ENODEV_def Let_def)
  then show ?thesis by (simp add: shown_roundtrip MAX_MAPS_NR_def)
qed

section \<open>Concrete instances\<close>

definition no_map :: sgx5_map_struct where
  "no_map = \<lparr>remote_phys_addr = 0, map_len = 0, local_phys_addr = 0\<rparr>"

definition small_mapper :: sgx5 where
  "small_mapper = \<lparr>somnath_xdev = Some small_window, stored_maps = [no_map, no_map]\<rparr>"

lemma small_mapper_ok: "mapper_inv small_mapper" "refs_fine small_mapper"
  "somnath_xdev small_mapper = Some x \<Longrightarrow> paged x"
proof -
  have n: "\<not> leader (entries (a_lut_manager small_window)) g" for g by (simp add: small_window_def leader_def)
  have "slot_ok small_window no_map" by (simp add: slot_ok_def no_map_def)
  then show "mapper_inv small_mapper"
    using n small_window_ok(1) by (simp add: mapper_inv_def small_mapper_def MAX_MAPS_NR_def slots_ok_def)
  show "refs_fine small_mapper" using small_window_ok(2) by (simp add: refs_fine_def small_mapper_def)
  have "\<exists>k \<ge> 12. (4096 :: nat) = 2 ^ k" by (intro exI [of _ 12]) simp
  then show "paged x" if "somnath_xdev small_mapper = Some x"
    using that by (auto simp: small_mapper_def small_window_def paged_def)
qed

lemma refs_okI: "list_all (\<lambda>e. counter e \<noteq> - 1) (entries m) \<Longrightarrow> refs_ok m"
  by (simp add: refs_ok_def leader_def list_all_length)

lemma first_written:
  obtains m1 where "mapper_step (Write 0 ''0x12345678 0x2000'') small_mapper = Ret m1" "refs_fine m1"
    "stored_maps m1 = [\<lparr>remote_phys_addr = 0x12345678, map_len = 0x2000, local_phys_addr = 0x10000678\<rparr>, no_map]"
proof -
  have "(case mapper_step (Write 0 ''0x12345678 0x2000'') small_mapper of
      Ret m1 \<Rightarrow> stored_maps m1 = [\<lparr>remote_phys_addr = 0x12345678, map_len = 0x2000, local_phys_addr = 0x10000678\<rparr>, no_map] \<and>
        (case somnath_xdev m1 of Some x \<Rightarrow> list_all (\<lambda>e. counter e \<noteq> - 1) (entries (a_lut_manager x)) | None \<Rightarrow> True)
    | Abort \<Rightarrow> False)" by code_simp
  then show thesis using that by (auto simp: refs_fine_def refs_okI split: outcome.splits option.splits)
qed

theorem mappings_in_force_witness:
  "\<exists>m' x. mapper.run [Write 0 ''0x12345678 0x2000''] small_mapper = Ret m' \<and>
     somnath_xdev m' = Some x \<and> window x (0x10000678 - mw_pa (aper x)) = Some 0x12345678"
proof -
  obtain m1 where m1: "mapper_step (Write 0 ''0x12345678 0x2000'') small_mapper = Ret m1" "refs_fine m1"
    "stored_maps m1 = [\<lparr>remote_phys_addr = 0x12345678, map_len = 0x2000, local_phys_addr = 0x10000678\<rparr>, no_map]"
    by (rule first_written)
  have "mapper.guarded [Write 0 ''0x12345678 0x2000''] small_mapper"
    using m1(1) small_mapper_ok(2) by (simp add: refs_fine_def MAX_MAPS_NR_def del: mapper_step.simps)
  from mappings_in_force [OF small_mapper_ok(1) this] m1(1) have
    "\<forall>n < MAX_MAPS_NR. \<exists>r l p x. sscanf_shown (read_map m1 n) = Some (r, l, p) \<and> somnath_xdev m1 = Some x \<and>
       (p \<noteq> 0 \<longrightarrow> (\<forall>i < unat l. window x (p - mw_pa (aper x) + of_nat i) = Some (r + of_nat i)))"
    by (simp del: mapper_step.simps)
  then have "\<exists>r l p x. sscanf_shown (read_map m1 0) = Some (r, l, p) \<and> somnath_xdev m1 = Some x \<and>
       (p \<noteq> 0 \<longrightarrow> (\<forall>i < unat l. window x (p - mw_pa (aper x) + of_nat i) = Some (r + of_nat i)))"
    by (simp add: MAX_MAPS_NR_def)
  then have "\<exists>x. somnath_xdev m1 = Some x \<and> (\<forall>i < unat (0x2000 :: u64).
      window x (0x10000678 - mw_pa (aper x) + of_nat i) = Some (0x12345678 + of_nat i))"
    by (simp add: shown_roundtrip m1(3))
  then obtain x where "somnath_xdev m1 = Some x" "\<forall>i < unat (0x2000 :: u64).
      window x (0x10000678 - mw_pa (aper x) + of_nat i) = Some (0x12345678 + of_nat i)" by blast
  moreover from this(2) have "window x (0x10000678 - mw_pa (aper x)) = Some 0x12345678" by (auto dest!: spec [of _ 0])
  ultimately show ?thesis using m1(1) by (simp del: mapper_step.simps)
qed

definition card_os :: os where
  "card_os = plain_os\<lparr>o_map_file := mapper_file (\<lambda>_. small_mapper), o_mmap := (\<lambda>a n. a OR 1)\<rparr>"

theorem remote_memory_reached_witness:
  "\<exists>lb len t' p' ms' x. map_remote_memory card_os \<lparr>physical_addr = 0x7008, map_size = 0x1000, mapping_type = 1, map_socket = 2\<rparr>
       2 0x1000 1 new_process = Some (Ret ((o_mmap card_os lb len + 8, t'), p')) \<and>
     run_commands (commands p') (\<lambda>_. small_mapper) = Some (Ret ms') \<and> somnath_xdev (ms' 2) = Some x \<and>
     (lb \<noteq> 0 \<longrightarrow> window x (lb - mw_pa (aper x) + 8 + 4) = Some 0x700c)"
proof -
  let ?t = "\<lparr>physical_addr = 0x7008, map_size = 0x1000, mapping_type = 1, map_socket = 2\<rparr> :: transfer_mapping"
  have a: "(0x7008 :: u64) mod 4096 = 8" by code_simp
  have os: "o_dev_mem card_os" "o_lsmod card_os = 0" "o_map_file card_os = mapper_file (\<lambda>_. small_mapper)"
    by (simp_all add: card_os_def plain_os_def)
  have odd: "bit (b OR 1 :: u64) 0" for b by (simp add: bit_simps)
  have "b OR 1 \<noteq> (0 :: u64)" for b
  proof
    assume "b OR 1 = 0"
    from odd [of b, unfolded this] show False by simp
  qed
  then have nz: "o_mmap card_os b n \<noteq> 0" for b n by (simp add: card_os_def)
  have size: "map_size ?t = 0x1000" "(0x1000 :: u64) mod 4096 = 0" "unat (0x1000 :: u64) + 4096 < 2 ^ 64"
    "mapping_type ?t = READ \<or> mapping_type ?t = WRITE" by (simp_all add: platform_consts)
  have sock: "if o_lsmod card_os = 0 then (2 :: int) \<noteq> - 1 else get_card_self_socket_number card_os \<noteq> Abort" using os(2) by simp
  have run: "run_commands (commands new_process) (\<lambda>_. small_mapper) = Some (Ret (\<lambda>_. small_mapper))" by (simp add: new_process_def)
  have one: "0 \<le> (1 :: int)" "(1 :: int) < 2" by simp_all
  from remote_memory_reached [OF os(1) size sock one os(3) run refl small_mapper_ok nz]
  obtain lb len t' p' ms' x where r: "map_remote_memory card_os ?t 2 0x1000 1 new_process =
      Some (Ret ((o_mmap card_os lb len + physical_addr ?t mod 4096, t'), p')) \<and>
    run_commands (commands p') (\<lambda>_. small_mapper) = Some (Ret ms') \<and> mapper_inv (ms' (mapper_of card_os 2)) \<and>
    lb = (if o_popen card_os (commands p') then local_phys_addr (stored_maps (ms' (mapper_of card_os 2)) ! nat 1) else - 1) \<and>
    somnath_xdev (ms' (mapper_of card_os 2)) = Some x \<and> unat (physical_addr ?t mod 4096) + unat (0x1000 :: u64) \<le> unat len \<and>
    (o_popen card_os (commands p') \<and> lb \<noteq> 0 \<longrightarrow> (\<forall>i < unat (0x1000 :: u64). window x (lb - mw_pa (aper x) + physical_addr ?t mod 4096 + of_nat i) =
       Some (physical_addr ?t + of_nat i)))" by blast
  moreover have "mapper_of card_os 2 = 2" using os(2) by (simp add: mapper_of_def)
  moreover have "physical_addr ?t mod 4096 = 8" using a by simp
  moreover have "window x (lb - mw_pa (aper x) + 8 + 4) = Some 0x700c" if "lb \<noteq> 0"
  proof -
    have "o_popen card_os (commands p')" by (simp add: card_os_def plain_os_def)
    with r that have "\<forall>i < unat (0x1000 :: u64). window x (lb - mw_pa (aper x) + physical_addr ?t mod 4096 + of_nat i) =
        Some (physical_addr ?t + of_nat i)" by blast
    from this [rule_format, of 4] show ?thesis by (simp add: a)
  qed
  ultimately show ?thesis by (intro exI [of _ lb] exI [of _ len] exI [of _ t'] exI [of _ p'] exI [of _ ms'] exI [of _ x]) simp
qed

definition mapped_slot :: sgx5_map_struct where
  "mapped_slot = \<lparr>remote_phys_addr = 0x12345678, map_len = 0x2000, local_phys_addr = 0x10000678\<rparr>"

theorem failed_write_clears_first_witness:
  "\<exists>m m' x. mapper_step (Write 0 ''0x12345678 0x2000'') small_mapper = Ret m \<and> stored_maps m = [mapped_slot, no_map] \<and>
     write_map 1 (command_text 0x50000 0x10000) m = Some (Ret (- 1, m')) \<and>
     sscanf_shown (read_map m' 0) = Some (0, 0, 0x10000678)"
proof -
  obtain m where m: "mapper_step (Write 0 ''0x12345678 0x2000'') small_mapper = Ret m" "refs_fine m"
    "stored_maps m = [\<lparr>remote_phys_addr = 0x12345678, map_len = 0x2000, local_phys_addr = 0x10000678\<rparr>, no_map]"
    by (rule first_written)
  have "(case mapper_step (Write 0 ''0x12345678 0x2000'') small_mapper of
      Ret m1 \<Rightarrow> (case somnath_xdev m1 of Some x \<Rightarrow> (case plx_ioremap 0x50000 0x10000 x of Some (Ret (None, x')) \<Rightarrow> True | _ \<Rightarrow> False)
        | None \<Rightarrow> False) | Abort \<Rightarrow> False)" by code_simp
  with m(1) obtain x x' where x: "somnath_xdev m = Some x" "plx_ioremap 0x50000 0x10000 x = Some (Ret (None, x'))"
    by (auto split: option.splits outcome.splits prod.splits simp del: mapper_step.simps)
  have "(0x50000 :: u64) \<noteq> 0" "(0x10000 :: u64) \<noteq> 0" by simp_all
  from failed_write_clears_first [OF m(3) x(1) this x(2), of 0 "\<lambda>_. m"] m(1,3) show ?thesis
    unfolding mapped_slot_def by (auto simp del: mapper_step.simps)
qed

end
