(* ===== verification/Plx_Lbp.thy ===== *)
theory Plx_Lbp
  imports Plx_Window
begin

text \<open>
  The leveraged boot protocol (\<open>plx87xx/plx_lbp.c\<close>, \<open>plx_lbp_ifc.h\<close>): the host brings up a computer of a card
  through eight scratchpad registers of the bridge. The host writes a command and waits for the firmware of
  the computer to change its state; images are copied into memory of the computer through the window.

  The firmware is a parameter that acts while the host sleeps, on its own state and on the registers. Other
  parameters are the interrupt of the firmware, memory allocation, \<open>copy_from_user\<close>, the DMA engine, and the clock.
  What C leaves uninitialised is \<open>junk\<close>. Mutexes and log messages have no counterpart; registers change only while the host sleeps.
\<close>

section \<open>Registers and codes\<close>

definition PLX_LBP_SPAD_i7_READY :: u32 where "PLX_LBP_SPAD_i7_READY = 2"
definition PLX_LBP_SPAD_E5_READY :: u32 where "PLX_LBP_SPAD_E5_READY = 3"
definition PLX_LBP_SPAD_i7_CMD :: u32 where "PLX_LBP_SPAD_i7_CMD = 4"
definition PLX_LBP_SPAD_DATA_LOW :: u32 where "PLX_LBP_SPAD_DATA_LOW = 5"
definition PLX_LBP_SPAD_DATA_HIGH :: u32 where "PLX_LBP_SPAD_DATA_HIGH = 6"
definition PLX_LBP_SPAD_i7_ERROR :: u32 where "PLX_LBP_SPAD_i7_ERROR = 7"

lemmas lbp_spads = PLX_LBP_SPAD_i7_READY_def PLX_LBP_SPAD_E5_READY_def PLX_LBP_SPAD_i7_CMD_def
  PLX_LBP_SPAD_DATA_LOW_def PLX_LBP_SPAD_DATA_HIGH_def PLX_LBP_SPAD_i7_ERROR_def

definition PLX_LBP_i7_DOWN :: u32 where "PLX_LBP_i7_DOWN = 0"
definition PLX_LBP_i7_UP :: u32 where "PLX_LBP_i7_UP = 1"
definition PLX_LBP_i7_READY :: u32 where "PLX_LBP_i7_READY = 2"
definition PLX_LBP_i7_BUSY :: u32 where "PLX_LBP_i7_BUSY = 4"
definition PLX_LBP_i7_BOOTING :: u32 where "PLX_LBP_i7_BOOTING = 8"
definition PLX_LBP_i7_FLASHING :: u32 where "PLX_LBP_i7_FLASHING = 0x10"
definition PLX_LBP_i7_DONE :: u32 where "PLX_LBP_i7_DONE = 0x20"
definition PLX_LBP_i7_UEFI_ERROR :: u32 where "PLX_LBP_i7_UEFI_ERROR = 0x40"
definition PLX_LBP_i7_GENERAL_ERROR :: u32 where "PLX_LBP_i7_GENERAL_ERROR = 0x80"
definition PLX_LBP_i7_OS_READY :: u32 where "PLX_LBP_i7_OS_READY = 0x100"
definition PLX_LBP_i7_NET_DEV_READY :: u32 where "PLX_LBP_i7_NET_DEV_READY = 0x200"
definition PLX_LBP_i7_NET_DEV_UP :: u32 where "PLX_LBP_i7_NET_DEV_UP = 0x400"
definition PLX_LBP_i7_NET_DEV_DOWN :: u32 where "PLX_LBP_i7_NET_DEV_DOWN = 0x800"
definition PLX_LBP_i7_NET_DEV_NO_IP :: u32 where "PLX_LBP_i7_NET_DEV_NO_IP = 0x1000"
definition PLX_LBP_i7_DRV_PROBE_DONE :: u32 where "PLX_LBP_i7_DRV_PROBE_DONE = 0x2000"
definition PLX_LBP_i7_DRV_PROBE_ERROR :: u32 where "PLX_LBP_i7_DRV_PROBE_ERROR = 0x2080"
definition PLX_LBP_i7_DHCP_IN_PROGRESS :: u32 where "PLX_LBP_i7_DHCP_IN_PROGRESS = 0x4000"
definition PLX_LBP_i7_DHCP_DONE :: u32 where "PLX_LBP_i7_DHCP_DONE = 0x8000"
definition PLX_LBP_i7_DHCP_ERROR :: u32 where "PLX_LBP_i7_DHCP_ERROR = 0x8080"
definition PLX_LBP_i7_NFS_MOUNT_DONE :: u32 where "PLX_LBP_i7_NFS_MOUNT_DONE = 0x10000"
definition PLX_LBP_i7_NFS_MOUNT_ERROR :: u32 where "PLX_LBP_i7_NFS_MOUNT_ERROR = 0x10080"
definition PLX_LBP_i7_BOOTING_BLOCK_IO :: u32 where "PLX_LBP_i7_BOOTING_BLOCK_IO = 0x20000"
definition PLX_LBP_i7_SOFTWARE_NODE_DOWN :: u32 where "PLX_LBP_i7_SOFTWARE_NODE_DOWN = 0x40000"
definition PLX_LBP_i7_OS_REBOOTING :: u32 where "PLX_LBP_i7_OS_REBOOTING = 0x80000"
definition PLX_LBP_i7_AFTER_REBOOT :: u32 where "PLX_LBP_i7_AFTER_REBOOT = 0x100000"
definition PLX_LBP_i7_POWER_DOWN :: u32 where "PLX_LBP_i7_POWER_DOWN = 0x200000"
definition PLX_LBP_i7_ANY_ERROR :: u32 where "PLX_LBP_i7_ANY_ERROR = PLX_LBP_i7_UEFI_ERROR OR PLX_LBP_i7_GENERAL_ERROR"

lemmas lbp_states = PLX_LBP_i7_DOWN_def PLX_LBP_i7_UP_def PLX_LBP_i7_READY_def PLX_LBP_i7_BUSY_def
  PLX_LBP_i7_BOOTING_def PLX_LBP_i7_FLASHING_def PLX_LBP_i7_DONE_def PLX_LBP_i7_UEFI_ERROR_def
  PLX_LBP_i7_GENERAL_ERROR_def PLX_LBP_i7_OS_READY_def PLX_LBP_i7_NET_DEV_READY_def PLX_LBP_i7_NET_DEV_UP_def
  PLX_LBP_i7_NET_DEV_DOWN_def PLX_LBP_i7_NET_DEV_NO_IP_def PLX_LBP_i7_DRV_PROBE_DONE_def
  PLX_LBP_i7_DRV_PROBE_ERROR_def PLX_LBP_i7_DHCP_IN_PROGRESS_def PLX_LBP_i7_DHCP_DONE_def
  PLX_LBP_i7_DHCP_ERROR_def PLX_LBP_i7_NFS_MOUNT_DONE_def PLX_LBP_i7_NFS_MOUNT_ERROR_def
  PLX_LBP_i7_BOOTING_BLOCK_IO_def PLX_LBP_i7_SOFTWARE_NODE_DOWN_def PLX_LBP_i7_OS_REBOOTING_def
  PLX_LBP_i7_AFTER_REBOOT_def PLX_LBP_i7_POWER_DOWN_def PLX_LBP_i7_ANY_ERROR_def

definition PLX_LBP_CMD_INVALID :: u32 where "PLX_LBP_CMD_INVALID = 0"
definition PLX_LBP_CMD_BOOT_LOADER :: u32 where "PLX_LBP_CMD_BOOT_LOADER = 1"
definition PLX_LBP_CMD_MAP_RAMDISK :: u32 where "PLX_LBP_CMD_MAP_RAMDISK = 2"
definition PLX_LBP_CMD_BOOT_RAMDISK :: u32 where "PLX_LBP_CMD_BOOT_RAMDISK = 4"
definition PLX_LBP_CMD_FLASH_FW :: u32 where "PLX_LBP_CMD_FLASH_FW = 5"
definition PLX_LBP_CMD_FLASH_BIOS :: u32 where "PLX_LBP_CMD_FLASH_BIOS = 6"
definition PLX_LBP_CMD_GET_MAC_ADDR :: u32 where "PLX_LBP_CMD_GET_MAC_ADDR = 8"
definition PLX_LBP_CMD_SET_TIME :: u32 where "PLX_LBP_CMD_SET_TIME = 9"
definition PLX_LBP_CMD_SET_PARAM :: u32 where "PLX_LBP_CMD_SET_PARAM = 10"
definition PLX_LBP_CMD_GET_PARAM :: u32 where "PLX_LBP_CMD_GET_PARAM = 11"
definition PLX_LBP_CMD_CLEAR_ERROR :: u32 where "PLX_LBP_CMD_CLEAR_ERROR = 12"
definition PLX_LBP_CMD_BOOT_BLOCK_IO :: u32 where "PLX_LBP_CMD_BOOT_BLOCK_IO = 13"

definition PLX_LBP_E5_NOT_READY :: u32 where "PLX_LBP_E5_NOT_READY = 0"
definition PLX_LBP_E5_WAITING_FOR_IRQ :: u32 where "PLX_LBP_E5_WAITING_FOR_IRQ = 1"
definition PLX_LBP_E5_READY :: u32 where "PLX_LBP_E5_READY = 2"

lemmas lbp_cmds = PLX_LBP_CMD_INVALID_def PLX_LBP_CMD_BOOT_LOADER_def PLX_LBP_CMD_MAP_RAMDISK_def
  PLX_LBP_CMD_BOOT_RAMDISK_def PLX_LBP_CMD_FLASH_FW_def PLX_LBP_CMD_FLASH_BIOS_def PLX_LBP_CMD_GET_MAC_ADDR_def
  PLX_LBP_CMD_SET_TIME_def PLX_LBP_CMD_SET_PARAM_def PLX_LBP_CMD_GET_PARAM_def PLX_LBP_CMD_CLEAR_ERROR_def
  PLX_LBP_CMD_BOOT_BLOCK_IO_def PLX_LBP_E5_NOT_READY_def PLX_LBP_E5_WAITING_FOR_IRQ_def PLX_LBP_E5_READY_def

definition PLX_LBP_PARAM_CPU_MAX_FREQ_NON_TURBO :: u32 where "PLX_LBP_PARAM_CPU_MAX_FREQ_NON_TURBO = 1"
definition PLX_LBP_PARAM_BIOS_VER :: u32 where "PLX_LBP_PARAM_BIOS_VER = 2"
definition PLX_LBP_PARAM_BIOS_BUILD_DATE :: u32 where "PLX_LBP_PARAM_BIOS_BUILD_DATE = 3"
definition PLX_LBP_PARAM_BAR23 :: u32 where "PLX_LBP_PARAM_BAR23 = 1"

lemmas lbp_params = PLX_LBP_PARAM_CPU_MAX_FREQ_NON_TURBO_def PLX_LBP_PARAM_BIOS_VER_def
  PLX_LBP_PARAM_BIOS_BUILD_DATE_def PLX_LBP_PARAM_BAR23_def

definition PLX_LBP_PROTOCOL_VERSION_0_2 :: u32 where "PLX_LBP_PROTOCOL_VERSION_0_2 = 0x02"
definition PLX_LBP_PROTOCOL_VERSION_0_4 :: u32 where "PLX_LBP_PROTOCOL_VERSION_0_4 = 0x04"
definition PLX_LBP_PROTOCOL_VERSION_1_1 :: u32 where "PLX_LBP_PROTOCOL_VERSION_1_1 = 0x11"

text \<open>The results (\<open>enum vca_lbp_retval\<close>); some functions return other numbers.\<close>

definition LBP_STATE_OK :: int where "LBP_STATE_OK = 0"
definition LBP_SPAD_i7_WRONG_STATE :: int where "LBP_SPAD_i7_WRONG_STATE = 1"
definition LBP_IRQ_TIMEOUT :: int where "LBP_IRQ_TIMEOUT = 2"
definition LBP_ALLOC_TIMEOUT :: int where "LBP_ALLOC_TIMEOUT = 3"
definition LBP_CMD_TIMEOUT :: int where "LBP_CMD_TIMEOUT = 4"
definition LBP_BAD_PARAMETER_VALUE :: int where "LBP_BAD_PARAMETER_VALUE = 5"
definition LBP_UNKNOWN_PARAMETER :: int where "LBP_UNKNOWN_PARAMETER = 6"
definition LBP_INTERNAL_ERROR :: int where "LBP_INTERNAL_ERROR = 7"
definition LBP_PROTOCOL_VERSION_MISMATCH :: int where "LBP_PROTOCOL_VERSION_MISMATCH = 8"
definition LBP_BIOS_INFO_CACHE_EMPTY :: int where "LBP_BIOS_INFO_CACHE_EMPTY = 10"
definition ETIME :: int where "ETIME = 62"
definition ENOSYS :: int where "ENOSYS = 38"

lemmas lbp_results = LBP_STATE_OK_def LBP_SPAD_i7_WRONG_STATE_def LBP_IRQ_TIMEOUT_def LBP_ALLOC_TIMEOUT_def
  LBP_CMD_TIMEOUT_def LBP_BAD_PARAMETER_VALUE_def LBP_UNKNOWN_PARAMETER_def LBP_INTERNAL_ERROR_def
  LBP_PROTOCOL_VERSION_MISMATCH_def LBP_BIOS_INFO_CACHE_EMPTY_def ETIME_def ENOSYS_def

section \<open>State\<close>

text \<open>
  The driver's data for one computer, with the firmware of the computer and its memory. \<open>csm_index\<close> is the index of the
  VCA CSM device or NULL; \<open>blockio_dp\<close> and \<open>blockio_ftb_db\<close> are in the boot parameters.
\<close>

record 'c lbp =
  xdev :: plx_device
  firmware :: 'c
  ram :: "u64 \<Rightarrow> u8"
  dma_ch :: bool
  csm_index :: "u32 option"
  devfn :: u8
  card_type :: u32
  lbp_resetting :: bool
  bios_information_date :: u64
  bios_information_version :: u64
  i7_ddr_size_mb :: u32
  i7_irq_timeout_ms :: u32
  i7_alloc_timeout_ms :: u32
  i7_cmd_timeout_ms :: u32
  i7_mac_write_timeout_ms :: u32
  blockio_dp :: u64
  blockio_ftb_db :: nat

record lbp_clock =
  tm_year :: u64
  tm_mon :: u64
  tm_mday :: u64
  tm_hour :: u64
  tm_min :: u64
  tm_sec :: u64
  tv_usec :: u64

text \<open>
  The surroundings: what the firmware does in a millisecond; its interrupt, with the result of waiting for it and what the
  firmware did meanwhile; whether a buffer of a size can be allocated; the bytes of the caller at an offset;
  the DMA engine, given a physical address of the host, bytes, the bridge and the memory behind it.
\<close>

record 'c lbp_env =
  tick :: "'c \<Rightarrow> plx_device \<Rightarrow> 'c \<times> plx_device"
  card_irq :: "u32 \<Rightarrow> 'c \<Rightarrow> plx_device \<Rightarrow> int \<times> 'c \<times> plx_device"
  alloc_ok :: "nat \<Rightarrow> bool"
  from_user :: "nat \<Rightarrow> nat \<Rightarrow> u8 list option"
  dma_sync :: "u64 \<Rightarrow> u8 list \<Rightarrow> plx_device \<Rightarrow> (u64 \<Rightarrow> u8) \<Rightarrow> int \<times> (u64 \<Rightarrow> u8)"
  junk :: "nat \<Rightarrow> u32"
  clock :: lbp_clock
  tz_minuteswest :: u32

text \<open>The fields of the registers.\<close>

definition i7_ready_field :: "u32 \<Rightarrow> u32" where "i7_ready_field v = take_bit 24 v"
definition i7_version_field :: "u32 \<Rightarrow> u32" where "i7_version_field v = drop_bit 24 v"
definition i7_major_field :: "u32 \<Rightarrow> u32" where "i7_major_field v = take_bit 4 (drop_bit 24 v)"
definition i7_minor_field :: "u32 \<Rightarrow> u32" where "i7_minor_field v = drop_bit 28 v"

definition set_ready_field :: "u32 \<Rightarrow> u32 \<Rightarrow> u32" where
  "set_ready_field r v = push_bit 24 (drop_bit 24 v) OR take_bit 24 r"

definition plx_lbp_e5_ready :: "u32 \<Rightarrow> u32 \<Rightarrow> u32 \<Rightarrow> u32 \<Rightarrow> u32" where
  "plx_lbp_e5_ready ready CPUID pci_slot_id ntb_port_id =
     take_bit 8 ready OR push_bit 8 (take_bit 8 CPUID) OR push_bit 16 (take_bit 8 pci_slot_id) OR
     push_bit 24 (take_bit 8 ntb_port_id)"

definition plx_lbp_i7_cmd :: "u32 \<Rightarrow> u32 \<Rightarrow> u32" where
  "plx_lbp_i7_cmd cmd param = take_bit 16 cmd OR push_bit 16 (take_bit 16 param)"

definition read_spad :: "'c lbp \<Rightarrow> u32 \<Rightarrow> u32" where "read_spad s idx = plx_read_spad (xdev s) idx"

definition write_spad :: "u32 \<Rightarrow> u32 \<Rightarrow> 'c lbp \<Rightarrow> 'c lbp" where
  "write_spad idx v s = s\<lparr>xdev := plx_write_spad idx v (xdev s)\<rparr>"

definition plx_lbp_get_i7_status :: "'c lbp \<Rightarrow> u32" where
  "plx_lbp_get_i7_status s = read_spad s PLX_LBP_SPAD_i7_READY"

definition plx_lbp_set_i7_status :: "u32 \<Rightarrow> 'c lbp \<Rightarrow> 'c lbp" where
  "plx_lbp_set_i7_status v s = write_spad PLX_LBP_SPAD_i7_READY v s"

definition plx_lbp_get_i7_rcvy_status :: "'c lbp \<Rightarrow> u32" where
  "plx_lbp_get_i7_rcvy_status s = read_spad s PLX_LBP_SPAD_DATA_LOW"

definition i7_state :: "'c lbp \<Rightarrow> u32" where "i7_state s = i7_ready_field (plx_lbp_get_i7_status s)"

definition i7_version :: "'c lbp \<Rightarrow> u32" where "i7_version s = i7_version_field (plx_lbp_get_i7_status s)"

section \<open>Start, reset, interrupt\<close>

definition plx_lbp_init :: "int option \<Rightarrow> 'c lbp \<Rightarrow> int \<times> 'c lbp" where
  "plx_lbp_init irq_error s =
     (if link_side (xdev s) then (0, s)
      else let s1 = write_spad PLX_LBP_SPAD_E5_READY PLX_LBP_E5_NOT_READY
                 (s\<lparr>i7_irq_timeout_ms := 1000, i7_alloc_timeout_ms := 1000, i7_cmd_timeout_ms := 100,
                    i7_mac_write_timeout_ms := 1000\<rparr>)
           in (case irq_error of None \<Rightarrow> 0 | Some err \<Rightarrow> err, s1))"

text \<open>The card is given by its index; without a context for it the start of a reset dereferences NULL.\<close>

definition plx_lbp_reset_start :: "bool \<Rightarrow> 'c lbp option \<Rightarrow> 'c lbp option outcome" where
  "plx_lbp_reset_start valid_ids context =
     (if \<not> valid_ids then Ret context
      else case context of None \<Rightarrow> Abort | Some s \<Rightarrow> Ret (Some (s\<lparr>lbp_resetting := True\<rparr>)))"

definition plx_lbp_reset_stop :: "bool \<Rightarrow> 'c lbp option \<Rightarrow> 'c lbp option" where
  "plx_lbp_reset_stop valid_ids context =
     (if \<not> valid_ids then context
      else map_option (\<lambda>s. (write_spad PLX_LBP_SPAD_i7_READY PLX_LBP_i7_DOWN s)\<lparr>lbp_resetting := False\<rparr>) context)"

text \<open>The interrupt completes \<open>card_wait\<close> and says whether to notify of a reboot.\<close>

definition plx_lbp_interrupt_handler :: "'c lbp \<Rightarrow> bool" where
  "plx_lbp_interrupt_handler s \<longleftrightarrow> PLX_LBP_i7_AFTER_REBOOT OR PLX_LBP_i7_UP = i7_state s"

section \<open>Waiting\<close>

definition msleep_1 :: "'c lbp_env \<Rightarrow> 'c lbp \<Rightarrow> 'c lbp" where
  "msleep_1 E s = (let (c, x) = tick E (firmware s) (xdev s) in s\<lparr>firmware := c, xdev := x\<rparr>)"

fun lbp_wait_event :: "'c lbp_env \<Rightarrow> ('c lbp \<Rightarrow> bool) \<Rightarrow> nat \<Rightarrow> 'c lbp \<Rightarrow> bool \<times> 'c lbp" where
  "lbp_wait_event E event 0 s = (False, s)"
| "lbp_wait_event E event (Suc to) s =
     (let s1 = msleep_1 E s in if event s1 then (True, s1) else lbp_wait_event E event to s1)"

definition plx_lbp_wait_for_i7_up :: "'c lbp_env \<Rightarrow> u32 \<Rightarrow> 'c lbp \<Rightarrow> int \<times> 'c lbp" where
  "plx_lbp_wait_for_i7_up E timeout_ms s =
     (let (err, c, x) = card_irq E timeout_ms (firmware s) (xdev s); s1 = s\<lparr>firmware := c, xdev := x\<rparr>
      in if err < 0 then (err, s1)
         else if err = 0 then (- ETIME, s1)
         else if i7_state s1 AND NOT PLX_LBP_i7_AFTER_REBOOT \<noteq> PLX_LBP_i7_UP then (- ENODEV, s1)
         else (0, s1))"

text \<open>The state that was seen, or \<open>None\<close> for -ETIME.\<close>

definition plx_lbp_wait_for_i7_state :: "'c lbp_env \<Rightarrow> u32 \<Rightarrow> u32 \<Rightarrow> 'c lbp \<Rightarrow> u32 option \<times> 'c lbp" where
  "plx_lbp_wait_for_i7_state E state timeout s =
     (let (ok, s1) = lbp_wait_event E (\<lambda>s. if state = 0 then i7_state s = state else i7_state s AND state \<noteq> 0) (unat timeout) s
      in (if ok then Some (i7_state s1) else None, s1))"

definition plx_lbp_get_i7_cmd :: "'c lbp \<Rightarrow> u32" where
  "plx_lbp_get_i7_cmd s = read_spad s PLX_LBP_SPAD_i7_CMD"

definition plx_lbp_wait_for_i7_cmd_consumed :: "'c lbp_env \<Rightarrow> u32 \<Rightarrow> 'c lbp \<Rightarrow> int \<times> 'c lbp" where
  "plx_lbp_wait_for_i7_cmd_consumed E timeout_ms s =
     (let (ok, s1) = lbp_wait_event E (\<lambda>s. take_bit 16 (plx_lbp_get_i7_cmd s) = PLX_LBP_CMD_INVALID) (unat timeout_ms) s
      in (if ok then 0 else - ETIME, s1))"

section \<open>Time\<close>

text \<open>The fields of \<open>struct plx_lbp_time\<close>; the two flags and the bits above them are not initialised.\<close>

definition plx_lbp_time :: "'c lbp_env \<Rightarrow> u64" where
  "plx_lbp_time E =
     (let t = clock E
      in take_bit 13 (1900 + tm_year t) OR push_bit 13 (take_bit 5 (1 + tm_mon t)) OR push_bit 18 (take_bit 6 (tm_mday t)) OR
         push_bit 24 (take_bit 6 (tm_hour t)) OR push_bit 30 (take_bit 7 (tm_min t)) OR push_bit 37 (take_bit 7 (tm_sec t)) OR
         push_bit 44 (take_bit 16 (tv_usec t div 1000)) OR push_bit 60 (take_bit 4 (ucast (junk E 0))))"

definition plx_lbp_set_time_no_mutex :: "'c lbp_env \<Rightarrow> 'c lbp \<Rightarrow> int \<times> 'c lbp" where
  "plx_lbp_set_time_no_mutex E s =
     (if i7_state s \<noteq> PLX_LBP_i7_READY then (LBP_SPAD_i7_WRONG_STATE, s)
      else let s1 = write_spad PLX_LBP_SPAD_DATA_HIGH (ucast (drop_bit 32 (plx_lbp_time E))) s;
               s2 = write_spad PLX_LBP_SPAD_DATA_LOW (ucast (plx_lbp_time E)) s1;
               s3 = write_spad PLX_LBP_SPAD_i7_CMD (plx_lbp_i7_cmd PLX_LBP_CMD_SET_TIME (tz_minuteswest E)) s2;
               (err, s4) = plx_lbp_wait_for_i7_cmd_consumed E (i7_cmd_timeout_ms s3) s3
           in (if err < 0 then LBP_CMD_TIMEOUT else err, s4))"

definition plx_lbp_set_time :: "'c lbp_env \<Rightarrow> 'c lbp \<Rightarrow> int \<times> 'c lbp" where
  "plx_lbp_set_time E s =
     (if i7_state s \<noteq> PLX_LBP_i7_READY then (LBP_SPAD_i7_WRONG_STATE, s)
      else let s1 = write_spad PLX_LBP_SPAD_DATA_HIGH (ucast (drop_bit 32 (plx_lbp_time E))) s;
               s2 = write_spad PLX_LBP_SPAD_DATA_LOW (ucast (plx_lbp_time E)) s1;
               s3 = write_spad PLX_LBP_SPAD_i7_CMD (plx_lbp_i7_cmd PLX_LBP_CMD_SET_TIME (tz_minuteswest E)) s2;
               (err, s4) = plx_lbp_wait_for_i7_cmd_consumed E (i7_cmd_timeout_ms s3) s3
           in if err < 0 then (LBP_CMD_TIMEOUT, s4)
              else case plx_lbp_wait_for_i7_state E PLX_LBP_i7_READY (i7_cmd_timeout_ms s4) s4 of
                     (None, s5) \<Rightarrow> (LBP_CMD_TIMEOUT, s5)
                   | (Some _, s5) \<Rightarrow> (LBP_STATE_OK, s5))"

section \<open>Parameters of the firmware\<close>

definition check_if_supported :: "u32 \<Rightarrow> u32 \<Rightarrow> bool" where
  "check_if_supported i7_ready protocol_version \<longleftrightarrow> \<not> i7_version_field i7_ready < protocol_version"

definition plx_lbp_clear_error :: "'c lbp_env \<Rightarrow> 'c lbp \<Rightarrow> bool \<times> 'c lbp" where
  "plx_lbp_clear_error E s =
     (let s1 = write_spad PLX_LBP_SPAD_i7_ERROR 0 s
      in case plx_lbp_wait_for_i7_state E PLX_LBP_i7_READY (i7_cmd_timeout_ms s1) s1 of
           (None, s2) \<Rightarrow> (False, s2)
         | (Some _, s2) \<Rightarrow>
             let s3 = write_spad PLX_LBP_SPAD_i7_CMD (plx_lbp_i7_cmd PLX_LBP_CMD_CLEAR_ERROR 0) s2;
                 (err, s4) = plx_lbp_wait_for_i7_cmd_consumed E (i7_cmd_timeout_ms s3) s3
             in (\<not> err < 0, s4))"

definition handle_plx_lbp_error :: "'c lbp_env \<Rightarrow> 'c lbp \<Rightarrow> int \<times> 'c lbp" where
  "handle_plx_lbp_error E s =
     (let (ok, s1) = plx_lbp_clear_error E s in (if \<not> ok then LBP_CMD_TIMEOUT else LBP_INTERNAL_ERROR, s1))"

text \<open>The result, what is in \<open>*dest\<close> afterwards, and the state.\<close>

definition plx_lbp_copy_bios_info :: "'c lbp_env \<Rightarrow> u32 \<Rightarrow> u64 \<Rightarrow> 'c lbp \<Rightarrow> int \<times> u64 \<times> 'c lbp" where
  "plx_lbp_copy_bios_info E param dest s =
     (let i7_ready = plx_lbp_get_i7_status s;
          required = (if param = PLX_LBP_PARAM_BIOS_BUILD_DATE \<or> param = PLX_LBP_PARAM_BIOS_VER then Some PLX_LBP_PROTOCOL_VERSION_1_1
                      else if param = PLX_LBP_PARAM_CPU_MAX_FREQ_NON_TURBO then Some PLX_LBP_PROTOCOL_VERSION_0_2 else None)
      in case required of
           None \<Rightarrow> (- LBP_UNKNOWN_PARAMETER, dest, s)
         | Some version \<Rightarrow>
           if \<not> check_if_supported i7_ready version then (LBP_PROTOCOL_VERSION_MISMATCH, dest, s)
           else let s1 = write_spad PLX_LBP_SPAD_i7_CMD (plx_lbp_i7_cmd PLX_LBP_CMD_GET_PARAM param) s;
                    (err, s2) = plx_lbp_wait_for_i7_cmd_consumed E (i7_cmd_timeout_ms s1) s1
                in if err < 0 then (LBP_CMD_TIMEOUT, dest, s2)
                   else let input_value = (ucast dest :: u32);
                            hi = (if param \<noteq> PLX_LBP_PARAM_CPU_MAX_FREQ_NON_TURBO then read_spad s2 PLX_LBP_SPAD_DATA_HIGH else 0);
                            dest1 = push_bit 32 (ucast hi) OR ucast (read_spad s2 PLX_LBP_SPAD_DATA_LOW) :: u64;
                            old = (param = PLX_LBP_PARAM_CPU_MAX_FREQ_NON_TURBO \<and> PLX_LBP_PROTOCOL_VERSION_0_2 \<ge> i7_version_field i7_ready)
                        in if old \<and> input_value = 0 \<and> dest1 = 17 then (0, ucast input_value, s2)
                           else if old \<and> (dest1 < 8 \<or> dest1 > 17) then (LBP_BAD_PARAMETER_VALUE, dest1, s2)
                           else let (err, s3) = plx_lbp_set_time_no_mutex E s2 in (err, dest1, s3))"

definition plx_lbp_copy_bios_info_from_cache :: "u32 \<Rightarrow> u64 \<Rightarrow> 'c lbp \<Rightarrow> int \<times> u64" where
  "plx_lbp_copy_bios_info_from_cache param dest s =
     (if param = PLX_LBP_PARAM_BIOS_BUILD_DATE \<and> bios_information_date s \<noteq> 0 then (0, bios_information_date s)
      else if param = PLX_LBP_PARAM_BIOS_VER \<and> bios_information_version s \<noteq> 0 then (0, bios_information_version s)
      else (LBP_BIOS_INFO_CACHE_EMPTY, dest))"

definition plx_lbp_set_bios_param :: "'c lbp_env \<Rightarrow> u32 \<Rightarrow> u64 \<Rightarrow> 'c lbp \<Rightarrow> int \<times> 'c lbp" where
  "plx_lbp_set_bios_param E param value s =
     (let i7_ready = plx_lbp_get_i7_status s
      in if param \<noteq> PLX_LBP_PARAM_CPU_MAX_FREQ_NON_TURBO then (LBP_UNKNOWN_PARAMETER, s)
         else if \<not> check_if_supported i7_ready PLX_LBP_PROTOCOL_VERSION_0_2 then (LBP_PROTOCOL_VERSION_MISMATCH, s)
         else if i7_state s \<noteq> PLX_LBP_i7_READY then (LBP_SPAD_i7_WRONG_STATE, s)
         else let value' = (if value = 0 \<and> PLX_LBP_PROTOCOL_VERSION_0_2 \<ge> i7_version s then 17 else value);
                  s1 = write_spad PLX_LBP_SPAD_DATA_LOW (ucast value') s;
                  s2 = write_spad PLX_LBP_SPAD_DATA_HIGH (ucast (drop_bit 32 value')) s1;
                  s3 = write_spad PLX_LBP_SPAD_i7_CMD (plx_lbp_i7_cmd PLX_LBP_CMD_SET_PARAM PLX_LBP_PARAM_CPU_MAX_FREQ_NON_TURBO) s2;
                  (err, s4) = plx_lbp_wait_for_i7_cmd_consumed E (i7_cmd_timeout_ms s3) s3
              in if err < 0 then (LBP_CMD_TIMEOUT, s4)
                 else if read_spad s4 PLX_LBP_SPAD_i7_ERROR \<noteq> 0 then
                   (let (ok, s5) = plx_lbp_clear_error E s4 in (if \<not> ok then LBP_CMD_TIMEOUT else LBP_INTERNAL_ERROR, s5))
                 else (err, s4))"

text \<open>The end of \<open>plx_lbp_get_bios_param\<close> at the label \<open>exit\<close>.\<close>

definition get_bios_param_exit :: "'c lbp_env \<Rightarrow> int \<Rightarrow> u64 \<Rightarrow> 'c lbp \<Rightarrow> int \<times> u64 \<times> 'c lbp" where
  "get_bios_param_exit E err value s =
     (if err < 0 then (- err, value, s)
      else if err AND uint PLX_LBP_i7_ANY_ERROR \<noteq> 0 then
        (let (ok, s1) = plx_lbp_clear_error E s in (if \<not> ok then LBP_CMD_TIMEOUT else LBP_INTERNAL_ERROR, value, s1))
      else (err, value, s))"

definition plx_lbp_get_bios_param :: "'c lbp_env \<Rightarrow> u32 \<Rightarrow> u64 \<Rightarrow> 'c lbp \<Rightarrow> int \<times> u64 \<times> 'c lbp" where
  "plx_lbp_get_bios_param E param value s =
     (let i7_ready = plx_lbp_get_i7_status s;
          from_cache = (let (err, v) = plx_lbp_copy_bios_info_from_cache param value s in (err, v, s));
          copied = (let (err, v, s1) = plx_lbp_copy_bios_info E param value s in get_bios_param_exit E err v s1)
      in if param = PLX_LBP_PARAM_BIOS_BUILD_DATE \<or> param = PLX_LBP_PARAM_BIOS_VER then
           (if \<not> check_if_supported i7_ready PLX_LBP_PROTOCOL_VERSION_1_1 then
              (if i7_major_field i7_ready = 0 \<and> i7_minor_field i7_ready = 0 then from_cache
               else (LBP_PROTOCOL_VERSION_MISMATCH, value, s))
            else if i7_state s \<noteq> PLX_LBP_i7_READY \<and> i7_state s \<noteq> PLX_LBP_i7_UP then from_cache
            else copied)
         else if param = PLX_LBP_PARAM_CPU_MAX_FREQ_NON_TURBO then
           (if i7_ready_field i7_ready \<noteq> PLX_LBP_i7_READY then get_bios_param_exit E LBP_SPAD_i7_WRONG_STATE value s else copied)
         else get_bios_param_exit E (- LBP_UNKNOWN_PARAMETER) value s)"

text \<open>Six bytes, the first four from the high register.\<close>

definition plx_lbp_get_mac_addr :: "'c lbp_env \<Rightarrow> 'c lbp \<Rightarrow> int \<times> u8 list option \<times> 'c lbp" where
  "plx_lbp_get_mac_addr E s =
     (if i7_state s \<noteq> PLX_LBP_i7_READY then (LBP_SPAD_i7_WRONG_STATE, None, s)
      else let s1 = write_spad PLX_LBP_SPAD_i7_CMD (plx_lbp_i7_cmd PLX_LBP_CMD_GET_MAC_ADDR 0) s;
               (err, s2) = plx_lbp_wait_for_i7_cmd_consumed E (i7_cmd_timeout_ms s1) s1
           in if err < 0 then (LBP_CMD_TIMEOUT, None, s2)
              else case plx_lbp_wait_for_i7_state E PLX_LBP_i7_READY (i7_cmd_timeout_ms s2) s2 of
                     (None, s3) \<Rightarrow> (LBP_CMD_TIMEOUT, None, s3)
                   | (Some _, s3) \<Rightarrow>
                       let hi = read_spad s3 PLX_LBP_SPAD_DATA_HIGH; lo = read_spad s3 PLX_LBP_SPAD_DATA_LOW
                       in (LBP_STATE_OK,
                           Some (map (\<lambda>k. ucast (drop_bit (8 * k) hi)) [0..<4] @ map (\<lambda>k. ucast (drop_bit (8 * k) lo)) [0..<2]), s3))"

section \<open>Handshake\<close>

definition save_bios_info :: "'c lbp_env \<Rightarrow> 'c lbp \<Rightarrow> 'c lbp" where
  "save_bios_info E s =
     (let (err, date, s1) = plx_lbp_copy_bios_info E PLX_LBP_PARAM_BIOS_BUILD_DATE (bios_information_date s) s;
          s2 = s1\<lparr>bios_information_date := date\<rparr>
      in if err \<noteq> 0 then s2
         else let (_, ver, s3) = plx_lbp_copy_bios_info E PLX_LBP_PARAM_BIOS_VER (bios_information_version s2) s2
              in s3\<lparr>bios_information_version := ver\<rparr>)"

text \<open>From waiting for the interrupt on; the result is negative for an error.\<close>

definition handshake_steps :: "'c lbp_env \<Rightarrow> u32 \<Rightarrow> 'c lbp \<Rightarrow> int \<times> 'c lbp" where
  "handshake_steps E index s =
     (let slot = ucast (PCI_SLOT (devfn s)); port = port_id (xdev s);
          s1 = write_spad PLX_LBP_SPAD_i7_CMD (plx_lbp_i7_cmd PLX_LBP_CMD_INVALID (junk E 1)) s;
          s2 = write_spad PLX_LBP_SPAD_E5_READY (plx_lbp_e5_ready PLX_LBP_E5_WAITING_FOR_IRQ index (junk E 2) (junk E 3)) s1;
          (err, s3) = plx_lbp_wait_for_i7_up E (i7_irq_timeout_ms s2) s2
      in if err \<noteq> 0 then (if err < 0 then - LBP_IRQ_TIMEOUT else err, s3)
         else let s4 = s3\<lparr>i7_ddr_size_mb := read_spad s3 PLX_LBP_SPAD_DATA_LOW\<rparr>;
                  s5 = write_spad PLX_LBP_SPAD_DATA_HIGH 0 (write_spad PLX_LBP_SPAD_DATA_LOW index s4);
                  s6 = write_spad PLX_LBP_SPAD_E5_READY (plx_lbp_e5_ready PLX_LBP_E5_READY index slot port) s5
              in case plx_lbp_wait_for_i7_state E PLX_LBP_i7_READY (i7_irq_timeout_ms s6) s6 of
                   (None, s7) \<Rightarrow> (- LBP_CMD_TIMEOUT, s7)
                 | (Some ready, s7) \<Rightarrow> (uint ready, s7))"

definition plx_lbp_handshake :: "'c lbp_env \<Rightarrow> 'c lbp \<Rightarrow> int \<times> 'c lbp" where
  "plx_lbp_handshake E s =
     (let s0 = s\<lparr>bios_information_date := 0, bios_information_version := 0\<rparr>;
          (err, s1) = (case csm_index s0 of None \<Rightarrow> (- LBP_INTERNAL_ERROR, s0) | Some index \<Rightarrow> handshake_steps E index s0)
      in if err \<ge> 0 then (LBP_STATE_OK, save_bios_info E s1)
         else (- err, write_spad PLX_LBP_SPAD_E5_READY
                (plx_lbp_e5_ready PLX_LBP_E5_NOT_READY (junk E 4) (ucast (PCI_SLOT (devfn s1))) (port_id (xdev s1))) s1))"

section \<open>Images\<close>

text \<open>\<open>EBUSY\<close> without a channel, else the result of the engine, which writes the memory behind the window.\<close>

definition vca_lbp_sync_dma :: "'c lbp_env \<Rightarrow> u64 \<Rightarrow> u8 list \<Rightarrow> 'c lbp \<Rightarrow> int \<times> 'c lbp" where
  "vca_lbp_sync_dma E dst bytes s =
     (if \<not> dma_ch s then (- EBUSY, s)
      else let (err, r) = dma_sync E dst bytes (xdev s) (ram s) in (err, s\<lparr>ram := r\<rparr>))"

text \<open>
  The copy in chunks of the size of the buffer. \<open>None\<close> is a loop that does not end.
\<close>

partial_function (option) send_chunks ::
  "'c lbp_env \<Rightarrow> nat \<Rightarrow> u64 \<Rightarrow> nat \<Rightarrow> nat \<Rightarrow> 'c lbp \<Rightarrow> (int \<times> 'c lbp) outcome option" where
  "send_chunks E img_size ramdisk_ph offset temp_buff_size s =
     (if \<not> offset < img_size then Some (Ret (0, s))
      else case from_user E offset temp_buff_size of
        None \<Rightarrow> Some (Ret (- LBP_INTERNAL_ERROR, s))
      | Some temp_buff \<Rightarrow>
          (case plx_ioremap (ramdisk_ph + of_nat offset) (of_nat temp_buff_size) (xdev s) of
             None \<Rightarrow> None
           | Some Abort \<Rightarrow> Some Abort
           | Some (Ret (remapped, x)) \<Rightarrow>
               (case remapped of
                  None \<Rightarrow> Some (Ret (- LBP_INTERNAL_ERROR, s\<lparr>xdev := x\<rparr>))
                | Some va \<Rightarrow>
                    if va = 0 then Some (Ret (- LBP_INTERNAL_ERROR, s\<lparr>xdev := x\<rparr>))
                    else
                      (case vca_lbp_sync_dma E (mw_pa (aper x) + (va - mw_va (aper x))) temp_buff (s\<lparr>xdev := x\<rparr>) of
                         (err, s1) \<Rightarrow>
                           (case plx_iounmap va (xdev s1) of
                              Abort \<Rightarrow> Some Abort
                            | Ret x' \<Rightarrow>
                                if err \<noteq> 0 then Some (Ret (- LBP_INTERNAL_ERROR, s1\<lparr>xdev := x'\<rparr>))
                                else send_chunks E img_size ramdisk_ph (offset + temp_buff_size)
                                       (if img_size - (offset + temp_buff_size) > temp_buff_size then temp_buff_size
                                        else img_size - (offset + temp_buff_size))
                                       (s1\<lparr>xdev := x'\<rparr>))))))"

definition card_verdict :: "int \<Rightarrow> u32 option \<Rightarrow> int" where
  "card_verdict timeout ready =
     (case ready of None \<Rightarrow> timeout
      | Some r \<Rightarrow> if r AND PLX_LBP_i7_ANY_ERROR \<noteq> 0 then LBP_INTERNAL_ERROR else LBP_STATE_OK)"

definition HPAGE_SIZE :: nat where "HPAGE_SIZE = 0x200000"

definition temp_buffer :: "'c lbp_env \<Rightarrow> nat option" where
  "temp_buffer E = (if alloc_ok E HPAGE_SIZE then Some HPAGE_SIZE else if alloc_ok E 4096 then Some 4096 else None)"

definition ramdisk_address :: "'c lbp \<Rightarrow> u64" where
  "ramdisk_address s = push_bit 32 (ucast (read_spad s PLX_LBP_SPAD_DATA_HIGH)) + ucast (read_spad s PLX_LBP_SPAD_DATA_LOW)"

definition request_ramdisk :: "'c lbp_env \<Rightarrow> nat \<Rightarrow> 'c lbp \<Rightarrow> u32 option \<times> 'c lbp" where
  "request_ramdisk E img_size s =
     (let s1 = write_spad PLX_LBP_SPAD_DATA_LOW (of_nat ((img_size + (1024 * 1024 - 1)) div (1024 * 1024))) s;
          s2 = write_spad PLX_LBP_SPAD_DATA_HIGH 0 s1;
          s3 = write_spad PLX_LBP_SPAD_i7_CMD (plx_lbp_i7_cmd PLX_LBP_CMD_MAP_RAMDISK PLX_LBP_PARAM_BAR23) s2
      in plx_lbp_wait_for_i7_state E (PLX_LBP_i7_DONE OR PLX_LBP_i7_ANY_ERROR) (i7_alloc_timeout_ms s3) s3)"

definition peer_enable :: "'c lbp \<Rightarrow> 'c lbp" where
  "peer_enable s = (if a_lut (xdev s) then s\<lparr>xdev := plx_a_lut_peer_enable (xdev s)\<rparr> else s)"

definition plx_lbp_send_ramdisk :: "'c lbp_env \<Rightarrow> nat \<Rightarrow> 'c lbp \<Rightarrow> (int \<times> 'c lbp) outcome option" where
  "plx_lbp_send_ramdisk E img_size s =
     (if \<not> dma_ch s then Some (Ret (LBP_INTERNAL_ERROR, s))
      else let s1 = peer_enable s
           in if i7_state s1 \<noteq> PLX_LBP_i7_READY then Some (Ret (LBP_INTERNAL_ERROR, s1))
              else case temp_buffer E of
                None \<Rightarrow> Some (Ret (LBP_INTERNAL_ERROR, s1))
              | Some temp_buff_size \<Rightarrow>
                  (case request_ramdisk E img_size s1 of
                     (ready, s2) \<Rightarrow>
                       if card_verdict LBP_ALLOC_TIMEOUT ready \<noteq> LBP_STATE_OK then Some (Ret (card_verdict LBP_ALLOC_TIMEOUT ready, s2))
                       else case send_chunks E img_size (ramdisk_address s2) 0 (min temp_buff_size img_size) s2 of
                         None \<Rightarrow> None
                       | Some Abort \<Rightarrow> Some Abort
                       | Some (Ret (err, s3)) \<Rightarrow> Some (Ret (if err < 0 then - err else LBP_STATE_OK, s3))))"

section \<open>Booting and flashing\<close>

text \<open>What follows a successful copy of an image.\<close>

definition after_image :: "(int \<times> 'c lbp) outcome option \<Rightarrow> ('c lbp \<Rightarrow> int \<times> 'c lbp) \<Rightarrow> (int \<times> 'c lbp) outcome option" where
  "after_image sent k =
     (case sent of
        Some (Ret (err, s)) \<Rightarrow> Some (Ret (if err \<noteq> LBP_STATE_OK then (err, s) else k s))
      | r \<Rightarrow> r)"

definition command_and_wait :: "'c lbp_env \<Rightarrow> u32 \<Rightarrow> u32 \<Rightarrow> 'c lbp \<Rightarrow> u32 option \<times> 'c lbp" where
  "command_and_wait E cmd state s =
     (let s1 = write_spad PLX_LBP_SPAD_i7_CMD (plx_lbp_i7_cmd cmd 0) s
      in plx_lbp_wait_for_i7_state E state (i7_cmd_timeout_ms s1) s1)"

definition plx_lbp_boot_ramdisk :: "'c lbp_env \<Rightarrow> nat \<Rightarrow> 'c lbp \<Rightarrow> (int \<times> 'c lbp) outcome option" where
  "plx_lbp_boot_ramdisk E img_size s =
     after_image (plx_lbp_send_ramdisk E img_size s) (\<lambda>s1.
       let (ready, s2) = command_and_wait E PLX_LBP_CMD_BOOT_RAMDISK
             (PLX_LBP_i7_BOOTING OR PLX_LBP_i7_OS_READY OR PLX_LBP_i7_ANY_ERROR) s1
       in (card_verdict LBP_CMD_TIMEOUT ready, s2))"

definition plx_lbp_blkio_set_devpage :: "'c lbp \<Rightarrow> 'c lbp" where
  "plx_lbp_blkio_set_devpage s =
     (let x = xdev s
      in s\<lparr>blockio_dp := ramdisk_address s,
           xdev := plx_mmio_write (push_bit (blockio_ftb_db s) 1) (reg_base x + intr_reg_base x + PLX_DBIS) x\<rparr>)"

definition plx_lbp_boot_blkdisk :: "'c lbp_env \<Rightarrow> 'c lbp \<Rightarrow> int \<times> 'c lbp" where
  "plx_lbp_boot_blkdisk E s =
     (let s1 = peer_enable s
      in if i7_state s1 \<noteq> PLX_LBP_i7_READY then (- LBP_INTERNAL_ERROR, s1)
         else let (ready, s2) = command_and_wait E PLX_LBP_CMD_BOOT_BLOCK_IO
                    (PLX_LBP_i7_BOOTING_BLOCK_IO OR PLX_LBP_i7_OS_READY OR PLX_LBP_i7_ANY_ERROR) s1;
                  err = card_verdict LBP_CMD_TIMEOUT ready
              in (err, if err = LBP_STATE_OK then plx_lbp_blkio_set_devpage s2 else s2))"

text \<open>The second wait takes up to 300000 ms, whatever the parameters say.\<close>

definition plx_lbp_flash :: "'c lbp_env \<Rightarrow> u32 \<Rightarrow> nat \<Rightarrow> 'c lbp \<Rightarrow> (int \<times> 'c lbp) outcome option" where
  "plx_lbp_flash E cmd file_size s =
     after_image (plx_lbp_send_ramdisk E file_size s) (\<lambda>s1.
       let (ready, s2) = command_and_wait E cmd (PLX_LBP_i7_FLASHING OR PLX_LBP_i7_ANY_ERROR) s1;
           err = card_verdict LBP_CMD_TIMEOUT ready
       in if err \<noteq> LBP_STATE_OK then (err, s2)
          else let (ready, s3) = plx_lbp_wait_for_i7_state E (PLX_LBP_i7_DONE OR PLX_LBP_i7_ANY_ERROR) 300000 s2
               in (card_verdict LBP_CMD_TIMEOUT ready, s3))"

definition plx_lbp_flash_bios :: "'c lbp_env \<Rightarrow> nat \<Rightarrow> 'c lbp \<Rightarrow> (int \<times> 'c lbp) outcome option" where
  "plx_lbp_flash_bios E file_size s = plx_lbp_flash E PLX_LBP_CMD_FLASH_BIOS file_size s"

definition plx_lbp_clear_smb_event_log :: "'c lbp_env \<Rightarrow> nat \<Rightarrow> 'c lbp \<Rightarrow> (int \<times> 'c lbp) outcome option" where
  "plx_lbp_clear_smb_event_log E file_size s = plx_lbp_flash E PLX_LBP_CMD_FLASH_BIOS file_size s"

definition plx_lbp_update_mac_addr :: "'c lbp_env \<Rightarrow> nat \<Rightarrow> 'c lbp \<Rightarrow> (int \<times> 'c lbp) outcome option" where
  "plx_lbp_update_mac_addr E file_size s = plx_lbp_flash E PLX_LBP_CMD_FLASH_FW file_size s"

definition plx_lbp_boot_from_usb :: "'c lbp_env \<Rightarrow> 'c lbp \<Rightarrow> int \<times> 'c lbp" where
  "plx_lbp_boot_from_usb E s =
     (let (ready, s1) = command_and_wait E PLX_LBP_CMD_BOOT_LOADER (PLX_LBP_i7_BOOTING OR PLX_LBP_i7_ANY_ERROR) s
      in (case ready of None \<Rightarrow> LBP_CMD_TIMEOUT | Some _ \<Rightarrow> LBP_STATE_OK, s1))"

definition plx_lbp_flash_firmware :: "'c lbp \<Rightarrow> int \<times> 'c lbp" where
  "plx_lbp_flash_firmware s = (- ENOSYS, s)"

section \<open>Timeouts\<close>

datatype vca_lbp_param =
    VCA_LBP_PARAM_i7_IRQ_TIMEOUT_MS
  | VCA_LBP_PARAM_i7_ALLOC_TIMEOUT_MS
  | VCA_LBP_PARAM_i7_CMD_TIMEOUT_MS
  | VCA_LBP_PARAM_i7_MAC_WRITE_TIMEOUT_MS
  | VCA_LBP_PARAM_SIZE

fun max_of_param :: "vca_lbp_param \<Rightarrow> u32 option" where
  "max_of_param VCA_LBP_PARAM_i7_IRQ_TIMEOUT_MS = Some 300000"
| "max_of_param VCA_LBP_PARAM_i7_CMD_TIMEOUT_MS = Some 1000"
| "max_of_param VCA_LBP_PARAM_i7_ALLOC_TIMEOUT_MS = Some 1000"
| "max_of_param VCA_LBP_PARAM_i7_MAC_WRITE_TIMEOUT_MS = Some 10000"
| "max_of_param VCA_LBP_PARAM_SIZE = None"

text \<open>The case of the command timeout falls through to the next one.\<close>

fun store_param :: "vca_lbp_param \<Rightarrow> u32 \<Rightarrow> 'c lbp \<Rightarrow> 'c lbp" where
  "store_param VCA_LBP_PARAM_i7_IRQ_TIMEOUT_MS val s = s\<lparr>i7_irq_timeout_ms := val\<rparr>"
| "store_param VCA_LBP_PARAM_i7_ALLOC_TIMEOUT_MS val s = s\<lparr>i7_alloc_timeout_ms := val\<rparr>"
| "store_param VCA_LBP_PARAM_i7_CMD_TIMEOUT_MS val s = s\<lparr>i7_cmd_timeout_ms := val, i7_mac_write_timeout_ms := val\<rparr>"
| "store_param VCA_LBP_PARAM_i7_MAC_WRITE_TIMEOUT_MS val s = s\<lparr>i7_mac_write_timeout_ms := val\<rparr>"
| "store_param VCA_LBP_PARAM_SIZE val s = s"

definition plx_lbp_set_param :: "vca_lbp_param \<Rightarrow> u32 \<Rightarrow> 'c lbp \<Rightarrow> int \<times> 'c lbp" where
  "plx_lbp_set_param param val s =
     (case max_of_param param of
        None \<Rightarrow> (LBP_UNKNOWN_PARAMETER, s)
      | Some max_val \<Rightarrow> if val > max_val then (LBP_BAD_PARAMETER_VALUE, s) else (LBP_STATE_OK, store_param param val s))"

section \<open>States\<close>

datatype vca_lbp_states =
    VCA_BIOS_DOWN | VCA_BIOS_UP | VCA_BIOS_READY | VCA_OS_READY | VCA_NET_DEV_READY | VCA_BOOTING | VCA_FLASHING
  | VCA_RESETTING | VCA_BUSY | VCA_DONE | VCA_ERROR | VCA_NET_DEV_UP | VCA_NET_DEV_DOWN | VCA_NET_DEV_NO_IP
  | VCA_DRV_PROBE_DONE | VCA_DRV_PROBE_ERROR | VCA_DHCP_IN_PROGRESS | VCA_DHCP_DONE | VCA_DHCP_ERROR
  | VCA_NFS_MOUNT_DONE | VCA_NFS_MOUNT_ERROR | VCA_LINK_DOWN | VCA_BOOTING_BLOCKIO | VCA_OS_REBOOTING
  | VCA_AFTER_REBOOT | VCA_POWER_DOWN | VCA_SIZE

definition VCA_PRODUCTION :: u32 where "VCA_PRODUCTION = 0xE"

definition state_of_status :: "u32 \<Rightarrow> vca_lbp_states" where
  "state_of_status status =
     (if status = PLX_LBP_i7_DOWN then VCA_BIOS_DOWN
      else if status = PLX_LBP_i7_UP then VCA_BIOS_UP
      else if status = PLX_LBP_i7_READY then VCA_BIOS_READY
      else if status = PLX_LBP_i7_BUSY then VCA_BUSY
      else if status = PLX_LBP_i7_BOOTING then VCA_BOOTING
      else if status = PLX_LBP_i7_FLASHING then VCA_FLASHING
      else if status = PLX_LBP_i7_DONE then VCA_DONE
      else if status = PLX_LBP_i7_OS_READY then VCA_OS_READY
      else if status = PLX_LBP_i7_NET_DEV_READY then VCA_NET_DEV_READY
      else if status = PLX_LBP_i7_UEFI_ERROR \<or> status = PLX_LBP_i7_GENERAL_ERROR then VCA_ERROR
      else if status = PLX_LBP_i7_NET_DEV_UP then VCA_NET_DEV_UP
      else if status = PLX_LBP_i7_NET_DEV_DOWN then VCA_NET_DEV_DOWN
      else if status = PLX_LBP_i7_NET_DEV_NO_IP then VCA_NET_DEV_NO_IP
      else if status = PLX_LBP_i7_DRV_PROBE_DONE then VCA_DRV_PROBE_DONE
      else if status = PLX_LBP_i7_DRV_PROBE_ERROR then VCA_DRV_PROBE_ERROR
      else if status = PLX_LBP_i7_DHCP_IN_PROGRESS then VCA_DHCP_IN_PROGRESS
      else if status = PLX_LBP_i7_DHCP_DONE then VCA_DHCP_DONE
      else if status = PLX_LBP_i7_DHCP_ERROR then VCA_DHCP_ERROR
      else if status = PLX_LBP_i7_NFS_MOUNT_DONE then VCA_NFS_MOUNT_DONE
      else if status = PLX_LBP_i7_NFS_MOUNT_ERROR then VCA_NFS_MOUNT_ERROR
      else if status = PLX_LBP_i7_SOFTWARE_NODE_DOWN then VCA_LINK_DOWN
      else if status = PLX_LBP_i7_BOOTING_BLOCK_IO then VCA_BOOTING_BLOCKIO
      else if status = PLX_LBP_i7_OS_REBOOTING then VCA_OS_REBOOTING
      else if status = PLX_LBP_i7_UP OR PLX_LBP_i7_AFTER_REBOOT then VCA_AFTER_REBOOT
      else if status = PLX_LBP_i7_POWER_DOWN then VCA_POWER_DOWN
      else if status AND PLX_LBP_i7_POWER_DOWN \<noteq> 0 then VCA_POWER_DOWN
      else VCA_ERROR)"

fun status_of_state :: "vca_lbp_states \<Rightarrow> u32 option" where
  "status_of_state VCA_BIOS_DOWN = Some PLX_LBP_i7_DOWN"
| "status_of_state VCA_BIOS_UP = Some PLX_LBP_i7_UP"
| "status_of_state VCA_BIOS_READY = Some PLX_LBP_i7_READY"
| "status_of_state VCA_BUSY = Some PLX_LBP_i7_BUSY"
| "status_of_state VCA_BOOTING = Some PLX_LBP_i7_BOOTING"
| "status_of_state VCA_FLASHING = Some PLX_LBP_i7_FLASHING"
| "status_of_state VCA_DONE = Some PLX_LBP_i7_DONE"
| "status_of_state VCA_OS_READY = Some PLX_LBP_i7_OS_READY"
| "status_of_state VCA_NET_DEV_READY = Some PLX_LBP_i7_NET_DEV_READY"
| "status_of_state VCA_ERROR = Some PLX_LBP_i7_GENERAL_ERROR"
| "status_of_state VCA_NET_DEV_UP = Some PLX_LBP_i7_NET_DEV_UP"
| "status_of_state VCA_NET_DEV_DOWN = Some PLX_LBP_i7_NET_DEV_DOWN"
| "status_of_state VCA_NET_DEV_NO_IP = Some PLX_LBP_i7_NET_DEV_NO_IP"
| "status_of_state VCA_DRV_PROBE_DONE = Some PLX_LBP_i7_DRV_PROBE_DONE"
| "status_of_state VCA_DRV_PROBE_ERROR = Some PLX_LBP_i7_DRV_PROBE_ERROR"
| "status_of_state VCA_DHCP_IN_PROGRESS = Some PLX_LBP_i7_DHCP_IN_PROGRESS"
| "status_of_state VCA_DHCP_DONE = Some PLX_LBP_i7_DHCP_DONE"
| "status_of_state VCA_DHCP_ERROR = Some PLX_LBP_i7_DHCP_ERROR"
| "status_of_state VCA_NFS_MOUNT_DONE = Some PLX_LBP_i7_NFS_MOUNT_DONE"
| "status_of_state VCA_NFS_MOUNT_ERROR = Some PLX_LBP_i7_NFS_MOUNT_ERROR"
| "status_of_state VCA_BOOTING_BLOCKIO = Some PLX_LBP_i7_BOOTING_BLOCK_IO"
| "status_of_state VCA_OS_REBOOTING = Some PLX_LBP_i7_OS_REBOOTING"
| "status_of_state VCA_AFTER_REBOOT = Some (PLX_LBP_i7_UP OR PLX_LBP_i7_AFTER_REBOOT)"
| "status_of_state VCA_POWER_DOWN = Some PLX_LBP_i7_POWER_DOWN"
| "status_of_state VCA_RESETTING = None"
| "status_of_state VCA_LINK_DOWN = None"
| "status_of_state VCA_SIZE = None"

definition plx_lbp_get_state :: "'c lbp \<Rightarrow> vca_lbp_states" where
  "plx_lbp_get_state s =
     (if card_type s AND VCA_PRODUCTION = 0 then VCA_OS_READY
      else if lbp_resetting s then VCA_RESETTING
      else state_of_status (i7_state s))"

text \<open>During a reset the result is the number of \<open>VCA_RESETTING\<close>, 7.\<close>

definition plx_lbp_set_state :: "vca_lbp_states \<Rightarrow> 'c lbp \<Rightarrow> int \<times> 'c lbp" where
  "plx_lbp_set_state state s =
     (if card_type s AND VCA_PRODUCTION = 0 then (LBP_STATE_OK, s)
      else if lbp_resetting s then (7, s)
      else case status_of_state state of
             None \<Rightarrow> (LBP_BAD_PARAMETER_VALUE, s)
           | Some r \<Rightarrow> (LBP_STATE_OK, plx_lbp_set_i7_status (set_ready_field r (plx_lbp_get_i7_status s)) s))"

datatype vca_lbp_rcvy_states = VCA_RCVY_JUMPER_CLOSE | VCA_RCVY_JUMPER_OPEN | VCA_RCVY_NON_READABLE | VCA_RCVY_SIZE

definition plx_lbp_get_rcvy_state :: "'c lbp \<Rightarrow> vca_lbp_rcvy_states" where
  "plx_lbp_get_rcvy_state s =
     (if card_type s AND VCA_PRODUCTION = 0 \<or> lbp_resetting s then VCA_RCVY_NON_READABLE
      else if i7_version s < PLX_LBP_PROTOCOL_VERSION_0_4 then VCA_RCVY_NON_READABLE
      else if i7_state s = PLX_LBP_i7_UP \<or> i7_state s = PLX_LBP_i7_UP OR PLX_LBP_i7_AFTER_REBOOT \<or> i7_state s = PLX_LBP_i7_READY then
        (if plx_lbp_get_i7_rcvy_status s AND 1 \<noteq> 0 then VCA_RCVY_JUMPER_OPEN else VCA_RCVY_JUMPER_CLOSE)
      else VCA_RCVY_NON_READABLE)"

end
