(* ===== verification/Lbp_Image.thy ===== *)
theory Lbp_Image
  imports Plx_Lbp
begin

text \<open>
  Images of the boot protocol: what a copy through the window does to the memory of the card, chunk by chunk.
\<close>

section \<open>References of the window\<close>

lemma unat_minus_one_word: "unat (- 1 :: 'a::len word) = 2 ^ LENGTH('a) - 1"
  by (simp add: unsigned_minus_1_eq_mask mask_eq_exp_minus_1)

lemma refs_after_unmap:
  assumes refs: "refs_ok (a_lut_manager x)" and n: "new_ref x x1 g" and r: "released x1 x2 g"
  shows "refs_ok (a_lut_manager x2)"
  unfolding refs_ok_def
proof (intro allI impI notI)
  fix l assume l2: "leader (entries (a_lut_manager x2)) l" and c: "counter (entries (a_lut_manager x2) ! l) = - 1"
  have l1: "leader (entries (a_lut_manager x1)) l" and e: "refs x2 l = (if l = g then refs x1 l - 1 else refs x1 l)"
    using r l2 by (auto simp: released_def)
  have top: "refs x2 l = 2 ^ 16 - 1" by (simp add: refs_def c unat_minus_one_word)
  have le: "\<not> leader (entries (a_lut_manager x)) l \<or> refs x l < 2 ^ 16 - 1"
  proof (rule ccontr)
    assume "\<not> ?thesis"
    then have "leader (entries (a_lut_manager x)) l" "unat (- 1 :: u16) \<le> unat (counter (entries (a_lut_manager x) ! l))"
      by (auto simp: refs_def unat_minus_one_word)
    then have "leader (entries (a_lut_manager x)) l" "counter (entries (a_lut_manager x) ! l) = - 1"
      by (simp_all only: word_le_nat_alt [symmetric] word_order.extremum_unique)
    with refs show False by (simp add: refs_ok_def)
  qed
  have o: "one_more (a_lut_manager x) (a_lut_manager x1) g" using n by (simp add: new_ref_def)
  show False
  proof (cases "l = g")
    case True
    with o have "refs x1 l = 2 \<or> leader (entries (a_lut_manager x)) l \<and> refs x1 l \<le> refs x l + 1"
      by (auto simp: one_more_def refs_def)
    with e True top le show False by auto
  next
    case False
    with o l1 have "leader (entries (a_lut_manager x)) l" "refs x1 l \<le> refs x l"
      by (auto simp: one_more_def refs_def word_le_nat_alt)
    with e False top le show False by auto
  qed
qed

section \<open>Where the registers are\<close>

text \<open>
  The registers of the protocol lie apart from those of the window; mapping and unmapping leave all in their places.
\<close>

definition registers_apart :: "plx_device \<Rightarrow> bool" where
  "registers_apart x \<longleftrightarrow>
     (\<forall>i < unat (segments_num (a_lut_manager x)). \<forall>k. lut_kind k \<longrightarrow> lut_reg (a_lut_array_base x) k i < 0x3c000) \<and>
     (\<forall>idx < 8. 0x3c000 \<le> reg_base x + PLX_SPAD0 + idx * 4) \<and> 0x3c000 \<le> reg_base_peer x + PLX_A_LUT_CONTROL"

definition same_places :: "plx_device \<Rightarrow> plx_device \<Rightarrow> bool" where
  "same_places x x' \<longleftrightarrow> reg_base x' = reg_base x \<and> reg_base_peer x' = reg_base_peer x \<and>
     a_lut_array_base x' = a_lut_array_base x \<and> segments_num (a_lut_manager x') = segments_num (a_lut_manager x)"

lemma places_apart: "same_places x x' \<Longrightarrow> registers_apart x \<Longrightarrow> registers_apart x'"
  by (simp add: same_places_def registers_apart_def)

lemma places_ioremap:
  assumes ok: "window_ok x" and refs: "refs_ok (a_lut_manager x)" and r: "plx_ioremap pa n x = Some (Ret (q, x'))"
  shows "same_places x x'"
proof -
  have wf: "alm_wf (a_lut_manager x)" using ok by (simp add: window_ok_def)
  from r have "\<exists>rc out m. plx_alm_add_entry (a_lut_manager x) pa n = Some (Ret (rc, out, m)) \<and> a_lut_manager x' = m \<and>
      reg_base x' = reg_base x \<and> reg_base_peer x' = reg_base_peer x \<and> a_lut_array_base x' = a_lut_array_base x"
    using ok by (auto simp: plx_ioremap_def plx_add_a_lut_entry_def window_ok_def Let_def
        split: option.splits outcome.splits prod.splits if_splits)
  then show ?thesis using add_entry_origin [OF wf refs] by (auto simp: same_places_def origin_def)
qed

lemma places_iounmap: "plx_iounmap va x = Ret x' \<Longrightarrow> same_places x x'"
  by (auto simp: same_places_def plx_iounmap_def plx_del_a_lut_entry_def plx_alm_del_entry_def Let_def
      split: if_splits outcome.splits option.splits)

section \<open>Memory behind the window\<close>

text \<open>What a transfer to the window writes.\<close>

fun store_window :: "plx_device \<Rightarrow> u64 \<Rightarrow> u8 list \<Rightarrow> (u64 \<Rightarrow> u8) \<Rightarrow> (u64 \<Rightarrow> u8)" where
  "store_window x off [] r = r"
| "store_window x off (b # bs) r =
     store_window x (off + 1) bs (case window x off of None \<Rightarrow> r | Some a \<Rightarrow> r(a := b))"

definition overlay :: "u64 \<Rightarrow> u8 list \<Rightarrow> (u64 \<Rightarrow> u8) \<Rightarrow> (u64 \<Rightarrow> u8)" where
  "overlay a bs r = (\<lambda>c. if unat (c - a) < length bs then bs ! unat (c - a) else r c)"

lemma overlay_cons:
  assumes "length bs < 2 ^ 64 - 1"
  shows "overlay (a + 1) bs (r(a := b)) = overlay a (b # bs) r"
proof
  fix c :: u64
  show "overlay (a + 1) bs (r(a := b)) c = overlay a (b # bs) r c"
  proof (cases "c = a")
    case True
    have "unat (a - (a + 1)) = 2 ^ 64 - 1" by (simp add: unat_minus_one_word)
    with True assms show ?thesis by (simp add: overlay_def)
  next
    case False
    then have "c - a \<noteq> 0" by simp
    then have "unat (c - a) = Suc (unat (c - a - 1))" by (metis Suc_pred unat_gt_0 unat_minus_one One_nat_def)
    moreover have e: "c - (a + 1) = c - a - 1" by simp
    ultimately show ?thesis using False by (simp add: overlay_def e)
  qed
qed

lemma store_window_overlay:
  assumes "\<And>i. i < length bs \<Longrightarrow> window x (off + of_nat i) = Some (a + of_nat i)" and "length bs < 2 ^ 64"
  shows "store_window x off bs r = overlay a bs r"
  using assms
proof (induction bs arbitrary: off a r)
  case Nil
  then show ?case by (simp add: overlay_def)
next
  case (Cons b bs)
  have "window x (off + 1 + of_nat i) = Some (a + 1 + of_nat i)" if "i < length bs" for i
    using Cons.prems(1) [of "Suc i"] that by (simp add: add.assoc)
  moreover have "window x off = Some a" using Cons.prems(1) [of 0] by simp
  ultimately show ?case using Cons.IH [of "off + 1" "a + 1" "r(a := b)"] Cons.prems(2) overlay_cons [of bs a r b] by (simp del: fun_upd_apply)
qed

lemma overlay_overlay:
  assumes "length xs + length ys < 2 ^ 64"
  shows "overlay (a + of_nat (length xs)) ys (overlay a xs r) = overlay a (xs @ ys) r"
proof
  fix c :: u64
  let ?n = "length xs" let ?w = "of_nat (length xs) :: u64"
  have w: "unat ?w = ?n" using assms by (simp only: unat_of_nat) (simp add: take_bit_nat_eq_self)
  have e: "c - (a + ?w) = (c - a) - ?w" by simp
  show "overlay (a + ?w) ys (overlay a xs r) c = overlay a (xs @ ys) r c"
  proof (cases "unat (c - a) < ?n")
    case True
    then have "unat (c - a - ?w) = 2 ^ 64 + unat (c - a) - ?n"
      by (simp add: unat_sub_if' w word_le_nat_alt)
    with True assms have "\<not> unat (c - a - ?w) < length ys" by linarith
    with True show ?thesis by (simp add: overlay_def e nth_append)
  next
    case False
    then have "unat (c - a - ?w) = unat (c - a) - ?n" by (simp add: unat_sub_if' w word_le_nat_alt)
    with False show ?thesis by (auto simp: overlay_def e nth_append)
  qed
qed

section \<open>The copy\<close>

text \<open>
  What is assumed of the surroundings: the bytes of the caller are the image, where they can be read; a transfer
  of the engine that reports success has stored its bytes where the bridge translates to.
\<close>

definition user_image :: "'c lbp_env \<Rightarrow> u8 list \<Rightarrow> bool" where
  "user_image E img \<longleftrightarrow> (\<forall>off n bytes. off + n \<le> length img \<longrightarrow> from_user E off n = Some bytes \<longrightarrow> bytes = take n (drop off img))"

definition dma_through_window :: "'c lbp_env \<Rightarrow> bool" where
  "dma_through_window E \<longleftrightarrow>
     (\<forall>dst bytes x r r'. dma_sync E dst bytes x r = (0, r') \<longrightarrow> r' = store_window x (dst - mw_pa (aper x)) bytes r)"

lemma sync_dma_result:
  assumes "vca_lbp_sync_dma E dst bytes s = (err, s1)"
  shows "xdev s1 = xdev s" "dma_ch s1 = dma_ch s" "s1 = s\<lparr>ram := ram s1\<rparr>"
    "dma_through_window E \<Longrightarrow> err = 0 \<Longrightarrow> ram s1 = store_window (xdev s) (dst - mw_pa (aper (xdev s))) bytes (ram s)"
  using assms by (auto simp: vca_lbp_sync_dma_def EBUSY_def dma_through_window_def split: if_splits prod.splits)

lemma one_chunk:
  assumes ok: "window_ok (xdev s)" and refs: "refs_ok (a_lut_manager (xdev s))" and n: "0 < n" "n < 2 ^ 64"
    and b: "from_user E off n = Some bytes" "length bytes = n" and dma: "dma_through_window E" and off: "off < sz"
  shows "(\<exists>s'. send_chunks E sz ph off n s = Some (Ret (- LBP_INTERNAL_ERROR, s'))) \<or>
    (\<exists>s'. send_chunks E sz ph off n s =
         send_chunks E sz ph (off + n) (if sz - (off + n) > n then n else sz - (off + n)) s' \<and>
       window_ok (xdev s') \<and> refs_ok (a_lut_manager (xdev s')) \<and> same_places (xdev s) (xdev s') \<and>
       ram s' = overlay (ph + of_nat off) bytes (ram s))"
proof -
  have un: "unat (of_nat n :: u64) = n" using n(2) by (simp only: unat_of_nat) (simp add: take_bit_nat_eq_self)
  let ?pa = "ph + of_nat off"
  from ioremap_visible [OF ok refs, of ?pa "of_nat n"] obtain q x where
    x: "plx_ioremap ?pa (of_nat n) (xdev s) = Some (Ret (q, x))" "window_ok x" "aper x = aper (xdev s)"
    and vis: "\<And>va i. q = Some va \<Longrightarrow> i < n \<Longrightarrow> window x (va - mw_va (aper (xdev s)) + of_nat i) = Some (?pa + of_nat i)"
    and g: "\<And>va. q = Some va \<Longrightarrow> \<exists>g. lies_in x g (va - mw_va (aper (xdev s))) n \<and> new_ref (xdev s) x g"
    unfolding un by blast
  show ?thesis
  proof (cases "q = None \<or> q = Some 0")
    case True
    then show ?thesis using x(1) b(1) off by (subst send_chunks.simps) (auto simp: LBP_INTERNAL_ERROR_def)
  next
    case False
    then obtain va where va: "q = Some va" "va \<noteq> 0" by auto
    let ?dst = "mw_pa (aper x) + (va - mw_va (aper x))"
    obtain err s1 where s1: "vca_lbp_sync_dma E ?dst bytes (s\<lparr>xdev := x\<rparr>) = (err, s1)" by fastforce
    note d = sync_dma_result [OF s1]
    from g [OF va(1)] obtain l where l: "lies_in x l (va - mw_va (aper x)) n" "new_ref (xdev s) x l" by (auto simp: x(3))
    have "2 \<le> refs x l" using l(2) by (simp add: new_ref_def)
    from iounmap_visible [OF x(2) l(1) n(1) this] obtain x' where
      x': "plx_iounmap va x = Ret x'" "window_ok x'" "released x x' l" by blast
    have step: "send_chunks E sz ph off n s = (if err \<noteq> 0 then Some (Ret (- LBP_INTERNAL_ERROR, s1\<lparr>xdev := x'\<rparr>))
        else send_chunks E sz ph (off + n) (if sz - (off + n) > n then n else sz - (off + n)) (s1\<lparr>xdev := x'\<rparr>))"
      using x(1) va s1 x'(1) d(1) b(1) off by (subst send_chunks.simps) simp
    show ?thesis
    proof (cases "err = 0")
      case False
      with step show ?thesis by auto
    next
      case True
      from d(4) [OF dma True] have "ram s1 = store_window x (va - mw_va (aper x)) bytes (ram s)" by simp
      also have "\<dots> = overlay ?pa bytes (ram s)"
        using vis [OF va(1)] b(2) n(2) by (intro store_window_overlay) (simp_all add: x(3))
      finally have "ram s1 = overlay ?pa bytes (ram s)" .
      moreover have "refs_ok (a_lut_manager x')" by (rule refs_after_unmap [OF refs l(2) x'(3)])
      moreover have "same_places (xdev s) x'"
        using places_ioremap [OF ok refs x(1)] places_iounmap [OF x'(1)] by (simp add: same_places_def)
      ultimately show ?thesis using step True x'(2) by (intro disjI2 exI [of _ "s1\<lparr>xdev := x'\<rparr>"]) simp
    qed
  qed
qed

lemma chunks_delivered:
  assumes "window_ok (xdev s)" and "refs_ok (a_lut_manager (xdev s))" and img: "length img < 2 ^ 64"
    and "0 < n \<or> off = length img" "off + n \<le> length img"
    and user: "user_image E img" and dma: "dma_through_window E"
    and "ram s = overlay ph (take off img) r"
  shows "\<exists>err s'. send_chunks E (length img) ph off n s = Some (Ret (err, s')) \<and> (err = 0 \<or> err = - LBP_INTERNAL_ERROR) \<and>
    (err = 0 \<longrightarrow> ram s' = overlay ph img r \<and> same_places (xdev s) (xdev s'))"
  using assms(1,2,4,5,8)
proof (induction "length img - off" arbitrary: off n s rule: less_induct)
  case less
  show ?case
  proof (cases "off < length img")
    case False
    with less.prems show ?thesis by (subst send_chunks.simps) (simp add: same_places_def)
  next
    case lt: True
    show ?thesis
    proof (cases "from_user E off n")
      case None
      with lt show ?thesis by (subst send_chunks.simps) (simp add: LBP_INTERNAL_ERROR_def)
    next
      case (Some bytes)
      have n: "0 < n" "n < 2 ^ 64" using less.prems(3,4) lt img by auto
      have taken: "bytes = take n (drop off img)" using user Some less.prems(4) unfolding user_image_def by blast
      have len: "length bytes = n" using less.prems(4) by (simp add: taken)
      let ?m = "if length img - (off + n) > n then n else length img - (off + n)"
      from one_chunk [OF less.prems(1,2) n Some len dma lt, of ph] show ?thesis
      proof (elim disjE exE conjE)
        fix s' assume "send_chunks E (length img) ph off n s = Some (Ret (- LBP_INTERNAL_ERROR, s'))"
        then show ?thesis by (auto simp: LBP_INTERNAL_ERROR_def)
      next
        fix s' assume s': "send_chunks E (length img) ph off n s = send_chunks E (length img) ph (off + n) ?m s'"
          "window_ok (xdev s')" "refs_ok (a_lut_manager (xdev s'))" "same_places (xdev s) (xdev s')" "ram s' = overlay (ph + of_nat off) bytes (ram s)"
        have l: "length (take off img) = off" using lt by simp
        have "take off img @ bytes = take (off + n) img" by (simp add: taken take_add)
        then have "ram s' = overlay ph (take (off + n) img) r"
          using overlay_overlay [of "take off img" bytes ph r] l len less.prems(4,5) img s'(5) by simp
        moreover have "length img - (off + n) < length img - off" using n(1) lt by simp
        ultimately have "\<exists>err t. send_chunks E (length img) ph (off + n) ?m s' = Some (Ret (err, t)) \<and>
            (err = 0 \<or> err = - LBP_INTERNAL_ERROR) \<and> (err = 0 \<longrightarrow> ram t = overlay ph img r \<and> same_places (xdev s') (xdev t))"
          using s'(2,3) less.prems(4) by (intro less.hyps) auto
        then show ?thesis using s'(4) unfolding s'(1) same_places_def by fastforce
      qed
    qed
  qed
qed

end
