(* ===== verification/Lbp_Props.thy ===== *)
theory Lbp_Props
  imports Lbp_Image
begin

text \<open>
  Properties of the boot protocol: waiting, states, handshake, and booting from an image in memory. The
  registers of the protocol lie above those of the window, so that a bridge that has been set up keeps
  its translation through the whole protocol (\<open>bridge_ready\<close>).
\<close>

section \<open>Bridges that are set up\<close>

definition calm :: "plx_device \<Rightarrow> plx_device \<Rightarrow> bool" where
  "calm x x' \<longleftrightarrow> (\<exists>f. x' = x\<lparr>mmio := f\<rparr> \<and> (\<forall>r < 0x3c000. f r = mmio x r))"

definition bridge_ready :: "plx_device \<Rightarrow> bool" where
  "bridge_ready x \<longleftrightarrow> window_ok x \<and> refs_ok (a_lut_manager x) \<and> registers_apart x"

lemma calm_refl: "calm x x" by (auto simp: calm_def intro: exI [of _ "mmio x"])

lemma calm_trans: "calm x y \<Longrightarrow> calm y z \<Longrightarrow> calm x z"
  by (auto simp: calm_def)

lemma calm_write: "0x3c000 \<le> r \<Longrightarrow> calm x (plx_mmio_write v r x)"
  unfolding calm_def plx_mmio_write_def by (intro exI [of _ "(mmio x)(r := v)"]) auto

lemma calm_sel:
  assumes "calm x x'"
  shows "a_lut_manager x' = a_lut_manager x" "aper x' = aper x" "a_lut x' = a_lut x" "reg_base x' = reg_base x"
    "port_id x' = port_id x" "a_lut_array_base x' = a_lut_array_base x" "reg_base_peer x' = reg_base_peer x"
    "\<And>r. r < 0x3c000 \<Longrightarrow> mmio x' r = mmio x r"
  using assms by (auto simp: calm_def)

lemma calm_apart: "calm x x' \<Longrightarrow> registers_apart x \<Longrightarrow> registers_apart x'"
  using calm_sel [of x x'] by (simp add: registers_apart_def)

lemma calm_ready:
  assumes c: "calm x x'" and r: "bridge_ready x"
  shows "bridge_ready x'"
proof -
  note s = calm_sel [OF c]
  have low: "registers_apart x" and ok: "window_ok x" using r by (simp_all add: bridge_ready_def)
  have e: "lut_entry x' i = lut_entry x i" if "i < unat (segments_num (a_lut_manager x))" for i
    using low that s(8) by (simp add: lut_entry_def registers_apart_def s(6))
  have "shows_group x' l" if l: "leader (entries (a_lut_manager x)) l" for l
  proof -
    have wf: "alm_wf (a_lut_manager x)" and sh: "shows_group x l" using ok l by (simp_all add: window_ok_def)
    have "l + j < unat (segments_num (a_lut_manager x))" if "j < span (entries (a_lut_manager x)) l" for j
      using leader_region_free(2) [OF alm_wfD(3) [OF wf] l] alm_wfD(1) [OF wf] that by simp
    with sh e show ?thesis by (simp add: shows_group_def s(1) Let_def)
  qed
  then have "window_ok x'" using ok by (simp add: window_ok_def s(1,3))
  with r calm_apart [OF c low] show ?thesis by (simp add: bridge_ready_def s(1))
qed

section \<open>Firmware\<close>

text \<open>
  The firmware writes registers of the protocol only, and not the one in which the host says what it is.
\<close>

definition firmware_tame :: "'c lbp_env \<Rightarrow> bool" where
  "firmware_tame E \<longleftrightarrow>
     (\<forall>c x. registers_apart x \<longrightarrow> calm x (snd (tick E c x)) \<and> plx_read_spad (snd (tick E c x)) 3 = plx_read_spad x 3) \<and>
     (\<forall>t c x. registers_apart x \<longrightarrow> calm x (snd (snd (card_irq E t c x))) \<and> plx_read_spad (snd (snd (card_irq E t c x))) 3 = plx_read_spad x 3)"

text \<open>What the protocol's own steps leave of the driver's data.\<close>

definition follows :: "'c lbp \<Rightarrow> 'c lbp \<Rightarrow> bool" where
  "follows s s' \<longleftrightarrow> (\<exists>c x. s' = s\<lparr>firmware := c, xdev := x\<rparr> \<and> calm (xdev s) x)"

lemma follows_refl: "follows s s"
  unfolding follows_def by (intro exI [of _ "firmware s"] exI [of _ "xdev s"]) (simp add: calm_refl)

lemma follows_trans: "follows s s' \<Longrightarrow> follows s' s'' \<Longrightarrow> follows s s''"
  unfolding follows_def using calm_trans by fastforce

lemma follows_sel:
  assumes "follows s s'"
  shows "calm (xdev s) (xdev s')" "ram s' = ram s" "dma_ch s' = dma_ch s" "i7_cmd_timeout_ms s' = i7_cmd_timeout_ms s"
    "devfn s' = devfn s" "csm_index s' = csm_index s" "port_id (xdev s') = port_id (xdev s)"
  using assms calm_sel by (auto simp: follows_def)

lemma follows_spad:
  assumes "registers_apart (xdev s)" "idx < 8"
  shows "follows s (write_spad idx v s)"
proof -
  have "calm (xdev s) (plx_write_spad idx v (xdev s))"
    using assms unfolding plx_write_spad_def registers_apart_def by (intro calm_write) simp
  then show ?thesis unfolding follows_def write_spad_def
    by (intro exI [of _ "firmware s"] exI [of _ "plx_write_spad idx v (xdev s)"]) simp
qed

lemma follows_apart: "follows s s' \<Longrightarrow> registers_apart (xdev s) \<Longrightarrow> registers_apart (xdev s')"
  by (rule calm_apart [OF follows_sel(1)])

lemma follows_sleep: "firmware_tame E \<Longrightarrow> registers_apart (xdev s) \<Longrightarrow> follows s (msleep_1 E s)"
  unfolding follows_def msleep_1_def Let_def firmware_tame_def by (auto split: prod.splits) (metis snd_conv)

lemma spad_eq:
  assumes "i < 8" "j < 8"
  shows "b + PLX_SPAD0 + i * 4 = b + PLX_SPAD0 + j * 4 \<longleftrightarrow> (i :: u32) = j"
proof
  assume "b + PLX_SPAD0 + i * 4 = b + PLX_SPAD0 + j * 4"
  then have e: "unat (i * 4) = unat (j * 4)" by simp
  have "unat i < 8" "unat j < 8" using assms by (simp_all add: word_less_nat_alt)
  then have "unat (i * 4) = unat i * 4" "unat (j * 4) = unat j * 4" by (simp_all add: unat_mult_lem [THEN iffD1])
  with e have "unat i = unat j" by simp
  then show "i = j" by (simp only: word_unat_eq_iff)
qed simp

lemma read_write_spad:
  assumes "i < 8" "j < 8"
  shows "read_spad (write_spad i v s) j = (if i = j then v else read_spad s j)"
  using spad_eq [OF assms, of "reg_base (xdev s)"]
  by (auto simp: read_spad_def write_spad_def plx_read_spad_def plx_write_spad_def plx_mmio_read_def plx_mmio_write_def)

section \<open>Waiting\<close>

definition sleeps :: "'c lbp_env \<Rightarrow> nat \<Rightarrow> 'c lbp \<Rightarrow> 'c lbp" where
  "sleeps E n s = (msleep_1 E ^^ n) s"

lemma sleeps_Suc: "sleeps E (Suc n) s = sleeps E n (msleep_1 E s)"
  by (simp add: sleeps_def funpow_swap1)

lemma sleeps_0: "sleeps E 0 s = s" by (simp add: sleeps_def)

lemma sleeps_1: "sleeps E 1 s = msleep_1 E s" by (simp add: sleeps_def)

text \<open>The first time within the limit that the event is seen after a sleep, or no such time.\<close>

definition first_seen :: "'c lbp_env \<Rightarrow> ('c lbp \<Rightarrow> bool) \<Rightarrow> nat \<Rightarrow> 'c lbp \<Rightarrow> nat option" where
  "first_seen E event t s = find (\<lambda>n. event (sleeps E n s)) [1..<t + 1]"

lemma find_map: "find P (map f xs) = map_option f (find (\<lambda>x. P (f x)) xs)"
  by (induction xs) simp_all

lemma find_found: "find P xs = Some x \<Longrightarrow> x \<in> set xs \<and> P x"
  by (induction xs) (auto split: if_splits)

lemma wait_exact:
  "lbp_wait_event E event t s =
     (case first_seen E event t s of None \<Rightarrow> (False, sleeps E t s) | Some n \<Rightarrow> (True, sleeps E n s))"
proof (induction t arbitrary: s)
  case 0
  show ?case by (simp add: first_seen_def sleeps_def)
next
  case (Suc t)
  have "[1..<Suc t + 1] = 1 # map Suc [1..<t + 1]" by (simp add: upt_conv_Cons map_Suc_upt del: upt_Suc)
  then have f: "first_seen E event (Suc t) s = (if event (msleep_1 E s) then Some 1
      else map_option Suc (first_seen E event t (msleep_1 E s)))"
    by (simp only: first_seen_def find.simps find_map sleeps_Suc sleeps_1)
  then show ?case using Suc.IH [of "msleep_1 E s"]
    by (auto simp: Let_def sleeps_Suc sleeps_1 sleeps_0 split: option.splits)
qed

lemma first_seen_Some: "first_seen E event t s = Some n \<Longrightarrow> 0 < n \<and> n \<le> t \<and> event (sleeps E n s)"
  unfolding first_seen_def by (drule find_found) auto

lemma follows_sleeps: "firmware_tame E \<Longrightarrow> registers_apart (xdev s) \<Longrightarrow> follows s (sleeps E n s)"
proof (induction n arbitrary: s)
  case 0
  show ?case by (simp add: sleeps_def follows_refl)
next
  case (Suc n)
  then show ?case unfolding sleeps_Suc by (blast intro: follows_trans follows_sleep follows_apart)
qed

lemma wait_state_follows:
  assumes "firmware_tame E" "registers_apart (xdev s)" "plx_lbp_wait_for_i7_state E state t s = (r, s')"
  shows "follows s s'" "\<And>v. r = Some v \<Longrightarrow> v = i7_state s'" "\<And>v. r = Some v \<Longrightarrow> state \<noteq> 0 \<Longrightarrow> v AND state \<noteq> 0"
  using assms(3) follows_sleeps [OF assms(1,2)]
  by (auto simp: plx_lbp_wait_for_i7_state_def wait_exact split: option.splits if_splits dest!: first_seen_Some)

lemma wait_cmd_follows:
  assumes "firmware_tame E" "registers_apart (xdev s)" "plx_lbp_wait_for_i7_cmd_consumed E t s = (r, s')"
  shows "follows s s'"
  using assms(3) follows_sleeps [OF assms(1,2)]
  by (auto simp: plx_lbp_wait_for_i7_cmd_consumed_def wait_exact split: option.splits if_splits)

section \<open>Steps of the protocol\<close>

lemma follows_dev: "calm (xdev s) x \<Longrightarrow> follows s (s\<lparr>xdev := x\<rparr>)"
  unfolding follows_def by (intro exI [of _ "firmware s"] exI [of _ x]) simp

lemma follows_peer: "registers_apart (xdev s) \<Longrightarrow> follows s (peer_enable s)"
  by (simp add: peer_enable_def plx_a_lut_peer_enable_def follows_refl follows_dev calm_write registers_apart_def)

lemma follows_step:
  assumes "registers_apart (xdev s)" "follows s s'" "idx < 8"
  shows "follows s (write_spad idx v s')"
  by (rule follows_trans [OF assms(2) follows_spad [OF follows_apart [OF assms(2,1)] assms(3)]])

lemma request_follows:
  assumes t: "firmware_tame E" and a: "registers_apart (xdev s)" and r: "request_ramdisk E n s = (ready, s')"
  shows "follows s s'" "\<And>v. ready = Some v \<Longrightarrow> PLX_LBP_i7_DONE OR PLX_LBP_i7_ANY_ERROR \<noteq> 0 \<Longrightarrow>
    v AND (PLX_LBP_i7_DONE OR PLX_LBP_i7_ANY_ERROR) \<noteq> 0"
proof -
  let ?c = "write_spad PLX_LBP_SPAD_i7_CMD (plx_lbp_i7_cmd PLX_LBP_CMD_MAP_RAMDISK PLX_LBP_PARAM_BAR23)
    (write_spad PLX_LBP_SPAD_DATA_HIGH 0
      (write_spad PLX_LBP_SPAD_DATA_LOW (of_nat ((n + (1024 * 1024 - 1)) div (1024 * 1024))) s))"
  have h: "follows s ?c" by (intro follows_step a follows_refl) (simp_all add: lbp_spads)
  from r have w: "plx_lbp_wait_for_i7_state E (PLX_LBP_i7_DONE OR PLX_LBP_i7_ANY_ERROR) (i7_alloc_timeout_ms ?c) ?c = (ready, s')"
    by (simp only: request_ramdisk_def Let_def)
  note k = wait_state_follows [OF t follows_apart [OF h a] w]
  from h k(1) show "follows s s'" by (rule follows_trans)
  show "\<And>v. ready = Some v \<Longrightarrow> PLX_LBP_i7_DONE OR PLX_LBP_i7_ANY_ERROR \<noteq> 0 \<Longrightarrow>
    v AND (PLX_LBP_i7_DONE OR PLX_LBP_i7_ANY_ERROR) \<noteq> 0" by (rule k(3))
qed

lemma command_seen:
  assumes t: "firmware_tame E" and a: "registers_apart (xdev s)" and r: "command_and_wait E cmd state s = (ready, s')"
  shows "ram s' = ram s" "\<And>v. ready = Some v \<Longrightarrow> v = i7_state s'" "\<And>v. ready = Some v \<Longrightarrow> state \<noteq> 0 \<Longrightarrow> v AND state \<noteq> 0"
proof -
  let ?c = "write_spad PLX_LBP_SPAD_i7_CMD (plx_lbp_i7_cmd cmd 0) s"
  from r have w: "plx_lbp_wait_for_i7_state E state (i7_cmd_timeout_ms ?c) ?c = (ready, s')"
    by (simp only: command_and_wait_def Let_def)
  have "follows s ?c" by (intro follows_spad a) (simp_all add: lbp_spads)
  note g = wait_state_follows [OF t follows_apart [OF this a] w]
  show "ram s' = ram s" using follows_sel(2) [OF g(1)] by (simp add: write_spad_def)
  show "\<And>v. ready = Some v \<Longrightarrow> v = i7_state s'" "\<And>v. ready = Some v \<Longrightarrow> state \<noteq> 0 \<Longrightarrow> v AND state \<noteq> 0"
    by (rule g(2), assumption) (rule g(3))
qed

text \<open>The image is in the memory of the card at the address the firmware gave.\<close>

definition stored_image :: "'c lbp_env \<Rightarrow> u8 list \<Rightarrow> 'c lbp \<Rightarrow> 'c lbp \<Rightarrow> bool" where
  "stored_image E img s s' \<longleftrightarrow> (\<exists>ready s2. request_ramdisk E (length img) (peer_enable s) = (Some ready, s2) \<and>
     ready AND PLX_LBP_i7_DONE \<noteq> 0 \<and> ram s' = overlay (ramdisk_address s2) img (ram s)) \<and> registers_apart (xdev s')"

lemma bits_or_zero: "w AND (a OR b) \<noteq> 0 \<Longrightarrow> w AND b = 0 \<Longrightarrow> w AND a \<noteq> (0 :: u32)"
  by (metis bit.conj_disj_distrib or.right_neutral)

lemma send_result:
  assumes ready: "bridge_ready (xdev s)" and t: "firmware_tame E" and img: "user_image E img" "length img < 2 ^ 64"
    and dma: "dma_through_window E"
  shows "\<exists>err s'. plx_lbp_send_ramdisk E (length img) s = Some (Ret (err, s')) \<and>
    err \<in> {LBP_STATE_OK, LBP_ALLOC_TIMEOUT, LBP_INTERNAL_ERROR} \<and> (err = LBP_STATE_OK \<longrightarrow> stored_image E img s s')"
proof -
  let ?p = "peer_enable s"
  obtain r s2 where r: "request_ramdisk E (length img) ?p = (r, s2)" by fastforce
  have a: "registers_apart (xdev s)" using ready by (simp add: bridge_ready_def)
  have p: "follows s ?p" by (rule follows_peer [OF a])
  have f: "follows s s2" by (rule follows_trans [OF p request_follows(1) [OF t follows_apart [OF p a] r]])
  have a2: "registers_apart (xdev s2)" by (rule follows_apart [OF f a])
  have r2: "bridge_ready (xdev s2)" by (rule calm_ready [OF follows_sel(1) [OF f] ready])
  then have w: "window_ok (xdev s2)" "refs_ok (a_lut_manager (xdev s2))" by (simp_all add: bridge_ready_def)
  show ?thesis
  proof (cases "dma_ch s \<and> i7_state ?p = PLX_LBP_i7_READY \<and> temp_buffer E \<noteq> None \<and> card_verdict LBP_ALLOC_TIMEOUT r = LBP_STATE_OK")
    case False
    moreover have "card_verdict LBP_ALLOC_TIMEOUT r \<in> {LBP_STATE_OK, LBP_ALLOC_TIMEOUT, LBP_INTERNAL_ERROR}"
      by (auto simp: card_verdict_def split: option.splits)
    ultimately show ?thesis
      unfolding plx_lbp_send_ramdisk_def Let_def r by (auto simp: lbp_results split: option.splits)
  next
    case True
    then obtain n where n: "temp_buffer E = Some n" by auto
    have np: "0 < n" using n by (auto simp: temp_buffer_def HPAGE_SIZE_def split: if_splits)
    have m: "0 < min n (length img) \<or> (0 :: nat) = length img" "0 + min n (length img) \<le> length img" using np by auto
    have z: "ram s2 = overlay (ramdisk_address s2) (take 0 img) (ram s)" using follows_sel(2) [OF f] by (simp add: overlay_def)
    from chunks_delivered [OF w img(2) m img(1) dma z] obtain err s' where
      c: "send_chunks E (length img) (ramdisk_address s2) 0 (min n (length img)) s2 = Some (Ret (err, s'))"
      "err = 0 \<or> err = - LBP_INTERNAL_ERROR" "err = 0 \<longrightarrow> ram s' = overlay (ramdisk_address s2) img (ram s) \<and> registers_apart (xdev s')"
      using places_apart [OF _ a2] by blast
    from True obtain v where v: "r = Some v" "v AND PLX_LBP_i7_ANY_ERROR = 0"
      by (auto simp: card_verdict_def lbp_results split: option.splits if_splits)
    have ne: "PLX_LBP_i7_DONE OR PLX_LBP_i7_ANY_ERROR \<noteq> 0" by (simp add: lbp_states)
    from request_follows(2) [OF t follows_apart [OF p a] r v(1) ne] v(2) have d: "v AND PLX_LBP_i7_DONE \<noteq> 0" by (rule bits_or_zero)
    have "plx_lbp_send_ramdisk E (length img) s = Some (Ret (if err < 0 then - err else LBP_STATE_OK, s'))"
      using True n c(1) by (simp add: plx_lbp_send_ramdisk_def Let_def r)
    with c(2,3) r v(1) d show ?thesis by (auto simp: lbp_results stored_image_def)
  qed
qed

lemma status_kept:
  assumes "status_of_state st = Some r"
  shows "state_of_status (take_bit 24 r) = st"
proof -
  let ?all = "[VCA_BIOS_DOWN, VCA_BIOS_UP, VCA_BIOS_READY, VCA_OS_READY, VCA_NET_DEV_READY, VCA_BOOTING, VCA_FLASHING,
    VCA_RESETTING, VCA_BUSY, VCA_DONE, VCA_ERROR, VCA_NET_DEV_UP, VCA_NET_DEV_DOWN, VCA_NET_DEV_NO_IP, VCA_DRV_PROBE_DONE,
    VCA_DRV_PROBE_ERROR, VCA_DHCP_IN_PROGRESS, VCA_DHCP_DONE, VCA_DHCP_ERROR, VCA_NFS_MOUNT_DONE, VCA_NFS_MOUNT_ERROR,
    VCA_LINK_DOWN, VCA_BOOTING_BLOCKIO, VCA_OS_REBOOTING, VCA_AFTER_REBOOT, VCA_POWER_DOWN, VCA_SIZE]"
  have "list_all (\<lambda>st. case status_of_state st of None \<Rightarrow> True | Some r \<Rightarrow> state_of_status (take_bit 24 r) = st) ?all"
    by code_simp
  moreover have "st \<in> set ?all" by (cases st) simp_all
  ultimately show ?thesis using assms by (auto simp only: list_all_iff option.case)
qed

section \<open>The register of the host\<close>

text \<open>Steps after which the host still says what it said.\<close>

definition says_same :: "'c lbp \<Rightarrow> 'c lbp \<Rightarrow> bool" where
  "says_same s s' \<longleftrightarrow> follows s s' \<and> read_spad s' PLX_LBP_SPAD_E5_READY = read_spad s PLX_LBP_SPAD_E5_READY"

lemma says_refl: "says_same s s" by (simp add: says_same_def follows_refl)

lemma says_trans: "says_same s s' \<Longrightarrow> says_same s' s'' \<Longrightarrow> says_same s s''"
  by (auto simp: says_same_def intro: follows_trans)

lemma says_step:
  assumes "registers_apart (xdev s)" "says_same s s'" "idx < 8" "idx \<noteq> PLX_LBP_SPAD_E5_READY"
  shows "says_same s (write_spad idx v s')"
  using assms follows_step [OF assms(1) _ assms(3)] by (simp add: says_same_def read_write_spad lbp_spads)

lemma says_apart: "says_same s s' \<Longrightarrow> registers_apart (xdev s) \<Longrightarrow> registers_apart (xdev s')"
  unfolding says_same_def using follows_apart by blast

lemma says_sleep: "firmware_tame E \<Longrightarrow> registers_apart (xdev s) \<Longrightarrow> says_same s (msleep_1 E s)"
  using follows_sleep [of E s] unfolding says_same_def firmware_tame_def msleep_1_def read_spad_def Let_def lbp_spads
  by (auto split: prod.splits) (metis snd_conv)

lemma says_sleeps: "firmware_tame E \<Longrightarrow> registers_apart (xdev s) \<Longrightarrow> says_same s (sleeps E n s)"
proof (induction n arbitrary: s)
  case 0
  show ?case by (simp add: sleeps_def says_refl)
next
  case (Suc n)
  then show ?case unfolding sleeps_Suc by (blast intro: says_trans says_sleep says_apart)
qed

lemma says_wait:
  assumes t: "firmware_tame E" and a: "registers_apart (xdev s)"
  shows "plx_lbp_wait_for_i7_state E state t s = (r, s') \<Longrightarrow> says_same s s'"
    "plx_lbp_wait_for_i7_cmd_consumed E t s = (c, s') \<Longrightarrow> says_same s s'"
  using says_sleeps [OF t a]
  by (auto simp: plx_lbp_wait_for_i7_state_def plx_lbp_wait_for_i7_cmd_consumed_def wait_exact split: option.splits)

lemma says_up:
  assumes t: "firmware_tame E" and a: "registers_apart (xdev s)" and u: "plx_lbp_wait_for_i7_up E t s = (err, s')"
  shows "says_same s s'" "err = 0 \<Longrightarrow> i7_state s' AND NOT PLX_LBP_i7_AFTER_REBOOT = PLX_LBP_i7_UP" "err \<le> 0"
proof -
  obtain e c x where i: "card_irq E t (firmware s) (xdev s) = (e, c, x)" by (metis prod_cases3)
  from u i have s': "s' = s\<lparr>firmware := c, xdev := x\<rparr>" by (auto simp: plx_lbp_wait_for_i7_up_def Let_def split: if_splits)
  from t have "calm (xdev s) x" "plx_read_spad x 3 = plx_read_spad (xdev s) 3"
    using i a unfolding firmware_tame_def by (metis snd_conv)+
  then show "says_same s s'" by (auto simp: says_same_def follows_def s' read_spad_def lbp_spads)
  show "err = 0 \<Longrightarrow> i7_state s' AND NOT PLX_LBP_i7_AFTER_REBOOT = PLX_LBP_i7_UP" "err \<le> 0"
    using u i by (auto simp: plx_lbp_wait_for_i7_up_def Let_def ETIME_def ENODEV_def split: if_splits)
qed

lemma says_time:
  assumes t: "firmware_tame E" and a: "registers_apart (xdev s)" and r: "plx_lbp_set_time_no_mutex E s = (err, s')"
  shows "says_same s s'"
proof (cases "i7_state s = PLX_LBP_i7_READY")
  case True
  let ?s = "write_spad PLX_LBP_SPAD_i7_CMD (plx_lbp_i7_cmd PLX_LBP_CMD_SET_TIME (tz_minuteswest E))
    (write_spad PLX_LBP_SPAD_DATA_LOW (ucast (plx_lbp_time E))
      (write_spad PLX_LBP_SPAD_DATA_HIGH (ucast (drop_bit 32 (plx_lbp_time E))) s))"
  have w: "says_same s ?s" by (intro says_step says_refl a) (simp_all add: lbp_spads)
  obtain c s2 where c: "plx_lbp_wait_for_i7_cmd_consumed E (i7_cmd_timeout_ms ?s) ?s = (c, s2)" by fastforce
  from r True c have "s' = s2" by (simp add: plx_lbp_set_time_no_mutex_def Let_def)
  then show ?thesis using says_trans [OF w says_wait(2) [OF t says_apart [OF w a] c]] by simp
qed (use r in \<open>simp add: plx_lbp_set_time_no_mutex_def says_refl\<close>)

lemma says_copy:
  assumes t: "firmware_tame E" and a: "registers_apart (xdev s)" and r: "plx_lbp_copy_bios_info E p d s = (err, d', s')"
  shows "says_same s s'"
proof -
  let ?s = "write_spad PLX_LBP_SPAD_i7_CMD (plx_lbp_i7_cmd PLX_LBP_CMD_GET_PARAM p) s"
  have w: "says_same s ?s" by (intro says_step says_refl a) (simp_all add: lbp_spads)
  obtain c s2 where c: "plx_lbp_wait_for_i7_cmd_consumed E (i7_cmd_timeout_ms ?s) ?s = (c, s2)" by fastforce
  have s2: "says_same s s2" by (rule says_trans [OF w says_wait(2) [OF t says_apart [OF w a] c]])
  obtain e s3 where e: "plx_lbp_set_time_no_mutex E s2 = (e, s3)" by fastforce
  have s3: "says_same s s3" by (rule says_trans [OF s2 says_time [OF t says_apart [OF s2 a] e]])
  from r c e have "s' = s \<or> s' = s2 \<or> s' = s3"
    by (simp only: plx_lbp_copy_bios_info_def Let_def) (auto split: if_splits option.splits)
  then show ?thesis using s2 s3 says_refl by blast
qed

lemma save_says:
  assumes t: "firmware_tame E" and a: "registers_apart (xdev s)"
  shows "read_spad (save_bios_info E s) PLX_LBP_SPAD_E5_READY = read_spad s PLX_LBP_SPAD_E5_READY"
proof -
  obtain e d s1 where 1: "plx_lbp_copy_bios_info E PLX_LBP_PARAM_BIOS_BUILD_DATE (bios_information_date s) s = (e, d, s1)"
    by (metis prod_cases3)
  note k = says_copy [OF t a 1]
  let ?s2 = "s1\<lparr>bios_information_date := d\<rparr>"
  obtain e' v s3 where 3: "plx_lbp_copy_bios_info E PLX_LBP_PARAM_BIOS_VER (bios_information_version ?s2) ?s2 = (e', v, s3)"
    by (metis prod_cases3)
  have "registers_apart (xdev ?s2)" using says_apart [OF k a] by simp
  from says_copy [OF t this 3] k 1 3 show ?thesis
    by (auto simp: save_bios_info_def says_same_def Let_def read_spad_def)
qed

lemma e5_low: "take_bit 8 (plx_lbp_e5_ready r c p n) = take_bit 8 r"
  unfolding plx_lbp_e5_ready_def by (rule bit_word_eqI) (auto simp: bit_simps)

text \<open>The steps of a handshake that succeeds.\<close>

definition trace_ok :: "'c lbp_env \<Rightarrow> u32 \<Rightarrow> 'c lbp \<Rightarrow> 'c lbp \<Rightarrow> bool" where
  "trace_ok E idx s s7 \<longleftrightarrow> registers_apart (xdev s7) \<and> (\<exists>s2 s3.
     take_bit 8 (read_spad s2 PLX_LBP_SPAD_E5_READY) = PLX_LBP_E5_WAITING_FOR_IRQ \<and>
     plx_lbp_wait_for_i7_up E (i7_irq_timeout_ms s) s2 = (0, s3) \<and>
     i7_state s3 AND NOT PLX_LBP_i7_AFTER_REBOOT = PLX_LBP_i7_UP \<and>
     follows (s3\<lparr>i7_ddr_size_mb := read_spad s3 PLX_LBP_SPAD_DATA_LOW\<rparr>) s7) \<and> i7_state s7 AND PLX_LBP_i7_READY \<noteq> 0 \<and>
     read_spad s7 PLX_LBP_SPAD_E5_READY =
       plx_lbp_e5_ready PLX_LBP_E5_READY idx (ucast (PCI_SLOT (devfn s))) (port_id (xdev s))"

lemma handshake_trace:
  assumes t: "firmware_tame E" and a: "registers_apart (xdev s)"
  shows "\<exists>err s7. handshake_steps E idx s = (err, s7) \<and> (err \<ge> 0 \<or> err = - LBP_IRQ_TIMEOUT \<or> err = - LBP_CMD_TIMEOUT) \<and>
    (err \<ge> 0 \<longrightarrow> trace_ok E idx s s7)"
proof -
  let ?s1 = "write_spad PLX_LBP_SPAD_i7_CMD (plx_lbp_i7_cmd PLX_LBP_CMD_INVALID (junk E 1)) s"
  let ?s2 = "write_spad PLX_LBP_SPAD_E5_READY (plx_lbp_e5_ready PLX_LBP_E5_WAITING_FOR_IRQ idx (junk E 2) (junk E 3)) ?s1"
  have f2: "follows s ?s2" by (intro follows_step a follows_refl) (simp_all add: lbp_spads)
  obtain e s3 where u: "plx_lbp_wait_for_i7_up E (i7_irq_timeout_ms ?s2) ?s2 = (e, s3)" by fastforce
  note up = says_up [OF t follows_apart [OF f2 a] u]
  have f3: "follows s s3" using up(1) f2 by (auto simp: says_same_def intro: follows_trans)
  let ?s4 = "s3\<lparr>i7_ddr_size_mb := read_spad s3 PLX_LBP_SPAD_DATA_LOW\<rparr>"
  let ?w = "plx_lbp_e5_ready PLX_LBP_E5_READY idx (ucast (PCI_SLOT (devfn s))) (port_id (xdev s))"
  let ?s6 = "write_spad PLX_LBP_SPAD_E5_READY ?w (write_spad PLX_LBP_SPAD_DATA_HIGH 0 (write_spad PLX_LBP_SPAD_DATA_LOW idx ?s4))"
  have a4: "registers_apart (xdev ?s4)" using follows_apart [OF f3 a] by simp
  have f6: "follows ?s4 ?s6" by (intro follows_step a4 follows_refl) (simp_all add: lbp_spads)
  obtain r s7 where w: "plx_lbp_wait_for_i7_state E PLX_LBP_i7_READY (i7_irq_timeout_ms ?s6) ?s6 = (r, s7)" by fastforce
  note k = wait_state_follows [OF t follows_apart [OF f6 a4] w] and sy = says_wait(1) [OF t follows_apart [OF f6 a4] w]
  have irq: "i7_irq_timeout_ms ?s2 = i7_irq_timeout_ms s" by (simp add: write_spad_def)
  have steps: "handshake_steps E idx s = (if e \<noteq> 0 then (if e < 0 then - LBP_IRQ_TIMEOUT else e, s3)
      else case r of None \<Rightarrow> (- LBP_CMD_TIMEOUT, s7) | Some ready \<Rightarrow> (uint ready, s7))"
    using u w by (simp add: handshake_steps_def Let_def)
  show ?thesis
  proof (cases "e = 0 \<and> r \<noteq> None")
    case False
    with steps up(3) show ?thesis by (auto simp: lbp_results)
  next
    case True
    then obtain v where v: "r = Some v" and e: "e = 0" by auto
    have "PLX_LBP_i7_READY \<noteq> 0" by (simp add: lbp_states)
    with k(2,3) [OF v] have st: "i7_state s7 AND PLX_LBP_i7_READY \<noteq> 0" by simp
    have "read_spad s7 PLX_LBP_SPAD_E5_READY = ?w" using sy by (simp add: says_same_def read_write_spad lbp_spads)
    moreover have f7: "follows ?s4 s7" by (rule follows_trans [OF f6 k(1)])
    moreover have "registers_apart (xdev s7)" by (rule follows_apart [OF f7 a4])
    moreover have "take_bit 8 (read_spad ?s2 PLX_LBP_SPAD_E5_READY) = PLX_LBP_E5_WAITING_FOR_IRQ"
      by (simp add: read_write_spad e5_low lbp_spads lbp_cmds)
    ultimately have "trace_ok E idx s s7"
      unfolding trace_ok_def using u e up(2) st irq by (intro conjI exI [of _ ?s2] exI [of _ s3]) simp_all
    then show ?thesis using steps e v by simp
  qed
qed

section \<open>The word of the time\<close>

lemma take_small: "unat w < 2 ^ n \<Longrightarrow> take_bit n w = (w :: u64)"
  by (simp add: word_unat_eq_iff unsigned_take_bit_eq take_bit_nat_eq_self)

lemma field_below: "k + l \<le> m \<Longrightarrow> drop_bit m (push_bit k (take_bit l x)) = (0 :: u64)"
  by (rule bit_word_eqI) (auto simp: bit_simps)

lemma field_at: "m + n \<le> 64 \<Longrightarrow> take_bit n (drop_bit m (push_bit m (take_bit n x))) = take_bit n (x :: u64)"
  by (rule bit_word_eqI) (auto simp: bit_simps)

lemma field_above: "m + n \<le> k \<Longrightarrow> take_bit n (drop_bit m (push_bit k x)) = (0 :: u64)"
  by (rule bit_word_eqI) (auto simp: bit_simps)

lemma time_bits:
  fixes a b c d e f g h :: u64
  defines "w \<equiv> take_bit 13 a OR push_bit 13 (take_bit 5 b) OR push_bit 18 (take_bit 6 c) OR push_bit 24 (take_bit 6 d) OR
    push_bit 30 (take_bit 7 e) OR push_bit 37 (take_bit 7 f) OR push_bit 44 (take_bit 16 g) OR push_bit 60 h"
  shows "take_bit 13 w = take_bit 13 a" "take_bit 5 (drop_bit 13 w) = take_bit 5 b" "take_bit 6 (drop_bit 18 w) = take_bit 6 c"
    "take_bit 6 (drop_bit 24 w) = take_bit 6 d" "take_bit 7 (drop_bit 30 w) = take_bit 7 e" "take_bit 7 (drop_bit 37 w) = take_bit 7 f"
    "take_bit 16 (drop_bit 44 w) = take_bit 16 g"
  unfolding w_def by (simp_all add: take_bit_push_bit field_below field_at field_above drop_bit_take_bit)

section \<open>Set-up\<close>

lemma below_8: "idx < 8 \<Longrightarrow> idx \<in> {0, 1, 2, 3, 4, 5, 6, 7 :: u32}"
proof -
  assume "idx < 8"
  then have "unat idx < 8" by (simp add: word_less_nat_alt)
  then have "unat idx \<in> {0, 1, 2, 3, 4, 5, 6, 7}" by auto
  then have "of_nat (unat idx) \<in> {0, 1, 2, 3, 4, 5, 6, 7 :: u32}" by (elim insertE) simp_all
  then show ?thesis by simp
qed

lemma spads_high: "idx < 8 \<Longrightarrow> port = 0 \<or> port = 1 \<Longrightarrow> 0x3c000 \<le> plx_get_reg_base link port + PLX_SPAD0 + idx * 4"
  using below_8 [of idx] by (cases link) (auto simp: plx_get_reg_base_def PLX_SPAD0_def)

lemma alm_ready:
  assumes i: "plx_alm_init True g (ntbs_of dev) len = Ret (0, m)" and k: "unat len = 2 ^ k" "8 \<le> k" "k \<le> 62"
  shows "alm_wf m" "ranges_fit m" "\<And>l. \<not> leader (entries m) l" "unat (segments_num m) = nat (256 div ntbs_of dev)"
proof -
  have n: "0 < ntbs_of dev" "ntbs_of dev \<le> 256" by (auto simp: ntbs_of_def)
  from init_establishes [OF n, of g len] i have m: "alm_wf m" "unat (segments_num m) = nat (256 div ntbs_of dev)"
    "segment_size m = len div ucast (segments_num m)" "entries m = replicate (nat (256 div ntbs_of dev)) null_entry" by auto
  then show "alm_wf m" "unat (segments_num m) = nat (256 div ntbs_of dev)" by simp_all
  show "\<not> leader (entries m) l" for l by (simp add: m(4) leader_def)
  define j :: nat where "j = (if ntbs_of dev = 1 then 8 else 7)"
  have j: "unat (segments_num m) = 2 ^ j" "j \<le> 8" using m(2) by (auto simp: j_def ntbs_of_def)
  have "unat (segment_size m) = 2 ^ k div 2 ^ j" by (simp add: m(3) unat_div k(1) j(1))
  also have "\<dots> = 2 ^ (k - j)" using k(2) j(2) by (simp add: power_diff)
  finally have s: "unat (segment_size m) = 2 ^ (k - j)" .
  have "2 ^ (k - j) * (2 ^ j + 2) \<le> (2 :: nat) ^ (k - j) * (2 ^ j * 4)"
  proof (rule mult_le_mono2)
    have "(1 :: nat) \<le> 2 ^ j" by simp
    then show "2 ^ j + 2 \<le> (2 :: nat) ^ j * 4" by linarith
  qed
  also have "\<dots> = 2 ^ (k - j + j) * 4" by (simp add: power_add)
  also have "\<dots> = 2 ^ (k + 2)" using k(2) j(2) by (simp add: power_add)
  also have "\<dots> \<le> 2 ^ 64" using k(3) by (intro power_increasing) simp_all
  finally have "2 ^ (k - j) * (2 ^ j + 2) \<le> (2 :: nat) ^ 64" .
  moreover have "(2 :: nat) ^ j \<le> 2 ^ 8" using j(2) by (intro power_increasing) simp_all
  ultimately show "ranges_fit m" by (auto simp: ranges_fit_def s j(1))
qed

section \<open>Properties\<close>

text \<open>
  C8. Booting from an image in memory returns, with success or one of three errors, and no assertion of the
  drivers below fails. After success the memory of the card holds the image at the address the firmware
  gave, and is otherwise as it was, and the firmware was seen booting or with its system up, without an error.
\<close>
theorem boot_ramdisk_outcome:
  assumes "bridge_ready (xdev s)" and "firmware_tame E" and "user_image E img" and "length img < 2 ^ 64"
    and "dma_through_window E"
  shows "\<exists>err s'. plx_lbp_boot_ramdisk E (length img) s = Some (Ret (err, s')) \<and>
    err \<in> {LBP_STATE_OK, LBP_ALLOC_TIMEOUT, LBP_CMD_TIMEOUT, LBP_INTERNAL_ERROR} \<and>
    (err = LBP_STATE_OK \<longrightarrow>
       (\<exists>ready s2. request_ramdisk E (length img) (peer_enable s) = (Some ready, s2) \<and> ready AND PLX_LBP_i7_DONE \<noteq> 0 \<and>
          ram s' = overlay (ramdisk_address s2) img (ram s)) \<and>
       i7_state s' AND (PLX_LBP_i7_BOOTING OR PLX_LBP_i7_OS_READY) \<noteq> 0 \<and> i7_state s' AND PLX_LBP_i7_ANY_ERROR = 0)"
proof -
  from send_result [OF assms] obtain err s1 where send: "plx_lbp_send_ramdisk E (length img) s = Some (Ret (err, s1))"
    and e: "err \<in> {LBP_STATE_OK, LBP_ALLOC_TIMEOUT, LBP_INTERNAL_ERROR}" and st: "err = LBP_STATE_OK \<longrightarrow> stored_image E img s s1"
    by blast
  show ?thesis
  proof (cases "err = LBP_STATE_OK")
    case False
    with send e show ?thesis by (auto simp: plx_lbp_boot_ramdisk_def after_image_def)
  next
    case True
    let ?state = "PLX_LBP_i7_BOOTING OR PLX_LBP_i7_OS_READY OR PLX_LBP_i7_ANY_ERROR"
    obtain v s2 where c: "command_and_wait E PLX_LBP_CMD_BOOT_RAMDISK ?state s1 = (v, s2)" by fastforce
    have "registers_apart (xdev s1)" using st True by (simp add: stored_image_def)
    note k = command_seen [OF assms(2) this c]
    have res: "plx_lbp_boot_ramdisk E (length img) s = Some (Ret (card_verdict LBP_CMD_TIMEOUT v, s2))"
      using send True c by (simp add: plx_lbp_boot_ramdisk_def after_image_def)
    have mem: "\<exists>ready s3. request_ramdisk E (length img) (peer_enable s) = (Some ready, s3) \<and> ready AND PLX_LBP_i7_DONE \<noteq> 0 \<and>
        ram s2 = overlay (ramdisk_address s3) img (ram s)"
      using st True k(1) by (simp add: stored_image_def)
    have "card_verdict LBP_CMD_TIMEOUT v \<in> {LBP_STATE_OK, LBP_ALLOC_TIMEOUT, LBP_CMD_TIMEOUT, LBP_INTERNAL_ERROR}"
      by (auto simp: card_verdict_def split: option.splits)
    moreover have "i7_state s2 AND (PLX_LBP_i7_BOOTING OR PLX_LBP_i7_OS_READY) \<noteq> 0 \<and> i7_state s2 AND PLX_LBP_i7_ANY_ERROR = 0"
      if "card_verdict LBP_CMD_TIMEOUT v = LBP_STATE_OK"
    proof -
      from that obtain w where w: "v = Some w" "w AND PLX_LBP_i7_ANY_ERROR = 0"
        by (auto simp: card_verdict_def lbp_results split: option.splits if_splits)
      have "?state \<noteq> 0" by (simp add: lbp_states)
      from k(3) [OF w(1) this] have "w AND ((PLX_LBP_i7_BOOTING OR PLX_LBP_i7_OS_READY) OR PLX_LBP_i7_ANY_ERROR) \<noteq> 0"
        by (simp only: or.assoc not_False_eq_True)
      from bits_or_zero [OF this w(2)] w(2) show ?thesis unfolding k(2) [OF w(1), symmetric] by blast
    qed
    ultimately show ?thesis using res mem by blast
  qed
qed

text \<open>
  C39. Waiting for a state of the firmware looks after each millisecond and returns at the first one that shows it, with
  the state it saw; -ETIME after exactly the given number of milliseconds if none does. A timeout of 0 is
  an error without a look at the register.
\<close>
theorem wait_returns_first:
  "plx_lbp_wait_for_i7_state E state timeout s =
     (case find (\<lambda>n. if state = 0 then i7_state (sleeps E n s) = 0 else i7_state (sleeps E n s) AND state \<noteq> 0) [1..<unat timeout + 1] of
        None \<Rightarrow> (None, sleeps E (unat timeout) s)
      | Some n \<Rightarrow> (Some (i7_state (sleeps E n s)), sleeps E n s))"
  by (auto simp: plx_lbp_wait_for_i7_state_def wait_exact first_seen_def cong: if_cong split: option.splits)

text \<open>
  C12. On a production card that is not being reset, a state that is set is the state that is reported, for every state the driver lets be set, and the version
  of the protocol in the same register stays. States that are not a state of the firmware (resetting, link
  down) are refused, without a change.
\<close>
theorem set_state_roundtrip:
  assumes "card_type s AND VCA_PRODUCTION \<noteq> 0" and "\<not> lbp_resetting s"
  shows "(status_of_state st \<noteq> None \<longrightarrow> (\<exists>s'. plx_lbp_set_state st s = (LBP_STATE_OK, s') \<and> plx_lbp_get_state s' = st \<and>
      i7_version s' = i7_version s \<and> (\<forall>idx < 8. idx \<noteq> PLX_LBP_SPAD_i7_READY \<longrightarrow> read_spad s' idx = read_spad s idx))) \<and>
    (status_of_state st = None \<longrightarrow> plx_lbp_set_state st s = (LBP_BAD_PARAMETER_VALUE, s) \<and>
      st \<in> {VCA_RESETTING, VCA_LINK_DOWN, VCA_SIZE})"
proof (cases "status_of_state st")
  case None
  then show ?thesis using assms by (cases st) (simp_all add: plx_lbp_set_state_def)
next
  case (Some r)
  let ?v = "set_ready_field r (plx_lbp_get_i7_status s)"
  let ?s = "plx_lbp_set_i7_status ?v s"
  have rd: "plx_lbp_get_i7_status ?s = ?v"
    by (simp add: plx_lbp_get_i7_status_def plx_lbp_set_i7_status_def read_write_spad lbp_spads)
  have st: "i7_state ?s = take_bit 24 r"
    unfolding i7_state_def rd unfolding i7_ready_field_def set_ready_field_def by (rule bit_word_eqI) (auto simp: bit_simps)
  have ver: "i7_version ?s = i7_version s"
    unfolding i7_version_def rd unfolding i7_version_field_def set_ready_field_def
    by (rule bit_word_eqI) (auto simp: bit_simps dest: bit_imp_le_length)
  have "plx_lbp_get_state ?s = state_of_status (take_bit 24 r)"
    using assms by (simp add: plx_lbp_get_state_def st) (simp add: plx_lbp_set_i7_status_def write_spad_def)
  also have "\<dots> = st" by (rule status_kept [OF Some])
  finally have "plx_lbp_get_state ?s = st" .
  moreover have "read_spad ?s idx = read_spad s idx" if "idx < 8" "idx \<noteq> PLX_LBP_SPAD_i7_READY" for idx
    using that by (simp add: plx_lbp_set_i7_status_def read_write_spad lbp_spads)
  ultimately show ?thesis using Some assms ver by (simp add: plx_lbp_set_state_def)
qed

text \<open>
  C11. A handshake ends with success or one of three errors. On success the host said it waits for the
  interrupt, the firmware raised it while up, its memory size was read, the host said it is ready, with
  the number of the CPU and the place of the bridge, and the firmware was then seen ready; the host's register still
  says so at the end. After an error it says that the host is not ready.
\<close>
theorem handshake_outcome:
  assumes "firmware_tame E" and "registers_apart (xdev s)"
  shows "\<exists>err s'. plx_lbp_handshake E s = (err, s') \<and>
    err \<in> {LBP_STATE_OK, LBP_IRQ_TIMEOUT, LBP_CMD_TIMEOUT, LBP_INTERNAL_ERROR} \<and>
    (err = LBP_STATE_OK \<longrightarrow> (\<exists>idx s2 s3 s7. csm_index s = Some idx \<and>
       take_bit 8 (read_spad s2 PLX_LBP_SPAD_E5_READY) = PLX_LBP_E5_WAITING_FOR_IRQ \<and>
       plx_lbp_wait_for_i7_up E (i7_irq_timeout_ms s) s2 = (0, s3) \<and>
       i7_state s3 AND NOT PLX_LBP_i7_AFTER_REBOOT = PLX_LBP_i7_UP \<and>
       follows (s3\<lparr>i7_ddr_size_mb := read_spad s3 PLX_LBP_SPAD_DATA_LOW\<rparr>) s7 \<and> i7_state s7 AND PLX_LBP_i7_READY \<noteq> 0 \<and>
       s' = save_bios_info E s7 \<and>
       read_spad s' PLX_LBP_SPAD_E5_READY =
         plx_lbp_e5_ready PLX_LBP_E5_READY idx (ucast (PCI_SLOT (devfn s))) (port_id (xdev s)))) \<and>
    (err \<noteq> LBP_STATE_OK \<longrightarrow> take_bit 8 (read_spad s' PLX_LBP_SPAD_E5_READY) = PLX_LBP_E5_NOT_READY)"
proof -
  let ?s0 = "s\<lparr>bios_information_date := 0, bios_information_version := 0\<rparr>"
  let ?bad = "\<lambda>s1. write_spad PLX_LBP_SPAD_E5_READY
    (plx_lbp_e5_ready PLX_LBP_E5_NOT_READY (junk E 4) (ucast (PCI_SLOT (devfn s1))) (port_id (xdev s1))) s1"
  have bad: "take_bit 8 (read_spad (?bad s1) PLX_LBP_SPAD_E5_READY) = PLX_LBP_E5_NOT_READY" for s1
    by (simp add: read_write_spad e5_low lbp_spads lbp_cmds)
  have a0: "registers_apart (xdev ?s0)" using assms(2) by simp
  show ?thesis
  proof (cases "csm_index s")
    case None
    then show ?thesis using bad [of ?s0] by (simp add: plx_lbp_handshake_def Let_def lbp_results)
  next
    case (Some idx)
    from handshake_trace [OF assms(1) a0] obtain err s1 where
      h: "handshake_steps E idx ?s0 = (err, s1)" "err \<ge> 0 \<or> err = - LBP_IRQ_TIMEOUT \<or> err = - LBP_CMD_TIMEOUT"
      and tr: "err \<ge> 0 \<longrightarrow> trace_ok E idx ?s0 s1" by blast
    show ?thesis
    proof (cases "err \<ge> 0")
      case False
      then have "plx_lbp_handshake E s = (- err, ?bad s1)" using Some h(1) by (simp add: plx_lbp_handshake_def Let_def)
      with False h(2) bad [of s1] show ?thesis by (auto simp: lbp_results)
    next
      case True
      then have r: "plx_lbp_handshake E s = (LBP_STATE_OK, save_bios_info E s1)"
        using Some h(1) by (simp add: plx_lbp_handshake_def Let_def)
      from tr True have tr: "trace_ok E idx ?s0 s1" by blast
      have "read_spad (save_bios_info E s1) PLX_LBP_SPAD_E5_READY = read_spad s1 PLX_LBP_SPAD_E5_READY"
        using tr by (intro save_says [OF assms(1)]) (simp add: trace_ok_def)
      with tr r Some show ?thesis by (auto simp: trace_ok_def)
    qed
  qed
qed

text \<open>
  C40. A bridge that was set up satisfies what the drivers above rely on: the table and the registers agree, no
  reference counter is at its maximum, and the registers of the protocol lie apart from those of the window.
\<close>
theorem setup_ready:
  assumes "segments_num (a_lut_manager x) = 0" and "plx_hw_init (Inr val) True pdev x = Ret (0, x')"
    and "unat (mw_len (aper x)) = 2 ^ k" and "8 \<le> k" and "k \<le> 62"
  shows "bridge_ready x'"
proof -
  let ?n = "ntbs_of (device_id pdev)"
  from hw_init_result [OF assms(1,2)] obtain m where x': "a_lut x'" "aper x' = aper x"
    and b: "a_lut_array_base x' = array_base_of ?n (bit val 31) (val AND 1)" and n: "num_ntbs x' = ?n"
    and rb: "reg_base x' = plx_get_reg_base (bit val 31) (val AND 1)" "reg_base_peer x' = plx_get_reg_base (\<not> bit val 31) (val AND 1)"
    and m: "plx_alm_init True m ?n (mw_len (aper x')) = Ret (0, a_lut_manager x')" by auto
  have "unat (mw_len (aper x')) = 2 ^ k" by (simp add: x'(2) assms(3))
  note r = alm_ready [OF m this assms(4,5)]
  have port: "val AND 1 = 0 \<or> val AND 1 = 1" by (cases "bit val 0") (auto simp: one_and_eq and_one_eq odd_iff_mod_2_eq_one)
  have "window_ok x'" using x'(1) r(1-3) by (simp add: window_ok_def)
  moreover have "refs_ok (a_lut_manager x')" using r(3) by (simp add: refs_ok_def)
  moreover have "registers_apart x'"
    using array_base_low [of _ "device_id pdev"] spads_high [OF _ port] reg_base_high [OF port] by (simp add: registers_apart_def b rb r(4))
  ultimately show ?thesis by (simp add: bridge_ready_def)
qed

text \<open>
  The time the host sends can be read back field by field from the word in the data registers, as long as
  each field has the room the layout gives it: years to 8191, and milliseconds.
\<close>
theorem time_fields:
  assumes "tm_year (clock E) < 6292" and "tm_mon (clock E) < 12" and "tm_mday (clock E) < 32" and "tm_hour (clock E) < 24"
    and "tm_min (clock E) < 60" and "tm_sec (clock E) < 61" and "tv_usec (clock E) < 1000000"
  shows "take_bit 13 (plx_lbp_time E) = 1900 + tm_year (clock E) \<and>
    take_bit 5 (drop_bit 13 (plx_lbp_time E)) = 1 + tm_mon (clock E) \<and>
    take_bit 6 (drop_bit 18 (plx_lbp_time E)) = tm_mday (clock E) \<and>
    take_bit 6 (drop_bit 24 (plx_lbp_time E)) = tm_hour (clock E) \<and>
    take_bit 7 (drop_bit 30 (plx_lbp_time E)) = tm_min (clock E) \<and>
    take_bit 7 (drop_bit 37 (plx_lbp_time E)) = tm_sec (clock E) \<and>
    take_bit 16 (drop_bit 44 (plx_lbp_time E)) = tv_usec (clock E) div 1000"
proof -
  let ?t = "clock E"
  have small: "unat (1900 + tm_year ?t) < 2 ^ 13" "unat (1 + tm_mon ?t) < 2 ^ 5" "unat (tm_mday ?t) < 2 ^ 6" "unat (tm_hour ?t) < 2 ^ 6"
    "unat (tm_min ?t) < 2 ^ 7" "unat (tm_sec ?t) < 2 ^ 7" "unat (tv_usec ?t div 1000) < 2 ^ 16"
    using assms by (simp_all add: word_less_nat_alt unat_add_lem [THEN iffD1] unat_div)
  note f = time_bits [of "1900 + tm_year ?t" "1 + tm_mon ?t" "tm_mday ?t" "tm_hour ?t" "tm_min ?t" "tm_sec ?t"
      "tv_usec ?t div 1000" "take_bit 4 (ucast (junk E 0))"]
  show ?thesis
    using f small [THEN take_small] by (simp only: plx_lbp_time_def Let_def)
qed

section \<open>A card\<close>

text \<open>A firmware with the simplest answers, a copy engine, and a bridge, to evaluate the protocol.\<close>

definition demo_tick :: "nat \<Rightarrow> plx_device \<Rightarrow> nat \<times> plx_device" where
  "demo_tick c x =
     (let cmd = take_bit 16 (plx_read_spad x 4)
      in if cmd = PLX_LBP_CMD_MAP_RAMDISK then
           (Suc c, plx_write_spad 2 0x11000020 (plx_write_spad 4 0 (plx_write_spad 6 1 (plx_write_spad 5 0x20000000 x))))
         else if cmd = PLX_LBP_CMD_BOOT_RAMDISK then (Suc c, plx_write_spad 2 0x11000008 (plx_write_spad 4 0 x))
         else if cmd \<noteq> 0 then (Suc c, plx_write_spad 4 0 x)
         else if take_bit 8 (plx_read_spad x 3) = PLX_LBP_E5_READY \<and> plx_read_spad x 2 = 0x11000001
         then (Suc c, plx_write_spad 2 0x11000002 x)
         else (Suc c, x))"

definition demo_env :: "nat lbp_env" where
  "demo_env = \<lparr>tick = demo_tick, card_irq = (\<lambda>t c x. (1, c, plx_write_spad 2 0x11000001 x)), alloc_ok = (\<lambda>n. True),
     from_user = (\<lambda>off n. Some (take n (drop off [7, 8, 9]))),
     dma_sync = (\<lambda>dst bytes x r. (0, store_window x (dst - mw_pa (aper x)) bytes r)), junk = (\<lambda>_. 0),
     clock = \<lparr>tm_year = 118, tm_mon = 6, tm_mday = 21, tm_hour = 13, tm_min = 37, tm_sec = 59, tv_usec = 250000\<rparr>,
     tz_minuteswest = 0\<rparr>"

definition demo_lbp :: "nat lbp" where
  "demo_lbp = \<lparr>xdev = small_window\<lparr>mmio := (\<lambda>r. if r = 0x3EC74 then 0x11000002 else 0)\<rparr>, firmware = 0, ram = (\<lambda>_. 0), dma_ch = True,
     csm_index = Some 1, devfn = 0x10, card_type = 8, lbp_resetting = False, bios_information_date = 0,
     bios_information_version = 0, i7_ddr_size_mb = 0, i7_irq_timeout_ms = 1000, i7_alloc_timeout_ms = 1000,
     i7_cmd_timeout_ms = 100, i7_mac_write_timeout_ms = 1000, blockio_dp = 0, blockio_ftb_db = 5\<rparr>"

declare send_chunks.simps [code]

lemma demo_sleep:
  "take_bit 16 (read_spad s 4) = 2 \<Longrightarrow> msleep_1 demo_env s =
     write_spad 2 0x11000020 (write_spad 4 0 (write_spad 6 1 (write_spad 5 0x20000000 (s\<lparr>firmware := Suc (firmware s)\<rparr>))))"
  "take_bit 16 (read_spad s 4) = 4 \<Longrightarrow> msleep_1 demo_env s =
     write_spad 2 0x11000008 (write_spad 4 0 (s\<lparr>firmware := Suc (firmware s)\<rparr>))"
  "take_bit 16 (read_spad s 4) = 0 \<Longrightarrow> take_bit 8 (read_spad s 3) = 2 \<Longrightarrow> read_spad s 2 = 0x11000001 \<Longrightarrow>
     msleep_1 demo_env s = write_spad 2 0x11000002 (s\<lparr>firmware := Suc (firmware s)\<rparr>)"
  by (simp_all add: msleep_1_def demo_env_def demo_tick_def read_spad_def write_spad_def lbp_cmds Let_def)

lemma wait_now:
  assumes "0 < t" "event (msleep_1 E s)"
  shows "lbp_wait_event E event t s = (True, msleep_1 E s)"
  using assms by (cases t) (simp_all add: Let_def)

lemma demo_reads:
  "read_spad (s\<lparr>firmware := c\<rparr>) i = read_spad s i" "read_spad (s\<lparr>i7_ddr_size_mb := v\<rparr>) i = read_spad s i"
  "i7_irq_timeout_ms (write_spad i v s) = i7_irq_timeout_ms s" "i7_cmd_timeout_ms (write_spad i v s) = i7_cmd_timeout_ms s"
  "i7_alloc_timeout_ms (write_spad i v s) = i7_alloc_timeout_ms s"
  by (simp_all add: read_spad_def write_spad_def)

lemmas demo_simps = demo_sleep wait_now demo_reads read_write_spad plx_lbp_wait_for_i7_state_def i7_state_def
  plx_lbp_get_i7_status_def i7_ready_field_def lbp_spads lbp_states lbp_cmds lbp_params

lemma demo_map:
  assumes "0 < unat (i7_alloc_timeout_ms s)"
  shows "\<exists>s2. request_ramdisk demo_env n s = (Some 0x20, s2) \<and> ramdisk_address s2 = 0x120000000"
  using assms by (simp add: request_ramdisk_def Let_def demo_simps plx_lbp_i7_cmd_def ramdisk_address_def)

lemma demo_boot:
  assumes "0 < unat (i7_cmd_timeout_ms s)"
  shows "fst (command_and_wait demo_env PLX_LBP_CMD_BOOT_RAMDISK (PLX_LBP_i7_BOOTING OR PLX_LBP_i7_OS_READY OR PLX_LBP_i7_ANY_ERROR) s) = Some 8"
  using assms by (simp add: command_and_wait_def Let_def demo_simps plx_lbp_i7_cmd_def)

lemma calm_spad: "registers_apart x \<Longrightarrow> idx < 8 \<Longrightarrow> calm x (plx_write_spad idx v x)"
  unfolding plx_write_spad_def registers_apart_def by (intro calm_write) simp

lemma spad_other: "idx < 8 \<Longrightarrow> idx \<noteq> 3 \<Longrightarrow> plx_read_spad (plx_write_spad idx v x) 3 = plx_read_spad x 3"
  using spad_eq [of 3 idx "reg_base x"] by (simp add: plx_read_spad_def plx_write_spad_def plx_mmio_read_def plx_mmio_write_def)

definition keeps_host :: "plx_device \<Rightarrow> plx_device \<Rightarrow> bool" where
  "keeps_host x y \<longleftrightarrow> calm x y \<and> plx_read_spad y 3 = plx_read_spad x 3"

lemma keeps_host_refl: "keeps_host x x" by (simp add: keeps_host_def calm_refl)

lemma keeps_host_spad:
  assumes "registers_apart x" "keeps_host x y" "idx < 8" "idx \<noteq> 3"
  shows "keeps_host x (plx_write_spad idx v y)"
  using assms calm_trans [OF _ calm_spad] calm_apart spad_other [OF assms(3,4), of v y] by (auto simp: keeps_host_def)

lemma demo_tame: "firmware_tame demo_env"
proof -
  have "keeps_host x (snd (demo_tick c x))" if a: "registers_apart x" for c x
    using a by (auto simp: demo_tick_def Let_def intro!: keeps_host_spad keeps_host_refl)
  moreover have "keeps_host x (plx_write_spad 2 0x11000001 x)" if "registers_apart x" for x
    using that by (intro keeps_host_spad keeps_host_refl) simp_all
  ultimately show ?thesis by (simp add: firmware_tame_def demo_env_def keeps_host_def)
qed

lemma demo_ready: "bridge_ready (xdev demo_lbp)"
proof -
  have ok: "window_ok (xdev demo_lbp)" "refs_ok (a_lut_manager (xdev demo_lbp))" using small_window_ok
    by (simp_all add: demo_lbp_def window_ok_def shows_group_def refs_ok_def leader_def small_window_def cong: conj_cong)
  have "registers_apart (xdev demo_lbp)"
    using array_base_low [of _ "0x2954" _ False 0] spads_high [of _ 0 False] reg_base_high [of 0 True]
    by (simp add: registers_apart_def demo_lbp_def small_window_def plx_get_reg_base_def array_base_of_def ntbs_of_def)
  with ok show ?thesis by (simp add: bridge_ready_def)
qed

lemma demo_up: "plx_lbp_wait_for_i7_up demo_env t s = (0, write_spad 2 0x11000001 s)"
proof -
  have "i7_state (write_spad 2 0x11000001 s) = 1" by (simp add: demo_simps)
  moreover have "card_irq demo_env t c x = (1, c, plx_write_spad 2 0x11000001 x)" for c x by (simp add: demo_env_def)
  ultimately show ?thesis by (simp add: plx_lbp_wait_for_i7_up_def lbp_states write_spad_def)
qed

lemma cmd_low: "take_bit 16 (plx_lbp_i7_cmd c p) = take_bit 16 c"
  unfolding plx_lbp_i7_cmd_def by (rule bit_word_eqI) (auto simp: bit_simps)

lemma demo_hands:
  assumes "0 < unat (i7_irq_timeout_ms s)"
  shows "0 \<le> fst (handshake_steps demo_env idx s)"
  using assms by (simp add: handshake_steps_def demo_up Let_def demo_simps cmd_low e5_low)

lemma demo_copied:
  "(case send_chunks demo_env 3 0x120000000 0 3 (demo_lbp\<lparr>firmware := c, xdev := (xdev demo_lbp)\<lparr>mmio := f\<rparr>\<rparr>) of
     Some (Ret (err, s)) \<Rightarrow> err = 0 \<and> i7_cmd_timeout_ms s = 100 | _ \<Rightarrow> False)"
  by code_simp

lemma demo_booted:
  "\<exists>s'. plx_lbp_boot_ramdisk demo_env 3 demo_lbp = Some (Ret (LBP_STATE_OK, s'))"
proof -
  let ?s = "peer_enable demo_lbp"
  have ap: "registers_apart (xdev demo_lbp)" using demo_ready by (simp add: bridge_ready_def)
  note peer = follows_peer [OF ap]
  have "read_spad ?s 2 = 0x11000002" by code_simp
  then have rd: "dma_ch demo_lbp" "i7_state ?s = PLX_LBP_i7_READY"
    by (simp_all add: demo_simps) (simp add: demo_lbp_def)
  have t: "temp_buffer demo_env = Some HPAGE_SIZE" "min HPAGE_SIZE 3 = 3"
    by (simp_all add: temp_buffer_def demo_env_def HPAGE_SIZE_def)
  have "0 < unat (i7_alloc_timeout_ms ?s)" by (simp add: peer_enable_def demo_lbp_def)
  from demo_map [OF this] obtain s2 where m: "request_ramdisk demo_env 3 ?s = (Some 0x20, s2)" "ramdisk_address s2 = 0x120000000"
    by blast
  have f: "follows demo_lbp s2"
    by (rule follows_trans [OF peer request_follows(1) [OF demo_tame follows_apart [OF peer ap] m(1)]])
  then obtain c g where s2: "s2 = demo_lbp\<lparr>firmware := c, xdev := (xdev demo_lbp)\<lparr>mmio := g\<rparr>\<rparr>"
    by (auto simp: follows_def calm_def)
  from demo_copied [where c = c and f = g] obtain s3 where
    s3: "send_chunks demo_env 3 0x120000000 0 3 s2 = Some (Ret (0, s3))" "i7_cmd_timeout_ms s3 = 100"
    by (auto simp: s2 split: option.splits outcome.splits prod.splits)
  have v: "card_verdict LBP_ALLOC_TIMEOUT (Some 0x20) = LBP_STATE_OK" by code_simp
  have sent: "plx_lbp_send_ramdisk demo_env 3 demo_lbp = Some (Ret (LBP_STATE_OK, s3))"
    using rd m(2) s3(1) by (simp add: plx_lbp_send_ramdisk_def t m(1) v del: One_nat_def)
  from s3(2) have "fst (command_and_wait demo_env PLX_LBP_CMD_BOOT_RAMDISK (PLX_LBP_i7_BOOTING OR PLX_LBP_i7_OS_READY OR PLX_LBP_i7_ANY_ERROR) s3) = Some 8"
    by (intro demo_boot) simp
  then show ?thesis using sent
    by (auto simp: plx_lbp_boot_ramdisk_def after_image_def card_verdict_def lbp_states lbp_results split: prod.splits)
qed

theorem boot_ramdisk_outcome_witness:
  "\<exists>s'. plx_lbp_boot_ramdisk demo_env 3 demo_lbp = Some (Ret (LBP_STATE_OK, s')) \<and>
     ram s' 0x120000001 = 8 \<and> i7_state s' AND (PLX_LBP_i7_BOOTING OR PLX_LBP_i7_OS_READY) \<noteq> 0"
proof -
  have img: "user_image demo_env [7, 8, 9]" by (simp add: user_image_def demo_env_def)
  have dma: "dma_through_window demo_env" by (simp add: dma_through_window_def demo_env_def)
  have n: "length [7, 8, 9 :: u8] = 3" "length [7, 8, 9 :: u8] < 2 ^ 64" by simp_all
  from demo_booted obtain s' where b: "plx_lbp_boot_ramdisk demo_env 3 demo_lbp = Some (Ret (LBP_STATE_OK, s'))" by blast
  with boot_ramdisk_outcome [OF demo_ready demo_tame img n(2) dma, unfolded n(1)] obtain ready s2 where
    r: "request_ramdisk demo_env 3 (peer_enable demo_lbp) = (Some ready, s2)"
      "ram s' = overlay (ramdisk_address s2) [7, 8, 9] (ram demo_lbp)"
      "i7_state s' AND (PLX_LBP_i7_BOOTING OR PLX_LBP_i7_OS_READY) \<noteq> 0" by auto
  have "0 < unat (i7_alloc_timeout_ms (peer_enable demo_lbp))" by (simp add: peer_enable_def demo_lbp_def)
  from demo_map [OF this, of 3] r(1) have "ramdisk_address s2 = 0x120000000" by simp
  with b r(2,3) show ?thesis by (simp add: overlay_def)
qed

theorem handshake_outcome_witness:
  "\<exists>s'. plx_lbp_handshake demo_env demo_lbp = (LBP_STATE_OK, s') \<and>
     read_spad s' PLX_LBP_SPAD_E5_READY = plx_lbp_e5_ready PLX_LBP_E5_READY 1 2 0"
proof -
  have a: "registers_apart (xdev demo_lbp)" using demo_ready by (simp add: bridge_ready_def)
  from handshake_outcome [OF demo_tame a] obtain err s' where h: "plx_lbp_handshake demo_env demo_lbp = (err, s')"
    and ok: "err = LBP_STATE_OK \<longrightarrow> (\<exists>idx. csm_index demo_lbp = Some idx \<and> read_spad s' PLX_LBP_SPAD_E5_READY =
         plx_lbp_e5_ready PLX_LBP_E5_READY idx (ucast (PCI_SLOT (devfn demo_lbp))) (port_id (xdev demo_lbp)))" by blast
  have c: "csm_index demo_lbp = Some 1" "ucast (PCI_SLOT (devfn demo_lbp)) = (2 :: u32)" "port_id (xdev demo_lbp) = 0"
    by code_simp+
  have "fst (handshake_steps demo_env 1 (demo_lbp\<lparr>bios_information_date := 0, bios_information_version := 0\<rparr>)) \<ge> 0"
    by (rule demo_hands) (simp add: demo_lbp_def)
  with h c(1) have "err = LBP_STATE_OK" by (auto simp: plx_lbp_handshake_def Let_def split: prod.splits)
  with h c ok show ?thesis by auto
qed

theorem set_state_roundtrip_witness:
  "\<exists>s'. plx_lbp_set_state VCA_DHCP_ERROR demo_lbp = (LBP_STATE_OK, s') \<and> plx_lbp_get_state s' = VCA_DHCP_ERROR \<and>
     i7_version s' = 0x11"
proof -
  have "card_type demo_lbp AND VCA_PRODUCTION \<noteq> 0" "\<not> lbp_resetting demo_lbp" by code_simp+
  from set_state_roundtrip [OF this, of VCA_DHCP_ERROR] obtain s' where
    "plx_lbp_set_state VCA_DHCP_ERROR demo_lbp = (LBP_STATE_OK, s')" "plx_lbp_get_state s' = VCA_DHCP_ERROR"
    "i7_version s' = i7_version demo_lbp" by auto
  moreover have "i7_version demo_lbp = 0x11" by code_simp
  ultimately show ?thesis by auto
qed

theorem setup_ready_witness:
  "\<exists>x'. plx_hw_init (Inr 0) True bridge_pci fresh_bridge = Ret (0, x') \<and> bridge_ready x'"
proof -
  have "(case plx_hw_init (Inr 0) True bridge_pci fresh_bridge of Ret (rc, x') \<Rightarrow> rc = 0 | Abort \<Rightarrow> False)" by code_simp
  then obtain x' where x': "plx_hw_init (Inr 0) True bridge_pci fresh_bridge = Ret (0, x')"
    by (auto split: outcome.splits prod.splits)
  have "segments_num (a_lut_manager fresh_bridge) = 0" by (simp add: fresh_bridge_def)
  moreover have "unat (mw_len (aper fresh_bridge)) = 2 ^ 14" by (simp add: fresh_bridge_def small_window_def)
  ultimately have "bridge_ready x'" using x' by (intro setup_ready [where k = 14]) simp_all
  with x' show ?thesis by blast
qed

theorem time_fields_witness:
  "take_bit 13 (plx_lbp_time demo_env) = 2018 \<and> take_bit 5 (drop_bit 13 (plx_lbp_time demo_env)) = 7 \<and>
     take_bit 16 (drop_bit 44 (plx_lbp_time demo_env)) = 250"
  using time_fields [of demo_env] by (simp add: demo_env_def)

end
