(* ===== verification/Ring_Counter.thy ===== *)
theory Ring_Counter
  imports Vca_Prelude
begin

text \<open>
  The contract of the counters that drive the descriptor rings of the drivers. A counter runs
  through a period that is at least the size of its ring; its position in the ring and the distance
  between the reader's and the writer's counter follow from it. The rings differ in the period:
  twice the size for the kvec rings, all sixteen bits for virtio, the size itself for the DMA ring.
  What follows for the cells between two counters is proved here once.
\<close>

locale ring_counter =
  fixes add :: "nat \<Rightarrow> 'c \<Rightarrow> nat \<Rightarrow> 'c"
    and pos :: "nat \<Rightarrow> 'c \<Rightarrow> nat"
    and used :: "nat \<Rightarrow> 'c \<Rightarrow> 'c \<Rightarrow> nat"
    and ok :: "nat \<Rightarrow> 'c \<Rightarrow> bool"
    and size_ok :: "nat \<Rightarrow> bool"
    and period :: "nat \<Rightarrow> nat"
  assumes size_pos: "size_ok N \<Longrightarrow> 0 < N"
    and add_ok: "size_ok N \<Longrightarrow> ok N c \<Longrightarrow> ok N (add N c n)"
    and pos_add: "size_ok N \<Longrightarrow> ok N c \<Longrightarrow> pos N (add N c n) = (pos N c + n) mod N"
    and pos_less: "size_ok N \<Longrightarrow> ok N c \<Longrightarrow> pos N c < N"
    and used_less: "size_ok N \<Longrightarrow> ok N l \<Longrightarrow> ok N c \<Longrightarrow> used N l c < period N"
    and used_reach: "size_ok N \<Longrightarrow> ok N l \<Longrightarrow> ok N c \<Longrightarrow> add N l (used N l c) = c"
    and used_put: "size_ok N \<Longrightarrow> ok N l \<Longrightarrow> ok N c \<Longrightarrow> used N l c + n < period N \<Longrightarrow>
      used N l (add N c n) = used N l c + n"
    and used_get: "size_ok N \<Longrightarrow> ok N l \<Longrightarrow> ok N c \<Longrightarrow> n \<le> used N l c \<Longrightarrow>
      used N (add N l n) c = used N l c - n"
    and used_self: "size_ok N \<Longrightarrow> ok N c \<Longrightarrow> used N c c = 0"
begin

text \<open>The cells from the reader's counter up to the writer's, in a ring that starts at \<open>b\<close>.\<close>

definition window :: "'a mem \<Rightarrow> nat \<Rightarrow> nat \<Rightarrow> 'c \<Rightarrow> 'c \<Rightarrow> 'a list" where
  "window m b N l c = circ m b N (pos N l) (used N l c)"

lemma length_window [simp]: "length (window m b N l c) = used N l c"
  by (simp add: window_def)

lemma add_0: "size_ok N \<Longrightarrow> ok N c \<Longrightarrow> add N c 0 = c"
  using used_reach [of N c c] used_self [of N c] by simp

lemma used_zero_iff: "size_ok N \<Longrightarrow> ok N l \<Longrightarrow> ok N c \<Longrightarrow> used N l c = 0 \<longleftrightarrow> l = c"
  using used_reach [of N l c] used_self [of N c] add_0 [of N l] by auto

lemma pos_writer:
  "size_ok N \<Longrightarrow> ok N l \<Longrightarrow> ok N c \<Longrightarrow> pos N c = (pos N l + used N l c) mod N"
  using pos_add [of N l "used N l c"] used_reach [of N l c] by simp

lemma window_empty: "size_ok N \<Longrightarrow> ok N c \<Longrightarrow> window m b N c c = []"
  by (simp add: window_def used_self)

lemma window_Cons:
  assumes "size_ok N" "ok N l" "ok N c" "l \<noteq> c"
  shows "window m b N l c = m (b + pos N l) # window m b N (add N l 1) c"
proof -
  have u: "0 < used N l c" using used_zero_iff [OF assms(1-3)] assms(4) by simp
  then obtain k where k: "used N l c = Suc k" by (cases "used N l c") auto
  have "used N (add N l 1) c = k" using used_get [OF assms(1-3), of 1] k by simp
  moreover have "circ m b N (Suc (pos N l)) k = circ m b N (pos N (add N l 1)) k"
    by (rule circ_mod_cong) (simp add: pos_add assms(1,2))
  ultimately show ?thesis
    using pos_less [OF assms(1,2)] by (simp add: window_def k circ_Suc)
qed

lemma window_nth:
  "i < used N l c \<Longrightarrow> window m b N l c ! i = m (b + (pos N l + i) mod N)"
  by (simp add: window_def)

lemma window_put:
  assumes "size_ok N" "ok N l" "ok N c" "used N l c < N" "Suc (used N l c) < period N"
  shows "window (m(b + pos N c := x)) b N l (add N c 1) = window m b N l c @ [x]"
proof -
  have "used N l (add N c 1) = Suc (used N l c)"
    using used_put [OF assms(1-3), of 1] assms(5) by simp
  then show ?thesis
    unfolding window_def using circ_write_last [OF assms(4), of m b "pos N l" x]
    by (simp only: pos_writer [OF assms(1-3)])
qed

lemma window_get:
  assumes "size_ok N" "ok N l" "ok N c" "n \<le> used N l c"
  shows "window m b N (add N l n) c = drop n (window m b N l c)"
proof -
  have "circ m b N (pos N (add N l n)) k = circ m b N (pos N l + n) k" for k
    by (rule circ_mod_cong) (simp add: pos_add assms(1,2))
  then show ?thesis
    using used_get [OF assms] circ_drop [OF assms(4), of m b N "pos N l"] by (simp add: window_def)
qed

text \<open>The writer's two-cell put, the descriptor pair of a packet.\<close>

lemma window_put2:
  assumes "size_ok N" "ok N l" "ok N c" "Suc (used N l c) < N" "used N l c + 2 < period N"
  shows "window (m(b + pos N c := x, b + pos N (add N c 1) := y)) b N l (add N (add N c 1) 1) =
    window m b N l c @ [x, y]"
proof -
  have u: "used N l (add N c 1) = Suc (used N l c)"
    using used_put [OF assms(1-3), of 1] assms(5) by simp
  have "window (m(b + pos N c := x)) b N l (add N c 1) = window m b N l c @ [x]"
    using assms by (intro window_put) auto
  moreover have "window ((m(b + pos N c := x))(b + pos N (add N c 1) := y)) b N l (add N (add N c 1) 1) =
      window (m(b + pos N c := x)) b N l (add N c 1) @ [y]"
    using assms u by (intro window_put add_ok) simp_all
  ultimately show ?thesis by simp
qed

text \<open>A cell that is not between the counters can be written without being noticed.\<close>

lemma window_other:
  assumes "\<And>i. i < used N l c \<Longrightarrow> a \<noteq> b + (pos N l + i) mod N"
  shows "window (m(a := x)) b N l c = window m b N l c"
  unfolding window_def using assms by (intro circ_cong) auto

lemma window_cong:
  assumes "\<And>i. i < N \<Longrightarrow> m (b + i) = m' (b + i)" "size_ok N"
  shows "window m b N l c = window m' b N l c"
  unfolding window_def using assms size_pos by (intro circ_cong) auto

end

text \<open>
  A counter that is a number below its period, a multiple of the size: the laws follow from modular
  arithmetic alone.
\<close>

locale modular_counter =
  fixes val :: "'c \<Rightarrow> nat"
    and add :: "nat \<Rightarrow> 'c \<Rightarrow> nat \<Rightarrow> 'c"
    and pos :: "nat \<Rightarrow> 'c \<Rightarrow> nat"
    and used :: "nat \<Rightarrow> 'c \<Rightarrow> 'c \<Rightarrow> nat"
    and ok :: "nat \<Rightarrow> 'c \<Rightarrow> bool"
    and size_ok :: "nat \<Rightarrow> bool"
    and period :: "nat \<Rightarrow> nat"
  assumes val_inj: "val a = val b \<Longrightarrow> a = b"
    and szpos: "size_ok N \<Longrightarrow> 0 < N"
    and szdvd: "size_ok N \<Longrightarrow> N dvd period N"
    and perpos: "size_ok N \<Longrightarrow> 0 < period N"
    and okval: "size_ok N \<Longrightarrow> ok N c \<longleftrightarrow> val c < period N"
    and addval: "size_ok N \<Longrightarrow> ok N c \<Longrightarrow> val (add N c n) = (val c + n) mod period N"
    and posval: "size_ok N \<Longrightarrow> ok N c \<Longrightarrow> pos N c = val c mod N"
    and usedval: "size_ok N \<Longrightarrow> ok N l \<Longrightarrow> ok N c \<Longrightarrow> used N l c = (val c + period N - val l) mod period N"

sublocale modular_counter \<subseteq> ring_counter add pos used ok size_ok period
proof
  fix N and l c :: 'c and n :: nat
  assume s: "size_ok N"
  note p = szpos [OF s] perpos [OF s]
  show "0 < N" by (rule p(1))
  show ao: "ok N (add N c n)" if "ok N c" for c n
    using that s p by (simp add: okval addval)
  show "pos N (add N c n) = (pos N c + n) mod N" if "ok N c"
    using that s szdvd [OF s] ao [OF that] by (simp add: posval addval mod_mod_cancel mod_add_left_eq)
  show "pos N c < N" if "ok N c" using that s p by (simp add: posval)
  show "used N c c = 0" if "ok N c" using that s by (simp add: usedval)
  {
    assume l: "ok N l" and c: "ok N c"
    let ?P = "period N" and ?u = "used N l c"
    have lv: "val l < ?P" and cv: "val c < ?P" using l c s by (simp_all add: okval)
    have u: "?u = (val c + ?P - val l) mod ?P" using l c s by (simp add: usedval)
    have reach: "(val l + ?u) mod ?P = val c" using lv cv unfolding u by (simp add: mod_add_right_eq)
    show "?u < ?P" unfolding u using p by simp
    show "add N l ?u = c" using reach by (intro val_inj) (simp add: addval s l)
    show "used N l (add N c n) = ?u + n" if "?u + n < ?P"
    proof -
      have "used N l (add N c n) = ((val c + n) mod ?P + (?P - val l)) mod ?P"
        using ao [OF c, of n] l c s lv by (simp add: usedval addval)
      also have "\<dots> = (val c + n + (?P - val l)) mod ?P" by (simp only: mod_add_left_eq)
      also have "val c + n + (?P - val l) = (val c + ?P - val l) + n" using lv by simp
      also have "\<dots> mod ?P = (?u + n) mod ?P" unfolding u by (simp only: mod_add_left_eq)
      finally show ?thesis using that by simp
    qed
    show "used N (add N l n) c = ?u - n" if n: "n \<le> ?u"
    proof -
      let ?l = "(val l + n) mod ?P"
      have "used N (add N l n) c = (val c + ?P - ?l) mod ?P"
        using ao [OF l, of n] l c s by (simp add: usedval addval)
      moreover have "(?l + (?u - n)) mod ?P = val c"
      proof -
        have "(?l + (?u - n)) mod ?P = (val l + n + (?u - n)) mod ?P" by (rule mod_add_left_eq)
        also have "val l + n + (?u - n) = val l + ?u" using n by simp
        finally show ?thesis using reach by simp
      qed
      moreover have "?u - n < ?P" unfolding u using p mod_less_divisor [of ?P "val c + ?P - val l"] by linarith
      moreover have "?l < ?P" using p by simp
      ultimately show ?thesis using mod_diff_unique [of ?l ?P "?u - n" "val c"] by simp
    qed
  }
qed

context modular_counter
begin

lemma add_add: "size_ok N \<Longrightarrow> ok N c \<Longrightarrow> add N (add N c m) n = add N c (m + n)"
  by (rule val_inj) (simp add: addval add_ok mod_add_left_eq add.assoc)

lemma add_period: "size_ok N \<Longrightarrow> ok N c \<Longrightarrow> add N c (period N) = c"
  by (rule val_inj) (simp add: addval okval)

end

end
