(* ===== verification/Vop_Kvec.thy ===== *)
theory Vop_Kvec
  imports Ring_Counter
begin

text \<open>
  The kvec buffers of the virtio-over-PCIe driver (\<open>vop/vop_kvec_buff.c\<close>, \<open>vop_kvec_buff.h\<close>). Each
  side of the bridge allocates a page with three rings of receive descriptors and one ring of used
  descriptors; the other side maps it, puts its receive descriptors into the rings with writes only,
  and is told through the used ring which of them have been filled.

  The page is a record of cells. A pointer into it is the index of the cell it points to, counted
  from \<open>buff\<close>, and \<open>None\<close> for NULL; the used ring lies behind the three rings and is counted in its
  own cells of eight bytes. A NULL dereference, a division by a zero ring size and a write past the
  end of a local array are \<open>Abort\<close>. Memory barriers, locks and debug output have no counterpart.
\<close>

section \<open>Data\<close>

record vop_peer_kvec =
  iov :: kvec
  kv_head :: u16
  kv_flags :: u8

record vop_peer_used_kiov =
  uk_len :: u32
  uk_head :: u16

definition KVEC_BUF_NUM :: nat where "KVEC_BUF_NUM = 3"
definition VOP_KVEC_FLAG_IN_USE :: u8 where "VOP_KVEC_FLAG_IN_USE = 1"
definition VOP_KVEC_FLAG_CANCELLED :: u8 where "VOP_KVEC_FLAG_CANCELLED = 2"
definition USHRT_MAX :: u16 where "USHRT_MAX = 65535"

definition VOP_REQUEST_CANCEL_OK :: u8 where "VOP_REQUEST_CANCEL_OK = 1"
definition VOP_REQUEST_CANCEL_INVALID_REQUEST :: u8 where "VOP_REQUEST_CANCEL_INVALID_REQUEST = 2"
definition VOP_REQUEST_CANCEL_TIMEOUT :: u8 where "VOP_REQUEST_CANCEL_TIMEOUT = 3"
definition VOP_REQUEST_CANCEL_ERROR :: u8 where "VOP_REQUEST_CANCEL_ERROR = 4"

record vop_peer_kvec_buf_header =
  hdr_idx :: "u16 mem"
  used_idx :: u16
  hdr_max_size :: "u32 mem"
  cancelled_request_idx :: u32
  cancelled_request_ring_id :: u16
  request_cancellation :: u8
  cancellation_status :: u8
  buff :: "vop_peer_kvec mem"
  used_buff :: "vop_peer_used_kiov mem"

record vop_kvec_ring =
  last_cnt :: u16
  cnt :: "nat option"
  ring_num :: nat
  buf :: "nat option"
  send_max_size :: "nat option"
  send_max_size_local :: u32
  stats_num :: u32

record vop_used_kiov_ring =
  u_mapped :: bool
  u_num :: nat
  u_buf :: nat
  u_last_cnt :: u16

record vop_kvec_buf_local =
  l_rings :: "vop_kvec_ring list"
  l_used_ring :: vop_used_kiov_ring
  l_pa :: u64
  l_pages :: "vop_peer_kvec_buf_header option"
  l_size :: nat

record vop_kvec_buf_remote =
  r_rings :: "vop_kvec_ring list"
  r_used_ring :: vop_used_kiov_ring
  r_pa :: u64
  r_va :: "vop_peer_kvec_buf_header option"
  mapped :: bool
  is_update :: bool

section \<open>Counters\<close>

text \<open>
  Counters run through twice the size of the ring, which need not be a power of two. The macros
  compute in \<open>int\<close>; the result of an addition is stored in sixteen bits.
\<close>

definition KVEC_COUNTER_EQ :: "nat \<Rightarrow> nat \<Rightarrow> nat \<Rightarrow> bool" where
  "KVEC_COUNTER_EQ cnt1 cnt2 sz = (cnt1 mod (2 * sz) = cnt2 mod (2 * sz))"

definition KVEC_COUNTER_ADD :: "nat \<Rightarrow> u16 \<Rightarrow> nat \<Rightarrow> u16" where
  "KVEC_COUNTER_ADD sz c v = of_nat ((unat c + v) mod (2 * sz))"

definition KVEC_COUNTER_TO_IDX :: "nat \<Rightarrow> u16 \<Rightarrow> nat" where
  "KVEC_COUNTER_TO_IDX sz c = unat c mod sz"

definition KVEC_COUNTER_USED :: "nat \<Rightarrow> u16 \<Rightarrow> u16 \<Rightarrow> nat" where
  "KVEC_COUNTER_USED sz l c =
     (if l \<le> c then unat c - unat l else unat c + sz * 2 - unat l)"

definition kvec_size_ok :: "nat \<Rightarrow> bool" where
  "kvec_size_ok n \<longleftrightarrow> 0 < n \<and> n \<le> 32768"

definition kvec_cnt_ok :: "nat \<Rightarrow> u16 \<Rightarrow> bool" where
  "kvec_cnt_ok n c \<longleftrightarrow> unat c < 2 * n"

interpretation kc: modular_counter unat KVEC_COUNTER_ADD KVEC_COUNTER_TO_IDX KVEC_COUNTER_USED
  kvec_cnt_ok kvec_size_ok "\<lambda>n. 2 * n"
proof
  fix N :: nat and a b c l :: u16 and n :: nat
  show "unat a = unat b \<Longrightarrow> a = b" by (simp add: word_eq_iff_unsigned [where ?'a = nat])
  show "kvec_cnt_ok N c \<longleftrightarrow> unat c < 2 * N" by (simp add: kvec_cnt_ok_def)
  show "KVEC_COUNTER_TO_IDX N c = unat c mod N" by (simp add: KVEC_COUNTER_TO_IDX_def)
  {
    assume s: "kvec_size_ok N"
    show "0 < N" "0 < 2 * N" "N dvd 2 * N" using s by (simp_all add: kvec_size_ok_def)
    have "(unat c + n) mod (2 * N) < 65536"
      using s mod_less_divisor [of "2 * N" "unat c + n"] unfolding kvec_size_ok_def by linarith
    then show "unat (KVEC_COUNTER_ADD N c n) = (unat c + n) mod (2 * N)"
      by (simp add: KVEC_COUNTER_ADD_def unat_of_nat take_bit_nat_eq_self)
    assume "kvec_cnt_ok N l" "kvec_cnt_ok N c"
    then show "KVEC_COUNTER_USED N l c = (unat c + 2 * N - unat l) mod (2 * N)"
      by (auto simp: KVEC_COUNTER_USED_def kvec_cnt_ok_def word_le_nat_alt mult.commute le_mod_geq)
  }
qed

section \<open>Choice of the ring\<close>

definition DMA_ALIGN_OVERHEAD_SIZE :: nat where "DMA_ALIGN_OVERHEAD_SIZE = 127 + 64"
definition MTU_DEFAULT :: u64 where "MTU_DEFAULT = of_nat (1518 + DMA_ALIGN_OVERHEAD_SIZE)"
definition MTU_JUMBO :: u64 where "MTU_JUMBO = of_nat (9018 + DMA_ALIGN_OVERHEAD_SIZE)"
definition MTU_MAX :: u64 where "MTU_MAX = of_nat (65540 + DMA_ALIGN_OVERHEAD_SIZE)"

text \<open>The ring to store a write descriptor in; \<open>KVEC_BUF_NUM\<close> is three.\<close>

definition get_ring_id_write :: "u64 \<Rightarrow> int" where
  "get_ring_id_write sz =
     (if sz < MTU_DEFAULT then - EDOM
      else if sz < MTU_JUMBO then 0
      else if sz < MTU_MAX then 1
      else int KVEC_BUF_NUM - 1)"

text \<open>
  The ring to look in for a descriptor that can take \<open>sz\<close> bytes: the first whose published size is
  large enough, the last when there is none.
\<close>

fun ring_scan :: "(nat \<Rightarrow> u32) \<Rightarrow> u64 \<Rightarrow> nat list \<Rightarrow> nat" where
  "ring_scan ms sz [] = KVEC_BUF_NUM - 1"
| "ring_scan ms sz (r # rs) = (if sz \<le> ucast (ms r) then r else ring_scan ms sz rs)"

definition vop_kvec_size_to_ring_id :: "vop_kvec_buf_local \<Rightarrow> u64 \<Rightarrow> nat outcome" where
  "vop_kvec_size_to_ring_id kl sz =
     (case l_pages kl of None \<Rightarrow> Abort
      | Some hdr \<Rightarrow> Ret (ring_scan (\<lambda>r. hdr_max_size hdr (the (send_max_size (l_rings kl ! r)))) sz
          [0..<KVEC_BUF_NUM]))"

section \<open>Set-up of the page\<close>

text \<open>
  The size of the page: the header of 32 bytes, three rings of cells of 24 bytes and the used ring
  with cells of eight bytes.
\<close>

definition get_write_kvecs_buf_size :: "nat \<Rightarrow> nat" where
  "get_write_kvecs_buf_size n = 32 + KVEC_BUF_NUM * n * 24 + n * 8"

definition PAGE_ALIGN :: "nat \<Rightarrow> nat" where
  "PAGE_ALIGN n = (n + 4095) div 4096 * 4096"

definition reset_ring :: "vop_kvec_ring \<Rightarrow> vop_kvec_ring" where
  "reset_ring r = r\<lparr>last_cnt := 0\<rparr>"

definition vop_kvec_buff_reset :: "vop_kvec_buf_local \<Rightarrow> vop_kvec_buf_local outcome" where
  "vop_kvec_buff_reset kl =
     (case l_pages kl of None \<Rightarrow> Abort
      | Some hdr \<Rightarrow> Ret (kl\<lparr>
          l_pages := Some (hdr\<lparr>used_idx := 0,
            hdr_idx := (\<lambda>i. if i \<in> (\<lambda>r. the (cnt r)) ` set (l_rings kl) then 0 else hdr_idx hdr i)\<rparr>),
          l_used_ring := (l_used_ring kl)\<lparr>u_last_cnt := 0\<rparr>,
          l_rings := map reset_ring (l_rings kl)\<rparr>))"

text \<open>A page of zero bytes, as it comes from the allocator.\<close>

definition zero_page :: vop_peer_kvec_buf_header where
  "zero_page = \<lparr>hdr_idx = (\<lambda>_. 0), used_idx = 0, hdr_max_size = (\<lambda>_. 0), cancelled_request_idx = 0,
     cancelled_request_ring_id = 0, request_cancellation = 0, cancellation_status = 0,
     buff = (\<lambda>_. \<lparr>iov = \<lparr>iov_base = 0, iov_len = 0\<rparr>, kv_head = 0, kv_flags = 0\<rparr>),
     used_buff = (\<lambda>_. \<lparr>uk_len = 0, uk_head = 0\<rparr>)\<rparr>"

text \<open>
  The rings of a page with \<open>n\<close> descriptors each: ring \<open>i\<close> has the counter \<open>idx[i]\<close>, the size
  \<open>send_max_size[i]\<close> and the cells from \<open>i * n\<close> on. The used ring lies behind them.
\<close>

definition init_local_ring :: "nat \<Rightarrow> nat \<Rightarrow> vop_kvec_ring \<Rightarrow> vop_kvec_ring" where
  "init_local_ring n i r = r\<lparr>ring_num := n, cnt := Some i, buf := Some (i * n),
     send_max_size_local := 0, send_max_size := Some i, stats_num := 0\<rparr>"

definition clear_remote_ring :: "vop_kvec_ring \<Rightarrow> vop_kvec_ring" where
  "clear_remote_ring r = r\<lparr>send_max_size_local := 0, send_max_size := None, stats_num := 0\<rparr>"

text \<open>
  \<open>pages_ok\<close>: the allocation of the pages succeeds; \<open>pa\<close>, \<open>err\<close>: the results of mapping them for
  the device.
\<close>

definition vop_kvec_buff_init ::
  "bool \<Rightarrow> u64 \<Rightarrow> int \<Rightarrow> nat \<Rightarrow> vop_kvec_buf_local \<Rightarrow> vop_kvec_buf_remote \<Rightarrow>
     (int \<times> vop_kvec_buf_local \<times> vop_kvec_buf_remote) outcome" where
  "vop_kvec_buff_init pages_ok pa err n kl kr =
     (let sz = PAGE_ALIGN (get_write_kvecs_buf_size n); kl0 = kl\<lparr>l_pa := 0\<rparr> in
      if \<not> pages_ok then Ret (- ENOMEM, kl0\<lparr>l_pages := None\<rparr>, kr)
      else if err \<noteq> 0 then Ret (err, kl0\<lparr>l_pa := 0, l_pages := None\<rparr>, kr)
      else
        (let kr1 = kr\<lparr>is_update := False, mapped := False, r_rings := map clear_remote_ring (r_rings kr)\<rparr>;
             kl1 = kl0\<lparr>l_pa := pa, l_pages := Some zero_page, l_size := sz,
               l_rings := map (\<lambda>i. init_local_ring n i (l_rings kl ! i)) [0..<KVEC_BUF_NUM],
               l_used_ring := (l_used_ring kl)\<lparr>u_buf := KVEC_BUF_NUM * n, u_num := n, u_mapped := True\<rparr>\<rparr>
         in case vop_kvec_buff_reset kl1 of Abort \<Rightarrow> Abort
            | Ret kl2 \<Rightarrow> Ret (0, kl2, kr1)))"

text \<open>
  Unmapping waits until no update is going on, at most 5000 polls; \<open>polls\<close> is what the polls see.
  The pointers of the rings are cleared, the one of the used ring is not.
\<close>

fun unmap_wait :: "(nat \<Rightarrow> bool) \<Rightarrow> nat \<Rightarrow> nat \<Rightarrow> nat" where
  "unmap_wait polls i 0 = 0"
| "unmap_wait polls i (Suc t) = (if polls i then unmap_wait polls (Suc i) t else Suc t)"

definition unmap_ring :: "vop_kvec_ring \<Rightarrow> vop_kvec_ring" where
  "unmap_ring r = r\<lparr>cnt := None, buf := None, send_max_size := None\<rparr>"

definition vop_kvec_unmap_buf :: "(nat \<Rightarrow> bool) \<Rightarrow> vop_kvec_buf_remote \<Rightarrow> bool \<times> vop_kvec_buf_remote" where
  "vop_kvec_unmap_buf polls kr =
     (let kr0 = kr\<lparr>mapped := False\<rparr>;
          timeout = (unmap_wait polls 0 5000 = 0)
      in (timeout,
          if r_va kr0 = None then kr0
          else kr0\<lparr>r_va := None, r_rings := map unmap_ring (r_rings kr0)\<rparr>))"

definition map_ring :: "vop_peer_kvec_buf_header \<Rightarrow> nat \<Rightarrow> nat \<Rightarrow> vop_kvec_ring \<Rightarrow> vop_kvec_ring" where
  "map_ring hdr n i r = r\<lparr>cnt := Some i, last_cnt := hdr_idx hdr i, ring_num := n, buf := Some (i * n),
     send_max_size := Some i\<rparr>"

text \<open>\<open>va\<close> is the page of the other side as \<open>ioremap\<close> shows it, \<open>None\<close> when that fails.\<close>

definition vop_kvec_map_buf ::
  "(nat \<Rightarrow> bool) \<Rightarrow> vop_peer_kvec_buf_header option \<Rightarrow> nat \<Rightarrow> u64 \<Rightarrow> vop_kvec_buf_remote \<Rightarrow> int \<times> vop_kvec_buf_remote" where
  "vop_kvec_map_buf polls va n pa kr =
     (let kr0 = (if r_va kr = None then kr else (snd (vop_kvec_unmap_buf polls kr))\<lparr>r_va := None\<rparr>) in
      case va of None \<Rightarrow> (- ENOMEM, kr0)
      | Some hdr \<Rightarrow>
          (0, kr0\<lparr>r_pa := pa, r_va := Some hdr,
             r_rings := map (\<lambda>i. map_ring hdr n i (r_rings kr0 ! i)) [0..<KVEC_BUF_NUM],
             r_used_ring := \<lparr>u_mapped = True, u_num = n, u_buf = KVEC_BUF_NUM * n, u_last_cnt = used_idx hdr\<rparr>,
             mapped := True\<rparr>))"

text \<open>Releasing both buffers; what is left of the local one says whether anything is still held.\<close>

definition vop_kvec_buff_deinit ::
  "(nat \<Rightarrow> bool) \<Rightarrow> vop_kvec_buf_local \<Rightarrow> vop_kvec_buf_remote \<Rightarrow> vop_kvec_buf_local \<times> vop_kvec_buf_remote" where
  "vop_kvec_buff_deinit polls kl kr =
     (let kr' = snd (vop_kvec_unmap_buf polls kr);
          kl1 = (if l_pa kl \<noteq> 0 then kl\<lparr>l_pa := 0\<rparr> else kl);
          kl2 = (if l_pages kl1 \<noteq> None then kl1\<lparr>l_pages := None\<rparr> else kl1)
      in (kl2, kr'))"

section \<open>The producer\<close>

text \<open>
  One packet: the descriptors of \<open>wiov\<close>, a header and a data buffer, go into the ring that fits the
  data buffer. Two cells are written, whatever the position: a ring of odd size is left behind its
  end. More than two descriptors overrun the local array. A packet that fits no ring is dropped,
  its head is forgotten. There is no check that the ring has room.
\<close>

text \<open>The size is compared at 64 bits and stored at 32.\<close>

definition publish_max_size :: "u64 \<Rightarrow> nat \<Rightarrow> vop_kvec_buf_remote \<Rightarrow> vop_kvec_buf_remote outcome" where
  "publish_max_size sz i kr =
     (let r = r_rings kr ! i in
      if send_max_size_local r = 0 \<or> sz < ucast (send_max_size_local r) then
        (case (r_va kr, send_max_size r) of
           (Some hdr, Some m) \<Rightarrow>
             Ret (kr\<lparr>r_va := Some (hdr\<lparr>hdr_max_size := (hdr_max_size hdr)(m := ucast sz)\<rparr>),
               r_rings := (r_rings kr)[i := r\<lparr>send_max_size_local := ucast sz\<rparr>]\<rparr>)
         | _ \<Rightarrow> Abort)
      else Ret kr)"

definition put_pair :: "vop_peer_kvec \<Rightarrow> vop_peer_kvec \<Rightarrow> nat \<Rightarrow> vop_kvec_buf_remote \<Rightarrow> vop_kvec_buf_remote outcome" where
  "put_pair k0 k1 i kr =
     (let r = r_rings kr ! i; n = ring_num r in
      if n = 0 then Abort
      else case (r_va kr, buf r) of
        (Some hdr, Some b) \<Rightarrow>
          (let p = b + KVEC_COUNTER_TO_IDX n (last_cnt r) in
           Ret (kr\<lparr>r_va := Some (hdr\<lparr>buff := (buff hdr)(p := k0, Suc p := k1)\<rparr>),
             r_rings := (r_rings kr)[i := r\<lparr>last_cnt := KVEC_COUNTER_ADD n (last_cnt r) 2\<rparr>]\<rparr>))
      | _ \<Rightarrow> Abort)"

definition peer_kvec :: "u16 \<Rightarrow> kvec \<Rightarrow> vop_peer_kvec" where
  "peer_kvec h v = \<lparr>iov = v, kv_head = h, kv_flags = 0\<rparr>"

definition vop_kvec_put ::
  "kvec list \<Rightarrow> u16 \<Rightarrow> vop_kvec_buf_remote \<Rightarrow> (int \<times> u16 \<times> vop_kvec_buf_remote) outcome" where
  "vop_kvec_put wiov h kr =
     (if 2 < length wiov then Abort
      else
        (let sz = (if length wiov = 2 then iov_len (wiov ! 1) else 0);
             ring_id = get_ring_id_write sz
         in if ring_id < 0 then Ret (ring_id, USHRT_MAX, kr)
            else case publish_max_size sz (nat ring_id) kr of
              Abort \<Rightarrow> Abort
            | Ret kr1 \<Rightarrow>
                (case put_pair (peer_kvec h (wiov ! 0)) (peer_kvec h (wiov ! 1)) (nat ring_id) kr1 of
                   Abort \<Rightarrow> Abort
                 | Ret kr2 \<Rightarrow> Ret (ring_id, USHRT_MAX, kr2))))"

text \<open>
  The rate limit of the interrupts that tell the other side: \<open>msecs\<close> is the kernel's
  \<open>jiffies_to_msecs\<close>, \<open>jiffies\<close> the time of the call.
\<close>

datatype vop_heads_up_notification = vop_notify_available | vop_notify_used

record vop_heads_up_irq =
  rcv_ts :: u64
  sent_ts :: u64
  hu_op :: vop_heads_up_notification

definition HEADS_UP_NOTIFICATION_TIMEOUT_MS :: u32 where "HEADS_UP_NOTIFICATION_TIMEOUT_MS = 2"
definition HEADS_UP_TIMEOUT_MS :: u32 where "HEADS_UP_TIMEOUT_MS = 2 * HEADS_UP_NOTIFICATION_TIMEOUT_MS"

definition heads_up :: "(u64 \<Rightarrow> u32) \<Rightarrow> u64 \<Rightarrow> vop_heads_up_irq \<Rightarrow> bool" where
  "heads_up msecs now irq \<longleftrightarrow> msecs (now - rcv_ts irq) \<le> HEADS_UP_TIMEOUT_MS"

definition vop_send_heads_up ::
  "(u64 \<Rightarrow> u32) \<Rightarrow> u64 \<Rightarrow> vop_heads_up_irq \<Rightarrow> vop_heads_up_irq \<times> vop_heads_up_notification list" where
  "vop_send_heads_up msecs now irq =
     (if HEADS_UP_NOTIFICATION_TIMEOUT_MS \<le> msecs (now - sent_ts irq)
      then (irq\<lparr>sent_ts := now\<rparr>, [hu_op irq])
      else (irq, []))"

text \<open>
  The device: its two buffers, the interrupts sent, and its receive queue of type \<open>'q\<close>, from which
  \<open>fetch\<close> takes the next packet: the result of \<open>vop_common_get_descriptors_with_lock\<close>, with the
  head and the descriptors. The readers of the queue complete packets: \<open>completed\<close> holds head and
  length, in order.
\<close>

record 'q vop_dev =
  ready :: bool
  jiffies :: u64
  loc :: vop_kvec_buf_local
  rem :: vop_kvec_buf_remote
  heads_up_avail_irq :: vop_heads_up_irq
  irqs_sent :: "vop_heads_up_notification list"
  rcv :: 'q
  completed :: "(u16 \<times> u32) list"

definition notify_avail :: "(u64 \<Rightarrow> u32) \<Rightarrow> 'q vop_dev \<Rightarrow> 'q vop_dev" where
  "notify_avail msecs d =
     (case vop_send_heads_up msecs (jiffies d) (heads_up_avail_irq d) of (irq, out) \<Rightarrow>
        d\<lparr>heads_up_avail_irq := irq, irqs_sent := irqs_sent d @ out\<rparr>)"

text \<open>The counters of the rings that were written to become visible to the other side.\<close>

fun publish_counters :: "nat list \<Rightarrow> (nat \<Rightarrow> nat) \<Rightarrow> vop_kvec_buf_remote \<Rightarrow> vop_kvec_buf_remote outcome" where
  "publish_counters [] c kr = Ret kr"
| "publish_counters (i # is) c kr =
     (if c i = 0 then publish_counters is c kr
      else case (r_va kr, cnt (r_rings kr ! i)) of
        (Some hdr, Some p) \<Rightarrow>
          publish_counters is c
            (kr\<lparr>r_va := Some (hdr\<lparr>hdr_idx := (hdr_idx hdr)(p := last_cnt (r_rings kr ! i))\<rparr>)\<rparr>)
      | _ \<Rightarrow> Abort)"

definition vop_kvec_buff_update_idx ::
  "(u64 \<Rightarrow> u32) \<Rightarrow> (nat \<Rightarrow> nat) \<Rightarrow> 'q vop_dev \<Rightarrow> ((nat \<Rightarrow> nat) \<times> 'q vop_dev) outcome" where
  "vop_kvec_buff_update_idx msecs c d =
     (case publish_counters [0..<KVEC_BUF_NUM] c (rem d) of
        Abort \<Rightarrow> Abort
      | Ret kr \<Rightarrow> Ret (\<lambda>i. if i < KVEC_BUF_NUM then 0 else c i, notify_avail msecs (d\<lparr>rem := kr\<rparr>)))"

definition KVEC_INDEX_UPDATE_PERIOD :: nat where "KVEC_INDEX_UPDATE_PERIOD = 16"

text \<open>One packet of the update: put, count, and publish every sixteen packets.\<close>

definition put_one ::
  "(u64 \<Rightarrow> u32) \<Rightarrow> kvec list \<Rightarrow> u16 \<Rightarrow> (nat \<Rightarrow> nat) \<Rightarrow> u32 \<Rightarrow> 'q vop_dev \<Rightarrow> ((nat \<Rightarrow> nat) \<times> u32 \<times> 'q vop_dev) outcome" where
  "put_one msecs wiov h c tot d =
     (case vop_kvec_put wiov h (rem d) of
        Abort \<Rightarrow> Abort
      | Ret (ring_id, h', kr) \<Rightarrow>
          if ring_id < 0 then Ret (c, tot, d\<lparr>rem := kr\<rparr>)
          else
            (let i = nat ring_id; r = r_rings kr ! i; c1 = c(i := c i + 1); tot1 = tot + 1;
                 d1 = d\<lparr>rem := kr\<lparr>r_rings := (r_rings kr)[i := r\<lparr>stats_num := stats_num r + 1\<rparr>]\<rparr>\<rparr>
             in if unat tot1 mod KVEC_INDEX_UPDATE_PERIOD = 0 \<and> tot1 \<noteq> 0
                then (case vop_kvec_buff_update_idx msecs c1 d1 of
                        Abort \<Rightarrow> Abort
                      | Ret (c2, d2) \<Rightarrow> Ret (c2, tot1, d2))
                else Ret (c1, tot1, d1)))"

text \<open>The loop ends when the queue is empty; a queue that is refilled for ever keeps it busy.\<close>

partial_function (option) update_loop ::
  "('q \<Rightarrow> (kvec list \<times> u16 \<times> 'q) option) \<Rightarrow> (u64 \<Rightarrow> u32) \<Rightarrow> (nat \<Rightarrow> nat) \<Rightarrow> u32 \<Rightarrow> 'q vop_dev \<Rightarrow>
     ((nat \<Rightarrow> nat) \<times> 'q vop_dev) outcome option" where
  "update_loop fetch msecs c tot d =
     (case fetch (rcv d) of
        None \<Rightarrow> Some (Ret (c, d))
      | Some (wiov, h, q) \<Rightarrow>
          (case put_one msecs wiov h c tot (d\<lparr>rcv := q\<rparr>) of
             Abort \<Rightarrow> Some Abort
           | Ret (c1, tot1, d1) \<Rightarrow> update_loop fetch msecs c1 tot1 d1))"

definition set_is_update :: "bool \<Rightarrow> 'q vop_dev \<Rightarrow> 'q vop_dev" where
  "set_is_update b d = d\<lparr>rem := (rem d)\<lparr>is_update := b\<rparr>\<rparr>"

definition vop_kvec_buf_update ::
  "('q \<Rightarrow> (kvec list \<times> u16 \<times> 'q) option) \<Rightarrow> (u64 \<Rightarrow> u32) \<Rightarrow> 'q vop_dev \<Rightarrow> 'q vop_dev outcome option" where
  "vop_kvec_buf_update fetch msecs d =
     (if \<not> ready d then Some (Ret d)
      else
        (let d0 = set_is_update True d in
         if \<not> mapped (rem d0) then Some (Ret (set_is_update False d0))
         else case update_loop fetch msecs (\<lambda>_. 0) 0 (notify_avail msecs d0) of
           None \<Rightarrow> None
         | Some Abort \<Rightarrow> Some Abort
         | Some (Ret (c, d1)) \<Rightarrow>
             (case vop_kvec_buff_update_idx msecs c d1 of
                Abort \<Rightarrow> Some Abort
              | Ret (c2, d2) \<Rightarrow> Some (Ret (set_is_update False d2)))))"

section \<open>The consumer\<close>

definition cancelled_kvec :: "vop_peer_kvec \<Rightarrow> bool" where
  "cancelled_kvec k \<longleftrightarrow> kv_flags k AND VOP_KVEC_FLAG_CANCELLED \<noteq> 0"

definition clear_kvec :: "vop_peer_kvec \<Rightarrow> vop_peer_kvec" where
  "clear_kvec k = k\<lparr>kv_head := 0, kv_flags := 0\<rparr>"

text \<open>
  Cancelled descriptors at the front of the ring of \<open>n\<close> cells from \<open>b\<close> on are cleared and skipped,
  up to the counter \<open>c\<close> of the producer.
\<close>

function skip_cancelled :: "nat \<Rightarrow> nat \<Rightarrow> u16 \<Rightarrow> u16 \<Rightarrow> vop_peer_kvec mem \<Rightarrow> u16 \<times> vop_peer_kvec mem" where
  "skip_cancelled n b c l m =
     (if n = 0 \<or> l = c then (l, m)
      else
        (let p = b + KVEC_COUNTER_TO_IDX n l in
         if \<not> cancelled_kvec (m p) then (l, m)
         else skip_cancelled n b c (KVEC_COUNTER_ADD n l 1) (m(p := clear_kvec (m p)))))"
  by pat_completeness auto

text \<open>Every step clears a flag of the ring, so the loop ends whatever the counters are.\<close>

lemma cleared_fewer:
  fixes m :: "vop_peer_kvec mem"
  assumes "0 < n" "cancelled_kvec (m (b + i))" "i < n"
  shows "card {j. j < n \<and> cancelled_kvec ((m(b + i := clear_kvec (m (b + i)))) (b + j))} <
    card {j. j < n \<and> cancelled_kvec (m (b + j))}"
proof (rule psubset_card_mono)
  have "\<not> cancelled_kvec (clear_kvec k)" for k by (simp add: cancelled_kvec_def clear_kvec_def)
  with assms show "{j. j < n \<and> cancelled_kvec ((m(b + i := clear_kvec (m (b + i)))) (b + j))} \<subset>
      {j. j < n \<and> cancelled_kvec (m (b + j))}" by (auto split: if_splits)
qed simp

termination skip_cancelled
  by (relation "measure (\<lambda>(n, b, c, l, m). card {j. j < n \<and> cancelled_kvec (m (b + j))})")
    (auto simp: KVEC_COUNTER_TO_IDX_def intro!: cleared_fewer simp del: fun_upd_apply)

declare skip_cancelled.simps [simp del]

text \<open>
  The descriptors of one packet: \<open>k\<close> are taken, the next one is at position \<open>x\<close>. It belongs to the
  packet if the producer has published it and it carries the same head.
\<close>

function gather :: "nat \<Rightarrow> nat \<Rightarrow> u16 \<Rightarrow> u16 \<Rightarrow> u16 \<Rightarrow> nat \<Rightarrow> nat \<Rightarrow> vop_peer_kvec mem \<Rightarrow> nat \<times> vop_peer_kvec mem" where
  "gather n b avail l h k x m =
     (if \<not> KVEC_COUNTER_EQ (unat l + k) (unat avail) n \<and> h = kv_head (m (b + x)) \<and> k < n
      then gather n b avail l h (k + 1) ((x + 1) mod n) (m(b + x := (m (b + x))\<lparr>kv_head := 0\<rparr>))
      else (k, m))"
  by pat_completeness auto
termination gather
  by (relation "measure (\<lambda>(n, b, avail, l, h, k, x, m). n - k)") auto

declare gather.simps [simp del]

text \<open>What a fetch leaves in the transfer item; \<open>kvec_to\<close> is the position in the ring.\<close>

record dma_target =
  head_to :: u16
  num_kvecs_to :: nat
  kvec_to :: nat

definition vop_kvec_get ::
  "nat \<Rightarrow> vop_kvec_buf_local \<Rightarrow> dma_target \<Rightarrow> (int \<times> dma_target \<times> vop_kvec_buf_local) outcome" where
  "vop_kvec_get rid kl item =
     (let r = l_rings kl ! rid; n = ring_num r in
      case (l_pages kl, cnt r, buf r) of
        (Some hdr, Some p, Some b) \<Rightarrow>
          if n = 0 \<and> last_cnt r \<noteq> hdr_idx hdr p then Abort
          else
            (case skip_cancelled n b (hdr_idx hdr p) (last_cnt r) (buff hdr) of
               (l, m) \<Rightarrow>
                 if l = hdr_idx hdr p then
                   Ret (- EAGAIN, item\<lparr>head_to := USHRT_MAX\<rparr>,
                     kl\<lparr>l_pages := Some (hdr\<lparr>buff := m\<rparr>), l_rings := (l_rings kl)[rid := r\<lparr>last_cnt := l\<rparr>]\<rparr>)
                 else
                   (let avail = hdr_idx hdr p;
                        f = unat l mod n;
                        h = kv_head (m (b + f));
                        (k, m') = gather n b avail l h 1 ((unat l + 1) mod n) (m(b + f := (m (b + f))\<lparr>kv_head := 0\<rparr>));
                        m'' = m'(b + f := (m' (b + f))\<lparr>kv_flags := VOP_KVEC_FLAG_IN_USE\<rparr>)
                    in Ret (0, item\<lparr>head_to := h, num_kvecs_to := k, kvec_to := f\<rparr>,
                         kl\<lparr>l_pages := Some (hdr\<lparr>buff := m''\<rparr>),
                           l_rings := (l_rings kl)[rid := r\<lparr>last_cnt := KVEC_COUNTER_ADD n l k,
                             stats_num := stats_num r + 1\<rparr>]\<rparr>)))
      | _ \<Rightarrow> Abort)"

text \<open>A filled packet is reported in the used ring of the other side.\<close>

definition vop_kvec_used :: "u16 \<Rightarrow> u64 \<Rightarrow> vop_kvec_buf_remote \<Rightarrow> vop_kvec_buf_remote outcome" where
  "vop_kvec_used h len kr =
     (let u = r_used_ring kr; n = u_num u in
      if n = 0 then Abort
      else case r_va kr of None \<Rightarrow> Abort
      | Some hdr \<Rightarrow>
          (let i = KVEC_COUNTER_TO_IDX n (u_last_cnt u); c = KVEC_COUNTER_ADD n (u_last_cnt u) 1 in
           Ret (kr\<lparr>r_va := Some (hdr\<lparr>used_buff := (used_buff hdr)(3 * u_buf u + i := \<lparr>uk_len = ucast len, uk_head = h\<rparr>),
                  used_idx := c\<rparr>),
                r_used_ring := u\<lparr>u_last_cnt := c\<rparr>\<rparr>)))"

text \<open>The owner of the descriptors takes the reports and completes the packets in its queue.\<close>

partial_function (option) consume_loop ::
  "vop_peer_kvec_buf_header \<Rightarrow> nat \<Rightarrow> nat \<Rightarrow> u16 \<Rightarrow> (u16 \<times> u32) list \<Rightarrow> (u16 \<times> (u16 \<times> u32) list) outcome option" where
  "consume_loop hdr b n l out =
     (if used_idx hdr = l then Some (Ret (l, out))
      else if n = 0 then Some Abort
      else
        (let k = used_buff hdr (b + KVEC_COUNTER_TO_IDX n l) in
         consume_loop hdr b n (KVEC_COUNTER_ADD n l 1) (out @ [(uk_head k, uk_len k)])))"

definition vop_kvec_buf_consume :: "'q vop_dev \<Rightarrow> 'q vop_dev outcome option" where
  "vop_kvec_buf_consume d =
     (if \<not> ready d then Some (Ret d)
      else case l_pages (loc d) of None \<Rightarrow> Some Abort
      | Some hdr \<Rightarrow>
          (case consume_loop hdr (3 * u_buf (l_used_ring (loc d))) (u_num (l_used_ring (loc d))) (u_last_cnt (l_used_ring (loc d))) (completed d) of
             None \<Rightarrow> None
           | Some Abort \<Rightarrow> Some Abort
           | Some (Ret (l, out)) \<Rightarrow>
               Some (Ret (d\<lparr>completed := out,
                 loc := (loc d)\<lparr>l_used_ring := (l_used_ring (loc d))\<lparr>u_last_cnt := l\<rparr>\<rparr>\<rparr>))))"

text \<open>The conditions the waiting threads poll for.\<close>

definition check_new_used_desc :: "vop_kvec_buf_local \<Rightarrow> bool option" where
  "check_new_used_desc kl = map_option (\<lambda>hdr. used_idx hdr \<noteq> u_last_cnt (l_used_ring kl)) (l_pages kl)"

definition check_new_avail_desc_ring_id :: "nat \<Rightarrow> vop_kvec_buf_local \<Rightarrow> bool option" where
  "check_new_avail_desc_ring_id i kl =
     (case (l_pages kl, cnt (l_rings kl ! i)) of
        (Some hdr, Some p) \<Rightarrow> Some (hdr_idx hdr p \<noteq> last_cnt (l_rings kl ! i))
      | _ \<Rightarrow> None)"

section \<open>Cancelling a request\<close>

text \<open>
  The positions the code takes to be between the consumer's position \<open>s\<close> and the producer's \<open>e\<close>.
\<close>

definition cancel_range :: "nat \<Rightarrow> nat \<Rightarrow> nat \<Rightarrow> bool" where
  "cancel_range s e i \<longleftrightarrow>
     s = e \<or> (s < e \<and> s \<le> i \<and> i \<le> e) \<or> (e < s \<and> (i \<le> s \<or> e \<le> i))"

definition mark_cancelled :: "vop_peer_kvec \<Rightarrow> vop_peer_kvec" where
  "mark_cancelled k = k\<lparr>kv_flags := kv_flags k OR VOP_KVEC_FLAG_CANCELLED\<rparr>"

partial_function (option) cancel_loop ::
  "nat \<Rightarrow> nat \<Rightarrow> nat \<Rightarrow> nat \<Rightarrow> u16 \<Rightarrow> nat \<Rightarrow> vop_peer_kvec mem \<Rightarrow> vop_peer_kvec mem option" where
  "cancel_loop n b s e h i m =
     (if kv_head (m (b + i)) = h \<and> cancel_range s e i
      then cancel_loop n b s e h ((i + 1) mod n) (m(b + i := mark_cancelled (m (b + i))))
      else Some m)"

text \<open>
  A request of the other side to cancel one of its descriptors. \<open>wait_rc\<close> is the result of waiting
  for a transfer that has already started: positive when it ended in time, zero for a timeout.
\<close>

definition cancel_done :: "u8 \<Rightarrow> vop_peer_kvec_buf_header \<Rightarrow> vop_kvec_buf_local \<Rightarrow> vop_kvec_buf_local" where
  "cancel_done st hdr kl = kl\<lparr>l_pages := Some (hdr\<lparr>cancellation_status := st, request_cancellation := 0\<rparr>)\<rparr>"

definition vop_kvec_check_cancel :: "int \<Rightarrow> vop_kvec_buf_local \<Rightarrow> vop_kvec_buf_local outcome option" where
  "vop_kvec_check_cancel wait_rc kl =
     (case l_pages kl of None \<Rightarrow> Some Abort
      | Some hdr \<Rightarrow>
          if request_cancellation hdr = 0 then Some (Ret kl)
          else if KVEC_BUF_NUM \<le> unat (cancelled_request_ring_id hdr)
          then Some (Ret (cancel_done VOP_REQUEST_CANCEL_INVALID_REQUEST hdr kl))
          else
            (let r = l_rings kl ! unat (cancelled_request_ring_id hdr); n = ring_num r;
                 i = unat (cancelled_request_idx hdr) in
             case (cnt r, buf r) of
               (Some p, Some b) \<Rightarrow>
                 if n = 0 then Some Abort
                 else if n \<le> i \<or> last_cnt r = hdr_idx hdr p
                 then Some (Ret (cancel_done VOP_REQUEST_CANCEL_INVALID_REQUEST hdr kl))
                 else if kv_flags (buff hdr (b + i)) AND VOP_KVEC_FLAG_IN_USE \<noteq> 0
                 then Some (Ret (cancel_done
                        (if 0 < wait_rc then VOP_REQUEST_CANCEL_OK
                         else if wait_rc \<noteq> 0 then VOP_REQUEST_CANCEL_ERROR else VOP_REQUEST_CANCEL_TIMEOUT) hdr kl))
                 else
                   (let s = KVEC_COUNTER_TO_IDX n (last_cnt r); e = KVEC_COUNTER_TO_IDX n (hdr_idx hdr p);
                        m = (buff hdr)(b + i := mark_cancelled (buff hdr (b + i)))
                    in case cancel_loop n b s e (kv_head (buff hdr (b + i))) ((i + 1) mod n) m of
                         None \<Rightarrow> None
                       | Some m' \<Rightarrow> Some (Ret (cancel_done VOP_REQUEST_CANCEL_OK (hdr\<lparr>buff := m'\<rparr>) kl)))
             | _ \<Rightarrow> Some Abort))"

end
