(* ===== verification/Kvec_Facts.thy ===== *)
theory Kvec_Facts
  imports Vop_Kvec
begin

text \<open>
  What the kvec buffers promise: the pages of the two sides agree, packets come out of a ring in the
  order they went in, cancelled ones excepted, an update leaves nothing unpublished, used packets
  are completed once and in order, and when a cancellation ends.
\<close>

section \<open>Fetching\<close>

lemma kvec_pos: "KVEC_COUNTER_TO_IDX n c < n" if "kvec_size_ok n" "kvec_cnt_ok n c"
  using kc.pos_less [OF that] .

lemma kvec_pos_other:
  assumes "kvec_size_ok n" "kvec_cnt_ok n l" "i < j" "j < n"
  shows "(KVEC_COUNTER_TO_IDX n l + i) mod n \<noteq> (KVEC_COUNTER_TO_IDX n l + j) mod n"
  using assms by (intro mod_turn_neq) auto

text \<open>Overwriting the first cell of a window does not change the rest.\<close>

lemma window_tail_write:
  assumes "kvec_size_ok n" "kvec_cnt_ok n l" "kvec_cnt_ok n c" "l \<noteq> c" "KVEC_COUNTER_USED n l c \<le> n"
  shows "kc.window (m(b + KVEC_COUNTER_TO_IDX n l := x)) b n (KVEC_COUNTER_ADD n l 1) c =
    kc.window m b n (KVEC_COUNTER_ADD n l 1) c"
proof (rule kc.window_other)
  fix i assume i: "i < KVEC_COUNTER_USED n (KVEC_COUNTER_ADD n l 1) c"
  have u: "1 \<le> KVEC_COUNTER_USED n l c" using kc.used_zero_iff [OF assms(1-3)] assms(4) by simp
  then have "Suc i < n" using kc.used_get [OF assms(1-3) u] i assms(5) by simp
  then have "(KVEC_COUNTER_TO_IDX n l + 0) mod n \<noteq> (KVEC_COUNTER_TO_IDX n l + Suc i) mod n"
    using assms by (intro kvec_pos_other) auto
  moreover have "KVEC_COUNTER_TO_IDX n (KVEC_COUNTER_ADD n l 1) = (KVEC_COUNTER_TO_IDX n l + 1) mod n"
    using kc.pos_add [OF assms(1,2)] .
  ultimately show "b + KVEC_COUNTER_TO_IDX n l \<noteq> b + (KVEC_COUNTER_TO_IDX n (KVEC_COUNTER_ADD n l 1) + i) mod n"
    using kvec_pos [OF assms(1,2)] by (simp add: mod_add_left_eq)
qed

lemma skip_cancelled_window:
  assumes "kvec_size_ok n" "kvec_cnt_ok n l" "kvec_cnt_ok n c" "KVEC_COUNTER_USED n l c \<le> n"
    and "skip_cancelled n b c l m = (l', m')"
  shows "kc.window m' b n l' c = dropWhile cancelled_kvec (kc.window m b n l c) \<and> kvec_cnt_ok n l' \<and>
    KVEC_COUNTER_USED n l' c \<le> n \<and> (l' = c \<or> \<not> cancelled_kvec (m' (b + KVEC_COUNTER_TO_IDX n l'))) \<and>
    (\<forall>a. iov (m' a) = iov (m a)) \<and> (\<forall>a. a < b \<or> b + n \<le> a \<longrightarrow> m' a = m a)"
  using assms
proof (induction n b c l m rule: skip_cancelled.induct)
  case (1 n b c l m)
  note p = 1(2-6)
  have n: "n \<noteq> 0" using p(1) by (simp add: kvec_size_ok_def)
  let ?p = "b + KVEC_COUNTER_TO_IDX n l"
  show ?case
  proof (cases "l = c \<or> \<not> cancelled_kvec (m ?p)")
    case True
    then have e: "l' = l" "m' = m" using p(5) n by (auto simp: skip_cancelled.simps [of n] Let_def split: if_splits)
    show ?thesis
    proof (cases "l = c")
      case True
      then show ?thesis using e p by (simp add: kc.window_empty)
    next
      case False
      then have "kc.window m b n l c = m ?p # kc.window m b n (KVEC_COUNTER_ADD n l 1) c"
        using p by (intro kc.window_Cons)
      then show ?thesis using e p True False by simp
    qed
  next
    case False
    then have lc: "l \<noteq> c" and ca: "cancelled_kvec (m ?p)" by auto
    let ?m = "m(?p := clear_kvec (m ?p))" and ?l = "KVEC_COUNTER_ADD n l 1"
    have rec: "skip_cancelled n b c ?l ?m = (l', m')"
      using p(5) n lc ca by (simp add: skip_cancelled.simps [of n b c l] Let_def)
    have u: "1 \<le> KVEC_COUNTER_USED n l c" using kc.used_zero_iff [OF p(1-3)] lc by simp
    then have u1: "KVEC_COUNTER_USED n ?l c \<le> n" using kc.used_get [OF p(1-3) u] p(4) by simp
    have IH: "kc.window m' b n l' c = dropWhile cancelled_kvec (kc.window ?m b n ?l c) \<and> kvec_cnt_ok n l' \<and>
        KVEC_COUNTER_USED n l' c \<le> n \<and> (l' = c \<or> \<not> cancelled_kvec (m' (b + KVEC_COUNTER_TO_IDX n l'))) \<and>
        (\<forall>a. iov (m' a) = iov (?m a)) \<and> (\<forall>a. a < b \<or> b + n \<le> a \<longrightarrow> m' a = ?m a)"
      using n lc ca rec u1 p by (intro 1(1)) (auto simp: kc.add_ok simp del: fun_upd_apply)
    have "kc.window ?m b n ?l c = kc.window m b n ?l c"
      using window_tail_write [OF p(1-3) lc p(4)] .
    moreover have "kc.window m b n l c = m ?p # kc.window m b n ?l c"
      using p lc by (intro kc.window_Cons)
    moreover have "iov (?m a) = iov (m a)" for a by (simp add: clear_kvec_def)
    moreover have "a < b \<or> b + n \<le> a \<Longrightarrow> ?m a = m a" for a
      using kvec_pos [OF p(1,2)] by auto
    ultimately show ?thesis using IH ca by (simp del: fun_upd_apply)
  qed
qed

lemma counter_eq_iff:
  assumes "kvec_size_ok n" "kvec_cnt_ok n l" "kvec_cnt_ok n c"
  shows "KVEC_COUNTER_EQ (unat l + k) (unat c) n \<longleftrightarrow> KVEC_COUNTER_ADD n l k = c"
proof -
  have "unat (KVEC_COUNTER_ADD n l k) = (unat l + k) mod (2 * n)" by (rule kc.addval [OF assms(1,2)])
  then show ?thesis
    using assms(3) kc.val_inj [of "KVEC_COUNTER_ADD n l k" c]
    by (auto simp: KVEC_COUNTER_EQ_def kvec_cnt_ok_def)
qed

lemma gather_window:
  assumes "kvec_size_ok n" "kvec_cnt_ok n l" "kvec_cnt_ok n c" "KVEC_COUNTER_USED n l c \<le> n"
    and "0 < k" "k \<le> KVEC_COUNTER_USED n l c" "x = KVEC_COUNTER_TO_IDX n (KVEC_COUNTER_ADD n l k)"
    and "gather n b c l h k x m = (k', m')"
  shows "k' = k + length (takeWhile (\<lambda>q. kv_head q = h) (kc.window m b n (KVEC_COUNTER_ADD n l k) c)) \<and>
    kc.window m' b n (KVEC_COUNTER_ADD n l k') c =
      dropWhile (\<lambda>q. kv_head q = h) (kc.window m b n (KVEC_COUNTER_ADD n l k) c) \<and>
    k' \<le> KVEC_COUNTER_USED n l c \<and>
    (\<forall>a. iov (m' a) = iov (m a)) \<and> (\<forall>a. a < b \<or> b + n \<le> a \<longrightarrow> m' a = m a)"
  using assms
proof (induction n b c l h k x m rule: gather.induct)
  case (1 n b c l h k x m)
  note p = 1(2-9)
  let ?l = "KVEC_COUNTER_ADD n l k"
  have okl: "kvec_cnt_ok n ?l" by (rule kc.add_ok [OF p(1,2)])
  have eq: "KVEC_COUNTER_EQ (unat l + k) (unat c) n \<longleftrightarrow> ?l = c" by (rule counter_eq_iff [OF p(1-3)])
  have ul: "KVEC_COUNTER_USED n ?l c = KVEC_COUNTER_USED n l c - k" by (rule kc.used_get [OF p(1-3,6)])
  show ?case
  proof (cases "?l = c")
    case True
    then have "k' = k" "m' = m" using p(8) eq by (simp_all add: gather.simps [of n b c l h k])
    then show ?thesis using True p(1,3,6) by (simp add: kc.window_empty)
  next
    case False
    then have "KVEC_COUNTER_USED n ?l c \<noteq> 0" using kc.used_zero_iff [OF p(1) okl p(3)] by simp
    then have kn: "k < n" "Suc k \<le> KVEC_COUNTER_USED n l c" using ul p(4) by linarith+
    have w: "kc.window m b n ?l c = m (b + x) # kc.window m b n (KVEC_COUNTER_ADD n ?l 1) c"
      unfolding p(7) by (rule kc.window_Cons [OF p(1) okl p(3) False])
    show ?thesis
    proof (cases "h = kv_head (m (b + x))")
      case differs: False
      then have "k' = k" "m' = m" using p(8) eq by (simp_all add: gather.simps [of n b c l h k])
      then show ?thesis using w differs p(6) by auto
    next
      case same: True
      let ?m = "m(b + x := (m (b + x))\<lparr>kv_head := 0\<rparr>)"
      have x: "x < n" unfolding p(7) by (rule kvec_pos [OF p(1) okl])
      have rec: "gather n b c l h (k + 1) ((x + 1) mod n) ?m = (k', m')"
        using p(8) eq False same kn unfolding gather.simps [of n b c l h k x m] by simp
      have add2: "KVEC_COUNTER_ADD n l (k + 1) = KVEC_COUNTER_ADD n ?l 1"
        by (rule kc.add_add [OF p(1,2), symmetric])
      have x2: "(x + 1) mod n = KVEC_COUNTER_TO_IDX n (KVEC_COUNTER_ADD n l (k + 1))"
        unfolding add2 p(7) by (rule kc.pos_add [OF p(1) okl, symmetric])
      have "kc.window ?m b n (KVEC_COUNTER_ADD n ?l 1) c = kc.window m b n (KVEC_COUNTER_ADD n ?l 1) c"
        unfolding p(7) using p(4) ul by (intro window_tail_write [OF p(1) okl p(3) False]) simp
      then have ws: "kc.window ?m b n (KVEC_COUNTER_ADD n l (k + 1)) c = kc.window m b n (KVEC_COUNTER_ADD n ?l 1) c"
        by (simp only: add2)
      have "k' = k + 1 + length (takeWhile (\<lambda>q. kv_head q = h) (kc.window ?m b n (KVEC_COUNTER_ADD n l (k + 1)) c)) \<and>
          kc.window m' b n (KVEC_COUNTER_ADD n l k') c =
            dropWhile (\<lambda>q. kv_head q = h) (kc.window ?m b n (KVEC_COUNTER_ADD n l (k + 1)) c) \<and>
          k' \<le> KVEC_COUNTER_USED n l c \<and>
          (\<forall>a. iov (m' a) = iov (?m a)) \<and> (\<forall>a. a < b \<or> b + n \<le> a \<longrightarrow> m' a = ?m a)"
        using p rec kn False same eq x2 by (intro 1(1)) (simp_all del: fun_upd_apply)
      then have IH: "k' = k + 1 + length (takeWhile (\<lambda>q. kv_head q = h) (kc.window m b n (KVEC_COUNTER_ADD n ?l 1) c))"
        "kc.window m' b n (KVEC_COUNTER_ADD n l k') c =
           dropWhile (\<lambda>q. kv_head q = h) (kc.window m b n (KVEC_COUNTER_ADD n ?l 1) c)"
        "k' \<le> KVEC_COUNTER_USED n l c"
        "\<forall>a. iov (m' a) = iov (?m a)" "\<forall>a. a < b \<or> b + n \<le> a \<longrightarrow> m' a = ?m a"
        unfolding ws by blast+
      have "\<forall>a. iov (m' a) = iov (m a)" using IH(4) by simp
      moreover have "\<forall>a. a < b \<or> b + n \<le> a \<longrightarrow> m' a = m a" using IH(5) x by auto
      moreover have "takeWhile (\<lambda>q. kv_head q = h) (kc.window m b n ?l c) =
          m (b + x) # takeWhile (\<lambda>q. kv_head q = h) (kc.window m b n (KVEC_COUNTER_ADD n ?l 1) c)"
        "dropWhile (\<lambda>q. kv_head q = h) (kc.window m b n ?l c) =
          dropWhile (\<lambda>q. kv_head q = h) (kc.window m b n (KVEC_COUNTER_ADD n ?l 1) c)"
        unfolding w using same by simp_all
      ultimately show ?thesis using IH(1-3) by simp
    qed
  qed
qed

text \<open>
  The descriptors that wait in ring \<open>i\<close> of a local buffer, and a ring whose pointers and counters
  are as set up by the driver: \<open>p\<close> is its counter, \<open>b\<close> its first cell, \<open>n\<close> its size.
\<close>

definition pending :: "vop_peer_kvec_buf_header \<Rightarrow> nat \<Rightarrow> vop_kvec_buf_local \<Rightarrow> vop_peer_kvec list" where
  "pending hdr i kl =
     (let r = l_rings kl ! i in
      kc.window (buff hdr) (the (buf r)) (ring_num r) (last_cnt r) (hdr_idx hdr (the (cnt r))))"

definition ring_ok :: "vop_peer_kvec_buf_header \<Rightarrow> nat \<Rightarrow> vop_kvec_buf_local \<Rightarrow> bool" where
  "ring_ok hdr i kl \<longleftrightarrow>
     (let r = l_rings kl ! i; n = ring_num r in
      i < length (l_rings kl) \<and> cnt r \<noteq> None \<and> buf r \<noteq> None \<and> kvec_size_ok n \<and> kvec_cnt_ok n (last_cnt r) \<and>
      kvec_cnt_ok n (hdr_idx hdr (the (cnt r))) \<and>
      KVEC_COUNTER_USED n (last_cnt r) (hdr_idx hdr (the (cnt r))) \<le> n)"

definition same_head :: "u16 \<Rightarrow> vop_peer_kvec \<Rightarrow> bool" where
  "same_head h k \<longleftrightarrow> kv_head k = h"

text \<open>
  The reference: drop what is cancelled at the front, take the packet, the descriptors that follow
  with the same head.
\<close>

lemma get_empty:
  assumes "l_pages kl = Some hdr" and "ring_ok hdr i kl" and "dropWhile cancelled_kvec (pending hdr i kl) = []"
  shows "\<exists>kl' hdr'. vop_kvec_get i kl item = Ret (- EAGAIN, item\<lparr>head_to := USHRT_MAX\<rparr>, kl') \<and>
    l_pages kl' = Some hdr' \<and> ring_ok hdr' i kl' \<and> pending hdr' i kl' = []"
proof -
  let ?r = "l_rings kl ! i"
  let ?n = "ring_num ?r"
  obtain p b where pb: "cnt ?r = Some p" "buf ?r = Some b" using assms(2) by (auto simp: ring_ok_def Let_def)
  let ?c = "hdr_idx hdr p"
  have ok: "i < length (l_rings kl)" "kvec_size_ok ?n" "kvec_cnt_ok ?n (last_cnt ?r)" "kvec_cnt_ok ?n ?c"
    "KVEC_COUNTER_USED ?n (last_cnt ?r) ?c \<le> ?n"
    using assms(2) pb by (simp_all add: ring_ok_def Let_def)
  obtain l m where s: "skip_cancelled ?n b ?c (last_cnt ?r) (buff hdr) = (l, m)"
    by (cases "skip_cancelled ?n b ?c (last_cnt ?r) (buff hdr)")
  from skip_cancelled_window [OF ok(2-5) s] assms(3) pb
  have w: "kc.window m b ?n l ?c = []" "kvec_cnt_ok ?n l" "KVEC_COUNTER_USED ?n l ?c \<le> ?n"
    by (simp_all add: pending_def Let_def)
  then have "KVEC_COUNTER_USED ?n l ?c = 0" using kc.length_window [of m b ?n l ?c] by simp
  then have l: "l = ?c" using kc.used_zero_iff [OF ok(2) w(2) ok(4)] by simp
  have "?n \<noteq> 0" using ok(2) by (simp add: kvec_size_ok_def)
  then show ?thesis
    using assms(1) pb s l ok w
    by (simp add: vop_kvec_get_def Let_def pending_def ring_ok_def kc.used_self kc.window_empty)
qed

lemma get_packet:
  assumes "l_pages kl = Some hdr" and "ring_ok hdr i kl"
    and "dropWhile cancelled_kvec (pending hdr i kl) = k # ks" and "h = kv_head k"
  shows "\<exists>kl' hdr' b. vop_kvec_get i kl item =
      Ret (0, item\<lparr>head_to := h, num_kvecs_to := Suc (length (takeWhile (same_head h) ks)), kvec_to := b\<rparr>, kl') \<and>
    l_pages kl' = Some hdr' \<and> ring_ok hdr' i kl' \<and> pending hdr' i kl' = dropWhile (same_head h) ks \<and>
    iov (buff hdr' (the (buf (l_rings kl ! i)) + b)) = iov k \<and>
    kv_flags (buff hdr' (the (buf (l_rings kl ! i)) + b)) = VOP_KVEC_FLAG_IN_USE \<and>
    b < ring_num (l_rings kl ! i)"
proof -
  let ?r = "l_rings kl ! i"
  let ?n = "ring_num ?r"
  obtain p b where pb: "cnt ?r = Some p" "buf ?r = Some b" using assms(2) by (auto simp: ring_ok_def Let_def)
  let ?c = "hdr_idx hdr p"
  have ok: "i < length (l_rings kl)" "kvec_size_ok ?n" "kvec_cnt_ok ?n (last_cnt ?r)" "kvec_cnt_ok ?n ?c"
    "KVEC_COUNTER_USED ?n (last_cnt ?r) ?c \<le> ?n"
    using assms(2) pb by (simp_all add: ring_ok_def Let_def)
  obtain l m where s: "skip_cancelled ?n b ?c (last_cnt ?r) (buff hdr) = (l, m)"
    by (cases "skip_cancelled ?n b ?c (last_cnt ?r) (buff hdr)")
  from skip_cancelled_window [OF ok(2-5) s] assms(3) pb
  have w: "kc.window m b ?n l ?c = k # ks" "kvec_cnt_ok ?n l" "KVEC_COUNTER_USED ?n l ?c \<le> ?n"
    by (simp_all add: pending_def Let_def)
  have ul: "KVEC_COUNTER_USED ?n l ?c = Suc (length ks)"
    using w(1) kc.length_window [of m b ?n l ?c] by simp
  then have lc: "l \<noteq> ?c" using kc.used_zero_iff [OF ok(2) w(2) ok(4)] by simp
  let ?f = "KVEC_COUNTER_TO_IDX ?n l" and ?l1 = "KVEC_COUNTER_ADD ?n l 1"
  have w1: "kc.window m b ?n l ?c = m (b + ?f) # kc.window m b ?n ?l1 ?c"
    using ok w lc by (intro kc.window_Cons)
  then have k: "m (b + ?f) = k" and ks: "kc.window m b ?n ?l1 ?c = ks" using w(1) by simp_all
  let ?m1 = "m(b + ?f := (m (b + ?f))\<lparr>kv_head := 0\<rparr>)"
  obtain q m' where g: "gather ?n b ?c l h 1 (KVEC_COUNTER_TO_IDX ?n ?l1) ?m1 = (q, m')"
    by (cases "gather ?n b ?c l h 1 (KVEC_COUNTER_TO_IDX ?n ?l1) ?m1")
  have ks1: "kc.window ?m1 b ?n ?l1 ?c = ks"
    by (simp only: window_tail_write [OF ok(2) w(2) ok(4) lc w(3)] ks)
  have gw: "q = 1 + length (takeWhile (\<lambda>q. kv_head q = h) (kc.window ?m1 b ?n ?l1 ?c)) \<and>
      kc.window m' b ?n (KVEC_COUNTER_ADD ?n l q) ?c = dropWhile (\<lambda>q. kv_head q = h) (kc.window ?m1 b ?n ?l1 ?c) \<and>
      q \<le> KVEC_COUNTER_USED ?n l ?c \<and> (\<forall>a. iov (m' a) = iov (?m1 a)) \<and> (\<forall>a. a < b \<or> b + ?n \<le> a \<longrightarrow> m' a = ?m1 a)"
    using ul w(3) by (intro gather_window [OF ok(2) w(2) ok(4) w(3) _ _ refl g]) simp_all
  have sh: "(\<lambda>q. kv_head q = h) = same_head h" by (simp add: fun_eq_iff same_head_def)
  note gw' = gw [unfolded ks1 sh]
  have q1: "q = 1 + length (takeWhile (same_head h) ks)" and dw: "kc.window m' b ?n (KVEC_COUNTER_ADD ?n l q) ?c = dropWhile (same_head h) ks"
    and q2: "q \<le> KVEC_COUNTER_USED ?n l ?c" and iv0: "iov (m' (b + ?f)) = iov (?m1 (b + ?f))"
    using gw' by blast+
  have q: "q = Suc (length (takeWhile (same_head h) ks))" "q \<le> KVEC_COUNTER_USED ?n l ?c" "0 < q"
    using q1 q2 by simp_all
  have iv: "iov (m' (b + ?f)) = iov k" using iv0 k by simp
  let ?m2 = "m'(b + ?f := (m' (b + ?f))\<lparr>kv_flags := VOP_KVEC_FLAG_IN_USE\<rparr>)"
  have okq: "kvec_cnt_ok ?n (KVEC_COUNTER_ADD ?n l q)" by (rule kc.add_ok [OF ok(2) w(2)])
  have uq: "KVEC_COUNTER_USED ?n (KVEC_COUNTER_ADD ?n l q) ?c = KVEC_COUNTER_USED ?n l ?c - q"
    by (rule kc.used_get [OF ok(2) w(2) ok(4) q(2)])
  have "kc.window ?m2 b ?n (KVEC_COUNTER_ADD ?n l q) ?c = kc.window m' b ?n (KVEC_COUNTER_ADD ?n l q) ?c"
  proof (rule kc.window_other)
    fix j assume "j < KVEC_COUNTER_USED ?n (KVEC_COUNTER_ADD ?n l q) ?c"
    then have "q + j < ?n" using uq w(3) by simp
    then have "(?f + 0) mod ?n \<noteq> (?f + (q + j)) mod ?n"
      using ok(2) w(2) q(3) by (intro kvec_pos_other) auto
    moreover have "?f < ?n" using kvec_pos [OF ok(2) w(2)] .
    ultimately show "b + ?f \<noteq> b + (KVEC_COUNTER_TO_IDX ?n (KVEC_COUNTER_ADD ?n l q) + j) mod ?n"
      unfolding kc.pos_add [OF ok(2) w(2)] by (simp add: mod_add_left_eq add.assoc)
  qed
  then have dw2: "kc.window ?m2 b ?n (KVEC_COUNTER_ADD ?n l q) ?c = dropWhile (same_head h) ks" using dw by simp
  have fm: "unat l mod ?n = ?f" by (simp add: KVEC_COUNTER_TO_IDX_def)
  have xm: "(unat l + 1) mod ?n = KVEC_COUNTER_TO_IDX ?n ?l1"
    unfolding kc.pos_add [OF ok(2) w(2)] by (simp add: KVEC_COUNTER_TO_IDX_def mod_Suc_eq)
  have nz: "?n \<noteq> 0" using ok(2) by (simp add: kvec_size_ok_def)
  let ?kl = "kl\<lparr>l_pages := Some (hdr\<lparr>buff := ?m2\<rparr>), l_rings := (l_rings kl)[i := ?r\<lparr>
      last_cnt := KVEC_COUNTER_ADD ?n l q, stats_num := stats_num ?r + 1\<rparr>]\<rparr>"
  have "vop_kvec_get i kl item = Ret (0, item\<lparr>head_to := h, num_kvecs_to := q, kvec_to := ?f\<rparr>, ?kl)"
    using nz lc k s g by (simp add: vop_kvec_get_def pb Let_def fm xm [simplified] assms(1,4))
  moreover have "ring_ok (hdr\<lparr>buff := ?m2\<rparr>) i ?kl"
    using ok pb okq uq w(3) by (simp add: ring_ok_def Let_def del: fun_upd_apply)
  moreover have "pending (hdr\<lparr>buff := ?m2\<rparr>) i ?kl = dropWhile (same_head h) ks"
    using ok pb dw2 by (simp add: pending_def Let_def del: fun_upd_apply)
  moreover have "?f < ?n" using kvec_pos [OF ok(2) w(2)] .
  ultimately show ?thesis using q(1) iv pb by (intro exI [of _ ?kl] exI [of _ "hdr\<lparr>buff := ?m2\<rparr>"] exI [of _ ?f]) simp
qed

section \<open>Two linked sides\<close>

text \<open>
  The reader's buffer and the writer's mapping of it: the same page, the same three rings of \<open>n\<close>
  cells one behind the other, and what the writer has put in is published. The driver only uses
  even sizes: packets are written as pairs of cells.
\<close>

definition rings_agree :: "nat \<Rightarrow> vop_peer_kvec_buf_header \<Rightarrow> nat \<Rightarrow> vop_kvec_ring \<Rightarrow> vop_kvec_ring \<Rightarrow> bool" where
  "rings_agree n hdr i r s \<longleftrightarrow>
     cnt r = Some i \<and> buf r = Some (i * n) \<and> ring_num r = n \<and> cnt s = Some i \<and> buf s = Some (i * n) \<and>
     ring_num s = n \<and> send_max_size s = Some i \<and> kvec_cnt_ok n (last_cnt r) \<and> kvec_cnt_ok n (last_cnt s) \<and>
     even (unat (last_cnt s)) \<and> hdr_idx hdr i = last_cnt s \<and> KVEC_COUNTER_USED n (last_cnt r) (last_cnt s) \<le> n"

definition kvec_link :: "nat \<Rightarrow> vop_peer_kvec_buf_header \<Rightarrow> vop_kvec_buf_local \<Rightarrow> vop_kvec_buf_remote \<Rightarrow> bool" where
  "kvec_link n hdr kl kr \<longleftrightarrow>
     l_pages kl = Some hdr \<and> r_va kr = Some hdr \<and> length (l_rings kl) = KVEC_BUF_NUM \<and>
     length (r_rings kr) = KVEC_BUF_NUM \<and> kvec_size_ok n \<and> even n \<and>
     (\<forall>i < KVEC_BUF_NUM. rings_agree n hdr i (l_rings kl ! i) (r_rings kr ! i))"

lemma link_ring_ok: "kvec_link n hdr kl kr \<Longrightarrow> i < KVEC_BUF_NUM \<Longrightarrow> ring_ok hdr i kl"
  by (auto simp: kvec_link_def ring_ok_def rings_agree_def Let_def)

lemma link_pending:
  "kvec_link n hdr kl kr \<Longrightarrow> i < KVEC_BUF_NUM \<Longrightarrow>
     pending hdr i kl = kc.window (buff hdr) (i * n) n (last_cnt (l_rings kl ! i)) (last_cnt (r_rings kr ! i))"
  by (auto simp: kvec_link_def pending_def rings_agree_def Let_def)

text \<open>A pair of cells written at the writer's position of a ring of even size.\<close>

lemma pair_window:
  assumes "kvec_size_ok n" "even n" "kvec_cnt_ok n l" "kvec_cnt_ok n c" "even (unat c)"
    and "KVEC_COUNTER_USED n l c + 2 \<le> n" and "p = b + KVEC_COUNTER_TO_IDX n c"
  shows "kc.window (m(p := x, Suc p := y)) b n l (KVEC_COUNTER_ADD n c 2) = kc.window m b n l c @ [x, y]"
    and "Suc (KVEC_COUNTER_TO_IDX n c) < n"
proof -
  have n: "0 < n" using assms(1) by (simp add: kvec_size_ok_def)
  have "even (KVEC_COUNTER_TO_IDX n c)"
    using assms(2,5) by (simp add: KVEC_COUNTER_TO_IDX_def dvd_mod_iff)
  moreover have "KVEC_COUNTER_TO_IDX n c < n" using kvec_pos [OF assms(1,4)] .
  ultimately show s: "Suc (KVEC_COUNTER_TO_IDX n c) < n"
    using assms(2) by (metis Suc_lessI even_Suc)
  have "KVEC_COUNTER_TO_IDX n (KVEC_COUNTER_ADD n c 1) = Suc (KVEC_COUNTER_TO_IDX n c)"
    using kc.pos_add [OF assms(1,4), of 1] s by simp
  moreover have "KVEC_COUNTER_ADD n (KVEC_COUNTER_ADD n c 1) 1 = KVEC_COUNTER_ADD n c 2"
    using kc.add_add [OF assms(1,4), of 1 1] by (simp add: numeral_2_eq_2)
  ultimately show "kc.window (m(p := x, Suc p := y)) b n l (KVEC_COUNTER_ADD n c 2) = kc.window m b n l c @ [x, y]"
    using kc.window_put2 [OF assms(1,3,4), of m b x y] assms(6) n unfolding assms(7) by simp
qed

lemma other_ring:
  fixes n :: nat
  assumes "x < n" "y < n" "i \<noteq> j"
  shows "i * n + x \<noteq> j * n + y"
proof
  assume "i * n + x = j * n + y"
  then have "(i * n + x) div n = (j * n + y) div n" by simp
  with assms show False by simp
qed

lemma window_other_ring:
  assumes "kvec_size_ok n" "x < n" "i \<noteq> j"
  shows "kc.window (m(i * n + x := k)) (j * n) n l c = kc.window m (j * n) n l c"
proof (rule kc.window_cong [OF _ assms(1)])
  fix a assume "a < n"
  with assms have "j * n + a \<noteq> i * n + x" by (intro other_ring) auto
  then show "(m(i * n + x := k)) (j * n + a) = m (j * n + a)" by simp
qed

text \<open>What a put and the publication of its counter do to the writer's side.\<close>

definition with_size :: "u64 \<Rightarrow> nat \<Rightarrow> vop_kvec_buf_remote \<Rightarrow> vop_kvec_buf_remote" where
  "with_size sz i kr =
     (let r = r_rings kr ! i in
      if send_max_size_local r = 0 \<or> sz < ucast (send_max_size_local r)
      then kr\<lparr>r_va := map_option (\<lambda>hdr. hdr\<lparr>hdr_max_size := (hdr_max_size hdr)(i := ucast sz)\<rparr>) (r_va kr),
             r_rings := (r_rings kr)[i := r\<lparr>send_max_size_local := ucast sz\<rparr>]\<rparr>
      else kr)"

lemma link_with_size:
  assumes "kvec_link n hdr kl kr" "i < KVEC_BUF_NUM"
  shows "publish_max_size sz i kr = Ret (with_size sz i kr) \<and>
    (\<exists>hdr'. r_va (with_size sz i kr) = Some hdr' \<and> buff hdr' = buff hdr \<and> hdr_idx hdr' = hdr_idx hdr \<and>
      kvec_link n hdr' (kl\<lparr>l_pages := Some hdr'\<rparr>) (with_size sz i kr)) \<and>
    (\<forall>j < KVEC_BUF_NUM. last_cnt (r_rings (with_size sz i kr) ! j) = last_cnt (r_rings kr ! j)) \<and>
    (\<forall>j < KVEC_BUF_NUM. ring_num (r_rings (with_size sz i kr) ! j) = ring_num (r_rings kr ! j)) \<and>
    length (r_rings (with_size sz i kr)) = KVEC_BUF_NUM"
proof -
  have l: "l_pages kl = Some hdr" "r_va kr = Some hdr" "length (r_rings kr) = KVEC_BUF_NUM"
    "send_max_size (r_rings kr ! i) = Some i"
    using assms by (auto simp: kvec_link_def rings_agree_def)
  then show ?thesis
    using assms by (auto simp: publish_max_size_def with_size_def Let_def kvec_link_def rings_agree_def nth_list_update)
qed

lemma publish_one:
  assumes "i < KVEC_BUF_NUM" "r_va kr = Some hdr" "cnt (r_rings kr ! i) = Some i"
  shows "publish_counters [0..<KVEC_BUF_NUM] ((\<lambda>_. 0)(i := 1)) kr =
    Ret (kr\<lparr>r_va := Some (hdr\<lparr>hdr_idx := (hdr_idx hdr)(i := last_cnt (r_rings kr ! i))\<rparr>)\<rparr>)"
proof -
  have u: "[0..<KVEC_BUF_NUM] = [0, 1, 2]" by (simp add: KVEC_BUF_NUM_def upt_rec)
  from assms(1) have "i = 0 \<or> i = 1 \<or> i = 2" by (auto simp: KVEC_BUF_NUM_def)
  then show ?thesis using assms(2,3) unfolding u by auto
qed

text \<open>
  C27. A packet of two descriptors goes into the ring that fits its data buffer, at the end: what
  waited there comes first, the other rings keep what they had. The reader sees nothing of it until
  the counter is published, and the two sides agree again when it is.
\<close>
theorem packet_queued:
  assumes "kvec_link n hdr kl kr" and "get_ring_id_write (iov_len v1) = int i" and "i < KVEC_BUF_NUM"
    and "length (pending hdr i kl) + 2 \<le> n"
  shows "\<exists>kr1 kr2 hdr1 hdr2. vop_kvec_put [v0, v1] h kr = Ret (int i, USHRT_MAX, kr1) \<and>
    r_va kr1 = Some hdr1 \<and> (\<forall>j < KVEC_BUF_NUM. pending hdr1 j (kl\<lparr>l_pages := Some hdr1\<rparr>) = pending hdr j kl) \<and>
    publish_counters [0..<KVEC_BUF_NUM] ((\<lambda>_. 0)(i := 1)) kr1 = Ret kr2 \<and>
    kvec_link n hdr2 (kl\<lparr>l_pages := Some hdr2\<rparr>) kr2 \<and>
    (\<forall>j < KVEC_BUF_NUM. pending hdr2 j (kl\<lparr>l_pages := Some hdr2\<rparr>) =
       pending hdr j kl @ (if j = i then [peer_kvec h v0, peer_kvec h v1] else []))"
proof -
  let ?kr = "with_size (iov_len v1) i kr"
  from link_with_size [OF assms(1,3)] obtain hdr0 where w: "publish_max_size (iov_len v1) i kr = Ret ?kr"
    "r_va ?kr = Some hdr0" "buff hdr0 = buff hdr" "hdr_idx hdr0 = hdr_idx hdr"
    and lk: "kvec_link n hdr0 (kl\<lparr>l_pages := Some hdr0\<rparr>) ?kr"
    and lc: "\<forall>j < KVEC_BUF_NUM. last_cnt (r_rings ?kr ! j) = last_cnt (r_rings kr ! j)" by blast
  let ?s = "r_rings ?kr ! i" and ?k0 = "peer_kvec h v0" and ?k1 = "peer_kvec h v1"
  let ?c = "last_cnt (r_rings kr ! i)"
  have n: "kvec_size_ok n" "even n" using assms(1) by (simp_all add: kvec_link_def)
  have ag: "rings_agree n hdr j (l_rings kl ! j) (r_rings kr ! j)" if "j < KVEC_BUF_NUM" for j
    using assms(1) that by (simp add: kvec_link_def)
  have ag0: "rings_agree n hdr0 j (l_rings kl ! j) (r_rings ?kr ! j)" if "j < KVEC_BUF_NUM" for j
    using lk that by (simp add: kvec_link_def)
  let ?p = "i * n + KVEC_COUNTER_TO_IDX n ?c" and ?c' = "KVEC_COUNTER_ADD n ?c 2"
  let ?l = "\<lambda>j. last_cnt (l_rings kl ! j)"
  have si: "ring_num ?s = n" "buf ?s = Some (i * n)" "last_cnt ?s = ?c" "cnt ?s = Some i"
    "length (r_rings ?kr) = KVEC_BUF_NUM"
    using ag0 [OF assms(3)] lc assms(3) lk by (simp_all add: rings_agree_def kvec_link_def)
  let ?m = "(buff hdr)(?p := ?k0, Suc ?p := ?k1)"
  let ?hdr1 = "hdr0\<lparr>buff := ?m\<rparr>"
  let ?kr1 = "?kr\<lparr>r_va := Some ?hdr1, r_rings := (r_rings ?kr)[i := ?s\<lparr>last_cnt := ?c'\<rparr>]\<rparr>"
  have nz: "n \<noteq> 0" using n(1) by (simp add: kvec_size_ok_def)
  have put: "vop_kvec_put [v0, v1] h kr = Ret (int i, USHRT_MAX, ?kr1)"
    using assms(2) w si nz by (simp add: vop_kvec_put_def put_pair_def Let_def)
  let ?hdr2 = "?hdr1\<lparr>hdr_idx := (hdr_idx hdr)(i := ?c')\<rparr>"
  have pub: "publish_counters [0..<KVEC_BUF_NUM] ((\<lambda>_. 0)(i := 1)) ?kr1 = Ret (?kr1\<lparr>r_va := Some ?hdr2\<rparr>)"
    using publish_one [of i ?kr1 ?hdr1] assms(3) si w(4) by simp
  have c: "kvec_cnt_ok n ?c" "even (unat ?c)" "kvec_cnt_ok n (?l i)"
    using ag [OF assms(3)] by (simp_all add: rings_agree_def)
  have u: "KVEC_COUNTER_USED n (?l i) ?c + 2 \<le> n"
    using assms(4) unfolding link_pending [OF assms(1,3)] by simp
  note pw = pair_window [OF n c(3,1,2) u refl]
  have own: "kc.window ?m (i * n) n (?l i) ?c' = pending hdr i kl @ [?k0, ?k1]"
    unfolding link_pending [OF assms(1,3)] by (rule pw(1))
  have other: "kc.window ?m (j * n) n l d = kc.window (buff hdr) (j * n) n l d" if "j \<noteq> i" for j l d
  proof -
    have "kc.window ?m (j * n) n l d = kc.window ((buff hdr)(?p := ?k0)) (j * n) n l d"
      using window_other_ring [OF n(1) pw(2), of i j _ ?k1] that by simp
    also have "\<dots> = kc.window (buff hdr) (j * n) n l d"
      using pw(2) that by (intro window_other_ring [OF n(1)]) auto
    finally show ?thesis .
  qed
  have okc': "kvec_cnt_ok n ?c'" by (rule kc.add_ok [OF n(1) c(1)])
  have u': "KVEC_COUNTER_USED n (?l i) ?c' = KVEC_COUNTER_USED n (?l i) ?c + 2"
    using u nz by (intro kc.used_put [OF n(1) c(3,1)]) linarith
  have "kc.window ?m (i * n) n (?l i) ?c = take (KVEC_COUNTER_USED n (?l i) ?c) (kc.window ?m (i * n) n (?l i) ?c')"
    by (simp add: kc.window_def u' circ_take)
  also have "\<dots> = pending hdr i kl" unfolding own link_pending [OF assms(1,3)] by simp
  finally have before: "kc.window ?m (i * n) n (?l i) ?c = pending hdr i kl" .
  have idx: "hdr_idx hdr j = last_cnt (r_rings kr ! j)" if "j < KVEC_BUF_NUM" for j
    using ag [OF that] by (simp add: rings_agree_def)
  have p1: "pending ?hdr1 j (kl\<lparr>l_pages := Some ?hdr1\<rparr>) = pending hdr j kl" if j: "j < KVEC_BUF_NUM" for j
  proof -
    have "pending ?hdr1 j (kl\<lparr>l_pages := Some ?hdr1\<rparr>) = kc.window ?m (j * n) n (?l j) (last_cnt (r_rings kr ! j))"
      using ag [OF j] w(4) by (simp add: pending_def Let_def rings_agree_def)
    then show ?thesis using before other link_pending [OF assms(1) j] by (cases "j = i") simp_all
  qed
  have p2: "pending ?hdr2 j (kl\<lparr>l_pages := Some ?hdr2\<rparr>) = pending hdr j kl @ (if j = i then [?k0, ?k1] else [])"
    if j: "j < KVEC_BUF_NUM" for j
  proof -
    have "pending ?hdr2 j (kl\<lparr>l_pages := Some ?hdr2\<rparr>) =
        kc.window ?m (j * n) n (?l j) (if j = i then ?c' else last_cnt (r_rings kr ! j))"
      using ag [OF j] by (simp add: pending_def Let_def rings_agree_def del: fun_upd_apply) simp
    then show ?thesis using own other link_pending [OF assms(1) j] by (cases "j = i") simp_all
  qed
  have ev: "even (unat ?c')" using c(2) by (simp add: kc.addval [OF n(1) c(1)] dvd_mod_iff)
  have "rings_agree n ?hdr2 j (l_rings kl ! j) (r_rings (?kr1\<lparr>r_va := Some ?hdr2\<rparr>) ! j)" if j: "j < KVEC_BUF_NUM" for j
    using ag0 [OF j] si okc' u' u ev w(4) assms(3) j by (cases "j = i") (simp_all add: rings_agree_def)
  then have "kvec_link n ?hdr2 (kl\<lparr>l_pages := Some ?hdr2\<rparr>) (?kr1\<lparr>r_va := Some ?hdr2\<rparr>)"
    using lk unfolding kvec_link_def by simp
  then show ?thesis using put pub p1 p2
    by (intro exI [of _ ?kr1] exI [of _ "?kr1\<lparr>r_va := Some ?hdr2\<rparr>"] exI [of _ ?hdr1] exI [of _ ?hdr2]) simp
qed

text \<open>
  C28. A fetch drops the cancelled descriptors at the front of its ring and takes the next packet:
  the first descriptor and those that follow with the same head. It reports the packet's head and
  the number of its descriptors and leaves exactly the rest. When nothing is left after the
  cancelled ones, it says so, and the ring is empty.
\<close>
theorem packet_fetched:
  assumes "l_pages kl = Some hdr" and "ring_ok hdr i kl"
  shows "\<exists>rc item' kl' hdr'. vop_kvec_get i kl item = Ret (rc, item', kl') \<and>
    l_pages kl' = Some hdr' \<and> ring_ok hdr' i kl' \<and>
    (case dropWhile cancelled_kvec (pending hdr i kl) of
       [] \<Rightarrow> rc = - EAGAIN \<and> head_to item' = USHRT_MAX \<and> pending hdr' i kl' = []
     | k # ks \<Rightarrow> rc = 0 \<and> head_to item' = kv_head k \<and>
         num_kvecs_to item' = Suc (length (takeWhile (same_head (kv_head k)) ks)) \<and>
         pending hdr' i kl' = dropWhile (same_head (kv_head k)) ks)"
proof (cases "dropWhile cancelled_kvec (pending hdr i kl)")
  case Nil
  from get_empty [OF assms Nil, of item] obtain kl' hdr' where
    "vop_kvec_get i kl item = Ret (- EAGAIN, item\<lparr>head_to := USHRT_MAX\<rparr>, kl')"
    "l_pages kl' = Some hdr'" "ring_ok hdr' i kl'" "pending hdr' i kl' = []" by blast
  then show ?thesis unfolding Nil by simp
next
  case (Cons k ks)
  let ?h = "kv_head k"
  from get_packet [OF assms Cons refl, of item] obtain kl' hdr' b where
    "vop_kvec_get i kl item = Ret (0, item\<lparr>head_to := ?h,
       num_kvecs_to := Suc (length (takeWhile (same_head ?h) ks)), kvec_to := b\<rparr>, kl')"
    "l_pages kl' = Some hdr'" "ring_ok hdr' i kl'" "pending hdr' i kl' = dropWhile (same_head ?h) ks" by blast
  then show ?thesis unfolding Cons by simp
qed

section \<open>The layout of the page\<close>

text \<open>
  After a side has set up its page and the other side has mapped it with the same number of
  descriptors, the two agree on the place of every counter, size and cell, and all rings are empty.
  Every cell of a ring ends before the next ring or the used ring begins, and the used ring ends
  within the allocated pages.
\<close>
theorem pages_agree:
  assumes "kvec_size_ok n" and "even n" and "length (l_rings kl) = KVEC_BUF_NUM" and "length (r_rings kr) = KVEC_BUF_NUM"
    and "vop_kvec_buff_init True pa 0 n kl kr0 = Ret (rc, kl', kr0')"
    and "vop_kvec_map_buf polls (l_pages kl') n pa' kr = (rc', kr')"
  shows "rc = 0 \<and> rc' = 0 \<and>
    (\<exists>hdr. kvec_link n hdr kl' kr' \<and> (\<forall>i < KVEC_BUF_NUM. pending hdr i kl' = [])) \<and>
    (\<forall>i < KVEC_BUF_NUM. \<forall>x < n. 32 + 24 * Suc (i * n + x) \<le> 32 + 24 * (Suc i * n)) \<and>
    u_buf (l_used_ring kl') = KVEC_BUF_NUM * n \<and> u_buf (r_used_ring kr') = KVEC_BUF_NUM * n \<and>
    32 + 24 * (KVEC_BUF_NUM * n) + 8 * n \<le> l_size kl'"
proof -
  have u: "[0..<KVEC_BUF_NUM] = [0, 1, 2]" by (simp add: KVEC_BUF_NUM_def upt_rec)
  have three: "i < KVEC_BUF_NUM \<longleftrightarrow> i = 0 \<or> i = 1 \<or> i = 2" for i by (auto simp: KVEC_BUF_NUM_def)
  have z: "kvec_cnt_ok n 0" using assms(1) by (simp add: kvec_cnt_ok_def kvec_size_ok_def)
  have e: "KVEC_COUNTER_USED n 0 0 = 0" by (simp add: KVEC_COUNTER_USED_def)
  obtain hdr where hdr: "l_pages kl' = Some hdr" "hdr_idx hdr 0 = 0" "hdr_idx hdr 1 = 0" "hdr_idx hdr 2 = 0"
    and l: "rc = 0" "l_rings kl' = map (\<lambda>i. reset_ring (init_local_ring n i (l_rings kl ! i))) [0, 1, 2]"
    "l_used_ring kl' = (l_used_ring kl)\<lparr>u_buf := KVEC_BUF_NUM * n, u_num := n, u_mapped := True, u_last_cnt := 0\<rparr>"
    "l_size kl' = PAGE_ALIGN (get_write_kvecs_buf_size n)"
    using assms(5) unfolding vop_kvec_buff_init_def vop_kvec_buff_reset_def Let_def u
    by (auto simp: init_local_ring_def reset_ring_def zero_page_def)
  obtain f where r: "rc' = 0" "r_va kr' = Some hdr" "r_rings kr' = map (\<lambda>i. map_ring hdr n i (f i)) [0, 1, 2]"
    "r_used_ring kr' = \<lparr>u_mapped = True, u_num = n, u_buf = KVEC_BUF_NUM * n, u_last_cnt = used_idx hdr\<rparr>"
    using assms(6) hdr(1) unfolding vop_kvec_map_buf_def Let_def u by (auto split: if_splits)
  have ag: "rings_agree n hdr i (l_rings kl' ! i) (r_rings kr' ! i)" if "i < KVEC_BUF_NUM" for i
    using that z e hdr unfolding three l r
    by (auto simp: rings_agree_def init_local_ring_def reset_ring_def map_ring_def)
  then have link: "kvec_link n hdr kl' kr'"
    using assms(1,2) hdr(1) l r by (simp add: kvec_link_def) (simp add: KVEC_BUF_NUM_def)
  moreover have "pending hdr i kl' = []" if "i < KVEC_BUF_NUM" for i
  proof -
    have "last_cnt (l_rings kl' ! i) = 0" "last_cnt (r_rings kr' ! i) = 0"
      using that hdr unfolding three l r by (auto simp: reset_ring_def map_ring_def)
    then show ?thesis unfolding link_pending [OF link that] using assms(1) z by (simp add: kc.window_empty)
  qed
  moreover have "m \<le> PAGE_ALIGN m" for m
    using div_mult_mod_eq [of "m + 4095" 4096] mod_less_divisor [of 4096 "m + 4095"]
    unfolding PAGE_ALIGN_def by linarith
  then have "32 + 24 * (KVEC_BUF_NUM * n) + 8 * n \<le> l_size kl'"
    unfolding l by (rule order_trans [rotated]) (simp add: get_write_kvecs_buf_size_def)
  ultimately show ?thesis using l r by auto
qed

section \<open>Reporting used packets\<close>

fun report_all :: "(u16 \<times> u64) list \<Rightarrow> vop_kvec_buf_remote \<Rightarrow> vop_kvec_buf_remote outcome" where
  "report_all [] kr = Ret kr"
| "report_all ((h, len) # xs) kr = (case vop_kvec_used h len kr of Abort \<Rightarrow> Abort | Ret kr' \<Rightarrow> report_all xs kr')"

definition used_kiov :: "u16 \<times> u64 \<Rightarrow> vop_peer_used_kiov" where
  "used_kiov p = \<lparr>uk_len = ucast (snd p), uk_head = fst p\<rparr>"

lemma report_all_window:
  assumes "kvec_size_ok n" "r_va kr = Some hdr" "u_num (r_used_ring kr) = n" "kvec_cnt_ok n l"
    and "kvec_cnt_ok n (u_last_cnt (r_used_ring kr))" "used_idx hdr = u_last_cnt (r_used_ring kr)"
    and "KVEC_COUNTER_USED n l (u_last_cnt (r_used_ring kr)) + length xs \<le> n" "b = 3 * u_buf (r_used_ring kr)"
  shows "\<exists>kr' hdr'. report_all xs kr = Ret kr' \<and> r_va kr' = Some hdr' \<and> kvec_cnt_ok n (used_idx hdr') \<and>
    kc.window (used_buff hdr') b n l (used_idx hdr') =
      kc.window (used_buff hdr) b n l (used_idx hdr) @ map used_kiov xs"
  using assms(2-)
proof (induction xs arbitrary: kr hdr)
  case (Cons x xs)
  obtain h len where x: "x = (h, len)" by (cases x)
  let ?u = "r_used_ring kr"
  let ?c = "u_last_cnt ?u"
  let ?c1 = "KVEC_COUNTER_ADD n ?c 1"
  let ?hdr = "hdr\<lparr>used_buff := (used_buff hdr)(3 * u_buf ?u + KVEC_COUNTER_TO_IDX n ?c := used_kiov x), used_idx := ?c1\<rparr>"
  let ?kr = "kr\<lparr>r_va := Some ?hdr, r_used_ring := ?u\<lparr>u_last_cnt := ?c1\<rparr>\<rparr>"
  have n: "n \<noteq> 0" using assms(1) by (simp add: kvec_size_ok_def)
  have put: "vop_kvec_used h len kr = Ret ?kr"
    using Cons.prems n by (simp add: vop_kvec_used_def Let_def x used_kiov_def)
  have u1: "KVEC_COUNTER_USED n l ?c1 = KVEC_COUNTER_USED n l ?c + 1"
    using Cons.prems n by (intro kc.used_put [OF assms(1)]) auto
  have "\<exists>kr' hdr'. report_all xs ?kr = Ret kr' \<and> r_va kr' = Some hdr' \<and> kvec_cnt_ok n (used_idx hdr') \<and>
      kc.window (used_buff hdr') b n l (used_idx hdr') =
        kc.window (used_buff ?hdr) b n l (used_idx ?hdr) @ map used_kiov xs"
    using Cons.prems u1 kc.add_ok [OF assms(1)] by (intro Cons.IH) (simp_all del: fun_upd_apply)
  moreover have "kc.window (used_buff ?hdr) b n l ?c1 = kc.window (used_buff hdr) b n l ?c @ [used_kiov x]"
    using Cons.prems n kc.window_put [OF assms(1) Cons.prems(3,4), of "used_buff hdr" b "used_kiov x"] by simp
  ultimately show ?case using put Cons.prems(5) x by (auto simp del: fun_upd_apply)
qed simp

lemma consume_window:
  assumes "kvec_size_ok n" "kvec_cnt_ok n l" "kvec_cnt_ok n (used_idx hdr)"
    and "kc.window (used_buff hdr) b n l (used_idx hdr) = ks"
  shows "consume_loop hdr b n l out = Some (Ret (used_idx hdr, out @ map (\<lambda>k. (uk_head k, uk_len k)) ks))"
  using assms(2-)
proof (induction ks arbitrary: l out)
  case Nil
  then have "KVEC_COUNTER_USED n l (used_idx hdr) = 0" by (metis kc.length_window list.size(3))
  then have l: "l = used_idx hdr" using kc.used_zero_iff [OF assms(1) Nil(1,2)] by simp
  show ?case by (subst consume_loop.simps) (simp add: l)
next
  case (Cons k ks)
  have "l \<noteq> used_idx hdr" using Cons.prems kc.window_empty [OF assms(1), of l "used_buff hdr" b] by auto
  moreover from this have "used_buff hdr (b + KVEC_COUNTER_TO_IDX n l) = k"
    "kc.window (used_buff hdr) b n (KVEC_COUNTER_ADD n l 1) (used_idx hdr) = ks"
    using kc.window_Cons [OF assms(1) Cons.prems(1,2), of "used_buff hdr" b] Cons.prems(3) by simp_all
  moreover have "n \<noteq> 0" using assms(1) by (simp add: kvec_size_ok_def)
  ultimately show ?case
    using Cons.IH [of "KVEC_COUNTER_ADD n l 1" "out @ [(uk_head k, uk_len k)]"] Cons.prems kc.add_ok [OF assms(1)]
    by (simp add: consume_loop.simps [of hdr b n l] Let_def)
qed

text \<open>
  C29. The used ring is a queue of reports. Whatever one side reports, up to as many packets as there
  are descriptors, the other side completes in its receive queue: every report once, in order, with
  its head and the low 32 bits of its length. Afterwards the ring is empty again.
\<close>
theorem reports_completed:
  assumes "kvec_size_ok n" and "r_va kr = Some hdr" and "u_num (r_used_ring kr) = n"
    and "kvec_cnt_ok n (used_idx hdr)" and "u_last_cnt (r_used_ring kr) = used_idx hdr"
    and "u_num (l_used_ring (loc d)) = n" and "u_buf (l_used_ring (loc d)) = u_buf (r_used_ring kr)"
    and "u_last_cnt (l_used_ring (loc d)) = used_idx hdr" and "ready d" and "length xs \<le> n"
  shows "\<exists>kr' hdr'. report_all xs kr = Ret kr' \<and> r_va kr' = Some hdr' \<and>
    (\<exists>d'. vop_kvec_buf_consume (d\<lparr>loc := (loc d)\<lparr>l_pages := Some hdr'\<rparr>\<rparr>) = Some (Ret d') \<and>
      completed d' = completed d @ map (\<lambda>(h, len). (h, ucast len)) xs \<and>
      u_last_cnt (l_used_ring (loc d')) = used_idx hdr')"
proof -
  let ?l = "used_idx hdr" and ?b = "3 * u_buf (r_used_ring kr)"
  have c: "kvec_cnt_ok n (u_last_cnt (r_used_ring kr))"
    "KVEC_COUNTER_USED n ?l (u_last_cnt (r_used_ring kr)) + length xs \<le> n"
    using assms(4,10) kc.used_self [OF assms(1,4)] unfolding assms(5) by simp_all
  obtain kr' hdr' where r: "report_all xs kr = Ret kr'" "r_va kr' = Some hdr'" "kvec_cnt_ok n (used_idx hdr')"
    "kc.window (used_buff hdr') ?b n ?l (used_idx hdr') = kc.window (used_buff hdr) ?b n ?l ?l @ map used_kiov xs"
    using report_all_window [OF assms(1-4) c(1) assms(5) [symmetric] c(2) refl] by blast
  then have "kc.window (used_buff hdr') ?b n ?l (used_idx hdr') = map used_kiov xs"
    by (simp only: kc.window_empty [OF assms(1,4)] append_Nil)
  from consume_window [OF assms(1,4) r(3) this] have "consume_loop hdr' ?b n ?l (completed d) =
      Some (Ret (used_idx hdr', completed d @ map (\<lambda>(h, len). (h, ucast len)) xs))"
    by (simp add: used_kiov_def comp_def case_prod_beta)
  then show ?thesis using r assms(6-9) by (simp add: vop_kvec_buf_consume_def)
qed

section \<open>Cancelling\<close>

lemma mark_cancelled_simps [simp]:
  "kv_head (mark_cancelled k) = kv_head k" "iov (mark_cancelled k) = iov k"
  by (simp_all add: mark_cancelled_def)

lemma cancelled_marked [simp]: "cancelled_kvec (mark_cancelled k)"
proof -
  have "(f OR 2) AND 2 = (2 :: u8)" for f by (rule bit_word_eqI) (auto simp: bit_simps)
  then show ?thesis by (simp add: cancelled_kvec_def mark_cancelled_def VOP_KVEC_FLAG_CANCELLED_def)
qed

text \<open>
  The marking ends at the latest at a cell with another head, \<open>d\<close> cells ahead, and it marks nothing
  but cells with the head of the request.
\<close>

definition only_marked :: "u16 \<Rightarrow> vop_peer_kvec mem \<Rightarrow> vop_peer_kvec mem \<Rightarrow> bool" where
  "only_marked h m m' \<longleftrightarrow> (\<forall>a. m' a = m a \<or> kv_head (m a) = h \<and> kv_head (m' a) = h \<and>
     iov (m' a) = iov (m a) \<and> cancelled_kvec (m' a))"

lemma only_marked_step:
  assumes "only_marked h (m(a := mark_cancelled (m a))) m'" "kv_head (m a) = h"
  shows "only_marked h m m'"
  unfolding only_marked_def
proof
  fix x
  let ?m = "m(a := mark_cancelled (m a))"
  have "m' x = ?m x \<or> kv_head (?m x) = h \<and> kv_head (m' x) = h \<and> iov (m' x) = iov (?m x) \<and> cancelled_kvec (m' x)"
    using assms(1) unfolding only_marked_def by blast
  then show "m' x = m x \<or> kv_head (m x) = h \<and> kv_head (m' x) = h \<and> iov (m' x) = iov (m x) \<and> cancelled_kvec (m' x)"
    using assms(2) by (cases "x = a") auto
qed

definition cancel_next :: "nat \<Rightarrow> nat \<Rightarrow> nat \<Rightarrow> u16 \<Rightarrow> vop_peer_kvec mem \<Rightarrow> nat \<Rightarrow> bool" where
  "cancel_next b s e h m i \<longleftrightarrow> kv_head (m (b + i)) = h \<and> cancel_range s e i"

lemma cancel_next_mark:
  "kv_head (m (b + i)) = h \<Longrightarrow> cancel_next b s e h (m(b + i := mark_cancelled (m (b + i)))) j = cancel_next b s e h m j"
  by (cases "j = i") (simp_all add: cancel_next_def)

lemma cancel_loop_stops:
  assumes "\<not> cancel_next b s e h m ((i + d) mod n)" "i < n"
  shows "\<exists>m'. cancel_loop n b s e h i m = Some m' \<and> only_marked h m m'"
  using assms
proof (induction d arbitrary: i m)
  case 0
  then show ?case by (subst cancel_loop.simps) (auto simp: only_marked_def cancel_next_def)
next
  case (Suc d)
  show ?case
  proof (cases "cancel_next b s e h m i")
    case True
    then have h: "kv_head (m (b + i)) = h" "cancel_range s e i" by (simp_all add: cancel_next_def)
    let ?m = "m(b + i := mark_cancelled (m (b + i)))" and ?i = "(i + 1) mod n"
    have "(?i + d) mod n = (i + Suc d) mod n" by (simp add: mod_add_left_eq)
    then have "\<not> cancel_next b s e h ?m ((?i + d) mod n)"
      using Suc.prems(1) by (simp only: cancel_next_mark [of m b i h, OF h(1)] not_False_eq_True)
    moreover have "?i < n" using Suc.prems(2) by simp
    ultimately obtain m' where m': "cancel_loop n b s e h ?i ?m = Some m'" "only_marked h ?m m'"
      using Suc.IH by blast
    have "cancel_loop n b s e h i m = cancel_loop n b s e h ?i ?m"
      using h by (subst cancel_loop.simps) simp
    then show ?thesis using m' only_marked_step [OF m'(2) h(1)] by simp
  next
    case False
    then show ?thesis by (subst cancel_loop.simps) (auto simp: only_marked_def cancel_next_def)
  qed
qed

lemma cancel_loop_runs_on:
  assumes "\<forall>j < n. cancel_next b s e h m j" "i < n"
  shows "cancel_loop n b s e h i m = None"
proof -
  have "cancel_loop n b s e h i m = Some r \<Longrightarrow> \<not> ((\<forall>j < n. cancel_next b s e h m j) \<and> i < n)" for r
  proof (rule cancel_loop.raw_induct [where P = "\<lambda>n b s e h i m r. \<not> ((\<forall>j < n. cancel_next b s e h m j) \<and> i < n)"])
    fix rec n b s e h i m r
    assume IH: "\<And>n b s e h i m r. rec n b s e h i m = Some r \<Longrightarrow> \<not> ((\<forall>j < n. cancel_next b s e h m j) \<and> i < n)"
      and step: "(if kv_head (m (b + i)) = h \<and> cancel_range s e i
        then rec n b s e h ((i + 1) mod n) (m(b + i := mark_cancelled (m (b + i)))) else Some m) = Some r"
    show "\<not> ((\<forall>j < n. cancel_next b s e h m j) \<and> i < n)"
    proof
      assume a: "(\<forall>j < n. cancel_next b s e h m j) \<and> i < n"
      then have h: "kv_head (m (b + i)) = h" "cancel_range s e i" by (auto simp: cancel_next_def)
      let ?m = "m(b + i := mark_cancelled (m (b + i)))"
      have "rec n b s e h ((i + 1) mod n) ?m = Some r" using step h by simp
      from IH [OF this] a show False by (auto simp: cancel_next_mark [of m b i h, OF h(1)] simp del: fun_upd_apply)
    qed
  qed
  with assms show ?thesis by (cases "cancel_loop n b s e h i m") auto
qed


section \<open>The update\<close>

text \<open>A receive queue that holds the packets \<open>xs\<close>.\<close>

definition list_fetch :: "(kvec list \<times> u16) list \<Rightarrow> (kvec list \<times> u16 \<times> (kvec list \<times> u16) list) option" where
  "list_fetch q = (case q of [] \<Rightarrow> None | (w, h) # q' \<Rightarrow> Some (w, h, q'))"

text \<open>
  The writer's rings as the driver sets them up; a ring whose count is zero has nothing to publish.
\<close>

definition ring_published :: "vop_kvec_buf_remote \<Rightarrow> nat \<Rightarrow> bool" where
  "ring_published kr i \<longleftrightarrow> (\<forall>hdr. r_va kr = Some hdr \<longrightarrow> hdr_idx hdr i = last_cnt (r_rings kr ! i))"

definition writer_ok :: "vop_kvec_buf_remote \<Rightarrow> bool" where
  "writer_ok kr \<longleftrightarrow> r_va kr \<noteq> None \<and> length (r_rings kr) = KVEC_BUF_NUM \<and>
     (\<forall>i < KVEC_BUF_NUM. let r = r_rings kr ! i in
        cnt r = Some i \<and> buf r \<noteq> None \<and> send_max_size r = Some i \<and> ring_num r \<noteq> 0)"

definition counts_ok :: "(nat \<Rightarrow> nat) \<Rightarrow> vop_kvec_buf_remote \<Rightarrow> bool" where
  "counts_ok c kr \<longleftrightarrow> (\<forall>i < KVEC_BUF_NUM. c i = 0 \<longrightarrow> ring_published kr i)"

lemma publish_counters_ok:
  assumes "writer_ok kr" "set is \<subseteq> {..<KVEC_BUF_NUM}"
  shows "\<exists>kr'. publish_counters is c kr = Ret kr' \<and> writer_ok kr' \<and> r_rings kr' = r_rings kr \<and>
    is_update kr' = is_update kr \<and> mapped kr' = mapped kr \<and>
    (\<forall>i < KVEC_BUF_NUM. (i \<in> set is \<and> c i \<noteq> 0) \<or> ring_published kr i \<longrightarrow> ring_published kr' i)"
  using assms
proof (induction "is" arbitrary: kr)
  case (Cons i "is")
  have i: "i < KVEC_BUF_NUM" using Cons.prems(2) by simp
  obtain hdr where hdr: "r_va kr = Some hdr" and cn: "cnt (r_rings kr ! i) = Some i"
    using Cons.prems(1) i by (auto simp: writer_ok_def Let_def)
  let ?kr = "kr\<lparr>r_va := Some (hdr\<lparr>hdr_idx := (hdr_idx hdr)(i := last_cnt (r_rings kr ! i))\<rparr>)\<rparr>"
  show ?case
  proof (cases "c i = 0")
    case True
    then have "publish_counters (i # is) c kr = publish_counters is c kr" by simp
    moreover from Cons.IH [OF Cons.prems(1)] Cons.prems(2) obtain kr' where
      "publish_counters is c kr = Ret kr'" "writer_ok kr'" "r_rings kr' = r_rings kr"
      "is_update kr' = is_update kr" "mapped kr' = mapped kr"
      "\<forall>j < KVEC_BUF_NUM. (j \<in> set is \<and> c j \<noteq> 0) \<or> ring_published kr j \<longrightarrow> ring_published kr' j" by auto
    ultimately show ?thesis using True by auto
  next
    case False
    then have "publish_counters (i # is) c kr = publish_counters is c ?kr" by (simp add: hdr cn)
    moreover have "writer_ok ?kr" using Cons.prems(1) by (simp add: writer_ok_def)
    from Cons.IH [OF this] Cons.prems(2) obtain kr' where
      "publish_counters is c ?kr = Ret kr'" "writer_ok kr'" "r_rings kr' = r_rings kr"
      "is_update kr' = is_update kr" "mapped kr' = mapped kr"
      and p: "\<forall>j < KVEC_BUF_NUM. (j \<in> set is \<and> c j \<noteq> 0) \<or> ring_published ?kr j \<longrightarrow> ring_published kr' j" by auto
    moreover have "ring_published ?kr j" if "j = i \<or> ring_published kr j" for j
      using that hdr by (auto simp: ring_published_def)
    ultimately show ?thesis by auto
  qed
qed auto

lemma get_ring_id_write_range:
  "get_ring_id_write sz < 0 \<or> nat (get_ring_id_write sz) < KVEC_BUF_NUM"
  by (simp add: get_ring_id_write_def EDOM_def KVEC_BUF_NUM_def)

lemma publish_max_size_ok:
  assumes "writer_ok kr" "i < KVEC_BUF_NUM"
  shows "\<exists>kr'. publish_max_size sz i kr = Ret kr' \<and> writer_ok kr' \<and> mapped kr' = mapped kr \<and>
    (\<forall>j < KVEC_BUF_NUM. last_cnt (r_rings kr' ! j) = last_cnt (r_rings kr ! j)) \<and>
    (\<forall>j < KVEC_BUF_NUM. ring_published kr j \<longrightarrow> ring_published kr' j)"
proof -
  let ?r = "r_rings kr ! i"
  obtain hdr where h: "r_va kr = Some hdr" "send_max_size ?r = Some i" "length (r_rings kr) = KVEC_BUF_NUM"
    using assms by (auto simp: writer_ok_def Let_def)
  let ?kr = "kr\<lparr>r_va := Some (hdr\<lparr>hdr_max_size := (hdr_max_size hdr)(i := ucast sz)\<rparr>),
    r_rings := (r_rings kr)[i := ?r\<lparr>send_max_size_local := ucast sz\<rparr>]\<rparr>"
  have "writer_ok ?kr" using assms h by (auto simp: writer_ok_def Let_def nth_list_update)
  moreover have "last_cnt (r_rings ?kr ! j) = last_cnt (r_rings kr ! j)" for j
    using h assms(2) by (cases "j = i") simp_all
  moreover have "ring_published kr j \<Longrightarrow> ring_published ?kr j" for j
    using h assms(2) by (cases "j = i") (simp_all add: ring_published_def)
  ultimately show ?thesis using h assms(1) by (auto simp: publish_max_size_def Let_def)
qed

lemma put_pair_ok:
  assumes "writer_ok kr" "i < KVEC_BUF_NUM"
  shows "\<exists>kr'. put_pair k0 k1 i kr = Ret kr' \<and> writer_ok kr' \<and> mapped kr' = mapped kr \<and>
    (\<forall>j < KVEC_BUF_NUM. j \<noteq> i \<longrightarrow> ring_published kr j \<longrightarrow> ring_published kr' j)"
proof -
  let ?r = "r_rings kr ! i"
  let ?n = "ring_num ?r"
  obtain hdr b where h: "r_va kr = Some hdr" "buf ?r = Some b" "?n \<noteq> 0" "length (r_rings kr) = KVEC_BUF_NUM"
    using assms by (auto simp: writer_ok_def Let_def)
  let ?p = "b + KVEC_COUNTER_TO_IDX ?n (last_cnt ?r)"
  let ?kr = "kr\<lparr>r_va := Some (hdr\<lparr>buff := (buff hdr)(?p := k0, Suc ?p := k1)\<rparr>),
    r_rings := (r_rings kr)[i := ?r\<lparr>last_cnt := KVEC_COUNTER_ADD ?n (last_cnt ?r) 2\<rparr>]\<rparr>"
  have "put_pair k0 k1 i kr = Ret ?kr" using h by (simp add: put_pair_def Let_def)
  moreover have "writer_ok ?kr" using assms h by (auto simp: writer_ok_def Let_def nth_list_update)
  moreover have "j \<noteq> i \<Longrightarrow> ring_published kr j \<Longrightarrow> ring_published ?kr j" for j
    using h by (simp add: ring_published_def)
  ultimately show ?thesis by (intro exI [of _ ?kr]) simp
qed

lemma put_ok:
  assumes "writer_ok kr" "length wiov \<le> 2"
  shows "\<exists>x kr'. vop_kvec_put wiov h kr = Ret (x, USHRT_MAX, kr') \<and> writer_ok kr' \<and> mapped kr' = mapped kr \<and>
    (0 \<le> x \<longrightarrow> nat x < KVEC_BUF_NUM) \<and>
    (\<forall>j < KVEC_BUF_NUM. x < 0 \<or> j \<noteq> nat x \<longrightarrow> ring_published kr j \<longrightarrow> ring_published kr' j)"
proof -
  define sz where "sz = (if length wiov = 2 then iov_len (wiov ! 1) else 0)"
  let ?x = "get_ring_id_write sz"
  show ?thesis
  proof (cases "?x < 0")
    case True
    then show ?thesis using assms by (simp add: vop_kvec_put_def Let_def sz_def [symmetric])
  next
    case False
    then have x: "nat ?x < KVEC_BUF_NUM" using get_ring_id_write_range [of sz] by simp
    from publish_max_size_ok [OF assms(1) x, of sz] obtain kr1
      where k1: "publish_max_size sz (nat ?x) kr = Ret kr1" "writer_ok kr1" "mapped kr1 = mapped kr"
        "\<forall>j < KVEC_BUF_NUM. ring_published kr j \<longrightarrow> ring_published kr1 j" by blast
    from put_pair_ok [OF k1(2) x, of "peer_kvec h (wiov ! 0)" "peer_kvec h (wiov ! 1)"] obtain kr2
      where k2: "put_pair (peer_kvec h (wiov ! 0)) (peer_kvec h (wiov ! 1)) (nat ?x) kr1 = Ret kr2" "writer_ok kr2"
        "mapped kr2 = mapped kr1" "\<forall>j < KVEC_BUF_NUM. j \<noteq> nat ?x \<longrightarrow> ring_published kr1 j \<longrightarrow> ring_published kr2 j"
      by blast
    have "vop_kvec_put wiov h kr = Ret (?x, USHRT_MAX, kr2)"
      using assms(2) False k1(1) k2(1) by (simp add: vop_kvec_put_def Let_def sz_def [symmetric])
    then show ?thesis using k1 k2 x False by (intro exI [of _ ?x] exI [of _ kr2]) (simp)
  qed
qed

lemma update_idx_ok:
  assumes "writer_ok (rem d)" "counts_ok c (rem d)"
  shows "\<exists>c' d'. vop_kvec_buff_update_idx msecs c d = Ret (c', d') \<and> writer_ok (rem d') \<and> rcv d' = rcv d \<and>
    counts_ok c' (rem d') \<and> mapped (rem d') = mapped (rem d) \<and> (\<forall>i < KVEC_BUF_NUM. ring_published (rem d') i)"
proof -
  have "set [0..<KVEC_BUF_NUM] \<subseteq> {..<KVEC_BUF_NUM}" by auto
  from publish_counters_ok [OF assms(1) this, of c] obtain kr'
    where k: "publish_counters [0..<KVEC_BUF_NUM] c (rem d) = Ret kr'" "writer_ok kr'" "mapped kr' = mapped (rem d)"
      "\<forall>i < KVEC_BUF_NUM. (i \<in> set [0..<KVEC_BUF_NUM] \<and> c i \<noteq> 0) \<or> ring_published (rem d) i \<longrightarrow> ring_published kr' i"
    by blast
  have p: "\<forall>i < KVEC_BUF_NUM. ring_published kr' i"
    using k(4) assms(2) unfolding counts_ok_def by (metis atLeastLessThan_iff le0 set_upt)
  obtain irq out where "vop_send_heads_up msecs (jiffies d) (heads_up_avail_irq d) = (irq, out)" by fastforce
  then show ?thesis
    using k p by (auto simp: vop_kvec_buff_update_idx_def notify_avail_def counts_ok_def)
qed

lemma put_one_ok:
  assumes "writer_ok (rem d)" "counts_ok c (rem d)" "length wiov \<le> 2"
  shows "\<exists>c' tot' d'. put_one msecs wiov h c tot d = Ret (c', tot', d') \<and> writer_ok (rem d') \<and>
    counts_ok c' (rem d') \<and> rcv d' = rcv d \<and> mapped (rem d') = mapped (rem d)"
proof -
  from put_ok [OF assms(1,3), of h] obtain x kr'
    where p: "vop_kvec_put wiov h (rem d) = Ret (x, USHRT_MAX, kr')" "writer_ok kr'" "mapped kr' = mapped (rem d)"
      "0 \<le> x \<longrightarrow> nat x < KVEC_BUF_NUM"
      "\<forall>j < KVEC_BUF_NUM. x < 0 \<or> j \<noteq> nat x \<longrightarrow> ring_published (rem d) j \<longrightarrow> ring_published kr' j" by blast
  show ?thesis
  proof (cases "x < 0")
    case True
    then show ?thesis using p assms(2) by (auto simp: put_one_def counts_ok_def)
  next
    case False
    let ?i = "nat x" and ?r = "r_rings kr' ! nat x"
    let ?kr = "kr'\<lparr>r_rings := (r_rings kr')[?i := ?r\<lparr>stats_num := stats_num ?r + 1\<rparr>]\<rparr>"
    let ?d = "d\<lparr>rem := ?kr\<rparr>" and ?c = "c(?i := c ?i + 1)"
    have i: "?i < length (r_rings kr')" using p(2,4) False by (simp add: writer_ok_def)
    have w: "writer_ok (rem ?d)" using p(2) i by (auto simp: writer_ok_def Let_def nth_list_update)
    have "ring_published kr' j \<Longrightarrow> ring_published ?kr j" for j
      using i by (cases "j = ?i") (simp_all add: ring_published_def)
    then have c: "counts_ok ?c (rem ?d)" using p(5) assms(2) by (auto simp: counts_ok_def)
    from update_idx_ok [OF w c, of msecs] obtain c2 d2 where
      "vop_kvec_buff_update_idx msecs ?c ?d = Ret (c2, d2)" "writer_ok (rem d2)" "rcv d2 = rcv d"
      "counts_ok c2 (rem d2)" "mapped (rem d2) = mapped (rem ?d)" by auto
    then show ?thesis using p(1,3) False w c by (simp add: put_one_def Let_def)
  qed
qed

lemma update_loop_ok:
  assumes "writer_ok (rem d)" "counts_ok c (rem d)" "\<forall>p \<in> set (rcv d). length (fst p) \<le> 2"
  shows "\<exists>c' d'. update_loop list_fetch msecs c tot d = Some (Ret (c', d')) \<and> writer_ok (rem d') \<and>
    counts_ok c' (rem d') \<and> rcv d' = [] \<and> mapped (rem d') = mapped (rem d)"
  using assms
proof (induction "rcv d" arbitrary: c tot d)
  case Nil
  then show ?case by (subst update_loop.simps) (simp add: list_fetch_def)
next
  case (Cons p ps)
  obtain w h where p: "p = (w, h)" by (cases p)
  have f: "list_fetch (rcv d) = Some (w, h, ps)" using Cons.hyps(2) p by (simp add: list_fetch_def flip: Cons.hyps(2))
  have pre: "writer_ok (rem (d\<lparr>rcv := ps\<rparr>))" "counts_ok c (rem (d\<lparr>rcv := ps\<rparr>))" "length w \<le> 2"
    using Cons.prems p by (auto simp flip: Cons.hyps(2))
  from put_one_ok [OF pre, of msecs h tot] obtain c1 tot1 d1 where
    o: "put_one msecs w h c tot (d\<lparr>rcv := ps\<rparr>) = Ret (c1, tot1, d1)" "writer_ok (rem d1)" "counts_ok c1 (rem d1)"
      "rcv d1 = ps" "mapped (rem d1) = mapped (rem d)" by auto
  have "\<forall>p \<in> set (rcv d1). length (fst p) \<le> 2" using Cons.prems(3) o(4) by (simp flip: Cons.hyps(2))
  from Cons.hyps(1) [OF o(4) [symmetric] o(2,3) this, of tot1] o f show ?case
    by (subst update_loop.simps) auto
qed

text \<open>
  An update takes every packet of the receive queue, puts it into its ring and returns with
  nothing left unpublished: the counter of every ring that the other side sees is the writer's own,
  whether the last packets filled up a group of sixteen or not.
\<close>
theorem update_publishes:
  assumes "ready d" and "mapped (rem d)" and "writer_ok (rem d)"
    and "\<forall>i < KVEC_BUF_NUM. ring_published (rem d) i" and "\<forall>p \<in> set (rcv d). length (fst p) \<le> 2"
  shows "\<exists>d'. vop_kvec_buf_update list_fetch msecs d = Some (Ret d') \<and> rcv d' = [] \<and>
    (\<forall>i < KVEC_BUF_NUM. ring_published (rem d') i) \<and> writer_ok (rem d') \<and> \<not> is_update (rem d')"
proof -
  let ?d = "notify_avail msecs (set_is_update True d)"
  have rem: "rem ?d = (rem d)\<lparr>is_update := True\<rparr>" "rcv ?d = rcv d"
    by (simp_all add: notify_avail_def set_is_update_def split: prod.splits)
  have "writer_ok (rem ?d)" "counts_ok (\<lambda>_. 0) (rem ?d)" "\<forall>p \<in> set (rcv ?d). length (fst p) \<le> 2"
    using assms(3-5) unfolding rem by (simp_all add: writer_ok_def counts_ok_def ring_published_def)
  from update_loop_ok [OF this, of msecs 0] obtain c d1
    where l: "update_loop list_fetch msecs (\<lambda>_. 0) 0 ?d = Some (Ret (c, d1))" "writer_ok (rem d1)"
      "counts_ok c (rem d1)" "rcv d1 = []" by blast
  from update_idx_ok [OF l(2,3), of msecs] obtain c2 d2
    where u: "vop_kvec_buff_update_idx msecs c d1 = Ret (c2, d2)" "writer_ok (rem d2)" "rcv d2 = []"
      "\<forall>i < KVEC_BUF_NUM. ring_published (rem d2) i" using l(4) by auto
  have "vop_kvec_buf_update list_fetch msecs d = Some (Ret (set_is_update False d2))"
    using assms(1,2) l(1) u(1) by (simp add: vop_kvec_buf_update_def Let_def) (simp add: set_is_update_def)
  then show ?thesis using u by (simp add: set_is_update_def writer_ok_def ring_published_def)
qed

section \<open>Witnesses\<close>

definition plain_ring :: vop_kvec_ring where
  "plain_ring = \<lparr>last_cnt = 0, cnt = None, ring_num = 0, buf = None, send_max_size = None,
     send_max_size_local = 0, stats_num = 0\<rparr>"

definition plain_local :: vop_kvec_buf_local where
  "plain_local = \<lparr>l_rings = [plain_ring, plain_ring, plain_ring],
     l_used_ring = \<lparr>u_mapped = False, u_num = 0, u_buf = 0, u_last_cnt = 0\<rparr>, l_pa = 0, l_pages = None, l_size = 0\<rparr>"

definition plain_remote :: vop_kvec_buf_remote where
  "plain_remote = \<lparr>r_rings = [plain_ring, plain_ring, plain_ring],
     r_used_ring = \<lparr>u_mapped = False, u_num = 0, u_buf = 0, u_last_cnt = 0\<rparr>, r_pa = 0, r_va = None,
     mapped = False, is_update = False\<rparr>"

definition ring4 :: "nat \<Rightarrow> vop_kvec_ring" where
  "ring4 i = plain_ring\<lparr>ring_num := 4, cnt := Some i, buf := Some (i * 4), send_max_size := Some i\<rparr>"

definition used4 :: vop_used_kiov_ring where
  "used4 = \<lparr>u_mapped = True, u_num = 4, u_buf = 12, u_last_cnt = 0\<rparr>"

definition local4 :: vop_kvec_buf_local where
  "local4 = plain_local\<lparr>l_rings := [ring4 0, ring4 1, ring4 2], l_used_ring := used4, l_pages := Some zero_page\<rparr>"

definition remote4 :: vop_kvec_buf_remote where
  "remote4 = plain_remote\<lparr>r_rings := [ring4 0, ring4 1, ring4 2], r_used_ring := used4, r_va := Some zero_page,
     mapped := True\<rparr>"

definition kvec_of :: "u64 \<Rightarrow> u64 \<Rightarrow> kvec" where
  "kvec_of a n = \<lparr>iov_base = a, iov_len = n\<rparr>"

lemma three_rings: "i < KVEC_BUF_NUM \<longleftrightarrow> i = 0 \<or> i = 1 \<or> i = 2"
  by (auto simp: KVEC_BUF_NUM_def)

lemma size4: "kvec_size_ok 4" and cnt4: "kvec_cnt_ok 4 0" and used_4: "KVEC_COUNTER_USED 4 0 0 = 0"
  by (simp_all add: kvec_size_ok_def kvec_cnt_ok_def KVEC_COUNTER_USED_def)

lemma link4: "kvec_link 4 zero_page local4 remote4"
proof -
  have "rings_agree 4 zero_page i (l_rings local4 ! i) (r_rings remote4 ! i)" if "i < KVEC_BUF_NUM" for i
    using that cnt4 used_4 unfolding three_rings
    by (auto simp: rings_agree_def local4_def remote4_def ring4_def plain_ring_def zero_page_def)
  then show ?thesis using size4
    by (simp add: kvec_link_def local4_def remote4_def KVEC_BUF_NUM_def)
qed

lemma pending4: "i < KVEC_BUF_NUM \<Longrightarrow> pending zero_page i local4 = []"
proof -
  assume i: "i < KVEC_BUF_NUM"
  then have "last_cnt (l_rings local4 ! i) = 0" "last_cnt (r_rings remote4 ! i) = 0"
    unfolding three_rings by (auto simp: local4_def remote4_def ring4_def plain_ring_def)
  then show ?thesis unfolding link_pending [OF link4 i] by (simp add: kc.window_empty [OF size4 cnt4])
qed

lemma ring_of_2000: "get_ring_id_write 2000 = 0"
  by (simp add: get_ring_id_write_def MTU_DEFAULT_def MTU_JUMBO_def DMA_ALIGN_OVERHEAD_SIZE_def word_less_nat_alt)

theorem packet_queued_witness:
  "\<exists>kr1 kr2 hdr1 hdr2. vop_kvec_put [kvec_of 64 12, kvec_of 128 2000] 5 remote4 = Ret (int 0, USHRT_MAX, kr1) \<and>
    r_va kr1 = Some hdr1 \<and> (\<forall>j < KVEC_BUF_NUM. pending hdr1 j (local4\<lparr>l_pages := Some hdr1\<rparr>) = pending zero_page j local4) \<and>
    publish_counters [0..<KVEC_BUF_NUM] ((\<lambda>_. 0)(0 := 1)) kr1 = Ret kr2 \<and>
    kvec_link 4 hdr2 (local4\<lparr>l_pages := Some hdr2\<rparr>) kr2 \<and>
    (\<forall>j < KVEC_BUF_NUM. pending hdr2 j (local4\<lparr>l_pages := Some hdr2\<rparr>) = pending zero_page j local4 @
       (if j = 0 then [peer_kvec 5 (kvec_of 64 12), peer_kvec 5 (kvec_of 128 2000)] else []))"
proof (rule packet_queued [OF link4])
  show "get_ring_id_write (iov_len (kvec_of 128 2000)) = int 0" using ring_of_2000 by (simp add: kvec_of_def)
  show "0 < KVEC_BUF_NUM" by (simp add: three_rings)
  show "length (pending zero_page 0 local4) + 2 \<le> 4" by (simp add: pending4 three_rings)
qed

theorem packet_fetched_witness:
  "\<exists>rc item' kl' hdr'. vop_kvec_get 1 local4 \<lparr>head_to = 0, num_kvecs_to = 0, kvec_to = 0\<rparr> = Ret (rc, item', kl') \<and>
    l_pages kl' = Some hdr' \<and> rc = - EAGAIN \<and> pending hdr' 1 kl' = []"
proof -
  have "1 < KVEC_BUF_NUM" by (simp add: three_rings)
  then show ?thesis
    using packet_fetched [of local4 zero_page 1 "\<lparr>head_to = 0, num_kvecs_to = 0, kvec_to = 0\<rparr>"] link_ring_ok [OF link4, of 1]
      pending4 [of 1] by (auto simp: local4_def)
qed

theorem pages_agree_witness:
  "\<exists>kl' kr0' kr' hdr. vop_kvec_buff_init True 4096 0 4 plain_local plain_remote = Ret (0, kl', kr0') \<and>
    vop_kvec_map_buf (\<lambda>_. False) (l_pages kl') 4 4096 plain_remote = (0, kr') \<and> kvec_link 4 hdr kl' kr' \<and>
    32 + 24 * (KVEC_BUF_NUM * 4) + 8 * 4 \<le> l_size kl'"
proof -
  have l: "length (l_rings plain_local) = KVEC_BUF_NUM" "length (r_rings plain_remote) = KVEC_BUF_NUM"
    by (simp_all add: plain_local_def plain_remote_def KVEC_BUF_NUM_def)
  obtain rc kl' kr0' where i: "vop_kvec_buff_init True 4096 0 4 plain_local plain_remote = Ret (rc, kl', kr0')"
    by (auto simp: vop_kvec_buff_init_def vop_kvec_buff_reset_def Let_def)
  obtain rc' kr' where m: "vop_kvec_map_buf (\<lambda>_. False) (l_pages kl') 4 4096 plain_remote = (rc', kr')"
    by (cases "vop_kvec_map_buf (\<lambda>_. False) (l_pages kl') 4 4096 plain_remote")
  from pages_agree [OF size4 _ l i m] i m show ?thesis by auto
qed

definition dev4 :: "(kvec list \<times> u16) list vop_dev" where
  "dev4 = \<lparr>ready = True, jiffies = 100, loc = local4, rem = remote4,
     heads_up_avail_irq = \<lparr>rcv_ts = 0, sent_ts = 0, hu_op = vop_notify_available\<rparr>, irqs_sent = [],
     rcv = [([kvec_of 64 12, kvec_of 128 2000], 5)], completed = []\<rparr>"

theorem reports_completed_witness:
  "\<exists>kr' hdr'. report_all [(7, 1500), (9, 60)] remote4 = Ret kr' \<and> r_va kr' = Some hdr' \<and>
    (\<exists>d'. vop_kvec_buf_consume (dev4\<lparr>loc := (loc dev4)\<lparr>l_pages := Some hdr'\<rparr>\<rparr>) = Some (Ret d') \<and>
      completed d' = [(7, 1500), (9, 60)])"
proof -
  have "\<exists>kr' hdr'. report_all [(7, 1500), (9, 60)] remote4 = Ret kr' \<and> r_va kr' = Some hdr' \<and>
    (\<exists>d'. vop_kvec_buf_consume (dev4\<lparr>loc := (loc dev4)\<lparr>l_pages := Some hdr'\<rparr>\<rparr>) = Some (Ret d') \<and>
      completed d' = completed dev4 @ map (\<lambda>(h, len). (h, ucast len)) [(7, 1500 :: u64), (9, 60)] \<and>
      u_last_cnt (l_used_ring (loc d')) = used_idx hdr')"
    by (rule reports_completed [of 4 _ zero_page])
      (simp_all add: size4 cnt4 remote4_def used4_def zero_page_def dev4_def local4_def)
  then show ?thesis by (auto simp: dev4_def)
qed

text \<open>Descriptor 0 in a ring of four, wrapped: three fetched cells and one that waits, all with head zero.\<close>

definition wrapped4 :: vop_kvec_buf_local where
  "wrapped4 = local4\<lparr>l_rings := [(ring4 0)\<lparr>last_cnt := 2\<rparr>, ring4 1, ring4 2],
     l_pages := Some (zero_page\<lparr>hdr_idx := (\<lambda>_. 4), cancelled_request_idx := 2, request_cancellation := 1\<rparr>)\<rparr>"


theorem update_publishes_witness:
  "\<exists>d'. vop_kvec_buf_update list_fetch (\<lambda>t. ucast t) dev4 = Some (Ret d') \<and> rcv d' = [] \<and>
    (\<forall>i < KVEC_BUF_NUM. ring_published (rem d') i) \<and> writer_ok (rem d') \<and> \<not> is_update (rem d')"
proof (rule update_publishes)
  have "i < KVEC_BUF_NUM \<Longrightarrow> cnt (r_rings remote4 ! i) = Some i \<and> buf (r_rings remote4 ! i) \<noteq> None \<and>
      send_max_size (r_rings remote4 ! i) = Some i \<and> ring_num (r_rings remote4 ! i) \<noteq> 0" for i
    unfolding three_rings by (auto simp: remote4_def ring4_def)
  then show "writer_ok (rem dev4)"
    by (simp add: writer_ok_def dev4_def Let_def) (simp add: remote4_def KVEC_BUF_NUM_def)
  show "\<forall>i < KVEC_BUF_NUM. ring_published (rem dev4) i"
    unfolding three_rings by (auto simp: ring_published_def dev4_def remote4_def ring4_def plain_ring_def zero_page_def)
qed (simp_all add: dev4_def remote4_def)

end
