(* ===== verification/Plx_Dma.thy ===== *)
theory Plx_Dma
  imports Ring_Counter Machine_Spec
begin

text \<open>
  The driver of the DMA engine (\<open>plx87xx_dma/plx_dma.c\<close>, \<open>plx_dma.h\<close>): a ring of 2048 descriptors
  that the driver fills at the head and cleans up at the tail, with one transaction record per
  descriptor. The engine is a parameter: reading a register may let it write back finished
  descriptors, writing one changes its state \<open>'h\<close>. The ring and the records are memories indexed by
  descriptor, with a flag that says whether they are allocated; using one that is not is \<open>Abort\<close>, and
  so is a \<open>BUG_ON\<close>. A callback is a number; \<open>called\<close> lists the callbacks in the order they were
  called.
\<close>

section \<open>Constants\<close>

definition PLX_DMA_DESC_RX_SIZE :: u32 where "PLX_DMA_DESC_RX_SIZE = 2 * 1024"
definition PLX_DMA_PAUSE_TO :: nat where "PLX_DMA_PAUSE_TO = 5"

definition PLX_DESC_VALID :: u32 where "PLX_DESC_VALID = push_bit 31 1"
definition PLX_DESC_INTR_ENABLE :: u32 where "PLX_DESC_INTR_ENABLE = push_bit 30 1"
definition PLX_DESC_DWORD_MASK :: u64 where "PLX_DESC_DWORD_MASK = mask 32"
definition PLX_DESC_HALF_HIGH_MASK :: u64 where "PLX_DESC_HALF_HIGH_MASK = NOT (mask 16)"
definition PLX_DESC_SIZE_MASK :: u64 where "PLX_DESC_SIZE_MASK = mask 27"

definition PLX_DMA_BLK_SRC_LOWER :: u32 where "PLX_DMA_BLK_SRC_LOWER = 0x00"
definition PLX_DMA_BLK_SRC_UPPER :: u32 where "PLX_DMA_BLK_SRC_UPPER = 0x04"
definition PLX_DMA_BLK_DST_LOWER :: u32 where "PLX_DMA_BLK_DST_LOWER = 0x08"
definition PLX_DMA_BLK_DST_UPPER :: u32 where "PLX_DMA_BLK_DST_UPPER = 0x0C"
definition PLX_DMA_BLK_TRSFR_SIZE :: u32 where "PLX_DMA_BLK_TRSFR_SIZE = 0x10"
definition PLX_DMA_DESC_RING_ADDR_LOW :: u32 where "PLX_DMA_DESC_RING_ADDR_LOW = 0x14"
definition PLX_DMA_DESC_RING_ADDR_HIGH :: u32 where "PLX_DMA_DESC_RING_ADDR_HIGH = 0x18"
definition PLX_DMA_NEXT_DESC_ADDR_LOW :: u32 where "PLX_DMA_NEXT_DESC_ADDR_LOW = 0x1C"
definition PLX_DMA_DESC_RING_SIZE :: u32 where "PLX_DMA_DESC_RING_SIZE = 0x20"
definition PLX_DMA_LAST_DESC_ADDR_LOW :: u32 where "PLX_DMA_LAST_DESC_ADDR_LOW = 0x24"
definition PLX_DMA_CTRL_STATUS :: u32 where "PLX_DMA_CTRL_STATUS = 0x38"
definition PLX_DMA_INTR_CTRL_STATUS :: u32 where "PLX_DMA_INTR_CTRL_STATUS = 0x3C"
definition PCI_DEV_CTL2_REG :: u32 where "PCI_DEV_CTL2_REG = 0x90"

definition PLX_DMA_CTRL_PAUSED :: u32 where "PLX_DMA_CTRL_PAUSED = push_bit 0 1"
definition PLX_DMA_CTRL_WB_ENABLE :: u32 where "PLX_DMA_CTRL_WB_ENABLE = push_bit 2 1"
definition PLX_DMA_CTRL_START :: u32 where "PLX_DMA_CTRL_START = push_bit 3 1"
definition PLX_DMA_CTRL_OFFCHIP_MODE :: u32 where "PLX_DMA_CTRL_OFFCHIP_MODE = push_bit 5 2"
definition PLX_DMA_CTRL_PAUSE_DONE_STATUS :: u32 where "PLX_DMA_CTRL_PAUSE_DONE_STATUS = push_bit 9 1"
definition PLX_DMA_CTRL_IN_PROGRESS :: u32 where "PLX_DMA_CTRL_IN_PROGRESS = push_bit 30 1"
definition PLX_DMA_CTRL_HEADER_LOG :: u32 where "PLX_DMA_CTRL_HEADER_LOG = push_bit 31 1"
definition PLX_DMA_CTRL_MODE_BITS :: u32 where "PLX_DMA_CTRL_MODE_BITS = push_bit 5 3"
definition PLX_DMA_CTRL_STATUS_BITS :: u32 where "PLX_DMA_CTRL_STATUS_BITS = push_bit 8 0x17"

definition PLX_DMA_ERROR_INTR_EN :: u32 where "PLX_DMA_ERROR_INTR_EN = push_bit 0 1"
definition PLX_DMA_INVLD_DESC_INTR_EN :: u32 where "PLX_DMA_INVLD_DESC_INTR_EN = push_bit 1 1"
definition PLX_DMA_ABORT_DONE_INTR_EN :: u32 where "PLX_DMA_ABORT_DONE_INTR_EN = push_bit 3 1"
definition PLX_DMA_GRACE_PAUSE_INTR_EN :: u32 where "PLX_DMA_GRACE_PAUSE_INTR_EN = push_bit 4 1"
definition PLX_DMA_IMM_PAUSE_INTR_EN :: u32 where "PLX_DMA_IMM_PAUSE_INTR_EN = push_bit 5 1"
definition PLX_DMA_ERROR_INTR_STATUS :: u32 where "PLX_DMA_ERROR_INTR_STATUS = push_bit 16 1"
definition PLX_DMA_INVLD_DESC_INTR_STATUS :: u32 where "PLX_DMA_INVLD_DESC_INTR_STATUS = push_bit 17 1"
definition PLX_DMA_DESC_DONE_INTR_STATUS :: u32 where "PLX_DMA_DESC_DONE_INTR_STATUS = push_bit 18 1"
definition PLX_DMA_ABORT_DONE_INTR_STATUS :: u32 where "PLX_DMA_ABORT_DONE_INTR_STATUS = push_bit 19 1"
definition PLX_DMA_IMM_PAUSE_INTR_STATUS :: u32 where "PLX_DMA_IMM_PAUSE_INTR_STATUS = push_bit 21 1"

definition PLX_DMA_ALL_INTR_EN :: u32 where
  "PLX_DMA_ALL_INTR_EN = PLX_DMA_ERROR_INTR_EN OR PLX_DMA_INVLD_DESC_INTR_EN OR
     PLX_DMA_ABORT_DONE_INTR_EN OR PLX_DMA_GRACE_PAUSE_INTR_EN OR PLX_DMA_IMM_PAUSE_INTR_EN"

definition PLX_DMA_ERROR_STATUS :: u32 where
  "PLX_DMA_ERROR_STATUS = PLX_DMA_ERROR_INTR_STATUS OR PLX_DMA_INVLD_DESC_INTR_STATUS OR
     PLX_DMA_ABORT_DONE_INTR_STATUS OR PLX_DMA_IMM_PAUSE_INTR_STATUS"

definition PCI_DEV_CTL2_CPL_TO_DIS :: u32 where "PCI_DEV_CTL2_CPL_TO_DIS = push_bit 4 1"
definition DMA_MIN_COOKIE :: "32 word" where "DMA_MIN_COOKIE = 1"

section \<open>State\<close>

record plx_dma_desc =
  dw0 :: u32
  dw1 :: u32
  dw2 :: u32
  dw3 :: u32

text \<open>The part of the kernel's transaction record the driver uses; the cookie is a signed integer.\<close>

record dma_tx =
  tx_cookie :: "32 word"
  tx_flags :: u64
  tx_callback :: "nat option"

record 'h plx_dma_chan =
  last_tail :: u32
  ch_head :: u32
  desc_ring :: "plx_dma_desc mem"
  desc_alloc :: bool
  desc_ring_da :: u64
  ch_base_addr :: u64
  ctrl_reg :: u32
  tx_array :: "dma_tx mem"
  tx_alloc :: bool
  dma_hang :: bool
  dbg_flush :: bool
  dbg_dma_hold_cnt :: u32
  chan_cookie :: "32 word"
  completed_cookie :: "32 word"
  max_xfer_size :: u64
  prep_locked :: bool
  called :: "nat list"
  engine :: 'h

text \<open>The engine: registers are addressed from the base of the device.\<close>

record 'h dma_hw =
  hw_read :: "u32 \<Rightarrow> 'h \<Rightarrow> plx_dma_desc mem \<Rightarrow> u32 \<times> 'h \<times> plx_dma_desc mem"
  hw_write :: "u32 \<Rightarrow> u32 \<Rightarrow> 'h \<Rightarrow> 'h"

section \<open>Registers\<close>

definition plx_dma_reg_read :: "'h dma_hw \<Rightarrow> u32 \<Rightarrow> 'h plx_dma_chan \<Rightarrow> u32 \<times> 'h plx_dma_chan" where
  "plx_dma_reg_read hw offset ch =
     (case hw_read hw offset (engine ch) (desc_ring ch) of
        (v, e, ring) \<Rightarrow> (v, ch\<lparr>engine := e, desc_ring := ring\<rparr>))"

definition plx_dma_reg_write :: "'h dma_hw \<Rightarrow> u32 \<Rightarrow> u32 \<Rightarrow> 'h plx_dma_chan \<Rightarrow> 'h plx_dma_chan" where
  "plx_dma_reg_write hw offset v ch = ch\<lparr>engine := hw_write hw offset v (engine ch)\<rparr>"

definition plx_dma_ch_reg_read :: "'h dma_hw \<Rightarrow> u32 \<Rightarrow> 'h plx_dma_chan \<Rightarrow> u32 \<times> 'h plx_dma_chan" where
  "plx_dma_ch_reg_read hw offset ch = plx_dma_reg_read hw (ucast (ucast offset + ch_base_addr ch)) ch"

definition plx_dma_ch_reg_write :: "'h dma_hw \<Rightarrow> u32 \<Rightarrow> u32 \<Rightarrow> 'h plx_dma_chan \<Rightarrow> 'h plx_dma_chan" where
  "plx_dma_ch_reg_write hw offset v ch = plx_dma_reg_write hw (ucast (ucast offset + ch_base_addr ch)) v ch"

section \<open>Positions\<close>

definition plx_dma_ring_inc :: "u32 \<Rightarrow> u32" where
  "plx_dma_ring_inc v = (v + 1) AND (PLX_DMA_DESC_RX_SIZE - 1)"

definition plx_dma_ring_dec :: "u32 \<Rightarrow> u32" where
  "plx_dma_ring_dec v = (if v \<noteq> 0 then v - 1 else PLX_DMA_DESC_RX_SIZE - 1)"

definition desc_ring_da_to_index :: "u64 \<Rightarrow> u32" where
  "desc_ring_da_to_index addr = ucast ((addr div 16) AND ucast (PLX_DMA_DESC_RX_SIZE - 1))"

definition plx_dma_inc_head :: "'h plx_dma_chan \<Rightarrow> 'h plx_dma_chan" where
  "plx_dma_inc_head ch = ch\<lparr>ch_head := plx_dma_ring_inc (ch_head ch)\<rparr>"

text \<open>The free descriptors between head and tail; one is always kept free.\<close>

definition plx_dma_ring_count :: "u32 \<Rightarrow> u32 \<Rightarrow> int" where
  "plx_dma_ring_count h t =
     (let count = (if t \<le> h then (t - 0) + (PLX_DMA_DESC_RX_SIZE - h) else t - h)
      in sint count - 1)"

section \<open>Start and stop of the channel\<close>

definition plx_dma_alloc_desc_ring :: "u64 option \<Rightarrow> bool \<Rightarrow> 'h plx_dma_chan \<Rightarrow> int \<times> 'h plx_dma_chan" where
  "plx_dma_alloc_desc_ring da tx_ok ch =
     (case da of
        None \<Rightarrow> (- ENOMEM, ch\<lparr>desc_alloc := False\<rparr>)
      | Some a \<Rightarrow>
          (let ch1 = ch\<lparr>desc_alloc := True, desc_ring_da := a,
                 desc_ring := (\<lambda>_. \<lparr>dw0 = 0, dw1 = 0, dw2 = 0, dw3 = 0\<rparr>)\<rparr>
           in if tx_ok
              then (0, ch1\<lparr>tx_alloc := True, tx_array := (\<lambda>_. \<lparr>tx_cookie = 0, tx_flags = 0, tx_callback = None\<rparr>)\<rparr>)
              else (- ENOMEM, ch1\<lparr>tx_alloc := False, desc_alloc := False\<rparr>)))"

fun write_regs :: "'h dma_hw \<Rightarrow> (u32 \<times> u32) list \<Rightarrow> 'h plx_dma_chan \<Rightarrow> 'h plx_dma_chan" where
  "write_regs hw [] ch = ch"
| "write_regs hw ((r, v) # rs) ch = write_regs hw rs (plx_dma_ch_reg_write hw r v ch)"

definition plx_dma_chan_clear_desc_ring :: "'h dma_hw \<Rightarrow> 'h plx_dma_chan \<Rightarrow> 'h plx_dma_chan" where
  "plx_dma_chan_clear_desc_ring hw =
     write_regs hw [(PLX_DMA_BLK_SRC_LOWER, 0), (PLX_DMA_BLK_SRC_UPPER, 0), (PLX_DMA_BLK_DST_LOWER, 0),
       (PLX_DMA_BLK_DST_UPPER, 0), (PLX_DMA_BLK_TRSFR_SIZE, 0), (PLX_DMA_DESC_RING_ADDR_LOW, 0),
       (PLX_DMA_DESC_RING_ADDR_HIGH, 0), (PLX_DMA_DESC_RING_SIZE, 0), (PLX_DMA_NEXT_DESC_ADDR_LOW, 0)]"

text \<open>Stopping asks for a graceful pause and polls for it, then clears the registers in any case.\<close>

fun pause_poll :: "'h dma_hw \<Rightarrow> nat \<Rightarrow> 'h plx_dma_chan \<Rightarrow> 'h plx_dma_chan" where
  "pause_poll hw 0 ch = ch"
| "pause_poll hw (Suc i) ch =
     (case plx_dma_ch_reg_read hw PLX_DMA_CTRL_STATUS ch of
        (v, ch1) \<Rightarrow> if v AND PLX_DMA_CTRL_PAUSE_DONE_STATUS \<noteq> 0 then ch1 else pause_poll hw i ch1)"

definition plx_dma_disable_chan :: "'h dma_hw \<Rightarrow> 'h plx_dma_chan \<Rightarrow> 'h plx_dma_chan" where
  "plx_dma_disable_chan hw ch =
     (case plx_dma_ch_reg_read hw PLX_DMA_CTRL_STATUS ch of
        (v, ch1) \<Rightarrow>
          if v AND PLX_DMA_CTRL_START = 0 then plx_dma_chan_clear_desc_ring hw ch1
          else
            (let v1 = (v OR PLX_DMA_CTRL_PAUSED) AND NOT PLX_DMA_CTRL_START in
             plx_dma_chan_clear_desc_ring hw
               (pause_poll hw PLX_DMA_PAUSE_TO (plx_dma_ch_reg_write hw PLX_DMA_CTRL_STATUS v1 ch1))))"

definition plx_dma_enable_chan :: "'h dma_hw \<Rightarrow> 'h plx_dma_chan \<Rightarrow> 'h plx_dma_chan" where
  "plx_dma_enable_chan hw ch =
     (case plx_dma_ch_reg_read hw PLX_DMA_CTRL_STATUS ch of
        (v, ch1) \<Rightarrow>
          (let ch2 = (if v AND PLX_DMA_CTRL_IN_PROGRESS \<noteq> 0 then ch1\<lparr>dma_hang := True\<rparr> else ch1);
               c1 = v AND 0x3FFFE000;
               c2 = c1 OR PLX_DMA_CTRL_WB_ENABLE;
               c3 = c2 AND NOT PLX_DMA_CTRL_MODE_BITS;
               c4 = c3 OR PLX_DMA_CTRL_OFFCHIP_MODE;
               v1 = (c4 OR PLX_DMA_CTRL_PAUSE_DONE_STATUS) AND NOT PLX_DMA_CTRL_PAUSED
           in plx_dma_ch_reg_write hw PLX_DMA_CTRL_STATUS v1 (ch2\<lparr>ctrl_reg := c4\<rparr>)))"

definition plx_dma_chan_mask_intr :: "'h dma_hw \<Rightarrow> 'h plx_dma_chan \<Rightarrow> 'h plx_dma_chan" where
  "plx_dma_chan_mask_intr hw ch =
     (case plx_dma_ch_reg_read hw PLX_DMA_INTR_CTRL_STATUS ch of
        (v, ch1) \<Rightarrow> plx_dma_ch_reg_write hw PLX_DMA_INTR_CTRL_STATUS (v AND NOT PLX_DMA_ALL_INTR_EN) ch1)"

definition plx_dma_chan_unmask_intr :: "'h dma_hw \<Rightarrow> 'h plx_dma_chan \<Rightarrow> 'h plx_dma_chan" where
  "plx_dma_chan_unmask_intr hw ch =
     (case plx_dma_ch_reg_read hw PLX_DMA_INTR_CTRL_STATUS ch of
        (v, ch1) \<Rightarrow> plx_dma_ch_reg_write hw PLX_DMA_INTR_CTRL_STATUS
          ((v AND NOT PLX_DMA_ALL_INTR_EN) OR PLX_DMA_ERROR_INTR_EN OR PLX_DMA_ABORT_DONE_INTR_EN) ch1)"

definition plx_dma_chan_set_desc_ring :: "'h dma_hw \<Rightarrow> 'h plx_dma_chan \<Rightarrow> 'h plx_dma_chan" where
  "plx_dma_chan_set_desc_ring hw ch =
     (let da = desc_ring_da ch in
      write_regs hw [(PLX_DMA_DESC_RING_ADDR_LOW, ucast (da AND 0xffffffff)),
        (PLX_DMA_DESC_RING_ADDR_HIGH, ucast (drop_bit 32 da AND 0xffffffff)),
        (PLX_DMA_DESC_RING_SIZE, PLX_DMA_DESC_RX_SIZE),
        (PLX_DMA_NEXT_DESC_ADDR_LOW, ucast (da AND 0xffffffff))]
        (plx_dma_chan_clear_desc_ring hw ch))"

definition plx_dma_issue_pending :: "'h dma_hw \<Rightarrow> 'h plx_dma_chan \<Rightarrow> 'h plx_dma_chan" where
  "plx_dma_issue_pending hw ch =
     (let v = (ctrl_reg ch OR (PLX_DMA_CTRL_HEADER_LOG OR PLX_DMA_CTRL_STATUS_BITS)) OR PLX_DMA_CTRL_START
      in plx_dma_ch_reg_write hw PLX_DMA_CTRL_STATUS v ch)"

definition plx_get_hw_last_desc :: "'h dma_hw \<Rightarrow> 'h plx_dma_chan \<Rightarrow> u32 \<times> 'h plx_dma_chan" where
  "plx_get_hw_last_desc hw ch =
     (case plx_dma_ch_reg_read hw PLX_DMA_LAST_DESC_ADDR_LOW ch of
        (v, ch1) \<Rightarrow> (desc_ring_da_to_index (ucast v - (desc_ring_da ch1 AND 0xffffffff)), ch1))"

definition plx_get_hw_next_desc :: "'h dma_hw \<Rightarrow> 'h plx_dma_chan \<Rightarrow> u32 \<times> 'h plx_dma_chan" where
  "plx_get_hw_next_desc hw ch =
     (case plx_dma_ch_reg_read hw PLX_DMA_NEXT_DESC_ADDR_LOW ch of
        (v, ch1) \<Rightarrow> (desc_ring_da_to_index (ucast v - (desc_ring_da ch1 AND 0xffffffff)), ch1))"

section \<open>Cleaning up finished descriptors\<close>

text \<open>
  The record of a finished descriptor: its cookie becomes the last completed one and its callback
  is called, once.
\<close>

definition complete_tx :: "u32 \<Rightarrow> 'h plx_dma_chan \<Rightarrow> 'h plx_dma_chan outcome" where
  "complete_tx t ch =
     (let tx = tx_array ch (unat t) in
      if \<not> tx_alloc ch then Abort
      else if tx_cookie tx = 0 then Ret ch
      else if tx_cookie tx <s DMA_MIN_COOKIE then Abort
      else Ret (ch\<lparr>completed_cookie := tx_cookie tx,
        tx_array := (tx_array ch)(unat t := tx\<lparr>tx_cookie := 0, tx_callback := None\<rparr>),
        called := called ch @ (case tx_callback tx of None \<Rightarrow> [] | Some f \<Rightarrow> [f])\<rparr>))"

text \<open>
  An unfinished descriptor is looked at again after reading a register, which flushes the engine's
  write backs. If it is still unfinished, and the last one the engine has fetched, and the engine is
  idle, the engine is started again. The loop runs from the tail to the head it saw at the start.
\<close>

definition restart_if_held :: "'h dma_hw \<Rightarrow> u32 \<Rightarrow> u32 \<Rightarrow> 'h plx_dma_chan \<Rightarrow> 'h plx_dma_chan" where
  "restart_if_held hw last_hw t ch =
     (if last_hw = t then
        (case plx_dma_ch_reg_read hw PLX_DMA_CTRL_STATUS ch of
           (v, ch1) \<Rightarrow>
             if v AND PLX_DMA_CTRL_IN_PROGRESS = 0
             then plx_dma_issue_pending hw (ch1\<lparr>dbg_dma_hold_cnt := dbg_dma_hold_cnt ch1 + 1\<rparr>)
             else ch1)
      else ch)"

definition desc_busy :: "u32 \<Rightarrow> 'h plx_dma_chan \<Rightarrow> bool" where
  "desc_busy t ch \<longleftrightarrow> dw0 (desc_ring ch (unat t)) AND PLX_DESC_VALID \<noteq> 0"

partial_function (option) cleanup_loop ::
  "'h dma_hw \<Rightarrow> u32 \<Rightarrow> u32 \<Rightarrow> 'h plx_dma_chan \<Rightarrow> (u32 \<times> 'h plx_dma_chan) outcome option" where
  "cleanup_loop hw cached t ch =
     (if t = cached then Some (Ret (t, ch))
      else if \<not> desc_alloc ch then Some Abort
      else
        (case (if desc_busy t ch then plx_get_hw_last_desc hw ch else (t, ch)) of
           (last_hw, ch1) \<Rightarrow>
             if desc_busy t ch \<and> desc_busy t ch1 then Some (Ret (t, restart_if_held hw last_hw t ch1))
             else (case complete_tx t ch1 of
                     Abort \<Rightarrow> Some Abort
                   | Ret ch2 \<Rightarrow> cleanup_loop hw cached (plx_dma_ring_inc t) ch2)))"

definition plx_dma_cleanup :: "'h dma_hw \<Rightarrow> 'h plx_dma_chan \<Rightarrow> 'h plx_dma_chan outcome option" where
  "plx_dma_cleanup hw ch =
     (case cleanup_loop hw (ch_head ch) (last_tail ch) ch of
        None \<Rightarrow> None
      | Some Abort \<Rightarrow> Some Abort
      | Some (Ret (t, ch1)) \<Rightarrow> Some (Ret (ch1\<lparr>last_tail := t\<rparr>)))"

definition plx_dma_chan_setup :: "'h dma_hw \<Rightarrow> 'h plx_dma_chan \<Rightarrow> int \<times> 'h plx_dma_chan" where
  "plx_dma_chan_setup hw ch =
     (let ch1 = plx_dma_reg_write hw PCI_DEV_CTL2_REG PCI_DEV_CTL2_CPL_TO_DIS ch;
          ch2 = plx_dma_chan_set_desc_ring hw ch1;
          ch3 = ch2\<lparr>last_tail := 0, ch_head := 0\<rparr>
      in (0, plx_dma_enable_chan hw (plx_dma_chan_unmask_intr hw ch3)))"

definition plx_dma_free_desc_ring :: "'h plx_dma_chan \<Rightarrow> 'h plx_dma_chan" where
  "plx_dma_free_desc_ring ch = ch\<lparr>tx_alloc := False, desc_alloc := False\<rparr>"

definition plx_dma_chan_init :: "'h dma_hw \<Rightarrow> u64 option \<Rightarrow> bool \<Rightarrow> 'h plx_dma_chan \<Rightarrow> int \<times> 'h plx_dma_chan" where
  "plx_dma_chan_init hw da tx_ok ch =
     (case plx_dma_alloc_desc_ring da tx_ok ch of
        (rc, ch1) \<Rightarrow>
          if rc \<noteq> 0 then (rc, ch1)
          else (case plx_dma_chan_setup hw ch1 of
                  (rc', ch2) \<Rightarrow> if rc' \<noteq> 0 then (rc', plx_dma_free_desc_ring ch2) else (rc', ch2)))"

definition plx_dma_alloc_chan_resources :: "'h dma_hw \<Rightarrow> u64 option \<Rightarrow> bool \<Rightarrow> 'h plx_dma_chan \<Rightarrow> int \<times> 'h plx_dma_chan" where
  "plx_dma_alloc_chan_resources hw da tx_ok ch =
     (case plx_dma_chan_init hw da tx_ok ch of
        (rc, ch1) \<Rightarrow> (if rc \<noteq> 0 then rc else sint PLX_DMA_DESC_RX_SIZE, ch1))"

definition plx_dma_free_chan_resources :: "'h dma_hw \<Rightarrow> 'h plx_dma_chan \<Rightarrow> 'h plx_dma_chan outcome option" where
  "plx_dma_free_chan_resources hw ch =
     (case plx_dma_cleanup hw (plx_dma_chan_mask_intr hw (plx_dma_disable_chan hw ch)) of
        None \<Rightarrow> None
      | Some Abort \<Rightarrow> Some Abort
      | Some (Ret ch1) \<Rightarrow> Some (Ret (plx_dma_free_desc_ring ch1)))"

section \<open>The status of a transfer\<close>

datatype dma_status = DMA_COMPLETE | DMA_IN_PROGRESS

text \<open>\<open>dma_async_is_complete\<close> of the kernel: cookies wrap, so two comparisons are needed.\<close>

definition dma_async_is_complete :: "32 word \<Rightarrow> 32 word \<Rightarrow> 32 word \<Rightarrow> dma_status" where
  "dma_async_is_complete c last_complete last_used =
     (if last_complete \<le>s last_used
      then (if c \<le>s last_complete \<or> last_used <s c then DMA_COMPLETE else DMA_IN_PROGRESS)
      else (if c \<le>s last_complete \<and> last_used <s c then DMA_COMPLETE else DMA_IN_PROGRESS))"

definition plx_dma_cookie_status :: "'h plx_dma_chan \<Rightarrow> 32 word \<Rightarrow> dma_status \<times> 32 word \<times> 32 word" where
  "plx_dma_cookie_status ch c =
     (dma_async_is_complete c (completed_cookie ch) (chan_cookie ch), completed_cookie ch, chan_cookie ch)"

definition plx_dma_is_tx_complete ::
  "'h dma_hw \<Rightarrow> 'h plx_dma_chan \<Rightarrow> 32 word \<Rightarrow> ((dma_status \<times> 32 word \<times> 32 word) \<times> 'h plx_dma_chan) outcome option" where
  "plx_dma_is_tx_complete hw ch c =
     (if fst (plx_dma_cookie_status ch c) \<noteq> DMA_COMPLETE
      then (case plx_dma_cleanup hw ch of
              None \<Rightarrow> None
            | Some Abort \<Rightarrow> Some Abort
            | Some (Ret ch1) \<Rightarrow> Some (Ret (plx_dma_cookie_status ch1 c, ch1)))
      else Some (Ret (plx_dma_cookie_status ch c, ch)))"

section \<open>Programming transfers\<close>

definition plx_dma_avail_desc_ring_space ::
  "'h dma_hw \<Rightarrow> int \<Rightarrow> 'h plx_dma_chan \<Rightarrow> (int \<times> 'h plx_dma_chan) outcome option" where
  "plx_dma_avail_desc_ring_space hw required ch =
     (let count = plx_dma_ring_count (ch_head ch) (last_tail ch) in
      if count < required then
        (case plx_dma_cleanup hw (plx_dma_issue_pending hw ch) of
           None \<Rightarrow> None
         | Some Abort \<Rightarrow> Some Abort
         | Some (Ret ch1) \<Rightarrow>
             (let count1 = plx_dma_ring_count (ch_head ch1) (last_tail ch1) in
              Some (Ret (if count1 < required then - ENOMEM else count1, ch1))))
      else Some (Ret (count, ch)))"

definition plx_dma_memcpy_desc :: "u64 \<Rightarrow> u64 \<Rightarrow> u64 \<Rightarrow> u32 \<Rightarrow> bool \<Rightarrow> plx_dma_desc" where
  "plx_dma_memcpy_desc src_phys dst_phys sz fl desc_valid =
     \<lparr>dw0 = ((ucast (sz AND PLX_DESC_SIZE_MASK) OR (if desc_valid then PLX_DESC_VALID else 0)) OR
         (if fl \<noteq> 0 then PLX_DESC_INTR_ENABLE else 0)),
      dw1 = ucast ((drop_bit 16 src_phys AND PLX_DESC_HALF_HIGH_MASK) OR drop_bit 32 dst_phys),
      dw2 = ucast (dst_phys AND PLX_DESC_DWORD_MASK),
      dw3 = ucast (src_phys AND PLX_DESC_DWORD_MASK)\<rparr>"

definition plx_dma_valid_desc :: "plx_dma_desc \<Rightarrow> plx_dma_desc" where
  "plx_dma_valid_desc desc = desc\<lparr>dw0 := dw0 desc OR PLX_DESC_VALID\<rparr>"

text \<open>
  \<open>n\<close> descriptors of a transfer. With flags the last one is left invalid and the head in front of it:
  it is made valid when the transfer is submitted.
\<close>

fun prog_loop :: "nat \<Rightarrow> u64 \<Rightarrow> u64 \<Rightarrow> u64 \<Rightarrow> u32 \<Rightarrow> 'h plx_dma_chan \<Rightarrow> 'h plx_dma_chan" where
  "prog_loop 0 src dst len fl ch = ch"
| "prog_loop (Suc n) src dst len fl ch =
     (let send_len = min len (max_xfer_size ch);
          valid_descr = (n \<noteq> 0 \<or> fl = 0);
          ch1 = ch\<lparr>desc_ring := (desc_ring ch)(unat (ch_head ch) :=
            plx_dma_memcpy_desc src dst send_len (if n \<noteq> 0 then 0 else fl) valid_descr)\<rparr>;
          ch2 = (if valid_descr then plx_dma_inc_head ch1 else ch1)
      in prog_loop n (src + send_len) (dst + send_len) (len - send_len) fl ch2)"

text \<open>The number of descriptors is a signed 32-bit integer; the loop runs until it is zero.\<close>

definition num_descs :: "u64 \<Rightarrow> u64 \<Rightarrow> 32 word" where
  "num_descs len mx = (if len = 0 then 1 else ucast ((len + mx - 1) div mx))"

definition plx_dma_prog_memcpy_desc ::
  "'h dma_hw \<Rightarrow> u64 \<Rightarrow> u64 \<Rightarrow> u64 \<Rightarrow> u32 \<Rightarrow> 'h plx_dma_chan \<Rightarrow> (int \<times> 'h plx_dma_chan) outcome option" where
  "plx_dma_prog_memcpy_desc hw src dst len fl ch =
     (if max_xfer_size ch = 0 then Some Abort
      else
        (let n = num_descs len (max_xfer_size ch) in
         case plx_dma_avail_desc_ring_space hw (sint n) ch of
           None \<Rightarrow> None
         | Some Abort \<Rightarrow> Some Abort
         | Some (Ret (ret, ch1)) \<Rightarrow>
             if ret \<le> 0 then Some (Ret (ret, ch1))
             else if \<not> desc_alloc ch1 then Some Abort
             else Some (Ret (0, prog_loop (unat n) src dst len fl ch1))))"

text \<open>
  The transaction record belongs to the last descriptor of the transfer. It is handed to the client
  with the lock held; the client sets the callback and submits it.
\<close>

definition allocate_tx :: "u64 \<Rightarrow> 'h plx_dma_chan \<Rightarrow> u32 \<times> 'h plx_dma_chan" where
  "allocate_tx fl ch =
     (let idx = (if fl \<noteq> 0 then ch_head ch else plx_dma_ring_dec (ch_head ch)) in
      (idx, ch\<lparr>tx_array := (tx_array ch)(unat idx := (tx_array ch (unat idx))\<lparr>tx_flags := fl\<rparr>)\<rparr>))"

definition plx_dma_prep_memcpy_lock ::
  "'h dma_hw \<Rightarrow> u64 \<Rightarrow> u64 \<Rightarrow> u64 \<Rightarrow> u64 \<Rightarrow> 'h plx_dma_chan \<Rightarrow> (u32 option \<times> 'h plx_dma_chan) outcome option" where
  "plx_dma_prep_memcpy_lock hw dst src len fl ch =
     (case plx_dma_prog_memcpy_desc hw src dst len (ucast fl) (ch\<lparr>prep_locked := True\<rparr>) of
        None \<Rightarrow> None
      | Some Abort \<Rightarrow> Some Abort
      | Some (Ret (ret, ch1)) \<Rightarrow>
          if 0 \<le> ret then
            (if \<not> tx_alloc ch1 then Some Abort
             else (case allocate_tx fl ch1 of (idx, ch2) \<Rightarrow> Some (Ret (Some idx, ch2))))
          else Some (Ret (None, ch1\<lparr>prep_locked := False\<rparr>)))"

definition plx_dma_prep_interrupt_lock ::
  "'h dma_hw \<Rightarrow> u64 \<Rightarrow> 'h plx_dma_chan \<Rightarrow> (u32 option \<times> 'h plx_dma_chan) outcome option" where
  "plx_dma_prep_interrupt_lock hw fl ch = plx_dma_prep_memcpy_lock hw 0 0 0 fl ch"

text \<open>Cookies count up from one and start again there.\<close>

definition next_cookie :: "32 word \<Rightarrow> 32 word" where
  "next_cookie prev = (let c = prev + 1 in if c <s DMA_MIN_COOKIE then DMA_MIN_COOKIE else c)"

definition plx_dma_tx_submit_unlock :: "u32 \<Rightarrow> 'h plx_dma_chan \<Rightarrow> (32 word \<times> 'h plx_dma_chan) outcome" where
  "plx_dma_tx_submit_unlock idx ch =
     (let cookie = next_cookie (chan_cookie ch);
          tx = (tx_array ch (unat idx))\<lparr>tx_cookie := cookie\<rparr>;
          ch1 = ch\<lparr>chan_cookie := cookie, tx_array := (tx_array ch)(unat idx := tx)\<rparr>
      in if \<not> tx_alloc ch then Abort
         else if tx_flags tx = 0 then Ret (cookie, ch1\<lparr>prep_locked := False\<rparr>)
         else if \<not> desc_alloc ch then Abort
         else
           (let h = unat (ch_head ch1);
                ch2 = plx_dma_inc_head (ch1\<lparr>desc_ring := (desc_ring ch1)(h := plx_dma_valid_desc (desc_ring ch1 h))\<rparr>)
            in Ret (cookie, ch2\<lparr>prep_locked := False,
                 tx_array := (tx_array ch2)(unat idx := tx\<lparr>tx_flags := 0\<rparr>)\<rparr>)))"

section \<open>Interrupts\<close>

definition plx_dma_ack_interrupt :: "'h dma_hw \<Rightarrow> 'h plx_dma_chan \<Rightarrow> u32 \<times> 'h plx_dma_chan" where
  "plx_dma_ack_interrupt hw ch =
     (case plx_dma_ch_reg_read hw PLX_DMA_INTR_CTRL_STATUS ch of
        (v, ch1) \<Rightarrow> (v, plx_dma_ch_reg_write hw PLX_DMA_INTR_CTRL_STATUS v ch1))"

definition plx_dma_thread_fn :: "'h dma_hw \<Rightarrow> 'h plx_dma_chan \<Rightarrow> 'h plx_dma_chan outcome option" where
  "plx_dma_thread_fn hw ch =
     (if dma_hang ch then Some (Ret ch)
      else case plx_dma_cleanup hw ch of
        None \<Rightarrow> None
      | Some Abort \<Rightarrow> Some Abort
      | Some (Ret ch1) \<Rightarrow>
          (case plx_dma_ack_interrupt hw ch1 of
             (v, ch2) \<Rightarrow>
               if v AND PLX_DMA_ERROR_STATUS \<noteq> 0 then Some (Ret (ch2\<lparr>dma_hang := True\<rparr>))
               else
                 (let ch3 = (if dbg_flush ch2 then ch2\<lparr>dbg_flush := False\<rparr> else ch2) in
                  if v AND PLX_DMA_DESC_DONE_INTR_STATUS \<noteq> 0 then plx_dma_cleanup hw ch3
                  else Some (Ret ch3))))"

section \<open>Probing the device\<close>

text \<open>
  Results of the kernel: enabling MSI, requesting the interrupt, the affinity hint and registering
  the device. The log lists what was set up and released.
\<close>

datatype dma_event = Msi_on | Intx_on | Irq_on | Irq_off | Msi_off | Registered | Unregistered

record dma_kernel =
  k_msi :: int
  k_irq :: int
  k_affinity :: int
  k_register :: int

definition plx_dma_setup_irq :: "dma_kernel \<Rightarrow> int \<times> dma_event list" where
  "plx_dma_setup_irq k =
     (let e = (if k_msi k \<noteq> 0 then [Intx_on] else [Msi_on]) in
      if k_irq k \<noteq> 0 then (k_irq k, e) else (k_affinity k, e @ [Irq_on]))"

definition plx_dma_free_irq :: "dma_kernel \<Rightarrow> dma_event list" where
  "plx_dma_free_irq k = Irq_off # (if k_msi k = 0 then [Msi_off] else [])"

definition plx_dma_init :: "dma_kernel \<Rightarrow> 'h plx_dma_chan \<Rightarrow> int \<times> dma_event list \<times> 'h plx_dma_chan" where
  "plx_dma_init k ch =
     (case plx_dma_setup_irq k of
        (rc, e) \<Rightarrow> if rc \<noteq> 0 then (rc, e, ch)
                   else (rc, e, ch\<lparr>ch_base_addr := 0x200, prep_locked := False\<rparr>))"

definition plx_register_dma_device :: "dma_kernel \<Rightarrow> 'h plx_dma_chan \<Rightarrow> int \<times> dma_event list \<times> 'h plx_dma_chan" where
  "plx_register_dma_device k ch =
     (k_register k, if k_register k = 0 then [Registered] else [],
      ch\<lparr>chan_cookie := DMA_MIN_COOKIE, completed_cookie := DMA_MIN_COOKIE\<rparr>)"

definition plx_dma_probe :: "dma_kernel \<Rightarrow> 'h plx_dma_chan \<Rightarrow> int \<times> dma_event list \<times> 'h plx_dma_chan" where
  "plx_dma_probe k ch =
     (case plx_dma_init k (ch\<lparr>max_xfer_size := PLX_DESC_SIZE_MASK\<rparr>) of
        (rc, e, ch1) \<Rightarrow>
          if rc \<noteq> 0 then (rc, e, ch1)
          else (case plx_register_dma_device k ch1 of
                  (rc', e', ch2) \<Rightarrow>
                    if rc' \<noteq> 0 then (rc', e @ e' @ plx_dma_free_irq k, ch2) else (rc', e @ e', ch2)))"

definition plx_dma_remove :: "dma_kernel \<Rightarrow> dma_event list" where
  "plx_dma_remove k = Unregistered # plx_dma_free_irq k"

end
