(* ===== verification/Dma_Facts.thy ===== *)
theory Dma_Facts
  imports Plx_Dma
begin

text \<open>
  What the DMA driver promises: the count of free descriptors, the descriptors of a transfer, which
  descriptors a clean-up finishes, and that over any run every callback is called once, in the order
  the transfers were submitted.
\<close>

section \<open>The ring counter\<close>

definition dma_add :: "nat \<Rightarrow> u32 \<Rightarrow> nat \<Rightarrow> u32" where
  "dma_add N c n = (plx_dma_ring_inc ^^ n) c"

definition dma_pos :: "nat \<Rightarrow> u32 \<Rightarrow> nat" where
  "dma_pos N c = unat c"

definition dma_used :: "nat \<Rightarrow> u32 \<Rightarrow> u32 \<Rightarrow> nat" where
  "dma_used N t h = nat (2047 - plx_dma_ring_count h t)"

definition dma_ok :: "nat \<Rightarrow> u32 \<Rightarrow> bool" where
  "dma_ok N c \<longleftrightarrow> unat c < 2048"

lemma ring_inc_val: "unat (plx_dma_ring_inc c) = (unat c + 1) mod 2048"
proof -
  have "(2047 :: u32) = mask 11" by (simp add: mask_eq_exp_minus_1)
  then have e: "plx_dma_ring_inc c = take_bit 11 (c + 1)"
    by (simp add: plx_dma_ring_inc_def PLX_DMA_DESC_RX_SIZE_def take_bit_eq_mask)
  have "unat (plx_dma_ring_inc c) = take_bit 11 (unat (c + 1))"
    unfolding e by (rule unsigned_take_bit_eq)
  also have "\<dots> = unat (c + 1) mod 2048" by (simp add: take_bit_nat_def)
  also have "\<dots> = (unat c + 1) mod 2 ^ 32 mod 2048" by (simp add: unat_word_ariths)
  also have "\<dots> = (unat c + 1) mod 2048" by (simp add: mod_mod_cancel)
  finally show ?thesis .
qed

lemma ring_add_val: "unat c < 2048 \<Longrightarrow> unat (dma_add N c n) = (unat c + n) mod 2048"
  unfolding dma_add_def by (induction n) (simp_all add: ring_inc_val mod_Suc_eq)

lemma sint_small:
  fixes w :: u32
  assumes "unat w < 2 ^ 31"
  shows "sint w = int (unat w)"
proof -
  have "int (unat w) < int (2 ^ 31)" using assms by (simp only: of_nat_less_iff)
  then have "uint w < 2 ^ 31" by simp
  moreover have "- (2 ^ 31) \<le> uint w" by (rule order_trans [of _ 0]) simp_all
  ultimately have "signed_take_bit 31 (uint w) = uint w" by (intro signed_take_bit_int_eq_self)
  then show ?thesis by (simp add: sint_uint)
qed

lemma ring_count_val:
  assumes "unat h < 2048" "unat t < 2048"
  shows "plx_dma_ring_count h t = 2047 - int ((unat h + 2048 - unat t) mod 2048)"
proof -
  have small: "sint w = int (unat w)" if "unat w \<le> 2048" for w :: u32
    using that by (intro sint_small) simp
  show ?thesis
  proof (cases "t \<le> h")
    case True
    then have le: "unat t \<le> unat h" by (simp add: word_le_nat_alt)
    have "unat (2048 - h :: u32) = 2048 - unat h" using assms by (subst unat_sub) (simp_all add: word_le_nat_alt)
    then have "unat ((t - 0) + (PLX_DMA_DESC_RX_SIZE - h)) = unat t + (2048 - unat h)"
      using assms le by (simp add: PLX_DMA_DESC_RX_SIZE_def unat_word_ariths)
    moreover have "(unat h + 2048 - unat t) mod 2048 = unat h - unat t"
      using le assms by (simp add: le_mod_geq)
    ultimately show ?thesis
      using True le assms small [of "(t - 0) + (PLX_DMA_DESC_RX_SIZE - h)"] by (simp add: plx_dma_ring_count_def)
  next
    case False
    then have lt: "unat h < unat t" by (simp add: word_less_nat_alt not_le)
    then have "unat (t - h) = unat t - unat h" by (intro unat_sub) (simp add: word_le_nat_alt)
    then show ?thesis
      using False lt assms small [of "t - h"] by (simp add: plx_dma_ring_count_def)
  qed
qed

interpretation dc: modular_counter unat dma_add dma_pos dma_used dma_ok "\<lambda>N. N = 2048" "\<lambda>_. 2048"
proof
  fix N :: nat and a b c l :: u32 and n :: nat
  show "unat a = unat b \<Longrightarrow> a = b" by (simp add: word_eq_iff_unsigned [where ?'a = nat])
  show "dma_ok N c \<longleftrightarrow> unat c < 2048" by (simp add: dma_ok_def)
  assume N: "N = 2048"
  show "0 < N" "(0 :: nat) < 2048" "N dvd 2048" using N by simp_all
  assume c: "dma_ok N c"
  then show "unat (dma_add N c n) = (unat c + n) mod 2048" by (simp add: dma_ok_def ring_add_val)
  show "dma_pos N c = unat c mod N" using c N by (simp add: dma_ok_def dma_pos_def)
  assume l: "dma_ok N l"
  have "(unat c + 2048 - unat l) mod 2048 < 2048" by simp
  then show "dma_used N l c = (unat c + 2048 - unat l) mod 2048"
    using c l by (simp add: dma_used_def dma_ok_def ring_count_val)
qed

text \<open>
  The number of free descriptors the driver computes is between 0 and 2047 for every head and
  tail it can have, it is 2047 less the descriptors in use, and all 2047 are free exactly when head
  and tail are equal.
\<close>
theorem ring_count_bounds:
  assumes "unat h < 2048" and "unat t < 2048"
  shows "0 \<le> plx_dma_ring_count h t \<and> plx_dma_ring_count h t \<le> 2047 \<and>
    plx_dma_ring_count h t = 2047 - int ((unat h + 2048 - unat t) mod 2048) \<and>
    (plx_dma_ring_count h t = 2047 \<longleftrightarrow> h = t)"
proof -
  have m: "(unat h + 2048 - unat t) mod 2048 < 2048" by simp
  have "h = t \<longleftrightarrow> unat h = unat t" by (simp add: word_eq_iff_unsigned [where ?'a = nat])
  moreover have "(unat h + 2048 - unat t) mod 2048 = 0 \<longleftrightarrow> unat h = unat t"
    using assms by (cases "unat t \<le> unat h") (simp_all add: le_mod_geq)
  ultimately show ?thesis using m ring_count_val [OF assms] by auto
qed

section \<open>Cleaning up\<close>

text \<open>The engine's part: reading a register can finish descriptors, and does nothing else to them.\<close>

definition finished :: "plx_dma_desc \<Rightarrow> bool" where
  "finished d \<longleftrightarrow> dw0 d AND PLX_DESC_VALID = 0"

definition hw_ok :: "'h dma_hw \<Rightarrow> bool" where
  "hw_ok hw \<longleftrightarrow> (\<forall>r e m i. case hw_read hw r e m of (v, e', m') \<Rightarrow> m' i = m i \<or> finished (m' i))"

text \<open>What using the engine's registers can change of a channel.\<close>

definition same_chan :: "'h plx_dma_chan \<Rightarrow> 'h plx_dma_chan \<Rightarrow> bool" where
  "same_chan ch ch' \<longleftrightarrow> (\<exists>e r k. ch' = ch\<lparr>engine := e, desc_ring := r, dbg_dma_hold_cnt := k\<rparr> \<and>
     (\<forall>i. r i = desc_ring ch i \<or> finished (r i)))"

lemma same_chanI:
  "ch' = ch\<lparr>engine := e, desc_ring := r, dbg_dma_hold_cnt := k\<rparr> \<Longrightarrow> (\<And>i. r i = desc_ring ch i \<or> finished (r i)) \<Longrightarrow>
     same_chan ch ch'"
  by (auto simp: same_chan_def)

lemma same_chan_refl [simp]: "same_chan ch ch"
  by (rule same_chanI [where e = "engine ch" and r = "desc_ring ch" and k = "dbg_dma_hold_cnt ch"]) simp_all

lemma same_chan_trans: "same_chan a b \<Longrightarrow> same_chan b c \<Longrightarrow> same_chan a c"
proof -
  assume "same_chan a b" "same_chan b c"
  then obtain e r k e' r' k' where b: "b = a\<lparr>engine := e, desc_ring := r, dbg_dma_hold_cnt := k\<rparr>"
    and r: "\<forall>i. r i = desc_ring a i \<or> finished (r i)"
    and c: "c = b\<lparr>engine := e', desc_ring := r', dbg_dma_hold_cnt := k'\<rparr>"
    and r': "\<forall>i. r' i = desc_ring b i \<or> finished (r' i)"
    unfolding same_chan_def by blast
  have "desc_ring b = r" using b by simp
  then have "r' i = desc_ring a i \<or> finished (r' i)" for i using r r' by metis
  moreover have "c = a\<lparr>engine := e', desc_ring := r', dbg_dma_hold_cnt := k'\<rparr>" unfolding c b by simp
  ultimately show ?thesis by (intro same_chanI)
qed

lemma same_chan_fields:
  assumes "same_chan ch ch'"
  shows "last_tail ch' = last_tail ch" "ch_head ch' = ch_head ch" "desc_alloc ch' = desc_alloc ch"
    "tx_alloc ch' = tx_alloc ch" "tx_array ch' = tx_array ch" "called ch' = called ch"
    "prep_locked ch' = prep_locked ch" "max_xfer_size ch' = max_xfer_size ch" "chan_cookie ch' = chan_cookie ch"
    "finished (desc_ring ch i) \<Longrightarrow> finished (desc_ring ch' i)"
proof -
  obtain e r k where c: "ch' = ch\<lparr>engine := e, desc_ring := r, dbg_dma_hold_cnt := k\<rparr>"
    and f: "\<forall>i. r i = desc_ring ch i \<or> finished (r i)"
    using assms by (auto simp: same_chan_def)
  show "finished (desc_ring ch i) \<Longrightarrow> finished (desc_ring ch' i)" using f [rule_format, of i] c by auto
qed (use assms in \<open>auto simp: same_chan_def\<close>)

lemma read_same:
  assumes "hw_ok hw" "plx_dma_ch_reg_read hw r ch = (v, ch')"
  shows "same_chan ch ch'"
proof -
  let ?r = "ucast (ucast r + ch_base_addr ch) :: u32"
  obtain v' e m where h: "hw_read hw ?r (engine ch) (desc_ring ch) = (v', e, m)"
    by (cases "hw_read hw ?r (engine ch) (desc_ring ch)")
  have "m i = desc_ring ch i \<or> finished (m i)" for i
    using assms(1) h unfolding hw_ok_def by (metis (mono_tags, lifting) case_prod_conv)
  moreover have "ch' = ch\<lparr>engine := e, desc_ring := m, dbg_dma_hold_cnt := dbg_dma_hold_cnt ch\<rparr>"
    using assms(2) h by (cases ch) (auto simp: plx_dma_ch_reg_read_def plx_dma_reg_read_def)
  ultimately show ?thesis by (intro same_chanI)
qed

lemma write_same: "same_chan ch (plx_dma_ch_reg_write hw r v ch)"
  by (rule same_chanI [where r = "desc_ring ch" and k = "dbg_dma_hold_cnt ch"])
    (simp_all add: plx_dma_ch_reg_write_def plx_dma_reg_write_def)

lemma issue_same: "same_chan ch (plx_dma_issue_pending hw ch)"
  by (simp add: plx_dma_issue_pending_def write_same)

lemma last_desc_same: "hw_ok hw \<Longrightarrow> plx_get_hw_last_desc hw ch = (v, ch') \<Longrightarrow> same_chan ch ch'"
  by (auto simp: plx_get_hw_last_desc_def intro: read_same split: prod.splits)

lemma restart_same: "hw_ok hw \<Longrightarrow> same_chan ch (restart_if_held hw l t ch)"
proof -
  assume hw: "hw_ok hw"
  obtain v ch1 where r: "plx_dma_ch_reg_read hw PLX_DMA_CTRL_STATUS ch = (v, ch1)"
    by (cases "plx_dma_ch_reg_read hw PLX_DMA_CTRL_STATUS ch")
  let ?c = "ch1\<lparr>dbg_dma_hold_cnt := dbg_dma_hold_cnt ch1 + 1\<rparr>"
  have "same_chan ch1 ?c"
    by (rule same_chanI [where e = "engine ch1" and r = "desc_ring ch1" and k = "dbg_dma_hold_cnt ch1 + 1"]) simp_all
  then have "same_chan ch (plx_dma_issue_pending hw ?c)"
    using read_same [OF hw r] issue_same same_chan_trans by blast
  then show ?thesis using read_same [OF hw r] r by (simp add: restart_if_held_def)
qed

section \<open>The records of a channel\<close>

definition tx_cb :: "dma_tx \<Rightarrow> nat list" where
  "tx_cb tx = (if tx_cookie tx = 0 then [] else case tx_callback tx of None \<Rightarrow> [] | Some f \<Rightarrow> [f])"

definition cbs :: "dma_tx list \<Rightarrow> nat list" where
  "cbs txs = concat (map tx_cb txs)"

lemma cbs_simps [simp]: "cbs [] = []" "cbs (t # ts) = tx_cb t @ cbs ts" "cbs (ts @ us) = cbs ts @ cbs us"
  by (simp_all add: cbs_def)

definition tx_ok :: "dma_tx \<Rightarrow> bool" where
  "tx_ok tx \<longleftrightarrow> tx_cookie tx = 0 \<or> \<not> tx_cookie tx <s DMA_MIN_COOKIE"

abbreviation txs :: "'h plx_dma_chan \<Rightarrow> u32 \<Rightarrow> u32 \<Rightarrow> dma_tx list" where
  "txs ch t h \<equiv> dc.window (tx_array ch) 0 2048 t h"

abbreviation descs :: "'h plx_dma_chan \<Rightarrow> u32 \<Rightarrow> u32 \<Rightarrow> plx_dma_desc list" where
  "descs ch t h \<equiv> dc.window (desc_ring ch) 0 2048 t h"

text \<open>What a clean-up may change: besides the engine's part, records from \<open>t\<close> on \<open>n\<close> cells far.\<close>

definition cleaned :: "u32 \<Rightarrow> nat \<Rightarrow> 'h plx_dma_chan \<Rightarrow> 'h plx_dma_chan \<Rightarrow> bool" where
  "cleaned t n ch ch' \<longleftrightarrow>
     last_tail ch' = last_tail ch \<and> ch_head ch' = ch_head ch \<and> desc_alloc ch' = desc_alloc ch \<and>
     tx_alloc ch' = tx_alloc ch \<and> prep_locked ch' = prep_locked ch \<and> max_xfer_size ch' = max_xfer_size ch \<and>
     chan_cookie ch' = chan_cookie ch \<and>
     (\<forall>i. finished (desc_ring ch i) \<longrightarrow> finished (desc_ring ch' i)) \<and>
     (\<forall>i. (\<exists>k < n. i = (unat t + k) mod 2048) \<longrightarrow> tx_cookie (tx_array ch' i) = 0) \<and>
     (\<forall>i. \<not> (\<exists>k < n. i = (unat t + k) mod 2048) \<longrightarrow> tx_array ch' i = tx_array ch i)"

lemma same_chan_cleaned: "same_chan ch ch' \<Longrightarrow> cleaned t 0 ch ch'"
  by (simp add: cleaned_def same_chan_fields)

lemma complete_tx_ok:
  assumes "tx_alloc ch" "tx_ok (tx_array ch (unat t))" "unat t < 2048"
  shows "\<exists>ch'. complete_tx t ch = Ret ch' \<and> cleaned t 1 ch ch' \<and>
    called ch' = called ch @ tx_cb (tx_array ch (unat t)) \<and> desc_ring ch' = desc_ring ch"
  using assms by (auto simp: complete_tx_def Let_def tx_ok_def tx_cb_def cleaned_def)

lemma txs_cong:
  "(\<And>k. k < dma_used 2048 t h \<Longrightarrow> tx_array ch' ((unat t + k) mod 2048) = tx_array ch ((unat t + k) mod 2048)) \<Longrightarrow>
     txs ch' t h = txs ch t h"
  unfolding dc.window_def by (rule circ_cong) (simp add: dma_pos_def)

lemma inc_add: "plx_dma_ring_inc t = dma_add 2048 t 1"
  by (simp add: dma_add_def)

lemma cleaned_trans:
  assumes "cleaned t 1 a b" "cleaned (plx_dma_ring_inc t) n b c" "unat t < 2048"
  shows "cleaned t (Suc n) a c"
proof -
  have p: "(unat (plx_dma_ring_inc t) + k) mod 2048 = (unat t + Suc k) mod 2048" for k
    by (simp add: ring_inc_val mod_add_left_eq)
  have ex: "(\<exists>k < Suc n. i = (unat t + k) mod 2048) \<longleftrightarrow>
      i = unat t \<or> (\<exists>k < n. i = (unat (plx_dma_ring_inc t) + k) mod 2048)" for i
    unfolding p using assms(3) by (auto simp: less_Suc_eq_0_disj)
  show ?thesis using assms unfolding cleaned_def ex by simp metis
qed

lemma takeWhile_mono:
  "length xs = length ys \<Longrightarrow> (\<And>k. k < length xs \<Longrightarrow> P (xs ! k) \<Longrightarrow> P (ys ! k)) \<Longrightarrow>
     length (takeWhile P xs) \<le> length (takeWhile P ys)"
proof (induction xs ys rule: list_induct2')
  case (4 x xs y ys)
  have "P (xs ! k) \<Longrightarrow> P (ys ! k)" if "k < length xs" for k using 4(3) [of "Suc k"] that by simp
  moreover have "P x \<Longrightarrow> P y" using 4(3) [of 0] by simp
  ultimately show ?case using 4(1,2) by simp
qed simp_all

lemma descs_mono:
  assumes "\<And>i. finished (desc_ring ch i) \<Longrightarrow> finished (desc_ring ch' i)"
  shows "length (takeWhile finished (descs ch t h)) \<le> length (takeWhile finished (descs ch' t h))"
  using assms by (intro takeWhile_mono) (simp_all add: dc.window_nth)

text \<open>The first descriptor: finished at once, after the flush, or not yet.\<close>

definition looked_at :: "'h dma_hw \<Rightarrow> u32 \<Rightarrow> 'h plx_dma_chan \<Rightarrow> u32 \<times> 'h plx_dma_chan" where
  "looked_at hw t ch = (if desc_busy t ch then plx_get_hw_last_desc hw ch else (t, ch))"

lemma busy_finished: "desc_busy t ch \<longleftrightarrow> \<not> finished (desc_ring ch (unat t))"
  by (simp add: desc_busy_def finished_def)

lemma looked_at_ok:
  assumes "hw_ok hw" "looked_at hw t ch = (l, ch1)"
  shows "same_chan ch ch1" "\<not> (desc_busy t ch \<and> desc_busy t ch1) \<Longrightarrow> finished (desc_ring ch1 (unat t))"
  using assms last_desc_same [OF assms(1), of ch l ch1]
  by (auto simp: looked_at_def busy_finished split: if_splits)

lemma cleanup_step:
  "t \<noteq> c \<Longrightarrow> desc_alloc ch \<Longrightarrow> looked_at hw t ch = (l, ch1) \<Longrightarrow>
     cleanup_loop hw c t ch =
       (if desc_busy t ch \<and> desc_busy t ch1 then Some (Ret (t, restart_if_held hw l t ch1))
        else (case complete_tx t ch1 of Abort \<Rightarrow> Some Abort
              | Ret ch2 \<Rightarrow> cleanup_loop hw c (plx_dma_ring_inc t) ch2))"
  by (subst cleanup_loop.simps) (simp add: looked_at_def)

lemma cleanup_loop_ok:
  assumes "hw_ok hw" "unat t < 2048" "unat c < 2048" "desc_alloc ch" "tx_alloc ch" "\<forall>tx \<in> set (txs ch t c). tx_ok tx"
  shows "\<exists>n ch'. cleanup_loop hw c t ch = Some (Ret (dma_add 2048 t n, ch')) \<and> n \<le> dma_used 2048 t c \<and>
    cleaned t n ch ch' \<and> called ch' = called ch @ cbs (take n (txs ch t c)) \<and>
    length (takeWhile finished (descs ch t c)) \<le> n \<and>
    (\<forall>k < n. finished (desc_ring ch' ((unat t + k) mod 2048)))"
  using assms(2-)
proof (induction "dma_used 2048 t c" arbitrary: t ch)
  case 0
  have ok: "dma_ok 2048 t" "dma_ok 2048 c" using 0 by (simp_all add: dma_ok_def)
  then have "t = c" using 0(1) dc.used_zero_iff by simp
  then have "cleanup_loop hw c t ch = Some (Ret (t, ch))" by (subst cleanup_loop.simps) simp
  then show ?case using ok 0(1) \<open>t = c\<close>
    by (intro exI [of _ 0] exI [of _ ch]) (simp add: dc.add_0 same_chan_cleaned dc.window_empty)
next
  case (Suc d)
  have ok: "dma_ok 2048 t" "dma_ok 2048 c" using Suc.prems by (simp_all add: dma_ok_def)
  have tc: "t \<noteq> c" using Suc(2) dc.used_self ok by auto
  obtain l ch1 where lk: "looked_at hw t ch = (l, ch1)" by (cases "looked_at hw t ch")
  note sc = looked_at_ok [OF assms(1) lk]
  note sf = same_chan_fields [OF sc(1)]
  have wt: "txs ch t c = tx_array ch (unat t) # txs ch (dma_add 2048 t 1) c"
    and wd: "descs ch t c = desc_ring ch (unat t) # descs ch (dma_add 2048 t 1) c"
    using dc.window_Cons [OF refl ok tc, of "tx_array ch" 0] dc.window_Cons [OF refl ok tc, of "desc_ring ch" 0]
    by (simp_all add: dma_pos_def)
  show ?case
  proof (cases "desc_busy t ch \<and> desc_busy t ch1")
    case True
    then have "cleanup_loop hw c t ch = Some (Ret (t, restart_if_held hw l t ch1))"
      using cleanup_step [OF tc Suc.prems(3) lk] by simp
    moreover have "same_chan ch (restart_if_held hw l t ch1)"
      using sc(1) restart_same [OF assms(1)] same_chan_trans by blast
    moreover have "takeWhile finished (descs ch t c) = []" using True unfolding wd by (simp add: busy_finished)
    ultimately show ?thesis using ok
      by (intro exI [of _ 0] exI [of _ "restart_if_held hw l t ch1"])
        (simp add: dc.add_0 same_chan_cleaned same_chan_fields)
  next
    case False
    let ?t = "plx_dma_ring_inc t"
    have "tx_ok (tx_array ch1 (unat t))" using Suc.prems(5) sf(5) unfolding wt by simp
    from complete_tx_ok [OF _ this Suc.prems(1)] sf(4) Suc.prems(4) obtain ch2 where
      c2: "complete_tx t ch1 = Ret ch2" "cleaned t 1 ch1 ch2" "desc_ring ch2 = desc_ring ch1"
        "called ch2 = called ch1 @ tx_cb (tx_array ch1 (unat t))" by auto
    have step: "cleanup_loop hw c t ch = cleanup_loop hw c ?t ch2"
      using cleanup_step [OF tc Suc.prems(3) lk] False c2(1) by auto
    have cl: "cleaned t 1 ch ch2" using c2(2) sf unfolding cleaned_def c2(3) by simp
    have u: "dma_used 2048 ?t c = d" using dc.used_get [OF refl ok, of 1] Suc(2) unfolding inc_add by simp
    have tx: "txs ch2 ?t c = txs ch ?t c"
    proof (rule txs_cong)
      fix k assume "k < dma_used 2048 ?t c"
      then have "Suc k < 2048" using u Suc(2) dc.used_less [OF refl ok] by simp
      then have "(unat t + 0) mod 2048 \<noteq> (unat t + Suc k) mod 2048" by (intro mod_turn_neq) simp_all
      then have "(unat ?t + k) mod 2048 \<noteq> unat t"
        using Suc.prems(1) by (simp add: ring_inc_val mod_add_left_eq)
      then show "tx_array ch2 ((unat ?t + k) mod 2048) = tx_array ch ((unat ?t + k) mod 2048)"
        using cl Suc.prems(1) by (simp add: cleaned_def)
    qed
    have "\<forall>tx \<in> set (txs ch2 ?t c). tx_ok tx" using Suc.prems(5) tx unfolding wt inc_add by simp
    moreover have "unat ?t < 2048" by (simp add: ring_inc_val)
    moreover have "desc_alloc ch2" "tx_alloc ch2" using cl Suc.prems by (simp_all add: cleaned_def)
    ultimately obtain n ch' where IH: "cleanup_loop hw c ?t ch2 = Some (Ret (dma_add 2048 ?t n, ch'))"
      "n \<le> dma_used 2048 ?t c" "cleaned ?t n ch2 ch'" "called ch' = called ch2 @ cbs (take n (txs ch2 ?t c))"
      "length (takeWhile finished (descs ch2 ?t c)) \<le> n"
      "\<forall>k < n. finished (desc_ring ch' ((unat ?t + k) mod 2048))"
      using Suc(1) [OF u [symmetric] _ Suc.prems(2)] by blast
    have "dma_add 2048 ?t n = dma_add 2048 t (Suc n)"
      using dc.add_add [OF refl ok(1), of 1 n] by (simp add: inc_add)
    moreover have "called ch' = called ch @ cbs (take (Suc n) (txs ch t c))"
      using IH(4) c2(4) sf(5,6) tx unfolding wt inc_add by simp
    moreover have "length (takeWhile finished (descs ch t c)) \<le> Suc n"
      using IH(5) descs_mono [of ch ch2 ?t c] cl unfolding wd inc_add by (simp add: cleaned_def)
    moreover have "finished (desc_ring ch' ((unat t + k) mod 2048))" if "k < Suc n" for k
    proof (cases k)
      case 0
      have "finished (desc_ring ch2 (unat t))" using sc(2) False c2(3) by simp
      with 0 IH(3) Suc.prems(1) show ?thesis by (simp add: cleaned_def)
    next
      case (Suc j)
      then show ?thesis using IH(6) that by (simp add: ring_inc_val mod_add_left_eq)
    qed
    ultimately show ?thesis
      using step IH(1,2) u Suc(2) cleaned_trans [OF cl IH(3) Suc.prems(1)]
      by (intro exI [of _ "Suc n"] exI [of _ ch']) simp
  qed
qed

text \<open>
  The state of a channel between two calls: positions in the ring, both arrays there, and records
  only for descriptors in use. While a client holds the lock, the head's descriptor is still free.
\<close>

definition dma_inv :: "'h plx_dma_chan \<Rightarrow> bool" where
  "dma_inv ch \<longleftrightarrow>
     unat (ch_head ch) < 2048 \<and> unat (last_tail ch) < 2048 \<and> desc_alloc ch \<and> tx_alloc ch \<and>
     (\<forall>tx \<in> set (txs ch (last_tail ch) (ch_head ch)). tx_ok tx) \<and>
     (\<forall>k. dma_used 2048 (last_tail ch) (ch_head ch) \<le> k \<longrightarrow> k < 2048 \<longrightarrow>
        tx_cookie (tx_array ch ((unat (last_tail ch) + k) mod 2048)) = 0)"

text \<open>The callbacks called so far and those still to come, in the order of the ring.\<close>

definition dma_trace :: "'h plx_dma_chan \<Rightarrow> nat list" where
  "dma_trace ch = called ch @ cbs (txs ch (last_tail ch) (ch_head ch))"

lemma cleanup_ok:
  assumes "hw_ok hw" "dma_inv ch"
  shows "\<exists>n ch'. plx_dma_cleanup hw ch = Some (Ret ch') \<and> dma_inv ch' \<and> n \<le> dma_used 2048 (last_tail ch) (ch_head ch) \<and>
    last_tail ch' = dma_add 2048 (last_tail ch) n \<and> ch_head ch' = ch_head ch \<and>
    length (takeWhile finished (descs ch (last_tail ch) (ch_head ch))) \<le> n \<and>
    (\<forall>k < n. finished (desc_ring ch' ((unat (last_tail ch) + k) mod 2048))) \<and>
    called ch' = called ch @ cbs (take n (txs ch (last_tail ch) (ch_head ch))) \<and>
    txs ch' (last_tail ch') (ch_head ch') = drop n (txs ch (last_tail ch) (ch_head ch)) \<and>
    dma_trace ch' = dma_trace ch \<and> prep_locked ch' = prep_locked ch \<and> chan_cookie ch' = chan_cookie ch \<and>
    max_xfer_size ch' = max_xfer_size ch \<and>
    tx_array ch' (unat (ch_head ch)) = tx_array ch (unat (ch_head ch))"
proof -
  let ?t = "last_tail ch" and ?h = "ch_head ch"
  have ok: "dma_ok 2048 ?t" "dma_ok 2048 ?h" using assms(2) by (simp_all add: dma_inv_def dma_ok_def)
  from cleanup_loop_ok [OF assms(1), of ?t ?h ch] assms(2) obtain n ch1 where
    c: "cleanup_loop hw ?h ?t ch = Some (Ret (dma_add 2048 ?t n, ch1))" "n \<le> dma_used 2048 ?t ?h"
      "cleaned ?t n ch ch1" "called ch1 = called ch @ cbs (take n (txs ch ?t ?h))"
      "length (takeWhile finished (descs ch ?t ?h)) \<le> n"
      "\<forall>k < n. finished (desc_ring ch1 ((unat ?t + k) mod 2048))"
    unfolding dma_inv_def by blast
  let ?t' = "dma_add 2048 ?t n" and ?ch = "ch1\<lparr>last_tail := dma_add 2048 ?t n\<rparr>"
  have ok': "dma_ok 2048 ?t'" using ok(1) by (intro dc.add_ok) simp_all
  have u: "dma_used 2048 ?t' ?h = dma_used 2048 ?t ?h - n" by (rule dc.used_get [OF refl ok c(2)])
  have ul: "dma_used 2048 ?t ?h < 2048" using dc.used_less [OF refl ok] .
  have pos: "(unat ?t' + k) mod 2048 = (unat ?t + (n + k)) mod 2048" for k
    using ok(1) by (simp add: ring_add_val dma_ok_def mod_add_left_eq add.assoc)
  have keep: "tx_array ch1 ((unat ?t' + k) mod 2048) = tx_array ch ((unat ?t' + k) mod 2048)" if "n + k < 2048" for k
  proof -
    have "\<not> (\<exists>j < n. (unat ?t' + k) mod 2048 = (unat ?t + j) mod 2048)"
    proof
      assume "\<exists>j < n. (unat ?t' + k) mod 2048 = (unat ?t + j) mod 2048"
      then obtain j where "j < n" "(unat ?t + j) mod 2048 = (unat ?t + (n + k)) mod 2048" unfolding pos by auto
      with mod_turn_neq [of j "n + k" 2048 "unat ?t"] that show False by simp
    qed
    then show ?thesis using c(3) unfolding cleaned_def by blast
  qed
  have "txs ch1 ?t' ?h = txs ch ?t' ?h" using u ul c(2) by (intro txs_cong keep) simp
  also have d: "\<dots> = drop n (txs ch ?t ?h)" by (rule dc.window_get [OF refl ok c(2)])
  finally have tx: "txs ?ch ?t' ?h = drop n (txs ch ?t ?h)" by simp
  have hd: "ch_head ?ch = ?h" using c(3) by (simp add: cleaned_def)
  have "\<forall>tx \<in> set (txs ?ch ?t' ?h). tx_ok tx" unfolding tx
    using assms(2) by (auto simp: dma_inv_def dest: in_set_dropD)
  moreover have "tx_cookie (tx_array ?ch ((unat ?t' + k) mod 2048)) = 0" if k: "dma_used 2048 ?t' ?h \<le> k" "k < 2048" for k
  proof (cases "n + k < 2048")
    case True
    then show ?thesis using keep [OF True] k(1) u c(2) assms(2) unfolding pos by (simp add: dma_inv_def)
  next
    case False
    then have "n + k - 2048 < n" "(unat ?t + (n + k)) mod 2048 = (unat ?t + (n + k - 2048)) mod 2048"
      using k by (simp_all add: le_mod_geq add.commute)
    then have "\<exists>j < n. (unat ?t + (n + k)) mod 2048 = (unat ?t + j) mod 2048" by blast
    then have "tx_cookie (tx_array ch1 ((unat ?t + (n + k)) mod 2048)) = 0"
      using c(3) unfolding cleaned_def by blast
    then show ?thesis unfolding pos by simp
  qed
  ultimately have inv: "dma_inv ?ch"
    using assms(2) ok' c(3) unfolding dma_inv_def hd by (simp add: cleaned_def dma_ok_def)
  have "cbs (take n (txs ch ?t ?h)) @ cbs (drop n (txs ch ?t ?h)) = cbs (txs ch ?t ?h)"
    by (metis append_take_drop_id cbs_simps(3))
  then have "dma_trace ?ch = dma_trace ch" unfolding dma_trace_def hd using tx c(4) by simp
  moreover have "tx_array ?ch (unat ?h) = tx_array ch (unat ?h)"
  proof -
    have "(unat ?t' + (dma_used 2048 ?t ?h - n)) mod 2048 = unat ?h"
      using dc.pos_writer [OF refl ok' ok(2)] u by (simp add: dma_pos_def)
    with keep [of "dma_used 2048 ?t ?h - n"] ul c(2) show ?thesis by simp
  qed
  moreover have "plx_dma_cleanup hw ch = Some (Ret ?ch)" using c(1) by (simp add: plx_dma_cleanup_def)
  ultimately show ?thesis using c inv tx hd by (intro exI [of _ n] exI [of _ ?ch]) (simp add: cleaned_def)
qed

text \<open>
  A clean-up always returns. It advances the tail over descriptors that are finished, at least
  over all that were finished when it was called, calls the callbacks of exactly the transfers it
  passes, each once and in order, and leaves the records of the others as they are. It never passes
  the head, and the channel stays well formed.
\<close>
theorem cleanup_completes:
  assumes "hw_ok hw" and "dma_inv ch"
  shows "\<exists>n ch'. plx_dma_cleanup hw ch = Some (Ret ch') \<and> dma_inv ch' \<and>
    n \<le> dma_used 2048 (last_tail ch) (ch_head ch) \<and> last_tail ch' = dma_add 2048 (last_tail ch) n \<and>
    length (takeWhile finished (descs ch (last_tail ch) (ch_head ch))) \<le> n \<and>
    (\<forall>k < n. finished (desc_ring ch' ((unat (last_tail ch) + k) mod 2048))) \<and>
    called ch' = called ch @ cbs (take n (txs ch (last_tail ch) (ch_head ch))) \<and>
    txs ch' (last_tail ch') (ch_head ch') = drop n (txs ch (last_tail ch) (ch_head ch))"
  using cleanup_ok [OF assms] by blast

section \<open>Descriptors of a transfer\<close>

text \<open>What the engine reads from a descriptor: 48 bits of source and destination, 27 of length.\<close>

definition desc_src :: "plx_dma_desc \<Rightarrow> u64" where
  "desc_src d = push_bit 32 (ucast (drop_bit 16 (dw1 d))) OR ucast (dw3 d)"

definition desc_dst :: "plx_dma_desc \<Rightarrow> u64" where
  "desc_dst d = push_bit 32 (ucast (take_bit 16 (dw1 d))) OR ucast (dw2 d)"

definition desc_len :: "plx_dma_desc \<Rightarrow> u64" where
  "desc_len d = take_bit 27 (ucast (dw0 d))"

lemma high_bit: "take_bit k w = w \<Longrightarrow> bit w n \<Longrightarrow> n < k"
  by (metis bit_take_bit_iff)

lemma flag_bits: "bit PLX_DESC_VALID n \<longleftrightarrow> n = 31" "bit PLX_DESC_INTR_ENABLE n \<longleftrightarrow> n = 30"
proof -
  show "bit PLX_DESC_VALID n \<longleftrightarrow> n = 31"
    unfolding PLX_DESC_VALID_def bit_push_bit_iff by (auto simp: bit_1_iff)
  show "bit PLX_DESC_INTR_ENABLE n \<longleftrightarrow> n = 30"
    unfolding PLX_DESC_INTR_ENABLE_def bit_push_bit_iff by (auto simp: bit_1_iff)
qed

lemma memcpy_desc_fields:
  assumes "take_bit 48 src = src" "take_bit 48 dst = dst" "take_bit 27 sz = sz"
  shows "desc_src (plx_dma_memcpy_desc src dst sz fl v) = src" "desc_dst (plx_dma_memcpy_desc src dst sz fl v) = dst"
    "desc_len (plx_dma_memcpy_desc src dst sz fl v) = sz" "finished (plx_dma_memcpy_desc src dst sz fl v) \<longleftrightarrow> \<not> v"
proof -
  note d = plx_dma_memcpy_desc_def PLX_DESC_HALF_HIGH_MASK_def PLX_DESC_DWORD_MASK_def PLX_DESC_SIZE_MASK_def
  show "desc_src (plx_dma_memcpy_desc src dst sz fl v) = src"
  proof (rule bit_word_eqI)
    fix n assume "n < LENGTH(64)"
    then show "bit (desc_src (plx_dma_memcpy_desc src dst sz fl v)) n = bit src n"
      using high_bit [OF assms(1), of n] high_bit [OF assms(2), of n]
      by (auto simp: desc_src_def d bit_simps dest: high_bit [OF assms(2)])
  qed
  show "desc_dst (plx_dma_memcpy_desc src dst sz fl v) = dst"
  proof (rule bit_word_eqI)
    fix n assume "n < LENGTH(64)"
    then show "bit (desc_dst (plx_dma_memcpy_desc src dst sz fl v)) n = bit dst n"
      using high_bit [OF assms(2), of n] by (auto simp: desc_dst_def d bit_simps)
  qed
  show "desc_len (plx_dma_memcpy_desc src dst sz fl v) = sz"
  proof (rule bit_word_eqI)
    fix n assume "n < LENGTH(64)"
    then show "bit (desc_len (plx_dma_memcpy_desc src dst sz fl v)) n = bit sz n"
      using high_bit [OF assms(3), of n] by (auto simp: desc_len_def d bit_simps flag_bits)
  qed
  have "(dw0 (plx_dma_memcpy_desc src dst sz fl v) AND PLX_DESC_VALID) = (if v then PLX_DESC_VALID else 0)"
    by (rule bit_word_eqI) (auto simp: d bit_simps flag_bits)
  then show "finished (plx_dma_memcpy_desc src dst sz fl v) \<longleftrightarrow> \<not> v"
    by (simp add: finished_def PLX_DESC_VALID_def)
qed

text \<open>Descriptor \<open>k\<close> of \<open>n\<close> of a transfer in pieces of \<open>M\<close> bytes.\<close>

definition piece :: "nat \<Rightarrow> u64 \<Rightarrow> u64 \<Rightarrow> u64 \<Rightarrow> u64 \<Rightarrow> u32 \<Rightarrow> nat \<Rightarrow> plx_dma_desc" where
  "piece n src dst len M fl k =
     plx_dma_memcpy_desc (src + of_nat k * M) (dst + of_nat k * M) (min (len - of_nat k * M) M)
       (if Suc k = n then fl else 0) (Suc k \<noteq> n \<or> fl = 0)"

lemma prog_loop_ok:
  assumes "n \<le> 2048" "unat (ch_head ch) < 2048" "M = max_xfer_size ch" "n = 0 \<or> (n - 1) * unat M \<le> unat len"
  shows "\<exists>ring. prog_loop n src dst len fl ch =
      ch\<lparr>desc_ring := ring, ch_head := dma_add 2048 (ch_head ch) (if fl = 0 then n else n - 1)\<rparr> \<and>
    (\<forall>k < n. ring ((unat (ch_head ch) + k) mod 2048) = piece n src dst len M fl k) \<and>
    (\<forall>i. \<not> (\<exists>k < n. i = (unat (ch_head ch) + k) mod 2048) \<longrightarrow> ring i = desc_ring ch i)"
  using assms
proof (induction n arbitrary: src dst len ch)
  case 0
  then show ?case by (intro exI [of _ "desc_ring ch"]) (simp add: dma_add_def)
next
  case (Suc n)
  let ?h = "unat (ch_head ch)"
  let ?d = "plx_dma_memcpy_desc src dst (min len M) (if n \<noteq> 0 then 0 else fl) (n \<noteq> 0 \<or> fl = 0)"
  let ?ch1 = "ch\<lparr>desc_ring := (desc_ring ch)(?h := ?d)\<rparr>"
  show ?case
  proof (cases n)
    case 0
    then have "prog_loop (Suc n) src dst len fl ch = (if fl = 0 then plx_dma_inc_head ?ch1 else ?ch1)"
      using Suc.prems(3) by (simp add: Let_def)
    then have "prog_loop (Suc n) src dst len fl ch = ch\<lparr>desc_ring := (desc_ring ch)(?h := ?d),
        ch_head := dma_add 2048 (ch_head ch) (if fl = 0 then Suc n else Suc n - 1)\<rparr>"
      using 0 by (cases ch) (simp add: plx_dma_inc_head_def dma_add_def del: fun_upd_apply)
    moreover have "((desc_ring ch)(?h := ?d)) ((?h + k) mod 2048) = piece (Suc n) src dst len M fl k" if "k < Suc n" for k
      using that 0 Suc.prems(2) by (simp add: piece_def)
    moreover have "((desc_ring ch)(?h := ?d)) i = desc_ring ch i" if "\<not> (\<exists>k < Suc n. i = (?h + k) mod 2048)" for i
      using that Suc.prems(2) by auto
    ultimately show ?thesis by blast
  next
    case (Suc m)
    then have n0: "n \<noteq> 0" by simp
    have le: "unat M + m * unat M \<le> unat len" using Suc.prems(4) Suc by simp
    then have "M \<le> len" by (simp add: word_le_nat_alt)
    then have mn: "min len M = M" by (simp add: min_def)
    let ?ch2 = "plx_dma_inc_head ?ch1"
    have step: "prog_loop (Suc n) src dst len fl ch = prog_loop n (src + M) (dst + M) (len - M) fl ?ch2"
      using n0 mn Suc.prems(3) by (simp add: Let_def)
    have hd: "unat (ch_head ?ch2) = (?h + 1) mod 2048" "max_xfer_size ?ch2 = M"
      using Suc.prems(3) by (simp_all add: plx_dma_inc_head_def ring_inc_val)
    have "unat (len - M) = unat len - unat M" using \<open>M \<le> len\<close> by (intro unat_sub)
    then have "n = 0 \<or> (n - 1) * unat M \<le> unat (len - M)" using le Suc by simp
    then obtain ring where r: "prog_loop n (src + M) (dst + M) (len - M) fl ?ch2 =
        ?ch2\<lparr>desc_ring := ring, ch_head := dma_add 2048 (ch_head ?ch2) (if fl = 0 then n else n - 1)\<rparr>"
      "\<forall>k < n. ring ((unat (ch_head ?ch2) + k) mod 2048) = piece n (src + M) (dst + M) (len - M) M fl k"
      "\<forall>i. \<not> (\<exists>k < n. i = (unat (ch_head ?ch2) + k) mod 2048) \<longrightarrow> ring i = desc_ring ?ch2 i"
      using Suc.IH [of ?ch2 "len - M" "src + M" "dst + M"] Suc.prems(1) hd by auto
    have pos: "(unat (ch_head ?ch2) + k) mod 2048 = (?h + Suc k) mod 2048" for k
      unfolding hd by (simp add: mod_add_left_eq)
    have "dma_add 2048 (ch_head ?ch2) (if fl = 0 then n else n - 1) =
        dma_add 2048 (ch_head ch) (if fl = 0 then Suc n else n)"
      using Suc by (simp add: plx_dma_inc_head_def dma_add_def funpow_swap1)
    then have e: "prog_loop (Suc n) src dst len fl ch =
        ch\<lparr>desc_ring := ring, ch_head := dma_add 2048 (ch_head ch) (if fl = 0 then Suc n else Suc n - 1)\<rparr>"
      unfolding step r(1) by (simp add: plx_dma_inc_head_def)
    have shift: "piece n (src + M) (dst + M) (len - M) M fl k = piece (Suc n) src dst len M fl (Suc k)" for k
      by (simp add: piece_def algebra_simps)
    have "ring ((?h + k) mod 2048) = piece (Suc n) src dst len M fl k" if "k < Suc n" for k
    proof (cases k)
      case 0
      have "?h \<noteq> (?h + Suc j) mod 2048" if "j < n" for j
        using mod_turn_neq [of 0 "Suc j" 2048 ?h] that Suc.prems(1,2) by simp
      then have "ring ?h = ?d" using r(3) unfolding pos by (simp add: plx_dma_inc_head_def)
      then show ?thesis using 0 Suc.prems(2) n0 mn by (simp add: piece_def)
    next
      case (Suc j)
      then show ?thesis using r(2) that unfolding pos by (simp add: shift)
    qed
    moreover have "ring i = desc_ring ch i" if i: "\<not> (\<exists>k < Suc n. i = (?h + k) mod 2048)" for i
    proof -
      have "i \<noteq> ?h" using i Suc.prems(2) by auto
      moreover have "\<not> (\<exists>k < n. i = (?h + Suc k) mod 2048)" using i by auto
      ultimately show ?thesis using r(3) unfolding pos by (simp add: plx_dma_inc_head_def)
    qed
    ultimately show ?thesis using e by blast
  qed
qed

text \<open>How many pieces a transfer has.\<close>

definition pieces :: "u64 \<Rightarrow> u64 \<Rightarrow> nat" where
  "pieces len M = (if len = 0 then 1 else (unat len + unat M - 1) div unat M)"

lemma num_descs_val:
  assumes "M \<noteq> 0" "unat len + unat M < 2 ^ 64" "pieces len M < 2 ^ 31"
  shows "unat (num_descs len M) = pieces len M"
proof (cases "len = 0")
  case False
  have "unat (len + M) = unat len + unat M" using assms(2) by (intro unat_add_lem [THEN iffD1]) simp
  moreover have "unat (len + M) \<noteq> 0" using False calculation unat_eq_zero [of len] by simp
  ultimately have "unat (len + M - 1) = unat len + unat M - 1"
    by (subst unat_minus_one) (auto simp del: unat_eq_0)
  then have "unat ((len + M - 1) div M) = pieces len M" using False by (simp add: unat_div pieces_def)
  then show ?thesis using assms(3) False
    by (simp add: num_descs_def unsigned_ucast_eq take_bit_nat_eq_self)
qed (simp add: num_descs_def pieces_def)

lemma pieces_cover:
  assumes "unat M \<noteq> 0" "n = pieces len M"
  shows "0 < n" "(n - 1) * unat M \<le> unat len" "unat len \<le> n * unat M"
proof -
  let ?m = "unat M" and ?l = "unat len"
  have "0 < n \<and> (n - 1) * ?m \<le> ?l \<and> ?l \<le> n * ?m"
  proof (cases "len = 0")
    case False
    then have l: "0 < ?l" by (simp add: unat_gt_0)
    have "?l + ?m - 1 = (?l - 1) + ?m" using l by simp
    then have n: "n = (?l - 1) div ?m + 1"
      using assms False by (simp only: pieces_def if_False div_add_self2 [OF assms(1)])
    have a: "(?l - 1) div ?m * ?m \<le> ?l - 1" by (rule div_times_less_eq_dividend)
    have n1: "n - 1 = (?l - 1) div ?m" unfolding n by simp
    have "?l - 1 < ((?l - 1) div ?m + 1) * ?m"
      using assms(1) dividend_less_div_times [of ?m "?l - 1"] by (simp add: algebra_simps)
    then have "?l \<le> n * ?m" unfolding n by linarith
    moreover have "(n - 1) * ?m \<le> ?l" unfolding n1 using a by linarith
    ultimately show ?thesis using n by simp
  qed (use assms in \<open>simp add: pieces_def\<close>)
  then show "0 < n" "(n - 1) * ?m \<le> ?l" "?l \<le> n * ?m" by blast+
qed

lemma sum_pieces: "(\<Sum>k < n. min (l - k * m) m) = min l (n * m :: nat)"
proof (induction n)
  case (Suc n)
  have "min l x + min (l - x) m = min l (m + x)" for x :: nat
    by (cases "l \<le> x") (auto simp: min_def)
  with Suc show ?case by simp
qed simp

lemma take_bit_small: "unat (w :: u64) < 2 ^ k \<Longrightarrow> take_bit k w = w"
  by (simp add: word_eq_iff_unsigned [where ?'a = nat] unsigned_take_bit_eq take_bit_nat_eq_self)

text \<open>
  C32. A transfer of any length, for which there is room, is written to the descriptors from the head
  on: the engine reads from descriptor \<open>k\<close> the \<open>k\<close>-th piece of the source, the \<open>k\<close>-th piece of the
  destination and the piece's length; the lengths add up to the length of the transfer. The
  descriptors in use are not touched. All of it is handed to the engine at once, except that the last
  descriptor of a transfer with flags is held back.
\<close>
theorem transfer_programmed:
  assumes "dma_inv ch" and "M = max_xfer_size ch" and "M \<noteq> 0" and "unat M < 2 ^ 27"
    and "unat src + unat len < 2 ^ 48" and "unat dst + unat len < 2 ^ 48"
    and "int (pieces len M) \<le> plx_dma_ring_count (ch_head ch) (last_tail ch)"
  shows "\<exists>ch'. plx_dma_prog_memcpy_desc hw src dst len fl ch = Some (Ret (0, ch')) \<and>
    (\<forall>k < pieces len M. let d = desc_ring ch' ((unat (ch_head ch) + k) mod 2048) in
       unat (desc_src d) = unat src + k * unat M \<and> unat (desc_dst d) = unat dst + k * unat M \<and>
       unat (desc_len d) = min (unat len - k * unat M) (unat M) \<and>
       (finished d \<longleftrightarrow> Suc k = pieces len M \<and> fl \<noteq> 0)) \<and>
    (\<Sum>k < pieces len M. unat (desc_len (desc_ring ch' ((unat (ch_head ch) + k) mod 2048)))) = unat len \<and>
    descs ch' (last_tail ch) (ch_head ch) = descs ch (last_tail ch) (ch_head ch) \<and>
    ch_head ch' = dma_add 2048 (ch_head ch) (if fl = 0 then pieces len M else pieces len M - 1)"
proof -
  let ?n = "pieces len M" and ?h = "ch_head ch" and ?t = "last_tail ch" and ?m = "unat M"
  have ok: "dma_ok 2048 ?t" "dma_ok 2048 ?h" "unat ?h < 2048" "desc_alloc ch"
    using assms(1) by (simp_all add: dma_inv_def dma_ok_def)
  have m: "?m \<noteq> 0" using assms(3) by (simp add: unat_eq_zero)
  note pc = pieces_cover [OF m refl, of len]
  have cnt: "plx_dma_ring_count ?h ?t = 2047 - int (dma_used 2048 ?t ?h)"
    using ok by (simp add: dc.usedval) (simp add: ring_count_val dma_ok_def)
  have room: "dma_used 2048 ?t ?h + ?n \<le> 2047" using assms(7) unfolding cnt by linarith
  have nd: "unat (num_descs len M) = ?n" using assms(3-5) room by (intro num_descs_val) simp_all
  then have sn: "sint (num_descs len M) = int ?n" using room by (subst sint_small) simp_all
  from prog_loop_ok [of ?n ch M len src dst fl] room ok(3) assms(2) pc(2) obtain ring where
    r: "prog_loop ?n src dst len fl ch = ch\<lparr>desc_ring := ring, ch_head := dma_add 2048 ?h (if fl = 0 then ?n else ?n - 1)\<rparr>"
      "\<forall>k < ?n. ring ((unat ?h + k) mod 2048) = piece ?n src dst len M fl k"
      "\<forall>i. \<not> (\<exists>k < ?n. i = (unat ?h + k) mod 2048) \<longrightarrow> ring i = desc_ring ch i" by auto
  let ?ch = "ch\<lparr>desc_ring := ring, ch_head := dma_add 2048 ?h (if fl = 0 then ?n else ?n - 1)\<rparr>"
  have "0 < plx_dma_ring_count ?h ?t" using assms(7) pc(1) by linarith
  then have run: "plx_dma_prog_memcpy_desc hw src dst len fl ch = Some (Ret (0, ?ch))"
    using assms(2,3,7) ok(4) sn nd r(1)
    by (simp add: plx_dma_prog_memcpy_desc_def plx_dma_avail_desc_ring_space_def Let_def)
  have piece: "unat (desc_src (piece ?n src dst len M fl k)) = unat src + k * ?m \<and>
      unat (desc_dst (piece ?n src dst len M fl k)) = unat dst + k * ?m \<and>
      unat (desc_len (piece ?n src dst len M fl k)) = min (unat len - k * ?m) ?m \<and>
      (finished (piece ?n src dst len M fl k) \<longleftrightarrow> Suc k = ?n \<and> fl \<noteq> 0)" if "k < ?n" for k
  proof -
    have "k * ?m \<le> (?n - 1) * ?m" using that by (intro mult_le_mono1) simp
    then have km: "k * ?m \<le> unat len" using pc(2) by (rule order_trans)
    then have km48: "k * ?m < 2 ^ 48" using assms(5) by linarith
    have "of_nat k * M = of_nat (k * ?m)" by simp
    then have ku: "unat (of_nat k * M) = k * ?m"
      using km48 by (simp only: unat_of_nat) (simp add: take_bit_nat_eq_self)
    have s: "unat (src + of_nat k * M) = unat src + k * ?m" "unat (dst + of_nat k * M) = unat dst + k * ?m"
      using assms(5,6) km ku by (subst unat_add_lem [THEN iffD1]; simp)+
    have "of_nat k * M \<le> len" using km ku by (simp add: word_le_nat_alt)
    then have l: "unat (len - of_nat k * M) = unat len - k * ?m" using ku by (simp add: unat_sub)
    have ml: "unat (min (len - of_nat k * M) M) = min (unat len - k * ?m) ?m"
      using l by (simp add: min_def word_le_nat_alt)
    have "take_bit 48 (src + of_nat k * M) = src + of_nat k * M" "take_bit 48 (dst + of_nat k * M) = dst + of_nat k * M"
      "take_bit 27 (min (len - of_nat k * M) M) = min (len - of_nat k * M) M"
      using s ml km assms(4-6) by (intro take_bit_small; simp)+
    from memcpy_desc_fields [OF this] s ml show ?thesis by (auto simp: piece_def)
  qed
  have at: "desc_ring ?ch ((unat ?h + k) mod 2048) = piece ?n src dst len M fl k" if "k < ?n" for k
    using r(2) that by simp
  have "(\<Sum>k < ?n. unat (desc_len (desc_ring ?ch ((unat ?h + k) mod 2048)))) =
      (\<Sum>k < ?n. min (unat len - k * ?m) ?m)"
    using at piece by (intro sum.cong) auto
  also have "\<dots> = unat len" unfolding sum_pieces using pc(3) by (simp add: min_def)
  finally have total: "(\<Sum>k < ?n. unat (desc_len (desc_ring ?ch ((unat ?h + k) mod 2048)))) = unat len" .
  have "dc.window ring 0 2048 ?t ?h = dc.window (desc_ring ch) 0 2048 ?t ?h"
    unfolding dc.window_def
  proof (rule circ_cong)
    fix i assume i: "i < dma_used 2048 ?t ?h"
    have hp: "unat ?h = (unat ?t + dma_used 2048 ?t ?h) mod 2048"
      using dc.pos_writer [OF refl ok(1,2)] by (simp add: dma_pos_def)
    have "\<not> (\<exists>k < ?n. (unat ?t + i) mod 2048 = (unat ?h + k) mod 2048)"
    proof
      assume "\<exists>k < ?n. (unat ?t + i) mod 2048 = (unat ?h + k) mod 2048"
      then obtain k where k: "k < ?n" "(unat ?t + i) mod 2048 = (unat ?t + (dma_used 2048 ?t ?h + k)) mod 2048"
        unfolding hp by (auto simp: mod_add_left_eq add.assoc)
      with mod_turn_neq [of i "dma_used 2048 ?t ?h + k" 2048 "unat ?t"] i room show False by simp
    qed
    then show "ring (0 + (dma_pos 2048 ?t + i) mod 2048) = desc_ring ch (0 + (dma_pos 2048 ?t + i) mod 2048)"
      using r(3) by (simp add: dma_pos_def)
  qed
  then have keep: "descs ?ch ?t ?h = descs ch ?t ?h" by simp
  have all: "\<forall>k < ?n. let d = desc_ring ?ch ((unat ?h + k) mod 2048) in
       unat (desc_src d) = unat src + k * ?m \<and> unat (desc_dst d) = unat dst + k * ?m \<and>
       unat (desc_len d) = min (unat len - k * ?m) ?m \<and> (finished d \<longleftrightarrow> Suc k = ?n \<and> fl \<noteq> 0)"
    using at piece unfolding Let_def by metis
  have hd: "ch_head ?ch = dma_add 2048 ?h (if fl = 0 then ?n else ?n - 1)" by simp
  from run all total keep hd show ?thesis by blast
qed

section \<open>Whole runs\<close>

text \<open>
  The operations a client and the interrupt perform on a channel. A prepared transfer is kept with
  the channel until it is submitted with its callback.
\<close>

datatype dma_op = Prep u64 u64 u64 u64 | Submit nat | Cleanup | Interrupt | Issue

definition returned :: "'a outcome option \<Rightarrow> 'a outcome" where
  "returned r = (case r of None \<Rightarrow> Abort | Some q \<Rightarrow> q)"

definition set_callback :: "u32 \<Rightarrow> nat \<Rightarrow> 'h plx_dma_chan \<Rightarrow> 'h plx_dma_chan" where
  "set_callback i f ch = ch\<lparr>tx_array := (tx_array ch)(unat i := (tx_array ch (unat i))\<lparr>tx_callback := Some f\<rparr>)\<rparr>"

fun dma_step :: "'h dma_hw \<Rightarrow> dma_op \<Rightarrow> 'h plx_dma_chan \<times> u32 option \<Rightarrow> ('h plx_dma_chan \<times> u32 option) outcome" where
  "dma_step hw (Prep dst src len fl) (ch, p) =
     (case returned (plx_dma_prep_memcpy_lock hw dst src len fl ch) of
        Abort \<Rightarrow> Abort | Ret (idx, ch') \<Rightarrow> Ret (ch', idx))"
| "dma_step hw (Submit f) (ch, p) =
     (case p of None \<Rightarrow> Abort
      | Some i \<Rightarrow> (case plx_dma_tx_submit_unlock i (set_callback i f ch) of
                    Abort \<Rightarrow> Abort | Ret (c, ch') \<Rightarrow> Ret (ch', None)))"
| "dma_step hw Cleanup (ch, p) =
     (case returned (plx_dma_cleanup hw ch) of Abort \<Rightarrow> Abort | Ret ch' \<Rightarrow> Ret (ch', p))"
| "dma_step hw Interrupt (ch, p) =
     (case returned (plx_dma_thread_fn hw ch) of Abort \<Rightarrow> Abort | Ret ch' \<Rightarrow> Ret (ch', p))"
| "dma_step hw Issue (ch, p) = Ret (plx_dma_issue_pending hw ch, p)"

fun dma_adds :: "dma_op \<Rightarrow> nat list" where
  "dma_adds (Submit f) = [f]"
| "dma_adds _ = []"

text \<open>
  Clients ask for a completion interrupt, so flags are not zero; the lock keeps a second transfer
  from being prepared; the number of pieces fits the driver's integer.
\<close>

fun dma_guard :: "'h plx_dma_chan \<times> u32 option \<Rightarrow> dma_op \<Rightarrow> bool" where
  "dma_guard (ch, p) (Prep dst src len fl) \<longleftrightarrow>
     p = None \<and> (ucast fl :: u32) \<noteq> 0 \<and> pieces len (max_xfer_size ch) < 2 ^ 31 \<and>
     unat len + unat (max_xfer_size ch) < 2 ^ 64"
| "dma_guard (ch, p) (Submit f) \<longleftrightarrow> p \<noteq> None"
| "dma_guard (ch, p) _ \<longleftrightarrow> True"

definition dma_state_ok :: "'h plx_dma_chan \<times> u32 option \<Rightarrow> bool" where
  "dma_state_ok s \<longleftrightarrow>
     (case s of (ch, p) \<Rightarrow> dma_inv ch \<and> max_xfer_size ch \<noteq> 0 \<and>
        (\<forall>i. p = Some i \<longrightarrow> i = ch_head ch \<and> dma_used 2048 (last_tail ch) (ch_head ch) < 2047 \<and>
           tx_flags (tx_array ch (unat i)) \<noteq> 0))"

lemma same_inv:
  assumes "same_chan ch ch'"
  shows "dma_inv ch' = dma_inv ch" "dma_trace ch' = dma_trace ch"
  using same_chan_fields [OF assms] by (simp_all add: dma_inv_def dma_trace_def)

lemma cbs_no_cookie: "\<forall>tx \<in> set ts. tx_cookie tx = 0 \<Longrightarrow> cbs ts = []"
  by (induction ts) (simp_all add: tx_cb_def)

text \<open>Moving the head over free descriptors adds records without a cookie.\<close>

lemma advance_head:
  assumes "dma_inv ch" "dma_used 2048 (last_tail ch) (ch_head ch) + m < 2048"
  shows "dma_inv (ch\<lparr>desc_ring := r, ch_head := dma_add 2048 (ch_head ch) m\<rparr>)"
    and "dma_trace (ch\<lparr>desc_ring := r, ch_head := dma_add 2048 (ch_head ch) m\<rparr>) = dma_trace ch"
proof -
  let ?t = "last_tail ch" and ?h = "ch_head ch" and ?h' = "dma_add 2048 (ch_head ch) m"
  have ok: "dma_ok 2048 ?t" "dma_ok 2048 ?h" using assms(1) by (simp_all add: dma_inv_def dma_ok_def)
  have ok': "dma_ok 2048 ?h'" using ok(2) by (intro dc.add_ok) simp_all
  have u: "dma_used 2048 ?t ?h' = dma_used 2048 ?t ?h + m" using assms(2) by (intro dc.used_put [OF refl ok])
  have tx: "txs ch ?t ?h' = txs ch ?t ?h @ circ (tx_array ch) 0 2048 (unat ?t + dma_used 2048 ?t ?h) m"
    unfolding dc.window_def u circ_split by (simp add: dma_pos_def)
  have free: "\<forall>tx \<in> set (circ (tx_array ch) 0 2048 (unat ?t + dma_used 2048 ?t ?h) m). tx_cookie tx = 0"
    using assms by (auto simp: circ_def dma_inv_def add.assoc)
  show "dma_inv (ch\<lparr>desc_ring := r, ch_head := ?h'\<rparr>)"
    using assms(1) ok' tx free u unfolding dma_inv_def by (auto simp: dma_ok_def tx_ok_def)
  show "dma_trace (ch\<lparr>desc_ring := r, ch_head := ?h'\<rparr>) = dma_trace ch"
    using tx free by (simp add: dma_trace_def cbs_no_cookie)
qed

lemma dma_inv_ok: "dma_inv ch \<Longrightarrow> dma_ok 2048 (last_tail ch)" "dma_inv ch \<Longrightarrow> dma_ok 2048 (ch_head ch)"
  by (simp_all add: dma_inv_def dma_ok_def)

lemma dma_count: "dma_inv ch \<Longrightarrow>
    plx_dma_ring_count (ch_head ch) (last_tail ch) = 2047 - int (dma_used 2048 (last_tail ch) (ch_head ch))"
  using dc.usedval [of 2048 "last_tail ch" "ch_head ch"]
  by (simp add: ring_count_val dma_inv_def dma_ok_def)

lemma head_pos:
  "dma_inv ch \<Longrightarrow> (unat (last_tail ch) + dma_used 2048 (last_tail ch) (ch_head ch)) mod 2048 = unat (ch_head ch)"
  using dc.pos_writer [OF refl dma_inv_ok(1) dma_inv_ok(2), of ch ch] by (simp add: dma_pos_def)

lemma dma_used_less: "dma_inv ch \<Longrightarrow> dma_used 2048 (last_tail ch) (ch_head ch) < 2048"
  by (rule dc.used_less [OF refl dma_inv_ok])

lemma head_free: "dma_inv ch \<Longrightarrow> tx_cookie (tx_array ch (unat (ch_head ch))) = 0"
proof -
  assume inv: "dma_inv ch"
  then have "dma_used 2048 (last_tail ch) (ch_head ch) < 2048" by (rule dma_used_less)
  with inv have "tx_cookie (tx_array ch ((unat (last_tail ch) + dma_used 2048 (last_tail ch) (ch_head ch)) mod 2048)) = 0"
    unfolding dma_inv_def by blast
  then show ?thesis unfolding head_pos [OF inv] .
qed

text \<open>The record of the head's descriptor is not in use.\<close>

lemma txs_head_write:
  assumes "dma_inv ch"
  shows "dc.window ((tx_array ch)(unat (ch_head ch) := tx)) 0 2048 (last_tail ch) (ch_head ch) =
    txs ch (last_tail ch) (ch_head ch)"
proof (rule dc.window_other)
  fix i assume "i < dma_used 2048 (last_tail ch) (ch_head ch)"
  then have "(unat (last_tail ch) + i) mod 2048 \<noteq>
      (unat (last_tail ch) + dma_used 2048 (last_tail ch) (ch_head ch)) mod 2048"
    using dma_used_less [OF assms] by (intro mod_turn_neq) simp_all
  then show "unat (ch_head ch) \<noteq> 0 + (dma_pos 2048 (last_tail ch) + i) mod 2048"
    using head_pos [OF assms] by (simp add: dma_pos_def)
qed

lemma head_record:
  assumes "dma_inv ch" "tx_cookie tx = 0"
  shows "dma_inv (ch\<lparr>tx_array := (tx_array ch)(unat (ch_head ch) := tx)\<rparr>)"
    and "dma_trace (ch\<lparr>tx_array := (tx_array ch)(unat (ch_head ch) := tx)\<rparr>) = dma_trace ch"
  using assms txs_head_write [OF assms(1), of tx] by (simp_all add: dma_inv_def dma_trace_def)

lemma lock_inv [simp]:
  "dma_inv (ch\<lparr>prep_locked := b\<rparr>) = dma_inv ch" "dma_trace (ch\<lparr>prep_locked := b\<rparr>) = dma_trace ch"
  "dma_inv (ch\<lparr>dma_hang := b\<rparr>) = dma_inv ch" "dma_trace (ch\<lparr>dma_hang := b\<rparr>) = dma_trace ch"
  "dma_inv (ch\<lparr>dbg_flush := b\<rparr>) = dma_inv ch" "dma_trace (ch\<lparr>dbg_flush := b\<rparr>) = dma_trace ch"
  by (simp_all add: dma_inv_def dma_trace_def)

lemma avail_ok:
  assumes "hw_ok hw" "dma_inv ch"
  shows "\<exists>ret ch1. plx_dma_avail_desc_ring_space hw req ch = Some (Ret (ret, ch1)) \<and> dma_inv ch1 \<and>
    dma_trace ch1 = dma_trace ch \<and> max_xfer_size ch1 = max_xfer_size ch \<and>
    (ret = - ENOMEM \<or> req \<le> ret \<and> ret = plx_dma_ring_count (ch_head ch1) (last_tail ch1))"
proof (cases "plx_dma_ring_count (ch_head ch) (last_tail ch) < req")
  case True
  have "dma_inv (plx_dma_issue_pending hw ch)" using same_inv [OF issue_same] assms(2) by blast
  from cleanup_ok [OF assms(1) this] obtain ch1 where
    "plx_dma_cleanup hw (plx_dma_issue_pending hw ch) = Some (Ret ch1)" "dma_inv ch1"
    "dma_trace ch1 = dma_trace (plx_dma_issue_pending hw ch)"
    "max_xfer_size ch1 = max_xfer_size (plx_dma_issue_pending hw ch)" by blast
  then show ?thesis
    using True same_inv(2) [OF issue_same [where ch = ch and hw = hw]]
      same_chan_fields(8) [OF issue_same [where ch = ch and hw = hw]]
    by (auto simp: plx_dma_avail_desc_ring_space_def Let_def)
next
  case False
  then show ?thesis using assms by (simp add: plx_dma_avail_desc_ring_space_def Let_def)
qed

lemma prep_ok:
  assumes "hw_ok hw" "dma_inv ch" "max_xfer_size ch \<noteq> 0" "(ucast fl :: u32) \<noteq> 0"
    "pieces len (max_xfer_size ch) < 2 ^ 31" "unat len + unat (max_xfer_size ch) < 2 ^ 64"
  shows "\<exists>idx ch'. plx_dma_prep_memcpy_lock hw dst src len fl ch = Some (Ret (idx, ch')) \<and>
    dma_state_ok (ch', idx) \<and> dma_trace ch' = dma_trace ch"
proof -
  let ?ch = "ch\<lparr>prep_locked := True\<rparr>" and ?M = "max_xfer_size ch" and ?n = "pieces len (max_xfer_size ch)"
  have nd: "unat (num_descs len ?M) = ?n" using assms(3,5,6) by (intro num_descs_val)
  have sn: "sint (num_descs len ?M) = int ?n" using assms(5) nd by (subst sint_small) simp_all
  have m: "unat ?M \<noteq> 0" using assms(3) by (simp add: unat_eq_zero)
  note pc = pieces_cover [OF m refl, of len]
  from avail_ok [OF assms(1), of ?ch "int ?n"] assms(2) obtain ret ch1 where
    a: "plx_dma_avail_desc_ring_space hw (int ?n) ?ch = Some (Ret (ret, ch1))" "dma_inv ch1"
      "dma_trace ch1 = dma_trace ch" "max_xfer_size ch1 = ?M"
      "ret = - ENOMEM \<or> int ?n \<le> ret \<and> ret = plx_dma_ring_count (ch_head ch1) (last_tail ch1)" by auto
  show ?thesis
  proof (cases "ret = - ENOMEM")
    case True
    then have "plx_dma_prep_memcpy_lock hw dst src len fl ch = Some (Ret (None, ch1\<lparr>prep_locked := False\<rparr>))"
      using a(1) sn assms(3)
      by (simp add: plx_dma_prep_memcpy_lock_def plx_dma_prog_memcpy_desc_def Let_def ENOMEM_def)
    then show ?thesis using a assms(3) by (simp add: dma_state_ok_def)
  next
    case False
    then have room: "dma_used 2048 (last_tail ch1) (ch_head ch1) + ?n \<le> 2047" and pos: "\<not> ret \<le> 0"
      using a(2,5) pc(1) dma_count [OF a(2)] by linarith+
    have al: "desc_alloc ch1" "tx_alloc ch1" "unat (ch_head ch1) < 2048" using a(2) by (simp_all add: dma_inv_def)
    have n: "?n \<le> 2048" "?n = 0 \<or> (?n - 1) * unat ?M \<le> unat len" using room pc(2) by simp_all
    from prog_loop_ok [OF n(1) al(3) a(4) [symmetric] n(2), of src dst "ucast fl"] obtain ring where
      r: "prog_loop ?n src dst len (ucast fl) ch1 =
        ch1\<lparr>desc_ring := ring, ch_head := dma_add 2048 (ch_head ch1) (?n - 1)\<rparr>"
      unfolding if_not_P [OF assms(4)] by blast
    let ?ch2 = "ch1\<lparr>desc_ring := ring, ch_head := dma_add 2048 (ch_head ch1) (?n - 1)\<rparr>"
    have lt: "dma_used 2048 (last_tail ch1) (ch_head ch1) + (?n - 1) < 2048" using room by simp
    note adv = advance_head [OF a(2) lt, of ring]
    have fl: "fl \<noteq> 0" using assms(4) by auto
    let ?h = "ch_head ?ch2"
    let ?tx = "(tx_array ?ch2 (unat ?h))\<lparr>tx_flags := fl\<rparr>"
    let ?ch3 = "?ch2\<lparr>tx_array := (tx_array ?ch2)(unat ?h := ?tx)\<rparr>"
    have "tx_cookie ?tx = 0" using head_free [OF adv(1)] by simp
    note rec = head_record [OF adv(1) this]
    have "plx_dma_prep_memcpy_lock hw dst src len fl ch = Some (Ret (Some ?h, ?ch3))"
      using a(1) sn nd assms(3) pos al r fl
      by (simp add: plx_dma_prep_memcpy_lock_def plx_dma_prog_memcpy_desc_def Let_def allocate_tx_def)
    moreover have "dma_used 2048 (last_tail ?ch3) (ch_head ?ch3) < 2047"
      using dc.used_put [OF refl dma_inv_ok [OF a(2)] lt] room pc(1) by simp
    moreover have "tx_flags (tx_array ?ch3 (unat ?h)) \<noteq> 0" using fl by simp
    moreover have "max_xfer_size ?ch3 \<noteq> 0" using a(4) assms(3) by simp
    ultimately show ?thesis using rec adv(2) a(3) unfolding dma_state_ok_def by auto
  qed
qed

lemma tx_submit_ok:
  assumes "dma_state_ok (ch, Some i)"
  shows "\<exists>c ch'. plx_dma_tx_submit_unlock i (set_callback i f ch) = Ret (c, ch') \<and>
    dma_state_ok (ch', None) \<and> dma_trace ch' = dma_trace ch @ [f]"
proof -
  let ?t = "last_tail ch" and ?h = "ch_head ch"
  have inv: "dma_inv ch" and mx: "max_xfer_size ch \<noteq> 0" and i: "i = ?h" and u: "dma_used 2048 ?t ?h < 2047"
    and fl: "tx_flags (tx_array ch (unat ?h)) \<noteq> 0" using assms by (auto simp: dma_state_ok_def)
  have al: "desc_alloc ch" "tx_alloc ch" using inv by (simp_all add: dma_inv_def)
  define c where "c = next_cookie (chan_cookie ch)"
  have c: "\<not> c <s DMA_MIN_COOKIE" "c \<noteq> 0"
  proof -
    have "(0 :: 32 word) <s DMA_MIN_COOKIE" "\<not> DMA_MIN_COOKIE <s (DMA_MIN_COOKIE :: 32 word)"
      by (simp_all add: DMA_MIN_COOKIE_def word_sless_alt)
    then show "\<not> c <s DMA_MIN_COOKIE" "c \<noteq> 0" by (auto simp: c_def next_cookie_def DMA_MIN_COOKIE_def Let_def)
  qed
  let ?tx = "(tx_array ch (unat ?h))\<lparr>tx_callback := Some f, tx_cookie := c, tx_flags := 0\<rparr>"
  let ?ch = "ch\<lparr>chan_cookie := c, prep_locked := False, ch_head := plx_dma_ring_inc ?h,
    desc_ring := (desc_ring ch)(unat ?h := plx_dma_valid_desc (desc_ring ch (unat ?h))),
    tx_array := (tx_array ch)(unat ?h := ?tx)\<rparr>"
  have run: "plx_dma_tx_submit_unlock i (set_callback i f ch) = Ret (c, ?ch)"
    using al fl unfolding i plx_dma_tx_submit_unlock_def set_callback_def Let_def
    by (simp add: c_def [symmetric] plx_dma_inc_head_def)
  note ok = dma_inv_ok [OF inv]
  have ok': "dma_ok 2048 (plx_dma_ring_inc ?h)" by (simp add: dma_ok_def ring_inc_val)
  have u': "dma_used 2048 ?t (plx_dma_ring_inc ?h) = dma_used 2048 ?t ?h + 1"
    unfolding inc_add using u by (intro dc.used_put [OF refl ok]) simp
  have tx: "txs ?ch ?t (plx_dma_ring_inc ?h) = txs ch ?t ?h @ [?tx]"
    using dc.window_put [OF refl ok, of "tx_array ch" 0 ?tx] u unfolding inc_add by (simp add: dma_pos_def)
  have "tx_cookie (tx_array ?ch ((unat ?t + k) mod 2048)) = 0" if k: "dma_used 2048 ?t ?h + 1 \<le> k" "k < 2048" for k
  proof -
    have "(unat ?t + dma_used 2048 ?t ?h) mod 2048 \<noteq> (unat ?t + k) mod 2048" using k by (intro mod_turn_neq) simp_all
    then show ?thesis using inv k unfolding head_pos [OF inv] dma_inv_def by simp
  qed
  moreover have "\<forall>x \<in> set (txs ch ?t ?h @ [?tx]). tx_ok x" using inv c by (simp add: dma_inv_def tx_ok_def)
  ultimately have "dma_inv ?ch"
    using inv ok' tx u' unfolding dma_inv_def by (simp add: dma_ok_def)
  moreover have "dma_trace ?ch = dma_trace ch @ [f]" using tx c by (simp add: dma_trace_def tx_cb_def)
  ultimately show ?thesis using run mx by (simp add: dma_state_ok_def)
qed

text \<open>What neither the clean-up nor the interrupt changes.\<close>

definition kept :: "'h plx_dma_chan \<Rightarrow> 'h plx_dma_chan \<Rightarrow> bool" where
  "kept ch ch' \<longleftrightarrow> dma_inv ch' \<and> dma_trace ch' = dma_trace ch \<and> ch_head ch' = ch_head ch \<and>
     max_xfer_size ch' = max_xfer_size ch \<and>
     dma_used 2048 (last_tail ch') (ch_head ch') \<le> dma_used 2048 (last_tail ch) (ch_head ch) \<and>
     tx_array ch' (unat (ch_head ch)) = tx_array ch (unat (ch_head ch))"

lemma chan_kept_trans: "kept a b \<Longrightarrow> kept b c \<Longrightarrow> kept a c"
  unfolding kept_def by (elim conjE) (intro conjI, simp_all)

lemma same_kept: "same_chan ch ch' \<Longrightarrow> dma_inv ch \<Longrightarrow> kept ch ch'"
  using same_inv [of ch ch'] same_chan_fields [of ch ch'] by (simp add: kept_def)

lemma flags_kept: "dma_inv ch \<Longrightarrow> kept ch (ch\<lparr>dma_hang := b\<rparr>)" "dma_inv ch \<Longrightarrow> kept ch (ch\<lparr>dbg_flush := b\<rparr>)"
  by (simp_all add: kept_def)

lemma cleanup_kept:
  assumes "hw_ok hw" "dma_inv ch"
  shows "\<exists>ch'. plx_dma_cleanup hw ch = Some (Ret ch') \<and> kept ch ch'"
proof -
  from cleanup_ok [OF assms] obtain n ch' where c: "plx_dma_cleanup hw ch = Some (Ret ch')" "dma_inv ch'"
    "n \<le> dma_used 2048 (last_tail ch) (ch_head ch)" "last_tail ch' = dma_add 2048 (last_tail ch) n"
    "ch_head ch' = ch_head ch" "dma_trace ch' = dma_trace ch" "max_xfer_size ch' = max_xfer_size ch"
    "tx_array ch' (unat (ch_head ch)) = tx_array ch (unat (ch_head ch))" by blast
  have "dma_used 2048 (last_tail ch') (ch_head ch') \<le> dma_used 2048 (last_tail ch) (ch_head ch)"
    unfolding c(4,5) dc.used_get [OF refl dma_inv_ok [OF assms(2)] c(3)] by simp
  with c show ?thesis by (auto simp: kept_def)
qed

lemma kept_inv: "kept ch ch' \<Longrightarrow> dma_inv ch'"
  by (simp add: kept_def)

lemma thread_ok:
  assumes "hw_ok hw" "dma_inv ch"
  shows "\<exists>ch'. plx_dma_thread_fn hw ch = Some (Ret ch') \<and> kept ch ch'"
proof (cases "dma_hang ch")
  case True
  then show ?thesis using assms(2) same_kept [OF same_chan_refl] by (simp add: plx_dma_thread_fn_def)
next
  case False
  obtain ch1 where c1: "plx_dma_cleanup hw ch = Some (Ret ch1)" "kept ch ch1" using cleanup_kept [OF assms] by blast
  obtain v ch2 where r: "plx_dma_ch_reg_read hw PLX_DMA_INTR_CTRL_STATUS ch1 = (v, ch2)"
    by (cases "plx_dma_ch_reg_read hw PLX_DMA_INTR_CTRL_STATUS ch1")
  define ch3 where "ch3 = plx_dma_ch_reg_write hw PLX_DMA_INTR_CTRL_STATUS v ch2"
  define ch4 where "ch4 = (if dbg_flush ch3 then ch3\<lparr>dbg_flush := False\<rparr> else ch3)"
  have "same_chan ch1 ch3" using read_same [OF assms(1) r] write_same same_chan_trans unfolding ch3_def by blast
  then have k3: "kept ch ch3" using chan_kept_trans [OF c1(2)] same_kept kept_inv [OF c1(2)] by blast
  have k4: "kept ch ch4"
    using chan_kept_trans [OF k3 flags_kept(2) [OF kept_inv [OF k3]], of False] k3 by (simp add: ch4_def)
  obtain ch5 where c5: "plx_dma_cleanup hw ch4 = Some (Ret ch5)" "kept ch4 ch5"
    using cleanup_kept [OF assms(1) kept_inv [OF k4]] by blast
  have run: "plx_dma_thread_fn hw ch =
      (if v AND PLX_DMA_ERROR_STATUS \<noteq> 0 then Some (Ret (ch3\<lparr>dma_hang := True\<rparr>))
       else if v AND PLX_DMA_DESC_DONE_INTR_STATUS \<noteq> 0 then plx_dma_cleanup hw ch4 else Some (Ret ch4))"
    using False c1(1) r
    by (simp add: plx_dma_thread_fn_def plx_dma_ack_interrupt_def Let_def ch3_def [symmetric] ch4_def [symmetric])
  have "kept ch (ch3\<lparr>dma_hang := True\<rparr>)" using chan_kept_trans [OF k3 flags_kept(1) [OF kept_inv [OF k3]]] .
  moreover have "kept ch ch5" by (rule chan_kept_trans [OF k4 c5(2)])
  ultimately show ?thesis using run c5(1) k4 by auto
qed

lemma state_kept:
  assumes "dma_state_ok (ch, p)" "kept ch ch'"
  shows "dma_state_ok (ch', p)"
proof -
  have k: "dma_inv ch'" "max_xfer_size ch' = max_xfer_size ch" "ch_head ch' = ch_head ch"
    "dma_used 2048 (last_tail ch') (ch_head ch') \<le> dma_used 2048 (last_tail ch) (ch_head ch)"
    "tx_array ch' (unat (ch_head ch)) = tx_array ch (unat (ch_head ch))"
    using assms(2) unfolding kept_def by blast+
  show ?thesis
  proof (cases p)
    case None
    then show ?thesis using assms(1) k(1,2) by (simp add: dma_state_ok_def)
  next
    case (Some i)
    then have "i = ch_head ch" "dma_used 2048 (last_tail ch) (ch_head ch) < 2047"
      "tx_flags (tx_array ch (unat i)) \<noteq> 0" "max_xfer_size ch \<noteq> 0"
      using assms(1) by (auto simp: dma_state_ok_def)
    with k Some show ?thesis unfolding dma_state_ok_def by simp
  qed
qed

lemma dma_step_ok:
  assumes "hw_ok hw" "dma_state_ok (ch, p)" "dma_guard (ch, p) x"
  shows "\<exists>ch' p'. dma_step hw x (ch, p) = Ret (ch', p') \<and> dma_state_ok (ch', p') \<and>
    dma_trace ch' = dma_trace ch @ dma_adds x"
proof -
  have inv: "dma_inv ch" "max_xfer_size ch \<noteq> 0" using assms(2) by (simp_all add: dma_state_ok_def)
  show ?thesis
  proof (cases x)
    case (Prep dst src len fl)
    with assms(3) prep_ok [OF assms(1) inv, of fl len dst src] show ?thesis by (auto simp: returned_def)
  next
    case (Submit f)
    with assms(3) obtain i where p: "p = Some i" by auto
    with tx_submit_ok [of ch i f] assms(2) Submit show ?thesis by auto
  next
    case Cleanup
    from cleanup_kept [OF assms(1) inv(1)] obtain ch' where "plx_dma_cleanup hw ch = Some (Ret ch')" "kept ch ch'" by blast
    with Cleanup state_kept [OF assms(2)] show ?thesis by (simp add: returned_def kept_def)
  next
    case Interrupt
    from thread_ok [OF assms(1) inv(1)] obtain ch' where "plx_dma_thread_fn hw ch = Some (Ret ch')" "kept ch ch'" by blast
    with Interrupt state_kept [OF assms(2)] show ?thesis by (simp add: returned_def kept_def)
  next
    case Issue
    with state_kept [OF assms(2) same_kept [OF issue_same inv(1)]] same_inv(2) [OF issue_same [where ch = ch and hw = hw]]
    show ?thesis by simp
  qed
qed

interpretation dma: tracing_machine "dma_step hw" "\<lambda>s. hw_ok hw \<and> dma_state_ok s" dma_guard
  "\<lambda>s. dma_trace (fst s)" dma_adds for hw :: "'h dma_hw"
proof
  fix s s' :: "'h plx_dma_chan \<times> u32 option" and x
  assume i: "hw_ok hw \<and> dma_state_ok s" and g: "dma_guard s x"
  obtain ch p where s: "s = (ch, p)" by (cases s)
  from dma_step_ok [of hw ch p x] i g s obtain ch' p' where
    r: "dma_step hw x s = Ret (ch', p')" "dma_state_ok (ch', p')" "dma_trace ch' = dma_trace ch @ dma_adds x" by auto
  then show "\<exists>s'. dma_step hw x s = Ret s' \<and> hw_ok hw \<and> dma_state_ok s'" using i by blast
  assume "dma_step hw x s = Ret s'"
  then show "dma_trace (fst s') = dma_trace (fst s) @ dma_adds x" using r s by auto
qed

text \<open>
  C31. Over any run of preparations, submissions, clean-ups, interrupts and starts in which clients
  respect the lock, no operation gets stuck, the channel stays well formed, and the callbacks called
  so far followed by those still owed are exactly the submitted ones in the order of submission: none
  is lost, called twice or out of turn. When the tail has reached the head, all have been called.
\<close>
theorem callbacks_in_order:
  assumes "hw_ok hw" and "dma_state_ok (ch, p)" and "dma_trace ch = []" and "dma.guarded hw ops (ch, p)"
  shows "\<exists>ch' p'. dma.run hw ops (ch, p) = Ret (ch', p') \<and> dma_state_ok (ch', p') \<and>
    called ch' @ cbs (txs ch' (last_tail ch') (ch_head ch')) = concat (map dma_adds ops) \<and>
    (last_tail ch' = ch_head ch' \<longrightarrow> called ch' = concat (map dma_adds ops))"
proof -
  from dma.run_adds [of hw "(ch, p)" ops] assms obtain ch' p' where
    r: "dma.run hw ops (ch, p) = Ret (ch', p')" "dma_state_ok (ch', p')" "dma_trace ch' = concat (map dma_adds ops)"
    by auto
  moreover have "txs ch' (last_tail ch') (ch_head ch') = []" if "last_tail ch' = ch_head ch'"
    using that r(2) dc.window_empty [OF refl, of "ch_head ch'"] dma_inv_ok(2) by (auto simp: dma_state_ok_def)
  ultimately show ?thesis by (auto simp: dma_trace_def)
qed

section \<open>Witnesses\<close>

text \<open>An idle channel with an engine that never finishes anything, and one with a prepared transfer.\<close>

definition quiet_hw :: "unit dma_hw" where
  "quiet_hw = \<lparr>hw_read = (\<lambda>r e m. (0, e, m)), hw_write = (\<lambda>r v e. e)\<rparr>"

definition idle_chan :: "unit plx_dma_chan" where
  "idle_chan = \<lparr>last_tail = 0, ch_head = 0, desc_ring = (\<lambda>_. \<lparr>dw0 = 0, dw1 = 0, dw2 = 0, dw3 = 0\<rparr>),
     desc_alloc = True, desc_ring_da = 4096, ch_base_addr = 0x200, ctrl_reg = 0,
     tx_array = (\<lambda>_. \<lparr>tx_cookie = 0, tx_flags = 1, tx_callback = None\<rparr>), tx_alloc = True, dma_hang = False,
     dbg_flush = False, dbg_dma_hold_cnt = 0, chan_cookie = 1, completed_cookie = 1, max_xfer_size = 4096,
     prep_locked = False, called = [], engine = ()\<rparr>"

lemma quiet_hw_ok: "hw_ok quiet_hw"
  by (simp add: hw_ok_def quiet_hw_def)

lemma idle_used: "dma_used 2048 0 0 = 0"
  by (rule dc.used_self) (simp_all add: dma_ok_def)

lemma idle_txs: "dc.window m 0 2048 0 0 = []"
  by (rule dc.window_empty) (simp_all add: dma_ok_def)

lemma idle_inv: "dma_inv idle_chan"
  by (simp add: dma_inv_def idle_chan_def idle_txs)

theorem ring_count_bounds_witness:
  "0 \<le> plx_dma_ring_count 3 2047 \<and> plx_dma_ring_count 3 2047 \<le> 2047 \<and>
    plx_dma_ring_count 3 2047 = 2043"
  using ring_count_bounds [of 3 2047] by simp

theorem cleanup_completes_witness:
  "\<exists>ch'. plx_dma_cleanup quiet_hw idle_chan = Some (Ret ch') \<and> dma_inv ch' \<and> last_tail ch' = 0 \<and> called ch' = []"
proof -
  from cleanup_completes [OF quiet_hw_ok idle_inv] obtain n ch' where
    c: "plx_dma_cleanup quiet_hw idle_chan = Some (Ret ch')" "dma_inv ch'"
      "n \<le> dma_used 2048 (last_tail idle_chan) (ch_head idle_chan)" "last_tail ch' = dma_add 2048 (last_tail idle_chan) n"
      "called ch' = called idle_chan @ cbs (take n (txs idle_chan (last_tail idle_chan) (ch_head idle_chan)))" by blast
  then have "n = 0" by (simp add: idle_chan_def idle_used)
  with c show ?thesis by (simp add: idle_chan_def dma_add_def)
qed

theorem transfer_programmed_witness:
  "\<exists>ch'. plx_dma_prog_memcpy_desc quiet_hw 0x10000 0x20000 10000 1 idle_chan = Some (Ret (0, ch')) \<and>
    (\<Sum>k < 3. unat (desc_len (desc_ring ch' (k mod 2048)))) = 10000 \<and> ch_head ch' = dma_add 2048 0 2"
proof -
  have p: "pieces 10000 (max_xfer_size idle_chan) = 3" by (simp add: pieces_def idle_chan_def)
  have c: "plx_dma_ring_count (ch_head idle_chan) (last_tail idle_chan) = 2047"
    using dma_count [OF idle_inv] by (simp add: idle_chan_def idle_used)
  have "\<exists>ch'. plx_dma_prog_memcpy_desc quiet_hw 0x10000 0x20000 10000 1 idle_chan = Some (Ret (0, ch')) \<and>
      (\<forall>k < pieces 10000 (max_xfer_size idle_chan). let d = desc_ring ch' ((unat (ch_head idle_chan) + k) mod 2048) in
         unat (desc_src d) = unat (0x10000 :: u64) + k * unat (max_xfer_size idle_chan) \<and>
         unat (desc_dst d) = unat (0x20000 :: u64) + k * unat (max_xfer_size idle_chan) \<and>
         unat (desc_len d) = min (unat (10000 :: u64) - k * unat (max_xfer_size idle_chan)) (unat (max_xfer_size idle_chan)) \<and>
         (finished d \<longleftrightarrow> Suc k = pieces 10000 (max_xfer_size idle_chan) \<and> (1 :: u32) \<noteq> 0)) \<and>
      (\<Sum>k < pieces 10000 (max_xfer_size idle_chan).
         unat (desc_len (desc_ring ch' ((unat (ch_head idle_chan) + k) mod 2048)))) = unat (10000 :: u64) \<and>
      descs ch' (last_tail idle_chan) (ch_head idle_chan) = descs idle_chan (last_tail idle_chan) (ch_head idle_chan) \<and>
      ch_head ch' = dma_add 2048 (ch_head idle_chan)
        (if (1 :: u32) = 0 then pieces 10000 (max_xfer_size idle_chan) else pieces 10000 (max_xfer_size idle_chan) - 1)"
    by (rule transfer_programmed [OF idle_inv refl]) (unfold p c, simp_all add: idle_chan_def)
  then obtain ch' where w: "plx_dma_prog_memcpy_desc quiet_hw 0x10000 0x20000 10000 1 idle_chan = Some (Ret (0, ch'))"
    "(\<Sum>k < pieces 10000 (max_xfer_size idle_chan).
         unat (desc_len (desc_ring ch' ((unat (ch_head idle_chan) + k) mod 2048)))) = unat (10000 :: u64)"
    "ch_head ch' = dma_add 2048 (ch_head idle_chan)
        (if (1 :: u32) = 0 then pieces 10000 (max_xfer_size idle_chan) else pieces 10000 (max_xfer_size idle_chan) - 1)"
    by blast
  have z: "unat (ch_head idle_chan) = 0" "ch_head idle_chan = 0" by (simp_all add: idle_chan_def)
  show ?thesis using w unfolding p z by (intro exI [of _ ch']) simp
qed

theorem callbacks_in_order_witness:
  "\<exists>ch' p'. dma.run quiet_hw [Submit 7, Cleanup, Interrupt] (idle_chan, Some 0) = Ret (ch', p') \<and>
    called ch' @ cbs (txs ch' (last_tail ch') (ch_head ch')) = [7]"
proof -
  have s: "dma_state_ok (idle_chan, Some 0)"
    using idle_inv by (simp add: dma_state_ok_def) (simp add: idle_chan_def idle_used)
  have t: "dma_trace idle_chan = []" by (simp add: dma_trace_def idle_chan_def idle_txs)
  have "dma.guarded quiet_hw [Submit 7, Cleanup, Interrupt] (idle_chan, Some 0)"
    by (auto split: outcome.splits)
  from callbacks_in_order [OF quiet_hw_ok s t this] show ?thesis by auto
qed

end
