(* ===== verification/Virtio_Ring.thy ===== *)
theory Virtio_Ring
  imports Ring_Counter Machine_Spec
begin

text \<open>
  The driver's side of a virtqueue (\<open>vca_virtio/vca_virtio_ring.c\<close>, \<open>uapi/vca_virtio_ring.h\<close>): a table
  of descriptors whose unused entries form a linked list, a ring of heads the driver makes available
  and a ring of heads the device has used. The three parts lie in memory that the device shares; it
  acts between the operations of the driver and writes to the used part only.

  The driver runs on a little-endian machine, so the conversions of byte order are the identity. A
  token is a number, 0 for NULL. An access outside the descriptor table or the token array, a
  \<open>BUG_ON\<close> and the release of memory that is not allocated are \<open>Abort\<close>. Barriers, debugging output
  and the build with \<open>DEBUG\<close> have no counterpart.
\<close>

section \<open>Data\<close>

definition VRING_DESC_F_NEXT :: u16 where "VRING_DESC_F_NEXT = 1"
definition VRING_DESC_F_WRITE :: u16 where "VRING_DESC_F_WRITE = 2"
definition VRING_DESC_F_INDIRECT :: u16 where "VRING_DESC_F_INDIRECT = 4"
definition VRING_USED_F_NO_NOTIFY :: u16 where "VRING_USED_F_NO_NOTIFY = 1"
definition VRING_AVAIL_F_NO_INTERRUPT :: u16 where "VRING_AVAIL_F_NO_INTERRUPT = 1"
definition VIRTIO_RING_F_INDIRECT_DESC :: nat where "VIRTIO_RING_F_INDIRECT_DESC = 28"
definition VIRTIO_RING_F_EVENT_IDX :: nat where "VIRTIO_RING_F_EVENT_IDX = 29"
definition VIRTIO_RING_F_DMA_MAP :: nat where "VIRTIO_RING_F_DMA_MAP = 30"
definition VIRTIO_TRANSPORT_F_START :: nat where "VIRTIO_TRANSPORT_F_START = 28"
definition VIRTIO_TRANSPORT_F_END :: nat where "VIRTIO_TRANSPORT_F_END = 33"
definition VIRTIO_F_VERSION_1 :: nat where "VIRTIO_F_VERSION_1 = 32"

lemmas virtio_flags = VRING_DESC_F_NEXT_def VRING_DESC_F_WRITE_def VRING_DESC_F_INDIRECT_def
  VRING_USED_F_NO_NOTIFY_def VRING_AVAIL_F_NO_INTERRUPT_def

lemmas virtio_features = VIRTIO_RING_F_INDIRECT_DESC_def VIRTIO_RING_F_EVENT_IDX_def
  VIRTIO_RING_F_DMA_MAP_def VIRTIO_TRANSPORT_F_START_def VIRTIO_TRANSPORT_F_END_def VIRTIO_F_VERSION_1_def

record vring_desc =
  d_addr :: u64
  d_len :: u32
  d_flags :: u16
  d_next :: u16

record vring_avail =
  a_flags :: u16
  a_idx :: u16
  a_ring :: "u16 mem"

record vring_used_elem =
  ue_id :: u32
  ue_len :: u32

text \<open>The event index of the device lies in the first bytes behind the used ring, a cell of its own.\<close>

record vring_used =
  u_flags :: u16
  u_idx :: u16
  u_ring :: "vring_used_elem mem"
  u_event :: u16

record vring =
  num :: u32
  desc :: "vring_desc mem"
  avail :: vring_avail
  used :: vring_used

definition vring_used_event :: "vring \<Rightarrow> u16" where
  "vring_used_event vr = a_ring (avail vr) (unat (num vr))"

definition set_used_event :: "u16 \<Rightarrow> vring \<Rightarrow> vring" where
  "set_used_event e vr = vr\<lparr>avail := (avail vr)\<lparr>a_ring := (a_ring (avail vr))(unat (num vr) := e)\<rparr>\<rparr>"

definition vring_avail_event :: "vring \<Rightarrow> u16" where
  "vring_avail_event vr = u_event (used vr)"

definition vring_need_event :: "u16 \<Rightarrow> u16 \<Rightarrow> u16 \<Rightarrow> bool" where
  "vring_need_event event_idx new_idx old \<longleftrightarrow> new_idx - event_idx - 1 < new_idx - old"

subsection \<open>The layout in memory\<close>

text \<open>The addresses of the three parts and the size of the whole, with \<open>sizeof\<close> 16, 2 and 8.\<close>

definition vring_init :: "u32 \<Rightarrow> u64 \<Rightarrow> u64 \<Rightarrow> u64 \<times> u64 \<times> u64" where
  "vring_init n p align =
     (let av = p + ucast n * 16
      in (p, av, (av + 4 + ucast n * 2 + 2 + align - 1) AND NOT (align - 1)))"

definition vring_size :: "u32 \<Rightarrow> u64 \<Rightarrow> u32" where
  "vring_size n align =
     ucast (((16 * ucast n + 2 * ucast (3 + n) + align - 1) AND NOT (align - 1)) + 2 * 3 + 8 * ucast n :: u64)"

subsection \<open>Scatter lists\<close>

text \<open>An entry of a scatter list: its memory, its length, its bus address and its end mark.\<close>

record scatterlist =
  sg_phys :: u64
  sg_length :: u32
  sg_dma :: u64
  sg_end :: bool

text \<open>
  The entries \<open>sg_next\<close> reaches. The empty list stands for NULL; an array without an end mark is read
  past its end.
\<close>

fun sg_walk :: "scatterlist list \<Rightarrow> scatterlist list outcome" where
  "sg_walk [] = Abort"
| "sg_walk (s # ss) = (if sg_end s then Ret [s] else
     (case sg_walk ss of Abort \<Rightarrow> Abort | Ret xs \<Rightarrow> Ret (s # xs)))"

definition sg_entries :: "scatterlist list \<Rightarrow> scatterlist list outcome" where
  "sg_entries sg = (if sg = [] then Ret [] else sg_walk sg)"

text \<open>The entries of several lists, one after the other.\<close>

fun all_entries :: "scatterlist list list \<Rightarrow> scatterlist list outcome" where
  "all_entries [] = Ret []"
| "all_entries (sg # sgs) = (case sg_entries sg of Abort \<Rightarrow> Abort | Ret xs \<Rightarrow>
     (case all_entries sgs of Abort \<Rightarrow> Abort | Ret ys \<Rightarrow> Ret (xs @ ys)))"

definition sg_terminate_arr :: "nat \<Rightarrow> scatterlist list \<Rightarrow> scatterlist list outcome" where
  "sg_terminate_arr n sg =
     (if n = 0 \<or> length sg < n then Abort else
        let sg' = map (\<lambda>s. s\<lparr>sg_end := False\<rparr>) (take n sg) @ drop n sg
        in Ret (sg'[n - 1 := (sg' ! (n - 1))\<lparr>sg_end := True\<rparr>]))"

section \<open>State\<close>

datatype map_event = Dma_mapped u64 u32 dma_data_direction | Dma_unmapped u64 u32 dma_data_direction

text \<open>
  The queue and what it reaches of the kernel: \<open>parent\<close> says that the device has a parent to map for,
  \<open>notify\<close> what the \<open>k\<close>-th notification returns, \<open>kmalloc\<close> where a table of \<open>n\<close> descriptors is
  allocated and what it holds, \<open>dma_map_single\<close> the bus address of a mapping (0 when it fails). The
  tables allocated are in \<open>heap\<close>, the mappings made and undone in \<open>dma_log\<close>, \<open>notified\<close> counts
  the notifications and \<open>called\<close> the callbacks.
\<close>

record vring_virtqueue =
  vring :: vring
  broken :: bool
  indirect :: bool
  event :: bool
  dma_map :: bool
  num_free :: u32
  free_head :: u32
  num_added :: u32
  last_used_idx :: u16
  data :: "nat mem"
  callback :: bool
  parent :: bool
  notify :: "nat \<Rightarrow> bool"
  notified :: nat
  called :: nat
  kmalloc :: "(u64 \<Rightarrow> (nat \<times> vring_desc mem) option) \<Rightarrow> nat \<Rightarrow> (u64 \<times> vring_desc mem) option"
  heap :: "u64 \<Rightarrow> (nat \<times> vring_desc mem) option"
  dma_map_single :: "map_event list \<Rightarrow> u64 \<Rightarrow> u32 \<Rightarrow> dma_data_direction \<Rightarrow> u64"
  dma_log :: "map_event list"

definition vring_num :: "vring_virtqueue \<Rightarrow> nat" where "vring_num vq = unat (num (vring vq))"

text \<open>A call through the function pointer \<open>notify\<close>, and its result.\<close>

definition call_notify :: "vring_virtqueue \<Rightarrow> bool \<times> vring_virtqueue" where
  "call_notify vq = (notify vq (notified vq), vq\<lparr>notified := notified vq + 1\<rparr>)"

section \<open>Mapping for DMA\<close>

text \<open>
  \<open>_dma_map_sg\<close>: \<open>xs\<close> are the entries already visited, with their bus addresses. A failure undoes the
  mappings of all visited entries and the loop goes on.
\<close>

fun unmap_entries :: "dma_data_direction \<Rightarrow> scatterlist list \<Rightarrow> map_event list \<Rightarrow> map_event list" where
  "unmap_entries dir [] log = log"
| "unmap_entries dir (s # ss) log = unmap_entries dir ss (log @ [Dma_unmapped (sg_dma s) (sg_length s) dir])"

fun dma_map_loop :: "(map_event list \<Rightarrow> u64 \<Rightarrow> u32 \<Rightarrow> dma_data_direction \<Rightarrow> u64) \<Rightarrow> dma_data_direction \<Rightarrow>
    scatterlist list \<Rightarrow> scatterlist list \<Rightarrow> int \<Rightarrow> map_event list \<Rightarrow> int \<times> scatterlist list \<times> map_event list" where
  "dma_map_loop f dir xs [] ret log = (ret, xs, log)"
| "dma_map_loop f dir xs (s # ss) ret log =
     (let a = f log (sg_phys s) (sg_length s) dir; s' = s\<lparr>sg_dma := a\<rparr>
      in if a = 0 then dma_map_loop f dir (xs @ [s']) ss (- ENOMEM) (unmap_entries dir xs log)
         else dma_map_loop f dir (xs @ [s']) ss ret (log @ [Dma_mapped a (sg_length s) dir]))"

text \<open>Only the entries up to the end mark are mapped; the rest of the array stays as it is.\<close>

definition dma_map_sg :: "(map_event list \<Rightarrow> u64 \<Rightarrow> u32 \<Rightarrow> dma_data_direction \<Rightarrow> u64) \<Rightarrow> scatterlist list \<Rightarrow>
    dma_data_direction \<Rightarrow> map_event list \<Rightarrow> (int \<times> scatterlist list \<times> map_event list) outcome" where
  "dma_map_sg f sg dir log = (case sg_entries sg of Abort \<Rightarrow> Abort | Ret es \<Rightarrow>
     (case dma_map_loop f dir [] es 0 log of (ret, es', log') \<Rightarrow> Ret (ret, es' @ drop (length es) sg, log')))"

definition dma_unmap_sg :: "scatterlist list \<Rightarrow> dma_data_direction \<Rightarrow> map_event list \<Rightarrow> map_event list outcome" where
  "dma_unmap_sg sg dir log = (case sg_entries sg of Abort \<Rightarrow> Abort | Ret es \<Rightarrow> Ret (unmap_entries dir es log))"

fun unmap_lists :: "(scatterlist list \<times> dma_data_direction) list \<Rightarrow> map_event list \<Rightarrow> map_event list outcome" where
  "unmap_lists [] log = Ret log"
| "unmap_lists ((sg, dir) # sgs) log = (case dma_unmap_sg sg dir log of Abort \<Rightarrow> Abort | Ret log' \<Rightarrow> unmap_lists sgs log')"

text \<open>The loop of \<open>vring_map_sg\<close>: \<open>pre\<close> are the lists already mapped, with their directions.\<close>

fun map_lists :: "(map_event list \<Rightarrow> u64 \<Rightarrow> u32 \<Rightarrow> dma_data_direction \<Rightarrow> u64) \<Rightarrow>
    (scatterlist list \<times> dma_data_direction) list \<Rightarrow> (scatterlist list \<times> dma_data_direction) list \<Rightarrow>
    map_event list \<Rightarrow> (int \<times> scatterlist list list \<times> map_event list) outcome" where
  "map_lists f pre [] log = Ret (0, map fst pre, log)"
| "map_lists f pre ((sg, dir) # sgs) log = (case dma_map_sg f sg dir log of Abort \<Rightarrow> Abort
     | Ret (rc, sg', log') \<Rightarrow>
         if rc \<noteq> 0 then (case unmap_lists pre log' of Abort \<Rightarrow> Abort
            | Ret log'' \<Rightarrow> Ret (- ENOMEM, map fst pre @ [sg'] @ map fst sgs, log''))
         else map_lists f (pre @ [(sg', dir)]) sgs log')"

definition terminate_first :: "nat \<Rightarrow> scatterlist list list \<Rightarrow> scatterlist list list outcome" where
  "terminate_first n sgs = (case sgs of [] \<Rightarrow> Abort | sg # rest \<Rightarrow>
     (case sg_terminate_arr n sg of Abort \<Rightarrow> Abort | Ret sg' \<Rightarrow> Ret (sg' # rest)))"

definition vring_map_sg :: "scatterlist list list \<Rightarrow> nat \<Rightarrow> nat \<Rightarrow> nat \<Rightarrow> vring_virtqueue \<Rightarrow>
    (int \<times> scatterlist list list \<times> vring_virtqueue) outcome" where
  "vring_map_sg sgs total_sg out_sgs in_sgs vq =
     (case (if out_sgs = 1 then terminate_first total_sg sgs else Ret sgs) of Abort \<Rightarrow> Abort | Ret sgs1 \<Rightarrow>
     (case (if in_sgs = 1 then terminate_first total_sg sgs1 else Ret sgs1) of Abort \<Rightarrow> Abort | Ret sgs2 \<Rightarrow>
     if \<not> parent vq then Ret (- ENOMEM, sgs2, vq)
     else (case map_lists (dma_map_single vq) []
             (zip sgs2 (replicate out_sgs DMA_TO_DEVICE @ replicate in_sgs DMA_FROM_DEVICE)) (dma_log vq) of
          Abort \<Rightarrow> Abort
        | Ret (rc, sgs3, log) \<Rightarrow> Ret (rc, sgs3, vq\<lparr>dma_log := log\<rparr>))))"

section \<open>Adding a buffer\<close>

text \<open>
  A table of descriptors to fill, with its number of entries: that of the ring, or one of its own.
  \<open>alloc_indirect\<close> links the entries of a new table.
\<close>

definition alloc_indirect :: "nat \<Rightarrow> vring_virtqueue \<Rightarrow> (u64 \<times> vring_desc mem) option" where
  "alloc_indirect total_sg vq = (case kmalloc vq (heap vq) total_sg of None \<Rightarrow> None
     | Some (a, t) \<Rightarrow> Some (a, fold (\<lambda>i t. t(i := (t i)\<lparr>d_next := of_nat (i + 1)\<rparr>)) [0..<total_sg] t))"

text \<open>
  The loop over the entries of the lists: \<open>i\<close> is the descriptor to fill next, \<open>prev\<close> the one
  filled last.
\<close>

fun put_descs :: "nat \<Rightarrow> bool \<Rightarrow> u16 \<Rightarrow> scatterlist list \<Rightarrow> vring_desc mem \<times> nat \<times> nat option \<Rightarrow>
    (vring_desc mem \<times> nat \<times> nat option) outcome" where
  "put_descs n dma f [] st = Ret st"
| "put_descs n dma f (s # ss) (d, i, prev) =
     (if n \<le> i then Abort else
      put_descs n dma f ss
        (d(i := (d i)\<lparr>d_flags := f, d_addr := (if dma then sg_dma s else sg_phys s), d_len := sg_length s\<rparr>),
         unat (d_next (d i)), Some i))"

text \<open>The descriptors of a buffer in a table, the first at \<open>i\<close>; the result is where the free list goes on.\<close>

definition put_buffer :: "nat \<Rightarrow> bool \<Rightarrow> scatterlist list list \<Rightarrow> nat \<Rightarrow> vring_desc mem \<Rightarrow> nat \<Rightarrow>
    (vring_desc mem \<times> nat) outcome" where
  "put_buffer n dma sgs out_sgs d i =
     (case all_entries (take out_sgs sgs) of Abort \<Rightarrow> Abort | Ret outs \<Rightarrow>
     (case all_entries (drop out_sgs sgs) of Abort \<Rightarrow> Abort | Ret ins \<Rightarrow>
     (case put_descs n dma VRING_DESC_F_NEXT outs (d, i, None) of Abort \<Rightarrow> Abort | Ret st \<Rightarrow>
     (case put_descs n dma (VRING_DESC_F_NEXT OR VRING_DESC_F_WRITE) ins st of Abort \<Rightarrow> Abort
      | Ret (d', i', prev) \<Rightarrow> (case prev of None \<Rightarrow> Abort
          | Some p \<Rightarrow> Ret (d'(p := (d' p)\<lparr>d_flags := d_flags (d' p) AND NOT VRING_DESC_F_NEXT\<rparr>), i'))))))"

text \<open>What the code does to \<open>avail\<close> and \<open>num_added\<close> once the descriptors are written.\<close>

definition make_avail :: "nat \<Rightarrow> vring_virtqueue \<Rightarrow> vring_virtqueue" where
  "make_avail head vq =
     (let vr = vring vq; av = avail vr; k = unat (ucast (a_idx av) AND (num vr - 1))
      in vq\<lparr>vring := vr\<lparr>avail := av\<lparr>a_ring := (a_ring av)(k := of_nat head), a_idx := a_idx av + 1\<rparr>\<rparr>,
            num_added := num_added vq + 1\<rparr>)"

definition vca_virtqueue_kick_prepare :: "vring_virtqueue \<Rightarrow> bool \<times> vring_virtqueue" where
  "vca_virtqueue_kick_prepare vq =
     (let new = a_idx (avail (vring vq)); old = new - ucast (num_added vq)
      in (if event vq then vring_need_event (vring_avail_event (vring vq)) new old
          else u_flags (used (vring vq)) AND VRING_USED_F_NO_NOTIFY = 0,
          vq\<lparr>num_added := 0\<rparr>))"

definition vca_virtqueue_notify :: "vring_virtqueue \<Rightarrow> bool \<times> vring_virtqueue" where
  "vca_virtqueue_notify vq = (if broken vq then (False, vq) else
     (case call_notify vq of (ok, vq') \<Rightarrow> if ok then (True, vq') else (False, vq'\<lparr>broken := True\<rparr>)))"

definition vca_virtqueue_kick :: "vring_virtqueue \<Rightarrow> bool \<times> vring_virtqueue" where
  "vca_virtqueue_kick vq = (case vca_virtqueue_kick_prepare vq of (needs, vq') \<Rightarrow>
     if needs then vca_virtqueue_notify vq' else (True, vq'))"

text \<open>
  The two ways to take descriptors: \<open>Some a\<close> is a table of the buffer's own at address \<open>a\<close>, to which
  the descriptor \<open>head\<close> points; \<open>None\<close> is the table of the ring.
\<close>

definition go_indirect :: "nat \<Rightarrow> vring_virtqueue \<Rightarrow> (u64 option \<times> vring_virtqueue) outcome" where
  "go_indirect total_sg vq =
     (if indirect vq \<and> 1 < total_sg \<and> num_free vq \<noteq> 0 then
        (case alloc_indirect total_sg vq of None \<Rightarrow> Ret (None, vq)
         | Some (a, t) \<Rightarrow>
             let vr = vring vq; head = unat (free_head vq)
             in if vring_num vq \<le> head then Abort
                else Ret (Some a, vq\<lparr>heap := (heap vq)(a \<mapsto> (total_sg, t)),
                  vring := vr\<lparr>desc := (desc vr)(head := (desc vr head)\<lparr>d_flags := VRING_DESC_F_INDIRECT,
                    d_addr := a, d_len := of_nat (total_sg * 16)\<rparr>)\<rparr>\<rparr>))
      else Ret (None, vq))"

text \<open>The buffer is written and the free list moved on.\<close>

definition take_descs :: "u64 option \<Rightarrow> scatterlist list list \<Rightarrow> nat \<Rightarrow> nat \<Rightarrow> vring_virtqueue \<Rightarrow>
    vring_virtqueue outcome" where
  "take_descs table sgs out_sgs head vq = (case table of
     Some a \<Rightarrow> (case heap vq a of None \<Rightarrow> Abort | Some (n, t) \<Rightarrow>
       (case put_buffer n (dma_map vq) sgs out_sgs t 0 of Abort \<Rightarrow> Abort
        | Ret (t', i) \<Rightarrow> Ret (vq\<lparr>heap := (heap vq)(a \<mapsto> (n, t')),
            free_head := ucast (d_next (desc (vring vq) head))\<rparr>)))
   | None \<Rightarrow> (case put_buffer (vring_num vq) (dma_map vq) sgs out_sgs (desc (vring vq)) head of Abort \<Rightarrow> Abort
        | Ret (d', i) \<Rightarrow> Ret (vq\<lparr>vring := (vring vq)\<lparr>desc := d'\<rparr>, free_head := of_nat i\<rparr>)))"

text \<open>The token is set, the head made available and the device told when \<open>num_added\<close> is about to wrap.\<close>

definition publish :: "nat \<Rightarrow> nat \<Rightarrow> vring_virtqueue \<Rightarrow> vring_virtqueue" where
  "publish head token vq = (let vq4 = make_avail head (vq\<lparr>data := (data vq)(head := token)\<rparr>)
     in if num_added vq4 = 65535 then snd (vca_virtqueue_kick vq4) else vq4)"

definition virtqueue_add :: "scatterlist list list \<Rightarrow> nat \<Rightarrow> nat \<Rightarrow> nat \<Rightarrow> nat \<Rightarrow> vring_virtqueue \<Rightarrow>
    (int \<times> scatterlist list list \<times> vring_virtqueue) outcome" where
  "virtqueue_add sgs total_sg out_sgs in_sgs token vq =
     (if token = 0 then Abort
      else if broken vq then Ret (- EIO, sgs, vq)
      else if vring_num vq < total_sg \<or> total_sg = 0 \<or> length sgs \<noteq> out_sgs + in_sgs then Abort
      else let head = unat (free_head vq) in
     (case go_indirect total_sg vq of Abort \<Rightarrow> Abort | Ret (table, vq1) \<Rightarrow>
      let descs_used = (if table = None then total_sg else 1) in
      if unat (num_free vq1) < descs_used then
        Ret (- ENOSPC, sgs, if out_sgs \<noteq> 0 then snd (call_notify vq1) else vq1)
      else (case (if dma_map vq1 then vring_map_sg sgs total_sg out_sgs in_sgs vq1 else Ret (0, sgs, vq1)) of
          Abort \<Rightarrow> Abort
        | Ret (rc, sgs2, vq2) \<Rightarrow>
            if rc \<noteq> 0 then Ret (- ENOMEM, sgs2, vq2)
            else (case take_descs table sgs2 out_sgs head (vq2\<lparr>num_free := num_free vq2 - of_nat descs_used\<rparr>) of
                Abort \<Rightarrow> Abort
              | Ret vq3 \<Rightarrow> if vring_num vq3 \<le> head then Abort
                  else Ret (0, sgs2, publish head token vq3)))))"

definition vca_virtqueue_add_sgs :: "scatterlist list list \<Rightarrow> nat \<Rightarrow> nat \<Rightarrow> nat \<Rightarrow> vring_virtqueue \<Rightarrow>
    (int \<times> scatterlist list list \<times> vring_virtqueue) outcome" where
  "vca_virtqueue_add_sgs sgs out_sgs in_sgs token vq =
     (case all_entries sgs of Abort \<Rightarrow> Abort
      | Ret es \<Rightarrow> virtqueue_add sgs (length es) out_sgs in_sgs token vq)"

definition vca_virtqueue_add_outbuf :: "scatterlist list \<Rightarrow> nat \<Rightarrow> nat \<Rightarrow> vring_virtqueue \<Rightarrow>
    (int \<times> scatterlist list list \<times> vring_virtqueue) outcome" where
  "vca_virtqueue_add_outbuf sg n token vq = virtqueue_add [sg] n 1 0 token vq"

definition vca_virtqueue_add_inbuf :: "scatterlist list \<Rightarrow> nat \<Rightarrow> nat \<Rightarrow> vring_virtqueue \<Rightarrow>
    (int \<times> scatterlist list list \<times> vring_virtqueue) outcome" where
  "vca_virtqueue_add_inbuf sg n token vq = virtqueue_add [sg] n 0 1 token vq"

section \<open>Getting buffers back\<close>

definition unmap_single :: "vring_desc \<Rightarrow> map_event" where
  "unmap_single e = Dma_unmapped (d_addr e) (d_len e)
     (if d_flags e AND VRING_DESC_F_WRITE \<noteq> 0 then DMA_FROM_DEVICE else DMA_TO_DEVICE)"

text \<open>
  The walk to the end of a chain in a table of \<open>n\<close> descriptors; it may not end when the links form
  a cycle. The results are the last descriptor, the number of descriptors passed and the mappings
  undone.
\<close>

partial_function (option) detach_loop :: "vring_desc mem \<Rightarrow> nat \<Rightarrow> nat \<Rightarrow> u32 \<Rightarrow> map_event list \<Rightarrow>
    (nat \<times> u32 \<times> map_event list) outcome option" where
  "detach_loop d n i free log =
     (if n \<le> i then Some Abort
      else if d_flags (d i) AND VRING_DESC_F_NEXT \<noteq> 0
      then detach_loop d n (unat (d_next (d i))) (free + 1) (log @ [unmap_single (d i)])
      else Some (Ret (i, free, log)))"

text \<open>The indirect table of a descriptor is released.\<close>

definition free_indirect :: "vring_desc \<Rightarrow> vring_virtqueue \<Rightarrow> vring_virtqueue outcome" where
  "free_indirect e vq =
     (if d_flags e AND VRING_DESC_F_INDIRECT = 0 then Ret vq
      else if heap vq (d_addr e) = None then Abort
      else Ret (vq\<lparr>heap := (heap vq)(d_addr e := None)\<rparr>))"

definition detach_buf :: "nat \<Rightarrow> vring_virtqueue \<Rightarrow> vring_virtqueue outcome option" where
  "detach_buf head vq =
     (if vring_num vq \<le> head then Some Abort else
      let vr = vring vq; vq0 = vq\<lparr>data := (data vq)(head := 0)\<rparr> in
      (case free_indirect (desc vr head) vq0 of Abort \<Rightarrow> Some Abort | Ret vq1 \<Rightarrow>
      (case detach_loop (desc vr) (vring_num vq) head (num_free vq) [] of None \<Rightarrow> None
       | Some Abort \<Rightarrow> Some Abort
       | Some (Ret (i, free, log)) \<Rightarrow>
           let d' = (desc vr)(i := (desc vr i)\<lparr>d_next := ucast (free_head vq)\<rparr>)
           in Some (Ret (vq1\<lparr>vring := vr\<lparr>desc := d'\<rparr>, free_head := of_nat head, num_free := free + 1,
                dma_log := dma_log vq @ (if dma_map vq then log @ [unmap_single (d' i)] else [])\<rparr>)))))"

definition more_used :: "vring_virtqueue \<Rightarrow> bool" where
  "more_used vq \<longleftrightarrow> last_used_idx vq \<noteq> u_idx (used (vring vq))"

text \<open>The results are the token and the length, which is only set when there is a used buffer.\<close>

definition vca_virtqueue_get_buf :: "u32 \<Rightarrow> vring_virtqueue \<Rightarrow> (nat \<times> u32 \<times> vring_virtqueue) outcome option" where
  "vca_virtqueue_get_buf len vq =
     (if broken vq \<or> \<not> more_used vq then Some (Ret (0, len, vq))
      else let vr = vring vq; e = u_ring (used vr) (unat (ucast (last_used_idx vq) AND (num vr - 1))); i = ue_id e
      in if num vr \<le> i \<or> data vq (unat i) = 0 then Some (Ret (0, ue_len e, vq\<lparr>broken := True\<rparr>))
      else (case detach_buf (unat i) vq of None \<Rightarrow> None | Some Abort \<Rightarrow> Some Abort
        | Some (Ret vq1) \<Rightarrow>
            let vq2 = vq1\<lparr>last_used_idx := last_used_idx vq1 + 1\<rparr>;
              vq3 = (if a_flags (avail (vring vq2)) AND VRING_AVAIL_F_NO_INTERRUPT = 0
                then vq2\<lparr>vring := set_used_event (last_used_idx vq2) (vring vq2)\<rparr> else vq2)
            in Some (Ret (data vq (unat i), ue_len e, vq3))))"

text \<open>The first index below \<open>n\<close> with a token.\<close>

definition first_token :: "nat mem \<Rightarrow> nat \<Rightarrow> nat option" where
  "first_token m n = find (\<lambda>i. m i \<noteq> 0) [0..<n]"

definition vca_virtqueue_detach_unused_buf :: "vring_virtqueue \<Rightarrow> (nat \<times> vring_virtqueue) outcome option" where
  "vca_virtqueue_detach_unused_buf vq = (case first_token (data vq) (vring_num vq) of
     Some i \<Rightarrow> (case detach_buf i vq of None \<Rightarrow> None | Some Abort \<Rightarrow> Some Abort
       | Some (Ret vq1) \<Rightarrow>
           let vr = vring vq1; av = avail vr
           in Some (Ret (data vq i, vq1\<lparr>vring := vr\<lparr>avail := av\<lparr>a_idx := a_idx av - 1\<rparr>\<rparr>\<rparr>)))
   | None \<Rightarrow> if num_free vq \<noteq> num (vring vq) then Some Abort else Some (Ret (0, vq)))"

section \<open>Callbacks\<close>

definition set_avail_flags :: "(u16 \<Rightarrow> u16) \<Rightarrow> vring \<Rightarrow> vring" where
  "set_avail_flags f vr = vr\<lparr>avail := (avail vr)\<lparr>a_flags := f (a_flags (avail vr))\<rparr>\<rparr>"

definition vca_virtqueue_disable_cb :: "vring_virtqueue \<Rightarrow> vring_virtqueue" where
  "vca_virtqueue_disable_cb vq = vq\<lparr>vring := set_avail_flags (\<lambda>f. f OR VRING_AVAIL_F_NO_INTERRUPT) (vring vq)\<rparr>"

definition vca_virtqueue_enable_cb_prepare :: "vring_virtqueue \<Rightarrow> u32 \<times> vring_virtqueue" where
  "vca_virtqueue_enable_cb_prepare vq =
     (let vr = set_avail_flags (\<lambda>f. f AND NOT VRING_AVAIL_F_NO_INTERRUPT) (vring vq)
      in (ucast (last_used_idx vq), vq\<lparr>vring := set_used_event (last_used_idx vq) vr\<rparr>))"

definition vca_virtqueue_poll :: "u32 \<Rightarrow> vring_virtqueue \<Rightarrow> bool" where
  "vca_virtqueue_poll idx vq \<longleftrightarrow> ucast idx \<noteq> u_idx (used (vring vq))"

definition vca_virtqueue_enable_cb :: "vring_virtqueue \<Rightarrow> bool \<times> vring_virtqueue" where
  "vca_virtqueue_enable_cb vq = (case vca_virtqueue_enable_cb_prepare vq of (idx, vq') \<Rightarrow>
     (\<not> vca_virtqueue_poll idx vq', vq'))"

text \<open>The number of buffers to wait for: three quarters of those in flight, computed in an \<open>int\<close>.\<close>

definition delayed_bufs :: "vring_virtqueue \<Rightarrow> u16" where
  "delayed_bufs vq = of_nat (unat (a_idx (avail (vring vq)) - last_used_idx vq) * 3 div 4)"

definition vca_virtqueue_enable_cb_delayed :: "vring_virtqueue \<Rightarrow> bool \<times> vring_virtqueue" where
  "vca_virtqueue_enable_cb_delayed vq =
     (let vr = set_avail_flags (\<lambda>f. f AND NOT VRING_AVAIL_F_NO_INTERRUPT) (vring vq); bufs = delayed_bufs vq
      in (\<not> u_idx (used vr) - last_used_idx vq > bufs,
          vq\<lparr>vring := set_used_event (last_used_idx vq + bufs) vr\<rparr>))"

datatype irqreturn = IRQ_NONE | IRQ_HANDLED

definition vca_vring_interrupt :: "vring_virtqueue \<Rightarrow> irqreturn \<times> vring_virtqueue" where
  "vca_vring_interrupt vq =
     (if \<not> more_used vq then (IRQ_NONE, vq)
      else if broken vq then (IRQ_HANDLED, vq)
      else (IRQ_HANDLED, if callback vq then vq\<lparr>called := called vq + 1\<rparr> else vq))"

section \<open>Queues and devices\<close>

record virtio_device =
  features :: u64
  vqs :: "vring_virtqueue list"

definition virtio_has_feature :: "u64 \<Rightarrow> nat \<Rightarrow> bool" where "virtio_has_feature fs b = bit fs b"
definition virtio_clear_bit :: "nat \<Rightarrow> u64 \<Rightarrow> u64" where "virtio_clear_bit b fs = fs AND NOT (push_bit b 1)"

text \<open>
  A new queue in the memory \<open>pages\<close>, whose contents are given; \<open>base\<close> holds the surroundings of the
  queue. The loop that links the free list runs to \<open>n - 1\<close>, computed in 32 bits, and the token array
  has \<open>n\<close> entries. \<open>ok\<close> says that \<open>kmalloc\<close> succeeds.
\<close>

definition vca_vring_new_virtqueue :: "bool \<Rightarrow> u32 \<Rightarrow> vring \<Rightarrow> bool \<Rightarrow> vring_virtqueue \<Rightarrow> virtio_device \<Rightarrow>
    (vring_virtqueue option \<times> virtio_device) outcome" where
  "vca_vring_new_virtqueue ok n pages cb base dev =
     (if n AND (n - 1) \<noteq> 0 \<or> \<not> ok then Ret (None, dev)
      else let top = unat (n - 1);
        vr0 = pages\<lparr>num := n\<rparr>;
        vr1 = (if cb then vr0 else set_avail_flags (\<lambda>f. f OR VRING_AVAIL_F_NO_INTERRUPT) vr0)
      in if unat n \<le> top then Abort else
      let d = fold (\<lambda>i d. d(i := (d i)\<lparr>d_next := of_nat (i + 1)\<rparr>)) [0..<top] (desc vr1);
        vq = base\<lparr>vring := vr1\<lparr>desc := d\<rparr>, broken := False,
          indirect := virtio_has_feature (features dev) VIRTIO_RING_F_INDIRECT_DESC,
          event := virtio_has_feature (features dev) VIRTIO_RING_F_EVENT_IDX,
          dma_map := virtio_has_feature (features dev) VIRTIO_RING_F_DMA_MAP,
          num_free := n, free_head := 0, num_added := 0, last_used_idx := 0,
          data := fold (\<lambda>i m. m(i := 0)) [0..<top + 1] (data base), callback := cb\<rparr>
      in Ret (Some vq, dev\<lparr>vqs := vqs dev @ [vq]\<rparr>))"

text \<open>The queue at position \<open>k\<close> of the device's list is taken out of it and released.\<close>

definition vca_vring_del_virtqueue :: "nat \<Rightarrow> virtio_device \<Rightarrow> virtio_device" where
  "vca_vring_del_virtqueue k dev = dev\<lparr>vqs := take k (vqs dev) @ drop (Suc k) (vqs dev)\<rparr>"

definition transport_bit_known :: "nat \<Rightarrow> bool" where
  "transport_bit_known i \<longleftrightarrow> i = VIRTIO_RING_F_INDIRECT_DESC \<or> i = VIRTIO_RING_F_EVENT_IDX \<or>
     i = VIRTIO_F_VERSION_1 \<or> i = VIRTIO_RING_F_DMA_MAP"

definition vca_vring_transport_features :: "virtio_device \<Rightarrow> virtio_device" where
  "vca_vring_transport_features dev =
     (let fs = fold (\<lambda>i fs. if transport_bit_known i then fs else virtio_clear_bit i fs)
            [VIRTIO_TRANSPORT_F_START..<VIRTIO_TRANSPORT_F_END] (features dev);
        fs' = (if virtio_has_feature fs VIRTIO_RING_F_DMA_MAP \<and> virtio_has_feature fs VIRTIO_RING_F_INDIRECT_DESC
               then virtio_clear_bit VIRTIO_RING_F_INDIRECT_DESC fs else fs)
      in dev\<lparr>features := fs'\<rparr>)"

definition vca_virtqueue_get_vring_size :: "vring_virtqueue \<Rightarrow> u32" where
  "vca_virtqueue_get_vring_size vq = num (vring vq)"

definition vca_virtqueue_is_broken :: "vring_virtqueue \<Rightarrow> bool" where
  "vca_virtqueue_is_broken vq = broken vq"

definition vca_virtio_break_device :: "virtio_device \<Rightarrow> virtio_device" where
  "vca_virtio_break_device dev = dev\<lparr>vqs := map (\<lambda>vq. vq\<lparr>broken := True\<rparr>) (vqs dev)\<rparr>"

definition vca_virtqueue_get_avail :: "vring_virtqueue \<Rightarrow> vring_avail" where
  "vca_virtqueue_get_avail vq = avail (vring vq)"

definition vca_virtqueue_get_used :: "vring_virtqueue \<Rightarrow> vring_used" where
  "vca_virtqueue_get_used vq = used (vring vq)"

end
