(* ===== verification/Virtio_Layout.thy ===== *)
theory Virtio_Layout
  imports Virtio_Ring
begin

text \<open>
  The layout of a ring in the shared memory: where \<open>vring_init\<close> puts the parts, and the size
  \<open>vring_size\<close> reserves for them.
\<close>

text \<open>Rounding up to a multiple of a power of two.\<close>

definition round_up :: "nat \<Rightarrow> nat \<Rightarrow> nat" where "round_up k x = (x + 2 ^ k - 1) div 2 ^ k * 2 ^ k"

lemma round_up_bounds: "x \<le> round_up k x" "round_up k x < x + 2 ^ k" "round_up k x mod 2 ^ k = 0"
proof -
  let ?y = "x + 2 ^ k - 1"
  have m: "?y mod 2 ^ k < 2 ^ k" "round_up k x + ?y mod 2 ^ k = ?y" by (simp_all only: round_up_def div_mult_mod_eq) simp
  have "0 < (2 :: nat) ^ k" by simp
  with m show "x \<le> round_up k x" "round_up k x < x + 2 ^ k" by linarith+
  show "round_up k x mod 2 ^ k = 0" unfolding round_up_def by simp
qed

lemma unat_align_mask: "unat (x AND NOT (2 ^ k - 1) :: u64) = unat x div 2 ^ k * 2 ^ k"
proof -
  have e: "x AND NOT (2 ^ k - 1) = x - take_bit k x"
  proof -
    have "(x AND NOT (mask k)) + take_bit k x = x"
      by (subst disjunctive_add) (auto simp: bit_simps intro!: bit_eqI)
    then show ?thesis by (metis add_diff_cancel_right' mask_eq_exp_minus_1)
  qed
  have t: "unat (take_bit k x) = unat x mod 2 ^ k" by (simp add: unsigned_take_bit_eq take_bit_nat_def)
  have "take_bit k x \<le> x" by (simp add: word_le_nat_alt t)
  then have "unat (x - take_bit k x) = unat x - unat x mod 2 ^ k" by (simp add: unat_sub t)
  then show ?thesis unfolding e by (simp add: minus_mod_eq_div_mult)
qed

lemma unat_round_up:
  assumes "k \<le> 20" and "unat (x :: u64) < 2 ^ 60"
  shows "unat ((x + 2 ^ k - 1) AND NOT (2 ^ k - 1)) = round_up k (unat x)"
proof -
  have k: "(2 :: nat) ^ k \<le> 2 ^ 20" using assms(1) by (intro power_increasing) simp_all
  have p: "unat (2 ^ k :: u64) = 2 ^ k"
  proof -
    have "unat (of_nat (2 ^ k) :: u64) = 2 ^ k" using k by (simp add: unat_of_nat del: of_nat_power)
    then show ?thesis by (simp only: of_nat_power of_nat_numeral)
  qed
  have a: "unat (x + 2 ^ k) = unat x + 2 ^ k" using assms(2) k by (subst unat_add_lem [THEN iffD1]) (simp_all add: p)
  have "0 < (2 :: nat) ^ k" by simp
  then have "x + 2 ^ k \<noteq> 0" using a by auto
  then have "unat (x + 2 ^ k - 1) = unat x + 2 ^ k - 1" by (simp add: unat_minus_one a)
  then show ?thesis by (simp add: unat_align_mask round_up_def)
qed

text \<open>
  The parts of a ring lie one behind the other from the given address on: the descriptors, the
  avail ring with its event index, the used ring at the next multiple of the alignment; the used ring
  with its event index ends exactly where the size says.
\<close>
theorem ring_layout:
  assumes "unat n \<le> 32768" and "k \<le> 20" and "unat p mod 2 ^ k = 0" and "unat p < 2 ^ 59"
    and "vring_init n p (2 ^ k) = (d, av, us)"
  shows "d = p \<and> unat av = unat p + 16 * unat n \<and> unat av + 4 + 2 * unat n + 2 \<le> unat us \<and> unat us mod 2 ^ k = 0 \<and>
    unat us + 4 + 8 * unat n + 2 = unat p + unat (vring_size n (2 ^ k))"
proof -
  let ?n = "unat n" and ?x = "p + ucast n * 16 + 4 + ucast n * 2 + 2"
  have un: "unat (ucast n :: u64) = ?n" using assms(1) by (simp add: unsigned_ucast_eq take_bit_nat_eq_self)
  have r: "d = p" "av = p + ucast n * 16" "us = (?x + 2 ^ k - 1) AND NOT (2 ^ k - 1)"
    using assms(5) unfolding vring_init_def Let_def prod.inject by blast+
  have m: "unat (ucast n * c :: u64) = ?n * unat c" if "unat c \<le> 16" for c :: u64
  proof -
    have "?n * unat c \<le> 32768 * 16" using assms(1) that by (intro mult_le_mono) simp_all
    then show ?thesis by (simp add: unat_word_ariths un)
  qed
  have av: "unat av = unat p + 16 * ?n" unfolding r using assms(1,4) by (simp add: unat_word_ariths m un)
  have x: "unat ?x = unat p + (18 * ?n + 6)" using assms(1,4) by (simp add: unat_word_ariths m un)
  have us: "unat us = round_up k (unat p + (18 * ?n + 6))"
    unfolding r x [symmetric] by (intro unat_round_up [OF assms(2)], unfold x) (use assms(1,4) in simp)
  obtain q where q: "unat p = q * 2 ^ k" using assms(3) by (metis mod_0_imp_dvd dvdE mult.commute)
  have sh: "round_up k (unat p + y) = unat p + round_up k y" for y
  proof -
    have "0 < (2 :: nat) ^ k" by simp
    then have "unat p + y + 2 ^ k - 1 = q * 2 ^ k + (y + 2 ^ k - 1)" using q by linarith
    then show ?thesis unfolding round_up_def q by (simp add: distrib_right)
  qed
  let ?y = "16 * ucast n + 2 * ucast (3 + n) :: u64"
  have "unat (3 + n) = 3 + ?n" using assms(1) by (simp add: unat_word_ariths)
  then have u3: "unat (ucast (3 + n) :: u64) = 3 + ?n" using assms(1) by (simp add: unsigned_ucast_eq take_bit_nat_eq_self)
  have y: "unat ?y = 18 * ?n + 6" using assms(1) by (simp add: unat_word_ariths un u3)
  have ry: "unat ((?y + 2 ^ k - 1) AND NOT (2 ^ k - 1)) = round_up k (18 * ?n + 6)"
    unfolding y [symmetric] by (intro unat_round_up [OF assms(2)], unfold y) (use assms(1) in simp)
  have "(2 :: nat) ^ k \<le> 2 ^ 20" using assms(2) by (intro power_increasing) simp_all
  then have b: "round_up k (18 * ?n + 6) < 2 ^ 21" using round_up_bounds(2) [of k "18 * ?n + 6"] assms(1) by simp
  have "unat (vring_size n (2 ^ k)) = round_up k (18 * ?n + 6) + 6 + 8 * ?n"
    using b assms(1) unfolding vring_size_def by (simp add: unsigned_ucast_eq take_bit_nat_def unat_word_ariths ry un)
  moreover have "unat us = unat p + round_up k (18 * ?n + 6)" unfolding us by (rule sh)
  moreover have "(unat p + round_up k (18 * ?n + 6)) mod 2 ^ k = 0"
    using assms(3) round_up_bounds(3) [of k "18 * ?n + 6"] by (metis add_0 mod_add_left_eq)
  moreover have "18 * ?n + 6 \<le> round_up k (18 * ?n + 6)" by (rule round_up_bounds)
  ultimately show ?thesis using r(1) av by simp
qed

theorem ring_layout_witness:
  "\<exists>d av us. vring_init 256 0x10000 (2 ^ 12) = (d, av, us) \<and> unat av = 0x11000 \<and> 0x11206 \<le> unat us \<and>
     unat us + 4 + 8 * 256 + 2 = 0x10000 + unat (vring_size 256 (2 ^ 12))"
proof -
  obtain d av us where v: "vring_init 256 0x10000 (2 ^ 12) = (d, av, us)" by (cases "vring_init 256 0x10000 (2 ^ 12)")
  from ring_layout [OF _ _ _ _ v] show ?thesis using v by simp
qed

end
