(* ===== verification/Virtq_Facts.thy ===== *)
theory Virtq_Facts
  imports Virtio_Ring "HOL-Library.Multiset"
begin

text \<open>
  The driver's side of a virtqueue is correct: its free list and the chains of the buffers in flight
  partition the descriptor table at all times, whatever the device writes into the used ring.
\<close>

section \<open>Chains of descriptors\<close>

definition has_next :: "vring_desc \<Rightarrow> bool" where "has_next e \<longleftrightarrow> d_flags e AND VRING_DESC_F_NEXT \<noteq> 0"
definition is_write :: "vring_desc \<Rightarrow> bool" where "is_write e \<longleftrightarrow> d_flags e AND VRING_DESC_F_WRITE \<noteq> 0"
definition is_indirect :: "vring_desc \<Rightarrow> bool" where "is_indirect e \<longleftrightarrow> d_flags e AND VRING_DESC_F_INDIRECT \<noteq> 0"

text \<open>The free list: from \<open>i\<close> on the links run through \<open>xs\<close>. A chain also ends where its flags say.\<close>

fun linked :: "vring_desc mem \<Rightarrow> nat \<Rightarrow> nat list \<Rightarrow> bool" where
  "linked d i [] \<longleftrightarrow> True"
| "linked d i (x # xs) \<longleftrightarrow> i = x \<and> linked d (unat (d_next (d x))) xs"

fun chain :: "vring_desc mem \<Rightarrow> nat list \<Rightarrow> bool" where
  "chain d [] \<longleftrightarrow> False"
| "chain d [x] \<longleftrightarrow> \<not> has_next (d x)"
| "chain d (x # y # xs) \<longleftrightarrow> has_next (d x) \<and> unat (d_next (d x)) = y \<and> chain d (y # xs)"

text \<open>What the device sees of a chain: addresses, lengths and which parts it may write.\<close>

type_synonym buffer = "(u64 \<times> u32 \<times> bool) list"

definition view :: "vring_desc mem \<Rightarrow> nat list \<Rightarrow> buffer" where
  "view d xs = map (\<lambda>x. (d_addr (d x), d_len (d x), is_write (d x))) xs"

definition sg_view :: "bool \<Rightarrow> bool \<Rightarrow> scatterlist list \<Rightarrow> buffer" where
  "sg_view dma w ss = map (\<lambda>s. (if dma then sg_dma s else sg_phys s, sg_length s, w)) ss"

lemma linked_cong: "(\<And>x. x \<in> set xs \<Longrightarrow> d_next (d' x) = d_next (d x)) \<Longrightarrow> linked d' i xs = linked d i xs"
  by (induction xs arbitrary: i) auto

lemma linked_app:
  "linked d i (xs @ ys) \<longleftrightarrow> linked d i xs \<and> linked d (if xs = [] then i else unat (d_next (d (last xs)))) ys"
  by (induction xs arbitrary: i) auto

lemma chain_cong: "(\<And>x. x \<in> set xs \<Longrightarrow> d' x = d x) \<Longrightarrow> chain d' xs = chain d xs"
  by (induction xs rule: induct_list012) auto

lemma view_cong: "(\<And>x. x \<in> set xs \<Longrightarrow> d' x = d x) \<Longrightarrow> view d' xs = view d xs"
  by (simp add: view_def)

lemma length_view [simp]: "length (view d xs) = length xs" "length (sg_view dma w ss) = length ss"
  by (simp_all add: view_def sg_view_def)

lemma chain_linked: "chain d xs \<Longrightarrow> linked d (hd xs) xs"
  by (induction xs rule: induct_list012) auto

lemma linked_chain:
  "linked d i xs \<Longrightarrow> xs \<noteq> [] \<Longrightarrow> (\<And>x. x \<in> set (butlast xs) \<Longrightarrow> has_next (d x)) \<Longrightarrow> \<not> has_next (d (last xs)) \<Longrightarrow>
   chain d xs"
  by (induction xs arbitrary: i rule: induct_list012) (auto split: if_splits)

lemma flag_simps:
  "1 AND 1 = (1 :: u16)" "(1 :: u16) AND 2 = 0" "(1 :: u16) AND 4 = 0" "(1 OR 2 :: u16) AND 1 = 1"
  "(1 OR 2 :: u16) AND 2 = 2" "(1 OR 2 :: u16) AND 4 = 0" "(4 :: u16) AND 1 = 0" "(4 :: u16) AND 4 = 4"
  by simp_all

text \<open>Filling descriptors along the free list.\<close>

definition fill :: "bool \<Rightarrow> u16 \<Rightarrow> scatterlist \<Rightarrow> vring_desc \<Rightarrow> vring_desc" where
  "fill dma f s e = e\<lparr>d_flags := f, d_addr := (if dma then sg_dma s else sg_phys s), d_len := sg_length s\<rparr>"

lemma put_descs_ok:
  assumes "linked d i (xs @ ys)" and "distinct (xs @ ys)" and "\<forall>x \<in> set xs. x < n" and "length ss = length xs"
  shows "\<exists>d' i'. put_descs n dma f ss (d, i, p) = Ret (d', i', if xs = [] then p else Some (last xs)) \<and>
    linked d' i' ys \<and> (\<forall>x. x \<notin> set xs \<longrightarrow> d' x = d x) \<and> (\<forall>j < length xs. d' (xs ! j) = fill dma f (ss ! j) (d (xs ! j)))"
  using assms
proof (induction xs arbitrary: d i ss p)
  case Nil
  then show ?case by auto
next
  case (Cons x xs)
  then obtain s ss' where ss: "ss = s # ss'" "length ss' = length xs" by (cases ss) auto
  let ?d = "d(x := fill dma f s (d x))"
  from Cons.prems have i: "i = x" "x < n" "x \<notin> set (xs @ ys)" and l: "linked d (unat (d_next (d x))) (xs @ ys)" by auto
  have lq: "linked ?d j zs = linked d j zs" for j zs by (rule linked_cong) (simp add: fill_def)
  have "\<exists>d' i'. put_descs n dma f ss' (?d, unat (d_next (d x)), Some x) =
        Ret (d', i', if xs = [] then Some x else Some (last xs)) \<and> linked d' i' ys \<and>
        (\<forall>y. y \<notin> set xs \<longrightarrow> d' y = ?d y) \<and> (\<forall>j < length xs. d' (xs ! j) = fill dma f (ss' ! j) (?d (xs ! j)))"
    using Cons.prems ss l by (intro Cons.IH) (simp_all add: lq del: fun_upd_apply)
  then obtain d' i' where r: "put_descs n dma f ss' (?d, unat (d_next (d x)), Some x) =
        Ret (d', i', if xs = [] then Some x else Some (last xs))" "linked d' i' ys"
    "\<forall>y. y \<notin> set xs \<longrightarrow> d' y = ?d y" "\<forall>j < length xs. d' (xs ! j) = fill dma f (ss' ! j) (?d (xs ! j))" by blast
  have "d' ((x # xs) ! j) = fill dma f (ss ! j) (d ((x # xs) ! j))" if j: "j < length (x # xs)" for j
  proof (cases j)
    case 0
    then show ?thesis using r(3) i(3) ss by simp
  next
    case (Suc k)
    then have "xs ! k \<noteq> x" using j i(3) by auto
    then show ?thesis using r(4) Suc j ss by simp
  qed
  moreover have "put_descs n dma f ss (d, i, p) = put_descs n dma f ss' (?d, unat (d_next (d x)), Some x)"
    using i by (simp add: ss fill_def)
  ultimately show ?case using r i by (intro exI [of _ d'] exI [of _ i']) auto
qed

lemma all_entries_append:
  "all_entries xs = Ret as \<Longrightarrow> all_entries (xs @ ys) = (case all_entries ys of Abort \<Rightarrow> Abort | Ret bs \<Rightarrow> Ret (as @ bs))"
  by (induction xs arbitrary: as) (auto split: outcome.splits)

lemma all_entries_split:
  assumes "all_entries sgs = Ret es"
  obtains as bs where "all_entries (take k sgs) = Ret as" "all_entries (drop k sgs) = Ret bs" "es = as @ bs"
proof -
  have "\<exists>as bs. all_entries (take k sgs) = Ret as \<and> all_entries (drop k sgs) = Ret bs \<and> es = as @ bs"
    using assms
  proof (induction sgs arbitrary: k es)
    case (Cons sg sgs)
    then obtain xs ys where e: "sg_entries sg = Ret xs" "all_entries sgs = Ret ys" "es = xs @ ys"
      by (auto split: outcome.splits)
    show ?case
    proof (cases k)
      case (Suc j)
      from Cons.IH [OF e(2), of j] obtain as bs where "all_entries (take j sgs) = Ret as"
        "all_entries (drop j sgs) = Ret bs" "ys = as @ bs" by blast
      then show ?thesis using e Suc by auto
    qed (use Cons.prems in auto)
  qed auto
  then show thesis using that by blast
qed

definition buffer_view :: "bool \<Rightarrow> scatterlist list list \<Rightarrow> nat \<Rightarrow> buffer" where
  "buffer_view dma sgs k = (case all_entries (take k sgs) of Abort \<Rightarrow> [] | Ret as \<Rightarrow>
     (case all_entries (drop k sgs) of Abort \<Rightarrow> [] | Ret bs \<Rightarrow> sg_view dma False as @ sg_view dma True bs))"

lemma length_buffer_view: "all_entries sgs = Ret es \<Longrightarrow> length (buffer_view dma sgs k) = length es"
  by (rule all_entries_split [of sgs es k]) (simp_all add: buffer_view_def)

text \<open>Both loops over the entries, seen as one.\<close>

lemma put_both:
  assumes "linked d i (xs @ ys)" and "distinct (xs @ ys)" and "\<forall>x \<in> set xs. x < n"
    and "length (as @ bs) = length xs" and "xs \<noteq> []"
  shows "\<exists>st d' i'. put_descs n dma VRING_DESC_F_NEXT as (d, i, None) = Ret st \<and>
    put_descs n dma (VRING_DESC_F_NEXT OR VRING_DESC_F_WRITE) bs st = Ret (d', i', Some (last xs)) \<and>
    linked d' i' ys \<and> (\<forall>x. x \<notin> set xs \<longrightarrow> d' x = d x) \<and> (\<forall>j < length xs. d' (xs ! j) =
      fill dma (if j < length as then VRING_DESC_F_NEXT else VRING_DESC_F_NEXT OR VRING_DESC_F_WRITE)
        ((as @ bs) ! j) (d (xs ! j)))"
proof -
  define us where "us = take (length as) xs"
  define vs where "vs = drop (length as) xs"
  have x: "xs = us @ vs" "length us = length as" "length vs = length bs"
    using assms(4) by (simp_all add: us_def vs_def)
  have "linked d i (us @ vs @ ys)" "distinct (us @ vs @ ys)" "\<forall>x \<in> set us. x < n"
    using assms(1-3) by (simp_all add: x(1))
  from put_descs_ok [OF this, of as dma VRING_DESC_F_NEXT None] obtain e k where
    e: "put_descs n dma VRING_DESC_F_NEXT as (d, i, None) = Ret (e, k, if us = [] then None else Some (last us))"
      "linked e k (vs @ ys)" "\<forall>x. x \<notin> set us \<longrightarrow> e x = d x"
      "\<forall>j < length us. e (us ! j) = fill dma VRING_DESC_F_NEXT (as ! j) (d (us ! j))"
    using x(2) by auto
  let ?p = "if us = [] then None else Some (last us)"
  have "distinct (vs @ ys)" "\<forall>x \<in> set vs. x < n" using assms(2,3) by (simp_all add: x(1))
  from put_descs_ok [OF e(2) this, of bs dma "VRING_DESC_F_NEXT OR VRING_DESC_F_WRITE" ?p] obtain d' i' where
    f: "put_descs n dma (VRING_DESC_F_NEXT OR VRING_DESC_F_WRITE) bs (e, k, ?p) =
         Ret (d', i', if vs = [] then ?p else Some (last vs))"
      "linked d' i' ys" "\<forall>x. x \<notin> set vs \<longrightarrow> d' x = e x"
      "\<forall>j < length vs. d' (vs ! j) = fill dma (VRING_DESC_F_NEXT OR VRING_DESC_F_WRITE) (bs ! j) (e (vs ! j))"
    using x(3) by auto
  have "(if vs = [] then ?p else Some (last vs)) = Some (last xs)" using assms(5) by (auto simp: x(1))
  moreover have "d' (xs ! j) = fill dma (if j < length as then VRING_DESC_F_NEXT else VRING_DESC_F_NEXT OR VRING_DESC_F_WRITE)
        ((as @ bs) ! j) (d (xs ! j))" if j: "j < length xs" for j
  proof (cases "j < length as")
    case True
    then have "us ! j \<in> set us" using x(2) by simp
    then have "us ! j \<notin> set vs" using assms(2) by (auto simp: x(1))
    then show ?thesis using True e(4) f(3) x(2) by (simp add: x(1) nth_append)
  next
    case False
    then have l: "j - length as < length vs" using j x by simp
    then have "vs ! (j - length as) \<in> set vs" by simp
    then have "vs ! (j - length as) \<notin> set us" using assms(2) by (auto simp: x(1))
    then show ?thesis using False l e(3) f(4) x(2) by (simp add: x(1) nth_append)
  qed
  ultimately show ?thesis using e(1,3) f by (intro exI conjI) (auto simp: x(1))
qed

lemma put_buffer_ok:
  assumes "linked d i (xs @ ys)" and "distinct (xs @ ys)" and "\<forall>x \<in> set xs. x < n"
    and "all_entries sgs = Ret es" and "length es = length xs" and "xs \<noteq> []"
  shows "\<exists>d' i'. put_buffer n dma sgs k d i = Ret (d', i') \<and> linked d' i' ys \<and> chain d' xs \<and>
    view d' xs = buffer_view dma sgs k \<and> (\<forall>x \<in> set xs. \<not> is_indirect (d' x)) \<and>
    (\<forall>x. x \<notin> set xs \<longrightarrow> d' x = d x) \<and> (\<forall>x. d_next (d' x) = d_next (d x))"
proof -
  obtain as bs where ab: "all_entries (take k sgs) = Ret as" "all_entries (drop k sgs) = Ret bs" "es = as @ bs"
    by (rule all_entries_split [OF assms(4)])
  have "length (as @ bs) = length xs" using ab(3) assms(5) by simp
  from put_both [OF assms(1-3) this assms(6), of dma] obtain st e i' where
    e: "put_descs n dma VRING_DESC_F_NEXT as (d, i, None) = Ret st"
      "put_descs n dma (VRING_DESC_F_NEXT OR VRING_DESC_F_WRITE) bs st = Ret (e, i', Some (last xs))"
      "linked e i' ys" "\<forall>x. x \<notin> set xs \<longrightarrow> e x = d x"
    and ej: "\<forall>j < length xs. e (xs ! j) =
      fill dma (if j < length as then VRING_DESC_F_NEXT else VRING_DESC_F_NEXT OR VRING_DESC_F_WRITE)
        ((as @ bs) ! j) (d (xs ! j))" by blast
  let ?l = "last xs"
  let ?d = "e(?l := (e ?l)\<lparr>d_flags := d_flags (e ?l) AND NOT VRING_DESC_F_NEXT\<rparr>)"
  have nx: "d_next (e x) = d_next (d x)" for x
    using e(4) ej by (cases "x \<in> set xs") (auto simp: in_set_conv_nth fill_def)
  have nx': "d_next (?d x) = d_next (d x)" for x using nx by simp
  have out: "?l \<in> set xs" using assms(6) by simp
  have out': "?l \<notin> set ys" using assms(2) out by (meson distinct_append disjoint_iff)
  have lk: "linked ?d i' ys" using e(3) out' by (subst linked_cong [of ys _ e]) auto
  have fl: "d_flags (e x) = VRING_DESC_F_NEXT \<or> d_flags (e x) = VRING_DESC_F_NEXT OR VRING_DESC_F_WRITE"
    if "x \<in> set xs" for x using that ej by (auto simp: in_set_conv_nth fill_def)
  have fl': "d_flags (?d x) = d_flags (e x) \<or> d_flags (?d x) = d_flags (e x) AND NOT VRING_DESC_F_NEXT" for x by simp
  have ch: "chain ?d xs"
  proof (rule linked_chain [OF _ assms(6)])
    show "linked ?d i xs" using assms(1) nx' by (simp add: linked_app linked_cong [of xs ?d d] del: fun_upd_apply)
    show "has_next (?d x)" if "x \<in> set (butlast xs)" for x
    proof -
      have "x \<noteq> ?l" using that assms(2,6) by (metis append_butlast_last_id distinct_append not_distinct_conv_prefix)
      then show ?thesis using fl [OF in_set_butlastD [OF that]] by (auto simp: has_next_def virtio_flags flag_simps)
    qed
    show "\<not> has_next (?d ?l)" by (simp add: has_next_def virtio_flags and.assoc)
  qed
  have ind: "\<not> is_indirect (?d x)" if "x \<in> set xs" for x
    using fl [OF that] by (auto simp: is_indirect_def virtio_flags)
  have "view ?d xs = buffer_view dma sgs k"
  proof (rule nth_equalityI)
    show "length (view ?d xs) = length (buffer_view dma sgs k)" using assms(4,5) by (simp add: length_buffer_view)
    fix j
    assume "j < length (view ?d xs)"
    then have j: "j < length xs" by simp
    have w: "is_write (?d (xs ! j)) = is_write (e (xs ! j))"
      using fl [OF nth_mem [OF j]] by (auto simp: is_write_def virtio_flags)
    have "is_write (e (xs ! j)) \<longleftrightarrow> \<not> j < length as"
      using ej j by (auto simp: is_write_def virtio_flags fill_def)
    then show "view ?d xs ! j = buffer_view dma sgs k ! j"
      using w j ej ab assms(5) by (auto simp: view_def buffer_view_def sg_view_def nth_append fill_def)
  qed
  moreover have "put_buffer n dma sgs k d i = Ret (?d, i')" using ab e by (simp add: put_buffer_def)
  ultimately show ?thesis using lk ch ind e(4) nx' out
    by (intro exI [of _ ?d] exI [of _ i']) (simp del: fun_upd_apply, auto)
qed

section \<open>Free list and buffers partition the table\<close>

text \<open>
  \<open>holds\<close>: the buffer \<open>v\<close> starts at descriptor \<open>h\<close> and takes the descriptors \<open>xs\<close>, or one descriptor
  that points to a table of its own.
\<close>

definition holds :: "vring_desc mem \<Rightarrow> (u64 \<Rightarrow> (nat \<times> vring_desc mem) option) \<Rightarrow> nat list \<Rightarrow> nat \<Rightarrow> buffer \<Rightarrow> bool" where
  "holds d hp xs h v \<longleftrightarrow> xs \<noteq> [] \<and> hd xs = h \<and> chain d xs \<and> v \<noteq> [] \<and>
     (if is_indirect (d h) then xs = [h] \<and> (\<exists>t. hp (d_addr (d h)) = Some (length v, t) \<and>
          chain t [0..<length v] \<and> view t [0..<length v] = v \<and> (\<forall>i < length v. \<not> is_indirect (t i)) \<and>
          unat (d_len (d h)) = 16 * length v)
      else view d xs = v \<and> (\<forall>x \<in> set xs. \<not> is_indirect (d x)))"

definition indirect_heads :: "nat \<Rightarrow> vring_desc mem \<Rightarrow> nat mem \<Rightarrow> nat set" where
  "indirect_heads n d dt = {h. h < n \<and> dt h \<noteq> 0 \<and> is_indirect (d h)}"

definition parts_ok :: "nat \<Rightarrow> vring_desc mem \<Rightarrow> (u64 \<Rightarrow> (nat \<times> vring_desc mem) option) \<Rightarrow> nat \<Rightarrow> nat \<Rightarrow> nat mem \<Rightarrow>
    nat list \<Rightarrow> (nat \<Rightarrow> nat list) \<Rightarrow> (nat \<Rightarrow> buffer) \<Rightarrow> bool" where
  "parts_ok n d hp fh fr dt F B V \<longleftrightarrow>
     length F = fr \<and> mset (F @ concat (map B [0..<n])) = mset [0..<n] \<and> linked d fh F \<and>
     (\<forall>h < n. if dt h = 0 then B h = [] else holds d hp (B h) h (V h)) \<and>
     inj_on (\<lambda>h. d_addr (d h)) (indirect_heads n d dt) \<and>
     dom hp = (\<lambda>h. d_addr (d h)) ` indirect_heads n d dt"

definition ring_size_ok :: "nat \<Rightarrow> bool" where "ring_size_ok n \<longleftrightarrow> (\<exists>k \<le> 15. n = 2 ^ k)"

text \<open>\<open>kmalloc\<close> returns memory that is not in use; mapped buffers are not indirect.\<close>

definition virtq_wf :: "nat list \<Rightarrow> (nat \<Rightarrow> nat list) \<Rightarrow> (nat \<Rightarrow> buffer) \<Rightarrow> vring_virtqueue \<Rightarrow> bool" where
  "virtq_wf F B V vq \<longleftrightarrow> ring_size_ok (vring_num vq) \<and>
     parts_ok (vring_num vq) (desc (vring vq)) (heap vq) (unat (free_head vq)) (unat (num_free vq)) (data vq) F B V \<and>
     (\<forall>hp n a t. kmalloc vq hp n = Some (a, t) \<longrightarrow> hp a = None) \<and>
     (dma_map vq \<longrightarrow> \<not> indirect vq \<and> heap vq = Map.empty)"

definition virtq_ok :: "vring_virtqueue \<Rightarrow> bool" where "virtq_ok vq \<longleftrightarrow> (\<exists>F B V. virtq_wf F B V vq)"

lemma ring_size_bounds: "ring_size_ok n \<Longrightarrow> 0 < n \<and> n \<le> 32768 \<and> n dvd 65536"
proof -
  assume "ring_size_ok n"
  then obtain k where k: "k \<le> 15" "n = 2 ^ k" by (auto simp: ring_size_ok_def)
  have "n \<le> 2 ^ 15" unfolding k(2) using k(1) by (intro power_increasing) simp_all
  moreover have "n dvd 2 ^ 16" unfolding k(2) using k(1) by (intro le_imp_power_dvd) simp
  ultimately show ?thesis using k by simp
qed

lemma parts_distinct:
  assumes "mset (F @ concat (map B [0..<n])) = mset [0..<n]"
  shows "distinct F" and "set F \<subseteq> {..<n}" and "h < n \<Longrightarrow> distinct (B h)" and "h < n \<Longrightarrow> set (B h) \<subseteq> {..<n}"
    and "h < n \<Longrightarrow> set F \<inter> set (B h) = {}" and "h < n \<Longrightarrow> k < n \<Longrightarrow> h \<noteq> k \<Longrightarrow> set (B h) \<inter> set (B k) = {}"
proof -
  have d: "distinct (F @ concat (map B [0..<n]))" by (subst mset_eq_imp_distinct_iff [OF assms]) simp
  have s: "set (F @ concat (map B [0..<n])) = set [0..<n]" by (rule mset_eq_setD [OF assms])
  show "distinct F" using d by simp
  show "set F \<subseteq> {..<n}" using s by auto
  have sub: "set (B h) \<subseteq> set (concat (map B [0..<n]))" if "h < n" for h using that by auto
  show "set (B h) \<subseteq> {..<n}" if "h < n" using s sub [OF that] by auto
  show "set F \<inter> set (B h) = {}" if "h < n" using d sub [OF that] by auto
  have sp: "[0..<n] = [0..<h] @ h # [Suc h..<n]" if "h < n" for h
    using that upt_add_eq_append [of 0 h "n - h"] by (simp add: upt_conv_Cons)
  show "distinct (B h)" if "h < n" using d unfolding sp [OF that] by simp
  have dj: "set (B h) \<inter> set (B k) = {}" if "h < k" "k < n" for h k
  proof -
    have "set (B h) \<subseteq> (\<Union>a \<in> {0..<k}. set (B a))" using that by auto
    then show ?thesis using d unfolding sp [OF that(2)] by auto
  qed
  show "set (B h) \<inter> set (B k) = {}" if "h < n" "k < n" "h \<noteq> k"
    using dj [of h k] dj [of k h] that by (cases "h < k") auto
qed

lemma mset_parts_upd:
  "h < n \<Longrightarrow> mset (concat (map (B(h := xs)) [0..<n])) + mset (B h) = mset (concat (map B [0..<n])) + mset xs"
proof -
  assume h: "h < n"
  have sp: "[0..<n] = [0..<h] @ h # [Suc h..<n]"
    using h upt_add_eq_append [of 0 h "n - h"] by (simp add: upt_conv_Cons)
  have "map (B(h := xs)) [0..<h] = map B [0..<h]" "map (B(h := xs)) [Suc h..<n] = map B [Suc h..<n]" by simp_all
  then show ?thesis unfolding sp by simp
qed

lemma detach_loop_ok:
  "chain d xs \<Longrightarrow> \<forall>x \<in> set xs. x < n \<Longrightarrow> detach_loop d n (hd xs) free log =
     Some (Ret (last xs, free + of_nat (length xs - 1), log @ map (\<lambda>x. unmap_single (d x)) (butlast xs)))"
proof (induction xs arbitrary: free log rule: induct_list012)
  case (2 x)
  then show ?case by (subst detach_loop.simps) (simp add: has_next_def)
next
  case (3 x y zs)
  then show ?case by (subst detach_loop.simps) (simp add: has_next_def)
qed simp

text \<open>The mappings of a buffer, undone.\<close>

definition unmaps :: "buffer \<Rightarrow> map_event list" where
  "unmaps v = map (\<lambda>(a, l, w). Dma_unmapped a l (if w then DMA_FROM_DEVICE else DMA_TO_DEVICE)) v"

lemma unmaps_view: "unmaps (view d xs) = map (\<lambda>x. unmap_single (d x)) xs"
  by (simp add: unmaps_def view_def unmap_single_def is_write_def)

lemma holds_cong:
  assumes "\<And>x. x \<in> set xs \<Longrightarrow> d' x = d x" and "is_indirect (d h) \<Longrightarrow> hp' (d_addr (d h)) = hp (d_addr (d h))"
  shows "holds d' hp' xs h v = holds d hp xs h v"
proof (cases "xs \<noteq> [] \<and> hd xs = h")
  case True
  then have "d' h = d h" using assms(1) [of h] by (metis hd_in_set)
  then show ?thesis using assms chain_cong [of xs d' d] view_cong [of xs d' d]
    by (auto simp: holds_def)
qed (auto simp: holds_def)

lemma parts_detach:
  assumes "parts_ok n d hp fh fr dt F B V" and "h < n" and "dt h \<noteq> 0"
    and "d' = d(last (B h) := (d (last (B h)))\<lparr>d_next := nx\<rparr>)" and "unat nx = fh"
    and "hp' = (if is_indirect (d h) then hp(d_addr (d h) := None) else hp)"
  shows "parts_ok n d' hp' h (fr + length (B h)) (dt(h := 0)) (B h @ F) (B(h := [])) V"
proof -
  note p = assms(1) [unfolded parts_ok_def]
  have hd: "holds d hp (B h) h (V h)" using p assms(2,3) by auto
  then have b: "B h \<noteq> []" "hd (B h) = h" "chain d (B h)" by (simp_all add: holds_def)
  note dj = parts_distinct [OF conjunct1 [OF conjunct2 [OF p]]]
  let ?l = "last (B h)"
  have ls: "?l \<in> set (B h)" using b(1) by simp
  have dn: "d' x = d x" if "x \<noteq> ?l" for x using that assms(4) by simp
  have fl: "d_flags (d' x) = d_flags (d x)" "d_addr (d' x) = d_addr (d x)" for x using assms(4) by simp_all
  have ind: "is_indirect (d' x) = is_indirect (d x)" for x by (simp add: is_indirect_def fl)
  have m: "mset ((B h @ F) @ concat (map (B(h := [])) [0..<n])) = mset [0..<n]"
    using p mset_parts_upd [OF assms(2), of B "[]"] by (simp add: ac_simps)
  have "linked d' h (B h @ F)"
  proof -
    have bl: "linked d' h (B h)"
    proof -
      have sp: "B h = butlast (B h) @ [?l]" using b(1) by simp
      have "linked d h (butlast (B h) @ [?l])" using chain_linked [OF b(3)] b(1,2) by simp
      moreover have "x \<noteq> ?l" if "x \<in> set (butlast (B h))" for x
        using that dj(3) [OF assms(2)] sp by (metis distinct_append not_distinct_conv_prefix)
      moreover from this have "linked d' h (butlast (B h)) = linked d h (butlast (B h))"
        by (intro linked_cong) (simp add: dn)
      moreover have "last (butlast (B h)) \<noteq> ?l" if "butlast (B h) \<noteq> []"
        using calculation(2) that by (metis last_in_set)
      ultimately show ?thesis by (subst sp) (auto simp: linked_app dn)
    qed
    have "?l \<notin> set F" using ls dj(5) [OF assms(2)] by auto
    then have "linked d' fh F = linked d fh F" by (intro linked_cong) (metis dn)
    moreover have "unat (d_next (d' ?l)) = fh" using assms(4,5) by simp
    ultimately show ?thesis using bl p b(1) by (simp add: linked_app)
  qed
  moreover have "if (dt(h := 0)) k = 0 then (B(h := [])) k = [] else holds d' hp' ((B(h := [])) k) k (V k)"
    if k: "k < n" for k
  proof (cases "k = h \<or> dt k = 0")
    case False
    then have hk: "holds d hp (B k) k (V k)" using p k by auto
    have "?l \<notin> set (B k)" using ls dj(6) [OF assms(2) k] False by auto
    moreover have "d_addr (d k) \<noteq> d_addr (d h)" if "is_indirect (d k)" "is_indirect (d h)"
      using that p False k assms(2,3) by (auto simp: inj_on_def indirect_heads_def)
    ultimately have "holds d' hp' (B k) k (V k) = holds d hp (B k) k (V k)"
      using assms(6) by (intro holds_cong) (auto intro: dn)
    then show ?thesis using hk False by simp
  qed (use p k in auto)
  moreover have ih: "indirect_heads n d' (dt(h := 0)) = indirect_heads n d dt - {h}"
    by (auto simp: indirect_heads_def ind)
  moreover have "inj_on (\<lambda>x. d_addr (d' x)) (indirect_heads n d dt - {h})"
    using p by (simp add: fl) (meson inj_on_diff)
  moreover have "dom hp' = (\<lambda>x. d_addr (d' x)) ` (indirect_heads n d dt - {h})"
  proof (cases "is_indirect (d h)")
    case True
    then have "h \<in> indirect_heads n d dt" using assms(2,3) by (simp add: indirect_heads_def)
    moreover have "inj_on (\<lambda>h. d_addr (d h)) (indirect_heads n d dt)" using p by simp
    ultimately have "(\<lambda>h. d_addr (d h)) ` (indirect_heads n d dt - {h}) =
        (\<lambda>h. d_addr (d h)) ` indirect_heads n d dt - {d_addr (d h)}"
      by (subst inj_on_image_set_diff) auto
    then show ?thesis using p True assms(6) by (simp add: fl)
  next
    case False
    then have "indirect_heads n d dt - {h} = indirect_heads n d dt" by (auto simp: indirect_heads_def)
    then show ?thesis using p False assms(6) by (simp add: fl)
  qed
  moreover have "length (B h @ F) = fr + length (B h)" using p by simp
  ultimately show ?thesis using m unfolding parts_ok_def ih by blast
qed

section \<open>Buffers come back\<close>

text \<open>What releasing a buffer leaves alone.\<close>

definition same_queue :: "vring_virtqueue \<Rightarrow> vring_virtqueue \<Rightarrow> bool" where
  "same_queue vq vq' \<longleftrightarrow> num (vring vq') = num (vring vq) \<and> avail (vring vq') = avail (vring vq) \<and>
     used (vring vq') = used (vring vq) \<and> broken vq' = broken vq \<and> indirect vq' = indirect vq \<and>
     event vq' = event vq \<and> dma_map vq' = dma_map vq \<and> num_added vq' = num_added vq \<and>
     last_used_idx vq' = last_used_idx vq \<and> callback vq' = callback vq \<and> parent vq' = parent vq \<and>
     notify vq' = notify vq \<and> notified vq' = notified vq \<and> called vq' = called vq \<and>
     kmalloc vq' = kmalloc vq \<and> dma_map_single vq' = dma_map_single vq"

lemma parts_size:
  assumes "mset (F @ concat (map B [0..<n])) = mset [0..<n]" and "h < n"
  shows "length F + length (B h) \<le> n"
proof -
  have "length (F @ concat (map B [0..<n])) = n" using mset_eq_length [OF assms(1)] by simp
  moreover have "length (B h) \<le> sum_list (map length (map B [0..<n]))"
    using assms(2) by (intro member_le_sum_list) (auto simp: image_iff)
  ultimately show ?thesis by (simp add: length_concat)
qed

lemma detach_buf_ok:
  assumes "virtq_wf F B V vq" and "h < vring_num vq" and "data vq h \<noteq> 0"
  shows "\<exists>vq'. detach_buf h vq = Some (Ret vq') \<and> virtq_wf (B h @ F) (B(h := [])) V vq' \<and> same_queue vq vq' \<and>
    data vq' = (data vq)(h := 0) \<and> dma_log vq' = dma_log vq @ (if dma_map vq then unmaps (V h) else [])"
proof -
  let ?n = "vring_num vq" and ?d = "desc (vring vq)" and ?l = "last (B h)"
  let ?d' = "?d(?l := (?d ?l)\<lparr>d_next := ucast (free_head vq)\<rparr>)"
  let ?hp = "if is_indirect (?d h) then (heap vq)(d_addr (?d h) := None) else heap vq"
  let ?free = "num_free vq + of_nat (length (B h) - 1)"
  have p: "parts_ok ?n ?d (heap vq) (unat (free_head vq)) (unat (num_free vq)) (data vq) F B V"
    using assms(1) by (simp add: virtq_wf_def)
  note pd = p [unfolded parts_ok_def]
  note ms = conjunct1 [OF conjunct2 [OF pd]]
  have hd: "holds ?d (heap vq) (B h) h (V h)" using pd assms(2,3) by auto
  then have b: "B h \<noteq> []" "hd (B h) = h" "chain ?d (B h)" by (simp_all add: holds_def)
  have n: "ring_size_ok ?n" using assms(1) by (simp add: virtq_wf_def)
  note nb = ring_size_bounds [OF n]
  have size: "unat (num_free vq) + length (B h) \<le> ?n" using parts_size [OF ms assms(2)] pd by simp
  have free: "unat (?free + 1) = unat (num_free vq) + length (B h)"
  proof -
    obtain k where k: "length (B h) = Suc k" using b(1) by (cases "B h") auto
    have "unat (num_free vq + of_nat (Suc k)) = unat (num_free vq) + Suc k"
      using size nb k by (simp add: unat_word_ariths unat_of_nat del: of_nat_Suc)
    then show ?thesis by (simp add: k ac_simps)
  qed
  have lt: "\<forall>x \<in> set (B h). x < ?n" using parts_distinct(4) [OF ms assms(2)] by auto
  note loop = detach_loop_ok [OF b(3) lt, of "num_free vq" "[]", unfolded b(2)]
  have sp: "map (\<lambda>x. unmap_single (?d x)) (butlast (B h)) @ [unmap_single (?d' ?l)] = map (\<lambda>x. unmap_single (?d x)) (B h)"
  proof -
    have "unmap_single (?d' ?l) = unmap_single (?d ?l)" by (simp add: unmap_single_def)
    then show ?thesis by (subst (3) append_butlast_last_id [OF b(1), symmetric]) simp
  qed
  have fi: "free_indirect (?d h) (vq\<lparr>data := (data vq)(h := 0)\<rparr>) = Ret (vq\<lparr>data := (data vq)(h := 0), heap := ?hp\<rparr>)"
    using hd by (cases "is_indirect (?d h)") (auto simp: free_indirect_def is_indirect_def holds_def)
  let ?vq' = "vq\<lparr>vring := (vring vq)\<lparr>desc := ?d'\<rparr>, free_head := of_nat h, num_free := ?free + 1,
     data := (data vq)(h := 0), heap := ?hp,
     dma_log := dma_log vq @ (if dma_map vq then map (\<lambda>x. unmap_single (?d x)) (B h) else [])\<rparr>"
  have "detach_buf h vq = Some (Ret ?vq')"
    using assms(2) fi loop sp by (simp add: detach_buf_def Let_def)
  moreover have "virtq_wf (B h @ F) (B(h := [])) V ?vq'"
  proof -
    have fb: "unat (ucast (free_head vq) :: u16) = unat (free_head vq)" if "F \<noteq> []"
    proof -
      have "unat (free_head vq) = hd F" using pd that by (cases F) auto
      then have "unat (free_head vq) < ?n" using hd_in_set [OF that] parts_distinct(2) [OF ms] by auto
      then show ?thesis using nb by (simp add: unsigned_ucast_eq take_bit_nat_eq_self)
    qed
    have q: "parts_ok ?n ?d' ?hp h (unat (num_free vq) + length (B h)) ((data vq)(h := 0)) (B h @ F) (B(h := [])) V"
    proof (cases "F = []")
      case True
      have "parts_ok ?n ?d (heap vq) (unat (ucast (free_head vq) :: u16)) (unat (num_free vq)) (data vq) F B V"
        using p True by (simp add: parts_ok_def)
      from parts_detach [OF this assms(2,3) refl refl refl] show ?thesis .
    next
      case False
      from parts_detach [OF p assms(2,3) refl fb [OF False] refl] show ?thesis .
    qed
    have uh: "unat (of_nat h :: u32) = h" using assms(2) nb by (simp add: unat_of_nat)
    have "dma_map vq \<longrightarrow> ?hp = Map.empty" using assms(1) by (auto simp: virtq_wf_def)
    then show ?thesis using q uh free n assms(1) unfolding virtq_wf_def by (simp add: vring_num_def)
  qed
  moreover have "(if dma_map vq then map (\<lambda>x. unmap_single (?d x)) (B h) else []) = (if dma_map vq then unmaps (V h) else [])"
    using hd assms(1) by (cases "is_indirect (?d h)") (auto simp: holds_def virtq_wf_def unmaps_view [symmetric])
  ultimately show ?thesis by (intro exI [of _ ?vq']) (simp add: same_queue_def)
qed

text \<open>Positions in the two rings: the counters run through all sixteen bits.\<close>

definition vq_add :: "nat \<Rightarrow> u16 \<Rightarrow> nat \<Rightarrow> u16" where "vq_add n c k = c + of_nat k"
definition vq_pos :: "nat \<Rightarrow> u16 \<Rightarrow> nat" where "vq_pos n c = unat c mod n"
definition vq_used :: "nat \<Rightarrow> u16 \<Rightarrow> u16 \<Rightarrow> nat" where "vq_used n l c = unat (c - l)"

lemma unat_distance: "unat (c - l :: u16) = (unat c + 65536 - unat l) mod 65536"
proof (cases "unat l \<le> unat c")
  case True
  then have e: "unat c - unat l + 65536 = unat c + 65536 - unat l" by simp
  have "unat (c - l) = unat c - unat l" using True by (simp add: unat_sub_if')
  also have "\<dots> = (unat c - unat l + 65536) mod 65536" using unat_bound [of c] by simp
  finally show ?thesis unfolding e .
next
  case False
  then show ?thesis using unat_bound [of l] by (simp add: unat_sub_if')
qed

interpretation vc: modular_counter unat vq_add vq_pos vq_used "\<lambda>n c. True" ring_size_ok "\<lambda>n. 65536"
proof
  fix N n and a b l c :: u16
  show "unat a = unat b \<Longrightarrow> a = b" by (simp add: word_unat_eq_iff)
  assume s: "ring_size_ok N"
  show "0 < N" "N dvd 65536" using ring_size_bounds [OF s] by simp_all
  show "(0 :: nat) < 65536" by simp
  show "True \<longleftrightarrow> unat c < 65536" using unat_bound [of c] by simp
  show "unat (vq_add N c n) = (unat c + n) mod 65536" by (simp add: vq_add_def unat_word_ariths unat_of_nat mod_add_right_eq)
  show "vq_pos N c = unat c mod N" by (simp add: vq_pos_def)
  show "vq_used N l c = (unat c + 65536 - unat l) mod 65536"
    unfolding vq_used_def by (rule unat_distance)
qed

lemma mask_pos:
  assumes "ring_size_ok (unat n)"
  shows "unat (ucast (c :: u16) AND (n - 1) :: u32) = vq_pos (unat n) c"
proof -
  obtain k where k: "k \<le> 15" "unat n = 2 ^ k" using assms by (auto simp: ring_size_ok_def)
  have "n = of_nat (unat n)" by simp
  then have "n = 2 ^ k" by (simp only: k(2) of_nat_power of_nat_numeral)
  then have "n - 1 = mask k" by (simp add: mask_eq_decr_exp)
  then show ?thesis
    using unat_bound [of c]
    by (simp add: vq_pos_def k(2) take_bit_eq_mask [symmetric] unsigned_take_bit_eq unsigned_ucast_eq take_bit_nat_def)
qed

text \<open>The next entry of the used ring.\<close>

definition next_used :: "vring_virtqueue \<Rightarrow> vring_used_elem" where
  "next_used vq = u_ring (used (vring vq)) (vq_pos (vring_num vq) (last_used_idx vq))"

lemma virtq_wf_cong:
  "virtq_wf F B V vq \<Longrightarrow> num (vring vq') = num (vring vq) \<Longrightarrow> desc (vring vq') = desc (vring vq) \<Longrightarrow> heap vq' = heap vq \<Longrightarrow>
     free_head vq' = free_head vq \<Longrightarrow> num_free vq' = num_free vq \<Longrightarrow> data vq' = data vq \<Longrightarrow> kmalloc vq' = kmalloc vq \<Longrightarrow>
     dma_map vq' = dma_map vq \<Longrightarrow> indirect vq' = indirect vq \<Longrightarrow> virtq_wf F B V vq'"
  by (simp add: virtq_wf_def vring_num_def)

text \<open>
  The branches of a look at the used ring: nothing new, an entry that names no buffer in flight, a
  buffer that is done. In the last case only the cell behind the avail ring may change in the shared
  memory beside the descriptors.
\<close>

definition same_avail :: "vring_virtqueue \<Rightarrow> vring_virtqueue \<Rightarrow> bool" where
  "same_avail vq vq' \<longleftrightarrow> num (vring vq') = num (vring vq) \<and> a_flags (avail (vring vq')) = a_flags (avail (vring vq)) \<and>
     a_idx (avail (vring vq')) = a_idx (avail (vring vq)) \<and>
     (\<forall>i < vring_num vq. a_ring (avail (vring vq')) i = a_ring (avail (vring vq)) i)"

lemma get_nothing:
  "broken vq \<or> last_used_idx vq = u_idx (used (vring vq)) \<Longrightarrow> vca_virtqueue_get_buf len vq = Some (Ret (0, len, vq))"
  by (auto simp: vca_virtqueue_get_buf_def more_used_def)

lemma get_bad:
  assumes "virtq_wf F B V vq" and "\<not> broken vq" and "last_used_idx vq \<noteq> u_idx (used (vring vq))"
    and "vring_num vq \<le> unat (ue_id (next_used vq)) \<or> data vq (unat (ue_id (next_used vq))) = 0"
  shows "vca_virtqueue_get_buf len vq = Some (Ret (0, ue_len (next_used vq), vq\<lparr>broken := True\<rparr>))"
proof -
  have "ring_size_ok (unat (num (vring vq)))" using assms(1) by (simp add: virtq_wf_def vring_num_def)
  note m = mask_pos [OF this]
  show ?thesis using assms(2-4)
    by (simp add: vca_virtqueue_get_buf_def more_used_def m next_used_def vring_num_def word_le_nat_alt Let_def)
qed

lemma get_done:
  assumes "virtq_wf F B V vq" and "\<not> broken vq" and "last_used_idx vq \<noteq> u_idx (used (vring vq))"
    and "h = unat (ue_id (next_used vq))" and "h < vring_num vq" and "data vq h \<noteq> 0"
  shows "\<exists>vq'. vca_virtqueue_get_buf len vq = Some (Ret (data vq h, ue_len (next_used vq), vq')) \<and>
    virtq_wf (B h @ F) (B(h := [])) V vq' \<and> data vq' = (data vq)(h := 0) \<and> same_avail vq vq' \<and>
    used (vring vq') = used (vring vq) \<and> last_used_idx vq' = last_used_idx vq + 1 \<and> broken vq' = False \<and>
    num_added vq' = num_added vq \<and> kmalloc vq' = kmalloc vq \<and> dma_map vq' = dma_map vq \<and> notify vq' = notify vq \<and>
    dma_log vq' = dma_log vq @ (if dma_map vq then unmaps (V h) else []) \<and>
    (a_flags (avail (vring vq)) AND VRING_AVAIL_F_NO_INTERRUPT = 0 \<longrightarrow>
       vring_used_event (vring vq') = last_used_idx vq + 1)"
proof -
  from detach_buf_ok [OF assms(1,5,6)] obtain vq1 where d: "detach_buf h vq = Some (Ret vq1)"
    "virtq_wf (B h @ F) (B(h := [])) V vq1" "same_queue vq vq1" "data vq1 = (data vq)(h := 0)"
    "dma_log vq1 = dma_log vq @ (if dma_map vq then unmaps (V h) else [])" by blast
  note sq = d(3) [unfolded same_queue_def]
  let ?vq2 = "vq1\<lparr>last_used_idx := last_used_idx vq1 + 1\<rparr>"
  let ?vq3 = "if a_flags (avail (vring vq)) AND VRING_AVAIL_F_NO_INTERRUPT = 0
    then ?vq2\<lparr>vring := set_used_event (last_used_idx vq + 1) (vring vq1)\<rparr> else ?vq2"
  have "ring_size_ok (unat (num (vring vq)))" using assms(1) by (simp add: virtq_wf_def vring_num_def)
  note m = mask_pos [OF this]
  have "vca_virtqueue_get_buf len vq = Some (Ret (data vq h, ue_len (next_used vq), ?vq3))"
    using assms(2-6) d(1) sq
    by (simp add: vca_virtqueue_get_buf_def more_used_def m next_used_def vring_num_def word_le_nat_alt Let_def)
  moreover have "virtq_wf (B h @ F) (B(h := [])) V ?vq3"
    by (rule virtq_wf_cong [OF d(2)]) (simp_all add: set_used_event_def)
  ultimately show ?thesis using d(4,5) sq assms(2)
    by (intro exI [of _ ?vq3]) (auto simp: same_avail_def set_used_event_def vring_used_event_def vring_num_def)
qed

end
