(* ===== verification/Virtq_Add.thy ===== *)
theory Virtq_Add
  imports Virtq_Facts
begin

text \<open>
  Adding a buffer to a virtqueue: the scatter lists after their mapping for DMA, and that the driver's
  invariant holds after \<open>virtqueue_add\<close>, with a direct chain or an indirect table, or after its failure.
\<close>

section \<open>Scatter lists mapped for DMA\<close>

definition mapped_entry :: "scatterlist \<Rightarrow> scatterlist \<Rightarrow> bool" where
  "mapped_entry s s' \<longleftrightarrow> s' = s\<lparr>sg_dma := sg_dma s'\<rparr>"

definition entries_of :: "scatterlist list \<Rightarrow> scatterlist list" where
  "entries_of sg = (case sg_entries sg of Abort \<Rightarrow> [] | Ret es \<Rightarrow> es)"

definition map_events :: "dma_data_direction \<Rightarrow> scatterlist list \<Rightarrow> map_event list" where
  "map_events dir es = map (\<lambda>s. Dma_mapped (sg_dma s) (sg_length s) dir) es"

lemma entries_of_Ret [simp]: "sg_entries sg = Ret es \<Longrightarrow> entries_of sg = es"
  by (simp add: entries_of_def)

lemma mapped_entry_end: "mapped_entry s s' \<Longrightarrow> sg_end s' = sg_end s"
  unfolding mapped_entry_def by (metis scatterlist.select_convs(4) scatterlist.surjective scatterlist.update_convs(3))

lemma dma_map_loop_ok:
  "\<exists>r zs log'. dma_map_loop f dir xs ss ret log = (r, xs @ zs, log') \<and> list_all2 mapped_entry ss zs \<and>
     (r = ret \<or> r = - ENOMEM) \<and> (r = 0 \<longrightarrow> ret = 0 \<and> log' = log @ map_events dir zs)"
proof (induction ss arbitrary: xs ret log)
  case Nil
  then show ?case by (simp add: map_events_def)
next
  case (Cons s ss)
  let ?a = "f log (sg_phys s) (sg_length s) dir"
  let ?s = "s\<lparr>sg_dma := ?a\<rparr>"
  have m: "mapped_entry s ?s" by (simp add: mapped_entry_def)
  show ?case
  proof (cases "?a = 0")
    case True
    from Cons.IH [of "xs @ [?s]" "- ENOMEM" "unmap_entries dir xs log"] obtain r zs log' where
      "dma_map_loop f dir (xs @ [?s]) ss (- ENOMEM) (unmap_entries dir xs log) = (r, (xs @ [?s]) @ zs, log')"
      "list_all2 mapped_entry ss zs" "r = - ENOMEM \<or> r = - ENOMEM" "r = 0 \<longrightarrow> (- ENOMEM :: int) = 0" by blast
    then show ?thesis using True m by (intro exI [of _ r] exI [of _ "?s # zs"]) (simp add: ENOMEM_def)
  next
    case False
    from Cons.IH [of "xs @ [?s]" ret "log @ [Dma_mapped ?a (sg_length s) dir]"] obtain r zs log' where
      "dma_map_loop f dir (xs @ [?s]) ss ret (log @ [Dma_mapped ?a (sg_length s) dir]) = (r, (xs @ [?s]) @ zs, log')"
      "list_all2 mapped_entry ss zs" "r = ret \<or> r = - ENOMEM"
      "r = 0 \<longrightarrow> ret = 0 \<and> log' = (log @ [Dma_mapped ?a (sg_length s) dir]) @ map_events dir zs" by blast
    then show ?thesis using False m by (intro exI [of _ r] exI [of _ "?s # zs"]) (simp add: map_events_def)
  qed
qed

lemma walk_mapped:
  "sg_walk sg = Ret es \<Longrightarrow> list_all2 mapped_entry es zs \<Longrightarrow> sg_walk (zs @ drop (length es) sg) = Ret zs"
proof (induction sg arbitrary: es zs)
  case (Cons s ss)
  show ?case
  proof (cases "sg_end s")
    case True
    then show ?thesis using Cons.prems by (auto simp: list_all2_Cons1 mapped_entry_end)
  next
    case False
    then obtain es' where "sg_walk ss = Ret es'" "es = s # es'" using Cons.prems(1) by (auto split: outcome.splits)
    then show ?thesis using Cons False by (auto simp: list_all2_Cons1 mapped_entry_end)
  qed
qed simp

lemma walk_nonempty: "sg_walk sg = Ret es \<Longrightarrow> es \<noteq> []"
  by (cases sg) (auto split: if_splits outcome.splits)

lemma entries_mapped:
  assumes "sg_entries sg = Ret es" and "list_all2 mapped_entry es zs"
  shows "sg_entries (zs @ drop (length es) sg) = Ret zs"
proof (cases "sg = []")
  case False
  then have w: "sg_walk sg = Ret es" using assms(1) by (simp add: sg_entries_def)
  then have "zs \<noteq> []" using walk_nonempty [OF w] assms(2) by auto
  then show ?thesis using walk_mapped [OF w assms(2)] by (simp add: sg_entries_def)
qed (use assms in \<open>auto simp: sg_entries_def\<close>)

lemma unmap_lists_ok: "\<forall>p \<in> set pre. sg_entries (fst p) \<noteq> Abort \<Longrightarrow> \<exists>log'. unmap_lists pre log = Ret log'"
  by (induction pre arbitrary: log) (auto simp: dma_unmap_sg_def split: outcome.splits)

text \<open>Two lists with the same entries up to the bus addresses.\<close>

definition mapped_list :: "scatterlist list \<Rightarrow> scatterlist list \<Rightarrow> bool" where
  "mapped_list sg sg' \<longleftrightarrow> (\<exists>es es'. sg_entries sg = Ret es \<and> sg_entries sg' = Ret es' \<and> list_all2 mapped_entry es es')"

lemma map_lists_ok:
  "\<forall>p \<in> set pre. sg_entries (fst p) \<noteq> Abort \<Longrightarrow> \<forall>p \<in> set sgs. sg_entries (fst p) \<noteq> Abort \<Longrightarrow>
   \<exists>rc sgs' log'. map_lists f pre sgs log = Ret (rc, map fst pre @ sgs', log') \<and> length sgs' = length sgs \<and>
     (rc = 0 \<longrightarrow> list_all2 mapped_list (map fst sgs) sgs' \<and>
        log' = log @ concat (map2 (\<lambda>dir sg. map_events dir (entries_of sg)) (map snd sgs) sgs'))"
proof (induction sgs arbitrary: pre log)
  case (Cons p sgs)
  obtain sg dir where p: "p = (sg, dir)" by (cases p)
  then obtain es where e: "sg_entries sg = Ret es" using Cons.prems(2) by (cases "sg_entries sg") auto
  obtain rc zs log1 where l: "dma_map_loop f dir [] es 0 log = (rc, zs, log1)" "list_all2 mapped_entry es zs"
    "rc = 0 \<longrightarrow> log1 = log @ map_events dir zs"
    using dma_map_loop_ok [of f dir "[]" es 0 log] by auto
  let ?sg = "zs @ drop (length es) sg"
  have e': "sg_entries ?sg = Ret zs" by (rule entries_mapped [OF e l(2)])
  have en: "mapped_list sg ?sg" "entries_of ?sg = zs" using e e' l(2) by (auto simp: mapped_list_def)
  have m: "dma_map_sg f sg dir log = Ret (rc, ?sg, log1)" using e l(1) by (simp add: dma_map_sg_def)
  show ?case
  proof (cases "rc = 0")
    case True
    have "\<exists>rc sgs' log'. map_lists f (pre @ [(?sg, dir)]) sgs log1 = Ret (rc, map fst (pre @ [(?sg, dir)]) @ sgs', log') \<and>
        length sgs' = length sgs \<and> (rc = 0 \<longrightarrow> list_all2 mapped_list (map fst sgs) sgs' \<and>
        log' = log1 @ concat (map2 (\<lambda>dir sg. map_events dir (entries_of sg)) (map snd sgs) sgs'))"
      using Cons.prems e' by (intro Cons.IH) auto
    then obtain rc2 sgs' log' where
      "map_lists f (pre @ [(?sg, dir)]) sgs log1 = Ret (rc2, map fst (pre @ [(?sg, dir)]) @ sgs', log')"
      "length sgs' = length sgs" "rc2 = 0 \<longrightarrow> list_all2 mapped_list (map fst sgs) sgs' \<and>
        log' = log1 @ concat (map2 (\<lambda>dir sg. map_events dir (entries_of sg)) (map snd sgs) sgs')" by blast
    then show ?thesis using True m en l(3)
      by (intro exI [of _ rc2] exI [of _ "?sg # sgs'"] exI [of _ log']) (auto simp: p)
  next
    case False
    obtain log' where "unmap_lists pre log1 = Ret log'" using unmap_lists_ok [OF Cons.prems(1)] by blast
    then show ?thesis using False m
      by (intro exI [of _ "- ENOMEM"] exI [of _ "?sg # map fst sgs"] exI [of _ log']) (simp add: p ENOMEM_def)
  qed
qed simp

lemma all_entries_concat:
  "all_entries sgs = (if \<forall>sg \<in> set sgs. sg_entries sg \<noteq> Abort then Ret (concat (map entries_of sgs)) else Abort)"
proof (induction sgs)
  case (Cons sg sgs)
  then show ?case by (cases "sg_entries sg") auto
qed simp

lemma mapped_lists_length:
  "list_all2 mapped_list sgs sgs' \<Longrightarrow> (\<forall>sg \<in> set sgs'. sg_entries sg \<noteq> Abort) \<and>
     length (concat (map entries_of sgs')) = length (concat (map entries_of sgs))"
  by (induction rule: list_all2_induct) (auto simp: mapped_list_def dest: list_all2_lengthD)

definition maps :: "buffer \<Rightarrow> map_event list" where
  "maps v = map (\<lambda>(a, l, w). Dma_mapped a l (if w then DMA_FROM_DEVICE else DMA_TO_DEVICE)) v"

text \<open>The lists after \<open>vring_map_sg\<close> has put the end marks.\<close>

definition term_sgs :: "nat \<Rightarrow> nat \<Rightarrow> nat \<Rightarrow> scatterlist list list \<Rightarrow> scatterlist list list outcome" where
  "term_sgs total_sg out_sgs in_sgs sgs =
     (case (if out_sgs = 1 then terminate_first total_sg sgs else Ret sgs) of Abort \<Rightarrow> Abort
      | Ret sgs1 \<Rightarrow> if in_sgs = 1 then terminate_first total_sg sgs1 else Ret sgs1)"

lemma maps_concat:
  "maps (sg_view True w (concat (map entries_of sgs))) =
     concat (map (\<lambda>sg. map_events (if w then DMA_FROM_DEVICE else DMA_TO_DEVICE) (entries_of sg)) sgs)"
  by (induction sgs) (simp_all add: maps_def sg_view_def map_events_def)

lemma buffer_view_concat:
  assumes "\<forall>sg \<in> set sgs. sg_entries sg \<noteq> Abort"
  shows "buffer_view dma sgs k = sg_view dma False (concat (map entries_of (take k sgs))) @
    sg_view dma True (concat (map entries_of (drop k sgs)))"
proof -
  have "all_entries (take k sgs) = Ret (concat (map entries_of (take k sgs)))"
    "all_entries (drop k sgs) = Ret (concat (map entries_of (drop k sgs)))"
    using assms by (auto simp: all_entries_concat dest: in_set_takeD in_set_dropD)
  then show ?thesis by (simp add: buffer_view_def)
qed

lemma map_events_dirs:
  assumes "length sgs = out_sgs + in_sgs" and "\<forall>sg \<in> set sgs. sg_entries sg \<noteq> Abort"
  shows "concat (map2 (\<lambda>dir sg. map_events dir (entries_of sg))
      (replicate out_sgs DMA_TO_DEVICE @ replicate in_sgs DMA_FROM_DEVICE) sgs) = maps (buffer_view True sgs out_sgs)"
proof -
  have app: "maps (v @ w) = maps v @ maps w" for v w by (simp add: maps_def)
  have z: "zip (replicate out_sgs DMA_TO_DEVICE @ replicate in_sgs DMA_FROM_DEVICE) sgs =
      map (Pair DMA_TO_DEVICE) (take out_sgs sgs) @ map (Pair DMA_FROM_DEVICE) (drop out_sgs sgs)"
    using assms(1) by (simp add: zip_append1 zip_replicate1)
  show ?thesis unfolding buffer_view_concat [OF assms(2)] app maps_concat z by (simp add: comp_def)
qed

lemma vring_map_term:
  "term_sgs total_sg out_sgs in_sgs sgs = Ret sgs2 \<Longrightarrow> vring_map_sg sgs total_sg out_sgs in_sgs vq =
     (if \<not> parent vq then Ret (- ENOMEM, sgs2, vq)
      else (case map_lists (dma_map_single vq) []
             (zip sgs2 (replicate out_sgs DMA_TO_DEVICE @ replicate in_sgs DMA_FROM_DEVICE)) (dma_log vq) of
          Abort \<Rightarrow> Abort
        | Ret (rc, sgs3, log) \<Rightarrow> Ret (rc, sgs3, vq\<lparr>dma_log := log\<rparr>)))"
  unfolding vring_map_sg_def term_sgs_def
  by (cases "if out_sgs = 1 then terminate_first total_sg sgs else Ret sgs") (simp_all split del: if_split)

lemma vring_map_ok:
  assumes "term_sgs total_sg out_sgs in_sgs sgs = Ret sgs2" and "length sgs2 = out_sgs + in_sgs"
    and "all_entries sgs2 = Ret es"
  shows "\<exists>rc sgs3 log'. vring_map_sg sgs total_sg out_sgs in_sgs vq = Ret (rc, sgs3, vq\<lparr>dma_log := log'\<rparr>) \<and>
    (rc = 0 \<longrightarrow> (\<exists>es'. all_entries sgs3 = Ret es' \<and> length es' = length es \<and>
       log' = dma_log vq @ maps (buffer_view True sgs3 out_sgs)))"
proof (cases "parent vq")
  case False
  then show ?thesis unfolding vring_map_term [OF assms(1)]
    by (intro exI [of _ "- ENOMEM"] exI [of _ sgs2] exI [of _ "dma_log vq"]) (simp add: ENOMEM_def)
next
  case True
  let ?dirs = "replicate out_sgs DMA_TO_DEVICE @ replicate in_sgs DMA_FROM_DEVICE"
  let ?ps = "zip sgs2 ?dirs"
  have ok: "\<forall>sg \<in> set sgs2. sg_entries sg \<noteq> Abort" "es = concat (map entries_of sgs2)"
    using assms(3) by (auto simp: all_entries_concat split: if_splits)
  have "\<forall>p \<in> set ?ps. sg_entries (fst p) \<noteq> Abort" using ok(1) by (auto dest: set_zip_leftD)
  from map_lists_ok [of "[]", OF _ this, of "dma_map_single vq" "dma_log vq"] obtain rc sgs3 log' where
    m: "map_lists (dma_map_single vq) [] ?ps (dma_log vq) = Ret (rc, sgs3, log')" "length sgs3 = length ?ps"
      "rc = 0 \<longrightarrow> list_all2 mapped_list (map fst ?ps) sgs3 \<and>
        log' = dma_log vq @ concat (map2 (\<lambda>dir sg. map_events dir (entries_of sg)) (map snd ?ps) sgs3)" by auto
  have fs: "map fst ?ps = sgs2" "map snd ?ps = ?dirs" using assms(2) by simp_all
  have "vring_map_sg sgs total_sg out_sgs in_sgs vq = Ret (rc, sgs3, vq\<lparr>dma_log := log'\<rparr>)"
    unfolding vring_map_term [OF assms(1)] using True m(1) by simp
  moreover have "\<exists>es'. all_entries sgs3 = Ret es' \<and> length es' = length es \<and>
       log' = dma_log vq @ maps (buffer_view True sgs3 out_sgs)" if "rc = 0"
  proof -
    have l: "list_all2 mapped_list sgs2 sgs3" "log' = dma_log vq @ concat (map2 (\<lambda>dir sg. map_events dir (entries_of sg)) ?dirs sgs3)"
      using m(3) that by (simp_all only: fs simp_thms)
    note ml = mapped_lists_length [OF l(1)]
    have len: "length sgs3 = out_sgs + in_sgs" using list_all2_lengthD [OF l(1)] assms(2) by simp
    show ?thesis
      using ml map_events_dirs [OF len conjunct1 [OF ml]] l(2) ok(2) by (simp add: all_entries_concat)
  qed
  ultimately show ?thesis by blast
qed

section \<open>A buffer is added\<close>

lemma free_head_idle:
  assumes "parts_ok n d hp fh fr dt (h # ys) B V"
  shows "h = fh" "h < n" "dt h = 0" "B h = []"
proof -
  note p = assms [unfolded parts_ok_def]
  note ms = conjunct1 [OF conjunct2 [OF p]]
  show "h = fh" using p by simp
  show n: "h < n" using parts_distinct(2) [OF ms] by auto
  show z: "dt h = 0"
  proof (rule ccontr)
    assume "dt h \<noteq> 0"
    then have "holds d hp (B h) h (V h)" using p n by auto
    then have "h \<in> set (B h)" unfolding holds_def by (metis hd_in_set)
    then show False using parts_distinct(5) [OF ms n] by auto
  qed
  show "B h = []" using p n z by auto
qed

lemma parts_add:
  assumes "parts_ok n d hp fh fr dt (xs @ ys) B V" and "xs \<noteq> []" and "tok \<noteq> 0"
    and "\<forall>x. x \<notin> set xs \<longrightarrow> d' x = d x" and "linked d' i ys" and "holds d' hp' xs (hd xs) v"
    and "\<forall>a. a \<noteq> d_addr (d' (hd xs)) \<longrightarrow> hp' a = hp a" and "\<not> is_indirect (d' (hd xs)) \<Longrightarrow> hp' = hp"
    and "is_indirect (d' (hd xs)) \<Longrightarrow> hp (d_addr (d' (hd xs))) = None"
  shows "parts_ok n d' hp' i (fr - length xs) (dt(hd xs := tok)) ys (B(hd xs := xs)) (V(hd xs := v))"
proof -
  note p = assms(1) [unfolded parts_ok_def]
  note ms = conjunct1 [OF conjunct2 [OF p]]
  let ?h = "hd xs"
  have "xs @ ys = ?h # (tl xs @ ys)" using assms(2) by (cases xs) auto
  from free_head_idle [OF assms(1) [unfolded this]] have h: "?h = fh" "?h < n" "dt ?h = 0" "B ?h = []" by simp_all
  have m: "mset (ys @ concat (map (B(?h := xs)) [0..<n])) = mset [0..<n]"
    using ms mset_parts_upd [OF h(2), of B xs] h(4) by (simp add: ac_simps)
  have dB: "set xs \<inter> set (B k) = {}" if "k < n" for k using parts_distinct(5) [OF ms that] by auto
  have old: "holds d' hp' (B k) k (V k)" "d' k = d k" if k: "k < n" "dt k \<noteq> 0" for k
  proof -
    have o: "holds d hp (B k) k (V k)" using p k by auto
    then have "k \<in> set (B k)" unfolding holds_def by (metis hd_in_set)
    then show e: "d' k = d k" using dB [OF k(1)] assms(4) by auto
    have "hp' (d_addr (d k)) = hp (d_addr (d k))" if "is_indirect (d k)"
    proof (cases "is_indirect (d' ?h)")
      case True
      have "hp (d_addr (d k)) \<noteq> None" using o that by (auto simp: holds_def)
      then show ?thesis using assms(7,9) True by metis
    qed (simp add: assms(8))
    then have "holds d' hp' (B k) k (V k) = holds d hp (B k) k (V k)"
      using dB [OF k(1)] assms(4) by (intro holds_cong) auto
    then show "holds d' hp' (B k) k (V k)" using o by simp
  qed
  have "if (dt(?h := tok)) k = 0 then (B(?h := xs)) k = [] else holds d' hp' ((B(?h := xs)) k) k ((V(?h := v)) k)"
    if k: "k < n" for k using old [OF k] assms(3,6) p k by auto
  then have holds': "\<forall>k < n. if (dt(?h := tok)) k = 0 then (B(?h := xs)) k = []
    else holds d' hp' ((B(?h := xs)) k) k ((V(?h := v)) k)" by blast
  have ih: "indirect_heads n d' (dt(?h := tok)) = indirect_heads n d dt \<union> (if is_indirect (d' ?h) then {?h} else {})"
  proof -
    have "k \<in> indirect_heads n d' (dt(?h := tok)) \<longleftrightarrow>
        k \<in> indirect_heads n d dt \<union> (if is_indirect (d' ?h) then {?h} else {})" for k
      using old(2) [of k] h assms(3) by (auto simp: indirect_heads_def)
    then show ?thesis by blast
  qed
  have im: "(\<lambda>k. d_addr (d' k)) ` indirect_heads n d dt = (\<lambda>k. d_addr (d k)) ` indirect_heads n d dt"
    using old(2) by (intro image_cong) (auto simp: indirect_heads_def)
  have "inj_on (\<lambda>k. d_addr (d' k)) (indirect_heads n d dt) = inj_on (\<lambda>k. d_addr (d k)) (indirect_heads n d dt)"
    using old(2) by (intro inj_on_cong) (auto simp: indirect_heads_def)
  then have inj: "inj_on (\<lambda>k. d_addr (d' k)) (indirect_heads n d dt)" using p by simp
  have dom: "dom hp = (\<lambda>k. d_addr (d' k)) ` indirect_heads n d dt" using p im by simp
  have "inj_on (\<lambda>k. d_addr (d' k)) (indirect_heads n d' (dt(?h := tok))) \<and>
      dom hp' = (\<lambda>k. d_addr (d' k)) ` indirect_heads n d' (dt(?h := tok))"
  proof (cases "is_indirect (d' ?h)")
    case True
    have "d_addr (d' ?h) \<notin> (\<lambda>k. d_addr (d' k)) ` indirect_heads n d dt" using assms(9) [OF True] dom by auto
    moreover have "dom hp' = insert (d_addr (d' ?h)) (dom hp)"
    proof -
      have "hp' (d_addr (d' ?h)) \<noteq> None" using assms(6) True by (auto simp: holds_def)
      moreover have "\<And>a. a \<noteq> d_addr (d' ?h) \<Longrightarrow> hp' a = hp a" using assms(7) by simp
      ultimately show ?thesis by (auto simp: dom_def) metis+
    qed
    ultimately show ?thesis using inj dom True unfolding ih by auto
  qed (use inj dom ih assms(8) in simp)
  moreover have "length ys = fr - length xs" using p by auto
  ultimately show ?thesis using m holds' assms(5) unfolding parts_ok_def by blast
qed

definition add_ok :: "scatterlist list list \<Rightarrow> nat \<Rightarrow> nat \<Rightarrow> nat \<Rightarrow> nat \<Rightarrow> vring_virtqueue \<Rightarrow> bool" where
  "add_ok sgs total_sg out_sgs in_sgs token vq \<longleftrightarrow> token \<noteq> 0 \<and> 0 < total_sg \<and> total_sg \<le> vring_num vq \<and>
     length sgs = out_sgs + in_sgs \<and>
     (case (if dma_map vq then term_sgs total_sg out_sgs in_sgs sgs else Ret sgs) of Abort \<Rightarrow> False
      | Ret sgs2 \<Rightarrow> (case all_entries sgs2 of Abort \<Rightarrow> False | Ret es \<Rightarrow> length es = total_sg))"

lemma term_sgs_length: "term_sgs t k l sgs = Ret sgs2 \<Longrightarrow> length sgs2 = length sgs"
  by (auto simp: term_sgs_def terminate_first_def split: if_splits outcome.splits list.splits)

lemma snd_call_notify: "snd (call_notify vq) = vq\<lparr>notified := notified vq + 1\<rparr>"
  by (simp add: call_notify_def)

lemma kick_frame:
  "\<exists>m b. snd (vca_virtqueue_kick vq) = vq\<lparr>num_added := 0, notified := m, broken := b\<rparr> \<and>
     ((\<forall>k. notify vq k) \<longrightarrow> b = broken vq)"
proof -
  have id: "vq\<lparr>num_added := 0\<rparr> = vq\<lparr>num_added := 0, notified := notified vq, broken := broken vq\<rparr>"
    by (cases vq) simp
  have nt: "vq\<lparr>num_added := 0, notified := k\<rparr> = vq\<lparr>num_added := 0, notified := k, broken := broken vq\<rparr>" for k
    by (cases vq) simp
  show ?thesis
  proof (cases "fst (vca_virtqueue_kick_prepare vq) \<and> \<not> broken vq \<and> \<not> notify vq (notified vq)")
    case True
    then have "snd (vca_virtqueue_kick vq) = vq\<lparr>num_added := 0, notified := notified vq + 1, broken := True\<rparr>"
      by (simp add: vca_virtqueue_kick_def vca_virtqueue_kick_prepare_def vca_virtqueue_notify_def call_notify_def Let_def)
    then show ?thesis using True by metis
  next
    case False
    then have "\<exists>m. snd (vca_virtqueue_kick vq) = vq\<lparr>num_added := 0, notified := m\<rparr> \<or>
        snd (vca_virtqueue_kick vq) = vq\<lparr>num_added := 0\<rparr>"
      by (auto simp: vca_virtqueue_kick_def vca_virtqueue_kick_prepare_def vca_virtqueue_notify_def call_notify_def Let_def)
    then show ?thesis using id nt by metis
  qed
qed

text \<open>Descriptors linked in order, as in a new table.\<close>

lemma fold_links:
  "fold (\<lambda>i t. t(i := (t i)\<lparr>d_next := of_nat (i + 1)\<rparr>)) [0..<n] t =
     (\<lambda>i. if i < n then (t i)\<lparr>d_next := of_nat (i + 1)\<rparr> else t i)"
proof (induction n)
  case (Suc n)
  show ?case unfolding upt_Suc fold_append comp_apply using Suc by (auto simp: fun_eq_iff less_Suc_eq)
qed auto

lemma linked_upt:
  assumes "\<And>i. m \<le> i \<Longrightarrow> Suc i < n \<Longrightarrow> unat (d_next (t i)) = Suc i"
  shows "linked t m [m..<n]"
  using assms
proof (induction "n - m" arbitrary: m)
  case (Suc k)
  then have mn: "m < n" by simp
  have "linked t (unat (d_next (t m))) [Suc m..<n]"
  proof (cases "Suc m < n")
    case True
    have "linked t (Suc m) [Suc m..<n]" using Suc by (intro Suc.hyps) auto
    then show ?thesis using Suc.prems [of m] True by simp
  qed simp
  then show ?case using mn by (simp add: upt_conv_Cons)
qed simp

lemma alloc_links:
  assumes "alloc_indirect n vq = Some (a, t)" and "n \<le> 32768"
  shows "linked t 0 [0..<n]" "\<exists>t0. kmalloc vq (heap vq) n = Some (a, t0)"
proof -
  obtain t0 where k: "kmalloc vq (heap vq) n = Some (a, t0)"
    "t = fold (\<lambda>i t. t(i := (t i)\<lparr>d_next := of_nat (i + 1)\<rparr>)) [0..<n] t0"
    using assms(1) by (auto simp: alloc_indirect_def split: option.splits)
  show "\<exists>t0. kmalloc vq (heap vq) n = Some (a, t0)" using k by blast
  show "linked t 0 [0..<n]"
  proof (rule linked_upt)
    fix i
    assume "Suc i < n"
    then show "unat (d_next (t i)) = Suc i"
      using assms(2) unfolding k(2) fold_links by (simp add: unat_of_nat del: of_nat_Suc)
  qed
qed

text \<open>A buffer with a table of its own.\<close>

lemma take_indirect:
  assumes "virtq_wf F B V vq" and "go_indirect total_sg vq = Ret (Some a, vq1)" and "total_sg \<le> vring_num vq"
    and "all_entries sgs = Ret es" and "length es = total_sg" and "tok \<noteq> 0"
  shows "\<exists>t' ys. take_descs (Some a) sgs out_sgs (unat (free_head vq)) (vq1\<lparr>num_free := num_free vq1 - 1\<rparr>) =
      Ret (vq1\<lparr>num_free := num_free vq - 1, heap := (heap vq)(a \<mapsto> (total_sg, t')),
        free_head := ucast (d_next (desc (vring vq) (unat (free_head vq))))\<rparr>) \<and> F = unat (free_head vq) # ys \<and>
    virtq_wf ys (B(unat (free_head vq) := [unat (free_head vq)])) (V(unat (free_head vq) := buffer_view False sgs out_sgs))
      (vq1\<lparr>num_free := num_free vq - 1, heap := (heap vq)(a \<mapsto> (total_sg, t')),
        free_head := ucast (d_next (desc (vring vq) (unat (free_head vq)))), data := (data vq)(unat (free_head vq) := tok)\<rparr>) \<and>
    (\<exists>d. vq1 = vq\<lparr>heap := heap vq1, vring := (vring vq)\<lparr>desc := d\<rparr>\<rparr>) \<and> indirect vq \<and> num_free vq \<noteq> 0"
proof -
  let ?n = "vring_num vq" and ?d = "desc (vring vq)" and ?h = "unat (free_head vq)"
  have p: "parts_ok ?n ?d (heap vq) ?h (unat (num_free vq)) (data vq) F B V" and n: "ring_size_ok ?n"
    using assms(1) by (simp_all add: virtq_wf_def)
  note pd = p [unfolded parts_ok_def]
  note ms = conjunct1 [OF conjunct2 [OF pd]]
  note nb = ring_size_bounds [OF n]
  from assms(2) obtain t where g: "indirect vq" "1 < total_sg" "num_free vq \<noteq> 0" "alloc_indirect total_sg vq = Some (a, t)"
    "?h < ?n" and vq1: "vq1 = vq\<lparr>heap := (heap vq)(a \<mapsto> (total_sg, t)),
      vring := (vring vq)\<lparr>desc := ?d(?h := (?d ?h)\<lparr>d_flags := VRING_DESC_F_INDIRECT, d_addr := a, d_len := of_nat (total_sg * 16)\<rparr>)\<rparr>\<rparr>"
    by (auto simp: go_indirect_def Let_def split: if_splits option.splits)
  have "total_sg \<le> 32768" using assms(3) nb by simp
  note al = alloc_links [OF g(4) this]
  have fresh: "heap vq a = None" using al(2) assms(1) by (auto simp: virtq_wf_def)
  have "F \<noteq> []" using pd g(3) by (auto simp: unat_eq_0)
  then obtain ys where F: "F = ?h # ys" using pd by (cases F) auto
  let ?v = "buffer_view False sgs out_sgs"
  have lv: "length ?v = total_sg" using length_buffer_view [OF assms(4)] assms(5) by simp
  from put_buffer_ok [of t 0 "[0..<total_sg]" "[]" total_sg sgs es False out_sgs] al(1) assms(4,5) g(2)
  obtain t' i' where t': "put_buffer total_sg False sgs out_sgs t 0 = Ret (t', i')" "chain t' [0..<total_sg]"
    "view t' [0..<total_sg] = ?v" "\<forall>x \<in> set [0..<total_sg]. \<not> is_indirect (t' x)" by auto
  let ?d' = "desc (vring vq1)" and ?hp = "(heap vq)(a \<mapsto> (total_sg, t'))"
  let ?vq2 = "vq1\<lparr>num_free := num_free vq - 1, heap := ?hp, free_head := ucast (d_next (?d ?h)), data := (data vq)(?h := tok)\<rparr>"
  have dm: "\<not> dma_map vq" using assms(1) g(1) by (auto simp: virtq_wf_def)
  have "take_descs (Some a) sgs out_sgs ?h (vq1\<lparr>num_free := num_free vq1 - 1\<rparr>) =
      Ret (vq1\<lparr>num_free := num_free vq - 1, heap := ?hp, free_head := ucast (d_next (?d ?h))\<rparr>)"
    using t'(1) dm by (simp add: take_descs_def vq1)
  moreover have "virtq_wf ys (B(?h := [?h])) (V(?h := ?v)) ?vq2"
  proof -
    have dh: "?d' ?h = (?d ?h)\<lparr>d_flags := VRING_DESC_F_INDIRECT, d_addr := a, d_len := of_nat (total_sg * 16)\<rparr>"
      by (simp add: vq1)
    have len: "unat (of_nat (total_sg * 16) :: u32) = 16 * length ?v"
      using assms(3) nb lv by (simp add: unat_of_nat del: of_nat_mult)
    have hl: "holds ?d' ?hp [?h] ?h ?v"
      using t' lv g(2) len by (auto simp: holds_def dh has_next_def is_indirect_def virtio_flags)
    have q: "parts_ok ?n ?d' ?hp (unat (d_next (?d ?h))) (unat (num_free vq) - length [?h]) ((data vq)(hd [?h] := tok)) ys
        (B(hd [?h] := [?h])) (V(hd [?h] := ?v))"
    proof (rule parts_add [of ?n ?d "heap vq" ?h])
      show "parts_ok ?n ?d (heap vq) ?h (unat (num_free vq)) (data vq) ([?h] @ ys) B V" using p F by simp
      have "?h \<notin> set ys" using parts_distinct(1) [OF ms] F by simp
      then have "linked ?d' (unat (d_next (?d ?h))) ys = linked ?d (unat (d_next (?d ?h))) ys"
        by (intro linked_cong) (auto simp: vq1)
      then show "linked ?d' (unat (d_next (?d ?h))) ys" using pd F by simp
    qed (use hl assms(6) fresh in \<open>simp_all add: vq1 is_indirect_def virtio_flags\<close>)
    have "unat (num_free vq - 1) = unat (num_free vq) - 1" using g(3) by (simp add: unat_minus_one)
    moreover have "unat (ucast (d_next (?d ?h)) :: u32) = unat (d_next (?d ?h))"
      using unat_bound [of "d_next (?d ?h)"] by (simp add: unsigned_ucast_eq take_bit_nat_eq_self)
    ultimately show ?thesis using q assms(1) dm unfolding virtq_wf_def by (simp add: vring_num_def vq1)
  qed
  ultimately show ?thesis using F g(1,3) by (intro exI [of _ t'] exI [of _ ys]) (auto simp: vq1)
qed

text \<open>A buffer in the table of the ring.\<close>

lemma take_direct:
  assumes "virtq_wf F B V vq" and "all_entries sgs = Ret es" and "length es = total_sg" and "0 < total_sg"
    and "total_sg \<le> unat (num_free vq)" and "tok \<noteq> 0"
  shows "\<exists>d' i' ys xs. take_descs None sgs out_sgs (unat (free_head vq)) (vq\<lparr>num_free := num_free vq - of_nat total_sg\<rparr>) =
      Ret (vq\<lparr>num_free := num_free vq - of_nat total_sg, vring := (vring vq)\<lparr>desc := d'\<rparr>, free_head := of_nat i'\<rparr>) \<and>
    F = xs @ ys \<and> length xs = total_sg \<and>
    virtq_wf ys (B(unat (free_head vq) := xs)) (V(unat (free_head vq) := buffer_view (dma_map vq) sgs out_sgs))
      (vq\<lparr>num_free := num_free vq - of_nat total_sg, vring := (vring vq)\<lparr>desc := d'\<rparr>, free_head := of_nat i',
         data := (data vq)(unat (free_head vq) := tok)\<rparr>)"
proof -
  let ?n = "vring_num vq" and ?d = "desc (vring vq)" and ?h = "unat (free_head vq)"
  have p: "parts_ok ?n ?d (heap vq) ?h (unat (num_free vq)) (data vq) F B V" and n: "ring_size_ok ?n"
    using assms(1) by (simp_all add: virtq_wf_def)
  note pd = p [unfolded parts_ok_def]
  note ms = conjunct1 [OF conjunct2 [OF pd]]
  define xs where "xs = take total_sg F"
  define ys where "ys = drop total_sg F"
  have F: "F = xs @ ys" "length xs = total_sg" using pd assms(5) by (simp_all add: xs_def ys_def)
  have xne: "xs \<noteq> []" using F(2) assms(4) by auto
  have hx: "hd xs = ?h" using pd F(1) xne by (cases xs) auto
  have lt: "\<forall>x \<in> set xs. x < ?n" using parts_distinct(2) [OF ms] F(1) by auto
  have di: "distinct (xs @ ys)" using parts_distinct(1) [OF ms] F(1) by simp
  let ?v = "buffer_view (dma_map vq) sgs out_sgs"
  have lv: "?v \<noteq> []" using length_buffer_view [OF assms(2), of "dma_map vq" out_sgs] assms(3,4) by auto
  from put_buffer_ok [of ?d ?h xs ys ?n sgs es "dma_map vq" out_sgs] pd F assms(2,3) di lt xne
  obtain d' i' where d': "put_buffer ?n (dma_map vq) sgs out_sgs ?d ?h = Ret (d', i')" "linked d' i' ys" "chain d' xs"
    "view d' xs = ?v" "\<forall>x \<in> set xs. \<not> is_indirect (d' x)" "\<forall>x. x \<notin> set xs \<longrightarrow> d' x = ?d x" by auto
  let ?vq2 = "vq\<lparr>num_free := num_free vq - of_nat total_sg, vring := (vring vq)\<lparr>desc := d'\<rparr>, free_head := of_nat i',
      data := (data vq)(?h := tok)\<rparr>"
  have li: "linked d' (unat (of_nat i' :: u32)) ys"
  proof (cases ys)
    case (Cons y zs)
    then have "i' = y" "y < ?n" using d'(2) parts_distinct(2) [OF ms] F(1) by auto
    then show ?thesis using d'(2) ring_size_bounds [OF n] by (simp add: unat_of_nat)
  qed simp
  have nind: "\<not> is_indirect (d' ?h)" using d'(5) hx hd_in_set [OF xne] by metis
  then have "holds d' (heap vq) xs ?h ?v" using d'(3-5) hx lv xne by (simp add: holds_def)
  then have "parts_ok ?n d' (heap vq) (unat (of_nat i' :: u32)) (unat (num_free vq) - length xs)
      ((data vq)(hd xs := tok)) ys (B(hd xs := xs)) (V(hd xs := ?v))"
    using p F(1) xne assms(6) d'(6) li hx nind by (intro parts_add [of ?n ?d "heap vq" ?h]) auto
  moreover have "unat (num_free vq - of_nat total_sg) = unat (num_free vq) - length xs"
  proof -
    have "unat (of_nat total_sg :: u32) = total_sg"
      using assms(5) unat_bound [of "num_free vq"] by (simp add: unat_of_nat)
    then show ?thesis using assms(5) F(2) by (simp add: unat_sub word_le_nat_alt)
  qed
  ultimately have "virtq_wf ys (B(?h := xs)) (V(?h := ?v)) ?vq2"
    using assms(1) hx unfolding virtq_wf_def by (simp add: vring_num_def)
  moreover have "take_descs None sgs out_sgs ?h (vq\<lparr>num_free := num_free vq - of_nat total_sg\<rparr>) =
      Ret (vq\<lparr>num_free := num_free vq - of_nat total_sg, vring := (vring vq)\<lparr>desc := d'\<rparr>, free_head := of_nat i'\<rparr>)"
    using d'(1) by (simp add: take_descs_def vring_num_def)
  ultimately show ?thesis using F by blast
qed

lemma publish_ok:
  assumes "virtq_wf F B V (vq\<lparr>data := (data vq)(head := tok)\<rparr>)"
  shows "virtq_wf F B V (publish head tok vq)" "data (publish head tok vq) = (data vq)(head := tok)"
    "num (vring (publish head tok vq)) = num (vring vq)" "used (vring (publish head tok vq)) = used (vring vq)"
    "a_idx (avail (vring (publish head tok vq))) = a_idx (avail (vring vq)) + 1"
    "a_ring (avail (vring (publish head tok vq))) = (a_ring (avail (vring vq)))
       (vq_pos (vring_num vq) (a_idx (avail (vring vq))) := of_nat head)"
    "last_used_idx (publish head tok vq) = last_used_idx vq" "dma_log (publish head tok vq) = dma_log vq"
    "dma_map (publish head tok vq) = dma_map vq" "kmalloc (publish head tok vq) = kmalloc vq"
    "notify (publish head tok vq) = notify vq" "(\<forall>k. notify vq k) \<longrightarrow> broken (publish head tok vq) = broken vq"
proof -
  let ?w = "make_avail head (vq\<lparr>data := (data vq)(head := tok)\<rparr>)"
  obtain m b where k: "snd (vca_virtqueue_kick ?w) = ?w\<lparr>num_added := 0, notified := m, broken := b\<rparr>"
    "(\<forall>k. notify ?w k) \<longrightarrow> b = broken ?w"
    using kick_frame by blast
  have "ring_size_ok (unat (num (vring vq)))" using assms by (simp add: virtq_wf_def vring_num_def)
  note mp = mask_pos [OF this]
  have eq: "publish head tok vq = (if num_added ?w = 65535 then ?w\<lparr>num_added := 0, notified := m, broken := b\<rparr> else ?w)"
    by (simp add: publish_def k(1) Let_def)
  show "virtq_wf F B V (publish head tok vq)"
    by (rule virtq_wf_cong [OF assms]) (simp_all add: eq make_avail_def Let_def)
  show "data (publish head tok vq) = (data vq)(head := tok)"
    "num (vring (publish head tok vq)) = num (vring vq)" "used (vring (publish head tok vq)) = used (vring vq)"
    "a_idx (avail (vring (publish head tok vq))) = a_idx (avail (vring vq)) + 1"
    "a_ring (avail (vring (publish head tok vq))) = (a_ring (avail (vring vq)))
       (vq_pos (vring_num vq) (a_idx (avail (vring vq))) := of_nat head)"
    "last_used_idx (publish head tok vq) = last_used_idx vq" "dma_log (publish head tok vq) = dma_log vq"
    "dma_map (publish head tok vq) = dma_map vq" "kmalloc (publish head tok vq) = kmalloc vq"
    "notify (publish head tok vq) = notify vq" "(\<forall>k. notify vq k) \<longrightarrow> broken (publish head tok vq) = broken vq"
    using k(2) by (simp_all add: eq make_avail_def Let_def mp vring_num_def)
qed

text \<open>
  The two outcomes of an addition. In the first the buffer \<open>v\<close> starts at the first free descriptor,
  which is entered into the avail ring; in the second nothing changed but the log of mappings and
  the number of notifications.
\<close>

definition buf_added :: "nat list \<Rightarrow> (nat \<Rightarrow> nat list) \<Rightarrow> (nat \<Rightarrow> buffer) \<Rightarrow> vring_virtqueue \<Rightarrow> buffer \<Rightarrow> nat \<Rightarrow> vring_virtqueue \<Rightarrow> bool" where
  "buf_added F B V vq v tok vq' \<longleftrightarrow> (let h = unat (free_head vq); av = avail (vring vq) in
     h < vring_num vq \<and> data vq h = 0 \<and> (\<exists>xs ys. F = xs @ ys \<and> xs \<noteq> [] \<and> virtq_wf ys (B(h := xs)) (V(h := v)) vq') \<and>
     data vq' = (data vq)(h := tok) \<and> num (vring vq') = num (vring vq) \<and> used (vring vq') = used (vring vq) \<and>
     a_idx (avail (vring vq')) = a_idx av + 1 \<and>
     a_ring (avail (vring vq')) = (a_ring av)(vq_pos (vring_num vq) (a_idx av) := of_nat h) \<and>
     last_used_idx vq' = last_used_idx vq \<and> dma_map vq' = dma_map vq \<and> kmalloc vq' = kmalloc vq \<and>
     length v \<le> vring_num vq \<and> notify vq' = notify vq \<and> ((\<forall>k. notify vq k) \<longrightarrow> broken vq' = broken vq) \<and>
     dma_log vq' = dma_log vq @ (if dma_map vq then maps v else []))"

definition refused :: "nat \<Rightarrow> vring_virtqueue \<Rightarrow> int \<Rightarrow> vring_virtqueue \<Rightarrow> bool" where
  "refused n vq rc vq' \<longleftrightarrow> (rc = - EIO \<and> broken vq \<and> vq' = vq \<or>
     rc = - ENOSPC \<and> \<not> broken vq \<and> unat (num_free vq) < n \<and> (\<exists>k. vq' = vq\<lparr>notified := k\<rparr>) \<or>
     rc = - ENOMEM \<and> \<not> broken vq \<and> dma_map vq \<and> (\<exists>log. vq' = vq\<lparr>dma_log := log\<rparr>))"

lemma head_in_range:
  "virtq_wf (x # F) B V vq \<Longrightarrow> unat (free_head vq) < vring_num vq \<and> data vq (unat (free_head vq)) = 0"
  using free_head_idle [of "vring_num vq" "desc (vring vq)" "heap vq" "unat (free_head vq)" "unat (num_free vq)" "data vq" x F B V]
  by (simp add: virtq_wf_def)

lemma add_direct:
  assumes "virtq_wf F B V vq" and "add_ok sgs total_sg out_sgs in_sgs tok vq" and "\<not> broken vq"
    and "go_indirect total_sg vq = Ret (None, vq)"
  shows "\<exists>rc sgs' vq'. virtqueue_add sgs total_sg out_sgs in_sgs tok vq = Ret (rc, sgs', vq') \<and>
    (if rc = 0 then total_sg \<le> unat (num_free vq) \<and> buf_added F B V vq (buffer_view (dma_map vq) sgs' out_sgs) tok vq'
     else refused total_sg vq rc vq')"
proof (cases "unat (num_free vq) < total_sg")
  case True
  then have "virtqueue_add sgs total_sg out_sgs in_sgs tok vq =
      Ret (- ENOSPC, sgs, if out_sgs \<noteq> 0 then vq\<lparr>notified := notified vq + 1\<rparr> else vq)"
    using assms(2-4) by (simp add: virtqueue_add_def add_ok_def snd_call_notify Let_def)
  moreover have "refused total_sg vq (- ENOSPC) (if out_sgs \<noteq> 0 then vq\<lparr>notified := notified vq + 1\<rparr> else vq)"
    using assms(3) True by (auto simp: refused_def intro: exI [of _ "notified vq"])
  ultimately show ?thesis using True by (simp add: ENOSPC_def)
next
  case False
  note ok = assms(2) [unfolded add_ok_def]
  let ?dma = "if dma_map vq then vring_map_sg sgs total_sg out_sgs in_sgs vq else Ret (0, sgs, vq)"
  have "\<exists>rc sgs3 log'. ?dma = Ret (rc, sgs3, vq\<lparr>dma_log := log'\<rparr>) \<and> (rc \<noteq> 0 \<longrightarrow> dma_map vq) \<and>
      (rc = 0 \<longrightarrow> (\<exists>es'. all_entries sgs3 = Ret es' \<and> length es' = total_sg \<and>
         log' = dma_log vq @ (if dma_map vq then maps (buffer_view True sgs3 out_sgs) else [])))"
  proof (cases "dma_map vq")
    case True
    then obtain sgs2 es where t: "term_sgs total_sg out_sgs in_sgs sgs = Ret sgs2" "all_entries sgs2 = Ret es" "length es = total_sg"
      using ok by (auto split: outcome.splits)
    have "length sgs2 = out_sgs + in_sgs" using term_sgs_length [OF t(1)] ok by simp
    from vring_map_ok [OF t(1) this t(2), of vq] show ?thesis using True t(3) by auto
  next
    case False
    then obtain es where "all_entries sgs = Ret es" "length es = total_sg" using ok by (auto split: outcome.splits)
    then show ?thesis using False by (intro exI [of _ 0] exI [of _ sgs] exI [of _ "dma_log vq"]) simp
  qed
  then obtain rc sgs3 log' where m: "?dma = Ret (rc, sgs3, vq\<lparr>dma_log := log'\<rparr>)" "rc \<noteq> 0 \<longrightarrow> dma_map vq"
    "rc = 0 \<longrightarrow> (\<exists>es'. all_entries sgs3 = Ret es' \<and> length es' = total_sg \<and>
         log' = dma_log vq @ (if dma_map vq then maps (buffer_view True sgs3 out_sgs) else []))" by blast
  let ?vq = "vq\<lparr>dma_log := log'\<rparr>"
  let ?h = "unat (free_head vq)"
  have addn: "virtqueue_add sgs total_sg out_sgs in_sgs tok vq = Ret (- ENOMEM, sgs3, ?vq)" if "rc \<noteq> 0"
    using that False ok assms(3,4) m(1) by (simp add: virtqueue_add_def Let_def)
  have add: "virtqueue_add sgs total_sg out_sgs in_sgs tok vq =
      (case take_descs None sgs3 out_sgs ?h (?vq\<lparr>num_free := num_free ?vq - of_nat total_sg\<rparr>) of
          Abort \<Rightarrow> Abort | Ret vq3 \<Rightarrow> if vring_num vq3 \<le> ?h then Abort else Ret (0, sgs3, publish ?h tok vq3))"
    if "rc = 0" using that False ok assms(3,4) m(1) by (simp add: virtqueue_add_def Let_def)
  show ?thesis
  proof (cases "rc = 0")
    case rc: True
    then obtain es' where e: "all_entries sgs3 = Ret es'" "length es' = total_sg"
      "log' = dma_log vq @ (if dma_map vq then maps (buffer_view True sgs3 out_sgs) else [])" using m(3) by blast
    have wf: "virtq_wf F B V ?vq" by (rule virtq_wf_cong [OF assms(1)]) simp_all
    have "0 < total_sg" "total_sg \<le> unat (num_free ?vq)" "tok \<noteq> 0" using ok False by auto
    from take_direct [OF wf e(1,2) this, of out_sgs] obtain d' i' ys xs where
      t: "take_descs None sgs3 out_sgs ?h (?vq\<lparr>num_free := num_free ?vq - of_nat total_sg\<rparr>) =
        Ret (?vq\<lparr>num_free := num_free ?vq - of_nat total_sg, vring := (vring ?vq)\<lparr>desc := d'\<rparr>, free_head := of_nat i'\<rparr>)"
      "F = xs @ ys" "length xs = total_sg"
      "virtq_wf ys (B(?h := xs)) (V(?h := buffer_view (dma_map vq) sgs3 out_sgs))
         (?vq\<lparr>num_free := num_free ?vq - of_nat total_sg, vring := (vring ?vq)\<lparr>desc := d'\<rparr>, free_head := of_nat i',
            data := (data vq)(?h := tok)\<rparr>)" by auto
    let ?vq3 = "?vq\<lparr>num_free := num_free ?vq - of_nat total_sg, vring := (vring ?vq)\<lparr>desc := d'\<rparr>, free_head := of_nat i'\<rparr>"
    have xne: "xs \<noteq> []" using t(3) ok by auto
    then obtain x zs where "F = x # zs" using t(2) by (cases xs) auto
    then have hr: "?h < vring_num vq" "data vq ?h = 0" using head_in_range assms(1) by auto
    have "virtqueue_add sgs total_sg out_sgs in_sgs tok vq = Ret (0, sgs3, publish ?h tok ?vq3)"
      unfolding add [OF rc] t(1) using hr(1) by (simp add: vring_num_def)
    moreover have "buf_added F B V vq (buffer_view (dma_map vq) sgs3 out_sgs) tok (publish ?h tok ?vq3)"
    proof -
      have "virtq_wf ys (B(?h := xs)) (V(?h := buffer_view (dma_map vq) sgs3 out_sgs)) (?vq3\<lparr>data := (data ?vq3)(?h := tok)\<rparr>)"
        using t(4) by simp
      note pb = publish_ok [OF this]
      have "\<exists>us zs. F = us @ zs \<and> us \<noteq> [] \<and>
          virtq_wf zs (B(?h := us)) (V(?h := buffer_view (dma_map vq) sgs3 out_sgs)) (publish ?h tok ?vq3)"
        using pb(1) t(2) xne by blast
      moreover have "length (buffer_view (dma_map vq) sgs3 out_sgs) \<le> vring_num vq"
        using length_buffer_view [OF e(1)] e(2) ok by simp
      moreover have lg: "log' = dma_log vq @ (if dma_map vq then maps (buffer_view (dma_map vq) sgs3 out_sgs) else [])"
        using e(3) by (cases "dma_map vq") simp_all
      ultimately show ?thesis unfolding buf_added_def Let_def
        using pb(2-) hr lg by (simp add: vring_num_def split del: if_split)
    qed
    ultimately show ?thesis using False by (intro exI [of _ 0]) auto
  next
    case rc: False
    then have "virtqueue_add sgs total_sg out_sgs in_sgs tok vq = Ret (- ENOMEM, sgs3, ?vq)" by (rule addn)
    then show ?thesis using rc m(2) assms(3) False by (auto simp: refused_def ENOMEM_def ENOSPC_def)
  qed
qed

lemma virtqueue_add_ok:
  assumes "virtq_wf F B V vq" and "add_ok sgs total_sg out_sgs in_sgs tok vq"
  shows "\<exists>rc sgs' vq'. virtqueue_add sgs total_sg out_sgs in_sgs tok vq = Ret (rc, sgs', vq') \<and>
    (if rc = 0 then \<not> broken vq \<and> buf_added F B V vq (buffer_view (dma_map vq) sgs' out_sgs) tok vq' else refused total_sg vq rc vq')"
proof (cases "broken vq")
  case True
  then have "virtqueue_add sgs total_sg out_sgs in_sgs tok vq = Ret (- EIO, sgs, vq)"
    using assms(2) by (simp add: virtqueue_add_def add_ok_def)
  then show ?thesis using True by (simp add: refused_def EIO_def)
next
  case nb: False
  note ok = assms(2) [unfolded add_ok_def]
  show ?thesis
  proof (cases "\<exists>a vq1. go_indirect total_sg vq = Ret (Some a, vq1)")
    case True
    then obtain a vq1 where g: "go_indirect total_sg vq = Ret (Some a, vq1)" by blast
    then have ind: "indirect vq" by (auto simp: go_indirect_def split: if_splits)
    then have dm: "\<not> dma_map vq" using assms(1) by (auto simp: virtq_wf_def)
    then obtain es where es: "all_entries sgs = Ret es" "length es = total_sg" using ok by (auto split: outcome.splits)
    let ?h = "unat (free_head vq)"
    have "total_sg \<le> vring_num vq" "tok \<noteq> 0" using ok by simp_all
    from take_indirect [OF assms(1) g this(1) es this(2), of out_sgs] obtain t' ys d where
      t: "take_descs (Some a) sgs out_sgs ?h (vq1\<lparr>num_free := num_free vq1 - 1\<rparr>) =
        Ret (vq1\<lparr>num_free := num_free vq - 1, heap := (heap vq)(a \<mapsto> (total_sg, t')),
          free_head := ucast (d_next (desc (vring vq) ?h))\<rparr>)" "F = ?h # ys"
      "virtq_wf ys (B(?h := [?h])) (V(?h := buffer_view False sgs out_sgs))
        (vq1\<lparr>num_free := num_free vq - 1, heap := (heap vq)(a \<mapsto> (total_sg, t')),
          free_head := ucast (d_next (desc (vring vq) ?h)), data := (data vq)(?h := tok)\<rparr>)"
      and vq1: "vq1 = vq\<lparr>heap := heap vq1, vring := (vring vq)\<lparr>desc := d\<rparr>\<rparr>" and nz: "num_free vq \<noteq> 0" by blast
    let ?vq3 = "vq1\<lparr>num_free := num_free vq - 1, heap := (heap vq)(a \<mapsto> (total_sg, t')),
          free_head := ucast (d_next (desc (vring vq) ?h))\<rparr>"
    have f1: "num_free vq1 = num_free vq" "dma_map vq1 = dma_map vq" "vring_num vq1 = vring_num vq" "data vq1 = data vq"
      "avail (vring vq1) = avail (vring vq)" "used (vring vq1) = used (vring vq)" "num (vring vq1) = num (vring vq)"
      "last_used_idx vq1 = last_used_idx vq" "dma_log vq1 = dma_log vq" "kmalloc vq1 = kmalloc vq"
      "notify vq1 = notify vq" "broken vq1 = broken vq"
      by (subst vq1, simp add: vring_num_def)+
    have hr: "?h < vring_num vq" "data vq ?h = 0" using head_in_range assms(1) t(2) by auto
    have nf: "\<not> unat (num_free vq) < 1" using nz by (simp add: unat_eq_0)
    have "virtqueue_add sgs total_sg out_sgs in_sgs tok vq = Ret (0, sgs, publish ?h tok ?vq3)"
    proof -
      have "vring_num ?vq3 = vring_num vq" using f1(3) by (simp add: vring_num_def)
      then show ?thesis using nb ok g dm nf f1(1,2) t(1) hr(1) by (simp add: virtqueue_add_def Let_def)
    qed
    moreover have "buf_added F B V vq (buffer_view (dma_map vq) sgs out_sgs) tok (publish ?h tok ?vq3)"
    proof -
      have "virtq_wf ys (B(?h := [?h])) (V(?h := buffer_view False sgs out_sgs)) (?vq3\<lparr>data := (data ?vq3)(?h := tok)\<rparr>)"
        using t(3) f1(4) by simp
      note pb = publish_ok [OF this]
      have "\<exists>xs zs. F = xs @ zs \<and> xs \<noteq> [] \<and> virtq_wf zs (B(?h := xs)) (V(?h := buffer_view False sgs out_sgs)) (publish ?h tok ?vq3)"
        using pb(1) t(2) by (intro exI [of _ "[?h]"] exI [of _ ys]) simp
      moreover have "length (buffer_view False sgs out_sgs) \<le> vring_num vq"
        using length_buffer_view [OF es(1)] es(2) ok by simp
      ultimately show ?thesis unfolding buf_added_def Let_def using pb hr dm f1 by (simp add: vring_num_def)
    qed
    ultimately show ?thesis using nb by (intro exI [of _ 0] exI [of _ sgs]) simp
  next
    case False
    have "go_indirect total_sg vq = Ret (None, vq)"
    proof (cases "indirect vq \<and> 1 < total_sg \<and> num_free vq \<noteq> 0")
      case True
      have "vring_num vq > unat (free_head vq)"
      proof -
        have "F \<noteq> []" using assms(1) True by (auto simp: virtq_wf_def parts_ok_def unat_eq_0)
        then show ?thesis using head_in_range assms(1) by (cases F) auto
      qed
      then show ?thesis using False True by (auto simp: go_indirect_def Let_def split: option.splits)
    qed (auto simp: go_indirect_def)
    from add_direct [OF assms nb this] show ?thesis using nb by (metis (lifting))
  qed
qed

end
