(* ===== verification/Virtq_Props.thy ===== *)
theory Virtq_Props
  imports Virtq_Add
begin

text \<open>
  Runs of the driver's operations on a virtqueue, with a device that writes whatever it likes into the
  used ring between them, and the properties of the single operations.
\<close>

section \<open>Tokens in flight\<close>

definition tokens :: "vring_virtqueue \<Rightarrow> nat multiset" where
  "tokens vq = mset (filter (\<lambda>t. t \<noteq> 0) (map (data vq) [0..<vring_num vq]))"

lemma tokens_split:
  assumes "h < n"
  shows "mset (filter P (map m [0..<n])) =
    mset (filter P (map m [0..<h])) + (if P (m h) then {#m h#} else {#}) + mset (filter P (map m [Suc h..<n]))"
proof -
  have "[0..<n] = [0..<h] @ h # [Suc h..<n]"
    using assms upt_add_eq_append [of 0 h "n - h"] by (simp add: upt_conv_Cons)
  then show ?thesis by simp
qed

lemma tokens_upd:
  assumes "h < vring_num vq" and "data vq' = (data vq)(h := t)" and "num (vring vq') = num (vring vq)"
  shows "tokens vq' + (if data vq h \<noteq> 0 then {#data vq h#} else {#}) = tokens vq + (if t \<noteq> 0 then {#t#} else {#})"
proof -
  let ?n = "vring_num vq"
  have e: "map ((data vq)(h := t)) [0..<h] = map (data vq) [0..<h]"
    "map ((data vq)(h := t)) [Suc h..<?n] = map (data vq) [Suc h..<?n]" by simp_all
  have n: "vring_num vq' = ?n" using assms(3) by (simp add: vring_num_def)
  show ?thesis
    unfolding tokens_def assms(2) n tokens_split [OF assms(1), of "\<lambda>t. t \<noteq> 0" "(data vq)(h := t)"]
      tokens_split [OF assms(1), of "\<lambda>t. t \<noteq> 0" "data vq"] e by (simp add: ac_simps)
qed

lemma tokens_same: "data vq' = data vq \<Longrightarrow> num (vring vq') = num (vring vq) \<Longrightarrow> tokens vq' = tokens vq"
  by (simp add: tokens_def vring_num_def)

section \<open>Runs\<close>

record vq_run =
  queue :: vring_virtqueue
  accepted :: "nat list"
  returned :: "nat list"

datatype vq_op = Add_sgs "scatterlist list list" nat nat nat | Add_outbuf "scatterlist list" nat nat
  | Add_inbuf "scatterlist list" nat nat | Get_buf | Detach_unused | Kick | Notify | Disable_cb | Enable_cb
  | Enable_cb_delayed | Interrupt | Device vring_used

definition note_add :: "nat \<Rightarrow> vq_run \<Rightarrow> (int \<times> scatterlist list list \<times> vring_virtqueue) outcome \<Rightarrow> vq_run outcome" where
  "note_add tok s r = (case r of Abort \<Rightarrow> Abort | Ret (rc, sgs, vq) \<Rightarrow>
     Ret (s\<lparr>queue := vq, accepted := (if rc = 0 then accepted s @ [tok] else accepted s)\<rparr>))"

text \<open>A loop that does not end counts as a failure of the run.\<close>

definition note_get :: "vq_run \<Rightarrow> (nat \<times> vring_virtqueue) outcome option \<Rightarrow> vq_run outcome" where
  "note_get s r = (case r of Some (Ret (t, vq)) \<Rightarrow>
     Ret (s\<lparr>queue := vq, returned := (if t \<noteq> 0 then returned s @ [t] else returned s)\<rparr>) | _ \<Rightarrow> Abort)"

definition drop_len :: "(nat \<times> u32 \<times> vring_virtqueue) outcome option \<Rightarrow> (nat \<times> vring_virtqueue) outcome option" where
  "drop_len r = (case r of None \<Rightarrow> None | Some Abort \<Rightarrow> Some Abort | Some (Ret (t, len, vq)) \<Rightarrow> Some (Ret (t, vq)))"

fun vq_step :: "vq_op \<Rightarrow> vq_run \<Rightarrow> vq_run outcome" where
  "vq_step (Add_sgs sgs k l t) s = note_add t s (vca_virtqueue_add_sgs sgs k l t (queue s))"
| "vq_step (Add_outbuf sg n t) s = note_add t s (vca_virtqueue_add_outbuf sg n t (queue s))"
| "vq_step (Add_inbuf sg n t) s = note_add t s (vca_virtqueue_add_inbuf sg n t (queue s))"
| "vq_step Get_buf s = note_get s (drop_len (vca_virtqueue_get_buf 0 (queue s)))"
| "vq_step Detach_unused s = note_get s (vca_virtqueue_detach_unused_buf (queue s))"
| "vq_step Kick s = Ret (s\<lparr>queue := snd (vca_virtqueue_kick (queue s))\<rparr>)"
| "vq_step Notify s = Ret (s\<lparr>queue := snd (vca_virtqueue_notify (queue s))\<rparr>)"
| "vq_step Disable_cb s = Ret (s\<lparr>queue := vca_virtqueue_disable_cb (queue s)\<rparr>)"
| "vq_step Enable_cb s = Ret (s\<lparr>queue := snd (vca_virtqueue_enable_cb (queue s))\<rparr>)"
| "vq_step Enable_cb_delayed s = Ret (s\<lparr>queue := snd (vca_virtqueue_enable_cb_delayed (queue s))\<rparr>)"
| "vq_step Interrupt s = Ret (s\<lparr>queue := snd (vca_vring_interrupt (queue s))\<rparr>)"
| "vq_step (Device u) s = Ret (s\<lparr>queue := (queue s)\<lparr>vring := (vring (queue s))\<lparr>used := u\<rparr>\<rparr>\<rparr>)"

text \<open>The callers' part: a buffer has a token and as many entries as they say, at most the ring's size.\<close>

fun vq_guard :: "vq_run \<Rightarrow> vq_op \<Rightarrow> bool" where
  "vq_guard s (Add_sgs sgs k l t) \<longleftrightarrow>
     (case all_entries sgs of Abort \<Rightarrow> False | Ret es \<Rightarrow> add_ok sgs (length es) k l t (queue s))"
| "vq_guard s (Add_outbuf sg n t) \<longleftrightarrow> add_ok [sg] n 1 0 t (queue s)"
| "vq_guard s (Add_inbuf sg n t) \<longleftrightarrow> add_ok [sg] n 0 1 t (queue s)"
| "vq_guard s _ \<longleftrightarrow> True"

definition vq_inv :: "vq_run \<Rightarrow> bool" where
  "vq_inv s \<longleftrightarrow> virtq_ok (queue s) \<and> mset (accepted s) = mset (returned s) + tokens (queue s)"

lemma vq_inv_same:
  assumes "vq_inv s" and "num (vring vq) = num (vring (queue s))" and "desc (vring vq) = desc (vring (queue s))"
    and "heap vq = heap (queue s)" and "free_head vq = free_head (queue s)" and "num_free vq = num_free (queue s)"
    and "data vq = data (queue s)" and "kmalloc vq = kmalloc (queue s)" and "dma_map vq = dma_map (queue s)"
    and "indirect vq = indirect (queue s)"
  shows "vq_inv (s\<lparr>queue := vq\<rparr>)"
proof -
  obtain F B V where "virtq_wf F B V (queue s)" using assms(1) by (auto simp: vq_inv_def virtq_ok_def)
  from virtq_wf_cong [OF this assms(2-10)] have "virtq_ok vq" by (auto simp: virtq_ok_def)
  moreover have "tokens vq = tokens (queue s)" by (rule tokens_same [OF assms(7,2)])
  ultimately show ?thesis using assms(1) by (simp add: vq_inv_def)
qed

lemma note_add_ok:
  assumes "vq_inv s" and "add_ok sgs n k l t (queue s)"
  shows "\<exists>s'. note_add t s (virtqueue_add sgs n k l t (queue s)) = Ret s' \<and> vq_inv s'"
proof -
  obtain F B V where w: "virtq_wf F B V (queue s)" using assms(1) by (auto simp: vq_inv_def virtq_ok_def)
  from virtqueue_add_ok [OF w assms(2)] obtain rc sgs' vq' where r:
    "virtqueue_add sgs n k l t (queue s) = Ret (rc, sgs', vq')"
    "if rc = 0 then \<not> broken (queue s) \<and> buf_added F B V (queue s) (buffer_view (dma_map (queue s)) sgs' k) t vq'
     else refused n (queue s) rc vq'" by blast
  show ?thesis
  proof (cases "rc = 0")
    case True
    then have a: "buf_added F B V (queue s) (buffer_view (dma_map (queue s)) sgs' k) t vq'" using r(2) by simp
    let ?h = "unat (free_head (queue s))"
    have f: "?h < vring_num (queue s)" "data (queue s) ?h = 0" "data vq' = (data (queue s))(?h := t)"
      "num (vring vq') = num (vring (queue s))" "virtq_ok vq'"
      using a by (auto simp: buf_added_def Let_def virtq_ok_def)
    have "t \<noteq> 0" using assms(2) by (simp add: add_ok_def)
    then have "tokens vq' = tokens (queue s) + {#t#}" using tokens_upd [OF f(1,3,4)] f(2) by simp
    then have "vq_inv (s\<lparr>queue := vq', accepted := accepted s @ [t]\<rparr>)"
      using f(5) assms(1) by (simp add: vq_inv_def)
    then show ?thesis using r(1) True by (simp add: note_add_def)
  next
    case False
    then have "refused n (queue s) rc vq'" using r(2) by simp
    then have "vq_inv (s\<lparr>queue := vq'\<rparr>)" by (intro vq_inv_same [OF assms(1)]) (auto simp: refused_def)
    moreover have "s\<lparr>queue := vq', accepted := accepted s\<rparr> = s\<lparr>queue := vq'\<rparr>" by (cases s) simp
    ultimately show ?thesis using r(1) False by (simp add: note_add_def)
  qed
qed

lemma note_get_ok:
  assumes "vq_inv s" and "h < vring_num (queue s)" and "t = data (queue s) h" and "t \<noteq> 0" and "virtq_ok vq'"
    and "data vq' = (data (queue s))(h := 0)" and "num (vring vq') = num (vring (queue s))"
  shows "\<exists>s'. note_get s (Some (Ret (t, vq'))) = Ret s' \<and> vq_inv s'"
proof -
  have "tokens (queue s) = tokens vq' + {#t#}" using tokens_upd [OF assms(2,6,7)] assms(3,4) by simp
  then show ?thesis using assms(1,4,5) by (simp add: note_get_def vq_inv_def)
qed

lemma get_buf_step:
  assumes "vq_inv s"
  shows "\<exists>s'. note_get s (drop_len (vca_virtqueue_get_buf len (queue s))) = Ret s' \<and> vq_inv s'"
proof -
  let ?q = "queue s"
  obtain F B V where w: "virtq_wf F B V ?q" using assms(1) by (auto simp: vq_inv_def virtq_ok_def)
  have same: "s\<lparr>queue := q', returned := returned s\<rparr> = s\<lparr>queue := q'\<rparr>" for q' by (cases s) simp
  consider "broken ?q \<or> last_used_idx ?q = u_idx (used (vring ?q))"
    | "\<not> broken ?q" "last_used_idx ?q \<noteq> u_idx (used (vring ?q))"
      "vring_num ?q \<le> unat (ue_id (next_used ?q)) \<or> data ?q (unat (ue_id (next_used ?q))) = 0"
    | "\<not> broken ?q" "last_used_idx ?q \<noteq> u_idx (used (vring ?q))"
      "unat (ue_id (next_used ?q)) < vring_num ?q" "data ?q (unat (ue_id (next_used ?q))) \<noteq> 0"
    by linarith
  then show ?thesis
  proof cases
    case 1
    then show ?thesis using get_nothing [OF 1] assms by (simp add: note_get_def drop_len_def same)
  next
    case 2
    have "vq_inv (s\<lparr>queue := ?q\<lparr>broken := True\<rparr>\<rparr>)" by (rule vq_inv_same [OF assms]) simp_all
    then show ?thesis using get_bad [OF w 2] by (simp add: note_get_def drop_len_def same)
  next
    case 3
    from get_done [OF w 3(1,2) refl 3(3,4), of len] obtain vq' where
      "vca_virtqueue_get_buf len ?q = Some (Ret (data ?q (unat (ue_id (next_used ?q))), ue_len (next_used ?q), vq'))"
      "virtq_ok vq'" "data vq' = (data ?q)(unat (ue_id (next_used ?q)) := 0)" "num (vring vq') = num (vring ?q)"
      by (auto simp: virtq_ok_def same_avail_def)
    then show ?thesis using note_get_ok [OF assms 3(3) refl 3(4), of vq'] by (simp add: drop_len_def)
  qed
qed

text \<open>Without a token in flight all descriptors are free.\<close>

lemma all_free:
  assumes "virtq_wf F B V vq" and "\<forall>h < vring_num vq. data vq h = 0"
  shows "num_free vq = num (vring vq)"
proof -
  have p: "length F = unat (num_free vq)" "mset (F @ concat (map B [0..<vring_num vq])) = mset [0..<vring_num vq]"
    "\<forall>h < vring_num vq. B h = []"
    using assms by (auto simp: virtq_wf_def parts_ok_def)
  have c: "concat (map B [0..<vring_num vq]) = []" using p(3) by simp
  have "length F = vring_num vq" using mset_eq_length [OF p(2)] unfolding c by simp
  then show ?thesis using p(1) by (simp add: vring_num_def word_unat_eq_iff)
qed

lemma detach_unused_step:
  assumes "vq_inv s"
  shows "\<exists>s'. note_get s (vca_virtqueue_detach_unused_buf (queue s)) = Ret s' \<and> vq_inv s'"
proof -
  let ?q = "queue s" and ?n = "vring_num (queue s)"
  obtain F B V where w: "virtq_wf F B V ?q" using assms(1) by (auto simp: vq_inv_def virtq_ok_def)
  show ?thesis
  proof (cases "first_token (data ?q) ?n")
    case None
    then have "\<forall>h < ?n. data ?q h = 0" by (simp add: first_token_def find_None_iff)
    from all_free [OF w this] have "vca_virtqueue_detach_unused_buf ?q = Some (Ret (0, ?q))"
      using None by (simp add: vca_virtqueue_detach_unused_buf_def)
    then show ?thesis using assms by (simp add: note_get_def)
  next
    case (Some i)
    then have i: "i < ?n" "data ?q i \<noteq> 0" by (auto simp: first_token_def find_Some_iff)
    from detach_buf_ok [OF w i] obtain vq1 where d: "detach_buf i ?q = Some (Ret vq1)"
      "virtq_wf (B i @ F) (B(i := [])) V vq1" "same_queue ?q vq1" "data vq1 = (data ?q)(i := 0)" by blast
    let ?vq2 = "vq1\<lparr>vring := (vring vq1)\<lparr>avail := (avail (vring vq1))\<lparr>a_idx := a_idx (avail (vring vq1)) - 1\<rparr>\<rparr>\<rparr>"
    have e: "vca_virtqueue_detach_unused_buf ?q = Some (Ret (data ?q i, ?vq2))"
      using Some d(1) by (simp add: vca_virtqueue_detach_unused_buf_def Let_def)
    have "virtq_wf (B i @ F) (B(i := [])) V ?vq2" by (rule virtq_wf_cong [OF d(2)]) simp_all
    then have ok: "virtq_ok ?vq2" by (auto simp: virtq_ok_def)
    show ?thesis unfolding e
      by (rule note_get_ok [OF assms i(1) refl i(2) ok]) (use d(3,4) in \<open>simp_all add: same_queue_def\<close>)
  qed
qed

interpretation vqm: guarded_machine vq_step vq_inv vq_guard
proof
  fix s x
  assume i: "vq_inv s" and g: "vq_guard s x"
  show "\<exists>s'. vq_step x s = Ret s' \<and> vq_inv s'"
  proof (cases x)
    case (Add_sgs sgs k l t)
    then obtain es where "all_entries sgs = Ret es" "add_ok sgs (length es) k l t (queue s)"
      using g by (auto split: outcome.splits)
    then show ?thesis using note_add_ok [OF i, of sgs "length es" k l t] Add_sgs by (simp add: vca_virtqueue_add_sgs_def)
  next
    case (Add_outbuf sg n t)
    then show ?thesis using note_add_ok [OF i, of "[sg]" n 1 0 t] g by (simp add: vca_virtqueue_add_outbuf_def)
  next
    case (Add_inbuf sg n t)
    then show ?thesis using note_add_ok [OF i, of "[sg]" n 0 1 t] g by (simp add: vca_virtqueue_add_inbuf_def)
  next
    case Get_buf
    then show ?thesis using get_buf_step [OF i] by simp
  next
    case Detach_unused
    then show ?thesis using detach_unused_step [OF i] by simp
  next
    case Kick
    obtain m b where "snd (vca_virtqueue_kick (queue s)) = (queue s)\<lparr>num_added := 0, notified := m, broken := b\<rparr>"
      using kick_frame by blast
    then show ?thesis using Kick by (auto intro!: vq_inv_same [OF i])
  next
    case Notify
    then show ?thesis using i
      by (auto simp: vca_virtqueue_notify_def call_notify_def intro!: vq_inv_same [OF i])
  qed (use i in \<open>auto simp: vca_virtqueue_disable_cb_def vca_virtqueue_enable_cb_def vca_virtqueue_enable_cb_prepare_def
    vca_virtqueue_enable_cb_delayed_def vca_vring_interrupt_def set_avail_flags_def set_used_event_def Let_def
    intro!: vq_inv_same [OF i]\<close>)
qed

section \<open>A new queue\<close>

text \<open>The features a transport lets through never combine indirect tables with mapping for DMA.\<close>

lemma transport_excludes:
  "\<not> (virtio_has_feature (features (vca_vring_transport_features dev)) VIRTIO_RING_F_DMA_MAP \<and>
      virtio_has_feature (features (vca_vring_transport_features dev)) VIRTIO_RING_F_INDIRECT_DESC)"
  by (simp add: vca_vring_transport_features_def virtio_has_feature_def virtio_clear_bit_def virtio_features Let_def
      bit_and_iff bit_not_iff bit_push_bit_iff)

lemma new_queue_wf:
  assumes "vca_vring_new_virtqueue ok n pages cb base dev = Ret (Some vq, dev')" and "ring_size_ok (unat n)"
    and "\<forall>hp k a t. kmalloc base hp k = Some (a, t) \<longrightarrow> hp a = None" and "heap base = Map.empty"
    and "\<not> (virtio_has_feature (features dev) VIRTIO_RING_F_DMA_MAP \<and>
             virtio_has_feature (features dev) VIRTIO_RING_F_INDIRECT_DESC)"
  shows "virtq_wf [0..<unat n] (\<lambda>_. []) V vq" and "vring_num vq = unat n" and "\<forall>h < unat n. data vq h = 0"
proof -
  note nb = ring_size_bounds [OF assms(2)]
  let ?vr = "if cb then pages\<lparr>num := n\<rparr> else set_avail_flags (\<lambda>f. f OR VRING_AVAIL_F_NO_INTERRUPT) (pages\<lparr>num := n\<rparr>)"
  let ?top = "unat (n - 1)"
  have "n \<noteq> 0" using nb by auto
  then have top: "?top = unat n - 1" by (simp add: unat_minus_one)
  have z: "fold (\<lambda>i m. m(i := 0)) [0..<k] m = (\<lambda>i. if i < k then 0 else m i)" for k and m :: "nat mem"
    by (induction k) (auto simp: fun_eq_iff)
  have vq: "vq = base\<lparr>vring := ?vr\<lparr>desc := fold (\<lambda>i d. d(i := (d i)\<lparr>d_next := of_nat (i + 1)\<rparr>)) [0..<?top] (desc ?vr)\<rparr>,
      broken := False, indirect := virtio_has_feature (features dev) VIRTIO_RING_F_INDIRECT_DESC,
      event := virtio_has_feature (features dev) VIRTIO_RING_F_EVENT_IDX,
      dma_map := virtio_has_feature (features dev) VIRTIO_RING_F_DMA_MAP, num_free := n, free_head := 0,
      num_added := 0, last_used_idx := 0, data := fold (\<lambda>i m. m(i := 0)) [0..<?top + 1] (data base), callback := cb\<rparr>"
    using assms(1) by (auto simp: vca_vring_new_virtqueue_def Let_def split: if_splits)
  have num: "num ?vr = n" by (simp add: set_avail_flags_def)
  show vn: "vring_num vq = unat n" unfolding vq by (simp add: vring_num_def set_avail_flags_def)
  show dz: "\<forall>h < unat n. data vq h = 0" unfolding vq z using top by simp
  have d: "desc (vring vq) = (\<lambda>i. if i < ?top then (desc ?vr i)\<lparr>d_next := of_nat (i + 1)\<rparr> else desc ?vr i)"
    unfolding vq fold_links by simp
  have "linked (desc (vring vq)) 0 [0..<unat n]"
  proof (rule linked_upt)
    fix i
    assume i: "Suc i < unat n"
    then have "i < ?top" using top by simp
    then show "unat (d_next (desc (vring vq) i)) = Suc i"
      unfolding d using i nb by (simp add: unat_of_nat del: of_nat_Suc)
  qed
  moreover have "concat (map (\<lambda>_. []) [0..<unat n]) = ([] :: nat list)" by simp
  moreover have "indirect_heads (unat n) (desc (vring vq)) (data vq) = {}" using dz by (auto simp: indirect_heads_def)
  ultimately have "parts_ok (unat n) (desc (vring vq)) Map.empty 0 (unat n) (data vq) [0..<unat n] (\<lambda>_. []) V"
    using dz unfolding parts_ok_def by simp
  moreover have "heap vq = Map.empty" "free_head vq = 0" "num_free vq = n" "kmalloc vq = kmalloc base"
    "dma_map vq \<longrightarrow> \<not> indirect vq"
    unfolding vq using assms(4,5) by auto
  ultimately show "virtq_wf [0..<unat n] (\<lambda>_. []) V vq" using assms(2,3) unfolding virtq_wf_def vn by simp
qed

definition fresh_run :: "vring_virtqueue \<Rightarrow> vq_run" where
  "fresh_run vq = \<lparr>queue = vq, accepted = [], returned = []\<rparr>"

section \<open>Event indices\<close>

lemma need_event_less: "d - x - 1 < d \<longleftrightarrow> x < (d :: u16)"
proof -
  consider "unat x < unat d" | "unat x = unat d" | "unat d < unat x" by linarith
  then show ?thesis
  proof cases
    case 1
    then have u: "unat (d - x) = unat d - unat x" by (simp add: unat_sub_if')
    then have "d - x \<noteq> 0" using 1 by (metis unat_0 zero_less_diff less_irrefl)
    then have "unat (d - x - 1) < unat d" using u 1 by (simp add: unat_minus_one)
    then show ?thesis using 1 by (simp add: word_less_nat_alt)
  next
    case 2
    then have "x = d" by (simp add: word_unat_eq_iff)
    then show ?thesis using unat_bound [of d]
      by (simp add: word_less_nat_alt unsigned_minus_1_eq_mask mask_eq_exp_minus_1)
  next
    case 3
    then have u: "unat (d - x) = 65536 + unat d - unat x" by (simp add: unat_sub_if')
    then have "d - x \<noteq> 0" using unat_bound [of x] by auto
    then have "unat (d - x - 1) = 65535 + unat d - unat x" using u by (simp add: unat_minus_one)
    then show ?thesis using 3 unat_bound [of x] by (simp add: word_less_nat_alt)
  qed
qed

lemma need_event_iff:
  "vring_need_event e new old \<longleftrightarrow> (\<exists>j < unat (new - old). e = old + of_nat j)"
proof -
  have "new - e - 1 = (new - old) - (e - old) - 1" by simp
  then have "vring_need_event e new old \<longleftrightarrow> e - old < new - old"
    unfolding vring_need_event_def by (simp only: need_event_less)
  also have "\<dots> \<longleftrightarrow> (\<exists>j < unat (new - old). e = old + of_nat j)"
  proof
    assume "e - old < new - old"
    then show "\<exists>j < unat (new - old). e = old + of_nat j"
      by (intro exI [of _ "unat (e - old)"]) (simp add: word_less_nat_alt)
  next
    assume "\<exists>j < unat (new - old). e = old + of_nat j"
    then obtain j where j: "j < unat (new - old)" "e - old = of_nat j" by auto
    then show "e - old < new - old" using unat_bound [of "new - old"] by (simp add: word_less_nat_alt unat_of_nat)
  qed
  finally show ?thesis .
qed

section \<open>A queue of four descriptors\<close>

definition sample_desc :: vring_desc where "sample_desc = \<lparr>d_addr = 0, d_len = 0, d_flags = 0, d_next = 0\<rparr>"

definition sample_pages :: vring where
  "sample_pages = \<lparr>num = 0, desc = (\<lambda>_. sample_desc), avail = \<lparr>a_flags = 0, a_idx = 0, a_ring = (\<lambda>_. 0)\<rparr>,
     used = \<lparr>u_flags = 0, u_idx = 0, u_ring = (\<lambda>_. \<lparr>ue_id = 0, ue_len = 0\<rparr>), u_event = 0\<rparr>\<rparr>"

definition sample_base :: vring_virtqueue where
  "sample_base = \<lparr>vring = sample_pages, broken = False, indirect = False, event = False, dma_map = False, num_free = 0,
     free_head = 0, num_added = 0, last_used_idx = 0, data = (\<lambda>_. 0), callback = True, parent = True, notify = (\<lambda>_. True),
     notified = 0, called = 0, kmalloc = (\<lambda>_ _. None), heap = Map.empty, dma_map_single = (\<lambda>_ a _ _. a), dma_log = []\<rparr>"

text \<open>Four descriptors, no features.\<close>

definition sample_queue :: vring_virtqueue where
  "sample_queue = sample_base\<lparr>vring := sample_pages\<lparr>num := 4, desc := (\<lambda>_. sample_desc)
     (0 := sample_desc\<lparr>d_next := 1\<rparr>, 1 := sample_desc\<lparr>d_next := 2\<rparr>, 2 := sample_desc\<lparr>d_next := 3\<rparr>)\<rparr>, num_free := 4\<rparr>"

definition sample_device :: virtio_device where "sample_device = \<lparr>features = 0, vqs = []\<rparr>"

lemma transport_none: "features dev = 0 \<Longrightarrow> vca_vring_transport_features dev = dev"
proof -
  have z: "fold (\<lambda>i fs. if transport_bit_known i then fs else virtio_clear_bit i fs) xs 0 = 0" for xs
    by (induction xs) (simp_all add: virtio_clear_bit_def)
  assume "features dev = 0"
  then show ?thesis by (cases dev) (simp add: vca_vring_transport_features_def z virtio_has_feature_def)
qed

lemma sample_new:
  "vca_vring_new_virtqueue True 4 sample_pages True sample_base (vca_vring_transport_features sample_device) =
     Ret (Some sample_queue, sample_device\<lparr>vqs := [sample_queue]\<rparr>)"
proof -
  have u: "[0..<unat (4 - 1 :: u32)] = [0, 1, 2]" "[0..<unat (4 - 1 :: u32) + 1] = [0, 1, 2, 3]" by (simp_all add: upt_rec)
  have z: "fold (\<lambda>i m. m(i := 0)) [0, 1, 2, 3] (\<lambda>_. 0) = (\<lambda>_. 0 :: nat)" by (simp add: fun_eq_iff)
  have d: "fold (\<lambda>i d. d(i := (d i)\<lparr>d_next := of_nat (i + 1)\<rparr>)) [0, 1, 2] (\<lambda>_. sample_desc) =
      (\<lambda>_. sample_desc)(0 := sample_desc\<lparr>d_next := 1\<rparr>, 1 := sample_desc\<lparr>d_next := 2\<rparr>, 2 := sample_desc\<lparr>d_next := 3\<rparr>)" by simp
  have t: "vca_vring_transport_features sample_device = sample_device" by (simp add: transport_none sample_device_def)
  have s: "desc sample_pages = (\<lambda>_. sample_desc)" "data sample_base = (\<lambda>_. 0)" by (simp_all add: sample_pages_def sample_base_def)
  have n: "(4 :: u32) AND (4 - 1) = 0" "\<not> unat (4 :: u32) \<le> unat (4 - 1 :: u32)" by simp_all
  have q: "(sample_base\<lparr>vring := sample_pages\<lparr>num := 4, desc := m\<rparr>, broken := False,
      indirect := virtio_has_feature (features sample_device) VIRTIO_RING_F_INDIRECT_DESC,
      event := virtio_has_feature (features sample_device) VIRTIO_RING_F_EVENT_IDX,
      dma_map := virtio_has_feature (features sample_device) VIRTIO_RING_F_DMA_MAP,
      num_free := 4, free_head := 0, num_added := 0, last_used_idx := 0, data := (\<lambda>_. 0), callback := True\<rparr>) =
    sample_base\<lparr>vring := sample_pages\<lparr>num := 4, desc := m\<rparr>, num_free := 4\<rparr>" for m
    by (simp add: sample_base_def sample_device_def virtio_has_feature_def)
  show ?thesis
    unfolding t vca_vring_new_virtqueue_def Let_def u
    by (simp only: n if_True if_False simp_thms vring.simps s d z q sample_queue_def) (simp add: sample_device_def s(1))
qed

lemma sample_size: "ring_size_ok (unat (4 :: u32))"
  by (simp add: ring_size_ok_def, intro exI [of _ 2], simp)


text \<open>A run: a buffer added, returned by the device, then a forged entry.\<close>

definition sample_ops :: "vq_op list" where
  "sample_ops = [Add_outbuf [\<lparr>sg_phys = 4096, sg_length = 100, sg_dma = 0, sg_end = True\<rparr>] 1 7,
     Device \<lparr>u_flags = 0, u_idx = 2, u_ring = (\<lambda>_. \<lparr>ue_id = 0, ue_len = 9\<rparr>), u_event = 0\<rparr>, Get_buf, Get_buf]"

lemmas sample_eval = sample_queue_def sample_base_def sample_pages_def sample_desc_def fresh_run_def sample_ops_def
  note_add_def note_get_def drop_len_def vca_virtqueue_add_outbuf_def virtqueue_add_def vring_num_def go_indirect_def take_descs_def
  put_buffer_def sg_entries_def publish_def make_avail_def virtio_flags add_ok_def term_sgs_def vca_virtqueue_get_buf_def more_used_def detach_buf_def detach_loop.simps free_indirect_def set_used_event_def

lemma sample_guarded: "vqm.guarded sample_ops (fresh_run sample_queue)"
  by (simp add: sample_eval Let_def)

lemma sample_wf: "virtq_wf [0..<4] (\<lambda>_. []) V sample_queue"
  using new_queue_wf(1) [OF sample_new sample_size, of V]
  by (simp add: sample_base_def sample_device_def transport_none virtio_has_feature_def)

text \<open>Two entries, one to read and one to write.\<close>

definition sample_sgs :: "scatterlist list list" where
  "sample_sgs = [[\<lparr>sg_phys = 4096, sg_length = 100, sg_dma = 0, sg_end = True\<rparr>],
     [\<lparr>sg_phys = 8192, sg_length = 64, sg_dma = 0, sg_end = True\<rparr>]]"

text \<open>The buffer has been added and the device reports 9 bytes written.\<close>

definition sample_used :: vring_virtqueue where
  "sample_used = (case virtqueue_add sample_sgs 2 1 1 7 sample_queue of Ret (rc, sgs, vq) \<Rightarrow>
     vq\<lparr>vring := (vring vq)\<lparr>used := \<lparr>u_flags = 0, u_idx = 1, u_ring = (\<lambda>_. \<lparr>ue_id = 0, ue_len = 9\<rparr>), u_event = 0\<rparr>\<rparr>\<rparr>)"

lemma sample_used_wf: "\<exists>F B V. virtq_wf F B V sample_used"
proof -
  have "add_ok sample_sgs 2 1 1 7 sample_queue" by (simp add: sample_eval sample_sgs_def)
  from virtqueue_add_ok [OF sample_wf this] obtain rc sgs' vq' where r:
    "virtqueue_add sample_sgs 2 1 1 7 sample_queue = Ret (rc, sgs', vq')"
    "if rc = 0 then \<not> broken sample_queue \<and>
       buf_added [0..<4] (\<lambda>_. []) (\<lambda>_. []) sample_queue (buffer_view (dma_map sample_queue) sgs' 1) 7 vq'
     else refused 2 sample_queue rc vq'" by blast
  moreover have "\<exists>sgs vq. virtqueue_add sample_sgs 2 1 1 7 sample_queue = Ret (0, sgs, vq)"
    by (simp add: sample_eval sample_sgs_def Let_def)
  ultimately obtain F B V where "virtq_wf F B V vq'" by (auto simp: buf_added_def Let_def)
  moreover have "virtq_wf F B V sample_used" if "virtq_wf F B V vq'" for F B V
    unfolding sample_used_def r(1) by (rule virtq_wf_cong [of F B V vq']) (use that in simp_all)
  ultimately show ?thesis by blast
qed

section \<open>Properties\<close>

text \<open>
  C13. Whatever a device writes into the used ring, and in whatever order the driver calls its
  operations on a queue that was set up, every call returns without touching a descriptor outside the
  table, without freeing memory twice and without an endless walk; the free list and the chains of the
  buffers in flight partition the table at the end, and every accepted token has either been returned,
  once, or is still in flight.
\<close>
theorem driver_withstands_device:
  assumes "vca_vring_new_virtqueue ok n pages cb base (vca_vring_transport_features dev) = Ret (Some vq, dev')"
    and "ring_size_ok (unat n)" and "\<forall>hp k a t. kmalloc base hp k = Some (a, t) \<longrightarrow> hp a = None"
    and "heap base = Map.empty" and "vqm.guarded ops (fresh_run vq)"
  shows "\<exists>s. vqm.run ops (fresh_run vq) = Ret s \<and> virtq_ok (queue s) \<and>
    mset (accepted s) = mset (returned s) + tokens (queue s)"
proof -
  note nq = new_queue_wf [OF assms(1-4) transport_excludes]
  have "tokens vq = {#}" using nq(2,3) by (simp add: tokens_def filter_empty_conv)
  then have "vq_inv (fresh_run vq)" using nq(1) by (auto simp: vq_inv_def fresh_run_def virtq_ok_def)
  from vqm.run_safe [OF this assms(5)] show ?thesis by (auto simp: vq_inv_def)
qed

theorem driver_withstands_device_witness:
  "\<exists>s. vqm.run sample_ops (fresh_run sample_queue) = Ret s \<and> virtq_ok (queue s) \<and>
     mset (accepted s) = mset (returned s) + tokens (queue s)"
  by (rule driver_withstands_device [OF sample_new sample_size])
    (simp_all add: sample_base_def sample_guarded)

text \<open>
  C33. A buffer of a scatter list is added completely or not at all: if the call succeeds, the
  entries of the lists, readable before writable, are the buffer that starts at the first free
  descriptor, which is the next entry of the avail ring; every other buffer is as before. If it
  fails, the ring and the free list are as before.
\<close>
theorem add_publishes:
  assumes "virtq_wf F B V vq" and "add_ok sgs n k l tok vq"
  shows "\<exists>rc sgs' vq'. virtqueue_add sgs n k l tok vq = Ret (rc, sgs', vq') \<and>
    (if rc = 0 then \<not> broken vq \<and> buf_added F B V vq (buffer_view (dma_map vq) sgs' k) tok vq' else refused n vq rc vq')"
  by (rule virtqueue_add_ok [OF assms])

theorem add_publishes_witness:
  "\<exists>rc sgs' vq'. virtqueue_add sample_sgs 2 1 1 7 sample_queue = Ret (rc, sgs', vq') \<and>
    (if rc = 0 then \<not> broken sample_queue \<and>
       buf_added [0..<4] (\<lambda>_. []) (\<lambda>_. []) sample_queue (buffer_view (dma_map sample_queue) sgs' 1) 7 vq'
     else refused 2 sample_queue rc vq')"
  by (rule add_publishes [OF sample_wf]) (simp add: sample_eval sample_sgs_def)

text \<open>
  C34. A look for a used buffer returns at once with NULL when there is none; it marks the queue broken
  and changes nothing else when the device's entry names no buffer in flight; otherwise it returns the
  token and the length of exactly that buffer, its descriptors go to the front of the free list and
  its mappings, and only they, are undone.
\<close>
theorem used_buffer_returned:
  assumes "virtq_wf F B V vq"
  shows "\<exists>tok len' vq'. vca_virtqueue_get_buf len vq = Some (Ret (tok, len', vq')) \<and>
   (if broken vq \<or> last_used_idx vq = u_idx (used (vring vq)) then tok = 0 \<and> len' = len \<and> vq' = vq
    else len' = ue_len (next_used vq) \<and> (let h = unat (ue_id (next_used vq)) in
      if vring_num vq \<le> h \<or> data vq h = 0 then tok = 0 \<and> vq' = vq\<lparr>broken := True\<rparr>
      else tok = data vq h \<and> virtq_wf (B h @ F) (B(h := [])) V vq' \<and> data vq' = (data vq)(h := 0) \<and>
        same_avail vq vq' \<and> last_used_idx vq' = last_used_idx vq + 1 \<and>
        dma_log vq' = dma_log vq @ (if dma_map vq then unmaps (V h) else [])))"
proof (cases "broken vq \<or> last_used_idx vq = u_idx (used (vring vq))")
  case True
  then show ?thesis using get_nothing [OF True] by simp
next
  case False
  then have nb: "\<not> broken vq" "last_used_idx vq \<noteq> u_idx (used (vring vq))" by simp_all
  show ?thesis
  proof (cases "vring_num vq \<le> unat (ue_id (next_used vq)) \<or> data vq (unat (ue_id (next_used vq))) = 0")
    case True
    then show ?thesis using get_bad [OF assms nb True] False by (simp add: Let_def)
  next
    case f: False
    then have "unat (ue_id (next_used vq)) < vring_num vq" "data vq (unat (ue_id (next_used vq))) \<noteq> 0" by auto
    from get_done [OF assms nb refl this, of len] show ?thesis
      using f False by (auto simp: Let_def split del: if_split)
  qed
qed

theorem used_buffer_returned_witness:
  "\<exists>tok len' vq'. vca_virtqueue_get_buf 0 sample_used = Some (Ret (tok, len', vq')) \<and> tok = 7 \<and> len' = 9 \<and>
     data vq' = (data sample_used)(0 := 0) \<and> last_used_idx vq' = 1"
proof -
  obtain F B V where w: "virtq_wf F B V sample_used" using sample_used_wf by blast
  have f: "\<not> broken sample_used" "last_used_idx sample_used = 0" "u_idx (used (vring sample_used)) = 1"
    "ue_id (next_used sample_used) = 0" "ue_len (next_used sample_used) = 9" "data sample_used 0 = 7" "vring_num sample_used = 4"
    by (simp_all add: sample_used_def next_used_def sample_eval sample_sgs_def Let_def)
  show ?thesis using used_buffer_returned [OF w, of 0] f by (auto simp: Let_def split: if_splits)
qed

text \<open>
  With event indices, a kick notifies the device exactly when the index it asked for is one of
  those published since the last kick; without them, unless the device asked not to be notified.
\<close>
theorem kick_decides:
  "fst (vca_virtqueue_kick_prepare vq) \<longleftrightarrow>
     (let new = a_idx (avail (vring vq)) in
      if event vq then \<exists>j < unat (ucast (num_added vq) :: u16). vring_avail_event (vring vq) = new - ucast (num_added vq) + of_nat j
      else u_flags (used (vring vq)) AND 1 = 0)"
  by (auto simp: vca_virtqueue_kick_prepare_def need_event_iff Let_def virtio_flags)

end
