(* ===== verification/Vringh.thy ===== *)
theory Vringh
  imports Virtio_Ring
begin

text \<open>
  The device's side of a virtqueue (\<open>vca_virtio/vca_vringh.c\<close>, \<open>include/vca_vringh.h\<close>): it takes heads
  from the avail ring, collects the chains they start into vectors of memory blocks and writes what it
  has used into the used ring.

  The code is written once over functions that access the ring and used twice, for rings in kernel
  and in user memory. These functions are arguments here too: a cell of the ring is read with a result
  code and a value, a descriptor through a pointer that is the table of the ring or the address of an
  indirect table, at once or, where it may lie in several ranges of user memory, in parts. A vector is a memory of blocks and a capacity, which carries
  the flag \<open>VRINGH_IOV_ALLOCATED\<close>; \<open>alloc n\<close> says whether \<open>n\<close> blocks can be allocated.
\<close>

section \<open>Data\<close>

record vringh =
  little_endian :: bool
  event_indices :: bool
  weak_barriers :: bool
  last_avail_idx :: u16
  h_last_used_idx :: u16
  completed :: u32
  h_vring :: vring

record vringh_range =
  r_start :: u64
  end_incl :: u64
  r_offset :: u64

record vringh_kiov =
  k_iov :: "kvec mem"
  consumed :: u64
  k_i :: u32
  k_used :: u32
  max_num :: u32

definition VRINGH_IOV_ALLOCATED :: u32 where "VRINGH_IOV_ALLOCATED = 0x8000000"

definition vringh_kiov_init :: "kvec mem \<Rightarrow> u32 \<Rightarrow> vringh_kiov" where
  "vringh_kiov_init v n = \<lparr>k_iov = v, consumed = 0, k_i = 0, k_used = 0, max_num = n\<rparr>"

definition vringh_kiov_reset :: "vringh_kiov \<Rightarrow> vringh_kiov" where
  "vringh_kiov_reset iov =
     (let j = unat (k_i iov); e = k_iov iov j
      in iov\<lparr>k_iov := (k_iov iov)(j := e\<lparr>iov_len := iov_len e + consumed iov, iov_base := iov_base e - consumed iov\<rparr>),
           consumed := 0, k_i := 0\<rparr>)"

text \<open>The result says whether the vector's memory is released.\<close>

definition vringh_kiov_cleanup :: "vringh_kiov \<Rightarrow> bool \<times> vringh_kiov" where
  "vringh_kiov_cleanup iov = (max_num iov AND VRINGH_IOV_ALLOCATED \<noteq> 0,
     iov\<lparr>max_num := 0, k_used := 0, k_i := 0, consumed := 0\<rparr>)"

section \<open>Access to the ring\<close>

datatype cell16 = Avail_flags | Avail_idx | Avail_ring nat | Used_flags | Used_idx | Avail_event

fun read_cell :: "vring \<Rightarrow> cell16 \<Rightarrow> u16" where
  "read_cell vr Avail_flags = a_flags (avail vr)"
| "read_cell vr Avail_idx = a_idx (avail vr)"
| "read_cell vr (Avail_ring j) = a_ring (avail vr) j"
| "read_cell vr Used_flags = u_flags (used vr)"
| "read_cell vr Used_idx = u_idx (used vr)"
| "read_cell vr Avail_event = u_event (used vr)"

fun write_cell :: "cell16 \<Rightarrow> u16 \<Rightarrow> vring \<Rightarrow> vring" where
  "write_cell Avail_flags v vr = vr\<lparr>avail := (avail vr)\<lparr>a_flags := v\<rparr>\<rparr>"
| "write_cell Avail_idx v vr = vr\<lparr>avail := (avail vr)\<lparr>a_idx := v\<rparr>\<rparr>"
| "write_cell (Avail_ring j) v vr = vr\<lparr>avail := (avail vr)\<lparr>a_ring := (a_ring (avail vr))(j := v)\<rparr>\<rparr>"
| "write_cell Used_flags v vr = vr\<lparr>used := (used vr)\<lparr>u_flags := v\<rparr>\<rparr>"
| "write_cell Used_idx v vr = vr\<lparr>used := (used vr)\<lparr>u_idx := v\<rparr>\<rparr>"
| "write_cell Avail_event v vr = vr\<lparr>used := (used vr)\<lparr>u_event := v\<rparr>\<rparr>"

type_synonym getu16 = "vring \<Rightarrow> cell16 \<Rightarrow> int \<times> u16"
type_synonym putu16 = "cell16 \<Rightarrow> u16 \<Rightarrow> vring \<Rightarrow> int \<times> vring"
type_synonym putused = "nat \<Rightarrow> vring_used_elem list \<Rightarrow> vring \<Rightarrow> int \<times> vring"

text \<open>Several elements of the used ring from position \<open>j\<close> on.\<close>

definition write_used :: "nat \<Rightarrow> vring_used_elem list \<Rightarrow> vring \<Rightarrow> vring" where
  "write_used j es vr = vr\<lparr>used := (used vr)\<lparr>u_ring := blit (u_ring (used vr)) j (\<lambda>k. es ! k) 0 (length es)\<rparr>\<rparr>"

text \<open>The functions for kernel memory, and for user memory where an access to a cell may fault.\<close>

definition getu16_kern :: getu16 where "getu16_kern vr c = (0, read_cell vr c)"
definition putu16_kern :: putu16 where "putu16_kern c v vr = (0, write_cell c v vr)"
definition putused_kern :: putused where "putused_kern j es vr = (0, write_used j es vr)"

definition getu16_user :: "(cell16 \<Rightarrow> bool) \<Rightarrow> getu16" where
  "getu16_user fault vr c = (if fault c then (- EFAULT, 0) else (0, read_cell vr c))"

definition putu16_user :: "(cell16 \<Rightarrow> bool) \<Rightarrow> putu16" where
  "putu16_user fault c v vr = (if fault c then (- EFAULT, vr) else (0, write_cell c v vr))"

definition putused_user :: "(nat \<Rightarrow> nat \<Rightarrow> bool) \<Rightarrow> putused" where
  "putused_user fault j es vr = (if fault j (length es) then (- EFAULT, vr) else (0, write_used j es vr))"

section \<open>Heads from the avail ring\<close>

text \<open>The result is the ring's size when it is empty, an error or the head; and the index seen last.\<close>

definition vringh_get_head :: "getu16 \<Rightarrow> vring \<Rightarrow> u16 \<Rightarrow> int \<times> u16" where
  "vringh_get_head getu16 vr idx = (case getu16 vr Avail_idx of (err, avail_idx) \<Rightarrow>
     if err \<noteq> 0 then (err, idx)
     else if idx = avail_idx then (int (unat (num vr)), idx)
     else (case getu16 vr (Avail_ring (unat (ucast idx AND (num vr - 1)))) of (err, head) \<Rightarrow>
       if err \<noteq> 0 then (err, idx)
       else if num vr \<le> ucast head then (- EINVAL, idx)
       else (int (unat head), idx + 1)))"

section \<open>Blocks of memory\<close>

text \<open>
  \<open>vringh_iov_xfer\<close>: the loop over the blocks of a vector. \<open>xfer\<close> moves \<open>n\<close> bytes between a
  block and offset \<open>off\<close> of the caller's buffer, in a memory \<open>m\<close>. The sum of what was moved is an
  \<open>int\<close>.
\<close>

definition consume_block :: "u64 \<Rightarrow> vringh_kiov \<Rightarrow> vringh_kiov" where
  "consume_block part iov =
     (let j = unat (k_i iov); e = k_iov iov j; c = consumed iov + part;
          e1 = e\<lparr>iov_len := iov_len e - part, iov_base := iov_base e + part\<rparr>
      in if iov_len e1 = 0
         then iov\<lparr>k_iov := (k_iov iov)(j := e1\<lparr>iov_len := c, iov_base := iov_base e1 - c\<rparr>), consumed := 0, k_i := k_i iov + 1\<rparr>
         else iov\<lparr>k_iov := (k_iov iov)(j := e1), consumed := c\<rparr>)"

lemma consume_block_more:
  assumes "k_i iov < k_used iov" and "e = k_iov iov (unat (k_i iov))" and "part = min (iov_len e) len"
  shows "len - part = 0 \<or> unat (k_used (consume_block part iov)) - unat (k_i (consume_block part iov)) < unat (k_used iov) - unat (k_i iov)"
    and "k_used (consume_block part iov) = k_used iov"
    and "unat (k_i iov) \<le> unat (k_i (consume_block part iov))"
proof -
  have lt: "unat (k_i iov) < unat (k_used iov)" using assms(1) by (simp add: word_less_nat_alt)
  have inc: "unat (k_i iov + 1) = unat (k_i iov) + 1"
    using lt unat_bound [of "k_used iov"] by (simp add: unat_word_ariths)
  show ku: "k_used (consume_block part iov) = k_used iov" by (simp add: consume_block_def Let_def)
  show "unat (k_i iov) \<le> unat (k_i (consume_block part iov))" using inc by (simp add: consume_block_def Let_def)
  show "len - part = 0 \<or> unat (k_used (consume_block part iov)) - unat (k_i (consume_block part iov)) < unat (k_used iov) - unat (k_i iov)"
  proof (cases "part = iov_len e")
    case True
    then have "k_i (consume_block part iov) = k_i iov + 1" using assms(2) by (simp add: consume_block_def Let_def)
    moreover have "unat (k_used iov) - (unat (k_i iov) + 1) < unat (k_used iov) - unat (k_i iov)"
      using lt by (intro diff_less_mono2) simp_all
    ultimately show ?thesis using inc by (simp only: ku simp_thms)
  next
    case False
    then show ?thesis using assms(3) by (simp add: min_def split: if_splits)
  qed
qed

function vringh_iov_xfer :: "(u64 \<Rightarrow> u64 \<Rightarrow> u64 \<Rightarrow> 'm \<Rightarrow> int \<times> 'm) \<Rightarrow> u64 \<Rightarrow> u64 \<Rightarrow> u32 \<Rightarrow> 'm \<Rightarrow> vringh_kiov \<Rightarrow>
    int \<times> 'm \<times> vringh_kiov" where
  "vringh_iov_xfer xfer off len moved m iov =
     (if len \<noteq> 0 \<and> k_i iov < k_used iov then
        let e = k_iov iov (unat (k_i iov)); part = min (iov_len e) len
        in (case xfer (iov_base e) off part m of (err, m') \<Rightarrow>
          if err \<noteq> 0 then (err, m', iov)
          else vringh_iov_xfer xfer (off + part) (len - part) (moved + ucast part) m' (consume_block part iov))
      else (sint moved, m, iov))"
  by auto

termination
proof (relation "measure (\<lambda>(f, off, len, moved, m, iov). unat (k_used iov) - unat (k_i iov) + (if len = 0 then 0 else 1))")
  fix xfer :: "u64 \<Rightarrow> u64 \<Rightarrow> u64 \<Rightarrow> 'm \<Rightarrow> int \<times> 'm" and off len :: u64 and moved :: u32 and m :: 'm and iov :: vringh_kiov and e part x err m'
  assume a: "len \<noteq> 0 \<and> k_i iov < k_used iov" "e = k_iov iov (unat (k_i iov))" "part = min (iov_len e) len"
  have lt: "unat (k_i iov) < unat (k_used iov)" using a(1) by (simp add: word_less_nat_alt)
  note c = consume_block_more [OF conjunct2 [OF a(1)] a(2,3)]
  show "((xfer, off + part, len - part, moved + ucast part, m', consume_block part iov), xfer, off, len, moved, m, iov)
      \<in> measure (\<lambda>(f, off, len, moved, m, iov). unat (k_used iov) - unat (k_i iov) + (if len = 0 then 0 else 1))"
    using c(1,3) a(1) lt by (auto simp: c(2))
qed simp

section \<open>Ranges of user memory\<close>

text \<open>
  \<open>range_check\<close>: \<open>getrange\<close> finds the range of an address. The length is cut off at the end of the
  range.
\<close>

type_synonym rcheck = "u64 \<Rightarrow> u64 \<Rightarrow> vringh_range \<Rightarrow> (bool \<times> u64 \<times> vringh_range) outcome"

definition range_check :: "(u64 \<Rightarrow> vringh_range \<Rightarrow> bool \<times> vringh_range) \<Rightarrow> rcheck" where
  "range_check getrange addr len r =
     (case (if addr < r_start r \<or> end_incl r < addr then getrange addr r else (True, r)) of (found, r') \<Rightarrow>
       if \<not> found then Ret (False, len, r')
       else if addr < r_start r' \<or> end_incl r' < addr then Abort
       else let cut = Ret (True, end_incl r' + 1 - addr, r')
         in if addr + len = 0 then (if end_incl r' = - 1 then Ret (True, len, r') else cut)
            else if addr + len < addr then Ret (False, len, r')
            else if end_incl r' < addr + len - 1 then cut
            else Ret (True, len, r'))"

definition no_range_check :: rcheck where "no_range_check addr len r = Ret (True, len, r)"

section \<open>Chains of descriptors\<close>

text \<open>A pointer to a table of descriptors, and what the traversal uses of its surroundings.\<close>

datatype desc_ptr = Ring_table | Table_at u64

record vringh_env =
  copy :: "desc_ptr \<Rightarrow> nat \<Rightarrow> int \<times> vring_desc"
  slow_fetch :: "vringh_range \<Rightarrow> desc_ptr \<Rightarrow> nat \<Rightarrow> (int \<times> vring_desc \<times> vringh_range) outcome option"
  rcheck :: rcheck
  alloc :: "nat \<Rightarrow> bool"

record iov_state =
  it :: u16
  descs :: desc_ptr
  desc_max :: int
  up_next :: int
  n_seen :: nat
  cur_range :: vringh_range
  slow :: bool
  slowrange :: vringh_range
  riov :: "vringh_kiov option"
  wiov :: "vringh_kiov option"

definition move_to_indirect :: "u64 \<Rightarrow> vring_desc \<Rightarrow> iov_state \<Rightarrow> int \<times> iov_state" where
  "move_to_indirect addr e st =
     (if up_next st \<noteq> - 1 then (- EINVAL, st)
      else if unat (d_len e) mod 16 \<noteq> 0 then (- EINVAL, st)
      else (0, st\<lparr>up_next := (if d_flags e AND VRING_DESC_F_NEXT \<noteq> 0 then int (unat (d_next e)) else - 2),
               descs := Table_at addr, desc_max := int (unat (d_len e) div 16), it := 0\<rparr>))"

definition return_from_indirect :: "vring \<Rightarrow> iov_state \<Rightarrow> iov_state" where
  "return_from_indirect vr st = st\<lparr>it := of_int (up_next st), up_next := - 1, descs := Ring_table,
     desc_max := int (unat (num vr))\<rparr>"

definition resize_iovec :: "(nat \<Rightarrow> bool) \<Rightarrow> vringh_kiov \<Rightarrow> int \<times> vringh_kiov" where
  "resize_iovec al iov =
     (let new_num = (let n = (max_num iov AND NOT VRINGH_IOV_ALLOCATED) * 2 in if n < 8 then 8 else n)
      in if al (unat new_num) then (0, iov\<lparr>max_num := new_num OR VRINGH_IOV_ALLOCATED\<rparr>) else (- ENOMEM, iov))"

text \<open>The part from \<open>again\<close> on: a descriptor becomes one block for each range it touches.\<close>

definition append_block :: "u64 \<Rightarrow> u64 \<Rightarrow> vringh_kiov \<Rightarrow> vringh_kiov" where
  "append_block a len iov = iov\<lparr>k_iov := (k_iov iov)(unat (k_used iov) := \<lparr>iov_base = a, iov_len = len\<rparr>), k_used := k_used iov + 1\<rparr>"

partial_function (option) iov_add :: "rcheck \<Rightarrow> (nat \<Rightarrow> bool) \<Rightarrow> u64 \<Rightarrow> u32 \<Rightarrow> vringh_range \<Rightarrow> vringh_kiov \<Rightarrow>
    (int \<times> vringh_range \<times> vringh_kiov) outcome option" where
  "iov_add rck al addr dlen r iov =
     (case rck addr (ucast dlen) r of Abort \<Rightarrow> Some Abort | Ret (ok, len, r') \<Rightarrow>
      if \<not> ok then Some (Ret (- EINVAL, r', iov))
      else (case (if k_used iov = max_num iov AND NOT VRINGH_IOV_ALLOCATED then resize_iovec al iov else (0, iov)) of (err, iov1) \<Rightarrow>
        if err \<noteq> 0 then Some (Ret (err, r', iov1))
        else let iov2 = append_block (addr + r_offset r') len iov1
          in if len \<noteq> ucast dlen then iov_add rck al (addr + len) (dlen - ucast len) r' iov2
             else Some (Ret (0, r', iov2))))"

text \<open>
  One turn of the loop of \<open>__vringh_iov\<close>: it goes on with a next state or ends with a result.
\<close>

datatype turn = Goes_on iov_state | Ends int iov_state

definition fetch_desc :: "vringh_env \<Rightarrow> iov_state \<Rightarrow> (int \<times> vring_desc \<times> iov_state) outcome option" where
  "fetch_desc env st =
     (if slow st then (case slow_fetch env (slowrange st) (descs st) (unat (it st)) of None \<Rightarrow> None | Some Abort \<Rightarrow> Some Abort
        | Some (Ret (err, e, r)) \<Rightarrow> Some (Ret (err, e, st\<lparr>slowrange := r\<rparr>)))
      else (case copy env (descs st) (unat (it st)) of (err, e) \<Rightarrow> Some (Ret (err, e, st))))"

definition enter_indirect :: "vringh_env \<Rightarrow> vring_desc \<Rightarrow> iov_state \<Rightarrow> turn outcome" where
  "enter_indirect env e st =
     (case rcheck env (d_addr e) (ucast (d_len e)) (cur_range st) of Abort \<Rightarrow> Abort | Ret (ok, len, r) \<Rightarrow>
      let st1 = st\<lparr>cur_range := r\<rparr> in
      if \<not> ok then Ret (Ends (- EINVAL) st1)
      else let st2 = (if len \<noteq> ucast (d_len e) then st1\<lparr>slow := True, slowrange := r\<rparr> else st1)
        in (case move_to_indirect (d_addr e + r_offset r) e st2 of (err, st3) \<Rightarrow>
              Ret (if err \<noteq> 0 then Ends err st3 else Goes_on st3)))"

text \<open>After a descriptor: the next of the chain, back from an indirect table, or the end.\<close>

definition next_desc :: "vring \<Rightarrow> vring_desc \<Rightarrow> iov_state \<Rightarrow> turn" where
  "next_desc vr e st =
     (let in_range = (\<lambda>st. if desc_max st \<le> int (unat (it st)) then Ends (- EINVAL) st else Goes_on st)
      in if d_flags e AND VRING_DESC_F_NEXT \<noteq> 0 then in_range (st\<lparr>it := d_next e\<rparr>)
         else if 0 < up_next st then in_range ((return_from_indirect vr st)\<lparr>slow := False\<rparr>)
         else Ends 0 st)"

definition add_desc :: "vringh_env \<Rightarrow> vring \<Rightarrow> vring_desc \<Rightarrow> iov_state \<Rightarrow> turn outcome option" where
  "add_desc env vr e st =
     (if n_seen st = unat (num vr) then Some (Ret (Ends (- ELOOP) (st\<lparr>n_seen := n_seen st + 1\<rparr>))) else
      let st1 = st\<lparr>n_seen := n_seen st + 1\<rparr>; wr = d_flags e AND VRING_DESC_F_WRITE \<noteq> 0 in
      if \<not> wr \<and> (case wiov st1 of None \<Rightarrow> False | Some w \<Rightarrow> k_i w \<noteq> 0) then Some (Ret (Ends (- EINVAL) st1))
      else (case (if wr then wiov st1 else riov st1) of None \<Rightarrow> Some (Ret (Ends (- EPROTO) st1)) | Some v \<Rightarrow>
        (case iov_add (rcheck env) (alloc env) (d_addr e) (d_len e) (cur_range st1) v of None \<Rightarrow> None
         | Some Abort \<Rightarrow> Some Abort
         | Some (Ret (err, r, v')) \<Rightarrow>
             let st2 = (if wr then st1\<lparr>cur_range := r, wiov := Some v'\<rparr> else st1\<lparr>cur_range := r, riov := Some v'\<rparr>)
             in Some (Ret (if err \<noteq> 0 then Ends err st2 else next_desc vr e st2)))))"

definition iov_turn :: "vringh_env \<Rightarrow> vring \<Rightarrow> iov_state \<Rightarrow> turn outcome option" where
  "iov_turn env vr st = (case fetch_desc env st of None \<Rightarrow> None | Some Abort \<Rightarrow> Some Abort | Some (Ret (err, e, st')) \<Rightarrow>
     if err \<noteq> 0 then Some (Ret (Ends err st'))
     else if d_flags e AND VRING_DESC_F_INDIRECT \<noteq> 0 then Some (enter_indirect env e st')
     else add_desc env vr e st')"

partial_function (option) iov_loop :: "vringh_env \<Rightarrow> vring \<Rightarrow> iov_state \<Rightarrow> (int \<times> iov_state) outcome option" where
  "iov_loop env vr st = (case iov_turn env vr st of None \<Rightarrow> None | Some Abort \<Rightarrow> Some Abort
     | Some (Ret (Goes_on st')) \<Rightarrow> iov_loop env vr st' | Some (Ret (Ends rc st')) \<Rightarrow> Some (Ret (rc, st')))"

text \<open>The vectors are emptied: the first of the two only, when both are given.\<close>

definition vringh_iov :: "vringh_env \<Rightarrow> vring \<Rightarrow> u16 \<Rightarrow> vringh_kiov option \<Rightarrow> vringh_kiov option \<Rightarrow>
    (int \<times> vringh_kiov option \<times> vringh_kiov option) outcome option" where
  "vringh_iov env vr head r w =
     (let empty = (\<lambda>v. v\<lparr>k_i := 0, k_used := 0\<rparr>) in
      if r = None \<and> w = None then Some Abort else
      (case iov_loop env vr \<lparr>it = head, descs = Ring_table, desc_max = int (unat (num vr)), up_next = - 1, n_seen = 0,
          cur_range = \<lparr>r_start = - 1, end_incl = 0, r_offset = 0\<rparr>, slow = False,
          slowrange = \<lparr>r_start = 0, end_incl = 0, r_offset = 0\<rparr>, riov = map_option empty r,
          wiov = (if r = None then map_option empty w else w)\<rparr> of
        None \<Rightarrow> None | Some Abort \<Rightarrow> Some Abort
      | Some (Ret (err, st)) \<Rightarrow> Some (Ret (err, riov st, wiov st))))"

section \<open>Completion and notification\<close>

definition vringh_complete :: "putu16 \<Rightarrow> putused \<Rightarrow> vring_used_elem list \<Rightarrow> vringh \<Rightarrow> int \<times> vringh" where
  "vringh_complete putu16 putused es vrh =
     (let used_idx = h_last_used_idx vrh + ucast (completed vrh);
          n = unat (num (h_vring vrh)); off = unat used_idx mod n
      in (case (if 1 < length es \<and> n \<le> off + length es
                then (case putused off (take (n - off) es) (h_vring vrh) of (err, vr1) \<Rightarrow>
                  if err = 0 then putused 0 (drop (n - off) es) vr1 else (err, vr1))
                else putused off es (h_vring vrh)) of (err, vr1) \<Rightarrow>
          if err \<noteq> 0 then (err, vrh\<lparr>h_vring := vr1\<rparr>)
          else (case putu16 Used_idx (used_idx + of_nat (length es)) vr1 of (err, vr2) \<Rightarrow>
            if err \<noteq> 0 then (err, vrh\<lparr>h_vring := vr2\<rparr>)
            else (0, vrh\<lparr>h_vring := vr2, completed := completed vrh + of_nat (length es)\<rparr>))))"

text \<open>The result is an error or, as an \<open>int\<close>, whether to notify.\<close>

definition vringh_need_notify :: "getu16 \<Rightarrow> vringh \<Rightarrow> int \<times> vringh" where
  "vringh_need_notify getu16 vrh =
     (if \<not> event_indices vrh then
        (case getu16 (h_vring vrh) Avail_flags of (err, flags) \<Rightarrow>
          if err \<noteq> 0 then (err, vrh) else (of_bool (flags AND VRING_AVAIL_F_NO_INTERRUPT = 0), vrh))
      else (case getu16 (h_vring vrh) (Avail_ring (unat (num (h_vring vrh)))) of (err, used_event) \<Rightarrow>
        if err \<noteq> 0 then (err, vrh)
        else let new = h_last_used_idx vrh + ucast (completed vrh);
            tell = (0xffff < completed vrh \<or> vring_need_event used_event new (h_last_used_idx vrh))
          in (of_bool tell, vrh\<lparr>h_last_used_idx := new, completed := 0\<rparr>)))"

definition vringh_notify_enable :: "getu16 \<Rightarrow> putu16 \<Rightarrow> vringh \<Rightarrow> bool \<times> vringh" where
  "vringh_notify_enable getu16 putu16 vrh =
     (case (if \<not> event_indices vrh then putu16 Used_flags 0 (h_vring vrh)
            else putu16 Avail_event (last_avail_idx vrh) (h_vring vrh)) of (err, vr1) \<Rightarrow>
       let vrh1 = vrh\<lparr>h_vring := vr1\<rparr> in
       if err \<noteq> 0 then (True, vrh1)
       else (case getu16 vr1 Avail_idx of (err, idx) \<Rightarrow>
         if err \<noteq> 0 then (True, vrh1) else (idx = last_avail_idx vrh, vrh1)))"

definition vringh_notify_disable :: "putu16 \<Rightarrow> vringh \<Rightarrow> vringh" where
  "vringh_notify_disable putu16 vrh =
     (if \<not> event_indices vrh then vrh\<lparr>h_vring := snd (putu16 Used_flags VRING_USED_F_NO_NOTIFY (h_vring vrh))\<rparr> else vrh)"

section \<open>The interface for rings in kernel memory\<close>

definition vringh_init :: "vringh \<Rightarrow> u64 \<Rightarrow> u32 \<Rightarrow> bool \<Rightarrow> vring \<Rightarrow> int \<times> vringh" where
  "vringh_init vrh fs n weak vr =
     (if n = 0 \<or> 0xffff < n \<or> n AND (n - 1) \<noteq> 0 then (- EINVAL, vrh)
      else (0, \<lparr>little_endian = bit fs VIRTIO_F_VERSION_1, event_indices = bit fs VIRTIO_RING_F_EVENT_IDX,
        weak_barriers = weak, last_avail_idx = 0, h_last_used_idx = 0, completed = 0, h_vring = vr\<lparr>num := n\<rparr>\<rparr>))"

definition vca_vringh_init_kern :: "vringh \<Rightarrow> u64 \<Rightarrow> u32 \<Rightarrow> bool \<Rightarrow> vring \<Rightarrow> int \<times> vringh" where
  "vca_vringh_init_kern vrh fs n weak vr = vringh_init vrh fs n weak vr"

text \<open>The memory of descriptors that the kernel reads: the ring's own and the indirect tables.\<close>

definition copydesc_kern :: "vring \<Rightarrow> (u64 \<Rightarrow> vring_desc mem) \<Rightarrow> desc_ptr \<Rightarrow> nat \<Rightarrow> int \<times> vring_desc" where
  "copydesc_kern vr tables p j = (0, case p of Ring_table \<Rightarrow> desc vr j | Table_at a \<Rightarrow> tables a j)"

definition kern_env :: "vring \<Rightarrow> (u64 \<Rightarrow> vring_desc mem) \<Rightarrow> (nat \<Rightarrow> bool) \<Rightarrow> vringh_env" where
  "kern_env vr tables al = \<lparr>copy = copydesc_kern vr tables,
     slow_fetch = (\<lambda>r p j. case copydesc_kern vr tables p j of (err, e) \<Rightarrow> Some (Ret (err, e, r))),
     rcheck = no_range_check, alloc = al\<rparr>"

text \<open>The results are the return value, the head, the vectors and the ring.\<close>

definition vca_vringh_getdesc_kern :: "(u64 \<Rightarrow> vring_desc mem) \<Rightarrow> (nat \<Rightarrow> bool) \<Rightarrow> vringh \<Rightarrow> vringh_kiov option \<Rightarrow>
    vringh_kiov option \<Rightarrow> u16 \<Rightarrow> (int \<times> u16 \<times> vringh_kiov option \<times> vringh_kiov option \<times> vringh) outcome option" where
  "vca_vringh_getdesc_kern tables al vrh r w head =
     (case vringh_get_head getu16_kern (h_vring vrh) (last_avail_idx vrh) of (err, idx) \<Rightarrow>
      let vrh1 = vrh\<lparr>last_avail_idx := idx\<rparr> in
      if err < 0 then Some (Ret (err, head, r, w, vrh1))
      else if err = int (unat (num (h_vring vrh))) then Some (Ret (0, head, r, w, vrh1))
      else let head' = of_int err in
        (case vringh_iov (kern_env (h_vring vrh) tables al) (h_vring vrh) head' r w of
          None \<Rightarrow> None | Some Abort \<Rightarrow> Some Abort
        | Some (Ret (err', r', w')) \<Rightarrow> Some (Ret (if err' \<noteq> 0 then err' else 1, head', r', w', vrh1))))"

text \<open>
  Copying from and to the blocks; the memory is one of bytes with the caller's buffer beside it. A
  block is at its address, whatever that means for the machine.
\<close>

definition xfer_pull :: "u64 \<Rightarrow> u64 \<Rightarrow> u64 \<Rightarrow> u8 mem \<times> u8 mem \<Rightarrow> int \<times> (u8 mem \<times> u8 mem)" where
  "xfer_pull base off n m = (0, fst m, blit (snd m) (unat off) (fst m) (unat base) (unat n))"

definition xfer_push :: "u64 \<Rightarrow> u64 \<Rightarrow> u64 \<Rightarrow> u8 mem \<times> u8 mem \<Rightarrow> int \<times> (u8 mem \<times> u8 mem)" where
  "xfer_push base off n m = (0, blit (fst m) (unat base) (snd m) (unat off) (unat n), snd m)"

definition vca_vringh_iov_pull_kern :: "u64 \<Rightarrow> u8 mem \<times> u8 mem \<Rightarrow> vringh_kiov \<Rightarrow> int \<times> (u8 mem \<times> u8 mem) \<times> vringh_kiov" where
  "vca_vringh_iov_pull_kern len m v = vringh_iov_xfer xfer_pull 0 len 0 m v"

definition vca_vringh_iov_push_kern :: "u64 \<Rightarrow> u8 mem \<times> u8 mem \<Rightarrow> vringh_kiov \<Rightarrow> int \<times> (u8 mem \<times> u8 mem) \<times> vringh_kiov" where
  "vca_vringh_iov_push_kern len m v = vringh_iov_xfer xfer_push 0 len 0 m v"

definition vca_vringh_abandon_kern :: "u32 \<Rightarrow> vringh \<Rightarrow> vringh" where
  "vca_vringh_abandon_kern n vrh = vrh\<lparr>last_avail_idx := last_avail_idx vrh - ucast n\<rparr>"

definition vca_vringh_complete_kern :: "u16 \<Rightarrow> u32 \<Rightarrow> vringh \<Rightarrow> int \<times> vringh" where
  "vca_vringh_complete_kern head len vrh =
     vringh_complete putu16_kern putused_kern [\<lparr>ue_id = ucast head, ue_len = len\<rparr>] vrh"

definition vca_vringh_notify_enable_kern :: "vringh \<Rightarrow> bool \<times> vringh" where
  "vca_vringh_notify_enable_kern vrh = vringh_notify_enable getu16_kern putu16_kern vrh"

definition vca_vringh_notify_disable_kern :: "vringh \<Rightarrow> vringh" where
  "vca_vringh_notify_disable_kern vrh = vringh_notify_disable putu16_kern vrh"

definition vca_vringh_need_notify_kern :: "vringh \<Rightarrow> int \<times> vringh" where
  "vca_vringh_need_notify_kern vrh = vringh_need_notify getu16_kern vrh"

section \<open>The interface for rings in user memory\<close>

definition vca_vringh_init_user :: "vringh \<Rightarrow> u64 \<Rightarrow> u32 \<Rightarrow> bool \<Rightarrow> vring \<Rightarrow> int \<times> vringh" where
  "vca_vringh_init_user vrh fs n weak vr = vringh_init vrh fs n weak vr"

text \<open>
  Descriptors in user memory: bytes at an address, in the order of \<open>struct vring_desc\<close>. \<open>bad a n\<close>
  says that \<open>n\<close> bytes at \<open>a\<close> cannot be copied, \<open>base\<close> is the address of the ring's own table.
\<close>

definition desc_of_bytes :: "u8 list \<Rightarrow> vring_desc" where
  "desc_of_bytes bs = \<lparr>d_addr = of_nat (le_val (take 8 bs)), d_len = of_nat (le_val (take 4 (drop 8 bs))),
     d_flags = of_nat (le_val (take 2 (drop 12 bs))), d_next = of_nat (le_val (take 2 (drop 14 bs)))\<rparr>"

definition copydesc_user :: "(u64 \<Rightarrow> u64 \<Rightarrow> bool) \<Rightarrow> u8 mem \<Rightarrow> u64 \<Rightarrow> u64 \<Rightarrow> int \<times> u8 list" where
  "copydesc_user bad m src n = (if bad src n then (- EFAULT, []) else (0, map (\<lambda>k. m (unat src + k)) [0..<unat n]))"

text \<open>The copy in parts, each at most to the end of its range; \<open>bs\<close> are the bytes copied so far.\<close>

partial_function (option) slow_copy :: "rcheck \<Rightarrow> (u64 \<Rightarrow> u64 \<Rightarrow> int \<times> u8 list) \<Rightarrow> u64 \<Rightarrow> u64 \<Rightarrow> vringh_range \<Rightarrow> u8 list \<Rightarrow>
    (int \<times> u8 list \<times> vringh_range) outcome option" where
  "slow_copy rck cp src len r bs =
     (case rck (src - r_offset r) len r of Abort \<Rightarrow> Some Abort | Ret (ok, part, r') \<Rightarrow>
      if \<not> ok then Some (Ret (- EINVAL, bs, r'))
      else (case cp src part of (err, new) \<Rightarrow>
        if err \<noteq> 0 then Some (Ret (err, bs, r'))
        else if len - part = 0 then Some (Ret (0, bs @ new, r'))
        else slow_copy rck cp (src + part) (len - part) r' (bs @ new)))"

definition desc_addr :: "u64 \<Rightarrow> desc_ptr \<Rightarrow> nat \<Rightarrow> u64" where
  "desc_addr base p j = (case p of Ring_table \<Rightarrow> base | Table_at a \<Rightarrow> a) + 16 * of_nat j"

definition user_env :: "(u64 \<Rightarrow> u64 \<Rightarrow> bool) \<Rightarrow> u8 mem \<Rightarrow> u64 \<Rightarrow> (nat \<Rightarrow> bool) \<Rightarrow>
    (u64 \<Rightarrow> vringh_range \<Rightarrow> bool \<times> vringh_range) \<Rightarrow> vringh_env" where
  "user_env bad m base al getrange =
     \<lparr>copy = (\<lambda>p j. case copydesc_user bad m (desc_addr base p j) 16 of (err, bs) \<Rightarrow> (err, desc_of_bytes bs)),
      slow_fetch = (\<lambda>r p j. case slow_copy (range_check getrange) (copydesc_user bad m) (desc_addr base p j) 16 r [] of
          None \<Rightarrow> None | Some Abort \<Rightarrow> Some Abort | Some (Ret (err, bs, r')) \<Rightarrow> Some (Ret (err, desc_of_bytes bs, r'))),
      rcheck = range_check getrange, alloc = al\<rparr>"

definition vca_vringh_getdesc_user :: "(cell16 \<Rightarrow> bool) \<Rightarrow> (u64 \<Rightarrow> u64 \<Rightarrow> bool) \<Rightarrow> u8 mem \<Rightarrow> u64 \<Rightarrow> (nat \<Rightarrow> bool) \<Rightarrow>
    (u64 \<Rightarrow> vringh_range \<Rightarrow> bool \<times> vringh_range) \<Rightarrow> vringh \<Rightarrow> vringh_kiov option \<Rightarrow> vringh_kiov option \<Rightarrow>
    (int \<times> u16 \<times> vringh_kiov option \<times> vringh_kiov option \<times> vringh) outcome option" where
  "vca_vringh_getdesc_user fault bad m base al getrange vrh r w =
     (let head = ucast (num (h_vring vrh)) in
      case vringh_get_head (getu16_user fault) (h_vring vrh) (last_avail_idx vrh) of (err, idx) \<Rightarrow>
      let vrh1 = vrh\<lparr>last_avail_idx := idx\<rparr> in
      if err < 0 then Some (Ret (err, head, r, w, vrh1))
      else if err = int (unat (num (h_vring vrh))) then Some (Ret (0, head, r, w, vrh1))
      else let head' = of_int err in
        (case vringh_iov (user_env bad m base al getrange) (h_vring vrh) head' r w of
          None \<Rightarrow> None | Some Abort \<Rightarrow> Some Abort
        | Some (Ret (err', r', w')) \<Rightarrow> Some (Ret (if err' \<noteq> 0 then err' else 1, head', r', w', vrh1))))"

text \<open>Copies from and to user memory, which fault where \<open>bad\<close> says so.\<close>

definition xfer_from_user :: "(u64 \<Rightarrow> u64 \<Rightarrow> bool) \<Rightarrow> u64 \<Rightarrow> u64 \<Rightarrow> u64 \<Rightarrow> u8 mem \<times> u8 mem \<Rightarrow> int \<times> (u8 mem \<times> u8 mem)" where
  "xfer_from_user bad base off n m = (if bad base n then (- EFAULT, m) else xfer_pull base off n m)"

definition xfer_to_user :: "(u64 \<Rightarrow> u64 \<Rightarrow> bool) \<Rightarrow> u64 \<Rightarrow> u64 \<Rightarrow> u64 \<Rightarrow> u8 mem \<times> u8 mem \<Rightarrow> int \<times> (u8 mem \<times> u8 mem)" where
  "xfer_to_user bad base off n m = (if bad base n then (- EFAULT, m) else xfer_push base off n m)"

definition vca_vringh_iov_pull_user :: "(u64 \<Rightarrow> u64 \<Rightarrow> bool) \<Rightarrow> u64 \<Rightarrow> u8 mem \<times> u8 mem \<Rightarrow> vringh_kiov \<Rightarrow>
    int \<times> (u8 mem \<times> u8 mem) \<times> vringh_kiov" where
  "vca_vringh_iov_pull_user bad len m v = vringh_iov_xfer (xfer_from_user bad) 0 len 0 m v"

definition vca_vringh_iov_push_user :: "(u64 \<Rightarrow> u64 \<Rightarrow> bool) \<Rightarrow> u64 \<Rightarrow> u8 mem \<times> u8 mem \<Rightarrow> vringh_kiov \<Rightarrow>
    int \<times> (u8 mem \<times> u8 mem) \<times> vringh_kiov" where
  "vca_vringh_iov_push_user bad len m v = vringh_iov_xfer (xfer_to_user bad) 0 len 0 m v"

definition vca_vringh_abandon_user :: "u32 \<Rightarrow> vringh \<Rightarrow> vringh" where
  "vca_vringh_abandon_user n vrh = vrh\<lparr>last_avail_idx := last_avail_idx vrh - ucast n\<rparr>"

definition vca_vringh_complete_user :: "(cell16 \<Rightarrow> bool) \<Rightarrow> (nat \<Rightarrow> nat \<Rightarrow> bool) \<Rightarrow> u16 \<Rightarrow> u32 \<Rightarrow> vringh \<Rightarrow> int \<times> vringh" where
  "vca_vringh_complete_user fault ufault head len vrh =
     vringh_complete (putu16_user fault) (putused_user ufault) [\<lparr>ue_id = ucast head, ue_len = len\<rparr>] vrh"

definition vca_vringh_complete_multi_user :: "(cell16 \<Rightarrow> bool) \<Rightarrow> (nat \<Rightarrow> nat \<Rightarrow> bool) \<Rightarrow> vring_used_elem list \<Rightarrow>
    vringh \<Rightarrow> int \<times> vringh" where
  "vca_vringh_complete_multi_user fault ufault es vrh =
     vringh_complete (putu16_user fault) (putused_user ufault) es vrh"

definition vca_vringh_notify_enable_user :: "(cell16 \<Rightarrow> bool) \<Rightarrow> vringh \<Rightarrow> bool \<times> vringh" where
  "vca_vringh_notify_enable_user fault vrh = vringh_notify_enable (getu16_user fault) (putu16_user fault) vrh"

definition vca_vringh_notify_disable_user :: "(cell16 \<Rightarrow> bool) \<Rightarrow> vringh \<Rightarrow> vringh" where
  "vca_vringh_notify_disable_user fault vrh = vringh_notify_disable (putu16_user fault) vrh"

definition vca_vringh_need_notify_user :: "(cell16 \<Rightarrow> bool) \<Rightarrow> vringh \<Rightarrow> int \<times> vringh" where
  "vca_vringh_need_notify_user fault vrh = vringh_need_notify (getu16_user fault) vrh"

end
