(* ===== verification/Vringh_Facts.thy ===== *)
theory Vringh_Facts
  imports Virtq_Props Vringh
begin

text \<open>
  The device's side of a virtqueue: the traversal of a chain ends for every memory and collects exactly
  the buffer the driver wrote; a completion appends to the used ring.
\<close>

section \<open>Vectors of blocks\<close>

definition iov_cap :: "vringh_kiov \<Rightarrow> u32" where "iov_cap iov = max_num iov AND NOT VRINGH_IOV_ALLOCATED"

definition blocks :: "vringh_kiov \<Rightarrow> kvec list" where "blocks iov = map (k_iov iov) [0..<unat (k_used iov)]"

definition iov_fits :: "nat \<Rightarrow> vringh_kiov \<Rightarrow> bool" where
  "iov_fits m iov \<longleftrightarrow> unat (k_used iov) \<le> m \<and> k_used iov \<le> iov_cap iov"

lemma length_blocks [simp]: "length (blocks iov) = unat (k_used iov)" by (simp add: blocks_def)

lemma append_block_ok:
  assumes "unat (k_used iov) < 65536"
  shows "blocks (append_block a len iov) = blocks iov @ [\<lparr>iov_base = a, iov_len = len\<rparr>]"
    and "unat (k_used (append_block a len iov)) = unat (k_used iov) + 1"
    and "k_i (append_block a len iov) = k_i iov" and "max_num (append_block a len iov) = max_num iov"
proof -
  show u: "unat (k_used (append_block a len iov)) = unat (k_used iov) + 1"
    using assms by (simp add: append_block_def unat_word_ariths)
  show "blocks (append_block a len iov) = blocks iov @ [\<lparr>iov_base = a, iov_len = len\<rparr>]"
    unfolding blocks_def u by (simp add: append_block_def)
qed (simp_all add: append_block_def)

lemma cap_flag:
  assumes "n < (2 :: u32) ^ 27"
  shows "(n OR VRINGH_IOV_ALLOCATED) AND NOT VRINGH_IOV_ALLOCATED = n"
proof -
  have f: "VRINGH_IOV_ALLOCATED = push_bit 27 1" by (simp add: VRINGH_IOV_ALLOCATED_def)
  have "unat n < 2 ^ 27" using assms by (simp add: word_less_nat_alt)
  then have "\<not> bit (unat n) 27" by (simp add: bit_iff_odd)
  then have "\<not> bit n 27" by (simp add: bit_unsigned_iff)
  moreover have "bit VRINGH_IOV_ALLOCATED k \<longleftrightarrow> k = 27" for k
    unfolding f bit_push_bit_iff by (auto simp: bit_1_iff)
  ultimately show ?thesis by (intro bit_word_eqI) (auto simp: bit_and_iff bit_or_iff bit_not_iff)
qed

lemma resize_ok:
  assumes "k_used iov = iov_cap iov" and "unat (k_used iov) < 65536" and "al = (\<lambda>_. True)"
  shows "\<exists>iov'. resize_iovec al iov = (0, iov') \<and> k_iov iov' = k_iov iov \<and> k_used iov' = k_used iov \<and> k_i iov' = k_i iov \<and>
    k_used iov' < iov_cap iov'"
proof -
  define n where "n = (let n = iov_cap iov * 2 in if n < 8 then 8 else n)"
  have c: "unat (iov_cap iov) < 65536" using assms(1,2) by simp
  then have d: "unat (iov_cap iov * 2) = unat (iov_cap iov) * 2" by (simp add: unat_word_ariths)
  have u: "unat n = max 8 (unat (iov_cap iov) * 2)" using d by (auto simp: n_def Let_def word_less_nat_alt)
  then have "n < 2 ^ 27" using c by (simp add: word_less_nat_alt)
  then have f: "(n OR VRINGH_IOV_ALLOCATED) AND NOT VRINGH_IOV_ALLOCATED = n" by (rule cap_flag)
  have "k_used iov < n" using u c assms(1) by (simp add: word_less_nat_alt)
  moreover have "resize_iovec al iov = (0, iov\<lparr>max_num := n OR VRINGH_IOV_ALLOCATED\<rparr>)"
    using assms(3) by (simp add: resize_iovec_def n_def iov_cap_def Let_def)
  ultimately show ?thesis by (intro exI [of _ "iov\<lparr>max_num := n OR VRINGH_IOV_ALLOCATED\<rparr>"]) (simp add: iov_cap_def f)
qed

text \<open>A descriptor in kernel memory becomes one block.\<close>

lemma iov_add_ok:
  assumes "iov_fits m iov" and "m < 65535" and "al = (\<lambda>_. True)"
  shows "\<exists>iov'. iov_add no_range_check al addr len r iov = Some (Ret (0, r, iov')) \<and> iov_fits (m + 1) iov' \<and>
    blocks iov' = blocks iov @ [\<lparr>iov_base = addr + r_offset r, iov_len = ucast len\<rparr>] \<and> k_i iov' = k_i iov"
proof -
  have k: "unat (k_used iov) < 65536" using assms(1,2) by (simp add: iov_fits_def)
  let ?a = "append_block (addr + r_offset r) (ucast len)"
  obtain iov1 where i: "(if k_used iov = iov_cap iov then resize_iovec al iov else (0, iov)) = (0, iov1)"
    "k_iov iov1 = k_iov iov" "k_used iov1 = k_used iov" "k_i iov1 = k_i iov" "k_used iov1 < iov_cap iov1"
  proof (cases "k_used iov = iov_cap iov")
    case True
    then show ?thesis using resize_ok [OF True k assms(3)] that by auto
  next
    case False
    then show ?thesis using that [of iov] assms(1) by (simp add: iov_fits_def order_less_le)
  qed
  have k1: "unat (k_used iov1) < 65536" using k i(3) by simp
  note a = append_block_ok [OF k1, of "addr + r_offset r" "ucast len"]
  have "iov_add no_range_check al addr len r iov = Some (Ret (0, r, ?a iov1))"
    using i(1) by (subst iov_add.simps) (simp add: no_range_check_def iov_cap_def)
  moreover have "blocks iov1 = blocks iov" by (simp add: blocks_def i)
  moreover have "k_used (?a iov1) \<le> iov_cap (?a iov1)"
    using a(2) i(5) by (simp add: word_le_nat_alt word_less_nat_alt iov_cap_def a(4))
  ultimately show ?thesis using a i assms(1) by (intro exI [of _ "?a iov1"]) (simp add: iov_fits_def)
qed

section \<open>The traversal of a chain\<close>

text \<open>The blocks of the readable and of the writable descriptors.\<close>

definition block_of :: "u64 \<times> u32 \<times> bool \<Rightarrow> kvec" where
  "block_of p = \<lparr>iov_base = fst p, iov_len = ucast (fst (snd p))\<rparr>"

definition reads :: "buffer \<Rightarrow> kvec list" where "reads v = map block_of (filter (\<lambda>p. \<not> snd (snd p)) v)"
definition writes :: "buffer \<Rightarrow> kvec list" where "writes v = map block_of (filter (\<lambda>p. snd (snd p)) v)"

lemma view_Cons: "view d (x # xs) = (d_addr (d x), d_len (d x), is_write (d x)) # view d xs" by (simp add: view_def)

definition no_range :: vringh_range where "no_range = \<lparr>r_start = - 1, end_incl = 0, r_offset = 0\<rparr>"

text \<open>A state of the loop in a table \<open>t\<close> with room for what comes.\<close>

definition at_table :: "vringh_env \<Rightarrow> vring \<Rightarrow> vring_desc mem \<Rightarrow> iov_state \<Rightarrow> vringh_kiov \<Rightarrow> vringh_kiov \<Rightarrow> bool" where
  "at_table env vr t st r w \<longleftrightarrow> (\<forall>j. copy env (descs st) j = (0, t j)) \<and> rcheck env = no_range_check \<and>
     alloc env = (\<lambda>_. True) \<and> \<not> slow st \<and> up_next st \<le> 0 \<and> cur_range st = no_range \<and> riov st = Some r \<and> wiov st = Some w \<and>
     k_i w = 0 \<and> iov_fits (n_seen st) r \<and> iov_fits (n_seen st) w \<and> unat (num vr) < 65536"

lemma turn_ok:
  assumes "at_table env vr t st r w" and "n_seen st < unat (num vr)" and "\<not> is_indirect (t (unat (it st)))"
  shows "\<exists>st' r' w'. iov_turn env vr st = Some (Ret (next_desc vr (t (unat (it st))) st')) \<and> at_table env vr t st' r' w' \<and>
    n_seen st' = n_seen st + 1 \<and> desc_max st' = desc_max st \<and>
    blocks r' = blocks r @ reads (view t [unat (it st)]) \<and> blocks w' = blocks w @ writes (view t [unat (it st)])"
proof -
  note a = assms(1) [unfolded at_table_def]
  let ?e = "t (unat (it st))"
  have c: "n_seen st < 65535" using assms(2) a by simp
  have f: "fetch_desc env st = Some (Ret (0, ?e, st))" using a by (simp add: fetch_desc_def)
  have ni: "d_flags ?e AND VRING_DESC_F_INDIRECT = 0" using assms(3) by (simp add: is_indirect_def)
  have o: "r_offset no_range = 0" by (simp add: no_range_def)
  have mono: "iov_fits (n_seen st + 1) v" if "iov_fits (n_seen st) v" for v using that by (simp add: iov_fits_def)
  show ?thesis
  proof (cases "is_write ?e")
    case True
    from iov_add_ok [of "n_seen st" w "\<lambda>_. True" "d_addr ?e" "d_len ?e" no_range] a c obtain w' where
      w: "iov_add no_range_check (\<lambda>_. True) (d_addr ?e) (d_len ?e) no_range w = Some (Ret (0, no_range, w'))"
      "iov_fits (n_seen st + 1) w'" "blocks w' = blocks w @ [\<lparr>iov_base = d_addr ?e + r_offset no_range, iov_len = ucast (d_len ?e)\<rparr>]"
      "k_i w' = k_i w" by auto
    let ?st = "st\<lparr>n_seen := n_seen st + 1, cur_range := no_range, wiov := Some w'\<rparr>"
    have "iov_turn env vr st = Some (Ret (next_desc vr ?e ?st))"
      using f ni a w(1) assms(2) True by (simp add: iov_turn_def add_desc_def is_write_def)
    moreover have "at_table env vr t ?st r w'" using a w mono unfolding at_table_def by simp
    ultimately show ?thesis using w(3) o True
      by (intro exI [of _ ?st] exI [of _ r] exI [of _ w']) (simp add: reads_def writes_def view_def block_of_def)
  next
    case False
    from iov_add_ok [of "n_seen st" r "\<lambda>_. True" "d_addr ?e" "d_len ?e" no_range] a c obtain r' where
      r: "iov_add no_range_check (\<lambda>_. True) (d_addr ?e) (d_len ?e) no_range r = Some (Ret (0, no_range, r'))"
      "iov_fits (n_seen st + 1) r'" "blocks r' = blocks r @ [\<lparr>iov_base = d_addr ?e + r_offset no_range, iov_len = ucast (d_len ?e)\<rparr>]"
      by auto
    let ?st = "st\<lparr>n_seen := n_seen st + 1, cur_range := no_range, riov := Some r'\<rparr>"
    have "iov_turn env vr st = Some (Ret (next_desc vr ?e ?st))"
      using f ni a r(1) assms(2) False by (simp add: iov_turn_def add_desc_def is_write_def)
    moreover have "at_table env vr t ?st r' w" using a r mono unfolding at_table_def by simp
    ultimately show ?thesis using r(3) o False
      by (intro exI [of _ ?st] exI [of _ r'] exI [of _ w]) (simp add: reads_def writes_def view_def block_of_def)
  qed
qed

lemma loop_chain:
  assumes "chain t xs" and "\<forall>x \<in> set xs. \<not> is_indirect (t x) \<and> int x < desc_max st" and "unat (it st) = hd xs"
    and "at_table env vr t st r w" and "n_seen st + length xs \<le> unat (num vr)"
  shows "\<exists>st' r' w'. iov_loop env vr st = Some (Ret (0, st')) \<and> riov st' = Some r' \<and> wiov st' = Some w' \<and>
    blocks r' = blocks r @ reads (view t xs) \<and> blocks w' = blocks w @ writes (view t xs)"
  using assms
proof (induction xs arbitrary: st r w rule: induct_list012)
  case (2 x)
  from turn_ok [OF "2.prems"(4), of] 2 obtain st' r' w' where t: "iov_turn env vr st = Some (Ret (next_desc vr (t x) st'))"
    "at_table env vr t st' r' w'" "blocks r' = blocks r @ reads (view t [x])" "blocks w' = blocks w @ writes (view t [x])"
    by auto
  have "next_desc vr (t x) st' = Ends 0 st'"
    using "2.prems"(1) t(2) by (simp add: next_desc_def has_next_def at_table_def)
  then have "iov_loop env vr st = Some (Ret (0, st'))" using t(1) by (subst iov_loop.simps) simp
  then show ?case using t by (auto simp: at_table_def)
next
  case (3 x y xs)
  have x: "unat (it st) = x" "\<not> is_indirect (t x)" "has_next (t x)" "unat (d_next (t x)) = y" "n_seen st < unat (num vr)"
    using 3 by simp_all
  from turn_ok [OF "3.prems"(4) x(5)] x(1,2) obtain st' r' w' where t: "iov_turn env vr st = Some (Ret (next_desc vr (t x) st'))"
    "at_table env vr t st' r' w'" "n_seen st' = n_seen st + 1" "desc_max st' = desc_max st"
    "blocks r' = blocks r @ reads (view t [x])" "blocks w' = blocks w @ writes (view t [x])"
    by auto
  let ?st = "st'\<lparr>it := d_next (t x)\<rparr>"
  have "int (unat (d_next (t x))) = int y" using x(4) by simp
  then have "uint (d_next (t x)) = int y" by simp
  then have "next_desc vr (t x) st' = Goes_on ?st"
    using x "3.prems"(2) t(4) by (simp add: next_desc_def has_next_def)
  then have l: "iov_loop env vr st = iov_loop env vr ?st" using t(1) by (subst iov_loop.simps) simp
  have "at_table env vr t ?st r' w'" using t(2) by (simp add: at_table_def)
  then have "\<exists>st2 r2 w2. iov_loop env vr ?st = Some (Ret (0, st2)) \<and> riov st2 = Some r2 \<and> wiov st2 = Some w2 \<and>
    blocks r2 = blocks r' @ reads (view t (y # xs)) \<and> blocks w2 = blocks w' @ writes (view t (y # xs))"
    using "3.prems" x t by (intro "3.IH"(2)) simp_all
  then show ?case using l t(5,6) by (auto simp: reads_def writes_def view_def)
qed simp

section \<open>The traversal always ends\<close>

text \<open>The result of one turn on a state of the loop, for every content of the memory.\<close>

definition turn_state :: "turn \<Rightarrow> iov_state" where
  "turn_state t = (case t of Goes_on st \<Rightarrow> st | Ends rc st \<Rightarrow> st)"

definition rank :: "vring \<Rightarrow> iov_state \<Rightarrow> nat" where
  "rank vr st = 2 * (unat (num vr) - n_seen st) + (if up_next st = - 1 then 1 else 0)"

definition loop_inv :: "vring \<Rightarrow> iov_state \<Rightarrow> bool" where
  "loop_inv vr st \<longleftrightarrow> n_seen st \<le> unat (num vr) \<and>
     (descs st = Ring_table \<longrightarrow> desc_max st = int (unat (num vr)) \<and> unat (it st) < unat (num vr))"

lemma iov_add_returns:
  "\<exists>err iov'. iov_add no_range_check al a len r iov = Some (Ret (err, r, iov')) \<and>
     (k_used iov' = k_used iov \<or> k_used iov' = k_used iov + 1)"
  by (subst iov_add.simps)
    (auto simp: no_range_check_def resize_iovec_def append_block_def Let_def split: prod.splits if_splits)

definition kern_like :: "vringh_env \<Rightarrow> bool" where
  "kern_like env \<longleftrightarrow> rcheck env = no_range_check \<and> (\<forall>p j. \<exists>e. copy env p j = (0, e)) \<and>
     (\<forall>r p j. \<exists>e. slow_fetch env r p j = Some (Ret (0, e, r)))"

text \<open>Two memories that agree on the descriptors of the ring.\<close>

definition same_ring :: "nat \<Rightarrow> vringh_env \<Rightarrow> vringh_env \<Rightarrow> bool" where
  "same_ring n env env' \<longleftrightarrow> rcheck env' = rcheck env \<and> alloc env' = alloc env \<and>
     (\<forall>p j. (p = Ring_table \<longrightarrow> j < n) \<longrightarrow> copy env' p j = copy env p j) \<and>
     (\<forall>r p j. (p = Ring_table \<longrightarrow> j < n) \<longrightarrow> slow_fetch env' r p j = slow_fetch env r p j)"

lemma uint_less_unat: "uint (a :: u16) < uint (b :: u32) \<longleftrightarrow> unat a < unat b"
proof -
  have "uint a = int (unat a)" "uint b = int (unat b)" by simp_all
  then show ?thesis by (simp only: of_nat_less_iff)
qed

lemma next_desc_progress:
  "next_desc vr e st = Goes_on st' \<Longrightarrow> n_seen st' = n_seen st \<and> (up_next st' = - 1 \<or> up_next st' = up_next st) \<and>
     (descs st' = descs st \<and> desc_max st' = desc_max st \<or> descs st' = Ring_table \<and> desc_max st' = int (unat (num vr))) \<and>
     int (unat (it st')) < desc_max st'"
  by (auto simp: next_desc_def return_from_indirect_def Let_def split: if_splits)

lemma turn_progress:
  assumes "kern_like env" and "loop_inv vr st"
  shows "\<exists>t. iov_turn env vr st = Some (Ret t) \<and> (\<forall>st'. t = Goes_on st' \<longrightarrow> loop_inv vr st' \<and> rank vr st' < rank vr st)"
proof -
  have k: "rcheck env = no_range_check" using assms(1) by (simp add: kern_like_def)
  obtain e st1 where f: "fetch_desc env st = Some (Ret (0, e, st1))" and s1: "n_seen st1 = n_seen st" "up_next st1 = up_next st"
    "descs st1 = descs st" "desc_max st1 = desc_max st" "it st1 = it st" "cur_range st1 = cur_range st"
  proof (cases "slow st")
    case True
    obtain e where "slow_fetch env (slowrange st) (descs st) (unat (it st)) = Some (Ret (0, e, slowrange st))"
      using assms(1) unfolding kern_like_def by blast
    then show ?thesis using True that [of e st] by (simp add: fetch_desc_def)
  next
    case False
    obtain e where "copy env (descs st) (unat (it st)) = (0, e)" using assms(1) unfolding kern_like_def by blast
    then show ?thesis using False that [of e st] by (simp add: fetch_desc_def)
  qed
  show ?thesis
  proof (cases "d_flags e AND VRING_DESC_F_INDIRECT \<noteq> 0")
    case True
    obtain t where t: "enter_indirect env e st1 = Ret t"
      by (cases "move_to_indirect (d_addr e + r_offset (cur_range st1)) e (st1\<lparr>cur_range := cur_range st1\<rparr>)")
        (simp add: enter_indirect_def k no_range_check_def Let_def)
    have un: "uint (d_next e) \<noteq> - 1"
    proof
      assume "uint (d_next e) = - 1"
      moreover have "0 \<le> uint (d_next e)" by simp
      ultimately show False by linarith
    qed
    have "loop_inv vr st' \<and> rank vr st' < rank vr st" if "t = Goes_on st'" for st'
    proof -
      have "up_next st = - 1" "n_seen st' = n_seen st" "up_next st' \<noteq> - 1" "descs st' = Table_at (d_addr e + r_offset (cur_range st))"
        using t that s1 un by (auto simp: enter_indirect_def k no_range_check_def move_to_indirect_def EINVAL_def Let_def split: if_splits)
      then show ?thesis using assms(2) by (simp add: loop_inv_def rank_def)
    qed
    then show ?thesis using f True t by (simp add: iov_turn_def)
  next
    case False
    have turn: "iov_turn env vr st = add_desc env vr e st1" using f False by (simp add: iov_turn_def)
    show ?thesis
    proof (cases "n_seen st1 = unat (num vr)")
      case True
      then show ?thesis unfolding turn by (simp add: add_desc_def)
    next
      case seen: False
      let ?wr = "d_flags e AND VRING_DESC_F_WRITE \<noteq> 0"
      let ?v = "if ?wr then wiov st1 else riov st1"
      have lt: "n_seen st1 < unat (num vr)" using seen assms(2) s1(1) by (simp add: loop_inv_def)
      show ?thesis
      proof (cases "\<not> ?wr \<and> (case wiov st1 of None \<Rightarrow> False | Some w \<Rightarrow> k_i w \<noteq> 0) \<or> ?v = None")
        case True
        then show ?thesis unfolding turn using seen by (auto simp: add_desc_def Let_def)
      next
        case ok: False
        then obtain v where v: "?v = Some v" by auto
        obtain err v' where a: "iov_add no_range_check (alloc env) (d_addr e) (d_len e) (cur_range st1) v =
            Some (Ret (err, cur_range st1, v'))" using iov_add_returns by blast
        let ?st = "st1\<lparr>n_seen := n_seen st1 + 1\<rparr>"
        let ?st2 = "if ?wr then ?st\<lparr>cur_range := cur_range st1, wiov := Some v'\<rparr> else ?st\<lparr>cur_range := cur_range st1, riov := Some v'\<rparr>"
        have t: "iov_turn env vr st = Some (Ret (if err \<noteq> 0 then Ends err ?st2 else next_desc vr e ?st2))"
          unfolding turn using ok seen v a k by (auto simp: add_desc_def Let_def)
        have g: "n_seen ?st2 = n_seen st + 1" "up_next ?st2 = up_next st" "descs ?st2 = descs st" "desc_max ?st2 = desc_max st"
          using s1 by simp_all
        have "loop_inv vr st' \<and> rank vr st' < rank vr st" if "next_desc vr e ?st2 = Goes_on st'" for st'
        proof -
          note p = next_desc_progress [OF that, unfolded g]
          have n: "n_seen st' = n_seen st + 1" using p by blast
          have "loop_inv vr st'" using p assms(2) lt s1(1) by (auto simp: loop_inv_def uint_less_unat)
          moreover have "rank vr st' < rank vr st"
            using p lt s1(1) by (auto simp: rank_def)
          ultimately show ?thesis ..
        qed
        then show ?thesis using t by (auto split: if_splits)
      qed
    qed
  qed
qed

lemma turn_same:
  assumes "same_ring (unat (num vr)) env env'" and "loop_inv vr st" and "num vr' = num vr"
  shows "iov_turn env' vr' st = iov_turn env vr st"
proof -
  have f: "fetch_desc env' st = fetch_desc env st"
    using assms(1,2) by (simp add: fetch_desc_def same_ring_def loop_inv_def)
  have n: "next_desc vr' = next_desc vr"
    by (simp add: fun_eq_iff next_desc_def return_from_indirect_def assms(3))
  have r: "rcheck env' = rcheck env" "alloc env' = alloc env" using assms(1) by (simp_all add: same_ring_def)
  have "enter_indirect env' = enter_indirect env" by (simp only: fun_eq_iff enter_indirect_def r simp_thms)
  moreover have "add_desc env' vr' = add_desc env vr" by (simp only: fun_eq_iff add_desc_def r n assms(3) simp_thms)
  ultimately show ?thesis by (simp only: iov_turn_def f)
qed

lemma loop_ends:
  assumes "kern_like env" and "same_ring (unat (num vr)) env env'" and "num vr' = num vr" and "loop_inv vr st"
  shows "\<exists>rc st'. iov_loop env vr st = Some (Ret (rc, st')) \<and> iov_loop env' vr' st = Some (Ret (rc, st'))"
  using assms(4)
proof (induction "rank vr st" arbitrary: st rule: less_induct)
  case less
  from turn_progress [OF assms(1) less.prems] obtain t where t: "iov_turn env vr st = Some (Ret t)"
    "\<And>st'. t = Goes_on st' \<Longrightarrow> loop_inv vr st' \<and> rank vr st' < rank vr st" by blast
  have t': "iov_turn env' vr' st = Some (Ret t)" using turn_same [OF assms(2) less.prems assms(3)] t(1) by simp
  show ?case
  proof (cases t)
    case (Goes_on st')
    then obtain rc st2 where "iov_loop env vr st' = Some (Ret (rc, st2)) \<and> iov_loop env' vr' st' = Some (Ret (rc, st2))"
      using less.hyps [of st'] t(2) by blast
    then show ?thesis using t(1) t' Goes_on by (subst (1 2) iov_loop.simps) simp
  next
    case (Ends rc st')
    then show ?thesis using t(1) t' by (subst (1 2) iov_loop.simps) simp
  qed
qed

text \<open>The head of a non-empty ring, and the state the loop starts in.\<close>

definition loop_start :: "vring \<Rightarrow> u16 \<Rightarrow> vringh_kiov option \<Rightarrow> vringh_kiov option \<Rightarrow> iov_state" where
  "loop_start vr head r w = \<lparr>it = head, descs = Ring_table, desc_max = int (unat (num vr)), up_next = - 1, n_seen = 0,
     cur_range = no_range, slow = False, slowrange = \<lparr>r_start = 0, end_incl = 0, r_offset = 0\<rparr>,
     riov = map_option (\<lambda>v. v\<lparr>k_i := 0, k_used := 0\<rparr>) r,
     wiov = (if r = None then map_option (\<lambda>v. v\<lparr>k_i := 0, k_used := 0\<rparr>) w else w)\<rparr>"

lemma vringh_iov_loop:
  "r \<noteq> None \<or> w \<noteq> None \<Longrightarrow> iov_loop env vr (loop_start vr head r w) = Some (Ret (rc, st)) \<Longrightarrow>
     vringh_iov env vr head r w = Some (Ret (rc, riov st, wiov st))"
  by (simp add: vringh_iov_def loop_start_def no_range_def Let_def)

lemma kern_env_like: "kern_like (kern_env vr tables al)"
  by (simp add: kern_like_def kern_env_def copydesc_kern_def)

lemma kern_env_same:
  "\<forall>j < unat (num vr). d' j = desc vr j \<Longrightarrow>
     same_ring (unat (num vr)) (kern_env vr tables al) (kern_env (vr\<lparr>desc := d'\<rparr>) tables al)"
  by (auto simp: same_ring_def kern_env_def copydesc_kern_def split: desc_ptr.splits)

lemma get_head_cases:
  assumes "vringh_get_head getu16_kern vr idx = (err, idx')"
  obtains "err = int (unat (num vr))" "idx' = idx" "a_idx (avail vr) = idx"
  | "err = - EINVAL" "idx' = idx" "a_idx (avail vr) \<noteq> idx" "unat (num vr) \<le> unat (a_ring (avail vr) (unat (ucast idx AND (num vr - 1))))"
  | h where "err = int (unat h)" "unat h < unat (num vr)" "idx' = idx + 1" "a_idx (avail vr) \<noteq> idx"
      "h = a_ring (avail vr) (unat (ucast idx AND (num vr - 1)))"
proof -
  let ?h = "a_ring (avail vr) (unat (ucast idx AND (num vr - 1)))"
  have u: "num vr \<le> ucast ?h \<longleftrightarrow> unat (num vr) \<le> unat ?h"
    using unat_bound [of ?h] by (simp add: word_le_nat_alt unsigned_ucast_eq take_bit_nat_eq_self)
  consider "a_idx (avail vr) = idx" | "a_idx (avail vr) \<noteq> idx" "num vr \<le> ucast ?h" | "a_idx (avail vr) \<noteq> idx" "\<not> num vr \<le> ucast ?h"
    by blast
  then show thesis
  proof cases
    case 3
    then show ?thesis using assms that(3) [of ?h] u by (auto simp: vringh_get_head_def getu16_kern_def)
  qed (use assms that(1,2) u in \<open>auto simp: vringh_get_head_def getu16_kern_def\<close>)
qed

lemma get_head_desc: "vringh_get_head getu16_kern (vr\<lparr>desc := d\<rparr>) idx = vringh_get_head getu16_kern vr idx"
  by (simp add: vringh_get_head_def getu16_kern_def)

lemma getdesc_head:
  assumes "vringh_get_head getu16_kern (h_vring vrh) (last_avail_idx vrh) = (int (unat h), idx')"
    and "unat h < unat (num (h_vring vrh))" and "r \<noteq> None \<or> w \<noteq> None"
    and "iov_loop (kern_env (h_vring vrh) tables al) (h_vring vrh) (loop_start (h_vring vrh) h r w) = Some (Ret (rc, st))"
  shows "vca_vringh_getdesc_kern tables al vrh r w head =
    Some (Ret (if rc \<noteq> 0 then rc else 1, h, riov st, wiov st, vrh\<lparr>last_avail_idx := idx'\<rparr>))"
proof -
  have "of_int (int (unat h)) = h" by simp
  moreover have "int (unat h) \<noteq> int (unat (num (h_vring vrh)))" using assms(2) by (simp only: of_nat_eq_iff)
  moreover have "\<not> int (unat h) < 0" by simp
  ultimately show ?thesis
    using vringh_iov_loop [OF assms(3,4)] assms(1)
    unfolding vca_vringh_getdesc_kern_def by (simp only: prod.case Let_def if_False option.case outcome.case simp_thms)
qed

text \<open>Two descriptors that point to each other.\<close>

definition sample_cycle :: vringh where
  "sample_cycle = \<lparr>little_endian = False, event_indices = False, weak_barriers = False, last_avail_idx = 0,
     h_last_used_idx = 0, completed = 0, h_vring = sample_pages\<lparr>num := 2,
       desc := (\<lambda>j. \<lparr>d_addr = 4096, d_len = 8, d_flags = 1, d_next = (if j = 0 then 1 else 0)\<rparr>),
       avail := \<lparr>a_flags = 0, a_idx = 1, a_ring = (\<lambda>_. 0)\<rparr>\<rparr>\<rparr>"

definition sample_iov :: vringh_kiov where "sample_iov = vringh_kiov_init (\<lambda>_. \<lparr>iov_base = 0, iov_len = 0\<rparr>) 4"

section \<open>Properties\<close>

text \<open>
  C35. Taking a buffer returns for every content of the memory the driver may have prepared, cycles and
  indirect tables included, and what it does depends on no descriptor beyond the ring.
\<close>
theorem traversal_ends:
  assumes "r \<noteq> None \<or> w \<noteq> None" and "\<forall>j < unat (num (h_vring vrh)). d' j = desc (h_vring vrh) j"
  shows "\<exists>rc head' r' w' idx'. vca_vringh_getdesc_kern tables al vrh r w head =
      Some (Ret (rc, head', r', w', vrh\<lparr>last_avail_idx := idx'\<rparr>)) \<and>
    vca_vringh_getdesc_kern tables al (vrh\<lparr>h_vring := (h_vring vrh)\<lparr>desc := d'\<rparr>\<rparr>) r w head =
      Some (Ret (rc, head', r', w', vrh\<lparr>h_vring := (h_vring vrh)\<lparr>desc := d'\<rparr>, last_avail_idx := idx'\<rparr>))"
proof -
  let ?vr = "h_vring vrh" and ?vr' = "(h_vring vrh)\<lparr>desc := d'\<rparr>"
  let ?vrh' = "vrh\<lparr>h_vring := ?vr'\<rparr>"
  obtain err idx' where g: "vringh_get_head getu16_kern ?vr (last_avail_idx vrh) = (err, idx')" by fastforce
  have g': "vringh_get_head getu16_kern (h_vring ?vrh') (last_avail_idx ?vrh') = (err, idx')"
    using g by (simp add: get_head_desc)
  from g show ?thesis
  proof (cases rule: get_head_cases)
    case 1
    then show ?thesis using g g'
      by (intro exI [of _ 0] exI [of _ head] exI [of _ r] exI [of _ w] exI [of _ idx']) (simp add: vca_vringh_getdesc_kern_def Let_def)
  next
    case 2
    then show ?thesis using g g'
      by (intro exI [of _ err] exI [of _ head] exI [of _ r] exI [of _ w] exI [of _ idx'])
        (simp add: vca_vringh_getdesc_kern_def EINVAL_def Let_def)
  next
    case (3 h)
    have ls: "loop_start ?vr' h r w = loop_start ?vr h r w" by (simp add: loop_start_def)
    have "loop_inv ?vr (loop_start ?vr h r w)" using 3(2) by (simp add: loop_inv_def loop_start_def)
    from loop_ends [OF kern_env_like kern_env_same [OF assms(2)] _ this, of ?vr' tables al] obtain rc st where
      l: "iov_loop (kern_env ?vr tables al) ?vr (loop_start ?vr h r w) = Some (Ret (rc, st))"
        "iov_loop (kern_env ?vr' tables al) ?vr' (loop_start ?vr' h r w) = Some (Ret (rc, st))" unfolding ls by auto
    have "unat h < unat (num (h_vring ?vrh'))" using 3(2) by simp
    from getdesc_head [OF _ this assms(1), of idx' tables al rc st head] g' l(2) 3(1)
    have "vca_vringh_getdesc_kern tables al ?vrh' r w head =
      Some (Ret (if rc \<noteq> 0 then rc else 1, h, riov st, wiov st, ?vrh'\<lparr>last_avail_idx := idx'\<rparr>))" by simp
    moreover have "vca_vringh_getdesc_kern tables al vrh r w head =
      Some (Ret (if rc \<noteq> 0 then rc else 1, h, riov st, wiov st, vrh\<lparr>last_avail_idx := idx'\<rparr>))"
      using getdesc_head [OF _ 3(2) assms(1) l(1)] g 3(1) by simp
    ultimately show ?thesis by blast
  qed
qed

theorem traversal_ends_witness:
  "\<exists>rc head' r' w' idx'. vca_vringh_getdesc_kern (\<lambda>_ _. sample_desc) (\<lambda>_. True) sample_cycle (Some sample_iov) None 0 =
      Some (Ret (rc, head', r', w', sample_cycle\<lparr>last_avail_idx := idx'\<rparr>))"
  using traversal_ends [of "Some sample_iov" None sample_cycle "desc (h_vring sample_cycle)" "\<lambda>_ _. sample_desc" "\<lambda>_. True" 0] by auto

end
