(* ===== verification/Virtio_System.thy ===== *)
theory Virtio_System
  imports Vringh_Facts
begin

text \<open>
  Driver and device on one ring. The driver adds buffers and gets them back, the device takes, uses
  and completes them; the shared memory is the ring of the driver's queue, which the device's
  operations are run on.
\<close>

section \<open>The device reads what the driver wrote\<close>

definition agrees :: "(u64 \<Rightarrow> (nat \<times> vring_desc mem) option) \<Rightarrow> (u64 \<Rightarrow> vring_desc mem) \<Rightarrow> bool" where
  "agrees hp tables \<longleftrightarrow> (\<forall>a n t. hp a = Some (n, t) \<longrightarrow> tables a = t)"

text \<open>A vector without blocks.\<close>

definition empty_iov :: vringh_kiov where "empty_iov = vringh_kiov_init (\<lambda>_. \<lparr>iov_base = 0, iov_len = 0\<rparr>) 0"

definition any_alloc :: "nat \<Rightarrow> bool" where "any_alloc n = True"

lemma empty_iov_fits: "iov_fits 0 empty_iov" "k_i empty_iov = 0" "blocks empty_iov = []"
    "empty_iov\<lparr>k_i := 0, k_used := 0\<rparr> = empty_iov"
  by (simp_all add: empty_iov_def vringh_kiov_init_def iov_fits_def blocks_def)

lemma enter_table:
  assumes "is_indirect e" and "\<not> has_next e" and "unat (d_len e) = 16 * m" and "copy env Ring_table (unat h) = (0, e)"
    and "rcheck env = no_range_check"
  shows "iov_turn env vr (loop_start vr h r w) = Some (Ret (Goes_on ((loop_start vr h r w)\<lparr>up_next := - 2,
    descs := Table_at (d_addr e), desc_max := int m, it := 0\<rparr>)))"
proof -
  have "(loop_start vr h r w)\<lparr>cur_range := no_range\<rparr> = loop_start vr h r w" by (simp add: loop_start_def)
  moreover have "cur_range (loop_start vr h r w) = no_range" by (simp add: loop_start_def)
  ultimately show ?thesis using assms
    by (simp add: iov_turn_def fetch_desc_def enter_indirect_def move_to_indirect_def no_range_check_def no_range_def
        is_indirect_def has_next_def loop_start_def)
qed

lemma read_buffer:
  assumes "holds (desc vr) hp xs (unat h) v" and "agrees hp tables" and "\<forall>x \<in> set xs. x < unat (num vr)"
    and "length v \<le> unat (num vr)" and "unat (num vr) < 65536"
  shows "\<exists>st r w. iov_loop (kern_env vr tables any_alloc) vr (loop_start vr h (Some empty_iov) (Some empty_iov)) = Some (Ret (0, st)) \<and>
    riov st = Some r \<and> wiov st = Some w \<and> blocks r = reads v \<and> blocks w = writes v"
proof -
  let ?env = "kern_env vr tables any_alloc" and ?st = "loop_start vr h (Some empty_iov) (Some empty_iov)"
  have al: "any_alloc = (\<lambda>_. True)" by (simp add: any_alloc_def fun_eq_iff)
  have cp: "copy ?env p j = (0, case p of Ring_table \<Rightarrow> desc vr j | Table_at a \<Rightarrow> tables a j)" for p j
    by (simp add: kern_env_def copydesc_kern_def)
  have rc: "rcheck ?env = no_range_check" "alloc ?env = (\<lambda>_. True)" by (simp_all add: kern_env_def al)
  note h = assms(1) [unfolded holds_def]
  have xne: "xs \<noteq> []" "hd xs = unat h" "chain (desc vr) xs" using h by simp_all
  show ?thesis
  proof (cases "is_indirect (desc vr (unat h))")
    case False
    then have v: "view (desc vr) xs = v" "\<forall>x \<in> set xs. \<not> is_indirect (desc vr x)" using h by simp_all
    have "at_table ?env vr (desc vr) ?st empty_iov empty_iov"
      using assms(5) rc cp empty_iov_fits by (simp add: at_table_def loop_start_def)
    moreover have "\<forall>x \<in> set xs. \<not> is_indirect (desc vr x) \<and> int x < desc_max ?st"
      using v(2) assms(3) by (simp only: loop_start_def iov_state.select_convs of_nat_less_iff) simp
    moreover have "length xs \<le> unat (num vr)" using assms(4) length_view(1) [of "desc vr" xs] v(1) by simp
    then have "n_seen ?st + length xs \<le> unat (num vr)" by (simp add: loop_start_def)
    moreover have "unat (it ?st) = hd xs" using xne by (simp add: loop_start_def)
    ultimately show ?thesis using loop_chain [OF xne(3), of ?st ?env vr empty_iov empty_iov] v(1) empty_iov_fits by auto
  next
    case True
    then obtain t where t: "xs = [unat h]" "hp (d_addr (desc vr (unat h))) = Some (length v, t)" "chain t [0..<length v]"
      "view t [0..<length v] = v" "\<forall>i < length v. \<not> is_indirect (t i)" "unat (d_len (desc vr (unat h))) = 16 * length v"
      using h by auto
    let ?a = "d_addr (desc vr (unat h))"
    let ?st2 = "?st\<lparr>up_next := - 2, descs := Table_at ?a, desc_max := int (length v), it := 0\<rparr>"
    have ta: "tables ?a = t" using assms(2) t(2) by (auto simp: agrees_def)
    have "\<not> has_next (desc vr (unat h))" using xne(3) t(1) by simp
    from enter_table [OF True this t(6) _ rc(1)] cp have e: "iov_turn ?env vr ?st = Some (Ret (Goes_on ?st2))" by simp
    have ne: "[0..<length v] \<noteq> []" using h by simp
    have "at_table ?env vr t ?st2 empty_iov empty_iov"
      using assms(5) rc cp empty_iov_fits ta by (simp add: at_table_def loop_start_def)
    moreover have "\<forall>x \<in> set [0..<length v]. \<not> is_indirect (t x) \<and> int x < desc_max ?st2" using t(5) by simp
    moreover have "n_seen ?st2 + length [0..<length v] \<le> unat (num vr)" using assms(4) by (simp add: loop_start_def)
    moreover have "unat (it ?st2) = hd [0..<length v]" using ne by simp
    ultimately have "\<exists>st' r' w'. iov_loop ?env vr ?st2 = Some (Ret (0, st')) \<and> riov st' = Some r' \<and> wiov st' = Some w' \<and>
        blocks r' = reads v \<and> blocks w' = writes v"
      using loop_chain [OF t(3), of ?st2 ?env vr empty_iov empty_iov] t(4) empty_iov_fits by auto
    moreover have "iov_loop ?env vr ?st = iov_loop ?env vr ?st2" using e by (subst iov_loop.simps) simp
    ultimately show ?thesis by auto
  qed
qed

section \<open>The system\<close>

text \<open>
  \<open>contents\<close> is what each head stands for, \<open>held\<close> the heads the device has taken and not completed.
  The rest is a record of what happened: the buffers sent, the blocks the device found, the tokens and
  lengths completed, and those the driver got back.
\<close>

record vio =
  drv :: vring_virtqueue
  dev :: vringh
  contents :: "nat \<Rightarrow> buffer"
  held :: "nat list"
  sent :: "buffer list"
  taken :: "(kvec list \<times> kvec list) list"
  finished :: "(nat \<times> u32) list"
  got :: "(nat \<times> u32) list"

datatype vio_op = Drv_add "scatterlist list list" nat nat nat nat | Drv_get | Drv_kick | Drv_disable_cb | Drv_enable_cb
  | Dev_take | Dev_complete nat u32 | Dev_need_notify | Dev_notify_enable | Dev_notify_disable

definition heap_tables :: "vring_virtqueue \<Rightarrow> u64 \<Rightarrow> vring_desc mem" where
  "heap_tables vq a = (case heap vq a of Some (n, t) \<Rightarrow> t | None \<Rightarrow> (\<lambda>_. \<lparr>d_addr = 0, d_len = 0, d_flags = 0, d_next = 0\<rparr>))"

text \<open>The device's operation runs on the shared ring.\<close>

definition dev_view :: "vio \<Rightarrow> vringh" where "dev_view s = (dev s)\<lparr>h_vring := vring (drv s)\<rparr>"

definition dev_done :: "vringh \<Rightarrow> vio \<Rightarrow> vio" where
  "dev_done v s = s\<lparr>dev := v, drv := (drv s)\<lparr>vring := h_vring v\<rparr>\<rparr>"

text \<open>An error of an operation on the ring counts as a failure of the run.\<close>

fun vio_step :: "vio_op \<Rightarrow> vio \<Rightarrow> vio outcome" where
  "vio_step (Drv_add sgs n k l t) s = (case virtqueue_add sgs n k l t (drv s) of Abort \<Rightarrow> Abort
     | Ret (rc, sgs', vq) \<Rightarrow>
         let v = buffer_view (dma_map (drv s)) sgs' k
         in Ret (if rc = 0 then s\<lparr>drv := vq, contents := (contents s)(unat (free_head (drv s)) := v), sent := sent s @ [v]\<rparr>
                 else s\<lparr>drv := vq\<rparr>))"
| "vio_step Drv_get s = (case vca_virtqueue_get_buf 0 (drv s) of Some (Ret (t, len, vq)) \<Rightarrow>
     Ret (s\<lparr>drv := vq, got := (if t \<noteq> 0 then got s @ [(t, len)] else got s)\<rparr>) | _ \<Rightarrow> Abort)"
| "vio_step Drv_kick s = Ret (s\<lparr>drv := snd (vca_virtqueue_kick (drv s))\<rparr>)"
| "vio_step Drv_disable_cb s = Ret (s\<lparr>drv := vca_virtqueue_disable_cb (drv s)\<rparr>)"
| "vio_step Drv_enable_cb s = Ret (s\<lparr>drv := snd (vca_virtqueue_enable_cb (drv s))\<rparr>)"
| "vio_step Dev_take s =
     (case vca_vringh_getdesc_kern (heap_tables (drv s)) any_alloc (dev_view s) (Some empty_iov) (Some empty_iov) 0 of
        Some (Ret (rc, head, r, w, v)) \<Rightarrow>
          if rc = 0 then Ret (dev_done v s)
          else if rc = 1 then Ret ((dev_done v s)\<lparr>held := held s @ [unat head], taken := taken s @ [(blocks (the r), blocks (the w))]\<rparr>)
          else Abort
      | _ \<Rightarrow> Abort)"
| "vio_step (Dev_complete h len) s = (case vca_vringh_complete_kern (of_nat h) len (dev_view s) of (rc, v) \<Rightarrow>
     if rc \<noteq> 0 then Abort
     else Ret ((dev_done v s)\<lparr>held := remove1 h (held s), finished := finished s @ [(data (drv s) h, len)]\<rparr>))"
| "vio_step Dev_need_notify s = Ret (dev_done (snd (vca_vringh_need_notify_kern (dev_view s))) s)"
| "vio_step Dev_notify_enable s = Ret (dev_done (snd (vca_vringh_notify_enable_kern (dev_view s))) s)"
| "vio_step Dev_notify_disable s = Ret (dev_done (vca_vringh_notify_disable_kern (dev_view s)) s)"

text \<open>The driver's buffers are well formed; the device completes what it holds.\<close>

fun vio_guard :: "vio \<Rightarrow> vio_op \<Rightarrow> bool" where
  "vio_guard s (Drv_add sgs n k l t) \<longleftrightarrow> add_ok sgs n k l t (drv s)"
| "vio_guard s (Dev_complete h len) \<longleftrightarrow> h \<in> set (held s)"
| "vio_guard s _ \<longleftrightarrow> True"

section \<open>The invariant\<close>

text \<open>The heads made available and not taken, and the entries used and not seen.\<close>

definition waiting :: "vio \<Rightarrow> u16 list" where
  "waiting s = (let vr = vring (drv s) in
     vc.window (a_ring (avail vr)) 0 (unat (num vr)) (last_avail_idx (dev s)) (a_idx (avail vr)))"

definition unseen :: "vio \<Rightarrow> vring_used_elem list" where
  "unseen s = (let vr = vring (drv s) in
     vc.window (u_ring (used vr)) 0 (unat (num vr)) (last_used_idx (drv s)) (u_idx (used vr)))"

definition dev_idx :: "vringh \<Rightarrow> u16" where "dev_idx v = h_last_used_idx v + ucast (completed v)"

definition in_flight :: "vring_virtqueue \<Rightarrow> nat set" where "in_flight vq = {h. h < vring_num vq \<and> data vq h \<noteq> 0}"

definition vio_inv :: "vio \<Rightarrow> bool" where
  "vio_inv s \<longleftrightarrow> (\<exists>F B. virtq_wf F B (contents s) (drv s)) \<and> \<not> broken (drv s) \<and> (\<forall>k. notify (drv s) k) \<and>
     u_idx (used (vring (drv s))) = dev_idx (dev s) \<and>
     distinct (map unat (waiting s) @ held s @ map (\<lambda>e. unat (ue_id e)) (unseen s)) \<and>
     set (map unat (waiting s) @ held s @ map (\<lambda>e. unat (ue_id e)) (unseen s)) = in_flight (drv s) \<and>
     (\<forall>h \<in> in_flight (drv s). length (contents s h) \<le> vring_num (drv s)) \<and>
     map (\<lambda>v. (reads v, writes v)) (sent s) =
       taken s @ map (\<lambda>h. (reads (contents s (unat h)), writes (contents s (unat h)))) (waiting s) \<and>
     finished s = got s @ map (\<lambda>e. (data (drv s) (unat (ue_id e)), ue_len e)) (unseen s)"

lemma vio_inv_frame:
  assumes "vio_inv s" and "vring_num vq = vring_num (drv s)" and "desc (vring vq) = desc (vring (drv s))" and "heap vq = heap (drv s)"
    and "free_head vq = free_head (drv s)" and "num_free vq = num_free (drv s)" and "data vq = data (drv s)"
    and "kmalloc vq = kmalloc (drv s)" and "dma_map vq = dma_map (drv s)" and "indirect vq = indirect (drv s)"
    and "broken vq = broken (drv s)" and "notify vq = notify (drv s)" and "last_used_idx vq = last_used_idx (drv s)"
    and "a_idx (avail (vring vq)) = a_idx (avail (vring (drv s)))" and "u_idx (used (vring vq)) = u_idx (used (vring (drv s)))"
    and "u_ring (used (vring vq)) = u_ring (used (vring (drv s)))"
    and "\<forall>i < vring_num vq. a_ring (avail (vring vq)) i = a_ring (avail (vring (drv s))) i"
    and "last_avail_idx v = last_avail_idx (dev s)" and "dev_idx v = dev_idx (dev s)"
  shows "vio_inv (s\<lparr>drv := vq, dev := v\<rparr>)"
proof -
  obtain F B where w: "virtq_wf F B (contents s) (drv s)" using assms(1) by (auto simp: vio_inv_def)
  have n: "num (vring vq) = num (vring (drv s))" using assms(2) by (simp add: vring_num_def word_unat_eq_iff)
  have "virtq_wf F B (contents s) vq" by (rule virtq_wf_cong [OF w n assms(3-10)])
  moreover have "ring_size_ok (vring_num (drv s))" using w by (simp add: virtq_wf_def)
  then have "vc.window (a_ring (avail (vring vq))) 0 (vring_num (drv s)) l c =
      vc.window (a_ring (avail (vring (drv s)))) 0 (vring_num (drv s)) l c" for l c
    using assms(2,17) by (intro vc.window_cong) simp_all
  then have "waiting (s\<lparr>drv := vq, dev := v\<rparr>) = waiting s"
    using assms(14,18) n by (simp add: waiting_def vring_num_def Let_def)
  moreover have "unseen (s\<lparr>drv := vq, dev := v\<rparr>) = unseen s" using assms(13,15,16) n by (simp add: unseen_def Let_def)
  moreover have "in_flight vq = in_flight (drv s)" using assms(2,7) by (simp add: in_flight_def)
  ultimately show ?thesis using assms(1,2,7,11,12,15,19) unfolding vio_inv_def by auto
qed

definition heads :: "vio \<Rightarrow> nat list" where
  "heads s = map unat (waiting s) @ held s @ map (\<lambda>e. unat (ue_id e)) (unseen s)"

lemma vio_invD:
  assumes "vio_inv s"
  shows "\<exists>F B. virtq_wf F B (contents s) (drv s)" and "\<not> broken (drv s)" and "\<forall>k. notify (drv s) k"
    and "u_idx (used (vring (drv s))) = dev_idx (dev s)" and "distinct (heads s)" and "set (heads s) = in_flight (drv s)"
    and "\<forall>h \<in> in_flight (drv s). length (contents s h) \<le> vring_num (drv s)"
    and "map (\<lambda>v. (reads v, writes v)) (sent s) =
       taken s @ map (\<lambda>h. (reads (contents s (unat h)), writes (contents s (unat h)))) (waiting s)"
    and "finished s = got s @ map (\<lambda>e. (data (drv s) (unat (ue_id e)), ue_len e)) (unseen s)"
  using assms by - (unfold vio_inv_def heads_def, (elim conjE, assumption)+)

lemma vio_invI:
  assumes "\<exists>F B. virtq_wf F B (contents s) (drv s)" and "\<not> broken (drv s)" and "\<forall>k. notify (drv s) k"
    and "u_idx (used (vring (drv s))) = dev_idx (dev s)" and "distinct (heads s)" and "set (heads s) = in_flight (drv s)"
    and "\<forall>h \<in> in_flight (drv s). length (contents s h) \<le> vring_num (drv s)"
    and "map (\<lambda>v. (reads v, writes v)) (sent s) =
       taken s @ map (\<lambda>h. (reads (contents s (unat h)), writes (contents s (unat h)))) (waiting s)"
    and "finished s = got s @ map (\<lambda>e. (data (drv s) (unat (ue_id e)), ue_len e)) (unseen s)"
  shows "vio_inv s"
  using assms unfolding vio_inv_def heads_def by (intro conjI)

lemma vio_parts:
  assumes "vio_inv s"
  shows "ring_size_ok (vring_num (drv s))"
    and "length (waiting s) + length (held s) + length (unseen s) = card (in_flight (drv s))"
    and "length (waiting s) = vq_used (vring_num (drv s)) (last_avail_idx (dev s)) (a_idx (avail (vring (drv s))))"
    and "length (unseen s) = vq_used (vring_num (drv s)) (last_used_idx (drv s)) (u_idx (used (vring (drv s))))"
proof -
  note i = vio_invD [OF assms]
  show "ring_size_ok (vring_num (drv s))" using i(1) by (auto simp: virtq_wf_def)
  have "length (heads s) = card (in_flight (drv s))" using distinct_card [OF i(5)] i(6) by simp
  then show "length (waiting s) + length (held s) + length (unseen s) = card (in_flight (drv s))" by (simp add: heads_def)
qed (simp_all add: waiting_def unseen_def vring_num_def Let_def)

lemma in_flight_card:
  "card (in_flight vq) \<le> vring_num vq" "h < vring_num vq \<Longrightarrow> data vq h = 0 \<Longrightarrow> card (in_flight vq) < vring_num vq"
proof -
  have s: "in_flight vq \<subseteq> {..<vring_num vq}" by (auto simp: in_flight_def)
  have "card (in_flight vq) \<le> card {..<vring_num vq}" by (rule card_mono [OF _ s]) simp
  then show "card (in_flight vq) \<le> vring_num vq" by simp
  assume h: "h < vring_num vq" "data vq h = 0"
  have "h \<notin> in_flight vq" using h by (simp add: in_flight_def)
  then have "in_flight vq \<subset> {..<vring_num vq}" using s h by auto
  then have "card (in_flight vq) < card {..<vring_num vq}" by (intro psubset_card_mono) simp_all
  then show "card (in_flight vq) < vring_num vq" by simp
qed

lemma waiting_flight: "vio_inv s \<Longrightarrow> x \<in> set (waiting s) \<Longrightarrow> unat x \<in> in_flight (drv s)"
  using vio_invD(6) [of s] by (auto simp: heads_def)

lemma unseen_flight: "vio_inv s \<Longrightarrow> e \<in> set (unseen s) \<Longrightarrow> unat (ue_id e) \<in> in_flight (drv s)"
  using vio_invD(6) [of s] by (auto simp: heads_def)

lemma window_step:
  assumes "ring_size_ok n" and "vq_used n l c < n"
  shows "vc.window (m(vq_pos n c := x)) 0 n l (c + 1) = vc.window m 0 n l c @ [x]"
proof -
  have "vq_add n c 1 = c + 1" by (simp add: vq_add_def)
  moreover have "Suc (vq_used n l c) < 65536" using assms(2) ring_size_bounds [OF assms(1)] by simp
  ultimately show ?thesis using vc.window_put [OF assms(1) TrueI TrueI assms(2), of m 0 x] by simp
qed

lemma window_head:
  assumes "ring_size_ok n" and "l \<noteq> c"
  shows "vc.window m 0 n l c = m (vq_pos n l) # vc.window m 0 n (l + 1) c"
proof -
  have "vq_add n l 1 = l + 1" by (simp add: vq_add_def)
  then show ?thesis using vc.window_Cons [OF assms(1) TrueI TrueI assms(2), of m 0] by simp
qed

subsection \<open>The driver adds a buffer\<close>

lemma add_step:
  assumes "vio_inv s" and "buf_added F B (contents s) (drv s) v t vq" and "t \<noteq> 0"
  shows "vio_inv (s\<lparr>drv := vq, contents := (contents s)(unat (free_head (drv s)) := v), sent := sent s @ [v]\<rparr>)"
proof -
  note i = vio_invD [OF assms(1)]
  define h where "h = unat (free_head (drv s))"
  note a = assms(2) [unfolded buf_added_def Let_def, folded h_def]
  let ?n = "vring_num (drv s)" and ?av = "avail (vring (drv s))"
  let ?s = "s\<lparr>drv := vq, contents := (contents s)(h := v), sent := sent s @ [v]\<rparr>"
  note p = vio_parts [OF assms(1)]
  note nb = ring_size_bounds [OF p(1)]
  have h: "h < ?n" "data (drv s) h = 0" using a by blast+
  have f: "data vq = (data (drv s))(h := t)" "num (vring vq) = num (vring (drv s))" "used (vring vq) = used (vring (drv s))"
    "a_idx (avail (vring vq)) = a_idx ?av + 1" "a_ring (avail (vring vq)) = (a_ring ?av)(vq_pos ?n (a_idx ?av) := of_nat h)"
    "last_used_idx vq = last_used_idx (drv s)" "length v \<le> ?n" "notify vq = notify (drv s)" "broken vq = broken (drv s)"
    using a i(3) by blast+
  have n: "vring_num vq = ?n" using f(2) by (simp add: vring_num_def)
  have hf: "h \<notin> in_flight (drv s)" using h by (simp add: in_flight_def)
  have uh: "unat (of_nat h :: u16) = h" using h(1) nb by (simp add: unat_of_nat)
  have "vq_used ?n (last_avail_idx (dev s)) (a_idx ?av) < ?n" using p(2,3) in_flight_card(2) [OF h] by linarith
  from window_step [OF p(1) this, of "a_ring ?av" "of_nat h"]
  have wt: "waiting ?s = waiting s @ [of_nat h]" using f by (simp add: waiting_def vring_num_def Let_def)
  have us: "unseen ?s = unseen s" using f by (simp add: unseen_def Let_def)
  have fl: "in_flight vq = insert h (in_flight (drv s))" using f(1) assms(3) h n by (auto simp: in_flight_def)
  have pc: "mset (heads ?s) = add_mset h (mset (heads s))" by (simp add: heads_def wt us uh)
  have wc: "unat x \<noteq> h" if "x \<in> set (waiting s)" for x using waiting_flight [OF assms(1) that] hf by auto
  have uc: "unat (ue_id e) \<noteq> h" if "e \<in> set (unseen s)" for e using unseen_flight [OF assms(1) that] hf by auto
  have sp: "set (heads ?s) = insert h (set (heads s))" using arg_cong [OF pc, of set_mset] by simp
  have pm: "mset (heads ?s) = mset (h # heads s)" using pc by simp
  have dp: "distinct (heads ?s)"
    by (subst mset_eq_imp_distinct_iff [OF pm]) (use i(5,6) hf in simp)
  show ?thesis unfolding h_def [symmetric]
  proof (rule vio_invI)
    show "\<exists>F B. virtq_wf F B (contents ?s) (drv ?s)" using a by auto
    show "map (\<lambda>v. (reads v, writes v)) (sent ?s) =
        taken ?s @ map (\<lambda>h. (reads (contents ?s (unat h)), writes (contents ?s (unat h)))) (waiting ?s)"
      using i(8) uh wc unfolding wt by simp
    show "finished ?s = got ?s @ map (\<lambda>e. (data (drv ?s) (unat (ue_id e)), ue_len e)) (unseen ?s)"
      using i(9) f(1) uc unfolding us by simp
    show "\<forall>h \<in> in_flight (drv ?s). length (contents ?s h) \<le> vring_num (drv ?s)"
      using i(7) f(7) n fl by auto
    show "set (heads ?s) = in_flight (drv ?s)" using sp fl i(6) by simp
    show "distinct (heads ?s)" by (rule dp)
  qed (use f i in simp_all)
qed

subsection \<open>The device takes a buffer\<close>

lemma heap_tables_agree: "agrees (heap vq) (heap_tables vq)"
  by (simp add: agrees_def heap_tables_def)

lemma in_flight_holds:
  assumes "virtq_wf F B V vq" and "h \<in> in_flight vq"
  shows "holds (desc (vring vq)) (heap vq) (B h) h (V h)" "\<forall>x \<in> set (B h). x < vring_num vq"
proof -
  have p: "parts_ok (vring_num vq) (desc (vring vq)) (heap vq) (unat (free_head vq)) (unat (num_free vq)) (data vq) F B V"
    using assms(1) by (simp add: virtq_wf_def)
  note pd = p [unfolded parts_ok_def]
  have h: "h < vring_num vq" "data vq h \<noteq> 0" using assms(2) by (simp_all add: in_flight_def)
  show "holds (desc (vring vq)) (heap vq) (B h) h (V h)" using pd h by auto
  show "\<forall>x \<in> set (B h). x < vring_num vq" using parts_distinct(4) [OF conjunct1 [OF conjunct2 [OF pd]] h(1)] by auto
qed

lemma take_step:
  assumes "vio_inv s"
  shows "\<exists>s'. vio_step Dev_take s = Ret s' \<and> vio_inv s'"
proof -
  note i = vio_invD [OF assms] and p = vio_parts [OF assms]
  let ?vr = "vring (drv s)" and ?n = "vring_num (drv s)" and ?v = "dev_view s"
  note nb = ring_size_bounds [OF p(1)]
  have mp: "unat (ucast (last_avail_idx (dev s)) AND (num ?vr - 1)) = vq_pos ?n (last_avail_idx (dev s))"
    using mask_pos [of "num ?vr" "last_avail_idx (dev s)"] p(1) by (simp add: vring_num_def)
  obtain err idx where g: "vringh_get_head getu16_kern ?vr (last_avail_idx (dev s)) = (err, idx)" by fastforce
  have dv: "h_vring ?v = ?vr" "last_avail_idx ?v = last_avail_idx (dev s)" by (simp_all add: dev_view_def)
  have wc: "waiting s = a_ring (avail ?vr) (vq_pos ?n (last_avail_idx (dev s))) #
      vc.window (a_ring (avail ?vr)) 0 ?n (last_avail_idx (dev s) + 1) (a_idx (avail ?vr))"
    if "a_idx (avail ?vr) \<noteq> last_avail_idx (dev s)"
    using window_head [OF p(1), of "last_avail_idx (dev s)" "a_idx (avail ?vr)"] that by (simp add: waiting_def vring_num_def Let_def)
  from g show ?thesis
  proof (cases rule: get_head_cases)
    case 1
    have "vca_vringh_getdesc_kern (heap_tables (drv s)) any_alloc ?v (Some empty_iov) (Some empty_iov) 0 =
        Some (Ret (0, 0, Some empty_iov, Some empty_iov, ?v\<lparr>last_avail_idx := idx\<rparr>))"
      using g 1 dv by (simp add: vca_vringh_getdesc_kern_def Let_def)
    then have "vio_step Dev_take s = Ret (s\<lparr>drv := (drv s)\<lparr>vring := ?vr\<rparr>, dev := ?v\<lparr>last_avail_idx := idx\<rparr>\<rparr>)"
      by (simp add: dev_done_def dev_view_def)
    moreover have "vio_inv (s\<lparr>drv := (drv s)\<lparr>vring := ?vr\<rparr>, dev := ?v\<lparr>last_avail_idx := idx\<rparr>\<rparr>)"
      using 1(2) by (intro vio_inv_frame [OF assms]) (simp_all add: dev_view_def dev_idx_def)
    ultimately show ?thesis by blast
  next
    case 2
    have "a_ring (avail ?vr) (vq_pos ?n (last_avail_idx (dev s))) \<in> set (waiting s)" using wc [OF 2(3)] by simp
    from waiting_flight [OF assms this] have False using 2(4) unfolding mp by (simp add: in_flight_def vring_num_def)
    then show ?thesis ..
  next
    case (3 h)
    have w: "waiting s = h # vc.window (a_ring (avail ?vr)) 0 ?n (last_avail_idx (dev s) + 1) (a_idx (avail ?vr))"
      using wc [OF 3(4)] 3(5) unfolding mp by simp
    then have hf: "unat h \<in> in_flight (drv s)" using waiting_flight [OF assms] by simp
    obtain F B where wf: "virtq_wf F B (contents s) (drv s)" using i(1) by blast
    note ih = in_flight_holds [OF wf hf]
    have "\<exists>st r w. iov_loop (kern_env ?vr (heap_tables (drv s)) any_alloc) ?vr (loop_start ?vr h (Some empty_iov) (Some empty_iov)) =
        Some (Ret (0, st)) \<and> riov st = Some r \<and> wiov st = Some w \<and>
        blocks r = reads (contents s (unat h)) \<and> blocks w = writes (contents s (unat h))"
      using ih(2) i(7) hf nb by (intro read_buffer [OF ih(1) heap_tables_agree]) (auto simp: vring_num_def)
    then obtain st r w' where l: "iov_loop (kern_env ?vr (heap_tables (drv s)) any_alloc) ?vr
        (loop_start ?vr h (Some empty_iov) (Some empty_iov)) = Some (Ret (0, st))" "riov st = Some r" "wiov st = Some w'"
        "blocks r = reads (contents s (unat h))" "blocks w' = writes (contents s (unat h))" by blast
    have "vringh_get_head getu16_kern (h_vring ?v) (last_avail_idx ?v) = (int (unat h), idx)" using g 3(1) dv by simp
    moreover have "unat h < unat (num (h_vring ?v))" using 3(2) dv by simp
    moreover have "Some empty_iov \<noteq> None \<or> Some empty_iov \<noteq> None" by simp
    moreover have "iov_loop (kern_env (h_vring ?v) (heap_tables (drv s)) any_alloc) (h_vring ?v)
        (loop_start (h_vring ?v) h (Some empty_iov) (Some empty_iov)) = Some (Ret (0, st))" using l(1) dv by simp
    ultimately have gd: "vca_vringh_getdesc_kern (heap_tables (drv s)) any_alloc ?v (Some empty_iov) (Some empty_iov) 0 =
        Some (Ret (if (0 :: int) \<noteq> 0 then 0 else 1, h, riov st, wiov st, ?v\<lparr>last_avail_idx := idx\<rparr>))"
      by (rule getdesc_head)
    let ?s = "s\<lparr>dev := ?v\<lparr>last_avail_idx := idx\<rparr>, held := held s @ [unat h],
        taken := taken s @ [(blocks r, blocks w')]\<rparr>"
    have "vio_step Dev_take s = Ret ?s"
      using gd l(2,3) by (simp add: dev_done_def dev_view_def)
    moreover have "vio_inv ?s"
    proof (rule vio_invI)
      have wt: "waiting s = h # waiting ?s" unfolding w using 3(3) by (simp add: waiting_def vring_num_def Let_def)
      have us: "unseen ?s = unseen s" by (simp add: unseen_def)
      have pm: "mset (heads ?s) = mset (heads s)" by (simp add: heads_def us wt)
      show "distinct (heads ?s)" by (subst mset_eq_imp_distinct_iff [OF pm]) (rule i(5))
      show "set (heads ?s) = in_flight (drv ?s)" using mset_eq_setD [OF pm] i(6) by simp
      show "map (\<lambda>v. (reads v, writes v)) (sent ?s) =
          taken ?s @ map (\<lambda>h. (reads (contents ?s (unat h)), writes (contents ?s (unat h)))) (waiting ?s)"
        using i(8) wt l(4,5) by simp
      show "finished ?s = got ?s @ map (\<lambda>e. (data (drv ?s) (unat (ue_id e)), ue_len e)) (unseen ?s)"
        using i(9) us by simp
    qed (use i in \<open>simp_all add: dev_view_def dev_idx_def\<close>)
    ultimately show ?thesis by blast
  qed
qed

subsection \<open>The device completes a buffer\<close>

lemma ucast_Suc: "ucast (c + 1 :: u32) = (ucast c + 1 :: u16)"
proof -
  have d: "(2 :: nat) ^ 16 dvd 2 ^ 32" by (intro le_imp_power_dvd) simp
  have "unat (ucast (c + 1) :: u16) = (unat c + 1) mod 2 ^ 32 mod 2 ^ 16"
    by (simp add: unsigned_ucast_eq take_bit_nat_def unat_word_ariths)
  also have "\<dots> = (unat c + 1) mod 2 ^ 16" by (rule mod_mod_cancel [OF d])
  also have "\<dots> = unat (ucast c + 1 :: u16)"
    by (simp add: unat_word_ariths unsigned_ucast_eq take_bit_nat_def mod_Suc_eq)
  finally show ?thesis by (simp only: word_unat_eq_iff)
qed

lemma blit_one: "blit m j (\<lambda>k. [x] ! k) 0 1 = m(j := x)"
  by (auto simp: blit_def fun_eq_iff)

lemma complete_one:
  "vca_vringh_complete_kern h len v = (0, v\<lparr>h_vring := (h_vring v)\<lparr>used := (used (h_vring v))\<lparr>
     u_ring := (u_ring (used (h_vring v)))(unat (dev_idx v) mod unat (num (h_vring v)) := \<lparr>ue_id = ucast h, ue_len = len\<rparr>),
     u_idx := dev_idx v + 1\<rparr>\<rparr>, completed := completed v + 1\<rparr>)"
  using blit_one [of "u_ring (used (h_vring v))" "unat (dev_idx v) mod unat (num (h_vring v))" "\<lparr>ue_id = ucast h, ue_len = len\<rparr>"]
  by (simp add: vca_vringh_complete_kern_def vringh_complete_def putused_kern_def putu16_kern_def write_used_def dev_idx_def Let_def)

lemma complete_step:
  assumes "vio_inv s" and "h \<in> set (held s)"
  shows "\<exists>s'. vio_step (Dev_complete h len) s = Ret s' \<and> vio_inv s'"
proof -
  note i = vio_invD [OF assms(1)] and p = vio_parts [OF assms(1)]
  let ?vr = "vring (drv s)" and ?n = "vring_num (drv s)" and ?e = "\<lparr>ue_id = ucast (of_nat h :: u16), ue_len = len\<rparr>"
  note nb = ring_size_bounds [OF p(1)]
  let ?c = "u_idx (used ?vr)"
  have hf: "h \<in> in_flight (drv s)" using i(6) assms(2) by (auto simp: heads_def)
  then have hn: "h < ?n" "data (drv s) h \<noteq> 0" by (simp_all add: in_flight_def)
  have uh: "unat (ucast (of_nat h :: u16) :: u32) = h"
    using hn nb by (simp add: unsigned_ucast_eq take_bit_nat_eq_self unat_of_nat)
  have dv: "dev_idx (dev_view s) = ?c" "h_vring (dev_view s) = ?vr" using i(4) by (simp_all add: dev_view_def dev_idx_def)
  let ?vr' = "?vr\<lparr>used := (used ?vr)\<lparr>u_ring := (u_ring (used ?vr))(vq_pos ?n ?c := ?e), u_idx := ?c + 1\<rparr>\<rparr>"
  let ?v = "(dev_view s)\<lparr>h_vring := ?vr', completed := completed (dev_view s) + 1\<rparr>"
  let ?s = "s\<lparr>drv := (drv s)\<lparr>vring := ?vr'\<rparr>, dev := ?v, held := remove1 h (held s), finished := finished s @ [(data (drv s) h, len)]\<rparr>"
  have "vca_vringh_complete_kern (of_nat h) len (dev_view s) = (0, ?v)"
    unfolding complete_one dv by (simp add: vq_pos_def vring_num_def)
  then have st: "vio_step (Dev_complete h len) s = Ret ?s" by (simp add: dev_done_def)
  have "length (held s) > 0" using assms(2) by auto
  then have "vq_used ?n (last_used_idx (drv s)) ?c < ?n" using p(2,4) in_flight_card(1) [of "drv s"] by linarith
  from window_step [OF p(1) this, of "u_ring (used ?vr)" ?e] have us: "unseen ?s = unseen s @ [?e]"
    by (simp add: unseen_def vring_num_def Let_def)
  have wt: "waiting ?s = waiting s" by (simp add: waiting_def dev_view_def Let_def)
  have fl: "in_flight (drv ?s) = in_flight (drv s)" by (simp add: in_flight_def vring_num_def)
  have "mset (held s) = add_mset h (mset (remove1 h (held s)))" using assms(2) by simp
  then have pm: "mset (heads ?s) = mset (heads s)" by (simp add: heads_def us wt uh)
  obtain F B where wf: "virtq_wf F B (contents s) (drv s)" using i(1) by blast
  have "vio_inv ?s"
  proof (rule vio_invI)
    have "virtq_wf F B (contents s) ((drv s)\<lparr>vring := ?vr'\<rparr>)" by (rule virtq_wf_cong [OF wf]) simp_all
    then show "\<exists>F B. virtq_wf F B (contents ?s) (drv ?s)" by auto
    show "distinct (heads ?s)" by (subst mset_eq_imp_distinct_iff [OF pm]) (rule i(5))
    show "set (heads ?s) = in_flight (drv ?s)" using mset_eq_setD [OF pm] i(6) fl by simp
    show "u_idx (used (vring (drv ?s))) = dev_idx (dev ?s)"
      using i(4) by (simp add: dev_view_def dev_idx_def ucast_Suc add.assoc)
    show "map (\<lambda>v. (reads v, writes v)) (sent ?s) =
        taken ?s @ map (\<lambda>h. (reads (contents ?s (unat h)), writes (contents ?s (unat h)))) (waiting ?s)"
      using i(8) wt by simp
    show "finished ?s = got ?s @ map (\<lambda>e. (data (drv ?s) (unat (ue_id e)), ue_len e)) (unseen ?s)"
      unfolding us using i(9) uh by simp
    show "\<forall>h \<in> in_flight (drv ?s). length (contents ?s h) \<le> vring_num (drv ?s)"
      unfolding fl using i(7) by (simp add: vring_num_def)
  qed (use i in simp_all)
  then show ?thesis using st by blast
qed

subsection \<open>The other operations\<close>

text \<open>An operation of one side that keeps the rings.\<close>

lemma drv_frame:
  assumes "vio_inv s" and "vring_num vq = vring_num (drv s)" and "desc (vring vq) = desc (vring (drv s))" and "heap vq = heap (drv s)"
    and "free_head vq = free_head (drv s)" and "num_free vq = num_free (drv s)" and "data vq = data (drv s)"
    and "kmalloc vq = kmalloc (drv s)" and "dma_map vq = dma_map (drv s)" and "indirect vq = indirect (drv s)"
    and "broken vq = broken (drv s)" and "notify vq = notify (drv s)" and "last_used_idx vq = last_used_idx (drv s)"
    and "a_idx (avail (vring vq)) = a_idx (avail (vring (drv s)))" and "u_idx (used (vring vq)) = u_idx (used (vring (drv s)))"
    and "u_ring (used (vring vq)) = u_ring (used (vring (drv s)))"
    and "\<forall>i < vring_num vq. a_ring (avail (vring vq)) i = a_ring (avail (vring (drv s))) i"
  shows "vio_inv (s\<lparr>drv := vq\<rparr>)"
proof -
  have "s\<lparr>drv := vq, dev := dev s\<rparr> = s\<lparr>drv := vq\<rparr>" by (cases s) simp
  then show ?thesis using vio_inv_frame [OF assms, of "dev s"] by simp
qed

lemma dev_frame:
  assumes "vio_inv s" and "num (h_vring v) = num (vring (drv s))" and "desc (h_vring v) = desc (vring (drv s))"
    and "avail (h_vring v) = avail (vring (drv s))" and "u_idx (used (h_vring v)) = u_idx (used (vring (drv s)))"
    and "u_ring (used (h_vring v)) = u_ring (used (vring (drv s)))"
    and "last_avail_idx v = last_avail_idx (dev s)" and "dev_idx v = dev_idx (dev s)"
  shows "vio_inv (dev_done v s)"
proof -
  have "dev_done v s = s\<lparr>drv := (drv s)\<lparr>vring := h_vring v\<rparr>, dev := v\<rparr>" by (cases s) (simp add: dev_done_def)
  moreover have "vio_inv (s\<lparr>drv := (drv s)\<lparr>vring := h_vring v\<rparr>, dev := v\<rparr>)"
    by (rule vio_inv_frame [OF assms(1)]) (use assms(2-8) in \<open>simp_all add: vring_num_def\<close>)
  ultimately show ?thesis by simp
qed

lemma drv_add_step:
  assumes "vio_inv s" and "add_ok sgs n k l t (drv s)"
  shows "\<exists>s'. vio_step (Drv_add sgs n k l t) s = Ret s' \<and> vio_inv s'"
proof -
  note i = vio_invD [OF assms(1)]
  obtain F B where w: "virtq_wf F B (contents s) (drv s)" using i(1) by blast
  from virtqueue_add_ok [OF w assms(2)] obtain rc sgs' vq where r:
    "virtqueue_add sgs n k l t (drv s) = Ret (rc, sgs', vq)"
    "if rc = 0 then \<not> broken (drv s) \<and> buf_added F B (contents s) (drv s) (buffer_view (dma_map (drv s)) sgs' k) t vq
     else refused n (drv s) rc vq" by blast
  show ?thesis
  proof (cases "rc = 0")
    case True
    have "t \<noteq> 0" using assms(2) by (simp add: add_ok_def)
    moreover have "buf_added F B (contents s) (drv s) (buffer_view (dma_map (drv s)) sgs' k) t vq" using r(2) True by simp
    ultimately show ?thesis using add_step [OF assms(1)] r(1) True by (simp add: Let_def)
  next
    case False
    then have "refused n (drv s) rc vq" using r(2) by simp
    then have "vio_inv (s\<lparr>drv := vq\<rparr>)" using i(2) by (intro drv_frame [OF assms(1)]) (auto simp: refused_def vring_num_def)
    then show ?thesis using r(1) False by simp
  qed
qed

lemma drv_get_step:
  assumes "vio_inv s"
  shows "\<exists>s'. vio_step Drv_get s = Ret s' \<and> vio_inv s'"
proof -
  note i = vio_invD [OF assms] and p = vio_parts [OF assms]
  let ?q = "drv s" and ?n = "vring_num (drv s)"
  show ?thesis
  proof (cases "last_used_idx ?q = u_idx (used (vring ?q))")
    case True
    then have "vca_virtqueue_get_buf 0 ?q = Some (Ret (0, 0, ?q))" by (intro get_nothing) simp
    moreover have "s\<lparr>drv := ?q, got := got s\<rparr> = s" by (cases s) simp
    ultimately show ?thesis using assms by simp
  next
    case False
    obtain F B where w: "virtq_wf F B (contents s) ?q" using i(1) by blast
    define h where "h = unat (ue_id (next_used ?q))"
    from window_head [OF p(1), of "last_used_idx ?q" "u_idx (used (vring ?q))"] False
    have us: "unseen s = next_used ?q # vc.window (u_ring (used (vring ?q))) 0 ?n (last_used_idx ?q + 1) (u_idx (used (vring ?q)))"
      by (simp add: unseen_def next_used_def vring_num_def Let_def)
    have hf: "h \<in> in_flight ?q" using unseen_flight [OF assms, of "next_used ?q"] us by (simp add: h_def)
    then have hn: "h < ?n" "data ?q h \<noteq> 0" by (simp_all add: in_flight_def)
    from get_done [OF w i(2) False h_def hn, of 0] obtain vq where g:
      "vca_virtqueue_get_buf 0 ?q = Some (Ret (data ?q h, ue_len (next_used ?q), vq))"
      "virtq_wf (B h @ F) (B(h := [])) (contents s) vq" "data vq = (data ?q)(h := 0)" "same_avail ?q vq"
      "used (vring vq) = used (vring ?q)" "last_used_idx vq = last_used_idx ?q + 1" "\<not> broken vq" "notify vq = notify ?q"
      by blast
    note sa = g(4) [unfolded same_avail_def]
    let ?s = "s\<lparr>drv := vq, got := got s @ [(data ?q h, ue_len (next_used ?q))]\<rparr>"
    have st: "vio_step Drv_get s = Ret ?s" using g(1) hn by simp
    have n: "vring_num vq = ?n" using sa by (simp add: vring_num_def)
    have "vc.window (a_ring (avail (vring vq))) 0 ?n l c = vc.window (a_ring (avail (vring ?q))) 0 ?n l c" for l c
      using sa p(1) by (intro vc.window_cong) simp_all
    then have wt: "waiting ?s = waiting s" using sa by (simp add: waiting_def vring_num_def Let_def)
    have un: "unseen s = next_used ?q # unseen ?s"
      unfolding us using g(5,6) sa by (simp add: unseen_def vring_num_def Let_def)
    have fl: "in_flight vq = in_flight ?q - {h}" using g(3) n by (auto simp: in_flight_def)
    have pm: "mset (heads s) = mset (h # heads ?s)" unfolding heads_def wt un by (simp add: h_def)
    have d: "distinct (h # heads ?s)" using i(5) by (subst mset_eq_imp_distinct_iff [OF pm, symmetric])
    have se: "set (heads s) = insert h (set (heads ?s))" using mset_eq_setD [OF pm] by simp
    have "vio_inv ?s"
    proof (rule vio_invI)
      show "\<exists>F B. virtq_wf F B (contents ?s) (drv ?s)" using g(2) by auto
      show "distinct (heads ?s)" using d by simp
      show sp: "set (heads ?s) = in_flight (drv ?s)" using d se i(6) fl by auto
      show "finished ?s = got ?s @ map (\<lambda>e. (data (drv ?s) (unat (ue_id e)), ue_len e)) (unseen ?s)"
      proof -
        have "unat (ue_id e) \<noteq> h" if "e \<in> set (unseen ?s)" for e using that d by (auto simp: heads_def)
        then have "map (\<lambda>e. (data vq (unat (ue_id e)), ue_len e)) (unseen ?s) =
            map (\<lambda>e. (data ?q (unat (ue_id e)), ue_len e)) (unseen ?s)" using g(3) by simp
        then show ?thesis using i(9) un by (simp add: h_def)
      qed
      show "map (\<lambda>v. (reads v, writes v)) (sent ?s) =
          taken ?s @ map (\<lambda>h. (reads (contents ?s (unat h)), writes (contents ?s (unat h)))) (waiting ?s)"
        unfolding wt using i(8) by simp
      show "\<forall>h \<in> in_flight (drv ?s). length (contents ?s h) \<le> vring_num (drv ?s)" using i(7) fl n by simp
      show "u_idx (used (vring (drv ?s))) = dev_idx (dev ?s)" using i(4) g(5) by simp
    qed (use g(7,8) i(3) in simp_all)
    then show ?thesis using st by blast
  qed
qed

lemma need_notify_idx: "dev_idx (snd (vca_vringh_need_notify_kern v)) = dev_idx v"
  "h_vring (snd (vca_vringh_need_notify_kern v)) = h_vring v" "last_avail_idx (snd (vca_vringh_need_notify_kern v)) = last_avail_idx v"
  by (simp_all add: vca_vringh_need_notify_kern_def vringh_need_notify_def getu16_kern_def dev_idx_def Let_def)

interpretation vio: guarded_machine vio_step vio_inv vio_guard
proof
  fix s x
  assume v: "vio_inv s" and g: "vio_guard s x"
  show "\<exists>s'. vio_step x s = Ret s' \<and> vio_inv s'"
  proof (cases x)
    case (Drv_add sgs n k l t)
    then show ?thesis using drv_add_step [OF v, of sgs n k l t] g by simp
  next
    case Drv_get
    then show ?thesis using drv_get_step [OF v] by simp
  next
    case Drv_kick
    obtain m b where k: "snd (vca_virtqueue_kick (drv s)) = (drv s)\<lparr>num_added := 0, notified := m, broken := b\<rparr>"
      "(\<forall>k. notify (drv s) k) \<longrightarrow> b = broken (drv s)" using kick_frame [of "drv s"] by blast
    then have "vio_inv (s\<lparr>drv := snd (vca_virtqueue_kick (drv s))\<rparr>)"
      using vio_invD(3) [OF v] by (intro drv_frame [OF v]) (simp_all add: vring_num_def)
    then show ?thesis using Drv_kick by simp
  next
    case Dev_take
    then show ?thesis using take_step [OF v] by simp
  next
    case (Dev_complete h len)
    then show ?thesis using complete_step [OF v, of h len] g by simp
  next
    case Dev_need_notify
    have "vio_inv (dev_done (snd (vca_vringh_need_notify_kern (dev_view s))) s)"
      by (rule dev_frame [OF v]) (simp_all add: need_notify_idx, simp_all add: dev_view_def dev_idx_def)
    then show ?thesis using Dev_need_notify by simp
  next
    case Dev_notify_enable
    have "vio_inv (dev_done (snd (vca_vringh_notify_enable_kern (dev_view s))) s)"
      by (rule dev_frame [OF v]) (simp_all add: vca_vringh_notify_enable_kern_def vringh_notify_enable_def putu16_kern_def
        getu16_kern_def dev_view_def dev_idx_def Let_def)
    then show ?thesis using Dev_notify_enable by simp
  next
    case Dev_notify_disable
    have "vio_inv (dev_done (vca_vringh_notify_disable_kern (dev_view s)) s)"
      by (rule dev_frame [OF v]) (simp_all add: vca_vringh_notify_disable_kern_def vringh_notify_disable_def putu16_kern_def
        dev_view_def dev_idx_def Let_def)
    then show ?thesis using Dev_notify_disable by simp
  next
    case Drv_disable_cb
    have "vio_inv (s\<lparr>drv := vca_virtqueue_disable_cb (drv s)\<rparr>)"
      by (rule drv_frame [OF v]) (simp_all add: vca_virtqueue_disable_cb_def set_avail_flags_def vring_num_def)
    then show ?thesis using Drv_disable_cb by simp
  next
    case Drv_enable_cb
    have "vio_inv (s\<lparr>drv := snd (vca_virtqueue_enable_cb (drv s))\<rparr>)"
      by (rule drv_frame [OF v]) (simp_all add: vca_virtqueue_enable_cb_def vca_virtqueue_enable_cb_prepare_def
        set_avail_flags_def set_used_event_def vring_num_def Let_def)
    then show ?thesis using Drv_enable_cb by simp
  qed
qed

section \<open>Properties\<close>

text \<open>A new queue and the device that was initialised for it, on a ring whose used part is empty.\<close>

definition new_system :: "vring_virtqueue \<Rightarrow> vringh \<Rightarrow> vio" where
  "new_system vq v = \<lparr>drv = vq, dev = v, contents = (\<lambda>_. []), held = [], sent = [], taken = [], finished = [], got = []\<rparr>"

text \<open>A buffer on its way to the device and back.\<close>

definition sample_ops2 :: "vio_op list" where
  "sample_ops2 = [Drv_add sample_sgs 2 1 1 7, Drv_kick, Dev_take, Dev_complete 0 9, Drv_get]"

definition sample_vringh :: vringh where
  "sample_vringh = \<lparr>little_endian = False, event_indices = False, weak_barriers = False, last_avail_idx = 0,
     h_last_used_idx = 0, completed = 0, h_vring = vring sample_queue\<rparr>"

lemma sample_vringh_init: "vca_vringh_init_kern sample_vringh 0 4 False (vring sample_queue) = (0, sample_vringh)"
  by (simp add: vca_vringh_init_kern_def vringh_init_def sample_vringh_def sample_eval)

lemmas sample_eval2 = sample_eval sample_sgs_def sample_vringh_def sample_ops2_def new_system_def vca_vringh_getdesc_kern_def
  vringh_get_head_def getu16_kern_def vringh_iov_def iov_loop.simps iov_turn_def fetch_desc_def add_desc_def iov_add.simps
  kern_env_def copydesc_kern_def no_range_check_def resize_iovec_def append_block_def empty_iov_def vringh_kiov_init_def
  any_alloc_def next_desc_def dev_view_def dev_done_def VRINGH_IOV_ALLOCATED_def vca_virtqueue_kick_def
  vca_virtqueue_kick_prepare_def vca_virtqueue_notify_def call_notify_def complete_one dev_idx_def

lemma sample_guarded2: "vio.guarded sample_ops2 (new_system sample_queue sample_vringh)"
  by (simp add: sample_eval2 Let_def)

text \<open>
  C5. Driver and device, each in its own memory beside the shared ring, lose nothing, invent nothing
  and mix nothing up: from a new queue whose notification succeeds on, whatever the order in which the driver adds, kicks, gets
  buffers back and switches its callback and the device takes, completes in any order and
  notifies, no operation fails. The device has found exactly the blocks of the buffers the
  driver sent, in order, and all but those still in the avail ring; the driver has got back exactly the
  tokens and lengths the device completed, in order, and all but those still in the used ring.
\<close>
theorem nothing_lost:
  assumes "vca_vring_new_virtqueue ok n pages cb base (vca_vring_transport_features vd) = Ret (Some vq, vd')"
    and "ring_size_ok (unat n)" and "\<forall>hp k a t. kmalloc base hp k = Some (a, t) \<longrightarrow> hp a = None" and "heap base = Map.empty"
    and "\<forall>k. notify base k" and "a_idx (avail pages) = 0" and "u_idx (used pages) = 0"
    and "vca_vringh_init_kern v0 fs n weak (vring vq) = (0, v)" and "vio.guarded ops (new_system vq v)"
  shows "\<exists>s. vio.run ops (new_system vq v) = Ret s \<and> \<not> broken (drv s) \<and>
    map (\<lambda>b. (reads b, writes b)) (sent s) =
      taken s @ map (\<lambda>h. (reads (contents s (unat h)), writes (contents s (unat h)))) (waiting s) \<and>
    finished s = got s @ map (\<lambda>e. (data (drv s) (unat (ue_id e)), ue_len e)) (unseen s)"
proof -
  note nq = new_queue_wf [OF assms(1-4) transport_excludes]
  have q: "a_idx (avail (vring vq)) = 0" "u_idx (used (vring vq)) = 0" "last_used_idx vq = 0" "\<not> broken vq" "notify vq = notify base"
    using assms(1,6,7) by (auto simp: vca_vring_new_virtqueue_def set_avail_flags_def Let_def split: if_splits)
  have v: "last_avail_idx v = 0" "dev_idx v = 0"
    using assms(8) by (auto simp: vca_vringh_init_kern_def vringh_init_def dev_idx_def EINVAL_def split: if_splits)
  have e: "waiting (new_system vq v) = []" "unseen (new_system vq v) = []" "in_flight vq = {}"
    using q v nq(2,3) by (auto simp: waiting_def unseen_def new_system_def vq_used_def in_flight_def Let_def simp flip: length_0_conv)
  have "vio_inv (new_system vq v)"
    by (rule vio_invI) (use nq(1) q v e assms(5) in \<open>auto simp: new_system_def heads_def\<close>)
  from vio.run_safe [OF this assms(9)] show ?thesis using vio_invD(2,8,9) by blast
qed

theorem nothing_lost_witness:
  "\<exists>s. vio.run sample_ops2 (new_system sample_queue sample_vringh) = Ret s \<and> \<not> broken (drv s) \<and>
    map (\<lambda>b. (reads b, writes b)) (sent s) =
      taken s @ map (\<lambda>h. (reads (contents s (unat h)), writes (contents s (unat h)))) (waiting s) \<and>
    finished s = got s @ map (\<lambda>e. (data (drv s) (unat (ue_id e)), ue_len e)) (unseen s)"
  by (rule nothing_lost [OF sample_new sample_size _ _ _ _ _ sample_vringh_init sample_guarded2])
    (simp_all add: sample_base_def sample_pages_def)

end
