(* ===== verification/Blk_Pool.thy ===== *)
theory Blk_Pool
  imports Machine_Spec
begin

text \<open>
  The pools of the block driver (\<open>blockio/vcablk/vcablk_pool.h\<close>): an array of items, the free ones
  linked from \<open>head\<close> to \<open>tail\<close>. An item is taken at the head and given back at the tail; the last free
  one stays in the pool, so that the two ends are never the same item and need no common lock.

  A pointer to an item is the item's index. A \<open>BUG_ON\<close> and an access outside the array are \<open>Abort\<close>.
\<close>

section \<open>The pool\<close>

definition VCABLK_POOL_USED :: u16 where "VCABLK_POOL_USED = 65535"

record 'a vcablk_pool =
  pl_num :: u16
  pl_head :: u16
  pl_tail :: u16
  next_free :: "u16 mem"
  items :: "'a mem"

definition vcablk_pool_clear :: "'a \<Rightarrow> 'a vcablk_pool \<Rightarrow> 'a vcablk_pool outcome" where
  "vcablk_pool_clear zero p =
     (let n = unat (pl_num p);
        nx = (\<lambda>i. if i < n then 0 else next_free p i);
        nx' = fold (\<lambda>i m. m(i := of_nat (i + 1))) [0..<n - 1] nx
      in if n = 0 then Abort
         else Ret (p\<lparr>items := (\<lambda>i. if i < n then zero else items p i), pl_head := 0,
           next_free := nx'(n - 1 := 0), pl_tail := pl_num p - 1\<rparr>))"

text \<open>\<open>ok\<close> says that \<open>kmalloc\<close> succeeds; the memory it gives holds \<open>raw\<close>.\<close>

definition vcablk_pool_init :: "bool \<Rightarrow> 'a vcablk_pool \<Rightarrow> 'a \<Rightarrow> u16 \<Rightarrow> 'a vcablk_pool option outcome" where
  "vcablk_pool_init ok raw zero n =
     (if VCABLK_POOL_USED \<le> n \<or> 65535 \<le> unat n + 1 then Ret None
      else if \<not> ok then Ret None
      else (case vcablk_pool_clear zero (raw\<lparr>pl_num := n + 1, pl_head := 0, pl_tail := 0\<rparr>) of Abort \<Rightarrow> Abort
        | Ret p \<Rightarrow> Ret (Some p)))"

definition vcablk_pool_get_by_id :: "'a vcablk_pool \<Rightarrow> u16 \<Rightarrow> nat option" where
  "vcablk_pool_get_by_id p idx =
     (if idx < pl_num p \<and> next_free p (unat idx) = VCABLK_POOL_USED then Some (unat idx) else None)"

definition vcablk_is_available :: "'a vcablk_pool \<Rightarrow> bool" where
  "vcablk_is_available p \<longleftrightarrow> pl_head p \<noteq> pl_tail p"

definition vcablk_pool_pop :: "'a vcablk_pool \<Rightarrow> nat option \<times> 'a vcablk_pool" where
  "vcablk_pool_pop p =
     (if pl_head p \<noteq> pl_tail p then
        let i = unat (pl_head p)
        in (Some i, p\<lparr>pl_head := next_free p i, next_free := (next_free p)(i := VCABLK_POOL_USED)\<rparr>)
      else (None, p))"

text \<open>The pointer given back is NULL (\<open>None\<close>) or belongs to item \<open>i\<close>.\<close>

definition vcablk_pool_push :: "nat option \<Rightarrow> 'a vcablk_pool \<Rightarrow> 'a vcablk_pool outcome" where
  "vcablk_pool_push ptr p = (case ptr of None \<Rightarrow> Abort | Some i \<Rightarrow>
     if unat (pl_num p) \<le> i \<or> next_free p i \<noteq> VCABLK_POOL_USED then Abort
     else Ret (p\<lparr>next_free := ((next_free p)(i := 0))(unat (pl_tail p) := of_nat i), pl_tail := of_nat i\<rparr>))"

text \<open>The items in use, in the order \<open>vcablk_pool_foreach_used\<close> visits them.\<close>

definition vcablk_pool_foreach_used :: "'a vcablk_pool \<Rightarrow> nat list" where
  "vcablk_pool_foreach_used p = filter (\<lambda>i. next_free p i = VCABLK_POOL_USED) [0..<unat (pl_num p)]"

section \<open>The free list\<close>

fun free_walk :: "nat \<Rightarrow> u16 mem \<Rightarrow> nat \<Rightarrow> nat \<Rightarrow> nat list" where
  "free_walk 0 nx i t = []"
| "free_walk (Suc k) nx i t = i # (if i = t then [] else free_walk k nx (unat (nx i)) t)"

definition free_ids :: "'a vcablk_pool \<Rightarrow> nat list" where
  "free_ids p = free_walk (unat (pl_num p)) (next_free p) (unat (pl_head p)) (unat (pl_tail p))"

fun links :: "u16 mem \<Rightarrow> nat list \<Rightarrow> bool" where
  "links nx (x # y # ys) \<longleftrightarrow> unat (nx x) = y \<and> links nx (y # ys)"
| "links nx _ \<longleftrightarrow> True"

definition pool_free :: "'a vcablk_pool \<Rightarrow> nat list \<Rightarrow> bool" where
  "pool_free p xs \<longleftrightarrow> pl_num p < VCABLK_POOL_USED \<and> xs \<noteq> [] \<and> distinct xs \<and> (\<forall>x \<in> set xs. x < unat (pl_num p)) \<and>
     unat (pl_head p) = hd xs \<and> unat (pl_tail p) = last xs \<and> links (next_free p) xs \<and>
     (\<forall>i < unat (pl_num p). next_free p i = VCABLK_POOL_USED \<longleftrightarrow> i \<notin> set xs)"

lemma links_app: "links nx (xs @ [y]) \<longleftrightarrow> links nx xs \<and> (xs \<noteq> [] \<longrightarrow> unat (nx (last xs)) = y)"
  by (induction nx xs rule: links.induct) auto

lemma links_cong: "(\<And>x. x \<in> set (butlast xs) \<Longrightarrow> m x = m' x) \<Longrightarrow> links m xs \<longleftrightarrow> links m' xs"
  by (induction m xs rule: links.induct) auto

lemma walk_links:
  "links nx xs \<Longrightarrow> xs \<noteq> [] \<Longrightarrow> distinct xs \<Longrightarrow> length xs \<le> k \<Longrightarrow> free_walk k nx (hd xs) (last xs) = xs"
proof (induction nx xs arbitrary: k rule: links.induct)
  case (1 nx x y ys)
  then obtain k' where "k = Suc k'" by (cases k) auto
  with 1 show ?case by auto
qed (case_tac k; auto)+

lemma free_ids_eq:
  assumes "pool_free p xs"
  shows "free_ids p = xs"
proof -
  note p = assms [unfolded pool_free_def]
  have "set xs \<subseteq> {..<unat (pl_num p)}" using p by auto
  then have "card (set xs) \<le> card {..<unat (pl_num p)}" by (intro card_mono) simp_all
  then have "length xs \<le> unat (pl_num p)" using p by (simp add: distinct_card)
  then show ?thesis using walk_links [of "next_free p" xs "unat (pl_num p)"] p by (simp add: free_ids_def)
qed

lemma pool_freeD:
  assumes "pool_free p xs"
  shows "unat (pl_num p) < 65535" "xs \<noteq> []" "distinct xs" "\<And>x. x \<in> set xs \<Longrightarrow> x < unat (pl_num p)"
    "unat (pl_head p) = hd xs" "unat (pl_tail p) = last xs" "links (next_free p) xs"
    "\<And>i. i < unat (pl_num p) \<Longrightarrow> next_free p i = VCABLK_POOL_USED \<longleftrightarrow> i \<notin> set xs"
  using assms by (simp_all add: pool_free_def VCABLK_POOL_USED_def word_less_nat_alt)

lemma available_iff: "pool_free p xs \<Longrightarrow> vcablk_is_available p \<longleftrightarrow> 1 < length xs"
proof -
  assume a: "pool_free p xs"
  note p = pool_freeD [OF a]
  have "pl_head p = pl_tail p \<longleftrightarrow> hd xs = last xs" using p(5,6) by (metis word_unat_eq_iff)
  also have "\<dots> \<longleftrightarrow> length xs = 1" using p(2,3) by (cases xs) (auto simp: last_conv_nth)
  finally show ?thesis using p(2) by (cases xs) (auto simp: vcablk_is_available_def)
qed

lemma pop_free:
  assumes "pool_free p (x # y # ys)"
  shows "vcablk_pool_pop p = (Some x, p\<lparr>pl_head := of_nat y, next_free := (next_free p)(x := VCABLK_POOL_USED)\<rparr>)"
    and "pool_free (snd (vcablk_pool_pop p)) (y # ys)"
proof -
  note p = pool_freeD [OF assms]
  have h: "unat (next_free p x) = y" "unat (pl_head p) = x" using p by simp_all
  have "of_nat (unat (next_free p x)) = next_free p x" by simp
  then have n: "next_free p x = of_nat y" unfolding h(1) by (rule sym)
  have "pl_head p \<noteq> pl_tail p" using available_iff [OF assms] by (simp add: vcablk_is_available_def)
  then show e: "vcablk_pool_pop p = (Some x, p\<lparr>pl_head := of_nat y, next_free := (next_free p)(x := VCABLK_POOL_USED)\<rparr>)"
    by (simp add: vcablk_pool_pop_def h n)
  have "links ((next_free p)(x := VCABLK_POOL_USED)) (y # ys) = links (next_free p) (y # ys)"
    using p(3) by (intro links_cong) (metis distinct.simps(2) fun_upd_other in_set_butlastD)
  moreover have "unat (of_nat y :: u16) = y" using h(1) n by metis
  ultimately show "pool_free (snd (vcablk_pool_pop p)) (y # ys)"
    unfolding e using p assms by (auto simp: pool_free_def)
qed

lemma pop_none: "pool_free p [x] \<Longrightarrow> vcablk_pool_pop p = (None, p)"
  using available_iff [of p "[x]"] by (simp add: vcablk_is_available_def vcablk_pool_pop_def)

lemma push_free:
  assumes "pool_free p xs" and "i < unat (pl_num p)" and "i \<notin> set xs"
  shows "\<exists>p'. vcablk_pool_push (Some i) p = Ret p' \<and> pool_free p' (xs @ [i]) \<and> pl_num p' = pl_num p \<and> items p' = items p"
proof -
  note p = pool_freeD [OF assms(1)]
  let ?nx = "((next_free p)(i := 0))(unat (pl_tail p) := of_nat i)"
  let ?p = "p\<lparr>next_free := ?nx, pl_tail := of_nat i\<rparr>"
  have ui: "unat (of_nat i :: u16) = i" "(of_nat i :: u16) \<noteq> VCABLK_POOL_USED" 
  proof -
    show u: "unat (of_nat i :: u16) = i" using assms(2) p(1) by (simp add: unat_of_nat)
    show "(of_nat i :: u16) \<noteq> VCABLK_POOL_USED"
    proof
      assume "(of_nat i :: u16) = VCABLK_POOL_USED"
      then have "unat (of_nat i :: u16) = 65535" by (simp add: VCABLK_POOL_USED_def)
      then show False using u assms(2) p(1) by simp
    qed
  qed
  have bl: "x \<noteq> last xs" if "x \<in> set (butlast xs)" for x
    using that p(2,3) by (metis append_butlast_last_id distinct_append not_distinct_conv_prefix)
  have "links ?nx xs = links (next_free p) xs"
    using assms(3) p(6) bl by (intro links_cong) (auto dest: in_set_butlastD)
  then have "links ?nx (xs @ [i])" using p(6,7) ui by (simp add: links_app)
  moreover have "last xs \<in> set xs" "hd xs \<in> set xs" using p(2) by simp_all
  moreover have "VCABLK_POOL_USED \<noteq> 0" by (simp add: VCABLK_POOL_USED_def)
  ultimately have "pool_free ?p (xs @ [i])"
    using assms p ui unfolding pool_free_def by (auto simp: hd_append)
  moreover have "vcablk_pool_push (Some i) p = Ret ?p" using assms p(8) [OF assms(2)] by (simp add: vcablk_pool_push_def)
  ultimately show ?thesis by auto
qed

lemma get_by_id_free:
  "pool_free p xs \<Longrightarrow> vcablk_pool_get_by_id p i =
     (if unat i < unat (pl_num p) \<and> unat i \<notin> set xs then Some (unat i) else None)"
  using pool_freeD(8) [of p xs "unat i"] by (auto simp: vcablk_pool_get_by_id_def word_less_nat_alt)

lemma links_upt: "(\<And>i. Suc i < n \<Longrightarrow> unat (nx i) = Suc i) \<Longrightarrow> links nx [0..<n]"
proof (induction n)
  case (Suc n)
  then have l: "links nx [0..<n]" by simp
  have "links nx ([0..<n] @ [n])"
  proof (cases n)
    case (Suc m)
    then have "last [0..<n] = m" "unat (nx m) = n" using Suc.prems [of m] by simp_all
    then show ?thesis using l unfolding links_app by simp
  qed simp
  then show ?case by simp
qed simp

lemma fold_next: "fold (\<lambda>i m. m(i := of_nat (i + 1))) [0..<k] nx = (\<lambda>i. if i < k then of_nat (i + 1) else nx i :: u16)"
  by (induction k) (auto simp: fun_eq_iff less_Suc_eq)

lemma init_free:
  assumes "unat n < 65534"
  shows "\<exists>p. vcablk_pool_init True raw zero n = Ret (Some p) \<and> pool_free p [0..<unat n + 1] \<and> unat (pl_num p) = unat n + 1"
proof -
  have n: "unat (n + 1) = unat n + 1" using assms by (simp add: unat_word_ariths)
  have c: "\<not> VCABLK_POOL_USED \<le> n" "\<not> 65535 \<le> unat n + 1"
    using assms by (simp_all add: VCABLK_POOL_USED_def word_le_nat_alt)
  let ?r = "raw\<lparr>pl_num := n + 1, pl_head := 0, pl_tail := 0\<rparr>"
  have nz: "\<not> (VCABLK_POOL_USED \<le> n \<or> 65535 \<le> unat n + 1)" "unat (pl_num ?r) \<noteq> 0" using c n by simp_all
  obtain p where p: "vcablk_pool_clear zero ?r = Ret p" using nz(2) by (simp add: vcablk_pool_clear_def Let_def)
  have i: "vcablk_pool_init True raw zero n = Ret (Some p)" using nz(1) p by (simp add: vcablk_pool_init_def)
  have e: "pl_num p = n + 1" "pl_head p = 0" "pl_tail p = n"
    "next_free p = (\<lambda>i. if i < unat n then of_nat (i + 1) else if i < unat n + 1 then 0 else next_free raw i)"
    using p n unfolding vcablk_pool_clear_def Let_def fold_next by (auto simp: fun_eq_iff split: if_splits)
  have nu: "(of_nat (i + 1) :: u16) \<noteq> VCABLK_POOL_USED" "unat (of_nat (i + 1) :: u16) = i + 1" if "i < unat n" for i
  proof -
    show "unat (of_nat (i + 1) :: u16) = i + 1" using that assms by (simp add: unat_of_nat del: of_nat_add of_nat_Suc)
    then show "(of_nat (i + 1) :: u16) \<noteq> VCABLK_POOL_USED"
      using that assms by (auto simp: VCABLK_POOL_USED_def simp del: of_nat_add)
  qed
  have "links (next_free p) [0..<unat n + 1]"
    using nu(2) by (intro links_upt) (simp add: e del: of_nat_add of_nat_Suc)
  moreover have "VCABLK_POOL_USED \<noteq> 0" by (simp add: VCABLK_POOL_USED_def)
  moreover have "next_free p i \<noteq> VCABLK_POOL_USED" if "i < unat n + 1" for i
    using nu(1) [of i] that calculation(2) by (cases "i < unat n") (simp_all add: e)
  moreover have "pl_num p < VCABLK_POOL_USED" using n assms by (simp add: e VCABLK_POOL_USED_def word_less_nat_alt)
  ultimately have "pool_free p [0..<unat n + 1]"
    using n by (simp add: pool_free_def e(1-3) hd_upt del: upt_Suc)
  then show ?thesis using i e(1) n by simp
qed

section \<open>Runs\<close>

text \<open>The pool and the items handed out so far; an operation on an item that is not in use is not made.\<close>

record 'a pool_run =
  the_pool :: "'a vcablk_pool"
  handed :: "nat list"

datatype pool_op = Pop | Push nat

fun pool_step :: "pool_op \<Rightarrow> 'a pool_run \<Rightarrow> 'a pool_run outcome" where
  "pool_step Pop s = (case vcablk_pool_pop (the_pool s) of (r, p) \<Rightarrow>
     Ret (s\<lparr>the_pool := p, handed := handed s @ (case r of None \<Rightarrow> [] | Some i \<Rightarrow> [i])\<rparr>))"
| "pool_step (Push i) s = (case vcablk_pool_push (Some i) (the_pool s) of Abort \<Rightarrow> Abort
     | Ret p \<Rightarrow> Ret (s\<lparr>the_pool := p\<rparr>))"

fun pool_guard :: "'a pool_run \<Rightarrow> pool_op \<Rightarrow> bool" where
  "pool_guard s Pop \<longleftrightarrow> True"
| "pool_guard s (Push i) \<longleftrightarrow> i \<in> set (vcablk_pool_foreach_used (the_pool s))"

definition pool_inv :: "'a pool_run \<Rightarrow> bool" where
  "pool_inv s \<longleftrightarrow> (\<exists>xs. pool_free (the_pool s) xs)"

fun given_back :: "pool_op \<Rightarrow> nat list" where
  "given_back Pop = []"
| "given_back (Push i) = [i]"

lemma used_iff:
  "pool_free p xs \<Longrightarrow> i \<in> set (vcablk_pool_foreach_used p) \<longleftrightarrow> i < unat (pl_num p) \<and> i \<notin> set xs"
  using pool_freeD(8) [of p xs i] by (auto simp: vcablk_pool_foreach_used_def)

lemma pop_step:
  assumes "pool_free p xs"
  shows "\<exists>r p' ys. vcablk_pool_pop p = (r, p') \<and> pool_free p' ys \<and> (case r of None \<Rightarrow> [] | Some i \<Rightarrow> [i]) @ ys = xs"
proof (cases xs)
  case (Cons x zs)
  show ?thesis
  proof (cases zs)
    case Nil
    then show ?thesis using pop_none [of p x] assms Cons by auto
  next
    case (Cons y ys)
    then have "pool_free p (x # y # ys)" using assms \<open>xs = x # zs\<close> by simp
    from pop_free [OF this] show ?thesis using \<open>xs = x # zs\<close> Cons by auto
  qed
qed (use pool_freeD(2) [OF assms] in simp)

interpretation pools: tracing_machine pool_step pool_inv pool_guard "\<lambda>s. handed s @ free_ids (the_pool s)" given_back
proof
  fix s :: "'a pool_run" and x
  assume i: "pool_inv s" and g: "pool_guard s x"
  then obtain xs where f: "pool_free (the_pool s) xs" by (auto simp: pool_inv_def)
  have "\<exists>s' ys. pool_step x s = Ret s' \<and> pool_free (the_pool s') ys \<and> handed s' @ ys = handed s @ xs @ given_back x"
  proof (cases x)
    case Pop
    then show ?thesis using pop_step [OF f] by force
  next
    case (Push i)
    then have "i < unat (pl_num (the_pool s))" "i \<notin> set xs" using g used_iff [OF f] by auto
    from push_free [OF f this] show ?thesis using Push by auto
  qed
  then obtain s' ys where s: "pool_step x s = Ret s'" "pool_free (the_pool s') ys" "handed s' @ ys = handed s @ xs @ given_back x"
    by blast
  then show "\<exists>s'. pool_step x s = Ret s' \<and> pool_inv s'" by (auto simp: pool_inv_def)
  show "handed t @ free_ids (the_pool t) = (handed s @ free_ids (the_pool s)) @ given_back x" if "pool_step x s = Ret t" for t
    using that s free_ids_eq [OF f] free_ids_eq [OF s(2)] by simp
qed

section \<open>Properties\<close>

text \<open>
  C36. A pool is a queue: over any run the items handed out, followed by those still free, are the
  initial items followed by those given back, in this order. So an item is never handed out while it is
  in use, the oldest free one comes next, and the one given back last is never the next.
\<close>
theorem pool_in_order:
  assumes "unat n < 65534" and "vcablk_pool_init True raw zero n = Ret (Some p)"
    and "pools.guarded ops \<lparr>the_pool = p, handed = []\<rparr>"
  shows "\<exists>s. pools.run ops \<lparr>the_pool = p, handed = []\<rparr> = Ret s \<and> pool_free (the_pool s) (free_ids (the_pool s)) \<and>
    handed s @ free_ids (the_pool s) = [0..<unat n + 1] @ concat (map given_back ops)"
proof -
  have f: "pool_free p [0..<unat n + 1]" using init_free [OF assms(1), of raw zero] assms(2) by auto
  then have "pool_inv \<lparr>the_pool = p, handed = []\<rparr>" by (auto simp: pool_inv_def)
  from pools.run_adds [OF this assms(3)] obtain s where s:
    "pools.run ops \<lparr>the_pool = p, handed = []\<rparr> = Ret s" "pool_inv s"
    "handed s @ free_ids (the_pool s) = free_ids p @ concat (map given_back ops)" by auto
  then obtain xs where x: "pool_free (the_pool s) xs" by (auto simp: pool_inv_def)
  show ?thesis using s x free_ids_eq [OF x] free_ids_eq [OF f] by (intro exI [of _ s]) simp
qed

definition sample_pool :: "nat vcablk_pool" where
  "sample_pool = \<lparr>pl_num = 0, pl_head = 0, pl_tail = 0, next_free = (\<lambda>_. 0), items = (\<lambda>_. 0)\<rparr>"

theorem pool_in_order_witness:
  "\<exists>p s. vcablk_pool_init True sample_pool 0 2 = Ret (Some p) \<and>
    pools.run [Pop, Pop, Pop, Push 0, Pop] \<lparr>the_pool = p, handed = []\<rparr> = Ret s \<and>
    handed s @ free_ids (the_pool s) = [0, 1, 2, 0]"
proof -
  let ?p = "\<lparr>pl_num = 3, pl_head = 0, pl_tail = 2, next_free = (\<lambda>i. if i = 0 then 1 else if i = 1 then 2 else 0), items = (\<lambda>_. 0)\<rparr>"
  have u: "[0..<2] = [0, 1 :: nat]" "[0..<3] = [0, 1, 2 :: nat]" by (simp_all add: upt_rec)
  have p: "vcablk_pool_init True sample_pool 0 2 = Ret (Some ?p)"
    by (simp add: vcablk_pool_init_def vcablk_pool_clear_def sample_pool_def VCABLK_POOL_USED_def u Let_def fun_eq_iff)
  have g: "pools.guarded [Pop, Pop, Pop, Push 0, Pop] \<lparr>the_pool = ?p, handed = []\<rparr>"
    by (simp add: VCABLK_POOL_USED_def vcablk_pool_pop_def vcablk_pool_push_def vcablk_pool_foreach_used_def u)
  show ?thesis using pool_in_order [OF _ p g] p u by auto
qed

end
