(* ===== verification/Blk_Ring.thy ===== *)
theory Blk_Ring
  imports Ring_Counter
begin

text \<open>
  What front end and back end of the block driver share (\<open>blockio/vcablk_common/vcablk.h\<close>,
  \<open>vcablk_common.h\<close>): a ring of requests that the front end fills and a ring of completions that the
  back end fills, each with the counters of both sides in its header. Counters run through twice the
  size of the ring, a power of two. The macros compute in \<open>int\<close>.
\<close>

section \<open>Data\<close>

definition SECTOR_SIZE :: nat where "SECTOR_SIZE = 512"
definition SECTOR_SHIFT :: nat where "SECTOR_SHIFT = 9"
definition REQUEST_READ :: u8 where "REQUEST_READ = 1"
definition REQUEST_WRITE :: u8 where "REQUEST_WRITE = 2"
definition REQUEST_SYNC :: u8 where "REQUEST_SYNC = 3"

lemmas request_types = REQUEST_READ_def REQUEST_WRITE_def REQUEST_SYNC_def

record vcablk_request =
  phys_buff :: u64
  rq_sector :: u64
  rq_sectors_num :: u64
  rq_cookie :: u16
  request_type :: u8

record vcablk_completion =
  cp_cookie :: u16
  cp_ret :: u8

record 'e vcablk_ring =
  num_elems :: u16
  elem_size :: u32
  last_add :: u16
  last_used :: u16
  size_alloc :: u32
  ring_dma_addr :: u64
  elems :: "'e mem"

section \<open>Counters\<close>

definition VCA_RB_COUNTER_ADD :: "u16 \<Rightarrow> nat \<Rightarrow> nat \<Rightarrow> u16" where
  "VCA_RB_COUNTER_ADD cnt v sz = of_int ((int (unat cnt) + int v) AND (2 * int sz - 1))"

definition VCA_RB_COUNTER_TO_IDX :: "u16 \<Rightarrow> nat \<Rightarrow> nat" where
  "VCA_RB_COUNTER_TO_IDX cnt sz = nat (int (unat cnt) AND (int sz - 1))"

definition VCA_RB_BUFF_USED :: "u16 \<Rightarrow> u16 \<Rightarrow> nat \<Rightarrow> int" where
  "VCA_RB_BUFF_USED head_cnt tail_cnt sz =
     (if head_cnt \<le> tail_cnt then int (unat tail_cnt) - int (unat head_cnt)
      else int (unat tail_cnt) + 2 * int sz - int (unat head_cnt))"

definition VCA_RB_BUFF_EMPTY :: "u16 \<Rightarrow> u16 \<Rightarrow> bool" where
  "VCA_RB_BUFF_EMPTY head_cnt tail_cnt \<longleftrightarrow> head_cnt = tail_cnt"

definition VCA_RB_BUFF_FULL :: "u16 \<Rightarrow> u16 \<Rightarrow> nat \<Rightarrow> bool" where
  "VCA_RB_BUFF_FULL head_cnt tail_cnt sz \<longleftrightarrow> \<not> VCA_RB_BUFF_EMPTY head_cnt tail_cnt \<and>
     VCA_RB_COUNTER_TO_IDX head_cnt sz = VCA_RB_COUNTER_TO_IDX tail_cnt sz"

section \<open>Rings whose size is a power of two\<close>

definition rb_size_ok :: "nat \<Rightarrow> bool" where "rb_size_ok n \<longleftrightarrow> (\<exists>k \<le> 15. n = 2 ^ k)"
definition rb_cnt_ok :: "nat \<Rightarrow> u16 \<Rightarrow> bool" where "rb_cnt_ok n c \<longleftrightarrow> unat c < 2 * n"

definition rb_add :: "nat \<Rightarrow> u16 \<Rightarrow> nat \<Rightarrow> u16" where "rb_add n c v = VCA_RB_COUNTER_ADD c v n"
definition rb_pos :: "nat \<Rightarrow> u16 \<Rightarrow> nat" where "rb_pos n c = VCA_RB_COUNTER_TO_IDX c n"
definition rb_used :: "nat \<Rightarrow> u16 \<Rightarrow> u16 \<Rightarrow> nat" where "rb_used n l c = nat (VCA_RB_BUFF_USED l c n)"

lemma int_mask: "int (2 ^ k) - 1 = mask k"
  by (simp add: mask_eq_exp_minus_1)

lemma rb_size_bounds: "rb_size_ok n \<Longrightarrow> 0 < n \<and> n \<le> 32768"
proof -
  assume "rb_size_ok n"
  then obtain k where k: "k \<le> 15" "n = 2 ^ k" by (auto simp: rb_size_ok_def)
  have "(2 :: nat) ^ k \<le> 2 ^ 15" using k(1) by (intro power_increasing) simp_all
  then show ?thesis using k(2) by simp
qed

lemma rb_idx: "rb_size_ok n \<Longrightarrow> VCA_RB_COUNTER_TO_IDX c n = unat c mod n"
proof -
  assume "rb_size_ok n"
  then obtain k where k: "n = 2 ^ k" by (auto simp: rb_size_ok_def)
  have "int (unat c) AND (int n - 1) = int (unat c) mod int n"
    unfolding k int_mask by (simp add: take_bit_eq_mask [symmetric] take_bit_eq_mod)
  then show ?thesis unfolding VCA_RB_COUNTER_TO_IDX_def by (simp add: nat_mod_distrib del: of_nat_unat)
qed

lemma rb_add_val: "rb_size_ok n \<Longrightarrow> unat (VCA_RB_COUNTER_ADD c v n) = (unat c + v) mod (2 * n)"
proof -
  assume s: "rb_size_ok n"
  then obtain k where k: "n = 2 ^ k" by (auto simp: rb_size_ok_def)
  have t: "2 * int n - 1 = mask (Suc k)" unfolding k by (simp add: mask_eq_exp_minus_1)
  have m: "x AND mask j = x mod 2 ^ j" for x :: int and j by (simp only: take_bit_eq_mask [symmetric] take_bit_eq_mod)
  have "(int (unat c) + int v) AND (2 * int n - 1) = (int (unat c) + int v) mod (2 * int n)"
    unfolding t m by (simp add: k)
  also have "\<dots> = int ((unat c + v) mod (2 * n))" by (simp only: of_nat_mod of_nat_add of_nat_mult of_nat_numeral)
  finally have e: "VCA_RB_COUNTER_ADD c v n = of_nat ((unat c + v) mod (2 * n))"
    unfolding VCA_RB_COUNTER_ADD_def by (simp only: of_int_of_nat_eq)
  have "(unat c + v) mod (2 * n) < 65536"
    using rb_size_bounds [OF s] mod_less_divisor [of "2 * n" "unat c + v"] by linarith
  then show ?thesis unfolding e by (simp add: unat_of_nat)
qed

interpretation rb: modular_counter unat rb_add rb_pos rb_used rb_cnt_ok rb_size_ok "\<lambda>n. 2 * n"
proof
  fix N :: nat and a b c l :: u16 and n :: nat
  show "unat a = unat b \<Longrightarrow> a = b" by (simp add: word_unat_eq_iff)
  assume s: "rb_size_ok N"
  show "0 < N" "0 < 2 * N" "N dvd 2 * N" using rb_size_bounds [OF s] by simp_all
  show "rb_cnt_ok N c \<longleftrightarrow> unat c < 2 * N" by (simp add: rb_cnt_ok_def)
  show "unat (rb_add N c n) = (unat c + n) mod (2 * N)" unfolding rb_add_def by (rule rb_add_val [OF s])
  show "rb_pos N c = unat c mod N" unfolding rb_pos_def by (rule rb_idx [OF s])
  assume "rb_cnt_ok N l" "rb_cnt_ok N c"
  then show "rb_used N l c = (unat c + 2 * N - unat l) mod (2 * N)"
    by (auto simp: rb_used_def VCA_RB_BUFF_USED_def rb_cnt_ok_def word_le_nat_alt le_mod_geq nat_diff_distrib' nat_add_distrib
        simp del: of_nat_unat)
qed

text \<open>A ring is full when the writer is its size ahead of the reader.\<close>

lemma rb_full:
  assumes "rb_size_ok n" and "rb_cnt_ok n c" and "rb_cnt_ok n l"
  shows "VCA_RB_BUFF_FULL c l n \<longleftrightarrow> rb_used n l c = n"
proof -
  let ?u = "rb_used n l c"
  note nb = rb_size_bounds [OF assms(1)]
  have p: "rb_pos n c = (rb_pos n l + ?u) mod n" by (rule rb.pos_writer [OF assms(1,3,2)])
  have ub: "?u < 2 * n" by (rule rb.used_less [OF assms(1,3,2)])
  have lp: "rb_pos n l < n" by (rule rb.pos_less [OF assms(1,3)])
  have "rb_pos n c = rb_pos n l \<longleftrightarrow> ?u = 0 \<or> ?u = n"
  proof
    assume "rb_pos n c = rb_pos n l"
    then have "(rb_pos n l + ?u) mod n = rb_pos n l mod n" using p lp by simp
    then have "n dvd ?u" by (simp add: mod_eq_dvd_iff_nat)
    then obtain k where k: "?u = n * k" by (auto simp: dvd_def)
    then have "k < 2" using ub nb by simp
    then show "?u = 0 \<or> ?u = n" using k by (cases "k = 0") auto
  qed (use p lp in auto)
  moreover have "c = l \<longleftrightarrow> ?u = 0" using rb.used_zero_iff [OF assms(1,3,2)] by auto
  ultimately show ?thesis using nb by (auto simp: VCA_RB_BUFF_FULL_def VCA_RB_BUFF_EMPTY_def rb_pos_def)
qed

end
