(* ===== verification/Blk_Front.thy ===== *)
theory Blk_Front
  imports Blk_Pool Blk_Ring
begin

text \<open>
  The front end of the block driver (\<open>blockio/vcablk/vcablk_disk.c\<close>): a disk whose requests are served
  by a back end on the other side of the bus. A bio is split into one request for each of its segments,
  a flush adds requests of its own; the completion of a bio carries the cookie of its context.

  The thread that transfers bios sleeps when the ring or a pool is exhausted. What the rest of the
  system does meanwhile is a parameter: \<open>others k\<close> is the effect of everything that happens during the
  \<open>k\<close>-th sleep, up to the wake-up or the time-out. The state is extensible, so that it can include the
  back end. Threads of the kernel receive no signals. A pointer to an item of a pool or to an element
  of a ring is its index, a bio is known by its number. Memory barriers and log messages have no
  counterpart.
\<close>

section \<open>Data\<close>

record bio_vec =
  bv_page :: u64
  bv_offset :: u32
  bv_len :: u32

record bio =
  bio_id :: nat
  bi_sector :: u64
  bi_flush :: bool
  bi_write :: bool
  bi_segs :: "bio_vec list"

record bvec_context =
  bvc_next :: "nat option"
  bvc_dma_addr :: u64
  bvc_size :: u64
  bvc_dir :: dma_data_direction

record vcablk_bio_context =
  bc_id :: u16
  bc_bio :: "nat option"
  bc_bvctx :: "nat option"

datatype page_event = Page_mapped u64 u64 dma_data_direction | Page_unmapped u64 u64 dma_data_direction

text \<open>
  The disk. \<open>map_page k v dir\<close> is the bus address of the \<open>k\<close>-th mapping, \<open>None\<close> when it fails;
  \<open>stopping\<close> says that the thread is asked to stop. \<open>pages\<close> records the mappings made and undone,
  \<open>bio_ends\<close> the bios ended with their results, \<open>doorbells\<close> the interrupts sent, \<open>sleeps\<close> the sleeps.
  A pointer that is only compared with NULL is a truth value.
\<close>

record vcablk_disk =
  size_bytes :: u64
  sectors_num :: u32
  dev_id :: int
  bio_done_db :: int
  bio_done_irq :: bool
  request_db :: int
  request_thread :: bool
  blk_queue :: bool
  read_only :: bool
  ref_cnt :: u16
  gdisk :: bool
  gdisk_started :: bool
  request_bio_list :: "bio list"
  request_bio_count :: u32
  request_ring :: "vcablk_request vcablk_ring"
  request_ring_alloc :: u16
  completion_ring :: "vcablk_completion vcablk_ring"
  bio_context_pool :: "vcablk_bio_context vcablk_pool"
  bvec_context_pool :: "bvec_context vcablk_pool"
  map_page :: "nat \<Rightarrow> bio_vec \<Rightarrow> dma_data_direction \<Rightarrow> u64 option"
  stopping :: bool
  pages :: "page_event list"
  bio_ends :: "(nat \<times> int) list"
  doorbells :: nat
  sleeps :: nat

definition rq_num :: "'a vcablk_disk_scheme \<Rightarrow> nat" where "rq_num d = unat (num_elems (request_ring d))"
definition cq_num :: "'a vcablk_disk_scheme \<Rightarrow> nat" where "cq_num d = unat (num_elems (completion_ring d))"

definition vcablk_disk_format_name :: "nat \<Rightarrow> int \<Rightarrow> nat \<Rightarrow> int" where
  "vcablk_disk_format_name prefix_len index buflen =
     (if index < 0 \<or> 999 < index then - EINVAL else if buflen \<le> prefix_len + 3 then - EINVAL else 0)"

section \<open>Releasing a context\<close>

text \<open>The walk over the mappings of a bio; a chain that is a cycle is never left.\<close>

partial_function (option) unmap_chain :: "nat option \<Rightarrow> 'a vcablk_disk_scheme \<Rightarrow> 'a vcablk_disk_scheme outcome option" where
  "unmap_chain ptr d = (case ptr of None \<Rightarrow> Some (Ret d)
     | Some j \<Rightarrow>
         let m = items (bvec_context_pool d) j
         in (case vcablk_pool_push (Some j) (bvec_context_pool d) of Abort \<Rightarrow> Some Abort
           | Ret p \<Rightarrow> unmap_chain (bvc_next m)
               (d\<lparr>pages := pages d @ [Page_unmapped (bvc_dma_addr m) (bvc_size m) (bvc_dir m)], bvec_context_pool := p\<rparr>)))"

definition vcablk_disk_request_clean :: "nat \<Rightarrow> 'a vcablk_disk_scheme \<Rightarrow> 'a vcablk_disk_scheme outcome option" where
  "vcablk_disk_request_clean i d =
     (case unmap_chain (bc_bvctx (items (bio_context_pool d) i)) d of None \<Rightarrow> None | Some Abort \<Rightarrow> Some Abort
      | Some (Ret d') \<Rightarrow> (case vcablk_pool_push (Some i) (bio_context_pool d') of Abort \<Rightarrow> Some Abort
          | Ret p \<Rightarrow> Some (Ret (d'\<lparr>bio_context_pool := p\<rparr>))))"

definition vcablk_disk_bio_end :: "nat \<Rightarrow> int \<Rightarrow> 'a vcablk_disk_scheme \<Rightarrow> 'a vcablk_disk_scheme" where
  "vcablk_disk_bio_end b ret d = d\<lparr>bio_ends := bio_ends d @ [(b, ret)]\<rparr>"

text \<open>A completion with an unknown cookie is only reported.\<close>

definition vcablk_disk_request_done :: "u16 \<Rightarrow> int \<Rightarrow> 'a vcablk_disk_scheme \<Rightarrow> 'a vcablk_disk_scheme outcome option" where
  "vcablk_disk_request_done c ret d =
     (if c = 0 then Some (Ret d)
      else (case vcablk_pool_get_by_id (bio_context_pool d) (c - 1) of None \<Rightarrow> Some (Ret d)
        | Some i \<Rightarrow> (case bc_bio (items (bio_context_pool d) i) of None \<Rightarrow> Some Abort
            | Some b \<Rightarrow> (case vcablk_disk_request_clean i d of None \<Rightarrow> None | Some Abort \<Rightarrow> Some Abort
                | Some (Ret d') \<Rightarrow> Some (Ret (vcablk_disk_bio_end b ret d'))))))"

section \<open>Writing requests\<close>

text \<open>A sleep until the condition holds or the time is up; the result is the condition.\<close>

definition wait_event :: "(nat \<Rightarrow> 'a vcablk_disk_scheme \<Rightarrow> 'a vcablk_disk_scheme) \<Rightarrow> ('a vcablk_disk_scheme \<Rightarrow> bool) \<Rightarrow>
    'a vcablk_disk_scheme \<Rightarrow> bool \<times> 'a vcablk_disk_scheme" where
  "wait_event others cond d = (if cond d then (True, d)
     else let d' = others (sleeps d) (d\<lparr>sleeps := sleeps d + 1\<rparr>) in (cond d', d'))"

definition ring_room :: "'a vcablk_disk_scheme \<Rightarrow> bool" where
  "ring_room d \<longleftrightarrow> \<not> VCA_RB_BUFF_FULL (request_ring_alloc d) (last_used (request_ring d)) (rq_num d)"

definition vcablk_disk_request_alloc_next :: "(nat \<Rightarrow> 'a vcablk_disk_scheme \<Rightarrow> 'a vcablk_disk_scheme) \<Rightarrow>
    'a vcablk_disk_scheme \<Rightarrow> nat option \<times> 'a vcablk_disk_scheme" where
  "vcablk_disk_request_alloc_next others d =
     (case wait_event others (\<lambda>d. ring_room d \<or> stopping d) d of (ok, d') \<Rightarrow>
       if \<not> ok then (None, d')
       else if ring_room d' then
         (Some (VCA_RB_COUNTER_TO_IDX (request_ring_alloc d') (rq_num d')),
          d'\<lparr>request_ring_alloc := VCA_RB_COUNTER_ADD (request_ring_alloc d') 1 (rq_num d')\<rparr>)
       else (None, d'))"

definition vcablk_disk_request_start :: "'a vcablk_disk_scheme \<Rightarrow> int \<times> 'a vcablk_disk_scheme" where
  "vcablk_disk_request_start d =
     (if last_add (request_ring d) = request_ring_alloc d then (- EINVAL, d)
      else (0, d\<lparr>request_ring := (request_ring d)\<lparr>last_add := request_ring_alloc d\<rparr>, doorbells := doorbells d + 1\<rparr>))"

definition vcablk_disk_request_break :: "nat option \<Rightarrow> 'a vcablk_disk_scheme \<Rightarrow> 'a vcablk_disk_scheme outcome option" where
  "vcablk_disk_request_break ctx d =
     (let d' = d\<lparr>request_ring_alloc := last_add (request_ring d)\<rparr>
      in case ctx of None \<Rightarrow> Some (Ret d') | Some i \<Rightarrow> vcablk_disk_request_clean i d')"

definition set_ctx :: "nat \<Rightarrow> vcablk_bio_context \<Rightarrow> 'a vcablk_disk_scheme \<Rightarrow> 'a vcablk_disk_scheme" where
  "set_ctx i c d = d\<lparr>bio_context_pool := (bio_context_pool d)\<lparr>items := (items (bio_context_pool d))(i := c)\<rparr>\<rparr>"

definition set_bvec :: "nat \<Rightarrow> bvec_context \<Rightarrow> 'a vcablk_disk_scheme \<Rightarrow> 'a vcablk_disk_scheme" where
  "set_bvec j c d = d\<lparr>bvec_context_pool := (bvec_context_pool d)\<lparr>items := (items (bvec_context_pool d))(j := c)\<rparr>\<rparr>"

text \<open>The result is the bus address of the page, 0 when there is none.\<close>

definition vcablk_disk_map_page :: "(nat \<Rightarrow> 'a vcablk_disk_scheme \<Rightarrow> 'a vcablk_disk_scheme) \<Rightarrow> nat \<Rightarrow> bio_vec \<Rightarrow>
    dma_data_direction \<Rightarrow> 'a vcablk_disk_scheme \<Rightarrow> (u64 \<times> 'a vcablk_disk_scheme) outcome" where
  "vcablk_disk_map_page others i v dir d =
     (case wait_event others (\<lambda>d. vcablk_is_available (bvec_context_pool d) \<or> stopping d) d of (ok, d1) \<Rightarrow>
       if \<not> ok then Ret (0, d1)
       else (case vcablk_pool_pop (bvec_context_pool d1) of (None, p) \<Rightarrow> Ret (0, d1)
        | (Some j, p) \<Rightarrow>
            let d2 = d1\<lparr>bvec_context_pool := p\<rparr>
            in (case map_page d2 (length (pages d2)) v dir of
                None \<Rightarrow> (case vcablk_pool_push (Some j) (bvec_context_pool d2) of Abort \<Rightarrow> Abort
                  | Ret p' \<Rightarrow> Ret (0, d2\<lparr>bvec_context_pool := p'\<rparr>))
              | Some da \<Rightarrow>
                  let c = items (bio_context_pool d2) i;
                    m = \<lparr>bvc_next = bc_bvctx c, bvc_dma_addr = da, bvc_size = ucast (bv_len v), bvc_dir = dir\<rparr>
                  in Ret (da, set_bvec j m (set_ctx i (c\<lparr>bc_bvctx := Some j\<rparr>)
                       (d2\<lparr>pages := pages d2 @ [Page_mapped da (ucast (bv_len v)) dir]\<rparr>))))))"

definition set_request :: "nat \<Rightarrow> (vcablk_request \<Rightarrow> vcablk_request) \<Rightarrow> 'a vcablk_disk_scheme \<Rightarrow> 'a vcablk_disk_scheme" where
  "set_request k f d = d\<lparr>request_ring := (request_ring d)\<lparr>elems := (elems (request_ring d))(k := f (elems (request_ring d) k))\<rparr>\<rparr>"

text \<open>A page to transfer is given for reads and writes only.\<close>

definition vcablk_disk_request_step :: "(nat \<Rightarrow> 'a vcablk_disk_scheme \<Rightarrow> 'a vcablk_disk_scheme) \<Rightarrow> bio_vec option \<Rightarrow> nat \<Rightarrow>
    u8 \<Rightarrow> u64 \<Rightarrow> u64 \<Rightarrow> 'a vcablk_disk_scheme \<Rightarrow> (int \<times> 'a vcablk_disk_scheme) outcome" where
  "vcablk_disk_request_step others bvec i request sector n d =
     (case vcablk_disk_request_alloc_next others d of (None, d1) \<Rightarrow> Ret (- EBUSY, d1)
      | (Some k, d1) \<Rightarrow>
          let d2 = set_request k (\<lambda>r. r\<lparr>request_type := request, rq_cookie := bc_id (items (bio_context_pool d1) i)\<rparr>) d1
          in (case bvec of None \<Rightarrow> Ret (0, d2)
             | Some v \<Rightarrow> if request \<noteq> REQUEST_READ \<and> request \<noteq> REQUEST_WRITE then Ret (0, d2)
                 else (case vcablk_disk_map_page others i v (if request = REQUEST_WRITE then DMA_TO_DEVICE else DMA_FROM_DEVICE) d2 of
                   Abort \<Rightarrow> Abort
                 | Ret (da, d3) \<Rightarrow> if da = 0 then Ret (- ENOMEM, d3)
                     else Ret (0, set_request k (\<lambda>r. r\<lparr>rq_sectors_num := n, rq_sector := sector, phys_buff := da\<rparr>) d3))))"

definition vcablk_disk_get_bio_context :: "(nat \<Rightarrow> 'a vcablk_disk_scheme \<Rightarrow> 'a vcablk_disk_scheme) \<Rightarrow>
    'a vcablk_disk_scheme \<Rightarrow> nat option \<times> 'a vcablk_disk_scheme" where
  "vcablk_disk_get_bio_context others d =
     (case wait_event others (\<lambda>d. vcablk_is_available (bio_context_pool d) \<or> stopping d) d of (ok, d1) \<Rightarrow>
       if \<not> ok \<or> stopping d1 then (None, d1)
       else (case vcablk_pool_pop (bio_context_pool d1) of (None, p) \<Rightarrow> (None, d1)
        | (Some i, p) \<Rightarrow> (Some i, set_ctx i \<lparr>bc_id = of_nat i + 1, bc_bio = None, bc_bvctx = None\<rparr> (d1\<lparr>bio_context_pool := p\<rparr>))))"

text \<open>The loop over the segments; the sector goes on by the whole sectors of each.\<close>

definition segment_sectors :: "bio_vec \<Rightarrow> u64" where "segment_sectors v = ucast (drop_bit SECTOR_SHIFT (bv_len v))"

fun xfer_segments :: "(nat \<Rightarrow> 'a vcablk_disk_scheme \<Rightarrow> 'a vcablk_disk_scheme) \<Rightarrow> nat \<Rightarrow> u8 \<Rightarrow> u64 \<Rightarrow> bio_vec list \<Rightarrow>
    'a vcablk_disk_scheme \<Rightarrow> (int \<times> 'a vcablk_disk_scheme) outcome" where
  "xfer_segments others i request sector [] d = Ret (0, d)"
| "xfer_segments others i request sector (v # vs) d =
     (case vcablk_disk_request_step others (Some v) i request sector (segment_sectors v) d of Abort \<Rightarrow> Abort
      | Ret (ret, d') \<Rightarrow> if ret \<noteq> 0 then Ret (ret, d')
          else xfer_segments others i request (sector + segment_sectors v) vs d')"

text \<open>A request to flush, before and after the segments.\<close>

definition flush_step :: "(nat \<Rightarrow> 'a vcablk_disk_scheme \<Rightarrow> 'a vcablk_disk_scheme) \<Rightarrow> nat \<Rightarrow> bool \<Rightarrow>
    'a vcablk_disk_scheme \<Rightarrow> (int \<times> 'a vcablk_disk_scheme) outcome" where
  "flush_step others i flush d =
     (if \<not> flush then Ret (0, d)
      else (case vcablk_disk_request_step others None i REQUEST_SYNC 0 0 d of Abort \<Rightarrow> Abort
        | Ret (ret, d') \<Rightarrow> Ret (if ret \<noteq> 0 then - EIO else 0, d')))"

text \<open>All requests of a bio whose context is \<open>i\<close>, and their publication.\<close>

definition xfer_requests :: "(nat \<Rightarrow> 'a vcablk_disk_scheme \<Rightarrow> 'a vcablk_disk_scheme) \<Rightarrow> nat \<Rightarrow> bio \<Rightarrow>
    'a vcablk_disk_scheme \<Rightarrow> (int \<times> 'a vcablk_disk_scheme) outcome" where
  "xfer_requests others i b d =
     (case flush_step others i (bi_flush b) d of Abort \<Rightarrow> Abort | Ret (r1, d1) \<Rightarrow> if r1 \<noteq> 0 then Ret (r1, d1) else
     (case xfer_segments others i (if bi_write b then REQUEST_WRITE else REQUEST_READ) (bi_sector b) (bi_segs b) d1 of
        Abort \<Rightarrow> Abort | Ret (r2, d2) \<Rightarrow> if r2 \<noteq> 0 then Ret (r2, d2) else
     (case flush_step others i (bi_flush b) d2 of Abort \<Rightarrow> Abort | Ret (r3, d3) \<Rightarrow> if r3 \<noteq> 0 then Ret (r3, d3) else
      Ret (vcablk_disk_request_start d3))))"

definition vcablk_disk_xfer_bio_async :: "(nat \<Rightarrow> 'a vcablk_disk_scheme \<Rightarrow> 'a vcablk_disk_scheme) \<Rightarrow> bio \<Rightarrow>
    'a vcablk_disk_scheme \<Rightarrow> (int \<times> 'a vcablk_disk_scheme) outcome option" where
  "vcablk_disk_xfer_bio_async others b d =
     (case vcablk_disk_get_bio_context others d of (ctx, d1) \<Rightarrow>
      (case (case ctx of None \<Rightarrow> Ret (- EIO, d1)
             | Some i \<Rightarrow> xfer_requests others i b (set_ctx i ((items (bio_context_pool d1) i)\<lparr>bc_bio := Some (bio_id b)\<rparr>) d1)) of
        Abort \<Rightarrow> Some Abort
      | Ret (ret, d2) \<Rightarrow> if ret = 0 then Some (Ret (0, d2))
          else (case vcablk_disk_request_break ctx d2 of None \<Rightarrow> None | Some Abort \<Rightarrow> Some Abort
            | Some (Ret d3) \<Rightarrow> Some (Ret (ret, vcablk_disk_bio_end (bio_id b) (- EIO) d3)))))"

section \<open>The queue of bios\<close>

text \<open>One turn of the thread: the oldest bio is transferred, if there is one.\<close>

definition vcablk_disk_make_request_thread :: "(nat \<Rightarrow> 'a vcablk_disk_scheme \<Rightarrow> 'a vcablk_disk_scheme) \<Rightarrow>
    'a vcablk_disk_scheme \<Rightarrow> 'a vcablk_disk_scheme outcome option" where
  "vcablk_disk_make_request_thread others d = (case request_bio_list d of [] \<Rightarrow> Some (Ret d)
     | b # bs \<Rightarrow> (case vcablk_disk_xfer_bio_async others b
          (d\<lparr>request_bio_count := request_bio_count d - 1, request_bio_list := bs\<rparr>) of
        None \<Rightarrow> None | Some Abort \<Rightarrow> Some Abort | Some (Ret (ret, d')) \<Rightarrow> Some (Ret d')))"

text \<open>
  A new bio. The caller sleeps while the queue is congested; \<open>None\<close> when it is not woken up. \<open>on\<close> and
  \<open>off\<close> are the thresholds of the kernel's queue.
\<close>

definition vcablk_disk_make_request :: "(nat \<Rightarrow> 'a vcablk_disk_scheme \<Rightarrow> 'a vcablk_disk_scheme) \<Rightarrow> u32 \<Rightarrow> u32 \<Rightarrow> bio \<Rightarrow>
    'a vcablk_disk_scheme \<Rightarrow> 'a vcablk_disk_scheme option" where
  "vcablk_disk_make_request others on off b d =
     (if bi_write b \<and> read_only d then Some (vcablk_disk_bio_end (bio_id b) (- EIO) d)
      else (case (if on \<le> request_bio_count d then wait_event others (\<lambda>d. request_bio_count d < off) d else (True, d)) of (ok, d1) \<Rightarrow>
        if \<not> ok then None
        else Some (d1\<lparr>request_bio_count := request_bio_count d1 + 1, request_bio_list := request_bio_list d1 @ [b]\<rparr>)))"

section \<open>Completions\<close>

text \<open>
  The work scheduled by the interrupt: it handles completions until it has caught up with the writer.
  The result of a completion is read into an unsigned byte.
\<close>

partial_function (option) completion_loop :: "u16 \<Rightarrow> 'a vcablk_disk_scheme \<Rightarrow> 'a vcablk_disk_scheme outcome option" where
  "completion_loop l d =
     (if l = last_add (completion_ring d) then Some (Ret d)
      else let k = VCA_RB_COUNTER_TO_IDX l (cq_num d); ack = elems (completion_ring d) k;
          l' = VCA_RB_COUNTER_ADD l 1 (cq_num d);
          d1 = d\<lparr>completion_ring := (completion_ring d)\<lparr>elems := (elems (completion_ring d))(k := \<lparr>cp_cookie = 0, cp_ret = 0\<rparr>),
                 last_used := l'\<rparr>\<rparr>
        in (case vcablk_disk_request_done (cp_cookie ack) (int (unat (cp_ret ack))) d1 of None \<Rightarrow> None
            | Some Abort \<Rightarrow> Some Abort | Some (Ret d2) \<Rightarrow> completion_loop l' d2))"

definition vcablk_disk_request_completion_handler :: "'a vcablk_disk_scheme \<Rightarrow> 'a vcablk_disk_scheme outcome option" where
  "vcablk_disk_request_completion_handler d = completion_loop (last_used (completion_ring d)) d"

section \<open>Users and the end of the disk\<close>

definition vcablk_disk_open :: "'a vcablk_disk_scheme \<Rightarrow> 'a vcablk_disk_scheme" where
  "vcablk_disk_open d = d\<lparr>ref_cnt := ref_cnt d + 1\<rparr>"

definition vcablk_disk_release :: "'a vcablk_disk_scheme \<Rightarrow> 'a vcablk_disk_scheme" where
  "vcablk_disk_release d = d\<lparr>ref_cnt := ref_cnt d - 1\<rparr>"

text \<open>A disk with requests under way cannot be stopped: the first of them ends in a \<open>BUG_ON\<close>.\<close>

definition vcablk_disk_stop :: "bool \<Rightarrow> 'a vcablk_disk_scheme \<Rightarrow> (int \<times> 'a vcablk_disk_scheme) outcome option" where
  "vcablk_disk_stop force d =
     (if \<not> gdisk d then Some (Ret (0, d))
      else if \<not> force \<and> 0 < sint (ref_cnt d) then Some (Ret (- EBUSY, d))
      else let d1 = d\<lparr>gdisk_started := False\<rparr>
        in (case vcablk_pool_foreach_used (bio_context_pool d1) of
              i # is \<Rightarrow> (case vcablk_disk_request_clean i d1 of None \<Rightarrow> None | _ \<Rightarrow> Some Abort)
            | [] \<Rightarrow> Some (Ret (0, d1\<lparr>gdisk := False\<rparr>))))"

definition vcablk_disk_start :: "bool \<Rightarrow> 'a vcablk_disk_scheme \<Rightarrow> (int \<times> 'a vcablk_disk_scheme) outcome option" where
  "vcablk_disk_start thread d =
     (if \<not> thread \<or> gdisk_started d then
        (case vcablk_disk_stop False d of None \<Rightarrow> None | Some Abort \<Rightarrow> Some Abort
         | Some (Ret (err, d')) \<Rightarrow> Some (Ret (- EINVAL, d')))
      else Some (Ret (0, d\<lparr>gdisk_started := True\<rparr>)))"

end
