(* ===== verification/Blk_Back.thy ===== *)
theory Blk_Back
  imports Blk_Front
begin

text \<open>
  The back end of the block driver (\<open>blockio/vcablk_bcknd/vcablk_bcknd_disk.c\<close>,
  \<open>vcablk_bcknd_media.c\<close>): it takes the requests of a disk from its ring, moves sectors between the
  memory of the front end and a medium, through pages of its own, and answers with completions.

  The back end reaches the rings of the front end through the bus: its state extends the disk. A pointer
  to remapped memory is the bus address behind it. Data moves by \<open>memcpy\<close> or by the DMA engine, whose
  jobs wait in \<open>dma_jobs\<close> until \<open>dma_done\<close>, in the order of their submission. Parameters are what the bus
  lets one remap (\<open>can_remap\<close>, for the k-th request), what the engine answers to a submission
  (\<open>dma_cookie\<close>), the operations of the file behind a medium, and \<open>others\<close>, the effect of all that happens
  during the k-th sleep.
\<close>

section \<open>The medium\<close>

datatype disk_type = VCABLK_DISK_TYPE_UNINIT | VCABLK_DISK_TYPE_FILE | VCABLK_DISK_TYPE_MEMORY
datatype disk_mode = VCABLK_DISK_MODE_READ_ONLY | VCABLK_DISK_MODE_READ_WRITE
datatype disk_state = DISK_STATE_CREATE | DISK_STATE_OPEN

text \<open>
  A file of the kernel: a read gives its result and the bytes that were read, a write its result and
  the file after it.
\<close>

record 'f file_ops =
  vfs_read :: "'f \<Rightarrow> u64 \<Rightarrow> nat \<Rightarrow> int \<times> u8 list"
  vfs_write :: "'f \<Rightarrow> u64 \<Rightarrow> u8 list \<Rightarrow> int \<times> 'f"
  vfs_fsync :: "'f \<Rightarrow> int"

record 'f vcablk_media =
  md_read_only :: bool
  md_size_bytes :: u64
  md_file_path :: string
  md_type :: disk_type
  md_memory :: "u8 mem"
  md_file :: 'f
  md_ops :: "'f file_ops"

text \<open>The bytes of a list over those of a memory, from its start.\<close>

definition put_file_bytes :: "u8 list \<Rightarrow> u8 mem \<Rightarrow> u8 mem" where
  "put_file_bytes bs m = (\<lambda>i. if i < length bs then bs ! i else m i)"

definition file_read :: "'f vcablk_media \<Rightarrow> u64 \<Rightarrow> u8 mem \<Rightarrow> u32 \<Rightarrow> int \<times> u8 mem" where
  "file_read m offset data n =
     (case vfs_read (md_ops m) (md_file m) offset (unat n) of (ret, bs) \<Rightarrow> (ret, put_file_bytes (take (unat n) bs) data))"

definition file_write :: "'f vcablk_media \<Rightarrow> u64 \<Rightarrow> u8 mem \<Rightarrow> u32 \<Rightarrow> int \<times> 'f vcablk_media" where
  "file_write m offset data n =
     (case vfs_write (md_ops m) (md_file m) offset (map data [0..<unat n]) of (ret, f) \<Rightarrow> (ret, m\<lparr>md_file := f\<rparr>))"

definition file_sync :: "'f vcablk_media \<Rightarrow> int" where
  "file_sync m = vfs_fsync (md_ops m) (md_file m)"

text \<open>
  A transfer between the medium and a buffer of \<open>room\<close> bytes: result, medium and buffer after it.
  The copy aborts where it leaves the memory of the medium or the buffer.
\<close>

definition media_transfer_mem :: "'f vcablk_media \<Rightarrow> u64 \<Rightarrow> u64 \<Rightarrow> u8 mem \<Rightarrow> nat \<Rightarrow> bool \<Rightarrow>
    (int \<times> 'f vcablk_media \<times> u8 mem) outcome" where
  "media_transfer_mem m sector nsect buf room write =
     (let offset = push_bit SECTOR_SHIFT sector; nbytes = push_bit SECTOR_SHIFT nsect
      in if md_size_bytes m < offset + nbytes then Ret (- EIO, m, buf)
         else if unat (md_size_bytes m) < unat offset + unat nbytes \<or> room < unat nbytes then Abort
         else if write then Ret (0, m\<lparr>md_memory := blit (md_memory m) (unat offset) buf 0 (unat nbytes)\<rparr>, buf)
         else Ret (0, m, blit buf 0 (md_memory m) (unat offset) (unat nbytes)))"

definition media_transfer_file :: "'f vcablk_media \<Rightarrow> u64 \<Rightarrow> u64 \<Rightarrow> u8 mem \<Rightarrow> nat \<Rightarrow> bool \<Rightarrow>
    (int \<times> 'f vcablk_media \<times> u8 mem) outcome" where
  "media_transfer_file m sector nsect buf room write =
     (let offset = push_bit SECTOR_SHIFT sector; nbytes = push_bit SECTOR_SHIFT nsect
      in if md_size_bytes m < offset + nbytes then Ret (- EIO, m, buf)
         else if write \<and> md_read_only m then Ret (- EACCES, m, buf)
         else if room < unat (ucast nbytes :: u32) then Abort
         else if write then Ret (0, snd (file_write m offset buf (ucast nbytes)), buf)
         else Ret (0, m, snd (file_read m offset buf (ucast nbytes))))"

text \<open>The function pointers of the medium, which its type decides.\<close>

definition vcablk_media_transfer :: "'f vcablk_media \<Rightarrow> u64 \<Rightarrow> u64 \<Rightarrow> u8 mem \<Rightarrow> nat \<Rightarrow> bool \<Rightarrow>
    (int \<times> 'f vcablk_media \<times> u8 mem) outcome" where
  "vcablk_media_transfer m sector nsect buf room write = (case md_type m of
     VCABLK_DISK_TYPE_UNINIT \<Rightarrow> Abort
   | VCABLK_DISK_TYPE_FILE \<Rightarrow> media_transfer_file m sector nsect buf room write
   | VCABLK_DISK_TYPE_MEMORY \<Rightarrow> media_transfer_mem m sector nsect buf room write)"

definition vcablk_media_sync :: "'f vcablk_media \<Rightarrow> int outcome" where
  "vcablk_media_sync m = (case md_type m of
     VCABLK_DISK_TYPE_UNINIT \<Rightarrow> Abort
   | VCABLK_DISK_TYPE_FILE \<Rightarrow> Ret (file_sync m)
   | VCABLK_DISK_TYPE_MEMORY \<Rightarrow> Ret 0)"

text \<open>A pointer: to an object, or a number cast to one; the numbers just below 0 are errors.\<close>

datatype 'a pointer = Object 'a | Address int

definition NULL :: "'a pointer" where "NULL = Address 0"
definition ERR_PTR :: "int \<Rightarrow> 'a pointer" where "ERR_PTR n = Address n"

fun IS_ERR :: "'a pointer \<Rightarrow> bool" where
  "IS_ERR (Object x) \<longleftrightarrow> False"
| "IS_ERR (Address n) \<longleftrightarrow> - 4095 \<le> n \<and> n < 0"

fun PTR_ERR :: "'a pointer \<Rightarrow> int" where
  "PTR_ERR (Object x) = 0"
| "PTR_ERR (Address n) = n"

definition PATH_MAX :: nat where "PATH_MAX = 4096"

text \<open>\<open>alloc\<close>: does \<open>vmalloc\<close> succeed? The fields without a value are zero.\<close>

definition media_create :: "bool \<Rightarrow> 'f vcablk_media \<Rightarrow> u64 \<Rightarrow> string \<Rightarrow> bool \<Rightarrow> 'f vcablk_media option" where
  "media_create alloc zero sz path ro =
     (if PATH_MAX \<le> length path + 1 \<or> \<not> alloc then None
      else Some (zero\<lparr>md_size_bytes := sz, md_read_only := ro, md_file_path := path\<rparr>))"

text \<open>\<open>opened\<close> is what opening the file gives: an error number or the file.\<close>

definition vcablk_media_create_file :: "bool \<Rightarrow> int + 'f \<Rightarrow> 'f vcablk_media \<Rightarrow> u64 \<Rightarrow> string \<Rightarrow> bool \<Rightarrow> 'f vcablk_media pointer" where
  "vcablk_media_create_file alloc opened zero sz path ro =
     (case media_create alloc zero sz path ro of None \<Rightarrow> ERR_PTR ENOMEM
      | Some m \<Rightarrow> (case opened of Inl err \<Rightarrow> ERR_PTR err
          | Inr f \<Rightarrow> Object (m\<lparr>md_type := VCABLK_DISK_TYPE_FILE, md_file := f\<rparr>)))"

text \<open>\<open>memory\<close> is the memory allocated for the sectors, \<open>None\<close> when there is none.\<close>

definition vcablk_media_create_memory :: "bool \<Rightarrow> u8 mem option \<Rightarrow> 'f vcablk_media \<Rightarrow> u64 \<Rightarrow> string \<Rightarrow> bool \<Rightarrow> 'f vcablk_media pointer" where
  "vcablk_media_create_memory alloc memory zero sz path ro =
     (case media_create alloc zero sz path ro of None \<Rightarrow> ERR_PTR ENOMEM
      | Some m \<Rightarrow> (case memory of None \<Rightarrow> ERR_PTR ENOMEM
          | Some mem \<Rightarrow> Object (m\<lparr>md_type := VCABLK_DISK_TYPE_MEMORY, md_memory := mem\<rparr>)))"

section \<open>The state of the back end\<close>

definition VCABLK_MAX_PARTS_PER_REQUEST :: nat where "VCABLK_MAX_PARTS_PER_REQUEST = 256"
definition BUFFER_SIZE :: u64 where "BUFFER_SIZE = 4096"

text \<open>\<open>tx\<close> says that a descriptor of the engine is recorded.\<close>

record transfer_parameters =
  cb_sector :: u64
  cb_nsec :: u64
  cb_remapped :: "u64 option"
  cb_response_cookie :: int
  tp_buffer :: "u8 mem"
  tp_buffer_size :: u64
  tp_buffer_phys_da :: bool
  tp_buffer_alloc :: bool
  tp_tx :: bool

record dma_job =
  dj_param :: nat
  dj_write :: bool
  dj_bus :: nat
  dj_bytes :: nat

datatype remap_event = Remapped u64 u64 | Unmapped u64

record 'f vcablk_bcknd_disk = vcablk_disk +
  bk_id :: int
  bk_sectors_num :: u32
  bk_state :: disk_state
  bk_media :: "'f vcablk_media pointer"
  bk_request_db :: int
  bk_done_db :: int
  bk_request_irq :: bool
  bk_request_thread :: bool
  bk_request_ring :: "u64 option"
  bk_completion_ring :: "u64 option"
  request_ring_nums :: u16
  completion_ring_num_elems :: u16
  request_last_used :: u16
  transfer_buffer_pool :: "transfer_parameters vcablk_pool"
  has_dma :: bool
  can_remap :: "nat \<Rightarrow> u64 \<Rightarrow> u64 \<Rightarrow> bool"
  dma_cookie :: "nat \<Rightarrow> int"
  dma_submitted :: nat
  dma_jobs :: "dma_job list"
  bus :: "u8 mem"
  remaps :: "remap_event list"
  done_interrupts :: nat
  bk_sleeps :: nat
  bk_stopping :: bool

type_synonym ('f, 'a) sleep = "nat \<Rightarrow> ('f, 'a) vcablk_bcknd_disk_scheme \<Rightarrow> ('f, 'a) vcablk_bcknd_disk_scheme"

definition sleeping :: "('f, 'a) sleep \<Rightarrow> ('f, 'a) vcablk_bcknd_disk_scheme \<Rightarrow> ('f, 'a) vcablk_bcknd_disk_scheme" where
  "sleeping others d = others (bk_sleeps d) (d\<lparr>bk_sleeps := bk_sleeps d + 1\<rparr>)"

definition tparam :: "('f, 'a) vcablk_bcknd_disk_scheme \<Rightarrow> nat \<Rightarrow> transfer_parameters" where
  "tparam d j = items (transfer_buffer_pool d) j"

definition set_tparam :: "nat \<Rightarrow> (transfer_parameters \<Rightarrow> transfer_parameters) \<Rightarrow>
    ('f, 'a) vcablk_bcknd_disk_scheme \<Rightarrow> ('f, 'a) vcablk_bcknd_disk_scheme" where
  "set_tparam j g d = d\<lparr>transfer_buffer_pool := (transfer_buffer_pool d)
     \<lparr>items := (items (transfer_buffer_pool d))(j := g (items (transfer_buffer_pool d) j))\<rparr>\<rparr>"

section \<open>Answers\<close>

text \<open>Up to \<open>n\<close> sleeps until the ring of completions has room for the one at \<open>last_add\<close>.\<close>

fun wait_ack :: "('f, 'a) sleep \<Rightarrow> nat \<Rightarrow> u16 \<Rightarrow> ('f, 'a) vcablk_bcknd_disk_scheme \<Rightarrow> bool \<times> ('f, 'a) vcablk_bcknd_disk_scheme" where
  "wait_ack others n la d =
     (if \<not> VCA_RB_BUFF_FULL la (last_used (completion_ring d)) (unat (completion_ring_num_elems d)) then (True, d)
      else (case n of 0 \<Rightarrow> (False, d) | Suc k \<Rightarrow> wait_ack others k la (sleeping others d)))"

definition vcablk_bcknd_disk_send_response :: "('f, 'a) sleep \<Rightarrow> u16 \<Rightarrow> int \<Rightarrow> ('f, 'a) vcablk_bcknd_disk_scheme \<Rightarrow>
    int \<times> ('f, 'a) vcablk_bcknd_disk_scheme" where
  "vcablk_bcknd_disk_send_response others c ret d =
     (let la = last_add (completion_ring d)
      in case wait_ack others 199 la d of (False, d1) \<Rightarrow> (- EIO, d1)
       | (True, d1) \<Rightarrow>
           let n = unat (completion_ring_num_elems d1); q = completion_ring d1
           in (0, d1\<lparr>completion_ring := q\<lparr>elems := (elems q)(VCA_RB_COUNTER_TO_IDX la n := \<lparr>cp_cookie = c, cp_ret = of_int ret\<rparr>),
                  last_add := VCA_RB_COUNTER_ADD la 1 n\<rparr>, done_interrupts := done_interrupts d1 + 1\<rparr>))"

section \<open>Transfers\<close>

text \<open>A transfer between the medium and the buffer of item \<open>j\<close>.\<close>

definition media_io :: "nat \<Rightarrow> u64 \<Rightarrow> u64 \<Rightarrow> bool \<Rightarrow> ('f, 'a) vcablk_bcknd_disk_scheme \<Rightarrow>
    (int \<times> ('f, 'a) vcablk_bcknd_disk_scheme) outcome" where
  "media_io j sector nsec write d = (case bk_media d of Address _ \<Rightarrow> Abort
     | Object m \<Rightarrow> (case vcablk_media_transfer m sector nsec (tp_buffer (tparam d j)) (unat (tp_buffer_size (tparam d j))) write of
         Abort \<Rightarrow> Abort
       | Ret (ret, m', buf) \<Rightarrow> Ret (ret, set_tparam j (\<lambda>t. t\<lparr>tp_buffer := buf\<rparr>) (d\<lparr>bk_media := Object m'\<rparr>))))"

text \<open>The end of both callbacks: unmap, answer, give the item back.\<close>

definition callback_end :: "('f, 'a) sleep \<Rightarrow> nat \<Rightarrow> int \<Rightarrow> ('f, 'a) vcablk_bcknd_disk_scheme \<Rightarrow>
    ('f, 'a) vcablk_bcknd_disk_scheme outcome" where
  "callback_end others j err d =
     (let d1 = (case cb_remapped (tparam d j) of None \<Rightarrow> d
          | Some a \<Rightarrow> set_tparam j (\<lambda>t. t\<lparr>cb_remapped := None\<rparr>) (d\<lparr>remaps := remaps d @ [Unmapped a]\<rparr>));
        c = cb_response_cookie (tparam d1 j);
        d2 = (if 0 \<le> c then snd (vcablk_bcknd_disk_send_response others (of_int c) err d1) else d1)
      in (case vcablk_pool_push (Some j) (transfer_buffer_pool d2) of Abort \<Rightarrow> Abort
          | Ret p \<Rightarrow> Ret (d2\<lparr>transfer_buffer_pool := p\<rparr>)))"

definition vca_bcknd_callback_write :: "('f, 'a) sleep \<Rightarrow> nat \<Rightarrow> ('f, 'a) vcablk_bcknd_disk_scheme \<Rightarrow>
    ('f, 'a) vcablk_bcknd_disk_scheme outcome" where
  "vca_bcknd_callback_write others j d =
     (let d1 = set_tparam j (\<lambda>t. t\<lparr>tp_tx := False\<rparr>) d
      in (case media_io j (cb_sector (tparam d1 j)) (cb_nsec (tparam d1 j)) True d1 of Abort \<Rightarrow> Abort
          | Ret (err, d2) \<Rightarrow> callback_end others j err d2))"

definition vca_bcknd_callback_read :: "('f, 'a) sleep \<Rightarrow> nat \<Rightarrow> ('f, 'a) vcablk_bcknd_disk_scheme \<Rightarrow>
    ('f, 'a) vcablk_bcknd_disk_scheme outcome" where
  "vca_bcknd_callback_read others j d = callback_end others j 0 (set_tparam j (\<lambda>t. t\<lparr>tp_tx := False\<rparr>) d)"

text \<open>An item with a buffer; \<open>None\<close> after a sleep at whose end none is free.\<close>

partial_function (option) vcablk_bcknd_get_transfer_param :: "('f, 'a) sleep \<Rightarrow> ('f, 'a) vcablk_bcknd_disk_scheme \<Rightarrow>
    (nat option \<times> ('f, 'a) vcablk_bcknd_disk_scheme) outcome option" where
  "vcablk_bcknd_get_transfer_param others d =
     (case vcablk_pool_pop (transfer_buffer_pool d) of
        (Some j, p) \<Rightarrow> let d1 = d\<lparr>transfer_buffer_pool := p\<rparr>
          in if tp_tx (tparam d1 j) then Some Abort else Some (Ret (Some j, d1))
      | (None, p) \<Rightarrow>
          if vcablk_is_available (transfer_buffer_pool d) then vcablk_bcknd_get_transfer_param others d
          else let d1 = sleeping others d
            in if vcablk_is_available (transfer_buffer_pool d1) then vcablk_bcknd_get_transfer_param others d1
               else Some (Ret (None, d1)))"

text \<open>Bytes between the buffer of item \<open>j\<close> and the bus.\<close>

definition bus_to_buffer :: "nat \<Rightarrow> nat \<Rightarrow> nat \<Rightarrow> ('f, 'a) vcablk_bcknd_disk_scheme \<Rightarrow> ('f, 'a) vcablk_bcknd_disk_scheme" where
  "bus_to_buffer j a n d = set_tparam j (\<lambda>t. t\<lparr>tp_buffer := blit (tp_buffer t) 0 (bus d) a n\<rparr>) d"

definition buffer_to_bus :: "nat \<Rightarrow> nat \<Rightarrow> nat \<Rightarrow> ('f, 'a) vcablk_bcknd_disk_scheme \<Rightarrow> ('f, 'a) vcablk_bcknd_disk_scheme" where
  "buffer_to_bus j a n d = d\<lparr>bus := blit (bus d) a (tp_buffer (tparam d j)) 0 n\<rparr>"

definition transfer_callback :: "('f, 'a) sleep \<Rightarrow> bool \<Rightarrow> nat \<Rightarrow> ('f, 'a) vcablk_bcknd_disk_scheme \<Rightarrow>
    ('f, 'a) vcablk_bcknd_disk_scheme outcome" where
  "transfer_callback others write = (if write then vca_bcknd_callback_write others else vca_bcknd_callback_read others)"

definition vcablk_bcknd_transfer_device :: "('f, 'a) sleep \<Rightarrow> nat \<Rightarrow> nat \<Rightarrow> nat \<Rightarrow> bool \<Rightarrow>
    ('f, 'a) vcablk_bcknd_disk_scheme \<Rightarrow> (int \<times> ('f, 'a) vcablk_bcknd_disk_scheme) outcome" where
  "vcablk_bcknd_transfer_device others j a n write d =
     (if \<not> has_dma d then
        (case transfer_callback others write j (if write then bus_to_buffer j a n d else buffer_to_bus j a n d) of
           Abort \<Rightarrow> Abort | Ret d' \<Rightarrow> Ret (0, d'))
      else if tp_tx (tparam d j) then Abort
      else let c = dma_cookie d (dma_submitted d); d1 = d\<lparr>dma_submitted := dma_submitted d + 1\<rparr>
        in if c < 0 then Ret (- ENOMEM, d1)
           else Ret (0, set_tparam j (\<lambda>t. t\<lparr>tp_tx := True\<rparr>)
             (d1\<lparr>dma_jobs := dma_jobs d1 @ [\<lparr>dj_param = j, dj_write = write, dj_bus = a, dj_bytes = n\<rparr>]\<rparr>)))"

text \<open>The engine ends its oldest job.\<close>

definition dma_done :: "('f, 'a) sleep \<Rightarrow> ('f, 'a) vcablk_bcknd_disk_scheme \<Rightarrow> ('f, 'a) vcablk_bcknd_disk_scheme outcome" where
  "dma_done others d = (case dma_jobs d of [] \<Rightarrow> Ret d
     | x # xs \<Rightarrow> let d1 = d\<lparr>dma_jobs := xs\<rparr>; j = dj_param x
         in transfer_callback others (dj_write x) j
              (if dj_write x then bus_to_buffer j (dj_bus x) (dj_bytes x) d1 else buffer_to_bus j (dj_bus x) (dj_bytes x) d1))"

text \<open>One part of a transfer: \<open>fin\<close>, for the last one, is the mapping and the cookie.\<close>

definition transfer_part :: "('f, 'a) sleep \<Rightarrow> nat \<Rightarrow> u64 \<Rightarrow> u64 \<Rightarrow> nat \<Rightarrow> bool \<Rightarrow> (u64 \<times> int) option \<Rightarrow>
    ('f, 'a) vcablk_bcknd_disk_scheme \<Rightarrow> (int \<times> ('f, 'a) vcablk_bcknd_disk_scheme) outcome" where
  "transfer_part others j sector nsec a write fin d =
     (let d1 = set_tparam j (\<lambda>t. t\<lparr>cb_response_cookie := (case fin of None \<Rightarrow> - 1 | Some (r, c) \<Rightarrow> c),
              cb_remapped := map_option fst fin, cb_sector := sector, cb_nsec := nsec\<rparr>) d;
        n = unat (push_bit SECTOR_SHIFT nsec)
      in if write then vcablk_bcknd_transfer_device others j a n write d1
         else (case media_io j sector nsec write d1 of Abort \<Rightarrow> Abort
             | Ret (ret, d2) \<Rightarrow> if ret \<noteq> 0 then Ret (ret, d2) else vcablk_bcknd_transfer_device others j a n write d2))"

partial_function (option) transfer_loop :: "('f, 'a) sleep \<Rightarrow> u64 \<Rightarrow> u64 \<Rightarrow> u64 \<Rightarrow> nat \<Rightarrow> bool \<Rightarrow> int \<Rightarrow>
    ('f, 'a) vcablk_bcknd_disk_scheme \<Rightarrow> (int \<times> ('f, 'a) vcablk_bcknd_disk_scheme) outcome option" where
  "transfer_loop others remapped sector left a write cookie d =
     (if left = 0 then Some (Ret (0, d))
      else (case vcablk_bcknd_get_transfer_param others d of None \<Rightarrow> None | Some Abort \<Rightarrow> Some Abort
        | Some (Ret (None, d1)) \<Rightarrow> Some (Ret (- ENOMEM, d1))
        | Some (Ret (Some j, d1)) \<Rightarrow>
            let nsec = min left (drop_bit SECTOR_SHIFT (tp_buffer_size (tparam d1 j))); left' = left - nsec
            in (case transfer_part others j sector nsec a write (if left' = 0 then Some (remapped, cookie) else None) d1 of
                Abort \<Rightarrow> Some Abort
              | Ret (ret, d2) \<Rightarrow> if ret \<noteq> 0 then Some (Ret (ret, d2))
                  else transfer_loop others remapped (sector + nsec) left' (a + unat (push_bit SECTOR_SHIFT nsec)) write cookie d2)))"

text \<open>Mappings are numbered by the events so far.\<close>

definition vcablk_bcknd_transfer :: "('f, 'a) sleep \<Rightarrow> u64 \<Rightarrow> u64 \<Rightarrow> u64 \<Rightarrow> bool \<Rightarrow> int \<Rightarrow>
    ('f, 'a) vcablk_bcknd_disk_scheme \<Rightarrow> (int \<times> ('f, 'a) vcablk_bcknd_disk_scheme) outcome option" where
  "vcablk_bcknd_transfer others sector sectors phys write cookie d =
     (let sz = push_bit SECTOR_SHIFT sectors
      in if \<not> can_remap d (length (remaps d)) phys sz then Some (Ret (- EIO, d))
         else (case transfer_loop others phys sector sectors (unat phys) write cookie (d\<lparr>remaps := remaps d @ [Remapped phys sz]\<rparr>) of
             None \<Rightarrow> None | Some Abort \<Rightarrow> Some Abort
           | Some (Ret (ret, d1)) \<Rightarrow>
               Some (Ret (ret, if ret \<noteq> 0 then d1\<lparr>remaps := remaps d1 @ [Unmapped phys]\<rparr> else d1))))"

section \<open>Requests\<close>

definition vcablk_bcknd_disk_request_step :: "('f, 'a) sleep \<Rightarrow> vcablk_request \<Rightarrow> int \<Rightarrow>
    ('f, 'a) vcablk_bcknd_disk_scheme \<Rightarrow> (int \<times> ('f, 'a) vcablk_bcknd_disk_scheme) outcome option" where
  "vcablk_bcknd_disk_request_step others r cookie d =
     (if request_type r = REQUEST_SYNC then
        (case bk_media d of Address _ \<Rightarrow> Some Abort
         | Object m \<Rightarrow> (case vcablk_media_sync m of Abort \<Rightarrow> Some Abort | Ret ret \<Rightarrow> Some (Ret (ret, d))))
      else if request_type r = REQUEST_WRITE \<or> request_type r = REQUEST_READ then
        vcablk_bcknd_transfer others (rq_sector r) (rq_sectors_num r) (phys_buff r) (request_type r = REQUEST_WRITE) cookie d
      else Some (Ret (- EIO, d)))"

text \<open>The requests of one group; the cookie of the group is the first that is not 0.\<close>

fun request_loop :: "('f, 'a) sleep \<Rightarrow> u16 \<Rightarrow> vcablk_request list \<Rightarrow> ('f, 'a) vcablk_bcknd_disk_scheme \<Rightarrow>
    (int \<times> u16 \<times> ('f, 'a) vcablk_bcknd_disk_scheme) outcome option" where
  "request_loop others c [] d = Some (Ret (0, c, d))"
| "request_loop others c (r # rs) d =
     (let c' = (if c = 0 then rq_cookie r else c)
      in if c' \<noteq> rq_cookie r then Some (Ret (- EIO, c', d))
         else (case vcablk_bcknd_disk_request_step others r (if rs = [] then int (unat c') else - 1) d of
             None \<Rightarrow> None | Some Abort \<Rightarrow> Some Abort
           | Some (Ret (err, d1)) \<Rightarrow> if err \<noteq> 0 then Some (Ret (err, c', d1)) else request_loop others c' rs d1))"

definition vcablk_bcknd_disk_request :: "('f, 'a) sleep \<Rightarrow> vcablk_request list \<Rightarrow> ('f, 'a) vcablk_bcknd_disk_scheme \<Rightarrow>
    (int \<times> ('f, 'a) vcablk_bcknd_disk_scheme) outcome option" where
  "vcablk_bcknd_disk_request others rs d =
     (if rs = [] then Some (Ret (- EIO, d))
      else (case request_loop others 0 rs d of None \<Rightarrow> None | Some Abort \<Rightarrow> Some Abort
        | Some (Ret (err, c, d1)) \<Rightarrow>
            Some (Ret (err, if err \<noteq> 0 then snd (vcablk_bcknd_disk_send_response others c err d1) else d1))))"

text \<open>
  The next group of requests with one cookie, and the counter behind it. Requests with cookie 0 are
  passed over at the start of the group.
\<close>

partial_function (option) next_requests :: "('f, 'a) vcablk_bcknd_disk_scheme \<Rightarrow> u16 \<Rightarrow> u16 \<Rightarrow> u16 \<Rightarrow> vcablk_request list \<Rightarrow>
    (u16 \<times> vcablk_request list) option" where
  "next_requests d la l c acc =
     (if l = la \<or> VCABLK_MAX_PARTS_PER_REQUEST \<le> length acc then Some (l, acc)
      else let n = unat (request_ring_nums d); r = elems (request_ring d) (VCA_RB_COUNTER_TO_IDX l n);
          c' = (if c = 0 then rq_cookie r else c)
        in if c' = 0 then next_requests d la (VCA_RB_COUNTER_ADD l 1 n) c' acc
           else if c' \<noteq> rq_cookie r then Some (l, acc)
           else next_requests d la (VCA_RB_COUNTER_ADD l 1 n) c' (acc @ [r]))"

definition vcablk_bcknd_disk_get_next_request :: "('f, 'a) vcablk_bcknd_disk_scheme \<Rightarrow>
    (vcablk_request list \<times> ('f, 'a) vcablk_bcknd_disk_scheme) option" where
  "vcablk_bcknd_disk_get_next_request d =
     (let la = last_add (request_ring d)
      in if request_last_used d = la then Some ([], d)
         else (case next_requests d la (request_last_used d) 0 [] of None \<Rightarrow> None
           | Some (l, rs) \<Rightarrow> Some (rs, d\<lparr>request_last_used := l, request_ring := (request_ring d)\<lparr>last_used := l\<rparr>\<rparr>)))"

text \<open>
  One turn of the thread: what is in the ring when it starts. When there is nothing, or the disk is not
  open, it goes back to sleep.
\<close>

partial_function (option) serve_requests :: "('f, 'a) sleep \<Rightarrow> u16 \<Rightarrow> ('f, 'a) vcablk_bcknd_disk_scheme \<Rightarrow>
    ('f, 'a) vcablk_bcknd_disk_scheme outcome option" where
  "serve_requests others la d =
     (if la = request_last_used d \<or> bk_stopping d then Some (Ret d)
      else (case vcablk_bcknd_disk_get_next_request d of None \<Rightarrow> None
        | Some (rs, d1) \<Rightarrow> if rs = [] then serve_requests others la d1
            else (case vcablk_bcknd_disk_request others rs d1 of None \<Rightarrow> None | Some Abort \<Rightarrow> Some Abort
              | Some (Ret (err, d2)) \<Rightarrow> serve_requests others la d2)))"

definition vcablk_bcknd_disk_make_request_thread :: "('f, 'a) sleep \<Rightarrow> ('f, 'a) vcablk_bcknd_disk_scheme \<Rightarrow>
    ('f, 'a) vcablk_bcknd_disk_scheme outcome option" where
  "vcablk_bcknd_disk_make_request_thread others d =
     (if bk_state d \<noteq> DISK_STATE_OPEN \<or> bk_stopping d then Some (Ret d)
      else serve_requests others (last_add (request_ring d)) d)"

end
