(* ===== verification/Blk_Serve.thy ===== *)
theory Blk_Serve
  imports Blk_Back
begin

text \<open>
  What the back end does with the requests it finds: which group it takes from the ring, what a transfer
  without DMA moves between the memory of the front end and the medium, and how a group is answered.
\<close>

section \<open>The next group\<close>

lemmas rb_fold = rb_add_def [symmetric] rb_pos_def [symmetric]

text \<open>The requests that wait between two counters, how many of them are consumed, and which are the group.\<close>

definition waiting_requests :: "('f, 'a) vcablk_bcknd_disk_scheme \<Rightarrow> vcablk_request list" where
  "waiting_requests d = rb.window (elems (request_ring d)) 0 (unat (request_ring_nums d)) (request_last_used d) (last_add (request_ring d))"

definition next_group :: "vcablk_request list \<Rightarrow> nat \<times> vcablk_request list" where
  "next_group ws = (let vs = dropWhile (\<lambda>r. rq_cookie r = 0) ws;
     g = take VCABLK_MAX_PARTS_PER_REQUEST (takeWhile (\<lambda>r. rq_cookie r = rq_cookie (hd vs)) vs)
   in (length ws - length vs + length g, g))"

definition request_ring_ok :: "('f, 'a) vcablk_bcknd_disk_scheme \<Rightarrow> bool" where
  "request_ring_ok d \<longleftrightarrow> rb_size_ok (unat (request_ring_nums d)) \<and>
     rb_cnt_ok (unat (request_ring_nums d)) (request_last_used d) \<and> rb_cnt_ok (unat (request_ring_nums d)) (last_add (request_ring d))"

lemma next_requests_group:
  assumes "n = unat (request_ring_nums d)" "rb_size_ok n" "rb_cnt_ok n l" "rb_cnt_ok n la" "c \<noteq> 0"
    and "g = take (VCABLK_MAX_PARTS_PER_REQUEST - length acc)
      (takeWhile (\<lambda>r. rq_cookie r = c) (rb.window (elems (request_ring d)) 0 n l la))"
  shows "next_requests d la l c acc = Some (rb_add n l (length g), acc @ g)"
  using assms(3,6)
proof (induction "rb_used n l la" arbitrary: l acc g)
  case 0
  then have "l = la" using rb.used_zero_iff assms by metis
  with 0 show ?case
    using assms(2) by (subst next_requests.simps) (simp add: rb.window_empty rb.add_0)
next
  case (Suc k)
  have ne: "l \<noteq> la" using Suc.hyps(2) rb.used_self [OF assms(2,4)] by auto
  let ?r = "elems (request_ring d) (rb_pos n l)" and ?l = "rb_add n l 1"
  note w = rb.window_Cons [OF assms(2) Suc.prems(1) assms(4) ne, of "elems (request_ring d)" 0]
  have l: "rb_cnt_ok n ?l" using rb.add_ok assms(2) Suc.prems(1) .
  have u: "k = rb_used n ?l la" using rb.used_get [OF assms(2) Suc.prems(1) assms(4), of 1] Suc.hyps(2) by simp
  show ?case
  proof (cases "VCABLK_MAX_PARTS_PER_REQUEST \<le> length acc")
    case True
    then show ?thesis using Suc.prems assms(2) by (subst next_requests.simps) (simp add: rb.add_0)
  next
    case f: False
    show ?thesis
    proof (cases "rq_cookie ?r = c")
      case True
      define g' where "g' = take (VCABLK_MAX_PARTS_PER_REQUEST - length (acc @ [?r]))
        (takeWhile (\<lambda>r. rq_cookie r = c) (rb.window (elems (request_ring d)) 0 n ?l la))"
      have g: "g = ?r # g'" using True f Suc.prems(2) unfolding g'_def w by (cases "VCABLK_MAX_PARTS_PER_REQUEST - length acc") (auto simp: diff_Suc split: nat.splits)
      have "next_requests d la ?l c (acc @ [?r]) = Some (rb_add n ?l (length g'), (acc @ [?r]) @ g')"
        by (rule Suc.hyps(1) [OF u l g'_def])
      moreover have "next_requests d la l c acc = next_requests d la ?l c (acc @ [?r])"
        using ne f True assms(1,5) by (subst next_requests.simps) (simp add: Let_def rb_fold)
      ultimately show ?thesis using g rb.add_add [OF assms(2) Suc.prems(1)] by simp
    next
      case False
      then show ?thesis using ne f assms(1,2,5) Suc.prems unfolding w
        by (subst next_requests.simps) (auto simp add: Let_def rb_fold rb.add_0)
    qed
  qed
qed

lemma next_requests_start:
  assumes "n = unat (request_ring_nums d)" "rb_size_ok n" "rb_cnt_ok n l" "rb_cnt_ok n la"
    and "next_group (rb.window (elems (request_ring d)) 0 n l la) = (k, g)"
  shows "next_requests d la l 0 [] = Some (rb_add n l k, g)"
  using assms(3,5)
proof (induction "rb_used n l la" arbitrary: l k g)
  case 0
  then have "l = la" using rb.used_zero_iff assms by metis
  with 0 show ?case
    using assms(2) by (subst next_requests.simps) (simp add: rb.window_empty rb.add_0 next_group_def)
next
  case (Suc i)
  have ne: "l \<noteq> la" using Suc.hyps(2) rb.used_self [OF assms(2,4)] by auto
  let ?r = "elems (request_ring d) (rb_pos n l)" and ?l = "rb_add n l 1"
  note w = rb.window_Cons [OF assms(2) Suc.prems(1) assms(4) ne, of "elems (request_ring d)" 0]
  have l: "rb_cnt_ok n ?l" using rb.add_ok assms(2) Suc.prems(1) .
  have u: "i = rb_used n ?l la" using rb.used_get [OF assms(2) Suc.prems(1) assms(4), of 1] Suc.hyps(2) by simp
  have m: "\<not> VCABLK_MAX_PARTS_PER_REQUEST \<le> 0" by (simp add: VCABLK_MAX_PARTS_PER_REQUEST_def)
  let ?W = "rb.window (elems (request_ring d)) 0 n ?l la"
  show ?case
  proof (cases "rq_cookie ?r = 0")
    case True
    obtain k' where k: "k = Suc k'" "next_group ?W = (k', g)"
    proof
      show "k = Suc (fst (next_group ?W))" "next_group ?W = (fst (next_group ?W), g)"
        using Suc.prems(2) True length_dropWhile_le [of "\<lambda>r. rq_cookie r = 0" ?W]
        unfolding w by (auto simp: next_group_def Let_def Suc_diff_le)
    qed
    have "next_requests d la l 0 [] = next_requests d la ?l 0 []"
      using ne m True assms(1) by (subst next_requests.simps) (simp add: Let_def rb_fold)
    then show ?thesis using Suc.hyps(1) [OF u l k(2)] rb.add_add [OF assms(2) Suc.prems(1)] k(1) by simp
  next
    case False
    have g: "g = take VCABLK_MAX_PARTS_PER_REQUEST (takeWhile (\<lambda>r. rq_cookie r = rq_cookie ?r) (?r # ?W))" "k = length g"
      using Suc.prems(2) False unfolding w by (auto simp: next_group_def Let_def simp del: length_take)
    have "next_requests d la l 0 [] = next_requests d la l (rq_cookie ?r) []"
      using ne m False assms(1) by (subst (1 2) next_requests.simps) (simp add: Let_def rb_fold)
    also have "\<dots> = Some (rb_add n l (length g), [] @ g)"
      using g(1) False unfolding w [symmetric, simplified]
      by (intro next_requests_group [OF assms(1,2) Suc.prems(1) assms(4)]) (simp_all add: w)
    finally show ?thesis using g(2) by simp
  qed
qed

lemma get_next_request:
  assumes "request_ring_ok d" and "next_group (waiting_requests d) = (k, g)"
  shows "vcablk_bcknd_disk_get_next_request d =
    Some (g, d\<lparr>request_last_used := rb_add (unat (request_ring_nums d)) (request_last_used d) k,
      request_ring := (request_ring d)\<lparr>last_used := (if waiting_requests d = [] then last_used (request_ring d)
        else rb_add (unat (request_ring_nums d)) (request_last_used d) k)\<rparr>\<rparr>)"
proof (cases "request_last_used d = last_add (request_ring d)")
  case True
  then have "waiting_requests d = []" using assms(1) by (simp add: waiting_requests_def request_ring_ok_def rb.window_empty)
  then show ?thesis using True assms
    by (cases d) (simp add: vcablk_bcknd_disk_get_next_request_def next_group_def request_ring_ok_def rb.add_0)
next
  case False
  have o: "rb_size_ok (unat (request_ring_nums d))" "rb_cnt_ok (unat (request_ring_nums d)) (request_last_used d)"
    "rb_cnt_ok (unat (request_ring_nums d)) (last_add (request_ring d))"
    using assms(1) by (simp_all add: request_ring_ok_def)
  have "waiting_requests d \<noteq> []" unfolding waiting_requests_def rb.window_Cons [OF o False, of "elems (request_ring d)" 0] by simp
  moreover have "next_requests d (last_add (request_ring d)) (request_last_used d) 0 [] =
      Some (rb_add (unat (request_ring_nums d)) (request_last_used d) k, g)"
    using assms(2) unfolding waiting_requests_def by (rule next_requests_start [OF refl o])
  ultimately show ?thesis using False by (simp add: vcablk_bcknd_disk_get_next_request_def Let_def)
qed

text \<open>Over requests with cookie 0 the search goes on until it meets the counter of the front end.\<close>

lemma next_requests_zero:
  assumes "rb_size_ok (unat (request_ring_nums d))" "2 * unat (request_ring_nums d) \<le> unat la"
    "rb_cnt_ok (unat (request_ring_nums d)) l" "\<And>i. i < unat (request_ring_nums d) \<Longrightarrow> rq_cookie (elems (request_ring d) i) = 0"
  shows "next_requests d la l 0 [] = None"
proof (cases "next_requests d la l 0 []")
  case (Some res)
  have "\<not> (d = d \<and> la = la \<and> (0 :: u16) = 0 \<and> ([] :: vcablk_request list) = [] \<and> rb_cnt_ok (unat (request_ring_nums d)) l)"
  proof (rule next_requests.raw_induct [rotated, where P = "\<lambda>d' la' l' c acc res'. \<not> (d' = d \<and> la' = la \<and> c = 0 \<and> acc = [] \<and>
      rb_cnt_ok (unat (request_ring_nums d)) l')", OF Some])
    fix nx d' la' l' c acc res'
    let ?n = "unat (request_ring_nums d)"
    assume ih: "\<And>d' la' l' c acc res'. nx d' la' l' c acc = Some res' \<Longrightarrow>
        \<not> (d' = d \<and> la' = la \<and> c = 0 \<and> acc = [] \<and> rb_cnt_ok ?n l')"
      and r: "(if l' = la' \<or> VCABLK_MAX_PARTS_PER_REQUEST \<le> length acc then Some (l', acc)
        else let n = unat (request_ring_nums d'); r = elems (request_ring d') (VCA_RB_COUNTER_TO_IDX l' n);
            c' = if c = 0 then rq_cookie r else c
          in if c' = 0 then nx d' la' (VCA_RB_COUNTER_ADD l' 1 n) c' acc
             else if c' \<noteq> rq_cookie r then Some (l', acc) else nx d' la' (VCA_RB_COUNTER_ADD l' 1 n) c' (acc @ [r])) = Some res'"
    show "\<not> (d' = d \<and> la' = la \<and> c = 0 \<and> acc = [] \<and> rb_cnt_ok ?n l')"
    proof
      assume e: "d' = d \<and> la' = la \<and> c = 0 \<and> acc = [] \<and> rb_cnt_ok ?n l'"
      then have "l' \<noteq> la" using assms(2) by (auto simp: rb_cnt_ok_def)
      moreover have "rq_cookie (elems (request_ring d) (rb_pos ?n l')) = 0" using assms(1,4) e rb.pos_less by blast
      ultimately have "nx d la (rb_add ?n l' 1) 0 [] = Some res'"
        using r e by (simp add: Let_def rb_fold VCABLK_MAX_PARTS_PER_REQUEST_def)
      then show False using ih rb.add_ok [OF assms(1), of l' 1] e by blast
    qed
  qed
  then show ?thesis using assms(3) by blast
qed simp

section \<open>Copies\<close>

lemma blit_blit:
  "blit (blit m a src s k) (a + k) src (s + k) n = blit m a src s (k + n)"
  by (auto simp: blit_def fun_eq_iff)

text \<open>Without DMA: \<open>n\<close> bytes between bus address \<open>a\<close> and offset \<open>off\<close> of the medium.\<close>

definition moved :: "bool \<Rightarrow> nat \<Rightarrow> nat \<Rightarrow> nat \<Rightarrow> ('f, 'a) vcablk_bcknd_disk_scheme \<Rightarrow> ('f, 'a) vcablk_bcknd_disk_scheme" where
  "moved wr a off n d = (case bk_media d of Address _ \<Rightarrow> d
     | Object m \<Rightarrow> if wr then d\<lparr>bk_media := Object (m\<lparr>md_memory := blit (md_memory m) off (bus d) a n\<rparr>)\<rparr>
         else d\<lparr>bus := blit (bus d) a (md_memory m) off n\<rparr>)"

text \<open>An answer put into the ring of completions.\<close>

definition put_ack :: "u16 \<Rightarrow> int \<Rightarrow> ('f, 'a) vcablk_bcknd_disk_scheme \<Rightarrow> ('f, 'a) vcablk_bcknd_disk_scheme" where
  "put_ack c ret d = (let n = unat (completion_ring_num_elems d); q = completion_ring d
     in d\<lparr>completion_ring := q\<lparr>elems := (elems q)(rb_pos n (last_add q) := \<lparr>cp_cookie = c, cp_ret = of_int ret\<rparr>),
        last_add := rb_add n (last_add q) 1\<rparr>, done_interrupts := done_interrupts d + 1\<rparr>)"

definition ack_room :: "('f, 'a) vcablk_bcknd_disk_scheme \<Rightarrow> bool" where
  "ack_room d \<longleftrightarrow> \<not> VCA_RB_BUFF_FULL (last_add (completion_ring d)) (last_used (completion_ring d)) (unat (completion_ring_num_elems d))"

lemma send_response: "ack_room d \<Longrightarrow> vcablk_bcknd_disk_send_response others c ret d = (0, put_ack c ret d)"
  by (subst (asm) ack_room_def) (simp add: vcablk_bcknd_disk_send_response_def put_ack_def Let_def rb_fold)

text \<open>
  The back end without DMA and with a medium in memory: the items \<open>F\<close> of its pool are free, each with a
  page and no descriptor.
\<close>

definition transfer_pool_ok :: "transfer_parameters vcablk_pool \<Rightarrow> nat list \<Rightarrow> bool" where
  "transfer_pool_ok p F \<longleftrightarrow> pool_free p F \<and>
     (\<forall>j < unat (pl_num p). tp_buffer_size (items p j) = BUFFER_SIZE \<and> \<not> tp_tx (items p j))"

definition memory_disk :: "('f, 'a) vcablk_bcknd_disk_scheme \<Rightarrow> 'f vcablk_media \<Rightarrow> nat list \<Rightarrow> bool" where
  "memory_disk d m F \<longleftrightarrow> \<not> has_dma d \<and> bk_media d = Object m \<and> md_type m = VCABLK_DISK_TYPE_MEMORY \<and>
     transfer_pool_ok (transfer_buffer_pool d) F"

lemma sector_bytes: "unat x < 2 ^ 55 \<Longrightarrow> unat (push_bit SECTOR_SHIFT (x :: u64)) = unat x * 512"
  by (simp add: SECTOR_SHIFT_def push_bit_eq_mult unat_word_ariths)

end
