(* ===== verification/Blk_Transfer.thy ===== *)
theory Blk_Transfer
  imports Blk_Serve "HOL-Library.Multiset"
begin

text \<open>
  Transfers of the back end without DMA, on a medium in memory: what one part moves, that the parts make one
  copy, and what a group of requests does.
\<close>

definition ended :: "(u64 \<times> int) option \<Rightarrow> int \<Rightarrow> ('f, 'a) vcablk_bcknd_disk_scheme \<Rightarrow> ('f, 'a) vcablk_bcknd_disk_scheme" where
  "ended fin err d = (case fin of None \<Rightarrow> d
     | Some (rm, c) \<Rightarrow> (if 0 \<le> c then put_ack (of_int c) err else id) (d\<lparr>remaps := remaps d @ [Unmapped rm]\<rparr>))"

definition part_of :: "transfer_parameters \<Rightarrow> (u64 \<times> int) option \<Rightarrow> bool" where
  "part_of t fin \<longleftrightarrow> cb_response_cookie t = (case fin of None \<Rightarrow> - 1 | Some (r, c) \<Rightarrow> c) \<and> cb_remapped t = map_option fst fin"

lemma callback_end_free:
  assumes "pool_free (transfer_buffer_pool d) F" "j < unat (pl_num (transfer_buffer_pool d))" "j \<notin> set F"
    "part_of (tparam d j) fin" "\<And>r c. fin = Some (r, c) \<Longrightarrow> 0 \<le> c \<Longrightarrow> ack_room d"
  shows "\<exists>p. callback_end others j err d = Ret ((ended fin err d)\<lparr>transfer_buffer_pool := p\<rparr>) \<and> pool_free p (F @ [j]) \<and>
    pl_num p = pl_num (transfer_buffer_pool d) \<and>
    items p = (items (transfer_buffer_pool d))(j := (tparam d j)\<lparr>cb_remapped := None\<rparr>)"
proof -
  let ?P = "transfer_buffer_pool d"
  define it where "it = (items ?P)(j := (items ?P j)\<lparr>cb_remapped := None\<rparr>)"
  have it: "it = (items ?P)(j := (tparam d j)\<lparr>cb_remapped := None\<rparr>)" by (simp add: it_def tparam_def)
  have f': "pool_free (?P\<lparr>items := it\<rparr>) F" using assms(1) by (simp add: pool_free_def)
  obtain p where p: "vcablk_pool_push (Some j) (?P\<lparr>items := it\<rparr>) = Ret p" "pool_free p (F @ [j])"
      "pl_num p = pl_num ?P" "items p = it"
    using push_free [OF f', of j] assms(2,3) by auto
  have "callback_end others j err d = Ret ((ended fin err d)\<lparr>transfer_buffer_pool := p\<rparr>)"
  proof (cases fin)
    case None
    then have r: "cb_remapped (items ?P j) = None" "cb_response_cookie (items ?P j) = - 1"
      using assms(4) by (simp_all add: part_of_def tparam_def)
    have "(items ?P j)\<lparr>cb_remapped := None\<rparr> = items ?P j" using r(1) by (cases "items ?P j") simp
    then have "?P\<lparr>items := it\<rparr> = ?P" unfolding it_def by simp
    then show ?thesis using p(1) r None by (simp add: callback_end_def tparam_def Let_def ended_def)
  next
    case (Some x)
    then obtain rm c where x: "fin = Some (rm, c)" by (cases x) auto
    then have r: "cb_remapped (items ?P j) = Some rm" "cb_response_cookie (items ?P j) = c"
      using assms(4) by (simp_all add: part_of_def tparam_def)
    let ?d = "d\<lparr>remaps := remaps d @ [Unmapped rm], transfer_buffer_pool := ?P\<lparr>items := it\<rparr>\<rparr>"
    show ?thesis
    proof (cases "0 \<le> c")
      case True
      have "ack_room ?d" using assms(5) [OF x True] by (simp add: ack_room_def)
      from send_response [OF this, of others "of_int c" err] show ?thesis using True p(1) r x
        by (simp add: callback_end_def tparam_def Let_def ended_def set_tparam_def it_def put_ack_def)
    next
      case False
      then show ?thesis using p(1) r x
        by (simp add: callback_end_def tparam_def Let_def ended_def set_tparam_def it_def)
    qed
  qed
  then show ?thesis using p(2-4) it by blast
qed

lemma callback_end:
  assumes "transfer_pool_ok (transfer_buffer_pool d) F" "j < unat (pl_num (transfer_buffer_pool d))" "j \<notin> set F"
    "part_of (tparam d j) fin" "fin \<noteq> None \<Longrightarrow> ack_room d"
  shows "\<exists>p. callback_end others j err d = Ret ((ended fin err d)\<lparr>transfer_buffer_pool := p\<rparr>) \<and> transfer_pool_ok p (F @ [j]) \<and>
    pl_num p = pl_num (transfer_buffer_pool d)"
proof -
  have "pool_free (transfer_buffer_pool d) F" using assms(1) by (simp add: transfer_pool_ok_def)
  from callback_end_free [OF this assms(2-4), of others err] assms(5)
  obtain p where p: "callback_end others j err d = Ret ((ended fin err d)\<lparr>transfer_buffer_pool := p\<rparr>)" "pool_free p (F @ [j])"
    "pl_num p = pl_num (transfer_buffer_pool d)" "items p = (items (transfer_buffer_pool d))(j := (tparam d j)\<lparr>cb_remapped := None\<rparr>)"
    by auto
  have "transfer_pool_ok p (F @ [j])" using assms(1) p(2) unfolding transfer_pool_ok_def p(3,4) by (auto simp: tparam_def)
  then show ?thesis using p(1,3) by blast
qed

lemma blit_via: "blit dst a (blit b 0 src s n) 0 n = blit dst a src s n"
  by (auto simp: blit_def fun_eq_iff)

lemma ended_pool: "(ended fin err (d\<lparr>transfer_buffer_pool := q\<rparr>))\<lparr>transfer_buffer_pool := p\<rparr> = (ended fin err d)\<lparr>transfer_buffer_pool := p\<rparr>"
  by (simp add: ended_def put_ack_def Let_def split: option.splits)

lemma moved_pool: "moved wr a off n (d\<lparr>transfer_buffer_pool := q\<rparr>) = (moved wr a off n d)\<lparr>transfer_buffer_pool := q\<rparr>"
  by (auto simp: moved_def split: pointer.splits)

lemma ack_room_moved: "ack_room (moved wr a off n d) = ack_room d" "ack_room (d\<lparr>transfer_buffer_pool := q\<rparr>) = ack_room d"
  by (auto simp: moved_def ack_room_def split: pointer.splits)

lemma media_io_memory:
  assumes "bk_media d = Object m" "md_type m = VCABLK_DISK_TYPE_MEMORY" "tp_buffer_size (tparam d j) = BUFFER_SIZE"
    and "off = unat (push_bit SECTOR_SHIFT sector)" "n = unat (push_bit SECTOR_SHIFT nsec)" "off + n \<le> unat (md_size_bytes m)" "n \<le> 4096"
  shows "media_io j sector nsec wr d = Ret (0, if wr then d\<lparr>bk_media := Object (m\<lparr>md_memory := blit (md_memory m) off (tp_buffer (tparam d j)) 0 n\<rparr>)\<rparr>
    else set_tparam j (\<lambda>t. t\<lparr>tp_buffer := blit (tp_buffer t) 0 (md_memory m) off n\<rparr>) d)"
proof -
  let ?o = "push_bit SECTOR_SHIFT sector" and ?n = "push_bit SECTOR_SHIFT nsec"
  have "off + n < 2 ^ 64" using assms(6) unsigned_less [of "md_size_bytes m", where ?'a = nat] by simp
  then have "unat (?o + ?n) = off + n" using assms(4,5) by (simp add: unat_word_ariths)
  then have "\<not> md_size_bytes m < ?o + ?n" using assms(6) by (simp add: word_less_nat_alt)
  moreover have "\<not> unat (md_size_bytes m) < unat ?o + unat ?n" using assms(4-6) by simp
  moreover have "\<not> unat BUFFER_SIZE < unat ?n" using assms(5,7) by (simp add: BUFFER_SIZE_def)
  ultimately show ?thesis using assms(1-5)
    by (simp add: media_io_def vcablk_media_transfer_def media_transfer_mem_def Let_def set_tparam_def tparam_def)
qed

lemma transfer_part_memory:
  assumes "memory_disk d m F" "j < unat (pl_num (transfer_buffer_pool d))" "j \<notin> set F" "fin \<noteq> None \<Longrightarrow> ack_room d"
    and "off = unat (push_bit SECTOR_SHIFT sector)" "n = unat (push_bit SECTOR_SHIFT nsec)" "off + n \<le> unat (md_size_bytes m)" "n \<le> 4096"
  shows "\<exists>p. transfer_part others j sector nsec a wr fin d = Ret (0, (ended fin 0 (moved wr a off n d))\<lparr>transfer_buffer_pool := p\<rparr>) \<and>
    transfer_pool_ok p (F @ [j]) \<and> pl_num p = pl_num (transfer_buffer_pool d)"
proof -
  note o = assms(1) [unfolded memory_disk_def]
  let ?P = "transfer_buffer_pool d"
  have sz: "tp_buffer_size (items ?P j) = BUFFER_SIZE" "\<not> tp_tx (items ?P j)"
    using o assms(2) by (simp_all add: transfer_pool_ok_def)
  define t where "t = (items ?P j)\<lparr>cb_response_cookie := (case fin of None \<Rightarrow> - 1 | Some (r, c) \<Rightarrow> c), cb_remapped := map_option fst fin,
    cb_sector := sector, cb_nsec := nsec, tp_buffer := (if wr then blit (tp_buffer (items ?P j)) 0 (bus d) a n
      else blit (tp_buffer (items ?P j)) 0 (md_memory m) off n)\<rparr>"
  have tt: "t\<lparr>tp_tx := False\<rparr> = t" by (rule transfer_parameters.equality) (simp_all add: t_def sz)
  have ts: "cb_sector t = sector" "cb_nsec t = nsec" by (simp_all add: t_def)
  let ?Q = "?P\<lparr>items := (items ?P)(j := t)\<rparr>"
  let ?d = "moved wr a off n (d\<lparr>transfer_buffer_pool := ?Q\<rparr>)"
  have e: "transfer_part others j sector nsec a wr fin d = (case callback_end others j 0 ?d of Abort \<Rightarrow> Abort | Ret d' \<Rightarrow> Ret (0, d'))"
  proof (cases wr)
    case True
    have "transfer_part others j sector nsec a True fin d =
        (case vca_bcknd_callback_write others j (d\<lparr>transfer_buffer_pool := ?Q\<rparr>)
          of Abort \<Rightarrow> Abort | Ret d' \<Rightarrow> Ret (0, d'))"
      using True o assms(6) by (simp add: transfer_part_def vcablk_bcknd_transfer_device_def transfer_callback_def bus_to_buffer_def
          set_tparam_def tparam_def t_def Let_def)
    also have "vca_bcknd_callback_write others j (d\<lparr>transfer_buffer_pool := ?Q\<rparr>) =
        (case media_io j sector nsec True (d\<lparr>transfer_buffer_pool := ?Q\<rparr>) of Abort \<Rightarrow> Abort | Ret (err, d') \<Rightarrow> callback_end others j err d')"
      by (simp add: vca_bcknd_callback_write_def set_tparam_def tparam_def tt ts Let_def)
    also have "media_io j sector nsec True (d\<lparr>transfer_buffer_pool := ?Q\<rparr>) = Ret (0, ?d)"
      using o sz True by (subst media_io_memory [OF _ _ _ assms(5) assms(6) assms(7) assms(8)]) (simp_all add: tparam_def t_def moved_def blit_via)
    finally show ?thesis using True by simp
  next
    case False
    have "transfer_part others j sector nsec a False fin d =
        (case vca_bcknd_callback_read others j (moved wr a off n (d\<lparr>transfer_buffer_pool := ?Q\<rparr>)) of Abort \<Rightarrow> Abort | Ret d' \<Rightarrow> Ret (0, d'))"
      using False o sz by (simp add: transfer_part_def media_io_memory [OF _ _ _ assms(5) assms(6) assms(7) assms(8)] vcablk_bcknd_transfer_device_def
          transfer_callback_def buffer_to_bus_def set_tparam_def tparam_def t_def Let_def moved_def blit_via assms(6) [symmetric])
    also have "vca_bcknd_callback_read others j (moved wr a off n (d\<lparr>transfer_buffer_pool := ?Q\<rparr>)) =
        callback_end others j 0 ?d"
      using False o by (simp add: vca_bcknd_callback_read_def set_tparam_def moved_pool tt)
    finally show ?thesis using False by simp
  qed
  have pf: "transfer_pool_ok ?Q F"
    using o sz assms(2) unfolding transfer_pool_ok_def by (auto simp: pool_free_def t_def)
  have pt: "part_of (tparam ?d j) fin" unfolding moved_pool by (simp add: part_of_def tparam_def t_def)
  have "\<exists>p. callback_end others j 0 ?d = Ret ((ended fin 0 ?d)\<lparr>transfer_buffer_pool := p\<rparr>) \<and> transfer_pool_ok p (F @ [j]) \<and> pl_num p = pl_num (transfer_buffer_pool ?d)"
    using pf pt assms(2-4) by (intro callback_end) (simp_all add: moved_pool ack_room_moved)
  then obtain p where p: "callback_end others j 0 ?d = Ret ((ended fin 0 ?d)\<lparr>transfer_buffer_pool := p\<rparr>)"
    "transfer_pool_ok p (F @ [j])" "pl_num p = pl_num ?P" by (auto simp: moved_pool)
  have "ended fin 0 ?d\<lparr>transfer_buffer_pool := p\<rparr> = (ended fin 0 (moved wr a off n d))\<lparr>transfer_buffer_pool := p\<rparr>"
    unfolding moved_pool by (rule ended_pool)
  then show ?thesis using e p by auto
qed

text \<open>A request for an item is granted at once while two are free.\<close>

lemma get_param:
  assumes "transfer_pool_ok (transfer_buffer_pool d) (x # y # ys)"
  shows "\<exists>p. vcablk_bcknd_get_transfer_param others d = Some (Ret (Some x, d\<lparr>transfer_buffer_pool := p\<rparr>)) \<and>
    transfer_pool_ok p (y # ys) \<and> pl_num p = pl_num (transfer_buffer_pool d) \<and> x < unat (pl_num p) \<and> x \<notin> set (y # ys)"
proof -
  let ?P = "transfer_buffer_pool d"
  have f: "pool_free ?P (x # y # ys)" using assms by (simp add: transfer_pool_ok_def)
  obtain q where q: "vcablk_pool_pop ?P = (Some x, q)" "pool_free q (y # ys)" "pl_num q = pl_num ?P" "items q = items ?P"
    using pop_free [OF f] by auto
  have x: "x < unat (pl_num ?P)" "x \<notin> set (y # ys)" using pool_freeD [OF f] by auto
  have tx: "\<not> tp_tx (items ?P x)" using assms x by (simp add: transfer_pool_ok_def)
  have "vcablk_bcknd_get_transfer_param others d = Some (Ret (Some x, d\<lparr>transfer_buffer_pool := q\<rparr>))"
    using tx q(1,4) by (subst vcablk_bcknd_get_transfer_param.simps) (simp add: tparam_def Let_def)
  moreover have "transfer_pool_ok q (y # ys)" using q assms by (auto simp: transfer_pool_ok_def)
  ultimately show ?thesis using q(3) x by metis
qed

text \<open>A transfer, whatever the number of its parts, is one copy; the last part ends it.\<close>

lemma moved_moved: "moved wr (a + k) (off + k) n (moved wr a off k d) = moved wr a off (k + n) d"
  by (cases "bk_media d"; cases wr) (simp_all add: moved_def blit_blit)

lemma transfer_loop_memory:
  assumes "memory_disk d m F" "2 \<le> length F" "ack_room d" "left \<noteq> 0"
    and "(unat sector + unat left) * 512 \<le> unat (md_size_bytes m)"
  shows "\<exists>p F'. transfer_loop others rm sector left a wr c d =
      Some (Ret (0, (ended (Some (rm, c)) 0 (moved wr a (unat sector * 512) (unat left * 512) d))\<lparr>transfer_buffer_pool := p\<rparr>)) \<and>
    transfer_pool_ok p F' \<and> mset F' = mset F \<and> pl_num p = pl_num (transfer_buffer_pool d)"
  using assms
proof (induction "unat left" arbitrary: left sector a d m F rule: less_induct)
  case less
  note o = less.prems(1) [unfolded memory_disk_def]
  obtain x y ys where F: "F = x # y # ys" using less.prems(2) by (cases F; cases "tl F") auto
  have tp: "transfer_pool_ok (transfer_buffer_pool d) (x # y # ys)" using o F by simp
  from get_param [OF tp, of others]
  obtain p where p: "vcablk_bcknd_get_transfer_param others d = Some (Ret (Some x, d\<lparr>transfer_buffer_pool := p\<rparr>))"
    "transfer_pool_ok p (y # ys)" "pl_num p = pl_num (transfer_buffer_pool d)" "x < unat (pl_num p)" "x \<notin> set (y # ys)"
    by blast
  define nsec where "nsec = min left 8"
  have nsec: "unat nsec = min (unat left) 8" "nsec \<le> left"
    by (cases "left \<le> 8"; simp add: nsec_def word_le_nat_alt)+
  have lpos: "0 < unat left" using less.prems(4) by (simp add: word_neq_0_conv word_less_nat_alt)
  let ?off = "unat sector * 512" and ?n = "unat nsec * 512"
  have sz: "(unat sector + unat left) * 512 < 2 ^ 64"
    using less.prems(5) unsigned_less [of "md_size_bytes m", where ?'a = nat] by simp
  have pb: "?off = unat (push_bit SECTOR_SHIFT sector)" "?n = unat (push_bit SECTOR_SHIFT nsec)"
    using sz nsec(1) by (simp_all add: sector_bytes)
  have bd: "?off + ?n \<le> unat (md_size_bytes m)" "?n \<le> 4096" using less.prems(5) nsec(1) by auto
  let ?d = "d\<lparr>transfer_buffer_pool := p\<rparr>" and ?fin = "if left - nsec = 0 then Some (rm, c) else None"
  have md: "memory_disk ?d m (y # ys)" using o p(2) by (simp add: memory_disk_def)
  have "\<exists>q. transfer_part others x sector nsec a wr ?fin ?d = Ret (0, (ended ?fin 0 (moved wr a ?off ?n ?d))\<lparr>transfer_buffer_pool := q\<rparr>) \<and>
      transfer_pool_ok q ((y # ys) @ [x]) \<and> pl_num q = pl_num (transfer_buffer_pool ?d)"
    using p(4,5) less.prems(3) by (intro transfer_part_memory [OF md _ _ _ pb bd]) (simp_all add: ack_room_moved)
  then obtain q where q: "transfer_part others x sector nsec a wr ?fin ?d =
      Ret (0, (ended ?fin 0 (moved wr a ?off ?n d))\<lparr>transfer_buffer_pool := q\<rparr>)"
    "transfer_pool_ok q (y # ys @ [x])" "pl_num q = pl_num (transfer_buffer_pool d)"
    using p(3) by (auto simp: moved_pool ended_pool)
  have bs: "drop_bit SECTOR_SHIFT (tp_buffer_size (tparam ?d x)) = 8"
    using p(2,4) by (simp add: tparam_def transfer_pool_ok_def BUFFER_SIZE_def SECTOR_SHIFT_def)
  have step: "transfer_loop others rm sector left a wr c d =
      transfer_loop others rm (sector + nsec) (left - nsec) (a + ?n) wr c ((ended ?fin 0 (moved wr a ?off ?n d))\<lparr>transfer_buffer_pool := q\<rparr>)"
    using less.prems(4) p(1) q(1) bs pb(2) by (subst transfer_loop.simps) (simp add: Let_def nsec_def)
  have ms: "mset (y # ys @ [x]) = mset F" using F by simp
  show ?case
  proof (cases "left - nsec = 0")
    case True
    then have e: "nsec = left" by simp
    have "transfer_loop others rm sector left a wr c d = Some (Ret (0, (ended (Some (rm, c)) 0 (moved wr a ?off ?n d))\<lparr>transfer_buffer_pool := q\<rparr>))"
      unfolding step using True by (subst transfer_loop.simps) simp
    then show ?thesis using q(2,3) ms unfolding e by blast
  next
    case False
    let ?e = "(moved wr a ?off ?n d)\<lparr>transfer_buffer_pool := q\<rparr>"
    have ul: "unat (left - nsec) = unat left - unat nsec" using nsec(2) by (simp add: unat_sub)
    have us: "unat (sector + nsec) = unat sector + unat nsec" using sz nsec(1) by (intro unat_add_lem [THEN iffD1]) auto
    obtain m' where m': "memory_disk ?e m' (y # ys @ [x])" "md_size_bytes m' = md_size_bytes m"
      using o q(2) by (cases wr) (auto simp: memory_disk_def moved_def)
    have "\<exists>p F'. transfer_loop others rm (sector + nsec) (left - nsec) (a + ?n) wr c ?e = Some (Ret (0, (ended (Some (rm, c)) 0
          (moved wr (a + ?n) (unat (sector + nsec) * 512) (unat (left - nsec) * 512) ?e))\<lparr>transfer_buffer_pool := p\<rparr>)) \<and>
        transfer_pool_ok p F' \<and> mset F' = mset (y # ys @ [x]) \<and> pl_num p = pl_num (transfer_buffer_pool ?e)"
      using m' False less.prems(2,3,5) F lpos nsec ul us
      by (intro less.hyps [OF _ m'(1)]) (simp_all add: ack_room_moved)
    moreover have "moved wr (a + ?n) (unat (sector + nsec) * 512) (unat (left - nsec) * 512) (moved wr a ?off ?n d) =
        moved wr a ?off (unat left * 512) d"
      unfolding us ul using moved_moved [of wr a ?n ?off "(unat left - unat nsec) * 512" d] nsec(1) by (simp add: algebra_simps)
    moreover have "ended ?fin 0 (moved wr a ?off ?n d)\<lparr>transfer_buffer_pool := q\<rparr> = ?e" using False by (simp add: ended_def)
    ultimately show ?thesis unfolding step using ms q(3) by (auto simp: moved_pool ended_pool)
  qed
qed

section \<open>Groups\<close>

text \<open>The effect of a request that succeeds, apart from the answer: one copy and one mapping.\<close>

definition served :: "vcablk_request \<Rightarrow> ('f, 'a) vcablk_bcknd_disk_scheme \<Rightarrow> ('f, 'a) vcablk_bcknd_disk_scheme" where
  "served r d = (if request_type r = REQUEST_SYNC then d
     else let n = unat (rq_sectors_num r) * 512
       in (moved (request_type r = REQUEST_WRITE) (unat (phys_buff r)) (unat (rq_sector r) * 512) n d)
            \<lparr>remaps := remaps d @ [Remapped (phys_buff r) (of_nat n), Unmapped (phys_buff r)]\<rparr>)"

text \<open>A flush, or a transfer of some sectors of the medium whose memory can be mapped.\<close>

definition request_fits :: "('f, 'a) vcablk_bcknd_disk_scheme \<Rightarrow> u64 \<Rightarrow> vcablk_request \<Rightarrow> bool" where
  "request_fits d sz r \<longleftrightarrow> request_type r = REQUEST_SYNC \<or>
     (request_type r = REQUEST_READ \<or> request_type r = REQUEST_WRITE) \<and> rq_sectors_num r \<noteq> 0 \<and>
     (unat (rq_sector r) + unat (rq_sectors_num r)) * 512 \<le> unat sz \<and>
     (\<forall>k. can_remap d k (phys_buff r) (of_nat (unat (rq_sectors_num r) * 512)))"

lemma push_sectors: "push_bit SECTOR_SHIFT (n :: u64) = of_nat (unat n * 512)"
  by (simp add: SECTOR_SHIFT_def push_bit_eq_mult)

lemma request_step_memory:
  assumes "memory_disk d m F" "2 \<le> length F" "ack_room d" "request_fits d (md_size_bytes m) r"
  shows "\<exists>p F'. vcablk_bcknd_disk_request_step others r c d = Some (Ret (0,
      ((if 0 \<le> c \<and> request_type r \<noteq> REQUEST_SYNC then put_ack (of_int c) 0 else id) (served r d))\<lparr>transfer_buffer_pool := p\<rparr>)) \<and>
    transfer_pool_ok p F' \<and> mset F' = mset F \<and> pl_num p = pl_num (transfer_buffer_pool d)"
proof (cases "request_type r = REQUEST_SYNC")
  case True
  have "vcablk_bcknd_disk_request_step others r c d = Some (Ret (0, d\<lparr>transfer_buffer_pool := transfer_buffer_pool d\<rparr>))"
    using True assms(1) by (simp add: vcablk_bcknd_disk_request_step_def memory_disk_def vcablk_media_sync_def)
  then show ?thesis using True assms(1) unfolding served_def memory_disk_def by (intro exI [of _ "transfer_buffer_pool d"] exI [of _ F]) simp
next
  case False
  let ?n = "rq_sectors_num r" and ?s = "rq_sector r" and ?a = "phys_buff r" and ?w = "request_type r = REQUEST_WRITE"
  have f: "request_type r = REQUEST_READ \<or> ?w" "?n \<noteq> 0" "(unat ?s + unat ?n) * 512 \<le> unat (md_size_bytes m)"
    "\<And>k. can_remap d k ?a (of_nat (unat ?n * 512))" using assms(4) False by (auto simp: request_fits_def)
  note pn = push_sectors [of ?n]
  let ?d = "d\<lparr>remaps := remaps d @ [Remapped ?a (of_nat (unat ?n * 512))]\<rparr>"
  have md: "memory_disk ?d m F" and ar: "ack_room ?d" using assms(1,3) by (simp_all add: memory_disk_def ack_room_def)
  obtain p F' where p: "transfer_loop others ?a ?s ?n (unat ?a) ?w c ?d =
      Some (Ret (0, (ended (Some (?a, c)) 0 (moved ?w (unat ?a) (unat ?s * 512) (unat ?n * 512) ?d))\<lparr>transfer_buffer_pool := p\<rparr>))"
    "transfer_pool_ok p F'" "mset F' = mset F" "pl_num p = pl_num (transfer_buffer_pool d)"
    using transfer_loop_memory [OF md assms(2) ar f(2,3), of others ?a "unat ?a" ?w c] by auto
  have "vcablk_bcknd_disk_request_step others r c d =
      Some (Ret (0, (ended (Some (?a, c)) 0 (moved ?w (unat ?a) (unat ?s * 512) (unat ?n * 512) ?d))\<lparr>transfer_buffer_pool := p\<rparr>))"
    using False f(1,4) p(1) by (auto simp add: vcablk_bcknd_disk_request_step_def vcablk_bcknd_transfer_def pn Let_def)
  moreover have "ended (Some (?a, c)) 0 (moved ?w (unat ?a) (unat ?s * 512) (unat ?n * 512) ?d) =
      (if 0 \<le> c \<and> request_type r \<noteq> REQUEST_SYNC then put_ack (of_int c) 0 else id) (served r d)"
    using False by (cases "bk_media d") (simp_all add: ended_def served_def moved_def Let_def)
  ultimately show ?thesis using p(2-4) by metis
qed

lemma served_pool: "served r (d\<lparr>transfer_buffer_pool := p\<rparr>) = (served r d)\<lparr>transfer_buffer_pool := p\<rparr>"
  by (simp add: served_def moved_pool Let_def)

lemma put_ack_pool: "put_ack c e (d\<lparr>transfer_buffer_pool := p\<rparr>) = (put_ack c e d)\<lparr>transfer_buffer_pool := p\<rparr>"
  by (simp add: put_ack_def Let_def)

lemma fold_served_pool: "fold served rs (d\<lparr>transfer_buffer_pool := p\<rparr>) = (fold served rs d)\<lparr>transfer_buffer_pool := p\<rparr>"
  by (induction rs arbitrary: d) (simp_all add: served_pool)

lemma served_keeps:
  assumes "memory_disk d m F"
  shows "\<exists>m'. memory_disk (served r d) m' F \<and> md_size_bytes m' = md_size_bytes m" "ack_room (served r d) = ack_room d"
    "can_remap (served r d) = can_remap d"
  using assms by (auto simp: served_def moved_def memory_disk_def ack_room_def Let_def)

text \<open>The answer of a group that succeeds; a flush at its end has none.\<close>

definition group_answer :: "vcablk_request list \<Rightarrow> ('f, 'a) vcablk_bcknd_disk_scheme \<Rightarrow> ('f, 'a) vcablk_bcknd_disk_scheme" where
  "group_answer rs = (if request_type (last rs) = REQUEST_SYNC then id else put_ack (rq_cookie (last rs)) 0)"

lemma request_loop_memory:
  assumes "memory_disk d m F" "2 \<le> length F" "ack_room d" "rs \<noteq> []"
    and "\<And>r. r \<in> set rs \<Longrightarrow> request_fits d (md_size_bytes m) r" "\<And>r. r \<in> set rs \<Longrightarrow> rq_cookie r = ck"
    and "ck \<noteq> 0" "c = 0 \<or> c = ck"
  shows "\<exists>p F'. request_loop others c rs d = Some (Ret (0, ck, (group_answer rs (fold served rs d))\<lparr>transfer_buffer_pool := p\<rparr>)) \<and>
    transfer_pool_ok p F' \<and> mset F' = mset F \<and> pl_num p = pl_num (transfer_buffer_pool d)"
  using assms
proof (induction rs arbitrary: d m F c)
  case (Cons r rs)
  let ?rc = "if rs = [] then int (unat ck) else - 1"
  have rk: "rq_cookie r = ck" "(if c = 0 then rq_cookie r else c) = ck" using Cons.prems(6,8) by auto
  obtain p F' where p: "vcablk_bcknd_disk_request_step others r ?rc d = Some (Ret (0,
      ((if 0 \<le> ?rc \<and> request_type r \<noteq> REQUEST_SYNC then put_ack (of_int ?rc) 0 else id) (served r d))\<lparr>transfer_buffer_pool := p\<rparr>))"
    "transfer_pool_ok p F'" "mset F' = mset F" "pl_num p = pl_num (transfer_buffer_pool d)"
    using request_step_memory [OF Cons.prems(1-3), of r others ?rc] Cons.prems(5) [of r] by auto
  show ?case
  proof (cases "rs = []")
    case True
    have "of_int (int (unat ck)) = ck" by simp
    then have "request_loop others c (r # rs) d = Some (Ret (0, ck, (group_answer (r # rs) (fold served (r # rs) d))\<lparr>transfer_buffer_pool := p\<rparr>))"
      using True p(1) rk by (simp add: group_answer_def del: of_nat_unat)
    then show ?thesis using p(2-4) by blast
  next
    case False
    let ?d = "(served r d)\<lparr>transfer_buffer_pool := p\<rparr>"
    obtain m' where m': "memory_disk (served r d) m' F" "md_size_bytes m' = md_size_bytes m"
      using served_keeps(1) [OF Cons.prems(1)] by blast
    have md: "memory_disk ?d m' F'" using m' p(2) by (simp add: memory_disk_def)
    have "length F' = length F" using p(3) by (metis size_mset)
    then have l: "2 \<le> length F'" using Cons.prems(2) by simp
    have ar: "ack_room ?d" using served_keeps(2) [OF Cons.prems(1)] Cons.prems(3) by (simp add: ack_room_moved)
    have rf: "request_fits ?d (md_size_bytes m') x" if "x \<in> set rs" for x
      using Cons.prems(5) [of x] that served_keeps(3) [OF Cons.prems(1)] m'(2) by (simp add: request_fits_def)
    have "\<exists>p' F''. request_loop others ck rs ?d = Some (Ret (0, ck, (group_answer rs (fold served rs ?d))\<lparr>transfer_buffer_pool := p'\<rparr>)) \<and>
        transfer_pool_ok p' F'' \<and> mset F'' = mset F' \<and> pl_num p' = pl_num (transfer_buffer_pool ?d)"
      using False rf Cons.prems(6,7) by (intro Cons.IH [OF md l ar]) simp_all
    then obtain p' F'' where q: "request_loop others ck rs ?d = Some (Ret (0, ck, (group_answer rs (fold served rs ?d))\<lparr>transfer_buffer_pool := p'\<rparr>))"
      "transfer_pool_ok p' F''" "mset F'' = mset F" "pl_num p' = pl_num (transfer_buffer_pool d)" using p(3,4) by auto
    have "request_loop others c (r # rs) d = request_loop others ck rs ?d"
      using p(1) rk False by (simp add: Let_def)
    also have "group_answer rs (fold served rs ?d)\<lparr>transfer_buffer_pool := p'\<rparr> =
        (group_answer (r # rs) (fold served (r # rs) d))\<lparr>transfer_buffer_pool := p'\<rparr>"
      using False by (simp add: group_answer_def fold_served_pool put_ack_pool)
    ultimately show ?thesis using q by auto
  qed
qed simp

end
