(* ===== verification/Blk_System.thy ===== *)
theory Blk_System
  imports Blk_Transfer
begin

text \<open>
  Front end and back end of a disk together. The machine interleaves the operations of the two sides; the
  thread of the front end, which sleeps while it writes requests, is interrupted in each sleep by a script
  of operations of the others. History variables say what is under way: groups of requests that are
  published and not yet taken (\<open>posted\<close>), contexts whose group was taken and not answered (\<open>owed\<close>), and
  answers the front end has not seen (\<open>answers\<close>).
\<close>

section \<open>The machine\<close>

record 'f blk_sys = "'f vcablk_bcknd_disk" +
  posted :: "(nat \<times> vcablk_request list) list"
  owed :: "nat list"
  answers :: "(nat \<times> int) list"
  accepted :: "nat list"
  published :: "(bio \<times> vcablk_request list) list"
  taken :: "vcablk_request list list"
  crashed :: bool

text \<open>The requests a bio stands for: kind, first sector and number of sectors.\<close>

fun segment_requests :: "u8 \<Rightarrow> u64 \<Rightarrow> bio_vec list \<Rightarrow> (u8 \<times> u64 \<times> u64) list" where
  "segment_requests k sector [] = []"
| "segment_requests k sector (v # vs) = (k, sector, segment_sectors v) # segment_requests k (sector + segment_sectors v) vs"

definition flush_requests :: "bool \<Rightarrow> (u8 \<times> u64 \<times> u64) list" where
  "flush_requests f = (if f then [(REQUEST_SYNC, 0, 0)] else [])"

definition bio_requests :: "bio \<Rightarrow> (u8 \<times> u64 \<times> u64) list" where
  "bio_requests b = flush_requests (bi_flush b) @
     segment_requests (if bi_write b then REQUEST_WRITE else REQUEST_READ) (bi_sector b) (bi_segs b) @
     flush_requests (bi_flush b)"

definition request_view :: "vcablk_request \<Rightarrow> u8 \<times> u64 \<times> u64" where
  "request_view r = (if request_type r = REQUEST_SYNC then (REQUEST_SYNC, 0, 0)
     else (request_type r, rq_sector r, rq_sectors_num r))"

text \<open>
  The operations of the others: the back end takes a group, it answers one, the front end handles the
  answers, a new bio arrives.
\<close>

datatype side_op = Take | Answer nat int | Handle | New_bio u32 u32 bio

fun side_guard :: "'f blk_sys \<Rightarrow> side_op \<Rightarrow> bool" where
  "side_guard s Take \<longleftrightarrow> True"
| "side_guard s (Answer i e) \<longleftrightarrow> i \<in> set (owed s)"
| "side_guard s Handle \<longleftrightarrow> True"
| "side_guard s (New_bio on off b) \<longleftrightarrow> length (bio_requests b) \<le> VCABLK_MAX_PARTS_PER_REQUEST \<and> request_bio_count s < on"

fun side_step :: "side_op \<Rightarrow> 'f blk_sys \<Rightarrow> 'f blk_sys outcome" where
  "side_step Take s = (case vcablk_bcknd_disk_get_next_request s of None \<Rightarrow> Abort
     | Some (rs, s') \<Rightarrow> Ret (if rs = [] then s' else s'\<lparr>posted := tl (posted s'), owed := owed s' @ [unat (rq_cookie (hd rs)) - 1],
         taken := taken s' @ [rs]\<rparr>))"
| "side_step (Answer i e) s = (case vcablk_bcknd_disk_send_response (\<lambda>_. id) (of_nat (i + 1)) e s of (err, s') \<Rightarrow>
     if err \<noteq> 0 then Abort else Ret (s'\<lparr>owed := remove1 i (owed s'), answers := answers s' @ [(i, e)]\<rparr>))"
| "side_step Handle s = (case vcablk_disk_request_completion_handler s of None \<Rightarrow> Abort | Some Abort \<Rightarrow> Abort
     | Some (Ret s') \<Rightarrow> Ret (s'\<lparr>answers := []\<rparr>))"
| "side_step (New_bio on off b) s = (case vcablk_disk_make_request (\<lambda>_. id) on off b s of None \<Rightarrow> Abort
     | Some s' \<Rightarrow> Ret (s'\<lparr>accepted := accepted s' @ [bio_id b]\<rparr>))"

text \<open>During a sleep: the operations of the script that are possible. A failure is remembered.\<close>

fun side_run :: "side_op list \<Rightarrow> 'f blk_sys \<Rightarrow> 'f blk_sys" where
  "side_run [] s = s"
| "side_run (x # xs) s = side_run xs (if side_guard s x then (case side_step x s of Ret s' \<Rightarrow> s' | Abort \<Rightarrow> s\<lparr>crashed := True\<rparr>) else s)"

datatype blk_op = Side side_op | Transfer "side_op list list"

definition script_sleeps :: "side_op list list \<Rightarrow> nat \<Rightarrow> nat \<Rightarrow> 'f blk_sys \<Rightarrow> 'f blk_sys" where
  "script_sleeps scr start k = side_run (if k - start < length scr then scr ! (k - start) else [])"

text \<open>What a transfer has put into the ring.\<close>

definition new_requests :: "'f blk_sys \<Rightarrow> 'f blk_sys \<Rightarrow> vcablk_request list" where
  "new_requests s s' = rb.window (elems (request_ring s')) 0 (rq_num s') (last_add (request_ring s)) (last_add (request_ring s'))"

fun blk_step :: "blk_op \<Rightarrow> 'f blk_sys \<Rightarrow> 'f blk_sys outcome" where
  "blk_step (Side x) s = side_step x s"
| "blk_step (Transfer scr) s = (case vcablk_disk_make_request_thread (script_sleeps scr (sleeps s)) s of
     None \<Rightarrow> Abort | Some Abort \<Rightarrow> Abort
   | Some (Ret s') \<Rightarrow> let g = new_requests s s' in Ret (if g = [] then s'
       else s'\<lparr>posted := posted s' @ [(unat (rq_cookie (hd g)) - 1, g)], published := published s' @ [(hd (request_bio_list s), g)]\<rparr>))"

fun blk_guard :: "'f blk_sys \<Rightarrow> blk_op \<Rightarrow> bool" where
  "blk_guard s (Side x) \<longleftrightarrow> side_guard s x"
| "blk_guard s (Transfer scr) \<longleftrightarrow> True"

section \<open>The invariant\<close>

text \<open>The pages of a bio are linked from its context.\<close>

fun bvec_chain :: "bvec_context mem \<Rightarrow> nat option \<Rightarrow> nat list \<Rightarrow> bool" where
  "bvec_chain it p [] \<longleftrightarrow> p = None"
| "bvec_chain it p (j # js) \<longleftrightarrow> p = Some j \<and> bvec_chain it (bvc_next (it j)) js"

fun mapping :: "page_event \<Rightarrow> (u64 \<times> u64 \<times> dma_data_direction) list" where
  "mapping (Page_mapped a n d) = [(a, n, d)]"
| "mapping (Page_unmapped a n d) = []"

fun unmapping :: "page_event \<Rightarrow> (u64 \<times> u64 \<times> dma_data_direction) list" where
  "unmapping (Page_mapped a n d) = []"
| "unmapping (Page_unmapped a n d) = [(a, n, d)]"

definition page_of :: "bvec_context mem \<Rightarrow> nat \<Rightarrow> u64 \<times> u64 \<times> dma_data_direction" where
  "page_of it j = (bvc_dma_addr (it j), bvc_size (it j), bvc_dir (it j))"

text \<open>
  What the thread of the front end has in hand: nothing, a bio without a context, or a context, its bio
  and some requests written behind counter \<open>la\<close>, where the published ones end.
\<close>

datatype in_hand = Idle | Held nat u16 | Building nat nat u16 "vcablk_request list"

fun hand_ctx :: "in_hand \<Rightarrow> nat list" where
  "hand_ctx (Building i b la es) = [i]"
| "hand_ctx _ = []"

fun hand_bio :: "in_hand \<Rightarrow> nat list" where
  "hand_bio (Held b la) = [b]"
| "hand_bio _ = []"

definition under_way :: "in_hand \<Rightarrow> 'f blk_sys \<Rightarrow> nat list" where
  "under_way h s = map fst (posted s) @ owed s @ map fst (answers s) @ hand_ctx h"

definition ctx_cookie :: "nat \<Rightarrow> u16" where "ctx_cookie i = of_nat (i + 1)"

definition ack_of :: "nat \<times> int \<Rightarrow> vcablk_completion" where
  "ack_of a = (case a of (i, e) \<Rightarrow> \<lparr>cp_cookie = ctx_cookie i, cp_ret = of_int e\<rparr>)"

fun hand_ring :: "nat \<Rightarrow> in_hand \<Rightarrow> vcablk_request vcablk_ring \<Rightarrow> u16 \<Rightarrow> bool" where
  "hand_ring N (Building i b la es) r al \<longleftrightarrow> last_add r = la \<and> al = rb_add N la (length es) \<and>
     rb_used N (last_used r) la + length es \<le> N \<and> rb.window (elems r) 0 N la al = es"
| "hand_ring N (Held b la) r al \<longleftrightarrow> last_add r = la \<and> al = la"
| "hand_ring N Idle r al \<longleftrightarrow> al = last_add r"

fun hand_named :: "in_hand \<Rightarrow> vcablk_bio_context mem \<Rightarrow> bool" where
  "hand_named (Building i b la es) it \<longleftrightarrow> bc_bio (it i) = Some b"
| "hand_named _ it \<longleftrightarrow> True"

definition request_ring_inv :: "nat \<Rightarrow> in_hand \<Rightarrow> 'f blk_sys \<Rightarrow> bool" where
  "request_ring_inv N h s \<longleftrightarrow> (let r = request_ring s in
     rb_size_ok N \<and> rq_num s = N \<and> unat (request_ring_nums s) = N \<and> rb_cnt_ok N (last_used r) \<and> rb_cnt_ok N (last_add r) \<and>
     request_last_used s = last_used r \<and> rb_used N (last_used r) (last_add r) \<le> N \<and>
     rb.window (elems r) 0 N (last_used r) (last_add r) = concat (map snd (posted s)) \<and>
     (\<forall>(i, g) \<in> set (posted s). g \<noteq> [] \<and> length g \<le> VCABLK_MAX_PARTS_PER_REQUEST \<and> (\<forall>r \<in> set g. rq_cookie r = ctx_cookie i)) \<and>
     hand_ring N h r (request_ring_alloc s))"

definition completion_ring_inv :: "nat \<Rightarrow> 'f blk_sys \<Rightarrow> bool" where
  "completion_ring_inv M s \<longleftrightarrow> (let r = completion_ring s in
     rb_size_ok M \<and> cq_num s = M \<and> unat (completion_ring_num_elems s) = M \<and> rb_cnt_ok M (last_used r) \<and> rb_cnt_ok M (last_add r) \<and>
     unat (pl_num (bio_context_pool s)) \<le> M + 1 \<and>
     rb.window (elems r) 0 M (last_used r) (last_add r) = map ack_of (answers s))"

definition pools_inv :: "in_hand \<Rightarrow> 'f blk_sys \<Rightarrow> nat list \<Rightarrow> nat list \<Rightarrow> (nat \<Rightarrow> nat list) \<Rightarrow> bool" where
  "pools_inv h s F G ch \<longleftrightarrow> (let P = bio_context_pool s; Q = bvec_context_pool s; us = under_way h s in
     pool_free P F \<and> pool_free Q G \<and> mset (F @ us) = mset [0..<unat (pl_num P)] \<and>
     mset (G @ concat (map ch us)) = mset [0..<unat (pl_num Q)] \<and>
     (\<forall>i \<in> set us. bc_id (items P i) = ctx_cookie i \<and> bc_bio (items P i) \<noteq> None \<and>
        bvec_chain (items Q) (bc_bvctx (items P i)) (ch i)) \<and>
     mset (concat (map mapping (pages s))) =
       mset (concat (map unmapping (pages s))) + mset (map (page_of (items Q)) (concat (map ch us))) \<and>
     mset (accepted s) = mset (map bio_id (request_bio_list s)) + mset (map (\<lambda>i. the (bc_bio (items P i))) us) +
       mset (hand_bio h) + mset (map fst (bio_ends s)) \<and>
     hand_named h (items P))"

definition groups_inv :: "'f blk_sys \<Rightarrow> bool" where
  "groups_inv s \<longleftrightarrow> \<not> crashed s \<and> map snd (published s) = taken s @ map snd (posted s) \<and>
     (\<forall>(b, g) \<in> set (published s). map request_view g = bio_requests b) \<and>
     (\<forall>b \<in> set (request_bio_list s). length (bio_requests b) \<le> VCABLK_MAX_PARTS_PER_REQUEST)"

definition blk_inv :: "nat \<Rightarrow> nat \<Rightarrow> in_hand \<Rightarrow> 'f blk_sys \<Rightarrow> bool" where
  "blk_inv N M h s \<longleftrightarrow> request_ring_inv N h s \<and> completion_ring_inv M s \<and> groups_inv s \<and> (\<exists>F G ch. pools_inv h s F G ch)"

section \<open>Facts about the parts\<close>

lemma ctx_cookie: "i < 65535 \<Longrightarrow> ctx_cookie i \<noteq> 0 \<and> unat (ctx_cookie i) = i + 1 \<and> unat (ctx_cookie i - 1) = i"
proof -
  assume i: "i < 65535"
  then have u: "unat (ctx_cookie i) = i + 1" unfolding ctx_cookie_def by (simp add: unat_of_nat del: of_nat_add of_nat_Suc)
  then have "ctx_cookie i \<noteq> 0" by auto
  moreover have "unat (ctx_cookie i - 1) = i" unfolding ctx_cookie_def using i by (simp add: unat_of_nat)
  ultimately show ?thesis using u by simp
qed

lemma ack_of_pair [simp]: "ack_of (i, e) = \<lparr>cp_cookie = ctx_cookie i, cp_ret = of_int e\<rparr>"
  by (simp add: ack_of_def)

lemma bvec_chain_cong: "(\<And>j. j \<in> set js \<Longrightarrow> it j = it' j) \<Longrightarrow> bvec_chain it p js = bvec_chain it' p js"
  by (induction js arbitrary: p) auto

lemma page_of_cong: "(\<And>j. j \<in> set js \<Longrightarrow> it j = it' j) \<Longrightarrow> map (page_of it) js = map (page_of it') js"
  by (simp add: page_of_def)

text \<open>The pages of a chain are unmapped one by one and its items given back.\<close>

definition unmapped :: "bvec_context mem \<Rightarrow> nat \<Rightarrow> page_event" where
  "unmapped it j = Page_unmapped (bvc_dma_addr (it j)) (bvc_size (it j)) (bvc_dir (it j))"

lemma unmap_chain:
  "bvec_chain (items (bvec_context_pool d)) p js \<Longrightarrow> pool_free (bvec_context_pool d) G \<Longrightarrow> distinct (G @ js) \<Longrightarrow>
    (\<forall>j \<in> set js. j < unat (pl_num (bvec_context_pool d))) \<Longrightarrow>
    \<exists>q. unmap_chain p d = Some (Ret (d\<lparr>pages := pages d @ map (unmapped (items (bvec_context_pool d))) js, bvec_context_pool := q\<rparr>)) \<and>
      pool_free q (G @ js) \<and> items q = items (bvec_context_pool d) \<and> pl_num q = pl_num (bvec_context_pool d)"
proof (induction js arbitrary: p d G)
  case Nil
  then show ?case by (subst unmap_chain.simps, intro exI [of _ "bvec_context_pool d"]) simp
next
  case (Cons j js)
  let ?Q = "bvec_context_pool d"
  obtain q where q: "vcablk_pool_push (Some j) ?Q = Ret q" "pool_free q (G @ [j])" "pl_num q = pl_num ?Q" "items q = items ?Q"
    using push_free [of ?Q G j] Cons.prems by auto
  let ?d = "d\<lparr>pages := pages d @ [unmapped (items ?Q) j], bvec_context_pool := q\<rparr>"
  have "\<exists>q'. unmap_chain (bvc_next (items ?Q j)) ?d =
      Some (Ret (?d\<lparr>pages := pages ?d @ map (unmapped (items (bvec_context_pool ?d))) js, bvec_context_pool := q'\<rparr>)) \<and>
      pool_free q' ((G @ [j]) @ js) \<and> items q' = items (bvec_context_pool ?d) \<and> pl_num q' = pl_num (bvec_context_pool ?d)"
    using Cons.prems q by (intro Cons.IH) simp_all
  moreover have "unmap_chain p d = unmap_chain (bvc_next (items ?Q j)) ?d"
    using Cons.prems(1) q(1) by (subst unmap_chain.simps) (simp add: Let_def unmapped_def)
  ultimately show ?case using q(3,4) by auto
qed

lemma request_clean:
  assumes "pool_free (bio_context_pool d) F" "i < unat (pl_num (bio_context_pool d))" "i \<notin> set F"
    and "bvec_chain (items (bvec_context_pool d)) (bc_bvctx (items (bio_context_pool d) i)) js"
    and "pool_free (bvec_context_pool d) G" "distinct (G @ js)" "\<forall>j \<in> set js. j < unat (pl_num (bvec_context_pool d))"
  shows "\<exists>p q. vcablk_disk_request_clean i d = Some (Ret (d\<lparr>pages := pages d @ map (unmapped (items (bvec_context_pool d))) js,
      bvec_context_pool := q, bio_context_pool := p\<rparr>)) \<and>
    pool_free p (F @ [i]) \<and> items p = items (bio_context_pool d) \<and> pl_num p = pl_num (bio_context_pool d) \<and>
    pool_free q (G @ js) \<and> items q = items (bvec_context_pool d) \<and> pl_num q = pl_num (bvec_context_pool d)"
proof -
  obtain q where q: "unmap_chain (bc_bvctx (items (bio_context_pool d) i)) d =
      Some (Ret (d\<lparr>pages := pages d @ map (unmapped (items (bvec_context_pool d))) js, bvec_context_pool := q\<rparr>))"
    "pool_free q (G @ js)" "items q = items (bvec_context_pool d)" "pl_num q = pl_num (bvec_context_pool d)"
    using unmap_chain [OF assms(4-7)] by blast
  obtain p where p: "vcablk_pool_push (Some i) (bio_context_pool d) = Ret p" "pool_free p (F @ [i])"
    "pl_num p = pl_num (bio_context_pool d)" "items p = items (bio_context_pool d)"
    using push_free [OF assms(1-3)] by blast
  show ?thesis using p q by (auto simp: vcablk_disk_request_clean_def)
qed

lemma request_done:
  assumes "pool_free (bio_context_pool d) F" "i < unat (pl_num (bio_context_pool d))" "i \<notin> set F"
    and "bvec_chain (items (bvec_context_pool d)) (bc_bvctx (items (bio_context_pool d) i)) js"
    and "pool_free (bvec_context_pool d) G" "distinct (G @ js)" "\<forall>j \<in> set js. j < unat (pl_num (bvec_context_pool d))"
    and "bc_bio (items (bio_context_pool d) i) = Some b"
  shows "\<exists>p q. vcablk_disk_request_done (ctx_cookie i) ret d = Some (Ret (d\<lparr>pages := pages d @ map (unmapped (items (bvec_context_pool d))) js,
      bvec_context_pool := q, bio_context_pool := p, bio_ends := bio_ends d @ [(b, ret)]\<rparr>)) \<and>
    pool_free p (F @ [i]) \<and> items p = items (bio_context_pool d) \<and> pl_num p = pl_num (bio_context_pool d) \<and>
    pool_free q (G @ js) \<and> items q = items (bvec_context_pool d) \<and> pl_num q = pl_num (bvec_context_pool d)"
proof -
  have "i < 65535" using pool_freeD(1) [OF assms(1)] assms(2) by simp
  note c = ctx_cookie [OF this]
  have g: "vcablk_pool_get_by_id (bio_context_pool d) (ctx_cookie i - 1) = Some i"
    using get_by_id_free [OF assms(1), of "ctx_cookie i - 1"] c assms(2,3) by simp
  obtain p q where pq: "vcablk_disk_request_clean i d = Some (Ret (d\<lparr>pages := pages d @ map (unmapped (items (bvec_context_pool d))) js,
      bvec_context_pool := q, bio_context_pool := p\<rparr>))"
    "pool_free p (F @ [i])" "items p = items (bio_context_pool d)" "pl_num p = pl_num (bio_context_pool d)"
    "pool_free q (G @ js)" "items q = items (bvec_context_pool d)" "pl_num q = pl_num (bvec_context_pool d)"
    using request_clean [OF assms(1-7)] by blast
  have "vcablk_disk_request_done (ctx_cookie i) ret d = Some (Ret (d\<lparr>pages := pages d @ map (unmapped (items (bvec_context_pool d))) js,
      bvec_context_pool := q, bio_context_pool := p, bio_ends := bio_ends d @ [(b, ret)]\<rparr>))"
    using c g assms(8) pq(1) by (simp add: vcablk_disk_request_done_def vcablk_disk_bio_end_def)
  then show ?thesis using pq(2-7) by blast
qed

text \<open>The handler of completions ends the bios of all answers, in their order.\<close>

definition end_of :: "vcablk_bio_context mem \<Rightarrow> nat \<times> int \<Rightarrow> nat \<times> int" where
  "end_of it a = (case a of (i, e) \<Rightarrow> (the (bc_bio (it i)), int (unat (of_int e :: u8))))"

lemma completion_loop:
  assumes "rb_size_ok M" "cq_num d = M" "rb_cnt_ok M (last_used (completion_ring d))" "rb_cnt_ok M (last_add (completion_ring d))"
    and "rb_used M (last_used (completion_ring d)) (last_add (completion_ring d)) \<le> M"
    and "rb.window (elems (completion_ring d)) 0 M (last_used (completion_ring d)) (last_add (completion_ring d)) = map ack_of as"
    and "pool_free (bio_context_pool d) F" "distinct (F @ map fst as)" "\<forall>i \<in> set (map fst as). i < unat (pl_num (bio_context_pool d))"
    and "pool_free (bvec_context_pool d) G" "distinct (G @ concat (map ch (map fst as)))"
    and "\<forall>j \<in> set (concat (map ch (map fst as))). j < unat (pl_num (bvec_context_pool d))"
    and "\<forall>i \<in> set (map fst as). bc_bio (items (bio_context_pool d) i) \<noteq> None \<and>
      bvec_chain (items (bvec_context_pool d)) (bc_bvctx (items (bio_context_pool d) i)) (ch i)"
  shows "\<exists>p q cr. completion_loop (last_used (completion_ring d)) d = Some (Ret (d\<lparr>completion_ring := cr,
      pages := pages d @ map (unmapped (items (bvec_context_pool d))) (concat (map ch (map fst as))),
      bvec_context_pool := q, bio_context_pool := p, bio_ends := bio_ends d @ map (end_of (items (bio_context_pool d))) as\<rparr>)) \<and>
    pool_free p (F @ map fst as) \<and> items p = items (bio_context_pool d) \<and> pl_num p = pl_num (bio_context_pool d) \<and>
    pool_free q (G @ concat (map ch (map fst as))) \<and> items q = items (bvec_context_pool d) \<and> pl_num q = pl_num (bvec_context_pool d) \<and>
    num_elems cr = num_elems (completion_ring d) \<and> last_used cr = last_add (completion_ring d) \<and> last_add cr = last_add (completion_ring d)"
  using assms
proof (induction as arbitrary: d F G)
  case Nil
  have "last_used (completion_ring d) = last_add (completion_ring d)"
    using rb.used_zero_iff [OF Nil.prems(1,3,4)] Nil.prems(6) rb.length_window [of "elems (completion_ring d)" 0 M] by (metis length_0_conv map_is_Nil_conv)
  then show ?case using Nil.prems(7,10)
    by (subst completion_loop.simps) (auto intro!: exI [of _ "bvec_context_pool d"] exI [of _ "bio_context_pool d"] exI [of _ "completion_ring d"])
next
  case (Cons a as)
  obtain i e where a: "a = (i, e)" by (cases a)
  let ?r = "completion_ring d"
  let ?l = "last_used ?r" and ?la = "last_add ?r"
  have ne: "?l \<noteq> ?la" using rb.window_empty [OF Cons.prems(1,4), of "elems ?r" 0] Cons.prems(6) by auto
  note w = rb.window_Cons [OF Cons.prems(1,3,4) ne, of "elems ?r" 0]
  have ack: "elems ?r (rb_pos M ?l) = \<lparr>cp_cookie = ctx_cookie i, cp_ret = of_int e\<rparr>"
    and rest: "rb.window (elems ?r) 0 M (rb_add M ?l 1) ?la = map ack_of as"
    using w Cons.prems(6) a by simp_all
  let ?l' = "rb_add M ?l 1" and ?P = "bio_context_pool d" and ?Q = "bvec_context_pool d"
  define r' where "r' = ?r\<lparr>elems := (elems ?r)(rb_pos M ?l := \<lparr>cp_cookie = 0, cp_ret = 0\<rparr>), last_used := ?l'\<rparr>"
  have r': "elems r' = (elems ?r)(rb_pos M ?l := \<lparr>cp_cookie = 0, cp_ret = 0\<rparr>)" "last_used r' = ?l'" "last_add r' = ?la" "num_elems r' = num_elems ?r"
    by (simp_all add: r'_def)
  have l': "rb_cnt_ok M ?l'" by (rule rb.add_ok [OF Cons.prems(1,3)])
  have u': "Suc (rb_used M ?l' ?la) = rb_used M ?l ?la"
    using arg_cong [OF w, of length] by simp
  have rest': "rb.window (elems r') 0 M ?l' ?la = map ack_of as"
    unfolding rest [symmetric] r'(1)
  proof (rule rb.window_other)
    fix x assume "x < rb_used M ?l' ?la"
    then have "(rb_pos M ?l + 0) mod M \<noteq> (rb_pos M ?l + Suc x) mod M" using u' Cons.prems(5) by (intro mod_turn_neq) auto
    then show "rb_pos M ?l \<noteq> 0 + (rb_pos M ?l' + x) mod M"
      using rb.pos_less [OF Cons.prems(1,3)] by (simp add: rb.pos_add [OF Cons.prems(1,3)] mod_add_left_eq)
  qed
  let ?d1 = "d\<lparr>completion_ring := r'\<rparr>"
  have i: "i < unat (pl_num ?P)" "i \<notin> set F" "distinct (G @ ch i)" "\<forall>j \<in> set (ch i). j < unat (pl_num ?Q)"
    "bvec_chain (items ?Q) (bc_bvctx (items ?P i)) (ch i)" using Cons.prems(8,9,11,12,13) a by auto
  obtain b where b: "bc_bio (items ?P i) = Some b" using Cons.prems(13) a by auto
  obtain p q where pq: "vcablk_disk_request_done (ctx_cookie i) (int (unat (of_int e :: u8))) ?d1 =
      Some (Ret (?d1\<lparr>pages := pages d @ map (unmapped (items ?Q)) (ch i), bvec_context_pool := q, bio_context_pool := p,
        bio_ends := bio_ends d @ [(b, int (unat (of_int e :: u8)))]\<rparr>))"
    "pool_free p (F @ [i])" "items p = items ?P" "pl_num p = pl_num ?P"
    "pool_free q (G @ ch i)" "items q = items ?Q" "pl_num q = pl_num ?Q"
    using request_done [of ?d1 F i "ch i" G b "int (unat (of_int e :: u8))"] Cons.prems(7,10) i b by auto
  define d2 where "d2 = ?d1\<lparr>pages := pages d @ map (unmapped (items ?Q)) (ch i), bvec_context_pool := q, bio_context_pool := p,
        bio_ends := bio_ends d @ [(b, int (unat (of_int e :: u8)))]\<rparr>"
  have d2: "cq_num d2 = M" "completion_ring d2 = r'" "bvec_context_pool d2 = q" "bio_context_pool d2 = p"
    "pages d2 = pages d @ map (unmapped (items ?Q)) (ch i)" "bio_ends d2 = bio_ends d @ [end_of (items ?P) a]"
    using Cons.prems(2) b a by (simp_all add: d2_def cq_num_def r'(4) end_of_def)
  have step: "completion_loop ?l d = completion_loop ?l' d2"
    using ne ack Cons.prems(2) pq(1) by (subst completion_loop.simps) (simp add: Let_def rb_fold d2_def r'_def)
  have "\<exists>p' q' cr. completion_loop (last_used (completion_ring d2)) d2 = Some (Ret (d2\<lparr>completion_ring := cr,
      pages := pages d2 @ map (unmapped (items (bvec_context_pool d2))) (concat (map ch (map fst as))),
      bvec_context_pool := q', bio_context_pool := p', bio_ends := bio_ends d2 @ map (end_of (items (bio_context_pool d2))) as\<rparr>)) \<and>
    pool_free p' ((F @ [i]) @ map fst as) \<and> items p' = items (bio_context_pool d2) \<and> pl_num p' = pl_num (bio_context_pool d2) \<and>
    pool_free q' ((G @ ch i) @ concat (map ch (map fst as))) \<and> items q' = items (bvec_context_pool d2) \<and> pl_num q' = pl_num (bvec_context_pool d2) \<and>
    num_elems cr = num_elems (completion_ring d2) \<and> last_used cr = last_add (completion_ring d2) \<and> last_add cr = last_add (completion_ring d2)"
    using Cons.prems(1,4,5,8,9,11,12,13) l' u' rest' pq(2-7) a
    by (intro Cons.IH) (simp_all add: d2(1-4) r'(2,3))
  then obtain p' q' cr where res: "completion_loop ?l' d2 = Some (Ret (d2\<lparr>completion_ring := cr,
      pages := pages d2 @ map (unmapped (items ?Q)) (concat (map ch (map fst as))),
      bvec_context_pool := q', bio_context_pool := p', bio_ends := bio_ends d2 @ map (end_of (items ?P)) as\<rparr>))"
    "pool_free p' (F @ map fst (a # as))" "items p' = items ?P" "pl_num p' = pl_num ?P"
    "pool_free q' (G @ concat (map ch (map fst (a # as))))" "items q' = items ?Q" "pl_num q' = pl_num ?Q"
    "num_elems cr = num_elems ?r" "last_used cr = ?la" "last_add cr = ?la"
    using a unfolding d2 r' pq(3,4,6,7) by auto
  have "completion_loop ?l d = Some (Ret (d\<lparr>completion_ring := cr,
      pages := pages d @ map (unmapped (items ?Q)) (concat (map ch (map fst (a # as)))),
      bvec_context_pool := q', bio_context_pool := p', bio_ends := bio_ends d @ map (end_of (items ?P)) (a # as)\<rparr>))"
    unfolding step res(1) d2(5,6) using a by (simp add: d2_def)
  then show ?case using res(2-10) by blast
qed

end
