(* ===== verification/Blk_Side.thy ===== *)
theory Blk_Side
  imports Blk_System
begin

text \<open>Every operation of the others keeps the invariant, whatever the thread of the front end has in hand.\<close>

lemma pools_invD:
  assumes "pools_inv h s F G ch"
  shows "pool_free (bio_context_pool s) F" "pool_free (bvec_context_pool s) G"
    "mset (F @ under_way h s) = mset [0..<unat (pl_num (bio_context_pool s))]"
    "mset (G @ concat (map ch (under_way h s))) = mset [0..<unat (pl_num (bvec_context_pool s))]"
    "distinct (F @ under_way h s)" "distinct (G @ concat (map ch (under_way h s)))"
    "\<And>i. i \<in> set (under_way h s) \<Longrightarrow> i < unat (pl_num (bio_context_pool s))"
    "\<And>j. j \<in> set (concat (map ch (under_way h s))) \<Longrightarrow> j < unat (pl_num (bvec_context_pool s))"
    "\<And>i. i \<in> set (under_way h s) \<Longrightarrow> bc_id (items (bio_context_pool s) i) = ctx_cookie i \<and>
      bc_bio (items (bio_context_pool s) i) \<noteq> None \<and>
      bvec_chain (items (bvec_context_pool s)) (bc_bvctx (items (bio_context_pool s) i)) (ch i)"
    "mset (concat (map mapping (pages s))) = mset (concat (map unmapping (pages s))) +
      mset (map (page_of (items (bvec_context_pool s))) (concat (map ch (under_way h s))))"
    "mset (accepted s) = mset (map bio_id (request_bio_list s)) +
      mset (map (\<lambda>i. the (bc_bio (items (bio_context_pool s) i))) (under_way h s)) + mset (hand_bio h) + mset (map fst (bio_ends s))"
proof -
  note p = assms [unfolded pools_inv_def Let_def]
  show "pool_free (bio_context_pool s) F" "pool_free (bvec_context_pool s) G"
    and m: "mset (F @ under_way h s) = mset [0..<unat (pl_num (bio_context_pool s))]"
      "mset (G @ concat (map ch (under_way h s))) = mset [0..<unat (pl_num (bvec_context_pool s))]"
    and "mset (concat (map mapping (pages s))) = mset (concat (map unmapping (pages s))) +
      mset (map (page_of (items (bvec_context_pool s))) (concat (map ch (under_way h s))))"
    and "mset (accepted s) = mset (map bio_id (request_bio_list s)) +
      mset (map (\<lambda>i. the (bc_bio (items (bio_context_pool s) i))) (under_way h s)) + mset (hand_bio h) + mset (map fst (bio_ends s))"
    using p by blast+
  show "distinct (F @ under_way h s)" by (subst mset_eq_imp_distinct_iff [OF m(1)]) simp
  show "distinct (G @ concat (map ch (under_way h s)))" by (subst mset_eq_imp_distinct_iff [OF m(2)]) simp
  show "i < unat (pl_num (bio_context_pool s))" if "i \<in> set (under_way h s)" for i
    using mset_eq_setD [OF m(1)] that by auto
  show "j < unat (pl_num (bvec_context_pool s))" if "j \<in> set (concat (map ch (under_way h s)))" for j
    using mset_eq_setD [OF m(2)] that by auto
  show "bc_id (items (bio_context_pool s) i) = ctx_cookie i \<and> bc_bio (items (bio_context_pool s) i) \<noteq> None \<and>
      bvec_chain (items (bvec_context_pool s)) (bc_bvctx (items (bio_context_pool s) i)) (ch i)" if "i \<in> set (under_way h s)" for i
    using p that by blast
qed

lemma mapping_unmapped [simp]: "concat (map (mapping \<circ> unmapped it) js) = []" "concat (map (unmapping \<circ> unmapped it) js) = map (page_of it) js"
  by (induction js) (simp_all add: unmapped_def page_of_def)

lemma handle_inv:
  assumes "blk_inv N M h s"
  shows "\<exists>s'. side_step Handle s = Ret s' \<and> blk_inv N M h s'"
proof -
  obtain F G ch where pi: "pools_inv h s F G ch" using assms by (auto simp: blk_inv_def)
  note p = pools_invD [OF pi]
  have rr: "request_ring_inv N h s" and cr: "completion_ring_inv M s" and gr: "groups_inv s" using assms by (simp_all add: blk_inv_def)
  note c = cr [unfolded completion_ring_inv_def Let_def]
  let ?as = "map fst (answers s)"
  have us: "set ?as \<subseteq> set (under_way h s)" by (auto simp: under_way_def)
  have dF: "distinct (F @ ?as)" using p(5) by (auto simp: under_way_def)
  have dG: "distinct (G @ concat (map ch ?as))" using p(6) by (auto simp: under_way_def)
  have "length (map ack_of (answers s)) \<le> M"
  proof -
    have "length F + length ?as \<le> unat (pl_num (bio_context_pool s))"
      using arg_cong [OF p(3), of size] by (simp add: under_way_def)
    moreover have "1 \<le> length F" using pool_freeD(2) [OF p(1)] by (cases F) auto
    ultimately show ?thesis using c by simp
  qed
  then have ul: "rb_used M (last_used (completion_ring s)) (last_add (completion_ring s)) \<le> M"
    using c rb.length_window [of "elems (completion_ring s)" 0 M] by metis
  have lt: "\<forall>i \<in> set ?as. i < unat (pl_num (bio_context_pool s))" using p(7) us by auto
  have lj: "\<forall>j \<in> set (concat (map ch ?as)). j < unat (pl_num (bvec_context_pool s))" using p(8) us by auto
  have ck: "\<forall>i \<in> set ?as. bc_bio (items (bio_context_pool s) i) \<noteq> None \<and>
      bvec_chain (items (bvec_context_pool s)) (bc_bvctx (items (bio_context_pool s) i)) (ch i)" using p(9) us by auto
  obtain P Q r where r: "completion_loop (last_used (completion_ring s)) s = Some (Ret (s\<lparr>completion_ring := r,
      pages := pages s @ map (unmapped (items (bvec_context_pool s))) (concat (map ch ?as)),
      bvec_context_pool := Q, bio_context_pool := P, bio_ends := bio_ends s @ map (end_of (items (bio_context_pool s))) (answers s)\<rparr>))"
    "pool_free P (F @ ?as)" "items P = items (bio_context_pool s)" "pl_num P = pl_num (bio_context_pool s)"
    "pool_free Q (G @ concat (map ch ?as))" "items Q = items (bvec_context_pool s)" "pl_num Q = pl_num (bvec_context_pool s)"
    "num_elems r = num_elems (completion_ring s)" "last_used r = last_add (completion_ring s)" "last_add r = last_add (completion_ring s)"
    using completion_loop [OF _ _ _ _ ul _ p(1) dF lt p(2) dG lj ck] c by blast
  let ?s = "s\<lparr>completion_ring := r,
      pages := pages s @ map (unmapped (items (bvec_context_pool s))) (concat (map ch ?as)),
      bvec_context_pool := Q, bio_context_pool := P, bio_ends := bio_ends s @ map (end_of (items (bio_context_pool s))) (answers s), answers := []\<rparr>"
  have st: "side_step Handle s = Ret ?s" using r(1) by (simp add: vcablk_disk_request_completion_handler_def)
  have "request_ring_inv N h ?s" using rr by (simp add: request_ring_inv_def rq_num_def Let_def)
  moreover have "completion_ring_inv M ?s"
    using c r(4,8-10) by (simp add: completion_ring_inv_def cq_num_def rb.window_empty Let_def)
  moreover have "groups_inv ?s" using gr by (simp add: groups_inv_def)
  moreover have "pools_inv h ?s (F @ ?as) (G @ concat (map ch ?as)) ch"
  proof -
    have fe: "fst \<circ> end_of (items (bio_context_pool s)) = (\<lambda>i. the (bc_bio (items (bio_context_pool s) i))) \<circ> fst"
      by (auto simp: fun_eq_iff end_of_def)
    have e: "image_mset (fst \<circ> end_of (items (bio_context_pool s))) (mset (answers s)) =
        image_mset (\<lambda>i. the (bc_bio (items (bio_context_pool s) i))) (image_mset fst (mset (answers s)))"
      unfolding fe by (simp add: multiset.map_comp)
    have uw: "mset (under_way h s) = mset (under_way h ?s) + mset ?as" by (simp add: under_way_def)
    have uc: "mset (concat (map ch (under_way h s))) = mset (concat (map ch (under_way h ?s))) + mset (concat (map ch ?as))"
      by (simp add: under_way_def)
    have sub: "set (under_way h ?s) \<subseteq> set (under_way h s)" by (auto simp: under_way_def)
    have "mset (F @ ?as @ under_way h ?s) = mset [0..<unat (pl_num P)]" using p(3) uw r(4) by (simp add: ac_simps)
    moreover have "mset (G @ concat (map ch ?as) @ concat (map ch (under_way h ?s))) = mset [0..<unat (pl_num Q)]"
      using p(4) uc r(7) by (simp add: ac_simps)
    moreover have "mset (concat (map mapping (pages ?s))) = mset (concat (map unmapping (pages ?s))) +
        mset (map (page_of (items Q)) (concat (map ch (under_way h ?s))))"
      using p(10) uc r(6) by (simp add: ac_simps)
    moreover have "mset (accepted ?s) = mset (map bio_id (request_bio_list ?s)) +
        mset (map (\<lambda>i. the (bc_bio (items P i))) (under_way h ?s)) + mset (hand_bio h) + mset (map fst (bio_ends ?s))"
      using p(11) uw r(3) e by (simp add: ac_simps)
    moreover have "hand_named h (items P)" using pi r(3) by (simp add: pools_inv_def Let_def)
    ultimately show ?thesis unfolding pools_inv_def Let_def using r(2,3,5,6) p(9) sub by auto
  qed
  ultimately show ?thesis using st unfolding blk_inv_def by blast
qed

text \<open>Contexts may change their place; what counts is which are under way.\<close>

lemma mset_concat_map: "mset us = mset vs \<Longrightarrow> mset (concat (map ch us)) = mset (concat (map ch vs))"
proof -
  assume m: "mset us = mset vs"
  have "mset (concat (map ch xs)) = \<Sum>\<^sub># (image_mset (\<lambda>i. mset (ch i)) (mset xs))" for xs
    by (induction xs) simp_all
  then show ?thesis using m by simp
qed

lemma pools_inv_move:
  assumes "pools_inv h s F G ch" and m: "mset (under_way h s') = mset (under_way h s)"
    and e: "bio_context_pool s' = bio_context_pool s" "bvec_context_pool s' = bvec_context_pool s" "pages s' = pages s"
      "bio_ends s' = bio_ends s" "request_bio_list s' = request_bio_list s" "accepted s' = accepted s"
  shows "pools_inv h s' F G ch"
  using assms(1) mset_eq_setD [OF m] mset_concat_map [OF m, of ch] m unfolding pools_inv_def Let_def e by simp

lemma under_way_room:
  assumes "pools_inv h s F G ch" "completion_ring_inv M s" "i \<in> set (owed s)"
  shows "length (answers s) < M"
proof -
  note p = pools_invD [OF assms(1)]
  have "length F + length (under_way h s) = unat (pl_num (bio_context_pool s))"
    using arg_cong [OF p(3), of size] by simp
  moreover have "1 \<le> length F" using pool_freeD(2) [OF p(1)] by (cases F) auto
  moreover have "1 + length (answers s) \<le> length (under_way h s)"
    using assms(3) by (cases "owed s") (auto simp: under_way_def)
  ultimately show ?thesis using assms(2) by (simp add: completion_ring_inv_def Let_def)
qed

lemma answer_inv:
  assumes "blk_inv N M h s" "i \<in> set (owed s)"
  shows "\<exists>s'. side_step (Answer i e) s = Ret s' \<and> blk_inv N M h s'"
proof -
  obtain F G ch where pi: "pools_inv h s F G ch" using assms by (auto simp: blk_inv_def)
  have rr: "request_ring_inv N h s" and cr: "completion_ring_inv M s" and gr: "groups_inv s" using assms by (simp_all add: blk_inv_def)
  note c = cr [unfolded completion_ring_inv_def Let_def]
  let ?r = "completion_ring s"
  have o: "rb_size_ok M" "rb_cnt_ok M (last_used ?r)" "rb_cnt_ok M (last_add ?r)" using c by auto
  have u: "rb_used M (last_used ?r) (last_add ?r) = length (answers s)"
  proof -
    have "length (rb.window (elems ?r) 0 M (last_used ?r) (last_add ?r)) = length (map ack_of (answers s))" using c by simp
    then show ?thesis by simp
  qed
  have lt: "length (answers s) < M" by (rule under_way_room [OF pi cr assms(2)])
  have "ack_room s" using rb_full [OF o(1,3,2)] u lt c by (simp add: ack_room_def)
  then have sr: "vcablk_bcknd_disk_send_response (\<lambda>_. id) (of_nat (i + 1)) e s = (0, put_ack (of_nat (i + 1)) e s)"
    by (rule send_response)
  let ?s = "(put_ack (of_nat (i + 1)) e s)\<lparr>owed := remove1 i (owed s), answers := answers s @ [(i, e)]\<rparr>"
  have st: "side_step (Answer i e) s = Ret ?s" using sr by (simp add: put_ack_def Let_def)
  have e: "completion_ring ?s = ?r\<lparr>elems := (elems ?r)(rb_pos M (last_add ?r) := ack_of (i, e)), last_add := rb_add M (last_add ?r) 1\<rparr>"
    "answers ?s = answers s @ [(i, e)]" "bio_context_pool ?s = bio_context_pool s" "bvec_context_pool ?s = bvec_context_pool s"
    "completion_ring_num_elems ?s = completion_ring_num_elems s"
    using c by (simp_all add: put_ack_def Let_def ctx_cookie_def)
  have "rb.window ((elems ?r)(0 + rb_pos M (last_add ?r) := ack_of (i, e))) 0 M (last_used ?r) (rb_add M (last_add ?r) 1) =
      rb.window (elems ?r) 0 M (last_used ?r) (last_add ?r) @ [ack_of (i, e)]"
    using u lt rb_size_bounds [OF o(1)] by (intro rb.window_put [OF o]) auto
  then have "completion_ring_inv M ?s"
    using c rb.add_ok [OF o(1,3)] unfolding completion_ring_inv_def Let_def e cq_num_def by (simp del: ack_of_pair)
  moreover have "request_ring_inv N h ?s" using rr by (simp add: request_ring_inv_def rq_num_def Let_def put_ack_def)
  moreover have "groups_inv ?s" using gr by (simp add: groups_inv_def put_ack_def Let_def)
  moreover have "pools_inv h ?s F G ch"
    using assms(2) by (intro pools_inv_move [OF pi]) (simp_all add: under_way_def put_ack_def Let_def)
  ultimately show ?thesis using st unfolding blk_inv_def by blast
qed

lemma new_bio_inv:
  assumes "blk_inv N M h s" "length (bio_requests b) \<le> VCABLK_MAX_PARTS_PER_REQUEST" "request_bio_count s < on"
  shows "\<exists>s'. side_step (New_bio on off b) s = Ret s' \<and> blk_inv N M h s'"
proof -
  obtain F G ch where pi: "pools_inv h s F G ch" using assms by (auto simp: blk_inv_def)
  have rr: "request_ring_inv N h s" and cr: "completion_ring_inv M s" and gr: "groups_inv s" using assms by (simp_all add: blk_inv_def)
  let ?s = "(if bi_write b \<and> read_only s then s\<lparr>bio_ends := bio_ends s @ [(bio_id b, - EIO)]\<rparr>
     else s\<lparr>request_bio_count := request_bio_count s + 1, request_bio_list := request_bio_list s @ [b]\<rparr>)\<lparr>accepted := accepted s @ [bio_id b]\<rparr>"
  have "\<not> on \<le> request_bio_count s" using assms(3) by simp
  then have st: "side_step (New_bio on off b) s = Ret ?s" by (simp add: vcablk_disk_make_request_def vcablk_disk_bio_end_def)
  have "request_ring_inv N h ?s" using rr by (simp add: request_ring_inv_def rq_num_def Let_def)
  moreover have "completion_ring_inv M ?s" using cr by (simp add: completion_ring_inv_def cq_num_def Let_def)
  moreover have "groups_inv ?s" using gr assms(2) by (auto simp: groups_inv_def)
  moreover have "pools_inv h ?s F G ch" using pi by (simp add: pools_inv_def Let_def under_way_def)
  ultimately show ?thesis using st unfolding blk_inv_def by blast
qed

lemma next_group_posted:
  assumes "g \<noteq> []" "length g \<le> VCABLK_MAX_PARTS_PER_REQUEST" "\<forall>r \<in> set g. rq_cookie r = c" "c \<noteq> 0"
    and "rest \<noteq> [] \<Longrightarrow> rq_cookie (hd rest) \<noteq> c"
  shows "next_group (g @ rest) = (length g, g)"
proof -
  obtain r rs where g: "g = r # rs" using assms(1) by (cases g) auto
  have "takeWhile (\<lambda>x. rq_cookie x = c) rest = []" using assms(5) by (cases rest) auto
  then have "takeWhile (\<lambda>x. rq_cookie x = c) (g @ rest) = g" using assms(3) by simp
  then show ?thesis using assms(2,3,4) g by (simp add: next_group_def Let_def)
qed

lemma take_inv:
  assumes "blk_inv N M h s"
  shows "\<exists>s'. side_step Take s = Ret s' \<and> blk_inv N M h s'"
proof -
  obtain F G ch where pi: "pools_inv h s F G ch" using assms by (auto simp: blk_inv_def)
  have rr: "request_ring_inv N h s" and cr: "completion_ring_inv M s" and gr: "groups_inv s" using assms by (simp_all add: blk_inv_def)
  note r = rr [unfolded request_ring_inv_def Let_def]
  let ?r = "request_ring s"
  have o: "rb_size_ok N" "rb_cnt_ok N (last_used ?r)" "rb_cnt_ok N (last_add ?r)" using r by auto
  have ro: "request_ring_ok s" using r by (simp add: request_ring_ok_def)
  have w: "waiting_requests s = concat (map snd (posted s))" using r by (simp add: waiting_requests_def)
  show ?thesis
  proof (cases "posted s")
    case Nil
    have "vcablk_bcknd_disk_get_next_request s = Some ([], s)"
      using r Nil rb.used_zero_iff [OF o] rb.length_window [of "elems ?r" 0 N "last_used ?r" "last_add ?r"]
      by (simp add: vcablk_bcknd_disk_get_next_request_def)
    then show ?thesis using assms by auto
  next
    case (Cons x ps)
    obtain i g where x: "x = (i, g)" by (cases x)
    have g: "g \<noteq> []" "length g \<le> VCABLK_MAX_PARTS_PER_REQUEST" "\<forall>r \<in> set g. rq_cookie r = ctx_cookie i" using r Cons x by auto
    have lt: "j < 65535" if "j \<in> set (map fst (posted s))" for j
      using pools_invD(7) [OF pi, of j] pool_freeD(1) [OF pools_invD(1) [OF pi]] that by (auto simp: under_way_def)
    have ic: "ctx_cookie i \<noteq> 0" "unat (ctx_cookie i) = i + 1" using ctx_cookie [OF lt, of i] Cons x by auto
    have "next_group (g @ concat (map snd ps)) = (length g, g)"
    proof (rule next_group_posted [OF g(1-3) ic(1)])
      assume ne: "concat (map snd ps) \<noteq> []"
      then obtain j g' qs where ps: "ps = (j, g') # qs" by (cases ps) auto
      have g': "g' \<noteq> []" "\<forall>r \<in> set g'. rq_cookie r = ctx_cookie j" using r Cons ps by auto
      have "distinct (map fst (posted s))" using pools_invD(5) [OF pi] by (auto simp: under_way_def)
      then have "i \<noteq> j" using Cons x ps by auto
      moreover have "unat (ctx_cookie j) = j + 1" using ctx_cookie [OF lt, of j] Cons ps by auto
      ultimately have "ctx_cookie j \<noteq> ctx_cookie i" using ic(2) by auto
      then show "rq_cookie (hd (concat (map snd ps))) \<noteq> ctx_cookie i" using g' ps by (cases g') auto
    qed
    then have ng: "next_group (waiting_requests s) = (length g, g)" using w Cons x by simp
    let ?l = "rb_add N (last_used ?r) (length g)"
    have wne: "waiting_requests s \<noteq> []" using w Cons x g(1) by simp
    have nx: "vcablk_bcknd_disk_get_next_request s = Some (g, s\<lparr>request_last_used := ?l, request_ring := ?r\<lparr>last_used := ?l\<rparr>\<rparr>)"
      using get_next_request [OF ro ng] wne r by simp
    let ?s = "s\<lparr>request_last_used := ?l, request_ring := ?r\<lparr>last_used := ?l\<rparr>, posted := ps, owed := owed s @ [i], taken := taken s @ [g]\<rparr>"
    have hc: "rq_cookie (hd g) = ctx_cookie i" using g(1,3) by simp
    have st: "side_step Take s = Ret ?s" using nx g(1) Cons hc ic(2) by simp
    have u: "rb_used N (last_used ?r) (last_add ?r) = length (concat (map snd (posted s)))"
      using r rb.length_window [of "elems ?r" 0 N "last_used ?r" "last_add ?r"] by simp
    have le: "length g \<le> rb_used N (last_used ?r) (last_add ?r)" unfolding u Cons x by simp
    have wg: "rb.window (elems ?r) 0 N ?l (last_add ?r) = concat (map snd ps)"
      using rb.window_get [OF o le, of "elems ?r" 0] r Cons x by simp
    have ul: "rb_used N ?l (last_add ?r) = rb_used N (last_used ?r) (last_add ?r) - length g" by (rule rb.used_get [OF o le])
    have "hand_ring N h (?r\<lparr>last_used := ?l\<rparr>) (request_ring_alloc s)" using r ul by (cases h) auto
    moreover have "rb_used N (last_used ?r) (last_add ?r) - length g \<le> N" using r by (meson diff_le_self le_trans)
    ultimately have "request_ring_inv N h ?s"
      using r ul wg rb.add_ok [OF o(1,2)] Cons by (simp add: request_ring_inv_def rq_num_def Let_def)
    moreover have "completion_ring_inv M ?s" using cr by (simp add: completion_ring_inv_def cq_num_def Let_def)
    moreover have "groups_inv ?s" using gr Cons x by (simp add: groups_inv_def)
    moreover have "pools_inv h ?s F G ch" using Cons x by (intro pools_inv_move [OF pi]) (simp_all add: under_way_def)
    ultimately show ?thesis using st unfolding blk_inv_def by blast
  qed
qed

lemma side_inv: "blk_inv N M h s \<Longrightarrow> side_guard s x \<Longrightarrow> \<exists>s'. side_step x s = Ret s' \<and> blk_inv N M h s'"
  using take_inv answer_inv handle_inv new_bio_inv by (cases x) (auto simp del: side_step.simps)

lemma side_run_inv: "blk_inv N M h s \<Longrightarrow> blk_inv N M h (side_run xs s)"
proof (induction xs arbitrary: s)
  case (Cons x xs)
  show ?case
  proof (cases "side_guard s x")
    case True
    then obtain s' where "side_step x s = Ret s'" "blk_inv N M h s'" using side_inv [OF Cons.prems] by blast
    then show ?thesis using Cons.IH True by simp
  qed (use Cons in simp)
qed simp

lemma script_sleeps_inv: "blk_inv N M h s \<Longrightarrow> blk_inv N M h (script_sleeps scr start k s)"
  by (simp add: script_sleeps_def side_run_inv)

end
