(* ===== verification/Blk_Thread.thy ===== *)
theory Blk_Thread
  imports Blk_Side
begin

text \<open>
  The thread of the front end, which writes the requests of a bio, keeps the invariant at each of its
  sleeps. It never fails, and what it publishes is the bio.
\<close>

section \<open>Changes of the state\<close>

lemma blk_inv_frame:
  assumes "blk_inv N M h s" and
    "request_ring s' = request_ring s" "request_ring_nums s' = request_ring_nums s" "request_last_used s' = request_last_used s"
    "request_ring_alloc s' = request_ring_alloc s" "posted s' = posted s" "completion_ring s' = completion_ring s"
    "completion_ring_num_elems s' = completion_ring_num_elems s" "bio_context_pool s' = bio_context_pool s" "answers s' = answers s"
    "bvec_context_pool s' = bvec_context_pool s" "pages s' = pages s" "owed s' = owed s" "bio_ends s' = bio_ends s"
    "request_bio_list s' = request_bio_list s" "accepted s' = accepted s" "crashed s' = crashed s" "published s' = published s" "taken s' = taken s"
  shows "blk_inv N M h s'"
  using assms(1) unfolding blk_inv_def request_ring_inv_def completion_ring_inv_def groups_inv_def pools_inv_def under_way_def
    rq_num_def cq_num_def Let_def assms(2-) .

lemma rings_frame:
  assumes "request_ring_inv N h s" "completion_ring_inv M s" "groups_inv s" and
    "request_ring s' = request_ring s" "request_ring_nums s' = request_ring_nums s" "request_last_used s' = request_last_used s"
    "request_ring_alloc s' = request_ring_alloc s" "posted s' = posted s" "completion_ring s' = completion_ring s"
    "completion_ring_num_elems s' = completion_ring_num_elems s" "pl_num (bio_context_pool s') = pl_num (bio_context_pool s)" "answers s' = answers s"
    "request_bio_list s' = request_bio_list s" "crashed s' = crashed s" "published s' = published s" "taken s' = taken s"
  shows "request_ring_inv N h s' \<and> completion_ring_inv M s' \<and> groups_inv s'"
  using assms(1-3) unfolding request_ring_inv_def completion_ring_inv_def groups_inv_def rq_num_def cq_num_def Let_def assms(4-) by blast

text \<open>A request written at the end of those in hand.\<close>

lemma ring_write:
  assumes "rb_size_ok N" "rb_cnt_ok N lu" "rb_cnt_ok N la" "rb_used N lu la + k < N"
  shows "rb.window (m(rb_pos N (rb_add N la k) := x)) 0 N lu la = rb.window m 0 N lu la"
    and "rb.window (m(rb_pos N (rb_add N la k) := x)) 0 N la (rb_add N la (Suc k)) = rb.window m 0 N la (rb_add N la k) @ [x]"
    and "rb_used N lu (rb_add N la k) = rb_used N lu la + k"
proof -
  note nb = rb_size_bounds [OF assms(1)]
  have al: "rb_cnt_ok N (rb_add N la k)" by (rule rb.add_ok [OF assms(1,3)])
  show u: "rb_used N lu (rb_add N la k) = rb_used N lu la + k" using assms(4) nb by (intro rb.used_put [OF assms(1-3)]) auto
  have pk: "rb_pos N (rb_add N la k) = (rb_pos N lu + (rb_used N lu la + k)) mod N"
    using rb.pos_writer [OF assms(1,2) al] u by simp
  show "rb.window (m(rb_pos N (rb_add N la k) := x)) 0 N lu la = rb.window m 0 N lu la"
  proof (rule rb.window_other)
    fix y assume "y < rb_used N lu la"
    then have "(rb_pos N lu + y) mod N \<noteq> (rb_pos N lu + (rb_used N lu la + k)) mod N" using assms(4) by (intro mod_turn_neq) auto
    then show "rb_pos N (rb_add N la k) \<noteq> 0 + (rb_pos N lu + y) mod N" using pk by simp
  qed
  have ul: "rb_used N la (rb_add N la k) = k"
    using rb.used_put [OF assms(1,3,3), of k] rb.used_self [OF assms(1,3)] assms(4) nb by simp
  have "rb.window (m(0 + rb_pos N (rb_add N la k) := x)) 0 N la (rb_add N (rb_add N la k) 1) = rb.window m 0 N la (rb_add N la k) @ [x]"
    using ul assms(4) nb by (intro rb.window_put [OF assms(1,3) al]) auto
  then show "rb.window (m(rb_pos N (rb_add N la k) := x)) 0 N la (rb_add N la (Suc k)) = rb.window m 0 N la (rb_add N la k) @ [x]"
    using rb.add_add [OF assms(1,3), of k 1] by simp
qed

lemma put_request_inv:
  assumes "blk_inv N M (Building i b la es) s" "ring_room s"
  defines "k \<equiv> VCA_RB_COUNTER_TO_IDX (request_ring_alloc s) (rq_num s)"
  shows "blk_inv N M (Building i b la (es @ [f (elems (request_ring s) k)]))
      (set_request k f (s\<lparr>request_ring_alloc := VCA_RB_COUNTER_ADD (request_ring_alloc s) 1 (rq_num s)\<rparr>))"
    and "k = rb_pos N (rb_add N la (length es))"
proof -
  have rr: "request_ring_inv N (Building i b la es) s" and cr: "completion_ring_inv M s" and gr: "groups_inv s" using assms(1) by (simp_all add: blk_inv_def)
  obtain F G ch where pi: "pools_inv (Building i b la es) s F G ch" using assms(1) by (auto simp: blk_inv_def)
  note r = rr [unfolded request_ring_inv_def Let_def]
  let ?r = "request_ring s"
  have o: "rb_size_ok N" "rb_cnt_ok N (last_used ?r)" "rb_cnt_ok N la" using r by auto
  have wp: "last_add ?r = la" "rb.window (elems ?r) 0 N (last_used ?r) la = concat (map snd (posted s))" using r by auto
  have al: "request_ring_alloc s = rb_add N la (length es)" "rb_used N (last_used ?r) la + length es \<le> N" using r by auto
  show k: "k = rb_pos N (rb_add N la (length es))" using r al unfolding k_def by (simp add: rb_fold)
  have alo: "rb_cnt_ok N (request_ring_alloc s)" unfolding al(1) by (rule rb.add_ok [OF o(1,3)])
  have u: "rb_used N (last_used ?r) (request_ring_alloc s) = rb_used N (last_used ?r) la + length es"
    unfolding al(1) using al(2) rb_size_bounds [OF o(1)] by (intro rb.used_put [OF o]) auto
  have "rb_used N (last_used ?r) (request_ring_alloc s) \<noteq> N"
    using assms(2) rb_full [OF o(1) alo o(2)] r by (simp add: ring_room_def)
  then have lt: "rb_used N (last_used ?r) la + length es < N" using u al(2) by simp
  note w = ring_write(1,2) [OF o lt, of "elems ?r" "f (elems ?r k)", folded k]
  have ad: "VCA_RB_COUNTER_ADD (request_ring_alloc s) 1 (rq_num s) = rb_add N la (Suc (length es))"
    using rb.add_add [OF o(1,3), of "length es" 1] r al by (simp add: rb_fold)
  let ?s = "set_request k f (s\<lparr>request_ring_alloc := VCA_RB_COUNTER_ADD (request_ring_alloc s) 1 (rq_num s)\<rparr>)"
  have "request_ring_inv N (Building i b la (es @ [f (elems ?r k)])) ?s"
    using r lt w(1,2) al(1) wp unfolding ad by (simp add: request_ring_inv_def set_request_def rq_num_def Let_def)
  moreover have "completion_ring_inv M ?s" using cr by (simp add: completion_ring_inv_def cq_num_def Let_def set_request_def)
  moreover have "groups_inv ?s" using gr by (simp add: groups_inv_def set_request_def)
  moreover have "pools_inv (Building i b la (es @ [f (elems ?r k)])) ?s F G ch"
    using pi by (simp add: pools_inv_def Let_def under_way_def set_request_def)
  ultimately show "blk_inv N M (Building i b la (es @ [f (elems ?r k)])) ?s" unfolding blk_inv_def by blast
qed

lemma change_request_inv:
  assumes "blk_inv N M (Building i b la (es @ [r0])) s" and k: "k = rb_pos N (rb_add N la (length es))"
  shows "blk_inv N M (Building i b la (es @ [f r0])) (set_request k f s)"
proof -
  have rr: "request_ring_inv N (Building i b la (es @ [r0])) s" and cr: "completion_ring_inv M s" and gr: "groups_inv s" using assms(1) by (simp_all add: blk_inv_def)
  obtain F G ch where pi: "pools_inv (Building i b la (es @ [r0])) s F G ch" using assms(1) by (auto simp: blk_inv_def)
  note r = rr [unfolded request_ring_inv_def Let_def]
  let ?r = "request_ring s"
  have o: "rb_size_ok N" "rb_cnt_ok N (last_used ?r)" "rb_cnt_ok N la" using r by auto
  have wp: "last_add ?r = la" "rb.window (elems ?r) 0 N (last_used ?r) la = concat (map snd (posted s))" using r by auto
  have lt: "rb_used N (last_used ?r) la + length es < N" using r by auto
  note w = ring_write(1,2) [OF o lt, of "elems ?r" "elems ?r k", folded k]
  have a: "request_ring_alloc s = rb_add N la (Suc (length es))" "rb.window (elems ?r) 0 N la (request_ring_alloc s) = es @ [r0]"
    using r by auto
  have "rb.window (elems ?r) 0 N la (rb_add N la (length es)) @ [elems ?r k] = es @ [r0]" using w(2) a by simp
  then have e: "rb.window (elems ?r) 0 N la (rb_add N la (length es)) = es" "elems ?r k = r0" by simp_all
  note v = ring_write(1,2) [OF o lt, of "elems ?r" "f (elems ?r k)", folded k]
  let ?s = "set_request k f s"
  have "request_ring_inv N (Building i b la (es @ [f r0])) ?s"
    using r v(1,2) e wp by (simp add: request_ring_inv_def set_request_def rq_num_def Let_def)
  moreover have "completion_ring_inv M ?s" using cr by (simp add: completion_ring_inv_def cq_num_def Let_def set_request_def)
  moreover have "groups_inv ?s" using gr by (simp add: groups_inv_def set_request_def)
  moreover have "pools_inv (Building i b la (es @ [f r0])) ?s F G ch"
    using pi by (simp add: pools_inv_def Let_def under_way_def set_request_def)
  ultimately show ?thesis unfolding blk_inv_def by blast
qed

text \<open>A page mapped for the context in hand.\<close>

lemma map_inv:
  assumes "blk_inv N M (Building i b la es) s" and pop: "vcablk_pool_pop (bvec_context_pool s) = (Some j, p)"
  shows "\<exists>q. vcablk_pool_push (Some j) p = Ret q \<and> blk_inv N M (Building i b la es) (s\<lparr>bvec_context_pool := q\<rparr>)"
    and "blk_inv N M (Building i b la es) (set_bvec j \<lparr>bvc_next = bc_bvctx (items (bio_context_pool s) i), bvc_dma_addr = da, bvc_size = n, bvc_dir = dir\<rparr>
      (set_ctx i ((items (bio_context_pool s) i)\<lparr>bc_bvctx := Some j\<rparr>)
        (s\<lparr>bvec_context_pool := p, pages := pages s @ [Page_mapped da n dir]\<rparr>)))"
proof -
  let ?h = "Building i b la es" and ?P = "bio_context_pool s" and ?Q = "bvec_context_pool s"
  have rr: "request_ring_inv N ?h s" and cr: "completion_ring_inv M s" and gr: "groups_inv s" using assms(1) by (simp_all add: blk_inv_def)
  obtain F G ch where pi: "pools_inv ?h s F G ch" using assms(1) by (auto simp: blk_inv_def)
  note d = pools_invD [OF pi]
  obtain G' where G: "G = j # G'" "pool_free p G'" and p: "p = ?Q\<lparr>pl_head := next_free ?Q j, next_free := (next_free ?Q)(j := VCABLK_POOL_USED)\<rparr>"
    using pop_step [OF d(2)] pop by (auto simp: vcablk_pool_pop_def Let_def split: if_splits)
  have pe: "pl_num p = pl_num ?Q" "items p = items ?Q" using p by simp_all
  have j: "j < unat (pl_num ?Q)" "j \<notin> set G'" "j \<notin> set (concat (map ch (under_way ?h s)))"
    using d(2,6) pool_freeD(4) [OF d(2)] G(1) by auto
  obtain q where q: "vcablk_pool_push (Some j) p = Ret q" "pool_free q (G' @ [j])" "pl_num q = pl_num ?Q" "items q = items ?Q"
    using push_free [OF G(2), of j] j pe by auto
  have "pools_inv ?h (s\<lparr>bvec_context_pool := q\<rparr>) F (G' @ [j]) ch"
    using pi q(2-4) G(1) by (simp add: pools_inv_def Let_def under_way_def ac_simps)
  moreover have "request_ring_inv N ?h (s\<lparr>bvec_context_pool := q\<rparr>) \<and> completion_ring_inv M (s\<lparr>bvec_context_pool := q\<rparr>) \<and>
      groups_inv (s\<lparr>bvec_context_pool := q\<rparr>)"
    by (rule rings_frame [OF rr cr gr]) simp_all
  ultimately show "\<exists>q. vcablk_pool_push (Some j) p = Ret q \<and> blk_inv N M ?h (s\<lparr>bvec_context_pool := q\<rparr>)"
    using q(1) unfolding blk_inv_def by blast
  define m where "m = \<lparr>bvc_next = bc_bvctx (items ?P i), bvc_dma_addr = da, bvc_size = n, bvc_dir = dir\<rparr>"
  define c where "c = (items ?P i)\<lparr>bc_bvctx := Some j\<rparr>"
  let ?s = "set_bvec j m (set_ctx i c (s\<lparr>bvec_context_pool := p, pages := pages s @ [Page_mapped da n dir]\<rparr>))"
  let ?ch = "ch(i := j # ch i)"
  have e: "bio_context_pool ?s = ?P\<lparr>items := (items ?P)(i := c)\<rparr>" "bvec_context_pool ?s = p\<lparr>items := (items ?Q)(j := m)\<rparr>"
    "pages ?s = pages s @ [Page_mapped da n dir]" "under_way ?h ?s = under_way ?h s" "bio_ends ?s = bio_ends s"
    "request_bio_list ?s = request_bio_list s" "accepted ?s = accepted s"
    using pe by (simp_all add: set_bvec_def set_ctx_def under_way_def)
  obtain us where us: "under_way ?h s = us @ [i]" by (simp add: under_way_def)
  have iu: "i \<notin> set us" "i \<in> set (under_way ?h s)" using d(5) us by auto
  have cm: "map ?ch us = map ch us" using iu(1) by auto
  have conc: "mset (concat (map ?ch (under_way ?h s))) = add_mset j (mset (concat (map ch (under_way ?h s))))"
    unfolding us map_append concat_append mset_append cm by simp
  have jn: "j \<notin> set (ch x)" if "x \<in> set (under_way ?h s)" for x using j(3) that by auto
  have old: "bvec_chain ((items ?Q)(j := m)) (bc_bvctx (items ?P x)) (ch x)" if "x \<in> set (under_way ?h s)" for x
    using d(9) [OF that] jn [OF that] bvec_chain_cong [of "ch x" "items ?Q" "(items ?Q)(j := m)"] by (metis fun_upd_other)
  have chains: "bc_id (((items ?P)(i := c)) x) = ctx_cookie x \<and> bc_bio (((items ?P)(i := c)) x) \<noteq> None \<and>
      bvec_chain ((items ?Q)(j := m)) (bc_bvctx (((items ?P)(i := c)) x)) (?ch x)" if "x \<in> set (under_way ?h s)" for x
    using d(9) [OF that] old [OF that] by (cases "x = i") (simp_all add: c_def m_def)
  have pg: "map (page_of ((items ?Q)(j := m))) (concat (map ch (under_way ?h s))) = map (page_of (items ?Q)) (concat (map ch (under_way ?h s)))"
    using j(3) by (intro page_of_cong) auto
  have pj: "page_of ((items ?Q)(j := m)) j = (da, n, dir)" by (simp add: page_of_def m_def)
  have live: "mset (concat (map mapping (pages ?s))) = mset (concat (map unmapping (pages ?s))) +
      mset (map (page_of ((items ?Q)(j := m))) (concat (map ?ch (under_way ?h s))))"
  proof -
    have "mset (map (page_of ((items ?Q)(j := m))) (concat (map ?ch (under_way ?h s)))) =
        image_mset (page_of ((items ?Q)(j := m))) (add_mset j (mset (concat (map ch (under_way ?h s)))))"
      by (simp only: mset_map conc)
    also have "\<dots> = add_mset (da, n, dir) (mset (map (page_of ((items ?Q)(j := m))) (concat (map ch (under_way ?h s)))))"
      by (simp only: mset_map image_mset_add_mset pj)
    finally show ?thesis unfolding e pg using d(10) by simp
  qed
  have bios: "map (\<lambda>x. the (bc_bio (((items ?P)(i := c)) x))) (under_way ?h s) = map (\<lambda>x. the (bc_bio (items ?P x))) (under_way ?h s)"
    by (simp add: c_def)
  have it: "items (?P\<lparr>items := (items ?P)(i := c)\<rparr>) = (items ?P)(i := c)" by simp
  have "pools_inv ?h ?s F G' ?ch" unfolding pools_inv_def Let_def e
  proof (intro conjI ballI)
    show "pool_free (?P\<lparr>items := (items ?P)(i := c)\<rparr>) F" "pool_free (p\<lparr>items := (items ?Q)(j := m)\<rparr>) G'"
      using d(1) G(2) by (simp_all add: pool_free_def)
    show "mset (F @ under_way ?h s) = mset [0..<unat (pl_num (?P\<lparr>items := (items ?P)(i := c)\<rparr>))]" using d(3) by simp
    show "mset (G' @ concat (map ?ch (under_way ?h s))) = mset [0..<unat (pl_num (p\<lparr>items := (items ?Q)(j := m)\<rparr>))]"
      using d(4) unfolding mset_append conc G(1) by (simp add: pe)
    show "mset (accepted s) = mset (map bio_id (request_bio_list s)) +
        mset (map (\<lambda>x. the (bc_bio (items (?P\<lparr>items := (items ?P)(i := c)\<rparr>) x))) (under_way ?h s)) + mset (hand_bio ?h) + mset (map fst (bio_ends s))"
      unfolding it bios by (rule d(11))
    show "hand_named ?h (items (?P\<lparr>items := (items ?P)(i := c)\<rparr>))" using pi by (simp add: pools_inv_def Let_def c_def)
  qed (use chains live e(3) in \<open>simp_all\<close>)
  moreover have "request_ring_inv N ?h ?s \<and> completion_ring_inv M ?s \<and> groups_inv ?s"
    by (rule rings_frame [OF rr cr gr]) (simp_all add: set_bvec_def set_ctx_def)
  ultimately show "blk_inv N M ?h (set_bvec j \<lparr>bvc_next = bc_bvctx (items ?P i), bvc_dma_addr = da, bvc_size = n, bvc_dir = dir\<rparr>
      (set_ctx i ((items ?P i)\<lparr>bc_bvctx := Some j\<rparr>) (s\<lparr>bvec_context_pool := p, pages := pages s @ [Page_mapped da n dir]\<rparr>)))"
    unfolding blk_inv_def m_def c_def by blast
qed

text \<open>A bio leaves the queue, gets a context, and loses it again when its transfer fails.\<close>

lemma dequeue_inv:
  assumes "blk_inv N M Idle s" "request_bio_list s = b # bs"
  shows "blk_inv N M (Held (bio_id b) (last_add (request_ring s))) (s\<lparr>request_bio_count := request_bio_count s - 1, request_bio_list := bs\<rparr>)"
proof -
  let ?s = "s\<lparr>request_bio_count := request_bio_count s - 1, request_bio_list := bs\<rparr>"
  have rr: "request_ring_inv N Idle s" and cr: "completion_ring_inv M s" and gr: "groups_inv s" using assms(1) by (simp_all add: blk_inv_def)
  obtain F G ch where pi: "pools_inv Idle s F G ch" using assms(1) by (auto simp: blk_inv_def)
  have "pools_inv (Held (bio_id b) (last_add (request_ring s))) ?s F G ch"
    using pi assms(2) by (simp add: pools_inv_def Let_def under_way_def)
  moreover have "request_ring_inv N (Held (bio_id b) (last_add (request_ring s))) ?s"
    using rr by (simp add: request_ring_inv_def rq_num_def Let_def)
  moreover have "completion_ring_inv M ?s" using cr by (simp add: completion_ring_inv_def cq_num_def Let_def)
  moreover have "groups_inv ?s" using gr assms(2) by (simp add: groups_inv_def)
  ultimately show ?thesis unfolding blk_inv_def by blast
qed

lemma bio_end_inv:
  assumes "blk_inv N M (Held b la) s"
  shows "blk_inv N M Idle (vcablk_disk_bio_end b e s)" and "last_add (request_ring (vcablk_disk_bio_end b e s)) = la"
proof -
  have rr: "request_ring_inv N (Held b la) s" and cr: "completion_ring_inv M s" and gr: "groups_inv s" using assms(1) by (simp_all add: blk_inv_def)
  obtain F G ch where pi: "pools_inv (Held b la) s F G ch" using assms(1) by (auto simp: blk_inv_def)
  have la: "last_add (request_ring s) = la" "request_ring_alloc s = la" using rr by (simp_all add: request_ring_inv_def Let_def)
  then show "last_add (request_ring (vcablk_disk_bio_end b e s)) = la" by (simp add: vcablk_disk_bio_end_def)
  let ?s = "vcablk_disk_bio_end b e s"
  have "pools_inv Idle ?s F G ch"
    using pi by (simp add: pools_inv_def Let_def under_way_def vcablk_disk_bio_end_def)
  moreover have "request_ring_inv N Idle ?s" using rr la by (simp add: request_ring_inv_def rq_num_def Let_def vcablk_disk_bio_end_def)
  moreover have "completion_ring_inv M ?s" using cr by (simp add: completion_ring_inv_def cq_num_def Let_def vcablk_disk_bio_end_def)
  moreover have "groups_inv ?s" using gr by (simp add: groups_inv_def vcablk_disk_bio_end_def)
  ultimately show "blk_inv N M Idle ?s" unfolding blk_inv_def by blast
qed

lemma context_inv:
  assumes "blk_inv N M (Held b la) s" and pop: "vcablk_pool_pop (bio_context_pool s) = (Some i, p)"
  shows "blk_inv N M (Building i b la []) (set_ctx i \<lparr>bc_id = of_nat i + 1, bc_bio = Some b, bc_bvctx = None\<rparr> (s\<lparr>bio_context_pool := p\<rparr>))"
proof -
  let ?h = "Building i b la []" and ?P = "bio_context_pool s" and ?Q = "bvec_context_pool s"
  have rr: "request_ring_inv N (Held b la) s" and cr: "completion_ring_inv M s" and gr: "groups_inv s" using assms(1) by (simp_all add: blk_inv_def)
  obtain F G ch where pi: "pools_inv (Held b la) s F G ch" using assms(1) by (auto simp: blk_inv_def)
  note d = pools_invD [OF pi]
  obtain F' where F: "F = i # F'" "pool_free p F'" and pe: "pl_num p = pl_num ?P" "items p = items ?P"
    using pop_step [OF d(1)] pop by (auto simp: vcablk_pool_pop_def Let_def split: if_splits)
  define c where "c = \<lparr>bc_id = of_nat i + 1, bc_bio = Some b, bc_bvctx = None :: nat option\<rparr>"
  let ?s = "set_ctx i c (s\<lparr>bio_context_pool := p\<rparr>)" and ?us = "under_way (Held b la) s"
  let ?ch = "ch(i := [])"
  have e: "bio_context_pool ?s = p\<lparr>items := (items ?P)(i := c)\<rparr>" "bvec_context_pool ?s = ?Q" "pages ?s = pages s"
    "under_way ?h ?s = ?us @ [i]" "bio_ends ?s = bio_ends s" "request_bio_list ?s = request_bio_list s" "accepted ?s = accepted s"
    using pe by (simp_all add: set_ctx_def under_way_def)
  have iu: "i \<notin> set ?us" using d(5) F(1) by auto
  have cm: "map ?ch ?us = map ch ?us" using iu by auto
  have conc: "concat (map ?ch (?us @ [i])) = concat (map ch ?us)" unfolding map_append concat_append cm by simp
  have ctx: "bc_id (((items ?P)(i := c)) x) = ctx_cookie x \<and> bc_bio (((items ?P)(i := c)) x) \<noteq> None \<and>
      bvec_chain (items ?Q) (bc_bvctx (((items ?P)(i := c)) x)) (?ch x)" if "x \<in> set (?us @ [i])" for x
    using d(9) [of x] that by (cases "x = i") (simp_all add: c_def ctx_cookie_def)
  have bios: "map (\<lambda>x. the (bc_bio (((items ?P)(i := c)) x))) (?us @ [i]) = map (\<lambda>x. the (bc_bio (items ?P x))) ?us @ [b]"
    using iu by (auto simp: c_def)
  have it: "items (p\<lparr>items := (items ?P)(i := c)\<rparr>) = (items ?P)(i := c)" by simp
  have "pools_inv ?h ?s F' G ?ch" unfolding pools_inv_def Let_def e it bios conc
  proof (intro conjI ballI)
    show "pool_free (p\<lparr>items := (items ?P)(i := c)\<rparr>) F'" "pool_free ?Q G" using F(2) d(2) by (simp_all add: pool_free_def)
    show "mset (F' @ ?us @ [i]) = mset [0..<unat (pl_num (p\<lparr>items := (items ?P)(i := c)\<rparr>))]" using d(3) F(1) pe by simp
    show "mset (accepted s) = mset (map bio_id (request_bio_list s)) + mset (map (\<lambda>x. the (bc_bio (items ?P x))) ?us @ [b]) +
        mset (hand_bio ?h) + mset (map fst (bio_ends s))" using d(11) by simp
    show "hand_named ?h ((items ?P)(i := c))" by (simp add: c_def)
  qed (use ctx d(4,10) in \<open>simp_all\<close>)
  moreover have ri: "request_ring_inv N ?h s" using rr rb.window_empty rb.add_0
    by (auto simp: request_ring_inv_def Let_def)
  moreover have "request_ring_inv N ?h ?s \<and> completion_ring_inv M ?s \<and> groups_inv ?s"
    by (rule rings_frame [OF ri cr gr]) (simp_all add: set_ctx_def pe)
  ultimately show ?thesis unfolding blk_inv_def c_def by blast
qed

lemma break_inv:
  assumes "blk_inv N M (Building i b la es) s"
  shows "\<exists>s'. vcablk_disk_request_break (Some i) s = Some (Ret s') \<and> blk_inv N M (Held b la) s'"
proof -
  let ?h = "Building i b la es"
  have rr: "request_ring_inv N ?h s" and cr: "completion_ring_inv M s" and gr: "groups_inv s" using assms(1) by (simp_all add: blk_inv_def)
  obtain F G ch where pi: "pools_inv ?h s F G ch" using assms(1) by (auto simp: blk_inv_def)
  note d = pools_invD [OF pi]
  let ?d = "s\<lparr>request_ring_alloc := last_add (request_ring s)\<rparr>" and ?P = "bio_context_pool s" and ?Q = "bvec_context_pool s"
  obtain us where us: "under_way ?h s = us @ [i]"
    by (simp add: under_way_def)
  have i: "i < unat (pl_num ?P)" "i \<notin> set F" "distinct (G @ ch i)" "\<forall>j \<in> set (ch i). j < unat (pl_num ?Q)"
    "bvec_chain (items ?Q) (bc_bvctx (items ?P i)) (ch i)" using d(5,6,7,8,9) us by auto
  obtain p q where pq: "vcablk_disk_request_clean i ?d = Some (Ret (?d\<lparr>pages := pages s @ map (unmapped (items ?Q)) (ch i),
      bvec_context_pool := q, bio_context_pool := p\<rparr>))"
    "pool_free p (F @ [i])" "items p = items ?P" "pl_num p = pl_num ?P" "pool_free q (G @ ch i)" "items q = items ?Q" "pl_num q = pl_num ?Q"
    using request_clean [of ?d F i "ch i" G] d(1,2) i by auto
  let ?s = "?d\<lparr>pages := pages s @ map (unmapped (items ?Q)) (ch i), bvec_context_pool := q, bio_context_pool := p\<rparr>"
  have b: "bc_bio (items ?P i) = Some b" using pi by (simp add: pools_inv_def Let_def)
  have uw: "under_way (Held b la) ?s = us" using us by (simp add: under_way_def)
  have "pools_inv (Held b la) ?s (F @ [i]) (G @ ch i) ch" unfolding pools_inv_def Let_def uw
  proof (intro conjI ballI)
    show "mset (accepted ?s) = mset (map bio_id (request_bio_list ?s)) + mset (map (\<lambda>x. the (bc_bio (items (bio_context_pool ?s) x))) us) +
        mset (hand_bio (Held b la)) + mset (map fst (bio_ends ?s))"
      using d(11) us b pq(3) by simp
    show "mset ((F @ [i]) @ us) = mset [0..<unat (pl_num (bio_context_pool ?s))]" using d(3) us pq(4) by simp
    show "mset ((G @ ch i) @ concat (map ch us)) = mset [0..<unat (pl_num (bvec_context_pool ?s))]" using d(4) us pq(7) by (simp add: ac_simps)
    show "mset (concat (map mapping (pages ?s))) = mset (concat (map unmapping (pages ?s))) +
        mset (map (page_of (items (bvec_context_pool ?s))) (concat (map ch us)))"
      using d(10) us pq(6) by (simp add: ac_simps)
  qed (use d(9) us pq in \<open>simp_all\<close>)
  moreover have ri: "request_ring_inv N (Held b la) ?d" using rr by (auto simp: request_ring_inv_def rq_num_def Let_def)
  moreover have "completion_ring_inv M ?d" "groups_inv ?d" using cr gr by (simp_all add: completion_ring_inv_def cq_num_def groups_inv_def Let_def)
  then have "request_ring_inv N (Held b la) ?s \<and> completion_ring_inv M ?s \<and> groups_inv ?s"
    by (intro rings_frame [OF ri]) (simp_all add: pq(4))
  ultimately show ?thesis using pq(1) unfolding blk_inv_def by (auto simp: vcablk_disk_request_break_def)
qed

end
