(* ===== verification/Blk_Bio.thy ===== *)
theory Blk_Bio
  imports Blk_Thread
begin

text \<open>
  The transfer of a bio by the thread of the front end, step by step, and the machine of both sides as an
  instance of the contract of machines.
\<close>

section \<open>The transfer of a bio\<close>

text \<open>What happens during sleeps keeps the invariant.\<close>

definition steady :: "nat \<Rightarrow> nat \<Rightarrow> (nat \<Rightarrow> 'f blk_sys \<Rightarrow> 'f blk_sys) \<Rightarrow> bool" where
  "steady N M others \<longleftrightarrow> (\<forall>h k s. blk_inv N M h s \<longrightarrow> blk_inv N M h (others k s))"

lemma wait_event_inv:
  assumes "steady N M others" "blk_inv N M h s" "wait_event others cond s = (ok, s')"
  shows "blk_inv N M h s'" "ok \<Longrightarrow> cond s'"
proof -
  have "blk_inv N M h (s\<lparr>sleeps := sleeps s + 1\<rparr>)" by (rule blk_inv_frame [OF assms(2)]) simp_all
  then have "blk_inv N M h (others (sleeps s) (s\<lparr>sleeps := sleeps s + 1\<rparr>))" using assms(1) by (simp add: steady_def)
  then show "blk_inv N M h s'" "ok \<Longrightarrow> cond s'" using assms(2,3) by (auto simp: wait_event_def Let_def split: if_splits)
qed

lemma map_page_inv:
  assumes "steady N M others" "blk_inv N M (Building i b la es) s"
  shows "\<exists>da s'. vcablk_disk_map_page others i v dir s = Ret (da, s') \<and> blk_inv N M (Building i b la es) s'"
proof -
  obtain ok s1 where w: "wait_event others (\<lambda>d. vcablk_is_available (bvec_context_pool d) \<or> stopping d) s = (ok, s1)" by (cases rule: prod.exhaust)
  have s1: "blk_inv N M (Building i b la es) s1" by (rule wait_event_inv(1) [OF assms w])
  obtain r p where pop: "vcablk_pool_pop (bvec_context_pool s1) = (r, p)" by (cases rule: prod.exhaust)
  show ?thesis
  proof (cases "ok \<and> r \<noteq> None")
    case False
    then show ?thesis using w s1 pop by (auto simp: vcablk_disk_map_page_def)
  next
    case True
    then obtain j where j: "r = Some j" by auto
    note m = map_inv [OF s1 pop [unfolded j]]
    let ?s2 = "s1\<lparr>bvec_context_pool := p\<rparr>"
    show ?thesis
    proof (cases "map_page ?s2 (length (pages ?s2)) v dir")
      case None
      obtain q where "vcablk_pool_push (Some j) p = Ret q" "blk_inv N M (Building i b la es) (s1\<lparr>bvec_context_pool := q\<rparr>)"
        using m(1) by blast
      then show ?thesis using w pop j True None by (simp add: vcablk_disk_map_page_def Let_def)
    next
      case (Some da)
      then show ?thesis using w pop j True m(2) [of da "ucast (bv_len v)" dir] by (simp add: vcablk_disk_map_page_def Let_def)
    qed
  qed
qed

text \<open>What a step asks for, as the back end sees it.\<close>

definition asked :: "bio_vec option \<Rightarrow> u8 \<Rightarrow> u64 \<Rightarrow> u64 \<Rightarrow> u8 \<times> u64 \<times> u64" where
  "asked v k sector n = (case v of None \<Rightarrow> (REQUEST_SYNC, 0, 0) | Some _ \<Rightarrow> (k, sector, n))"

definition step_ok :: "bio_vec option \<Rightarrow> u8 \<Rightarrow> bool" where
  "step_ok v k \<longleftrightarrow> (if v = None then k = REQUEST_SYNC else k = REQUEST_READ \<or> k = REQUEST_WRITE)"

lemma request_step_inv:
  assumes "steady N M others" "blk_inv N M (Building i b la es) s" "step_ok v k"
  shows "\<exists>ret s' es'. vcablk_disk_request_step others v i k sector n s = Ret (ret, s') \<and> blk_inv N M (Building i b la es') s' \<and>
    (ret = 0 \<longrightarrow> (\<exists>r. es' = es @ [r] \<and> rq_cookie r = ctx_cookie i \<and> request_view r = asked v k sector n))"
proof -
  obtain ok s1 where w: "wait_event others (\<lambda>d. ring_room d \<or> stopping d) s = (ok, s1)" by (cases rule: prod.exhaust)
  have s1: "blk_inv N M (Building i b la es) s1" by (rule wait_event_inv(1) [OF assms(1,2) w])
  show ?thesis
  proof (cases "ok \<and> ring_room s1")
    case False
    then have "vcablk_disk_request_step others v i k sector n s = Ret (- EBUSY, s1)"
      using w by (auto simp: vcablk_disk_request_step_def vcablk_disk_request_alloc_next_def)
    then show ?thesis using s1 by (auto simp: EBUSY_def)
  next
    case True
    let ?k = "VCA_RB_COUNTER_TO_IDX (request_ring_alloc s1) (rq_num s1)"
    let ?s1 = "s1\<lparr>request_ring_alloc := VCA_RB_COUNTER_ADD (request_ring_alloc s1) 1 (rq_num s1)\<rparr>"
    let ?f = "\<lambda>r. r\<lparr>request_type := k, rq_cookie := bc_id (items (bio_context_pool ?s1) i)\<rparr>"
    have al: "vcablk_disk_request_alloc_next others s = (Some ?k, ?s1)"
      using w True by (simp add: vcablk_disk_request_alloc_next_def)
    define r where "r = ?f (elems (request_ring s1) ?k)"
    have s2: "blk_inv N M (Building i b la (es @ [r])) (set_request ?k ?f ?s1)"
      using put_request_inv(1) [OF s1, of ?f] True unfolding r_def by blast
    have kp: "?k = rb_pos N (rb_add N la (length es))" using put_request_inv(2) [OF s1] True by blast
    have id: "bc_id (items (bio_context_pool s1) i) = ctx_cookie i"
    proof -
      obtain F G ch where "pools_inv (Building i b la es) s1 F G ch" using s1 by (auto simp: blk_inv_def)
      then show ?thesis using pools_invD(9) by (fastforce simp: under_way_def)
    qed
    have rc: "rq_cookie r = ctx_cookie i" "request_type r = k" using id by (simp_all add: r_def)
    show ?thesis
    proof (cases v)
      case None
      then have "vcablk_disk_request_step others v i k sector n s = Ret (0, set_request ?k ?f ?s1)"
        using al by (simp add: vcablk_disk_request_step_def Let_def)
      then show ?thesis using s2 rc None assms(3) by (auto simp: asked_def step_ok_def request_view_def)
    next
      case (Some bv)
      then have kk: "k = REQUEST_READ \<or> k = REQUEST_WRITE" using assms(3) by (simp add: step_ok_def)
      let ?dir = "if k = REQUEST_WRITE then DMA_TO_DEVICE else DMA_FROM_DEVICE"
      obtain da s3 where m: "vcablk_disk_map_page others i bv ?dir (set_request ?k ?f ?s1) = Ret (da, s3)"
        "blk_inv N M (Building i b la (es @ [r])) s3" using map_page_inv [OF assms(1) s2] by blast
      let ?g = "\<lambda>r. r\<lparr>rq_sectors_num := n, rq_sector := sector, phys_buff := da\<rparr>"
      have e: "vcablk_disk_request_step others v i k sector n s =
          (if da = 0 then Ret (- ENOMEM, s3) else Ret (0, set_request ?k ?g s3))"
        using al m(1) Some by (simp add: vcablk_disk_request_step_def Let_def) (use kk in auto)
      have "blk_inv N M (Building i b la (es @ [?g r])) (set_request ?k ?g s3)" by (rule change_request_inv [OF m(2) kp])
      moreover have "request_view (?g r) = asked v k sector n"
        using kk rc Some by (auto simp: request_view_def asked_def request_types)
      moreover have "rq_cookie (?g r) = ctx_cookie i" using rc by simp
      ultimately show ?thesis unfolding e using m(2) by (cases "da = 0") (auto simp: ENOMEM_def)
    qed
  qed
qed

lemma flush_step_inv:
  assumes "steady N M others" "blk_inv N M (Building i b la es) s"
  shows "\<exists>ret s' es'. flush_step others i f s = Ret (ret, s') \<and> blk_inv N M (Building i b la es') s' \<and>
    (ret = 0 \<longrightarrow> (\<exists>rs. es' = es @ rs \<and> (\<forall>r \<in> set rs. rq_cookie r = ctx_cookie i) \<and> map request_view rs = flush_requests f))"
proof (cases f)
  case True
  obtain ret s' es' where r: "vcablk_disk_request_step others None i REQUEST_SYNC 0 0 s = Ret (ret, s')" "blk_inv N M (Building i b la es') s'"
    "ret = 0 \<Longrightarrow> (\<exists>r. es' = es @ [r] \<and> rq_cookie r = ctx_cookie i \<and> request_view r = asked None REQUEST_SYNC 0 0)"
    using request_step_inv [OF assms, of None REQUEST_SYNC 0 0] by (auto simp: step_ok_def)
  have "\<exists>rs. es' = es @ rs \<and> (\<forall>r \<in> set rs. rq_cookie r = ctx_cookie i) \<and> map request_view rs = flush_requests f" if ret: "ret = 0"
  proof -
    obtain r where "es' = es @ [r]" "rq_cookie r = ctx_cookie i" "request_view r = asked None REQUEST_SYNC 0 0" using r(3) [OF ret] by blast
    then show ?thesis using True by (intro exI [of _ "[r]"]) (simp add: flush_requests_def asked_def)
  qed
  then show ?thesis using r(1,2) True by (auto simp: flush_step_def EIO_def)
next
  case False
  then show ?thesis using assms(2) by (auto simp: flush_step_def flush_requests_def)
qed

lemma xfer_segments_inv:
  assumes "steady N M others" "k = REQUEST_READ \<or> k = REQUEST_WRITE"
  shows "blk_inv N M (Building i b la es) s \<Longrightarrow> \<exists>ret s' es'. xfer_segments others i k sector vs s = Ret (ret, s') \<and> blk_inv N M (Building i b la es') s' \<and>
    (ret = 0 \<longrightarrow> (\<exists>rs. es' = es @ rs \<and> (\<forall>r \<in> set rs. rq_cookie r = ctx_cookie i) \<and> map request_view rs = segment_requests k sector vs))"
proof (induction vs arbitrary: sector es s)
  case (Cons v vs)
  have so: "step_ok (Some v) k" using assms(2) by (simp add: step_ok_def)
  obtain ret s1 es1 where r: "vcablk_disk_request_step others (Some v) i k sector (segment_sectors v) s = Ret (ret, s1)"
    "blk_inv N M (Building i b la es1) s1"
    "ret = 0 \<Longrightarrow> (\<exists>r. es1 = es @ [r] \<and> rq_cookie r = ctx_cookie i \<and> request_view r = asked (Some v) k sector (segment_sectors v))"
    using request_step_inv [OF assms(1) Cons.prems so, of sector "segment_sectors v"] by blast
  show ?case
  proof (cases "ret = 0")
    case True
    obtain r where e: "es1 = es @ [r]" "rq_cookie r = ctx_cookie i" "request_view r = (k, sector, segment_sectors v)"
      using r(3) [OF True] by (auto simp: asked_def)
    obtain ret' s2 es2 where q: "xfer_segments others i k (sector + segment_sectors v) vs s1 = Ret (ret', s2)" "blk_inv N M (Building i b la es2) s2"
      "ret' = 0 \<Longrightarrow> (\<exists>rs. es2 = es1 @ rs \<and> (\<forall>r \<in> set rs. rq_cookie r = ctx_cookie i) \<and> map request_view rs = segment_requests k (sector + segment_sectors v) vs)"
      using Cons.IH [OF r(2)] by blast
    have "\<exists>rs. es2 = es @ rs \<and> (\<forall>r \<in> set rs. rq_cookie r = ctx_cookie i) \<and> map request_view rs = segment_requests k sector (v # vs)" if "ret' = 0"
    proof -
      obtain rs where "es2 = es1 @ rs" "\<forall>r \<in> set rs. rq_cookie r = ctx_cookie i" "map request_view rs = segment_requests k (sector + segment_sectors v) vs"
        using q(3) [OF \<open>ret' = 0\<close>] by blast
      then show ?thesis using e by (intro exI [of _ "r # rs"]) simp
    qed
    then show ?thesis using r(1) q(1,2) True by auto
  next
    case False
    then show ?thesis using r(1,2) by auto
  qed
qed auto

text \<open>The requests in hand become public all at once.\<close>

definition publish_requests :: "'f blk_sys \<Rightarrow> 'f blk_sys" where
  "publish_requests s = s\<lparr>request_ring := (request_ring s)\<lparr>last_add := request_ring_alloc s\<rparr>, doorbells := doorbells s + 1\<rparr>"

lemma xfer_requests_inv:
  assumes "steady N M others" "blk_inv N M (Building i b la []) s"
  shows "\<exists>ret s' es. xfer_requests others i bio s = Ret (ret, if ret = 0 then publish_requests s' else s') \<and>
    blk_inv N M (Building i b la es) s' \<and>
    (ret = 0 \<longrightarrow> es \<noteq> [] \<and> (\<forall>r \<in> set es. rq_cookie r = ctx_cookie i) \<and> map request_view es = bio_requests bio)"
proof -
  let ?k = "if bi_write bio then REQUEST_WRITE else REQUEST_READ"
  obtain r1 s1 e1 where 1: "flush_step others i (bi_flush bio) s = Ret (r1, s1)" "blk_inv N M (Building i b la e1) s1"
    "r1 = 0 \<Longrightarrow> (\<exists>rs. e1 = [] @ rs \<and> (\<forall>r \<in> set rs. rq_cookie r = ctx_cookie i) \<and> map request_view rs = flush_requests (bi_flush bio))"
    using flush_step_inv [OF assms, of "bi_flush bio"] by blast
  have k: "?k = REQUEST_READ \<or> ?k = REQUEST_WRITE" by simp
  obtain r2 s2 e2 where 2: "xfer_segments others i ?k (bi_sector bio) (bi_segs bio) s1 = Ret (r2, s2)" "blk_inv N M (Building i b la e2) s2"
    "r2 = 0 \<Longrightarrow> (\<exists>rs. e2 = e1 @ rs \<and> (\<forall>r \<in> set rs. rq_cookie r = ctx_cookie i) \<and> map request_view rs = segment_requests ?k (bi_sector bio) (bi_segs bio))"
    using xfer_segments_inv [OF assms(1) k 1(2), of "bi_sector bio" "bi_segs bio"] by blast
  obtain r3 s3 e3 where 3: "flush_step others i (bi_flush bio) s2 = Ret (r3, s3)" "blk_inv N M (Building i b la e3) s3"
    "r3 = 0 \<Longrightarrow> (\<exists>rs. e3 = e2 @ rs \<and> (\<forall>r \<in> set rs. rq_cookie r = ctx_cookie i) \<and> map request_view rs = flush_requests (bi_flush bio))"
    using flush_step_inv [OF assms(1) 2(2), of "bi_flush bio"] by blast
  show ?thesis
  proof (cases "r1 = 0 \<and> r2 = 0 \<and> r3 = 0")
    case False
    then show ?thesis using 1(1,2) 2(1,2) 3(1,2)
      by (cases "r1 = 0"; cases "r2 = 0") (auto simp: xfer_requests_def simp del: split_paired_Ex)
  next
    case True
    then have a: "\<forall>r \<in> set e1. rq_cookie r = ctx_cookie i" "map request_view e1 = flush_requests (bi_flush bio)" using 1(3) by auto
    obtain b' where b': "e2 = e1 @ b'" "\<forall>r \<in> set b'. rq_cookie r = ctx_cookie i"
      "map request_view b' = segment_requests ?k (bi_sector bio) (bi_segs bio)" using 2(3) True by blast
    obtain c where c: "e3 = e2 @ c" "\<forall>r \<in> set c. rq_cookie r = ctx_cookie i" "map request_view c = flush_requests (bi_flush bio)"
      using 3(3) True by blast
    have e3: "(\<forall>r \<in> set e3. rq_cookie r = ctx_cookie i) \<and> map request_view e3 = bio_requests bio"
      using a b' c by (auto simp: bio_requests_def)
    have x: "xfer_requests others i bio s = Ret (vcablk_disk_request_start s3)"
      using True 1(1) 2(1) 3(1) by (simp add: xfer_requests_def)
    have rr: "request_ring_inv N (Building i b la e3) s3" using 3(2) by (simp add: blk_inv_def)
    then have o: "rb_size_ok N" "rb_cnt_ok N la" "last_add (request_ring s3) = la" "request_ring_alloc s3 = rb_add N la (length e3)"
      "length e3 \<le> N" by (auto simp: request_ring_inv_def Let_def)
    have "rb_used N la (rb_add N la (length e3)) = length e3"
      using rb.used_put [OF o(1,2,2), of "length e3"] rb.used_self [OF o(1,2)] o(5) rb_size_bounds [OF o(1)] by simp
    then have ne: "la = rb_add N la (length e3) \<longleftrightarrow> e3 = []"
      using rb.used_zero_iff [OF o(1,2) rb.add_ok [OF o(1,2)], of "length e3"] by auto
    show ?thesis
    proof (cases "e3 = []")
      case True
      then show ?thesis using x ne o 3(2)
        by (intro exI [of _ "- EINVAL"] exI [of _ s3] exI [of _ e3]) (simp add: vcablk_disk_request_start_def EINVAL_def)
    next
      case False
      then show ?thesis using x ne o 3(2) e3
        by (intro exI [of _ 0] exI [of _ s3] exI [of _ e3]) (simp add: vcablk_disk_request_start_def publish_requests_def)
    qed
  qed
qed

lemma publish_inv:
  assumes "blk_inv N M (Building i b la es) s" "es \<noteq> []" "length es \<le> VCABLK_MAX_PARTS_PER_REQUEST"
    and "\<forall>r \<in> set es. rq_cookie r = ctx_cookie i" "map request_view es = bio_requests bio"
  shows "blk_inv N M Idle ((publish_requests s)\<lparr>posted := posted s @ [(i, es)], published := published s @ [(bio, es)]\<rparr>)"
    and "rb.window (elems (request_ring s)) 0 N la (request_ring_alloc s) = es"
proof -
  let ?h = "Building i b la es" and ?r = "request_ring s"
  let ?s = "(publish_requests s)\<lparr>posted := posted s @ [(i, es)], published := published s @ [(bio, es)]\<rparr>"
  have rr: "request_ring_inv N ?h s" and cr: "completion_ring_inv M s" and gr: "groups_inv s" using assms(1) by (simp_all add: blk_inv_def)
  obtain F G ch where pi: "pools_inv ?h s F G ch" using assms(1) by (auto simp: blk_inv_def)
  note r = rr [unfolded request_ring_inv_def Let_def]
  have o: "rb_size_ok N" "rb_cnt_ok N (last_used ?r)" "rb_cnt_ok N la" "request_ring_alloc s = rb_add N la (length es)"
    "rb_used N (last_used ?r) la + length es \<le> N" "last_add ?r = la" using r by auto
  have al: "rb_cnt_ok N (request_ring_alloc s)" unfolding o(4) by (rule rb.add_ok [OF o(1,3)])
  show w: "rb.window (elems ?r) 0 N la (request_ring_alloc s) = es" using r by auto
  have wl: "rb.window (elems ?r) 0 N (last_used ?r) la = concat (map snd (posted s))" using r o(6) by auto
  have u: "rb_used N (last_used ?r) (request_ring_alloc s) = rb_used N (last_used ?r) la + length es"
    unfolding o(4) using o(5) rb_size_bounds [OF o(1)] by (intro rb.used_put [OF o(1-3)]) auto
  have ul: "rb_used N la (request_ring_alloc s) = length es" using rb.length_window [of "elems ?r" 0 N la "request_ring_alloc s"] w by simp
  have "rb.window (elems ?r) 0 N (last_used ?r) (request_ring_alloc s) =
      rb.window (elems ?r) 0 N (last_used ?r) la @ rb.window (elems ?r) 0 N la (request_ring_alloc s)"
    unfolding rb.window_def u ul circ_split
    by (simp add: rb.pos_writer [OF o(1-3)] circ_mod)
  then have "request_ring_inv N Idle ?s"
    using r u o(1,5) w wl al assms(2-4) by (simp add: request_ring_inv_def rq_num_def Let_def publish_requests_def)
  moreover have "completion_ring_inv M ?s" using cr by (simp add: completion_ring_inv_def cq_num_def Let_def publish_requests_def)
  moreover have "groups_inv ?s" using gr assms(5) by (simp add: groups_inv_def publish_requests_def)
  moreover have "pools_inv Idle ?s F G ch"
  proof -
    have "pools_inv ?h (?s\<lparr>posted := posted s\<rparr>) F G ch" using pi by (simp add: pools_inv_def Let_def under_way_def publish_requests_def)
    moreover have "mset (under_way Idle ?s) = mset (under_way ?h (?s\<lparr>posted := posted s\<rparr>))" by (simp add: under_way_def)
    moreover have "set (under_way Idle ?s) = set (under_way ?h (?s\<lparr>posted := posted s\<rparr>))" by (auto simp add: under_way_def)
    ultimately show ?thesis using mset_concat_map [of "under_way Idle ?s" "under_way ?h (?s\<lparr>posted := posted s\<rparr>)" ch]
      by (simp add: pools_inv_def Let_def)
  qed
  ultimately show "blk_inv N M Idle ?s" unfolding blk_inv_def by blast
qed

lemma window_none:
  assumes "blk_inv N M h s" "h = Idle \<or> h = Held b la"
  shows "rb_size_ok N" "rb_cnt_ok N (last_add (request_ring s))" "rq_num s = N"
  using assms by (auto simp: blk_inv_def request_ring_inv_def Let_def)

lemma get_bio_context_inv:
  assumes "steady N M others" "blk_inv N M (Held b la) s"
  shows "\<exists>r s'. vcablk_disk_get_bio_context others s = (r, s') \<and> (case r of None \<Rightarrow> blk_inv N M (Held b la) s'
    | Some i \<Rightarrow> blk_inv N M (Building i b la []) (set_ctx i ((items (bio_context_pool s') i)\<lparr>bc_bio := Some b\<rparr>) s'))"
proof -
  obtain ok s1 where w: "wait_event others (\<lambda>d. vcablk_is_available (bio_context_pool d) \<or> stopping d) s = (ok, s1)" by (cases rule: prod.exhaust)
  have s1: "blk_inv N M (Held b la) s1" by (rule wait_event_inv(1) [OF assms w])
  obtain r p where pop: "vcablk_pool_pop (bio_context_pool s1) = (r, p)" by (cases rule: prod.exhaust)
  show ?thesis
  proof (cases "\<not> ok \<or> stopping s1 \<or> r = None")
    case True
    then have "vcablk_disk_get_bio_context others s = (None, s1)" using w pop by (auto simp: vcablk_disk_get_bio_context_def)
    then show ?thesis using s1 by simp
  next
    case False
    then obtain i where i: "r = Some i" by auto
    let ?c = "\<lparr>bc_id = of_nat i + 1, bc_bio = None, bc_bvctx = None\<rparr>"
    let ?s = "set_ctx i ?c (s1\<lparr>bio_context_pool := p\<rparr>)"
    have g: "vcablk_disk_get_bio_context others s = (Some i, ?s)" using w pop False i by (simp add: vcablk_disk_get_bio_context_def)
    have "set_ctx i ((items (bio_context_pool ?s) i)\<lparr>bc_bio := Some b\<rparr>) ?s =
        set_ctx i \<lparr>bc_id = of_nat i + 1, bc_bio = Some b, bc_bvctx = None\<rparr> (s1\<lparr>bio_context_pool := p\<rparr>)"
      by (simp add: set_ctx_def)
    then show ?thesis using g context_inv [OF s1 pop [unfolded i]] by simp
  qed
qed

lemma xfer_bio_inv:
  assumes "steady N M others" "blk_inv N M (Held (bio_id bio) la) s" "length (bio_requests bio) \<le> VCABLK_MAX_PARTS_PER_REQUEST"
  shows "\<exists>ret s'. vcablk_disk_xfer_bio_async others bio s = Some (Ret (ret, s')) \<and>
    (ret \<noteq> 0 \<longrightarrow> blk_inv N M Idle s' \<and> last_add (request_ring s') = la) \<and>
    (ret = 0 \<longrightarrow> (\<exists>i es. blk_inv N M Idle (s'\<lparr>posted := posted s' @ [(i, es)], published := published s' @ [(bio, es)]\<rparr>) \<and>
       es \<noteq> [] \<and> rq_cookie (hd es) = ctx_cookie i \<and> i < 65535 \<and>
       rb.window (elems (request_ring s')) 0 N la (last_add (request_ring s')) = es \<and> rq_num s' = N))"
proof -
  obtain r s1 where g: "vcablk_disk_get_bio_context others s = (r, s1)" "case r of None \<Rightarrow> blk_inv N M (Held (bio_id bio) la) s1
    | Some i \<Rightarrow> blk_inv N M (Building i (bio_id bio) la []) (set_ctx i ((items (bio_context_pool s1) i)\<lparr>bc_bio := Some (bio_id bio)\<rparr>) s1)"
    using get_bio_context_inv [OF assms(1,2)] by blast
  show ?thesis
  proof (cases r)
    case None
    then have h: "blk_inv N M (Held (bio_id bio) la) s1" using g(2) by simp
    then have "request_ring_alloc s1 = last_add (request_ring s1)" by (simp add: blk_inv_def request_ring_inv_def Let_def)
    then have "blk_inv N M (Held (bio_id bio) la) (s1\<lparr>request_ring_alloc := last_add (request_ring s1)\<rparr>)"
      by (intro blk_inv_frame [OF h]) simp_all
    note e = bio_end_inv [OF this, of "- EIO"]
    show ?thesis using g(1) None e by (simp add: vcablk_disk_xfer_bio_async_def vcablk_disk_request_break_def Let_def EIO_def)
  next
    case (Some i)
    let ?s1 = "set_ctx i ((items (bio_context_pool s1) i)\<lparr>bc_bio := Some (bio_id bio)\<rparr>) s1"
    have h: "blk_inv N M (Building i (bio_id bio) la []) ?s1" using g(2) Some by simp
    obtain ret s2 es where x: "xfer_requests others i bio ?s1 = Ret (ret, if ret = 0 then publish_requests s2 else s2)"
      "blk_inv N M (Building i (bio_id bio) la es) s2"
      "ret = 0 \<Longrightarrow> es \<noteq> [] \<and> (\<forall>r \<in> set es. rq_cookie r = ctx_cookie i) \<and> map request_view es = bio_requests bio"
      using xfer_requests_inv [OF assms(1) h, of bio] by blast
    show ?thesis
    proof (cases "ret = 0")
      case True
      note es = x(3) [OF True]
      have "length es = length (bio_requests bio)" using es by (metis length_map)
      then have le: "length es \<le> VCABLK_MAX_PARTS_PER_REQUEST" using assms(3) by simp
      note p = publish_inv [OF x(2) _ le, of bio]
      have i: "i < 65535"
      proof -
        obtain F G ch where pi: "pools_inv (Building i (bio_id bio) la es) s2 F G ch" using x(2) by (auto simp: blk_inv_def)
        then show ?thesis using pools_invD(7) [OF pi, of i] pool_freeD(1) [OF pools_invD(1) [OF pi]] by (simp add: under_way_def)
      qed
      have n: "rq_num (publish_requests s2) = N"
        using x(2) by (simp add: blk_inv_def request_ring_inv_def Let_def rq_num_def publish_requests_def)
      have "vcablk_disk_xfer_bio_async others bio s = Some (Ret (0, publish_requests s2))"
        using g(1) Some x(1) True by (simp add: vcablk_disk_xfer_bio_async_def)
      moreover have "blk_inv N M Idle ((publish_requests s2)\<lparr>posted := posted (publish_requests s2) @ [(i, es)],
          published := published (publish_requests s2) @ [(bio, es)]\<rparr>)"
        using p(1) es by (simp add: publish_requests_def)
      moreover have "rb.window (elems (request_ring (publish_requests s2))) 0 N la (last_add (request_ring (publish_requests s2))) = es"
        using p(2) es by (simp add: publish_requests_def)
      moreover have "rq_cookie (hd es) = ctx_cookie i" using es by auto
      ultimately show ?thesis using es i n by auto
    next
      case False
      obtain s3 where b: "vcablk_disk_request_break (Some i) s2 = Some (Ret s3)" "blk_inv N M (Held (bio_id bio) la) s3"
        using break_inv [OF x(2)] by blast
      have "vcablk_disk_xfer_bio_async others bio s = Some (Ret (ret, vcablk_disk_bio_end (bio_id bio) (- EIO) s3))"
        using g(1) Some x(1) False b(1) by (simp add: vcablk_disk_xfer_bio_async_def)
      then show ?thesis using bio_end_inv [OF b(2), of "- EIO"] False by simp
    qed
  qed
qed

lemma transfer_inv:
  assumes "blk_inv N M Idle s"
  shows "\<exists>s'. blk_step (Transfer scr) s = Ret s' \<and> blk_inv N M Idle s'"
proof -
  have st: "steady N M (script_sleeps scr (sleeps s))" by (simp add: steady_def script_sleeps_inv)
  note w = window_none [OF assms]
  show ?thesis
  proof (cases "request_bio_list s")
    case Nil
    have "vcablk_disk_make_request_thread (script_sleeps scr (sleeps s)) s = Some (Ret s)"
      using Nil by (simp add: vcablk_disk_make_request_thread_def)
    moreover have "new_requests s s = []" using w by (simp add: new_requests_def rb.window_empty)
    ultimately show ?thesis using assms by (simp add: Let_def)
  next
    case (Cons bio bs)
    let ?s = "s\<lparr>request_bio_count := request_bio_count s - 1, request_bio_list := bs\<rparr>" and ?la = "last_add (request_ring s)"
    have le: "length (bio_requests bio) \<le> VCABLK_MAX_PARTS_PER_REQUEST" using assms Cons by (simp add: blk_inv_def groups_inv_def)
    obtain ret s' where x: "vcablk_disk_xfer_bio_async (script_sleeps scr (sleeps s)) bio ?s = Some (Ret (ret, s'))"
      "ret \<noteq> 0 \<Longrightarrow> blk_inv N M Idle s' \<and> last_add (request_ring s') = ?la"
      "ret = 0 \<Longrightarrow> (\<exists>i es. blk_inv N M Idle (s'\<lparr>posted := posted s' @ [(i, es)], published := published s' @ [(bio, es)]\<rparr>) \<and>
       es \<noteq> [] \<and> rq_cookie (hd es) = ctx_cookie i \<and> i < 65535 \<and>
       rb.window (elems (request_ring s')) 0 N ?la (last_add (request_ring s')) = es \<and> rq_num s' = N)"
      using xfer_bio_inv [OF st dequeue_inv [OF assms Cons] le] by blast
    have t: "vcablk_disk_make_request_thread (script_sleeps scr (sleeps s)) s = Some (Ret s')"
      using Cons x(1) by (simp add: vcablk_disk_make_request_thread_def)
    show ?thesis
    proof (cases "ret = 0")
      case True
      obtain i es where e: "blk_inv N M Idle (s'\<lparr>posted := posted s' @ [(i, es)], published := published s' @ [(bio, es)]\<rparr>)"
        "es \<noteq> []" "rq_cookie (hd es) = ctx_cookie i" "i < 65535" "new_requests s s' = es"
        using x(3) [OF True] by (auto simp: new_requests_def)
      have "unat (rq_cookie (hd es)) - 1 = i" using e(3) ctx_cookie [OF e(4)] by simp
      then show ?thesis using t e Cons by (simp add: Let_def)
    next
      case False
      have "new_requests s s' = []"
        using x(2) [OF False] window_none [of N M Idle s'] by (simp add: new_requests_def rb.window_empty)
      then show ?thesis using t x(2) [OF False] by (simp add: Let_def)
    qed
  qed
qed

text \<open>The machine keeps its invariant, with nothing in hand between its operations.\<close>

interpretation blk: guarded_machine blk_step "blk_inv N M Idle" blk_guard for N M
proof
  fix s :: "'f blk_sys" and x
  assume i: "blk_inv N M Idle s" and g: "blk_guard s x"
  show "\<exists>s'. blk_step x s = Ret s' \<and> blk_inv N M Idle s'"
  proof (cases x)
    case (Side y)
    then show ?thesis using side_inv [OF i] g by simp
  next
    case (Transfer scr)
    then show ?thesis using transfer_inv [OF i] by blast
  qed
qed

end
