(* ===== verification/Blk_Dma.thy ===== *)
theory Blk_Dma
  imports Blk_Transfer
begin

text \<open>
  Transfers of the back end through the DMA engine, on a medium in memory or in a file. A part of a transfer
  is a job of the engine, which ends in the order of submission: while the thread waits for a buffer, or
  later. The lemmas follow what a state is going to be once its jobs are done: a submission adds one copy
  to it, and the end of a job changes nothing of it.
\<close>

section \<open>The medium as bytes\<close>

text \<open>\<open>content\<close> gives the bytes of a file.\<close>

definition medium_bytes :: "('f \<Rightarrow> u8 mem) \<Rightarrow> 'f vcablk_media \<Rightarrow> u8 mem" where
  "medium_bytes content m = (if md_type m = VCABLK_DISK_TYPE_FILE then content (md_file m) else md_memory m)"

text \<open>A regular file of \<open>sz\<close> bytes: what is read is what it holds, what is written replaces it.\<close>

definition file_law :: "('f \<Rightarrow> u8 mem) \<Rightarrow> nat \<Rightarrow> 'f file_ops \<Rightarrow> bool" where
  "file_law content sz ops \<longleftrightarrow>
     (\<forall>f off n. unat off + n \<le> sz \<longrightarrow> take n (snd (vfs_read ops f off n)) = map (content f) [unat off..<unat off + n]) \<and>
     (\<forall>f off bs. unat off + length bs \<le> sz \<longrightarrow>
        content (snd (vfs_write ops f off bs)) = blit (content f) (unat off) ((!) bs) 0 (length bs)) \<and>
     (\<forall>f. vfs_fsync ops f = 0)"

definition good_medium :: "('f \<Rightarrow> u8 mem) \<Rightarrow> bool \<Rightarrow> 'f vcablk_media \<Rightarrow> bool" where
  "good_medium content wr m \<longleftrightarrow> md_type m = VCABLK_DISK_TYPE_MEMORY \<or>
     md_type m = VCABLK_DISK_TYPE_FILE \<and> (wr \<longrightarrow> \<not> md_read_only m) \<and> file_law content (unat (md_size_bytes m)) (md_ops m)"

lemma blit_list: "blit m a ((!) (map f [0..<n])) 0 n = blit m a f 0 n"
  by (auto simp: blit_def fun_eq_iff)

lemma put_file_bytes_upt: "put_file_bytes (map f [a..<a + n]) m = blit m 0 f a n"
  by (auto simp: blit_def put_file_bytes_def fun_eq_iff)

lemma media_transfer_good:
  assumes "good_medium content wr m" and "off = unat (push_bit SECTOR_SHIFT sector)" and "n = unat (push_bit SECTOR_SHIFT nsec)"
    and "off + n \<le> unat (md_size_bytes m)" and "n \<le> 4096"
  shows "\<exists>m'. vcablk_media_transfer m sector nsec buf (unat BUFFER_SIZE) wr =
      Ret (0, m', if wr then buf else blit buf 0 (medium_bytes content m) off n) \<and>
    good_medium content wr m' \<and> md_size_bytes m' = md_size_bytes m \<and>
    medium_bytes content m' = (if wr then blit (medium_bytes content m) off buf 0 n else medium_bytes content m)"
proof -
  let ?o = "push_bit SECTOR_SHIFT sector" and ?n = "push_bit SECTOR_SHIFT nsec"
  have "off + n < 2 ^ 64" using assms(4) unsigned_less [of "md_size_bytes m", where ?'a = nat] by simp
  then have "unat (?o + ?n) = off + n" using assms(2,3) by (simp add: unat_word_ariths)
  then have c: "\<not> md_size_bytes m < ?o + ?n" using assms(4) by (simp add: word_less_nat_alt)
  have un: "unat (ucast ?n :: u32) = n" using assms(3,5) by (simp add: unsigned_ucast_eq take_bit_eq_mod)
  have b: "unat BUFFER_SIZE = 4096" by (simp add: BUFFER_SIZE_def)
  show ?thesis
  proof (cases "md_type m = VCABLK_DISK_TYPE_MEMORY")
    case True
    then show ?thesis using c assms(2-5) b
      by (simp add: vcablk_media_transfer_def media_transfer_mem_def Let_def medium_bytes_def good_medium_def)
  next
    case False
    then have t: "md_type m = VCABLK_DISK_TYPE_FILE" "wr \<Longrightarrow> \<not> md_read_only m" "file_law content (unat (md_size_bytes m)) (md_ops m)"
      using assms(1) by (auto simp: good_medium_def)
    show ?thesis
    proof (cases wr)
      case True
      let ?bs = "map buf [0..<n]"
      have l: "length ?bs = n" by simp
      have "content (snd (vfs_write (md_ops m) (md_file m) ?o ?bs)) = blit (content (md_file m)) off ((!) ?bs) 0 n"
        using t(3) assms(2,4) l unfolding file_law_def by metis
      then show ?thesis using True t c assms(5) b
        by (auto simp: vcablk_media_transfer_def media_transfer_file_def Let_def un file_write_def medium_bytes_def good_medium_def blit_list
            split: prod.split)
    next
      case False
      have "take n (snd (vfs_read (md_ops m) (md_file m) ?o n)) = map (content (md_file m)) [off..<off + n]"
        using t(3) assms(2,4) unfolding file_law_def by metis
      then show ?thesis using False t c assms(5) b
        by (auto simp: vcablk_media_transfer_def media_transfer_file_def Let_def un file_read_def medium_bytes_def good_medium_def put_file_bytes_upt
            split: prod.split)
    qed
  qed
qed

text \<open>So much of the state may differ after some transfers.\<close>

definition transfers :: "('f, 'a) vcablk_bcknd_disk_scheme \<Rightarrow> ('f, 'a) vcablk_bcknd_disk_scheme \<Rightarrow> bool" where
  "transfers d d' \<longleftrightarrow> d' = d\<lparr>bk_media := bk_media d', transfer_buffer_pool := transfer_buffer_pool d', dma_submitted := dma_submitted d',
     dma_jobs := dma_jobs d', bus := bus d', remaps := remaps d', bk_sleeps := bk_sleeps d'\<rparr>"

lemma transfers_refl: "transfers d d"
  by (simp add: transfers_def)

lemma transfers_trans: "transfers d d' \<Longrightarrow> transfers d' d'' \<Longrightarrow> transfers d d''"
proof -
  assume a: "transfers d d'" "transfers d' d''"
  have "d'' = (d\<lparr>bk_media := bk_media d', transfer_buffer_pool := transfer_buffer_pool d', dma_submitted := dma_submitted d',
     dma_jobs := dma_jobs d', bus := bus d', remaps := remaps d', bk_sleeps := bk_sleeps d'\<rparr>)
     \<lparr>bk_media := bk_media d'', transfer_buffer_pool := transfer_buffer_pool d'', dma_submitted := dma_submitted d'',
     dma_jobs := dma_jobs d'', bus := bus d'', remaps := remaps d'', bk_sleeps := bk_sleeps d''\<rparr>"
    using a unfolding transfers_def by simp
  then show ?thesis by (simp add: transfers_def)
qed

lemma transfersD:
  assumes "transfers d d'"
  shows "can_remap d' = can_remap d" "has_dma d' = has_dma d" "dma_cookie d' = dma_cookie d" "ack_room d' = ack_room d"
    "completion_ring d' = completion_ring d"
  using arg_cong [OF assms [unfolded transfers_def], of can_remap] arg_cong [OF assms [unfolded transfers_def], of has_dma]
    arg_cong [OF assms [unfolded transfers_def], of dma_cookie] arg_cong [OF assms [unfolded transfers_def], of ack_room]
    arg_cong [OF assms [unfolded transfers_def], of completion_ring]
  by (simp_all add: ack_room_def)

lemma transfers_put_ack: "transfers d d' \<Longrightarrow> transfers (put_ack c e d) (put_ack c e d')"
proof -
  assume a: "transfers d d'"
  have "put_ack c e d' = (put_ack c e d)\<lparr>bk_media := bk_media d', transfer_buffer_pool := transfer_buffer_pool d', dma_submitted := dma_submitted d',
     dma_jobs := dma_jobs d', bus := bus d', remaps := remaps d', bk_sleeps := bk_sleeps d'\<rparr>"
    using arg_cong [OF a [unfolded transfers_def], of "put_ack c e"] by (simp add: put_ack_def Let_def)
  then show ?thesis by (simp add: transfers_def)
qed

section \<open>Jobs that are not done\<close>

text \<open>
  The disk with its engine: the items \<open>F\<close> of the pool are free, one more is held by each job, and the jobs
  all write the medium (\<open>wr\<close>) or all read it.
\<close>

definition job_ok :: "u64 \<Rightarrow> bool \<Rightarrow> transfer_parameters \<Rightarrow> dma_job \<Rightarrow> bool" where
  "job_ok sz wr t x \<longleftrightarrow> dj_write x = wr \<and> tp_tx t \<and> tp_buffer_size t = BUFFER_SIZE \<and> (\<exists>fin. part_of t fin) \<and>
     dj_bytes x = unat (push_bit SECTOR_SHIFT (cb_nsec t)) \<and> dj_bytes x \<le> 4096 \<and>
     unat (push_bit SECTOR_SHIFT (cb_sector t)) + dj_bytes x \<le> unat sz"

definition dma_disk :: "('f \<Rightarrow> u8 mem) \<Rightarrow> bool \<Rightarrow> ('f, 'a) vcablk_bcknd_disk_scheme \<Rightarrow> 'f vcablk_media \<Rightarrow> nat list \<Rightarrow> bool" where
  "dma_disk content wr d m F \<longleftrightarrow> has_dma d \<and> (\<forall>k. 0 \<le> dma_cookie d k) \<and> bk_media d = Object m \<and> good_medium content wr m \<and>
     pool_free (transfer_buffer_pool d) F \<and> distinct (F @ map dj_param (dma_jobs d)) \<and>
     (\<forall>j \<in> set F. tp_buffer_size (tparam d j) = BUFFER_SIZE \<and> \<not> tp_tx (tparam d j)) \<and>
     (\<forall>x \<in> set (dma_jobs d). dj_param x < unat (pl_num (transfer_buffer_pool d)) \<and> job_ok (md_size_bytes m) wr (tparam d (dj_param x)) x)"

text \<open>The memory of the front end and the bytes of the medium: what a job and a whole transfer do to them.\<close>

definition copied :: "bool \<Rightarrow> nat \<Rightarrow> nat \<Rightarrow> nat \<Rightarrow> u8 mem \<times> u8 mem \<Rightarrow> u8 mem \<times> u8 mem" where
  "copied wr a off n s = (if wr then (fst s, blit (snd s) off (fst s) a n) else (blit (fst s) a (snd s) off n, snd s))"

definition job_effect :: "(nat \<Rightarrow> transfer_parameters) \<Rightarrow> dma_job \<Rightarrow> u8 mem \<times> u8 mem \<Rightarrow> u8 mem \<times> u8 mem" where
  "job_effect t x s = (if dj_write x then copied True (dj_bus x) (unat (push_bit SECTOR_SHIFT (cb_sector (t (dj_param x))))) (dj_bytes x) s
     else (blit (fst s) (dj_bus x) (tp_buffer (t (dj_param x))) 0 (dj_bytes x), snd s))"

definition to_come :: "('f \<Rightarrow> u8 mem) \<Rightarrow> ('f, 'a) vcablk_bcknd_disk_scheme \<Rightarrow> 'f vcablk_media \<Rightarrow> u8 mem \<times> u8 mem" where
  "to_come content d m = fold (job_effect (tparam d)) (dma_jobs d) (bus d, medium_bytes content m)"

definition unmaps :: "(nat \<Rightarrow> transfer_parameters) \<Rightarrow> dma_job list \<Rightarrow> remap_event list" where
  "unmaps t xs = concat (map (\<lambda>x. case cb_remapped (t (dj_param x)) of None \<Rightarrow> [] | Some a \<Rightarrow> [Unmapped a]) xs)"

definition all_remaps :: "('f, 'a) vcablk_bcknd_disk_scheme \<Rightarrow> remap_event multiset" where
  "all_remaps d = mset (remaps d) + mset (unmaps (tparam d) (dma_jobs d))"

lemma copied_copied: "copied wr (a + k) (off + k) n (copied wr a off k s) = copied wr a off (k + n) s"
  by (simp add: copied_def blit_blit)

lemma job_effects_cong:
  "(\<And>x. x \<in> set xs \<Longrightarrow> t (dj_param x) = t' (dj_param x)) \<Longrightarrow> fold (job_effect t) xs s = fold (job_effect t') xs s"
  by (rule fold_cong) (auto simp: job_effect_def)

lemma unmaps_cong:
  "(\<And>x. x \<in> set xs \<Longrightarrow> t (dj_param x) = t' (dj_param x)) \<Longrightarrow> unmaps t xs = unmaps t' xs"
  unfolding unmaps_def by (rule arg_cong [of _ _ concat]) (rule map_cong, simp_all)

lemma reads_keep_medium: "(\<And>x. x \<in> set xs \<Longrightarrow> \<not> dj_write x) \<Longrightarrow> snd (fold (job_effect t) xs s) = snd s"
  by (induction xs arbitrary: s) (simp_all add: job_effect_def)

text \<open>The oldest job ends; \<open>fin\<close> is what its item says of the mapping and the answer.\<close>

lemma dma_done_job:
  assumes "dma_disk content wr d m F" and "dma_jobs d = x # xs" and "c = cb_response_cookie (tparam d (dj_param x))"
    and "0 \<le> c \<Longrightarrow> ack_room d"
  shows "\<exists>d' m'. dma_done others d = Ret d' \<and> dma_disk content wr d' m' (F @ [dj_param x]) \<and> dma_jobs d' = xs \<and>
    to_come content d' m' = to_come content d m \<and> all_remaps d' = all_remaps d \<and> md_size_bytes m' = md_size_bytes m \<and>
    (\<forall>y \<in> set xs. tparam d' (dj_param y) = tparam d (dj_param y)) \<and>
    transfers (if 0 \<le> c then put_ack (of_int c) 0 d else d) d'"
proof -
  note o = assms(1) [unfolded dma_disk_def]
  let ?j = "dj_param x" and ?P = "transfer_buffer_pool d" and ?n = "dj_bytes x"
  let ?t = "tparam d ?j"
  let ?off = "unat (push_bit SECTOR_SHIFT (cb_sector ?t))"
  have jo: "job_ok (md_size_bytes m) wr ?t x" "?j < unat (pl_num ?P)" "?j \<notin> set F" "\<And>y. y \<in> set xs \<Longrightarrow> dj_param y \<noteq> ?j"
    using o assms(2) by (auto simp: image_iff)
  note j = jo(1) [unfolded job_ok_def]
  obtain fin where fin: "part_of ?t fin" using j by blast
  have fc: "fin = Some (r, k) \<Longrightarrow> k = c" for r k using fin assms(3) by (simp add: part_of_def)
  have fn: "fin = None \<Longrightarrow> c = - 1" using fin assms(3) by (simp add: part_of_def)
  define t where "t = ?t\<lparr>tp_buffer := (if wr then blit (tp_buffer ?t) 0 (bus d) (dj_bus x) ?n else tp_buffer ?t), tp_tx := False\<rparr>"
  have bf: "tp_buffer t = (if wr then blit (tp_buffer ?t) 0 (bus d) (dj_bus x) ?n else tp_buffer ?t)" by (simp add: t_def)
  obtain m' where m': "vcablk_media_transfer m (cb_sector ?t) (cb_nsec ?t) (tp_buffer t) (unat BUFFER_SIZE) wr =
      Ret (0, m', if wr then tp_buffer t else blit (tp_buffer t) 0 (medium_bytes content m) ?off ?n)"
    "good_medium content wr m'" "md_size_bytes m' = md_size_bytes m"
    "medium_bytes content m' = (if wr then blit (medium_bytes content m) ?off (tp_buffer t) 0 ?n else medium_bytes content m)"
    using media_transfer_good [of content wr m ?off _ ?n _ "tp_buffer t"] j o by blast
  define mm where "mm = (if wr then m' else m)"
  define b where "b = (if wr then bus d else blit (bus d) (dj_bus x) (tp_buffer ?t) 0 ?n)"
  have mm: "good_medium content wr mm" "md_size_bytes mm = md_size_bytes m"
    "(b, medium_bytes content mm) = job_effect (tparam d) x (bus d, medium_bytes content m)"
    using m' o j by (cases wr; simp add: mm_def b_def job_effect_def copied_def bf blit_via)+
  define e where "e = d\<lparr>dma_jobs := xs, transfer_buffer_pool := ?P\<lparr>items := (items ?P)(?j := t)\<rparr>, bk_media := Object mm, bus := b\<rparr>"
  have te: "tparam e ?j = t" "\<And>i. i \<noteq> ?j \<Longrightarrow> tparam e i = tparam d i" by (simp_all add: e_def tparam_def)
  have up: "t\<lparr>tp_buffer := tp_buffer t\<rparr> = t" "cb_sector t = cb_sector ?t" "cb_nsec t = cb_nsec ?t" "tp_buffer_size t = BUFFER_SIZE"
    using j by (simp_all add: t_def)
  have tt: "tparam d ?j = items ?P ?j" by (simp add: tparam_def)
  have "dma_done others d = callback_end others ?j 0 e"
  proof (cases wr)
    case True
    let ?e = "d\<lparr>dma_jobs := xs, transfer_buffer_pool := ?P\<lparr>items := (items ?P)(?j := t)\<rparr>\<rparr>"
    have "media_io ?j (cb_sector ?t) (cb_nsec ?t) True ?e = Ret (0, e)"
      using True m'(1) o up by (simp add: media_io_def tparam_def [of ?e] set_tparam_def e_def mm_def b_def)
    moreover have "set_tparam ?j (\<lambda>t. t\<lparr>tp_tx := False\<rparr>) (bus_to_buffer ?j (dj_bus x) ?n (d\<lparr>dma_jobs := xs\<rparr>)) = ?e"
      using True by (simp add: set_tparam_def bus_to_buffer_def t_def tparam_def)
    ultimately show ?thesis using True assms(2) j up te
      by (simp add: dma_done_def transfer_callback_def vca_bcknd_callback_write_def Let_def tparam_def [of ?e])
  next
    case False
    have "set_tparam ?j (\<lambda>t. t\<lparr>tp_tx := False\<rparr>) (buffer_to_bus ?j (dj_bus x) ?n (d\<lparr>dma_jobs := xs\<rparr>)) = e"
      using False o by (simp add: set_tparam_def buffer_to_bus_def t_def tparam_def e_def mm_def b_def)
    then show ?thesis using False assms(2) j
      by (simp add: dma_done_def transfer_callback_def vca_bcknd_callback_read_def)
  qed
  moreover have "\<exists>p. callback_end others ?j 0 e = Ret ((ended fin 0 e)\<lparr>transfer_buffer_pool := p\<rparr>) \<and> pool_free p (F @ [?j]) \<and>
      pl_num p = pl_num (transfer_buffer_pool e) \<and> items p = (items (transfer_buffer_pool e))(?j := (tparam e ?j)\<lparr>cb_remapped := None\<rparr>)"
  proof (rule callback_end_free)
    show "pool_free (transfer_buffer_pool e) F" using o by (simp add: e_def pool_free_def)
    show "part_of (tparam e ?j) fin" using fin by (simp add: te(1) part_of_def t_def)
    show "ack_room e" if "fin = Some (r, k)" "0 \<le> k" for r k using assms(4) fc that by (simp add: e_def ack_room_def)
  qed (use jo(2,3) in \<open>simp_all add: e_def\<close>)
  ultimately obtain p where p: "dma_done others d = Ret ((ended fin 0 e)\<lparr>transfer_buffer_pool := p\<rparr>)" "pool_free p (F @ [?j])"
    "pl_num p = pl_num ?P" "items p = (items ?P)(?j := t\<lparr>cb_remapped := None\<rparr>)"
    by (auto simp: e_def tparam_def)
  define d' where "d' = (ended fin 0 e)\<lparr>transfer_buffer_pool := p\<rparr>"
  have td: "tparam d' i = (if i = ?j then t\<lparr>cb_remapped := None\<rparr> else tparam d i)" for i
    by (simp add: d'_def tparam_def p(4))
  have ts: "\<And>y. y \<in> set xs \<Longrightarrow> tparam d' (dj_param y) = tparam d (dj_param y)" using jo(4) by (simp add: td)
  have fields: "has_dma d' = has_dma d" "dma_cookie d' = dma_cookie d" "bk_media d' = Object mm" "dma_jobs d' = xs" "bus d' = b"
    "transfer_buffer_pool d' = p" "remaps d' = remaps d @ unmaps (tparam d) [x]"
    using fin by (auto simp: d'_def ended_def e_def put_ack_def Let_def part_of_def unmaps_def split: option.splits)
  have "dma_disk content wr d' mm (F @ [?j])"
    unfolding dma_disk_def using o mm p(2) jo assms(2) ts up(4)
    by (auto simp: fields p(3) td job_ok_def t_def)
  moreover have "fold (job_effect (tparam d')) xs s = fold (job_effect (tparam d)) xs s" for s
    by (rule job_effects_cong) (rule ts)
  then have "to_come content d' mm = to_come content d m"
    unfolding to_come_def fields assms(2) mm(3) by simp
  moreover have "unmaps (tparam d') xs = unmaps (tparam d) xs" by (rule unmaps_cong) (rule ts)
  then have "all_remaps d' = all_remaps d"
    unfolding all_remaps_def fields assms(2) by simp (simp add: unmaps_def)
  moreover have "transfers (if 0 \<le> c then put_ack (of_int c) 0 d else d) d'"
    using fn fc by (cases fin) (auto simp: transfers_def d'_def ended_def e_def put_ack_def Let_def)
  ultimately show ?thesis using p(1) mm(2) ts fields(4) unfolding d'_def by blast
qed

text \<open>The engine ends \<open>n\<close> jobs, or all of them when there are fewer.\<close>

fun engine :: "('f, 'a) sleep \<Rightarrow> nat \<Rightarrow> ('f, 'a) vcablk_bcknd_disk_scheme \<Rightarrow> ('f, 'a) vcablk_bcknd_disk_scheme outcome" where
  "engine others 0 d = Ret d"
| "engine others (Suc n) d = (case dma_done others d of Abort \<Rightarrow> Abort | Ret d' \<Rightarrow> engine others n d')"

text \<open>While the thread sleeps the engine ends some jobs, at least one, and nothing else happens.\<close>

definition engine_progress :: "('f, 'a) sleep \<Rightarrow> bool" where
  "engine_progress others \<longleftrightarrow> (\<forall>k d. \<exists>n. case engine (\<lambda>_. id) (Suc n) d of Abort \<Rightarrow> True | Ret d' \<Rightarrow> others k d = d')"

definition quiet :: "(nat \<Rightarrow> transfer_parameters) \<Rightarrow> dma_job list \<Rightarrow> bool" where
  "quiet t xs \<longleftrightarrow> (\<forall>x \<in> set xs. cb_response_cookie (t (dj_param x)) < 0)"

definition steady :: "('f \<Rightarrow> u8 mem) \<Rightarrow> ('f, 'a) vcablk_bcknd_disk_scheme \<Rightarrow> 'f vcablk_media \<Rightarrow>
    ('f, 'a) vcablk_bcknd_disk_scheme \<Rightarrow> 'f vcablk_media \<Rightarrow> bool" where
  "steady content d m d' m' \<longleftrightarrow> to_come content d' m' = to_come content d m \<and> all_remaps d' = all_remaps d \<and>
     md_size_bytes m' = md_size_bytes m \<and> transfers d d'"

lemma steady_refl: "steady content d m d m"
  by (simp add: steady_def transfers_refl)

lemma steady_trans: "steady content d m d' m' \<Longrightarrow> steady content d' m' d'' m'' \<Longrightarrow> steady content d m d'' m''"
  by (auto simp: steady_def intro: transfers_trans)

lemma engine_quiet:
  assumes "dma_disk content wr d m F" and "quiet (tparam d) (take n (dma_jobs d))"
  shows "\<exists>d' m'. engine others n d = Ret d' \<and> dma_disk content wr d' m' (F @ map dj_param (take n (dma_jobs d))) \<and>
    dma_jobs d' = drop n (dma_jobs d) \<and> steady content d m d' m' \<and>
    (\<forall>y \<in> set (drop n (dma_jobs d)). tparam d' (dj_param y) = tparam d (dj_param y))"
  using assms
proof (induction n arbitrary: d m F)
  case 0
  then show ?case using steady_refl by auto
next
  case (Suc n)
  show ?case
  proof (cases "dma_jobs d")
    case Nil
    then have "dma_done others d = Ret d" by (simp add: dma_done_def)
    with Suc.IH [OF Suc.prems(1)] Nil show ?thesis by (simp add: quiet_def)
  next
    case (Cons x xs)
    have c: "\<not> 0 \<le> cb_response_cookie (tparam d (dj_param x))" using Suc.prems(2) Cons by (simp add: quiet_def)
    from dma_done_job [OF Suc.prems(1) Cons refl, of others] c
    obtain d1 m1 where d1: "dma_done others d = Ret d1" "dma_disk content wr d1 m1 (F @ [dj_param x])" "dma_jobs d1 = xs"
      "steady content d m d1 m1" "\<And>y. y \<in> set xs \<Longrightarrow> tparam d1 (dj_param y) = tparam d (dj_param y)"
      unfolding steady_def by auto
    have "quiet (tparam d1) (take n (dma_jobs d1))"
      using Suc.prems(2) Cons d1(3) d1(5) [OF in_set_takeD] by (simp add: quiet_def)
    from Suc.IH [OF d1(2) this] obtain d' m' where d': "engine others n d1 = Ret d'"
      "dma_disk content wr d' m' ((F @ [dj_param x]) @ map dj_param (take n xs))" "dma_jobs d' = drop n xs" "steady content d1 m1 d' m'"
      "\<forall>y \<in> set (drop n xs). tparam d' (dj_param y) = tparam d1 (dj_param y)" unfolding d1(3) by blast
    have "\<forall>y \<in> set (drop n xs). tparam d' (dj_param y) = tparam d (dj_param y)" using d'(5) d1(5) by (simp add: in_set_dropD)
    then show ?thesis using d1(1) d' steady_trans [OF d1(4) d'(4)] Cons by auto
  qed
qed

section \<open>A buffer\<close>

text \<open>The item \<open>j\<close> is out of the pool and held by no job.\<close>

definition in_hand :: "nat \<Rightarrow> nat list \<Rightarrow> ('f, 'a) vcablk_bcknd_disk_scheme \<Rightarrow> bool" where
  "in_hand j F d \<longleftrightarrow> j < unat (pl_num (transfer_buffer_pool d)) \<and> j \<notin> set F \<and> j \<notin> dj_param ` set (dma_jobs d) \<and>
     tp_buffer_size (tparam d j) = BUFFER_SIZE \<and> \<not> tp_tx (tparam d j)"

definition held :: "nat list \<Rightarrow> ('f, 'a) vcablk_bcknd_disk_scheme \<Rightarrow> nat multiset" where
  "held F d = mset F + mset (map dj_param (dma_jobs d))"

lemma get_param_now:
  assumes "dma_disk content wr d m F" and "2 \<le> length F"
  shows "\<exists>j d' F'. vcablk_bcknd_get_transfer_param others d = Some (Ret (Some j, d')) \<and> dma_disk content wr d' m F' \<and>
    dma_jobs d' = dma_jobs d \<and> tparam d' = tparam d \<and> steady content d m d' m \<and> in_hand j F' d' \<and> add_mset j (held F' d') = held F d"
proof -
  note o = assms(1) [unfolded dma_disk_def]
  obtain x y ys where F: "F = x # y # ys" using assms(2) by (cases F; cases "tl F") auto
  let ?P = "transfer_buffer_pool d"
  have f: "pool_free ?P (x # y # ys)" using o F by simp
  obtain q where q: "vcablk_pool_pop ?P = (Some x, q)" "pool_free q (y # ys)" "pl_num q = pl_num ?P" "items q = items ?P"
    using pop_free [OF f] by auto
  let ?d = "d\<lparr>transfer_buffer_pool := q\<rparr>"
  have t: "tparam ?d = tparam d" by (simp add: fun_eq_iff tparam_def q(4))
  have "vcablk_bcknd_get_transfer_param others d = Some (Ret (Some x, ?d))"
    using o F q(1) t by (subst vcablk_bcknd_get_transfer_param.simps) (simp add: Let_def)
  moreover have "dma_disk content wr ?d m (y # ys)" using o F q(2,3) t by (auto simp: dma_disk_def)
  moreover have "in_hand x (y # ys) ?d" using o F q(3) t pool_freeD(4) [OF f, of x] by (auto simp: in_hand_def)
  moreover have "steady content d m ?d m" by (simp add: steady_def to_come_def t all_remaps_def transfers_def)
  moreover have "add_mset x (held (y # ys) ?d) = held F d" by (simp add: held_def F)
  ultimately show ?thesis using t by (intro exI [of _ x] exI [of _ ?d] exI [of _ "y # ys"]) simp
qed

lemma get_param_dma:
  assumes "dma_disk content wr d m F" and "engine_progress others" and "quiet (tparam d) (dma_jobs d)" and "2 \<le> length F + length (dma_jobs d)"
  shows "\<exists>j d' m' F'. vcablk_bcknd_get_transfer_param others d = Some (Ret (Some j, d')) \<and> dma_disk content wr d' m' F' \<and>
    quiet (tparam d') (dma_jobs d') \<and> steady content d m d' m' \<and> in_hand j F' d' \<and> add_mset j (held F' d') = held F d"
proof (cases "2 \<le> length F")
  case True
  then show ?thesis using get_param_now [OF assms(1), of others] assms(3) by metis
next
  case False
  note o = assms(1) [unfolded dma_disk_def]
  have "F \<noteq> []" using o pool_freeD(2) by blast
  then obtain x where F: "F = [x]" using False by (cases F; cases "tl F") auto
  let ?P = "transfer_buffer_pool d" and ?d = "d\<lparr>bk_sleeps := bk_sleeps d + 1\<rparr>"
  have f: "pool_free ?P [x]" using o F by simp
  have t: "tparam (d\<lparr>bk_sleeps := k\<rparr>) = tparam d" for k by (simp add: fun_eq_iff tparam_def)
  have d0: "dma_disk content wr ?d m F" "steady content d m ?d m"
    using assms(1) by (simp_all add: dma_disk_def t steady_def to_come_def all_remaps_def transfers_def)
  obtain n where n: "case engine (\<lambda>_. id) (Suc n) ?d of Abort \<Rightarrow> True | Ret d' \<Rightarrow> others (bk_sleeps d) ?d = d'"
    using assms(2) unfolding engine_progress_def by blast
  have "quiet (tparam ?d) (take (Suc n) (dma_jobs ?d))" using assms(3) by (auto simp: t quiet_def dest: in_set_takeD)
  from engine_quiet [OF d0(1) this, of "\<lambda>_. id"] n
  obtain d1 m1 where d1: "others (bk_sleeps d) ?d = d1" "dma_disk content wr d1 m1 (F @ map dj_param (take (Suc n) (dma_jobs d)))"
    "dma_jobs d1 = drop (Suc n) (dma_jobs d)" "steady content ?d m d1 m1"
    "\<And>y. y \<in> set (drop (Suc n) (dma_jobs d)) \<Longrightarrow> tparam d1 (dj_param y) = tparam d (dj_param y)" by (auto simp: t)
  let ?F = "F @ map dj_param (take (Suc n) (dma_jobs d))"
  have l: "2 \<le> length ?F" using assms(4) F by simp
  have "pool_free (transfer_buffer_pool d1) ?F" using d1(2) by (simp add: dma_disk_def)
  from available_iff [OF this] l have av: "vcablk_is_available (transfer_buffer_pool d1)" by simp
  have nv: "\<not> vcablk_is_available ?P" using available_iff [OF f] by simp
  have "vcablk_bcknd_get_transfer_param others d = vcablk_bcknd_get_transfer_param others d1"
    using pop_none [OF f] nv av d1(1) by (subst vcablk_bcknd_get_transfer_param.simps) (simp add: sleeping_def Let_def)
  moreover from get_param_now [OF d1(2) l, of others] obtain j d' F' where
    j: "vcablk_bcknd_get_transfer_param others d1 = Some (Ret (Some j, d'))" "dma_disk content wr d' m1 F'"
    "dma_jobs d' = dma_jobs d1" "tparam d' = tparam d1" "steady content d1 m1 d' m1" "in_hand j F' d'" "add_mset j (held F' d') = held ?F d1" by blast
  moreover have "quiet (tparam d') (dma_jobs d')"
    using assms(3) d1(3,5) j(3,4) by (auto simp: quiet_def dest: in_set_dropD)
  moreover have "held ?F d1 = held F d"
    using append_take_drop_id [of "Suc n" "dma_jobs d"] unfolding held_def d1(3) by (metis (no_types, lifting) add.assoc map_append mset_append)
  ultimately show ?thesis using steady_trans [OF steady_trans [OF d0(2) d1(4)] j(5)] by auto
qed

section \<open>A transfer\<close>

text \<open>One part: its job is the last, and adds one copy to what is to come.\<close>

lemma transfer_part_dma:
  assumes "dma_disk content wr d m F" and "in_hand j F d" and "off = unat (push_bit SECTOR_SHIFT sector)" and "n = unat (push_bit SECTOR_SHIFT nsec)"
    and "off + n \<le> unat (md_size_bytes m)" and "n \<le> 4096"
  shows "\<exists>d' m' x. transfer_part others j sector nsec a wr fin d = Ret (0, d') \<and> dma_disk content wr d' m' F \<and>
    dma_jobs d' = dma_jobs d @ [x] \<and> dj_param x = j \<and> part_of (tparam d' j) fin \<and>
    (\<forall>y \<in> set (dma_jobs d). tparam d' (dj_param y) = tparam d (dj_param y)) \<and>
    to_come content d' m' = copied wr a off n (to_come content d m) \<and>
    all_remaps d' = all_remaps d + mset (case fin of None \<Rightarrow> [] | Some (r, c) \<Rightarrow> [Unmapped r]) \<and>
    md_size_bytes m' = md_size_bytes m \<and> transfers d d'"
proof -
  note o = assms(1) [unfolded dma_disk_def] and h = assms(2) [unfolded in_hand_def]
  let ?P = "transfer_buffer_pool d" and ?t = "tparam d j" and ?c = "case fin of None \<Rightarrow> - 1 | Some (r, c) \<Rightarrow> c"
  define t0 where "t0 = ?t\<lparr>cb_response_cookie := ?c, cb_remapped := map_option fst fin, cb_sector := sector, cb_nsec := nsec\<rparr>"
  obtain m' where m': "vcablk_media_transfer m sector nsec (tp_buffer ?t) (unat BUFFER_SIZE) wr =
      Ret (0, m', if wr then tp_buffer ?t else blit (tp_buffer ?t) 0 (medium_bytes content m) off n)"
    "good_medium content wr m'" "md_size_bytes m' = md_size_bytes m"
    "\<not> wr \<Longrightarrow> medium_bytes content m' = medium_bytes content m"
    using media_transfer_good [of content wr m off sector n nsec "tp_buffer ?t"] o assms(3-6) by auto
  define mm where "mm = (if wr then m else m')"
  have mm: "good_medium content wr mm" "md_size_bytes mm = md_size_bytes m" "medium_bytes content mm = medium_bytes content m"
    using m' o by (cases wr; simp add: mm_def)+
  define t where "t = t0\<lparr>tp_buffer := (if wr then tp_buffer ?t else blit (tp_buffer ?t) 0 (medium_bytes content m) off n), tp_tx := True\<rparr>"
  define x where "x = \<lparr>dj_param = j, dj_write = wr, dj_bus = a, dj_bytes = n\<rparr>"
  define d' where "d' = d\<lparr>bk_media := Object mm, dma_submitted := dma_submitted d + 1, dma_jobs := dma_jobs d @ [x],
    transfer_buffer_pool := ?P\<lparr>items := (items ?P)(j := t)\<rparr>\<rparr>"
  have c: "\<not> dma_cookie d k < 0" for k using o by (simp add: not_less)
  have tt: "tparam d j = items ?P j" by (simp add: tparam_def)
  have "transfer_part others j sector nsec a wr fin d = Ret (0, d')"
  proof (cases wr)
    case True
    then show ?thesis using o h c assms(4)
      by (simp add: transfer_part_def vcablk_bcknd_transfer_device_def set_tparam_def tparam_def Let_def d'_def x_def t_def t0_def mm_def)
  next
    case False
    let ?d = "d\<lparr>transfer_buffer_pool := ?P\<lparr>items := (items ?P)(j := t0)\<rparr>\<rparr>"
    have "media_io j sector nsec False ?d = Ret (0, d\<lparr>bk_media := Object m', transfer_buffer_pool := ?P\<lparr>items := (items ?P)(j := t0\<lparr>tp_buffer := blit (tp_buffer ?t) 0 (medium_bytes content m) off n\<rparr>)\<rparr>\<rparr>)"
      using False m'(1) o h by (simp add: media_io_def set_tparam_def tparam_def t0_def)
    then show ?thesis using False o h c assms(4)
      by (simp add: transfer_part_def vcablk_bcknd_transfer_device_def set_tparam_def tparam_def Let_def d'_def x_def t_def t0_def mm_def)
  qed
  moreover have td: "tparam d' i = (if i = j then t else tparam d i)" for i by (simp add: d'_def tparam_def)
  have ts: "tparam d' (dj_param y) = tparam d (dj_param y)" if "y \<in> set (dma_jobs d)" for y using h that by (auto simp: td)
  have fields: "has_dma d' = has_dma d" "dma_cookie d' = dma_cookie d" "bk_media d' = Object mm" "dma_jobs d' = dma_jobs d @ [x]" "bus d' = bus d"
    "pl_num (transfer_buffer_pool d') = pl_num ?P" "remaps d' = remaps d" by (simp_all add: d'_def)
  have pf: "pool_free (transfer_buffer_pool d') F" using o by (simp add: d'_def pool_free_def)
  have po: "part_of t fin" by (simp add: t_def t0_def part_of_def)
  have jo: "job_ok (md_size_bytes mm) wr t x" using h assms(3-6) po unfolding job_ok_def
    by (auto simp: t_def t0_def x_def mm)
  have "dma_disk content wr d' mm F"
    unfolding dma_disk_def using o mm pf h jo ts by (auto simp: fields td x_def)
  moreover have e: "fold (job_effect (tparam d')) (dma_jobs d) s = fold (job_effect (tparam d)) (dma_jobs d) s" for s
    by (rule job_effects_cong) (rule ts)
  have r: "snd (to_come content d m) = medium_bytes content m" if "\<not> wr"
    using o that unfolding to_come_def by (subst reads_keep_medium) (auto simp: job_ok_def)
  have je: "job_effect (tparam d') x (to_come content d m) = copied wr a off n (to_come content d m)"
    using assms(3) r by (cases wr) (simp_all add: job_effect_def td x_def t_def t0_def copied_def blit_via)
  have "to_come content d' mm = copied wr a off n (to_come content d m)"
    unfolding je [symmetric] unfolding to_come_def fields mm(3) by (simp add: e)
  moreover have "unmaps (tparam d') (dma_jobs d) = unmaps (tparam d) (dma_jobs d)" by (rule unmaps_cong) (rule ts)
  then have "all_remaps d' = all_remaps d + mset (case fin of None \<Rightarrow> [] | Some (r, c) \<Rightarrow> [Unmapped r])"
    unfolding all_remaps_def fields unmaps_def by (auto simp: td x_def t_def t0_def split: option.splits)
  moreover have "transfers d d'" by (simp add: transfers_def d'_def)
  ultimately show ?thesis using mm(2) ts fields(4) po td unfolding x_def by (intro exI [of _ d'] exI [of _ mm] exI [of _ x]) (simp add: x_def)
qed

text \<open>The jobs of a transfer, and the answer \<open>c\<close> that its last one gives, when it is not negative.\<close>

definition answer_due :: "int \<Rightarrow> ('f, 'a) vcablk_bcknd_disk_scheme \<Rightarrow> bool" where
  "answer_due c d \<longleftrightarrow> (if c < 0 then quiet (tparam d) (dma_jobs d)
     else \<exists>js x. dma_jobs d = js @ [x] \<and> quiet (tparam d) js \<and> cb_response_cookie (tparam d (dj_param x)) = c)"

lemma transfer_loop_dma:
  assumes "dma_disk content wr d m F" and "engine_progress others" and "quiet (tparam d) (dma_jobs d)" and "2 \<le> size (held F d)"
    and "left \<noteq> 0" and "(unat sector + unat left) * 512 \<le> unat (md_size_bytes m)"
  shows "\<exists>d' m' F'. transfer_loop others rm sector left a wr c d = Some (Ret (0, d')) \<and> dma_disk content wr d' m' F' \<and>
    answer_due c d' \<and> held F' d' = held F d \<and>
    to_come content d' m' = copied wr a (unat sector * 512) (unat left * 512) (to_come content d m) \<and>
    all_remaps d' = add_mset (Unmapped rm) (all_remaps d) \<and> md_size_bytes m' = md_size_bytes m \<and> transfers d d'"
  using assms
proof (induction "unat left" arbitrary: left sector a d m F rule: less_induct)
  case less
  have "2 \<le> length F + length (dma_jobs d)" using less.prems(4) by (simp add: held_def)
  from get_param_dma [OF less.prems(1-3) this] obtain j d1 m1 F1 where
    p: "vcablk_bcknd_get_transfer_param others d = Some (Ret (Some j, d1))" "dma_disk content wr d1 m1 F1"
      "quiet (tparam d1) (dma_jobs d1)" "steady content d m d1 m1" "in_hand j F1 d1" "add_mset j (held F1 d1) = held F d" by blast
  note st = p(4) [unfolded steady_def]
  define nsec where "nsec = min left 8"
  have nsec: "unat nsec = min (unat left) 8" "nsec \<le> left" by (cases "left \<le> 8"; simp add: nsec_def word_le_nat_alt)+
  have lpos: "0 < unat left" using less.prems(5) by (simp add: word_neq_0_conv word_less_nat_alt)
  let ?off = "unat sector * 512" and ?n = "unat nsec * 512"
  have sz: "(unat sector + unat left) * 512 < 2 ^ 64"
    using less.prems(6) unsigned_less [of "md_size_bytes m", where ?'a = nat] by simp
  have pb: "?off = unat (push_bit SECTOR_SHIFT sector)" "?n = unat (push_bit SECTOR_SHIFT nsec)"
    using sz nsec(1) by (simp_all add: sector_bytes)
  have bd: "?off + ?n \<le> unat (md_size_bytes m1)" "?n \<le> 4096" using less.prems(6) nsec(1) st by auto
  let ?fin = "if left - nsec = 0 then Some (rm, c) else None"
  from transfer_part_dma [OF p(2,5) pb bd, of others a ?fin] obtain d2 m2 x where
    q: "transfer_part others j sector nsec a wr ?fin d1 = Ret (0, d2)" "dma_disk content wr d2 m2 F1" "dma_jobs d2 = dma_jobs d1 @ [x]"
      "dj_param x = j" "part_of (tparam d2 j) ?fin" "\<And>y. y \<in> set (dma_jobs d1) \<Longrightarrow> tparam d2 (dj_param y) = tparam d1 (dj_param y)"
      "to_come content d2 m2 = copied wr a ?off ?n (to_come content d1 m1)"
      "all_remaps d2 = all_remaps d1 + mset (case ?fin of None \<Rightarrow> [] | Some (r, c) \<Rightarrow> [Unmapped r])"
      "md_size_bytes m2 = md_size_bytes m1" "transfers d1 d2" by blast
  have hd: "held F1 d2 = held F d" using p(6) q(3,4) by (simp add: held_def)
  have tr: "transfers d d2" using st q(10) transfers_trans by blast
  have q1: "quiet (tparam d2) (dma_jobs d1)" using p(3) q(6) by (simp add: quiet_def)
  have bs: "drop_bit SECTOR_SHIFT (tp_buffer_size (tparam d1 j)) = 8"
    using p(5) by (simp add: in_hand_def BUFFER_SIZE_def SECTOR_SHIFT_def)
  have step: "transfer_loop others rm sector left a wr c d = transfer_loop others rm (sector + nsec) (left - nsec) (a + ?n) wr c d2"
    using less.prems(5) p(1) q(1) bs pb(2) by (subst transfer_loop.simps) (simp add: Let_def nsec_def)
  show ?case
  proof (cases "left - nsec = 0")
    case True
    then have e: "nsec = left" by simp
    have "transfer_loop others rm sector left a wr c d = Some (Ret (0, d2))"
      unfolding step using True by (subst transfer_loop.simps) simp
    moreover have "answer_due c d2"
      using True q(3,4,5) q1 by (auto simp: answer_due_def part_of_def quiet_def)
    ultimately show ?thesis using True q st hd tr unfolding e by (intro exI [of _ d2] exI [of _ m2] exI [of _ F1]) simp
  next
    case False
    have ul: "unat (left - nsec) = unat left - unat nsec" using nsec(2) by (simp add: unat_sub)
    have us: "unat (sector + nsec) = unat sector + unat nsec" using sz nsec(1) by (intro unat_add_lem [THEN iffD1]) auto
    have qd: "quiet (tparam d2) (dma_jobs d2)" using False q(3-5) q1 by (simp add: quiet_def part_of_def)
    have "\<exists>d' m' F'. transfer_loop others rm (sector + nsec) (left - nsec) (a + ?n) wr c d2 = Some (Ret (0, d')) \<and> dma_disk content wr d' m' F' \<and>
      answer_due c d' \<and> held F' d' = held F1 d2 \<and>
      to_come content d' m' = copied wr (a + ?n) (unat (sector + nsec) * 512) (unat (left - nsec) * 512) (to_come content d2 m2) \<and>
      all_remaps d' = add_mset (Unmapped rm) (all_remaps d2) \<and> md_size_bytes m' = md_size_bytes m2 \<and> transfers d2 d'"
      using False less.prems(2,4,6) lpos nsec ul us q(9) st hd qd
      by (intro less.hyps [OF _ q(2)]) simp_all
    moreover have "copied wr (a + ?n) (unat (sector + nsec) * 512) (unat (left - nsec) * 512) (to_come content d2 m2) =
        copied wr a ?off (unat left * 512) (to_come content d m)"
      unfolding us ul q(7) using copied_copied [of wr a ?n ?off "(unat left - unat nsec) * 512" "to_come content d m"] st nsec(1)
      by (simp add: algebra_simps)
    ultimately show ?thesis unfolding step using False q(8,9) st hd transfers_trans [OF tr] by auto
  qed
qed

section \<open>A group\<close>

text \<open>What a request does to the memory of the front end and to the bytes of the medium, and to the mappings.\<close>

definition request_effect :: "vcablk_request \<Rightarrow> u8 mem \<times> u8 mem \<Rightarrow> u8 mem \<times> u8 mem" where
  "request_effect r s = (if request_type r = REQUEST_SYNC then s
     else copied (request_type r = REQUEST_WRITE) (unat (phys_buff r)) (unat (rq_sector r) * 512) (unat (rq_sectors_num r) * 512) s)"

definition request_remaps :: "vcablk_request \<Rightarrow> remap_event list" where
  "request_remaps r = (if request_type r = REQUEST_SYNC then []
     else [Remapped (phys_buff r) (of_nat (unat (rq_sectors_num r) * 512)), Unmapped (phys_buff r)])"

text \<open>The requests of one bio: flushes, and transfers in one direction.\<close>

definition same_direction :: "bool \<Rightarrow> vcablk_request \<Rightarrow> bool" where
  "same_direction wr r \<longleftrightarrow> request_type r = REQUEST_SYNC \<or> (request_type r = REQUEST_WRITE \<longleftrightarrow> wr)"

lemma request_step_dma:
  assumes "dma_disk content wr d m F" and "engine_progress others" and "quiet (tparam d) (dma_jobs d)" and "2 \<le> size (held F d)"
    and "request_fits d (md_size_bytes m) r" and "same_direction wr r"
  shows "\<exists>d' m' F'. vcablk_bcknd_disk_request_step others r c d = Some (Ret (0, d')) \<and> dma_disk content wr d' m' F' \<and>
    answer_due (if request_type r = REQUEST_SYNC then - 1 else c) d' \<and> held F' d' = held F d \<and>
    to_come content d' m' = request_effect r (to_come content d m) \<and> all_remaps d' = all_remaps d + mset (request_remaps r) \<and>
    md_size_bytes m' = md_size_bytes m \<and> transfers d d'"
proof (cases "request_type r = REQUEST_SYNC")
  case True
  have "vcablk_media_sync m = Ret 0"
    using assms(1) by (auto simp: dma_disk_def good_medium_def vcablk_media_sync_def file_sync_def file_law_def)
  then have "vcablk_bcknd_disk_request_step others r c d = Some (Ret (0, d))"
    using True assms(1) by (simp add: vcablk_bcknd_disk_request_step_def dma_disk_def)
  then show ?thesis using True assms(1,3)
    by (intro exI [of _ d] exI [of _ m] exI [of _ F]) (simp add: answer_due_def request_effect_def request_remaps_def transfers_refl)
next
  case False
  let ?n = "rq_sectors_num r" and ?s = "rq_sector r" and ?a = "phys_buff r"
  have w: "(request_type r = REQUEST_WRITE) = wr" using assms(6) False by (simp add: same_direction_def)
  have f: "request_type r = REQUEST_READ \<or> request_type r = REQUEST_WRITE" "?n \<noteq> 0" "(unat ?s + unat ?n) * 512 \<le> unat (md_size_bytes m)"
    "\<And>k. can_remap d k ?a (of_nat (unat ?n * 512))" using assms(5) False by (auto simp: request_fits_def)
  let ?e = "Remapped ?a (of_nat (unat ?n * 512))"
  let ?d = "d\<lparr>remaps := remaps d @ [?e]\<rparr>"
  have t: "tparam (d\<lparr>remaps := k\<rparr>) = tparam d" for k by (simp add: fun_eq_iff tparam_def)
  have dd: "dma_disk content wr ?d m F" "quiet (tparam ?d) (dma_jobs ?d)" "held F ?d = held F d" "to_come content ?d m = to_come content d m"
    "all_remaps ?d = add_mset ?e (all_remaps d)" "transfers d ?d"
    using assms(1,3) by (simp_all add: dma_disk_def t held_def to_come_def all_remaps_def transfers_def)
  have "2 \<le> size (held F ?d)" using assms(4) dd(3) by simp
  from transfer_loop_dma [OF dd(1) assms(2) dd(2) this f(2,3), of ?a "unat ?a" c] obtain d' m' F' where
    l: "transfer_loop others ?a ?s ?n (unat ?a) wr c ?d = Some (Ret (0, d'))" "dma_disk content wr d' m' F'" "answer_due c d'"
      "held F' d' = held F ?d" "to_come content d' m' = copied wr (unat ?a) (unat ?s * 512) (unat ?n * 512) (to_come content ?d m)"
      "all_remaps d' = add_mset (Unmapped ?a) (all_remaps ?d)" "md_size_bytes m' = md_size_bytes m" "transfers ?d d'" by blast
  have "vcablk_bcknd_disk_request_step others r c d = Some (Ret (0, d'))"
    using False f(1,4) l(1) w by (auto simp: vcablk_bcknd_disk_request_step_def vcablk_bcknd_transfer_def push_sectors Let_def)
  then show ?thesis using False w l dd(3-5) transfers_trans [OF dd(6) l(8)]
    by (intro exI [of _ d'] exI [of _ m'] exI [of _ F']) (simp add: request_effect_def request_remaps_def)
qed

lemma request_loop_dma:
  assumes "dma_disk content wr d m F" and "engine_progress others" and "quiet (tparam d) (dma_jobs d)" and "2 \<le> size (held F d)" and "rs \<noteq> []"
    and "\<forall>r \<in> set rs. request_fits d (md_size_bytes m) r \<and> rq_cookie r = ck \<and> same_direction wr r" and "ck \<noteq> 0" and "c = 0 \<or> c = ck"
  shows "\<exists>d' m' F'. request_loop others c rs d = Some (Ret (0, ck, d')) \<and> dma_disk content wr d' m' F' \<and>
    answer_due (if request_type (last rs) = REQUEST_SYNC then - 1 else int (unat ck)) d' \<and> held F' d' = held F d \<and>
    to_come content d' m' = fold request_effect rs (to_come content d m) \<and>
    all_remaps d' = all_remaps d + mset (concat (map request_remaps rs)) \<and> transfers d d'"
  using assms
proof (induction rs arbitrary: d m F c)
  case (Cons r rs)
  let ?rc = "if rs = [] then int (unat ck) else - 1"
  have rk: "rq_cookie r = ck" "(if c = 0 then rq_cookie r else c) = ck" using Cons.prems(6,8) by auto
  from request_step_dma [OF Cons.prems(1-4), of r ?rc] Cons.prems(6) obtain d1 m1 F1 where
    p: "vcablk_bcknd_disk_request_step others r ?rc d = Some (Ret (0, d1))" "dma_disk content wr d1 m1 F1"
      "answer_due (if request_type r = REQUEST_SYNC then - 1 else ?rc) d1" "held F1 d1 = held F d"
      "to_come content d1 m1 = request_effect r (to_come content d m)" "all_remaps d1 = all_remaps d + mset (request_remaps r)"
      "md_size_bytes m1 = md_size_bytes m" "transfers d d1" by auto
  show ?case
  proof (cases "rs = []")
    case True
    have "request_loop others c (r # rs) d = Some (Ret (0, ck, d1))" using True p(1) rk by (simp del: of_nat_unat)
    moreover have "answer_due (if request_type (last (r # rs)) = REQUEST_SYNC then - 1 else int (unat ck)) d1"
      using p(3) unfolding True by (cases "request_type r = REQUEST_SYNC") (simp_all del: of_nat_unat)
    ultimately show ?thesis using True p(2,4-8) by (intro exI [of _ d1] exI [of _ m1] exI [of _ F1]) simp
  next
    case False
    have q: "quiet (tparam d1) (dma_jobs d1)" using p(3) False by (auto simp: answer_due_def split: if_splits)
    have s: "2 \<le> size (held F1 d1)" using Cons.prems(4) p(4) by simp
    have rf: "\<forall>x \<in> set rs. request_fits d1 (md_size_bytes m1) x \<and> rq_cookie x = ck \<and> same_direction wr x"
      using Cons.prems(6) transfersD(1) [OF p(8)] p(7) by (simp add: request_fits_def)
    from Cons.IH [OF p(2) Cons.prems(2) q s False rf Cons.prems(7), of ck] obtain d' m' F' where
      i: "request_loop others ck rs d1 = Some (Ret (0, ck, d'))" "dma_disk content wr d' m' F'"
        "answer_due (if request_type (last rs) = REQUEST_SYNC then - 1 else int (unat ck)) d'" "held F' d' = held F1 d1"
        "to_come content d' m' = fold request_effect rs (to_come content d1 m1)"
        "all_remaps d' = all_remaps d1 + mset (concat (map request_remaps rs))" "transfers d1 d'" by blast
    have "request_loop others c (r # rs) d = Some (Ret (0, ck, d'))" using p(1) rk False i(1) by (simp add: Let_def)
    then show ?thesis using i p False transfers_trans [OF p(8) i(7)]
      by (intro exI [of _ d'] exI [of _ m'] exI [of _ F']) (simp add: add.assoc)
  qed
qed simp

lemma engine_append:
  "engine others (k + n) d = (case engine others k d of Abort \<Rightarrow> Abort | Ret d' \<Rightarrow> engine others n d')"
  by (induction k arbitrary: d) (auto split: outcome.split)

text \<open>All jobs end: only the last one answers.\<close>

lemma engine_all:
  assumes "dma_disk content wr d m F" and "answer_due c d" and "0 \<le> c \<Longrightarrow> ack_room d"
  shows "\<exists>d' m' F'. engine others (length (dma_jobs d)) d = Ret d' \<and> dma_disk content wr d' m' F' \<and> dma_jobs d' = [] \<and> mset F' = held F d \<and>
    (bus d', medium_bytes content m') = to_come content d m \<and> mset (remaps d') = all_remaps d \<and>
    transfers (if 0 \<le> c then put_ack (of_int c) 0 d else d) d'"
proof (cases "c < 0")
  case True
  then have "quiet (tparam d) (take (length (dma_jobs d)) (dma_jobs d))" using assms(2) by (simp add: answer_due_def)
  from engine_quiet [OF assms(1) this, of others] obtain d' m' where
    e: "engine others (length (dma_jobs d)) d = Ret d'" "dma_disk content wr d' m' (F @ map dj_param (dma_jobs d))" "dma_jobs d' = []"
      "steady content d m d' m'" by auto
  then show ?thesis using True
    by (intro exI [of _ d'] exI [of _ m'] exI [of _ "F @ map dj_param (dma_jobs d)"]) (simp add: held_def steady_def to_come_def all_remaps_def unmaps_def)
next
  case False
  then obtain js x where j: "dma_jobs d = js @ [x]" "quiet (tparam d) js" "cb_response_cookie (tparam d (dj_param x)) = c"
    using assms(2) by (auto simp: answer_due_def)
  have t: "take (length js) (dma_jobs d) = js" "drop (length js) (dma_jobs d) = [x]" using j(1) by simp_all
  have "quiet (tparam d) (take (length js) (dma_jobs d))" using j(2) t(1) by simp
  from engine_quiet [OF assms(1) this, of others] obtain d1 m1 where
    e: "engine others (length js) d = Ret d1" "dma_disk content wr d1 m1 (F @ map dj_param js)" "dma_jobs d1 = [x]"
      "steady content d m d1 m1" "tparam d1 (dj_param x) = tparam d (dj_param x)" by (auto simp: t)
  note st = e(4) [unfolded steady_def]
  have ar: "ack_room d1" if "0 \<le> c" using assms(3) that transfersD(4) st by blast
  from dma_done_job [OF e(2,3), of c others] e(5) j(3) ar obtain d' m' where
    f: "dma_done others d1 = Ret d'" "dma_disk content wr d' m' ((F @ map dj_param js) @ [dj_param x])" "dma_jobs d' = []"
      "to_come content d' m' = to_come content d1 m1" "all_remaps d' = all_remaps d1"
      "transfers (if 0 \<le> c then put_ack (of_int c) 0 d1 else d1) d'" by auto
  have "engine others (length (dma_jobs d)) d = Ret d'" using e(1) f(1) j(1) engine_append [of others "length js" 1 d] by simp
  moreover have "transfers (put_ack (of_int c) 0 d) d'"
    using f(6) False transfers_trans [OF transfers_put_ack] st by simp blast
  moreover have "mset ((F @ map dj_param js) @ [dj_param x]) = held F d" using j(1) by (simp add: held_def)
  moreover have "(bus d', medium_bytes content m') = to_come content d m" using f(3,4) st by (simp add: to_come_def)
  moreover have "mset (remaps d') = all_remaps d" using f(3,5) st by (simp add: all_remaps_def unmaps_def)
  ultimately show ?thesis using f(2,3) False by (intro exI [of _ d'] exI [of _ m'] exI [of _ "(F @ map dj_param js) @ [dj_param x]"]) simp
qed

text \<open>Before the last job ends there is no answer.\<close>

lemma answer_late:
  assumes "dma_disk content wr d m F" and "answer_due c d" and "n < length (dma_jobs d)"
  shows "\<exists>d'. engine others n d = Ret d' \<and> completion_ring d' = completion_ring d"
proof -
  have "quiet (tparam d) (take n (dma_jobs d))"
  proof (cases "c < 0")
    case True
    then show ?thesis using assms(2) by (auto simp: answer_due_def quiet_def dest: in_set_takeD)
  next
    case False
    then obtain js x where "dma_jobs d = js @ [x]" "quiet (tparam d) js" using assms(2) by (auto simp: answer_due_def)
    then show ?thesis using assms(3) by (auto simp: quiet_def dest: in_set_takeD)
  qed
  from engine_quiet [OF assms(1) this, of others] show ?thesis using transfersD(5) by (fastforce simp: steady_def)
qed

end
