(* ===== verification/Blk_Props.thy ===== *)
theory Blk_Props
  imports Blk_Bio Blk_Dma
begin

text \<open>The properties of the block driver, with concrete instances.\<close>

section \<open>A new disk\<close>

definition fresh_disk :: "'f blk_sys \<Rightarrow> bool" where
  "fresh_disk s \<longleftrightarrow> (let r = request_ring s; c = completion_ring s in
     rb_size_ok (rq_num s) \<and> rb_size_ok (cq_num s) \<and>
     request_ring_nums s = num_elems r \<and> completion_ring_num_elems s = num_elems c \<and>
     last_used r = last_add r \<and> request_ring_alloc s = last_add r \<and> request_last_used s = last_add r \<and> rb_cnt_ok (rq_num s) (last_add r) \<and>
     last_used c = last_add c \<and> rb_cnt_ok (cq_num s) (last_add c) \<and>
     pool_free (bio_context_pool s) [0..<unat (pl_num (bio_context_pool s))] \<and> unat (pl_num (bio_context_pool s)) \<le> cq_num s + 1 \<and>
     pool_free (bvec_context_pool s) [0..<unat (pl_num (bvec_context_pool s))] \<and>
     request_bio_list s = [] \<and> pages s = [] \<and> bio_ends s = [] \<and>
     posted s = [] \<and> owed s = [] \<and> answers s = [] \<and> accepted s = [] \<and> published s = [] \<and> taken s = [] \<and> \<not> crashed s)"

lemma fresh_inv:
  assumes "fresh_disk s"
  shows "blk_inv (rq_num s) (cq_num s) Idle s"
proof -
  note f = assms [unfolded fresh_disk_def Let_def]
  have "pools_inv Idle s [0..<unat (pl_num (bio_context_pool s))] [0..<unat (pl_num (bvec_context_pool s))] (\<lambda>_. [])"
    using f by (simp add: pools_inv_def under_way_def Let_def)
  moreover have "request_ring_inv (rq_num s) Idle s"
    using f rb.used_self [of "rq_num s" "last_add (request_ring s)"]
    by (simp add: request_ring_inv_def Let_def rb.window_empty) (simp add: rq_num_def)
  moreover have "completion_ring_inv (cq_num s) s"
    using f by (simp add: completion_ring_inv_def Let_def rb.window_empty) (simp add: cq_num_def)
  moreover have "groups_inv s" using f by (simp add: groups_inv_def)
  ultimately show ?thesis unfolding blk_inv_def by blast
qed

section \<open>Front end and back end together\<close>

text \<open>
  C6. Over any run on a new disk, with any interleaving of the two sides and whatever happens while the
  front end sleeps, no operation fails. The guards of a run are that a bio makes at most 256 requests,
  that the front end is not congested when it gets one and that the back end answers a group it has taken
  once at most. The groups of requests the back end has taken, followed by those it has not, are those the
  front end published, in order; each is the bio it was made from, flushes included; and every accepted bio is in the queue, under way in one context, or has ended, and ends once.
\<close>
theorem bios_conserved:
  assumes "fresh_disk s0" and "blk.guarded ops s0"
  shows "\<exists>s. blk.run ops s0 = Ret s \<and> \<not> crashed s \<and>
    map snd (published s) = taken s @ map snd (posted s) \<and>
    (\<forall>(b, g) \<in> set (published s). map request_view g = bio_requests b) \<and>
    mset (accepted s) = mset (map bio_id (request_bio_list s)) +
      mset (map (\<lambda>i. the (bc_bio (items (bio_context_pool s) i))) (under_way Idle s)) + mset (map fst (bio_ends s))"
proof -
  obtain s where s: "blk.run ops s0 = Ret s" "blk_inv (rq_num s0) (cq_num s0) Idle s"
    using blk.run_safe [OF fresh_inv [OF assms(1)] assms(2)] by blast
  obtain F G ch where pi: "pools_inv Idle s F G ch" using s(2) by (auto simp: blk_inv_def)
  have g: "groups_inv s" using s(2) by (simp add: blk_inv_def)
  show ?thesis using s(1) g pools_invD(11) [OF pi] by (intro exI [of _ s]) (simp add: groups_inv_def)
qed

text \<open>
  C14. Over any run on a new disk, with the guards of the property before, both pools stay well formed: a
  context is free or under way, once, an item for a page is free or linked from one context under way, a page is mapped exactly while its bio is
  under way and unmapped with the address, size and direction of its mapping; and when no bio is under way
  every context and every item is free again and no page is mapped.
\<close>
theorem contexts_well_formed:
  assumes "fresh_disk s0" and "blk.guarded ops s0" and "blk.run ops s0 = Ret s"
  shows "mset (free_ids (bio_context_pool s) @ under_way Idle s) = mset [0..<unat (pl_num (bio_context_pool s))] \<and>
    (\<exists>ch. mset (free_ids (bvec_context_pool s) @ concat (map ch (under_way Idle s))) = mset [0..<unat (pl_num (bvec_context_pool s))] \<and>
      (\<forall>i \<in> set (under_way Idle s). bc_id (items (bio_context_pool s) i) = of_nat (i + 1) \<and>
        bvec_chain (items (bvec_context_pool s)) (bc_bvctx (items (bio_context_pool s) i)) (ch i)) \<and>
      mset (concat (map mapping (pages s))) = mset (concat (map unmapping (pages s))) +
        mset (map (page_of (items (bvec_context_pool s))) (concat (map ch (under_way Idle s)))))"
proof -
  have "blk_inv (rq_num s0) (cq_num s0) Idle s"
    using blk.run_safe [OF fresh_inv [OF assms(1)] assms(2)] assms(3) by auto
  then obtain F G ch where pi: "pools_inv Idle s F G ch" by (auto simp: blk_inv_def)
  note d = pools_invD [OF pi]
  have "free_ids (bio_context_pool s) = F" "free_ids (bvec_context_pool s) = G" using free_ids_eq d(1,2) by blast+
  then show ?thesis using d(3,4,9,10) by (intro conjI exI [of _ ch]) (simp_all add: ctx_cookie_def)
qed

section \<open>The back end\<close>

text \<open>
  When the counters are in range the back end takes the oldest waiting_requests requests with one cookie, at
  most 256, after passing over those with cookie 0, and frees exactly what it has passed.
\<close>
theorem next_group_taken:
  assumes "request_ring_ok d"
  shows "vcablk_bcknd_disk_get_next_request d = (case next_group (waiting_requests d) of (k, g) \<Rightarrow>
    Some (g, d\<lparr>request_last_used := rb_add (unat (request_ring_nums d)) (request_last_used d) k,
      request_ring := (request_ring d)\<lparr>last_used := (if waiting_requests d = [] then last_used (request_ring d)
        else rb_add (unat (request_ring_nums d)) (request_last_used d) k)\<rparr>\<rparr>))"
  using get_next_request [OF assms] by (cases "next_group (waiting_requests d)") simp

text \<open>
  The counter of the front end is not checked: when it is out of range and the requests have cookie 0
  the search for a group never ends, and with it the thread that serves the disk.
\<close>
theorem bad_counter_hangs:
  assumes "rb_size_ok (unat (request_ring_nums d))" and "rb_cnt_ok (unat (request_ring_nums d)) (request_last_used d)"
    and "2 * unat (request_ring_nums d) \<le> unat (last_add (request_ring d))"
    and "\<forall>i < unat (request_ring_nums d). rq_cookie (elems (request_ring d) i) = 0"
    and "bk_state d = DISK_STATE_OPEN" and "\<not> bk_stopping d"
  shows "vcablk_bcknd_disk_make_request_thread others d = None"
proof -
  have ne: "last_add (request_ring d) \<noteq> request_last_used d" using assms(2,3) by (auto simp: rb_cnt_ok_def)
  have "next_requests d (last_add (request_ring d)) (request_last_used d) 0 [] = None"
    using assms(4) by (intro next_requests_zero [OF assms(1,3,2)]) blast
  then have "vcablk_bcknd_disk_get_next_request d = None" using ne by (simp add: vcablk_bcknd_disk_get_next_request_def Let_def)
  then show ?thesis using ne assms(5,6)
    by (simp add: vcablk_bcknd_disk_make_request_thread_def) (subst serve_requests.simps, simp)
qed


text \<open>The same without a DMA channel, on a medium in memory: each request is one copy, and the answer is there at return.\<close>

lemma group_served_memcpy:
  assumes "memory_disk d m F" and "2 \<le> length F" and "ack_room d" and "rs \<noteq> []"
    and "\<forall>r \<in> set rs. request_fits d (md_size_bytes m) r \<and> rq_cookie r = ck" and "ck \<noteq> 0"
  shows "\<exists>p F'. vcablk_bcknd_disk_request others rs d =
      Some (Ret (0, (group_answer rs (fold served rs d))\<lparr>transfer_buffer_pool := p\<rparr>)) \<and>
    transfer_pool_ok p F' \<and> mset F' = mset F"
proof -
  obtain p F' where "request_loop others 0 rs d = Some (Ret (0, ck, (group_answer rs (fold served rs d))\<lparr>transfer_buffer_pool := p\<rparr>))"
    "transfer_pool_ok p F'" "mset F' = mset F"
    using request_loop_memory [OF assms(1-4) _ _ assms(6), of 0] assms(5) by blast
  then show ?thesis using assms(4) by (auto simp: vcablk_bcknd_disk_request_def)
qed

text \<open>The copy between a medium in memory and a buffer, at byte \<open>lo\<close> of the medium.\<close>

definition media_copy :: "'f vcablk_media \<Rightarrow> u8 mem \<Rightarrow> bool \<Rightarrow> nat \<Rightarrow> nat \<Rightarrow> (int \<times> 'f vcablk_media \<times> u8 mem) outcome" where
  "media_copy m buf wr lo n = (if wr then Ret (0, m\<lparr>md_memory := blit (md_memory m) lo buf 0 n\<rparr>, buf) else Ret (0, m, blit buf 0 (md_memory m) lo n))"

lemma shifted_sector: "unat (push_bit SECTOR_SHIFT (x :: u64)) = 512 * (unat x mod 2 ^ 55)"
proof -
  have e: "(2 :: nat) ^ 64 = 512 * 2 ^ 55" by simp
  have "unat (push_bit SECTOR_SHIFT x) = (512 * unat x) mod 2 ^ 64"
    by (simp add: SECTOR_SHIFT_def push_bit_eq_mult unat_word_ariths mult.commute)
  then show ?thesis unfolding e by (simp only: mult_mod_right)
qed

text \<open>
  C37. A transfer of sectors that lie within a medium in memory, to a buffer with room, is carried out at its
  place. Of the others, those whose shifted offset and size (where the bits from 55 up are lost) lie within
  the medium are carried out as well, at another place; those whose offset and size add up to more than
  2^64 and wrap around into the medium pass the check and copy outside its memory; all the rest is refused
  with -EIO and changes nothing.
\<close>
theorem bound_check_wraps:
  assumes "lo = 512 * (unat sector mod 2 ^ 55)" and "ln = 512 * (unat nsect mod 2 ^ 55)" and "ln \<le> room"
  shows "media_transfer_mem m sector nsect buf room wr =
    (if 512 * (unat sector + unat nsect) \<le> unat (md_size_bytes m) then media_copy m buf wr (512 * unat sector) (512 * unat nsect)
     else if lo + ln \<le> unat (md_size_bytes m) then media_copy m buf wr lo ln
     else if 2 ^ 64 \<le> lo + ln \<and> lo + ln - 2 ^ 64 \<le> unat (md_size_bytes m) then Abort
     else Ret (- EIO, m, buf))"
proof -
  let ?o = "push_bit SECTOR_SHIFT sector" and ?n = "push_bit SECTOR_SHIFT nsect" and ?s = "unat (md_size_bytes m)"
  have on: "unat ?o = lo" "unat ?n = ln" using assms(1,2) shifted_sector by simp_all
  have lt: "lo < 2 ^ 64" "ln < 2 ^ 64" "?s < 2 ^ 64"
    using unsigned_less [of ?o, where ?'a = nat] unsigned_less [of ?n, where ?'a = nat] unsigned_less [of "md_size_bytes m", where ?'a = nat]
    by (simp_all add: on)
  have "unat (?o + ?n) = (if lo + ln < 2 ^ 64 then lo + ln else lo + ln - 2 ^ 64)"
    using lt by (simp add: unat_word_ariths on le_mod_geq)
  then have c: "md_size_bytes m < ?o + ?n \<longleftrightarrow> ?s < (if lo + ln < 2 ^ 64 then lo + ln else lo + ln - 2 ^ 64)"
    by (simp add: word_less_nat_alt)
  have r: "\<not> room < ln" using assms(3) by simp
  have here: "lo = 512 * unat sector" "ln = 512 * unat nsect" if "512 * (unat sector + unat nsect) \<le> ?s"
    using that lt(3) assms(1,2) by simp_all
  have m: "media_transfer_mem m sector nsect buf room wr =
    (if lo + ln \<le> ?s then media_copy m buf wr lo ln
     else if 2 ^ 64 \<le> lo + ln \<and> lo + ln - 2 ^ 64 \<le> ?s then Abort else Ret (- EIO, m, buf))"
  proof (cases "lo + ln \<le> ?s")
    case True
    then have "\<not> md_size_bytes m < ?o + ?n" using c lt(3) by simp
    then show ?thesis using True r by (simp add: media_transfer_mem_def media_copy_def Let_def on)
  next
    case False
    then show ?thesis using c r by (auto simp add: media_transfer_mem_def Let_def on not_less)
  qed
  show ?thesis
  proof (cases "512 * (unat sector + unat nsect) \<le> ?s")
    case True
    then have "lo + ln \<le> ?s" using here by simp
    then show ?thesis using True m here by simp
  qed (simp add: m)
qed

text \<open>
  A read whose first part reaches beyond the end of the medium is answered with an error and its
  mapping is undone, but its buffer is lost to the pool; and when one buffer is left, every transfer
  is answered with an error, if nothing returns a buffer within the time-out.
\<close>
theorem failed_read_loses_buffer:
  assumes "memory_disk d m F" and "ack_room d" and "F = j # F'" and "c \<noteq> 0"
    and "request_type r = REQUEST_READ" and "rq_cookie r = c" and "rq_sectors_num r \<noteq> 0"
    and "can_remap d (length (remaps d)) (phys_buff r) (push_bit SECTOR_SHIFT (rq_sectors_num r))"
    and "unat (rq_sector r) < 2 ^ 54" and "unat (md_size_bytes m) < (unat (rq_sector r) + min (unat (rq_sectors_num r)) 8) * 512"
    and "ev = [Remapped (phys_buff r) (push_bit SECTOR_SHIFT (rq_sectors_num r)), Unmapped (phys_buff r)]"
  shows "if F' = [] then vcablk_bcknd_disk_request (\<lambda>_. id) [r] d =
      Some (Ret (- ENOMEM, put_ack c (- ENOMEM) (d\<lparr>bk_sleeps := bk_sleeps d + 1, remaps := remaps d @ ev\<rparr>)))
    else \<exists>p. vcablk_bcknd_disk_request (\<lambda>_. id) [r] d =
      Some (Ret (- EIO, put_ack c (- EIO) (d\<lparr>transfer_buffer_pool := p, remaps := remaps d @ ev\<rparr>))) \<and>
      transfer_pool_ok p F'"
proof -
  note o = assms(1) [unfolded memory_disk_def]
  let ?n = "rq_sectors_num r" and ?s = "rq_sector r" and ?a = "phys_buff r"
  let ?ev = "Remapped ?a (push_bit SECTOR_SHIFT ?n)"
  let ?d = "d\<lparr>remaps := remaps d @ [?ev]\<rparr>"
  have kinds: "request_type r \<noteq> REQUEST_SYNC" "request_type r \<noteq> REQUEST_WRITE" using assms(5) by (simp_all add: request_types)
  have tp: "transfer_pool_ok (transfer_buffer_pool ?d) F" using o by simp
  have rq: "vcablk_bcknd_disk_request (\<lambda>_. id) [r] d = Some (Ret (ret, put_ack c ret (t\<lparr>remaps := remaps t @ [Unmapped ?a]\<rparr>)))"
    if "transfer_loop (\<lambda>_. id) ?a ?s ?n (unat ?a) False (int (unat c)) ?d = Some (Ret (ret, t))" "ret \<noteq> 0" "ack_room t" for ret t
  proof -
    have "ack_room (t\<lparr>remaps := remaps t @ [Unmapped ?a]\<rparr>)" using that(3) by (simp add: ack_room_def)
    from send_response [OF this] show ?thesis using that(1,2) kinds assms(4-6,8)
      by (simp add: vcablk_bcknd_disk_request_def vcablk_bcknd_disk_request_step_def vcablk_bcknd_transfer_def Let_def del: of_nat_unat)
  qed
  show ?thesis
  proof (cases F')
    case Nil
    have f: "pool_free (transfer_buffer_pool ?d) [j]" using tp Nil assms(3) by (simp add: transfer_pool_ok_def)
    have av: "\<not> vcablk_is_available (transfer_buffer_pool d)" using available_iff [OF f] by simp
    have "vcablk_bcknd_get_transfer_param (\<lambda>_. id) ?d = Some (Ret (None, ?d\<lparr>bk_sleeps := bk_sleeps d + 1\<rparr>))"
      using pop_none [OF f] av by (subst vcablk_bcknd_get_transfer_param.simps) (simp add: sleeping_def Let_def)
    then have "transfer_loop (\<lambda>_. id) ?a ?s ?n (unat ?a) False (int (unat c)) ?d = Some (Ret (- ENOMEM, ?d\<lparr>bk_sleeps := bk_sleeps d + 1\<rparr>))"
      using assms(7) by (subst transfer_loop.simps) simp
    from rq [OF this] show ?thesis using Nil assms(2) by (simp add: assms(11) ack_room_def ENOMEM_def)
  next
    case (Cons y ys)
    have tp': "transfer_pool_ok (transfer_buffer_pool ?d) (j # y # ys)" using tp Cons assms(3) by simp
    from get_param [OF tp', of "\<lambda>_. id", folded Cons]
    obtain p where p: "vcablk_bcknd_get_transfer_param (\<lambda>_. id) ?d = Some (Ret (Some j, ?d\<lparr>transfer_buffer_pool := p\<rparr>))"
      "transfer_pool_ok p F'" "pl_num p = pl_num (transfer_buffer_pool ?d)" "j < unat (pl_num p)" "j \<notin> set F'"
      by blast
    have sz: "tp_buffer_size (items p j) = BUFFER_SIZE" using p(2,4) by (simp add: transfer_pool_ok_def)
    define nsec where "nsec = min ?n 8"
    have nsec: "unat nsec = min (unat ?n) 8" by (cases "?n \<le> 8"; simp add: nsec_def word_le_nat_alt)
    let ?fin = "if ?n - nsec = 0 then Some (?a, int (unat c)) else None"
    define q where "q = p\<lparr>items := (items p)(j := (items p j)\<lparr>cb_response_cookie := (case ?fin of None \<Rightarrow> - 1 | Some (r, c) \<Rightarrow> c),
      cb_remapped := map_option fst ?fin, cb_sector := ?s, cb_nsec := nsec\<rparr>)\<rparr>"
    have off: "unat (push_bit SECTOR_SHIFT ?s) = unat ?s * 512" "unat (push_bit SECTOR_SHIFT nsec) = unat nsec * 512"
      using assms(9) nsec by (simp_all add: sector_bytes)
    have "unat (push_bit SECTOR_SHIFT ?s + push_bit SECTOR_SHIFT nsec) = (unat ?s + unat nsec) * 512"
      using off assms(9) nsec by (simp add: unat_word_ariths)
    then have beyond: "md_size_bytes m < push_bit SECTOR_SHIFT ?s + push_bit SECTOR_SHIFT nsec" using assms(10) nsec by (simp add: word_less_nat_alt)
    have pt: "transfer_part (\<lambda>_. id) j ?s nsec (unat ?a) False ?fin (?d\<lparr>transfer_buffer_pool := p\<rparr>) =
        Ret (- EIO, ?d\<lparr>transfer_buffer_pool := q\<rparr>)"
      using o beyond by (simp add: transfer_part_def media_io_def vcablk_media_transfer_def media_transfer_mem_def set_tparam_def tparam_def
        q_def Let_def EIO_def)
    have "drop_bit SECTOR_SHIFT (tp_buffer_size (items p j)) = 8" unfolding sz by (simp add: BUFFER_SIZE_def SECTOR_SHIFT_def)
    then have "transfer_loop (\<lambda>_. id) ?a ?s ?n (unat ?a) False (int (unat c)) ?d = Some (Ret (- EIO, ?d\<lparr>transfer_buffer_pool := q\<rparr>))"
      using assms(7) p(1) pt by (subst transfer_loop.simps) (simp add: tparam_def Let_def nsec_def EIO_def)
    from rq [OF this] have "vcablk_bcknd_disk_request (\<lambda>_. id) [r] d = Some (Ret (- EIO, put_ack c (- EIO) (d\<lparr>transfer_buffer_pool := q, remaps := remaps d @ ev\<rparr>)))"
      using assms(2) by (simp add: assms(11) ack_room_def EIO_def)
    moreover have "transfer_pool_ok q F'" using p(2) unfolding q_def transfer_pool_ok_def by (auto simp: pool_free_def)
    ultimately show ?thesis using Cons by auto
  qed
qed

section \<open>Instances\<close>

definition demo_pool :: "'a \<Rightarrow> 'a vcablk_pool" where
  "demo_pool x = \<lparr>pl_num = 3, pl_head = 0, pl_tail = 2, next_free = (\<lambda>i. if i = 0 then 1 else if i = 1 then 2 else 0), items = (\<lambda>_. x)\<rparr>"

definition demo_buffer :: transfer_parameters where
  "demo_buffer = \<lparr>cb_sector = 0, cb_nsec = 0, cb_remapped = None, cb_response_cookie = 0, tp_buffer = (\<lambda>_. 0),
    tp_buffer_size = BUFFER_SIZE, tp_buffer_phys_da = False, tp_buffer_alloc = True, tp_tx = False\<rparr>"

definition demo_medium :: "nat vcablk_media" where
  "demo_medium = \<lparr>md_read_only = False, md_size_bytes = 8192, md_file_path = ''demo'', md_type = VCABLK_DISK_TYPE_MEMORY,
    md_memory = (\<lambda>_. 7), md_file = 0, md_ops = \<lparr>vfs_read = (\<lambda>f a n. (0, [])), vfs_write = (\<lambda>f a b. (0, f)), vfs_fsync = (\<lambda>f. 0)\<rparr>\<rparr>"

definition demo_request :: "u8 \<Rightarrow> u64 \<Rightarrow> u64 \<Rightarrow> u16 \<Rightarrow> vcablk_request" where
  "demo_request k sector n c = \<lparr>phys_buff = 65536, rq_sector = sector, rq_sectors_num = n, rq_cookie = c, request_type = k\<rparr>"

definition demo_disk_with :: "bool \<Rightarrow> 'f vcablk_media \<Rightarrow> 'f blk_sys" where
  "demo_disk_with dma medium = \<lparr>size_bytes = 8192, sectors_num = 16, dev_id = 0, bio_done_db = 2, bio_done_irq = True, request_db = 1, request_thread = True,
    blk_queue = True, read_only = False, ref_cnt = 0, gdisk = True, gdisk_started = True, request_bio_list = [], request_bio_count = 0,
    request_ring = \<lparr>num_elems = 2, elem_size = 32, last_add = 0, last_used = 0, size_alloc = 0, ring_dma_addr = 0, elems = (\<lambda>_. demo_request 0 0 0 0)\<rparr>, request_ring_alloc = 0,
    completion_ring = \<lparr>num_elems = 2, elem_size = 32, last_add = 0, last_used = 0, size_alloc = 0, ring_dma_addr = 0, elems = (\<lambda>_. \<lparr>cp_cookie = 0, cp_ret = 0\<rparr>)\<rparr>,
    bio_context_pool = demo_pool \<lparr>bc_id = 0, bc_bio = None, bc_bvctx = None\<rparr>,
    bvec_context_pool = demo_pool \<lparr>bvc_next = None, bvc_dma_addr = 0, bvc_size = 0, bvc_dir = DMA_TO_DEVICE\<rparr>,
    map_page = (\<lambda>k v dir. Some (4096 * of_nat k + 4096)), stopping = False, pages = [], bio_ends = [], doorbells = 0, sleeps = 0,
    bk_id = 0, bk_sectors_num = 16, bk_state = DISK_STATE_OPEN, bk_media = Object medium, bk_request_db = 1, bk_done_db = 2,
    bk_request_irq = True, bk_request_thread = True, bk_request_ring = Some 4096, bk_completion_ring = Some 8192,
    request_ring_nums = 2, completion_ring_num_elems = 2, request_last_used = 0, transfer_buffer_pool = demo_pool demo_buffer,
    has_dma = dma, can_remap = (\<lambda>_ _ _. True), dma_cookie = (\<lambda>_. 1), dma_submitted = 0, dma_jobs = [], bus = (\<lambda>_. 9), remaps = [],
    done_interrupts = 0, bk_sleeps = 0, bk_stopping = False,
    posted = [], owed = [], answers = [], accepted = [], published = [], taken = [], crashed = False\<rparr>"

definition demo_disk :: "nat blk_sys" where
  "demo_disk = demo_disk_with False demo_medium"

lemma upt3: "[0..<3] = [0, 1, 2 :: nat]"
  by (simp add: upt_rec)

lemma demo_pool_free: "pool_free (demo_pool x) [0, 1, 2]"
  by (auto simp: pool_free_def demo_pool_def VCABLK_POOL_USED_def)

lemma demo_pool_num: "pl_num (demo_pool x) = 3"
  by (simp add: demo_pool_def)

lemma rb_size_2: "rb_size_ok 2"
  by (auto simp: rb_size_ok_def intro!: exI [of _ 1])

lemma demo_fresh: "fresh_disk demo_disk"
  using rb_size_2
  by (simp add: demo_pool_free [simplified] fresh_disk_def demo_disk_def demo_disk_with_def rq_num_def cq_num_def rb_cnt_ok_def demo_pool_num upt3 Let_def)

lemma demo_memory: "memory_disk demo_disk demo_medium [0, 1, 2]" "ack_room demo_disk"
  using demo_pool_free
  by (simp_all add: memory_disk_def demo_disk_def demo_disk_with_def demo_medium_def transfer_pool_ok_def ack_room_def VCA_RB_BUFF_FULL_def VCA_RB_BUFF_EMPTY_def)
    (simp add: demo_pool_def demo_buffer_def)

definition demo_ops :: "blk_op list" where
  "demo_ops = [Side (New_bio 10 5 \<lparr>bio_id = 7, bi_sector = 3, bi_flush = False, bi_write = True,
      bi_segs = [\<lparr>bv_page = 1, bv_offset = 0, bv_len = 4096\<rparr>]\<rparr>), Transfer [[Handle]], Side Take, Side Handle]"

lemma demo_guarded: "blk.guarded demo_ops demo_disk"
  by (simp add: demo_ops_def bio_requests_def flush_requests_def VCABLK_MAX_PARTS_PER_REQUEST_def demo_disk_def demo_disk_with_def split: outcome.split
      del: blk_step.simps)

theorem bios_conserved_witness:
  "\<exists>s. blk.run demo_ops demo_disk = Ret s \<and> \<not> crashed s \<and> map snd (published s) = taken s @ map snd (posted s)"
  using bios_conserved [OF demo_fresh demo_guarded] by blast

theorem contexts_well_formed_witness:
  "\<exists>s. blk.run demo_ops demo_disk = Ret s \<and>
    mset (free_ids (bio_context_pool s) @ under_way Idle s) = mset [0..<unat (pl_num (bio_context_pool s))]"
proof -
  obtain s where "blk.run demo_ops demo_disk = Ret s" using blk.run_safe [OF fresh_inv [OF demo_fresh] demo_guarded] by blast
  then show ?thesis using contexts_well_formed [OF demo_fresh demo_guarded] by blast
qed

theorem next_group_taken_witness:
  "map_option (\<lambda>(rs, d). (rs, request_last_used d, last_used (request_ring d)))
    (vcablk_bcknd_disk_get_next_request (demo_disk\<lparr>request_ring := \<lparr>num_elems = 2, elem_size = 32, last_add = 2, last_used = 0, size_alloc = 0, ring_dma_addr = 0,
      elems = (\<lambda>i. demo_request REQUEST_READ 0 8 (of_nat i + 1))\<rparr>\<rparr>)) =
    Some ([demo_request REQUEST_READ 0 8 1], 1, 1)"
proof -
  let ?r = "\<lparr>num_elems = 2, elem_size = 32, last_add = 2, last_used = 0, size_alloc = 0, ring_dma_addr = 0, elems = (\<lambda>i. demo_request REQUEST_READ 0 8 (of_nat i + 1))\<rparr>"
  let ?d = "demo_disk\<lparr>request_ring := ?r\<rparr>"
  have ok: "request_ring_ok ?d" using rb_size_2 by (simp add: request_ring_ok_def demo_disk_def demo_disk_with_def rb_cnt_ok_def)
  have u: "rb_used 2 0 2 = 2" "rb_pos 2 0 = 0" "rb_add 2 0 (Suc 0) = 1"
    by (simp_all add: rb_used_def VCA_RB_BUFF_USED_def rb_pos_def VCA_RB_COUNTER_TO_IDX_def rb_add_def VCA_RB_COUNTER_ADD_def)
  have "[0..<2] = [0, 1 :: nat]" by (simp add: upt_rec)
  then have w: "waiting_requests ?d = [demo_request REQUEST_READ 0 8 1, demo_request REQUEST_READ 0 8 2]"
    by (simp add: waiting_requests_def demo_disk_def demo_disk_with_def rb.window_def u circ_def)
  have g: "next_group (waiting_requests ?d) = (1, [demo_request REQUEST_READ 0 8 1])"
    unfolding w by (simp add: next_group_def demo_request_def VCABLK_MAX_PARTS_PER_REQUEST_def)
  show ?thesis unfolding next_group_taken [OF ok] g using w by (simp add: demo_disk_def demo_disk_with_def u)
qed

theorem bad_counter_hangs_witness:
  "vcablk_bcknd_disk_make_request_thread (\<lambda>_. id) (demo_disk\<lparr>request_ring := (request_ring demo_disk)\<lparr>last_add := 4\<rparr>\<rparr>) = None"
  using rb_size_2 by (intro bad_counter_hangs) (simp_all add: demo_disk_def demo_disk_with_def rb_cnt_ok_def demo_request_def)

text \<open>A medium in a file, and an engine that ends one job in each sleep.\<close>

definition demo_file :: "(u8 mem) vcablk_media" where
  "demo_file = \<lparr>md_read_only = False, md_size_bytes = 8192, md_file_path = ''demo'', md_type = VCABLK_DISK_TYPE_FILE,
    md_memory = (\<lambda>_. 0), md_file = (\<lambda>_. 7), md_ops = \<lparr>vfs_read = (\<lambda>f a n. (int n, map f [unat a..<unat a + n])),
      vfs_write = (\<lambda>f a bs. (int (length bs), blit f (unat a) ((!) bs) 0 (length bs))), vfs_fsync = (\<lambda>f. 0)\<rparr>\<rparr>"

definition demo_engine :: "('f, 'a) sleep" where
  "demo_engine k d = (case dma_done (\<lambda>_. id) d of Abort \<Rightarrow> d | Ret d' \<Rightarrow> d')"

lemma demo_engine_progress: "engine_progress demo_engine"
  by (auto simp: engine_progress_def demo_engine_def intro!: exI [of _ 0] split: outcome.split)

lemma demo_dma: "dma_disk id True (demo_disk_with True demo_file) demo_file [0, 1, 2]"
  using demo_pool_free
  by (simp add: dma_disk_def demo_disk_with_def demo_file_def good_medium_def file_law_def tparam_def)
    (simp add: demo_pool_def demo_buffer_def)


theorem bound_check_wraps_witness:
  "media_transfer_mem demo_medium 15 1 (\<lambda>_. 0) 4096 True = media_copy demo_medium (\<lambda>_. 0) True 7680 512 \<and>
   media_transfer_mem demo_medium 16 1 (\<lambda>_. 0) 4096 True = Ret (- EIO, demo_medium, \<lambda>_. 0) \<and>
   media_transfer_mem demo_medium (2 ^ 55) 1 (\<lambda>_. 0) 4096 True = media_copy demo_medium (\<lambda>_. 0) True 0 512 \<and>
   media_transfer_mem demo_medium (2 ^ 55 - 1) 1 (\<lambda>_. 0) 4096 True = Abort"
proof (intro conjI)
  show "media_transfer_mem demo_medium 15 1 (\<lambda>_. 0) 4096 True = media_copy demo_medium (\<lambda>_. 0) True 7680 512"
    using bound_check_wraps [OF refl refl, of 1 4096 demo_medium 15] by (simp add: demo_medium_def)
  show "media_transfer_mem demo_medium 16 1 (\<lambda>_. 0) 4096 True = Ret (- EIO, demo_medium, \<lambda>_. 0)"
    using bound_check_wraps [OF refl refl, of 1 4096 demo_medium 16] by (simp add: demo_medium_def)
  show "media_transfer_mem demo_medium (2 ^ 55) 1 (\<lambda>_. 0) 4096 True = media_copy demo_medium (\<lambda>_. 0) True 0 512"
    using bound_check_wraps [OF refl refl, of 1 4096 demo_medium "2 ^ 55"] by (simp add: demo_medium_def)
  show "media_transfer_mem demo_medium (2 ^ 55 - 1) 1 (\<lambda>_. 0) 4096 True = Abort"
    using bound_check_wraps [OF refl refl, of 1 4096 demo_medium "2 ^ 55 - 1"] by (simp add: demo_medium_def)
qed

theorem failed_read_loses_buffer_witness:
  "\<exists>p. vcablk_bcknd_disk_request (\<lambda>_. id) [demo_request REQUEST_READ 16 1 5] demo_disk =
      Some (Ret (- EIO, put_ack 5 (- EIO) (demo_disk\<lparr>transfer_buffer_pool := p,
        remaps := remaps demo_disk @ [Remapped 65536 512, Unmapped 65536]\<rparr>))) \<and> transfer_pool_ok p [1, 2]"
  using failed_read_loses_buffer [OF demo_memory, of 0 "[1, 2]" 5 "demo_request REQUEST_READ 16 1 5" "[Remapped 65536 512, Unmapped 65536]"]
  by (simp add: demo_request_def demo_disk_def demo_disk_with_def demo_medium_def SECTOR_SHIFT_def)

end
